(* ===== verification/Prelude.thy ===== *)
theory Prelude
  imports Main "HOL-Library.Word"
begin

text \<open>
  Shared vocabulary of the development: the machine types the C++ sources use,
  the two memory primitives behind every \<open>memcpy\<close>/\<open>memmove\<close> of the runtime
  (reading a range of an array, overwriting a range of an array), and the generic lemmas on
  lists and words that the component theories rely on.

  A block of raw memory is a \<open>byte list\<close>.  Pointers into a block are offsets.  The collection
  \<open>mem_simps\<close> gathers the facts about ranges of memory.
\<close>

unbundle bit_operations_syntax

type_synonym byte = "8 word"
type_synonym u16 = "16 word"
type_synonym u32 = "32 word"
type_synonym u64 = "64 word"
type_synonym addr = nat

named_theorems mem_simps \<open>reading and writing ranges of memory\<close>

abbreviation size_t_modulus :: nat where
  "size_t_modulus \<equiv> 2 ^ 64"

section \<open>Ranges of memory\<close>

text \<open>\<open>slice i n m\<close> is what \<open>memcpy(dst, m + i, n)\<close> reads.\<close>

definition slice :: "nat \<Rightarrow> nat \<Rightarrow> 'a list \<Rightarrow> 'a list" where
  "slice i n m = take n (drop i m)"

text \<open>\<open>overwrite i src m\<close> is the memory \<open>m\<close> after \<open>memcpy(m + i, src, length src)\<close>.
  The callers keep the range inside the block; every component proves that its own accesses do.\<close>

definition overwrite :: "nat \<Rightarrow> 'a list \<Rightarrow> 'a list \<Rightarrow> 'a list" where
  "overwrite i src m = take i m @ src @ drop (i + length src) m"

lemma length_slice [simp]: "length (slice i n m) = min n (length m - i)"
  by (simp add: slice_def)

lemma slice_zero [simp]: "slice i 0 m = []"
  by (simp add: slice_def)

lemma slice_all [mem_simps]: "slice 0 n m = take n m"
  by (simp add: slice_def)

lemma nth_slice [mem_simps]: "k < n \<Longrightarrow> i + k < length m \<Longrightarrow> slice i n m ! k = m ! (i + k)"
  by (simp add: slice_def)

lemma slice_drop [mem_simps]: "drop k (slice i n m) = slice (i + k) (n - k) m"
  by (simp add: slice_def drop_take add.commute)

lemma slice_take [mem_simps]: "take k (slice i n m) = slice i (min k n) m"
  by (simp add: slice_def)

lemma slice_append_slice: "slice i a m @ slice (i + a) b m = slice i (a + b) m"
  by (simp add: slice_def take_add add.commute)

lemma length_overwrite [simp]:
  "i + length src \<le> length m \<Longrightarrow> length (overwrite i src m) = length m"
  by (simp add: overwrite_def)

lemma overwrite_Nil [simp]: "overwrite i [] m = m"
  by (simp add: overwrite_def)

lemma nth_overwrite [mem_simps]:
  assumes "i + length src \<le> length m" "k < length m"
  shows "overwrite i src m ! k = (if i \<le> k \<and> k < i + length src then src ! (k - i) else m ! k)"
  using assms by (auto simp: overwrite_def nth_append min_def)

lemma slice_overwrite_same [mem_simps]:
  "i + length src \<le> length m \<Longrightarrow> slice i (length src) (overwrite i src m) = src"
  by (simp add: slice_def overwrite_def)

lemma slice_overwrite_before [mem_simps]:
  assumes "j + n \<le> i" "i + length src \<le> length m"
  shows "slice j n (overwrite i src m) = slice j n m"
  using assms by (intro nth_equalityI) (auto simp: nth_slice nth_overwrite)

lemma slice_overwrite_after [mem_simps]:
  assumes "i + length src \<le> j" "i + length src \<le> length m"
  shows "slice j n (overwrite i src m) = slice j n m"
  using assms by (intro nth_equalityI) (auto simp: nth_slice nth_overwrite)

lemma take_overwrite_before [mem_simps]:
  "n \<le> i \<Longrightarrow> i + length src \<le> length m \<Longrightarrow> take n (overwrite i src m) = take n m"
  using slice_overwrite_before [of 0 n i src m] by (simp add: slice_all)

lemma slice_overwrite_extend [mem_simps]:
  assumes "j \<le> i" "i + length src \<le> length m"
  shows "slice j (i - j + length src) (overwrite i src m) = slice j (i - j) m @ src"
proof -
  have "slice j (i - j + length src) (overwrite i src m)
      = slice j (i - j) (overwrite i src m) @ slice i (length src) (overwrite i src m)"
    using slice_append_slice [of j "i - j" "overwrite i src m" "length src"] assms by simp
  also have "\<dots> = slice j (i - j) m @ src"
    using assms by (simp add: mem_simps)
  finally show ?thesis .
qed

section \<open>Words\<close>

lemma unat_u64_less: "unat (w :: u64) < size_t_modulus"
  using unsigned_less [of w, where 'a = nat] by simp

lemma of_nat_unat_id [simp]: "of_nat (unat w) = (w :: 'a::len word)"
  by (simp add: word_unat_eq_iff unat_of_nat)

lemma unat_u64_of_nat: "n < size_t_modulus \<Longrightarrow> unat (of_nat n :: u64) = n"
  by (simp add: unat_of_nat)

lemma unat_minus_le: "b \<le> a \<Longrightarrow> unat (a - b) = unat a - unat (b :: 'a::len word)"
  by (rule unat_sub)

lemma unat_plus_bounded:
  "unat a + unat b < 2 ^ LENGTH('a) \<Longrightarrow> unat (a + b) = unat a + unat (b :: 'a::len word)"
  by (simp add: unat_word_ariths)

lemma unat_min: "unat (min a b) = min (unat a) (unat (b :: 'a::len word))"
  by (simp add: min_def word_le_nat_alt)

section \<open>Integers in memory\<close>

text \<open>The object representation of a 32-bit integer on the little-endian targets of the runtime;
  \<open>memcpy\<close> from and to such an object.\<close>

definition u32_bytes :: "u32 \<Rightarrow> byte list" where
  "u32_bytes w = [ucast w, ucast (drop_bit 8 w), ucast (drop_bit 16 w), ucast (drop_bit 24 w)]"

definition bytes_u32 :: "byte list \<Rightarrow> u32" where
  "bytes_u32 bs = (if length bs = 4
     then ucast (bs ! 0) OR push_bit 8 (ucast (bs ! 1)) OR push_bit 16 (ucast (bs ! 2))
            OR push_bit 24 (ucast (bs ! 3)) else 0)"

lemma length_u32_bytes [simp]: "length (u32_bytes w) = 4"
  by (simp add: u32_bytes_def)

lemma bytes_u32_u32_bytes [simp]: "bytes_u32 (u32_bytes w) = w"
proof (rule bit_word_eqI)
  fix n assume "n < LENGTH(32)"
  then have "n < 32" by simp
  then consider "n < 8" | "8 \<le> n \<and> n < 16" | "16 \<le> n \<and> n < 24" | "24 \<le> n \<and> n < 32" by linarith
  then show "bit (bytes_u32 (u32_bytes w)) n \<longleftrightarrow> bit w n"
    by cases (auto simp: bytes_u32_def u32_bytes_def bit_simps)
qed

section \<open>Characters and bits of a byte\<close>

text \<open>A \<open>std::string\<close> is a list of bytes; \<open>bytes_of\<close> is the string of a literal.\<close>

definition bytes_of :: "string \<Rightarrow> byte list" where
  "bytes_of s = map of_char s"

lemma byte_high_bit [simp]: "8 \<le> n \<Longrightarrow> \<not> bit (x :: byte) n"
  using bit_imp_le_length [of x n] by auto

lemma byte_bit_eqI:
  assumes "bit (x :: byte) 0 = bit y 0" "bit x 1 = bit y 1" "bit x 2 = bit y 2" "bit x 3 = bit y 3"
    "bit x 4 = bit y 4" "bit x 5 = bit y 5" "bit x 6 = bit y 6" "bit x 7 = bit y 7"
  shows "x = y"
proof (rule bit_word_eqI)
  fix n assume "n < LENGTH(8)"
  then have "n = 0 \<or> n = 1 \<or> n = 2 \<or> n = 3 \<or> n = 4 \<or> n = 5 \<or> n = 6 \<or> n = 7" by auto
  then show "bit x n = bit y n" using assms by auto
qed

section \<open>Decimal numbers\<close>

text \<open>\<open>fmt\<close> and \<open>std::to_string\<close> print integers in decimal, a negative one with its sign.\<close>

fun decimal :: "nat \<Rightarrow> byte list" where
  "decimal k = (if k < 10 then [48 + of_nat k] else decimal (k div 10) @ [48 + of_nat (k mod 10)])"

declare decimal.simps [simp del]

definition decimal_int :: "int \<Rightarrow> byte list" where
  "decimal_int i = (if i < 0 then 0x2d # decimal (nat (- i)) else decimal (nat i))"

lemma decimal_not_Nil [simp]: "decimal k \<noteq> []"
  by (subst decimal.simps) simp

lemma decimal_digits: "b \<in> set (decimal k) \<Longrightarrow> 48 \<le> b \<and> b \<le> 57"
proof (induction k rule: decimal.induct)
  case (1 k)
  have "48 \<le> 48 + (of_nat d :: byte) \<and> 48 + (of_nat d :: byte) \<le> 57" if "d < 10" for d
    using that by (simp add: word_le_nat_alt unat_word_ariths unat_of_nat)
  then show ?case using 1 by (subst (asm) decimal.simps) (auto split: if_splits)
qed

end
