(* ===== verification/Byte_Fifo.thy ===== *)
theory Byte_Fifo
  imports Prelude
begin

text \<open>
  The contract that the byte queues of the runtime share: the in-process \<open>memory_buffer\<close> and
  the ring in shared memory.  A client only appends blocks, looks at the front and drops what it
  has consumed.  The locale states what a provider promises; the lemmas proved inside it hold for
  every provider, the main one being that no interleaving of appends and reads loses, duplicates or
  reorders a byte.
\<close>

datatype fifo_op = Put "byte list" | Get nat

text \<open>Running a sequence of operations: the bytes accepted so far, the bytes delivered so far and
  the final state.  A refused append changes nothing.\<close>

fun fifo_run ::
    "(byte list \<Rightarrow> 's \<Rightarrow> 's option) \<Rightarrow> (nat \<Rightarrow> 's \<Rightarrow> byte list) \<Rightarrow> (nat \<Rightarrow> 's \<Rightarrow> 's)
     \<Rightarrow> fifo_op list \<Rightarrow> 's \<Rightarrow> byte list \<times> byte list \<times> 's" where
  "fifo_run put view skip [] s = ([], [], s)"
| "fifo_run put view skip (Put bs # ops) s =
     (case put bs s of
        None \<Rightarrow> fifo_run put view skip ops s
      | Some s' \<Rightarrow> (let (i, out, t) = fifo_run put view skip ops s' in (bs @ i, out, t)))"
| "fifo_run put view skip (Get n # ops) s =
     (let (i, out, t) = fifo_run put view skip ops (skip n s) in (i, view n s @ out, t))"

locale byte_fifo =
  fixes invar :: "'s \<Rightarrow> bool"
    and stored :: "'s \<Rightarrow> byte list"
    and room :: "'s \<Rightarrow> nat"
    and put :: "byte list \<Rightarrow> 's \<Rightarrow> 's option"
    and view :: "nat \<Rightarrow> 's \<Rightarrow> byte list"
    and skip :: "nat \<Rightarrow> 's \<Rightarrow> 's"
  assumes put_sound: "invar s \<Longrightarrow> put bs s = Some s' \<Longrightarrow> invar s' \<and> stored s' = stored s @ bs"
    and put_progress: "invar s \<Longrightarrow> length bs \<le> room s \<Longrightarrow> bs \<noteq> [] \<Longrightarrow> \<exists>s'. put bs s = Some s'"
    and view_spec: "invar s \<Longrightarrow> view n s = take n (stored s)"
    and skip_spec: "invar s \<Longrightarrow> invar (skip n s) \<and> stored (skip n s) = drop n (stored s)"
begin

lemma run_conserves:
  assumes "invar s" and "fifo_run put view skip ops s = (i, out, t)"
  shows "invar t \<and> out @ stored t = stored s @ i"
  using assms
proof (induction ops arbitrary: s i out t)
  case Nil
  then show ?case by simp
next
  case (Cons op ops)
  show ?case
  proof (cases op)
    case (Put bs)
    show ?thesis
    proof (cases "put bs s")
      case None
      with Cons Put show ?thesis by simp
    next
      case (Some s')
      with Cons.prems(1) have s': "invar s'" "stored s' = stored s @ bs"
        using put_sound by blast+
      obtain i1 out1 t1 where r: "fifo_run put view skip ops s' = (i1, out1, t1)"
        by (metis prod_cases3)
      with Cons.IH [OF s'(1) r] Cons.prems(2) Put Some s'(2) show ?thesis by auto
    qed
  next
    case (Get n)
    obtain i1 out1 t1 where r: "fifo_run put view skip ops (skip n s) = (i1, out1, t1)"
      by (metis prod_cases3)
    have "invar (skip n s)" "stored (skip n s) = drop n (stored s)"
      using skip_spec Cons.prems(1) by blast+
    moreover from this Cons.IH [OF _ r] have "invar t1 \<and> out1 @ stored t1 = drop n (stored s) @ i1"
      by simp
    ultimately show ?thesis
      using Cons.prems Get r view_spec [OF Cons.prems(1), of n] by auto
  qed
qed

lemma put_then_view:
  assumes "invar s" "put bs s = Some s'" "stored s = []"
  shows "view (length bs) s' = bs"
  using put_sound [OF assms(1,2)] view_spec assms(3) by simp

end

end
