(* ===== verification/Buffer.thy ===== *)
theory Buffer
  imports Byte_Fifo
begin

text \<open>
  The byte buffers of \<open>runtime/include/simple/containers/buffer.hpp\<close>: the non-owning
  \<open>read_buffer\<close>, the base class \<open>buffer\<close> (a memory block with a read and a write offset),
  and the growing \<open>base_memory_buffer<Fixed, Allocator>\<close> with its in-object store.

  Offsets and sizes are \<open>nat\<close>; where an addition of the source can pass \<open>SIZE_MAX\<close> the
  wrap-around is written out.  The allocator is a parameter: whether an allocation succeeds,
  and the indeterminate bytes of the block it returns.
\<close>

section \<open>read_buffer\<close>

record read_buffer =
  rb_ptr :: "byte list"
  rb_capacity :: nat
  rb_read :: nat

definition rb_init :: "byte list \<Rightarrow> nat \<Rightarrow> read_buffer" where
  "rb_init ptr cap = \<lparr>rb_ptr = ptr, rb_capacity = cap, rb_read = 0\<rparr>"

definition rb_readable :: "read_buffer \<Rightarrow> nat" where
  "rb_readable r = rb_capacity r - rb_read r"

definition rb_read_bytes :: "nat \<Rightarrow> read_buffer \<Rightarrow> byte list \<times> read_buffer" where
  "rb_read_bytes sz r =
     (let n = min (rb_readable r) sz
      in (slice (rb_read r) n (rb_ptr r), r\<lparr>rb_read := rb_read r + n\<rparr>))"

definition rb_advance :: "nat \<Rightarrow> read_buffer \<Rightarrow> read_buffer" where
  "rb_advance bytes r =
     r\<lparr>rb_read := min ((rb_read r + bytes) mod size_t_modulus) (rb_capacity r)\<rparr>"

definition rb_string_view :: "read_buffer \<Rightarrow> byte list" where
  "rb_string_view r = (if rb_readable r > 0 then slice (rb_read r) (rb_readable r) (rb_ptr r) else [])"

definition rb_wf :: "read_buffer \<Rightarrow> bool" where
  "rb_wf r \<longleftrightarrow> rb_read r \<le> rb_capacity r \<and> rb_capacity r \<le> length (rb_ptr r)
     \<and> rb_capacity r < size_t_modulus"

section \<open>buffer\<close>

record buffer =
  b_data :: "byte list"
  b_capacity :: nat
  b_read :: nat
  b_write :: nat

definition buf_init :: "byte list \<Rightarrow> nat \<Rightarrow> nat \<Rightarrow> buffer" where
  "buf_init ptr cap prep =
     (if prep \<le> cap then \<lparr>b_data = ptr, b_capacity = cap, b_read = prep, b_write = prep\<rparr>
      else \<lparr>b_data = ptr, b_capacity = cap, b_read = 0, b_write = 0\<rparr>)"

definition buf_null :: buffer where
  "buf_null = \<lparr>b_data = [], b_capacity = 0, b_read = 0, b_write = 0\<rparr>"

text \<open>Move construction and move assignment: the new object and what is left in the source.\<close>

definition buf_move :: "buffer \<Rightarrow> buffer \<times> buffer" where
  "buf_move other = (other, buf_null)"

definition readable :: "'z buffer_scheme \<Rightarrow> nat" where
  "readable b = b_write b - b_read b"

definition writable :: "'z buffer_scheme \<Rightarrow> nat" where
  "writable b = b_capacity b - b_write b"

definition prependable :: "'z buffer_scheme \<Rightarrow> nat" where
  "prependable b = b_read b"

definition shrink :: "'z buffer_scheme \<Rightarrow> 'z buffer_scheme" where
  "shrink b =
     (if b_read b = 0 then b
      else let sz = readable b
           in b\<lparr>b_data := overwrite 0 (slice (b_read b) sz (b_data b)) (b_data b),
                b_read := 0, b_write := sz\<rparr>)"

definition buf_to_read_buffer :: "'z buffer_scheme \<Rightarrow> read_buffer" where
  "buf_to_read_buffer b =
     (if readable b = 0 then \<lparr>rb_ptr = [], rb_capacity = 0, rb_read = 0\<rparr>
      else \<lparr>rb_ptr = drop (b_read b) (b_data b), rb_capacity = readable b, rb_read = 0\<rparr>)"

definition buf_string_view :: "'z buffer_scheme \<Rightarrow> byte list" where
  "buf_string_view b =
     (if readable b = 0 then [] else slice (b_read b) (readable b) (b_data b))"

definition clear :: "nat \<Rightarrow> 'z buffer_scheme \<Rightarrow> 'z buffer_scheme" where
  "clear prep b = (let p = min prep (b_capacity b) in b\<lparr>b_read := p, b_write := p\<rparr>)"

definition written :: "nat \<Rightarrow> 'z buffer_scheme \<Rightarrow> 'z buffer_scheme" where
  "written sz b = b\<lparr>b_write := b_write b + min sz (writable b)\<rparr>"

definition buf_append :: "byte list \<Rightarrow> 'z buffer_scheme \<Rightarrow> 'z buffer_scheme" where
  "buf_append src b =
     (let len = min (length src) (writable b)
      in written len (b\<lparr>b_data := overwrite (b_write b) (take len src) (b_data b)\<rparr>))"

definition peek :: "nat \<Rightarrow> 'z buffer_scheme \<Rightarrow> byte list" where
  "peek sz b = slice (b_read b) (min sz (readable b)) (b_data b)"

definition rpeek :: "nat \<Rightarrow> 'z buffer_scheme \<Rightarrow> byte list" where
  "rpeek sz b = (let n = min sz (readable b) in slice (b_write b - n) n (b_data b))"

definition prepend :: "byte list \<Rightarrow> 'z buffer_scheme \<Rightarrow> bool \<times> 'z buffer_scheme" where
  "prepend src b =
     (if prependable b < length src then (False, b)
      else (True, b\<lparr>b_data := overwrite (b_read b - length src) src (b_data b),
                    b_read := b_read b - length src\<rparr>))"

definition buf_read :: "nat \<Rightarrow> 'z buffer_scheme \<Rightarrow> 'z buffer_scheme" where
  "buf_read sz b = b\<lparr>b_read := b_read b + min sz (readable b)\<rparr>"

text \<open>\<open>read_until\<close> takes a pointer into the block; here it is its offset from \<open>data_\<close>.\<close>

definition read_until :: "nat \<Rightarrow> 'z buffer_scheme \<Rightarrow> 'z buffer_scheme" where
  "read_until e b =
     (if e > b_read b \<and> e \<le> b_write b then b\<lparr>b_read := b_read b + (e - b_read b)\<rparr> else b)"

definition buf_wf :: "'z buffer_scheme \<Rightarrow> bool" where
  "buf_wf b \<longleftrightarrow> b_read b \<le> b_write b \<and> b_write b \<le> b_capacity b \<and> b_capacity b \<le> length (b_data b)"

text \<open>The abstraction: the unread bytes, in order.\<close>

definition contents :: "'z buffer_scheme \<Rightarrow> byte list" where
  "contents b = slice (b_read b) (b_write b - b_read b) (b_data b)"

section \<open>base_memory_buffer\<close>

text \<open>
  \<open>mb_heap\<close> is \<open>data_ != store_\<close>.  While it holds, \<open>mb_store\<close> is what the in-object array
  \<open>store_\<close> contains; while it does not, \<open>data_\<close> is that array.
\<close>

record memory_buffer = buffer +
  mb_heap :: bool
  mb_store :: "byte list"

record allocator =
  alloc_max_size :: u64
  alloc_ok :: "nat \<Rightarrow> bool"
  alloc_fresh :: "nat \<Rightarrow> byte"

datatype mem_error = Bad_alloc

definition mb_init :: "nat \<Rightarrow> nat \<Rightarrow> memory_buffer" where
  "mb_init F prep =
     (let p = (if prep \<le> F then prep else 0)
      in \<lparr>b_data = replicate F 0, b_capacity = F, b_read = p, b_write = p,
          mb_heap = False, mb_store = replicate F 0\<rparr>)"

definition grow_capacity :: "allocator \<Rightarrow> nat \<Rightarrow> nat \<Rightarrow> nat" where
  "grow_capacity A cap sz =
     (let new_capacity = (cap + cap div 2) mod size_t_modulus
      in if sz > new_capacity then sz
         else if new_capacity > unat (alloc_max_size A)
         then (if sz > unat (alloc_max_size A) then sz else unat (alloc_max_size A))
         else new_capacity)"

definition grow :: "allocator \<Rightarrow> nat \<Rightarrow> memory_buffer \<Rightarrow> mem_error + memory_buffer" where
  "grow A sz b =
     (let new_capacity = grow_capacity A (b_capacity b) sz
      in if \<not> alloc_ok A new_capacity then Inl Bad_alloc
         else Inr (b\<lparr>b_data := overwrite 0 (take (b_write b) (b_data b))
                                 (map (alloc_fresh A) [0..<new_capacity]),
                     b_capacity := new_capacity,
                     mb_heap := True,
                     mb_store := (if mb_heap b then mb_store b else b_data b)\<rparr>))"

definition reserve :: "allocator \<Rightarrow> nat \<Rightarrow> memory_buffer \<Rightarrow> mem_error + memory_buffer" where
  "reserve A sz b = (if sz > b_capacity b then grow A sz b else Inr b)"

definition make_sure_writable ::
    "allocator \<Rightarrow> nat \<Rightarrow> memory_buffer \<Rightarrow> mem_error + memory_buffer" where
  "make_sure_writable A len b =
     (let sz = writable b
      in if sz < len then grow A ((b_capacity b + len - sz) mod size_t_modulus) b else Inr b)"

definition mb_append ::
    "allocator \<Rightarrow> byte list \<Rightarrow> memory_buffer \<Rightarrow> mem_error + memory_buffer" where
  "mb_append A src b =
     (case make_sure_writable A (length src) b of
        Inl e \<Rightarrow> Inl e
      | Inr b' \<Rightarrow> Inr (buf_append src b'))"

definition mb_from_bytes :: "allocator \<Rightarrow> nat \<Rightarrow> byte list \<Rightarrow> mem_error + memory_buffer" where
  "mb_from_bytes A F src = mb_append A src (mb_init F 0)"

definition mb_from_read_buffer ::
    "allocator \<Rightarrow> nat \<Rightarrow> read_buffer \<Rightarrow> mem_error + memory_buffer" where
  "mb_from_read_buffer A F r =
     mb_append A (slice (rb_read r) (rb_readable r) (rb_ptr r)) (mb_init F 0)"

definition mb_assign ::
    "allocator \<Rightarrow> memory_buffer \<Rightarrow> memory_buffer \<Rightarrow> mem_error + memory_buffer" where
  "mb_assign A other b =
     (case reserve A (b_capacity other) b of
        Inl e \<Rightarrow> Inl e
      | Inr b' \<Rightarrow> Inr (b'\<lparr>b_read := b_read other, b_write := b_write other,
                          b_data := overwrite 0 (take (b_write other) (b_data other)) (b_data b')\<rparr>))"

definition mb_copy :: "allocator \<Rightarrow> nat \<Rightarrow> memory_buffer \<Rightarrow> mem_error + memory_buffer" where
  "mb_copy A F other = mb_assign A other (mb_init F 0)"

text \<open>Move construction: the new buffer and what remains of \<open>other\<close>.  The default-constructed
  base class leaves capacity 0 behind.\<close>

definition mb_moved_from :: "memory_buffer \<Rightarrow> memory_buffer" where
  "mb_moved_from other =
     other\<lparr>b_capacity := 0, b_read := 0, b_write := 0,
           b_data := (if mb_heap other then mb_store other else b_data other), mb_heap := False\<rparr>"

definition mb_move :: "nat \<Rightarrow> memory_buffer \<Rightarrow> memory_buffer \<times> memory_buffer" where
  "mb_move F other =
     (\<lparr>b_data = (if mb_heap other then b_data other
                else overwrite 0 (take (b_write other) (b_data other)) (replicate F 0)),
       b_capacity = b_capacity other, b_read = b_read other, b_write = b_write other,
       mb_heap = mb_heap other, mb_store = replicate F 0\<rparr>,
      mb_moved_from other)"

text \<open>Move assignment first moves \<open>*this\<close> into a temporary (destroyed at the end of the
  block), which leaves \<open>*this\<close> on its own store with capacity 0.\<close>

definition mb_move_assign ::
    "memory_buffer \<Rightarrow> memory_buffer \<Rightarrow> memory_buffer \<times> memory_buffer" where
  "mb_move_assign b other =
     (let this = mb_moved_from b
      in (this\<lparr>b_capacity := b_capacity other, b_read := b_read other, b_write := b_write other,
               b_data := (if mb_heap other then b_data other
                         else overwrite 0 (take (b_write other) (b_data other)) (b_data this)),
               mb_heap := mb_heap other,
               mb_store := b_data this\<rparr>,
          mb_moved_from other))"

definition release :: "nat \<Rightarrow> memory_buffer \<Rightarrow> memory_buffer" where
  "release F b =
     clear 0 (if mb_heap b then b\<lparr>b_data := mb_store b, mb_heap := False, b_capacity := F\<rparr> else b)"

text \<open>\<open>back_insert_iterator::operator=\<close> appends one character.\<close>

definition push_back :: "allocator \<Rightarrow> byte \<Rightarrow> memory_buffer \<Rightarrow> mem_error + memory_buffer" where
  "push_back A c b = mb_append A [c] b"

definition mb_wf :: "nat \<Rightarrow> memory_buffer \<Rightarrow> bool" where
  "mb_wf F b \<longleftrightarrow> buf_wf b \<and> length (mb_store b) = F \<and> b_capacity b < size_t_modulus
     \<and> (if mb_heap b then length (b_data b) = b_capacity b else length (b_data b) = F)"

section \<open>Offsets stay in range\<close>

lemmas buf_defs = readable_def writable_def prependable_def contents_def buf_wf_def

named_theorems buf_ops \<open>definitions of the buffer operations\<close>

lemmas [buf_ops] =
  shrink_def clear_def written_def buf_append_def peek_def rpeek_def prepend_def buf_read_def
  read_until_def

lemma length_contents: "buf_wf b \<Longrightarrow> length (contents b) = readable b"
  by (auto simp: buf_defs)

lemma buf_wf_buf_init: "cap \<le> length ptr \<Longrightarrow> buf_wf (buf_init ptr cap prep)"
  by (simp add: buf_init_def buf_wf_def)

lemma buf_wf_written: "buf_wf b \<Longrightarrow> buf_wf (written n b)"
  by (auto simp: buf_ops buf_defs)

lemma buf_wf_read: "buf_wf b \<Longrightarrow> buf_wf (buf_read n b)"
  by (auto simp: buf_ops buf_defs)

lemma buf_wf_read_until: "buf_wf b \<Longrightarrow> buf_wf (read_until e b)"
  by (auto simp: buf_ops buf_defs)

lemma buf_wf_clear: "buf_wf b \<Longrightarrow> buf_wf (clear n b)"
  by (auto simp: buf_ops buf_defs Let_def)

lemma buf_wf_shrink: "buf_wf b \<Longrightarrow> buf_wf (shrink b)"
  by (auto simp: buf_ops buf_defs Let_def)

lemma buf_wf_append: "buf_wf b \<Longrightarrow> buf_wf (buf_append bs b)"
  by (auto simp: buf_ops buf_defs Let_def)

lemma buf_wf_prepend: "buf_wf b \<Longrightarrow> buf_wf (snd (prepend bs b))"
  by (auto simp: buf_ops buf_defs Let_def)

section \<open>What each operation does to the unread bytes\<close>

lemma contents_clear: "contents (clear n b) = []"
  by (simp add: buf_ops buf_defs Let_def)

lemma contents_read: "buf_wf b \<Longrightarrow> contents (buf_read n b) = drop n (contents b)"
  by (auto simp: buf_ops buf_defs mem_simps min_def)

lemma contents_read_until:
  "buf_wf b \<Longrightarrow> b_read b < e \<Longrightarrow> e \<le> b_write b \<Longrightarrow>
     contents (read_until e b) = drop (e - b_read b) (contents b)"
  by (simp add: buf_ops buf_defs mem_simps)

lemma contents_shrink: "buf_wf b \<Longrightarrow> contents (shrink b) = contents b"
proof -
  assume wf: "buf_wf b"
  let ?s = "slice (b_read b) (readable b) (b_data b)"
  have "length ?s = readable b" using wf by (auto simp: buf_defs)
  moreover have "slice 0 (length ?s) (overwrite 0 ?s (b_data b)) = ?s"
    by (rule slice_overwrite_same) (use wf in \<open>auto simp: buf_defs\<close>)
  ultimately show ?thesis
    by (auto simp: shrink_def contents_def readable_def Let_def)
qed

lemma writable_shrink: "buf_wf b \<Longrightarrow> writable (shrink b) = writable b + prependable b"
  by (auto simp: buf_ops buf_defs Let_def)

lemma contents_append:
  assumes "buf_wf b"
  shows "contents (buf_append bs b) = contents b @ take (writable b) bs"
proof -
  let ?n = "min (length bs) (writable b)"
  have "b_write b + length (take ?n bs) \<le> length (b_data b)"
    using assms by (auto simp: buf_defs)
  from slice_overwrite_extend [OF _ this, of "b_read b"] assms
  have "slice (b_read b) (b_write b - b_read b + length (take ?n bs))
          (overwrite (b_write b) (take ?n bs) (b_data b)) = contents b @ take ?n bs"
    by (simp add: buf_defs)
  moreover have "take ?n bs = take (writable b) bs"
    by (simp add: min_def)
  ultimately show ?thesis
    using assms by (simp add: buf_append_def written_def contents_def buf_wf_def writable_def Let_def)
qed

lemma peek_contents: "buf_wf b \<Longrightarrow> peek n b = take n (contents b)"
  by (simp add: buf_ops buf_defs mem_simps)

lemma rpeek_contents:
  "buf_wf b \<Longrightarrow> rpeek n b = drop (readable b - n) (contents b)"
  by (cases "n \<le> readable b") (auto simp: buf_ops buf_defs mem_simps Let_def min_def)

lemma string_view_contents: "buf_string_view b = contents b"
  by (simp add: buf_string_view_def contents_def readable_def)

lemma contents_prepend:
  assumes "buf_wf b" and le: "length bs \<le> prependable b"
  shows "contents (snd (prepend bs b)) = bs @ contents b"
proof -
  let ?i = "b_read b - length bs"
  let ?m = "overwrite ?i bs (b_data b)"
  have i: "?i + length bs \<le> length (b_data b)" "?i + length bs = b_read b"
    using assms by (auto simp: buf_defs)
  have "slice ?i (length bs + (b_write b - b_read b)) ?m
      = slice ?i (length bs) ?m @ slice (b_read b) (b_write b - b_read b) ?m"
    using slice_append_slice [of ?i "length bs" ?m "b_write b - b_read b"] i by simp
  also have "\<dots> = bs @ contents b"
    using i by (simp add: mem_simps contents_def)
  finally show ?thesis
    using assms by (simp add: prepend_def contents_def buf_wf_def prependable_def add.commute)
qed

section \<open>Growing\<close>

lemma grow_capacity_ge: "sz \<le> grow_capacity A cap sz"
  by (simp add: grow_capacity_def Let_def)

lemma grow_capacity_bound:
  "sz < size_t_modulus \<Longrightarrow> grow_capacity A cap sz < size_t_modulus"
  using unat_u64_less [of "alloc_max_size A"] by (simp add: grow_capacity_def Let_def)

lemma grow_correct:
  assumes wf: "mb_wf F b" and sz: "b_write b \<le> sz" "sz < size_t_modulus"
    and g: "grow A sz b = Inr b'"
  shows "mb_wf F b' \<and> contents b' = contents b \<and> sz \<le> b_capacity b' \<and> b_write b' = b_write b
     \<and> b_read b' = b_read b"
proof -
  let ?n = "grow_capacity A (b_capacity b) sz"
  let ?m = "overwrite 0 (take (b_write b) (b_data b)) (map (alloc_fresh A) [0..<?n])"
  have wn: "b_write b \<le> ?n" using sz grow_capacity_ge [of sz A "b_capacity b"] by simp
  have lt: "length (take (b_write b) (b_data b)) = b_write b"
    using wf by (auto simp: mb_wf_def buf_wf_def)
  from g have b': "b' = b\<lparr>b_data := ?m, b_capacity := ?n, mb_heap := True,
      mb_store := (if mb_heap b then mb_store b else b_data b)\<rparr>"
    by (simp add: grow_def Let_def split: if_splits)
  have len: "length ?m = ?n" using wn lt by simp
  have tk: "take (b_write b) ?m = take (b_write b) (b_data b)"
    using slice_overwrite_same [of 0 "take (b_write b) (b_data b)"] wn lt by (simp add: slice_all)
  have "contents b' = drop (b_read b) (take (b_write b) ?m)"
    using wf wn by (simp add: b' contents_def slice_def drop_take mb_wf_def buf_wf_def)
  also have "\<dots> = contents b"
    by (simp only: tk) (simp add: contents_def slice_def drop_take)
  finally show ?thesis
    using wf wn len grow_capacity_bound [OF sz(2)] grow_capacity_ge [of sz A "b_capacity b"]
    by (auto simp: b' mb_wf_def buf_wf_def split: if_splits)
qed

lemma make_sure_writable_correct:
  assumes wf: "mb_wf F b" and n: "b_write b + n < size_t_modulus"
    and m: "make_sure_writable A n b = Inr b'"
  shows "mb_wf F b' \<and> contents b' = contents b \<and> n \<le> writable b' \<and> b_write b' = b_write b
     \<and> b_read b' = b_read b"
proof (cases "writable b < n")
  case True
  have "b_capacity b + n - writable b = b_write b + n"
    using wf by (simp add: writable_def mb_wf_def buf_wf_def)
  with True m n have g: "grow A (b_write b + n) b = Inr b'"
    by (simp add: make_sure_writable_def Let_def)
  from grow_correct [OF wf _ n g] show ?thesis by (auto simp: writable_def)
next
  case False
  with m wf show ?thesis by (simp add: make_sure_writable_def Let_def)
qed

lemma mb_wf_append: "mb_wf F b \<Longrightarrow> mb_wf F (buf_append bs b)"
  using buf_wf_append [of b bs]
  by (auto simp: mb_wf_def buf_append_def written_def writable_def buf_wf_def Let_def)

lemma mb_append_sound:
  assumes wf: "mb_wf F b" and n: "b_write b + length bs < size_t_modulus"
    and m: "mb_append A bs b = Inr b'"
  shows "mb_wf F b' \<and> contents b' = contents b @ bs"
proof -
  from m obtain c where c: "make_sure_writable A (length bs) b = Inr c" "b' = buf_append bs c"
    by (auto simp: mb_append_def split: sum.splits)
  from make_sure_writable_correct [OF wf n c(1)]
  have "mb_wf F c" "contents c = contents b" "length bs \<le> writable c" by auto
  then show ?thesis
    using mb_wf_append [of F c bs] contents_append [of c bs] by (simp add: c(2) mb_wf_def)
qed

lemma mb_append_no_growth:
  "length bs \<le> writable b \<Longrightarrow> mb_append A bs b = Inr (buf_append bs b)"
  by (simp add: mb_append_def make_sure_writable_def Let_def)

lemma mb_append_total:
  "(\<And>n. alloc_ok A n) \<Longrightarrow> \<exists>b'. mb_append A bs b = Inr b'"
  by (simp add: mb_append_def make_sure_writable_def grow_def Let_def)

lemma mb_wf_init: "F < size_t_modulus \<Longrightarrow> mb_wf F (mb_init F prep)"
  by (simp add: mb_init_def mb_wf_def buf_wf_def Let_def)

lemma contents_init [simp]: "contents (mb_init F prep) = []"
  by (simp add: mb_init_def contents_def Let_def)

section \<open>Copy, move, release\<close>

lemma reserve_correct:
  assumes wf: "mb_wf F b" and n: "n < size_t_modulus"
    and r: "reserve A n b = Inr b'"
  shows "mb_wf F b' \<and> contents b' = contents b \<and> n \<le> b_capacity b'"
proof (cases "b_capacity b < n")
  case True
  with r have g: "grow A n b = Inr b'" by (simp add: reserve_def)
  have "b_write b \<le> n" using wf True by (simp add: mb_wf_def buf_wf_def)
  from grow_correct [OF wf this n g] show ?thesis by simp
next
  case False
  with r wf show ?thesis by (simp add: reserve_def)
qed

lemma contents_via_take: "buf_wf b \<Longrightarrow> contents b = drop (b_read b) (take (b_write b) (b_data b))"
  by (simp add: contents_def slice_def drop_take)

lemma mb_assign_sound:
  assumes wf: "mb_wf F b" and wo: "mb_wf G other"
    and m: "mb_assign A other b = Inr b'"
  shows "mb_wf F b' \<and> contents b' = contents other"
proof -
  let ?t = "take (b_write other) (b_data other)"
  from m obtain c where c: "reserve A (b_capacity other) b = Inr c"
    and b': "b' = c\<lparr>b_read := b_read other, b_write := b_write other,
                     b_data := overwrite 0 ?t (b_data c)\<rparr>"
    by (auto simp: mb_assign_def split: sum.splits)
  have no: "b_capacity other < size_t_modulus" using wo by (simp add: mb_wf_def)
  from reserve_correct [OF wf no c] have wc: "mb_wf F c" "b_capacity other \<le> b_capacity c"
    by auto
  have lt: "length ?t = b_write other" using wo by (auto simp: mb_wf_def buf_wf_def)
  have le: "length ?t \<le> length (b_data c)"
    using wc wo lt by (auto simp: mb_wf_def buf_wf_def)
  have w: "mb_wf F b'"
    using wc wo le by (auto simp: b' mb_wf_def buf_wf_def split: if_splits)
  have "take (b_write other) (overwrite 0 ?t (b_data c)) = ?t"
    using slice_overwrite_same [of 0 ?t "b_data c"] le lt by (simp add: slice_all)
  then have "contents b' = contents other"
    using w wo contents_via_take [of b'] contents_via_take [of other] by (simp add: b' mb_wf_def)
  with w show ?thesis ..
qed

lemma mb_moved_from_sound:
  "mb_wf F b \<Longrightarrow> mb_wf F (mb_moved_from b) \<and> contents (mb_moved_from b) = []"
  by (auto simp: mb_moved_from_def mb_wf_def buf_wf_def contents_def)

lemma mb_move_sound:
  assumes "mb_wf F other" and mv: "mb_move F other = (b, other')"
  shows "mb_wf F b \<and> contents b = contents other \<and> mb_wf F other' \<and> contents other' = []"
proof (cases "mb_heap other")
  case True
  with assms show ?thesis
    by (auto simp: mb_move_def mb_moved_from_def mb_wf_def buf_wf_def contents_def)
next
  case False
  let ?t = "take (b_write other) (b_data other)"
  have lt: "length ?t = b_write other" "b_write other \<le> F"
    using assms False by (auto simp: mb_wf_def buf_wf_def)
  have "take (b_write other) (overwrite 0 ?t (replicate F 0)) = ?t"
    using slice_overwrite_same [of 0 ?t "replicate F 0"] lt by (simp add: slice_all)
  with assms False lt show ?thesis
    by (auto simp: mb_move_def mb_moved_from_def mb_wf_def buf_wf_def contents_via_take)
qed

lemma mb_move_assign_sound:
  assumes wf: "mb_wf F b" and wo: "mb_wf F other" and mv: "mb_move_assign b other = (b', other')"
  shows "mb_wf F b' \<and> contents b' = contents other \<and> mb_wf F other' \<and> contents other' = []"
proof (cases "mb_heap other")
  case True
  have o: "other' = mb_moved_from other"
    and b': "b' = (mb_moved_from b)\<lparr>b_capacity := b_capacity other, b_read := b_read other,
      b_write := b_write other, b_data := b_data other, mb_heap := True,
      mb_store := b_data (mb_moved_from b)\<rparr>"
    using mv True by (auto simp: mb_move_assign_def Let_def)
  have "length (b_data (mb_moved_from b)) = F"
    using mb_moved_from_sound [OF wf] by (simp add: mb_wf_def mb_moved_from_def)
  with wo True mb_moved_from_sound [OF wo] show ?thesis
    by (simp add: o b' mb_wf_def buf_wf_def contents_def)
next
  case False
  let ?s = "if mb_heap b then mb_store b else b_data b"
  let ?t = "take (b_write other) (b_data other)"
  have lt: "length ?t = b_write other" "b_write other \<le> F" "length ?s = F"
    using assms False by (auto simp: mb_wf_def buf_wf_def)
  have tk: "take (b_write other) (overwrite 0 ?t ?s) = ?t"
    using slice_overwrite_same [of 0 ?t ?s] lt by (simp add: slice_all)
  have b': "b' = (mb_moved_from b)\<lparr>b_capacity := b_capacity other, b_read := b_read other,
      b_write := b_write other, b_data := overwrite 0 ?t ?s, mb_heap := False, mb_store := ?s\<rparr>"
    using mv False by (auto simp: mb_move_assign_def mb_moved_from_def Let_def)
  have "mb_wf F b'"
    using wo lt False by (simp add: b' mb_wf_def buf_wf_def)
  moreover have "contents b' = contents other"
    using wo tk calculation by (simp add: b' contents_via_take mb_wf_def)
  ultimately show ?thesis
    using mb_moved_from_sound [OF wo] mv by (simp add: mb_move_assign_def Let_def)
qed

section \<open>The memory buffer is a byte queue\<close>

text \<open>The adapter to the queue contract.  An append whose end offset would pass \<open>SIZE_MAX\<close> cannot
  be requested: the source range and the block are disjoint objects of one address space.\<close>

definition mb_put :: "allocator \<Rightarrow> byte list \<Rightarrow> memory_buffer \<Rightarrow> memory_buffer option" where
  "mb_put A bs b =
     (if b_write b + length bs < size_t_modulus
      then (case mb_append A bs b of Inl _ \<Rightarrow> None | Inr b' \<Rightarrow> Some b') else None)"

lemma mb_wf_read: "mb_wf F b \<Longrightarrow> mb_wf F (buf_read n b)"
  using buf_wf_read [of b n] by (auto simp: mb_wf_def buf_read_def)

interpretation mb: byte_fifo "mb_wf F" contents writable "mb_put A" peek buf_read
  for F A
proof unfold_locales
  fix s s' bs
  assume "mb_wf F s" "mb_put A bs s = Some s'"
  then show "mb_wf F s' \<and> contents s' = contents s @ bs"
    using mb_append_sound [of F s bs A s'] by (auto simp: mb_put_def split: if_splits sum.splits)
next
  fix s :: memory_buffer and bs :: "byte list"
  assume "mb_wf F s" "length bs \<le> writable s"
  then show "\<exists>s'. mb_put A bs s = Some s'"
    by (auto simp: mb_put_def mb_append_no_growth mb_wf_def buf_wf_def writable_def)
next
  fix s n assume "mb_wf F s"
  then show "peek n s = take n (contents s)" by (simp add: peek_contents mb_wf_def)
next
  fix s n assume "mb_wf F s"
  then show "mb_wf F (buf_read n s) \<and> contents (buf_read n s) = drop n (contents s)"
    using mb_wf_read [of F s n] contents_read [of s n] by (simp add: mb_wf_def)
qed

section \<open>Properties\<close>

text \<open>C30: a \<open>memory_buffer\<close> is a byte stream.  For every sequence of appends and reads, the bytes
  delivered followed by the bytes still stored are the initial content followed by the bytes
  accepted: growing, reading and re-using the block never lose, duplicate or reorder a byte, and the
  offsets stay inside the block.\<close>

theorem memory_buffer_stream:
  assumes "mb_wf F b" and "fifo_run (mb_put A) peek buf_read ops b = (accepted, delivered, b')"
  shows "mb_wf F b' \<and> delivered @ contents b' = contents b @ accepted"
  by (rule mb.run_conserves [OF assms])

definition sample_alloc :: allocator where
  "sample_alloc = \<lparr>alloc_max_size = 0x7FFFFFFFFFFFFFFF, alloc_ok = (\<lambda>n. n \<le> 64), alloc_fresh = (\<lambda>_. 0xCC)\<rparr>"

lemma replicate4: "replicate 4 (x :: byte) = [x, x, x, x]"
  by (simp add: numeral_eq_Suc)

lemmas buf_eval = mb_put_def mb_append_def make_sure_writable_def grow_def grow_capacity_def
  sample_alloc_def mb_init_def buf_append_def written_def writable_def readable_def buf_read_def
  peek_def slice_def overwrite_def Let_def replicate4 take_Cons' drop_Cons'
  upt_conv_Cons

lemma sample_run:
  "fifo_run (mb_put sample_alloc) peek buf_read [Put [1, 2, 3], Get 2, Put [4, 5, 6, 7], Get 4] (mb_init 4 0)
   = ([1, 2, 3, 4, 5, 6, 7], [1, 2, 3, 4, 5, 6],
      \<lparr>b_data = [1, 2, 3, 4, 5, 6, 7], b_capacity = 7, b_read = 6, b_write = 7, mb_heap = True,
       mb_store = [1, 2, 3, 0]\<rparr>)"
  by (simp add: buf_eval)

theorem memory_buffer_stream_witness:
  "mb_wf 4 \<lparr>b_data = [1, 2, 3, 4, 5, 6, 7], b_capacity = 7, b_read = 6, b_write = 7, mb_heap = True,
       mb_store = [1, 2, 3, 0]\<rparr>"
  using memory_buffer_stream [OF mb_wf_init sample_run] by simp

text \<open>an append to a \<open>memory_buffer\<close> succeeds whenever the allocator provides the block that
  \<open>grow\<close> asks for, stores all bytes behind the unread ones, and leaves room for exactly what the
  block holds; the only error is the allocator's.\<close>

theorem memory_buffer_append:
  assumes "mb_wf F b" and "b_write b + length bs < size_t_modulus"
  shows "case mb_append A bs b of
      Inr b' \<Rightarrow> mb_wf F b' \<and> contents b' = contents b @ bs \<and> b_write b' = b_write b + length bs
    | Inl Bad_alloc \<Rightarrow> writable b < length bs
        \<and> \<not> alloc_ok A (grow_capacity A (b_capacity b) (b_write b + length bs))"
proof (cases "mb_append A bs b")
  case (Inl e)
  then have "writable b < length bs"
    using mb_append_no_growth [of bs b A] by (metis Inl_Inr_False linorder_not_less)
  moreover from this have "b_capacity b + length bs - writable b = b_write b + length bs"
    using assms(1) by (simp add: writable_def mb_wf_def buf_wf_def)
  ultimately show ?thesis
    using Inl assms(2)
    by (cases e) (auto simp: mb_append_def make_sure_writable_def grow_def Let_def split: if_splits)
next
  case (Inr b')
  then obtain c where c: "make_sure_writable A (length bs) b = Inr c" "b' = buf_append bs c"
    by (auto simp: mb_append_def split: sum.splits)
  from make_sure_writable_correct [OF assms c(1)]
  have "b_write b' = b_write b + length bs"
    by (auto simp: c(2) buf_append_def written_def writable_def Let_def min_def)
  with mb_append_sound [OF assms Inr] Inr show ?thesis by simp
qed

theorem memory_buffer_append_witness:
  "\<exists>b'. mb_append sample_alloc [7, 8, 9, 10, 11] (mb_init 4 0) = Inr b'
     \<and> contents b' = [7, 8, 9, 10, 11]"
proof -
  let ?b = "\<lparr>b_data = [7, 8, 9, 10, 11, 0xCC], b_capacity = 6, b_read = 0, b_write = 5, mb_heap = True,
    mb_store = [0, 0, 0, 0]\<rparr>"
  have e: "mb_append sample_alloc [7, 8, 9, 10, 11] (mb_init 4 0) = Inr ?b"
    by (simp add: buf_eval)
  have f: "(4 :: nat) < size_t_modulus" by simp
  have "b_write (mb_init 4 0) + length [7, 8, 9, 10, 11 :: byte] < size_t_modulus"
    by (simp add: mb_init_def)
  from memory_buffer_append [OF mb_wf_init [OF f] this, of sample_alloc]
  have "contents ?b = [7, 8, 9, 10, 11]" by (simp add: e)
  with e show ?thesis by blast
qed

text \<open>copying, moving and move-assigning a \<open>memory_buffer\<close> hand over exactly the unread bytes,
  whether they live in the in-object store or on the heap; the source of a move is left empty and
  usable.\<close>

theorem memory_buffer_copy_move:
  assumes "mb_wf F b" and "mb_wf F other"
  shows "(\<forall>c. mb_assign A other b = Inr c \<longrightarrow> mb_wf F c \<and> contents c = contents other)
       \<and> (\<forall>c. F < size_t_modulus \<longrightarrow> mb_copy A F other = Inr c \<longrightarrow>
            mb_wf F c \<and> contents c = contents other)
       \<and> (\<forall>c r. mb_move F other = (c, r) \<longrightarrow>
            mb_wf F c \<and> contents c = contents other \<and> mb_wf F r \<and> contents r = [])
       \<and> (\<forall>c r. mb_move_assign b other = (c, r) \<longrightarrow>
            mb_wf F c \<and> contents c = contents other \<and> mb_wf F r \<and> contents r = [])"
  unfolding mb_copy_def
  using mb_assign_sound [OF assms(1,2)] mb_assign_sound [OF mb_wf_init [of F 0] assms(2)]
    mb_move_sound [OF assms(2)] mb_move_assign_sound [OF assms]
  by blast

theorem memory_buffer_copy_move_witness:
  "contents (fst (mb_move_assign (mb_init 4 0)
      \<lparr>b_data = [1, 2, 3, 4], b_capacity = 4, b_read = 1, b_write = 3, mb_heap = False,
       mb_store = [0, 0, 0, 0]\<rparr>)) = [2, 3]"
proof -
  let ?o = "\<lparr>b_data = [1, 2, 3, 4], b_capacity = 4, b_read = 1, b_write = 3, mb_heap = False,
       mb_store = [0, 0, 0, 0]\<rparr>"
  have w: "mb_wf 4 ?o" by (simp add: mb_wf_def buf_wf_def)
  have c: "contents ?o = [2, 3]" by (simp add: contents_def slice_def numeral_eq_Suc)
  have f: "(4 :: nat) < size_t_modulus" by simp
  obtain d r where dr: "mb_move_assign (mb_init 4 0) ?o = (d, r)" by fastforce
  with memory_buffer_copy_move [OF mb_wf_init [OF f] w, of sample_alloc] have "contents d = contents ?o"
    by blast
  with c dr show ?thesis by simp
qed

text \<open>the operations of \<open>buffer\<close> on its unread bytes: \<open>shrink\<close> keeps them and turns the read
  prefix into writable room, \<open>prepend\<close> puts a block in front when the prefix has room for it,
  \<open>peek\<close> and \<open>rpeek\<close> read a prefix and a suffix, \<open>read\<close> drops a prefix, and an append to a buffer
  of fixed capacity stores as many bytes as fit.\<close>

theorem buffer_operations:
  assumes "buf_wf b"
  shows "contents (shrink b) = contents b \<and> writable (shrink b) = writable b + prependable b
       \<and> peek n b = take n (contents b)
       \<and> rpeek n b = drop (readable b - n) (contents b)
       \<and> contents (buf_read n b) = drop n (contents b)
       \<and> contents (buf_append bs b) = contents b @ take (writable b) bs
       \<and> (fst (prepend bs b) \<longleftrightarrow> length bs \<le> prependable b)
       \<and> (fst (prepend bs b) \<longrightarrow> contents (snd (prepend bs b)) = bs @ contents b)"
  using contents_shrink [OF assms] writable_shrink [OF assms] peek_contents [OF assms]
    rpeek_contents [OF assms] contents_read [OF assms] contents_append [OF assms]
    contents_prepend [OF assms]
  by (simp add: prepend_def linorder_not_less)

theorem buffer_operations_witness:
  "fst (prepend [9] \<lparr>b_data = [1, 2, 3, 4], b_capacity = 4, b_read = 1, b_write = 3\<rparr>)
   \<and> contents (snd (prepend [9] \<lparr>b_data = [1, 2, 3, 4], b_capacity = 4, b_read = 1, b_write = 3\<rparr>))
     = [9, 2, 3]"
proof -
  let ?b = "\<lparr>b_data = [1, 2, 3, 4], b_capacity = 4, b_read = 1, b_write = 3\<rparr> :: buffer"
  have "buf_wf ?b" by (simp add: buf_wf_def)
  from buffer_operations [OF this, of 0 "[9]"] show ?thesis
    by (simp add: prependable_def contents_def slice_def numeral_eq_Suc)
qed

end
