(* ===== verification/Shm_Buffer.thy ===== *)
theory Shm_Buffer
  imports Byte_Fifo
begin

text \<open>
  The ring buffer in shared memory, \<open>runtime/src/shm/shm_buffer.cpp\<close>.  The block holds the two
  running totals \<open>read\<close> and \<open>write\<close> (bytes ever read and written, which wrap at \<open>2^64\<close>), the two
  ring indices and the data area.  All of them are 64-bit words here, as \<open>size_t\<close> is in the
  source, so the wrap-around of the totals is part of the model.
\<close>

section \<open>The shared block and its operations\<close>

record shm_buffer =
  sb_read :: u64
  sb_write :: u64
  sb_read_index :: u64
  sb_write_index :: u64
  sb_data :: "byte list"
  sb_size :: u64

text \<open>The constructor maps the named segment.  A segment that did not exist is zeroed
  (\<open>memset\<close>); an existing one is used as it is.\<close>

definition shm_buffer_open :: "u64 \<Rightarrow> shm_buffer option \<Rightarrow> shm_buffer" where
  "shm_buffer_open sz existing =
     (case existing of
        None \<Rightarrow> \<lparr>sb_read = 0, sb_write = 0, sb_read_index = 0, sb_write_index = 0,
                 sb_data = replicate (unat sz) 0, sb_size = sz\<rparr>
      | Some d \<Rightarrow> d\<lparr>sb_size := sz\<rparr>)"

definition shm_readable :: "shm_buffer \<Rightarrow> u64" where
  "shm_readable s = sb_write s - sb_read s"

definition shm_writable :: "shm_buffer \<Rightarrow> u64" where
  "shm_writable s = sb_size s + sb_read s - sb_write s"

text \<open>\<open>read_impl\<close>: the length read, the bytes copied out and the index behind them.\<close>

definition read_impl :: "u64 \<Rightarrow> u64 \<Rightarrow> shm_buffer \<Rightarrow> u64 \<times> byte list \<times> u64" where
  "read_impl len0 offset s =
     (let total = shm_readable s
      in if total \<le> offset then (0, [], 0)
         else let len = min len0 (total - offset)
           in if len = 0 then (0, [], 0)
              else let index0 = sb_read_index s + offset;
                       index = (if index0 \<ge> sb_size s then index0 - sb_size s else index0);
                       temp = sb_size s - index
                in if len > temp
                   then (len,
                         slice (unat index) (unat temp) (sb_data s)
                           @ slice 0 (unat (len - temp)) (sb_data s),
                         len - temp)
                   else (len, slice (unat index) (unat len) (sb_data s),
                         (if index + len = sb_size s then 0 else index + len)))"

text \<open>\<open>write_impl\<close>: \<open>None\<close> when it returns false, else the new data area and the index behind
  the bytes written.\<close>

definition write_impl :: "byte list \<Rightarrow> u64 \<Rightarrow> shm_buffer \<Rightarrow> (byte list \<times> u64) option" where
  "write_impl buf offset s =
     (let len = of_nat (length buf); total = shm_writable s
      in if total \<le> offset then None
         else if len > total - offset then None
         else let index0 = sb_write_index s + offset;
                  index = (if index0 \<ge> sb_size s then index0 - sb_size s else index0);
                  temp = sb_size s - index
           in if len > temp
              then Some (overwrite 0 (drop (unat temp) buf)
                           (overwrite (unat index) (take (unat temp) buf) (sb_data s)),
                         len - temp)
              else Some (overwrite (unat index) buf (sb_data s),
                         (if index + len = sb_size s then 0 else index + len)))"

definition shm_write :: "byte list \<Rightarrow> shm_buffer \<Rightarrow> bool \<times> shm_buffer" where
  "shm_write buf s =
     (case write_impl buf 0 s of
        None \<Rightarrow> (False, s)
      | Some (d, index) \<Rightarrow>
          (True, s\<lparr>sb_data := d, sb_write_index := index,
                   sb_write := sb_write s + of_nat (length buf)\<rparr>))"

definition shm_written :: "u64 \<Rightarrow> shm_buffer \<Rightarrow> shm_buffer" where
  "shm_written len s =
     (if len > shm_writable s then s
      else let temp = sb_size s - sb_write_index s;
               index = (if len > temp then len - temp
                        else if sb_write_index s + len = sb_size s then 0
                        else sb_write_index s + len)
           in s\<lparr>sb_write_index := index, sb_write := sb_write s + len\<rparr>)"

definition shm_fill :: "byte list \<Rightarrow> u64 \<Rightarrow> shm_buffer \<Rightarrow> bool \<times> shm_buffer" where
  "shm_fill buf offset s =
     (case write_impl buf offset s of
        None \<Rightarrow> (False, s)
      | Some (d, _) \<Rightarrow> (True, s\<lparr>sb_data := d\<rparr>))"

definition shm_read :: "u64 \<Rightarrow> shm_buffer \<Rightarrow> byte list \<times> shm_buffer" where
  "shm_read len0 s =
     (let (len, bytes, index) = read_impl len0 0 s
      in (bytes, if len > 0 then s\<lparr>sb_read_index := index, sb_read := sb_read s + len\<rparr> else s))"

definition shm_skip :: "u64 \<Rightarrow> shm_buffer \<Rightarrow> shm_buffer" where
  "shm_skip len0 s =
     (let len = min len0 (shm_readable s)
      in if len = 0 then s
         else let temp = sb_size s - sb_read_index s;
                  index = (if len > temp then len - temp
                           else if sb_read_index s + len = sb_size s then 0
                           else sb_read_index s + len)
              in s\<lparr>sb_read_index := index, sb_read := sb_read s + len\<rparr>)"

definition shm_peek :: "u64 \<Rightarrow> u64 \<Rightarrow> shm_buffer \<Rightarrow> byte list" where
  "shm_peek len offset s = fst (snd (read_impl len offset s))"

section \<open>Invariant and abstraction\<close>

definition ring_slice :: "nat \<Rightarrow> nat \<Rightarrow> 'a list \<Rightarrow> 'a list" where
  "ring_slice i k d = map (\<lambda>j. d ! ((i + j) mod length d)) [0..<k]"

definition sb_used :: "shm_buffer \<Rightarrow> nat" where
  "sb_used s = unat (sb_write s - sb_read s)"

definition sb_wf :: "shm_buffer \<Rightarrow> bool" where
  "sb_wf s \<longleftrightarrow> 0 < sb_size s \<and> unat (sb_size s) < 2 ^ 63 \<and> length (sb_data s) = unat (sb_size s)
     \<and> sb_used s \<le> unat (sb_size s)
     \<and> unat (sb_read_index s) < unat (sb_size s)
     \<and> unat (sb_write_index s) = (unat (sb_read_index s) + sb_used s) mod unat (sb_size s)"

text \<open>The unread bytes, in order.\<close>

definition sb_contents :: "shm_buffer \<Rightarrow> byte list" where
  "sb_contents s = ring_slice (unat (sb_read_index s)) (sb_used s) (sb_data s)"

section \<open>Ranges of a ring\<close>

lemma length_ring_slice [simp]: "length (ring_slice i k d) = k"
  by (simp add: ring_slice_def)

lemma nth_ring_slice [simp]: "j < k \<Longrightarrow> ring_slice i k d ! j = d ! ((i + j) mod length d)"
  by (simp add: ring_slice_def)

lemma ring_slice_0 [simp]: "ring_slice i 0 d = []"
  by (simp add: ring_slice_def)

lemma drop_ring_slice: "drop m (ring_slice i k d) = ring_slice (i + m) (k - m) d"
  by (rule nth_equalityI) (auto simp: add.assoc)

lemma take_ring_slice: "take m (ring_slice i k d) = ring_slice i (min m k) d"
  by (rule nth_equalityI) auto

lemma ring_slice_mod: "ring_slice (i mod length d) k d = ring_slice i k d"
  by (rule nth_equalityI) (auto simp: mod_add_left_eq)

lemma ring_slice_append: "ring_slice i a d @ ring_slice (i + a) b d = ring_slice i (a + b) d"
  by (rule nth_equalityI) (auto simp: nth_append add.assoc)

lemma ring_slice_two_parts:
  assumes "i < length d" "k \<le> length d"
  shows "ring_slice i k d =
    (if k > length d - i then slice i (length d - i) d @ slice 0 (k - (length d - i)) d
     else slice i k d)"
proof (cases "k > length d - i")
  case True
  have "ring_slice i k d = slice i (length d - i) d @ slice 0 (k - (length d - i)) d"
  proof (rule nth_equalityI)
    show "length (ring_slice i k d) = length (slice i (length d - i) d @ slice 0 (k - (length d - i)) d)"
      using assms True by auto
    fix j assume "j < length (ring_slice i k d)"
    then show "ring_slice i k d ! j = (slice i (length d - i) d @ slice 0 (k - (length d - i)) d) ! j"
      using assms True by (auto simp: nth_append nth_slice mod_if add.commute)
  qed
  with True show ?thesis by simp
next
  case False
  with assms show ?thesis
    by (auto intro!: nth_equalityI simp: nth_slice)
qed

text \<open>What the one or two \<open>memmove\<close>s of \<open>write_impl\<close> do to the ring, position by position.\<close>

definition ring_write :: "nat \<Rightarrow> 'a list \<Rightarrow> 'a list \<Rightarrow> 'a list" where
  "ring_write i src d =
     (if length src > length d - i
      then overwrite 0 (drop (length d - i) src) (overwrite i (take (length d - i) src) d)
      else overwrite i src d)"

lemma length_ring_write [simp]:
  "i < length d \<Longrightarrow> length src \<le> length d \<Longrightarrow> length (ring_write i src d) = length d"
  by (simp add: ring_write_def)

lemma nth_ring_write:
  assumes "i < length d" "length src \<le> length d" "p < length d"
  shows "ring_write i src d ! p =
    (let k = (if i \<le> p then p - i else p + length d - i)
     in if k < length src then src ! k else d ! p)"
proof (cases "length src > length d - i")
  case True
  then show ?thesis using assms
    by (auto simp: ring_write_def nth_overwrite Let_def intro!: arg_cong [where f = "\<lambda>x. src ! x"])
next
  case False
  then show ?thesis using assms by (auto simp: ring_write_def nth_overwrite Let_def)
qed

lemma nth_ring_write_at:
  assumes "i < length d" "length src \<le> length d" "k < length d"
  shows "ring_write i src d ! ((i + k) mod length d)
       = (if k < length src then src ! k else d ! ((i + k) mod length d))"
proof -
  have "(i + k) mod length d = (if i + k < length d then i + k else i + k - length d)"
    using assms by (simp add: mod_if)
  then show ?thesis using assms
    by (auto simp: nth_ring_write Let_def)
qed

lemma ring_slice_ring_write_same:
  assumes "i < length d" "length src \<le> length d"
  shows "ring_slice i (length src) (ring_write i src d) = src"
  using assms by (intro nth_equalityI) (auto simp: nth_ring_write_at)

text \<open>Writing behind the stored bytes leaves them alone.\<close>

lemma ring_slice_ring_write_before:
  assumes "r < length d" "m + length src \<le> length d"
  shows "ring_slice r m (ring_write ((r + m) mod length d) src d) = ring_slice r m d"
proof (rule nth_equalityI)
  fix j assume "j < length (ring_slice r m (ring_write ((r + m) mod length d) src d))"
  then have j: "j < m" by simp
  let ?i = "(r + m) mod length d"
  let ?k = "length d - m + j"
  have i: "?i < length d" by (rule mod_less_divisor) (use assms in linarith)
  have "(?i + ?k) mod length d = (r + j) mod length d"
  proof -
    have "(?i + ?k) mod length d = (r + m + ?k) mod length d" by (simp add: mod_add_left_eq)
    also have "r + m + ?k = r + j + length d" using assms by simp
    finally show ?thesis by simp
  qed
  moreover have "length src \<le> length d" "?k < length d" "\<not> ?k < length src" using assms j by linarith+
  ultimately have "ring_write ?i src d ! ((r + j) mod length d) = d ! ((r + j) mod length d)"
    using nth_ring_write_at [OF i, of src ?k] by simp
  with j i assms show "ring_slice r m (ring_write ?i src d) ! j = ring_slice r m d ! j" by simp
qed simp

section \<open>Index arithmetic on 64-bit words\<close>

lemma u64_add_bounded:
  fixes a b :: u64
  assumes "unat a < 2 ^ 63" "unat b \<le> 2 ^ 63"
  shows "unat (a + b) = unat a + unat b"
  using assms by (intro unat_plus_bounded) simp

lemma unat_u64_of_nat_mod:
  assumes "0 < n" "n < 2 ^ 63"
  shows "unat (of_nat (x mod n) :: u64) = x mod n"
proof (rule unat_u64_of_nat)
  have "x mod n < n" using assms(1) by simp
  also have "\<dots> < size_t_modulus" using assms(2) by simp
  finally show "x mod n < size_t_modulus" .
qed

text \<open>The two pieces of index arithmetic that every operation repeats: moving the cursor by an
  offset, and the cursor behind a block of \<open>len\<close> bytes.\<close>

definition ring_start :: "u64 \<Rightarrow> u64 \<Rightarrow> u64 \<Rightarrow> u64" where
  "ring_start sz a off = (if a + off \<ge> sz then a + off - sz else a + off)"

definition ring_next :: "u64 \<Rightarrow> u64 \<Rightarrow> u64 \<Rightarrow> u64" where
  "ring_next sz i len =
     (if len > sz - i then len - (sz - i) else if i + len = sz then 0 else i + len)"

lemma unat_ring_start:
  assumes "unat a < unat sz" "unat off \<le> unat sz" "unat sz < 2 ^ 63"
  shows "unat (ring_start sz a off) = (unat a + unat off) mod unat sz"
proof -
  have s: "unat (a + off) = unat a + unat off"
    using assms by (intro u64_add_bounded) auto
  show ?thesis
  proof (cases "sz \<le> a + off")
    case True
    then have "unat sz \<le> unat a + unat off" by (simp add: word_le_nat_alt s)
    with True assms show ?thesis by (simp add: ring_start_def unat_minus_le s mod_if)
  next
    case False
    then have "unat a + unat off < unat sz" by (simp add: word_le_nat_alt s)
    with False show ?thesis by (simp add: ring_start_def s)
  qed
qed

lemma unat_size_minus:
  fixes i sz :: u64
  shows "unat i < unat sz \<Longrightarrow> unat (sz - i) = unat sz - unat i"
  by (intro unat_minus_le) (simp add: word_le_nat_alt)

lemma unat_ring_next:
  assumes i: "unat i < unat sz" and l: "unat len \<le> unat sz" and sz: "unat sz < 2 ^ 63"
  shows "unat (ring_next sz i len) = (unat i + unat len) mod unat sz"
proof -
  note t = unat_size_minus [OF i]
  have s: "unat (i + len) = unat i + unat len"
    using assms by (intro u64_add_bounded) auto
  show ?thesis
  proof (cases "len > sz - i")
    case True
    then have "unat len > unat sz - unat i" by (simp add: word_less_nat_alt t)
    moreover have "unat (len - (sz - i)) = unat len - (unat sz - unat i)"
      using True by (simp add: unat_minus_le t)
    ultimately show ?thesis using True assms by (auto simp: ring_next_def mod_if)
  next
    case False
    then have le: "unat i + unat len \<le> unat sz" using i by (simp add: word_less_nat_alt t)
    have eq: "i + len = sz \<longleftrightarrow> unat i + unat len = unat sz"
      by (simp add: word_unat_eq_iff s)
    show ?thesis
      using False eq le by (cases "i + len = sz") (auto simp: ring_next_def s)
  qed
qed

lemma unat_shm_readable: "unat (shm_readable s) = sb_used s"
  by (simp add: shm_readable_def sb_used_def)

lemma unat_shm_writable:
  assumes "sb_wf s"
  shows "unat (shm_writable s) = unat (sb_size s) - sb_used s"
proof -
  have "shm_writable s = sb_size s - (sb_write s - sb_read s)"
    by (simp add: shm_writable_def algebra_simps)
  with assms show ?thesis
    by (simp add: unat_minus_le sb_wf_def sb_used_def word_le_nat_alt)
qed

section \<open>What \<open>read_impl\<close> and \<open>write_impl\<close> compute\<close>

lemma read_impl_ring:
  assumes "\<not> shm_readable s \<le> offset" "len = min len0 (shm_readable s - offset)" "len \<noteq> 0"
    and i: "i = ring_start (sb_size s) (sb_read_index s) offset" "unat i < unat (sb_size s)"
    and d: "length (sb_data s) = unat (sb_size s)" "unat len \<le> unat (sb_size s)"
  shows "read_impl len0 offset s
       = (len, ring_slice (unat i) (unat len) (sb_data s), ring_next (sb_size s) i len)"
proof -
  have "read_impl len0 offset s =
      (if len > sb_size s - i
       then (len, slice (unat i) (unat (sb_size s - i)) (sb_data s)
               @ slice 0 (unat (len - (sb_size s - i))) (sb_data s), len - (sb_size s - i))
       else (len, slice (unat i) (unat len) (sb_data s),
             if i + len = sb_size s then 0 else i + len))"
    unfolding read_impl_def Let_def assms(2) [symmetric] ring_start_def [symmetric] i(1) [symmetric]
    using assms(1,3) by (simp only: if_False)
  moreover have "unat (len - (sb_size s - i)) = unat len - (unat (sb_size s) - unat i)"
    if "len > sb_size s - i"
    using that by (simp add: unat_minus_le unat_size_minus [OF i(2)])
  moreover have "len > sb_size s - i \<longleftrightarrow> unat len > length (sb_data s) - unat i"
    by (simp add: word_less_nat_alt unat_size_minus [OF i(2)] d)
  ultimately show ?thesis
    using ring_slice_two_parts [of "unat i" "sb_data s" "unat len"] i(2) d
    by (cases "sb_size s - i < len") (simp_all add: ring_next_def unat_size_minus [OF i(2)])
qed

lemma read_impl_spec:
  fixes len off :: u64
  assumes wf: "sb_wf s"
  defines "k \<equiv> min (unat len) (sb_used s - unat off)"
  shows "read_impl len off s = (of_nat k, slice (unat off) (unat len) (sb_contents s),
           if k = 0 then 0 else of_nat ((unat (sb_read_index s) + unat off + k) mod unat (sb_size s)))"
proof (cases "k = 0")
  case True
  then have "shm_readable s \<le> off \<or> min len (shm_readable s - off) = 0"
    by (auto simp: k_def min_def unat_shm_readable word_le_nat_alt unat_eq_0 split: if_splits)
  then have "read_impl len off s = (0, [], 0)"
    by (auto simp: read_impl_def Let_def)
  moreover have "slice (unat off) (unat len) (sb_contents s) = []"
    using True by (auto simp: slice_def sb_contents_def k_def min_def split: if_splits)
  ultimately show ?thesis using True by simp
next
  case False
  let ?n = "unat (sb_size s)" and ?r = "unat (sb_read_index s)"
  define len' where "len' = min len (shm_readable s - off)"
  define i where "i = ring_start (sb_size s) (sb_read_index s) off"
  have n: "0 < ?n" "?n < 2 ^ 63" "length (sb_data s) = ?n" "sb_used s \<le> ?n" "?r < ?n"
    using wf by (auto simp: sb_wf_def)
  from False have off: "unat off < sb_used s" by (simp add: k_def)
  then have gt: "\<not> shm_readable s \<le> off" "off \<le> shm_readable s"
    by (simp_all add: word_le_nat_alt unat_shm_readable)
  have k: "unat len' = k"
    using gt(2) by (simp add: len'_def unat_min unat_minus_le unat_shm_readable k_def)
  have ui: "unat i = (?r + unat off) mod ?n"
    unfolding i_def using n off by (intro unat_ring_start) auto
  with n have i: "unat i < ?n" by simp
  have kn: "unat len' \<le> ?n" using n k by (simp add: k_def)
  have "read_impl len off s
      = (len', ring_slice (unat i) (unat len') (sb_data s), ring_next (sb_size s) i len')"
    using False k by (intro read_impl_ring gt(1) len'_def i_def i n(3) kn) auto
  moreover have "ring_slice (unat i) (unat len') (sb_data s) = slice (unat off) (unat len) (sb_contents s)"
  proof -
    have "ring_slice (unat i) (unat len') (sb_data s) = ring_slice (?r + unat off) k (sb_data s)"
      using ring_slice_mod [of "?r + unat off" "sb_data s" k] by (simp only: n(3) ui k)
    also have "\<dots> = slice (unat off) (unat len) (sb_contents s)"
      by (simp add: slice_def sb_contents_def drop_ring_slice take_ring_slice k_def)
    finally show ?thesis .
  qed
  moreover have "ring_next (sb_size s) i len' = of_nat ((?r + unat off + k) mod ?n)"
  proof -
    have "unat (ring_next (sb_size s) i len') = (?r + unat off + k) mod ?n"
      using unat_ring_next [OF i kn n(2)] by (simp add: ui k mod_add_left_eq)
    then show ?thesis by (metis of_nat_unat_id)
  qed
  moreover have "len' = of_nat k" using k by (metis of_nat_unat_id)
  ultimately show ?thesis using False by simp
qed

lemma write_impl_ring:
  assumes len: "len = of_nat (length buf)" "length buf < size_t_modulus"
    and sp: "\<not> shm_writable s \<le> offset" "\<not> len > shm_writable s - offset"
    and i: "i = ring_start (sb_size s) (sb_write_index s) offset" "unat i < unat (sb_size s)"
    and d: "length (sb_data s) = unat (sb_size s)"
  shows "write_impl buf offset s = Some (ring_write (unat i) buf (sb_data s), ring_next (sb_size s) i len)"
proof -
  have l: "unat len = length buf" using len by (simp add: unat_u64_of_nat)
  have cmp: "len > sb_size s - i \<longleftrightarrow> length buf > length (sb_data s) - unat i"
    by (simp add: word_less_nat_alt l d unat_size_minus [OF i(2)])
  have "write_impl buf offset s =
      (if len > sb_size s - i
       then Some (overwrite 0 (drop (unat (sb_size s - i)) buf)
              (overwrite (unat i) (take (unat (sb_size s - i)) buf) (sb_data s)),
              len - (sb_size s - i))
       else Some (overwrite (unat i) buf (sb_data s), if i + len = sb_size s then 0 else i + len))"
    unfolding write_impl_def Let_def len(1) [symmetric] ring_start_def [symmetric] i(1) [symmetric]
    using sp by (simp only: if_False)
  then show ?thesis
    using cmp by (simp add: ring_next_def ring_write_def unat_size_minus [OF i(2)] d)
qed

lemma write_impl_refuses:
  assumes "sb_wf s" "length buf < size_t_modulus"
  shows "write_impl buf off s = None
     \<longleftrightarrow> unat (sb_size s) - sb_used s \<le> unat off \<or> unat (sb_size s) - sb_used s < unat off + length buf"
proof -
  have w: "unat (shm_writable s) = unat (sb_size s) - sb_used s"
    by (rule unat_shm_writable [OF assms(1)])
  have l: "unat (of_nat (length buf) :: u64) = length buf" by (rule unat_u64_of_nat [OF assms(2)])
  have "off \<le> shm_writable s \<Longrightarrow> unat (shm_writable s - off) = unat (sb_size s) - sb_used s - unat off"
    by (simp add: unat_minus_le w)
  then show ?thesis
    by (auto simp: write_impl_def Let_def word_le_nat_alt word_less_nat_alt w l)
qed

lemma write_impl_spec:
  assumes wf: "sb_wf s" and fit: "unat off < unat (sb_size s) - sb_used s"
    "unat off + length buf \<le> unat (sb_size s) - sb_used s"
  shows "write_impl buf off s =
     Some (ring_write ((unat (sb_read_index s) + sb_used s + unat off) mod unat (sb_size s)) buf (sb_data s),
           of_nat ((unat (sb_read_index s) + sb_used s + unat off + length buf) mod unat (sb_size s)))"
proof -
  let ?n = "unat (sb_size s)" and ?r = "unat (sb_read_index s)"
  define i where "i = ring_start (sb_size s) (sb_write_index s) off"
  have n: "0 < ?n" "?n < 2 ^ 63" "length (sb_data s) = ?n" "unat (sb_write_index s) = (?r + sb_used s) mod ?n"
    using wf by (auto simp: sb_wf_def)
  have lb: "length buf < size_t_modulus" "length buf \<le> ?n" using fit n by auto
  let ?l = "of_nat (length buf) :: u64"
  have l: "unat ?l = length buf" by (rule unat_u64_of_nat [OF lb(1)])
  have "unat i = ((?r + sb_used s) mod ?n + unat off) mod ?n"
    unfolding i_def using n fit by (subst unat_ring_start) auto
  then have ui: "unat i = (?r + sb_used s + unat off) mod ?n" by (simp only: mod_add_left_eq)
  then have i: "unat i < ?n" using n by simp
  have sp: "\<not> shm_writable s \<le> off" "\<not> ?l > shm_writable s - off"
    using write_impl_refuses [OF wf lb(1), of off] fit
    by (auto simp: write_impl_def Let_def split: if_splits)
  have "unat (ring_next (sb_size s) i ?l) = (?r + sb_used s + unat off + length buf) mod ?n"
    using unat_ring_next [OF i _ n(2), of ?l] lb by (simp add: l ui mod_add_left_eq)
  then have "ring_next (sb_size s) i ?l = of_nat ((?r + sb_used s + unat off + length buf) mod ?n)"
    by (metis of_nat_unat_id)
  with write_impl_ring [OF refl lb(1) sp i_def i n(3)] show ?thesis
    by (simp only: ui)
qed

section \<open>The operations on the abstract queue\<close>

lemma sb_wf_bounds:
  assumes "sb_wf s"
  shows "0 < unat (sb_size s)" "unat (sb_size s) < 2 ^ 63" "length (sb_data s) = unat (sb_size s)"
    "sb_used s \<le> unat (sb_size s)" "unat (sb_read_index s) < unat (sb_size s)"
    "unat (sb_write_index s) = (unat (sb_read_index s) + sb_used s) mod unat (sb_size s)"
  using assms by (auto simp: sb_wf_def)

lemma used_after_write:
  fixes w r l :: u64
  assumes "unat (w - r) + unat l < 2 ^ 63"
  shows "unat (w + l - r) = unat (w - r) + unat l"
proof -
  have "w + l - r = (w - r) + l" by (simp add: algebra_simps)
  then show ?thesis using assms by (simp only:) (intro unat_plus_bounded, simp)
qed

lemma used_after_read:
  fixes w r l :: u64
  assumes "unat l \<le> unat (w - r)"
  shows "unat (w - (r + l)) = unat (w - r) - unat l"
proof -
  have "w - (r + l) = (w - r) - l" by (simp add: algebra_simps)
  then show ?thesis using assms by (simp only:) (intro unat_minus_le, simp add: word_le_nat_alt)
qed

text \<open>Publishing \<open>len\<close> bytes already placed behind the stored ones.\<close>

lemma publish:
  assumes wf: "sb_wf s" and len: "unat len \<le> unat (sb_size s) - sb_used s"
    and d: "length d = unat (sb_size s)"
    and wi: "unat wi = (unat (sb_read_index s) + sb_used s + unat len) mod unat (sb_size s)"
  defines "s' \<equiv> s\<lparr>sb_data := d, sb_write_index := wi, sb_write := sb_write s + len\<rparr>"
  shows "sb_wf s' \<and> sb_contents s' = ring_slice (unat (sb_read_index s)) (sb_used s + unat len) d"
proof -
  have "sb_used s' = sb_used s + unat len"
    unfolding sb_used_def s'_def using used_after_write [of "sb_write s" "sb_read s" len] len
      sb_wf_bounds [OF wf] by (simp add: sb_used_def)
  then show ?thesis
    using sb_wf_bounds [OF wf] wf d wi len by (simp add: s'_def sb_wf_def sb_contents_def add.assoc)
qed

lemma ring_append:
  assumes "r < length d" "m + length src \<le> length d"
  shows "ring_slice r (m + length src) (ring_write ((r + m) mod length d) src d)
       = ring_slice r m d @ src"
proof -
  let ?d = "ring_write ((r + m) mod length d) src d"
  have "0 < length d" using assms(1) by linarith
  then have i: "(r + m) mod length d < length d" by simp
  have ld: "length ?d = length d" using i assms by simp
  have "ring_slice r (m + length src) ?d = ring_slice r m ?d @ ring_slice (r + m) (length src) ?d"
    by (simp add: ring_slice_append)
  also have "ring_slice (r + m) (length src) ?d = src"
    using ring_slice_ring_write_same [OF i, of src] ring_slice_mod [of "r + m" ?d] assms(2)
    by (simp add: ld)
  also have "ring_slice r m ?d = ring_slice r m d"
    by (rule ring_slice_ring_write_before [OF assms])
  finally show ?thesis .
qed

lemma shm_write_spec:
  assumes wf: "sb_wf s" and fit: "sb_used s < unat (sb_size s)"
    "length buf \<le> unat (sb_size s) - sb_used s"
  obtains s' where "shm_write buf s = (True, s')" "sb_wf s'"
    "sb_contents s' = sb_contents s @ buf"
proof -
  note n = sb_wf_bounds [OF wf]
  let ?i = "(unat (sb_read_index s) + sb_used s) mod unat (sb_size s)"
  let ?d = "ring_write ?i buf (sb_data s)"
  let ?wi = "of_nat ((unat (sb_read_index s) + sb_used s + length buf) mod unat (sb_size s)) :: u64"
  let ?l = "of_nat (length buf) :: u64"
  have l: "unat ?l = length buf" using fit n by (intro unat_u64_of_nat) simp
  have wi: "unat ?wi = (unat (sb_read_index s) + sb_used s + length buf) mod unat (sb_size s)"
    by (rule unat_u64_of_nat_mod [OF n(1,2)])
  have d: "length ?d = unat (sb_size s)" using n fit by simp
  have w: "shm_write buf s
      = (True, s\<lparr>sb_data := ?d, sb_write_index := ?wi, sb_write := sb_write s + ?l\<rparr>)"
    using write_impl_spec [OF wf, of 0 buf] fit by (simp add: shm_write_def)
  have "ring_slice (unat (sb_read_index s)) (sb_used s + length buf) ?d = sb_contents s @ buf"
    using ring_append [of "unat (sb_read_index s)" "sb_data s" "sb_used s" buf] n fit
    by (simp add: sb_contents_def)
  with publish [OF wf _ d, of ?l ?wi] fit wi l w show thesis
    by (intro that) auto
qed

lemma shm_write_refused: "shm_write buf s = (False, s') \<Longrightarrow> s' = s"
  by (auto simp: shm_write_def split: option.splits)

lemma shm_fill_spec:
  assumes wf: "sb_wf s" and fit: "unat off < unat (sb_size s) - sb_used s"
    "unat off + length buf \<le> unat (sb_size s) - sb_used s"
  shows "shm_fill buf off s = (True, s\<lparr>sb_data :=
     ring_write ((unat (sb_read_index s) + sb_used s + unat off) mod unat (sb_size s)) buf (sb_data s)\<rparr>)"
  using write_impl_spec [OF wf fit] by (simp add: shm_fill_def)

lemma shm_written_spec:
  assumes wf: "sb_wf s" and len: "unat len \<le> unat (sb_size s) - sb_used s"
  shows "sb_wf (shm_written len s)
     \<and> sb_contents (shm_written len s)
         = ring_slice (unat (sb_read_index s)) (sb_used s + unat len) (sb_data s)"
proof -
  note n = sb_wf_bounds [OF wf]
  let ?wi = "ring_next (sb_size s) (sb_write_index s) len"
  have "unat ?wi = ((unat (sb_read_index s) + sb_used s) mod unat (sb_size s) + unat len) mod unat (sb_size s)"
    using unat_ring_next [of "sb_write_index s" "sb_size s" len] n len by simp
  then have wi: "unat ?wi = (unat (sb_read_index s) + sb_used s + unat len) mod unat (sb_size s)"
    by (simp only: mod_add_left_eq)
  have "\<not> len > shm_writable s"
    using len by (simp add: word_less_nat_alt unat_shm_writable [OF wf])
  then have "shm_written len s
      = s\<lparr>sb_data := sb_data s, sb_write_index := ?wi, sb_write := sb_write s + len\<rparr>"
    by (simp add: shm_written_def ring_next_def Let_def)
  with publish [OF wf len n(3) wi] show ?thesis by simp
qed

text \<open>Consuming \<open>len\<close> stored bytes.\<close>

lemma consume:
  assumes wf: "sb_wf s" and len: "unat len \<le> sb_used s"
    and ri: "unat ri = (unat (sb_read_index s) + unat len) mod unat (sb_size s)"
  defines "s' \<equiv> s\<lparr>sb_read_index := ri, sb_read := sb_read s + len\<rparr>"
  shows "sb_wf s' \<and> sb_contents s' = drop (unat len) (sb_contents s)"
proof -
  note n = sb_wf_bounds [OF wf]
  have u: "sb_used s' = sb_used s - unat len"
    unfolding sb_used_def s'_def using used_after_read [of len "sb_write s" "sb_read s"] len
    by (simp add: sb_used_def)
  have "(unat ri + sb_used s') mod unat (sb_size s)
      = (unat (sb_read_index s) + unat len + (sb_used s - unat len)) mod unat (sb_size s)"
    by (simp add: ri u mod_add_left_eq)
  with len n have "sb_wf s'"
    using u wf ri by (simp add: s'_def sb_wf_def)
  moreover have "sb_contents s' = ring_slice (unat (sb_read_index s) + unat len) (sb_used s - unat len) (sb_data s)"
    using ring_slice_mod [of "unat (sb_read_index s) + unat len" "sb_data s"] n
    by (simp add: s'_def sb_contents_def u [unfolded s'_def] ri)
  ultimately show ?thesis by (simp add: sb_contents_def drop_ring_slice)
qed

lemma shm_skip_spec:
  assumes wf: "sb_wf s"
  shows "sb_wf (shm_skip len s) \<and> sb_contents (shm_skip len s) = drop (unat len) (sb_contents s)"
proof (cases "min len (shm_readable s) = 0")
  case True
  then have "unat len = 0 \<or> sb_used s = 0"
    by (metis min_def unat_0 unat_shm_readable)
  with True wf show ?thesis by (auto simp: shm_skip_def Let_def sb_contents_def)
next
  case False
  note n = sb_wf_bounds [OF wf]
  let ?l = "min len (shm_readable s)"
  have l: "unat ?l = min (unat len) (sb_used s)" by (simp add: unat_min unat_shm_readable)
  have ri: "unat (ring_next (sb_size s) (sb_read_index s) ?l)
      = (unat (sb_read_index s) + unat ?l) mod unat (sb_size s)"
    using unat_ring_next [of "sb_read_index s" "sb_size s" ?l] n l by simp
  have "shm_skip len s = s\<lparr>sb_read_index := ring_next (sb_size s) (sb_read_index s) ?l,
                            sb_read := sb_read s + ?l\<rparr>"
    using False by (simp add: shm_skip_def ring_next_def Let_def)
  with consume [OF wf _ ri] l show ?thesis by (simp add: min_def sb_contents_def)
qed

lemma shm_peek_spec:
  "sb_wf s \<Longrightarrow> shm_peek len off s = slice (unat off) (unat len) (sb_contents s)"
  by (simp add: shm_peek_def read_impl_spec)

lemma shm_read_spec:
  assumes wf: "sb_wf s" and r: "shm_read len s = (bytes, s')"
  shows "bytes = take (unat len) (sb_contents s) \<and> sb_wf s'
     \<and> sb_contents s' = drop (unat len) (sb_contents s)"
proof -
  note n = sb_wf_bounds [OF wf]
  let ?k = "min (unat len) (sb_used s)"
  have uk: "unat (of_nat ?k :: u64) = ?k" using n by (intro unat_u64_of_nat) auto
  have ri: "read_impl len 0 s = (of_nat ?k, take (unat len) (sb_contents s),
      if ?k = 0 then 0 else of_nat ((unat (sb_read_index s) + ?k) mod unat (sb_size s)))"
    using read_impl_spec [OF wf, of len 0]
    by (simp only: unat_0 diff_zero add_0_right slice_all)
  show ?thesis
  proof (cases "?k = 0")
    case True
    with r ri wf show ?thesis by (auto simp: shm_read_def sb_contents_def min_def split: if_splits)
  next
    case False
    let ?ri = "of_nat ((unat (sb_read_index s) + ?k) mod unat (sb_size s)) :: u64"
    have "unat ?ri = (unat (sb_read_index s) + ?k) mod unat (sb_size s)"
      by (rule unat_u64_of_nat_mod [OF n(1,2)])
    with consume [OF wf, of "of_nat ?k" ?ri]
    have "sb_wf (s\<lparr>sb_read_index := ?ri, sb_read := sb_read s + of_nat ?k\<rparr>)"
      "sb_contents (s\<lparr>sb_read_index := ?ri, sb_read := sb_read s + of_nat ?k\<rparr>) = drop ?k (sb_contents s)"
      by (simp_all only: uk)
    moreover have "(0 :: u64) < of_nat ?k" using False uk by (simp add: word_less_nat_alt)
    moreover have "drop ?k (sb_contents s) = drop (unat len) (sb_contents s)"
      by (simp add: min_def sb_contents_def)
    ultimately show ?thesis using r ri False by (simp add: shm_read_def)
  qed
qed

section \<open>The ring is a byte queue\<close>

text \<open>Adapters to the queue contract: lengths of HOL lists become \<open>size_t\<close> arguments.\<close>

definition sb_put :: "byte list \<Rightarrow> shm_buffer \<Rightarrow> shm_buffer option" where
  "sb_put bs s =
     (if length bs < size_t_modulus
      then (case shm_write bs s of (ok, s') \<Rightarrow> if ok then Some s' else None) else None)"

definition size_arg :: "nat \<Rightarrow> u64" where
  "size_arg n = of_nat (min n (size_t_modulus - 1))"

definition sb_view :: "nat \<Rightarrow> shm_buffer \<Rightarrow> byte list" where
  "sb_view n s = shm_peek (size_arg n) 0 s"

definition sb_skip :: "nat \<Rightarrow> shm_buffer \<Rightarrow> shm_buffer" where
  "sb_skip n s = shm_skip (size_arg n) s"

definition sb_room :: "shm_buffer \<Rightarrow> nat" where
  "sb_room s = unat (sb_size s) - sb_used s"

lemma unat_size_arg: "unat (size_arg n) = min n (size_t_modulus - 1)"
  unfolding size_arg_def by (rule unat_u64_of_nat) simp

lemma length_sb_contents: "length (sb_contents s) = sb_used s"
  by (simp add: sb_contents_def)

lemma sb_used_lt: "sb_used s \<le> size_t_modulus - 1"
  using unat_u64_less [of "sb_write s - sb_read s"] by (simp add: sb_used_def)

lemma shm_write_ok_iff:
  assumes wf: "sb_wf s" and l: "length bs < size_t_modulus"
  shows "fst (shm_write bs s) \<longleftrightarrow> sb_used s < unat (sb_size s) \<and> length bs \<le> sb_room s"
  using write_impl_refuses [OF wf l, of 0] sb_wf_bounds [OF wf]
  by (cases "write_impl bs 0 s") (auto simp: shm_write_def sb_room_def)

lemma sb_put_sound:
  assumes wf: "sb_wf s" and p: "sb_put bs s = Some s'"
  shows "sb_wf s' \<and> sb_contents s' = sb_contents s @ bs"
proof -
  from p have l: "length bs < size_t_modulus" and w: "shm_write bs s = (True, s')"
    by (auto simp: sb_put_def split: if_splits prod.splits)
  with shm_write_ok_iff [OF wf l] have "sb_used s < unat (sb_size s)" "length bs \<le> sb_room s"
    by simp_all
  from shm_write_spec [OF wf this(1) this(2) [unfolded sb_room_def]] w show ?thesis by auto
qed

lemma sb_put_progress:
  assumes wf: "sb_wf s" and l: "length bs \<le> sb_room s" and ne: "bs \<noteq> []"
  shows "\<exists>s'. sb_put bs s = Some s'"
proof -
  note n = sb_wf_bounds [OF wf]
  have "sb_room s \<noteq> 0" using l ne by (cases bs) auto
  then have u: "sb_used s < unat (sb_size s)" by (simp add: sb_room_def)
  have "length bs < size_t_modulus" using l n by (simp add: sb_room_def)
  with shm_write_ok_iff [OF wf this] u l show ?thesis
    by (auto simp: sb_put_def split: prod.splits)
qed

lemma sb_view_spec: "sb_wf s \<Longrightarrow> sb_view n s = take n (sb_contents s)"
  using sb_used_lt [of s]
  by (auto simp: sb_view_def shm_peek_spec slice_all unat_size_arg min_def length_sb_contents)

lemma sb_skip_spec:
  assumes "sb_wf s"
  shows "sb_wf (sb_skip n s) \<and> sb_contents (sb_skip n s) = drop n (sb_contents s)"
  using shm_skip_spec [OF assms, of "size_arg n"] sb_used_lt [of s]
  by (auto simp: sb_skip_def unat_size_arg min_def length_sb_contents)

interpretation ring: byte_fifo sb_wf sb_contents sb_room sb_put sb_view sb_skip
  by unfold_locales
    (auto intro: sb_put_progress dest: sb_put_sound simp: sb_view_spec sb_skip_spec)

lemma sb_wf_open:
  "0 < sz \<Longrightarrow> unat sz < 2 ^ 63 \<Longrightarrow> sb_wf (shm_buffer_open sz None)"
  by (simp add: shm_buffer_open_def sb_wf_def sb_used_def word_less_nat_alt)

lemma sb_contents_open [simp]: "sb_contents (shm_buffer_open sz None) = []"
  by (simp add: shm_buffer_open_def sb_contents_def sb_used_def)

section \<open>Properties\<close>

text \<open>the shared-memory ring is a byte stream.  For every sequence of writes and reads, from
  any state in which the running totals and indices agree (the totals may be about to wrap at
  \<open>2^64\<close>), the bytes delivered followed by the bytes still stored are the initial content followed by
  the bytes accepted, and the indices stay consistent.\<close>

theorem shm_ring_stream:
  assumes "sb_wf s" and "fifo_run sb_put sb_view sb_skip ops s = (accepted, delivered, s')"
  shows "sb_wf s' \<and> delivered @ sb_contents s' = sb_contents s @ accepted"
  by (rule ring.run_conserves [OF assms])

text \<open>A ring of 5 bytes whose totals are three steps from wrapping around.\<close>

definition sample_ring :: shm_buffer where
  "sample_ring = \<lparr>sb_read = - 3, sb_write = - 1, sb_read_index = 3, sb_write_index = 0,
     sb_data = [0, 0, 0, 8, 9], sb_size = 5\<rparr>"

lemma sample_ring_wf: "sb_wf sample_ring"
  by (simp add: sample_ring_def sb_wf_def sb_used_def)

lemmas ring_eval = sb_put_def sb_view_def sb_skip_def shm_write_def write_impl_def shm_writable_def
  shm_readable_def shm_peek_def read_impl_def shm_skip_def size_arg_def slice_def overwrite_def
  sample_ring_def Let_def take_Cons' drop_Cons'

lemma sample_ring_run:
  "fifo_run sb_put sb_view sb_skip [Put [1, 2, 3], Get 4, Put [4, 5, 6, 7, 8], Put [4]] sample_ring
   = ([1, 2, 3, 4], [8, 9, 1, 2],
      \<lparr>sb_read = 1, sb_write = 3, sb_read_index = 2, sb_write_index = 4,
       sb_data = [1, 2, 3, 4, 9], sb_size = 5\<rparr>)"
  by (simp add: ring_eval min_def)

theorem shm_ring_stream_witness:
  "sb_contents \<lparr>sb_read = 1, sb_write = 3, sb_read_index = 2, sb_write_index = 4,
       sb_data = [1, 2, 3, 4, 9], sb_size = 5\<rparr> = [3, 4]"
proof -
  have "sb_contents sample_ring = [8, 9]"
    by (simp add: sample_ring_def sb_contents_def sb_used_def ring_slice_def upt_conv_Cons)
  with shm_ring_stream [OF sample_ring_wf sample_ring_run] show ?thesis by simp
qed

text \<open>\<open>shm_buffer::write\<close> accepts a block exactly when the ring is not full and the block fits
  into the free space; then the block is stored behind the unread bytes and the invariant holds,
  otherwise nothing changes.\<close>

theorem shm_write_correct:
  assumes "sb_wf s" and "length buf < size_t_modulus"
  shows "if sb_used s < unat (sb_size s) \<and> length buf \<le> sb_room s
         then fst (shm_write buf s) \<and> sb_wf (snd (shm_write buf s))
              \<and> sb_contents (snd (shm_write buf s)) = sb_contents s @ buf
         else shm_write buf s = (False, s)"
proof (cases "sb_used s < unat (sb_size s) \<and> length buf \<le> sb_room s")
  case True
  then obtain s' where "shm_write buf s = (True, s')" "sb_wf s'" "sb_contents s' = sb_contents s @ buf"
    using shm_write_spec [OF assms(1), of buf thesis] by (simp add: sb_room_def)
  with True show ?thesis by simp
next
  case False
  with shm_write_ok_iff [OF assms] have "\<not> fst (shm_write buf s)" by simp
  then have "shm_write buf s = (False, s)"
    using shm_write_refused [of buf s] by (metis prod.collapse)
  with False show ?thesis by simp
qed

theorem shm_write_correct_witness:
  "fst (shm_write [1, 2, 3] sample_ring) \<and> sb_contents (snd (shm_write [1, 2, 3] sample_ring)) = [8, 9, 1, 2, 3]"
proof -
  have c: "sb_contents sample_ring = [8, 9]"
    by (simp add: sample_ring_def sb_contents_def sb_used_def ring_slice_def upt_conv_Cons)
  have "sb_used sample_ring < unat (sb_size sample_ring) \<and> length [1, 2, 3 :: byte] \<le> sb_room sample_ring"
    by (simp add: sample_ring_def sb_used_def sb_room_def)
  with shm_write_correct [OF sample_ring_wf, of "[1, 2, 3]"] c show ?thesis by simp
qed

text \<open>\<open>shm_buffer::read\<close> returns the oldest bytes, at most \<open>len\<close> of them and all of them if
  fewer are stored, and removes exactly what it returned; \<open>peek\<close> at an offset returns the same bytes
  without removing them.\<close>

theorem shm_read_correct:
  assumes "sb_wf s"
  shows "fst (shm_read len s) = take (unat len) (sb_contents s)
       \<and> sb_wf (snd (shm_read len s))
       \<and> sb_contents (snd (shm_read len s)) = drop (unat len) (sb_contents s)
       \<and> shm_peek len off s = slice (unat off) (unat len) (sb_contents s)"
  using shm_read_spec [OF assms prod.collapse [symmetric], of len] shm_peek_spec [OF assms, of len off]
  by simp

theorem shm_read_correct_witness: "fst (shm_read 9 sample_ring) = [8, 9]"
proof -
  have "sb_contents sample_ring = [8, 9]"
    by (simp add: sample_ring_def sb_contents_def sb_used_def ring_slice_def upt_conv_Cons)
  with shm_read_correct [OF sample_ring_wf, of 9 0] show ?thesis by (simp add: take_Cons')
qed

end
