(* ===== verification/Item_Fifo.thy ===== *)
theory Item_Fifo
  imports Main
begin

text \<open>
  The contract of the queues that carry whole items: messages through a shared-memory channel,
  nodes through the producer/consumer queue, waiting coroutines of a lock.  A provider relates its
  concrete state to the list of queued items; a send may be refused (bounded queue), a receive on an
  empty queue returns nothing.  The lemma of the locale: whatever the interleaving of sends and
  receives, the items come out in the order they were accepted, none lost and none duplicated.
\<close>

datatype 'm item_op = Send 'm | Recv

fun item_run ::
    "('m \<Rightarrow> 's \<Rightarrow> bool \<times> 's) \<Rightarrow> ('s \<Rightarrow> 'm option \<times> 's) \<Rightarrow> 'm item_op list \<Rightarrow> 's
     \<Rightarrow> 'm list \<times> 'm list \<times> 's" where
  "item_run send recv [] s = ([], [], s)"
| "item_run send recv (Send m # ops) s =
     (let (ok, s') = send m s; (i, out, t) = item_run send recv ops s'
      in (if ok then m # i else i, out, t))"
| "item_run send recv (Recv # ops) s =
     (let (r, s') = recv s; (i, out, t) = item_run send recv ops s'
      in (i, case r of None \<Rightarrow> out | Some m \<Rightarrow> m # out, t))"

locale item_fifo =
  fixes rep :: "'s \<Rightarrow> 'm list \<Rightarrow> bool"
    and valid :: "'m \<Rightarrow> bool"
    and send :: "'m \<Rightarrow> 's \<Rightarrow> bool \<times> 's"
    and recv :: "'s \<Rightarrow> 'm option \<times> 's"
  assumes send_accepted: "rep s q \<Longrightarrow> valid m \<Longrightarrow> send m s = (True, s') \<Longrightarrow> rep s' (q @ [m])"
    and send_refused: "rep s q \<Longrightarrow> valid m \<Longrightarrow> send m s = (False, s') \<Longrightarrow> rep s' q"
    and recv_item: "rep s (m # q) \<Longrightarrow> \<exists>s'. recv s = (Some m, s') \<and> rep s' q"
    and recv_empty: "rep s [] \<Longrightarrow> \<exists>s'. recv s = (None, s') \<and> rep s' []"
begin

lemma run_in_order:
  assumes "rep s q" and "\<forall>m. Send m \<in> set ops \<longrightarrow> valid m"
    and "item_run send recv ops s = (i, out, t)"
  shows "\<exists>q'. rep t q' \<and> out @ q' = q @ i"
  using assms
proof (induction ops arbitrary: s q i out t)
  case Nil
  then show ?case by auto
next
  case (Cons op ops)
  have v: "\<forall>m. Send m \<in> set ops \<longrightarrow> valid m" using Cons.prems(2) by simp
  show ?case
  proof (cases op)
    case (Send m)
    obtain ok s' where s': "send m s = (ok, s')" by fastforce
    obtain i1 out1 t1 where r: "item_run send recv ops s' = (i1, out1, t1)" by (metis prod_cases3)
    have "rep s' (if ok then q @ [m] else q)"
      using Cons.prems(1,2) Send s' send_accepted send_refused by (cases ok) auto
    from Cons.IH [OF this v r] Cons.prems(3) Send s' r show ?thesis by (auto split: if_splits)
  next
    case Recv
    obtain x s' where s': "recv s = (x, s')" by fastforce
    obtain i1 out1 t1 where r: "item_run send recv ops s' = (i1, out1, t1)" by (metis prod_cases3)
    show ?thesis
    proof (cases q)
      case Nil
      with Cons.prems(1) s' recv_empty have "x = None" "rep s' []" by fastforce+
      from Cons.IH [OF this(2) v r] Cons.prems(3) Recv s' r \<open>x = None\<close> Nil show ?thesis by auto
    next
      case (Cons m q')
      with Cons.prems(1) s' recv_item have "x = Some m" "rep s' q'" by fastforce+
      from Cons.IH [OF this(2) v r] Cons.prems(3) Recv s' r \<open>x = Some m\<close> Cons show ?thesis by auto
    qed
  qed
qed

end

end
