(* ===== verification/Shm_Channel.thy ===== *)
theory Shm_Channel
  imports Shm_Buffer Buffer Item_Fifo
begin

text \<open>
  The message channel over two shared rings, \<open>runtime/src/shm/shm_channel.cpp\<close>, and the thread
  that watches the rings for blocked readers and writers, \<open>shm_channel_select.cpp\<close>.  A message is
  stored as its length (\<open>uint32_t\<close>, in the byte order of the machine) followed by its bytes.
\<close>

section \<open>The channel\<close>

record shm_channel =
  ch_write :: shm_buffer
  ch_read :: shm_buffer

definition shm_channel_open ::
    "(string \<Rightarrow> shm_buffer option) \<Rightarrow> string \<Rightarrow> string \<Rightarrow> u64 \<Rightarrow> shm_channel" where
  "shm_channel_open segs src dst sz =
     \<lparr>ch_write = shm_buffer_open sz (segs (src @ ''->'' @ dst)),
      ch_read = shm_buffer_open sz (segs (dst @ ''->'' @ src))\<rparr>"

text \<open>The calls without anybody in between; \<open>Shm_Steps\<close> cuts them where the other process can run.\<close>

definition try_write :: "byte list \<Rightarrow> shm_channel \<Rightarrow> bool \<times> shm_channel" where
  "try_write buf ch =
     (let len = (of_nat (length buf) :: u32)
      in if shm_writable (ch_write ch) < ucast len + 4 then (False, ch)
         else let w1 = snd (shm_fill (u32_bytes len) 0 (ch_write ch));
                  w2 = snd (shm_fill buf 4 w1);
                  w3 = shm_written (ucast len + 4) w2
              in (True, ch\<lparr>ch_write := w3\<rparr>))"

text \<open>\<open>try_read(buf, size)\<close>: the returned length, the bytes stored to \<open>buf\<close> and the channel.
  \<open>want = None\<close> is a null \<open>buf\<close>.\<close>

definition try_read :: "u32 option \<Rightarrow> shm_channel \<Rightarrow> u32 \<times> byte list \<times> shm_channel" where
  "try_read want ch =
     (let hdr = shm_peek 4 0 (ch_read ch); len = bytes_u32 hdr
      in if length hdr < 4 then (0, [], ch)
         else if shm_readable (ch_read ch) < 4 + ucast len then (0, [], ch)
         else case want of
                None \<Rightarrow> (len, [], ch)
              | Some sz \<Rightarrow>
                  if sz < len then (0, [], ch)
                  else (len, shm_peek (ucast len) 4 (ch_read ch),
                        ch\<lparr>ch_read := shm_skip (ucast len + 4) (ch_read ch)\<rparr>))"

text \<open>
  The coroutines.  Between two wake-ups the other process and the scheduler run; \<open>envs\<close> lists what
  they did to the channel before each resumption, so \<open>None\<close> is a coroutine that is still waiting.
\<close>

fun write_loop ::
    "byte list \<Rightarrow> (shm_channel \<Rightarrow> shm_channel) list \<Rightarrow> shm_channel \<Rightarrow> shm_channel option" where
  "write_loop buf [] ch = None"
| "write_loop buf (env # envs) ch =
     (case try_write buf (env ch) of
        (ok, ch') \<Rightarrow> if ok then Some ch' else write_loop buf envs ch')"

definition channel_write ::
    "byte list \<Rightarrow> (shm_channel \<Rightarrow> shm_channel) list \<Rightarrow> shm_channel \<Rightarrow> shm_channel option" where
  "channel_write buf envs ch =
     (case try_write buf ch of (ok, ch') \<Rightarrow> if ok then Some ch' else write_loop buf envs ch')"

text \<open>Waiting until a predicate of the channel holds: the remaining wake-ups and the channel.\<close>

fun await ::
    "(shm_channel \<Rightarrow> bool) \<Rightarrow> (shm_channel \<Rightarrow> shm_channel) list \<Rightarrow> shm_channel
     \<Rightarrow> ((shm_channel \<Rightarrow> shm_channel) list \<times> shm_channel) option" where
  "await p envs ch =
     (if p ch then Some (envs, ch)
      else (case envs of [] \<Rightarrow> None | env # envs' \<Rightarrow> await p envs' (env ch)))"

declare await.simps [simp del]

definition channel_read ::
    "allocator \<Rightarrow> memory_buffer \<Rightarrow> (shm_channel \<Rightarrow> shm_channel) list \<Rightarrow> shm_channel
     \<Rightarrow> (mem_error + memory_buffer \<times> shm_channel) option" where
  "channel_read A buf envs ch =
     (case await (\<lambda>c. length (shm_peek 4 0 (ch_read c)) = 4) envs ch of
        None \<Rightarrow> None
      | Some (envs1, ch1) \<Rightarrow>
          let len = bytes_u32 (shm_peek 4 0 (ch_read ch1))
          in (case await (\<lambda>c. \<not> shm_readable (ch_read c) < 4 + ucast len) envs1 ch1 of
                None \<Rightarrow> None
              | Some (_, ch2) \<Rightarrow>
                  Some (case reserve A (unat len) (clear 0 buf) of
                          Inl e \<Rightarrow> Inl e
                        | Inr b \<Rightarrow>
                            Inr (written (unat len)
                                   (b\<lparr>b_data := overwrite (b_write b)
                                                 (shm_peek (ucast len) 4 (ch_read ch2)) (b_data b)\<rparr>),
                                 ch2\<lparr>ch_read := shm_skip (4 + ucast len) (ch_read ch2)\<rparr>))))"

section \<open>The select thread\<close>

record select_data =
  sel_channel :: shm_channel
  sel_session :: nat
  sel_is_read :: bool
  sel_size :: u64

definition is_ready :: "select_data \<Rightarrow> bool" where
  "is_ready d =
     (if sel_is_read d then shm_readable (ch_read (sel_channel d)) \<ge> sel_size d
      else shm_writable (ch_write (sel_channel d)) \<ge> sel_size d)"

text \<open>The in-place compaction of \<open>select_\<close>: \<open>i\<close> runs over the vector, \<open>write_index\<close> is where the
  next entry that stays goes (the vector's size until the first entry has left).\<close>

function select_scan ::
    "nat \<Rightarrow> nat \<Rightarrow> select_data list \<Rightarrow> nat list \<Rightarrow> nat \<times> select_data list \<times> nat list" where
  "select_scan i write_index sel woken =
     (if i < length sel
      then (let d = sel ! i
            in if is_ready d
               then select_scan (Suc i) (if write_index = length sel then i else write_index) sel
                      (woken @ [sel_session d])
               else if write_index < length sel
               then select_scan (Suc i) (Suc write_index) (sel[write_index := d]) woken
               else select_scan (Suc i) write_index sel woken)
      else (write_index, sel, woken))"
  by pat_completeness auto
termination
  by (relation "measure (\<lambda>(i, _, sel, _). length sel - i)") auto

declare select_scan.simps [simp del]

record select_state =
  sel_queue :: "select_data list"
  sel_select :: "select_data list"
  sel_cnt_loop :: u64

text \<open>\<open>wait\<close> queues an entry.  One turn of \<open>run\<close>: scan the watched entries, take over the newly
  queued ones, wake those that are ready and watch the others.\<close>

definition select_wait :: "select_data \<Rightarrow> select_state \<Rightarrow> select_state" where
  "select_wait d st = st\<lparr>sel_queue := sel_queue st @ [d]\<rparr>"

definition select_turn :: "select_state \<Rightarrow> nat list \<times> select_state" where
  "select_turn st =
     (let sel = sel_select st; n = length sel;
          (woken, kept, cnt) =
            (if sel = [] then ([], [], sel_cnt_loop st)
             else let (w, sel', woken) = select_scan 0 n sel []
                  in (woken, if w \<noteq> n then take w sel' else sel', sel_cnt_loop st + 1));
          temp = sel_queue st
      in (woken @ map sel_session (filter is_ready temp),
          \<lparr>sel_queue = [], sel_select = kept @ filter (\<lambda>d. \<not> is_ready d) temp, sel_cnt_loop = cnt\<rparr>))"

section \<open>Messages in a ring\<close>

definition frame :: "byte list \<Rightarrow> byte list" where
  "frame m = u32_bytes (of_nat (length m)) @ m"

definition valid_message :: "byte list \<Rightarrow> bool" where
  "valid_message m \<longleftrightarrow> length m < 2 ^ 32"

text \<open>The ring \<open>s\<close> holds exactly the messages \<open>q\<close>.\<close>

definition ring_rep :: "shm_buffer \<Rightarrow> byte list list \<Rightarrow> bool" where
  "ring_rep s q \<longleftrightarrow> sb_wf s \<and> sb_contents s = concat (map frame q) \<and> (\<forall>m\<in>set q. valid_message m)"

lemma length_frame: "length (frame m) = length m + 4"
  by (simp add: frame_def)

lemma message_length:
  assumes "valid_message m"
  shows "unat (of_nat (length m) :: u32) = length m"
    and "unat (ucast (of_nat (length m) :: u32) :: u64) = length m"
    and "unat (ucast (of_nat (length m) :: u32) + 4 :: u64) = length m + 4"
    and "unat (4 + ucast (of_nat (length m) :: u32) :: u64) = length m + 4"
proof -
  show l: "unat (of_nat (length m) :: u32) = length m"
    using assms by (simp add: valid_message_def unat_of_nat)
  then show u: "unat (ucast (of_nat (length m) :: u32) :: u64) = length m"
    using assms by (simp add: unsigned_ucast_eq take_bit_eq_mod valid_message_def)
  have "unat (ucast (of_nat (length m) :: u32) + 4 :: u64)
      = unat (ucast (of_nat (length m) :: u32) :: u64) + unat (4 :: u64)"
    using assms by (intro unat_plus_bounded) (simp add: u valid_message_def)
  then show "unat (ucast (of_nat (length m) :: u32) + 4 :: u64) = length m + 4" by (simp add: u)
  then show "unat (4 + ucast (of_nat (length m) :: u32) :: u64) = length m + 4"
    by (simp add: add.commute)
qed

lemma ring_write_Nil [simp]: "ring_write i [] d = d"
  by (simp add: ring_write_def)

text \<open>Filling the header and then the body places the frame behind the stored bytes.\<close>

lemma fill_frame:
  assumes wf: "sb_wf s" and v: "valid_message m" and room: "length m + 4 \<le> sb_room s"
  defines "w1 \<equiv> snd (shm_fill (u32_bytes (of_nat (length m))) 0 s)"
  defines "w2 \<equiv> snd (shm_fill m 4 w1)"
  shows "sb_wf w2 \<and> sb_size w2 = sb_size s \<and> sb_used w2 = sb_used s \<and> sb_read_index w2 = sb_read_index s
     \<and> ring_slice (unat (sb_read_index s)) (sb_used s + (length m + 4)) (sb_data w2)
         = sb_contents s @ frame m"
proof -
  note n = sb_wf_bounds [OF wf]
  let ?h = "u32_bytes (of_nat (length m))" and ?r = "unat (sb_read_index s)"
  let ?d1 = "ring_write ((?r + sb_used s) mod unat (sb_size s)) ?h (sb_data s)"
  let ?d2 = "ring_write ((?r + (sb_used s + 4)) mod unat (sb_size s)) m ?d1"
  have rm: "length m + 4 \<le> unat (sb_size s) - sb_used s" using room by (simp add: sb_room_def)
  have i1: "(?r + sb_used s) mod unat (sb_size s) < unat (sb_size s)"
    and i2: "(?r + (sb_used s + 4)) mod unat (sb_size s) < unat (sb_size s)"
    using n(1) by simp_all
  have w1: "w1 = s\<lparr>sb_data := ?d1\<rparr>"
    unfolding w1_def using shm_fill_spec [OF wf, of 0 ?h] rm by simp
  have l1: "length ?d1 = unat (sb_size s)" using i1 n rm by simp
  have wf1: "sb_wf w1" "sb_used w1 = sb_used s"
    using wf l1 by (simp_all add: w1 sb_wf_def sb_used_def)
  have w2: "w2 = w1\<lparr>sb_data := ?d2\<rparr>"
  proof (cases "length m = 0")
    case True
    then show ?thesis
      by (auto simp: w2_def w1 shm_fill_def write_impl_def Let_def)
  next
    case False
    then have "4 < unat (sb_size s) - sb_used s" using rm by linarith
    then have "shm_fill m 4 w1 = (True, w1\<lparr>sb_data := ?d2\<rparr>)"
      using shm_fill_spec [OF wf1(1), of 4 m] rm wf1(2) by (simp add: w1 add.assoc)
    then show ?thesis by (simp add: w2_def)
  qed
  have "length ?d2 = unat (sb_size s)" using i2 l1 rm by simp
  then have "sb_wf w2" "sb_used w2 = sb_used s"
    using wf by (simp_all add: w2 w1 sb_wf_def sb_used_def)
  moreover have "ring_slice ?r (sb_used s + 4) ?d1 = sb_contents s @ ?h"
    using ring_append [of ?r "sb_data s" "sb_used s" ?h] n rm by (simp add: sb_contents_def)
  moreover have "ring_slice ?r (sb_used s + (length m + 4)) ?d2 = ring_slice ?r (sb_used s + 4) ?d1 @ m"
    using ring_append [of ?r ?d1 "sb_used s + 4" m] n rm l1 by (simp add: add.assoc add.commute [of "length m"])
  ultimately show ?thesis by (simp add: w2 w1 frame_def)
qed

lemma try_write_refused:
  assumes wf: "sb_wf (ch_write ch)" and v: "valid_message m"
  shows "try_write m ch = (False, ch) \<longleftrightarrow> sb_room (ch_write ch) < length m + 4"
  using message_length [OF v] unat_shm_writable [OF wf]
  by (auto simp: try_write_def Let_def word_less_nat_alt sb_room_def)

lemma try_write_sends:
  assumes rep: "ring_rep (ch_write ch) q" and v: "valid_message m"
    and room: "length m + 4 \<le> sb_room (ch_write ch)"
  obtains w where "try_write m ch = (True, ch\<lparr>ch_write := w\<rparr>)" "ring_rep w (q @ [m])"
proof -
  let ?s = "ch_write ch"
  have wf: "sb_wf ?s" using rep by (simp add: ring_rep_def)
  define w2 where "w2 = snd (shm_fill m 4 (snd (shm_fill (u32_bytes (of_nat (length m))) 0 ?s)))"
  define w3 where "w3 = shm_written (ucast (of_nat (length m) :: u32) + 4) w2"
  note ff = fill_frame [OF wf v room, folded w2_def]
  have "try_write m ch = (True, ch\<lparr>ch_write := w3\<rparr>)"
    using message_length [OF v] unat_shm_writable [OF wf] room
    by (simp add: try_write_def Let_def word_less_nat_alt sb_room_def w3_def w2_def)
  moreover have "sb_wf w3 \<and> sb_contents w3 = sb_contents ?s @ frame m"
    using shm_written_spec [of w2 "ucast (of_nat (length m) :: u32) + 4"] ff room message_length(3) [OF v]
    by (simp add: w3_def sb_room_def)
  ultimately show thesis
    using that rep v by (simp add: ring_rep_def)
qed

text \<open>A complete frame at the front of the ring.\<close>

lemma front_frame:
  assumes rep: "ring_rep s (m # q)"
  shows "shm_peek 4 0 s = u32_bytes (of_nat (length m))"
    and "shm_peek (ucast (of_nat (length m) :: u32)) 4 s = m"
    and "\<not> shm_readable s < 4 + ucast (of_nat (length m) :: u32)"
    and "ring_rep (shm_skip (ucast (of_nat (length m) :: u32) + 4) s) q"
proof -
  have wf: "sb_wf s" and c: "sb_contents s = frame m @ concat (map frame q)"
    and v: "valid_message m" "\<forall>m\<in>set q. valid_message m"
    using rep by (auto simp: ring_rep_def)
  note ml = message_length [OF v(1)]
  show "shm_peek 4 0 s = u32_bytes (of_nat (length m))"
    by (simp add: shm_peek_spec [OF wf] c frame_def slice_def)
  show "shm_peek (ucast (of_nat (length m) :: u32)) 4 s = m"
    by (simp add: shm_peek_spec [OF wf] ml c frame_def slice_def)
  have "length m + 4 \<le> sb_used s"
    using length_sb_contents [of s] c by (simp add: length_frame)
  then show "\<not> shm_readable s < 4 + ucast (of_nat (length m) :: u32)"
    by (simp add: word_less_nat_alt unat_shm_readable ml)
  show "ring_rep (shm_skip (ucast (of_nat (length m) :: u32) + 4) s) q"
    using shm_skip_spec [OF wf, of "ucast (of_nat (length m) :: u32) + 4"] v(2)
    by (simp add: ring_rep_def ml c length_frame)
qed

lemma try_read_receives:
  assumes rep: "ring_rep (ch_read ch) (m # q)" and sz: "length m \<le> unat sz"
  shows "try_read (Some sz) ch = (of_nat (length m), m,
           ch\<lparr>ch_read := shm_skip (ucast (of_nat (length m) :: u32) + 4) (ch_read ch)\<rparr>)"
proof -
  have "valid_message m" using rep by (simp add: ring_rep_def)
  from message_length(1) [OF this] sz have "\<not> sz < (of_nat (length m) :: u32)"
    by (simp add: word_less_nat_alt)
  then show ?thesis
    by (simp add: try_read_def front_frame [OF rep] Let_def)
qed

lemma try_read_empty: "ring_rep (ch_read ch) [] \<Longrightarrow> try_read want ch = (0, [], ch)"
  by (simp add: try_read_def ring_rep_def shm_peek_spec slice_def)

section \<open>Two processes over one segment\<close>

text \<open>The end points of a connection see the same two segments, with the roles swapped.\<close>

definition endpoint_a :: "shm_buffer \<times> shm_buffer \<Rightarrow> shm_channel" where
  "endpoint_a d = \<lparr>ch_write = fst d, ch_read = snd d\<rparr>"

definition endpoint_b :: "shm_buffer \<times> shm_buffer \<Rightarrow> shm_channel" where
  "endpoint_b d = \<lparr>ch_write = snd d, ch_read = fst d\<rparr>"

definition link_send :: "byte list \<Rightarrow> shm_buffer \<times> shm_buffer \<Rightarrow> bool \<times> shm_buffer \<times> shm_buffer" where
  "link_send m d = (case try_write m (endpoint_a d) of (ok, ch) \<Rightarrow> (ok, ch_write ch, ch_read ch))"

text \<open>The receiver passes a buffer as large as any message can be; the length 0 means no message.\<close>

definition link_recv ::
    "shm_buffer \<times> shm_buffer \<Rightarrow> byte list option \<times> shm_buffer \<times> shm_buffer" where
  "link_recv d =
     (case try_read (Some 0xFFFFFFFF) (endpoint_b d) of
        (len, bytes, ch) \<Rightarrow> (if len = 0 then None else Some bytes, ch_read ch, ch_write ch))"

definition link_rep :: "shm_buffer \<times> shm_buffer \<Rightarrow> byte list list \<Rightarrow> bool" where
  "link_rep d q \<longleftrightarrow> ring_rep (fst d) q \<and> [] \<notin> set q"

definition link_valid :: "byte list \<Rightarrow> bool" where
  "link_valid m \<longleftrightarrow> valid_message m \<and> m \<noteq> []"

lemma try_write_cases:
  assumes rep: "ring_rep (ch_write ch) q" and v: "valid_message m"
  shows "(try_write m ch = (False, ch) \<and> sb_room (ch_write ch) < length m + 4)
     \<or> (\<exists>w. try_write m ch = (True, ch\<lparr>ch_write := w\<rparr>) \<and> ring_rep w (q @ [m])
          \<and> length m + 4 \<le> sb_room (ch_write ch))"
  using try_write_refused [OF _ v, of ch] try_write_sends [OF rep v] rep
  by (metis linorder_not_less ring_rep_def)

lemma link_send_accepted:
  assumes "link_rep d q" "link_valid m" "link_send m d = (True, d')"
  shows "link_rep d' (q @ [m])"
  using assms try_write_cases [of "endpoint_a d" q m]
  by (auto simp: link_send_def link_rep_def link_valid_def endpoint_a_def)

lemma link_send_refused:
  assumes "link_rep d q" "link_valid m" "link_send m d = (False, d')"
  shows "link_rep d' q"
  using assms try_write_cases [of "endpoint_a d" q m]
  by (cases d') (auto simp: link_send_def link_rep_def link_valid_def endpoint_a_def)

lemma link_recv_item:
  assumes rep: "link_rep d (m # q)"
  shows "\<exists>d'. link_recv d = (Some m, d') \<and> link_rep d' q"
proof -
  have r: "ring_rep (ch_read (endpoint_b d)) (m # q)" and ne: "m \<noteq> []" "[] \<notin> set q"
    using rep by (auto simp: link_rep_def endpoint_b_def)
  then have v: "valid_message m" by (simp add: ring_rep_def)
  have "length m \<le> unat (0xFFFFFFFF :: u32)" using v by (simp add: valid_message_def)
  from try_read_receives [OF r this] front_frame(4) [OF r] ne message_length(1) [OF v]
  show ?thesis
    by (auto simp: link_recv_def link_rep_def endpoint_b_def unat_eq_0 [symmetric])
qed

lemma link_recv_empty: "link_rep d [] \<Longrightarrow> \<exists>d'. link_recv d = (None, d') \<and> link_rep d' []"
  by (auto simp: link_recv_def link_rep_def endpoint_b_def try_read_empty)

interpretation link: item_fifo link_rep link_valid link_send link_recv
  by unfold_locales
    (blast intro: link_send_accepted link_send_refused link_recv_item link_recv_empty)+

section \<open>The blocking operations\<close>

definition run_envs :: "(shm_channel \<Rightarrow> shm_channel) list \<Rightarrow> shm_channel \<Rightarrow> shm_channel" where
  "run_envs envs ch = foldl (\<lambda>c env. env c) ch envs"

lemma run_envs_simps [simp]:
  "run_envs [] ch = ch" "run_envs (e # es) ch = run_envs es (e ch)"
  by (simp_all add: run_envs_def)

lemma await_first:
  assumes "k \<le> length envs" "\<forall>j<k. \<not> p (run_envs (take j envs) ch)" "p (run_envs (take k envs) ch)"
  shows "await p envs ch = Some (drop k envs, run_envs (take k envs) ch)"
  using assms
proof (induction k arbitrary: envs ch)
  case 0
  then show ?case by (simp add: await.simps [of p envs ch])
next
  case (Suc k)
  then obtain e es where envs: "envs = e # es" by (cases envs) auto
  have "\<not> p ch" using Suc.prems(2) by (metis take_0 run_envs_simps(1) zero_less_Suc)
  moreover have "\<forall>j<k. \<not> p (run_envs (take j es) (e ch))"
    using Suc.prems(2) envs by (metis Suc_less_eq run_envs_simps(2) take_Suc_Cons)
  ultimately show ?case
    using Suc.IH [of es "e ch"] Suc.prems envs by (simp add: await.simps [of p "e # es"])
qed

lemma write_loop_completes:
  assumes "k < length envs"
    and "\<forall>j\<le>k. sb_wf (ch_write (run_envs (take (Suc j) envs) ch))"
    and "\<forall>j<k. sb_room (ch_write (run_envs (take (Suc j) envs) ch)) < length m + 4"
    and "ring_rep (ch_write (run_envs (take (Suc k) envs) ch)) q" "valid_message m"
    and "length m + 4 \<le> sb_room (ch_write (run_envs (take (Suc k) envs) ch))"
  shows "\<exists>w. write_loop m envs ch = Some ((run_envs (take (Suc k) envs) ch)\<lparr>ch_write := w\<rparr>)
     \<and> ring_rep w (q @ [m])"
  using assms
proof (induction k arbitrary: envs ch)
  case 0
  then obtain e es where "envs = e # es" by (cases envs) auto
  with 0 try_write_cases [of "e ch" q m] show ?case by auto
next
  case (Suc k)
  then obtain e es where envs: "envs = e # es" by (cases envs) auto
  have "sb_wf (ch_write (e ch))" "sb_room (ch_write (e ch)) < length m + 4"
    using Suc.prems(2,3) envs by (auto dest: spec [of _ 0])
  then have "try_write m (e ch) = (False, e ch)"
    using try_write_refused [of "e ch" m] Suc.prems(5) by simp
  moreover have "\<forall>j\<le>k. sb_wf (ch_write (run_envs (take (Suc j) es) (e ch)))"
    "\<forall>j<k. sb_room (ch_write (run_envs (take (Suc j) es) (e ch))) < length m + 4"
    using Suc.prems(2,3) envs by (metis Suc_le_mono Suc_less_eq run_envs_simps(2) take_Suc_Cons)+
  ultimately show ?case
    using Suc.IH [of es "e ch"] Suc.prems envs by simp
qed

lemma read_into_buffer:
  assumes wf: "mb_wf F b" and empty: "b_read b = 0" "b_write b = 0" and cap: "length m \<le> b_capacity b"
  defines "b' \<equiv> written (length m) (b\<lparr>b_data := overwrite (b_write b) m (b_data b)\<rparr>)"
  shows "mb_wf F b' \<and> contents b' = m"
proof -
  have l: "length m \<le> length (b_data b)" using wf cap by (simp add: mb_wf_def buf_wf_def)
  have "contents b' = slice 0 (length m) (overwrite 0 m (b_data b))"
    using empty cap by (simp add: b'_def written_def contents_def writable_def)
  also have "\<dots> = m" using l by (simp add: slice_overwrite_same)
  finally have "contents b' = m" .
  moreover have "mb_wf F b'"
    using wf l cap empty by (auto simp: b'_def mb_wf_def buf_wf_def written_def writable_def)
  ultimately show ?thesis by simp
qed

lemma reserve_cleared:
  assumes wf: "mb_wf F buf" and ok: "\<And>n. alloc_ok A n" and n: "n < size_t_modulus"
  obtains b where "reserve A n (clear 0 buf) = Inr b" "mb_wf F b" "n \<le> b_capacity b"
    "b_read b = 0" "b_write b = 0"
proof -
  have w: "mb_wf F (clear 0 buf)"
    using wf buf_wf_clear [of buf 0] by (simp add: mb_wf_def clear_def Let_def)
  have "\<exists>b. reserve A n (clear 0 buf) = Inr b \<and> b_read b = 0 \<and> b_write b = 0"
    by (auto simp: reserve_def grow_def ok Let_def clear_def)
  then obtain b where b: "reserve A n (clear 0 buf) = Inr b" "b_read b = 0" "b_write b = 0" by blast
  with reserve_correct [OF w n b(1)] show thesis by (intro that) auto
qed

lemma channel_read_delivers:
  assumes k: "k \<le> length envs" and before: "\<forall>j<k. ring_rep (ch_read (run_envs (take j envs) ch)) []"
    and arrived: "ring_rep (ch_read (run_envs (take k envs) ch)) (m # q)"
    and wf: "mb_wf F buf" and ok: "\<And>n. alloc_ok A n"
  shows "\<exists>buf' s. channel_read A buf envs ch
             = Some (Inr (buf', (run_envs (take k envs) ch)\<lparr>ch_read := s\<rparr>))
           \<and> mb_wf F buf' \<and> contents buf' = m \<and> ring_rep s q"
proof -
  let ?c = "run_envs (take k envs) ch" and ?l = "of_nat (length m) :: u32"
  note ff = front_frame [OF arrived]
  have v: "valid_message m" using arrived by (simp add: ring_rep_def)
  note ml = message_length [OF v]
  have empty: "length (shm_peek 4 0 (ch_read c)) \<noteq> 4" if "ring_rep (ch_read c) []" for c
    using that by (simp add: ring_rep_def shm_peek_spec slice_def)
  have a1: "await (\<lambda>c. length (shm_peek 4 0 (ch_read c)) = 4) envs ch = Some (drop k envs, ?c)"
    using k before empty ff(1) by (intro await_first) auto
  have a2: "await (\<lambda>c. \<not> shm_readable (ch_read c) < 4 + ucast ?l) es ?c = Some (es, ?c)" for es
    using ff(3) by (simp add: await.simps)
  have "length m < size_t_modulus" using v by (simp add: valid_message_def)
  then obtain b where b: "reserve A (length m) (clear 0 buf) = Inr b" "mb_wf F b"
    "length m \<le> b_capacity b" "b_read b = 0" "b_write b = 0"
    using reserve_cleared [OF wf ok] by metis
  let ?b' = "written (length m) (b\<lparr>b_data := overwrite (b_write b) m (b_data b)\<rparr>)"
  have "channel_read A buf envs ch
      = Some (Inr (?b', ?c\<lparr>ch_read := shm_skip (4 + ucast ?l) (ch_read ?c)\<rparr>))"
    by (simp add: channel_read_def a1 a2 ff(1,2) ml b(1) Let_def)
  with read_into_buffer [OF b(2,4,5,3)] ff(4) [unfolded add.commute [of _ 4]] show ?thesis
    by blast
qed

section \<open>The select thread wakes exactly the ready waiters\<close>

lemma filter_take_Suc:
  "i < length xs \<Longrightarrow> filter P (take (Suc i) xs) = filter P (take i xs) @ (if P (xs ! i) then [xs ! i] else [])"
  by (simp add: take_Suc_conv_app_nth)

lemma scan_ready:
  "i < length sel \<Longrightarrow> is_ready (sel ! i) \<Longrightarrow> select_scan i w sel woken =
     select_scan (Suc i) (if w = length sel then i else w) sel (woken @ [sel_session (sel ! i)])"
  by (simp add: select_scan.simps [of i])

lemma scan_move:
  "i < length sel \<Longrightarrow> \<not> is_ready (sel ! i) \<Longrightarrow> w < length sel \<Longrightarrow> select_scan i w sel woken =
     select_scan (Suc i) (Suc w) (sel[w := sel ! i]) woken"
  by (simp add: select_scan.simps [of i])

lemma scan_stay:
  "i < length sel \<Longrightarrow> \<not> is_ready (sel ! i) \<Longrightarrow> \<not> w < length sel \<Longrightarrow> select_scan i w sel woken =
     select_scan (Suc i) w sel woken"
  by (simp add: select_scan.simps [of i])

lemma select_scan_filter:
  assumes "length sel = length orig" "drop i sel = drop i orig" "i \<le> length orig"
    and "woken = map sel_session (filter is_ready (take i orig))"
    and "(w = length orig \<and> filter (\<lambda>d. \<not> is_ready d) (take i orig) = take i orig \<and> sel = orig)
       \<or> (w < length orig \<and> w < i \<and> take w sel = filter (\<lambda>d. \<not> is_ready d) (take i orig))"
  shows "case select_scan i w sel woken of (w', sel', woken') \<Rightarrow>
       (if w' \<noteq> length orig then take w' sel' else sel') = filter (\<lambda>d. \<not> is_ready d) orig
       \<and> woken' = map sel_session (filter is_ready orig)"
  using assms
proof (induction i w sel woken rule: select_scan.induct)
  case (1 i w sel woken)
  show ?case
  proof (cases "i < length sel")
    case False
    then have "select_scan i w sel woken = (w, sel, woken)" by (simp add: select_scan.simps [of i])
    with False "1.prems" show ?thesis by auto
  next
    case True
    have d: "sel ! i = orig ! i"
      using "1.prems"(1,2) True by (metis hd_drop_conv_nth)
    have dr: "drop (Suc i) sel = drop (Suc i) orig"
      using "1.prems"(2) by (metis drop_Suc tl_drop)
    note ft = filter_take_Suc [of i orig]
    consider (ready) "is_ready (sel ! i)" | (move) "\<not> is_ready (sel ! i)" "w < length sel"
      | (stay) "\<not> is_ready (sel ! i)" "\<not> w < length sel" by blast
    then show ?thesis
    proof cases
      case ready
      show ?thesis
        unfolding scan_ready [OF True ready]
        by (rule "1.IH"(1) [OF True refl ready]) (use "1.prems" True ready d dr in \<open>auto simp: ft\<close>)
    next
      case move
      have "drop (Suc i) (sel[w := sel ! i]) = drop (Suc i) orig"
        using "1.prems"(1,5) move dr by auto
      moreover have "take (Suc w) (sel[w := sel ! i]) = filter (\<lambda>d. \<not> is_ready d) (take (Suc i) orig)"
        using "1.prems"(1,5) move True d by (auto simp: ft take_Suc_conv_app_nth)
      ultimately show ?thesis
        unfolding scan_move [OF True move]
        by (intro "1.IH"(2) [OF True refl move]) (use "1.prems" True move d in \<open>auto simp: ft\<close>)
    next
      case stay
      show ?thesis
        unfolding scan_stay [OF True stay]
        by (rule "1.IH"(3) [OF True refl stay])
          (use "1.prems" True stay d dr in \<open>auto simp: ft take_Suc_conv_app_nth\<close>)
    qed
  qed
qed

lemma select_turn_partition:
  "select_turn st =
     (map sel_session (filter is_ready (sel_select st @ sel_queue st)),
      \<lparr>sel_queue = [], sel_select = filter (\<lambda>d. \<not> is_ready d) (sel_select st @ sel_queue st),
       sel_cnt_loop = (if sel_select st = [] then sel_cnt_loop st else sel_cnt_loop st + 1)\<rparr>)"
proof (cases "sel_select st = []")
  case True
  then show ?thesis by (simp add: select_turn_def Let_def)
next
  case False
  obtain w sel' woken where r: "select_scan 0 (length (sel_select st)) (sel_select st) [] = (w, sel', woken)"
    by (metis prod_cases3)
  with select_scan_filter [of "sel_select st" "sel_select st" 0 "[]" "length (sel_select st)"] False
  show ?thesis by (auto simp: select_turn_def Let_def)
qed

section \<open>Properties\<close>

text \<open>messages sent with \<open>try_write\<close> at one end of a channel are returned by \<open>try_read\<close> at the
  other end whole, in order, none lost and none duplicated, for every interleaving of sends and
  receives of the two processes.  A send is refused only without effect.\<close>

theorem channel_messages_in_order:
  assumes "link_rep d q" and "\<forall>m. Send m \<in> set ops \<longrightarrow> link_valid m"
    and "item_run link_send link_recv ops d = (sent, received, d')"
  shows "\<exists>q'. link_rep d' q' \<and> received @ q' = q @ sent"
  by (rule link.run_in_order [OF assms])

lemma link_rep_open:
  assumes "0 < sz" "unat sz < 2 ^ 63"
  shows "link_rep (shm_buffer_open sz None, other) []"
  using sb_wf_open [OF assms] by (simp add: link_rep_def ring_rep_def)

theorem channel_messages_in_order_witness:
  "\<exists>sent received d' q'. item_run link_send link_recv
      [Send [1, 2, 3], Recv, Send [4], Send [5, 6, 7, 8], Recv] (shm_buffer_open 12 None, shm_buffer_open 12 None)
      = (sent, received, d') \<and> link_rep d' q' \<and> received @ q' = sent"
proof -
  let ?d = "(shm_buffer_open 12 None, shm_buffer_open 12 None)"
  let ?ops = "[Send [1, 2, 3], Recv, Send [4], Send [5, 6, 7, 8], Recv] :: byte list item_op list"
  have r: "link_rep ?d []" by (rule link_rep_open) (simp_all add: word_less_nat_alt)
  have v: "\<forall>m. Send m \<in> set ?ops \<longrightarrow> link_valid m" by (auto simp: link_valid_def valid_message_def)
  obtain s rc d' where e: "item_run link_send link_recv ?ops ?d = (s, rc, d')" by (metis prod_cases3)
  from channel_messages_in_order [OF r v e] e show ?thesis by auto
qed

text \<open>a blocked \<open>shm_channel::write\<close> finishes at the first wake-up at which the ring has room for
  the frame, and then the message is the last one queued.\<close>

theorem channel_write_completes:
  assumes "k < length envs" and "valid_message m"
    and "sb_wf (ch_write ch)" and "sb_room (ch_write ch) < length m + 4"
    and "\<forall>j\<le>k. sb_wf (ch_write (run_envs (take (Suc j) envs) ch))"
    and "\<forall>j<k. sb_room (ch_write (run_envs (take (Suc j) envs) ch)) < length m + 4"
    and "ring_rep (ch_write (run_envs (take (Suc k) envs) ch)) q"
    and "length m + 4 \<le> sb_room (ch_write (run_envs (take (Suc k) envs) ch))"
  shows "\<exists>w. channel_write m envs ch = Some ((run_envs (take (Suc k) envs) ch)\<lparr>ch_write := w\<rparr>)
     \<and> ring_rep w (q @ [m])"
proof -
  have "try_write m ch = (False, ch)"
    using try_write_refused [OF assms(3,2)] assms(4) by simp
  with write_loop_completes [OF assms(1,5,6,7,2,8)] show ?thesis
    by (simp add: channel_write_def)
qed

text \<open>A ring of 8 bytes that is full with one message until the reader empties it.\<close>

definition full_channel :: shm_channel where
  "full_channel = \<lparr>ch_write = \<lparr>sb_read = 0, sb_write = 8, sb_read_index = 0, sb_write_index = 0,
     sb_data = [4, 0, 0, 0, 1, 2, 3, 4], sb_size = 8\<rparr>, ch_read = shm_buffer_open 8 None\<rparr>"

definition drain :: "shm_channel \<Rightarrow> shm_channel" where
  "drain ch = ch\<lparr>ch_write := shm_skip 8 (ch_write ch)\<rparr>"

lemma full_channel_rep: "ring_rep (ch_write full_channel) [[1, 2, 3, 4]]"
  by (simp add: full_channel_def ring_rep_def sb_wf_def sb_used_def sb_contents_def ring_slice_def
      upt_conv_Cons frame_def u32_bytes_def valid_message_def)

lemma drained: "ring_rep (ch_write (drain full_channel)) []"
  and drained_room: "sb_room (ch_write (drain full_channel)) = 8"
proof -
  have u: "unat (8 :: u64) = 8" by simp
  show "ring_rep (ch_write (drain full_channel)) []"
    using front_frame(4) [OF full_channel_rep] by (simp add: drain_def)
  then show "sb_room (ch_write (drain full_channel)) = 8"
    by (simp add: drain_def full_channel_def sb_room_def sb_used_def shm_skip_def shm_readable_def Let_def)
qed

theorem channel_write_completes_witness:
  "\<exists>w. channel_write [7, 7] [id, drain] full_channel = Some ((drain full_channel)\<lparr>ch_write := w\<rparr>)
     \<and> ring_rep w [[7, 7]]"
proof -
  have f: "sb_wf (ch_write full_channel)" "sb_room (ch_write full_channel) = 0"
    using full_channel_rep by (auto simp: ring_rep_def full_channel_def sb_room_def sb_used_def)
  have wf: "\<forall>j\<le>1. sb_wf (ch_write (run_envs (take (Suc j) [id, drain]) full_channel))"
    using f(1) drained by (auto simp: le_Suc_eq ring_rep_def)
  show ?thesis
    using channel_write_completes [of 1 "[id, drain]" "[7, 7]" full_channel "[]"] f wf drained drained_room
    by (simp add: valid_message_def)
qed

text \<open>\<open>shm_channel::read\<close> delivers, at the first wake-up at which a message has arrived, exactly
  that message in the caller's buffer, whatever the buffer held before, and removes exactly that
  message from the ring.\<close>

theorem channel_read_correct:
  assumes "k \<le> length envs" and "\<forall>j<k. ring_rep (ch_read (run_envs (take j envs) ch)) []"
    and "ring_rep (ch_read (run_envs (take k envs) ch)) (m # q)"
    and "mb_wf F buf" and "\<forall>n. alloc_ok A n"
  shows "\<exists>buf' s. channel_read A buf envs ch
             = Some (Inr (buf', (run_envs (take k envs) ch)\<lparr>ch_read := s\<rparr>))
           \<and> mb_wf F buf' \<and> contents buf' = m \<and> ring_rep s q"
  using channel_read_delivers [OF assms(1-4)] assms(5) by blast

theorem channel_read_correct_witness:
  "\<exists>buf' s. channel_read \<lparr>alloc_max_size = 100, alloc_ok = (\<lambda>_. True), alloc_fresh = (\<lambda>_. 0)\<rparr>
       (mb_init 2 0) [\<lambda>_. \<lparr>ch_write = ch_read full_channel, ch_read = ch_write full_channel\<rparr>]
       \<lparr>ch_write = shm_buffer_open 8 None, ch_read = shm_buffer_open 8 None\<rparr>
     = Some (Inr (buf', \<lparr>ch_write = ch_read full_channel, ch_read = s\<rparr>))
     \<and> contents buf' = [1, 2, 3, 4] \<and> ring_rep s []"
proof -
  let ?A = "\<lparr>alloc_max_size = 100, alloc_ok = (\<lambda>_. True), alloc_fresh = (\<lambda>_. 0)\<rparr> :: allocator"
  let ?c = "\<lparr>ch_write = shm_buffer_open 8 None, ch_read = shm_buffer_open 8 None\<rparr>"
  let ?e = "\<lambda>_ :: shm_channel. \<lparr>ch_write = ch_read full_channel, ch_read = ch_write full_channel\<rparr>"
  have "ring_rep (shm_buffer_open 8 None) []"
    using link_rep_open [of 8 "shm_buffer_open 8 None"] by (simp add: link_rep_def word_less_nat_alt)
  then show ?thesis
    using channel_read_correct [of 1 "[?e]" ?c "[1, 2, 3, 4]" "[]" 2 "mb_init 2 0" ?A]
      full_channel_rep mb_wf_init [of 2 0] by simp blast
qed

text \<open>one turn of the select thread resumes exactly the waiters whose ring is ready, each once and
  in the order they are watched, keeps all others in order, and forgets none: the in-place compaction
  of the watch list is a filter.\<close>

theorem select_turn_correct:
  "fst (select_turn st) = map sel_session (filter is_ready (sel_select st @ sel_queue st))
   \<and> sel_select (snd (select_turn st)) = filter (\<lambda>d. \<not> is_ready d) (sel_select st @ sel_queue st)
   \<and> sel_queue (snd (select_turn st)) = []"
  by (simp add: select_turn_partition)

text \<open>\<open>try_read\<close> into a buffer that is too small returns 0, stores nothing and leaves the message
  queued; the caller learns the required size only by passing a null buffer.\<close>

theorem try_read_small_buffer:
  assumes "ring_rep (ch_read ch) (m # q)" and "unat sz < length m"
  shows "try_read (Some sz) ch = (0, [], ch) \<and> try_read None ch = (of_nat (length m), [], ch)"
proof -
  have "valid_message m" using assms(1) by (simp add: ring_rep_def)
  from message_length(1) [OF this] assms(2) have "sz < (of_nat (length m) :: u32)"
    by (simp add: word_less_nat_alt)
  then show ?thesis
    by (simp add: try_read_def front_frame [OF assms(1)] Let_def)
qed

theorem try_read_small_buffer_witness:
  "try_read (Some 3) \<lparr>ch_write = ch_read full_channel, ch_read = ch_write full_channel\<rparr>
   = (0, [], \<lparr>ch_write = ch_read full_channel, ch_read = ch_write full_channel\<rparr>)"
  using try_read_small_buffer
    [of "\<lparr>ch_write = ch_read full_channel, ch_read = ch_write full_channel\<rparr>" "[1, 2, 3, 4]" "[]" 3]
    full_channel_rep by simp

text \<open>a message whose frame is larger than the ring is never sent: \<open>shm_channel::write\<close> keeps
  waiting at every wake-up, however often the reader empties the ring.\<close>

theorem oversized_message_blocks:
  assumes "valid_message m" and "\<forall>j\<le>length envs. sb_wf (ch_write (run_envs (take j envs) ch))
     \<and> unat (sb_size (ch_write (run_envs (take j envs) ch))) < length m + 4"
  shows "channel_write m envs ch = None"
proof -
  have "write_loop m envs ch = None" if "valid_message m"
    "\<forall>j\<le>length envs. sb_wf (ch_write (run_envs (take j envs) ch))
       \<and> unat (sb_size (ch_write (run_envs (take j envs) ch))) < length m + 4" for ch
    using that
  proof (induction envs arbitrary: ch)
    case (Cons e es)
    have all: "\<forall>j\<le>length es. sb_wf (ch_write (run_envs (take j es) (e ch)))
       \<and> unat (sb_size (ch_write (run_envs (take j es) (e ch)))) < length m + 4"
      using Cons.prems(2) by (metis Suc_le_mono length_Cons run_envs_simps(2) take_Suc_Cons)
    then have "sb_wf (ch_write (e ch))" "sb_room (ch_write (e ch)) < length m + 4"
      by (auto simp: sb_room_def dest: spec [of _ 0])
    with try_write_refused [of "e ch" m] Cons.IH [OF Cons.prems(1) all] Cons.prems(1) show ?case by simp
  qed simp
  moreover have "sb_wf (ch_write ch)" "sb_room (ch_write ch) < length m + 4"
    using assms(2) by (auto simp: sb_room_def dest: spec [of _ 0])
  ultimately show ?thesis
    using try_write_refused [of ch m] assms by (simp add: channel_write_def)
qed

theorem oversized_message_blocks_witness:
  "channel_write [1, 2, 3, 4, 5] [drain] full_channel = None"
  using oversized_message_blocks [of "[1, 2, 3, 4, 5]" "[drain]" full_channel] full_channel_rep drained
  by (auto simp: le_Suc_eq ring_rep_def valid_message_def drain_def full_channel_def shm_skip_def
      shm_readable_def Let_def)

end
