(* ===== verification/Shm_Steps.thy ===== *)
theory Shm_Steps
  imports Shm_Channel
begin

text \<open>
  One direction of a channel as the two processes run it: \<open>try_write\<close> and \<open>try_read\<close> of \<open>runtime/src/shm/shm_channel.cpp\<close> cut at their calls of \<open>shm_buffer\<close>, so that the
  other process may do anything between two of them.  A step is one call on the shared ring.  The indices are used by one side only and each call looks at the other side's
  total once, so these are the places where the processes can see each other.
\<close>

section \<open>The two processes\<close>

text \<open>Where \<open>try_write\<close> stands: the room has been checked, the length has been stored, the bytes have been stored.\<close>

datatype shm_writer_pc = Wr_idle | Wr_checked "byte list" | Wr_header "byte list" | Wr_body "byte list"

text \<open>Where \<open>try_read\<close> stands: the length has been read, the message is there and fits, the bytes have been copied.\<close>

datatype shm_reader_pc = Rd_idle | Rd_peeked u32 | Rd_ready u32 | Rd_copied u32 "byte list"

text \<open>\<open>sl_sent\<close>: the messages \<open>try_write\<close> returned true for.  \<open>sl_taken\<close>: the messages \<open>try_read\<close> removed.  \<open>sl_results\<close>: for each call of \<open>try_read\<close> with a buffer the
  value returned and the bytes stored.\<close>

record shm_link =
  sl_ring :: shm_buffer
  sl_writer :: shm_writer_pc
  sl_reader :: shm_reader_pc
  sl_sent :: "byte list list"
  sl_taken :: "byte list list"
  sl_results :: "(u32 \<times> byte list) list"

definition shm_link_start :: "shm_buffer \<Rightarrow> shm_link" where
  "shm_link_start s = \<lparr>sl_ring = s, sl_writer = Wr_idle, sl_reader = Rd_idle, sl_sent = [], sl_taken = [], sl_results = []\<rparr>"

definition message_len :: "byte list \<Rightarrow> u32" where
  "message_len m = of_nat (length m)"

text \<open>The next step of the writing process; \<open>buf\<close> is the message of a new call.\<close>

definition shm_writer_step :: "byte list \<Rightarrow> shm_link \<Rightarrow> shm_link" where
  "shm_writer_step buf st =
     (case sl_writer st of
        Wr_idle \<Rightarrow> if shm_writable (sl_ring st) < ucast (message_len buf) + 4 then st else st\<lparr>sl_writer := Wr_checked buf\<rparr>
      | Wr_checked m \<Rightarrow> st\<lparr>sl_ring := snd (shm_fill (u32_bytes (message_len m)) 0 (sl_ring st)), sl_writer := Wr_header m\<rparr>
      | Wr_header m \<Rightarrow> st\<lparr>sl_ring := snd (shm_fill m 4 (sl_ring st)), sl_writer := Wr_body m\<rparr>
      | Wr_body m \<Rightarrow> st\<lparr>sl_ring := shm_written (ucast (message_len m) + 4) (sl_ring st), sl_writer := Wr_idle, sl_sent := sl_sent st @ [m]\<rparr>)"

text \<open>The next step of the reading process; \<open>want\<close> is the size of the call's buffer, \<open>None\<close> a null buffer.\<close>

definition read_returns :: "u32 option \<Rightarrow> u32 \<Rightarrow> byte list \<Rightarrow> shm_link \<Rightarrow> shm_link" where
  "read_returns want len bs st =
     st\<lparr>sl_reader := Rd_idle, sl_results := (if want = None then sl_results st else sl_results st @ [(len, bs)])\<rparr>"

definition shm_reader_step :: "u32 option \<Rightarrow> shm_link \<Rightarrow> shm_link" where
  "shm_reader_step want st =
     (case sl_reader st of
        Rd_idle \<Rightarrow>
          let hdr = shm_peek 4 0 (sl_ring st)
          in if length hdr < 4 then read_returns want 0 [] st else st\<lparr>sl_reader := Rd_peeked (bytes_u32 hdr)\<rparr>
      | Rd_peeked len \<Rightarrow>
          if shm_readable (sl_ring st) < 4 + ucast len then read_returns want 0 [] st
          else (case want of
                  None \<Rightarrow> read_returns want len [] st
                | Some sz \<Rightarrow> if sz < len then read_returns want 0 [] st else st\<lparr>sl_reader := Rd_ready len\<rparr>)
      | Rd_ready len \<Rightarrow> st\<lparr>sl_reader := Rd_copied len (shm_peek (ucast len) 4 (sl_ring st))\<rparr>
      | Rd_copied len bs \<Rightarrow>
          st\<lparr>sl_ring := shm_skip (ucast len + 4) (sl_ring st), sl_reader := Rd_idle, sl_taken := sl_taken st @ [bs],
             sl_results := sl_results st @ [(len, bs)]\<rparr>)"

datatype shm_event = Writer "byte list" | Reader "u32 option"

fun shm_event_step :: "shm_event \<Rightarrow> shm_link \<Rightarrow> shm_link" where
  "shm_event_step (Writer buf) st = shm_writer_step buf st"
| "shm_event_step (Reader want) st = shm_reader_step want st"

definition shm_steps :: "shm_event list \<Rightarrow> shm_link \<Rightarrow> shm_link" where
  "shm_steps es st = fold shm_event_step es st"

section \<open>One process alone\<close>

text \<open>When nobody else runs in between, the steps of a call make up the call.\<close>

lemma writer_steps:
  "shm_writer_step x (st\<lparr>sl_writer := Wr_checked m\<rparr>) = st\<lparr>sl_ring := snd (shm_fill (u32_bytes (message_len m)) 0 (sl_ring st)), sl_writer := Wr_header m\<rparr>"
  "shm_writer_step x (st\<lparr>sl_ring := r, sl_writer := Wr_header m\<rparr>) = st\<lparr>sl_ring := snd (shm_fill m 4 r), sl_writer := Wr_body m\<rparr>"
  "shm_writer_step x (st\<lparr>sl_ring := r, sl_writer := Wr_body m\<rparr>) =
     st\<lparr>sl_ring := shm_written (ucast (message_len m) + 4) r, sl_writer := Wr_idle, sl_sent := sl_sent st @ [m]\<rparr>"
  by (simp_all add: shm_writer_step_def)

lemma writer_alone:
  assumes "sl_writer st = Wr_idle" "ch_write ch = sl_ring st"
  shows "if fst (try_write m ch)
     then shm_steps [Writer m, Writer x, Writer y, Writer z] st = st\<lparr>sl_ring := ch_write (snd (try_write m ch)), sl_sent := sl_sent st @ [m]\<rparr>
     else shm_writer_step m st = st \<and> snd (try_write m ch) = ch"
proof (cases "shm_writable (sl_ring st) < ucast (message_len m) + 4")
  case True
  then show ?thesis using assms by (simp add: shm_writer_step_def try_write_def message_len_def)
next
  case False
  then have "shm_writer_step m st = st\<lparr>sl_writer := Wr_checked m\<rparr>" using assms(1) by (simp add: shm_writer_step_def)
  moreover have "try_write m ch = (True, ch\<lparr>ch_write := shm_written (ucast (message_len m) + 4)
      (snd (shm_fill m 4 (snd (shm_fill (u32_bytes (message_len m)) 0 (sl_ring st)))))\<rparr>)"
    using False assms(2) by (simp add: try_write_def Let_def message_len_def)
  moreover have "st\<lparr>sl_ring := r, sl_writer := Wr_idle, sl_sent := q\<rparr> = st\<lparr>sl_ring := r, sl_sent := q\<rparr>" for r q
    using assms(1) by (cases st) simp
  ultimately show ?thesis by (simp add: shm_steps_def writer_steps)
qed

lemma reader_alone:
  assumes "sl_reader st = Rd_idle" "ch_read ch = sl_ring st" "try_read (Some sz) ch = (len, bs, ch')" "len \<noteq> 0"
  shows "shm_steps [Reader (Some sz), Reader (Some sz), Reader (Some sz), Reader (Some sz)] st =
     st\<lparr>sl_ring := ch_read ch', sl_taken := sl_taken st @ [bs], sl_results := sl_results st @ [(len, bs)]\<rparr>"
proof -
  have l: "\<not> length (shm_peek 4 0 (sl_ring st)) < 4" "len = bytes_u32 (shm_peek 4 0 (sl_ring st))" "\<not> shm_readable (sl_ring st) < 4 + ucast len"
    "\<not> sz < len" "bs = shm_peek (ucast len) 4 (sl_ring st)" "ch' = ch\<lparr>ch_read := shm_skip (ucast len + 4) (sl_ring st)\<rparr>"
    using assms(2-4) unfolding try_read_def Let_def by (auto split: if_splits)
  have "shm_reader_step (Some sz) st = st\<lparr>sl_reader := Rd_peeked len\<rparr>" using assms(1) l(1,2) by (simp add: shm_reader_step_def Let_def)
  moreover have "shm_reader_step (Some sz) (st\<lparr>sl_reader := Rd_peeked len\<rparr>) = st\<lparr>sl_reader := Rd_ready len\<rparr>" using l(3,4) by (simp add: shm_reader_step_def)
  moreover have "shm_reader_step (Some sz) (st\<lparr>sl_reader := Rd_ready len\<rparr>) = st\<lparr>sl_reader := Rd_copied len bs\<rparr>" using l(5) by (simp add: shm_reader_step_def)
  moreover have "shm_reader_step (Some sz) (st\<lparr>sl_reader := Rd_copied len bs\<rparr>) =
      st\<lparr>sl_ring := shm_skip (ucast len + 4) (sl_ring st), sl_reader := Rd_idle, sl_taken := sl_taken st @ [bs], sl_results := sl_results st @ [(len, bs)]\<rparr>"
    by (simp add: shm_reader_step_def)
  moreover have "st\<lparr>sl_ring := r, sl_reader := Rd_idle, sl_taken := q, sl_results := u\<rparr> = st\<lparr>sl_ring := r, sl_taken := q, sl_results := u\<rparr>" for r q u
    using assms(1) by (cases st) simp
  ultimately show ?thesis using l(6) by (simp add: shm_steps_def)
qed

section \<open>What is behind the stored bytes\<close>

definition sb_ahead :: "nat \<Rightarrow> shm_buffer \<Rightarrow> byte list" where
  "sb_ahead k s = ring_slice (unat (sb_write_index s)) k (sb_data s)"

lemma sb_ahead_conv:
  assumes "sb_wf s"
  shows "sb_ahead k s = ring_slice (unat (sb_read_index s) + sb_used s) k (sb_data s)"
  using sb_wf_bounds [OF assms] ring_slice_mod [of "unat (sb_read_index s) + sb_used s" "sb_data s" k] by (simp add: sb_ahead_def)

lemma contents_ahead:
  assumes "sb_wf s"
  shows "ring_slice (unat (sb_read_index s)) (sb_used s + k) (sb_data s) = sb_contents s @ sb_ahead k s"
  unfolding sb_ahead_conv [OF assms] sb_contents_def by (simp add: ring_slice_append)

lemma fill_ahead:
  assumes wf: "sb_wf s" and fit: "unat off + length buf \<le> sb_room s"
  defines "w \<equiv> snd (shm_fill buf off s)"
  shows "sb_wf w" "sb_contents w = sb_contents s" "sb_room w = sb_room s" "sb_ahead (unat off + length buf) w = sb_ahead (unat off) s @ buf"
proof -
  note n = sb_wf_bounds [OF wf]
  let ?r = "unat (sb_read_index s)"
  have eq: "w = s\<lparr>sb_data := ring_write ((?r + (sb_used s + unat off)) mod unat (sb_size s)) buf (sb_data s)\<rparr>"
  proof (cases "unat off < unat (sb_size s) - sb_used s")
    case True
    then show ?thesis using shm_fill_spec [OF wf True, of buf] fit by (simp add: w_def sb_room_def add.assoc)
  next
    case False
    then have "buf = []" using fit by (cases buf) (auto simp: sb_room_def)
    then show ?thesis by (auto simp: w_def shm_fill_def write_impl_def Let_def)
  qed
  have fits: "sb_used s + unat off + length buf \<le> length (sb_data s)" "?r < length (sb_data s)"
    using fit n unfolding sb_room_def by linarith+
  have i: "(?r + (sb_used s + unat off)) mod unat (sb_size s) < length (sb_data s)" using n by simp
  then have len: "length (sb_data w) = unat (sb_size s)" using fits n by (simp add: eq)
  then show "sb_wf w" using wf by (simp add: eq sb_wf_def sb_used_def)
  moreover have used: "sb_used w = sb_used s" "sb_read_index w = sb_read_index s" by (simp_all add: eq sb_used_def)
  moreover have "ring_slice ?r (sb_used s + unat off + length buf) (sb_data w) = ring_slice ?r (sb_used s + unat off) (sb_data s) @ buf"
    using ring_append [OF fits(2,1)] n by (simp add: eq)
  ultimately have all: "sb_contents w @ sb_ahead (unat off + length buf) w = sb_contents s @ sb_ahead (unat off) s @ buf"
    using contents_ahead [of w "unat off + length buf"] contents_ahead [OF wf, of "unat off"] by (simp add: add.assoc)
  then show "sb_contents w = sb_contents s" "sb_ahead (unat off + length buf) w = sb_ahead (unat off) s @ buf"
    using used by (simp_all add: append_eq_append_conv length_sb_contents)
  show "sb_room w = sb_room s" by (simp add: eq sb_room_def sb_used_def)
qed

lemma shm_skip_ahead: "sb_ahead k (shm_skip len s) = sb_ahead k s"
  by (simp add: sb_ahead_def shm_skip_def Let_def)

lemma shm_skip_room:
  assumes "sb_wf s"
  shows "sb_room s \<le> sb_room (shm_skip len s)"
proof -
  have "sb_used (shm_skip len s) \<le> sb_used s"
    using shm_skip_spec [OF assms, of len] length_sb_contents [of "shm_skip len s"] length_sb_contents [of s] by simp
  moreover have "sb_size (shm_skip len s) = sb_size s" by (simp add: shm_skip_def Let_def)
  ultimately show ?thesis by (simp add: sb_room_def)
qed

section \<open>Invariant\<close>

fun writer_ok :: "shm_writer_pc \<Rightarrow> shm_buffer \<Rightarrow> bool" where
  "writer_ok Wr_idle s = True"
| "writer_ok (Wr_checked m) s = (valid_message m \<and> length m + 4 \<le> sb_room s)"
| "writer_ok (Wr_header m) s = (valid_message m \<and> length m + 4 \<le> sb_room s \<and> sb_ahead 4 s = u32_bytes (message_len m))"
| "writer_ok (Wr_body m) s = (valid_message m \<and> length m + 4 \<le> sb_room s \<and> sb_ahead (length m + 4) s = frame m)"

fun reader_ok :: "shm_reader_pc \<Rightarrow> byte list list \<Rightarrow> bool" where
  "reader_ok Rd_idle q = True"
| "reader_ok (Rd_peeked len) q = (\<exists>m q'. q = m # q' \<and> len = message_len m)"
| "reader_ok (Rd_ready len) q = (\<exists>m q'. q = m # q' \<and> len = message_len m)"
| "reader_ok (Rd_copied len bs) q = (\<exists>q'. q = bs # q' \<and> len = message_len bs)"

definition got :: "(u32 \<times> byte list) list \<Rightarrow> byte list list" where
  "got rs = map snd (filter (\<lambda>r. fst r \<noteq> 0) rs)"

definition shm_link_inv :: "byte list list \<Rightarrow> byte list list \<Rightarrow> shm_link \<Rightarrow> bool" where
  "shm_link_inv q0 q st \<longleftrightarrow> ring_rep (sl_ring st) q \<and> sl_taken st @ q = q0 @ sl_sent st
     \<and> writer_ok (sl_writer st) (sl_ring st) \<and> reader_ok (sl_reader st) q \<and> got (sl_results st) = filter (\<lambda>m. m \<noteq> []) (sl_taken st)"

lemma reader_ok_append: "reader_ok r q \<Longrightarrow> reader_ok r (q @ [m])"
  by (cases r) auto

lemma message_len_0: "valid_message m \<Longrightarrow> message_len m = 0 \<longleftrightarrow> m = []"
  using message_length(1) [of m] by (auto simp: message_len_def)

lemma ring_rep_cong: "ring_rep s q \<Longrightarrow> sb_wf w \<Longrightarrow> sb_contents w = sb_contents s \<Longrightarrow> ring_rep w q"
  by (simp add: ring_rep_def)

lemma writer_step_inv:
  assumes i: "shm_link_inv q0 q st" and v: "valid_message buf"
  shows "\<exists>q'. shm_link_inv q0 q' (shm_writer_step buf st)"
proof -
  let ?s = "sl_ring st"
  have rep: "ring_rep ?s q" and wf: "sb_wf ?s" using i by (auto simp: shm_link_inv_def ring_rep_def)
  show ?thesis
  proof (cases "sl_writer st")
    case Wr_idle
    have "length buf + 4 \<le> sb_room ?s" if "\<not> shm_writable ?s < ucast (message_len buf) + 4"
      using that message_length(3) [OF v] unat_shm_writable [OF wf] by (simp add: word_less_nat_alt sb_room_def message_len_def)
    then have "shm_link_inv q0 q (shm_writer_step buf st)" using i v Wr_idle by (simp add: shm_link_inv_def shm_writer_step_def)
    then show ?thesis by blast
  next
    case (Wr_checked m)
    then have m: "valid_message m" "length m + 4 \<le> sb_room ?s" using i by (auto simp: shm_link_inv_def)
    note f = fill_ahead [OF wf, of 0 "u32_bytes (message_len m)", simplified]
    have "shm_link_inv q0 q (shm_writer_step buf st)"
      using i m f ring_rep_cong [OF rep] Wr_checked by (simp add: shm_link_inv_def shm_writer_step_def sb_ahead_def ring_slice_def)
    then show ?thesis by blast
  next
    case (Wr_header m)
    then have m: "valid_message m" "length m + 4 \<le> sb_room ?s" "sb_ahead 4 ?s = u32_bytes (message_len m)" using i by (auto simp: shm_link_inv_def)
    note f = fill_ahead [OF wf, of 4 m, simplified]
    have "shm_link_inv q0 q (shm_writer_step buf st)"
      using i m f ring_rep_cong [OF rep] Wr_header by (simp add: shm_link_inv_def shm_writer_step_def frame_def message_len_def add.commute)
    then show ?thesis by blast
  next
    case (Wr_body m)
    then have m: "valid_message m" "length m + 4 \<le> sb_room ?s" "sb_ahead (length m + 4) ?s = frame m" using i by (auto simp: shm_link_inv_def)
    let ?w = "shm_written (ucast (message_len m) + 4) ?s"
    have "sb_wf ?w \<and> sb_contents ?w = sb_contents ?s @ frame m"
      using shm_written_spec [OF wf, of "ucast (message_len m) + 4"] m message_length(3) [OF m(1)] contents_ahead [OF wf, of "length m + 4"]
      by (simp add: sb_room_def message_len_def)
    then have "ring_rep ?w (q @ [m])" using rep m(1) by (simp add: ring_rep_def)
    then have "shm_link_inv q0 (q @ [m]) (shm_writer_step buf st)"
      using i Wr_body by (simp add: shm_link_inv_def shm_writer_step_def reader_ok_append)
    then show ?thesis by blast
  qed
qed

lemma got_append: "got (rs @ [(n, b)]) = got rs @ (if n = 0 then [] else [b])"
  by (simp add: got_def)

lemma read_returns_inv: "shm_link_inv q0 q st \<Longrightarrow> want \<noteq> None \<longrightarrow> n = 0 \<Longrightarrow> shm_link_inv q0 q (read_returns want n b st)"
  by (auto simp: shm_link_inv_def read_returns_def got_append)

lemma reader_step_inv:
  assumes i: "shm_link_inv q0 q st"
  shows "\<exists>q'. shm_link_inv q0 q' (shm_reader_step want st)"
proof -
  let ?s = "sl_ring st"
  have rep: "ring_rep ?s q" and wf: "sb_wf ?s" and ok: "reader_ok (sl_reader st) q" using i by (auto simp: shm_link_inv_def ring_rep_def)
  show ?thesis
  proof (cases "sl_reader st")
    case Rd_idle
    have "shm_link_inv q0 q (shm_reader_step want st)"
    proof (cases q)
      case Nil
      then have "shm_peek 4 0 ?s = []" using rep by (simp add: ring_rep_def shm_peek_spec slice_def)
      then show ?thesis using i Rd_idle read_returns_inv by (simp add: shm_reader_step_def)
    next
      case (Cons m q')
      then show ?thesis using i Rd_idle front_frame(1) [of ?s m q'] rep by (simp add: shm_reader_step_def shm_link_inv_def message_len_def)
    qed
    then show ?thesis by blast
  next
    case (Rd_peeked len)
    then have "shm_link_inv q0 q (shm_reader_step want st)"
      using i ok read_returns_inv [OF i] by (auto simp: shm_reader_step_def shm_link_inv_def split: option.splits)
    then show ?thesis by blast
  next
    case (Rd_ready len)
    then obtain m q' where q: "q = m # q'" "len = message_len m" using ok by auto
    then have "shm_peek (ucast len) 4 ?s = m" using front_frame(2) [of ?s m q'] rep by (simp add: message_len_def)
    then have "shm_link_inv q0 q (shm_reader_step want st)" using i q Rd_ready by (simp add: shm_reader_step_def shm_link_inv_def)
    then show ?thesis by blast
  next
    case (Rd_copied len bs)
    then obtain q' where q: "q = bs # q'" "len = message_len bs" using ok by auto
    let ?w = "shm_skip (ucast len + 4) ?s"
    have w: "ring_rep ?w q'" using front_frame(4) [of ?s bs q'] rep q by (simp add: message_len_def)
    have "writer_ok (sl_writer st) ?w"
      using i shm_skip_room [OF wf, of "ucast len + 4"] by (cases "sl_writer st") (auto simp: shm_link_inv_def shm_skip_ahead)
    moreover have "valid_message bs" using rep q by (simp add: ring_rep_def)
    ultimately have "shm_link_inv q0 q' (shm_reader_step want st)"
      using i q w Rd_copied by (auto simp: shm_reader_step_def shm_link_inv_def got_append message_len_0)
    then show ?thesis by blast
  qed
qed

lemma shm_steps_inv:
  assumes "shm_link_inv q0 q st" "\<forall>m. Writer m \<in> set es \<longrightarrow> valid_message m"
  shows "\<exists>q'. shm_link_inv q0 q' (shm_steps es st)"
  using assms
proof (induction es arbitrary: q st)
  case (Cons e es)
  obtain q' where "shm_link_inv q0 q' (shm_event_step e st)"
    using Cons.prems writer_step_inv reader_step_inv by (cases e) fastforce+
  then show ?case using Cons by (auto simp: shm_steps_def)
qed (auto simp: shm_steps_def)

section \<open>Properties\<close>

text \<open>C2: Two processes send and receive on one ring, and between any two accesses of one of them to the ring the other may run.  Whatever the interleaving, and whatever
  messages of less than 4 GiB are sent, the messages that \<open>try_read\<close> has removed, followed by those the ring still holds, are those the ring held at the start
  followed by those \<open>try_write\<close> has accepted: whole, in order, none lost and none duplicated.  The calls of \<open>try_read\<close> that return a length other than 0 return the removed
  messages in order, except the empty ones: an empty message is removed as well, but the call returns 0, as it does when nothing is there.\<close>

theorem interleaved_channel_in_order:
  assumes "ring_rep s q" "\<forall>m. Writer m \<in> set es \<longrightarrow> length m < 2 ^ 32" "st = shm_steps es (shm_link_start s)"
  shows "\<exists>q'. ring_rep (sl_ring st) q' \<and> sl_taken st @ q' = q @ sl_sent st
     \<and> map snd (filter (\<lambda>r. fst r \<noteq> 0) (sl_results st)) = filter (\<lambda>m. m \<noteq> []) (sl_taken st)"
proof -
  have "shm_link_inv q q (shm_link_start s)" using assms(1) by (simp add: shm_link_inv_def shm_link_start_def got_def)
  then obtain q' where "shm_link_inv q q' st" using shm_steps_inv [of q q _ es] assms(2,3) by (auto simp: valid_message_def)
  then show ?thesis by (auto simp: shm_link_inv_def got_def)
qed

definition interleaved_events :: "shm_event list" where
  "interleaved_events =
     [Writer [1, 2], Writer [], Writer [], Writer [], Writer [], Reader (Some 9), Writer [], Reader (Some 9), Writer [], Reader (Some 9), Writer [], Reader (Some 9),
      Reader (Some 9), Reader (Some 9), Reader (Some 9), Reader (Some 9)]"

theorem interleaved_channel_in_order_witness:
  "(let st = shm_steps interleaved_events (shm_link_start (shm_buffer_open 12 None))
    in sl_sent st = [[1, 2], []] \<and> sl_taken st = [[1, 2], []] \<and> sl_results st = [(2, [1, 2]), (0, [])] \<and> ring_rep (sl_ring st) [])"
proof -
  define st where "st = shm_steps interleaved_events (shm_link_start (shm_buffer_open 12 None))"
  have run: "sl_sent st = [[1, 2], []]" "sl_taken st = [[1, 2], []]" "sl_results st = [(2, [1, 2]), (0, [])]"
    unfolding st_def by code_simp+
  have "ring_rep (shm_buffer_open 12 None) []" using sb_wf_open [of 12] by (simp add: ring_rep_def word_less_nat_alt)
  moreover have "\<forall>m. Writer m \<in> set interleaved_events \<longrightarrow> length m < 2 ^ 32" by (auto simp: interleaved_events_def)
  ultimately show ?thesis
    using interleaved_channel_in_order [OF _ _ st_def, of "[]"] run unfolding st_def [symmetric] by auto
qed

end
