(* ===== verification/Deadline_Queue.thy ===== *)
theory Deadline_Queue
  imports Prelude
begin

text \<open>
  The contract of a queue of deadlines, as the scheduler relies on it: arming a timer, cancelling
  it, and a tick of the clock that takes out everything due, earliest first.  The abstract state is
  a map from timers to deadlines.  The contract is interpreted on the timer heap in
  \<open>Timer_Queue\<close>.
\<close>

datatype 'n timer_op = Arm 'n int | Cancel 'n | Tick int

fun spec_step :: "'n timer_op \<Rightarrow> ('n \<rightharpoonup> int) \<Rightarrow> ('n \<rightharpoonup> int)" where
  "spec_step (Arm n p) m = m(n \<mapsto> max 0 p)"
| "spec_step (Cancel n) m = m(n := None)"
| "spec_step (Tick now) m = (\<lambda>a. case m a of None \<Rightarrow> None | Some t \<Rightarrow> if t \<le> now then None else Some t)"

text \<open>What one operation reports: whether a cancelled timer was still pending, and what a tick fires.\<close>

datatype 'n timer_out = Armed | Cancelled bool | Fired "'n list"

fun spec_out :: "'n timer_op \<Rightarrow> ('n \<rightharpoonup> int) \<Rightarrow> 'n timer_out \<Rightarrow> bool" where
  "spec_out (Arm n p) m r \<longleftrightarrow> r = Armed"
| "spec_out (Cancel n) m r \<longleftrightarrow> r = Cancelled (m n \<noteq> None)"
| "spec_out (Tick now) m r \<longleftrightarrow> (\<exists>ns. r = Fired ns \<and> distinct ns
      \<and> set ns = {a. \<exists>t. m a = Some t \<and> t \<le> now} \<and> sorted (map (\<lambda>a. the (m a)) ns))"

fun spec_outs :: "'n timer_op list \<Rightarrow> ('n \<rightharpoonup> int) \<Rightarrow> 'n timer_out list \<Rightarrow> bool" where
  "spec_outs [] m rs \<longleftrightarrow> rs = []"
| "spec_outs (x # xs) m rs \<longleftrightarrow>
     (\<exists>r rs'. rs = r # rs' \<and> spec_out x m r \<and> spec_outs xs (spec_step x m) rs')"

text \<open>A timer is armed only while it is not pending, and only \<open>k\<close> timers may be armed.\<close>

fun legal :: "'n timer_op list \<Rightarrow> ('n \<rightharpoonup> int) \<Rightarrow> nat \<Rightarrow> bool" where
  "legal [] m k \<longleftrightarrow> True"
| "legal (Arm n p # xs) m k \<longleftrightarrow> m n = None \<and> 0 < k \<and> legal xs (m(n \<mapsto> max 0 p)) (k - 1)"
| "legal (x # xs) m k \<longleftrightarrow> legal xs (spec_step x m) k"

locale deadline_queue =
  fixes inv :: "nat \<Rightarrow> 'q \<Rightarrow> bool"
    and pend :: "'q \<Rightarrow> 'n \<Rightarrow> int option"
    and arm :: "'n \<Rightarrow> int \<Rightarrow> 'q \<Rightarrow> 'q"
    and cancel :: "'n \<Rightarrow> 'q \<Rightarrow> bool \<times> 'q"
    and ready :: "int \<Rightarrow> 'q \<Rightarrow> ('n list \<times> 'q) option"
  assumes arm_law: "\<lbrakk>inv k q; 0 < k; pend q n = None\<rbrakk> \<Longrightarrow>
      inv (k - 1) (arm n p q) \<and> pend (arm n p q) = (pend q)(n \<mapsto> max 0 p)"
    and cancel_law: "inv k q \<Longrightarrow> inv k (snd (cancel n q))
      \<and> fst (cancel n q) = (pend q n \<noteq> None) \<and> pend (snd (cancel n q)) = (pend q)(n := None)"
    and ready_law: "inv k q \<Longrightarrow> \<exists>ns q'. ready now q = Some (ns, q') \<and> inv k q'
      \<and> spec_out (Tick now) (pend q) (Fired ns) \<and> pend q' = spec_step (Tick now) (pend q)"
begin

fun run :: "'n timer_op list \<Rightarrow> 'q \<Rightarrow> ('n timer_out list \<times> 'q) option" where
  "run [] q = Some ([], q)"
| "run (Arm n p # xs) q = map_option (apfst ((#) Armed)) (run xs (arm n p q))"
| "run (Cancel n # xs) q = map_option (apfst ((#) (Cancelled (fst (cancel n q))))) (run xs (snd (cancel n q)))"
| "run (Tick now # xs) q = (case ready now q of None \<Rightarrow> None
      | Some (ns, q') \<Rightarrow> map_option (apfst ((#) (Fired ns))) (run xs q'))"

lemma run_meets_deadlines:
  "inv k q \<Longrightarrow> legal ops (pend q) k \<Longrightarrow>
   \<exists>rs q'. run ops q = Some (rs, q') \<and> spec_outs ops (pend q) rs
     \<and> pend q' = fold spec_step ops (pend q)"
proof (induction ops arbitrary: q k)
  case (Cons x xs)
  show ?case
  proof (cases x)
    case (Arm n p)
    then have k: "0 < k" "pend q n = None" "legal xs ((pend q)(n \<mapsto> max 0 p)) (k - 1)"
      using Cons.prems(2) by simp_all
    note law = arm_law [OF Cons.prems(1) k(1,2), of p]
    obtain rs q' where "run xs (arm n p q) = Some (rs, q')" "spec_outs xs (pend (arm n p q)) rs"
        "pend q' = fold spec_step xs (pend (arm n p q))"
      using Cons.IH [of "k - 1" "arm n p q"] law k(3) by metis
    then show ?thesis using Arm law
      by (intro exI [of _ "Armed # rs"] exI [of _ q']) (simp del: fun_upd_apply)
  next
    case (Cancel n)
    note law = cancel_law [OF Cons.prems(1), of n]
    obtain rs q' where "run xs (snd (cancel n q)) = Some (rs, q')"
        "spec_outs xs (pend (snd (cancel n q))) rs" "pend q' = fold spec_step xs (pend (snd (cancel n q)))"
      using Cons.IH [of k "snd (cancel n q)"] law Cons.prems(2) Cancel
      by (metis legal.simps(3) spec_step.simps(2))
    then show ?thesis using Cancel law
      by (intro exI [of _ "Cancelled (fst (cancel n q)) # rs"] exI [of _ q']) (simp del: fun_upd_apply)
  next
    case (Tick now)
    obtain ns q' where r: "ready now q = Some (ns, q')" "inv k q'"
        "spec_out (Tick now) (pend q) (Fired ns)" "pend q' = spec_step (Tick now) (pend q)"
      using ready_law [OF Cons.prems(1)] by blast
    then obtain rs q'' where "run xs q' = Some (rs, q'')" "spec_outs xs (pend q') rs"
        "pend q'' = fold spec_step xs (pend q')"
      using Cons.IH [of k q'] Cons.prems Tick by auto
    then show ?thesis using r Tick
      by (intro exI [of _ "Fired ns # rs"] exI [of _ q'']) (simp del: spec_out.simps spec_step.simps)
  qed
qed simp

end

end
