(* ===== verification/Timer_Queue.thy ===== *)
theory Timer_Queue
  imports Deadline_Queue "HOL-Library.Multiset"
begin

text \<open>
  The timer heap of the scheduler, \<open>runtime/src/containers/time_queue.cpp\<close>: a binary heap of
  pointers to timer nodes, each node holding its own position in the heap (\<open>index\<close>, the largest
  \<open>size_t\<close> when it is not queued).  Nodes live in a store indexed by their address; time points are
  integers (clock ticks).
\<close>

section \<open>Nodes, heap and operations\<close>

record timer_node =
  t_index :: nat
  t_point :: int

record timer_queue =
  tq_heap :: "addr list"
  tq_node :: "addr \<Rightarrow> timer_node"

abbreviation npos :: nat where
  "npos \<equiv> size_t_modulus - 1"

definition point_at :: "timer_queue \<Rightarrow> nat \<Rightarrow> int" where
  "point_at q i = t_point (tq_node q (tq_heap q ! i))"

definition set_index :: "addr \<Rightarrow> nat \<Rightarrow> timer_queue \<Rightarrow> timer_queue" where
  "set_index n i q = q\<lparr>tq_node := (tq_node q)(n := (tq_node q n)\<lparr>t_index := i\<rparr>)\<rparr>"

definition swap_heap :: "nat \<Rightarrow> nat \<Rightarrow> timer_queue \<Rightarrow> timer_queue" where
  "swap_heap i j q =
     (let h = (tq_heap q)[i := tq_heap q ! j, j := tq_heap q ! i]
      in set_index (h ! j) j (set_index (h ! i) i (q\<lparr>tq_heap := h\<rparr>)))"

fun up_heap :: "nat \<Rightarrow> timer_queue \<Rightarrow> timer_queue" where
  "up_heap index q =
     (if index = 0 then q
      else let parent = (index - 1) div 2
           in if point_at q index \<ge> point_at q parent then q
              else up_heap parent (swap_heap index parent q))"

declare up_heap.simps [simp del]

lemma length_swap_heap [simp]: "length (tq_heap (swap_heap i j q)) = length (tq_heap q)"
  by (simp add: swap_heap_def set_index_def Let_def)

definition min_child :: "nat \<Rightarrow> timer_queue \<Rightarrow> nat" where
  "min_child child q =
     (if child + 1 = length (tq_heap q) \<or> point_at q child < point_at q (child + 1)
      then child else child + 1)"

function down_heap :: "nat \<Rightarrow> timer_queue \<Rightarrow> timer_queue" where
  "down_heap index q =
     (let child = index * 2 + 1
      in if child < length (tq_heap q)
         then let m = min_child child q
              in if point_at q index < point_at q m then q
                 else down_heap m (swap_heap index m q)
         else q)"
  by pat_completeness auto
termination
  by (relation "measure (\<lambda>(index, q). length (tq_heap q) - index)") (auto simp: min_child_def)

declare down_heap.simps [simp del]

definition timer_remove :: "addr \<Rightarrow> timer_queue \<Rightarrow> bool \<times> timer_queue" where
  "timer_remove n q =
     (let index = t_index (tq_node q n); size = length (tq_heap q)
      in if tq_heap q \<noteq> [] \<and> index < size
         then (True,
               if index = size - 1
               then (set_index n npos q)\<lparr>tq_heap := butlast (tq_heap q)\<rparr>
               else let q1 = swap_heap index (size - 1) q;
                        q2 = set_index n npos q1;
                        q3 = q2\<lparr>tq_heap := butlast (tq_heap q2)\<rparr>
                    in if index > 0 \<and> point_at q3 index < point_at q3 ((index - 1) div 2)
                       then up_heap index q3 else down_heap index q3)
         else (False, q))"

definition timer_enqueue :: "addr \<Rightarrow> timer_queue \<Rightarrow> timer_queue" where
  "timer_enqueue n q =
     (let size = length (tq_heap q)
      in if t_index (tq_node q n) < size then q
         else let node = tq_node q n;
                  node' = \<lparr>t_index = size, t_point = (if t_point node < 0 then 0 else t_point node)\<rparr>
              in up_heap size (q\<lparr>tq_heap := tq_heap q @ [n], tq_node := (tq_node q)(n := node')\<rparr>))"

text \<open>\<open>None\<close> is \<open>duration::max()\<close>.\<close>

definition wait_duration :: "int \<Rightarrow> timer_queue \<Rightarrow> int option" where
  "wait_duration now q = (if tq_heap q = [] then None else Some (point_at q 0 - now))"

partial_function (option) get_ready_timers ::
    "int \<Rightarrow> timer_queue \<Rightarrow> addr list \<Rightarrow> (addr list \<times> timer_queue) option" where
  "get_ready_timers now q result =
     (if tq_heap q \<noteq> [] \<and> now \<ge> point_at q 0
      then let n = tq_heap q ! 0
           in get_ready_timers now (snd (timer_remove n q)) (result @ [n])
      else Some (result, q))"

text \<open>\<open>get_all_timers\<close> moves the vector out; the nodes keep their stale indices.\<close>

definition get_all_timers :: "timer_queue \<Rightarrow> addr list \<times> timer_queue" where
  "get_all_timers q = (tq_heap q, q\<lparr>tq_heap := []\<rparr>)"

section \<open>Invariant\<close>

abbreviation par :: "nat \<Rightarrow> nat" where
  "par j \<equiv> (j - 1) div 2"

definition heap_order :: "(nat \<Rightarrow> int) \<Rightarrow> nat \<Rightarrow> bool" where
  "heap_order f n \<longleftrightarrow> (\<forall>j. 0 < j \<and> j < n \<longrightarrow> f (par j) \<le> f j)"

text \<open>Every queued node knows its position, every other node has the index \<open>npos\<close>.\<close>

definition indexed :: "timer_queue \<Rightarrow> bool" where
  "indexed q \<longleftrightarrow> (\<forall>i<length (tq_heap q). t_index (tq_node q (tq_heap q ! i)) = i)
     \<and> (\<forall>a. a \<notin> set (tq_heap q) \<longrightarrow> t_index (tq_node q a) = npos)
     \<and> length (tq_heap q) < npos"

definition tq_wf :: "timer_queue \<Rightarrow> bool" where
  "tq_wf q \<longleftrightarrow> indexed q \<and> heap_order (point_at q) (length (tq_heap q))"

section \<open>Order of a heap with one misplaced entry\<close>

definition order_except :: "(nat \<Rightarrow> int) \<Rightarrow> nat \<Rightarrow> nat \<Rightarrow> bool" where
  "order_except f n i \<longleftrightarrow>
     (\<forall>j. 0 < j \<and> j < n \<and> j \<noteq> i \<and> par j \<noteq> i \<longrightarrow> f (par j) \<le> f j)
     \<and> (\<forall>j. 0 < j \<and> j < n \<and> par j = i \<and> 0 < i \<longrightarrow> f (par i) \<le> f j)"

definition below_ok :: "(nat \<Rightarrow> int) \<Rightarrow> nat \<Rightarrow> nat \<Rightarrow> bool" where
  "below_ok f n i \<longleftrightarrow> (\<forall>j. 0 < j \<and> j < n \<and> par j = i \<longrightarrow> f i \<le> f j)"

definition above_ok :: "(nat \<Rightarrow> int) \<Rightarrow> nat \<Rightarrow> bool" where
  "above_ok f i \<longleftrightarrow> (0 < i \<longrightarrow> f (par i) \<le> f i)"

lemma order_exceptD:
  "order_except f n i \<Longrightarrow> 0 < j \<Longrightarrow> j < n \<Longrightarrow> j \<noteq> i \<Longrightarrow> par j \<noteq> i \<Longrightarrow> f (par j) \<le> f j"
  "order_except f n i \<Longrightarrow> 0 < j \<Longrightarrow> j < n \<Longrightarrow> par j = i \<Longrightarrow> 0 < i \<Longrightarrow> f (par i) \<le> f j"
  unfolding order_except_def by blast+

lemma below_okD: "below_ok f n i \<Longrightarrow> 0 < j \<Longrightarrow> j < n \<Longrightarrow> par j = i \<Longrightarrow> f i \<le> f j"
  unfolding below_ok_def by blast

lemma heap_order_split:
  assumes "order_except f n i" "below_ok f n i" "above_ok f i"
  shows "heap_order f n"
  unfolding heap_order_def
proof (intro allI impI)
  fix j assume j: "0 < j \<and> j < n"
  consider "j = i" | "j \<noteq> i" "par j = i" | "j \<noteq> i" "par j \<noteq> i" by blast
  then show "f (par j) \<le> f j"
  proof cases
    case 1 with assms(3) j show ?thesis unfolding above_ok_def by blast
  next
    case 2 with below_okD [OF assms(2), of j] j show ?thesis by simp
  next
    case 3 with order_exceptD(1) [OF assms(1), of j] j show ?thesis by simp
  qed
qed

lemma par_less: "0 < j \<Longrightarrow> par j < j"
  by linarith

text \<open>\<open>sw f i j\<close> is \<open>f\<close> with the values at \<open>i\<close> and \<open>j\<close> exchanged.\<close>

definition sw :: "(nat \<Rightarrow> int) \<Rightarrow> nat \<Rightarrow> nat \<Rightarrow> nat \<Rightarrow> int" where
  "sw f i j = f(i := f j, j := f i)"

lemma sw_simps [simp]:
  "sw f i j i = f j" "sw f i j j = f i" "k \<noteq> i \<Longrightarrow> k \<noteq> j \<Longrightarrow> sw f i j k = f k"
  by (simp_all add: sw_def)

lemma order_exceptI:
  assumes "\<And>j. 0 < j \<Longrightarrow> j < n \<Longrightarrow> j \<noteq> i \<Longrightarrow> par j \<noteq> i \<Longrightarrow> f (par j) \<le> f j"
    and "\<And>j. 0 < j \<Longrightarrow> j < n \<Longrightarrow> par j = i \<Longrightarrow> 0 < i \<Longrightarrow> f (par i) \<le> f j"
  shows "order_except f n i"
  unfolding order_except_def using assms by blast

lemma up_step:
  assumes ox: "order_except f n i" and b: "below_ok f n i" and i: "0 < i" "i < n"
    and lt: "f i < f (par i)"
  shows "order_except (sw f i (par i)) n (par i)" "below_ok (sw f i (par i)) n (par i)"
proof -
  define p where "p = par i"
  have p: "p < i" unfolding p_def by (rule par_less [OF i(1)])
  have sib: "f p \<le> f j" if "0 < j" "j < n" "par j = p" "j \<noteq> i" for j
    using order_exceptD(1) [OF ox that(1,2,4)] that(3) p by simp
  have up: "f (par p) \<le> f p" if "0 < p"
    using order_exceptD(1) [OF ox that] p i par_less [OF that] by simp
  have kids: "f p \<le> f j" if "0 < j" "j < n" "par j = i" for j
    using order_exceptD(2) [OF ox that i(1)] unfolding p_def .
  have ox': "order_except (sw f i p) n p"
  proof (rule order_exceptI)
    fix j assume j: "0 < j" "j < n" "j \<noteq> p" "par j \<noteq> p"
    then have "j \<noteq> i" unfolding p_def by blast
    with j show "sw f i p (par j) \<le> sw f i p j"
      using kids [of j] order_exceptD(1) [OF ox, of j] by (cases "par j = i") simp_all
  next
    fix j assume j: "0 < j" "j < n" "par j = p" "0 < p"
    then have "par p \<noteq> p" "par p \<noteq> i" "j \<noteq> p" using p par_less [of p] par_less [of j] by auto
    with up j sib [of j] show "sw f i p (par p) \<le> sw f i p j"
      by (cases "j = i") simp_all
  qed
  have b': "below_ok (sw f i p) n p" unfolding below_ok_def
  proof (intro allI impI)
    fix j assume j: "0 < j \<and> j < n \<and> par j = p"
    then have "j \<noteq> p" using par_less [of j] by auto
    with lt sib [of j] j show "sw f i p p \<le> sw f i p j"
      unfolding p_def [symmetric] by (cases "j = i") simp_all
  qed
  from ox' show "order_except (sw f i (par i)) n (par i)" unfolding p_def .
  from b' show "below_ok (sw f i (par i)) n (par i)" unfolding p_def .
qed

lemma down_step:
  assumes ox: "order_except f n i" and a: "above_ok f i" and m: "0 < m" "m < n" "par m = i"
    and least: "\<And>j. 0 < j \<Longrightarrow> j < n \<Longrightarrow> par j = i \<Longrightarrow> f m \<le> f j" and ge: "f m \<le> f i"
  shows "order_except (sw f i m) n m" "above_ok (sw f i m) m"
proof -
  have im: "i < m" using par_less [OF m(1)] m(3) by simp
  show "order_except (sw f i m) n m"
  proof (rule order_exceptI)
    fix j assume j: "0 < j" "j < n" "j \<noteq> m" "par j \<noteq> m"
    consider "j = i" | "j \<noteq> i" "par j = i" | "j \<noteq> i" "par j \<noteq> i" by blast
    then show "sw f i m (par j) \<le> sw f i m j"
    proof cases
      case 1
      then have "f (par i) \<le> f m" using order_exceptD(2) [OF ox m] j by simp
      with 1 j par_less [of i] show ?thesis by simp
    next
      case 2 with least [of j] j show ?thesis by simp
    next
      case 3 with order_exceptD(1) [OF ox, of j] j show ?thesis by simp
    qed
  next
    fix j assume j: "0 < j" "j < n" "par j = m" "0 < m"
    then have "m < j" using par_less [of j] by simp
    with im have ne: "j \<noteq> i" "j \<noteq> m" "par j \<noteq> i" using j by auto
    then have "f (par j) \<le> f j" using order_exceptD(1) [OF ox j(1,2)] by simp
    with ne m j show "sw f i m (par m) \<le> sw f i m j" by simp
  qed
  show "above_ok (sw f i m) m" unfolding above_ok_def using m ge by simp
qed

section \<open>Exchanging two entries\<close>

lemma swap_heap_heap: "tq_heap (swap_heap i j q) = (tq_heap q)[i := tq_heap q ! j, j := tq_heap q ! i]"
  by (simp add: swap_heap_def set_index_def Let_def)

lemma swap_heap_point [simp]: "t_point (tq_node (swap_heap i j q) a) = t_point (tq_node q a)"
  by (simp add: swap_heap_def set_index_def Let_def)

lemma swap_heap_nth:
  "i < length (tq_heap q) \<Longrightarrow> j < length (tq_heap q) \<Longrightarrow>
   tq_heap (swap_heap i j q) ! k = tq_heap q ! (if k = i then j else if k = j then i else k)"
  by (simp add: swap_heap_heap nth_list_update)

lemma point_at_swap:
  "i < length (tq_heap q) \<Longrightarrow> j < length (tq_heap q) \<Longrightarrow>
   point_at (swap_heap i j q) = sw (point_at q) i j"
  by (rule ext) (simp add: point_at_def swap_heap_nth sw_def)

lemma mset_swap_heap:
  "i < length (tq_heap q) \<Longrightarrow> j < length (tq_heap q) \<Longrightarrow>
   mset (tq_heap (swap_heap i j q)) = mset (tq_heap q)"
  by (simp add: swap_heap_heap mset_swap)

lemma indexed_distinct: "indexed q \<Longrightarrow> distinct (tq_heap q)"
  unfolding indexed_def distinct_conv_nth by metis

lemma indexed_swap:
  assumes q: "indexed q" and ij: "i < length (tq_heap q)" "j < length (tq_heap q)"
  shows "indexed (swap_heap i j q)"
proof -
  let ?h = "tq_heap (swap_heap i j q)"
  have set: "set ?h = set (tq_heap q)"
    using mset_swap_heap [OF ij] mset_eq_setD by blast
  have d: "distinct ?h"
    using indexed_distinct [OF q] mset_swap_heap [OF ij] mset_eq_imp_distinct_iff by blast
  have node: "tq_node (swap_heap i j q) a =
      (tq_node q a)\<lparr>t_index := if a = ?h ! j then j else if a = ?h ! i then i else t_index (tq_node q a)\<rparr>" for a
    by (simp add: swap_heap_def set_index_def Let_def)
  have "t_index (tq_node (swap_heap i j q) (?h ! k)) = k" if k: "k < length ?h" for k
  proof (cases "k = i \<or> k = j")
    case True then show ?thesis using d ij k by (auto simp: node nth_eq_iff_index_eq)
  next
    case False
    then have "?h ! k \<noteq> ?h ! i" "?h ! k \<noteq> ?h ! j" using d k ij by (auto simp: nth_eq_iff_index_eq)
    moreover have "?h ! k = tq_heap q ! k" using False ij by (simp add: swap_heap_nth)
    ultimately show ?thesis using q k by (simp add: node indexed_def)
  qed
  moreover have "t_index (tq_node (swap_heap i j q) a) = npos" if "a \<notin> set ?h" for a
  proof -
    have "a \<noteq> ?h ! i" "a \<noteq> ?h ! j" using that ij by (metis length_swap_heap nth_mem)+
    then show ?thesis using q that set by (simp add: node indexed_def)
  qed
  ultimately show ?thesis using q unfolding indexed_def by simp
qed

text \<open>\<open>same_timers q q'\<close>: the same nodes are queued, with the same time points, and are indexed.\<close>

definition same_timers :: "timer_queue \<Rightarrow> timer_queue \<Rightarrow> bool" where
  "same_timers q q' \<longleftrightarrow> indexed q' \<and> mset (tq_heap q') = mset (tq_heap q)
     \<and> (\<forall>a. t_point (tq_node q' a) = t_point (tq_node q a))"

lemma same_timers_refl: "indexed q \<Longrightarrow> same_timers q q"
  by (simp add: same_timers_def)

lemma same_timers_swap:
  "indexed q \<Longrightarrow> i < length (tq_heap q) \<Longrightarrow> j < length (tq_heap q) \<Longrightarrow>
   same_timers (swap_heap i j q) q' \<Longrightarrow> same_timers q q'"
  by (simp add: same_timers_def mset_swap_heap)

lemma up_heap_correct:
  "indexed q \<Longrightarrow> i < length (tq_heap q) \<Longrightarrow> order_except (point_at q) (length (tq_heap q)) i \<Longrightarrow>
   below_ok (point_at q) (length (tq_heap q)) i \<Longrightarrow>
   same_timers q (up_heap i q) \<and> tq_wf (up_heap i q)"
proof (induction i q rule: up_heap.induct)
  case (1 i q)
  show ?case
  proof (cases "i = 0 \<or> point_at q i \<ge> point_at q (par i)")
    case True
    then have "up_heap i q = q" by (auto simp: up_heap.simps [of i q])
    moreover have "above_ok (point_at q) i" using True unfolding above_ok_def by blast
    ultimately show ?thesis
      using 1 heap_order_split same_timers_refl unfolding tq_wf_def by metis
  next
    case False
    then have i: "0 < i" "point_at q i < point_at q (par i)" by auto
    have p: "par i < length (tq_heap q)" using 1(3) par_less [OF i(1)] by linarith
    have eq: "up_heap i q = up_heap (par i) (swap_heap i (par i) q)"
      using i by (simp add: up_heap.simps [of i q] Let_def)
    note st = up_step [OF 1(4,5) i(1) 1(3) i(2)]
    have "same_timers (swap_heap i (par i) q) (up_heap i q) \<and> tq_wf (up_heap i q)"
      unfolding eq using 1(1) [OF _ refl] i 1(2,3) p st indexed_swap [OF 1(2,3) p]
      by (simp add: point_at_swap del: One_nat_def)
    then show ?thesis using same_timers_swap [OF 1(2,3) p] by blast
  qed
qed

lemma min_child_props:
  assumes "i * 2 + 1 < length (tq_heap q)"
  shows "0 < min_child (i * 2 + 1) q" "min_child (i * 2 + 1) q < length (tq_heap q)"
    "par (min_child (i * 2 + 1) q) = i"
    "0 < j \<Longrightarrow> j < length (tq_heap q) \<Longrightarrow> par j = i \<Longrightarrow> point_at q (min_child (i * 2 + 1) q) \<le> point_at q j"
proof -
  show "0 < min_child (i * 2 + 1) q" "min_child (i * 2 + 1) q < length (tq_heap q)"
    "par (min_child (i * 2 + 1) q) = i"
    using assms by (auto simp: min_child_def)
  assume j: "0 < j" "j < length (tq_heap q)" "par j = i"
  then have "j = i * 2 + 1 \<or> j = i * 2 + 1 + 1" by linarith
  then show "point_at q (min_child (i * 2 + 1) q) \<le> point_at q j"
    using j(2) by (auto simp: min_child_def)
qed

lemma down_heap_correct:
  "indexed q \<Longrightarrow> i < length (tq_heap q) \<Longrightarrow> order_except (point_at q) (length (tq_heap q)) i \<Longrightarrow>
   above_ok (point_at q) i \<Longrightarrow>
   same_timers q (down_heap i q) \<and> tq_wf (down_heap i q)"
proof (induction i q rule: down_heap.induct)
  case (1 i q)
  define m where "m = min_child (i * 2 + 1) q"
  show ?case
  proof (cases "i * 2 + 1 < length (tq_heap q)")
    case False
    then have "down_heap i q = q" by (simp add: down_heap.simps [of i q])
    moreover have "below_ok (point_at q) (length (tq_heap q)) i"
      unfolding below_ok_def using False by auto
    ultimately show ?thesis
      using 1 heap_order_split same_timers_refl unfolding tq_wf_def by metis
  next
    case in_range: True
    note m = min_child_props [OF in_range, folded m_def]
    show ?thesis
    proof (cases "point_at q i < point_at q m")
      case True
      then have "down_heap i q = q" using in_range by (simp add: down_heap.simps [of i q] m_def Let_def)
      moreover have "below_ok (point_at q) (length (tq_heap q)) i"
        unfolding below_ok_def using order.trans [OF order.strict_implies_order [OF True] m(4)] by blast
      ultimately show ?thesis
        using 1 heap_order_split same_timers_refl unfolding tq_wf_def by metis
    next
      case False
      have eq: "down_heap i q = down_heap m (swap_heap i m q)"
        using in_range False by (simp add: down_heap.simps [of i q] m_def Let_def)
      have ge: "point_at q m \<le> point_at q i" using False by simp
      note st = down_step [OF 1(4,5) m ge]
      have "same_timers (swap_heap i m q) (down_heap i q) \<and> tq_wf (down_heap i q)"
        unfolding eq using st m(2)
        by (intro 1(1) [OF refl in_range m_def False indexed_swap [OF 1(2,3) m(2)]])
          (simp_all only: point_at_swap [OF 1(3) m(2)] length_swap_heap)
      then show ?thesis using same_timers_swap [OF 1(2,3) m(2)] by blast
    qed
  qed
qed

section \<open>The queue as a set of deadlines\<close>

text \<open>What is queued, and for when.\<close>

definition pending :: "timer_queue \<Rightarrow> addr \<Rightarrow> int option" where
  "pending q a = (if a \<in> set (tq_heap q) then Some (t_point (tq_node q a)) else None)"

lemma pending_same: "same_timers q q' \<Longrightarrow> pending q' = pending q"
  unfolding same_timers_def pending_def by (rule ext) (metis mset_eq_setD)

lemma heap_order_cut:
  "heap_order f n \<Longrightarrow> m \<le> n \<Longrightarrow> (\<And>k. k < m \<Longrightarrow> g k = f k) \<Longrightarrow> heap_order g m"
  unfolding heap_order_def using par_less by (metis less_le_trans less_trans)

definition pop_back_node :: "addr \<Rightarrow> timer_queue \<Rightarrow> timer_queue" where
  "pop_back_node n q = (set_index n npos q)\<lparr>tq_heap := butlast (tq_heap q)\<rparr>"

lemma pop_back_node_simps [simp]:
  "tq_heap (pop_back_node n q) = butlast (tq_heap q)"
  "t_point (tq_node (pop_back_node n q) a) = t_point (tq_node q a)"
  by (simp_all add: pop_back_node_def set_index_def)

lemma point_at_pop:
  "k < length (tq_heap q) - 1 \<Longrightarrow> point_at (pop_back_node n q) k = point_at q k"
  by (simp add: point_at_def nth_butlast)

lemma pop_back_indexed:
  assumes q: "indexed q" and ne: "tq_heap q \<noteq> []" and n: "n = last (tq_heap q)"
  shows "indexed (pop_back_node n q)"
proof -
  have d: "distinct (butlast (tq_heap q) @ [n])" and h: "tq_heap q = butlast (tq_heap q) @ [n]"
    using indexed_distinct [OF q] ne n by simp_all
  have node: "tq_node (pop_back_node n q) a =
      (if a = n then (tq_node q n)\<lparr>t_index := npos\<rparr> else tq_node q a)" for a
    by (simp add: pop_back_node_def set_index_def)
  have "t_index (tq_node (pop_back_node n q) (butlast (tq_heap q) ! i)) = i"
    if i: "i < length (butlast (tq_heap q))" for i
  proof -
    have "butlast (tq_heap q) ! i \<noteq> n" using d nth_mem [OF i] by auto
    then show ?thesis using q i by (simp add: node indexed_def nth_butlast)
  qed
  moreover have "t_index (tq_node (pop_back_node n q) a) = npos" if "a \<notin> set (butlast (tq_heap q))" for a
  proof -
    have "a = n \<or> a \<notin> set (tq_heap q)" using that arg_cong [OF h, of set] by auto
    then show ?thesis using q by (auto simp: node indexed_def)
  qed
  moreover have "length (butlast (tq_heap q)) < npos" using q by (auto simp: indexed_def)
  ultimately show ?thesis unfolding indexed_def by simp
qed

lemma pop_back_pending:
  assumes q: "indexed q" and ne: "tq_heap q \<noteq> []" and n: "n = last (tq_heap q)"
  shows "pending (pop_back_node n q) = (pending q)(n := None)"
proof -
  have d: "distinct (butlast (tq_heap q) @ [n])" and h: "set (tq_heap q) = insert n (set (butlast (tq_heap q)))"
    using indexed_distinct [OF q] ne n by (simp_all, metis append_butlast_last_id list.simps(15) rotate1.simps(2) set_rotate1)
  then show ?thesis by (auto simp: pending_def fun_eq_iff)
qed

lemma timer_remove_absent:
  "indexed q \<Longrightarrow> n \<notin> set (tq_heap q) \<Longrightarrow> timer_remove n q = (False, q)"
  by (simp add: timer_remove_def indexed_def Let_def)

lemma timer_remove_present:
  assumes q: "tq_wf q" and n: "n \<in> set (tq_heap q)"
  shows "fst (timer_remove n q)" "tq_wf (snd (timer_remove n q))"
    "pending (snd (timer_remove n q)) = (pending q)(n := None)"
    "length (tq_heap (snd (timer_remove n q))) = length (tq_heap q) - 1"
proof -
  let ?s = "length (tq_heap q)" and ?f = "point_at q"
  obtain i where i: "i < ?s" "tq_heap q ! i = n" using n by (metis in_set_conv_nth)
  have ix: "indexed q" and ho: "heap_order ?f ?s" using q by (simp_all add: tq_wf_def)
  have ti: "t_index (tq_node q n) = i" using ix i by (auto simp: indexed_def)
  have ne: "tq_heap q \<noteq> []" using n by auto
  have "fst (timer_remove n q) \<and> tq_wf (snd (timer_remove n q)) \<and>
    pending (snd (timer_remove n q)) = (pending q)(n := None) \<and>
    length (tq_heap (snd (timer_remove n q))) = ?s - 1"
  proof (cases "i = ?s - 1")
    case True
    then have l: "n = last (tq_heap q)" using i ne by (simp add: last_conv_nth)
    have "timer_remove n q = (True, pop_back_node n q)"
      using ti i ne True by (simp add: timer_remove_def Let_def pop_back_node_def)
    moreover have "heap_order (point_at (pop_back_node n q)) (?s - 1)"
      by (rule heap_order_cut [OF ho]) (simp_all add: point_at_pop)
    ultimately show ?thesis
      using pop_back_indexed [OF ix ne l] pop_back_pending [OF ix ne l] by (simp add: tq_wf_def)
  next
    case False
    let ?q1 = "swap_heap i (?s - 1) q" let ?q3 = "pop_back_node n ?q1" let ?g = "point_at ?q3"
    have last: "?s - 1 < ?s" using ne by simp
    have i': "i < ?s - 1" using i False by simp
    have ne1: "tq_heap ?q1 \<noteq> []" using ne by (metis length_0_conv length_swap_heap)
    have l: "n = last (tq_heap ?q1)"
      using ne1 i i' last by (simp add: last_conv_nth swap_heap_nth)
    have ix1: "indexed ?q1" by (rule indexed_swap [OF ix i(1) last])
    have ix3: "indexed ?q3" by (rule pop_back_indexed [OF ix1 ne1 l])
    have "same_timers q ?q1"
      using same_timers_swap [OF ix i(1) last] same_timers_refl [OF ix1] by blast
    then have p3: "pending ?q3 = (pending q)(n := None)"
      using pop_back_pending [OF ix1 ne1 l] by (simp add: pending_same)
    have g: "?g k = ?f k" if "k < ?s - 1" "k \<noteq> i" for k
      using that point_at_swap [OF i(1) last] by (simp add: point_at_pop)
    have len: "length (tq_heap ?q3) = ?s - 1" by simp
    have ord: "?f (par j) \<le> ?f j" if "0 < j" "j < ?s" for j
      using ho that unfolding heap_order_def by blast
    have skip: "?f (par i) \<le> ?f j" if "0 < j" "j < ?s" "par j = i" "0 < i" for j
      using ord [of j] ord [of i] that i by simp
    have pi: "?g (par i) = ?f (par i)" if "0 < i" using g par_less [OF that] i' by simp
    have kid: "?g j = ?f j" if "0 < j" "j < ?s - 1" "par j = i" for j
      using g that par_less [of j] by simp
    have ox: "order_except ?g (?s - 1) i"
    proof (rule order_exceptI)
      fix j assume j: "0 < j" "j < ?s - 1" "j \<noteq> i" "par j \<noteq> i"
      then show "?g (par j) \<le> ?g j" using ord [of j] g par_less [of j] by simp
    next
      fix j assume j: "0 < j" "j < ?s - 1" "par j = i" "0 < i"
      then show "?g (par i) \<le> ?g j" using kid [of j] pi skip [of j] by simp
    qed
    define r where "r = (if 0 < i \<and> ?g i < ?g (par i) then up_heap i ?q3 else down_heap i ?q3)"
    have eq: "timer_remove n q = (True, r)"
      using ti i' ne False by (simp add: timer_remove_def Let_def pop_back_node_def r_def set_index_def)
    have "same_timers ?q3 r \<and> tq_wf r"
    proof (cases "0 < i \<and> ?g i < ?g (par i)")
      case True
      have "below_ok ?g (?s - 1) i" unfolding below_ok_def
      proof (intro allI impI)
        fix j assume j: "0 < j \<and> j < ?s - 1 \<and> par j = i"
        then have j': "j < ?s" by linarith
        have "?f (par i) \<le> ?f j" using True j j' skip [of j] by blast
        moreover have "?g j = ?f j" using j kid [of j] by blast
        ultimately show "?g i \<le> ?g j" using True pi by simp
      qed
      then show ?thesis
        using up_heap_correct [OF ix3, of i] True i' ox len by (simp add: r_def)
    next
      case False
      then have "above_ok ?g i" unfolding above_ok_def by auto
      then have "same_timers ?q3 (down_heap i ?q3) \<and> tq_wf (down_heap i ?q3)"
        using down_heap_correct [OF ix3, of i] i' ox len by simp
      then show ?thesis using False unfolding r_def by presburger
    qed
    moreover from this have "length (tq_heap r) = ?s - 1"
      using len unfolding same_timers_def by (metis size_mset)
    ultimately show ?thesis using eq p3 pending_same [of ?q3 r] by simp
  qed
  then show "fst (timer_remove n q)" "tq_wf (snd (timer_remove n q))"
    "pending (snd (timer_remove n q)) = (pending q)(n := None)"
    "length (tq_heap (snd (timer_remove n q))) = ?s - 1" by blast+
qed

lemma timer_enqueue_queued:
  "indexed q \<Longrightarrow> n \<in> set (tq_heap q) \<Longrightarrow> timer_enqueue n q = q"
  unfolding in_set_conv_nth by (auto simp: timer_enqueue_def indexed_def Let_def)

lemma timer_enqueue_new:
  assumes q: "tq_wf q" and n: "n \<notin> set (tq_heap q)" and room: "length (tq_heap q) + 1 < npos"
  shows "tq_wf (timer_enqueue n q)"
    "pending (timer_enqueue n q) = (pending q)(n \<mapsto> max 0 (t_point (tq_node q n)))"
proof -
  let ?s = "length (tq_heap q)"
  define q1 where "q1 = q\<lparr>tq_heap := tq_heap q @ [n], tq_node := (tq_node q)
      (n := \<lparr>t_index = ?s, t_point = max 0 (t_point (tq_node q n))\<rparr>)\<rparr>"
  have ix: "indexed q" and ho: "heap_order (point_at q) ?s" using q by (simp_all add: tq_wf_def)
  have ti: "t_index (tq_node q n) = npos" using ix n by (simp add: indexed_def)
  have eq: "timer_enqueue n q = up_heap ?s q1"
    using ti room by (simp add: timer_enqueue_def Let_def q1_def max_def)
  have old: "tq_heap q ! k \<noteq> n" if "k < ?s" for k using n that by (metis nth_mem)
  have ix1: "indexed q1"
    using ix n room old by (auto simp: indexed_def q1_def nth_append less_Suc_eq)
  have g: "point_at q1 k = point_at q k" if "k < ?s" for k
    using that old by (simp add: point_at_def q1_def nth_append)
  have len: "length (tq_heap q1) = ?s + 1" by (simp add: q1_def)
  have "order_except (point_at q1) (?s + 1) ?s"
  proof (rule order_exceptI)
    fix j assume "0 < j" "j < ?s + 1" "j \<noteq> ?s" "par j \<noteq> ?s"
    then show "point_at q1 (par j) \<le> point_at q1 j"
      using ho g par_less [of j] by (simp add: heap_order_def)
  qed (use par_less in fastforce)
  moreover have "below_ok (point_at q1) (?s + 1) ?s" unfolding below_ok_def using par_less by fastforce
  ultimately have r: "same_timers q1 (up_heap ?s q1) \<and> tq_wf (up_heap ?s q1)"
    using up_heap_correct [OF ix1, of ?s] len by simp
  then show "tq_wf (timer_enqueue n q)" using eq by simp
  have "pending q1 = (pending q)(n \<mapsto> max 0 (t_point (tq_node q n)))"
    using n by (auto simp: pending_def q1_def fun_eq_iff)
  then show "pending (timer_enqueue n q) = (pending q)(n \<mapsto> max 0 (t_point (tq_node q n)))"
    using r eq pending_same [of q1] by simp
qed

text \<open>The root of the heap is the earliest deadline.\<close>

lemma heap_order_root: "heap_order f n \<Longrightarrow> k < n \<Longrightarrow> f 0 \<le> f k"
proof (induction k rule: less_induct)
  case (less k)
  show ?case
  proof (cases "k = 0")
    case False
    then have "f 0 \<le> f (par k)" using less par_less [of k] by simp
    also have "\<dots> \<le> f k" using less False by (simp add: heap_order_def)
    finally show ?thesis .
  qed simp
qed

lemma root_earliest:
  assumes "tq_wf q" "pending q a = Some t"
  shows "tq_heap q \<noteq> []" "point_at q 0 \<le> t"
proof -
  have a: "a \<in> set (tq_heap q)" "t = t_point (tq_node q a)"
    using assms(2) by (auto simp: pending_def split: if_splits)
  then obtain k where "k < length (tq_heap q)" "tq_heap q ! k = a" by (metis in_set_conv_nth)
  then show "point_at q 0 \<le> t"
    using heap_order_root assms(1) a(2) unfolding tq_wf_def point_at_def by metis
  show "tq_heap q \<noteq> []" using a by auto
qed

lemma root_pending: "tq_heap q \<noteq> [] \<Longrightarrow> pending q (tq_heap q ! 0) = Some (point_at q 0)"
  by (simp add: pending_def point_at_def)

definition due :: "int \<Rightarrow> timer_queue \<Rightarrow> addr set" where
  "due now q = {a. \<exists>t. pending q a = Some t \<and> t \<le> now}"

text \<open>The loop returns, takes exactly the timers that are due, earliest first, and leaves the rest.\<close>

lemma get_ready_timers_correct:
  assumes "tq_wf q"
  shows "\<exists>ns q'. get_ready_timers now q acc = Some (acc @ ns, q') \<and> tq_wf q' \<and> distinct ns
     \<and> set ns = due now q \<and> sorted (map (\<lambda>a. the (pending q a)) ns)
     \<and> pending q' = pending q |` (- due now q)"
  using assms
proof (induction "length (tq_heap q)" arbitrary: q acc rule: less_induct)
  case less
  show ?case
  proof (cases "tq_heap q \<noteq> [] \<and> now \<ge> point_at q 0")
    case False
    then have "due now q = {}" using root_earliest [OF less(2)] by (fastforce simp: due_def)
    moreover have "get_ready_timers now q acc = Some (acc, q)"
      using False by (subst get_ready_timers.simps) auto
    ultimately show ?thesis using less(2) by (intro exI [of _ "[]"] exI [of _ q]) (simp add: restrict_map_def)
  next
    case True
    let ?n = "tq_heap q ! 0" let ?r = "snd (timer_remove ?n q)"
    have n: "?n \<in> set (tq_heap q)" using True by simp
    note rm = timer_remove_present [OF less(2) n]
    have lt: "length (tq_heap ?r) < length (tq_heap q)" using rm(4) True by simp
    obtain ns q' where ih: "get_ready_timers now ?r (acc @ [?n]) = Some ((acc @ [?n]) @ ns, q')"
        "tq_wf q'" "distinct ns" "set ns = due now ?r"
        "sorted (map (\<lambda>a. the (pending ?r a)) ns)" "pending q' = pending ?r |` (- due now ?r)"
      using less(1) [OF lt rm(2), of "acc @ [?n]"] by blast
    have step: "get_ready_timers now q acc = get_ready_timers now ?r (acc @ [?n])"
      using True by (subst get_ready_timers.simps) (simp add: Let_def)
    have d: "due now q = insert ?n (due now ?r)" "?n \<notin> due now ?r"
      using rm(3) root_pending True by (auto simp: due_def)
    have same: "map (\<lambda>a. the (pending q a)) ns = map (\<lambda>a. the (pending ?r a)) ns"
      using d(2) ih(4) rm(3) by (auto intro!: map_cong)
    have "point_at q 0 \<le> the (pending q a)" if "a \<in> set ns" for a
    proof -
      have "a \<in> due now q" using that ih(4) d(1) by simp
      then show ?thesis using root_earliest(2) [OF less(2), of a] by (auto simp: due_def)
    qed
    then have "sorted (map (\<lambda>a. the (pending q a)) (?n # ns))"
      using ih(5) root_pending [of q] True unfolding same [symmetric] by simp
    moreover have "pending q' = pending q |` (- due now q)"
      using ih(6) rm(3) d by (auto simp: restrict_map_def fun_eq_iff)
    moreover have "distinct (?n # ns)" "set (?n # ns) = due now q" using ih(3,4) d by auto
    ultimately show ?thesis
      using step ih(1,2) by (intro exI [of _ "?n # ns"] exI [of _ q']) simp
  qed
qed

section \<open>Timed awaiters\<close>

text \<open>
  Constructing a \<open>timed_awaiter\<close> makes a node with the default index; suspending on it enqueues it.
\<close>

definition new_timed_awaiter :: "addr \<Rightarrow> int \<Rightarrow> timer_queue \<Rightarrow> timer_queue" where
  "new_timed_awaiter n point q = q\<lparr>tq_node := (tq_node q)(n := \<lparr>t_index = npos, t_point = point\<rparr>)\<rparr>"

definition timer_arm :: "addr \<Rightarrow> int \<Rightarrow> timer_queue \<Rightarrow> timer_queue" where
  "timer_arm n point q = timer_enqueue n (new_timed_awaiter n point q)"

definition tq_room :: "nat \<Rightarrow> timer_queue \<Rightarrow> bool" where
  "tq_room k q \<longleftrightarrow> tq_wf q \<and> length (tq_heap q) + k < npos"

definition empty_timer_queue :: timer_queue where
  "empty_timer_queue = \<lparr>tq_heap = [], tq_node = (\<lambda>_. \<lparr>t_index = npos, t_point = 0\<rparr>)\<rparr>"

lemma new_timed_awaiter_wf:
  assumes q: "tq_wf q" and n: "n \<notin> set (tq_heap q)"
  shows "tq_wf (new_timed_awaiter n p q)" "pending (new_timed_awaiter n p q) = pending q"
    "tq_heap (new_timed_awaiter n p q) = tq_heap q" "t_point (tq_node (new_timed_awaiter n p q) n) = p"
proof -
  have old: "tq_heap q ! k \<noteq> n" if "k < length (tq_heap q)" for k using n that by (metis nth_mem)
  have "heap_order (point_at (new_timed_awaiter n p q)) (length (tq_heap q))"
  proof (rule heap_order_cut)
    show "heap_order (point_at q) (length (tq_heap q))" using q by (simp add: tq_wf_def)
    show "point_at (new_timed_awaiter n p q) k = point_at q k" if "k < length (tq_heap q)" for k
      using old [OF that] by (simp add: point_at_def new_timed_awaiter_def)
  qed simp
  moreover have "indexed (new_timed_awaiter n p q)"
  proof -
    have "indexed q" using q by (simp add: tq_wf_def)
    then show ?thesis using old unfolding indexed_def new_timed_awaiter_def by auto
  qed
  ultimately show "tq_wf (new_timed_awaiter n p q)" by (simp add: tq_wf_def new_timed_awaiter_def)
  show "pending (new_timed_awaiter n p q) = pending q"
    using n by (auto simp: pending_def new_timed_awaiter_def fun_eq_iff)
qed (simp_all add: new_timed_awaiter_def)

lemma pending_None: "pending q n = None \<longleftrightarrow> n \<notin> set (tq_heap q)"
  by (simp add: pending_def)

lemma pending_set: "set (tq_heap q) = dom (pending q)"
  by (auto simp: pending_def split: if_splits)

lemma card_pending: "tq_wf q \<Longrightarrow> card (dom (pending q)) = length (tq_heap q)"
  unfolding tq_wf_def pending_set [symmetric] using distinct_card indexed_distinct by blast

lemma timer_arm_law:
  assumes q: "tq_room k q" "0 < k" and n: "pending q n = None"
  shows "tq_room (k - 1) (timer_arm n p q) \<and> pending (timer_arm n p q) = (pending q)(n \<mapsto> max 0 p)"
proof -
  have n': "n \<notin> set (tq_heap q)" using n by (simp add: pending_None)
  note a = new_timed_awaiter_wf [OF _ n', of p]
  have w: "tq_wf q" "length (tq_heap q) + k < npos" using q by (simp_all add: tq_room_def)
  have e: "tq_wf (timer_arm n p q)" "pending (timer_arm n p q) = (pending q)(n \<mapsto> max 0 p)"
    using timer_enqueue_new [of "new_timed_awaiter n p q" n] a [OF w(1)] n' q(2) w(2)
    by (simp_all add: timer_arm_def)
  have "length (tq_heap (timer_arm n p q)) = length (tq_heap q) + 1"
  proof -
    have "finite (dom (pending q))" "n \<notin> dom (pending q)"
      using n by (simp_all add: pending_set [symmetric] pending_None)
    then show ?thesis using card_pending [OF e(1)] card_pending [OF w(1)] unfolding e(2) by simp
  qed
  then show ?thesis using e w q(2) by (simp add: tq_room_def)
qed

lemma timer_remove_law:
  assumes q: "tq_room k q"
  shows "tq_room k (snd (timer_remove n q)) \<and> fst (timer_remove n q) = (pending q n \<noteq> None)
    \<and> pending (snd (timer_remove n q)) = (pending q)(n := None)"
proof (cases "n \<in> set (tq_heap q)")
  case True
  then show ?thesis using timer_remove_present [of q n] q by (auto simp: tq_room_def pending_None)
next
  case False
  then have "(pending q)(n := None) = pending q" by (auto simp: pending_def)
  then show ?thesis using timer_remove_absent [of q n] False q by (simp add: tq_room_def tq_wf_def pending_None)
qed

lemma get_ready_timers_law:
  assumes q: "tq_room k q"
  shows "\<exists>ns q'. get_ready_timers now q [] = Some (ns, q') \<and> tq_room k q'
    \<and> spec_out (Tick now) (pending q) (Fired ns) \<and> pending q' = spec_step (Tick now) (pending q)"
proof -
  obtain ns q' where r: "get_ready_timers now q [] = Some (ns, q')" "tq_wf q'" "distinct ns"
      "set ns = due now q" "sorted (map (\<lambda>a. the (pending q a)) ns)"
      "pending q' = pending q |` (- due now q)"
    using get_ready_timers_correct [of q now "[]"] q by (auto simp: tq_room_def)
  have "card (dom (pending q')) \<le> card (dom (pending q))"
    using r(6) by (intro card_mono) (auto simp: pending_set [symmetric])
  then have "tq_room k q'"
    using q r(2) card_pending [of q] card_pending [of q'] by (simp add: tq_room_def)
  moreover have "pending q' = spec_step (Tick now) (pending q)"
    using r(6) by (auto simp: fun_eq_iff restrict_map_def due_def split: option.splits)
  ultimately show ?thesis using r(1,3,4,5) by (auto simp: due_def)
qed

interpretation dq: deadline_queue tq_room pending timer_arm timer_remove "\<lambda>now q. get_ready_timers now q []"
  by unfold_locales (fact timer_arm_law timer_remove_law get_ready_timers_law)+

section \<open>Properties\<close>

lemma empty_timer_queue_room: "k < npos \<Longrightarrow> tq_room k empty_timer_queue"
  by (simp add: tq_room_def tq_wf_def indexed_def heap_order_def empty_timer_queue_def)

lemma pending_empty: "pending empty_timer_queue = Map.empty"
  by (simp add: pending_def empty_timer_queue_def fun_eq_iff)

text \<open>C32: The timer heap refines a map from timers to deadlines: any sequence of suspending on a timer,
  cancelling a timer and taking out the ready ones terminates, a cancel reports whether the timer was
  still pending, every take-out returns exactly the timers that are due, once each and earliest first,
  and what stays queued is what the map holds.\<close>

theorem timer_heap_refines_deadlines:
  assumes "tq_room k q" "legal ops (pending q) k"
  shows "\<exists>rs q'. dq.run ops q = Some (rs, q') \<and> spec_outs ops (pending q) rs
     \<and> pending q' = fold spec_step ops (pending q)"
  using dq.run_meets_deadlines [OF assms] .

theorem timer_heap_refines_deadlines_witness:
  "\<exists>rs q'. dq.run [Arm (10::nat) 7, Arm 11 3, Arm 12 5, Cancel 12, Tick 6] empty_timer_queue = Some (rs, q')
     \<and> spec_outs [Arm 10 7, Arm 11 3, Arm 12 5, Cancel 12, Tick 6] Map.empty rs
     \<and> pending q' = [10 \<mapsto> 7]"
proof -
  have f: "fold spec_step [Arm (10::nat) 7, Arm 11 3, Arm 12 5, Cancel 12, Tick 6] Map.empty = [10 \<mapsto> 7]"
    by (rule ext) simp
  show ?thesis
    using timer_heap_refines_deadlines [OF empty_timer_queue_room [of 5],
        of "[Arm 10 7, Arm 11 3, Arm 12 5, Cancel 12, Tick 6]"]
    unfolding pending_empty f by simp
qed

text \<open>Each operation keeps the heap invariant: the heap order on time points, every queued node
  holding its own position, every other node holding the largest index. Enqueuing a queued node and
  removing one that is not queued change nothing, and a time point before the epoch is raised to it.\<close>

theorem timer_heap_invariant:
  assumes "tq_wf q" "length (tq_heap q) + 1 < npos"
  shows "tq_wf (timer_enqueue n q) \<and> tq_wf (snd (timer_remove n q))
     \<and> (if pending q n = None
        then pending (timer_enqueue n q) = (pending q)(n \<mapsto> max 0 (t_point (tq_node q n)))
             \<and> timer_remove n q = (False, q)
        else timer_enqueue n q = q \<and> fst (timer_remove n q)
             \<and> pending (snd (timer_remove n q)) = (pending q)(n := None))"
proof -
  have ix: "indexed q" using assms by (simp add: tq_wf_def)
  note absent = timer_remove_absent [OF ix, of n] and present = timer_remove_present [OF assms(1), of n]
    and queued = timer_enqueue_queued [OF ix, of n] and new = timer_enqueue_new [OF assms(1) _ assms(2), of n]
  show ?thesis
    using assms(1) absent present queued new by (cases "n \<in> set (tq_heap q)") (simp_all add: pending_None)
qed

theorem timer_heap_invariant_witness:
  "tq_wf (timer_enqueue 4 empty_timer_queue) \<and> pending (timer_enqueue 4 empty_timer_queue) = [4 \<mapsto> 0]
   \<and> timer_remove 4 empty_timer_queue = (False, empty_timer_queue)"
  using timer_heap_invariant [of empty_timer_queue 4] empty_timer_queue_room [of 1] pending_empty
  by (simp add: tq_room_def empty_timer_queue_def)

text \<open>The time the scheduler sleeps is the distance to the earliest pending deadline: some pending
  timer has it, no pending timer is earlier, and it is unbounded exactly when no timer is pending.\<close>

theorem wait_duration_earliest:
  assumes "tq_wf q"
  shows "case wait_duration now q of None \<Rightarrow> pending q = Map.empty
     | Some d \<Rightarrow> (\<exists>a. pending q a = Some (now + d)) \<and> (\<forall>a t. pending q a = Some t \<longrightarrow> now + d \<le> t)"
proof (cases "tq_heap q = []")
  case True
  then show ?thesis by (simp add: wait_duration_def pending_def fun_eq_iff)
next
  case False
  then show ?thesis using root_pending root_earliest(2) [OF assms] by (auto simp: wait_duration_def)
qed

theorem wait_duration_earliest_witness:
  "wait_duration 5 (timer_arm 3 9 empty_timer_queue) = Some 4
   \<and> (\<exists>a. pending (timer_arm 3 9 empty_timer_queue) a = Some (5 + 4))"
proof -
  have w: "tq_wf (timer_arm 3 9 empty_timer_queue)"
    using timer_arm_law [OF empty_timer_queue_room [of 2], of 3 9] by (simp add: pending_empty tq_room_def)
  have "wait_duration 5 (timer_arm 3 9 empty_timer_queue) = Some 4"
    by (simp add: wait_duration_def timer_arm_def timer_enqueue_def new_timed_awaiter_def
        empty_timer_queue_def up_heap.simps point_at_def Let_def)
  then show ?thesis using wait_duration_earliest [OF w, of 5] by simp
qed

end
