(* ===== verification/Base64.thy ===== *)
theory Base64
  imports Prelude
begin

text \<open>
  The base64 codec of \<open>runtime/src/utils/crypt.cpp\<close>.  A C array of which only the first \<open>i\<close> entries
  have been written is the list of these entries.  The reference is the bit-string definition of
  RFC 4648: the input bits, most significant first, cut into groups of six.
\<close>

section \<open>The code\<close>

definition base64_chars :: "byte list" where
  "base64_chars = bytes_of ''ABCDEFGHIJKLMNOPQRSTUVWXYZabcdefghijklmnopqrstuvwxyz0123456789+/''"

definition is_base64 :: "byte \<Rightarrow> bool" where
  "is_base64 c \<longleftrightarrow> c = 43 \<or> (47 \<le> c \<and> c \<le> 57) \<or> (65 \<le> c \<and> c \<le> 90) \<or> (97 \<le> c \<and> c \<le> 122)"

definition char_array_3_to_4 :: "byte list \<Rightarrow> byte list" where
  "char_array_3_to_4 a =
     [drop_bit 2 (a ! 0 AND 0xfc),
      push_bit 4 (a ! 0 AND 0x03) + drop_bit 4 (a ! 1 AND 0xf0),
      push_bit 2 (a ! 1 AND 0x0f) + drop_bit 6 (a ! 2 AND 0xc0),
      a ! 2 AND 0x3f]"

definition base64_char :: "byte \<Rightarrow> byte" where
  "base64_char c = base64_chars ! unat c"

fun encode_loop :: "byte list \<Rightarrow> byte list \<Rightarrow> byte list \<Rightarrow> byte list \<times> byte list" where
  "encode_loop [] a3 out = (a3, out)"
| "encode_loop (ch # input) a3 out =
     (let a3' = a3 @ [ch]
      in if length a3' \<noteq> 3 then encode_loop input a3' out
         else encode_loop input [] (out @ map base64_char (char_array_3_to_4 a3')))"

definition base64_encode :: "byte list \<Rightarrow> byte list" where
  "base64_encode input =
     (let (a3, out) = encode_loop input [] []; i = length a3
      in if i \<noteq> 0
         then out @ map base64_char (take (i + 1) (char_array_3_to_4 (a3 @ replicate (3 - i) 0)))
                  @ replicate (3 - i) (of_char (CHR ''=''))
         else out)"

text \<open>\<open>static_cast<uint8_t>(base64_chars.find(c))\<close>: the position, or the low byte of \<open>npos\<close>.\<close>

fun find_from :: "nat \<Rightarrow> byte list \<Rightarrow> byte \<Rightarrow> nat option" where
  "find_from i [] c = None"
| "find_from i (x # xs) c = (if x = c then Some i else find_from (Suc i) xs c)"

definition base64_find :: "byte \<Rightarrow> byte" where
  "base64_find c = (case find_from 0 base64_chars c of Some i \<Rightarrow> of_nat i | None \<Rightarrow> 255)"

definition char_array_4_to_3 :: "byte list \<Rightarrow> byte list" where
  "char_array_4_to_3 a4 =
     (let c = map base64_find a4
      in [push_bit 2 (c ! 0) + drop_bit 4 (c ! 1 AND 0x30),
          push_bit 4 (c ! 1 AND 0xf) + drop_bit 2 (c ! 2 AND 0x3c),
          push_bit 6 (c ! 2 AND 0x3) + c ! 3])"

fun decode_loop :: "byte list \<Rightarrow> byte list \<Rightarrow> byte list \<Rightarrow> byte list \<times> byte list" where
  "decode_loop [] a4 out = (a4, out)"
| "decode_loop (ch # input) a4 out =
     (if \<not> is_base64 ch then (a4, out)
      else let a4' = a4 @ [ch]
           in if length a4' \<noteq> 4 then decode_loop input a4' out
              else decode_loop input [] (out @ char_array_4_to_3 a4'))"

definition base64_decode :: "byte list \<Rightarrow> byte list" where
  "base64_decode input =
     (let (a4, out) = decode_loop input [] []; i = length a4
      in if i \<noteq> 0 then out @ take (i - 1) (char_array_4_to_3 (a4 @ replicate (4 - i) 0)) else out)"

section \<open>The reference\<close>

definition byte_bits :: "byte \<Rightarrow> bool list" where
  "byte_bits b = map (bit b) [7, 6, 5, 4, 3, 2, 1, 0]"

definition sextet :: "bool list \<Rightarrow> byte" where
  "sextet bs = horner_sum of_bool 2 (rev bs)"

fun sextets :: "bool list \<Rightarrow> byte list" where
  "sextets [] = []"
| "sextets (a # b # c # d # e # f # bs) = sextet [a, b, c, d, e, f] # sextets bs"
| "sextets bs = [sextet (bs @ replicate (6 - length bs) False)]"

definition rfc4648 :: "byte list \<Rightarrow> byte list" where
  "rfc4648 input = map base64_char (sextets (concat (map byte_bits input)))
     @ replicate ((3 - length input mod 3) mod 3) (of_char (CHR ''=''))"

section \<open>Groups of three bytes and four characters\<close>

lemma bit_sextet:
  "bit (sextet bs) n \<longleftrightarrow> n < 8 \<and> n < length bs \<and> rev bs ! n"
  by (simp add: sextet_def bit_horner_sum_bit_iff)

lemma plus_or:
  "push_bit 4 (a AND 0x03) + drop_bit 4 (b AND 0xf0) = push_bit 4 (a AND 0x03) OR drop_bit 4 (b AND 0xf0 :: byte)"
  "push_bit 2 (a AND 0x0f) + drop_bit 6 (b AND 0xc0) = push_bit 2 (a AND 0x0f) OR drop_bit 6 (b AND 0xc0 :: byte)"
  "push_bit 2 a + drop_bit 4 (b AND 0x30) = push_bit 2 a OR drop_bit 4 (b AND 0x30 :: byte)"
  "push_bit 4 (a AND 0xf) + drop_bit 2 (b AND 0x3c) = push_bit 4 (a AND 0xf) OR drop_bit 2 (b AND 0x3c :: byte)"
  "push_bit 6 (a AND 0x3) + (b AND 0x3f) = push_bit 6 (a AND 0x3) OR (b AND 0x3f :: byte)"
  by (rule disjunctive_add_eq_or, rule byte_bit_eqI; simp add: bit_simps)+

lemma char_array_3_to_4_bits:
  "char_array_3_to_4 [a, b, c] =
     [sextet (map (bit a) [7, 6, 5, 4, 3, 2]), sextet (map (bit a) [1, 0] @ map (bit b) [7, 6, 5, 4]),
      sextet (map (bit b) [3, 2, 1, 0] @ map (bit c) [7, 6]), sextet (map (bit c) [5, 4, 3, 2, 1, 0])]"
  unfolding char_array_3_to_4_def list.inject plus_or
  by (intro conjI byte_bit_eqI refl; simp add: bit_simps bit_sextet)
definition is_sextet :: "byte \<Rightarrow> bool" where
  "is_sextet s \<longleftrightarrow> s AND 0x3f = s"

lemma is_sextet_sextet: "length bs = 6 \<Longrightarrow> is_sextet (sextet bs)"
  unfolding is_sextet_def by (rule byte_bit_eqI; simp add: bit_simps bit_sextet)

lemma is_sextet_less: "is_sextet s \<Longrightarrow> unat s < 64"
proof -
  assume "is_sextet s"
  then have "s = take_bit 6 s" by (simp add: is_sextet_def take_bit_eq_mask mask_eq_exp_minus_1)
  then have "unat s = take_bit 6 (unat s)" by (metis unsigned_take_bit_eq)
  then show ?thesis using take_bit_nat_less_exp [of 6 "unat s"] by simp
qed

lemma base64_chars_codes: "base64_chars =
    [65, 66, 67, 68, 69, 70, 71, 72, 73, 74, 75, 76, 77, 78, 79, 80, 81, 82, 83, 84, 85, 86,
     87, 88, 89, 90, 97, 98, 99, 100, 101, 102, 103, 104, 105, 106, 107, 108, 109, 110, 111, 112, 113, 114,
     115, 116, 117, 118, 119, 120, 121, 122, 48, 49, 50, 51, 52, 53, 54, 55, 56, 57, 43, 47]"
  by (simp add: base64_chars_def bytes_of_def of_char_def)

lemma base64_chars_distinct: "distinct base64_chars" "length base64_chars = 64"
  by (simp_all add: base64_chars_codes)

lemma base64_chars_accepted: "\<forall>c\<in>set base64_chars. is_base64 c"
  by (simp add: base64_chars_codes is_base64_def)

lemma find_from_nth: "distinct xs \<Longrightarrow> k < length xs \<Longrightarrow> find_from i xs (xs ! k) = Some (i + k)"
proof (induction xs arbitrary: i k)
  case (Cons x xs)
  then show ?case by (cases k) auto
qed simp

lemma base64_char_inverse:
  assumes "is_sextet s"
  shows "base64_find (base64_char s) = s" "is_base64 (base64_char s)"
  using base64_chars_distinct base64_chars_accepted is_sextet_less [OF assms]
  by (simp_all add: base64_char_def base64_find_def find_from_nth)

lemma char_array_4_to_3_char:
  assumes "is_sextet (x ! 0)" "is_sextet (x ! 1)" "is_sextet (x ! 2)" "is_sextet (x ! 3)" "length x = 4"
  shows "char_array_4_to_3 (map base64_char x) =
     [push_bit 2 (x ! 0) OR drop_bit 4 (x ! 1 AND 0x30),
      push_bit 4 (x ! 1 AND 0xf) OR drop_bit 2 (x ! 2 AND 0x3c),
      push_bit 6 (x ! 2 AND 0x3) OR (x ! 3 AND 0x3f)]"
  unfolding plus_or [symmetric] using assms
  by (simp add: char_array_4_to_3_def Let_def base64_char_inverse is_sextet_def)

lemma sextets_of_3:
  "is_sextet (char_array_3_to_4 [a, b, c] ! 0)" "is_sextet (char_array_3_to_4 [a, b, c] ! 1)"
  "is_sextet (char_array_3_to_4 [a, b, c] ! 2)" "is_sextet (char_array_3_to_4 [a, b, c] ! 3)"
  "length (char_array_3_to_4 [a, b, c]) = 4"
  by (simp_all add: char_array_3_to_4_bits is_sextet_sextet)

lemma decode_group:
  "char_array_4_to_3 (map base64_char (char_array_3_to_4 [a, b, c])) = [a, b, c]"
  unfolding char_array_4_to_3_char [OF sextets_of_3] unfolding char_array_3_to_4_bits list.inject
  by (intro conjI byte_bit_eqI refl; simp add: bit_simps bit_sextet)

section \<open>The loops by groups\<close>

lemma encode_loop_acc: "encode_loop xs a3 (p @ out) = apsnd ((@) p) (encode_loop xs a3 out)"
  by (induction xs a3 out rule: encode_loop.induct) (auto simp: Let_def)

lemma decode_loop_acc: "decode_loop xs a4 (p @ out) = apsnd ((@) p) (decode_loop xs a4 out)"
  by (induction xs a4 out rule: decode_loop.induct) (auto simp: Let_def)

lemma encode_empty: "base64_encode [] = []"
  by (simp add: base64_encode_def)

lemma encode_group:
  "base64_encode (a # b # c # xs) = map base64_char (char_array_3_to_4 [a, b, c]) @ base64_encode xs"
proof -
  have "encode_loop (a # b # c # xs) [] []
      = encode_loop xs [] (map base64_char (char_array_3_to_4 [a, b, c]) @ [])" by simp
  then show ?thesis unfolding base64_encode_def encode_loop_acc
    by (simp add: split_beta Let_def)
qed

lemma decode_group4:
  assumes "is_base64 a" "is_base64 b" "is_base64 c" "is_base64 d"
  shows "base64_decode (a # b # c # d # xs) = char_array_4_to_3 [a, b, c, d] @ base64_decode xs"
proof -
  have "decode_loop (a # b # c # d # xs) [] [] = decode_loop xs [] (char_array_4_to_3 [a, b, c, d] @ [])"
    using assms by simp
  then show ?thesis unfolding base64_decode_def decode_loop_acc
    by (simp add: split_beta Let_def)
qed

lemma list_by_threes:
  assumes "P []" "\<And>a. P [a]" "\<And>a b. P [a, b]" "\<And>a b c xs. P xs \<Longrightarrow> P (a # b # c # xs)"
  shows "P xs"
proof (induction "length xs" arbitrary: xs rule: less_induct)
  case less
  then show ?case using assms by (cases xs rule: remdups_adj.cases; cases "tl (tl xs)") auto
qed

lemma take_char_array:
  "char_array_3_to_4 [a, b, c] = [x, y, z, w] \<Longrightarrow> is_sextet x \<and> is_sextet y \<and> is_sextet z \<and> is_sextet w"
  using sextets_of_3 [of a b c] by simp

lemma not_base64_pad: "\<not> is_base64 (of_char (CHR ''=''))"
  by (simp add: is_base64_def of_char_def)

lemma encode_tail:
  "base64_encode [a] = map base64_char (take 2 (char_array_3_to_4 [a, 0, 0])) @ replicate 2 (of_char (CHR ''=''))"
  "base64_encode [a, b] = map base64_char (take 3 (char_array_3_to_4 [a, b, 0])) @ replicate 1 (of_char (CHR ''=''))"
  by (simp_all add: base64_encode_def numeral_2_eq_2 numeral_3_eq_3)

lemma decode_tail:
  assumes "is_base64 x" "is_base64 y" "is_base64 z" "\<not> is_base64 p"
  shows "base64_decode [x, y, p, p] = take 1 (char_array_4_to_3 [x, y, u, v])"
    "base64_decode [x, y, z, p] = take 2 (char_array_4_to_3 [x, y, z, v])"
  using assms by (simp_all add: base64_decode_def char_array_4_to_3_def Let_def numeral_2_eq_2)

lemma roundtrip_tail:
  "base64_decode (base64_encode [a]) = [a]" "base64_decode (base64_encode [a, b]) = [a, b]"
proof -
  have t2: "take 2 [p, q, r, s] = [p, q]" "take 3 [p, q, r, s] = [p, q, r]" for p q r s :: byte
    by (simp_all add: numeral_2_eq_2 numeral_3_eq_3)
  obtain x y z w where q: "char_array_3_to_4 [a, 0, 0] = [x, y, z, w]"
    by (simp add: char_array_3_to_4_bits)
  note s = take_char_array [OF q]
  show "base64_decode (base64_encode [a]) = [a]"
    using decode_group [of a 0 0] s not_base64_pad
    unfolding encode_tail q t2
    by (simp add: base64_char_inverse numeral_2_eq_2 decode_tail(1) [of _ _ "base64_char z" _ "base64_char z" "base64_char w"])
  obtain x y z w where q: "char_array_3_to_4 [a, b, 0] = [x, y, z, w]"
    by (simp add: char_array_3_to_4_bits)
  note s = take_char_array [OF q]
  show "base64_decode (base64_encode [a, b]) = [a, b]"
    using decode_group [of a b 0] s not_base64_pad
    unfolding encode_tail q t2
    by (simp add: base64_char_inverse numeral_2_eq_2 decode_tail(2) [of _ _ _ _ "base64_char w"])
qed

lemma roundtrip_group:
  assumes "base64_decode (base64_encode xs) = xs"
  shows "base64_decode (base64_encode (a # b # c # xs)) = a # b # c # xs"
proof -
  obtain x y z w where q: "char_array_3_to_4 [a, b, c] = [x, y, z, w]"
    by (simp add: char_array_3_to_4_bits)
  note s = take_char_array [OF q]
  show ?thesis
    using decode_group [of a b c] s assms
    by (simp add: encode_group q decode_group4 base64_char_inverse)
qed

lemma rfc_group:
  "rfc4648 (a # b # c # xs) = map base64_char (char_array_3_to_4 [a, b, c]) @ rfc4648 xs"
proof -
  have "length (a # b # c # xs) mod 3 = length xs mod 3" by simp
  then show ?thesis unfolding rfc4648_def by (simp add: byte_bits_def char_array_3_to_4_bits)
qed

lemma zeros: "replicate 4 False = [False, False, False, False]" "replicate 2 False = [False, False]"
  by (simp_all add: numeral_eq_Suc)

lemma rfc_tail:
  "rfc4648 [a] = base64_encode [a]" "rfc4648 [a, b] = base64_encode [a, b]"
  unfolding encode_tail rfc4648_def char_array_3_to_4_bits
  by (simp_all add: byte_bits_def take_Cons' zeros)

section \<open>Properties\<close>

text \<open>Decoding an encoded byte string gives the byte string back, for every input and every
  remainder of its length by three.\<close>

theorem base64_roundtrip: "base64_decode (base64_encode input) = input"
  by (induction input rule: list_by_threes) (simp_all add: roundtrip_tail roundtrip_group, simp add: base64_encode_def base64_decode_def)

text \<open>The byte-by-byte encoder computes the encoding of RFC 4648: the bit string of the input cut
  into groups of six, the last one filled with zeros, followed by the padding characters.\<close>

theorem base64_encode_rfc: "base64_encode input = rfc4648 input"
  by (induction input rule: list_by_threes) (simp_all add: rfc_tail rfc_group encode_group, simp add: base64_encode_def rfc4648_def)

text \<open>The encoding is as long as the encoder reserves: four characters for every started group of
  three bytes.\<close>

theorem base64_encode_length: "length (base64_encode input) = (length input + 2) div 3 * 4"
  by (induction input rule: list_by_threes)
    (simp_all add: encode_empty encode_tail encode_group char_array_3_to_4_def, presburger)

end
