(* ===== verification/Block_Hash.thy ===== *)
theory Block_Hash
  imports Prelude
begin

text \<open>
  What the two hash contexts of \<open>runtime/src/utils/crypt.cpp\<close> share: input cut into blocks of 64
  bytes, the helpers on integers in memory, and the contract of an incremental hash
  (\<open>init\<close>, any number of \<open>update\<close>, \<open>final\<close>), from which the keyed hash follows.
  The contract is interpreted on MD5 and on SHA-1.
\<close>

section \<open>Integers in memory\<close>

abbreviation block_size :: nat where
  "block_size \<equiv> 64"

definition put_32_bit_le :: "u32 \<Rightarrow> byte list" where
  "put_32_bit_le v = map (\<lambda>k. ucast (drop_bit (8 * k) v AND 0xff)) [0, 1, 2, 3]"

definition put_32_bit_be :: "u32 \<Rightarrow> byte list" where
  "put_32_bit_be v = map (\<lambda>k. ucast (drop_bit (8 * k) v AND 0xff)) [3, 2, 1, 0]"

definition put_64_bit_le :: "u64 \<Rightarrow> byte list" where
  "put_64_bit_le v = map (\<lambda>k. ucast (drop_bit (8 * k) v AND 0xff)) [0, 1, 2, 3, 4, 5, 6, 7]"

definition put_64_bit_be :: "u64 \<Rightarrow> byte list" where
  "put_64_bit_be v = map (\<lambda>k. ucast (drop_bit (8 * k) v AND 0xff)) [7, 6, 5, 4, 3, 2, 1, 0]"

definition get_32_bit_le :: "byte list \<Rightarrow> u32" where
  "get_32_bit_le v =
     push_bit 8 (push_bit 8 (push_bit 8 (ucast (v ! 3)) OR ucast (v ! 2)) OR ucast (v ! 1)) OR ucast (v ! 0)"

definition get_32_bit_be :: "byte list \<Rightarrow> u32" where
  "get_32_bit_be v =
     push_bit 8 (push_bit 8 (push_bit 8 (ucast (v ! 0)) OR ucast (v ! 1)) OR ucast (v ! 2)) OR ucast (v ! 3)"

definition bytes_to_word32_le :: "byte list \<Rightarrow> u32 list" where
  "bytes_to_word32_le pt = map (\<lambda>i. get_32_bit_le (drop (i * 4) pt)) [0..<16]"

definition bytes_to_word32_be :: "byte list \<Rightarrow> u32 list" where
  "bytes_to_word32_be pt = map (\<lambda>i. get_32_bit_be (drop (i * 4) pt)) [0..<16]"

definition left_rotate :: "u32 \<Rightarrow> nat \<Rightarrow> u32" where
  "left_rotate d num = push_bit num d OR drop_bit (32 - num) d"

definition md5_sha1_padding :: "byte list" where
  "md5_sha1_padding = 0x80 # replicate 127 0"

lemma length_put [simp]:
  "length (put_32_bit_le v) = 4" "length (put_32_bit_be v) = 4"
  "length (put_64_bit_le w) = 8" "length (put_64_bit_be w) = 8"
  by (simp_all add: put_32_bit_le_def put_32_bit_be_def put_64_bit_le_def put_64_bit_be_def)

section \<open>Blocks\<close>

text \<open>The loop \<open>while (len >= md5_sha1_block_size) transform(data), data += ...\<close>: the state and the
  bytes that are left.\<close>

function transform_loop :: "(byte list \<Rightarrow> 's \<Rightarrow> 's) \<Rightarrow> byte list \<Rightarrow> 's \<Rightarrow> 's \<times> byte list" where
  "transform_loop tr data s =
     (if length data \<ge> block_size
      then transform_loop tr (drop block_size data) (tr (take block_size data) s)
      else (s, data))"
  by pat_completeness auto
termination
  by (relation "measure (\<lambda>(tr, data, s). length data)") auto

declare transform_loop.simps [simp del]

function full_blocks :: "byte list \<Rightarrow> byte list list" where
  "full_blocks m = (if length m \<ge> block_size then take block_size m # full_blocks (drop block_size m) else [])"
  by pat_completeness auto
termination
  by (relation "measure length") auto

declare full_blocks.simps [simp del]

definition block_rest :: "byte list \<Rightarrow> byte list" where
  "block_rest m = drop (length m div block_size * block_size) m"

lemma full_blocks_short: "length m < block_size \<Longrightarrow> full_blocks m = []"
  by (simp add: full_blocks.simps)

lemma full_blocks_block: "length b = block_size \<Longrightarrow> full_blocks (b @ m) = b # full_blocks m"
  by (subst full_blocks.simps) simp

lemma rest_block: "length b = block_size \<Longrightarrow> block_rest (b @ m) = block_rest m"
proof -
  assume b: "length b = block_size"
  have "(block_size + length m) div block_size = Suc (length m div block_size)" by simp
  with b show ?thesis unfolding block_rest_def by simp
qed

lemma length_rest: "length (block_rest m) = length m mod block_size"
  by (simp add: block_rest_def minus_div_mult_eq_mod)

lemma rest_short: "length m < block_size \<Longrightarrow> block_rest m = m"
  by (simp add: block_rest_def)

lemma full_blocks_append: "full_blocks (m @ n) = full_blocks m @ full_blocks (block_rest m @ n)
    \<and> block_rest (m @ n) = block_rest (block_rest m @ n)"
proof (induction m rule: full_blocks.induct)
  case (1 m)
  show ?case
  proof (cases "length m \<ge> block_size")
    case True
    let ?b = "take block_size m" and ?m = "drop block_size m"
    have b: "length ?b = block_size" "m = ?b @ ?m" using True by simp_all
    have "full_blocks (m @ n) = ?b # full_blocks (?m @ n)" "full_blocks m = ?b # full_blocks ?m"
      "block_rest m = block_rest ?m" "block_rest (m @ n) = block_rest (?m @ n)"
      using full_blocks_block [OF b(1)] rest_block [OF b(1)] b(2) by (metis append.assoc)+
    then show ?thesis using 1 True by simp
  qed (simp add: full_blocks_short rest_short)
qed

lemma transform_loop_blocks: "transform_loop tr data s = (fold tr (full_blocks data) s, block_rest data)"
proof (induction tr data s rule: transform_loop.induct)
  case (1 tr data s)
  show ?case
  proof (cases "length data \<ge> block_size")
    case True
    then have "full_blocks data = take block_size data # full_blocks (drop block_size data)"
      by (simp add: full_blocks.simps)
    moreover have "block_rest data = block_rest (drop block_size data)"
      using rest_block [of "take block_size data" "drop block_size data"] True by simp
    ultimately show ?thesis using 1 True by (subst transform_loop.simps) simp
  next
    case False
    then show ?thesis by (subst transform_loop.simps) (simp add: full_blocks_short rest_short)
  qed
qed

section \<open>A buffered update\<close>

text \<open>
  The part of \<open>update\<close> that does not depend on how the context counts: with \<open>have\<close> bytes in the
  buffer, fill up the buffer and transform it, transform the whole blocks, keep the remaining bytes.
\<close>

definition update_blocks ::
    "(byte list \<Rightarrow> 's \<Rightarrow> 's) \<Rightarrow> nat \<Rightarrow> byte list \<Rightarrow> 's \<times> byte list \<Rightarrow> 's \<times> byte list" where
  "update_blocks tr have data = (\<lambda>(s, buff).
     let need = block_size - have;
         (s, buff, data, have) =
           (if length data \<ge> need
            then let (s, buff, data, have) =
                       (if have \<noteq> 0
                        then let buff = overwrite have (take need data) buff
                             in (tr buff s, buff, drop need data, 0)
                        else (s, buff, data, have));
                     (s, data) = transform_loop tr data s
                 in (s, buff, data, have)
            else (s, buff, data, have))
     in if length data \<noteq> 0 then (s, overwrite have data buff) else (s, buff))"

text \<open>\<open>buffered m s0 (s, buff)\<close>: the message \<open>m\<close> has been absorbed from the state \<open>s0\<close>; the bytes
  after its last whole block are in the buffer.\<close>

definition buffered :: "(byte list \<Rightarrow> 's \<Rightarrow> 's) \<Rightarrow> byte list \<Rightarrow> 's \<Rightarrow> 's \<times> byte list \<Rightarrow> bool" where
  "buffered tr m s0 = (\<lambda>(s, buff). s = fold tr (full_blocks m) s0 \<and> length buff = block_size
     \<and> take (length m mod block_size) buff = block_rest m)"

lemma take_overwrite:
  "i + length src \<le> length m \<Longrightarrow> take (i + length src) (overwrite i src m) = take i m @ src"
  by (simp add: overwrite_def)

lemma update_blocks_buffered:
  assumes b: "buffered tr m s0 (s, buff)" and "have": "have = length m mod block_size"
  shows "buffered tr (m @ data) s0 (update_blocks tr have data (s, buff))"
proof -
  have s: "s = fold tr (full_blocks m) s0" and lb: "length buff = block_size"
    and r: "take have buff = block_rest m" and h: "have < block_size"
    using b "have" by (simp_all add: buffered_def)
  have mod: "length (block_rest (m @ data)) = length (block_rest m @ data) mod block_size"
    using full_blocks_append [of m data] length_rest by metis
  note app = full_blocks_append [of m data]
  consider (short) "length data < block_size - have"
    | (aligned) "length data \<ge> block_size - have" "have = 0"
    | (fill) "length data \<ge> block_size - have" "have \<noteq> 0" by linarith
  then show ?thesis
  proof cases
    case short
    then have lt: "length (block_rest m @ data) < block_size" using "have" by (simp add: length_rest)
    have eq: "update_blocks tr have data (s, buff) = (s, overwrite have data buff)"
      using short by (simp add: update_blocks_def)
    have "take (have + length data) (overwrite have data buff) = block_rest m @ data"
      using take_overwrite [of "have" data buff] short lb r h by simp
    moreover have "length (m @ data) mod block_size = have + length data"
      using mod lt "have" by (simp add: length_rest)
    ultimately show ?thesis
      unfolding eq using app lt short lb h by (simp add: buffered_def s full_blocks_short rest_short)
  next
    case aligned
    then have "block_rest m = []" using "have" by (metis length_0_conv length_rest)
    then have a: "full_blocks (m @ data) = full_blocks m @ full_blocks data" "block_rest (m @ data) = block_rest data"
      using app by simp_all
    have eq: "update_blocks tr have data (s, buff)
        = (fold tr (full_blocks data) s, overwrite 0 (block_rest data) buff)"
      using aligned by (simp add: update_blocks_def transform_loop_blocks)
    have "take (length (block_rest data)) (overwrite 0 (block_rest data) buff) = block_rest data"
      using take_overwrite [of 0 "block_rest data" buff] lb by (simp add: length_rest less_imp_le)
    then show ?thesis
      unfolding eq using lb a length_rest [of "m @ data"] by (simp add: buffered_def s length_rest less_imp_le)
  next
    case fill
    let ?need = "block_size - have" let ?d = "drop ?need data" and ?f = "take ?need data"
    let ?buff = "overwrite have ?f buff"
    have lf: "have + length ?f = block_size" using fill h by simp
    then have buff: "?buff = block_rest m @ ?f"
      using take_overwrite [of "have" ?f buff] lb r by (metis order_refl length_overwrite take_all_iff)
    have split: "block_rest m @ data = ?buff @ ?d" using buff by simp
    have lbuff: "length ?buff = block_size" using lf lb by simp
    have a: "full_blocks (m @ data) = full_blocks m @ ?buff # full_blocks ?d" "block_rest (m @ data) = block_rest ?d"
      using app full_blocks_block [OF lbuff, of ?d] rest_block [OF lbuff, of ?d] unfolding split by simp_all
    have eq: "update_blocks tr have data (s, buff)
        = (fold tr (full_blocks ?d) (tr ?buff s), overwrite 0 (block_rest ?d) ?buff)"
      using fill by (simp add: update_blocks_def transform_loop_blocks Let_def)
    have "take (length (block_rest ?d)) (overwrite 0 (block_rest ?d) ?buff) = block_rest ?d"
      using take_overwrite [of 0 "block_rest ?d" ?buff] lbuff by (simp add: length_rest less_imp_le)
    then show ?thesis
      unfolding eq using lbuff a length_rest [of "m @ data"] by (simp add: buffered_def s length_rest less_imp_le)
  qed
qed

section \<open>The contract of an incremental hash\<close>

locale incremental_hash =
  fixes init :: "'c"
    and update :: "byte list \<Rightarrow> 'c \<Rightarrow> 'c"
    and final :: "'c \<Rightarrow> byte list"
    and absorbed :: "'c \<Rightarrow> byte list \<Rightarrow> bool"
    and digest :: "byte list \<Rightarrow> byte list"
  assumes init_law: "absorbed init []"
    and update_law: "absorbed c m \<Longrightarrow> absorbed (update bs c) (m @ bs)"
    and final_law: "absorbed c m \<Longrightarrow> final c = digest m"
begin

lemma absorbed_chunks: "absorbed c m \<Longrightarrow> absorbed (fold update cs c) (m @ concat cs)"
proof (induction cs arbitrary: c m)
  case (Cons b cs)
  then show ?case using Cons.IH [OF update_law [OF Cons.prems]] by simp
qed simp

lemma hash_chunks: "final (fold update cs init) = digest (concat cs)"
  using final_law [OF absorbed_chunks [OF init_law]] by simp

lemma hash_keyed:
  "final (update (final (update x (update ipad init))) (update opad init))
     = digest (opad @ digest (ipad @ x))"
  using hash_chunks [of "[ipad, x]"] hash_chunks [of "[opad, digest (ipad @ x)]"] by simp

end

section \<open>Keys\<close>

text \<open>\<open>xor_key\<close> xors the key as 32-bit integers.\<close>

fun xor_key :: "byte list \<Rightarrow> u32 \<Rightarrow> byte list" where
  "xor_key (a # b # c # d # ks) n = u32_bytes (bytes_u32 [a, b, c, d] XOR n) @ xor_key ks n"
| "xor_key ks n = ks"

definition spread :: "byte \<Rightarrow> u32" where
  "spread x = bytes_u32 [x, x, x, x]"

lemma u32_bytes_bytes_u32: "u32_bytes (bytes_u32 [a, b, c, d]) = [a, b, c, d]"
  unfolding u32_bytes_def bytes_u32_def list.inject
  by (intro conjI byte_bit_eqI refl; simp add: bit_simps)

lemma u32_bytes_xor: "u32_bytes (bytes_u32 [a, b, c, d] XOR spread x) = [a XOR x, b XOR x, c XOR x, d XOR x]"
  unfolding u32_bytes_def bytes_u32_def spread_def list.inject
  by (intro conjI byte_bit_eqI refl; simp add: bit_simps)

lemma xor_key_bytes: "length ks mod 4 = 0 \<Longrightarrow> xor_key ks (spread x) = map (\<lambda>k. k XOR x) ks"
proof (induction ks "spread x" rule: xor_key.induct)
  case (1 a b c d ks)
  then show ?case by (simp add: u32_bytes_xor)
qed simp_all

text \<open>The key block of RFC 2104: a key longer than a block is hashed, and zeros fill up the block.\<close>

definition key_block :: "(byte list \<Rightarrow> byte list) \<Rightarrow> byte list \<Rightarrow> byte list" where
  "key_block H key = (let k = (if length key > block_size then H key else key)
     in k @ replicate (block_size - length k) 0)"

definition rfc2104 :: "(byte list \<Rightarrow> byte list) \<Rightarrow> byte list \<Rightarrow> byte list \<Rightarrow> byte list" where
  "rfc2104 H key text = H (map (\<lambda>k. k XOR 0x5c) (key_block H key)
     @ H (map (\<lambda>k. k XOR 0x36) (key_block H key) @ text))"

lemma key_block_overwrite:
  "length k \<le> block_size \<Longrightarrow> overwrite 0 k (replicate block_size 0) = k @ replicate (block_size - length k) 0"
  by (simp add: overwrite_def)

lemma spread_consts: "spread 0x5c = 0x5c5c5c5c" "spread (0x5c XOR 0x36) = 0x5c5c5c5c XOR 0x36363636"
  by (simp_all add: spread_def bytes_u32_def)

lemma xor_twice: "map (\<lambda>k. k XOR (0x5c XOR 0x36)) (map (\<lambda>k. k XOR 0x5c) ks) = map (\<lambda>k. k XOR (0x36 :: byte)) ks"
  by (simp add: xor.assoc)

lemma key_paddings:
  assumes "length key mod 4 = 0"
  shows "xor_key key 0x5c5c5c5c = map (\<lambda>k. k XOR 0x5c) key"
    "xor_key (map (\<lambda>k. k XOR 0x5c) key) (0x5c5c5c5c XOR 0x36363636) = map (\<lambda>k. k XOR 0x36) key"
proof -
  show "xor_key key 0x5c5c5c5c = map (\<lambda>k. k XOR 0x5c) key"
    using xor_key_bytes [OF assms, where x = "0x5c"] by (simp only: spread_consts)
  show "xor_key (map (\<lambda>k. k XOR 0x5c) key) (0x5c5c5c5c XOR 0x36363636) = map (\<lambda>k. k XOR 0x36) key"
    using xor_key_bytes [of "map (\<lambda>k. k XOR 0x5c) key" "0x5c XOR 0x36"] assms
    by (simp only: spread_consts xor_twice length_map)
qed

lemma length_concat_const: "(\<And>x. length (f x) = k) \<Longrightarrow> length (concat (map f xs)) = k * length xs"
  by (induction xs) simp_all

section \<open>Padding\<close>

text \<open>RFC 1321 and FIPS 180: a one bit, zeros up to 56 modulo 64, the length in 8 bytes.\<close>

definition pad_zeros :: "nat \<Rightarrow> nat" where
  "pad_zeros n = nat ((55 - int n) mod 64)"

text \<open>The length of padding \<open>final\<close> computes from the bytes in the buffer.\<close>

definition pad_length :: "nat \<Rightarrow> nat" where
  "pad_length used = (let len = block_size - used in if len < 1 + 8 then len + block_size else len)"

lemma padding_taken:
  "take (pad_length (n mod block_size) - 8) md5_sha1_padding = 0x80 # replicate (pad_zeros n) 0"
proof -
  have z: "pad_zeros n = (if n mod 64 < 56 then 55 - n mod 64 else 119 - n mod 64)"
  proof -
    have "(55 - int n) mod 64 = (55 - int (n mod 64)) mod 64" by (simp add: zmod_int mod_diff_right_eq)
    also have "\<dots> = (if n mod 64 < 56 then 55 - int (n mod 64) else 119 - int (n mod 64))"
    proof (cases "n mod 64 < 56")
      case False
      have "(55 - int (n mod 64)) mod 64 = (119 - int (n mod 64)) mod 64"
        using mod_add_self2 [of "55 - int (n mod 64)" 64] by (simp add: algebra_simps)
      also have "\<dots> = 119 - int (n mod 64)"
        using False mod_less_divisor [of 64 n] by (intro mod_pos_pos_trivial) linarith+
      finally show ?thesis using False by simp
    qed (simp add: mod_pos_pos_trivial)
    finally show ?thesis unfolding pad_zeros_def by (auto simp: of_nat_diff nat_diff_distrib)
  qed
  define r where "r = n mod 64"
  have "r < 64" by (simp add: r_def)
  then have "pad_length r - 8 = Suc (pad_zeros n) \<and> pad_zeros n \<le> 127"
    unfolding pad_length_def z Let_def r_def [symmetric] by (cases "r < 56") (simp_all, linarith+)
  then show ?thesis unfolding r_def by (simp add: md5_sha1_padding_def min_def)
qed

lemma left_rotate_rotl: "0 < n \<Longrightarrow> n < 32 \<Longrightarrow> left_rotate d n = word_rotl n d"
proof (rule bit_word_eqI)
  fix k assume n: "0 < n" "n < 32" and "k < LENGTH(32)"
  then have k: "k < 32" by simp
  show "bit (left_rotate d n) k \<longleftrightarrow> bit (word_rotl n d) k"
  proof (cases "n \<le> k")
    case True
    have "\<not> bit d (32 - n + k)" using True n bit_imp_le_length [of d "32 - n + k"] by auto
    moreover have "(k + (32 - n)) mod 32 = k - n" using True n k by (simp add: mod_if)
    ultimately show ?thesis using True n k by (simp add: left_rotate_def bit_simps)
  next
    case False
    then show ?thesis using False n k by (simp add: left_rotate_def bit_simps add.commute [of k])
  qed
qed

end
