(* ===== verification/Md5.thy ===== *)
theory Md5
  imports Block_Hash
begin

text \<open>
  MD5 and its keyed hash, \<open>runtime/src/utils/crypt.cpp\<close>: the context with its bit count, state and
  buffer; \<open>transform\<close> with the 64 steps on the registers \<open>a\<close>, \<open>b\<close>, \<open>c\<close>, \<open>d\<close> in the order of the code.
  The reference is the indexed loop of RFC 1321 with rotating registers over the padded message.
\<close>

section \<open>The code\<close>

record md5_context =
  md5_state :: "u32 list"
  md5_count :: u64
  md5_buff :: "byte list"

definition md5_context0 :: md5_context where
  "md5_context0 = \<lparr>md5_state = replicate 4 0, md5_count = 0, md5_buff = replicate block_size 0\<rparr>"

definition md5_init :: "md5_context \<Rightarrow> md5_context" where
  "md5_init c = c\<lparr>md5_count := 0, md5_state := [0x67452301, 0xEFCDAB89, 0x98BADCFE, 0x10325476]\<rparr>"

definition md5_fn_f :: "u32 \<Rightarrow> u32 \<Rightarrow> u32 \<Rightarrow> u32" where
  "md5_fn_f x y z = ((y XOR z) AND x) XOR z"

definition md5_fn_g :: "u32 \<Rightarrow> u32 \<Rightarrow> u32 \<Rightarrow> u32" where
  "md5_fn_g x y z = md5_fn_f z x y"

definition md5_fn_h :: "u32 \<Rightarrow> u32 \<Rightarrow> u32 \<Rightarrow> u32" where
  "md5_fn_h x y z = x XOR y XOR z"

definition md5_fn_i :: "u32 \<Rightarrow> u32 \<Rightarrow> u32 \<Rightarrow> u32" where
  "md5_fn_i x y z = y XOR (x OR NOT z)"

type_synonym md5_regs = "u32 \<times> u32 \<times> u32 \<times> u32"

definition md5_step :: "(u32 \<Rightarrow> u32 \<Rightarrow> u32 \<Rightarrow> u32) \<Rightarrow> u32 \<Rightarrow> u32 \<Rightarrow> u32 \<Rightarrow> u32 \<Rightarrow> u32 \<Rightarrow> nat \<Rightarrow> u32" where
  "md5_step f w x y z data s =
     (let w = w + (f x y z + data); w = left_rotate w s in w + x)"

text \<open>The four ways \<open>transform\<close> calls \<open>step\<close>: \<open>step_a\<close> is \<open>step(f, a, b, c, d, data, s)\<close>, and so on.\<close>

definition step_a :: "(u32 \<Rightarrow> u32 \<Rightarrow> u32 \<Rightarrow> u32) \<Rightarrow> u32 \<Rightarrow> nat \<Rightarrow> md5_regs \<Rightarrow> md5_regs" where
  "step_a f data s = (\<lambda>(a, b, c, d). (md5_step f a b c d data s, b, c, d))"

definition step_d :: "(u32 \<Rightarrow> u32 \<Rightarrow> u32 \<Rightarrow> u32) \<Rightarrow> u32 \<Rightarrow> nat \<Rightarrow> md5_regs \<Rightarrow> md5_regs" where
  "step_d f data s = (\<lambda>(a, b, c, d). (a, b, c, md5_step f d a b c data s))"

definition step_c :: "(u32 \<Rightarrow> u32 \<Rightarrow> u32 \<Rightarrow> u32) \<Rightarrow> u32 \<Rightarrow> nat \<Rightarrow> md5_regs \<Rightarrow> md5_regs" where
  "step_c f data s = (\<lambda>(a, b, c, d). (a, b, md5_step f c d a b data s, d))"

definition step_b :: "(u32 \<Rightarrow> u32 \<Rightarrow> u32 \<Rightarrow> u32) \<Rightarrow> u32 \<Rightarrow> nat \<Rightarrow> md5_regs \<Rightarrow> md5_regs" where
  "step_b f data s = (\<lambda>(a, b, c, d). (a, md5_step f b c d a data s, c, d))"

definition md5_round_f :: "u32 list \<Rightarrow> (md5_regs \<Rightarrow> md5_regs) list" where
  "md5_round_f inp =
     [step_a md5_fn_f (inp ! 0 + 0xd76aa478) 7,
      step_d md5_fn_f (inp ! 1 + 0xe8c7b756) 12,
      step_c md5_fn_f (inp ! 2 + 0x242070db) 17,
      step_b md5_fn_f (inp ! 3 + 0xc1bdceee) 22,
      step_a md5_fn_f (inp ! 4 + 0xf57c0faf) 7,
      step_d md5_fn_f (inp ! 5 + 0x4787c62a) 12,
      step_c md5_fn_f (inp ! 6 + 0xa8304613) 17,
      step_b md5_fn_f (inp ! 7 + 0xfd469501) 22,
      step_a md5_fn_f (inp ! 8 + 0x698098d8) 7,
      step_d md5_fn_f (inp ! 9 + 0x8b44f7af) 12,
      step_c md5_fn_f (inp ! 10 + 0xffff5bb1) 17,
      step_b md5_fn_f (inp ! 11 + 0x895cd7be) 22,
      step_a md5_fn_f (inp ! 12 + 0x6b901122) 7,
      step_d md5_fn_f (inp ! 13 + 0xfd987193) 12,
      step_c md5_fn_f (inp ! 14 + 0xa679438e) 17,
      step_b md5_fn_f (inp ! 15 + 0x49b40821) 22]"

definition md5_round_g :: "u32 list \<Rightarrow> (md5_regs \<Rightarrow> md5_regs) list" where
  "md5_round_g inp =
     [step_a md5_fn_g (inp ! 1 + 0xf61e2562) 5,
      step_d md5_fn_g (inp ! 6 + 0xc040b340) 9,
      step_c md5_fn_g (inp ! 11 + 0x265e5a51) 14,
      step_b md5_fn_g (inp ! 0 + 0xe9b6c7aa) 20,
      step_a md5_fn_g (inp ! 5 + 0xd62f105d) 5,
      step_d md5_fn_g (inp ! 10 + 0x02441453) 9,
      step_c md5_fn_g (inp ! 15 + 0xd8a1e681) 14,
      step_b md5_fn_g (inp ! 4 + 0xe7d3fbc8) 20,
      step_a md5_fn_g (inp ! 9 + 0x21e1cde6) 5,
      step_d md5_fn_g (inp ! 14 + 0xc33707d6) 9,
      step_c md5_fn_g (inp ! 3 + 0xf4d50d87) 14,
      step_b md5_fn_g (inp ! 8 + 0x455a14ed) 20,
      step_a md5_fn_g (inp ! 13 + 0xa9e3e905) 5,
      step_d md5_fn_g (inp ! 2 + 0xfcefa3f8) 9,
      step_c md5_fn_g (inp ! 7 + 0x676f02d9) 14,
      step_b md5_fn_g (inp ! 12 + 0x8d2a4c8a) 20]"

definition md5_round_h :: "u32 list \<Rightarrow> (md5_regs \<Rightarrow> md5_regs) list" where
  "md5_round_h inp =
     [step_a md5_fn_h (inp ! 5 + 0xfffa3942) 4,
      step_d md5_fn_h (inp ! 8 + 0x8771f681) 11,
      step_c md5_fn_h (inp ! 11 + 0x6d9d6122) 16,
      step_b md5_fn_h (inp ! 14 + 0xfde5380c) 23,
      step_a md5_fn_h (inp ! 1 + 0xa4beea44) 4,
      step_d md5_fn_h (inp ! 4 + 0x4bdecfa9) 11,
      step_c md5_fn_h (inp ! 7 + 0xf6bb4b60) 16,
      step_b md5_fn_h (inp ! 10 + 0xbebfbc70) 23,
      step_a md5_fn_h (inp ! 13 + 0x289b7ec6) 4,
      step_d md5_fn_h (inp ! 0 + 0xeaa127fa) 11,
      step_c md5_fn_h (inp ! 3 + 0xd4ef3085) 16,
      step_b md5_fn_h (inp ! 6 + 0x04881d05) 23,
      step_a md5_fn_h (inp ! 9 + 0xd9d4d039) 4,
      step_d md5_fn_h (inp ! 12 + 0xe6db99e5) 11,
      step_c md5_fn_h (inp ! 15 + 0x1fa27cf8) 16,
      step_b md5_fn_h (inp ! 2 + 0xc4ac5665) 23]"

definition md5_round_i :: "u32 list \<Rightarrow> (md5_regs \<Rightarrow> md5_regs) list" where
  "md5_round_i inp =
     [step_a md5_fn_i (inp ! 0 + 0xf4292244) 6,
      step_d md5_fn_i (inp ! 7 + 0x432aff97) 10,
      step_c md5_fn_i (inp ! 14 + 0xab9423a7) 15,
      step_b md5_fn_i (inp ! 5 + 0xfc93a039) 21,
      step_a md5_fn_i (inp ! 12 + 0x655b59c3) 6,
      step_d md5_fn_i (inp ! 3 + 0x8f0ccc92) 10,
      step_c md5_fn_i (inp ! 10 + 0xffeff47d) 15,
      step_b md5_fn_i (inp ! 1 + 0x85845dd1) 21,
      step_a md5_fn_i (inp ! 8 + 0x6fa87e4f) 6,
      step_d md5_fn_i (inp ! 15 + 0xfe2ce6e0) 10,
      step_c md5_fn_i (inp ! 6 + 0xa3014314) 15,
      step_b md5_fn_i (inp ! 13 + 0x4e0811a1) 21,
      step_a md5_fn_i (inp ! 4 + 0xf7537e82) 6,
      step_d md5_fn_i (inp ! 11 + 0xbd3af235) 10,
      step_c md5_fn_i (inp ! 2 + 0x2ad7d2bb) 15,
      step_b md5_fn_i (inp ! 9 + 0xeb86d391) 21]"

definition md5_transform :: "byte list \<Rightarrow> u32 list \<Rightarrow> u32 list" where
  "md5_transform block state =
     (let inp = bytes_to_word32_le block;
          (a, b, c, d) = fold (\<lambda>g. g)
             (md5_round_f inp @ md5_round_g inp @ md5_round_h inp @ md5_round_i inp)
             (state ! 0, state ! 1, state ! 2, state ! 3)
      in [state ! 0 + a, state ! 1 + b, state ! 2 + c, state ! 3 + d])"

definition md5_update :: "byte list \<Rightarrow> md5_context \<Rightarrow> md5_context" where
  "md5_update inp c =
     (let have = unat (drop_bit 3 (md5_count c) AND (of_nat block_size - 1));
          (s, b) = update_blocks md5_transform have inp (md5_state c, md5_buff c)
      in c\<lparr>md5_count := md5_count c + push_bit 3 (of_nat (length inp)), md5_state := s, md5_buff := b\<rparr>)"

definition md5_final :: "md5_context \<Rightarrow> byte list" where
  "md5_final c =
     (let count_temp = put_64_bit_le (md5_count c);
          len = pad_length (unat (drop_bit 3 (md5_count c) AND (of_nat block_size - 1)));
          c = md5_update (take (len - 8) md5_sha1_padding) c;
          c = md5_update count_temp c
      in concat (map put_32_bit_le (md5_state c)))"

definition md5 :: "byte list \<Rightarrow> byte list" where
  "md5 input = md5_final (md5_update input (md5_init md5_context0))"

definition hmac_md5 :: "byte list \<Rightarrow> byte list \<Rightarrow> byte list" where
  "hmac_md5 input input_key =
     (let key = overwrite 0 (if length input_key > block_size then md5 input_key else input_key)
                  (replicate block_size 0);
          key = xor_key key 0x5c5c5c5c;
          ctx1 = md5_update key (md5_init md5_context0);
          key = xor_key key (0x5c5c5c5c XOR 0x36363636);
          ctx2 = md5_update input (md5_update key (md5_init md5_context0));
          data = md5_final ctx2;
          ctx1 = md5_update data ctx1
      in md5_final ctx1)"

section \<open>RFC 1321\<close>

definition rfc1321_K :: "u32 list" where
  "rfc1321_K =
     [0xd76aa478, 0xe8c7b756, 0x242070db, 0xc1bdceee, 0xf57c0faf, 0x4787c62a, 0xa8304613, 0xfd469501,
      0x698098d8, 0x8b44f7af, 0xffff5bb1, 0x895cd7be, 0x6b901122, 0xfd987193, 0xa679438e, 0x49b40821,
      0xf61e2562, 0xc040b340, 0x265e5a51, 0xe9b6c7aa, 0xd62f105d, 0x02441453, 0xd8a1e681, 0xe7d3fbc8,
      0x21e1cde6, 0xc33707d6, 0xf4d50d87, 0x455a14ed, 0xa9e3e905, 0xfcefa3f8, 0x676f02d9, 0x8d2a4c8a,
      0xfffa3942, 0x8771f681, 0x6d9d6122, 0xfde5380c, 0xa4beea44, 0x4bdecfa9, 0xf6bb4b60, 0xbebfbc70,
      0x289b7ec6, 0xeaa127fa, 0xd4ef3085, 0x04881d05, 0xd9d4d039, 0xe6db99e5, 0x1fa27cf8, 0xc4ac5665,
      0xf4292244, 0x432aff97, 0xab9423a7, 0xfc93a039, 0x655b59c3, 0x8f0ccc92, 0xffeff47d, 0x85845dd1,
      0x6fa87e4f, 0xfe2ce6e0, 0xa3014314, 0x4e0811a1, 0xf7537e82, 0xbd3af235, 0x2ad7d2bb, 0xeb86d391]"

text \<open>The auxiliary functions as the RFC writes them.\<close>

definition rfc1321_fn :: "nat \<Rightarrow> u32 \<Rightarrow> u32 \<Rightarrow> u32 \<Rightarrow> u32" where
  "rfc1321_fn i x y z =
     (if i < 16 then (x AND y) OR (NOT x AND z)
      else if i < 32 then (x AND z) OR (y AND NOT z)
      else if i < 48 then x XOR y XOR z
      else y XOR (x OR NOT z))"

definition rfc1321_index :: "nat \<Rightarrow> nat" where
  "rfc1321_index i =
     (if i < 16 then i else if i < 32 then (5 * i + 1) mod 16
      else if i < 48 then (3 * i + 5) mod 16 else (7 * i) mod 16)"

definition rfc1321_shift :: "nat \<Rightarrow> nat" where
  "rfc1321_shift i =
     ([7, 12, 17, 22, 5, 9, 14, 20, 4, 11, 16, 23, 6, 10, 15, 21] ! (i div 16 * 4 + i mod 4))"

definition rfc1321_step :: "u32 list \<Rightarrow> nat \<Rightarrow> md5_regs \<Rightarrow> md5_regs" where
  "rfc1321_step X i = (\<lambda>(a, b, c, d).
     (d, b + word_rotl (rfc1321_shift i)
            (a + rfc1321_fn i b c d + X ! rfc1321_index i + rfc1321_K ! i), b, c))"

definition rfc1321_compress :: "byte list \<Rightarrow> u32 list \<Rightarrow> u32 list" where
  "rfc1321_compress block H =
     (let X = map (\<lambda>i. get_32_bit_le (drop (4 * i) block)) [0..<16];
          (a, b, c, d) = fold (rfc1321_step X) [0..<64] (H ! 0, H ! 1, H ! 2, H ! 3)
      in [H ! 0 + a, H ! 1 + b, H ! 2 + c, H ! 3 + d])"

definition rfc1321_pad :: "byte list \<Rightarrow> byte list" where
  "rfc1321_pad m = m @ 0x80 # replicate (pad_zeros (length m)) 0 @ put_64_bit_le (of_nat (8 * length m))"

definition rfc1321 :: "byte list \<Rightarrow> byte list" where
  "rfc1321 m = concat (map put_32_bit_le (fold rfc1321_compress (full_blocks (rfc1321_pad m))
     [0x67452301, 0xEFCDAB89, 0x98BADCFE, 0x10325476]))"

section \<open>The steps are those of the RFC\<close>

text \<open>A step in the rotating form: every register moves on by one place.\<close>

definition turn :: "(u32 \<Rightarrow> u32 \<Rightarrow> u32 \<Rightarrow> u32) \<Rightarrow> u32 \<Rightarrow> nat \<Rightarrow> md5_regs \<Rightarrow> md5_regs" where
  "turn f data s = (\<lambda>(a, b, c, d). (d, md5_step f a b c d data s, b, c))"

lemma four_steps:
  "step_b f x4 s4 (step_c f x3 s3 (step_d f x2 s2 (step_a f x1 s1 st)))
     = turn f x4 s4 (turn f x3 s3 (turn f x2 s2 (turn f x1 s1 st)))"
  by (cases st) (simp add: step_a_def step_b_def step_c_def step_d_def turn_def)

lemma md5_fn_f_rfc: "md5_fn_f x y z = (x AND y) OR (NOT x AND z)"
  by (rule bit_word_eqI) (auto simp: md5_fn_f_def bit_simps)

lemma md5_fn_g_rfc: "md5_fn_g x y z = (x AND z) OR (y AND NOT z)"
  by (rule bit_word_eqI) (auto simp: md5_fn_g_def md5_fn_f_def bit_simps)

lemma rfc1321_step_turn:
  assumes "0 < rfc1321_shift i" "rfc1321_shift i < 32"
  shows "rfc1321_step X i = turn (rfc1321_fn i) (X ! rfc1321_index i + rfc1321_K ! i) (rfc1321_shift i)"
  using assms
  by (intro ext) (auto simp: rfc1321_step_def turn_def md5_step_def Let_def left_rotate_rotl ac_simps)

lemma rfc1321_fns:
  "i < 16 \<Longrightarrow> rfc1321_fn i = md5_fn_f"
  "16 \<le> i \<Longrightarrow> i < 32 \<Longrightarrow> rfc1321_fn i = md5_fn_g"
  "32 \<le> i \<Longrightarrow> i < 48 \<Longrightarrow> rfc1321_fn i = md5_fn_h"
  "48 \<le> i \<Longrightarrow> rfc1321_fn i = md5_fn_i"
  by (intro ext; simp add: rfc1321_fn_def md5_fn_f_rfc md5_fn_g_rfc md5_fn_h_def md5_fn_i_def)+

lemmas round_simps = four_steps rfc1321_step_turn rfc1321_fns rfc1321_shift_def rfc1321_index_def rfc1321_K_def

lemma upt16: "[0..<16] = [0, 1, 2, 3, 4, 5, 6, 7, 8, 9, 10, 11, 12, 13, 14, 15]"
  by (simp add: eval_nat_numeral)

lemma round_f: "fold (\<lambda>g. g) (md5_round_f inp) st = fold (rfc1321_step inp) [0..<16] st"
  by (simp add: md5_round_f_def round_simps upt16)

lemma round_g: "fold (\<lambda>g. g) (md5_round_g inp) st = fold (rfc1321_step inp) [16..<32] st"
  by (simp add: md5_round_g_def round_simps upt_conv_Cons)

lemma round_h: "fold (\<lambda>g. g) (md5_round_h inp) st = fold (rfc1321_step inp) [32..<48] st"
  by (simp add: md5_round_h_def round_simps upt_conv_Cons)

lemma round_i: "fold (\<lambda>g. g) (md5_round_i inp) st = fold (rfc1321_step inp) [48..<64] st"
  by (simp add: md5_round_i_def round_simps upt_conv_Cons)

lemma upt_rounds: "[0..<64] = [0..<16] @ [16..<32] @ [32..<48] @ [48..<(64::nat)]"
  using upt_add_eq_append [of 0 48 16] upt_add_eq_append [of 0 32 16] upt_add_eq_append [of 0 16 16] by simp

lemma md5_transform_rfc: "md5_transform = rfc1321_compress"
  by (intro ext) (simp only: md5_transform_def rfc1321_compress_def bytes_to_word32_le_def
      upt_rounds fold_append comp_apply round_f round_g round_h round_i mult.commute)

section \<open>Absorbing a message\<close>

definition md5_iv :: "u32 list" where
  "md5_iv = [0x67452301, 0xEFCDAB89, 0x98BADCFE, 0x10325476]"

definition md5_absorbed :: "md5_context \<Rightarrow> byte list \<Rightarrow> bool" where
  "md5_absorbed c m \<longleftrightarrow> buffered md5_transform m md5_iv (md5_state c, md5_buff c)
     \<and> md5_count c = of_nat (8 * length m)"

lemma bits_to_used: "unat (drop_bit 3 (of_nat (8 * n) :: u64) AND (of_nat 64 - 1)) = n mod 64"
proof -
  have "(of_nat 64 - 1 :: u64) = mask 6" by (simp add: mask_eq_exp_minus_1)
  then have "unat (drop_bit 3 (of_nat (8 * n) :: u64) AND (of_nat 64 - 1))
      = take_bit 6 (drop_bit 3 (unat (of_nat (8 * n) :: u64)))"
    by (simp only: take_bit_eq_mask [symmetric] unsigned_take_bit_eq unsigned_drop_bit_eq)
      (simp add: take_bit_nat_eq_self [OF unat_u64_less])
  also have "\<dots> = (8 * n mod 2 ^ 64) div 8 mod 64"
    by (simp add: take_bit_eq_mod drop_bit_eq_div unat_of_nat del: of_nat_mult)
  also have "8 * n mod 2 ^ 64 = 8 * (n mod 2 ^ 61)"
    using mult_mod_right [of 8 n "2 ^ 61"] by simp
  finally show ?thesis by (simp add: mod_mod_cancel)
qed

lemma md5_absorbed_update: "md5_absorbed c m \<Longrightarrow> md5_absorbed (md5_update bs c) (m @ bs)"
proof -
  assume c: "md5_absorbed c m"
  let ?r = "update_blocks md5_transform (length m mod block_size) bs (md5_state c, md5_buff c)"
  have "buffered md5_transform (m @ bs) md5_iv ?r"
    using c by (intro update_blocks_buffered) (simp_all add: md5_absorbed_def)
  moreover have "md5_update bs c = c\<lparr>md5_count := md5_count c + push_bit 3 (of_nat (length bs)),
      md5_state := fst ?r, md5_buff := snd ?r\<rparr>"
    using c by (simp only: md5_update_def md5_absorbed_def bits_to_used Let_def split_beta)
  ultimately show ?thesis using c by (simp add: md5_absorbed_def push_bit_eq_mult algebra_simps)
qed

lemma md5_absorbed_init: "md5_absorbed (md5_init md5_context0) []"
  by (simp add: md5_absorbed_def buffered_def md5_init_def md5_context0_def md5_iv_def full_blocks_short rest_short)

lemma md5_final_rfc: "md5_absorbed c m \<Longrightarrow> md5_final c = rfc1321 m"
proof -
  assume c: "md5_absorbed c m"
  let ?p = "0x80 # replicate (pad_zeros (length m)) 0" and ?l = "put_64_bit_le (of_nat (8 * length m))"
  let ?c = "md5_update ?l (md5_update ?p c)"
  have n: "md5_count c = of_nat (8 * length m)" using c by (simp add: md5_absorbed_def)
  have "md5_final c = concat (map put_32_bit_le (md5_state ?c))"
    unfolding md5_final_def n bits_to_used padding_taken Let_def ..
  moreover have "md5_absorbed ?c (rfc1321_pad m)"
    using md5_absorbed_update [OF md5_absorbed_update [OF c], of ?l ?p] by (simp add: rfc1321_pad_def)
  ultimately show ?thesis
    by (simp add: md5_absorbed_def buffered_def rfc1321_def md5_iv_def md5_transform_rfc)
qed

interpretation md5h: incremental_hash "md5_init md5_context0" md5_update md5_final md5_absorbed rfc1321
  by unfold_locales (fact md5_absorbed_init md5_absorbed_update md5_final_rfc)+

section \<open>Properties\<close>

text \<open>C19: The message digest is the one of RFC 1321, whatever way the message is cut into pieces: feeding
  any sequence of byte strings to one context and finishing it gives the digest of the padded
  concatenation computed with the indexed 64-step loop and rotating registers of the RFC.\<close>

theorem md5_chunks_rfc1321:
  "md5_final (fold md5_update chunks (md5_init md5_context0)) = rfc1321 (concat chunks)
   \<and> md5 input = rfc1321 input"
  using md5h.hash_chunks [of chunks] md5h.hash_chunks [of "[input]"] by (simp add: md5_def)

lemma length_rfc1321: "length (rfc1321 m) = 16"
proof -
  have "length (fold rfc1321_compress bs H) = 4" if "length H = 4" for bs H
    using that by (induction bs arbitrary: H) (simp_all add: rfc1321_compress_def Let_def split_beta)
  then show ?thesis unfolding rfc1321_def
    by (subst length_concat_const [where k = 4]) simp_all
qed

lemma hmac_key_length: "length (if length key > block_size then rfc1321 key else key) \<le> block_size"
  by (simp add: length_rfc1321)

text \<open>The keyed hash is HMAC of RFC 2104 over the reference digest: the key block (hashed when the
  key is longer than a block, filled with zeros) xored with the two paddings, for every key and text.\<close>

theorem hmac_md5_rfc2104: "hmac_md5 input input_key = rfc2104 rfc1321 input_key input"
proof -
  have md5: "md5 m = rfc1321 m" for m using md5h.hash_chunks [of "[m]"] by (simp add: md5_def)
  let ?key = "key_block rfc1321 input_key"
  have key: "overwrite 0 (if length input_key > block_size then md5 input_key else input_key)
      (replicate block_size 0) = ?key"
    unfolding md5 key_block_overwrite [OF hmac_key_length] by (simp add: key_block_def Let_def)
  have len: "length ?key mod 4 = 0"
    using hmac_key_length [of input_key] by (simp add: key_block_def Let_def)
  note x = key_paddings [OF len]
  show ?thesis
    unfolding hmac_md5_def Let_def key x md5h.hash_keyed by (simp add: rfc2104_def)
qed

end
