(* ===== verification/Sha1.thy ===== *)
theory Sha1
  imports Block_Hash
begin

text \<open>
  SHA-1 and its keyed hash, \<open>runtime/src/utils/crypt.cpp\<close>: the context with its byte count, state and
  buffer; \<open>transform\<close> with the 80 steps on the registers \<open>a\<close> to \<open>e\<close>, the message schedule kept in the
  16 words of \<open>block\<close>, which the steps overwrite.  The reference is the loop of FIPS 180 with rotating
  registers and a schedule of 80 words.
\<close>

section \<open>The code\<close>

record sha1_context =
  sha1_state :: "u32 list"
  sha1_count :: u64
  sha1_buff :: "byte list"

definition sha1_context0 :: sha1_context where
  "sha1_context0 = \<lparr>sha1_state = replicate 5 0, sha1_count = 0, sha1_buff = replicate block_size 0\<rparr>"

definition sha1_init :: "sha1_context \<Rightarrow> sha1_context" where
  "sha1_init c = c\<lparr>sha1_state := [0x67452301, 0xefcdab89, 0x98badcfe, 0x10325476, 0xc3d2e1f0]\<rparr>"

definition sha1_blk :: "u32 list \<Rightarrow> nat \<Rightarrow> u32" where
  "sha1_blk block i = left_rotate
     (block ! ((i + 13) mod 16) XOR block ! ((i + 8) mod 16) XOR block ! ((i + 2) mod 16) XOR block ! i) 1"

definition sha1_f1 :: "u32 \<Rightarrow> u32 \<Rightarrow> u32 \<Rightarrow> u32" where
  "sha1_f1 x y w = (w AND (x XOR y)) XOR y"

definition sha1_f2 :: "u32 \<Rightarrow> u32 \<Rightarrow> u32 \<Rightarrow> u32" where
  "sha1_f2 x y w = w XOR x XOR y"

definition sha1_f3 :: "u32 \<Rightarrow> u32 \<Rightarrow> u32 \<Rightarrow> u32" where
  "sha1_f3 x y w = ((w OR x) AND y) OR (w AND x)"

type_synonym sha1_five = "u32 \<times> u32 \<times> u32 \<times> u32 \<times> u32"
type_synonym sha1_regs = "sha1_five \<times> u32 list"

text \<open>The body the lambdas \<open>step0\<close> and \<open>step1\<close> share, on the registers they are called with.\<close>

definition sha1_mix :: "(u32 \<Rightarrow> u32 \<Rightarrow> u32 \<Rightarrow> u32) \<Rightarrow> u32 \<Rightarrow> u32 \<Rightarrow> sha1_five \<Rightarrow> sha1_five" where
  "sha1_mix fn t bi = (\<lambda>(v, w, x, y, z).
     let z = z + (fn x y w + bi + t + left_rotate v 5); w = left_rotate w 30 in (v, w, x, y, z))"

text \<open>The five orders in which the registers are passed.\<close>

definition on_abcde :: "(sha1_five \<Rightarrow> sha1_five) \<Rightarrow> sha1_five \<Rightarrow> sha1_five" where
  "on_abcde g = g"

definition on_eabcd :: "(sha1_five \<Rightarrow> sha1_five) \<Rightarrow> sha1_five \<Rightarrow> sha1_five" where
  "on_eabcd g = (\<lambda>(a, b, c, d, e). let (e, a, b, c, d) = g (e, a, b, c, d) in (a, b, c, d, e))"

definition on_deabc :: "(sha1_five \<Rightarrow> sha1_five) \<Rightarrow> sha1_five \<Rightarrow> sha1_five" where
  "on_deabc g = (\<lambda>(a, b, c, d, e). let (d, e, a, b, c) = g (d, e, a, b, c) in (a, b, c, d, e))"

definition on_cdeab :: "(sha1_five \<Rightarrow> sha1_five) \<Rightarrow> sha1_five \<Rightarrow> sha1_five" where
  "on_cdeab g = (\<lambda>(a, b, c, d, e). let (c, d, e, a, b) = g (c, d, e, a, b) in (a, b, c, d, e))"

definition on_bcdea :: "(sha1_five \<Rightarrow> sha1_five) \<Rightarrow> sha1_five \<Rightarrow> sha1_five" where
  "on_bcdea g = (\<lambda>(a, b, c, d, e). let (b, c, d, e, a) = g (b, c, d, e, a) in (a, b, c, d, e))"

definition sha1_step0 :: "((sha1_five \<Rightarrow> sha1_five) \<Rightarrow> sha1_five \<Rightarrow> sha1_five) \<Rightarrow>
    (u32 \<Rightarrow> u32 \<Rightarrow> u32 \<Rightarrow> u32) \<Rightarrow> u32 \<Rightarrow> nat \<Rightarrow> sha1_regs \<Rightarrow> sha1_regs" where
  "sha1_step0 on fn t i = (\<lambda>(r, block). (on (sha1_mix fn t (block ! i)) r, block))"

definition sha1_step1 :: "((sha1_five \<Rightarrow> sha1_five) \<Rightarrow> sha1_five \<Rightarrow> sha1_five) \<Rightarrow>
    (u32 \<Rightarrow> u32 \<Rightarrow> u32 \<Rightarrow> u32) \<Rightarrow> u32 \<Rightarrow> nat \<Rightarrow> sha1_regs \<Rightarrow> sha1_regs" where
  "sha1_step1 on fn t i = (\<lambda>(r, block).
     let block = block[i := sha1_blk block i] in (on (sha1_mix fn t (block ! i)) r, block))"

definition sha1_part1 :: "(sha1_regs \<Rightarrow> sha1_regs) list" where
  "sha1_part1 =
     [sha1_step0 on_abcde sha1_f1 0x5a827999 0,
      sha1_step0 on_eabcd sha1_f1 0x5a827999 1,
      sha1_step0 on_deabc sha1_f1 0x5a827999 2,
      sha1_step0 on_cdeab sha1_f1 0x5a827999 3,
      sha1_step0 on_bcdea sha1_f1 0x5a827999 4,
      sha1_step0 on_abcde sha1_f1 0x5a827999 5,
      sha1_step0 on_eabcd sha1_f1 0x5a827999 6,
      sha1_step0 on_deabc sha1_f1 0x5a827999 7,
      sha1_step0 on_cdeab sha1_f1 0x5a827999 8,
      sha1_step0 on_bcdea sha1_f1 0x5a827999 9,
      sha1_step0 on_abcde sha1_f1 0x5a827999 10,
      sha1_step0 on_eabcd sha1_f1 0x5a827999 11,
      sha1_step0 on_deabc sha1_f1 0x5a827999 12,
      sha1_step0 on_cdeab sha1_f1 0x5a827999 13,
      sha1_step0 on_bcdea sha1_f1 0x5a827999 14,
      sha1_step0 on_abcde sha1_f1 0x5a827999 15,
      sha1_step1 on_eabcd sha1_f1 0x5a827999 0,
      sha1_step1 on_deabc sha1_f1 0x5a827999 1,
      sha1_step1 on_cdeab sha1_f1 0x5a827999 2,
      sha1_step1 on_bcdea sha1_f1 0x5a827999 3]"

definition sha1_part2 :: "(sha1_regs \<Rightarrow> sha1_regs) list" where
  "sha1_part2 =
     [sha1_step1 on_abcde sha1_f2 0x6ed9eba1 4,
      sha1_step1 on_eabcd sha1_f2 0x6ed9eba1 5,
      sha1_step1 on_deabc sha1_f2 0x6ed9eba1 6,
      sha1_step1 on_cdeab sha1_f2 0x6ed9eba1 7,
      sha1_step1 on_bcdea sha1_f2 0x6ed9eba1 8,
      sha1_step1 on_abcde sha1_f2 0x6ed9eba1 9,
      sha1_step1 on_eabcd sha1_f2 0x6ed9eba1 10,
      sha1_step1 on_deabc sha1_f2 0x6ed9eba1 11,
      sha1_step1 on_cdeab sha1_f2 0x6ed9eba1 12,
      sha1_step1 on_bcdea sha1_f2 0x6ed9eba1 13,
      sha1_step1 on_abcde sha1_f2 0x6ed9eba1 14,
      sha1_step1 on_eabcd sha1_f2 0x6ed9eba1 15,
      sha1_step1 on_deabc sha1_f2 0x6ed9eba1 0,
      sha1_step1 on_cdeab sha1_f2 0x6ed9eba1 1,
      sha1_step1 on_bcdea sha1_f2 0x6ed9eba1 2,
      sha1_step1 on_abcde sha1_f2 0x6ed9eba1 3,
      sha1_step1 on_eabcd sha1_f2 0x6ed9eba1 4,
      sha1_step1 on_deabc sha1_f2 0x6ed9eba1 5,
      sha1_step1 on_cdeab sha1_f2 0x6ed9eba1 6,
      sha1_step1 on_bcdea sha1_f2 0x6ed9eba1 7]"

definition sha1_part3 :: "(sha1_regs \<Rightarrow> sha1_regs) list" where
  "sha1_part3 =
     [sha1_step1 on_abcde sha1_f3 0x8f1bbcdc 8,
      sha1_step1 on_eabcd sha1_f3 0x8f1bbcdc 9,
      sha1_step1 on_deabc sha1_f3 0x8f1bbcdc 10,
      sha1_step1 on_cdeab sha1_f3 0x8f1bbcdc 11,
      sha1_step1 on_bcdea sha1_f3 0x8f1bbcdc 12,
      sha1_step1 on_abcde sha1_f3 0x8f1bbcdc 13,
      sha1_step1 on_eabcd sha1_f3 0x8f1bbcdc 14,
      sha1_step1 on_deabc sha1_f3 0x8f1bbcdc 15,
      sha1_step1 on_cdeab sha1_f3 0x8f1bbcdc 0,
      sha1_step1 on_bcdea sha1_f3 0x8f1bbcdc 1,
      sha1_step1 on_abcde sha1_f3 0x8f1bbcdc 2,
      sha1_step1 on_eabcd sha1_f3 0x8f1bbcdc 3,
      sha1_step1 on_deabc sha1_f3 0x8f1bbcdc 4,
      sha1_step1 on_cdeab sha1_f3 0x8f1bbcdc 5,
      sha1_step1 on_bcdea sha1_f3 0x8f1bbcdc 6,
      sha1_step1 on_abcde sha1_f3 0x8f1bbcdc 7,
      sha1_step1 on_eabcd sha1_f3 0x8f1bbcdc 8,
      sha1_step1 on_deabc sha1_f3 0x8f1bbcdc 9,
      sha1_step1 on_cdeab sha1_f3 0x8f1bbcdc 10,
      sha1_step1 on_bcdea sha1_f3 0x8f1bbcdc 11]"

definition sha1_part4 :: "(sha1_regs \<Rightarrow> sha1_regs) list" where
  "sha1_part4 =
     [sha1_step1 on_abcde sha1_f2 0xca62c1d6 12,
      sha1_step1 on_eabcd sha1_f2 0xca62c1d6 13,
      sha1_step1 on_deabc sha1_f2 0xca62c1d6 14,
      sha1_step1 on_cdeab sha1_f2 0xca62c1d6 15,
      sha1_step1 on_bcdea sha1_f2 0xca62c1d6 0,
      sha1_step1 on_abcde sha1_f2 0xca62c1d6 1,
      sha1_step1 on_eabcd sha1_f2 0xca62c1d6 2,
      sha1_step1 on_deabc sha1_f2 0xca62c1d6 3,
      sha1_step1 on_cdeab sha1_f2 0xca62c1d6 4,
      sha1_step1 on_bcdea sha1_f2 0xca62c1d6 5,
      sha1_step1 on_abcde sha1_f2 0xca62c1d6 6,
      sha1_step1 on_eabcd sha1_f2 0xca62c1d6 7,
      sha1_step1 on_deabc sha1_f2 0xca62c1d6 8,
      sha1_step1 on_cdeab sha1_f2 0xca62c1d6 9,
      sha1_step1 on_bcdea sha1_f2 0xca62c1d6 10,
      sha1_step1 on_abcde sha1_f2 0xca62c1d6 11,
      sha1_step1 on_eabcd sha1_f2 0xca62c1d6 12,
      sha1_step1 on_deabc sha1_f2 0xca62c1d6 13,
      sha1_step1 on_cdeab sha1_f2 0xca62c1d6 14,
      sha1_step1 on_bcdea sha1_f2 0xca62c1d6 15]"

definition sha1_transform :: "byte list \<Rightarrow> u32 list \<Rightarrow> u32 list" where
  "sha1_transform inp state =
     (let ((a, b, c, d, e), block) = fold (\<lambda>g. g) (sha1_part1 @ sha1_part2 @ sha1_part3 @ sha1_part4)
             ((state ! 0, state ! 1, state ! 2, state ! 3, state ! 4), bytes_to_word32_be inp)
      in [state ! 0 + a, state ! 1 + b, state ! 2 + c, state ! 3 + d, state ! 4 + e])"

definition sha1_update :: "byte list \<Rightarrow> sha1_context \<Rightarrow> sha1_context" where
  "sha1_update inp c =
     (let used = unat (sha1_count c AND (of_nat block_size - 1));
          (s, b) = update_blocks sha1_transform used inp (sha1_state c, sha1_buff c)
      in c\<lparr>sha1_count := sha1_count c + of_nat (length inp), sha1_state := s, sha1_buff := b\<rparr>)"

definition sha1_final :: "sha1_context \<Rightarrow> byte list" where
  "sha1_final c =
     (let count_temp = put_64_bit_be (push_bit 3 (sha1_count c));
          len = pad_length (unat (sha1_count c AND (of_nat block_size - 1)));
          c = sha1_update (take (len - 8) md5_sha1_padding) c;
          c = sha1_update count_temp c
      in concat (map put_32_bit_be (sha1_state c)))"

definition sha1 :: "byte list \<Rightarrow> byte list" where
  "sha1 input = sha1_final (sha1_update input (sha1_init sha1_context0))"

definition hmac_sha1 :: "byte list \<Rightarrow> byte list \<Rightarrow> byte list" where
  "hmac_sha1 input input_key =
     (let key = overwrite 0 (if length input_key > block_size then sha1 input_key else input_key)
                  (replicate block_size 0);
          key = xor_key key 0x5c5c5c5c;
          ctx1 = sha1_update key (sha1_init sha1_context0);
          key = xor_key key (0x5c5c5c5c XOR 0x36363636);
          ctx2 = sha1_update input (sha1_update key (sha1_init sha1_context0));
          data = sha1_final ctx2;
          ctx1 = sha1_update data ctx1
      in sha1_final ctx1)"

section \<open>FIPS 180\<close>

definition fips180_K :: "nat \<Rightarrow> u32" where
  "fips180_K t = (if t < 20 then 0x5a827999 else if t < 40 then 0x6ed9eba1
     else if t < 60 then 0x8f1bbcdc else 0xca62c1d6)"

definition fips180_fn :: "nat \<Rightarrow> u32 \<Rightarrow> u32 \<Rightarrow> u32 \<Rightarrow> u32" where
  "fips180_fn t x y z =
     (if t < 20 then (x AND y) XOR (NOT x AND z)
      else if 40 \<le> t \<and> t < 60 then (x AND y) XOR (x AND z) XOR (y AND z)
      else x XOR y XOR z)"

text \<open>The schedule: the 16 words of the block, then one word per step.\<close>

fun fips180_W :: "u32 list \<Rightarrow> nat \<Rightarrow> u32" where
  "fips180_W M t = (if t < 16 then M ! t
     else word_rotl 1 (fips180_W M (t - 3) XOR fips180_W M (t - 8) XOR fips180_W M (t - 14)
            XOR fips180_W M (t - 16)))"

declare fips180_W.simps [simp del]

definition fips180_step :: "(nat \<Rightarrow> u32) \<Rightarrow> nat \<Rightarrow> sha1_five \<Rightarrow> sha1_five" where
  "fips180_step W t = (\<lambda>(a, b, c, d, e).
     (word_rotl 5 a + fips180_fn t b c d + e + fips180_K t + W t, a, word_rotl 30 b, c, d))"

definition fips180_compress :: "byte list \<Rightarrow> u32 list \<Rightarrow> u32 list" where
  "fips180_compress block H =
     (let M = map (\<lambda>i. get_32_bit_be (drop (4 * i) block)) [0..<16];
          (a, b, c, d, e) = fold (fips180_step (fips180_W M)) [0..<80] (H ! 0, H ! 1, H ! 2, H ! 3, H ! 4)
      in [H ! 0 + a, H ! 1 + b, H ! 2 + c, H ! 3 + d, H ! 4 + e])"

definition fips180_pad :: "byte list \<Rightarrow> byte list" where
  "fips180_pad m = m @ 0x80 # replicate (pad_zeros (length m)) 0 @ put_64_bit_be (of_nat (8 * length m))"

definition fips180 :: "byte list \<Rightarrow> byte list" where
  "fips180 m = concat (map put_32_bit_be (fold fips180_compress (full_blocks (fips180_pad m))
     [0x67452301, 0xefcdab89, 0x98badcfe, 0x10325476, 0xc3d2e1f0]))"

section \<open>The steps in rotating form\<close>

definition sha1_f :: "nat \<Rightarrow> u32 \<Rightarrow> u32 \<Rightarrow> u32 \<Rightarrow> u32" where
  "sha1_f t = (if t < 20 then sha1_f1 else if 40 \<le> t \<and> t < 60 then sha1_f3 else sha1_f2)"

text \<open>Step \<open>t\<close> on the circular schedule, the registers moving on by one place.\<close>

definition circ_block :: "nat \<Rightarrow> u32 list \<Rightarrow> u32 list" where
  "circ_block t block = (if t < 16 then block else block[t mod 16 := sha1_blk block (t mod 16)])"

definition circ_step :: "nat \<Rightarrow> sha1_regs \<Rightarrow> sha1_regs" where
  "circ_step t = (\<lambda>((a, b, c, d, e), block).
     ((e + (sha1_f t c d b + circ_block t block ! (t mod 16) + fips180_K t + left_rotate a 5),
       a, left_rotate b 30, c, d), circ_block t block))"

definition turn5 :: "(u32 \<Rightarrow> u32 \<Rightarrow> u32 \<Rightarrow> u32) \<Rightarrow> u32 \<Rightarrow> u32 \<Rightarrow> sha1_five \<Rightarrow> sha1_five" where
  "turn5 fn t bi = (\<lambda>(a, b, c, d, e). (e + (fn c d b + bi + t + left_rotate a 5), a, left_rotate b 30, c, d))"

lemma five_steps:
  "on_bcdea (sha1_mix f5 t5 b5) (on_cdeab (sha1_mix f4 t4 b4) (on_deabc (sha1_mix f3 t3 b3)
     (on_eabcd (sha1_mix f2 t2 b2) (on_abcde (sha1_mix f1 t1 b1) r))))
   = turn5 f5 t5 b5 (turn5 f4 t4 b4 (turn5 f3 t3 b3 (turn5 f2 t2 b2 (turn5 f1 t1 b1 r))))"
  by (cases r) (simp add: on_abcde_def on_eabcd_def on_deabc_def on_cdeab_def on_bcdea_def
      sha1_mix_def turn5_def Let_def)

definition gen_step :: "((sha1_five \<Rightarrow> sha1_five) \<Rightarrow> sha1_five \<Rightarrow> sha1_five) \<Rightarrow>
    (u32 \<Rightarrow> u32 \<Rightarrow> u32 \<Rightarrow> u32) \<Rightarrow> u32 \<Rightarrow> (u32 list \<Rightarrow> u32 list) \<Rightarrow> nat \<Rightarrow> sha1_regs \<Rightarrow> sha1_regs" where
  "gen_step on fn k upd i = (\<lambda>(r, block). (on (sha1_mix fn k (upd block ! i)) r, upd block))"

definition gen_turn :: "(u32 \<Rightarrow> u32 \<Rightarrow> u32 \<Rightarrow> u32) \<Rightarrow> u32 \<Rightarrow> (u32 list \<Rightarrow> u32 list) \<Rightarrow> nat \<Rightarrow>
    sha1_regs \<Rightarrow> sha1_regs" where
  "gen_turn fn k upd i = (\<lambda>(r, block). (turn5 fn k (upd block ! i) r, upd block))"

lemma five_gen:
  "gen_step on_bcdea f5 k5 u5 i5 (gen_step on_cdeab f4 k4 u4 i4 (gen_step on_deabc f3 k3 u3 i3
     (gen_step on_eabcd f2 k2 u2 i2 (gen_step on_abcde f1 k1 u1 i1 st))))
   = gen_turn f5 k5 u5 i5 (gen_turn f4 k4 u4 i4 (gen_turn f3 k3 u3 i3
       (gen_turn f2 k2 u2 i2 (gen_turn f1 k1 u1 i1 st))))"
  by (cases st) (simp add: gen_step_def gen_turn_def five_steps)

definition refresh :: "nat \<Rightarrow> u32 list \<Rightarrow> u32 list" where
  "refresh i block = block[i := sha1_blk block i]"

lemma sha1_steps_gen:
  "sha1_step0 on fn k i = gen_step on fn k (\<lambda>block. block) i"
  "sha1_step1 on fn k i = gen_step on fn k (refresh i) i"
  by (auto simp: sha1_step0_def sha1_step1_def gen_step_def refresh_def Let_def)

lemma circ_step_gen:
  "circ_step t = gen_turn (sha1_f t) (fips180_K t) (if t < 16 then \<lambda>block. block else refresh (t mod 16)) (t mod 16)"
  by (auto simp: circ_step_def gen_turn_def turn5_def circ_block_def refresh_def)

lemmas part_simps = sha1_steps_gen five_gen circ_step_gen sha1_f_def fips180_K_def

lemma upt20: "[0..<20] = [0, 1, 2, 3, 4, 5, 6, 7, 8, 9, 10, 11, 12, 13, 14, 15, 16, 17, 18, 19]"
  by (simp add: eval_nat_numeral)

lemma part1: "fold (\<lambda>g. g) sha1_part1 st = fold circ_step [0..<20] st"
  by (simp add: sha1_part1_def part_simps upt20)

lemma part2: "fold (\<lambda>g. g) sha1_part2 st = fold circ_step [20..<40] st"
  by (simp add: sha1_part2_def part_simps upt_conv_Cons)

lemma part3: "fold (\<lambda>g. g) sha1_part3 st = fold circ_step [40..<60] st"
  by (simp add: sha1_part3_def part_simps upt_conv_Cons)

lemma part4: "fold (\<lambda>g. g) sha1_part4 st = fold circ_step [60..<80] st"
  by (simp add: sha1_part4_def part_simps upt_conv_Cons)

lemma upt_parts: "[0..<80] = [0..<20] @ [20..<40] @ [40..<60] @ [60..<(80::nat)]"
  using upt_add_eq_append [of 0 60 20] upt_add_eq_append [of 0 40 20] upt_add_eq_append [of 0 20 20] by simp

lemma sha1_steps_circ:
  "fold (\<lambda>g. g) (sha1_part1 @ sha1_part2 @ sha1_part3 @ sha1_part4) st = fold circ_step [0..<80] st"
  by (simp only: upt_parts fold_append comp_apply part1 part2 part3 part4)

section \<open>The circular schedule\<close>

text \<open>Before step \<open>t\<close> the block holds the last 16 words of the schedule.\<close>

definition window :: "u32 list \<Rightarrow> nat \<Rightarrow> u32 list \<Rightarrow> bool" where
  "window M t block \<longleftrightarrow> length block = 16 \<and>
     (\<forall>s. s < max 16 t \<and> max 16 t \<le> s + 16 \<longrightarrow> block ! (s mod 16) = fips180_W M s)"

lemma window_start: "length M = 16 \<Longrightarrow> window M 0 M"
  by (simp add: window_def fips180_W.simps)

lemma sha1_blk_W:
  assumes "window M t block" "16 \<le> t"
  shows "sha1_blk block (t mod 16) = fips180_W M t"
proof -
  have w: "block ! (s mod 16) = fips180_W M s" if "s < t" "t \<le> s + 16" for s
    using assms that by (simp add: window_def max_def)
  have i: "(t mod 16 + 13) mod 16 = (t - 3) mod 16" "(t mod 16 + 8) mod 16 = (t - 8) mod 16"
    "(t mod 16 + 2) mod 16 = (t - 14) mod 16" "t mod 16 = (t - 16) mod 16"
  proof -
    obtain u where t: "t = u + 16" using assms(2) by (metis le_add_diff_inverse2)
    show "(t mod 16 + 13) mod 16 = (t - 3) mod 16" "(t mod 16 + 8) mod 16 = (t - 8) mod 16"
      "(t mod 16 + 2) mod 16 = (t - 14) mod 16" "t mod 16 = (t - 16) mod 16"
      unfolding t by (simp_all add: mod_simps add.commute [of u])
  qed
  have r: "fips180_W M t = word_rotl 1 (fips180_W M (t - 3) XOR fips180_W M (t - 8)
      XOR fips180_W M (t - 14) XOR fips180_W M (t - 16))"
    using assms(2) by (subst fips180_W.simps) simp
  show ?thesis
    using w [of "t - 3"] w [of "t - 8"] w [of "t - 14"] w [of "t - 16"] assms(2)
    unfolding sha1_blk_def i(1-3) r by (simp add: left_rotate_rotl i(4) [symmetric])
qed

lemma window_step:
  assumes w: "window M t block"
  shows "window M (Suc t) (circ_block t block)" "circ_block t block ! (t mod 16) = fips180_W M t"
proof -
  have len: "length block = 16" using w by (simp add: window_def)
  show new: "circ_block t block ! (t mod 16) = fips180_W M t"
  proof (cases "t < 16")
    case True
    then show ?thesis using w by (simp add: circ_block_def window_def)
  next
    case False
    then show ?thesis using sha1_blk_W [OF w] len by (simp add: circ_block_def)
  qed
  show "window M (Suc t) (circ_block t block)"
  proof (cases "t < 16")
    case True
    then show ?thesis using w by (simp add: circ_block_def window_def max_def)
  next
    case False
    have "circ_block t block ! (s mod 16) = fips180_W M s" if s: "s < Suc t" "Suc t \<le> s + 16" for s
    proof (cases "s = t")
      case False
      then have "t mod 16 \<noteq> s mod 16" 
        using s mod_eq_dvd_iff_nat [of s t 16] dvd_imp_le [of 16 "t - s"] by auto
      moreover have "block ! (s mod 16) = fips180_W M s"
        using w s False \<open>\<not> t < 16\<close> by (simp add: window_def max_def)
      ultimately show ?thesis using \<open>\<not> t < 16\<close> by (simp add: circ_block_def)
    qed (simp add: new)
    then show ?thesis using False len by (simp add: window_def max_def circ_block_def)
  qed
qed

lemma sha1_f_fips: "sha1_f t c d b = fips180_fn t b c d"
  by (rule bit_word_eqI) (auto simp: sha1_f_def fips180_fn_def sha1_f1_def sha1_f2_def sha1_f3_def bit_simps)

lemma circ_fips:
  assumes "length M = 16"
  shows "\<exists>block. fold circ_step [0..<n] (r, M) = (fold (fips180_step (fips180_W M)) [0..<n] r, block)
     \<and> window M n block"
proof (induction n)
  case 0
  then show ?case using window_start [OF assms] by simp
next
  case (Suc n)
  then obtain block where b: "fold circ_step [0..<n] (r, M) = (fold (fips180_step (fips180_W M)) [0..<n] r, block)"
      "window M n block" by blast
  obtain a b c d e where r: "fold (fips180_step (fips180_W M)) [0..<n] r = (a, b, c, d, e)" by (metis prod.exhaust)
  have "fold circ_step [0..<Suc n] (r, M)
      = (fold (fips180_step (fips180_W M)) [0..<Suc n] r, circ_block n block)"
    using b(1) window_step(2) [OF b(2)]
    by (simp add: r circ_step_def fips180_step_def sha1_f_fips left_rotate_rotl ac_simps)
  then show ?case using window_step(1) [OF b(2)] by blast
qed

lemma sha1_transform_fips: "sha1_transform = fips180_compress"
proof (intro ext)
  fix inp state
  let ?M = "bytes_to_word32_be inp"
  have M: "length ?M = 16" "?M = map (\<lambda>i. get_32_bit_be (drop (4 * i) inp)) [0..<16]"
    by (simp_all add: bytes_to_word32_be_def mult.commute)
  obtain block where b: "fold circ_step [0..<80] ((state ! 0, state ! 1, state ! 2, state ! 3, state ! 4), ?M)
      = (fold (fips180_step (fips180_W ?M)) [0..<80] (state ! 0, state ! 1, state ! 2, state ! 3, state ! 4), block)"
    using circ_fips [OF M(1)] by blast
  show "sha1_transform inp state = fips180_compress inp state"
    unfolding sha1_transform_def fips180_compress_def sha1_steps_circ b M(2) [symmetric] Let_def
    by (simp only: split_beta fst_conv snd_conv)
qed

section \<open>Absorbing a message\<close>

definition sha1_iv :: "u32 list" where
  "sha1_iv = [0x67452301, 0xefcdab89, 0x98badcfe, 0x10325476, 0xc3d2e1f0]"

definition sha1_absorbed :: "sha1_context \<Rightarrow> byte list \<Rightarrow> bool" where
  "sha1_absorbed c m \<longleftrightarrow> buffered sha1_transform m sha1_iv (sha1_state c, sha1_buff c)
     \<and> sha1_count c = of_nat (length m)"

lemma bytes_to_used: "unat ((of_nat n :: u64) AND (of_nat 64 - 1)) = n mod 64"
proof -
  have "(of_nat 64 - 1 :: u64) = mask 6" by (simp add: mask_eq_exp_minus_1)
  then have "unat ((of_nat n :: u64) AND (of_nat 64 - 1)) = take_bit 6 (unat (of_nat n :: u64))"
    by (simp only: take_bit_eq_mask [symmetric] unsigned_take_bit_eq)
  also have "\<dots> = n mod 2 ^ 64 mod 64" by (simp add: take_bit_eq_mod unat_of_nat)
  finally show ?thesis by (simp add: mod_mod_cancel)
qed

lemma sha1_absorbed_update: "sha1_absorbed c m \<Longrightarrow> sha1_absorbed (sha1_update bs c) (m @ bs)"
proof -
  assume c: "sha1_absorbed c m"
  let ?r = "update_blocks sha1_transform (length m mod block_size) bs (sha1_state c, sha1_buff c)"
  have "buffered sha1_transform (m @ bs) sha1_iv ?r"
    using c by (intro update_blocks_buffered) (simp_all add: sha1_absorbed_def)
  moreover have "sha1_update bs c = c\<lparr>sha1_count := sha1_count c + of_nat (length bs),
      sha1_state := fst ?r, sha1_buff := snd ?r\<rparr>"
    using c by (simp only: sha1_update_def sha1_absorbed_def bytes_to_used Let_def split_beta)
  ultimately show ?thesis using c by (simp add: sha1_absorbed_def)
qed

lemma sha1_absorbed_init: "sha1_absorbed (sha1_init sha1_context0) []"
  by (simp add: sha1_absorbed_def buffered_def sha1_init_def sha1_context0_def sha1_iv_def full_blocks_short rest_short)

lemma sha1_final_fips: "sha1_absorbed c m \<Longrightarrow> sha1_final c = fips180 m"
proof -
  assume c: "sha1_absorbed c m"
  let ?p = "0x80 # replicate (pad_zeros (length m)) 0" and ?l = "put_64_bit_be (of_nat (8 * length m))"
  let ?c = "sha1_update ?l (sha1_update ?p c)"
  have n: "sha1_count c = of_nat (length m)" using c by (simp add: sha1_absorbed_def)
  have b: "push_bit 3 (of_nat (length m) :: u64) = of_nat (8 * length m)" by (simp add: push_bit_eq_mult)
  have "sha1_final c = concat (map put_32_bit_be (sha1_state ?c))"
    unfolding sha1_final_def n b bytes_to_used padding_taken Let_def ..
  moreover have "sha1_absorbed ?c (fips180_pad m)"
    using sha1_absorbed_update [OF sha1_absorbed_update [OF c], of ?l ?p] by (simp add: fips180_pad_def)
  ultimately show ?thesis
    by (simp add: sha1_absorbed_def buffered_def fips180_def sha1_iv_def sha1_transform_fips)
qed

interpretation sha1h: incremental_hash "sha1_init sha1_context0" sha1_update sha1_final sha1_absorbed fips180
  by unfold_locales (fact sha1_absorbed_init sha1_absorbed_update sha1_final_fips)+

section \<open>Properties\<close>

text \<open>C37: The digest is the one of FIPS 180, whatever way the message is cut into pieces: the 80 steps on a
  circular schedule of 16 words, overwritten in place, compute the loop of the standard over its schedule of
  80 words, and the buffered contexts compute it over the padded concatenation of the pieces.\<close>

theorem sha1_chunks_fips180:
  "sha1_final (fold sha1_update chunks (sha1_init sha1_context0)) = fips180 (concat chunks)
   \<and> sha1 input = fips180 input"
  using sha1h.hash_chunks [of chunks] sha1h.hash_chunks [of "[input]"] by (simp add: sha1_def)

lemma length_fips180: "length (fips180 m) = 20"
proof -
  have "length (fold fips180_compress bs H) = 5" if "length H = 5" for bs H
    using that by (induction bs arbitrary: H) (simp_all add: fips180_compress_def Let_def split_beta)
  then show ?thesis unfolding fips180_def
    by (subst length_concat_const [where k = 4]) simp_all
qed

lemma sha1_key_length: "length (if length key > block_size then fips180 key else key) \<le> block_size"
  by (simp add: length_fips180)

text \<open>The keyed hash is HMAC of RFC 2104 over the reference digest, for every key and text.\<close>

theorem hmac_sha1_rfc2104: "hmac_sha1 input input_key = rfc2104 fips180 input_key input"
proof -
  have sha1: "sha1 m = fips180 m" for m using sha1h.hash_chunks [of "[m]"] by (simp add: sha1_def)
  have key: "overwrite 0 (if length input_key > block_size then sha1 input_key else input_key)
      (replicate block_size 0) = key_block fips180 input_key"
    unfolding sha1 key_block_overwrite [OF sha1_key_length] by (simp add: key_block_def Let_def)
  have len: "length (key_block fips180 input_key) mod 4 = 0"
    using sha1_key_length [of input_key] by (simp add: key_block_def Let_def)
  note x = key_paddings [OF len]
  show ?thesis
    unfolding hmac_sha1_def Let_def key x sha1h.hash_keyed by (simp add: rfc2104_def)
qed

text \<open>\<open>sha1_context::init\<close> does not reset the byte count: a context that absorbed fewer than 64 bytes
  and is initialised again still holds them, so what it hashes next gets the digest of those bytes
  followed by the new message.\<close>

theorem sha1_init_keeps_old_input:
  assumes "length old < block_size"
  shows "sha1_final (fold sha1_update chunks (sha1_init (sha1_update old (sha1_init sha1_context0))))
     = fips180 (old @ concat chunks)"
proof -
  have "sha1_absorbed (sha1_update old (sha1_init sha1_context0)) old"
    using sha1_absorbed_update [OF sha1_absorbed_init, of old] by simp
  then have "sha1_absorbed (sha1_init (sha1_update old (sha1_init sha1_context0))) old"
    using assms by (simp add: sha1_absorbed_def buffered_def full_blocks_short sha1_init_def sha1_iv_def)
  then show ?thesis by (rule sha1h.final_law [OF sha1h.absorbed_chunks])
qed

theorem sha1_init_keeps_old_input_witness:
  "sha1_final (sha1_update [2] (sha1_init (sha1_update [1] (sha1_init sha1_context0)))) = fips180 [1, 2]"
  using sha1_init_keeps_old_input [of "[1]" "[[2]]"] by simp

end
