(* ===== verification/Net_Stream.thy ===== *)
theory Net_Stream
  imports Prelude
begin

text \<open>
  One socket of \<open>network\<close> as a reading coroutine sees it (\<open>runtime/src/coro/network.cpp\<close>):
  \<open>network_data\<close>, the awaiter, and \<open>read\<close>, \<open>read_size\<close>, \<open>read_until\<close>.  What the socket thread posts to
  the scheduler for this socket is a list of events; suspending takes the next one.  The receive buffer is
  represented by its readable bytes, which is what \<open>Buffer\<close> proves of \<open>memory_buffer\<close>.
\<close>

section \<open>Error codes\<close>

datatype socket_errors = Kcp_check_failed | Kcp_heartbeat_timeout | Kcp_protocol_error | Initiative_disconnect

datatype coro_errors = Canceled | Broken_promise | Invalid_action

text \<open>\<open>No_error\<close> is the default \<open>std::error_code\<close>; \<open>Asio_eof\<close> is \<open>asio::error::eof\<close>; other codes of asio
  and of the system keep their value.\<close>

datatype error_code = No_error | Asio_eof | Socket_error socket_errors | Coro_error coro_errors | Other_error int

text \<open>\<open>make_error_code\<close> casts the enumerator to \<open>int\<close>, and \<open>error_code::operator bool\<close> tests it
  against zero; \<open>asio::error::eof\<close> is not zero.\<close>

fun socket_errors_value :: "socket_errors \<Rightarrow> int" where
  "socket_errors_value Kcp_check_failed = 0"
| "socket_errors_value Kcp_heartbeat_timeout = 1"
| "socket_errors_value Kcp_protocol_error = 2"
| "socket_errors_value Initiative_disconnect = 3"

fun coro_errors_value :: "coro_errors \<Rightarrow> int" where
  "coro_errors_value Canceled = 0"
| "coro_errors_value Broken_promise = 1"
| "coro_errors_value Invalid_action = 2"

fun ec_true :: "error_code \<Rightarrow> bool" where
  "ec_true No_error = False"
| "ec_true Asio_eof = True"
| "ec_true (Socket_error e) = (socket_errors_value e \<noteq> 0)"
| "ec_true (Coro_error e) = (coro_errors_value e \<noteq> 0)"
| "ec_true (Other_error v) = (v \<noteq> 0)"

datatype exn = System_error error_code | Logic_error string

section \<open>A socket and its awaiter\<close>

datatype socket_class = Server | Session | Client | Unknown_class

definition get_socket_class :: "u32 \<Rightarrow> socket_class" where
  "get_socket_class sid = (let c = sid AND 3
     in if c = 1 then Server else if c = 2 then Session else if c = 3 then Client else Unknown_class)"

type_synonym coro = nat

record network_data =
  nd_id :: u32
  nd_ec :: error_code
  nd_buf :: "byte list"
  nd_accepted :: "u32 list"
  nd_handle :: "coro option"
  nd_local :: "byte list"
  nd_remote :: "byte list"

datatype sock_event = Data "byte list" | Stop error_code | Cancel_request

text \<open>\<open>s_open\<close>: the socket is still in the map of \<open>network\<close>; only then do packets reach it.
  \<open>s_canceled\<close>: cancellation has been requested from the token of the reading coroutine.\<close>

record sock =
  s_data :: network_data
  s_open :: bool
  s_canceled :: bool
  s_events :: "sock_event list"

datatype 'a outcome = Done 'a sock | Throw exn sock | Suspended sock

definition bind_out :: "'a outcome \<Rightarrow> ('a \<Rightarrow> sock \<Rightarrow> 'b outcome) \<Rightarrow> 'b outcome" where
  "bind_out m f = (case m of Done x s \<Rightarrow> f x s | Throw e s \<Rightarrow> Throw e s | Suspended s \<Rightarrow> Suspended s)"

lemma bind_out_simps [simp]:
  "bind_out (Done x s) f = f x s" "bind_out (Throw e s) f = Throw e s" "bind_out (Suspended s) f = Suspended s"
  by (simp_all add: bind_out_def)

text \<open>What a posted event does to the socket while it is in the map (\<open>hand_read\<close>, \<open>hand_stop\<close>, the
  callback of the cancellation registration).\<close>

fun deliver :: "sock_event \<Rightarrow> sock \<Rightarrow> sock" where
  "deliver (Data bs) s = s\<lparr>s_data := (s_data s)\<lparr>nd_buf := nd_buf (s_data s) @ bs\<rparr>\<rparr>"
| "deliver (Stop ec) s = s\<lparr>s_data := (s_data s)\<lparr>nd_ec := ec\<rparr>, s_open := False\<rparr>"
| "deliver Cancel_request s = s\<lparr>s_canceled := True, s_open := False\<rparr>"

text \<open>A socket that left the map is woken by a cancellation only.\<close>

fun next_event :: "bool \<Rightarrow> sock_event list \<Rightarrow> (sock_event \<times> sock_event list) option" where
  "next_event is_open [] = None"
| "next_event is_open (e # es) = (if is_open \<or> e = Cancel_request then Some (e, es) else next_event is_open es)"

definition await_suspend :: "coro \<Rightarrow> bool \<Rightarrow> network_data \<Rightarrow> network_data option" where
  "await_suspend h canceled d =
     (if nd_handle d \<noteq> None \<or> canceled then None else Some (d\<lparr>nd_handle := Some h\<rparr>))"

definition await_resume :: "coro \<Rightarrow> bool \<Rightarrow> network_data \<Rightarrow> exn + network_data" where
  "await_resume h canceled d =
     (if canceled then Inl (System_error (Coro_error Canceled))
      else if nd_handle d \<noteq> Some h then Inl (System_error (Coro_error Invalid_action))
      else if ec_true (nd_ec d) \<and> nd_ec d \<noteq> Asio_eof then Inl (System_error (nd_ec d))
      else Inr (d\<lparr>nd_handle := None\<rparr>))"

definition co_resume :: "coro \<Rightarrow> sock \<Rightarrow> unit outcome" where
  "co_resume h s = (case await_resume h (s_canceled s) (s_data s) of
     Inl e \<Rightarrow> Throw e s | Inr d \<Rightarrow> Done () (s\<lparr>s_data := d\<rparr>))"

definition co_await :: "coro \<Rightarrow> sock \<Rightarrow> unit outcome" where
  "co_await h s =
     (case await_suspend h (s_canceled s) (s_data s) of
        None \<Rightarrow> co_resume h s
      | Some d \<Rightarrow>
          (case next_event (s_open s) (s_events s) of
             None \<Rightarrow> Suspended (s\<lparr>s_data := d\<rparr>)
           | Some (e, es) \<Rightarrow> co_resume h (deliver e (s\<lparr>s_data := d, s_events := es\<rparr>))))"

section \<open>Reading\<close>

definition invalid_action :: exn where
  "invalid_action = System_error (Coro_error Invalid_action)"

definition readable_socket :: "sock \<Rightarrow> bool" where
  "readable_socket s \<longleftrightarrow> get_socket_class (nd_id (s_data s)) \<noteq> Server \<and> s_open s"

definition take_bytes :: "nat \<Rightarrow> sock \<Rightarrow> byte list outcome" where
  "take_bytes n s = (let d = s_data s
     in Done (take n (nd_buf d)) (s\<lparr>s_data := d\<lparr>nd_buf := drop n (nd_buf d)\<rparr>\<rparr>))"

text \<open>The byte counts the coroutines return are the lengths of the bytes here; none is the value 0 with
  which they report the end of the stream.\<close>

definition net_read :: "coro \<Rightarrow> nat \<Rightarrow> sock \<Rightarrow> byte list outcome" where
  "net_read h sz s =
     (if \<not> readable_socket s then Throw invalid_action s
      else bind_out (if nd_buf (s_data s) = [] then co_await h s else Done () s)
        (\<lambda>_ s'. if nd_buf (s_data s) = [] \<and> ec_true (nd_ec (s_data s')) then Done [] s'
                else take_bytes (min (length (nd_buf (s_data s'))) sz) s'))"

lemma next_event_shorter: "next_event p es = Some (e, es') \<Longrightarrow> length es' < length es"
  by (induction es) (auto split: if_splits)

lemma deliver_events [simp]: "s_events (deliver e s) = s_events s"
  by (cases e) simp_all

definition waits_left :: "sock \<Rightarrow> nat" where
  "waits_left s = 2 * length (s_events s) + (if nd_handle (s_data s) = None then 0 else 1)"

lemma co_resume_Done: "co_resume h s = Done x s' \<Longrightarrow> s_events s' = s_events s \<and> nd_handle (s_data s) = Some h
    \<and> \<not> s_canceled s \<and> nd_handle (s_data s') = None"
  by (auto simp: co_resume_def await_resume_def split: sum.splits if_splits)

lemma co_await_fewer: "co_await h s = Done x s' \<Longrightarrow> waits_left s' < waits_left s"
  unfolding co_await_def waits_left_def
  by (auto split: option.splits dest!: co_resume_Done next_event_shorter
      simp: await_suspend_def split: if_splits)

function read_size_loop :: "coro \<Rightarrow> nat \<Rightarrow> sock \<Rightarrow> byte list outcome" where
  "read_size_loop h sz s =
     (if length (nd_buf (s_data s)) < sz
      then (case co_await h s of
              Done _ s' \<Rightarrow> if ec_true (nd_ec (s_data s')) then Done [] s' else read_size_loop h sz s'
            | Throw e s' \<Rightarrow> Throw e s' | Suspended s' \<Rightarrow> Suspended s')
      else take_bytes sz s)"
  by pat_completeness auto
termination
  by (relation "measure (\<lambda>(h, sz, s). waits_left s)") (auto dest: co_await_fewer)

declare read_size_loop.simps [simp del]

definition net_read_size :: "coro \<Rightarrow> nat \<Rightarrow> sock \<Rightarrow> byte list outcome" where
  "net_read_size h sz s =
     (if \<not> readable_socket s then Throw invalid_action s else read_size_loop h sz s)"

text \<open>\<open>std::string_view::find\<close>.\<close>

fun find_sub :: "'a list \<Rightarrow> 'a list \<Rightarrow> nat option" where
  "find_sub pat xs = (if take (length pat) xs = pat then Some 0
     else case xs of [] \<Rightarrow> None | _ # xs' \<Rightarrow> map_option Suc (find_sub pat xs'))"

declare find_sub.simps [simp del]

function read_until_loop :: "coro \<Rightarrow> byte list \<Rightarrow> byte list \<Rightarrow> sock \<Rightarrow> (nat \<times> byte list) outcome" where
  "read_until_loop h end buf s =
     (let strv = nd_buf (s_data s)
      in case find_sub end strv of
           Some pos \<Rightarrow>
             bind_out (take_bytes (pos + length end) s) (\<lambda>bs s. Done (length (buf @ bs), buf @ bs) s)
         | None \<Rightarrow>
             (let len = (if length strv \<ge> length end then length strv - length end + 1 else 0);
                  buf = buf @ take len strv;
                  s = s\<lparr>s_data := (s_data s)\<lparr>nd_buf := drop len strv\<rparr>\<rparr>
              in case co_await h s of
                   Done _ s' \<Rightarrow> if ec_true (nd_ec (s_data s')) then Done (0, buf) s' else read_until_loop h end buf s'
                 | Throw e s' \<Rightarrow> Throw e s' | Suspended s' \<Rightarrow> Suspended s'))"
  by pat_completeness auto
termination
  by (relation "measure (\<lambda>(h, e, buf, s). waits_left s)")
    (auto dest!: co_await_fewer simp: waits_left_def split: if_splits)

declare read_until_loop.simps [simp del]

definition net_read_until :: "coro \<Rightarrow> byte list \<Rightarrow> byte list \<Rightarrow> sock \<Rightarrow> (nat \<times> byte list) outcome" where
  "net_read_until h end buf s =
     (if end = [] then Throw invalid_action s
      else if \<not> readable_socket s then Throw invalid_action s
      else read_until_loop h end buf s)"

section \<open>Substrings\<close>

lemma find_sub_Nil: "find_sub pat [] = (if pat = [] then Some 0 else None)"
  by (simp add: find_sub.simps)

lemma find_sub_Cons:
  "find_sub pat (x # xs) = (if take (length pat) (x # xs) = pat then Some 0 else map_option Suc (find_sub pat xs))"
  by (simp add: find_sub.simps [of pat "x # xs"])

lemma find_sub_Some: "find_sub pat xs = Some i \<Longrightarrow> i + length pat \<le> length xs \<and> take (length pat) (drop i xs) = pat"
proof (induction xs arbitrary: i)
  case (Cons x xs)
  show ?case
  proof (cases "take (length pat) (x # xs) = pat")
    case True
    then have "i = 0" using Cons.prems by (simp add: find_sub_Cons)
    moreover have "length pat \<le> length (x # xs)" using True by (metis length_take min.cobounded1 min.commute)
    ultimately show ?thesis using True by simp
  next
    case False
    then show ?thesis using Cons by (auto simp: find_sub_Cons)
  qed
qed (auto simp: find_sub_Nil split: if_splits)

lemma find_sub_None: "find_sub pat xs = None \<longleftrightarrow> (\<forall>i \<le> length xs. take (length pat) (drop i xs) \<noteq> pat)"
proof (induction xs)
  case (Cons x xs)
  show ?case
  proof
    assume n: "find_sub pat (x # xs) = None"
    show "\<forall>i \<le> length (x # xs). take (length pat) (drop i (x # xs)) \<noteq> pat"
    proof (intro allI impI)
      fix i assume "i \<le> length (x # xs)"
      then show "take (length pat) (drop i (x # xs)) \<noteq> pat"
        using n Cons by (cases i) (auto simp: find_sub_Cons split: if_splits)
    qed
  next
    assume a: "\<forall>i \<le> length (x # xs). take (length pat) (drop i (x # xs)) \<noteq> pat"
    have "take (length pat) (x # xs) \<noteq> pat" using a [rule_format, of 0] by simp
    moreover have "find_sub pat xs = None" unfolding Cons
    proof (intro allI impI)
      fix i assume "i \<le> length xs"
      then show "take (length pat) (drop i xs) \<noteq> pat" using a [rule_format, of "Suc i"] by simp
    qed
    ultimately show "find_sub pat (x # xs) = None" by (simp add: find_sub_Cons)
  qed
qed (simp add: find_sub_Nil)

lemma find_sub_append: "find_sub pat xs = Some i \<Longrightarrow> find_sub pat (xs @ ys) = Some i"
proof (induction xs arbitrary: i)
  case Nil
  then show ?case by (cases ys) (auto simp: find_sub_Nil find_sub_Cons split: if_splits)
next
  case (Cons x xs)
  have "take (length pat) (x # xs) = pat \<Longrightarrow> take (length pat) (x # xs @ ys) = pat"
    using find_sub_Some [of pat "x # xs" 0] by (simp add: find_sub_Cons take_Cons split: nat.splits)
  moreover have "take (length pat) (x # xs @ ys) = pat \<Longrightarrow> length pat \<le> length (x # xs) \<Longrightarrow> take (length pat) (x # xs) = pat"
    by (simp add: take_Cons split: nat.splits)
  ultimately show ?case
    using Cons find_sub_Some [OF Cons.prems] by (auto simp: find_sub_Cons split: if_splits)
qed

lemma find_sub_drop: "find_sub pat xs = Some i \<Longrightarrow> k \<le> i \<Longrightarrow> find_sub pat (drop k xs) = Some (i - k)"
proof (induction k arbitrary: xs i)
  case (Suc k)
  then obtain x xs' where xs: "xs = x # xs'" by (cases xs) (auto simp: find_sub_Nil split: if_splits)
  then show ?case using Suc by (auto simp: find_sub_Cons split: if_splits)
qed simp

lemma find_sub_beyond:
  assumes "find_sub pat xs = None" "find_sub pat (xs @ ys) = Some i"
  shows "length xs < i + length pat"
proof (rule ccontr)
  assume "\<not> length xs < i + length pat"
  then have "take (length pat) (drop i xs) = pat" "i \<le> length xs"
    using find_sub_Some [OF assms(2)] by auto
  then show False using assms(1) find_sub_None by blast
qed

lemma find_sub_here:
  assumes "\<And>k. k < length pre \<Longrightarrow> take (length pat) (drop k (pre @ pat @ post)) \<noteq> pat"
  shows "find_sub pat (pre @ pat @ post) = Some (length pre)"
  using assms
proof (induction pre)
  case Nil
  then show ?case by (simp add: find_sub.simps [of pat "pat @ post"])
next
  case (Cons x pre)
  have "take (length pat) (x # pre @ pat @ post) \<noteq> pat" using Cons.prems [of 0] by simp
  moreover have "find_sub pat (pre @ pat @ post) = Some (length pre)"
  proof (rule Cons.IH)
    fix k assume "k < length pre"
    then show "take (length pat) (drop k (pre @ pat @ post)) \<noteq> pat" using Cons.prems [of "Suc k"] by simp
  qed
  ultimately show ?case by (simp add: find_sub_Cons)
qed

section \<open>The byte stream of a socket\<close>

text \<open>A socket that only receives packets: what it will have received, in order.\<close>

fun is_data :: "sock_event \<Rightarrow> bool" where
  "is_data (Data bs) = True"
| "is_data _ = False"

fun event_bytes :: "sock_event \<Rightarrow> byte list" where
  "event_bytes (Data bs) = bs"
| "event_bytes _ = []"

definition feeding :: "sock \<Rightarrow> bool" where
  "feeding s \<longleftrightarrow> readable_socket s \<and> \<not> s_canceled s \<and> nd_handle (s_data s) = None
     \<and> nd_ec (s_data s) = No_error \<and> list_all is_data (s_events s)"

definition stream :: "sock \<Rightarrow> byte list" where
  "stream s = nd_buf (s_data s) @ concat (map event_bytes (s_events s))"

definition fed :: "sock \<Rightarrow> byte list \<Rightarrow> bool" where
  "fed s bs \<longleftrightarrow> feeding s \<and> stream s = bs"

lemma feeding_co_await:
  assumes f: "feeding s"
  shows "(s_events s = [] \<and> co_await h s = Suspended (s\<lparr>s_data := (s_data s)\<lparr>nd_handle := Some h\<rparr>\<rparr>))
    \<or> (\<exists>bs es. s_events s = Data bs # es \<and>
        co_await h s = Done () (s\<lparr>s_data := (s_data s)\<lparr>nd_buf := nd_buf (s_data s) @ bs, nd_handle := None\<rparr>,
                                 s_events := es\<rparr>))"
proof (cases "s_events s")
  case Nil
  then show ?thesis using f by (simp add: feeding_def co_await_def await_suspend_def)
next
  case (Cons e es)
  then obtain bs where e: "e = Data bs" using f by (cases e) (auto simp: feeding_def)
  have "s_open s" using f by (simp add: feeding_def readable_socket_def)
  then show ?thesis using f Cons e
    by (simp add: feeding_def co_await_def await_suspend_def co_resume_def await_resume_def)
qed

lemma feeding_step:
  assumes "feeding s" "s_events s = Data bs # es"
  shows "feeding (s\<lparr>s_data := (s_data s)\<lparr>nd_buf := nd_buf (s_data s) @ bs, nd_handle := None\<rparr>, s_events := es\<rparr>)"
    "stream (s\<lparr>s_data := (s_data s)\<lparr>nd_buf := nd_buf (s_data s) @ bs, nd_handle := None\<rparr>, s_events := es\<rparr>) = stream s"
  using assms by (simp_all add: feeding_def stream_def readable_socket_def)

lemma take_bytes_fed:
  "feeding s \<Longrightarrow> n \<le> length (nd_buf (s_data s)) \<Longrightarrow>
   \<exists>s'. take_bytes n s = Done (take n (stream s)) s' \<and> fed s' (drop n (stream s))"
  by (simp add: take_bytes_def fed_def feeding_def stream_def readable_socket_def Let_def)

lemma read_size_loop_fed:
  "feeding s \<Longrightarrow> n \<le> length (stream s) \<Longrightarrow>
   \<exists>s'. read_size_loop h n s = Done (take n (stream s)) s' \<and> fed s' (drop n (stream s))"
proof (induction "length (s_events s)" arbitrary: s)
  case 0
  then show ?case using take_bytes_fed [of s n] by (subst read_size_loop.simps) (simp add: stream_def)
next
  case (Suc k)
  show ?case
  proof (cases "length (nd_buf (s_data s)) < n")
    case False
    then show ?thesis using take_bytes_fed [of s n] Suc.prems by (subst read_size_loop.simps) simp
  next
    case True
    obtain bs es where e: "s_events s = Data bs # es"
        "co_await h s = Done () (s\<lparr>s_data := (s_data s)\<lparr>nd_buf := nd_buf (s_data s) @ bs, nd_handle := None\<rparr>, s_events := es\<rparr>)"
      using feeding_co_await [OF Suc.prems(1), of h] Suc.hyps(2) by auto
    let ?s = "s\<lparr>s_data := (s_data s)\<lparr>nd_buf := nd_buf (s_data s) @ bs, nd_handle := None\<rparr>, s_events := es\<rparr>"
    note st = feeding_step [OF Suc.prems(1) e(1)]
    have "read_size_loop h n s = read_size_loop h n ?s"
      using True e(2) Suc.prems(1) by (subst read_size_loop.simps) (simp add: feeding_def)
    moreover have "k = length (s_events ?s)" using Suc.hyps(2) e(1) by simp
    ultimately show ?thesis using Suc.hyps(1) [of ?s] st Suc.prems(2) by metis
  qed
qed

lemma net_read_size_fed:
  "fed s xs \<Longrightarrow> n \<le> length xs \<Longrightarrow>
   \<exists>s'. net_read_size h n s = Done (take n xs) s' \<and> fed s' (drop n xs)"
  using read_size_loop_fed [of s n h] by (auto simp: net_read_size_def fed_def feeding_def)

lemma fed_append_read_size:
  "fed s (bs @ rest) \<Longrightarrow> length bs = n \<Longrightarrow> \<exists>s'. net_read_size h n s = Done bs s' \<and> fed s' rest"
  using net_read_size_fed [of s "bs @ rest" n h] by auto

lemma read_until_loop_fed:
  "feeding s \<Longrightarrow> pat \<noteq> [] \<Longrightarrow> find_sub pat (stream s) = Some i \<Longrightarrow>
   \<exists>s'. read_until_loop h pat buf s = Done (length buf + i + length pat, buf @ take (i + length pat) (stream s)) s'
     \<and> fed s' (drop (i + length pat) (stream s))"
proof (induction "length (s_events s)" arbitrary: s i buf rule: less_induct)
  case less
  let ?b = "nd_buf (s_data s)"
  have le: "i + length pat \<le> length (stream s)" using find_sub_Some [OF less.prems(3)] by simp
  show ?case
  proof (cases "find_sub pat ?b")
    case (Some pos)
    then have "pos = i" using less.prems(3) find_sub_append [OF Some] by (simp add: stream_def)
    moreover have "pos + length pat \<le> length ?b" using find_sub_Some [OF Some] by simp
    ultimately obtain s' where "take_bytes (i + length pat) s = Done (take (i + length pat) (stream s)) s'"
        "fed s' (drop (i + length pat) (stream s))"
      using take_bytes_fed [OF less.prems(1)] by blast
    then show ?thesis using Some \<open>pos = i\<close> le by (subst read_until_loop.simps) (simp add: Let_def)
  next
    case None
    let ?len = "if length ?b \<ge> length pat then length ?b - length pat + 1 else 0"
    let ?s = "s\<lparr>s_data := (s_data s)\<lparr>nd_buf := drop ?len ?b\<rparr>\<rparr>"
    have beyond: "?len \<le> i" "?len \<le> length ?b"
    proof -
      obtain m where m: "length pat = Suc m" using less.prems(2) by (cases pat) auto
      have "length ?b < i + length pat"
        using find_sub_beyond [OF None] less.prems(3) by (auto simp: stream_def)
      with m show "?len \<le> i" "?len \<le> length ?b" by auto
    qed
    have fs: "feeding ?s" "stream ?s = drop ?len (stream s)"
      using less.prems(1) beyond(2) by (simp_all add: feeding_def stream_def readable_socket_def)
    have fi: "find_sub pat (stream ?s) = Some (i - ?len)"
      using find_sub_drop [OF less.prems(3) beyond(1)] fs(2) by simp
    have "s_events ?s \<noteq> []" using None less.prems(3) by (auto simp: stream_def)
    then obtain bs es where e: "s_events ?s = Data bs # es"
        "co_await h ?s = Done () (?s\<lparr>s_data := (s_data ?s)\<lparr>nd_buf := nd_buf (s_data ?s) @ bs, nd_handle := None\<rparr>, s_events := es\<rparr>)"
      using feeding_co_await [OF fs(1), of h] by auto
    let ?t = "?s\<lparr>s_data := (s_data ?s)\<lparr>nd_buf := nd_buf (s_data ?s) @ bs, nd_handle := None\<rparr>, s_events := es\<rparr>"
    note st = feeding_step [OF fs(1) e(1)]
    have step: "read_until_loop h pat buf s = read_until_loop h pat (buf @ take ?len ?b) ?t"
      using None e(2) less.prems(1) by (subst read_until_loop.simps) (simp add: Let_def feeding_def)
    have len: "take ?len ?b = take ?len (stream s)" using beyond(2) by (simp add: stream_def)
    have str: "stream ?t = drop ?len (stream s)" using st(2) fs(2) by simp
    have "length (s_events ?t) < length (s_events s)" using e(1) by simp
    then obtain s' where r: "read_until_loop h pat buf s = Done (length (buf @ take ?len (stream s)) + (i - ?len) + length pat,
          (buf @ take ?len (stream s)) @ take (i - ?len + length pat) (drop ?len (stream s))) s'"
        "fed s' (drop (i - ?len + length pat) (drop ?len (stream s)))"
      using less.hyps [of ?t "i - ?len" "buf @ take ?len ?b", unfolded str] st(1) fi [unfolded fs(2)] less.prems(2)
      unfolding step len by blast
    define k where "k = ?len"
    have k: "k \<le> i" using beyond(1) by (simp only: k_def)
    have "take k (stream s) @ take (i - k + length pat) (drop k (stream s)) = take (i + length pat) (stream s)"
      using take_add [of k "i - k + length pat" "stream s"] k by simp
    moreover have "drop (i - k + length pat) (drop k (stream s)) = drop (i + length pat) (stream s)"
      using k by simp
    moreover have "length (buf @ take k (stream s)) + (i - k) + length pat = length buf + i + length pat"
      using k le by simp
    ultimately show ?thesis using r unfolding k_def [symmetric] by auto
  qed
qed

lemma net_read_until_fed:
  assumes "fed s (pre @ pat @ rest)" "pat \<noteq> []"
    and "\<And>k. k < length pre \<Longrightarrow> take (length pat) (drop k (pre @ pat @ rest)) \<noteq> pat"
  shows "\<exists>s'. net_read_until h pat buf s = Done (length (buf @ pre @ pat), buf @ pre @ pat) s' \<and> fed s' rest"
proof -
  have "find_sub pat (stream s) = Some (length pre)" "feeding s"
    using find_sub_here [of pre pat rest] assms by (simp_all add: fed_def)
  then show ?thesis
    using read_until_loop_fed [of s pat "length pre" h buf] assms by (auto simp: fed_def net_read_until_def feeding_def)
qed

section \<open>Properties\<close>

text \<open>Reading up to a delimiter does not depend on how the stream was cut into packets: when the bytes
  received and still to come contain the delimiter, the coroutine returns, with its caller's buffer extended
  by everything up to and including the first occurrence, and the socket is left exactly after it.\<close>

theorem read_until_first_delimiter:
  assumes "feeding s" "pat \<noteq> []" "find_sub pat (stream s) = Some i"
  shows "\<exists>s'. net_read_until h pat buf s
       = Done (length buf + i + length pat, buf @ take (i + length pat) (stream s)) s'
     \<and> feeding s' \<and> stream s' = drop (i + length pat) (stream s)"
  using read_until_loop_fed [OF assms] assms by (auto simp: net_read_until_def feeding_def fed_def)

definition sample_sock :: "sock_event list \<Rightarrow> sock" where
  "sample_sock es = \<lparr>s_data = \<lparr>nd_id = 3, nd_ec = No_error, nd_buf = [], nd_accepted = [], nd_handle = None,
     nd_local = [], nd_remote = []\<rparr>, s_open = True, s_canceled = False, s_events = es\<rparr>"

lemma sample_feeding: "list_all is_data es \<Longrightarrow> feeding (sample_sock es)"
  by (simp add: feeding_def sample_sock_def readable_socket_def get_socket_class_def)

lemma sample_stream: "stream (sample_sock es) = concat (map event_bytes es)"
  by (simp add: stream_def sample_sock_def)

theorem read_until_first_delimiter_witness:
  "\<exists>s'. net_read_until 7 [13, 10] [] (sample_sock [Data [65, 13], Data [66, 13], Data [10, 67]])
     = Done (5, [65, 13, 66, 13, 10]) s' \<and> feeding s' \<and> stream s' = [67]"
  using read_until_first_delimiter [OF sample_feeding [of "[Data [65, 13], Data [66, 13], Data [10, 67]]"], of "[13, 10]" 3 7 "[]"]
  by (simp add: sample_stream find_sub_Cons)

text \<open>Reading a given number of bytes does not depend on the packets either: when that many bytes have
  arrived or will arrive, the coroutine returns exactly the next ones of the stream, and a plain read returns a
  non-empty piece of the stream of at most the size asked for.\<close>

theorem read_size_exact:
  assumes "feeding s" "n \<le> length (stream s)"
  shows "(\<exists>s'. net_read_size h n s = Done (take n (stream s)) s' \<and> feeding s' \<and> stream s' = drop n (stream s))
     \<and> (0 < n \<longrightarrow> Data [] \<notin> set (s_events s) \<longrightarrow> (\<exists>k s'. 0 < k \<and> k \<le> n \<and> net_read h n s = Done (take k (stream s)) s'
          \<and> feeding s' \<and> stream s' = drop k (stream s)))"
proof (intro conjI impI)
  show "\<exists>s'. net_read_size h n s = Done (take n (stream s)) s' \<and> feeding s' \<and> stream s' = drop n (stream s)"
    using net_read_size_fed [of s "stream s" n h] assms by (auto simp: fed_def)
  assume n: "0 < n" and ne: "Data [] \<notin> set (s_events s)"
  have rs: "readable_socket s" "nd_ec (s_data s) = No_error" using assms(1) by (simp_all add: feeding_def)
  show "\<exists>k s'. 0 < k \<and> k \<le> n \<and> net_read h n s = Done (take k (stream s)) s' \<and> feeding s' \<and> stream s' = drop k (stream s)"
  proof (cases "nd_buf (s_data s) = []")
    case False
    let ?k = "min (length (nd_buf (s_data s))) n"
    obtain s' where "take_bytes ?k s = Done (take ?k (stream s)) s'" "fed s' (drop ?k (stream s))"
      using take_bytes_fed [OF assms(1), of ?k] by auto
    then show ?thesis using False rs n
      by (intro exI [of _ ?k] exI [of _ s']) (simp add: net_read_def fed_def)
  next
    case True
    then have "s_events s \<noteq> []" using assms(2) n by (auto simp: stream_def)
    then obtain bs es where e: "s_events s = Data bs # es"
        "co_await h s = Done () (s\<lparr>s_data := (s_data s)\<lparr>nd_buf := nd_buf (s_data s) @ bs, nd_handle := None\<rparr>, s_events := es\<rparr>)"
      using feeding_co_await [OF assms(1), of h] by auto
    let ?t = "s\<lparr>s_data := (s_data s)\<lparr>nd_buf := nd_buf (s_data s) @ bs, nd_handle := None\<rparr>, s_events := es\<rparr>"
    let ?k = "min (length (nd_buf (s_data ?t))) n"
    note st = feeding_step [OF assms(1) e(1)]
    have "bs \<noteq> []" using ne e(1) by auto
    obtain s' where "take_bytes ?k ?t = Done (take ?k (stream ?t)) s'" "fed s' (drop ?k (stream ?t))"
      using take_bytes_fed [OF st(1), of ?k] by auto
    then show ?thesis using True rs n e(2) st(2) \<open>bs \<noteq> []\<close>
      by (intro exI [of _ ?k] exI [of _ s']) (simp add: net_read_def fed_def)
  qed
qed

theorem read_size_exact_witness:
  "\<exists>s'. net_read_size 7 3 (sample_sock [Data [1, 2], Data [3, 4]]) = Done [1, 2, 3] s'
     \<and> feeding s' \<and> stream s' = [4]"
  using read_size_exact [OF sample_feeding [of "[Data [1, 2], Data [3, 4]]"], of 3 7]
  by (simp add: sample_stream)

text \<open>When the socket is stopped while a coroutine waits for bytes, the coroutine gets the error: the end
  of the stream as a count of 0, any other error code as an exception, provided the code is not zero.\<close>

theorem read_size_stopped:
  assumes "feeding (s\<lparr>s_events := []\<rparr>)" "s_events s = Stop ec # es" "length (nd_buf (s_data s)) < n" "ec_true ec"
  shows "\<exists>s'. net_read_size h n s = (if ec = Asio_eof then Done [] s' else Throw (System_error ec) s')"
proof -
  have s: "readable_socket s" "s_open s" "nd_handle (s_data s) = None" "\<not> s_canceled s"
    using assms(1) by (auto simp: feeding_def readable_socket_def)
  then show ?thesis using assms(2-4)
    by (simp add: net_read_size_def read_size_loop.simps [of h n s] co_await_def await_suspend_def
        co_resume_def await_resume_def)
qed

theorem read_size_stopped_witness:
  "\<exists>s'. net_read_size 7 3 (sample_sock [Stop (Socket_error Initiative_disconnect)])
     = Throw (System_error (Socket_error Initiative_disconnect)) s'"
  using read_size_stopped [of "sample_sock [Stop (Socket_error Initiative_disconnect)]"
      "Socket_error Initiative_disconnect" "[]" 3 7] sample_feeding [of "[]"]
  by (simp add: sample_sock_def)

text \<open>A socket stopped with \<open>kcp_check_failed\<close>, whose value is 0, is not seen as stopped: the waiting
  coroutine resumes, finds no error, waits again on a socket that has left the map, and is never resumed unless it
  is cancelled.\<close>

theorem kcp_check_failed_hangs:
  assumes "feeding (s\<lparr>s_events := []\<rparr>)" "s_events s = Stop (Socket_error Kcp_check_failed) # es"
    "Cancel_request \<notin> set es" "length (nd_buf (s_data s)) < n"
  shows "\<exists>s'. net_read_size h n s = Suspended s'"
proof -
  have s: "readable_socket s" "s_open s" "nd_handle (s_data s) = None" "\<not> s_canceled s"
    using assms(1) by (auto simp: feeding_def readable_socket_def)
  have n: "next_event False es = None" using assms(3) by (induction es) auto
  show ?thesis using s assms(2,4) n
    by (simp add: net_read_size_def read_size_loop.simps co_await_def await_suspend_def
        co_resume_def await_resume_def)
qed

theorem kcp_check_failed_hangs_witness:
  "\<exists>s'. net_read_size 7 3 (sample_sock [Stop (Socket_error Kcp_check_failed)]) = Suspended s'"
  using kcp_check_failed_hangs [of "sample_sock [Stop (Socket_error Kcp_check_failed)]" "[]" 3 7] sample_feeding [of "[]"]
  by (simp add: sample_sock_def)

text \<open>What a peer sent before it closed is lost if it was not read before the stop was handled: every
  later read of the socket throws, whatever bytes its buffer still holds.\<close>

theorem stop_discards_unread:
  "net_read h n (deliver (Stop ec) s) = Throw invalid_action (deliver (Stop ec) s)
   \<and> net_read_size h n (deliver (Stop ec) s) = Throw invalid_action (deliver (Stop ec) s)
   \<and> nd_buf (s_data (deliver (Stop ec) s)) = nd_buf (s_data s)"
  by (simp add: net_read_def net_read_size_def readable_socket_def)

end
