(* ===== verification/Http.thy ===== *)
theory Http
  imports Net_Stream
begin

text \<open>
  The HTTP messages of \<open>runtime/src/web/http.cpp\<close>: printing a reply, the stock replies, and the parsers of
  request lines, reply lines and headers, character by character with the states of the code, reading from a
  socket of \<open>Net_Stream\<close>.  Plain \<open>char\<close> is signed, as on the targets of the runtime; a status is an \<open>int\<close>,
  since the parser casts any number to the enumeration.
\<close>

section \<open>Messages\<close>

record header =
  h_name :: "byte list"
  h_value :: "byte list"

record request =
  req_method :: "byte list"
  req_uri :: "byte list"
  req_version_major :: int
  req_version_minor :: int
  req_headers :: "header list"
  req_content :: "byte list"

record reply =
  rep_status :: int
  rep_headers :: "header list"
  rep_content :: "byte list"

definition empty_request :: request where
  "empty_request = \<lparr>req_method = [], req_uri = [], req_version_major = 0, req_version_minor = 0,
     req_headers = [], req_content = []\<rparr>"

definition empty_reply :: reply where
  "empty_reply = \<lparr>rep_status = 200, rep_headers = [], rep_content = []\<rparr>"

definition crlf :: "byte list" where
  "crlf = [13, 10]"

definition to_string_view :: "int \<Rightarrow> byte list" where
  "to_string_view status =
     (if status = 101 then bytes_of ''HTTP/1.1 101 Switching Protocols'' @ crlf
      else if status = 200 then bytes_of ''HTTP/1.1 200 OK'' @ crlf
      else if status = 201 then bytes_of ''HTTP/1.1 201 Created'' @ crlf
      else if status = 202 then bytes_of ''HTTP/1.1 202 Accepted'' @ crlf
      else if status = 204 then bytes_of ''HTTP/1.1 204 No Content'' @ crlf
      else if status = 300 then bytes_of ''HTTP/1.1 300 Multiple Choices'' @ crlf
      else if status = 301 then bytes_of ''HTTP/1.1 301 Moved Permanently'' @ crlf
      else if status = 302 then bytes_of ''HTTP/1.1 302 Moved Temporarily'' @ crlf
      else if status = 304 then bytes_of ''HTTP/1.1 304 Not Modified'' @ crlf
      else if status = 400 then bytes_of ''HTTP/1.1 400 Bad Request'' @ crlf
      else if status = 401 then bytes_of ''HTTP/1.1 401 Unauthorized'' @ crlf
      else if status = 403 then bytes_of ''HTTP/1.1 403 Forbidden'' @ crlf
      else if status = 404 then bytes_of ''HTTP/1.1 404 Not Found'' @ crlf
      else if status = 500 then bytes_of ''HTTP/1.1 500 Internal Server Error'' @ crlf
      else if status = 501 then bytes_of ''HTTP/1.1 501 Not Implemented'' @ crlf
      else if status = 502 then bytes_of ''HTTP/1.1 502 Bad Gateway'' @ crlf
      else if status = 503 then bytes_of ''HTTP/1.1 503 Service Unavailable'' @ crlf
      else bytes_of ''HTTP/1.1 500 Internal Server Error'' @ crlf)"

definition name_value_separator :: "byte list" where
  "name_value_separator = bytes_of '': ''"

definition header_line :: "header \<Rightarrow> byte list" where
  "header_line h = h_name h @ name_value_separator @ h_value h @ crlf"

definition to_buffer :: "reply \<Rightarrow> byte list" where
  "to_buffer rep = to_string_view (rep_status rep) @ concat (map header_line (rep_headers rep)) @ crlf
     @ rep_content rep"

definition to_replies :: "int \<Rightarrow> byte list" where
  "to_replies status =
     (if status = 101 then bytes_of ''''
      else if status = 200 then bytes_of ''''
      else if status = 201 then bytes_of ''<html><head><title>Created</title></head><body><h1>201 Created</h1></body></html>''
      else if status = 202 then bytes_of ''<html><head><title>Accepted</title></head><body><h1>202 Accepted</h1></body></html>''
      else if status = 204 then bytes_of ''<html><head><title>No Content</title></head><body><h1>204 Content</h1></body></html>''
      else if status = 300 then bytes_of ''<html><head><title>Multiple Choices</title></head><body><h1>300 Multiple Choices</h1></body></html>''
      else if status = 301 then bytes_of ''<html><head><title>Moved Permanently</title></head><body><h1>301 Moved Permanently</h1></body></html>''
      else if status = 302 then bytes_of ''<html><head><title>Moved Temporarily</title></head><body><h1>302 Moved Temporarily</h1></body></html>''
      else if status = 304 then bytes_of ''<html><head><title>Not Modified</title></head><body><h1>304 Not Modified</h1></body></html>''
      else if status = 400 then bytes_of ''<html><head><title>Bad Request</title></head><body><h1>400 Bad Request</h1></body></html>''
      else if status = 401 then bytes_of ''<html><head><title>Unauthorized</title></head><body><h1>401 Unauthorized</h1></body></html>''
      else if status = 403 then bytes_of ''<html><head><title>Forbidden</title></head><body><h1>403 Forbidden</h1></body></html>''
      else if status = 404 then bytes_of ''<html><head><title>Not Found</title></head><body><h1>404 Not Found</h1></body></html>''
      else if status = 500 then bytes_of ''<html><head><title>Internal Server Error</title></head><body><h1>500 Internal Server Error</h1></body></html>''
      else if status = 501 then bytes_of ''<html><head><title>Not Implemented</title></head><body><h1>501 Not Implemented</h1></body></html>''
      else if status = 502 then bytes_of ''<html><head><title>Bad Gateway</title></head><body><h1>502 Bad Gateway</h1></body></html>''
      else if status = 503 then bytes_of ''<html><head><title>Service Unavailable</title></head><body><h1>503 Service Unavailable</h1></body></html>''
      else bytes_of ''<html><head><title>Internal Server Error</title></head><body><h1>500 Internal Server Error</h1></body></html>'')"

text \<open>\<open>std::to_string\<close> of a size.\<close>

fun to_string :: "nat \<Rightarrow> byte list" where
  "to_string n = (if n < 10 then [of_nat (48 + n)] else to_string (n div 10) @ [of_nat (48 + n mod 10)])"

declare to_string.simps [simp del]

definition content_length :: "byte list" where
  "content_length = bytes_of ''Content-Length''"

definition stock :: "int \<Rightarrow> reply" where
  "stock status =
     (let content = to_replies status
      in \<lparr>rep_status = status,
          rep_headers = [\<lparr>h_name = content_length, h_value = to_string (length content)\<rparr>,
                         \<lparr>h_name = bytes_of ''Content-Type'', h_value = bytes_of ''text/html''\<rparr>],
          rep_content = content\<rparr>)"

section \<open>Characters\<close>

definition is_char :: "byte \<Rightarrow> bool" where
  "is_char ch \<longleftrightarrow> 0 \<le> sint ch \<and> sint ch \<le> 127"

definition is_ctl :: "byte \<Rightarrow> bool" where
  "is_ctl ch \<longleftrightarrow> (0 \<le> sint ch \<and> sint ch \<le> 31) \<or> sint ch = 127"

definition is_special :: "byte \<Rightarrow> bool" where
  "is_special ch \<longleftrightarrow> ch \<in> set (bytes_of [CHR ''('', CHR '')'', CHR ''<'', CHR ''>'', CHR ''@'', CHR '','', CHR '';'',
     CHR '':'', CHR 0x5C, CHR 0x22, CHR ''/'', CHR ''['', CHR '']'', CHR ''?'', CHR ''='', CHR ''{'', CHR ''}'',
     CHR '' '', CHR 0x09])"

definition is_digit :: "byte \<Rightarrow> bool" where
  "is_digit ch \<longleftrightarrow> 48 \<le> sint ch \<and> sint ch \<le> 57"

definition is_token :: "byte \<Rightarrow> bool" where
  "is_token ch \<longleftrightarrow> \<not> (\<not> is_char ch \<or> is_ctl ch \<or> is_special ch)"

section \<open>The parsers\<close>

definition parser_line :: "coro \<Rightarrow> sock \<Rightarrow> byte list outcome" where
  "parser_line h s = bind_out (net_read_until h crlf [] s)
     (\<lambda>(n, line) s. if n = 0 then Throw (Logic_error ''recv eof'') s
                    else Done (take (length line - length crlf) line) s)"

datatype line_state = Method_start | Method | Uri | Version_h | Version_t_1 | Version_t_2 | Version_p
  | Version_slash | Version_major_start | Version_major | Version_minor_start | Version_minor
  | Status_start | Status | Reason

definition expect :: "byte \<Rightarrow> char \<Rightarrow> line_state \<Rightarrow> 'a \<Rightarrow> (line_state \<times> 'a) option" where
  "expect ch c st r = (if ch \<noteq> of_char c then None else Some (st, r))"

fun request_line_step :: "line_state \<Rightarrow> request \<Rightarrow> byte \<Rightarrow> (line_state \<times> request) option" where
  "request_line_step Method_start req ch =
     (if \<not> is_token ch then None else Some (Method, req\<lparr>req_method := req_method req @ [ch]\<rparr>))"
| "request_line_step Method req ch =
     (if ch = of_char (CHR '' '') then Some (Uri, req)
      else if \<not> is_token ch then None else Some (Method, req\<lparr>req_method := req_method req @ [ch]\<rparr>))"
| "request_line_step Uri req ch =
     (if ch = of_char (CHR '' '') then Some (Version_h, req)
      else if is_ctl ch then None else Some (Uri, req\<lparr>req_uri := req_uri req @ [ch]\<rparr>))"
| "request_line_step Version_h req ch = expect ch (CHR ''H'') Version_t_1 req"
| "request_line_step Version_t_1 req ch = expect ch (CHR ''T'') Version_t_2 req"
| "request_line_step Version_t_2 req ch = expect ch (CHR ''T'') Version_p req"
| "request_line_step Version_p req ch = expect ch (CHR ''P'') Version_slash req"
| "request_line_step Version_slash req ch = expect ch (CHR ''/'') Version_major_start req"
| "request_line_step Version_major_start req ch =
     (if \<not> is_digit ch then None else Some (Version_major, req\<lparr>req_version_major := sint ch - 48\<rparr>))"
| "request_line_step Version_major req ch =
     (if ch = of_char (CHR ''.'') then Some (Version_minor_start, req)
      else if \<not> is_digit ch then None
      else Some (Version_major, req\<lparr>req_version_major := req_version_major req * 10 + sint ch - 48\<rparr>))"
| "request_line_step Version_minor_start req ch =
     (if \<not> is_digit ch then None else Some (Version_minor, req\<lparr>req_version_minor := sint ch - 48\<rparr>))"
| "request_line_step Version_minor req ch =
     (if \<not> is_digit ch then None
      else Some (Version_minor, req\<lparr>req_version_minor := req_version_minor req * 10 + sint ch - 48\<rparr>))"
| "request_line_step st req ch = Some (st, req)"

fun reply_line_step :: "line_state \<Rightarrow> reply \<Rightarrow> byte \<Rightarrow> (line_state \<times> reply) option" where
  "reply_line_step Version_h rep ch = expect ch (CHR ''H'') Version_t_1 rep"
| "reply_line_step Version_t_1 rep ch = expect ch (CHR ''T'') Version_t_2 rep"
| "reply_line_step Version_t_2 rep ch = expect ch (CHR ''T'') Version_p rep"
| "reply_line_step Version_p rep ch = expect ch (CHR ''P'') Version_slash rep"
| "reply_line_step Version_slash rep ch = expect ch (CHR ''/'') Version_major_start rep"
| "reply_line_step Version_major_start rep ch = (if \<not> is_digit ch then None else Some (Version_major, rep))"
| "reply_line_step Version_major rep ch =
     (if ch = of_char (CHR ''.'') then Some (Version_minor_start, rep)
      else if \<not> is_digit ch then None else Some (Version_major, rep))"
| "reply_line_step Version_minor_start rep ch = (if \<not> is_digit ch then None else Some (Version_minor, rep))"
| "reply_line_step Version_minor rep ch =
     (if ch = of_char (CHR '' '') then Some (Status_start, rep)
      else if \<not> is_digit ch then None else Some (Version_minor, rep))"
| "reply_line_step Status_start rep ch =
     (if \<not> is_digit ch then None else Some (Status, rep\<lparr>rep_status := sint ch - 48\<rparr>))"
| "reply_line_step Status rep ch =
     (if ch = of_char (CHR '' '') then Some (Reason, rep)
      else if \<not> is_digit ch then None
      else Some (Status, rep\<lparr>rep_status := rep_status rep * 10 + sint ch - 48\<rparr>))"
| "reply_line_step st rep ch = Some (st, rep)"

text \<open>The loop over the characters of a line, with its early return.\<close>

fun scan :: "('q \<Rightarrow> 'r \<Rightarrow> byte \<Rightarrow> ('q \<times> 'r) option) \<Rightarrow> byte list \<Rightarrow> 'q \<Rightarrow> 'r \<Rightarrow> ('q \<times> 'r) option" where
  "scan step [] q r = Some (q, r)"
| "scan step (ch # line) q r = (case step q r ch of None \<Rightarrow> None | Some (q', r') \<Rightarrow> scan step line q' r')"

definition parse_request_line :: "request \<Rightarrow> byte list \<Rightarrow> request option" where
  "parse_request_line req line = (case scan request_line_step line Method_start req of
     Some (Version_minor, req') \<Rightarrow> Some req' | _ \<Rightarrow> None)"

definition parse_reply_line :: "reply \<Rightarrow> byte list \<Rightarrow> reply option" where
  "parse_reply_line rep line = (case scan reply_line_step line Version_h rep of
     Some (Reason, rep') \<Rightarrow> Some rep' | _ \<Rightarrow> None)"

datatype header_state = H_start | H_lws | H_name | H_space_before_value | H_value

definition push_name :: "byte \<Rightarrow> header list \<Rightarrow> header list" where
  "push_name ch hs = butlast hs @ [(last hs)\<lparr>h_name := h_name (last hs) @ [ch]\<rparr>]"

definition push_value :: "byte \<Rightarrow> header list \<Rightarrow> header list" where
  "push_value ch hs = butlast hs @ [(last hs)\<lparr>h_value := h_value (last hs) @ [ch]\<rparr>]"

fun header_step :: "header_state \<Rightarrow> header list \<Rightarrow> byte \<Rightarrow> (header_state \<times> header list) option" where
  "header_step H_start hs ch =
     (if hs \<noteq> [] \<and> (ch = of_char (CHR '' '') \<or> ch = 9) then Some (H_lws, hs)
      else if \<not> is_token ch then None
      else Some (H_name, push_name ch (hs @ [\<lparr>h_name = [], h_value = []\<rparr>])))"
| "header_step H_lws hs ch =
     (if ch = of_char (CHR '' '') \<or> ch = 9 then Some (H_lws, hs)
      else if is_ctl ch then None else Some (H_value, push_value ch hs))"
| "header_step H_name hs ch =
     (if ch = of_char (CHR '':'') then Some (H_space_before_value, hs)
      else if \<not> is_token ch then None else Some (H_name, push_name ch hs))"
| "header_step H_space_before_value hs ch =
     (if ch \<noteq> of_char (CHR '' '') then None else Some (H_value, hs))"
| "header_step H_value hs ch = (if is_ctl ch then None else Some (H_value, push_value ch hs))"

definition parser_header :: "header list \<Rightarrow> byte list \<Rightarrow> header list option" where
  "parser_header hs line = (case scan header_step line H_start hs of Some (H_value, hs') \<Rightarrow> Some hs' | _ \<Rightarrow> None)"

text \<open>\<open>std::from_chars\<close> into a \<open>size_t\<close>, base 10: the longest run of digits; no digit or a number that does not
  fit leaves the variable as it is.\<close>

definition digits_value :: "byte list \<Rightarrow> nat" where
  "digits_value ds = foldl (\<lambda>n d. n * 10 + (unat d - 48)) 0 ds"

definition from_chars :: "byte list \<Rightarrow> nat \<Rightarrow> nat" where
  "from_chars text value =
     (let ds = takeWhile is_digit text
      in if ds = [] \<or> digits_value ds \<ge> size_t_modulus then value else digits_value ds)"

definition body_size_after :: "header list \<Rightarrow> nat \<Rightarrow> nat" where
  "body_size_after hs body_size =
     (if h_name (last hs) = content_length then from_chars (h_value (last hs)) body_size else body_size)"

partial_function (option) parser_header_loop ::
    "coro \<Rightarrow> header list \<Rightarrow> nat \<Rightarrow> sock \<Rightarrow> (header list \<times> nat) outcome option" where
  "parser_header_loop h hs body_size s =
     (case parser_line h s of
        Done line s' \<Rightarrow>
          (if line = [] then Some (Done (hs, body_size) s')
           else case parser_header hs line of
                  None \<Rightarrow> Some (Throw (Logic_error ''parser header fail'') s')
                | Some hs' \<Rightarrow> parser_header_loop h hs' (body_size_after hs' body_size) s')
      | Throw e s' \<Rightarrow> Some (Throw e s')
      | Suspended s' \<Rightarrow> Some (Suspended s'))"

definition parser_header_body :: "coro \<Rightarrow> header list \<Rightarrow> byte list \<Rightarrow> sock \<Rightarrow> (header list \<times> byte list) outcome option" where
  "parser_header_body h hs body s = map_option (\<lambda>r. bind_out r (\<lambda>(hs, body_size) s.
     if body_size > 0
     then bind_out (net_read_size h body_size s)
            (\<lambda>bs s. if bs = [] then Throw (Logic_error ''recv eof'') s else Done (hs, bs) s)
     else Done (hs, body) s)) (parser_header_loop h hs 0 s)"

definition parser_reply_line :: "coro \<Rightarrow> reply \<Rightarrow> sock \<Rightarrow> reply outcome" where
  "parser_reply_line h rep s = bind_out (parser_line h s) (\<lambda>line s.
     case parse_reply_line rep line of None \<Rightarrow> Throw (Logic_error ''parser reply line fail'') s
     | Some rep \<Rightarrow> Done rep s)"

definition parser_request_line :: "coro \<Rightarrow> request \<Rightarrow> sock \<Rightarrow> request outcome" where
  "parser_request_line h req s = bind_out (parser_line h s) (\<lambda>line s.
     case parse_request_line req line of None \<Rightarrow> Throw (Logic_error ''parser request line fail'') s
     | Some req \<Rightarrow> Done req s)"

definition bind_opt :: "'a outcome \<Rightarrow> ('a \<Rightarrow> sock \<Rightarrow> 'b outcome option) \<Rightarrow> 'b outcome option" where
  "bind_opt m f = (case m of Done x s \<Rightarrow> f x s | Throw e s \<Rightarrow> Some (Throw e s) | Suspended s \<Rightarrow> Some (Suspended s))"

definition parser_reply :: "coro \<Rightarrow> reply \<Rightarrow> sock \<Rightarrow> reply outcome option" where
  "parser_reply h rep s = bind_opt (parser_reply_line h rep s) (\<lambda>rep s.
     map_option (\<lambda>r. bind_out r (\<lambda>(hs, body) s. Done (rep\<lparr>rep_headers := hs, rep_content := body\<rparr>) s))
       (parser_header_body h (rep_headers rep) (rep_content rep) s))"

definition parser_request :: "coro \<Rightarrow> request \<Rightarrow> sock \<Rightarrow> request outcome option" where
  "parser_request h req s = bind_opt (parser_request_line h req s) (\<lambda>req s.
     map_option (\<lambda>r. bind_out r (\<lambda>(hs, body) s. Done (req\<lparr>req_headers := hs, req_content := body\<rparr>) s))
       (parser_header_body h (req_headers req) (req_content req) s))"

section \<open>Lines and headers\<close>

lemma scan_append:
  "scan step (xs @ ys) q r = (case scan step xs q r of None \<Rightarrow> None | Some (q', r') \<Rightarrow> scan step ys q' r')"
  by (induction xs arbitrary: q r) (auto split: option.splits)

lemma no_cr_no_crlf:
  assumes "13 \<notin> set pre" "k < length pre"
  shows "take (length crlf) (drop k (pre @ crlf @ rest)) \<noteq> crlf"
proof
  assume "take (length crlf) (drop k (pre @ crlf @ rest)) = crlf"
  then have "hd (drop k (pre @ crlf @ rest)) = 13"
    by (metis crlf_def hd_take length_greater_0_conv list.distinct(1) list.sel(1))
  then have "pre ! k = 13" using assms(2) by (simp add: hd_drop_conv_nth nth_append)
  then show False using assms nth_mem by metis
qed

lemma parser_line_fed:
  assumes "fed s (pre @ crlf @ rest)" "13 \<notin> set pre"
  shows "\<exists>s'. parser_line h s = Done pre s' \<and> fed s' rest"
proof -
  obtain s' where "net_read_until h crlf [] s = Done (length (pre @ crlf), pre @ crlf) s'" "fed s' rest"
    using net_read_until_fed [OF assms(1) _ no_cr_no_crlf [OF assms(2)], of h "[]"] by (auto simp: crlf_def)
  then show ?thesis by (simp add: parser_line_def crlf_def)
qed

lemma special_chars:
  "is_special 58" "is_special 32" "is_special 9" "is_ctl 13" "\<not> is_token 58" "\<not> is_token 32" "\<not> is_token 9" "\<not> is_token 13"
  by (simp_all add: is_token_def is_special_def is_ctl_def bytes_of_def of_char_def)

lemma char_codes: "of_char (CHR '' '') = (32 :: byte)" "of_char (CHR '':'') = (58 :: byte)"
  by (simp_all add: of_char_def)

definition header_ok :: "header \<Rightarrow> bool" where
  "header_ok h \<longleftrightarrow> h_name h \<noteq> [] \<and> list_all is_token (h_name h) \<and> list_all (\<lambda>ch. \<not> is_ctl ch) (h_value h)"

lemma scan_name: "list_all is_token xs \<Longrightarrow>
   scan header_step xs H_name (hs @ [\<lparr>h_name = n, h_value = v\<rparr>]) = Some (H_name, hs @ [\<lparr>h_name = n @ xs, h_value = v\<rparr>])"
proof (induction xs arbitrary: n)
  case (Cons x xs)
  then have "x \<noteq> 58" using special_chars by auto
  then show ?case using Cons by (simp add: push_name_def char_codes)
qed simp

lemma scan_value: "list_all (\<lambda>ch. \<not> is_ctl ch) xs \<Longrightarrow>
   scan header_step xs H_value (hs @ [\<lparr>h_name = n, h_value = v\<rparr>]) = Some (H_value, hs @ [\<lparr>h_name = n, h_value = v @ xs\<rparr>])"
  by (induction xs arbitrary: v) (simp_all add: push_value_def)

lemma parser_header_line:
  assumes "header_ok h"
  shows "parser_header hs (h_name h @ name_value_separator @ h_value h) = Some (hs @ [h])"
proof -
  obtain c cs where n: "h_name h = c # cs" using assms by (cases "h_name h") (auto simp: header_ok_def)
  have c: "is_token c" "list_all is_token cs" using assms by (simp_all add: header_ok_def n)
  then have ne: "c \<noteq> 32" "c \<noteq> 9" using special_chars by auto
  have "scan header_step (c # cs) H_start hs = Some (H_name, hs @ [\<lparr>h_name = c # cs, h_value = []\<rparr>])"
    using scan_name [OF c(2), of hs "[c]" "[]"] ne c(1) by (simp add: push_name_def char_codes)
  moreover have sep: "name_value_separator = [58, 32]" by (simp add: name_value_separator_def bytes_of_def of_char_def)
  moreover have "scan header_step (58 # 32 # h_value h) H_name (hs @ [\<lparr>h_name = c # cs, h_value = []\<rparr>])
      = Some (H_value, hs @ [\<lparr>h_name = c # cs, h_value = h_value h\<rparr>])"
    using scan_value [of "h_value h" hs "c # cs" "[]"] assms by (simp add: header_ok_def char_codes)
  ultimately have "scan header_step ((c # cs) @ 58 # 32 # h_value h) H_start hs
      = Some (H_value, hs @ [\<lparr>h_name = c # cs, h_value = h_value h\<rparr>])"
    unfolding scan_append by simp
  moreover have "h = \<lparr>h_name = c # cs, h_value = h_value h\<rparr>" using n by simp
  ultimately show ?thesis unfolding parser_header_def n sep by simp
qed

lemma header_line_no_cr:
  assumes "header_ok h" shows "13 \<notin> set (h_name h @ name_value_separator @ h_value h)"
  using assms special_chars(4,8)
  by (auto simp: header_ok_def list_all_iff name_value_separator_def bytes_of_def of_char_def)

text \<open>The size of the body the headers declare.\<close>

definition declared_size :: "header list \<Rightarrow> nat" where
  "declared_size hs = fold (\<lambda>h n. if h_name h = content_length then from_chars (h_value h) n else n) hs 0"

lemma parser_header_loop_fed:
  assumes "list_all header_ok new" "fed s (concat (map header_line new) @ crlf @ rest)"
  shows "\<exists>s'. parser_header_loop h hs n s = Some (Done (hs @ new,
      fold (\<lambda>h n. if h_name h = content_length then from_chars (h_value h) n else n) new n) s') \<and> fed s' rest"
  using assms
proof (induction new arbitrary: hs n s)
  case Nil
  then obtain s' where "parser_line h s = Done [] s'" "fed s' rest"
    using parser_line_fed [of s "[]" rest h] by auto
  then show ?case by (subst parser_header_loop.simps) simp
next
  case (Cons x new)
  let ?line = "h_name x @ name_value_separator @ h_value x"
  have x: "header_ok x" "list_all header_ok new" using Cons.prems(1) by simp_all
  obtain s' where l: "parser_line h s = Done ?line s'" "fed s' (concat (map header_line new) @ crlf @ rest)"
    using parser_line_fed [of s ?line "concat (map header_line new) @ crlf @ rest" h] header_line_no_cr [OF x(1)] Cons.prems(2)
    by (auto simp: header_line_def [of x])
  have "h_name x \<noteq> []" using x(1) by (simp add: header_ok_def)
  then have "parser_header_loop h hs n s = parser_header_loop h (hs @ [x]) (body_size_after (hs @ [x]) n) s'"
    using l(1) parser_header_line [OF x(1), of hs] by (subst parser_header_loop.simps) simp
  then show ?case using Cons.IH [OF x(2) l(2), of "hs @ [x]" "body_size_after (hs @ [x]) n"]
    by (cases "h_name x = content_length") (simp_all add: body_size_after_def)
qed

lemma parser_header_body_fed:
  assumes "list_all header_ok new" "declared_size new = length content"
    "fed s (concat (map header_line new) @ crlf @ content @ rest)"
  shows "\<exists>s'. parser_header_body h [] [] s = Some (Done (new, content) s') \<and> fed s' rest"
proof -
  obtain s1 where l: "parser_header_loop h [] 0 s = Some (Done (new, length content) s1)" "fed s1 (content @ rest)"
    using parser_header_loop_fed [OF assms(1,3), of h "[]" 0] assms(2) by (auto simp: declared_size_def)
  obtain s2 where "net_read_size h (length content) s1 = Done content s2" "fed s2 rest"
    using fed_append_read_size [OF l(2), of "length content" h] by auto
  then show ?thesis using l by (cases "content = []") (simp_all add: parser_header_body_def)
qed

section \<open>Numbers\<close>

lemma is_digit_of_nat: "k < 10 \<Longrightarrow> is_digit (of_nat (48 + k))" "k < 10 \<Longrightarrow> unat (of_nat (48 + k) :: byte) = 48 + k"
proof -
  assume k: "k < 10"
  then show u: "unat (of_nat (48 + k) :: byte) = 48 + k" by (simp add: unat_of_nat del: of_nat_add)
  have "k \<in> set [0..<10]" using k by simp
  then show "is_digit (of_nat (48 + k))" by (auto simp: is_digit_def upt_conv_Cons)
qed

lemma digits_value_append: "digits_value (ds @ [d]) = digits_value ds * 10 + (unat d - 48)"
  by (simp add: digits_value_def)

lemma to_string_digits: "to_string n \<noteq> [] \<and> list_all is_digit (to_string n) \<and> digits_value (to_string n) = n"
proof (induction n rule: to_string.induct)
  case (1 n)
  show ?case
  proof (cases "n < 10")
    case True
    then show ?thesis using is_digit_of_nat [of n] by (subst (1 2 3) to_string.simps) (simp add: digits_value_def)
  next
    case False
    then show ?thesis using 1 is_digit_of_nat [of "n mod 10"]
      by (subst (1 2 3) to_string.simps) (simp add: digits_value_append del: of_nat_add)
  qed
qed

lemma from_chars_to_string: "n < size_t_modulus \<Longrightarrow> from_chars (to_string n) v = n"
proof -
  assume n: "n < size_t_modulus"
  have tw: "takeWhile is_digit (to_string n) = to_string n"
    using to_string_digits [of n] by (simp add: list_all_iff takeWhile_eq_all_conv)
  then show ?thesis unfolding from_chars_def tw Let_def using to_string_digits [of n] n by simp
qed

section \<open>Status lines\<close>

definition known_status :: "int \<Rightarrow> bool" where
  "known_status st \<longleftrightarrow> st \<in> {101, 200, 201, 202, 204, 300, 301, 302, 304, 400, 401, 403, 404, 500, 501, 502, 503}"

lemmas line_simps = to_string_view_def parse_reply_line_def bytes_of_def of_char_def is_digit_def expect_def

lemma status_line_parsed:
  assumes "known_status st"
  shows "\<exists>line. to_string_view st = line @ crlf \<and> 13 \<notin> set line
     \<and> parse_reply_line rep line = Some (rep\<lparr>rep_status := st\<rparr>)"
  using assms unfolding known_status_def by (elim insertE emptyE; simp add: line_simps)

section \<open>Properties\<close>

definition reply_ok :: "reply \<Rightarrow> bool" where
  "reply_ok rep \<longleftrightarrow> known_status (rep_status rep) \<and> list_all header_ok (rep_headers rep)
     \<and> declared_size (rep_headers rep) = length (rep_content rep)"

lemma reply_parsed:
  assumes "reply_ok rep" "fed s (to_buffer rep @ rest)"
  shows "\<exists>s'. parser_reply h empty_reply s = Some (Done rep s') \<and> fed s' rest"
proof -
  let ?tail = "concat (map header_line (rep_headers rep)) @ crlf @ rep_content rep @ rest"
  have ok: "known_status (rep_status rep)" "list_all header_ok (rep_headers rep)"
      "declared_size (rep_headers rep) = length (rep_content rep)"
    using assms(1) by (simp_all add: reply_ok_def)
  obtain line where line: "to_string_view (rep_status rep) = line @ crlf" "13 \<notin> set line"
      "parse_reply_line empty_reply line = Some (empty_reply\<lparr>rep_status := rep_status rep\<rparr>)"
    using status_line_parsed [OF ok(1)] by blast
  have "fed s (line @ crlf @ ?tail)" using assms(2) by (simp add: to_buffer_def line(1))
  then obtain s1 where s1: "parser_line h s = Done line s1" "fed s1 ?tail"
    using parser_line_fed [OF _ line(2)] by blast
  obtain s2 where s2: "parser_header_body h [] [] s1 = Some (Done (rep_headers rep, rep_content rep) s2)" "fed s2 rest"
    using parser_header_body_fed [OF ok(2,3) s1(2)] by blast
  show ?thesis using s1(1) s2 line(3)
    by (simp add: parser_reply_def parser_reply_line_def bind_opt_def empty_reply_def)
qed

text \<open>Printing a reply and parsing it are inverse, whatever the packets the bytes arrive in: from a socket
  whose stream starts with a printed reply, with a status of the enumeration, header names and values of legal
  characters and a declared length equal to that of the content, the parser returns that very reply and leaves the
  stream right after it.\<close>

theorem reply_roundtrip:
  assumes "reply_ok rep" "feeding s" "stream s = to_buffer rep @ rest"
  shows "\<exists>s'. parser_reply h empty_reply s = Some (Done rep s') \<and> feeding s' \<and> stream s' = rest"
  using reply_parsed [OF assms(1), of s rest h] assms(2,3) by (auto simp: fed_def)

lemma length_replies: "length (to_replies st) < size_t_modulus"
  by (simp add: to_replies_def bytes_of_def)

lemma stock_ok:
  assumes "known_status st" shows "reply_ok (stock st)"
proof -
  have "list_all (\<lambda>ch. \<not> is_ctl ch) (to_string n)" for n
    using to_string_digits [of n] by (auto simp: list_all_iff is_digit_def is_ctl_def)
  then show ?thesis
    using assms from_chars_to_string [OF length_replies, of st 0]
    by (simp add: reply_ok_def stock_def Let_def header_ok_def declared_size_def content_length_def bytes_of_def
        of_char_def is_token_def is_char_def is_ctl_def is_special_def)
qed

theorem reply_roundtrip_witness:
  "\<exists>s'. parser_reply 7 empty_reply (sample_sock (map (\<lambda>b. Data [b]) (to_buffer (stock 404)))) = Some (Done (stock 404) s')
     \<and> feeding s' \<and> stream s' = []"
proof -
  have "reply_ok (stock 404)" by (rule stock_ok) (simp add: known_status_def)
  moreover have "concat (map (event_bytes \<circ> (\<lambda>b. Data [b])) bs) = bs" for bs by (induction bs) simp_all
  moreover have "list_all is_data (map (\<lambda>b. Data [b]) bs)" for bs by (induction bs) simp_all
  ultimately show ?thesis
    using reply_roundtrip [of "stock 404" "sample_sock (map (\<lambda>b. Data [b]) (to_buffer (stock 404)))" "[]" 7]
      sample_feeding sample_stream by simp
qed

text \<open>Every stock reply is well formed: its \<open>Content-Length\<close> is the decimal length of its content, so the
  parser reads it back from any packets.\<close>

theorem stock_reply_wellformed:
  assumes "known_status st" "feeding s" "stream s = to_buffer (stock st) @ rest"
  shows "\<exists>s'. parser_reply h empty_reply s = Some (Done (stock st) s') \<and> feeding s' \<and> stream s' = rest
     \<and> from_chars (h_value (hd (rep_headers (stock st)))) 0 = length (rep_content (stock st))"
  using reply_parsed [OF stock_ok [OF assms(1)], of s rest h] assms(2,3) from_chars_to_string [OF length_replies, of st 0]
  by (auto simp: fed_def stock_def Let_def)

theorem stock_reply_wellformed_witness:
  "\<exists>s'. parser_reply 7 empty_reply (sample_sock [Data (to_buffer (stock 400))]) = Some (Done (stock 400) s')
     \<and> feeding s' \<and> stream s' = []"
  using stock_reply_wellformed [of 400 "sample_sock [Data (to_buffer (stock 400))]" "[]" 7]
    sample_feeding [of "[Data (to_buffer (stock 400))]"] sample_stream [of "[Data (to_buffer (stock 400))]"]
  by (auto simp: known_status_def)

section \<open>The language of request lines\<close>

definition decimal :: "byte list \<Rightarrow> int" where
  "decimal ds = foldl (\<lambda>n d. n * 10 + sint d - 48) 0 ds"

definition digits :: "byte list \<Rightarrow> bool" where
  "digits ds \<longleftrightarrow> ds \<noteq> [] \<and> list_all is_digit ds"

definition token :: "byte list \<Rightarrow> bool" where
  "token m \<longleftrightarrow> m \<noteq> [] \<and> list_all is_token m"

definition uri_chars :: "byte list \<Rightarrow> bool" where
  "uri_chars u \<longleftrightarrow> list_all (\<lambda>ch. \<not> is_ctl ch \<and> ch \<noteq> 32) u"

text \<open>What has been read in each state.\<close>

fun line_inv :: "line_state \<Rightarrow> request \<Rightarrow> byte list \<Rightarrow> bool" where
  "line_inv Method_start r pre \<longleftrightarrow> pre = [] \<and> r = empty_request"
| "line_inv Method r pre \<longleftrightarrow> token pre \<and> r = empty_request\<lparr>req_method := pre\<rparr>"
| "line_inv Uri r pre \<longleftrightarrow> (\<exists>m u. pre = m @ 32 # u \<and> token m \<and> uri_chars u
      \<and> r = empty_request\<lparr>req_method := m, req_uri := u\<rparr>)"
| "line_inv Version_h r pre \<longleftrightarrow> (\<exists>m u. pre = m @ 32 # u @ [32] \<and> token m \<and> uri_chars u
      \<and> r = empty_request\<lparr>req_method := m, req_uri := u\<rparr>)"
| "line_inv Version_t_1 r pre \<longleftrightarrow> (\<exists>m u. pre = m @ 32 # u @ [32, 72] \<and> token m \<and> uri_chars u
      \<and> r = empty_request\<lparr>req_method := m, req_uri := u\<rparr>)"
| "line_inv Version_t_2 r pre \<longleftrightarrow> (\<exists>m u. pre = m @ 32 # u @ [32, 72, 84] \<and> token m \<and> uri_chars u
      \<and> r = empty_request\<lparr>req_method := m, req_uri := u\<rparr>)"
| "line_inv Version_p r pre \<longleftrightarrow> (\<exists>m u. pre = m @ 32 # u @ [32, 72, 84, 84] \<and> token m \<and> uri_chars u
      \<and> r = empty_request\<lparr>req_method := m, req_uri := u\<rparr>)"
| "line_inv Version_slash r pre \<longleftrightarrow> (\<exists>m u. pre = m @ 32 # u @ [32, 72, 84, 84, 80] \<and> token m \<and> uri_chars u
      \<and> r = empty_request\<lparr>req_method := m, req_uri := u\<rparr>)"
| "line_inv Version_major_start r pre \<longleftrightarrow> (\<exists>m u. pre = m @ 32 # u @ [32, 72, 84, 84, 80, 47] \<and> token m \<and> uri_chars u
      \<and> r = empty_request\<lparr>req_method := m, req_uri := u\<rparr>)"
| "line_inv Version_major r pre \<longleftrightarrow> (\<exists>m u a. pre = m @ 32 # u @ [32, 72, 84, 84, 80, 47] @ a \<and> token m \<and> uri_chars u
      \<and> digits a \<and> r = empty_request\<lparr>req_method := m, req_uri := u, req_version_major := decimal a\<rparr>)"
| "line_inv Version_minor_start r pre \<longleftrightarrow> (\<exists>m u a. pre = m @ 32 # u @ [32, 72, 84, 84, 80, 47] @ a @ [46] \<and> token m
      \<and> uri_chars u \<and> digits a \<and> r = empty_request\<lparr>req_method := m, req_uri := u, req_version_major := decimal a\<rparr>)"
| "line_inv Version_minor r pre \<longleftrightarrow> (\<exists>m u a b. pre = m @ 32 # u @ [32, 72, 84, 84, 80, 47] @ a @ 46 # b \<and> token m
      \<and> uri_chars u \<and> digits a \<and> digits b
      \<and> r = empty_request\<lparr>req_method := m, req_uri := u, req_version_major := decimal a, req_version_minor := decimal b\<rparr>)"
| "line_inv _ r pre \<longleftrightarrow> False"

lemma decimal_simps: "decimal [d] = sint d - 48" "decimal (ds @ [d]) = decimal ds * 10 + sint d - 48"
  by (simp_all add: decimal_def)

lemma snoc_parts:
  "token [ch] \<longleftrightarrow> is_token ch" "token m \<Longrightarrow> token (m @ [ch]) \<longleftrightarrow> is_token ch"
  "uri_chars []" "uri_chars (u @ [ch]) \<longleftrightarrow> uri_chars u \<and> \<not> is_ctl ch \<and> ch \<noteq> 32"
  "digits [ch] \<longleftrightarrow> is_digit ch" "digits a \<Longrightarrow> digits (a @ [ch]) \<longleftrightarrow> is_digit ch"
  by (auto simp: token_def uri_chars_def digits_def)

lemma line_inv_step:
  assumes "line_inv q r pre" "request_line_step q r ch = Some (q', r')"
  shows "line_inv q' r' (pre @ [ch])"
proof (cases q)
  case Version_major
  then show ?thesis using assms
    by (cases "ch = 46") (fastforce simp: expect_def of_char_def snoc_parts decimal_simps split: if_splits)+
next
  case Version_minor
  then show ?thesis using assms
    by (fastforce simp: snoc_parts decimal_simps split: if_splits)
next
  case Version_minor_start
  then obtain m u a where pre: "pre = m @ 32 # u @ [32, 72, 84, 84, 80, 47] @ a @ [46]" "token m" "uri_chars u" "digits a"
      "r = empty_request\<lparr>req_method := m, req_uri := u, req_version_major := decimal a\<rparr>" using assms(1) by auto
  moreover have "is_digit ch" "q' = Version_minor" "r' = r\<lparr>req_version_minor := sint ch - 48\<rparr>"
    using assms(2) Version_minor_start by (auto split: if_splits)
  ultimately have "pre @ [ch] = m @ 32 # u @ [32, 72, 84, 84, 80, 47] @ a @ 46 # [ch] \<and> token m \<and> uri_chars u
      \<and> digits a \<and> digits [ch] \<and> r' = empty_request\<lparr>req_method := m, req_uri := u, req_version_major := decimal a,
        req_version_minor := decimal [ch]\<rparr>"
    by (simp add: snoc_parts decimal_simps)
  then show ?thesis unfolding \<open>q' = Version_minor\<close> line_inv.simps by blast
next
  case Uri
  then show ?thesis using assms
    by (cases "ch = 32") (fastforce simp: of_char_def snoc_parts split: if_splits)+
qed (use assms in \<open>auto simp: expect_def of_char_def snoc_parts decimal_simps empty_request_def split: if_splits\<close>)

lemma line_inv_scan:
  "line_inv q r pre \<Longrightarrow> scan request_line_step line q r = Some (q', r') \<Longrightarrow> line_inv q' r' (pre @ line)"
proof (induction line arbitrary: q r pre)
  case (Cons ch line)
  then obtain q1 r1 where "request_line_step q r ch = Some (q1, r1)" "scan request_line_step line q1 r1 = Some (q', r')"
    by (auto split: option.splits)
  then show ?case using Cons.IH [OF line_inv_step [OF Cons.prems(1)]] by fastforce
qed simp

lemma scan_method: "list_all is_token m \<Longrightarrow>
   scan request_line_step m Method r = Some (Method, r\<lparr>req_method := req_method r @ m\<rparr>)"
proof (induction m arbitrary: r)
  case (Cons c m)
  then have "c \<noteq> 32" using special_chars by auto
  then show ?case using Cons by (simp add: char_codes)
qed simp

lemma scan_uri: "uri_chars u \<Longrightarrow> scan request_line_step u Uri r = Some (Uri, r\<lparr>req_uri := req_uri r @ u\<rparr>)"
  by (induction u arbitrary: r) (simp_all add: uri_chars_def char_codes)

lemma digit_not_dot: "is_digit d \<Longrightarrow> d \<noteq> 46" "is_digit d \<Longrightarrow> d \<noteq> 32"
  by (auto simp: is_digit_def)

lemma scan_major: "list_all is_digit a \<Longrightarrow> scan request_line_step a Version_major r
    = Some (Version_major, r\<lparr>req_version_major := foldl (\<lambda>n d. n * 10 + sint d - 48) (req_version_major r) a\<rparr>)"
  using digit_not_dot by (induction a arbitrary: r) (simp_all add: of_char_def)

lemma scan_minor: "list_all is_digit a \<Longrightarrow> scan request_line_step a Version_minor r
    = Some (Version_minor, r\<lparr>req_version_minor := foldl (\<lambda>n d. n * 10 + sint d - 48) (req_version_minor r) a\<rparr>)"
  by (induction a arbitrary: r) simp_all

lemma request_line_complete:
  assumes "token m" "uri_chars u" "digits a" "digits b"
  shows "scan request_line_step (m @ 32 # u @ [32, 72, 84, 84, 80, 47] @ a @ 46 # b) Method_start empty_request
    = Some (Version_minor, empty_request\<lparr>req_method := m, req_uri := u, req_version_major := decimal a,
        req_version_minor := decimal b\<rparr>)"
proof -
  obtain c m' where m: "m = c # m'" "is_token c" "list_all is_token m'" using assms(1) by (cases m) (auto simp: token_def)
  obtain d a' where a: "a = d # a'" "is_digit d" "list_all is_digit a'" using assms(3) by (cases a) (auto simp: digits_def)
  obtain e b' where b: "b = e # b'" "is_digit e" "list_all is_digit b'" using assms(4) by (cases b) (auto simp: digits_def)
  show ?thesis
    using assms(2) m a b
    by (simp add: scan_append scan_method scan_uri scan_major scan_minor expect_def of_char_def
        empty_request_def decimal_def)
qed

text \<open>The request-line automaton accepts exactly the lines method SP uri SP HTTP/major.minor, where the
  method is a non-empty token, the uri has no blank and no control character and the version numbers are
  non-empty digit strings, and it returns exactly these parts.\<close>

theorem request_line_language:
  "parse_request_line empty_request line = Some req \<longleftrightarrow>
   (\<exists>m u a b. line = m @ bytes_of '' '' @ u @ bytes_of '' HTTP/'' @ a @ bytes_of ''.'' @ b
      \<and> token m \<and> uri_chars u \<and> digits a \<and> digits b
      \<and> req = empty_request\<lparr>req_method := m, req_uri := u, req_version_major := decimal a, req_version_minor := decimal b\<rparr>)"
proof -
  have lit: "bytes_of '' '' = [32]" "bytes_of '' HTTP/'' = [32, 72, 84, 84, 80, 47]" "bytes_of ''.'' = [46]"
    by (simp_all add: bytes_of_def of_char_def)
  show ?thesis unfolding lit
  proof
    assume "parse_request_line empty_request line = Some req"
    then have "scan request_line_step line Method_start empty_request = Some (Version_minor, req)"
      by (auto simp: parse_request_line_def split: option.splits line_state.splits)
    from line_inv_scan [OF _ this, of "[]"]
    show "\<exists>m u a b. line = m @ [32] @ u @ [32, 72, 84, 84, 80, 47] @ a @ [46] @ b
      \<and> token m \<and> uri_chars u \<and> digits a \<and> digits b
      \<and> req = empty_request\<lparr>req_method := m, req_uri := u, req_version_major := decimal a, req_version_minor := decimal b\<rparr>"
      by simp
  next
    assume "\<exists>m u a b. line = m @ [32] @ u @ [32, 72, 84, 84, 80, 47] @ a @ [46] @ b
      \<and> token m \<and> uri_chars u \<and> digits a \<and> digits b
      \<and> req = empty_request\<lparr>req_method := m, req_uri := u, req_version_major := decimal a, req_version_minor := decimal b\<rparr>"
    then show "parse_request_line empty_request line = Some req"
      using request_line_complete by (auto simp: parse_request_line_def)
  qed
qed

end
