(* ===== verification/Websocket.thy ===== *)
theory Websocket
  imports Http Base64 Sha1
begin

text \<open>
  The websocket endpoint of \<open>runtime/src/web/websocket.cpp\<close>: frames (header with the three forms of the
  length, masking), fragmented writes, the read loop, and both sides of the opening handshake.  A socket is one of
  \<open>Net_Stream\<close>; what an endpoint sends is returned as bytes.  The random masks and the random key are
  arguments.
\<close>

section \<open>Types and byte order\<close>

datatype websocket_type = Client_type | Server_type

type_synonym websocket_opcode = byte

abbreviation op_continuation :: websocket_opcode where "op_continuation \<equiv> 0"
abbreviation op_none :: websocket_opcode where "op_none \<equiv> 0x10"

definition is_websocket_control :: "websocket_opcode \<Rightarrow> bool" where
  "is_websocket_control op \<longleftrightarrow> op \<ge> 0x8"

text \<open>On a little-endian target \<open>htonl\<close> reverses the bytes, and the member \<open>high\<close> of the union, which
  comes first in memory, holds the low half of the integer.\<close>

definition htonl :: "u32 \<Rightarrow> u32" where
  "htonl w = bytes_u32 (rev (u32_bytes w))"

definition ws_htonll :: "u64 \<Rightarrow> u64" where
  "ws_htonll v =
     (let high = ucast v :: u32; low = ucast (drop_bit 32 v) :: u32;
          low = htonl low; high = htonl high;
          (low, high) = (high, low)
      in ucast high OR push_bit 32 (ucast low))"

definition u64_bytes :: "u64 \<Rightarrow> byte list" where
  "u64_bytes v = u32_bytes (ucast v) @ u32_bytes (ucast (drop_bit 32 v))"

definition bytes_u64 :: "byte list \<Rightarrow> u64" where
  "bytes_u64 bs = ucast (bytes_u32 (take 4 bs)) OR push_bit 32 (ucast (bytes_u32 (drop 4 bs)))"

definition u16_bytes :: "u16 \<Rightarrow> byte list" where
  "u16_bytes v = [ucast v, ucast (drop_bit 8 v)]"

definition bytes_u16 :: "byte list \<Rightarrow> u16" where
  "bytes_u16 bs = ucast (bs ! 0) OR push_bit 8 (ucast (bs ! 1))"

definition htons :: "u16 \<Rightarrow> u16" where
  "htons v = bytes_u16 (rev (u16_bytes v))"

definition umask :: "byte list \<Rightarrow> byte list \<Rightarrow> byte list" where
  "umask data mkey = map (\<lambda>i. data ! i XOR mkey ! (i mod 4)) [0..<length data]"

section \<open>Writing\<close>

definition encode_header :: "websocket_type \<Rightarrow> websocket_opcode \<Rightarrow> nat \<Rightarrow> bool \<Rightarrow> byte list" where
  "encode_header tp op sz fin =
     (let val = (if fin then 0x80 else 0) OR op;
          m = (if tp = Client_type then 0x80 else 0)
      in val # (if sz < 0x7E then [m OR of_nat sz]
                else if sz \<le> 0xFFFF then (m OR 0x7E) # u16_bytes (htons (of_nat sz))
                else (m OR 0x7F) # u64_bytes (ws_htonll (of_nat sz))))"

definition encode_body :: "websocket_type \<Rightarrow> byte list \<Rightarrow> byte list \<Rightarrow> byte list" where
  "encode_body tp mkey data = (if tp = Client_type then mkey @ umask data mkey else data)"

definition encode_frame :: "websocket_type \<Rightarrow> websocket_opcode \<Rightarrow> bool \<Rightarrow> byte list \<Rightarrow> byte list \<Rightarrow> byte list" where
  "encode_frame tp op fin mkey data = encode_header tp op (length data) fin @ encode_body tp mkey data"

definition ws_write :: "websocket_type \<Rightarrow> websocket_opcode \<Rightarrow> byte list \<Rightarrow> byte list \<Rightarrow> byte list" where
  "ws_write tp op data mkey = encode_frame tp op True mkey data"

text \<open>The loop over the fragments; \<open>rand i\<close> is the mask of frame \<open>i\<close>.\<close>

partial_function (option) write_fragments ::
    "websocket_type \<Rightarrow> (nat \<Rightarrow> byte list) \<Rightarrow> nat \<Rightarrow> nat \<Rightarrow> byte list \<Rightarrow> byte list \<Rightarrow> byte list option" where
  "write_fragments tp rand i payload_max temp buf =
     (if length temp > payload_max
      then write_fragments tp rand (Suc i) payload_max (drop payload_max temp)
             (buf @ encode_frame tp op_continuation False (rand i) (take payload_max temp))
      else Some (buf @ encode_frame tp op_continuation True (rand i) temp))"

definition ws_write_max ::
    "websocket_type \<Rightarrow> websocket_opcode \<Rightarrow> byte list \<Rightarrow> nat \<Rightarrow> (nat \<Rightarrow> byte list) \<Rightarrow> byte list option" where
  "ws_write_max tp op data payload_max rand =
     (if length data \<le> payload_max \<or> is_websocket_control op then Some (ws_write tp op data (rand 0))
      else write_fragments tp rand 1 payload_max (drop payload_max data)
             (encode_frame tp op False (rand 0) (take payload_max data)))"

section \<open>Reading\<close>

definition read_fail :: exn where
  "read_fail = Logic_error ''websocket read fail''"

definition ws_read_size :: "coro \<Rightarrow> nat \<Rightarrow> sock \<Rightarrow> byte list outcome" where
  "ws_read_size h n s = bind_out (net_read_size h n s)
     (\<lambda>bs s. if bs = [] then Throw (Logic_error ''recv eof'') s else Done bs s)"

definition read_payload_len :: "coro \<Rightarrow> byte \<Rightarrow> sock \<Rightarrow> nat outcome" where
  "read_payload_len h val s =
     (let len = val AND 0x7F
      in if len < 0x7E then Done (unat len) s
         else if len = 0x7E
         then bind_out (ws_read_size h 2 s) (\<lambda>bs s. Done (unat (htons (bytes_u16 bs))) s)
         else bind_out (ws_read_size h 8 s) (\<lambda>bs s. Done (unat (ws_htonll (bytes_u64 bs))) s))"

definition read_frame :: "websocket_type \<Rightarrow> coro \<Rightarrow> websocket_opcode \<Rightarrow> sock \<Rightarrow> (bool \<times> websocket_opcode \<times> byte list) outcome" where
  "read_frame tp h last_op s =
     bind_out (ws_read_size h 1 s) (\<lambda>bs s.
       let val = bs ! 0; fin = (val AND 0x80 \<noteq> 0); op = val AND 0x0F
       in if is_websocket_control op \<and> \<not> fin then Throw read_fail s
          else if \<not> is_websocket_control op \<and> (op = op_continuation) = (last_op = op_none) then Throw read_fail s
          else bind_out (ws_read_size h 1 s) (\<lambda>bs s.
            let val = bs ! 0; masked = (val AND 0x80 \<noteq> 0)
            in if masked \<noteq> (tp = Server_type) then Throw read_fail s
               else bind_out (read_payload_len h val s) (\<lambda>payload_len s.
                 bind_out (if masked then ws_read_size h 4 s else Done [] s) (\<lambda>masking_key s.
                   bind_out (if payload_len > 0 then ws_read_size h payload_len s else Done [] s) (\<lambda>payload s.
                     Done (fin, op, if masked then umask payload masking_key else payload) s)))))"

partial_function (option) ws_read_loop ::
    "websocket_type \<Rightarrow> coro \<Rightarrow> websocket_opcode \<Rightarrow> byte list \<Rightarrow> sock \<Rightarrow> (websocket_opcode \<times> byte list) outcome option" where
  "ws_read_loop tp h last_op buf s =
     (case read_frame tp h last_op s of
        Done r s' \<Rightarrow>
          (case r of (fin, op, payload) \<Rightarrow>
             (if fin then Some (Done (if op = op_continuation then last_op else op, buf @ payload) s')
              else ws_read_loop tp h (if op \<noteq> op_continuation then op else last_op) (buf @ payload) s'))
      | Throw e s' \<Rightarrow> Some (Throw e s')
      | Suspended s' \<Rightarrow> Some (Suspended s'))"

definition ws_read :: "websocket_type \<Rightarrow> coro \<Rightarrow> sock \<Rightarrow> (websocket_opcode \<times> byte list) outcome option" where
  "ws_read tp h s = ws_read_loop tp h op_none [] s"

section \<open>Byte order and masks\<close>

lemma bytes_u16_u16_bytes [simp]: "bytes_u16 (u16_bytes v) = v"
proof (rule bit_word_eqI)
  fix n assume "n < LENGTH(16)"
  then consider "n < 8" | "8 \<le> n \<and> n < 16" by fastforce
  then show "bit (bytes_u16 (u16_bytes v)) n \<longleftrightarrow> bit v n"
    by cases (auto simp: bytes_u16_def u16_bytes_def bit_simps)
qed

lemma u16_bytes_bytes_u16: "u16_bytes (bytes_u16 [a, b]) = [a, b]"
  unfolding u16_bytes_def bytes_u16_def list.inject
  by (intro conjI byte_bit_eqI refl; simp add: bit_simps)

lemma htons_htons [simp]: "htons (htons v) = v"
proof -
  obtain a b where ab: "u16_bytes v = [a, b]" by (simp add: u16_bytes_def)
  then have "htons v = bytes_u16 [b, a]" by (simp add: htons_def)
  then have "htons (htons v) = bytes_u16 [a, b]" by (simp add: htons_def [of "bytes_u16 [b, a]"] u16_bytes_bytes_u16)
  then show ?thesis using ab bytes_u16_u16_bytes [of v] by simp
qed

lemma htonl_htonl [simp]: "htonl (htonl w) = w"
proof -
  obtain a b c d where abcd: "u32_bytes w = [a, b, c, d]" by (simp add: u32_bytes_def)
  then have "htonl w = bytes_u32 [d, c, b, a]" by (simp add: htonl_def)
  then have "htonl (htonl w) = bytes_u32 [a, b, c, d]"
    by (simp add: htonl_def [of "bytes_u32 [d, c, b, a]"] u32_bytes_bytes_u32)
  then show ?thesis using abcd bytes_u32_u32_bytes [of w] by simp
qed

definition halves :: "u32 \<Rightarrow> u32 \<Rightarrow> u64" where
  "halves lo hi = ucast lo OR push_bit 32 (ucast hi)"

lemma u32_high_bit [simp]: "32 \<le> n \<Longrightarrow> \<not> bit (x :: u32) n"
  using bit_imp_le_length [of x n] by auto

lemma halves_parts [simp]: "ucast (halves lo hi) = lo" "ucast (drop_bit 32 (halves lo hi)) = hi"
proof -
  show "ucast (halves lo hi) = lo"
    by (rule bit_word_eqI) (simp add: halves_def bit_simps)
  show "ucast (drop_bit 32 (halves lo hi)) = hi"
    by (rule bit_word_eqI) (simp add: halves_def bit_simps)
qed

lemma halves_eq: "halves (ucast v) (ucast (drop_bit 32 v)) = v"
  by (rule bit_word_eqI) (auto simp: halves_def bit_simps)

lemma ws_htonll_halves: "ws_htonll v = halves (htonl (ucast (drop_bit 32 v))) (htonl (ucast v))"
  by (simp add: ws_htonll_def halves_def Let_def)

lemma ws_htonll_ws_htonll [simp]: "ws_htonll (ws_htonll v) = v"
  by (simp add: ws_htonll_halves halves_eq)

lemma bytes_u64_u64_bytes [simp]: "bytes_u64 (u64_bytes v) = v"
  using halves_eq [of v] by (simp add: bytes_u64_def u64_bytes_def halves_def)

lemma length_u64_bytes [simp]: "length (u64_bytes v) = 8" "length (u16_bytes w) = 2"
  by (simp_all add: u64_bytes_def u16_bytes_def)

lemma length_umask [simp]: "length (umask data mkey) = length data"
  by (simp add: umask_def)

lemma umask_umask [simp]: "umask (umask data mkey) mkey = data"
  by (intro nth_equalityI) (simp_all add: umask_def xor.assoc)

section \<open>One frame\<close>

definition peer :: "websocket_type \<Rightarrow> websocket_type" where
  "peer tp = (if tp = Client_type then Server_type else Client_type)"

definition valid_op :: "websocket_opcode \<Rightarrow> bool" where
  "valid_op op \<longleftrightarrow> op AND 0x0F = op"

text \<open>The frames a reader accepts after the data opcode \<open>last_op\<close>.\<close>

definition acceptable :: "websocket_opcode \<Rightarrow> websocket_opcode \<Rightarrow> bool \<Rightarrow> bool" where
  "acceptable last_op op fin \<longleftrightarrow> valid_op op \<and> (if is_websocket_control op then fin
     else (op = op_continuation) \<noteq> (last_op = op_none))"

lemma first_byte:
  assumes "valid_op op"
  shows "((if fin then 0x80 else 0) OR op) AND 0x80 \<noteq> 0 \<longleftrightarrow> fin"
    "((if fin then 0x80 else 0) OR op) AND 0x0F = op"
proof -
  have op: "op = op AND 0x0F" using assms by (simp add: valid_op_def)
  have "(op AND 0x0F) AND 0x80 = 0" by (rule byte_bit_eqI; simp add: bit_simps)
  then have "op AND 0x80 = 0" using op by metis
  then show "((if fin then 0x80 else 0) OR op) AND 0x80 \<noteq> 0 \<longleftrightarrow> fin"
    by (simp add: bit.conj_disj_distrib2)
  show "((if fin then 0x80 else 0) OR op) AND 0x0F = op"
    using assms by (simp add: valid_op_def bit.conj_disj_distrib2)
qed

lemma second_byte:
  assumes "len AND 0x7F = len"
  shows "((if m then 0x80 else 0) OR len) AND 0x80 \<noteq> 0 \<longleftrightarrow> m"
    "((if m then 0x80 else 0) OR len) AND 0x7F = (len :: byte)"
proof -
  have "(len AND 0x7F) AND 0x80 = 0" by (rule byte_bit_eqI; simp add: bit_simps)
  then have "len AND 0x80 = 0" using assms by metis
  then show "((if m then 0x80 else 0) OR len) AND 0x80 \<noteq> 0 \<longleftrightarrow> m"
    by (simp add: bit.conj_disj_distrib2)
  show "((if m then 0x80 else 0) OR len) AND 0x7F = len"
    using assms by (simp add: bit.conj_disj_distrib2)
qed

lemma small_len: "n < 0x7E \<Longrightarrow> (of_nat n :: byte) AND 0x7F = of_nat n \<and> unat (of_nat n :: byte) = n \<and> (of_nat n :: byte) < 0x7E"
proof -
  assume n: "n < 0x7E"
  have u: "unat (of_nat n :: byte) = n" using n by (simp add: unat_of_nat)
  have "(of_nat n :: byte) AND 0x7F = take_bit 7 (of_nat n)" by (simp add: take_bit_eq_mask mask_eq_exp_minus_1)
  also have "\<dots> = of_nat n"
    using n u by (simp only: word_unat_eq_iff unsigned_take_bit_eq) (simp add: take_bit_eq_mod)
  finally show ?thesis using u n by (simp add: word_less_nat_alt)
qed

lemma ws_read_size_fed:
  "fed s (bs @ rest) \<Longrightarrow> length bs = n \<Longrightarrow> 0 < n \<Longrightarrow> \<exists>s'. ws_read_size h n s = Done bs s' \<and> fed s' rest"
  using fed_append_read_size [of s bs rest n h] by (auto simp: ws_read_size_def)

text \<open>The bytes of the length field after the byte that holds its short form.\<close>

definition len_byte :: "nat \<Rightarrow> byte" where
  "len_byte n = (if n < 0x7E then of_nat n else if n \<le> 0xFFFF then 0x7E else 0x7F)"

definition len_ext :: "nat \<Rightarrow> byte list" where
  "len_ext n = (if n < 0x7E then [] else if n \<le> 0xFFFF then u16_bytes (htons (of_nat n)) else u64_bytes (ws_htonll (of_nat n)))"

lemma encode_header_parts:
  "encode_header tp op n fin = ((if fin then 0x80 else 0) OR op) # ((if tp = Client_type then 0x80 else 0) OR len_byte n) # len_ext n"
  by (simp add: encode_header_def len_byte_def len_ext_def Let_def)

lemma len_byte_low: "len_byte n AND 0x7F = len_byte n"
  using small_len [of n] by (simp add: len_byte_def)

lemma read_payload_len_fed:
  assumes "fed s (len_ext n @ rest)" "n < 2 ^ 64"
  shows "\<exists>s'. read_payload_len h ((if m then 0x80 else 0) OR len_byte n) s = Done n s' \<and> fed s' rest"
proof -
  have b: "((if m then 0x80 else 0) OR len_byte n) AND 0x7F = len_byte n"
    by (rule second_byte(2) [OF len_byte_low])
  consider "n < 0x7E" | "0x7E \<le> n" "n \<le> 0xFFFF" | "0xFFFF < n" by linarith
  then show ?thesis
  proof cases
    case 1
    then show ?thesis unfolding read_payload_len_def Let_def b
      using assms small_len [of n] by (simp add: len_byte_def len_ext_def)
  next
    case 2
    then obtain s' where "ws_read_size h 2 s = Done (u16_bytes (htons (of_nat n))) s'" "fed s' rest"
      using ws_read_size_fed [of s "u16_bytes (htons (of_nat n))" rest 2 h] assms(1) by (auto simp: len_ext_def)
    then show ?thesis unfolding read_payload_len_def Let_def b
      using 2 by (simp add: len_byte_def unat_of_nat)
  next
    case 3
    then obtain s' where "ws_read_size h 8 s = Done (u64_bytes (ws_htonll (of_nat n))) s'" "fed s' rest"
      using ws_read_size_fed [of s "u64_bytes (ws_htonll (of_nat n))" rest 8 h] assms(1) by (auto simp: len_ext_def)
    then show ?thesis unfolding read_payload_len_def Let_def b
      using 3 assms(2) by (simp add: len_byte_def unat_u64_of_nat)
  qed
qed

lemma read_body_fed:
  assumes "fed s (encode_body tp mkey data @ rest)" "length mkey = 4"
  shows "\<exists>s' s'' k p. (if tp = Client_type then ws_read_size h 4 s else Done [] s) = Done k s'
    \<and> (if length data > 0 then ws_read_size h (length data) s' else Done [] s') = Done p s''
    \<and> (if tp = Client_type then umask p k else p) = data \<and> fed s'' rest"
proof (cases "tp = Client_type")
  case True
  then obtain s' where 1: "ws_read_size h 4 s = Done mkey s'" "fed s' (umask data mkey @ rest)"
    using ws_read_size_fed [of s mkey "umask data mkey @ rest" 4 h] assms by (auto simp: encode_body_def)
  show ?thesis
  proof (cases "data = []")
    case True
    then show ?thesis using 1 \<open>tp = Client_type\<close> by (auto simp: umask_def)
  next
    case False
    then obtain s'' where "ws_read_size h (length data) s' = Done (umask data mkey) s''" "fed s'' rest"
      using ws_read_size_fed [OF 1(2), of "length data" h] by auto
    then show ?thesis using 1 \<open>tp = Client_type\<close> False by simp
  qed
next
  case False
  then have f: "fed s (data @ rest)" using assms by (simp add: encode_body_def)
  show ?thesis
  proof (cases "data = []")
    case True
    then show ?thesis using f \<open>tp \<noteq> Client_type\<close> by simp
  next
    case ne: False
    then obtain s'' where "ws_read_size h (length data) s = Done data s''" "fed s'' rest"
      using ws_read_size_fed [OF f, of "length data" h] by auto
    then show ?thesis using False ne by simp
  qed
qed

lemma read_frame_fed:
  assumes "acceptable last_op op fin" "length mkey = 4" "length data < 2 ^ 64"
    "fed s (encode_frame tp op fin mkey data @ rest)"
  shows "\<exists>s'. read_frame (peer tp) h last_op s = Done (fin, op, data) s' \<and> fed s' rest"
proof -
  let ?v1 = "(if fin then 0x80 else 0) OR op"
  let ?v2 = "(if tp = Client_type then 0x80 else 0) OR len_byte (length data)"
  have v: "valid_op op" using assms(1) by (simp add: acceptable_def)
  note f1 = first_byte [OF v, of fin] and f2 = second_byte [OF len_byte_low, of "tp = Client_type"]
  have f: "fed s ([?v1] @ [?v2] @ len_ext (length data) @ encode_body tp mkey data @ rest)"
    using assms(4) by (simp add: encode_frame_def encode_header_parts)
  obtain s1 where 1: "ws_read_size h 1 s = Done [?v1] s1"
      "fed s1 ([?v2] @ len_ext (length data) @ encode_body tp mkey data @ rest)"
    using ws_read_size_fed [OF f, of 1 h] by auto
  obtain s2 where 2: "ws_read_size h 1 s1 = Done [?v2] s2" "fed s2 (len_ext (length data) @ encode_body tp mkey data @ rest)"
    using ws_read_size_fed [OF 1(2), of 1 h] by auto
  obtain s3 where 3: "read_payload_len h ?v2 s2 = Done (length data) s3" "fed s3 (encode_body tp mkey data @ rest)"
    using read_payload_len_fed [OF 2(2) assms(3), of h] by blast
  obtain s4 s5 k p where 4: "(if tp = Client_type then ws_read_size h 4 s3 else Done [] s3) = Done k s4"
      "(if length data > 0 then ws_read_size h (length data) s4 else Done [] s4) = Done p s5"
      "(if tp = Client_type then umask p k else p) = data" "fed s5 rest"
    using read_body_fed [OF 3(2) assms(2)] by blast
  have pr: "(peer tp = Server_type) = (tp = Client_type)" by (simp add: peer_def)
  have ok: "\<not> (is_websocket_control op \<and> \<not> fin)"
    "\<not> (\<not> is_websocket_control op \<and> (op = op_continuation) = (last_op = op_none))"
    using assms(1) by (auto simp: acceptable_def split: if_splits)
  have "read_frame (peer tp) h last_op s = Done (fin, op, data) s5"
    unfolding read_frame_def 1(1) bind_out_simps Let_def nth_Cons_0 f1 if_not_P [OF ok(1)] if_not_P [OF ok(2)] 2(1)
      f2 pr 3(1) 4(1,2)
    using 4(3) by simp
  then show ?thesis using 4(4) by blast
qed

section \<open>Messages\<close>

lemma ws_read_loop_last:
  assumes "acceptable last_op op True" "length mkey = 4" "length data < 2 ^ 64"
    "fed s (encode_frame tp op True mkey data @ rest)"
  shows "\<exists>s'. ws_read_loop (peer tp) h last_op buf s
      = Some (Done (if op = op_continuation then last_op else op, buf @ data) s') \<and> fed s' rest"
  using read_frame_fed [OF assms, of h] by (subst ws_read_loop.simps) auto

lemma ws_read_loop_more:
  assumes "acceptable last_op op False" "length mkey = 4" "length data < 2 ^ 64"
    "fed s (encode_frame tp op False mkey data @ rest)"
  shows "\<exists>s'. ws_read_loop (peer tp) h last_op buf s
      = ws_read_loop (peer tp) h (if op \<noteq> op_continuation then op else last_op) (buf @ data) s' \<and> fed s' rest"
  using read_frame_fed [OF assms, of h] by (subst ws_read_loop.simps) auto

lemma continuation_acceptable: "last_op \<noteq> op_none \<Longrightarrow> acceptable last_op op_continuation fin"
  by (simp add: acceptable_def valid_op_def is_websocket_control_def)

lemma write_fragments_read:
  assumes pm: "0 < pm" and len: "length temp < 2 ^ 64" and keys: "\<And>i. length (rand i) = 4" and op: "op \<noteq> op_none"
  shows "\<exists>out. write_fragments tp rand i pm temp buf = Some (buf @ out)
     \<and> (\<forall>s rest acc h. fed s (out @ rest) \<longrightarrow>
          (\<exists>s'. ws_read_loop (peer tp) h op acc s = Some (Done (op, acc @ temp) s') \<and> fed s' rest))"
  using len
proof (induction "length temp" arbitrary: temp i buf rule: less_induct)
  case less
  show ?case
  proof (cases "length temp > pm")
    case False
    let ?out = "encode_frame tp op_continuation True (rand i) temp"
    have "write_fragments tp rand i pm temp buf = Some (buf @ ?out)"
      using False by (subst write_fragments.simps) simp
    moreover have "\<exists>s'. ws_read_loop (peer tp) h op acc s = Some (Done (op, acc @ temp) s') \<and> fed s' rest"
      if "fed s (?out @ rest)" for s rest acc h
      using ws_read_loop_last [OF continuation_acceptable [OF op] keys less.prems that, of h acc] by simp
    ultimately show ?thesis by blast
  next
    case True
    let ?f = "encode_frame tp op_continuation False (rand i) (take pm temp)"
    have lt: "length (drop pm temp) < length temp" "length (drop pm temp) < 2 ^ 64" using True pm less.prems by auto
    obtain out where o: "write_fragments tp rand (Suc i) pm (drop pm temp) (buf @ ?f) = Some ((buf @ ?f) @ out)"
        "\<forall>s rest acc h. fed s (out @ rest) \<longrightarrow>
          (\<exists>s'. ws_read_loop (peer tp) h op acc s = Some (Done (op, acc @ drop pm temp) s') \<and> fed s' rest)"
      using less.hyps [OF lt, of "Suc i" "buf @ ?f"] by blast
    have "write_fragments tp rand i pm temp buf = Some (buf @ ?f @ out)"
      using True o(1) by (subst write_fragments.simps) simp
    moreover have "\<exists>s'. ws_read_loop (peer tp) h op acc s = Some (Done (op, acc @ temp) s') \<and> fed s' rest"
      if f: "fed s ((?f @ out) @ rest)" for s rest acc h
    proof -
      have f': "fed s (?f @ out @ rest)" using f by simp
      have l: "length (take pm temp) < 2 ^ 64" using less.prems by simp
      obtain s1 where "ws_read_loop (peer tp) h op acc s = ws_read_loop (peer tp) h op (acc @ take pm temp) s1" "fed s1 (out @ rest)"
        using ws_read_loop_more [OF continuation_acceptable [OF op] keys l f', of h acc] by auto
      then show ?thesis using o(2) by (metis append.assoc append_take_drop_id)
    qed
    ultimately show ?thesis by blast
  qed
qed

lemma data_op_acceptable:
  assumes "valid_op op" "op \<noteq> op_continuation" "is_websocket_control op \<longrightarrow> fin"
  shows "acceptable op_none op fin" "op \<noteq> op_none"
  using assms by (auto simp: acceptable_def valid_op_def)

text \<open>C38: What one endpoint writes the other reads, whatever the packets and whatever the masks: for every opcode
  but continuation and every payload, sent in one frame or in fragments of any positive size, the reader of the
  opposite type returns the opcode and the payload and stops right after the message.\<close>

theorem websocket_message_roundtrip:
  assumes "valid_op op" "op \<noteq> op_continuation" "length data < 2 ^ 64" "\<And>i. length (rand i) = 4" "0 < payload_max"
  shows "\<exists>out. ws_write_max tp op data payload_max rand = Some out
     \<and> (\<forall>s rest h. feeding s \<and> stream s = out @ rest \<longrightarrow>
          (\<exists>s'. ws_read (peer tp) h s = Some (Done (op, data) s') \<and> feeding s' \<and> stream s' = rest))"
proof (cases "length data \<le> payload_max \<or> is_websocket_control op")
  case True
  have a: "acceptable op_none op True" using data_op_acceptable(1) [OF assms(1,2)] by simp
  have "\<exists>s'. ws_read (peer tp) h s = Some (Done (op, data) s') \<and> feeding s' \<and> stream s' = rest"
    if "feeding s \<and> stream s = ws_write tp op data (rand 0) @ rest" for s rest h
    using ws_read_loop_last [OF a assms(4,3), of s tp 0 rest h "[]"] that assms(2)
    by (auto simp: ws_read_def ws_write_def fed_def)
  then show ?thesis using True by (auto simp: ws_write_max_def)
next
  case False
  let ?f = "encode_frame tp op False (rand 0) (take payload_max data)"
  have a: "acceptable op_none op False" and ne: "op \<noteq> op_none"
    using data_op_acceptable [OF assms(1,2)] False by auto
  have l: "length (take payload_max data) < 2 ^ 64" "length (drop payload_max data) < 2 ^ 64" using assms(3) by auto
  obtain out where o: "write_fragments tp rand 1 payload_max (drop payload_max data) ?f = Some (?f @ out)"
      "\<forall>s rest acc h. fed s (out @ rest) \<longrightarrow>
        (\<exists>s'. ws_read_loop (peer tp) h op acc s = Some (Done (op, acc @ drop payload_max data) s') \<and> fed s' rest)"
    using write_fragments_read [where rand = rand and tp = tp and i = 1 and buf = ?f, OF assms(5) l(2) assms(4) ne] by blast
  have "\<exists>s'. ws_read (peer tp) h s = Some (Done (op, data) s') \<and> feeding s' \<and> stream s' = rest"
    if f: "feeding s \<and> stream s = (?f @ out) @ rest" for s rest h
  proof -
    have "fed s (?f @ out @ rest)" using f by (simp add: fed_def)
    then obtain s1 where "ws_read (peer tp) h s = ws_read_loop (peer tp) h op (take payload_max data) s1" "fed s1 (out @ rest)"
      using ws_read_loop_more [OF a assms(4) l(1), of s tp 0 "out @ rest" h "[]"] assms(2) by (auto simp: ws_read_def)
    then show ?thesis using o(2) by (metis append_take_drop_id fed_def)
  qed
  then show ?thesis using False o(1) by (auto simp: ws_write_max_def)
qed

theorem websocket_message_roundtrip_witness:
  "\<exists>out. ws_write_max Client_type 1 [104, 101, 108, 108, 111] 2 (\<lambda>i. [1, 2, 3, of_nat i]) = Some out
     \<and> (\<exists>s'. ws_read Server_type 7 (sample_sock [Data out]) = Some (Done (1, [104, 101, 108, 108, 111]) s') \<and> stream s' = [])"
proof -
  obtain out where o: "ws_write_max Client_type 1 [104, 101, 108, 108, 111] 2 (\<lambda>i. [1, 2, 3, of_nat i]) = Some out"
      "\<forall>s rest h. feeding s \<and> stream s = out @ rest \<longrightarrow>
         (\<exists>s'. ws_read (peer Client_type) h s = Some (Done (1, [104, 101, 108, 108, 111]) s') \<and> feeding s' \<and> stream s' = rest)"
    using websocket_message_roundtrip [of 1 "[104, 101, 108, 108, 111]" "\<lambda>i. [1, 2, 3, of_nat i]" 2 Client_type]
    by (auto simp: valid_op_def)
  have "feeding (sample_sock [Data out]) \<and> stream (sample_sock [Data out]) = out @ []"
    by (simp add: sample_feeding sample_stream)
  then show ?thesis using o by (fastforce simp: peer_def)
qed

lemma write_fragments_zero:
  assumes "write_fragments tp rand i pm temp buf = Some out" shows "pm = 0 \<longrightarrow> temp = []"
  by (rule write_fragments.raw_induct [where P = "\<lambda>tp rand i pm temp buf out. pm = 0 \<longrightarrow> temp = []", OF _ assms])
    (fastforce split: if_splits)

text \<open>Splitting a message into frames of at most 0 bytes never returns: with a limit of 0 every non-empty
  data message makes the loop run forever, with no error.\<close>

theorem zero_payload_max_diverges:
  assumes "data \<noteq> []" "\<not> is_websocket_control op"
  shows "ws_write_max tp op data 0 rand = None"
proof -
  have "write_fragments tp rand 1 0 data buf = None" for buf
    using write_fragments_zero [of tp rand 1 0 data buf] assms(1) by fastforce
  then show ?thesis using assms by (simp add: ws_write_max_def)
qed

theorem zero_payload_max_diverges_witness: "ws_write_max Server_type 1 [65] 0 (\<lambda>_. [0, 0, 0, 0]) = None"
  using zero_payload_max_diverges [of "[65]" 1 Server_type "\<lambda>_. [0, 0, 0, 0]"]
  by (simp add: is_websocket_control_def word_le_nat_alt)

text \<open>A control frame that arrives between the fragments of a message, which the protocol allows, ends the read:
  the reader returns the control opcode with the fragments received so far glued in front of the control
  payload, and the continuation that follows is then refused.\<close>

theorem control_between_fragments:
  assumes "valid_op op" "op \<noteq> op_continuation" "\<not> is_websocket_control op" "valid_op ctl" "is_websocket_control ctl"
    "length k1 = 4" "length k2 = 4" "length k3 = 4" "length d1 < 2 ^ 64" "length d2 < 2 ^ 64"
    "feeding s" "stream s = encode_frame tp op False k1 d1 @ encode_frame tp ctl True k2 d2
       @ encode_frame tp op_continuation True k3 d3"
  shows "\<exists>s1. ws_read (peer tp) h s = Some (Done (ctl, d1 @ d2) s1)
     \<and> (\<exists>s2. ws_read (peer tp) h s1 = Some (Throw read_fail s2))"
proof -
  let ?f2 = "encode_frame tp ctl True k2 d2" and ?f3 = "encode_frame tp op_continuation True k3 d3"
  have a1: "acceptable op_none op False" and a2: "acceptable op ctl True" and c0: "ctl \<noteq> op_continuation"
    using assms(1-5) data_op_acceptable by (auto simp: acceptable_def is_websocket_control_def)
  have "fed s (encode_frame tp op False k1 d1 @ ?f2 @ ?f3)" using assms(11,12) by (simp add: fed_def)
  then obtain s0 where 0: "ws_read (peer tp) h s = ws_read_loop (peer tp) h op d1 s0" "fed s0 (?f2 @ ?f3)"
    using ws_read_loop_more [OF a1 assms(6,9), of s tp "?f2 @ ?f3" h "[]"] assms(2) by (auto simp: ws_read_def)
  obtain s1 where 1: "ws_read_loop (peer tp) h op d1 s0 = Some (Done (ctl, d1 @ d2) s1)" "fed s1 ?f3"
    using ws_read_loop_last [OF a2 assms(7,10) 0(2), of h d1] c0 by auto
  obtain hd3 where f3: "?f3 = 0x80 # hd3" by (simp add: encode_frame_def encode_header_parts)
  obtain s2 where "ws_read_size h 1 s1 = Done [0x80] s2"
    using ws_read_size_fed [of s1 "[0x80]" hd3 1 h] 1(2) f3 by auto
  then have "ws_read (peer tp) h s1 = Some (Throw read_fail s2)"
    unfolding ws_read_def by (subst ws_read_loop.simps) (simp add: read_frame_def is_websocket_control_def)
  then show ?thesis using 0(1) 1(1) by metis
qed

theorem control_between_fragments_witness:
  "\<exists>s1. ws_read Client_type 7 (sample_sock [Data (encode_frame Server_type 1 False [0, 0, 0, 0] [65] @ encode_frame Server_type 9 True [0, 0, 0, 0] [66]
       @ encode_frame Server_type op_continuation True [0, 0, 0, 0] [67])]) = Some (Done (9, [65, 66]) s1)"
  using control_between_fragments [of 1 9 "[0, 0, 0, 0]" "[0, 0, 0, 0]" "[0, 0, 0, 0]" "[65]" "[66]"
      "sample_sock [Data (encode_frame Server_type 1 False [0, 0, 0, 0] [65] @ encode_frame Server_type 9 True [0, 0, 0, 0] [66]
       @ encode_frame Server_type op_continuation True [0, 0, 0, 0] [67])]" Server_type "[67]" 7] sample_feeding sample_stream
  by (simp add: valid_op_def is_websocket_control_def word_le_nat_alt peer_def) blast

text \<open>A frame that breaks the masking rule is refused: a server endpoint throws on an unmasked frame and a
  client endpoint on a masked one, whatever the opcode, length and payload.\<close>

theorem wrong_masking_refused:
  assumes "acceptable op_none op fin" "feeding s" "stream s = encode_frame tp op fin mkey data @ rest"
  shows "\<exists>s'. ws_read tp h s = Some (Throw read_fail s')"
proof -
  let ?v1 = "(if fin then 0x80 else 0) OR op"
  let ?v2 = "(if tp = Client_type then 0x80 else 0) OR len_byte (length data)"
  have v: "valid_op op" using assms(1) by (simp add: acceptable_def)
  note f1 = first_byte [OF v, of fin] and f2 = second_byte [OF len_byte_low, of "tp = Client_type"]
  have f: "fed s ([?v1] @ [?v2] @ len_ext (length data) @ encode_body tp mkey data @ rest)"
    using assms(2,3) by (simp add: fed_def encode_frame_def encode_header_parts)
  obtain s1 where 1: "ws_read_size h 1 s = Done [?v1] s1"
      "fed s1 ([?v2] @ len_ext (length data) @ encode_body tp mkey data @ rest)"
    using ws_read_size_fed [OF f, of 1 h] by auto
  obtain s2 where 2: "ws_read_size h 1 s1 = Done [?v2] s2"
    using ws_read_size_fed [OF 1(2), of 1 h] by auto
  have ok: "\<not> (is_websocket_control op \<and> \<not> fin)"
    "\<not> (\<not> is_websocket_control op \<and> (op = op_continuation) = (op_none = op_none))"
    using assms(1) by (auto simp: acceptable_def split: if_splits)
  have ne: "(tp = Client_type) \<noteq> (tp = Server_type)" by (cases tp) simp_all
  have "read_frame tp h op_none s = Throw read_fail s2"
    unfolding read_frame_def 1(1) bind_out_simps Let_def nth_Cons_0 f1 if_not_P [OF ok(1)] if_not_P [OF ok(2)] 2(1) f2
    using ne by simp
  then show ?thesis unfolding ws_read_def by (subst ws_read_loop.simps) simp
qed

theorem wrong_masking_refused_witness:
  "\<exists>s'. ws_read Server_type 7 (sample_sock [Data (encode_frame Server_type 2 True [] [1, 2, 3])]) = Some (Throw read_fail s')"
  using wrong_masking_refused [of 2 True "sample_sock [Data (encode_frame Server_type 2 True [] [1, 2, 3])]" Server_type "[]" "[1, 2, 3]" "[]" 7]
    sample_feeding sample_stream by (simp add: acceptable_def valid_op_def is_websocket_control_def word_le_nat_alt)

section \<open>The opening handshake\<close>

definition websocket_key_name :: "byte list" where "websocket_key_name = bytes_of ''Sec-WebSocket-Key''"
definition websocket_accept_name :: "byte list" where "websocket_accept_name = bytes_of ''Sec-WebSocket-Accept''"
definition connection_name :: "byte list" where "connection_name = bytes_of ''Connection''"
definition upgrade_name :: "byte list" where "upgrade_name = bytes_of ''Upgrade''"
definition upgrade_value_right :: "byte list" where "upgrade_value_right = bytes_of ''websocket''"
definition handshake_guid :: "byte list" where "handshake_guid = bytes_of ''258EAFA5-E914-47DA-95CA-C5AB0DC85B11''"

definition right_accept :: "byte list \<Rightarrow> byte list" where
  "right_accept key_base64 = base64_encode
     (sha1_final (sha1_update handshake_guid (sha1_update key_base64 (sha1_init sha1_context0))))"

definition handshake_request :: "byte list \<Rightarrow> byte list \<Rightarrow> byte list \<Rightarrow> byte list" where
  "handshake_request uri host key_base64 =
     bytes_of ''GET '' @ uri @ bytes_of '' HTTP/1.1'' @ crlf @
     bytes_of ''Host: '' @ host @ crlf @
     bytes_of ''Connection: Upgrade'' @ crlf @
     bytes_of ''Upgrade: websocket'' @ crlf @
     bytes_of ''Sec-WebSocket-Version: 13'' @ crlf @
     bytes_of ''Sec-WebSocket-Key: '' @ key_base64 @ crlf @ crlf"

text \<open>The loop over the headers of both sides: the first non-empty value of the header \<open>name\<close>, of
  \<open>Connection\<close> and of \<open>Upgrade\<close>.\<close>

fun pick_headers :: "byte list \<Rightarrow> header list \<Rightarrow> byte list \<times> byte list \<times> byte list \<Rightarrow> byte list \<times> byte list \<times> byte list" where
  "pick_headers name [] v = v"
| "pick_headers name (h # hs) (x, c, u) = pick_headers name hs
     (if x = [] \<and> h_name h = name then (h_value h, c, u)
      else if c = [] \<and> h_name h = connection_name then (x, h_value h, u)
      else if u = [] \<and> h_name h = upgrade_name then (x, c, h_value h)
      else (x, c, u))"

text \<open>The checks of the client on the reply, with the value of the accept header it expects.\<close>

definition check_reply :: "byte list \<Rightarrow> reply \<Rightarrow> sock \<Rightarrow> unit outcome" where
  "check_reply expected rep s =
     (let (accept_value, connection_value, upgrade_value) = pick_headers websocket_accept_name (rep_headers rep) ([], [], [])
      in if upgrade_value \<noteq> upgrade_value_right then Throw (Logic_error ''handshake upgrade_value is invalid'') s
         else if find_sub upgrade_name connection_value = None
         then Throw (Logic_error ''handshake connection_value is invalid'') s
         else if accept_value = [] then Throw (Logic_error ''handshake websocket_accept_value is invalid'') s
         else if expected \<noteq> accept_value then Throw (Logic_error ''handshake websocket_accept_value is invalid'') s
         else Done () s)"

definition client_handshake ::
    "websocket_type \<Rightarrow> coro \<Rightarrow> byte list \<Rightarrow> byte list \<Rightarrow> byte list \<Rightarrow> sock \<Rightarrow> byte list \<times> unit outcome option" where
  "client_handshake tp h host uri rand_key s =
     (if tp \<noteq> Client_type then ([], Some (Throw (Logic_error ''tp_ must be websocket_type::client'') s))
      else let key_base64 = base64_encode rand_key
           in (handshake_request uri host key_base64,
               map_option (\<lambda>r. bind_out r (check_reply (right_accept key_base64))) (parser_reply h empty_reply s)))"

definition accept_reply :: "byte list \<Rightarrow> reply" where
  "accept_reply key_value = \<lparr>rep_status = 101, rep_headers =
     [\<lparr>h_name = connection_name, h_value = upgrade_name\<rparr>, \<lparr>h_name = upgrade_name, h_value = upgrade_value_right\<rparr>,
      \<lparr>h_name = websocket_accept_name, h_value = right_accept key_value\<rparr>], rep_content = []\<rparr>"

definition answer_request :: "request \<Rightarrow> sock \<Rightarrow> byte list \<times> unit outcome" where
  "answer_request req s =
     (let (key_value, connection_value, upgrade_value) = pick_headers websocket_key_name (req_headers req) ([], [], []);
          refuse = (\<lambda>msg. (to_buffer (stock 400), Throw (Logic_error msg) s))
      in if upgrade_value \<noteq> upgrade_value_right then refuse ''handshake upgrade_value is invalid''
         else if find_sub upgrade_name connection_value = None then refuse ''handshake connection_value is invalid''
         else if key_value = [] then refuse ''handshake websocket_key_value is invalid''
         else (to_buffer (accept_reply key_value), Done () s))"

definition server_handshake :: "websocket_type \<Rightarrow> coro \<Rightarrow> sock \<Rightarrow> (byte list \<times> unit outcome) option" where
  "server_handshake tp h s =
     (if tp \<noteq> Server_type then Some ([], Throw (Logic_error ''tp_ must be websocket_type::server'') s)
      else map_option (\<lambda>r. case r of Done req s' \<Rightarrow> answer_request req s'
                                   | Throw e s' \<Rightarrow> ([], Throw e s') | Suspended s' \<Rightarrow> ([], Suspended s'))
             (parser_request h empty_request s))"

lemma base64_char_mem: "is_sextet x \<Longrightarrow> base64_char x \<in> set base64_chars"
  using is_sextet_less [of x] base64_chars_distinct(2) by (simp add: base64_char_def)

lemma sextets_chars: "set (map base64_char (char_array_3_to_4 [a, b, c])) \<subseteq> set base64_chars"
proof -
  obtain x y z w where q: "char_array_3_to_4 [a, b, c] = [x, y, z, w]" by (simp add: char_array_3_to_4_bits)
  show ?thesis using take_char_array [OF q] base64_char_mem by (simp add: q)
qed

lemma base64_encode_chars: "set (base64_encode input) \<subseteq> insert 61 (set base64_chars)"
proof (induction input rule: list_by_threes)
  case 1
  then show ?case by (simp add: encode_empty)
next
  case (2 a)
  then show ?case using sextets_chars [of a 0 0] by (auto simp: encode_tail of_char_def dest!: in_set_takeD)
next
  case (3 a b)
  then show ?case using sextets_chars [of a b 0] by (auto simp: encode_tail of_char_def dest!: in_set_takeD)
next
  case (4 a b c xs)
  then show ?case using sextets_chars [of a b c] by (auto simp: encode_group)
qed

lemma base64_not_ctl: "list_all (\<lambda>ch. \<not> is_ctl ch) (base64_encode input)"
proof -
  have "\<forall>ch \<in> insert 61 (set base64_chars). \<not> is_ctl ch" by (simp add: base64_chars_codes is_ctl_def)
  then show ?thesis using base64_encode_chars [of input] by (auto simp: list_all_iff)
qed

lemma base64_nonempty: "input \<noteq> [] \<Longrightarrow> base64_encode input \<noteq> []"
proof (induction input rule: list_by_threes)
  case (4 a b c xs)
  then show ?case by (simp add: encode_group char_array_3_to_4_def)
qed (simp_all add: encode_tail)

lemmas name_defs = websocket_key_name_def websocket_accept_name_def connection_name_def upgrade_name_def
  upgrade_value_right_def content_length_def bytes_of_def of_char_def

lemma accept_reply_ok: "reply_ok (accept_reply k)"
  using base64_not_ctl
  by (simp add: reply_ok_def accept_reply_def known_status_def header_ok_def declared_size_def right_accept_def
      name_defs is_token_def is_char_def is_ctl_def is_special_def)

lemma right_accept_nonempty: "right_accept k \<noteq> []"
proof -
  have "length (sha1_final (sha1_update handshake_guid (sha1_update k (sha1_init sha1_context0)))) = 20"
    using sha1h.hash_chunks [of "[k, handshake_guid]"] length_fips180 by simp
  then show ?thesis unfolding right_accept_def by (intro base64_nonempty) auto
qed

lemma check_accept_reply: "check_reply (right_accept k) (accept_reply k) s = Done () s"
  using right_accept_nonempty [of k]
  by (simp add: check_reply_def accept_reply_def name_defs find_sub_Cons)

definition request_headers :: "byte list \<Rightarrow> byte list \<Rightarrow> header list" where
  "request_headers host key_base64 =
     [\<lparr>h_name = bytes_of ''Host'', h_value = host\<rparr>, \<lparr>h_name = connection_name, h_value = upgrade_name\<rparr>,
      \<lparr>h_name = upgrade_name, h_value = upgrade_value_right\<rparr>,
      \<lparr>h_name = bytes_of ''Sec-WebSocket-Version'', h_value = bytes_of ''13''\<rparr>,
      \<lparr>h_name = websocket_key_name, h_value = key_base64\<rparr>]"

lemma handshake_request_lines:
  "handshake_request uri host k = (bytes_of ''GET'' @ 32 # uri @ [32, 72, 84, 84, 80, 47] @ [49] @ 46 # [49]) @ crlf
     @ concat (map header_line (request_headers host k)) @ crlf"
  by (simp add: handshake_request_def request_headers_def header_line_def name_value_separator_def name_defs)

lemma request_headers_ok:
  assumes "list_all (\<lambda>ch. \<not> is_ctl ch) host" "list_all (\<lambda>ch. \<not> is_ctl ch) k"
  shows "list_all header_ok (request_headers host k)" "declared_size (request_headers host k) = 0"
  using assms by (simp_all add: request_headers_def header_ok_def declared_size_def name_defs
      is_token_def is_char_def is_ctl_def is_special_def)

lemma handshake_request_parsed:
  assumes "uri_chars uri" "list_all (\<lambda>ch. \<not> is_ctl ch) host" "list_all (\<lambda>ch. \<not> is_ctl ch) k"
    "fed s (handshake_request uri host k @ rest)"
  shows "\<exists>req s'. parser_request h empty_request s = Some (Done req s') \<and> req_headers req = request_headers host k
     \<and> req_uri req = uri \<and> fed s' rest"
proof -
  let ?line = "bytes_of ''GET'' @ 32 # uri @ [32, 72, 84, 84, 80, 47] @ [49] @ 46 # [49]"
  let ?hs = "request_headers host k"
  let ?req = "empty_request\<lparr>req_method := bytes_of ''GET'', req_uri := uri, req_version_major := decimal [49], req_version_minor := decimal [49]\<rparr>"
  have get: "token (bytes_of ''GET'')" "digits [49]"
    by (simp_all add: token_def digits_def is_digit_def bytes_of_def of_char_def is_token_def is_char_def is_ctl_def is_special_def)
  have line: "parse_request_line empty_request ?line = Some ?req"
    unfolding parse_request_line_def request_line_complete [OF get(1) assms(1) get(2) get(2)] by simp
  have cr: "13 \<notin> set ?line" using assms(1) special_chars(4)
    by (auto simp: uri_chars_def list_all_iff bytes_of_def of_char_def)
  have "fed s (?line @ crlf @ concat (map header_line ?hs) @ crlf @ [] @ rest)"
    using assms(4) by (simp add: handshake_request_lines)
  then obtain s1 where s1: "parser_line h s = Done ?line s1" "fed s1 (concat (map header_line ?hs) @ crlf @ [] @ rest)"
    using parser_line_fed [OF _ cr] by blast
  obtain s2 where s2: "parser_header_body h [] [] s1 = Some (Done (?hs, []) s2)" "fed s2 rest"
    using parser_header_body_fed [OF request_headers_ok(1) [OF assms(2,3)] _ s1(2), of h] request_headers_ok(2) [OF assms(2,3)] by auto
  have "parser_request h empty_request s = Some (Done (?req\<lparr>req_headers := ?hs, req_content := []\<rparr>) s2)"
    using s1(1) s2(1) line by (simp add: parser_request_def parser_request_line_def bind_opt_def empty_request_def)
  then show ?thesis using s2(2) by simp
qed

text \<open>The opening handshake of the two endpoints succeeds: for every random key, host and uri of legal
  characters, the request the client sends makes the server accept and answer with status 101, and this answer,
  in any packets, makes the client's check of the accept value succeed; both are left right after the handshake.\<close>

theorem websocket_handshake:
  assumes "uri_chars uri" "list_all (\<lambda>ch. \<not> is_ctl ch) host" "key \<noteq> []"
    "feeding s1" "stream s1 = fst (client_handshake Client_type h host uri key s2) @ rest1"
    "feeding s2" "\<And>r. server_handshake Server_type h' s1 = Some r \<Longrightarrow> stream s2 = fst r @ rest2"
  shows "\<exists>answer s1' s2'. server_handshake Server_type h' s1 = Some (answer, Done () s1') \<and> feeding s1' \<and> stream s1' = rest1
     \<and> snd (client_handshake Client_type h host uri key s2) = Some (Done () s2') \<and> feeding s2' \<and> stream s2' = rest2"
proof -
  let ?k = "base64_encode key"
  have k: "?k \<noteq> []" "list_all (\<lambda>ch. \<not> is_ctl ch) ?k" using base64_nonempty [OF assms(3)] base64_not_ctl by auto
  have "fed s1 (handshake_request uri host ?k @ rest1)"
    using assms(4,5) by (simp add: fed_def client_handshake_def Let_def)
  then obtain req s1' where r: "parser_request h' empty_request s1 = Some (Done req s1')" "req_headers req = request_headers host ?k"
      "fed s1' rest1"
    using handshake_request_parsed [OF assms(1,2) k(2)] by blast
  have pick: "pick_headers websocket_key_name (request_headers host ?k) ([], [], []) = (?k, upgrade_name, upgrade_value_right)"
    by (simp add: request_headers_def name_defs)
  have f: "find_sub upgrade_name upgrade_name \<noteq> None" by (simp add: name_defs find_sub_Cons)
  have server: "server_handshake Server_type h' s1 = Some (to_buffer (accept_reply ?k), Done () s1')"
    using r(1,2) pick f k(1) by (simp add: server_handshake_def answer_request_def)
  have "fed s2 (to_buffer (accept_reply ?k) @ rest2)" using assms(6) assms(7) [OF server] by (simp add: fed_def)
  then obtain s2' where "parser_reply h empty_reply s2 = Some (Done (accept_reply ?k) s2')" "fed s2' rest2"
    using reply_parsed [OF accept_reply_ok] by blast
  then have "snd (client_handshake Client_type h host uri key s2) = Some (Done () s2') \<and> fed s2' rest2"
    by (simp add: client_handshake_def Let_def check_accept_reply)
  then show ?thesis using server r(3) by (auto simp: fed_def)
qed

theorem websocket_handshake_witness:
  "\<exists>answer s1'. server_handshake Server_type 1
      (sample_sock [Data (handshake_request [47] [104] (base64_encode [1, 2, 3]))]) = Some (answer, Done () s1') \<and> stream s1' = []"
proof -
  let ?s1 = "sample_sock [Data (handshake_request [47] [104] (base64_encode [1, 2, 3]))]"
  let ?s2 = "sample_sock [Data (case server_handshake Server_type 1 ?s1 of Some r \<Rightarrow> fst r | None \<Rightarrow> [])]"
  have u: "uri_chars [47]" "list_all (\<lambda>ch. \<not> is_ctl ch) [104]" by (simp_all add: uri_chars_def is_ctl_def)
  show ?thesis
    using websocket_handshake [OF u, of "[1, 2, 3]" ?s1 2 ?s2 "[]" 1 "[]"]
    by (auto simp: sample_feeding sample_stream client_handshake_def Let_def)
qed

text \<open>A server refuses a request without the right upgrade headers or without a key: it sends the stock
  reply 400, which the peer can parse, and throws.\<close>

theorem server_refuses_bad_request:
  assumes "feeding s" "parser_request h empty_request s = Some (Done req s')"
    "pick_headers websocket_key_name (req_headers req) ([], [], []) = (k, c, u)"
    "u \<noteq> upgrade_value_right \<or> find_sub upgrade_name c = None \<or> k = []"
  shows "\<exists>msg. server_handshake Server_type h s = Some (to_buffer (stock 400), Throw (Logic_error msg) s')
     \<and> (\<forall>t. feeding t \<and> stream t = to_buffer (stock 400) \<longrightarrow>
          (\<exists>t'. parser_reply h empty_reply t = Some (Done (stock 400) t')))"
proof -
  have "reply_ok (stock 400)" by (rule stock_ok) (simp add: known_status_def)
  then have "\<exists>t'. parser_reply h empty_reply t = Some (Done (stock 400) t')"
    if "feeding t" "stream t = to_buffer (stock 400)" for t
    using reply_parsed [of "stock 400" t "[]" h] that by (auto simp: fed_def)
  then show ?thesis using assms(2-4) by (auto simp: server_handshake_def answer_request_def Let_def)
qed

theorem server_refuses_bad_request_witness:
  "\<exists>msg s'. server_handshake Server_type 1 (sample_sock [Data (bytes_of ''GET / HTTP/1.1'' @ crlf @ crlf)])
     = Some (to_buffer (stock 400), Throw (Logic_error msg) s')"
proof -
  let ?s = "sample_sock [Data (bytes_of ''GET / HTTP/1.1'' @ crlf @ crlf)]"
  have f: "fed ?s (bytes_of ''GET / HTTP/1.1'' @ crlf @ crlf)" by (simp add: fed_def sample_feeding sample_stream)
  obtain s1 where 1: "parser_line 1 ?s = Done (bytes_of ''GET / HTTP/1.1'') s1" "fed s1 crlf"
    using parser_line_fed [OF f, of 1] by (auto simp: bytes_of_def of_char_def)
  obtain s2 where 2: "parser_header_body 1 [] [] s1 = Some (Done ([], []) s2)"
    using parser_header_body_fed [of "[]" "[]" s1 "[]" 1] 1(2) by (auto simp: declared_size_def)
  obtain req s' where p: "parser_request 1 empty_request ?s = Some (Done req s')" "req_headers req = []"
    using 1(1) 2 by (auto simp: parser_request_def parser_request_line_def bind_opt_def parse_request_line_def
        bytes_of_def of_char_def expect_def is_token_def is_char_def is_ctl_def is_special_def is_digit_def empty_request_def)
  have u: "[] \<noteq> upgrade_value_right" by (simp add: name_defs)
  show ?thesis
    using server_refuses_bad_request [OF _ p(1), of "[]" "[]" "[]"] p(2) u sample_feeding by fastforce
qed

end
