(* ===== verification/Waiter_List.thy ===== *)
theory Waiter_List
  imports Prelude
begin

text \<open>
  The intrusive doubly linked list of suspended awaiters that \<open>mutex_state\<close> and
  \<open>condition_variable_state\<close> keep (\<open>runtime/src/coro/mutex.cpp\<close>,
  \<open>runtime/src/coro/condition_variable.cpp\<close>): \<open>header_\<close>, \<open>tail_\<close> and the links inside the awaiters,
  which live in a store indexed by their address; no address is the null pointer.  The contract its
  clients rely on is the locale \<open>waiter_queue\<close>: a queue in order of arrival from which any element can leave.
\<close>

section \<open>The list\<close>

record waiters =
  header :: "addr option"
  tail :: "addr option"
  next_link :: "addr \<Rightarrow> addr option"
  prev_link :: "addr \<Rightarrow> addr option"

definition empty_waiters :: waiters where
  "empty_waiters = \<lparr>header = None, tail = None, next_link = (\<lambda>_. None), prev_link = (\<lambda>_. None)\<rparr>"

definition add_awaiter :: "addr \<Rightarrow> waiters \<Rightarrow> waiters" where
  "add_awaiter a w =
     (if next_link w a \<noteq> None \<or> header w = Some a then w
      else if prev_link w a \<noteq> None \<or> tail w = Some a then w
      else let w = w\<lparr>next_link := (next_link w)(a := None), prev_link := (prev_link w)(a := tail w)\<rparr>;
               w = (case tail w of None \<Rightarrow> w | Some t \<Rightarrow> w\<lparr>next_link := (next_link w)(t := Some a)\<rparr>);
               w = w\<lparr>tail := Some a\<rparr>
           in if header w = None then w\<lparr>header := Some a\<rparr> else w)"

definition remove_awaiter :: "addr \<Rightarrow> waiters \<Rightarrow> waiters" where
  "remove_awaiter a w =
     (let w = (if header w = Some a then w\<lparr>header := next_link w a\<rparr> else w);
          w = (if tail w = Some a then w\<lparr>tail := prev_link w a\<rparr> else w);
          w = (case prev_link w a of None \<Rightarrow> w | Some p \<Rightarrow> w\<lparr>next_link := (next_link w)(p := next_link w a)\<rparr>);
          w = (case next_link w a of None \<Rightarrow> w | Some n \<Rightarrow> w\<lparr>prev_link := (prev_link w)(n := prev_link w a)\<rparr>)
      in w\<lparr>next_link := (next_link w)(a := None), prev_link := (prev_link w)(a := None)\<rparr>)"

definition has_awaiter :: "addr \<Rightarrow> waiters \<Rightarrow> bool" where
  "has_awaiter a w \<longleftrightarrow> next_link w a \<noteq> None \<or> prev_link w a \<noteq> None \<or> header w = Some a"

section \<open>What the links hold\<close>

fun first_of :: "'a list \<Rightarrow> 'a option" where
  "first_of [] = None"
| "first_of (x # xs) = Some x"

fun last_of :: "'a list \<Rightarrow> 'a option" where
  "last_of [] = None"
| "last_of [x] = Some x"
| "last_of (x # xs) = last_of xs"

fun next_of :: "'a list \<Rightarrow> 'a \<Rightarrow> 'a option" where
  "next_of [] a = None"
| "next_of (x # xs) a = (if x = a then first_of xs else next_of xs a)"

fun prev_from :: "'a option \<Rightarrow> 'a list \<Rightarrow> 'a \<Rightarrow> 'a option" where
  "prev_from p [] a = None"
| "prev_from p (x # xs) a = (if x = a then p else prev_from (Some x) xs a)"

definition linked :: "waiters \<Rightarrow> addr list \<Rightarrow> bool" where
  "linked w xs \<longleftrightarrow> distinct xs \<and> header w = first_of xs \<and> tail w = last_of xs
     \<and> next_link w = next_of xs \<and> prev_link w = prev_from None xs"

lemma last_of_append [simp]: "last_of (xs @ [a]) = Some a"
  by (induction xs rule: last_of.induct) auto

lemma last_of_Cons: "last_of (x # xs) = (if xs = [] then Some x else last_of xs)"
  by (cases xs) auto

lemma last_of_None [simp]: "last_of xs = None \<longleftrightarrow> xs = []"
  by (induction xs rule: last_of.induct) auto

lemma first_of_None [simp]: "first_of xs = None \<longleftrightarrow> xs = []"
  by (cases xs) auto

lemma first_of_append: "first_of (xs @ ys) = (if xs = [] then first_of ys else first_of xs)"
  by (cases xs) auto

lemma last_of_mem: "last_of xs = Some a \<Longrightarrow> a \<in> set xs"
  by (induction xs rule: last_of.induct) auto

lemma next_of_absent: "a \<notin> set xs \<Longrightarrow> next_of xs a = None"
  by (induction xs) auto

lemma prev_from_absent: "a \<notin> set xs \<Longrightarrow> prev_from p xs a = None"
  by (induction xs arbitrary: p) auto

lemma next_of_middle: "a \<notin> set ys \<Longrightarrow> next_of (ys @ a # zs) a = first_of zs"
  by (induction ys) auto

lemma prev_from_middle:
  "a \<notin> set ys \<Longrightarrow> prev_from p (ys @ a # zs) a = (if ys = [] then p else last_of ys)"
  by (induction ys arbitrary: p) (auto simp: last_of_Cons)


lemma next_of_snoc:
  "distinct xs \<Longrightarrow> a \<notin> set xs \<Longrightarrow>
   next_of (xs @ [a]) b = (if b = a then None else if last_of xs = Some b then Some a else next_of xs b)"
proof (induction xs)
  case (Cons x xs)
  then show ?case
    by (cases xs) (auto simp: next_of_absent dest: last_of_mem)
qed auto

lemma prev_from_snoc:
  "a \<notin> set xs \<Longrightarrow>
   prev_from p (xs @ [a]) b = (if b = a then (if xs = [] then p else last_of xs) else prev_from p xs b)"
  by (induction xs arbitrary: p) (auto simp: last_of_Cons)

lemma next_of_drop:
  "distinct (ys @ a # zs) \<Longrightarrow>
   next_of (ys @ zs) b = (if b = a then None else if last_of ys = Some b then first_of zs else next_of (ys @ a # zs) b)"
proof (induction ys)
  case Nil
  then show ?case by (auto simp: next_of_absent)
next
  case (Cons y ys)
  show ?case
  proof (cases "y = b")
    case True
    then have "b \<noteq> a" "last_of ys \<noteq> Some b" using Cons.prems last_of_mem by fastforce+
    then show ?thesis using True by (simp add: last_of_Cons first_of_append)
  next
    case False
    then show ?thesis using Cons.IH Cons.prems by (simp add: last_of_Cons)
  qed
qed

lemma prev_from_drop:
  "distinct (ys @ a # zs) \<Longrightarrow>
   prev_from p (ys @ zs) b = (if b = a then None else if first_of zs = Some b
     then (if ys = [] then p else last_of ys) else prev_from p (ys @ a # zs) b)"
proof (induction ys arbitrary: p)
  case Nil
  then show ?case by (cases zs) (auto simp: prev_from_absent)
next
  case (Cons y ys)
  then show ?case by (cases zs) (auto simp: last_of_Cons)
qed

lemma linked_member: "linked w xs \<Longrightarrow> has_awaiter a w \<longleftrightarrow> a \<in> set xs"
proof -
  assume l: "linked w xs"
  show ?thesis
  proof (cases "a \<in> set xs")
    case True
    then obtain ys zs where xs: "xs = ys @ a # zs" by (metis split_list)
    then have "a \<notin> set ys" using l by (auto simp: linked_def)
    then show ?thesis using l True xs by (cases "ys = []") (auto simp: linked_def has_awaiter_def prev_from_middle)
  next
    case False
    then show ?thesis using l
      by (cases xs) (auto simp: linked_def has_awaiter_def next_of_absent prev_from_absent simp del: next_of.simps prev_from.simps)
  qed
qed

lemma linked_add_present: "linked w xs \<Longrightarrow> a \<in> set xs \<Longrightarrow> add_awaiter a w = w"
  using linked_member [of w xs a] by (auto simp: add_awaiter_def has_awaiter_def)

lemma linked_add:
  assumes "linked w xs" "a \<notin> set xs"
  shows "linked (add_awaiter a w) (xs @ [a])"
proof -
  have n: "next_link w a = None" "prev_link w a = None" "header w \<noteq> Some a" "tail w \<noteq> Some a"
    using assms linked_member [OF assms(1), of a] by (auto simp: has_awaiter_def linked_def dest: last_of_mem)
  have "next_link (add_awaiter a w) = next_of (xs @ [a])"
    using assms n by (intro ext) (auto simp: add_awaiter_def Let_def linked_def next_of_snoc split: option.splits)
  moreover have "prev_link (add_awaiter a w) = prev_from None (xs @ [a])"
    using assms n by (intro ext) (auto simp: add_awaiter_def Let_def linked_def prev_from_snoc split: option.splits)
  ultimately show ?thesis
    using assms n by (auto simp: add_awaiter_def Let_def linked_def first_of_append split: option.splits)
qed

lemma linked_remove_absent:
  assumes "linked w xs" "a \<notin> set xs" shows "remove_awaiter a w = w"
proof -
  have "next_link w a = None" "prev_link w a = None" "header w \<noteq> Some a" "tail w \<noteq> Some a"
    using assms linked_member [OF assms(1), of a] by (auto simp: has_awaiter_def linked_def dest: last_of_mem)
  then show ?thesis by (simp add: remove_awaiter_def Let_def fun_upd_idem)
qed

lemma linked_remove:
  assumes "linked w (ys @ a # zs)"
  shows "linked (remove_awaiter a w) (ys @ zs)"
proof -
  have d: "distinct (ys @ a # zs)" "a \<notin> set ys" "a \<notin> set zs" using assms by (auto simp: linked_def)
  have n: "next_link w a = first_of zs" "prev_link w a = last_of ys"
    using assms d by (auto simp: linked_def next_of_middle prev_from_middle)
  have ends: "first_of zs \<noteq> Some a" "last_of ys \<noteq> Some a" using d last_of_mem [of ys a] by (cases zs, auto)
  have "next_link (remove_awaiter a w) b = next_of (ys @ zs) b" for b
    using assms n ends next_of_drop [OF d(1), of b]
    by (auto simp: remove_awaiter_def Let_def linked_def split: option.splits)
  moreover have "prev_link (remove_awaiter a w) b = prev_from None (ys @ zs) b" for b
    using assms n ends prev_from_drop [OF d(1), of None b]
    by (auto simp: remove_awaiter_def Let_def linked_def split: option.splits)
  moreover have "header (remove_awaiter a w) = first_of (ys @ zs)"
    using assms n d by (cases ys) (auto simp: remove_awaiter_def Let_def linked_def first_of_append split: option.splits)
  moreover have "tail (remove_awaiter a w) = last_of (ys @ zs)"
  proof (cases zs rule: rev_cases)
    case Nil
    then show ?thesis using assms n by (auto simp: remove_awaiter_def Let_def linked_def split: option.splits)
  next
    case (snoc us u)
    then have t: "last_of (ys @ a # zs) = Some u" "last_of (ys @ zs) = Some u" "u \<noteq> a"
      using last_of_append [of "ys @ a # us" u] last_of_append [of "ys @ us" u] d(3) by auto
    then show ?thesis using assms by (auto simp: remove_awaiter_def Let_def linked_def split: option.splits)
  qed
  ultimately show ?thesis using d by (auto simp: linked_def)
qed

section \<open>The contract\<close>

locale waiter_queue =
  fixes rep :: "'w \<Rightarrow> 'a list \<Rightarrow> bool"
    and add :: "'a \<Rightarrow> 'w \<Rightarrow> 'w"
    and remove :: "'a \<Rightarrow> 'w \<Rightarrow> 'w"
    and front :: "'w \<Rightarrow> 'a option"
    and waiting :: "'a \<Rightarrow> 'w \<Rightarrow> bool"
  assumes rep_distinct: "rep w xs \<Longrightarrow> distinct xs"
    and add_law: "rep w xs \<Longrightarrow> rep (add a w) (if a \<in> set xs then xs else xs @ [a])"
    and remove_law: "rep w xs \<Longrightarrow> rep (remove a w) (remove1 a xs)"
    and front_law: "rep w xs \<Longrightarrow> front w = first_of xs"
    and waiting_law: "rep w xs \<Longrightarrow> waiting a w \<longleftrightarrow> a \<in> set xs"
begin

lemma pop_law: "rep w (a # xs) \<Longrightarrow> front w = Some a \<and> rep (remove a w) xs"
  using front_law [of w "a # xs"] remove_law [of w "a # xs" a] by simp

text \<open>Taking the front until the list is empty gives everything in order of arrival.\<close>

fun drain :: "nat \<Rightarrow> 'w \<Rightarrow> 'a list \<times> 'w" where
  "drain 0 w = ([], w)"
| "drain (Suc n) w = (case front w of None \<Rightarrow> ([], w)
     | Some a \<Rightarrow> (let (as, w') = drain n (remove a w) in (a # as, w')))"

lemma drain_in_order: "rep w xs \<Longrightarrow> length xs \<le> n \<Longrightarrow> fst (drain n w) = xs \<and> rep (snd (drain n w)) []"
proof (induction n arbitrary: w xs)
  case (Suc n)
  show ?case
  proof (cases xs)
    case Nil
    then show ?thesis using Suc.prems front_law [of w xs] by simp
  next
    case (Cons a as)
    then show ?thesis using Suc.prems pop_law [of w a as] Suc.IH [of "remove a w" as]
      by (simp add: split_beta Let_def)
  qed
qed simp

end

lemma linked_add_law: "linked w xs \<Longrightarrow> linked (add_awaiter a w) (if a \<in> set xs then xs else xs @ [a])"
  using linked_add linked_add_present by simp

lemma linked_remove_law: "linked w xs \<Longrightarrow> linked (remove_awaiter a w) (remove1 a xs)"
proof (cases "a \<in> set xs")
  case True
  assume l: "linked w xs"
  from True obtain ys zs where "xs = ys @ a # zs" "a \<notin> set ys" by (metis split_list_first)
  then show ?thesis using linked_remove l by (simp add: remove1_append)
next
  case False
  assume l: "linked w xs"
  then show ?thesis using linked_remove_absent [OF l False] False by (simp add: remove1_idem)
qed

interpretation wl: waiter_queue linked add_awaiter remove_awaiter header has_awaiter
  by unfold_locales (auto simp: linked_add_law linked_remove_law linked_member, simp_all add: linked_def)

lemma linked_empty: "linked empty_waiters []"
  by (simp add: linked_def empty_waiters_def fun_eq_iff)

end
