(* ===== verification/Coro_Mutex.thy ===== *)
theory Coro_Mutex
  imports Waiter_List "HOL-Library.Transitive_Closure_Table"
begin

text \<open>
  The coroutine mutex of \<open>runtime/src/coro/mutex.cpp\<close> and \<open>mutex.h\<close> with cancellation: \<open>mutex_state\<close>, the
  awaiter's \<open>await_suspend\<close> and \<open>await_resume\<close>, the callback it registers with its token, and the scheduler's
  queue of coroutines to resume.  Everything runs on the scheduler's thread, so a step is one call; a coroutine
  and its awaiter have the same address.  \<open>m_holders\<close> and \<open>m_canceled_out\<close> record, in order, which coroutines came
  back from \<open>lock\<close> (and have not unlocked) and which got the exception \<open>canceled\<close>.
\<close>

section \<open>The code\<close>

record mutex_sys =
  m_locked :: bool
  m_waiters :: waiters
  m_registered :: "addr list"
  m_cancelled :: "nat set"
  m_wake :: "addr list"
  m_holders :: "addr list"
  m_canceled_out :: "addr list"

definition wake_up_coroutine :: "addr \<Rightarrow> mutex_sys \<Rightarrow> mutex_sys" where
  "wake_up_coroutine a m = m\<lparr>m_wake := m_wake m @ [a]\<rparr>"

definition reset_registration :: "addr \<Rightarrow> mutex_sys \<Rightarrow> mutex_sys" where
  "reset_registration a m = m\<lparr>m_registered := removeAll a (m_registered m)\<rparr>"

definition try_lock :: "addr \<Rightarrow> mutex_sys \<Rightarrow> bool \<times> mutex_sys" where
  "try_lock a m = (if \<not> m_locked m then (True, m\<lparr>m_locked := True\<rparr>)
     else (False, m\<lparr>m_waiters := add_awaiter a (m_waiters m)\<rparr>))"

definition mutex_unlock :: "mutex_sys \<Rightarrow> mutex_sys" where
  "mutex_unlock m =
     (if \<not> m_locked m then m
      else case header (m_waiters m) of
             Some a \<Rightarrow> wake_up_coroutine a (reset_registration a
                        (m\<lparr>m_waiters := remove_awaiter a (m_waiters m)\<rparr>))
           | None \<Rightarrow> m\<lparr>m_locked := False\<rparr>)"

text \<open>\<open>await_resume\<close>, with the token \<open>tok a\<close> of the coroutine.\<close>

definition mutex_await_resume :: "(addr \<Rightarrow> nat) \<Rightarrow> addr \<Rightarrow> mutex_sys \<Rightarrow> mutex_sys" where
  "mutex_await_resume tok a m =
     (let m = reset_registration a m
      in if tok a \<in> m_cancelled m then m\<lparr>m_canceled_out := m_canceled_out m @ [a]\<rparr>
         else m\<lparr>m_holders := m_holders m @ [a]\<rparr>)"

text \<open>\<open>co_await mtx.lock()\<close>: \<open>await_suspend\<close>, and \<open>await_resume\<close> at once when it does not suspend.  Every
  token can be cancelled until it has been.\<close>

definition mutex_lock :: "(addr \<Rightarrow> nat) \<Rightarrow> addr \<Rightarrow> mutex_sys \<Rightarrow> mutex_sys" where
  "mutex_lock tok a m =
     (if tok a \<in> m_cancelled m then mutex_await_resume tok a m
      else case try_lock a m of
             (True, m') \<Rightarrow> mutex_await_resume tok a m'
           | (False, m') \<Rightarrow> m'\<lparr>m_registered := a # m_registered m'\<rparr>)"

text \<open>\<open>request_cancellation\<close> of the token \<open>t\<close>: it is marked, then the callbacks registered with it run,
  last registered first, each one taken off the list before it is called.\<close>

definition mutex_callback :: "addr \<Rightarrow> mutex_sys \<Rightarrow> mutex_sys" where
  "mutex_callback a m = wake_up_coroutine a (reset_registration a (m\<lparr>m_waiters := remove_awaiter a (m_waiters m)\<rparr>))"

definition mutex_cancel :: "(addr \<Rightarrow> nat) \<Rightarrow> nat \<Rightarrow> mutex_sys \<Rightarrow> mutex_sys" where
  "mutex_cancel tok t m =
     (if t \<in> m_cancelled m then m
      else fold mutex_callback (filter (\<lambda>a. tok a = t) (m_registered m)) (m\<lparr>m_cancelled := insert t (m_cancelled m)\<rparr>))"

definition mutex_start :: mutex_sys where
  "mutex_start = \<lparr>m_locked = False, m_waiters = empty_waiters, m_registered = [], m_cancelled = {}, m_wake = [],
     m_holders = [], m_canceled_out = []\<rparr>"

text \<open>The runs: a coroutine that is nowhere in the system calls \<open>lock\<close>, a holder calls \<open>unlock\<close>, somebody
  requests cancellation, the scheduler resumes the next coroutine of its queue.\<close>

inductive mutex_step :: "(addr \<Rightarrow> nat) \<Rightarrow> mutex_sys \<Rightarrow> mutex_sys \<Rightarrow> bool" for tok where
  lock: "\<not> has_awaiter a (m_waiters m) \<Longrightarrow> a \<notin> set (m_wake m) \<Longrightarrow> a \<notin> set (m_holders m) \<Longrightarrow>
     mutex_step tok m (mutex_lock tok a m)"
| unlock: "a \<in> set (m_holders m) \<Longrightarrow>
     mutex_step tok m (mutex_unlock (m\<lparr>m_holders := removeAll a (m_holders m)\<rparr>))"
| cancel: "mutex_step tok m (mutex_cancel tok t m)"
| resume: "m_wake m = a # as \<Longrightarrow> mutex_step tok m (mutex_await_resume tok a (m\<lparr>m_wake := as\<rparr>))"

inductive_cases mutex_stepE: "mutex_step tok m m'"

abbreviation mutex_run :: "(addr \<Rightarrow> nat) \<Rightarrow> mutex_sys \<Rightarrow> mutex_sys \<Rightarrow> bool" where
  "mutex_run tok \<equiv> (mutex_step tok)\<^sup>*\<^sup>*"

section \<open>Invariant\<close>

text \<open>The woken coroutines that will come back as holders: those whose token is not cancelled.\<close>

definition passing :: "(addr \<Rightarrow> nat) \<Rightarrow> mutex_sys \<Rightarrow> addr list" where
  "passing tok m = filter (\<lambda>a. tok a \<notin> m_cancelled m) (m_wake m)"

definition mutex_inv :: "(addr \<Rightarrow> nat) \<Rightarrow> addr list \<Rightarrow> mutex_sys \<Rightarrow> bool" where
  "mutex_inv tok xs m \<longleftrightarrow> linked (m_waiters m) xs \<and> distinct (xs @ m_wake m @ m_holders m)
     \<and> distinct (m_registered m) \<and> set (m_registered m) = set xs
     \<and> (\<forall>a \<in> set xs. tok a \<notin> m_cancelled m) \<and> (xs \<noteq> [] \<longrightarrow> m_locked m)
     \<and> length (m_holders m) + length (passing tok m) \<le> (if m_locked m then 1 else 0)"

lemma mutex_inv_start: "mutex_inv tok [] mutex_start"
  by (simp add: mutex_inv_def mutex_start_def passing_def linked_empty)

lemma reset_registration_absent: "a \<notin> set (m_registered m) \<Longrightarrow> reset_registration a m = m"
  by (simp add: reset_registration_def)

lemma callbacks:
  assumes "linked (m_waiters m) xs" "distinct bs"
  shows "\<exists>w. linked w (filter (\<lambda>a. a \<notin> set bs) xs)
     \<and> fold mutex_callback bs m = m\<lparr>m_waiters := w, m_registered := filter (\<lambda>a. a \<notin> set bs) (m_registered m),
           m_wake := m_wake m @ bs\<rparr>"
  using assms
proof (induction bs arbitrary: m xs)
  case Nil
  then show ?case by (intro exI [of _ "m_waiters m"]) simp
next
  case (Cons b bs)
  let ?m = "mutex_callback b m"
  have d: "distinct xs" using Cons.prems(1) by (simp add: linked_def)
  have "linked (m_waiters ?m) (remove1 b xs)"
    using Cons.prems(1) by (simp add: mutex_callback_def wake_up_coroutine_def reset_registration_def linked_remove_law)
  then obtain w where w: "linked w (filter (\<lambda>a. a \<notin> set bs) (remove1 b xs))"
      "fold mutex_callback bs ?m = ?m\<lparr>m_waiters := w, m_registered := filter (\<lambda>a. a \<notin> set bs) (m_registered ?m),
           m_wake := m_wake ?m @ bs\<rparr>"
    using Cons.IH [of ?m "remove1 b xs"] Cons.prems(2) by auto
  have f: "filter (\<lambda>a. a \<notin> set bs) (removeAll b ys) = filter (\<lambda>a. a \<notin> set (b # bs)) ys" for ys :: "addr list"
    by (induction ys) auto
  have "filter (\<lambda>a. a \<notin> set bs) (remove1 b xs) = filter (\<lambda>a. a \<notin> set (b # bs)) xs"
    using d f [of xs] by (simp add: distinct_remove1_removeAll)
  then show ?case using w f [of "m_registered m"]
    by (intro exI [of _ w]) (simp add: mutex_callback_def [of b m] wake_up_coroutine_def reset_registration_def)
qed

lemma inv_lock:
  assumes i: "mutex_inv tok xs m" and a: "a \<notin> set xs" "a \<notin> set (m_wake m)" "a \<notin> set (m_holders m)"
  shows "mutex_inv tok (if m_locked m \<and> tok a \<notin> m_cancelled m then xs @ [a] else xs) (mutex_lock tok a m)"
proof -
  have r: "a \<notin> set (m_registered m)" using i a by (simp add: mutex_inv_def)
  consider (c) "tok a \<in> m_cancelled m" | (free) "tok a \<notin> m_cancelled m" "\<not> m_locked m"
    | (busy) "tok a \<notin> m_cancelled m" "m_locked m" by blast
  then show ?thesis
  proof cases
    case c
    then show ?thesis
      using i r by (simp add: mutex_lock_def mutex_await_resume_def reset_registration_absent mutex_inv_def passing_def)
  next
    case free
    then show ?thesis
      using i r a by (auto simp: mutex_lock_def try_lock_def mutex_await_resume_def reset_registration_def mutex_inv_def passing_def)
  next
    case busy
    then show ?thesis
      using i r a linked_add [of "m_waiters m" xs a]
      by (auto simp: mutex_lock_def try_lock_def mutex_inv_def passing_def)
  qed
qed

lemma inv_one:
  assumes "mutex_inv tok xs m" "a \<in> set (m_holders m)"
  shows "m_holders m = [a]" "passing tok m = []" "m_locked m"
proof -
  have "length (m_holders m) + length (passing tok m) \<le> (if m_locked m then 1 else 0)"
    using assms(1) by (simp add: mutex_inv_def)
  moreover obtain b bs where "m_holders m = b # bs" using assms(2) by (cases "m_holders m") auto
  ultimately have "length (m_holders m) = 1" "length (passing tok m) = 0" "m_locked m" by (auto split: if_splits)
  then show "m_holders m = [a]" "passing tok m = []" "m_locked m"
    using assms(2) by (auto simp: length_Suc_conv)
qed

lemma inv_unlock:
  assumes i: "mutex_inv tok xs m" and a: "a \<in> set (m_holders m)"
  shows "mutex_inv tok (drop 1 xs) (mutex_unlock (m\<lparr>m_holders := removeAll a (m_holders m)\<rparr>))"
proof -
  note one = inv_one [OF i a]
  show ?thesis
  proof (cases xs)
    case Nil
    then show ?thesis using i one by (auto simp: mutex_unlock_def mutex_inv_def linked_def passing_def)
  next
    case (Cons b ys)
    have l: "linked (m_waiters m) (b # ys)" using i Cons by (simp add: mutex_inv_def)
    note p = wl.pop_law [OF l]
    have "mutex_inv tok ys (mutex_unlock (m\<lparr>m_holders := removeAll a (m_holders m)\<rparr>))"
      using i one p Cons
      by (auto simp: mutex_unlock_def mutex_inv_def passing_def wake_up_coroutine_def reset_registration_def distinct_removeAll)
    then show ?thesis by (simp add: Cons)
  qed
qed

lemma inv_cancel:
  assumes i: "mutex_inv tok xs m"
  shows "mutex_inv tok (filter (\<lambda>a. tok a \<noteq> t) xs) (mutex_cancel tok t m)"
proof (cases "t \<in> m_cancelled m")
  case True
  then have "filter (\<lambda>a. tok a \<noteq> t) xs = xs" using i by (auto simp: mutex_inv_def filter_id_conv)
  then show ?thesis using i True by (simp add: mutex_cancel_def)
next
  case False
  let ?m = "m\<lparr>m_cancelled := insert t (m_cancelled m)\<rparr>" and ?bs = "filter (\<lambda>a. tok a = t) (m_registered m)"
  have r: "distinct ?bs" "set ?bs = {a \<in> set xs. tok a = t}" using i by (auto simp: mutex_inv_def)
  obtain w where w: "linked w (filter (\<lambda>a. a \<notin> set ?bs) xs)"
      "fold mutex_callback ?bs ?m = ?m\<lparr>m_waiters := w, m_registered := filter (\<lambda>a. a \<notin> set ?bs) (m_registered ?m),
           m_wake := m_wake ?m @ ?bs\<rparr>"
    using callbacks [of ?m xs ?bs] i r(1) by (auto simp: mutex_inv_def)
  define m' where "m' = mutex_cancel tok t m"
  have m': "m' = m\<lparr>m_cancelled := insert t (m_cancelled m), m_waiters := w,
      m_registered := filter (\<lambda>a. a \<notin> set ?bs) (m_registered m), m_wake := m_wake m @ ?bs\<rparr>"
    using w(2) False by (simp add: m'_def mutex_cancel_def)
  have "passing tok m' = filter (\<lambda>a. tok a \<noteq> t) (passing tok m)"
    by (auto simp: m' passing_def conj_commute intro: filter_cong)
  then have "length (m_holders m') + length (passing tok m') \<le> (if m_locked m' then 1 else 0)"
    using i length_filter_le [of "\<lambda>a. tok a \<noteq> t" "passing tok m"]
    by (auto simp: m' mutex_inv_def simp del: length_filter_le split: if_splits)
  moreover have "distinct (filter (\<lambda>a. a \<notin> set ?bs) xs @ m_wake m' @ m_holders m')"
    using i r by (auto simp: m' mutex_inv_def)
  moreover have "\<forall>a \<in> set (filter (\<lambda>a. a \<notin> set ?bs) xs). tok a \<notin> m_cancelled m'"
    using i r by (auto simp: m' mutex_inv_def)
  ultimately have "mutex_inv tok (filter (\<lambda>a. a \<notin> set ?bs) xs) m'"
    using i w(1) r unfolding mutex_inv_def by (auto simp: m')
  moreover have "filter (\<lambda>a. a \<notin> set ?bs) xs = filter (\<lambda>a. tok a \<noteq> t) xs" unfolding r(2) by (rule filter_cong) auto
  ultimately show ?thesis unfolding m'_def by simp
qed

lemma inv_resume:
  assumes i: "mutex_inv tok xs m" and a: "m_wake m = a # as"
  shows "mutex_inv tok xs (mutex_await_resume tok a (m\<lparr>m_wake := as\<rparr>))"
proof -
  have "a \<notin> set (m_registered m)" using i a by (auto simp: mutex_inv_def)
  then show ?thesis
    using i a by (auto simp: mutex_await_resume_def reset_registration_def mutex_inv_def passing_def Let_def)
qed

lemma not_waiting: "mutex_inv tok xs m \<Longrightarrow> \<not> has_awaiter a (m_waiters m) \<Longrightarrow> a \<notin> set xs"
  using linked_member [of "m_waiters m" xs a] by (simp add: mutex_inv_def)

lemma inv_step:
  assumes "mutex_inv tok xs m" "mutex_step tok m m'"
  shows "\<exists>ys. mutex_inv tok ys m'"
  using assms(2)
proof (cases rule: mutex_step.cases)
  case (lock a)
  then show ?thesis using inv_lock [OF assms(1) not_waiting [OF assms(1)]] by blast
next
  case (unlock a)
  then show ?thesis using inv_unlock [OF assms(1)] by blast
next
  case (cancel t)
  then show ?thesis using inv_cancel [OF assms(1)] by blast
next
  case (resume a as)
  then show ?thesis using inv_resume [OF assms(1)] by blast
qed

lemma inv_run: "mutex_run tok mutex_start m \<Longrightarrow> \<exists>xs. mutex_inv tok xs m"
  by (induction rule: rtranclp_induct) (use mutex_inv_start inv_step in blast)+

section \<open>Order of arrival\<close>

text \<open>The same runs with the order of arrival beside them: a coroutine that has to wait joins at the end, \<open>unlock\<close> takes the one that has waited longest, a
  cancellation takes out those with its token, and nothing else changes the order.  The list is made from the calls alone, not from the links.\<close>

inductive mutex_arrivals :: "(addr \<Rightarrow> nat) \<Rightarrow> mutex_sys \<Rightarrow> addr list \<Rightarrow> bool" for tok where
  start: "mutex_arrivals tok mutex_start []"
| lock: "mutex_arrivals tok m q \<Longrightarrow> \<not> has_awaiter a (m_waiters m) \<Longrightarrow> a \<notin> set (m_wake m) \<Longrightarrow> a \<notin> set (m_holders m) \<Longrightarrow>
     mutex_arrivals tok (mutex_lock tok a m) (if m_locked m \<and> tok a \<notin> m_cancelled m then q @ [a] else q)"
| unlock: "mutex_arrivals tok m q \<Longrightarrow> a \<in> set (m_holders m) \<Longrightarrow>
     mutex_arrivals tok (mutex_unlock (m\<lparr>m_holders := removeAll a (m_holders m)\<rparr>)) (drop 1 q)"
| cancel: "mutex_arrivals tok m q \<Longrightarrow> mutex_arrivals tok (mutex_cancel tok t m) (filter (\<lambda>a. tok a \<noteq> t) q)"
| resume: "mutex_arrivals tok m q \<Longrightarrow> m_wake m = a # as \<Longrightarrow> mutex_arrivals tok (mutex_await_resume tok a (m\<lparr>m_wake := as\<rparr>)) q"

lemma arrivals_inv: "mutex_arrivals tok m q \<Longrightarrow> mutex_inv tok q m"
proof (induction rule: mutex_arrivals.induct)
  case start
  show ?case by (rule mutex_inv_start)
next
  case (lock m q a)
  then show ?case using inv_lock [OF lock.IH not_waiting [OF lock.IH]] by blast
qed (auto intro: inv_unlock [simplified] inv_cancel inv_resume)

lemma arrivals_step: "mutex_arrivals tok m q \<Longrightarrow> mutex_step tok m m' \<Longrightarrow> \<exists>q'. mutex_arrivals tok m' q'"
  by (erule mutex_stepE) (blast intro: mutex_arrivals.intros)+

lemma arrivals_run: "mutex_run tok mutex_start m \<Longrightarrow> \<exists>q. mutex_arrivals tok m q"
  by (induction rule: rtranclp_induct) (use mutex_arrivals.start arrivals_step in blast)+

section \<open>Properties\<close>

text \<open>C6: Mutual exclusion and fairness of the coroutine mutex, with cancellation at any point.  Let \<open>q\<close> be the coroutines that called \<open>lock\<close>, had to wait and have not left
  since, in the order of their calls; every run has such a list.  Then the links of the waiting list are those of \<open>q\<close> in this order, at most one coroutine has come back from
  \<open>lock\<close> without unlocking, and the mutex is then locked.  When the holder unlocks while coroutines wait, the longest waiting one, the first of \<open>q\<close>, is queued for resumption,
  leaves the list, loses its registration, and the mutex stays locked on its behalf.\<close>

theorem mutex_exclusive_and_fair:
  assumes "mutex_arrivals tok m q"
  shows "linked (m_waiters m) q \<and> length (m_holders m) \<le> 1 \<and> (m_holders m \<noteq> [] \<longrightarrow> m_locked m)
     \<and> (\<forall>a b ys. m_holders m = [a] \<and> q = b # ys \<longrightarrow>
          (let m' = mutex_unlock (m\<lparr>m_holders := []\<rparr>)
           in m_locked m' \<and> linked (m_waiters m') ys \<and> m_wake m' = m_wake m @ [b] \<and> b \<notin> set (m_registered m')))
     \<and> (\<forall>m'. mutex_step tok m m' \<longrightarrow> (\<exists>q'. mutex_arrivals tok m' q'))"
proof -
  have i: "mutex_inv tok q m" using arrivals_inv [OF assms] .
  have "length (m_holders m) \<le> 1" "m_holders m \<noteq> [] \<longrightarrow> m_locked m" "linked (m_waiters m) q" "q \<noteq> [] \<longrightarrow> m_locked m"
    using i by (auto simp: mutex_inv_def split: if_splits)
  moreover have "\<forall>a b ys. m_holders m = [a] \<and> q = b # ys \<longrightarrow>
      (let m' = mutex_unlock (m\<lparr>m_holders := []\<rparr>)
       in m_locked m' \<and> linked (m_waiters m') ys \<and> m_wake m' = m_wake m @ [b] \<and> b \<notin> set (m_registered m'))"
    using calculation wl.pop_law
    by (auto simp: mutex_unlock_def wake_up_coroutine_def reset_registration_def Let_def)
  ultimately show ?thesis using arrivals_step [OF assms] by blast
qed

definition three_lockers :: mutex_sys where
  "three_lockers = mutex_lock id 3 (mutex_lock id 2 (mutex_lock id 1 mutex_start))"

theorem mutex_exclusive_and_fair_witness:
  "mutex_arrivals id three_lockers [2, 3] \<and> m_holders three_lockers = [1] \<and> m_wake (mutex_unlock (three_lockers\<lparr>m_holders := []\<rparr>)) = [2]"
proof -
  define m1 where "m1 = mutex_lock id 1 mutex_start"
  define m2 where "m2 = mutex_lock id 2 m1"
  note defs = mutex_lock_def try_lock_def mutex_await_resume_def reset_registration_def add_awaiter_def empty_waiters_def has_awaiter_def
  have m1: "m1 = mutex_start\<lparr>m_locked := True, m_holders := [1]\<rparr>" by (simp add: m1_def mutex_start_def defs)
  have m2: "m2 = m1\<lparr>m_waiters := add_awaiter 2 empty_waiters, m_registered := [2]\<rparr>"
    by (simp add: m2_def m1 mutex_start_def mutex_lock_def try_lock_def)
  have t: "three_lockers = mutex_lock id 3 m2" by (simp only: three_lockers_def m2_def m1_def)
  have m3: "three_lockers = m2\<lparr>m_waiters := add_awaiter 3 (m_waiters m2), m_registered := [3, 2]\<rparr>"
    unfolding t by (simp add: m2 m1 mutex_start_def mutex_lock_def try_lock_def)
  have "mutex_arrivals id m1 []"
    using mutex_arrivals.lock [OF mutex_arrivals.start, of 1 id] by (simp add: m1_def mutex_start_def defs)
  moreover have "m_locked m1" "m_cancelled m1 = {}" "\<not> has_awaiter 2 (m_waiters m1)" "2 \<notin> set (m_wake m1)" "2 \<notin> set (m_holders m1)"
    by (simp_all add: m1 mutex_start_def defs)
  ultimately have "mutex_arrivals id m2 [2]"
    using mutex_arrivals.lock [of id m1 "[]" 2] by (simp add: m2_def)
  moreover have "m_locked m2" "m_cancelled m2 = {}" "\<not> has_awaiter 3 (m_waiters m2)" "3 \<notin> set (m_wake m2)" "3 \<notin> set (m_holders m2)"
    by (simp_all add: m2 m1 mutex_start_def defs)
  ultimately have a: "mutex_arrivals id three_lockers [2, 3]"
    using mutex_arrivals.lock [of id m2 "[2]" 3] by (simp add: t)
  have "m_holders three_lockers = [1]" "m_wake three_lockers = []" by (simp_all add: m3 m2 m1 mutex_start_def)
  then show ?thesis using mutex_exclusive_and_fair [OF a] a by (auto simp: Let_def)
qed

definition accounted :: "mutex_sys \<Rightarrow> bool" where
  "accounted m \<longleftrightarrow> (m_cancelled m = {} \<longrightarrow> (m_locked m \<longleftrightarrow> m_holders m @ m_wake m \<noteq> []))"

lemma accounted_step:
  assumes i: "mutex_inv tok xs m" and a: "accounted m" and s: "mutex_step tok m m'"
  shows "accounted m'"
  using s
proof (cases rule: mutex_step.cases)
  case (lock b)
  then show ?thesis using a
    by (auto simp: accounted_def mutex_lock_def try_lock_def mutex_await_resume_def reset_registration_def Let_def)
next
  case (unlock b)
  have "m_cancelled m = {} \<longrightarrow> m_wake m = []" using inv_one(2) [OF i unlock(2)] by (auto simp: passing_def)
  then show ?thesis using a unlock(1) inv_one [OF i unlock(2)]
    by (auto simp: accounted_def mutex_unlock_def wake_up_coroutine_def reset_registration_def split: option.splits)
next
  case (cancel t)
  have "m_cancelled (fold mutex_callback bs n) = m_cancelled n" for bs n
    by (induction bs arbitrary: n) (simp_all add: mutex_callback_def wake_up_coroutine_def reset_registration_def)
  then have "t \<in> m_cancelled m'" using cancel by (simp add: mutex_cancel_def)
  then show ?thesis by (auto simp: accounted_def)
next
  case (resume b as)
  then show ?thesis using a by (auto simp: accounted_def mutex_await_resume_def reset_registration_def Let_def)
qed

text \<open>Without cancellation the mutex is never lost: in every state reached while no token has been
  cancelled, it is locked exactly when some coroutine holds it or is queued to resume with it.\<close>

theorem mutex_never_lost:
  assumes "mutex_run tok mutex_start m" "m_cancelled m = {}"
  shows "m_locked m \<longleftrightarrow> m_holders m \<noteq> [] \<or> m_wake m \<noteq> []"
proof -
  have "accounted m" using assms(1)
  proof (induction rule: rtranclp_induct)
    case base
    then show ?case by (simp add: accounted_def mutex_start_def)
  next
    case (step y z)
    then show ?case using accounted_step inv_run by blast
  qed
  then show ?thesis using assms(2) by (simp add: accounted_def)
qed

theorem mutex_never_lost_witness: "\<not> m_locked mutex_start"
  using mutex_never_lost [of id mutex_start] by (simp add: mutex_start_def)

text \<open>A mutex that is locked though nobody holds it and nobody is about to.\<close>

definition lost :: "(addr \<Rightarrow> nat) \<Rightarrow> mutex_sys \<Rightarrow> bool" where
  "lost tok m \<longleftrightarrow> m_locked m \<and> m_holders m = [] \<and> passing tok m = []"

lemma lost_step:
  assumes i: "mutex_inv tok xs m" and l: "lost tok m" and s: "mutex_step tok m m'"
  shows "lost tok m'"
  using s
proof (cases rule: mutex_step.cases)
  case (lock b)
  then show ?thesis using l
    by (auto simp: lost_def mutex_lock_def try_lock_def mutex_await_resume_def reset_registration_def passing_def Let_def)
next
  case (unlock b)
  then show ?thesis using l by (simp add: lost_def)
next
  case (cancel t)
  let ?m = "m\<lparr>m_cancelled := insert t (m_cancelled m)\<rparr>" and ?bs = "filter (\<lambda>a. tok a = t) (m_registered m)"
  obtain w where "fold mutex_callback ?bs ?m = ?m\<lparr>m_waiters := w, m_registered := filter (\<lambda>a. a \<notin> set ?bs) (m_registered ?m),
           m_wake := m_wake ?m @ ?bs\<rparr>"
    using callbacks [of ?m xs ?bs] i by (auto simp: mutex_inv_def)
  then show ?thesis using l cancel by (auto simp: lost_def mutex_cancel_def passing_def filter_empty_conv)
next
  case (resume b as)
  then show ?thesis using l
    by (auto simp: lost_def mutex_await_resume_def reset_registration_def passing_def Let_def split: if_splits)
qed

lemma lost_run: "mutex_run tok m m' \<Longrightarrow> mutex_run tok mutex_start m \<Longrightarrow> lost tok m \<Longrightarrow> lost tok m'"
proof (induction rule: rtranclp_induct)
  case (step y z)
  then have "mutex_run tok mutex_start y" by (meson rtranclp_trans)
  then show ?case using lost_step inv_run step by blast
qed

text \<open>C39: The lock can be lost for ever: when the coroutine to which \<open>unlock\<close> hands the mutex over is cancelled
  before it is resumed, \<open>await_resume\<close> throws and nobody unlocks; from then on, whatever happens, no
  coroutine ever comes back from \<open>lock\<close>.\<close>

theorem mutex_lost_by_cancellation:
  "\<exists>m. mutex_run id mutex_start m \<and> m_canceled_out m = [2] \<and> m_wake m = [] \<and> linked (m_waiters m) []
     \<and> (\<forall>m'. mutex_run id m m' \<longrightarrow> m_locked m' \<and> m_holders m' = [])"
proof -
  define m1 where "m1 = mutex_lock id 1 mutex_start"
  define m2 where "m2 = mutex_lock id 2 m1"
  define m3 where "m3 = mutex_unlock (m2\<lparr>m_holders := removeAll 1 (m_holders m2)\<rparr>)"
  define m4 where "m4 = mutex_cancel id 2 m3"
  define m5 where "m5 = mutex_await_resume id 2 (m4\<lparr>m_wake := []\<rparr>)"
  note defs = mutex_lock_def try_lock_def mutex_await_resume_def reset_registration_def mutex_unlock_def
    wake_up_coroutine_def mutex_cancel_def add_awaiter_def remove_awaiter_def empty_waiters_def has_awaiter_def
  have m1: "m1 = mutex_start\<lparr>m_locked := True, m_holders := [1]\<rparr>"
    by (simp add: m1_def mutex_start_def defs)
  have w2: "m2 = m1\<lparr>m_waiters := add_awaiter 2 empty_waiters, m_registered := [2]\<rparr>"
    by (simp add: m2_def m1 mutex_start_def mutex_lock_def try_lock_def)
  have "linked (add_awaiter 2 empty_waiters) [2]" using linked_add [OF linked_empty, of 2] by simp
  note p = wl.pop_law [OF this]
  have m3: "m3 = m2\<lparr>m_holders := [], m_waiters := remove_awaiter 2 (add_awaiter 2 empty_waiters), m_registered := [], m_wake := [2]\<rparr>"
    using p by (simp add: m3_def w2 m1 mutex_start_def mutex_unlock_def wake_up_coroutine_def reset_registration_def)
  have m4: "m4 = m3\<lparr>m_cancelled := {2}\<rparr>" by (simp add: m4_def m3 w2 m1 mutex_start_def mutex_cancel_def)
  have m5: "m5 = m4\<lparr>m_wake := [], m_canceled_out := [2]\<rparr>"
    by (simp add: m5_def m4 m3 w2 m1 mutex_start_def mutex_await_resume_def reset_registration_def)
  have "mutex_step id mutex_start m1" unfolding m1_def
    by (rule mutex_step.lock) (simp_all add: mutex_start_def defs)
  moreover have "mutex_step id m1 m2" unfolding m2_def
    by (rule mutex_step.lock) (simp_all add: m1 mutex_start_def defs)
  moreover have "mutex_step id m2 m3" unfolding m3_def by (rule mutex_step.unlock) (simp add: w2 m1)
  moreover have "mutex_step id m3 m4" unfolding m4_def by (rule mutex_step.cancel)
  moreover have "mutex_step id m4 m5" unfolding m5_def by (rule mutex_step.resume) (simp add: m4 m3)
  ultimately have run: "mutex_run id mutex_start m5"
    by (meson r_into_rtranclp rtranclp.rtrancl_into_rtrancl)
  have "lost id m5" by (simp add: lost_def passing_def m5 m4 m3 w2 m1 mutex_start_def)
  then have "\<forall>m'. mutex_run id m5 m' \<longrightarrow> m_locked m' \<and> m_holders m' = []"
    using lost_run [OF _ run] by (auto simp: lost_def)
  then show ?thesis using run p by (intro exI [of _ m5]) (simp add: m5 m4 m3 w2 m1 mutex_start_def)
qed

theorem mutex_lost_by_cancellation_witness: "\<exists>m. mutex_run id mutex_start m \<and> m_wake m = [] \<and> m_locked m \<and> m_holders m = []"
  using mutex_lost_by_cancellation by blast

end
