(* ===== verification/Coro_Condition.thy ===== *)
theory Coro_Condition
  imports Waiter_List "HOL-Library.Transitive_Closure_Table"
begin

text \<open>
  The coroutine condition variable of \<open>runtime/src/coro/condition_variable.cpp\<close> and \<open>condition_variable.h\<close>:
  the list of \<open>condition_variable_state\<close>, \<open>notify_one\<close>, \<open>notify_all\<close>, the awaiter with the callback it registers
  with its cancellation token, and the scheduler's queue of coroutines to resume.  As in the mutex everything
  runs on the scheduler's thread and a coroutine and its awaiter have the same address; \<open>c_resumed\<close> and
  \<open>c_canceled_out\<close> record which coroutines came back from \<open>wait\<close>, normally and with the exception \<open>canceled\<close>.
\<close>

section \<open>The code\<close>

record cond_sys =
  c_waiters :: waiters
  c_registered :: "addr list"
  c_cancelled :: "nat set"
  c_wake :: "addr list"
  c_resumed :: "addr list"
  c_canceled_out :: "addr list"

definition cond_start :: cond_sys where
  "cond_start = \<lparr>c_waiters = empty_waiters, c_registered = [], c_cancelled = {}, c_wake = [], c_resumed = [],
     c_canceled_out = []\<rparr>"

definition cond_wake :: "addr \<Rightarrow> cond_sys \<Rightarrow> cond_sys" where
  "cond_wake a c = c\<lparr>c_wake := c_wake c @ [a]\<rparr>"

definition notify_one :: "cond_sys \<Rightarrow> cond_sys" where
  "notify_one c = (case header (c_waiters c) of
       None \<Rightarrow> c
     | Some a \<Rightarrow> cond_wake a (c\<lparr>c_waiters := remove_awaiter a (c_waiters c)\<rparr>))"

text \<open>The loop of \<open>notify_all\<close> walks the links, clearing them behind it; on a cyclic list it would not end.\<close>

definition unlink_awaiter :: "addr \<Rightarrow> waiters \<Rightarrow> waiters" where
  "unlink_awaiter a w = w\<lparr>next_link := (next_link w)(a := None), prev_link := (prev_link w)(a := None)\<rparr>"

partial_function (option) notify_walk :: "addr option \<Rightarrow> cond_sys \<Rightarrow> cond_sys option" where
  "notify_walk p c = (case p of
       None \<Rightarrow> Some c
     | Some a \<Rightarrow> notify_walk (next_link (c_waiters c) a) (cond_wake a (c\<lparr>c_waiters := unlink_awaiter a (c_waiters c)\<rparr>)))"

definition notify_all :: "cond_sys \<Rightarrow> cond_sys option" where
  "notify_all c = map_option (\<lambda>c. c\<lparr>c_waiters := (c_waiters c)\<lparr>header := None, tail := None\<rparr>\<rparr>)
     (notify_walk (header (c_waiters c)) c)"

definition cond_await_resume :: "(addr \<Rightarrow> nat) \<Rightarrow> addr \<Rightarrow> cond_sys \<Rightarrow> cond_sys" where
  "cond_await_resume tok a c =
     (let c = c\<lparr>c_registered := removeAll a (c_registered c)\<rparr>
      in if tok a \<in> c_cancelled c then c\<lparr>c_canceled_out := c_canceled_out c @ [a]\<rparr>
         else c\<lparr>c_resumed := c_resumed c @ [a]\<rparr>)"

text \<open>\<open>co_await cv.wait()\<close>: \<open>await_suspend\<close>, and \<open>await_resume\<close> at once when it does not suspend.\<close>

definition cond_wait :: "(addr \<Rightarrow> nat) \<Rightarrow> addr \<Rightarrow> cond_sys \<Rightarrow> cond_sys" where
  "cond_wait tok a c =
     (if tok a \<in> c_cancelled c then cond_await_resume tok a c
      else c\<lparr>c_waiters := add_awaiter a (c_waiters c), c_registered := a # c_registered c\<rparr>)"

text \<open>The registered callback, run by \<open>request_cancellation\<close> after the registration has left the token's list.\<close>

definition cond_callback :: "addr \<Rightarrow> cond_sys \<Rightarrow> cond_sys" where
  "cond_callback a c =
     (let c = c\<lparr>c_registered := removeAll a (c_registered c)\<rparr>
      in if has_awaiter a (c_waiters c) then cond_wake a (c\<lparr>c_waiters := remove_awaiter a (c_waiters c)\<rparr>) else c)"

definition cond_cancel :: "(addr \<Rightarrow> nat) \<Rightarrow> nat \<Rightarrow> cond_sys \<Rightarrow> cond_sys" where
  "cond_cancel tok t c =
     (if t \<in> c_cancelled c then c
      else fold cond_callback (filter (\<lambda>a. tok a = t) (c_registered c)) (c\<lparr>c_cancelled := insert t (c_cancelled c)\<rparr>))"

inductive cond_step :: "(addr \<Rightarrow> nat) \<Rightarrow> cond_sys \<Rightarrow> cond_sys \<Rightarrow> bool" for tok where
  wait: "\<not> has_awaiter a (c_waiters c) \<Longrightarrow> a \<notin> set (c_wake c) \<Longrightarrow> cond_step tok c (cond_wait tok a c)"
| one: "cond_step tok c (notify_one c)"
| all: "notify_all c = Some c' \<Longrightarrow> cond_step tok c c'"
| cancel: "cond_step tok c (cond_cancel tok t c)"
| resume: "c_wake c = a # as \<Longrightarrow> cond_step tok c (cond_await_resume tok a (c\<lparr>c_wake := as\<rparr>))"

abbreviation cond_run :: "(addr \<Rightarrow> nat) \<Rightarrow> cond_sys \<Rightarrow> cond_sys \<Rightarrow> bool" where
  "cond_run tok \<equiv> (cond_step tok)\<^sup>*\<^sup>*"

section \<open>Walking the list\<close>

lemma notify_walk_linked:
  assumes "next_link (c_waiters c) = next_of xs" "distinct xs"
  shows "\<exists>w. notify_walk (first_of xs) c = Some (c\<lparr>c_waiters := w, c_wake := c_wake c @ xs\<rparr>)
     \<and> next_link w = (\<lambda>_. None)
     \<and> prev_link w = (\<lambda>b. if b \<in> set xs then None else prev_link (c_waiters c) b)"
  using assms
proof (induction xs arbitrary: c)
  case Nil
  then show ?case by (intro exI [of _ "c_waiters c"]) (simp add: notify_walk.simps fun_eq_iff)
next
  case (Cons a xs)
  define c' where "c' = cond_wake a (c\<lparr>c_waiters := unlink_awaiter a (c_waiters c)\<rparr>)"
  have "next_link (c_waiters c') = next_of xs"
    using Cons.prems by (auto simp: c'_def cond_wake_def unlink_awaiter_def fun_eq_iff next_of_absent)
  then obtain w where w: "notify_walk (first_of xs) c' = Some (c'\<lparr>c_waiters := w, c_wake := c_wake c' @ xs\<rparr>)"
      "next_link w = (\<lambda>_. None)" "prev_link w = (\<lambda>b. if b \<in> set xs then None else prev_link (c_waiters c') b)"
    using Cons.IH [of c'] Cons.prems(2) by auto
  have "notify_walk (first_of (a # xs)) c = notify_walk (first_of xs) c'"
    using Cons.prems by (subst notify_walk.simps) (simp add: c'_def)
  moreover have "c'\<lparr>c_waiters := w, c_wake := c_wake c' @ xs\<rparr> = c\<lparr>c_waiters := w, c_wake := c_wake c @ a # xs\<rparr>"
    by (simp add: c'_def cond_wake_def)
  moreover have "prev_link w = (\<lambda>b. if b \<in> set (a # xs) then None else prev_link (c_waiters c) b)"
    unfolding w(3) by (auto simp: c'_def cond_wake_def unlink_awaiter_def fun_eq_iff)
  ultimately show ?case using w by auto
qed

lemma notify_all_linked:
  assumes "linked (c_waiters c) xs"
  shows "\<exists>w. linked w [] \<and> notify_all c = Some (c\<lparr>c_waiters := w, c_wake := c_wake c @ xs\<rparr>)"
proof -
  have l: "distinct xs" "header (c_waiters c) = first_of xs" "next_link (c_waiters c) = next_of xs"
      "prev_link (c_waiters c) = prev_from None xs"
    using assms by (auto simp: linked_def)
  obtain w where w: "notify_walk (first_of xs) c = Some (c\<lparr>c_waiters := w, c_wake := c_wake c @ xs\<rparr>)"
     "next_link w = (\<lambda>_. None)" "prev_link w = (\<lambda>b. if b \<in> set xs then None else prev_link (c_waiters c) b)"
    using notify_walk_linked [OF l(3,1)] by blast
  have "linked (w\<lparr>header := None, tail := None\<rparr>) []"
    using w l by (auto simp: linked_def fun_eq_iff prev_from_absent)
  then show ?thesis using w l by (intro exI [of _ "w\<lparr>header := None, tail := None\<rparr>"]) (simp add: notify_all_def)
qed

section \<open>Invariant\<close>

definition cond_inv :: "(addr \<Rightarrow> nat) \<Rightarrow> addr list \<Rightarrow> cond_sys \<Rightarrow> bool" where
  "cond_inv tok xs c \<longleftrightarrow> linked (c_waiters c) xs \<and> distinct (xs @ c_wake c) \<and> distinct (c_registered c)
     \<and> set xs \<subseteq> set (c_registered c) \<and> set (c_registered c) \<subseteq> set xs \<union> set (c_wake c)
     \<and> (\<forall>a \<in> set xs. tok a \<notin> c_cancelled c)"

lemma cond_inv_start: "cond_inv tok [] cond_start"
  by (simp add: cond_inv_def cond_start_def linked_empty)

lemma cond_callbacks:
  assumes "linked (c_waiters c) xs" "distinct bs"
  shows "\<exists>w. linked w (filter (\<lambda>a. a \<notin> set bs) xs)
     \<and> fold cond_callback bs c = c\<lparr>c_waiters := w, c_registered := filter (\<lambda>a. a \<notin> set bs) (c_registered c),
           c_wake := c_wake c @ filter (\<lambda>a. a \<in> set xs) bs\<rparr>"
  using assms
proof (induction bs arbitrary: c xs)
  case Nil
  then show ?case by (intro exI [of _ "c_waiters c"]) simp
next
  case (Cons b bs)
  let ?c = "cond_callback b c"
  have d: "distinct xs" using Cons.prems(1) by (simp add: linked_def)
  have "linked (c_waiters ?c) (remove1 b xs)"
    using Cons.prems(1) linked_member [OF Cons.prems(1), of b]
    by (simp add: cond_callback_def Let_def cond_wake_def linked_remove_law remove1_idem)
  then obtain w where w: "linked w (filter (\<lambda>a. a \<notin> set bs) (remove1 b xs))"
      "fold cond_callback bs ?c = ?c\<lparr>c_waiters := w, c_registered := filter (\<lambda>a. a \<notin> set bs) (c_registered ?c),
           c_wake := c_wake ?c @ filter (\<lambda>a. a \<in> set (remove1 b xs)) bs\<rparr>"
    using Cons.IH [of ?c "remove1 b xs"] Cons.prems(2) by auto
  have f: "filter (\<lambda>a. a \<notin> set bs) (removeAll b ys) = filter (\<lambda>a. a \<notin> set (b # bs)) ys" for ys :: "addr list"
    by (induction ys) auto
  have e: "filter (\<lambda>a. a \<notin> set bs) (remove1 b xs) = filter (\<lambda>a. a \<notin> set (b # bs)) xs"
    using d f [of xs] by (simp add: distinct_remove1_removeAll)
  have g: "filter (\<lambda>a. a \<in> set (remove1 b xs)) bs = filter (\<lambda>a. a \<in> set xs) bs"
    using Cons.prems(2) d by (auto intro: filter_cong)
  have "fold cond_callback (b # bs) c = c\<lparr>c_waiters := w,
      c_registered := filter (\<lambda>a. a \<notin> set (b # bs)) (c_registered c), c_wake := c_wake c @ filter (\<lambda>a. a \<in> set xs) (b # bs)\<rparr>"
    using w(2) f [of "c_registered c"] linked_member [OF Cons.prems(1), of b] unfolding g
    by (simp add: cond_callback_def [of b c] cond_wake_def Let_def)
  then show ?case using w(1) e by metis
qed

lemma cond_inv_wait:
  assumes "cond_inv tok xs c" "a \<notin> set xs" "a \<notin> set (c_wake c)"
  shows "cond_inv tok (if tok a \<in> c_cancelled c then xs else xs @ [a]) (cond_wait tok a c)"
proof (cases "tok a \<in> c_cancelled c")
  case True
  then show ?thesis
    using assms by (auto simp: cond_inv_def cond_wait_def cond_await_resume_def Let_def distinct_removeAll)
next
  case False
  then show ?thesis
    using assms linked_add [of "c_waiters c" xs a] by (auto simp: cond_inv_def cond_wait_def)
qed

lemma cond_inv_one:
  assumes "cond_inv tok xs c"
  shows "cond_inv tok (drop 1 xs) (notify_one c)"
proof (cases xs)
  case Nil
  then have "notify_one c = c" using assms by (simp add: cond_inv_def linked_def notify_one_def)
  then show ?thesis using assms Nil by simp
next
  case (Cons a ys)
  then have "linked (c_waiters c) (a # ys)" using assms by (simp add: cond_inv_def)
  then have "cond_inv tok ys (notify_one c)"
    using assms Cons wl.pop_law by (auto simp: cond_inv_def notify_one_def cond_wake_def)
  then show ?thesis by (simp add: Cons)
qed

lemma cond_inv_all:
  assumes "cond_inv tok xs c" "notify_all c = Some c'"
  shows "cond_inv tok [] c'"
  using assms notify_all_linked [of c xs] by (auto simp: cond_inv_def)

lemma cond_inv_cancel:
  assumes i: "cond_inv tok xs c"
  shows "cond_inv tok (filter (\<lambda>a. tok a \<noteq> t) xs) (cond_cancel tok t c)"
proof (cases "t \<in> c_cancelled c")
  case True
  then have "filter (\<lambda>a. tok a \<noteq> t) xs = xs" using i by (auto simp: cond_inv_def filter_id_conv)
  then show ?thesis using i True by (simp add: cond_cancel_def)
next
  case False
  let ?c = "c\<lparr>c_cancelled := insert t (c_cancelled c)\<rparr>" and ?bs = "filter (\<lambda>a. tok a = t) (c_registered c)"
  have d: "distinct ?bs" using i by (simp add: cond_inv_def)
  obtain w where w: "linked w (filter (\<lambda>a. a \<notin> set ?bs) xs)"
      "fold cond_callback ?bs ?c = ?c\<lparr>c_waiters := w, c_registered := filter (\<lambda>a. a \<notin> set ?bs) (c_registered ?c),
           c_wake := c_wake ?c @ filter (\<lambda>a. a \<in> set xs) ?bs\<rparr>"
    using cond_callbacks [of ?c xs ?bs] i d by (auto simp: cond_inv_def)
  have "cond_inv tok (filter (\<lambda>a. a \<notin> set ?bs) xs) (cond_cancel tok t c)"
    using i w False by (auto simp: cond_inv_def cond_cancel_def)
  moreover have "filter (\<lambda>a. a \<notin> set ?bs) xs = filter (\<lambda>a. tok a \<noteq> t) xs"
    using i by (intro filter_cong) (auto simp: cond_inv_def)
  ultimately show ?thesis by simp
qed

lemma cond_inv_resume:
  assumes "cond_inv tok xs c" "c_wake c = a # as"
  shows "cond_inv tok xs (cond_await_resume tok a (c\<lparr>c_wake := as\<rparr>))"
  using assms by (auto simp: cond_inv_def cond_await_resume_def Let_def distinct_removeAll)

section \<open>Order of arrival\<close>

text \<open>The same runs with the order of arrival beside them, made from the calls alone: a coroutine that waits joins at the end, \<open>notify_one\<close> takes the one that has waited
  longest, \<open>notify_all\<close> all of them, a cancellation those with its token.\<close>

inductive cond_arrivals :: "(addr \<Rightarrow> nat) \<Rightarrow> cond_sys \<Rightarrow> addr list \<Rightarrow> bool" for tok where
  start: "cond_arrivals tok cond_start []"
| wait: "cond_arrivals tok c q \<Longrightarrow> \<not> has_awaiter a (c_waiters c) \<Longrightarrow> a \<notin> set (c_wake c) \<Longrightarrow>
     cond_arrivals tok (cond_wait tok a c) (if tok a \<in> c_cancelled c then q else q @ [a])"
| one: "cond_arrivals tok c q \<Longrightarrow> cond_arrivals tok (notify_one c) (drop 1 q)"
| all: "cond_arrivals tok c q \<Longrightarrow> notify_all c = Some c' \<Longrightarrow> cond_arrivals tok c' []"
| cancel: "cond_arrivals tok c q \<Longrightarrow> cond_arrivals tok (cond_cancel tok t c) (filter (\<lambda>a. tok a \<noteq> t) q)"
| resume: "cond_arrivals tok c q \<Longrightarrow> c_wake c = a # as \<Longrightarrow> cond_arrivals tok (cond_await_resume tok a (c\<lparr>c_wake := as\<rparr>)) q"

lemma arrivals_cond_inv: "cond_arrivals tok c q \<Longrightarrow> cond_inv tok q c"
proof (induction rule: cond_arrivals.induct)
  case start
  show ?case by (rule cond_inv_start)
next
  case (wait c q a)
  then show ?case using cond_inv_wait [OF wait.IH] linked_member [of "c_waiters c" q a] by (auto simp: cond_inv_def)
qed (auto intro: cond_inv_one [simplified] cond_inv_all cond_inv_cancel cond_inv_resume)

lemma arrivals_cond_step: "cond_arrivals tok c q \<Longrightarrow> cond_step tok c c' \<Longrightarrow> \<exists>q'. cond_arrivals tok c' q'"
  by (erule cond_step.cases) (blast intro: cond_arrivals.intros)+

lemma arrivals_cond_run: "cond_run tok cond_start c \<Longrightarrow> \<exists>q. cond_arrivals tok c q"
  by (induction rule: rtranclp_induct) (use cond_arrivals.start arrivals_cond_step in blast)+

section \<open>Properties\<close>

text \<open>C34: The condition variable wakes the right coroutines, once each, with cancellation at any point.  Let \<open>q\<close> be the coroutines that called \<open>wait\<close> and have neither been
  notified nor cancelled since, in the order of their calls; every run has such a list.  Then the links of the list are those of \<open>q\<close> in this order, no coroutine is both
  waiting and queued for resumption or queued twice, \<open>notify_one\<close> queues exactly the longest waiting one, the first of \<open>q\<close>, and \<open>notify_all\<close> returns, queues all of them in
  the order of their arrival and leaves the list empty.\<close>

theorem condition_variable_wakes:
  assumes "cond_arrivals tok c q"
  shows "linked (c_waiters c) q \<and> distinct (q @ c_wake c)
     \<and> c_wake (notify_one c) = c_wake c @ take 1 q \<and> linked (c_waiters (notify_one c)) (drop 1 q)
     \<and> (\<exists>w. linked w [] \<and> notify_all c = Some (c\<lparr>c_waiters := w, c_wake := c_wake c @ q\<rparr>))
     \<and> (\<forall>c'. cond_step tok c c' \<longrightarrow> (\<exists>q'. cond_arrivals tok c' q'))"
proof -
  have l: "linked (c_waiters c) q" "distinct (q @ c_wake c)" using arrivals_cond_inv [OF assms] by (auto simp: cond_inv_def)
  have "c_wake (notify_one c) = c_wake c @ take 1 q \<and> linked (c_waiters (notify_one c)) (drop 1 q)"
  proof (cases q)
    case Nil
    then show ?thesis using l by (simp add: linked_def notify_one_def)
  next
    case (Cons a ys)
    then show ?thesis using l wl.pop_law by (auto simp: notify_one_def cond_wake_def)
  qed
  then show ?thesis using l notify_all_linked [OF l(1)] arrivals_cond_step [OF assms] by blast
qed

theorem condition_variable_wakes_witness:
  "cond_arrivals id (cond_wait id 2 (cond_wait id 1 cond_start)) [1, 2] \<and> c_wake (notify_one (cond_wait id 2 (cond_wait id 1 cond_start))) = [1]"
proof -
  let ?c1 = "cond_wait id 1 cond_start" and ?c2 = "cond_wait id 2 (cond_wait id 1 cond_start)"
  note defs = cond_wait_def cond_start_def empty_waiters_def add_awaiter_def has_awaiter_def Let_def
  have "cond_arrivals id ?c1 [1]" using cond_arrivals.wait [OF cond_arrivals.start, of 1 id] by (simp add: defs)
  then have a: "cond_arrivals id ?c2 [1, 2]" using cond_arrivals.wait [of id ?c1 "[1]" 2] by (simp add: defs)
  have "c_wake ?c2 = []" by (simp add: defs)
  then show ?thesis using condition_variable_wakes [OF a] a by simp
qed

text \<open>A notification can be swallowed by cancellation: two coroutines wait, \<open>notify_one\<close> picks the first, its
  token is cancelled before it is resumed; it then leaves with \<open>canceled\<close>, the second coroutine still waits and
  nobody has been notified.\<close>

theorem notification_swallowed:
  "\<exists>c1 c2. cond_run id cond_start c1 \<and> linked (c_waiters c1) [1, 2] \<and> cond_run id (notify_one c1) c2
     \<and> c_wake c2 = [] \<and> c_resumed c2 = [] \<and> c_canceled_out c2 = [1] \<and> linked (c_waiters c2) [2]"
proof -
  define c1 where "c1 = cond_wait id 2 (cond_wait id 1 cond_start)"
  note defs = cond_wait_def cond_start_def empty_waiters_def add_awaiter_def has_awaiter_def Let_def
  have l: "linked (c_waiters c1) [1, 2]"
    using linked_add [OF linked_add [OF linked_empty, of 1], of 2] by (simp add: c1_def cond_wait_def cond_start_def)
  have "cond_step id cond_start (cond_wait id 1 cond_start)" by (rule cond_step.wait) (simp_all add: defs)
  moreover have "cond_step id (cond_wait id 1 cond_start) c1"
    unfolding c1_def by (rule cond_step.wait) (simp_all add: defs)
  ultimately have r: "cond_run id cond_start c1" by (meson r_into_rtranclp rtranclp.rtrancl_into_rtrancl)
  have b: "c_wake c1 = []" "c_resumed c1 = []" "c_canceled_out c1 = []" "c_cancelled c1 = {}" "c_registered c1 = [2, 1]"
    by (simp_all add: c1_def cond_wait_def cond_start_def)
  note p = wl.pop_law [OF l]
  define w where "w = remove_awaiter 1 (c_waiters c1)"
  have w: "linked w [2]" "\<not> has_awaiter 1 w" using p linked_member [of w "[2]" 1] by (auto simp: w_def)
  define c2 where "c2 = cond_await_resume id 1 ((cond_cancel id 1 (notify_one c1))\<lparr>c_wake := []\<rparr>)"
  have n: "notify_one c1 = c1\<lparr>c_waiters := w, c_wake := [1]\<rparr>" using p b by (simp add: notify_one_def cond_wake_def w_def)
  have k: "cond_cancel id 1 (notify_one c1) = c1\<lparr>c_waiters := w, c_wake := [1], c_registered := [2], c_cancelled := {1}\<rparr>"
    using w b by (simp add: n cond_cancel_def cond_callback_def)
  have "cond_step id (notify_one c1) (cond_cancel id 1 (notify_one c1))" by (rule cond_step.cancel)
  moreover have "cond_step id (cond_cancel id 1 (notify_one c1)) c2"
    unfolding c2_def by (rule cond_step.resume) (unfold k, simp)
  ultimately have "cond_run id (notify_one c1) c2" by (meson r_into_rtranclp rtranclp.rtrancl_into_rtrancl)
  moreover have "c_wake c2 = [] \<and> c_resumed c2 = [] \<and> c_canceled_out c2 = [1] \<and> linked (c_waiters c2) [2]"
    using b w unfolding c2_def k by (simp add: cond_await_resume_def)
  ultimately show ?thesis using r l by blast
qed

end
