(* ===== verification/Socket_System.thy ===== *)
theory Socket_System
  imports Net_Stream
begin

text \<open>
  The front of the socket thread (\<open>runtime/include/simple/net/socket_types.h\<close>,
  \<open>runtime/src/net/socket_system.cpp\<close>): socket types and their encoding in identifiers, the allocation of
  identifiers, the listen and connect requests and the requests posted to the thread's \<open>io_context\<close>.  The
  socket objects themselves (asio, OpenSSL and KCP behind \<open>socket_base\<close>) are addresses; what a posted request
  does is the call it makes on one of them.
\<close>

section \<open>Socket types\<close>

datatype socket_protocol = Tcp | Ssl | Kcp

datatype socket_type = Tcp_server | Tcp_session | Tcp_client | Ssl_server | Ssl_session | Ssl_client
  | Kcp_server | Kcp_session | Kcp_client

fun protocol_value :: "socket_protocol \<Rightarrow> u32" where
  "protocol_value Tcp = 0" | "protocol_value Ssl = 1" | "protocol_value Kcp = 2"

fun class_value :: "socket_class \<Rightarrow> u32" where
  "class_value Server = 1" | "class_value Session = 2" | "class_value Client = 3" | "class_value Unknown_class = 0"

fun type_parts :: "socket_type \<Rightarrow> socket_protocol \<times> socket_class" where
  "type_parts Tcp_server = (Tcp, Server)" | "type_parts Tcp_session = (Tcp, Session)" | "type_parts Tcp_client = (Tcp, Client)"
| "type_parts Ssl_server = (Ssl, Server)" | "type_parts Ssl_session = (Ssl, Session)" | "type_parts Ssl_client = (Ssl, Client)"
| "type_parts Kcp_server = (Kcp, Server)" | "type_parts Kcp_session = (Kcp, Session)" | "type_parts Kcp_client = (Kcp, Client)"

text \<open>\<open>protocol << 2 | class\<close>\<close>

definition socket_type_value :: "socket_type \<Rightarrow> u32" where
  "socket_type_value t = (case type_parts t of (p, c) \<Rightarrow> push_bit 2 (protocol_value p) OR class_value c)"

definition socket_type_mask :: u32 where
  "socket_type_mask = push_bit 2 3 OR 3"

definition get_socket_type :: "u32 \<Rightarrow> u32" where
  "get_socket_type i = i AND socket_type_mask"

definition get_socket_protocol :: "u32 \<Rightarrow> u32" where
  "get_socket_protocol i = drop_bit 2 i AND 3"

fun get_socket_type_strv :: "socket_type \<Rightarrow> byte list" where
  "get_socket_type_strv Tcp_server = bytes_of ''tcp_server''"
| "get_socket_type_strv Tcp_session = bytes_of ''tcp_session''"
| "get_socket_type_strv Tcp_client = bytes_of ''tcp_client''"
| "get_socket_type_strv Ssl_server = bytes_of ''ssl_server''"
| "get_socket_type_strv Ssl_session = bytes_of ''ssl_session''"
| "get_socket_type_strv Ssl_client = bytes_of ''ssl_client''"
| "get_socket_type_strv Kcp_server = bytes_of ''kcp_server''"
| "get_socket_type_strv Kcp_session = bytes_of ''kcp_session''"
| "get_socket_type_strv Kcp_client = bytes_of ''kcp_client''"

section \<open>State\<close>

text \<open>An endpoint is an address, none being the wildcard \<open>v6()\<close>, and a port.\<close>

type_synonym endpoint = "byte list option \<times> u16"

datatype posted =
    Start_tcp_server u32 endpoint bool
  | Start_ssl_server u32 endpoint bool "byte list" "byte list" "byte list" "byte list"
  | Start_kcp_server u32 endpoint bool
  | Start_tcp_client u32 "byte list" "byte list" int
  | Start_ssl_client u32 "byte list" "byte list" int "byte list" bool
  | Start_kcp_client u32 "byte list" "byte list" int
  | Post_write u32 "byte list"
  | Post_accept u32
  | Post_stop u32
  | Post_no_delay u32 bool

record socket_sys =
  ss_sockets :: "u32 \<Rightarrow> addr option"
  ss_ids :: "u32 list"
  ss_posted :: "posted list"

definition socket_sys_start :: socket_sys where
  "socket_sys_start = \<lparr>ss_sockets = (\<lambda>_. None), ss_ids = replicate 16 0, ss_posted = []\<rparr>"

definition post :: "posted \<Rightarrow> socket_sys \<Rightarrow> socket_sys" where
  "post p s = s\<lparr>ss_posted := ss_posted s @ [p]\<rparr>"

section \<open>Identifiers\<close>

definition socket_id_of :: "u32 \<Rightarrow> u32 \<Rightarrow> u32" where
  "socket_id_of c temp = push_bit 4 c OR temp"

text \<open>The loop of \<open>new_socket_id\<close>: take a value of the counter until the identifier is not in use.\<close>

partial_function (option) next_socket_id :: "u32 \<Rightarrow> socket_sys \<Rightarrow> (u32 \<times> socket_sys) option" where
  "next_socket_id temp s =
     (let c = ss_ids s ! unat temp; s = s\<lparr>ss_ids := (ss_ids s)[unat temp := c + 1]\<rparr>; i = socket_id_of c temp
      in if ss_sockets s i = None then Some (i, s) else next_socket_id temp s)"

definition new_socket_id :: "u32 \<Rightarrow> socket_sys \<Rightarrow> (u32 \<times> socket_sys) option" where
  "new_socket_id temp s = (if temp > socket_type_mask then Some (0, s) else next_socket_id temp s)"

section \<open>Requests\<close>

text \<open>\<open>make_address\<close> of asio is an argument: none is an error.\<close>

definition local_endpoint :: "(byte list \<Rightarrow> byte list option) \<Rightarrow> byte list \<Rightarrow> u16 \<Rightarrow> endpoint option" where
  "local_endpoint make_address host port =
     (if host = [] then Some (None, port) else map_option (\<lambda>a. (Some a, port)) (make_address host))"

definition start_socket :: "socket_type \<Rightarrow> (u32 \<Rightarrow> posted) \<Rightarrow> socket_sys \<Rightarrow> (u32 \<times> socket_sys) option" where
  "start_socket t request s = (case new_socket_id (socket_type_value t) s of
       None \<Rightarrow> None
     | Some (i, s') \<Rightarrow> if i = 0 then Some (0, s') else Some (i, post (request i) s'))"

definition sys_tcp_listen :: "(byte list \<Rightarrow> byte list option) \<Rightarrow> byte list \<Rightarrow> u16 \<Rightarrow> bool \<Rightarrow> socket_sys \<Rightarrow> (u32 \<times> socket_sys) option" where
  "sys_tcp_listen mk host port reuse s = (case local_endpoint mk host port of
       None \<Rightarrow> Some (0, s)
     | Some at \<Rightarrow> start_socket Tcp_server (\<lambda>i. Start_tcp_server i at reuse) s)"

definition sys_ssl_listen :: "(byte list \<Rightarrow> byte list option) \<Rightarrow> byte list \<Rightarrow> u16 \<Rightarrow> bool \<Rightarrow> byte list \<Rightarrow> byte list \<Rightarrow> byte list
     \<Rightarrow> byte list \<Rightarrow> socket_sys \<Rightarrow> (u32 \<times> socket_sys) option" where
  "sys_ssl_listen mk host port reuse cert key dh password s = (case local_endpoint mk host port of
       None \<Rightarrow> Some (0, s)
     | Some at \<Rightarrow> start_socket Ssl_server (\<lambda>i. Start_ssl_server i at reuse cert key dh password) s)"

definition sys_kcp_listen :: "(byte list \<Rightarrow> byte list option) \<Rightarrow> byte list \<Rightarrow> u16 \<Rightarrow> bool \<Rightarrow> socket_sys \<Rightarrow> (u32 \<times> socket_sys) option" where
  "sys_kcp_listen mk host port reuse s = (case local_endpoint mk host port of
       None \<Rightarrow> Some (0, s)
     | Some at \<Rightarrow> start_socket Kcp_server (\<lambda>i. Start_kcp_server i at reuse) s)"

definition sys_tcp_connect :: "byte list \<Rightarrow> byte list \<Rightarrow> int \<Rightarrow> socket_sys \<Rightarrow> (u32 \<times> socket_sys) option" where
  "sys_tcp_connect host service timeout = start_socket Tcp_client (\<lambda>i. Start_tcp_client i host service timeout)"

definition sys_ssl_connect :: "byte list \<Rightarrow> byte list \<Rightarrow> int \<Rightarrow> byte list \<Rightarrow> bool \<Rightarrow> socket_sys \<Rightarrow> (u32 \<times> socket_sys) option" where
  "sys_ssl_connect host service timeout verify ignore_cert =
     start_socket Ssl_client (\<lambda>i. Start_ssl_client i host service timeout verify ignore_cert)"

definition sys_kcp_connect :: "byte list \<Rightarrow> byte list \<Rightarrow> int \<Rightarrow> socket_sys \<Rightarrow> (u32 \<times> socket_sys) option" where
  "sys_kcp_connect host service timeout = start_socket Kcp_client (\<lambda>i. Start_kcp_client i host service timeout)"

definition sys_send :: "u32 \<Rightarrow> byte list \<Rightarrow> socket_sys \<Rightarrow> socket_sys" where
  "sys_send i buf s = (if get_socket_class i = Server then s else post (Post_write i buf) s)"

definition sys_accept :: "u32 \<Rightarrow> socket_sys \<Rightarrow> socket_sys" where
  "sys_accept i s = (if get_socket_class i \<noteq> Session then s else post (Post_accept i) s)"

definition sys_close :: "u32 \<Rightarrow> socket_sys \<Rightarrow> socket_sys" where
  "sys_close i s = post (Post_stop i) s"

definition sys_no_delay :: "u32 \<Rightarrow> bool \<Rightarrow> socket_sys \<Rightarrow> socket_sys" where
  "sys_no_delay i on s = (if get_socket_class i = Server then s else post (Post_no_delay i on) s)"

definition sys_insert :: "u32 \<Rightarrow> addr \<Rightarrow> socket_sys \<Rightarrow> socket_sys" where
  "sys_insert i p s = (if ss_sockets s i = None then s\<lparr>ss_sockets := (ss_sockets s)(i \<mapsto> p)\<rparr> else s)"

definition sys_erase :: "u32 \<Rightarrow> socket_sys \<Rightarrow> socket_sys" where
  "sys_erase i s = s\<lparr>ss_sockets := (ss_sockets s)(i := None)\<rparr>"

definition sys_find :: "u32 \<Rightarrow> socket_sys \<Rightarrow> addr option" where
  "sys_find i s = ss_sockets s i"

text \<open>What the posted function calls when the thread runs it; a start is called on the object the request carries.\<close>

datatype socket_call = Call_start posted | Call_write addr "byte list" | Call_accept addr
  | Call_stop addr error_code | Call_no_delay addr bool

fun run_posted :: "posted \<Rightarrow> socket_sys \<Rightarrow> socket_call option" where
  "run_posted (Post_write i buf) s = map_option (\<lambda>p. Call_write p buf) (sys_find i s)"
| "run_posted (Post_accept i) s = map_option Call_accept (sys_find i s)"
| "run_posted (Post_stop i) s = map_option (\<lambda>p. Call_stop p (Socket_error Initiative_disconnect)) (sys_find i s)"
| "run_posted (Post_no_delay i on) s = map_option (\<lambda>p. Call_no_delay p on) (sys_find i s)"
| "run_posted p s = Some (Call_start p)"

section \<open>Identifiers carry their type\<close>

lemma socket_type_mask_15: "socket_type_mask = 15"
  by (simp add: socket_type_mask_def push_bit_eq_mult)

lemma socket_type_value_simps [simp]:
  "socket_type_value Tcp_server = 1" "socket_type_value Tcp_session = 2" "socket_type_value Tcp_client = 3"
  "socket_type_value Ssl_server = 5" "socket_type_value Ssl_session = 6" "socket_type_value Ssl_client = 7"
  "socket_type_value Kcp_server = 9" "socket_type_value Kcp_session = 10" "socket_type_value Kcp_client = 11"
  by (simp_all add: socket_type_value_def push_bit_eq_mult)

lemma type_value_le: "socket_type_value t \<le> 15"
  by (cases t) (simp_all add: word_le_nat_alt)

lemma and_15: "(x::u32) AND 15 = take_bit 4 x"
  by (simp add: take_bit_eq_mask mask_eq_exp_minus_1)

lemma bit_three: "bit (3::u32) n \<longleftrightarrow> n < 2"
proof -
  have "(3::u32) = mask 2" by (simp add: mask_eq_exp_minus_1)
  then show ?thesis by (simp only: bit_mask_iff) auto
qed

lemma take_bit_small: "temp \<le> 15 \<Longrightarrow> take_bit 4 temp = (temp::u32)"
proof -
  assume "temp \<le> 15"
  then have "unat temp < 2 ^ 4" by (simp add: word_le_nat_alt)
  then have "unat (take_bit 4 temp) = unat temp" by (simp only: unsigned_take_bit_eq take_bit_nat_eq_self_iff)
  then show ?thesis by (simp only: unsigned_word_eqI)
qed

lemma socket_id_type: "temp \<le> 15 \<Longrightarrow> get_socket_type (socket_id_of c temp) = temp"
  by (simp add: get_socket_type_def socket_type_mask_15 socket_id_of_def and_15 take_bit_or take_bit_push_bit take_bit_small)

lemma socket_id_count: "temp \<le> 15 \<Longrightarrow> drop_bit 4 (socket_id_of c temp) = take_bit 28 c"
proof (rule bit_eqI)
  fix n assume t: "temp \<le> 15"
  have "\<not> bit temp (4 + n)" using take_bit_small [OF t] bit_take_bit_iff [of 4 temp "4 + n"] by simp
  then show "bit (drop_bit 4 (socket_id_of c temp)) n \<longleftrightarrow> bit (take_bit 28 c) n"
    by (auto simp: socket_id_of_def bit_drop_bit_eq bit_push_bit_iff bit_or_iff bit_take_bit_iff)
qed

lemma socket_id_nonzero:
  assumes "0 < temp" "temp \<le> 15"
  shows "socket_id_of c temp \<noteq> 0"
  using socket_id_type [OF assms(2), of c] assms(1) by (auto simp: get_socket_type_def)

lemma free_socket_id:
  assumes t: "temp \<le> 15" and f: "finite (dom (ss_sockets s))" "card (dom (ss_sockets s)) < 2 ^ 28"
  shows "\<exists>c. ss_sockets s (socket_id_of c temp) = None"
proof (rule ccontr)
  assume n: "\<not> (\<exists>c. ss_sockets s (socket_id_of c temp) = None)"
  let ?g = "\<lambda>k. socket_id_of (of_nat k) temp"
  have "inj_on ?g {..<2 ^ 28}"
  proof (rule inj_onI)
    fix j k :: nat assume jk: "j \<in> {..<2 ^ 28}" "k \<in> {..<2 ^ 28}" and e: "?g j = ?g k"
    have "take_bit 28 (of_nat j :: u32) = take_bit 28 (of_nat k :: u32)"
      using e socket_id_count [OF t] by metis
    moreover have "unat (take_bit 28 (of_nat i :: u32)) = i" if "i < 2 ^ 28" for i
      using that unfolding unsigned_take_bit_eq unat_of_nat by (simp add: take_bit_eq_mod)
    ultimately show "j = k" using jk by (metis lessThan_iff)
  qed
  then have "card (?g ` {..<2 ^ 28}) = 2 ^ 28" by (simp add: card_image)
  moreover have "?g ` {..<2 ^ 28} \<subseteq> dom (ss_sockets s)" using n by auto
  ultimately show False using card_mono [OF f(1), of "?g ` {..<2 ^ 28}"] f(2) by simp
qed

lemma next_socket_id_finds:
  assumes "unat temp < length (ss_ids s)"
    and "ss_sockets s (socket_id_of (ss_ids s ! unat temp + of_nat n) temp) = None"
  shows "\<exists>m \<le> n. ss_sockets s (socket_id_of (ss_ids s ! unat temp + of_nat m) temp) = None
     \<and> next_socket_id temp s = Some (socket_id_of (ss_ids s ! unat temp + of_nat m) temp,
         s\<lparr>ss_ids := (ss_ids s)[unat temp := ss_ids s ! unat temp + of_nat (Suc m)]\<rparr>)"
  using assms
proof (induction n arbitrary: s)
  case 0
  then show ?case by (subst next_socket_id.simps) (simp add: Let_def)
next
  case (Suc n)
  define c where "c = ss_ids s ! unat temp"
  show ?case
  proof (cases "ss_sockets s (socket_id_of c temp) = None")
    case True
    then show ?thesis by (intro exI [of _ 0], subst next_socket_id.simps) (simp add: Let_def c_def)
  next
    case False
    define s' where "s' = s\<lparr>ss_ids := (ss_ids s)[unat temp := c + 1]\<rparr>"
    have c': "ss_ids s' ! unat temp = c + 1" using Suc.prems(1) by (simp add: s'_def)
    have "ss_sockets s' (socket_id_of (ss_ids s' ! unat temp + of_nat n) temp) = None"
      using Suc.prems(2) unfolding c' by (simp add: s'_def c_def add.assoc)
    then obtain m where m: "m \<le> n" "ss_sockets s' (socket_id_of (c + 1 + of_nat m) temp) = None"
        "next_socket_id temp s' = Some (socket_id_of (c + 1 + of_nat m) temp,
           s'\<lparr>ss_ids := (ss_ids s')[unat temp := c + 1 + of_nat (Suc m)]\<rparr>)"
      using Suc.IH [of s'] Suc.prems(1) unfolding c' by (auto simp: s'_def)
    have "next_socket_id temp s = next_socket_id temp s'"
      using False by (subst next_socket_id.simps) (auto simp: Let_def c_def s'_def)
    then show ?thesis using m by (intro exI [of _ "Suc m"]) (simp add: s'_def c_def add.assoc)
  qed
qed

lemma new_socket_id_returns:
  assumes t: "temp \<le> 15" and l: "length (ss_ids s) = 16"
    and f: "finite (dom (ss_sockets s))" "card (dom (ss_sockets s)) < 2 ^ 28"
  shows "\<exists>c ids. new_socket_id temp s = Some (socket_id_of c temp, s\<lparr>ss_ids := ids\<rparr>) \<and> length ids = 16
     \<and> ss_sockets s (socket_id_of c temp) = None"
proof -
  obtain c where c: "ss_sockets s (socket_id_of c temp) = None" using free_socket_id [OF t f] by blast
  define n where "n = unat (c - ss_ids s ! unat temp)"
  have n: "ss_ids s ! unat temp + of_nat n = c" by (simp add: n_def)
  have "unat temp < length (ss_ids s)" using t l by (simp add: word_le_nat_alt)
  from next_socket_id_finds [OF this, of n] c n l
  obtain m where "ss_sockets s (socket_id_of (ss_ids s ! unat temp + of_nat m) temp) = None"
      "next_socket_id temp s = Some (socket_id_of (ss_ids s ! unat temp + of_nat m) temp,
         s\<lparr>ss_ids := (ss_ids s)[unat temp := ss_ids s ! unat temp + of_nat (Suc m)]\<rparr>)"
    by auto
  moreover have "new_socket_id temp s = next_socket_id temp s" using t by (auto simp: new_socket_id_def socket_type_mask_15)
  ultimately show ?thesis using l
    by (intro exI [of _ "ss_ids s ! unat temp + of_nat m"]
        exI [of _ "(ss_ids s)[unat temp := ss_ids s ! unat temp + of_nat (Suc m)]"]) simp
qed

section \<open>Properties\<close>

text \<open>A connect or listen request for any socket type gets an identifier: while fewer than \<open>2 ^ 28\<close> sockets exist
  the search ends, the identifier is not zero, not in use, decodes to the requested type, protocol and class, and
  exactly one start request is posted for it; nothing else changes but the counters.\<close>

theorem start_socket_allocates:
  assumes "length (ss_ids s) = 16" "finite (dom (ss_sockets s))" "card (dom (ss_sockets s)) < 2 ^ 28"
  shows "\<exists>i ids. start_socket t request s = Some (i, s\<lparr>ss_ids := ids, ss_posted := ss_posted s @ [request i]\<rparr>)
     \<and> i \<noteq> 0 \<and> ss_sockets s i = None \<and> get_socket_type i = socket_type_value t
     \<and> get_socket_protocol i = protocol_value (fst (type_parts t)) \<and> get_socket_class i = snd (type_parts t)
     \<and> length ids = 16"
proof -
  obtain c ids where c: "new_socket_id (socket_type_value t) s = Some (socket_id_of c (socket_type_value t), s\<lparr>ss_ids := ids\<rparr>)"
      "length ids = 16" "ss_sockets s (socket_id_of c (socket_type_value t)) = None"
    using new_socket_id_returns [OF type_value_le assms] by blast
  define i where "i = socket_id_of c (socket_type_value t)"
  have ty: "get_socket_type i = socket_type_value t" using socket_id_type [OF type_value_le] by (simp add: i_def)
  have "0 < socket_type_value t" by (cases t) simp_all
  then have nz: "i \<noteq> 0" using socket_id_nonzero [OF _ type_value_le] by (simp add: i_def)
  have b: "bit i n \<longleftrightarrow> bit (socket_type_value t) n" if "n < 4" for n
    using that ty bit_take_bit_iff [of 4 i n] by (simp add: get_socket_type_def socket_type_mask_15 and_15)
  have "drop_bit 2 i AND 3 = drop_bit 2 (socket_type_value t) AND 3"
  proof (rule bit_eqI)
    fix n
    show "bit (drop_bit 2 i AND 3) n \<longleftrightarrow> bit (drop_bit 2 (socket_type_value t) AND 3) n"
      using b [of "2 + n"] unfolding bit_and_iff bit_drop_bit_eq comp_apply bit_three by auto
  qed
  moreover have "i AND 3 = socket_type_value t AND 3"
  proof (rule bit_eqI)
    fix n
    show "bit (i AND 3) n \<longleftrightarrow> bit (socket_type_value t AND 3) n"
      using b [of n] unfolding bit_and_iff bit_three by auto
  qed
  ultimately have "get_socket_protocol i = protocol_value (fst (type_parts t))" "get_socket_class i = snd (type_parts t)"
    by (cases t; simp add: get_socket_protocol_def get_socket_class_def drop_bit_eq_div)+
  then show ?thesis using c ty nz unfolding start_socket_def i_def [symmetric] by (auto simp: post_def i_def)
qed

theorem start_socket_allocates_witness:
  "\<exists>i ids. start_socket Kcp_client (\<lambda>i. Start_kcp_client i [] [] 0) socket_sys_start
      = Some (i, socket_sys_start\<lparr>ss_ids := ids, ss_posted := [Start_kcp_client i [] [] 0]\<rparr>)
     \<and> get_socket_class i = Client"
  using start_socket_allocates [of socket_sys_start Kcp_client "\<lambda>i. Start_kcp_client i [] [] 0"]
  by (auto simp: socket_sys_start_def)

end
