(* ===== verification/Network.thy ===== *)
theory Network
  imports Socket_System
begin

text \<open>
  The coroutine front of the sockets, \<open>network\<close> of \<open>runtime/src/coro/network.cpp\<close>: the map of sockets, the
  handlers the socket thread posts to the scheduler, and the coroutines that listen, connect and accept.  A
  \<open>network_data_ptr\<close> is an address of the store \<open>net_store\<close>, so that a coroutine keeps its socket's data after the
  socket has left the map.  A handler returns the coroutine it resumes, if any; a coroutine is split where it
  suspends.  \<open>network_event_refines\<close> ties the map to the model of one socket in \<open>Net_Stream\<close>.
\<close>

section \<open>State\<close>

record network =
  net_sockets :: "u32 \<Rightarrow> addr option"
  net_store :: "addr \<Rightarrow> network_data"
  net_next :: addr
  net_sys :: socket_sys

definition new_data :: "u32 \<Rightarrow> byte list \<Rightarrow> byte list \<Rightarrow> network_data" where
  "new_data i local remote = \<lparr>nd_id = i, nd_ec = No_error, nd_buf = [], nd_accepted = [], nd_handle = None,
     nd_local = local, nd_remote = remote\<rparr>"

definition network_start :: network where
  "network_start = \<lparr>net_sockets = (\<lambda>_. None), net_store = (\<lambda>_. new_data 0 [] []), net_next = 0, net_sys = socket_sys_start\<rparr>"

definition set_data :: "addr \<Rightarrow> network_data \<Rightarrow> network \<Rightarrow> network" where
  "set_data p d n = n\<lparr>net_store := (net_store n)(p := d)\<rparr>"

text \<open>\<open>std::make_shared<network_data>()\<close> with its fields set, then \<open>sockets_.emplace\<close>, which keeps an entry that
  is already there.\<close>

definition emplace_socket :: "network_data \<Rightarrow> network \<Rightarrow> addr \<times> network" where
  "emplace_socket d n =
     (let p = net_next n; n = set_data p d (n\<lparr>net_next := Suc p\<rparr>)
      in (p, if net_sockets n (nd_id d) = None then n\<lparr>net_sockets := (net_sockets n)(nd_id d \<mapsto> p)\<rparr> else n))"

section \<open>Listening and connecting\<close>

definition to_address_string :: "byte list \<Rightarrow> byte list \<Rightarrow> byte list" where
  "to_address_string host service =
     (if 0x3a \<in> set host then bytes_of ''['' @ host @ bytes_of '']:'' @ service else host @ bytes_of '':'' @ service)"

definition create_start_awaiter :: "u32 \<Rightarrow> byte list \<Rightarrow> byte list \<Rightarrow> network \<Rightarrow> addr \<times> network" where
  "create_start_awaiter i host service n = emplace_socket
     (if get_socket_class i = Server then new_data i (to_address_string host service) []
      else new_data i [] (to_address_string host service)) n"

text \<open>A coroutine returns, throws, or waits on a socket's data.\<close>

datatype 'a co = Returned 'a | Threw exn | Waiting addr

definition start_resume :: "coro \<Rightarrow> bool \<Rightarrow> addr \<Rightarrow> u32 \<Rightarrow> network \<Rightarrow> u32 co \<times> network" where
  "start_resume h canceled p i n = (case await_resume h canceled (net_store n p) of
       Inl e \<Rightarrow> (Threw e, n)
     | Inr d \<Rightarrow> (Returned i, set_data p d n))"

definition start_wait :: "coro \<Rightarrow> bool \<Rightarrow> u32 \<Rightarrow> byte list \<Rightarrow> byte list \<Rightarrow> network \<Rightarrow> u32 co \<times> network" where
  "start_wait h canceled i host service n =
     (let (p, n) = create_start_awaiter i host service n
      in case await_suspend h canceled (net_store n p) of
           Some d \<Rightarrow> (Waiting p, set_data p d n)
         | None \<Rightarrow> start_resume h canceled p i n)"

definition start_coro :: "coro \<Rightarrow> bool \<Rightarrow> byte list \<Rightarrow> byte list \<Rightarrow> (u32 \<times> socket_sys) option \<Rightarrow> network \<Rightarrow> (u32 co \<times> network) option" where
  "start_coro h canceled host service req n =
     map_option (\<lambda>(i, s). start_wait h canceled i host service (n\<lparr>net_sys := s\<rparr>)) req"

definition net_tcp_listen :: "(byte list \<Rightarrow> byte list option) \<Rightarrow> coro \<Rightarrow> bool \<Rightarrow> byte list \<Rightarrow> u16 \<Rightarrow> bool \<Rightarrow> network
     \<Rightarrow> (u32 co \<times> network) option" where
  "net_tcp_listen mk h canceled host port reuse n =
     start_coro h canceled host (decimal (unat port)) (sys_tcp_listen mk host port reuse (net_sys n)) n"

definition net_ssl_listen :: "(byte list \<Rightarrow> byte list option) \<Rightarrow> coro \<Rightarrow> bool \<Rightarrow> byte list \<Rightarrow> u16 \<Rightarrow> bool \<Rightarrow> byte list \<Rightarrow> byte list
     \<Rightarrow> byte list \<Rightarrow> byte list \<Rightarrow> network \<Rightarrow> (u32 co \<times> network) option" where
  "net_ssl_listen mk h canceled host port reuse cert key dh password n =
     start_coro h canceled host (decimal (unat port)) (sys_ssl_listen mk host port reuse cert key dh password (net_sys n)) n"

definition net_kcp_listen :: "(byte list \<Rightarrow> byte list option) \<Rightarrow> coro \<Rightarrow> bool \<Rightarrow> byte list \<Rightarrow> u16 \<Rightarrow> bool \<Rightarrow> network
     \<Rightarrow> (u32 co \<times> network) option" where
  "net_kcp_listen mk h canceled host port reuse n =
     start_coro h canceled host (decimal (unat port)) (sys_kcp_listen mk host port reuse (net_sys n)) n"

definition net_tcp_connect :: "coro \<Rightarrow> bool \<Rightarrow> byte list \<Rightarrow> byte list \<Rightarrow> int \<Rightarrow> network \<Rightarrow> (u32 co \<times> network) option" where
  "net_tcp_connect h canceled host service timeout n =
     start_coro h canceled host service (sys_tcp_connect host service timeout (net_sys n)) n"

definition net_ssl_connect :: "coro \<Rightarrow> bool \<Rightarrow> byte list \<Rightarrow> byte list \<Rightarrow> int \<Rightarrow> byte list \<Rightarrow> bool \<Rightarrow> network \<Rightarrow> (u32 co \<times> network) option" where
  "net_ssl_connect h canceled host service timeout verify ignore_cert n =
     start_coro h canceled host service (sys_ssl_connect host service timeout verify ignore_cert (net_sys n)) n"

definition net_kcp_connect :: "coro \<Rightarrow> bool \<Rightarrow> byte list \<Rightarrow> byte list \<Rightarrow> int \<Rightarrow> network \<Rightarrow> (u32 co \<times> network) option" where
  "net_kcp_connect h canceled host service timeout n =
     start_coro h canceled host service (sys_kcp_connect host service timeout (net_sys n)) n"

section \<open>Accepting\<close>

definition accept_take :: "addr \<Rightarrow> network \<Rightarrow> u32 co \<times> network" where
  "accept_take p n = (case nd_accepted (net_store n p) of
       [] \<Rightarrow> (Returned 0, n)
     | a # as \<Rightarrow> (Returned a, (set_data p ((net_store n p)\<lparr>nd_accepted := as\<rparr>) n)\<lparr>net_sys := sys_accept a (net_sys n)\<rparr>))"

definition accept_resume :: "coro \<Rightarrow> bool \<Rightarrow> addr \<Rightarrow> network \<Rightarrow> u32 co \<times> network" where
  "accept_resume h canceled p n = (case await_resume h canceled (net_store n p) of
       Inl e \<Rightarrow> (Threw e, n)
     | Inr d \<Rightarrow> accept_take p (set_data p d n))"

definition net_accept :: "coro \<Rightarrow> bool \<Rightarrow> u32 \<Rightarrow> network \<Rightarrow> u32 co \<times> network" where
  "net_accept h canceled listen_id n =
     (if get_socket_class listen_id \<noteq> Server then (Threw invalid_action, n)
      else case net_sockets n listen_id of
             None \<Rightarrow> (Threw invalid_action, n)
           | Some p \<Rightarrow>
               if nd_accepted (net_store n p) = []
               then (case await_suspend h canceled (net_store n p) of
                       Some d \<Rightarrow> (Waiting p, set_data p d n)
                     | None \<Rightarrow> accept_resume h canceled p n)
               else accept_take p n)"

section \<open>The handlers\<close>

definition remove_socket :: "u32 \<Rightarrow> network \<Rightarrow> network" where
  "remove_socket i n = n\<lparr>net_sockets := (net_sockets n)(i := None)\<rparr>"

text \<open>The callback an awaiter on \<open>p\<close> registers with its token.\<close>

definition awaiter_canceled :: "coro \<Rightarrow> addr \<Rightarrow> network \<Rightarrow> network \<times> coro option" where
  "awaiter_canceled h p n = (remove_socket (nd_id (net_store n p)) n, Some h)"

definition hand_start :: "u32 \<Rightarrow> byte list \<Rightarrow> network \<Rightarrow> network \<times> coro option" where
  "hand_start i local n = (case net_sockets n i of
       None \<Rightarrow> (n, None)
     | Some p \<Rightarrow> (case nd_handle (net_store n p) of
           None \<Rightarrow> (n, None)
         | Some h \<Rightarrow> (if get_socket_class i = Client then set_data p ((net_store n p)\<lparr>nd_local := local\<rparr>) n else n, Some h)))"

definition hand_stop :: "u32 \<Rightarrow> error_code \<Rightarrow> network \<Rightarrow> network \<times> coro option" where
  "hand_stop i ec n = (case net_sockets n i of
       None \<Rightarrow> (n, None)
     | Some p \<Rightarrow>
         (let n = set_data p ((net_store n p)\<lparr>nd_ec := ec\<rparr>) (n\<lparr>net_sockets := (net_sockets n)(i := None)\<rparr>)
          in (n, nd_handle (net_store n p))))"

text \<open>Shrinking the buffer first does not change its readable bytes, which are all \<open>nd_buf\<close> holds.\<close>

definition hand_read :: "u32 \<Rightarrow> byte list \<Rightarrow> network \<Rightarrow> network \<times> coro option" where
  "hand_read i bs n = (case net_sockets n i of
       None \<Rightarrow> (n, None)
     | Some p \<Rightarrow> (let n = set_data p ((net_store n p)\<lparr>nd_buf := nd_buf (net_store n p) @ bs\<rparr>) n
         in (n, nd_handle (net_store n p))))"

definition net_close :: "u32 \<Rightarrow> network \<Rightarrow> network \<times> coro option" where
  "net_close i n = hand_stop i (Socket_error Initiative_disconnect) (n\<lparr>net_sys := sys_close i (net_sys n)\<rparr>)"

definition hand_accept :: "u32 \<Rightarrow> u32 \<Rightarrow> byte list \<Rightarrow> byte list \<Rightarrow> network \<Rightarrow> network \<times> coro option" where
  "hand_accept i accepted local remote n = (case net_sockets n i of
       None \<Rightarrow> net_close accepted n
     | Some p \<Rightarrow>
         (let n = snd (emplace_socket (new_data accepted local remote) n);
              n = set_data p ((net_store n p)\<lparr>nd_accepted := nd_accepted (net_store n p) @ [accepted]\<rparr>) n
          in (n, nd_handle (net_store n p))))"

definition net_write :: "u32 \<Rightarrow> byte list \<Rightarrow> network \<Rightarrow> network" where
  "net_write i buf n = n\<lparr>net_sys := sys_send i buf (net_sys n)\<rparr>"

definition net_no_delay :: "u32 \<Rightarrow> bool \<Rightarrow> network \<Rightarrow> network" where
  "net_no_delay i on n = n\<lparr>net_sys := sys_no_delay i on (net_sys n)\<rparr>"

definition local_address :: "u32 \<Rightarrow> network \<Rightarrow> byte list" where
  "local_address i n = (case net_sockets n i of None \<Rightarrow> [] | Some p \<Rightarrow> nd_local (net_store n p))"

definition remote_address :: "u32 \<Rightarrow> network \<Rightarrow> byte list" where
  "remote_address i n = (case net_sockets n i of None \<Rightarrow> [] | Some p \<Rightarrow> nd_remote (net_store n p))"

text \<open>What \<open>init\<close> registers: each call of the socket thread is posted to the scheduler, which runs the handler.\<close>

datatype net_event = Ev_accept u32 u32 "byte list" "byte list" | Ev_start u32 "byte list" | Ev_stop u32 error_code
  | Ev_read u32 "byte list"

fun handle_event :: "net_event \<Rightarrow> network \<Rightarrow> network \<times> coro option" where
  "handle_event (Ev_accept i a local remote) n = hand_accept i a local remote n"
| "handle_event (Ev_start i local) n = hand_start i local n"
| "handle_event (Ev_stop i ec) n = hand_stop i ec n"
| "handle_event (Ev_read i bs) n = hand_read i bs n"

section \<open>The map and one socket\<close>

definition net_wf :: "network \<Rightarrow> bool" where
  "net_wf n \<longleftrightarrow> (\<forall>i p. net_sockets n i = Some p \<longrightarrow> p < net_next n \<and> nd_id (net_store n p) = i)"

lemma net_wf_start: "net_wf network_start"
  by (simp add: net_wf_def network_start_def)

lemma net_wf_unique: "net_wf n \<Longrightarrow> net_sockets n i = Some p \<Longrightarrow> net_sockets n j = Some p \<Longrightarrow> i = j"
  by (auto simp: net_wf_def)

lemma net_wf_set_data: "net_wf n \<Longrightarrow> nd_id d = nd_id (net_store n p) \<Longrightarrow> net_wf (set_data p d n)"
  by (auto simp: net_wf_def set_data_def)

lemma net_wf_emplace: "net_wf n \<Longrightarrow> net_wf (snd (emplace_socket d n))"
  by (auto simp: net_wf_def emplace_socket_def set_data_def Let_def less_Suc_eq)

lemma emplace_old:
  assumes "net_wf n" "net_sockets n i = Some p"
  shows "net_sockets (snd (emplace_socket d n)) i = Some p" "net_store (snd (emplace_socket d n)) p = net_store n p"
  using assms by (auto simp: net_wf_def emplace_socket_def set_data_def Let_def)

lemma net_wf_stop: "net_wf n \<Longrightarrow> net_wf (fst (hand_stop i ec n))"
  by (auto simp: hand_stop_def set_data_def net_wf_def Let_def split: option.splits)

lemma net_wf_sys [simp]: "net_wf (n\<lparr>net_sys := s\<rparr>) = net_wf n"
  by (simp add: net_wf_def)

lemma net_wf_event:
  assumes "net_wf n"
  shows "net_wf (fst (handle_event e n))"
proof (cases e)
  case (Ev_accept i a lo re)
  then show ?thesis using assms net_wf_stop net_wf_emplace
    by (auto simp: hand_accept_def net_close_def Let_def split: option.splits intro!: net_wf_set_data)
qed (use assms net_wf_stop in \<open>auto simp: hand_start_def hand_read_def Let_def split: option.splits intro!: net_wf_set_data\<close>)

text \<open>The socket whose data is at \<open>p\<close>, as \<open>Net_Stream\<close> has it.\<close>

definition socket_view :: "addr \<Rightarrow> network \<Rightarrow> sock" where
  "socket_view p n = \<lparr>s_data = net_store n p, s_open = (net_sockets n (nd_id (net_store n p)) = Some p),
     s_canceled = False, s_events = []\<rparr>"

fun event_for :: "u32 \<Rightarrow> net_event \<Rightarrow> sock_event option" where
  "event_for i (Ev_read j bs) = (if i = j then Some (Data bs) else None)"
| "event_for i (Ev_stop j ec) = (if i = j then Some (Stop ec) else None)"
| "event_for i _ = None"

fun reading_event :: "u32 \<Rightarrow> net_event \<Rightarrow> bool" where
  "reading_event i (Ev_start j local) \<longleftrightarrow> i \<noteq> j"
| "reading_event i (Ev_accept j a local remote) \<longleftrightarrow> i \<noteq> j \<and> i \<noteq> a"
| "reading_event i _ \<longleftrightarrow> True"

lemma view_other:
  assumes w: "net_wf n" "net_sockets n i = Some p" and q: "net_sockets n j = Some q" "j \<noteq> i"
  shows "socket_view p (set_data q d n) = socket_view p n"
  using assms net_wf_unique [OF w(1)] by (auto simp: socket_view_def set_data_def)

lemma view_stop_other:
  assumes "net_wf n" "net_sockets n i = Some p" "i \<noteq> j"
  shows "socket_view p (fst (hand_stop j ec n)) = socket_view p n"
  using assms by (auto simp: hand_stop_def socket_view_def set_data_def net_wf_def Let_def split: option.splits)

lemma view_accept:
  assumes w: "net_wf n" "net_sockets n i = Some p" and a: "i \<noteq> j" "i \<noteq> a"
  shows "socket_view p (fst (hand_accept j a lo re n)) = socket_view p n"
proof (cases "net_sockets n j")
  case None
  then show ?thesis using view_stop_other [of "n\<lparr>net_sys := sys_close a (net_sys n)\<rparr>" i p a] assms
    by (simp add: hand_accept_def net_close_def) (simp add: socket_view_def)
next
  case (Some q)
  let ?n = "snd (emplace_socket (new_data a lo re) n)"
  have "socket_view p ?n = socket_view p n"
    using emplace_old [OF w] w(1) w(2) by (simp add: socket_view_def) (simp add: net_wf_def)
  moreover have "net_wf ?n" "net_sockets ?n i = Some p" "net_sockets ?n j = Some q"
    using net_wf_emplace [OF w(1)] emplace_old [OF w] emplace_old [OF w(1) Some] by auto
  ultimately show ?thesis using view_other [of ?n i p j q] a Some by (simp add: hand_accept_def Let_def)
qed

section \<open>Properties\<close>

text \<open>C8: The socket map refines the model of one socket: whatever event the socket thread posts (other than a
  start or an accept of this very socket), a socket of the map sees exactly the effect \<open>deliver\<close> gives in the
  one-socket model when the event is for it, and nothing otherwise; the coroutine waiting on it is the one
  resumed, and the map stays well formed.\<close>

theorem network_event_refines:
  assumes "net_wf n" "net_sockets n i = Some p" "reading_event i e"
  shows "net_wf (fst (handle_event e n))
     \<and> socket_view p (fst (handle_event e n)) =
         (case event_for i e of None \<Rightarrow> socket_view p n | Some v \<Rightarrow> deliver v (socket_view p n))
     \<and> (event_for i e \<noteq> None \<longrightarrow> snd (handle_event e n) = nd_handle (net_store n p))"
proof -
  have d: "nd_id (net_store n p) = i" using assms by (simp add: net_wf_def)
  have "socket_view p (fst (handle_event e n)) =
         (case event_for i e of None \<Rightarrow> socket_view p n | Some v \<Rightarrow> deliver v (socket_view p n))
     \<and> (event_for i e \<noteq> None \<longrightarrow> snd (handle_event e n) = nd_handle (net_store n p))"
  proof (cases e)
    case (Ev_accept j a lo re)
    then show ?thesis using assms view_accept by simp
  next
    case (Ev_start j lo)
    then show ?thesis using assms view_other [OF assms(1,2)]
      by (auto simp: hand_start_def split: option.splits)
  next
    case (Ev_stop j ec)
    then show ?thesis using assms d view_stop_other [OF assms(1,2), of j ec]
      by (auto simp: hand_stop_def Let_def socket_view_def set_data_def)
  next
    case (Ev_read j bs)
    then show ?thesis using assms d view_other [OF assms(1,2)]
      by (auto simp: hand_read_def Let_def socket_view_def set_data_def split: option.splits)
  qed
  then show ?thesis using net_wf_event [OF assms(1)] by blast
qed

theorem network_event_refines_witness:
  "socket_view 0 (fst (handle_event (Ev_read 3 [7]) (snd (create_start_awaiter 3 [] [] network_start))))
     = deliver (Data [7]) (socket_view 0 (snd (create_start_awaiter 3 [] [] network_start)))"
proof -
  let ?n = "snd (create_start_awaiter 3 [] [] network_start)"
  have "net_wf ?n" unfolding create_start_awaiter_def by (rule net_wf_emplace [OF net_wf_start])
  moreover have "net_sockets ?n 3 = Some 0"
    by (simp add: create_start_awaiter_def emplace_socket_def network_start_def set_data_def new_data_def Let_def)
  ultimately show ?thesis using network_event_refines [of ?n 3 0 "Ev_read 3 [7]"] by simp
qed

text \<open>Accepting \<open>k\<close> times in a row.\<close>

fun accept_many :: "coro \<Rightarrow> u32 \<Rightarrow> nat \<Rightarrow> network \<Rightarrow> u32 co list \<times> network" where
  "accept_many h l 0 n = ([], n)"
| "accept_many h l (Suc k) n = (let (r, n) = net_accept h False l n; (rs, n) = accept_many h l k n in (r # rs, n))"

definition arrivals :: "u32 \<Rightarrow> (u32 \<times> byte list \<times> byte list) list \<Rightarrow> network \<Rightarrow> network" where
  "arrivals l as n = fold (\<lambda>(a, lo, re) n. fst (hand_accept l a lo re n)) as n"

lemma hand_accept_listener:
  assumes "net_wf n" "net_sockets n l = Some p"
  shows "net_wf (fst (hand_accept l a lo re n))" "net_sockets (fst (hand_accept l a lo re n)) l = Some p"
    "net_store (fst (hand_accept l a lo re n)) p = (net_store n p)\<lparr>nd_accepted := nd_accepted (net_store n p) @ [a]\<rparr>"
    "snd (hand_accept l a lo re n) = nd_handle (net_store n p)"
    "net_sockets (fst (hand_accept l a lo re n)) a \<noteq> None"
    "net_sockets n j \<noteq> None \<Longrightarrow> net_sockets (fst (hand_accept l a lo re n)) j \<noteq> None"
  using emplace_old [OF assms, of "new_data a lo re"] net_wf_event [OF assms(1), of "Ev_accept l a lo re"] assms
  by (auto simp: hand_accept_def Let_def set_data_def emplace_socket_def new_data_def)

lemma arrivals_listener:
  assumes "net_wf n" "net_sockets n l = Some p"
  shows "net_wf (arrivals l as n) \<and> net_sockets (arrivals l as n) l = Some p
     \<and> net_store (arrivals l as n) p = (net_store n p)\<lparr>nd_accepted := nd_accepted (net_store n p) @ map fst as\<rparr>
     \<and> (\<forall>j. j \<in> set (map fst as) \<or> net_sockets n j \<noteq> None \<longrightarrow> net_sockets (arrivals l as n) j \<noteq> None)"
  using assms
proof (induction as arbitrary: n)
  case Nil
  then show ?case by (simp add: arrivals_def)
next
  case (Cons x as)
  obtain a lo re where x: "x = (a, lo, re)" by (cases x)
  let ?n = "fst (hand_accept l a lo re n)"
  note h = hand_accept_listener [OF Cons.prems, where a = a and lo = lo and re = re]
  have "arrivals l (x # as) n = arrivals l as ?n" by (simp add: arrivals_def x)
  then show ?case using Cons.IH [OF h(1,2)] h by (auto simp: x)
qed

lemma accept_many_queue:
  assumes "get_socket_class l = Server" "net_sockets n l = Some p" "nd_accepted (net_store n p) = as @ bs"
  shows "fst (accept_many h l (length as) n) = map Returned as
     \<and> nd_accepted (net_store (snd (accept_many h l (length as) n)) p) = bs"
  using assms
proof (induction as arbitrary: n)
  case (Cons a as)
  define n' where "n' = snd (net_accept h False l n)"
  have "net_accept h False l n = (Returned a, n')" "net_sockets n' l = Some p" "nd_accepted (net_store n' p) = as @ bs"
    using Cons.prems by (auto simp: n'_def net_accept_def accept_take_def set_data_def)
  then show ?case using Cons.IH [of n'] Cons.prems(1) by (simp add: split_beta Let_def)
qed simp

text \<open>Connections are accepted in order and none is lost: after any arrivals at a listening socket, as many
  calls of \<open>accept\<close> return their identifiers in the order they came, all of them in the map; and a coroutine
  that calls \<open>accept\<close> while none is there waits, is resumed by the next arrival and gets that one.\<close>

theorem accept_in_order:
  assumes "net_wf n" "get_socket_class l = Server" "net_sockets n l = Some p"
    and "nd_accepted (net_store n p) = []" "nd_handle (net_store n p) = None" "nd_ec (net_store n p) = No_error"
  shows "fst (accept_many h l (length as) (arrivals l as n)) = map (Returned \<circ> fst) as
     \<and> (\<forall>a \<in> set (map fst as). net_sockets (arrivals l as n) a \<noteq> None)
     \<and> (\<exists>n1 n2. net_accept h False l n = (Waiting p, n1) \<and> hand_accept l a lo re n1 = (n2, Some h)
         \<and> fst (accept_resume h False p n2) = Returned a)"
proof -
  note l = arrivals_listener [OF assms(1,3), of as]
  have "fst (accept_many h l (length as) (arrivals l as n)) = map (Returned \<circ> fst) as"
    using accept_many_queue [OF assms(2), of "arrivals l as n" p "map fst as" "[]" h] l assms(4) by simp
  moreover have "\<exists>n1 n2. net_accept h False l n = (Waiting p, n1) \<and> hand_accept l a lo re n1 = (n2, Some h)
         \<and> fst (accept_resume h False p n2) = Returned a"
  proof -
    define n1 where "n1 = set_data p ((net_store n p)\<lparr>nd_handle := Some h\<rparr>) n"
    have w: "net_wf n1" "net_sockets n1 l = Some p"
      using net_wf_set_data [OF assms(1)] assms(3) by (simp_all add: n1_def) (simp add: set_data_def)
    note ha = hand_accept_listener [OF w, where a = a and lo = lo and re = re]
    have "net_accept h False l n = (Waiting p, n1)"
      using assms by (simp add: net_accept_def await_suspend_def n1_def)
    moreover have "hand_accept l a lo re n1 = (fst (hand_accept l a lo re n1), Some h)"
      using ha(4) by (simp add: n1_def set_data_def prod_eq_iff)
    moreover have "fst (accept_resume h False p (fst (hand_accept l a lo re n1))) = Returned a"
      using ha(3) assms by (simp add: accept_resume_def await_resume_def accept_take_def n1_def set_data_def)
    ultimately show ?thesis by blast
  qed
  ultimately show ?thesis using l by blast
qed

theorem accept_in_order_witness:
  "fst (accept_many 9 1 2 (arrivals 1 [(2, [], []), (18, [], [])] (snd (create_start_awaiter 1 [] [] network_start))))
     = [Returned 2, Returned 18]"
proof -
  let ?n = "snd (create_start_awaiter 1 [] [] network_start)"
  have w: "net_wf ?n" unfolding create_start_awaiter_def by (rule net_wf_emplace [OF net_wf_start])
  have s: "net_sockets ?n 1 = Some 0" "get_socket_class 1 = Server" "nd_accepted (net_store ?n 0) = []"
      "nd_handle (net_store ?n 0) = None" "nd_ec (net_store ?n 0) = No_error"
    by (simp_all add: create_start_awaiter_def emplace_socket_def network_start_def set_data_def new_data_def Let_def get_socket_class_def)
  show ?thesis
    using accept_in_order [OF w s(2,1,3,4,5), of 9 "[(2, [], []), (18, [], [])]"] by (simp add: numeral_2_eq_2)
qed

text \<open>The coroutines resumed by a sequence of events.\<close>

fun resumed :: "net_event list \<Rightarrow> network \<Rightarrow> coro list" where
  "resumed [] n = []"
| "resumed (e # es) n = (case handle_event e n of (n', r) \<Rightarrow> (case r of None \<Rightarrow> [] | Some h \<Rightarrow> [h]) @ resumed es n')"

fun event_ids :: "net_event \<Rightarrow> u32 list" where
  "event_ids (Ev_accept i a local remote) = [i, a]"
| "event_ids (Ev_start i local) = [i]"
| "event_ids (Ev_stop i ec) = [i]"
| "event_ids (Ev_read i bs) = [i]"

definition stranded :: "coro \<Rightarrow> addr \<Rightarrow> network \<Rightarrow> bool" where
  "stranded h p n \<longleftrightarrow> p < net_next n \<and> (\<forall>q. nd_handle (net_store n q) = Some h \<longrightarrow> q = p)
     \<and> (\<forall>j. net_sockets n j = Some p \<longrightarrow> j = 0)"

lemma stranded_stop:
  "stranded h p n \<Longrightarrow> i \<noteq> 0 \<Longrightarrow> stranded h p (fst (hand_stop i ec n)) \<and> snd (hand_stop i ec n) \<noteq> Some h"
  by (auto simp: hand_stop_def stranded_def set_data_def Let_def split: option.splits if_splits)

lemma stranded_emplace: "stranded h p n \<Longrightarrow> nd_handle d = None \<Longrightarrow> stranded h p (snd (emplace_socket d n))"
  by (auto simp: emplace_socket_def stranded_def set_data_def Let_def split: if_splits)

lemma stranded_accept:
  assumes "stranded h p n" "i \<noteq> 0" "a \<noteq> 0"
  shows "stranded h p (fst (hand_accept i a lo re n)) \<and> snd (hand_accept i a lo re n) \<noteq> Some h"
proof (cases "net_sockets n i")
  case None
  have "stranded h p (n\<lparr>net_sys := sys_close a (net_sys n)\<rparr>)" using assms(1) by (simp add: stranded_def)
  then show ?thesis using stranded_stop assms(3) None by (simp add: hand_accept_def net_close_def)
next
  case (Some q)
  let ?n = "snd (emplace_socket (new_data a lo re) n)"
  have n: "stranded h p ?n" using stranded_emplace [OF assms(1)] by (simp add: new_data_def)
  have "q \<noteq> p" using Some assms by (auto simp: stranded_def)
  then show ?thesis using n Some by (auto simp: hand_accept_def Let_def stranded_def set_data_def split: if_splits)
qed

lemma stranded_event:
  assumes "stranded h p n" "\<forall>i \<in> set (event_ids e). i \<noteq> 0"
  shows "stranded h p (fst (handle_event e n)) \<and> snd (handle_event e n) \<noteq> Some h"
proof (cases e)
  case (Ev_accept i a lo re)
  then show ?thesis using assms stranded_accept by simp
next
  case (Ev_stop i ec)
  then show ?thesis using assms stranded_stop by simp
qed (use assms in \<open>auto simp: hand_start_def hand_read_def stranded_def set_data_def Let_def split: option.splits if_splits\<close>)

lemma stranded_resumed:
  "stranded h p n \<Longrightarrow> \<forall>e \<in> set es. \<forall>i \<in> set (event_ids e). i \<noteq> 0 \<Longrightarrow> h \<notin> set (resumed es n)"
proof (induction es arbitrary: n)
  case (Cons e es)
  then show ?case using stranded_event [OF Cons.prems(1), of e] by (auto simp: split_beta split: option.splits)
qed simp

text \<open>Listening at an address that does not parse never returns: \<open>socket_system::tcp_listen\<close> gives the identifier 0
  and posts nothing, the coroutine waits on a socket entered under 0, and no sequence of events about real
  sockets (identifiers are never 0) resumes it.\<close>

theorem listen_bad_address_hangs:
  assumes "mk host = None" "host \<noteq> []" "net_wf n" "net_sockets n 0 = None"
    and "\<forall>q. nd_handle (net_store n q) \<noteq> Some h" "\<forall>e \<in> set es. \<forall>i \<in> set (event_ids e). i \<noteq> 0"
  shows "\<exists>p n'. net_tcp_listen mk h False host port reuse n = Some (Waiting p, n') \<and> net_sys n' = net_sys n
     \<and> h \<notin> set (resumed es n')"
proof -
  define d where "d = new_data 0 [] (to_address_string host (decimal (unat port)))"
  define n' where "n' = set_data (net_next n) (d\<lparr>nd_handle := Some h\<rparr>) (snd (emplace_socket d n))"
  have "net_tcp_listen mk h False host port reuse n = Some (Waiting (net_next n), n')"
    using assms(1,2) by (simp add: net_tcp_listen_def sys_tcp_listen_def local_endpoint_def start_coro_def start_wait_def
        create_start_awaiter_def get_socket_class_def emplace_socket_def await_suspend_def Let_def n'_def d_def set_data_def new_data_def)
  moreover have "net_sys n' = net_sys n" by (simp add: n'_def set_data_def emplace_socket_def Let_def)
  moreover have "stranded h (net_next n) n'"
    using assms(3-5) by (auto simp: stranded_def n'_def d_def set_data_def emplace_socket_def new_data_def net_wf_def Let_def)
  ultimately show ?thesis using stranded_resumed [OF _ assms(6)] by blast
qed

theorem listen_bad_address_hangs_witness:
  "\<exists>p n'. net_tcp_listen (\<lambda>_. None) 9 False [120] 80 False network_start = Some (Waiting p, n')
     \<and> 9 \<notin> set (resumed [Ev_start 1 [], Ev_stop 17 Asio_eof] n')"
proof -
  have "\<forall>e \<in> set [Ev_start 1 [], Ev_stop 17 Asio_eof]. \<forall>i \<in> set (event_ids e). i \<noteq> 0" by simp
  moreover have "net_sockets network_start 0 = None" "\<forall>q. nd_handle (net_store network_start q) \<noteq> Some 9"
    by (simp_all add: network_start_def new_data_def)
  ultimately show ?thesis
    using listen_bad_address_hangs [of "\<lambda>_. None" "[120]" network_start 9 _ 80 False, OF _ _ net_wf_start] by blast
qed

end
