(* ===== verification/Trie_AC.thy ===== *)
theory Trie_AC
  imports Prelude
begin

text \<open>
  The Aho-Corasick matcher of \<open>runtime/src/utils/trie_ac.cpp\<close>: building the trie (\<open>init\<close>, \<open>update\<close>), the failure
  table and the conversion to an automaton (\<open>final\<close>), and its two clients \<open>in_trie\<close> and \<open>replace\<close>.  A row of the
  goto table (an \<open>unordered_set\<close> of \<open>node\<close>) is a partial function; the order in which C++ iterates over a row is
  the argument \<open>iter\<close>.  States are \<open>int\<close> (the C++ counter has 32 bits: a trie with that many rows does not fit in
  memory).  \<open>None\<close> is undefined behaviour (an index outside a vector, a null pointer) or a loop that does not end.
  Characters are bytes and \<open>tolower\<close> is that of the C locale, which leaves bytes from 128 on alone (the code passes them as negative \<open>char\<close>s, which C leaves undefined).
\<close>

section \<open>The tables\<close>

type_synonym node_set = "byte \<Rightarrow> int option"

record ac_dfa =
  goto_t :: "node_set list"
  output_t :: "nat list"
  ignore_case :: bool

record trie_ac =
  ac_data :: "ac_dfa option"
  ac_reserve :: "ac_dfa option"
  fail_table :: "int list"
  ac_state :: int

definition trie_ac_new :: trie_ac where
  "trie_ac_new = \<lparr>ac_data = None, ac_reserve = None, fail_table = [], ac_state = 0\<rparr>"

definition tolower :: "byte \<Rightarrow> byte" where
  "tolower ch = (if 65 \<le> ch \<and> ch \<le> 90 then ch + 32 else ch)"

definition fold_case :: "bool \<Rightarrow> byte \<Rightarrow> byte" where
  "fold_case ic ch = (if ic then tolower ch else ch)"

definition next_state :: "node_set list \<Rightarrow> int \<Rightarrow> byte \<Rightarrow> int" where
  "next_state table state ch =
     (if state < 0 \<or> nat state \<ge> length table then 0
      else case (table ! nat state) ch of
             None \<Rightarrow> if state = 0 then 0 else -1
           | Some next \<Rightarrow> next)"

definition in_vector :: "int \<Rightarrow> 'a list \<Rightarrow> bool" where
  "in_vector i xs \<longleftrightarrow> 0 \<le> i \<and> nat i < length xs"

definition emplace_node :: "byte \<Rightarrow> int \<Rightarrow> node_set \<Rightarrow> node_set" where
  "emplace_node ch next row = (if row ch = None then row(ch \<mapsto> next) else row)"

section \<open>Building\<close>

definition ac_init :: "bool \<Rightarrow> trie_ac \<Rightarrow> trie_ac" where
  "ac_init ic t =
     (let d = (case ac_reserve t of None \<Rightarrow> \<lparr>goto_t = [], output_t = [], ignore_case = False\<rparr> | Some d \<Rightarrow> d);
          d = d\<lparr>goto_t := (if goto_t d = [] then [\<lambda>_. None] else take 1 (goto_t d)),
                output_t := (if output_t d = [] then [0] else take 1 (output_t d)), ignore_case := ic\<rparr>
      in t\<lparr>ac_reserve := Some d, ac_state := 0\<rparr>)"

text \<open>One character of \<open>update\<close>, on the state \<open>now\<close>, the tables and the counter.\<close>

fun update_step :: "byte \<Rightarrow> int \<times> ac_dfa \<times> int \<Rightarrow> (int \<times> ac_dfa \<times> int) option" where
  "update_step ch (now, d, state) =
     (let ch = fold_case (ignore_case d) ch; next = next_state (goto_t d) now ch
      in if next \<le> 0
         then if in_vector now (goto_t d)
              then Some (state + 1,
                d\<lparr>goto_t := (goto_t d)[nat now := emplace_node ch (state + 1) (goto_t d ! nat now)] @ [\<lambda>_. None],
                  output_t := output_t d @ [0]\<rparr>, state + 1)
              else None
         else Some (next, d, state))"

fun update_loop :: "byte list \<Rightarrow> int \<times> ac_dfa \<times> int \<Rightarrow> (int \<times> ac_dfa \<times> int) option" where
  "update_loop [] x = Some x"
| "update_loop (ch # str) x = Option.bind (update_step ch x) (update_loop str)"

definition ac_update :: "byte list \<Rightarrow> trie_ac \<Rightarrow> trie_ac option" where
  "ac_update str t = (case ac_reserve t of
       None \<Rightarrow> None
     | Some d \<Rightarrow> (case update_loop str (0, d, ac_state t) of
           None \<Rightarrow> None
         | Some (now, d, state) \<Rightarrow>
             if in_vector now (output_t d)
             then Some (t\<lparr>ac_reserve := Some (d\<lparr>output_t := (output_t d)[nat now := max (output_t d ! nat now) (length str)]\<rparr>),
                          ac_state := state\<rparr>)
             else None))"

section \<open>The failure table\<close>

definition reset_fail_table :: "nat \<Rightarrow> int list \<Rightarrow> int list" where
  "reset_fail_table n ft =
     (let old = length ft; ft = take n ft @ replicate (n - old) (-1); reset_sz = min old (length ft)
      in replicate reset_sz (-1) @ drop reset_sz ft)"

text \<open>The \<open>do ... while (ret < 0)\<close> loop.\<close>

partial_function (option) fail_search :: "node_set list \<Rightarrow> int list \<Rightarrow> int \<Rightarrow> byte \<Rightarrow> int option" where
  "fail_search table ft prev_state ch =
     (if in_vector prev_state ft
      then let prev_state = ft ! nat prev_state; ret = next_state table prev_state ch
           in if ret < 0 then fail_search table ft prev_state ch else Some ret
      else None)"

text \<open>One child of the state taken from the queue; the tables are the failure table and the outputs.\<close>

fun fail_step :: "node_set list \<Rightarrow> int \<Rightarrow> byte \<Rightarrow> int list \<times> int list \<times> nat list \<Rightarrow> (int list \<times> int list \<times> nat list) option" where
  "fail_step table state ch (q, ft, out) =
     (case (table ! nat state) ch of
        None \<Rightarrow> None
      | Some next \<Rightarrow>
          if \<not> in_vector next ft then None
          else if ft ! nat next \<noteq> -1 then Some (q, ft, out)
          else (case fail_search table ft state ch of
                  None \<Rightarrow> None
                | Some ret \<Rightarrow>
                    if \<not> in_vector ret out \<or> \<not> in_vector next out then None
                    else Some (q @ [next], ft[nat next := ret],
                      if out ! nat ret > 0 then out[nat next := max (out ! nat ret) (out ! nat next)] else out)))"

fun fail_children :: "node_set list \<Rightarrow> int \<Rightarrow> byte list \<Rightarrow> int list \<times> int list \<times> nat list \<Rightarrow> (int list \<times> int list \<times> nat list) option" where
  "fail_children table state [] x = Some x"
| "fail_children table state (ch # cs) x = Option.bind (fail_step table state ch x) (fail_children table state cs)"

type_synonym row_order = "int \<Rightarrow> node_set \<Rightarrow> byte list"

partial_function (option) fail_loop :: "row_order \<Rightarrow> node_set list \<Rightarrow> int list \<times> int list \<times> nat list \<Rightarrow> (int list \<times> nat list) option" where
  "fail_loop iter table x =
     (case x of (q, ft, out) \<Rightarrow> (case q of
        [] \<Rightarrow> Some (ft, out)
      | state # q \<Rightarrow>
          if in_vector state table
          then Option.bind (fail_children table state (iter state (table ! nat state)) (q, ft, out)) (fail_loop iter table)
          else None))"

fun fail_roots :: "node_set \<Rightarrow> byte list \<Rightarrow> int list \<times> int list \<Rightarrow> (int list \<times> int list) option" where
  "fail_roots row [] (q, ft) = Some (q, ft)"
| "fail_roots row (ch # cs) (q, ft) = (case row ch of
     None \<Rightarrow> None
   | Some next \<Rightarrow> if in_vector next ft then fail_roots row cs (q @ [next], ft[nat next := 0]) else None)"

definition build_fail_table :: "row_order \<Rightarrow> ac_dfa \<Rightarrow> int list \<Rightarrow> (int list \<times> ac_dfa) option" where
  "build_fail_table iter d ft =
     (if goto_t d = [] then Some (ft, d)
      else (case fail_roots (goto_t d ! 0) (iter 0 (goto_t d ! 0)) ([], reset_fail_table (length (goto_t d)) ft) of
              None \<Rightarrow> None
            | Some (q, ft) \<Rightarrow> map_option (\<lambda>(ft, out). (ft, d\<lparr>output_t := out\<rparr>)) (fail_loop iter (goto_t d) (q, ft, output_t d))))"

section \<open>The automaton\<close>

fun dfa_step :: "int list \<Rightarrow> int \<Rightarrow> byte \<Rightarrow> int list \<times> node_set list \<Rightarrow> (int list \<times> node_set list) option" where
  "dfa_step ft state ch (q, table) =
     (let next = next_state table state ch
      in if next > 0 then Some (q @ [next], table)
         else if \<not> in_vector state ft then None
         else let next = next_state table (ft ! nat state) ch
              in if next > 0
                 then if in_vector state table
                      then Some (q, table[nat state := emplace_node ch next (table ! nat state)]) else None
                 else Some (q, table))"

fun dfa_row :: "int list \<Rightarrow> int \<Rightarrow> byte list \<Rightarrow> int list \<times> node_set list \<Rightarrow> (int list \<times> node_set list) option" where
  "dfa_row ft state [] x = Some x"
| "dfa_row ft state (ch # cs) x = Option.bind (dfa_step ft state ch x) (dfa_row ft state cs)"

definition all_bytes :: "byte list" where
  "all_bytes = map of_nat [0..<256]"

partial_function (option) dfa_loop :: "int list \<Rightarrow> int list \<times> node_set list \<Rightarrow> node_set list option" where
  "dfa_loop ft x = (case x of (q, table) \<Rightarrow> (case q of
       [] \<Rightarrow> Some table
     | state # q \<Rightarrow> Option.bind (dfa_row ft state all_bytes (q, table)) (dfa_loop ft)))"

definition convert_to_dfa :: "row_order \<Rightarrow> int list \<Rightarrow> ac_dfa \<Rightarrow> ac_dfa option" where
  "convert_to_dfa iter ft d =
     (if goto_t d = [] \<or> ft = [] then Some d
      else map_option (\<lambda>table. d\<lparr>goto_t := table\<rparr>)
        (dfa_loop ft (map (\<lambda>ch. the ((goto_t d ! 0) ch)) (iter 0 (goto_t d ! 0)), goto_t d)))"

text \<open>\<open>final\<close>; \<open>busy\<close> says whether somebody still holds the table that was in use.\<close>

definition ac_final :: "row_order \<Rightarrow> bool \<Rightarrow> trie_ac \<Rightarrow> trie_ac option" where
  "ac_final iter busy t = (case ac_reserve t of
       None \<Rightarrow> None
     | Some d \<Rightarrow> (case build_fail_table iter d (fail_table t) of
           None \<Rightarrow> None
         | Some (ft, d) \<Rightarrow> map_option (\<lambda>d. t\<lparr>fail_table := ft, ac_data := Some d,
               ac_reserve := (if busy then None else ac_data t)\<rparr>) (convert_to_dfa iter ft d)))"

section \<open>Matching\<close>

text \<open>Both loops stop at a zero character.\<close>

fun in_trie_loop :: "ac_dfa \<Rightarrow> int \<Rightarrow> byte list \<Rightarrow> bool option" where
  "in_trie_loop d state [] = Some False"
| "in_trie_loop d state (ch # str) =
     (if ch = 0 then Some False
      else let state = next_state (goto_t d) state (fold_case (ignore_case d) ch); state = (if state < 0 then 0 else state)
           in if \<not> in_vector state (output_t d) then None
              else if output_t d ! nat state > 0 then Some True else in_trie_loop d state str)"

definition in_trie :: "trie_ac \<Rightarrow> byte list \<Rightarrow> bool option" where
  "in_trie t str = (case ac_data t of
       None \<Rightarrow> Some False
     | Some d \<Rightarrow> if goto_t d = [] then Some False else in_trie_loop d 0 str)"

text \<open>\<open>add_idx\<close>: the last \<open>max_sz\<close> positions before \<open>pos\<close> are marked; the vector has the size of the string once
  something is marked and is empty before.\<close>

definition add_idx :: "nat \<Rightarrow> nat \<Rightarrow> nat \<Rightarrow> bool list \<Rightarrow> bool list option" where
  "add_idx sz max_sz pos marks =
     (if max_sz = 0 then Some marks
      else if max_sz > pos \<or> pos > sz then None
      else let marks = (if marks = [] then replicate sz False else marks)
           in Some (take (pos - max_sz) marks @ replicate max_sz True @ drop pos marks))"

fun mark_loop :: "ac_dfa \<Rightarrow> nat \<Rightarrow> nat \<Rightarrow> int \<Rightarrow> bool list \<Rightarrow> byte list \<Rightarrow> bool list option" where
  "mark_loop d sz i state marks [] = Some marks"
| "mark_loop d sz i state marks (ch # str) =
     (if ch = 0 then Some marks
      else let state = next_state (goto_t d) state (fold_case (ignore_case d) ch); state = (if state < 0 then 0 else state)
           in if \<not> in_vector state (output_t d) then None
              else Option.bind (add_idx sz (output_t d ! nat state) (i + 1) marks)
                     (\<lambda>marks. mark_loop d sz (i + 1) state marks str))"

text \<open>The number of bytes \<open>next_utf8\<close> moves over; \<open>str\<close> is the part it may use.\<close>

definition utf8_width :: "byte \<Rightarrow> nat" where
  "utf8_width val = (if val < 128 then 1 else if val < 224 then 2 else if val < 240 then 3 else if val < 248 then 4
     else if val < 252 then 5 else if val < 254 then 6 else 1)"

definition next_utf8 :: "byte list \<Rightarrow> nat" where
  "next_utf8 str = (let cnt = utf8_width (hd str)
     in if list_all (\<lambda>i. i < length str \<and> \<not> (str ! i \<ge> 192 \<or> str ! i < 128)) [1..<cnt] then cnt else 1)"

lemma next_utf8_pos: "0 < next_utf8 str"
  by (simp add: next_utf8_def utf8_width_def Let_def)

function cnt_utf8 :: "byte list \<Rightarrow> nat" where
  "cnt_utf8 str = (if str = [] then 0 else Suc (cnt_utf8 (drop (next_utf8 str) str)))"
  by pat_completeness auto
termination
  by (relation "measure length") (auto simp: next_utf8_pos)

declare cnt_utf8.simps [simp del]

text \<open>The copying loop of \<open>replace\<close>, at \<open>start\<close>, with what has been copied up to \<open>copied\<close> (\<open>last\<close> in the code).\<close>

function replace_loop :: "byte list \<Rightarrow> bool list \<Rightarrow> nat \<Rightarrow> nat \<Rightarrow> byte list \<Rightarrow> byte list" where
  "replace_loop str marks start copied temp =
     (if start < length str
      then if marks ! start
           then let temp = temp @ slice copied (start - copied) str;
                    end = start + 1 + length (takeWhile (\<lambda>m. m) (drop (start + 1) marks));
                    temp = temp @ replicate (cnt_utf8 (slice start (end - start) str)) 42
                in replace_loop str marks end end temp
           else replace_loop str marks (start + 1) copied temp
      else if copied < length str then temp @ drop copied str else temp)"
  by pat_completeness auto
termination
  by (relation "measure (\<lambda>(str, marks, start, copied, temp). length str - start)") auto

declare replace_loop.simps [simp del]

definition ac_replace :: "trie_ac \<Rightarrow> byte list \<Rightarrow> byte list option" where
  "ac_replace t str = (case ac_data t of
       None \<Rightarrow> Some str
     | Some d \<Rightarrow>
         if goto_t d = [] then Some str
         else map_option (\<lambda>marks. if marks = [] then str else replace_loop str marks 0 0 [])
                (mark_loop d (length str) 0 0 [] str))"

end
