(* ===== verification/Trie_Build.thy ===== *)
theory Trie_Build
  imports Trie_AC "HOL-Library.Sublist"
begin

text \<open>
  What \<open>init\<close>, \<open>update\<close> and \<open>final\<close> of \<open>trie_ac\<close> build: the trie of the patterns, the breadth-first order of the two
  loops over it, the failure table (the longest proper suffix that is a state) and the automaton (\<open>dfa_ok\<close>: every
  move goes to the longest suffix of the input that is a state, every output is the longest pattern that ends
  there).  Both loops are shown to end.
\<close>

section \<open>The longest suffix in a set of words\<close>

text \<open>The states stand for the words of a list \<open>W\<close> that is closed under prefixes and starts with the empty
  word; what the automaton tracks is the longest suffix of its input that is one of them.\<close>

fun lsuf :: "byte list set \<Rightarrow> byte list \<Rightarrow> byte list" where
  "lsuf A [] = []"
| "lsuf A (x # xs) = (if x # xs \<in> A then x # xs else lsuf A xs)"

lemma lsuf_suffix: "suffix (lsuf A u) u"
  by (induction u) (auto simp: suffix_Cons)

lemma lsuf_mem: "[] \<in> A \<Longrightarrow> lsuf A u \<in> A"
  by (induction u) auto

lemma lsuf_self: "[] \<in> A \<Longrightarrow> u \<in> A \<Longrightarrow> lsuf A u = u"
  by (cases u) auto

lemma lsuf_greatest: "v \<in> A \<Longrightarrow> suffix v u \<Longrightarrow> suffix v (lsuf A u)"
  by (induction u) (auto simp: suffix_Cons)

lemma lsuf_eqI:
  assumes "v \<in> A" "suffix v u" "\<And>v'. v' \<in> A \<Longrightarrow> suffix v' u \<Longrightarrow> suffix v' v" "[] \<in> A"
  shows "lsuf A u = v"
  using assms lsuf_greatest [OF assms(1,2)] lsuf_mem [of A u] lsuf_suffix [of A u]
  by (meson suffix_order.antisym)

definition prefix_closed :: "byte list set \<Rightarrow> bool" where
  "prefix_closed A \<longleftrightarrow> [] \<in> A \<and> (\<forall>w c. w @ [c] \<in> A \<longrightarrow> w \<in> A)"

lemma lsuf_snoc:
  assumes "prefix_closed A"
  shows "lsuf A (u @ [c]) = lsuf A (lsuf A u @ [c])"
proof (rule lsuf_eqI)
  have n: "[] \<in> A" using assms by (simp add: prefix_closed_def)
  then show "lsuf A (lsuf A u @ [c]) \<in> A" "[] \<in> A" by (auto intro: lsuf_mem)
  have "suffix (lsuf A u @ [c]) (u @ [c])" using lsuf_suffix [of A u] by simp
  then show "suffix (lsuf A (lsuf A u @ [c])) (u @ [c])" using lsuf_suffix suffix_order.trans by blast
  fix v assume v: "v \<in> A" "suffix v (u @ [c])"
  show "suffix v (lsuf A (lsuf A u @ [c]))"
  proof (cases v rule: rev_cases)
    case (snoc w x)
    then have "x = c" "suffix w u" "w \<in> A" using v assms by (auto simp: prefix_closed_def)
    then have "suffix v (lsuf A u @ [c])" using lsuf_greatest snoc by simp
    then show ?thesis using lsuf_greatest v(1) by blast
  qed simp
qed

text \<open>The longest proper suffix, which the failure table holds.\<close>

lemma lsuf_absent: "u @ [c] \<notin> A \<Longrightarrow> u \<noteq> [] \<Longrightarrow> lsuf A (u @ [c]) = lsuf A (tl u @ [c])"
  by (cases u) auto

lemma lsuf_tl_shorter: "u \<noteq> [] \<Longrightarrow> length (lsuf A (tl u)) < length u"
  using suffix_length_le [OF lsuf_suffix [of A "tl u"]] by (cases u) auto

text \<open>The length of the longest word of \<open>P\<close> that ends here.\<close>

definition longest :: "byte list set \<Rightarrow> byte list \<Rightarrow> nat \<Rightarrow> bool" where
  "longest P w n \<longleftrightarrow> (\<forall>p \<in> P. suffix p w \<longrightarrow> length p \<le> n) \<and> (n = 0 \<or> (\<exists>p \<in> P. suffix p w \<and> length p = n))"

lemma longest_lsuf:
  assumes "P \<subseteq> A"
  shows "longest P u n \<longleftrightarrow> longest P (lsuf A u) n"
proof -
  have "p \<in> P \<Longrightarrow> suffix p (lsuf A u) \<longleftrightarrow> suffix p u" for p
    using lsuf_greatest [of p A u] lsuf_suffix [of A u] assms suffix_order.trans by blast
  then show ?thesis by (auto simp: longest_def)
qed

definition own :: "byte list set \<Rightarrow> byte list \<Rightarrow> nat" where
  "own P w = (if w \<in> P then length w else 0)"

lemma longest_own:
  assumes "w \<noteq> []" "longest P (tl w) n"
  shows "longest P w (max n (own P w))"
proof -
  have s: "suffix p w \<longleftrightarrow> p = w \<or> suffix p (tl w)" for p
    using assms(1) by (cases w) (auto simp: suffix_Cons)
  have len: "suffix p (tl w) \<Longrightarrow> length p \<le> length w" for p using suffix_length_le by fastforce
  have "n \<le> length w" using assms(2) len by (auto simp: longest_def)
  then show ?thesis using assms(2) s by (auto simp: longest_def own_def max_def)
qed

section \<open>The trie\<close>

definition names :: "byte list list \<Rightarrow> int \<Rightarrow> byte list \<Rightarrow> bool" where
  "names W s w \<longleftrightarrow> in_vector s W \<and> W ! nat s = w"

definition trie_ok :: "byte list list \<Rightarrow> node_set list \<Rightarrow> bool" where
  "trie_ok W g \<longleftrightarrow> length g = length W \<and> distinct W \<and> names W 0 [] \<and> prefix_closed (set W)
     \<and> (\<forall>s w c. names W s w \<longrightarrow> (case (g ! nat s) c of None \<Rightarrow> w @ [c] \<notin> set W | Some t \<Rightarrow> names W t (w @ [c])))"

lemma names_mem: "names W s w \<Longrightarrow> w \<in> set W"
  by (auto simp: names_def in_vector_def)

lemma names_ex: "w \<in> set W \<Longrightarrow> \<exists>s. names W s w"
proof -
  assume "w \<in> set W"
  then obtain i where "i < length W" "W ! i = w" by (auto simp: in_set_conv_nth)
  then have "names W (int i) w" by (simp add: names_def in_vector_def)
  then show ?thesis by blast
qed

lemma names_inj: "distinct W \<Longrightarrow> names W s w \<Longrightarrow> names W t w \<Longrightarrow> s = t"
  by (auto simp: names_def in_vector_def nth_eq_iff_index_eq)

lemma names_fun: "names W s w \<Longrightarrow> names W s v \<Longrightarrow> w = v"
  by (simp add: names_def)

lemma names_zero: "trie_ok W g \<Longrightarrow> names W s w \<Longrightarrow> s = 0 \<longleftrightarrow> w = []"
  using names_inj [of W s "[]" 0] names_fun [of W 0 w "[]"] by (auto simp: trie_ok_def)

lemma names_vector: "names W s w \<Longrightarrow> length xs = length W \<Longrightarrow> in_vector s xs"
  by (simp add: names_def in_vector_def)

lemma trie_ok_row:
  assumes "trie_ok W g" "names W s w"
  shows "(g ! nat s) c = Some t \<longleftrightarrow> names W t (w @ [c])" "(g ! nat s) c = None \<longleftrightarrow> w @ [c] \<notin> set W"
proof -
  have r: "case (g ! nat s) c of None \<Rightarrow> w @ [c] \<notin> set W | Some t \<Rightarrow> names W t (w @ [c])"
    using assms by (simp add: trie_ok_def)
  then show "(g ! nat s) c = None \<longleftrightarrow> w @ [c] \<notin> set W" by (auto split: option.splits dest: names_mem)
  show "(g ! nat s) c = Some t \<longleftrightarrow> names W t (w @ [c])"
    using r names_inj [of W _ "w @ [c]" t] assms(1) by (auto simp: trie_ok_def split: option.splits dest: names_mem)
qed

lemma next_state_trie:
  assumes ok: "trie_ok W g" and s: "names W s w"
  shows "w @ [c] \<in> set W \<Longrightarrow> names W (next_state g s c) (w @ [c]) \<and> 0 < next_state g s c"
    "w @ [c] \<notin> set W \<Longrightarrow> next_state g s c = (if w = [] then 0 else -1)"
proof -
  have v: "0 \<le> s" "nat s < length g" using s ok by (auto simp: names_def in_vector_def trie_ok_def)
  show "next_state g s c = (if w = [] then 0 else -1)" if "w @ [c] \<notin> set W"
    using trie_ok_row(2) [OF ok s, of c] names_zero [OF ok s] v that by (simp add: next_state_def)
  show "names W (next_state g s c) (w @ [c]) \<and> 0 < next_state g s c" if m: "w @ [c] \<in> set W"
  proof -
    obtain t where t: "(g ! nat s) c = Some t" using trie_ok_row(2) [OF ok s, of c] m by auto
    then have n: "names W t (w @ [c])" using trie_ok_row(1) [OF ok s] by blast
    then have "t \<noteq> 0" "0 \<le> t" using names_zero [OF ok n] by (auto simp: names_def in_vector_def)
    then show ?thesis using n t v by (simp add: next_state_def)
  qed
qed

text \<open>The tables while the patterns \<open>P\<close> are being entered.\<close>

definition dict_ok :: "byte list list \<Rightarrow> byte list set \<Rightarrow> ac_dfa \<Rightarrow> bool" where
  "dict_ok W P d \<longleftrightarrow> trie_ok W (goto_t d) \<and> length (output_t d) = length W \<and> P \<subseteq> set W
     \<and> (\<forall>s w. names W s w \<longrightarrow> output_t d ! nat s = own P w)"

lemma trie_ok_add:
  assumes ok: "trie_ok W g" and s: "names W s w" and c: "w @ [c] \<notin> set W"
  shows "trie_ok (W @ [w @ [c]]) (g[nat s := (g ! nat s)(c \<mapsto> int (length W))] @ [\<lambda>_. None])"
proof -
  let ?W = "W @ [w @ [c]]" and ?g = "g[nat s := (g ! nat s)(c \<mapsto> int (length W))] @ [\<lambda>_. None]"
  have l: "length g = length W" "distinct W" "names W 0 []" "prefix_closed (set W)" "w \<in> set W"
    using ok s by (auto simp: trie_ok_def names_mem)
  have closed: "v @ [b] \<in> set W \<Longrightarrow> v \<in> set W" for v b using l(4) unfolding prefix_closed_def by blast
  have new: "names ?W t v \<longleftrightarrow> names W t v \<or> t = int (length W) \<and> v = w @ [c]" for t v
    by (auto simp: names_def in_vector_def nth_append not_less)
  have row: "case (?g ! nat t) b of None \<Rightarrow> v @ [b] \<notin> set ?W | Some u \<Rightarrow> names ?W u (v @ [b])" if "names ?W t v" for t v b
  proof (cases "names W t v")
    case old: True
    then have t: "nat t < length g" using l(1) by (simp add: names_def in_vector_def)
    have st: "nat s = nat t \<longleftrightarrow> v = w"
    proof
      assume "nat s = nat t"
      then have "s = t" using s old eq_nat_nat_iff [of s t] by (simp add: names_def in_vector_def)
      then show "v = w" using names_fun [OF old] s by blast
    next
      assume "v = w"
      then show "nat s = nat t" using names_inj [OF l(2) s] old by blast
    qed
    show ?thesis
    proof (cases "v = w \<and> b = c")
      case True
      then show ?thesis using t st new l(1) by (auto simp: nth_append)
    next
      case False
      then have "(?g ! nat t) b = (g ! nat t) b" using t st l(1) by (auto simp: nth_append nth_list_update)
      moreover have "case (g ! nat t) b of None \<Rightarrow> v @ [b] \<notin> set W | Some u \<Rightarrow> names W u (v @ [b])"
        using ok old by (simp add: trie_ok_def)
      ultimately show ?thesis using False new by (auto split: option.splits)
    qed
  next
    case False
    then have "t = int (length W)" "v = w @ [c]" using that new by auto
    then show ?thesis using l(1) closed [of "w @ [c]" b] c by (auto simp: nth_append)
  qed
  have "prefix_closed (set ?W)" using l(4,5) unfolding prefix_closed_def by auto
  then show ?thesis unfolding trie_ok_def using l c row new by simp
qed

lemma dict_ok_step:
  assumes d: "dict_ok W P d" and now: "names W now w" and st: "state = int (length W) - 1"
  shows "\<exists>W' now' d' state'. update_step ch (now, d, state) = Some (now', d', state') \<and> dict_ok W' P d'
     \<and> names W' now' (w @ [fold_case (ignore_case d) ch]) \<and> state' = int (length W') - 1 \<and> ignore_case d' = ignore_case d"
proof -
  let ?c = "fold_case (ignore_case d) ch"
  have ok: "trie_ok W (goto_t d)" and out: "length (output_t d) = length W" using d by (auto simp: dict_ok_def)
  have len: "length (goto_t d) = length W" using ok by (simp add: trie_ok_def)
  note n = next_state_trie [OF ok now, of ?c]
  show ?thesis
  proof (cases "w @ [?c] \<in> set W")
    case True
    then have "update_step ch (now, d, state) = Some (next_state (goto_t d) now ?c, d, state)"
      using n(1) by (simp add: Let_def)
    then show ?thesis using n(1) True d st by blast
  next
    case False
    define d' where "d' = d\<lparr>goto_t := (goto_t d)[nat now := (goto_t d ! nat now)(?c \<mapsto> int (length W))] @ [\<lambda>_. None],
        output_t := output_t d @ [0]\<rparr>"
    have "(goto_t d ! nat now) ?c = None" using trie_ok_row(2) [OF ok now] False by blast
    then have u: "update_step ch (now, d, state) = Some (int (length W), d', int (length W))"
      using n(2) [OF False] st names_vector [OF now len]
      by (simp add: Let_def emplace_node_def d'_def)
    have "own P (w @ [?c]) = 0" using False d by (auto simp: own_def dict_ok_def)
    then have "\<forall>s v. names (W @ [w @ [?c]]) s v \<longrightarrow> output_t d' ! nat s = own P v"
      using d out by (auto simp: d'_def dict_ok_def names_def in_vector_def nth_append not_less)
    then have "dict_ok (W @ [w @ [?c]]) P d'"
      using trie_ok_add [OF ok now False] d out by (auto simp: dict_ok_def d'_def)
    moreover have "names (W @ [w @ [?c]]) (int (length W)) (w @ [?c])" by (simp add: names_def in_vector_def)
    ultimately show ?thesis using u
      by (intro exI [of _ "W @ [w @ [?c]]"] exI [of _ "int (length W)"] exI [of _ d'])
        (simp add: d'_def del: update_step.simps)
  qed
qed

lemma dict_ok_loop:
  assumes "dict_ok W P d" "names W now w" "state = int (length W) - 1"
  shows "\<exists>W' now' d' state'. update_loop str (now, d, state) = Some (now', d', state') \<and> dict_ok W' P d'
     \<and> names W' now' (w @ map (fold_case (ignore_case d)) str) \<and> state' = int (length W') - 1 \<and> ignore_case d' = ignore_case d"
  using assms
proof (induction str arbitrary: W now w d state)
  case Nil
  then show ?case by auto
next
  case (Cons ch str)
  obtain W1 now1 d1 state1 where 1: "update_step ch (now, d, state) = Some (now1, d1, state1)" "dict_ok W1 P d1"
      "names W1 now1 (w @ [fold_case (ignore_case d) ch])" "state1 = int (length W1) - 1" "ignore_case d1 = ignore_case d"
    using dict_ok_step [OF Cons.prems] by blast
  show ?case using Cons.IH [OF 1(2,3,4)] 1(1,5) by (simp del: update_step.simps)
qed

lemma dict_ok_output:
  assumes d: "dict_ok W P d" and now: "names W now p"
  shows "dict_ok W (insert p P) (d\<lparr>output_t := (output_t d)[nat now := max (output_t d ! nat now) (length p)]\<rparr>)"
proof -
  have len: "length (output_t d) = length W" using d by (simp add: dict_ok_def)
  have "(output_t d)[nat now := max (output_t d ! nat now) (length p)] ! nat s = own (insert p P) w" if s: "names W s w" for s w
  proof (cases "s = now")
    case True
    then have "w = p" using s now by (simp add: names_def)
    then show ?thesis using True d now len by (auto simp: dict_ok_def names_def in_vector_def own_def)
  next
    case False
    then have "w \<noteq> p" "nat s \<noteq> nat now"
      using names_inj [of W s w now] s now d by (auto simp: dict_ok_def trie_ok_def names_def in_vector_def)
    then show ?thesis using d s by (auto simp: dict_ok_def own_def)
  qed
  then show ?thesis using d names_mem [OF now] by (auto simp: dict_ok_def)
qed

definition building :: "byte list list \<Rightarrow> byte list set \<Rightarrow> bool \<Rightarrow> trie_ac \<Rightarrow> bool" where
  "building W P ic t \<longleftrightarrow> (\<exists>d. ac_reserve t = Some d \<and> dict_ok W P d \<and> ignore_case d = ic \<and> ac_state t = int (length W) - 1)"

lemma building_update:
  assumes "building W P ic t"
  shows "\<exists>W' t'. ac_update str t = Some t' \<and> building W' (insert (map (fold_case ic) str) P) ic t'
     \<and> ac_data t' = ac_data t \<and> fail_table t' = fail_table t"
proof -
  obtain d where d: "ac_reserve t = Some d" "dict_ok W P d" "ignore_case d = ic" "ac_state t = int (length W) - 1"
    using assms by (auto simp: building_def)
  have "names W 0 []" using d(2) by (simp add: dict_ok_def trie_ok_def)
  from dict_ok_loop [OF d(2) this d(4), of str] obtain W' now d' state
    where l: "update_loop str (0, d, ac_state t) = Some (now, d', state)" "dict_ok W' P d'"
      "names W' now (map (fold_case ic) str)" "state = int (length W') - 1" "ignore_case d' = ic"
    using d(3) by auto
  have "in_vector now (output_t d')" using l(2,3) by (auto simp: dict_ok_def intro: names_vector)
  then show ?thesis using d(1) l dict_ok_output [OF l(2,3)]
    by (intro exI [of _ W']) (simp add: ac_update_def building_def)
qed

section \<open>Breadth-first order\<close>

text \<open>Both loops over the trie keep a queue: \<open>level W V q\<close> says that the states \<open>V\<close> have been taken from it and \<open>q\<close>
  is left.  It makes shorter words come first.\<close>

definition kid :: "byte list list \<Rightarrow> int \<Rightarrow> int \<Rightarrow> bool" where
  "kid W s t \<longleftrightarrow> (\<exists>w c. names W s w \<and> names W t (w @ [c]))"

definition dep :: "byte list list \<Rightarrow> int \<Rightarrow> nat" where
  "dep W s = length (W ! nat s)"

definition level :: "byte list list \<Rightarrow> int set \<Rightarrow> int list \<Rightarrow> bool" where
  "level W V q \<longleftrightarrow> distinct q \<and> V \<inter> set q = {} \<and> sorted (map (dep W) q) \<and> (\<forall>x \<in> set q. dep W x \<le> dep W (hd q) + 1)
     \<and> (\<forall>t. t \<in> V \<union> set q \<longleftrightarrow> (\<exists>s. kid W s t \<and> (s = 0 \<or> s \<in> V)))"

lemma kid_dep: "kid W s t \<Longrightarrow> dep W t = dep W s + 1"
  by (auto simp: kid_def dep_def names_def)

lemma kid_parent: "distinct W \<Longrightarrow> kid W s t \<Longrightarrow> kid W s' t \<Longrightarrow> s = s'"
  using names_fun names_inj unfolding kid_def by (metis butlast_snoc)

lemma kid_nonroot: "trie_ok W g \<Longrightarrow> kid W s t \<Longrightarrow> t \<noteq> 0"
  using names_zero unfolding kid_def by blast

lemma level_start:
  assumes "trie_ok W g" "distinct q" "set q = {t. kid W 0 t}"
  shows "level W {} q"
proof -
  have d: "dep W t = dep W 0 + 1" if "t \<in> set q" for t using that assms(3) kid_dep by auto
  then have "map (dep W) q = replicate (length q) (dep W 0 + 1)" by (induction q) auto
  then have "sorted (map (dep W) q)" by simp
  moreover have "\<forall>x \<in> set q. dep W x \<le> dep W (hd q) + 1" using d by (cases q) auto
  ultimately show ?thesis using assms by (auto simp: level_def)
qed

lemma level_step:
  assumes ok: "trie_ok W g" and l: "level W V (s # q)" and ks: "distinct ks" "set ks = {t. kid W s t}"
  shows "level W (insert s V) (q @ ks)"
proof -
  have d: "distinct W" using ok by (simp add: trie_ok_def)
  have iff: "t \<in> V \<or> t = s \<or> t \<in> set q \<longleftrightarrow> (\<exists>s. kid W s t \<and> (s = 0 \<or> s \<in> V))" for t using l by (auto simp: level_def)
  have s: "s \<noteq> 0" "s \<notin> V" using iff [of s] kid_nonroot [OF ok] l by (auto simp: level_def)
  have new: "t \<notin> V \<and> t \<noteq> s \<and> t \<notin> set q" if "t \<in> set ks" for t
  proof (rule ccontr)
    assume "\<not> (t \<notin> V \<and> t \<noteq> s \<and> t \<notin> set q)"
    then obtain u where "kid W u t" "u = 0 \<or> u \<in> V" using iff [of t] by blast
    moreover have "kid W s t" using that ks(2) by blast
    ultimately show False using kid_parent [OF d] s by blast
  qed
  have kd: "dep W t = dep W s + 1" if "t \<in> set ks" for t using that ks kid_dep by auto
  have qd: "dep W s \<le> dep W x \<and> dep W x \<le> dep W s + 1" if "x \<in> set q" for x using that l by (auto simp: level_def)
  have "map (dep W) ks = replicate (length ks) (dep W s + 1)" using kd by (induction ks) auto
  then have so: "sorted (map (dep W) (q @ ks))" using l qd by (auto simp: level_def sorted_append)
  have hd: "dep W s \<le> dep W (hd (q @ ks))" if "q @ ks \<noteq> []"
  proof -
    have "hd (q @ ks) \<in> set q \<union> set ks" using hd_in_set [OF that] by simp
    then show ?thesis using qd kd by force
  qed
  have "\<forall>x \<in> set (q @ ks). dep W x \<le> dep W (hd (q @ ks)) + 1"
  proof
    fix x assume x: "x \<in> set (q @ ks)"
    then have "dep W x \<le> dep W s + 1" using kd qd by auto
    moreover have "q @ ks \<noteq> []" using x by auto
    ultimately show "dep W x \<le> dep W (hd (q @ ks)) + 1" using hd by linarith
  qed
  moreover have "\<forall>t. t \<in> insert s V \<union> set (q @ ks) \<longleftrightarrow> (\<exists>s'. kid W s' t \<and> (s' = 0 \<or> s' \<in> insert s V))"
    using iff ks(2) by auto
  moreover have "distinct (q @ ks)" "insert s V \<inter> set (q @ ks) = {}" using l ks(1) new by (auto simp: level_def)
  ultimately show ?thesis using so by (simp add: level_def)
qed

lemma parent_ex:
  assumes "trie_ok W g" "names W t w" "w \<noteq> []"
  shows "\<exists>s. kid W s t \<and> dep W s < dep W t"
proof -
  obtain v c where w: "w = v @ [c]" using assms(3) by (cases w rule: rev_cases) auto
  have "prefix_closed (set W)" using assms(1) by (simp add: trie_ok_def)
  then have "v \<in> set W" using names_mem [OF assms(2)] w unfolding prefix_closed_def by blast
  then obtain s where "names W s v" using names_ex by blast
  then have "kid W s t" using assms(2) w by (auto simp: kid_def)
  then show ?thesis using kid_dep by force
qed

lemma level_seen:
  assumes ok: "trie_ok W g" and l: "level W V (s # q)"
  shows "names W t w \<Longrightarrow> w \<noteq> [] \<Longrightarrow> dep W t \<le> dep W s \<Longrightarrow> t \<in> V \<union> set (s # q)"
    "names W t w \<Longrightarrow> w \<noteq> [] \<Longrightarrow> dep W t < dep W s \<Longrightarrow> t \<in> V"
proof -
  have seen: "t \<in> V \<union> set (s # q) \<and> (dep W t < dep W s \<longrightarrow> t \<in> V)"
    if "names W t w" "w \<noteq> []" "dep W t \<le> dep W s" for t w
    using that
  proof (induction "dep W t" arbitrary: t w rule: less_induct)
    case less
    obtain u where u: "kid W u t" "dep W u < dep W t" using parent_ex [OF ok less.prems(1,2)] by blast
    have "u = 0 \<or> u \<in> V"
    proof (cases "u = 0")
      case False
      then obtain v where "names W u v" "v \<noteq> []" using u(1) names_zero [OF ok] by (auto simp: kid_def)
      then show ?thesis using less.hyps [OF u(2)] u(2) less.prems(3) by auto
    qed simp
    then have t: "t \<in> V \<union> set (s # q)" using l u(1) unfolding level_def by blast
    moreover have "dep W s \<le> dep W x" if "x \<in> set (s # q)" for x using that l by (auto simp: level_def)
    ultimately show ?case by force
  qed
  show "names W t w \<Longrightarrow> w \<noteq> [] \<Longrightarrow> dep W t \<le> dep W s \<Longrightarrow> t \<in> V \<union> set (s # q)" using seen by blast
  show "names W t w \<Longrightarrow> w \<noteq> [] \<Longrightarrow> dep W t < dep W s \<Longrightarrow> t \<in> V" using seen by (meson less_imp_le)
qed

lemma level_end:
  assumes ok: "trie_ok W g" and l: "level W V []"
  shows "names W t w \<Longrightarrow> w \<noteq> [] \<Longrightarrow> t \<in> V"
proof (induction "dep W t" arbitrary: t w rule: less_induct)
  case less
  obtain u where u: "kid W u t" "dep W u < dep W t" using parent_ex [OF ok less.prems(1,2)] by blast
  have "u = 0 \<or> u \<in> V"
  proof (cases "u = 0")
    case False
    then obtain v where "names W u v" "v \<noteq> []" using u(1) names_zero [OF ok] by (auto simp: kid_def)
    then show ?thesis using less.hyps [OF u(2)] by auto
  qed simp
  then have "t \<in> V \<union> set []" using l u(1) unfolding level_def by blast
  then show ?case by simp
qed

text \<open>How many states are still to be taken from the queue.\<close>

definition todo :: "byte list list \<Rightarrow> int set \<Rightarrow> nat" where
  "todo W V = card {t. in_vector t W \<and> t \<notin> V}"

lemma todo_less: "in_vector s W \<Longrightarrow> s \<notin> V \<Longrightarrow> todo W (insert s V) < todo W V"
proof -
  assume s: "in_vector s W" "s \<notin> V"
  have "{t. in_vector t W} \<subseteq> int ` {..<length W}"
    by (auto simp: in_vector_def image_iff intro!: bexI [of _ "nat _"])
  then have "finite {t. in_vector t W}" using finite_subset by blast
  then have "finite {t. in_vector t W \<and> t \<notin> V}" by (rule rev_finite_subset) auto
  then show ?thesis unfolding todo_def using s by (intro psubset_card_mono) auto
qed

lemma level_head:
  assumes "trie_ok W g" "level W V (s # q)"
  shows "\<exists>w. names W s w \<and> w \<noteq> []" "s \<notin> V" "in_vector s W"
proof -
  have "\<exists>u. kid W u s" using assms(2) by (auto simp: level_def)
  then show "\<exists>w. names W s w \<and> w \<noteq> []" by (auto simp: kid_def)
  then show "in_vector s W" by (auto simp: names_def)
  show "s \<notin> V" using assms(2) by (auto simp: level_def)
qed

section \<open>The failure table is right\<close>

definition tables_ok :: "byte list list \<Rightarrow> byte list set \<Rightarrow> int set \<Rightarrow> int list \<Rightarrow> nat list \<Rightarrow> bool" where
  "tables_ok W P D ft out \<longleftrightarrow> length ft = length W \<and> length out = length W \<and> out ! 0 = 0
     \<and> (\<forall>t w. names W t w \<and> w \<noteq> [] \<longrightarrow>
          (if t \<in> D then names W (ft ! nat t) (lsuf (set W) (tl w)) \<and> longest P w (out ! nat t)
           else ft ! nat t = -1 \<and> out ! nat t = own P w))"

lemma tables_okI:
  assumes "length ft = length W" "length out = length W" "out ! 0 = 0"
    and "\<And>t w. names W t w \<Longrightarrow> w \<noteq> [] \<Longrightarrow>
      (if t \<in> D then names W (ft ! nat t) (lsuf (set W) (tl w)) \<and> longest P w (out ! nat t)
       else ft ! nat t = -1 \<and> out ! nat t = own P w)"
  shows "tables_ok W P D ft out"
  using assms unfolding tables_ok_def by blast

lemma tables_done:
  assumes "tables_ok W P D ft out" "names W t w" "w \<noteq> []" "t \<in> D"
  shows "names W (ft ! nat t) (lsuf (set W) (tl w))" "longest P w (out ! nat t)"
  using assms unfolding tables_ok_def by metis+

lemma tables_open:
  assumes "tables_ok W P D ft out" "names W t w" "w \<noteq> []" "t \<notin> D"
  shows "ft ! nat t = -1" "out ! nat t = own P w"
  using assms unfolding tables_ok_def by metis+

lemma reset_fail_table_eq: "reset_fail_table n ft = replicate n (-1)"
  by (simp add: reset_fail_table_def Let_def min_def replicate_add [symmetric])

text \<open>Every state of at most \<open>n\<close> characters, the root apart, is in \<open>D\<close>.\<close>

definition shallow :: "byte list list \<Rightarrow> nat \<Rightarrow> int set \<Rightarrow> bool" where
  "shallow W n D \<longleftrightarrow> (\<forall>u v. names W u v \<and> v \<noteq> [] \<and> length v \<le> n \<longrightarrow> u \<in> D)"

lemma fail_search_finds:
  assumes ok: "trie_ok W g" and t: "tables_ok W P D ft out"
    and D: "shallow W n D"
  shows "names W s w \<Longrightarrow> w \<noteq> [] \<Longrightarrow> length w \<le> n \<Longrightarrow>
    \<exists>r. fail_search g ft s c = Some r \<and> names W r (lsuf (set W) (tl w @ [c]))"
proof (induction "length w" arbitrary: s w rule: less_induct)
  case less
  let ?A = "set W"
  have pc: "prefix_closed ?A" "[] \<in> ?A" using ok by (auto simp: trie_ok_def prefix_closed_def)
  have s: "in_vector s ft" using less.prems t by (auto simp: tables_ok_def intro: names_vector)
  define u where "u = lsuf ?A (tl w)"
  define s' where "s' = ft ! nat s"
  have s': "names W s' u" using tables_done [OF t less.prems(1,2)] D less.prems unfolding shallow_def s'_def u_def by blast
  have sh: "length u < length w" using lsuf_tl_shorter less.prems(2) by (simp add: u_def)
  have e: "lsuf ?A (tl w @ [c]) = lsuf ?A (u @ [c])" using lsuf_snoc [OF pc(1)] by (simp add: u_def)
  note n = next_state_trie [OF ok s', of c]
  have f: "fail_search g ft s c = (if next_state g s' c < 0 then fail_search g ft s' c else Some (next_state g s' c))"
    using s by (subst fail_search.simps) (simp add: s'_def Let_def)
  show ?case
  proof (cases "u @ [c] \<in> ?A")
    case True
    then show ?thesis using n(1) f e lsuf_self [OF pc(2) True] by simp
  next
    case False
    show ?thesis
    proof (cases "u = []")
      case True
      then have "lsuf ?A (u @ [c]) = []" using False by simp
      then show ?thesis using n(2) False True f e ok by (simp add: trie_ok_def)
    next
      case ne: False
      have "lsuf ?A (u @ [c]) = lsuf ?A (tl u @ [c])" using lsuf_absent [OF False ne] .
      then show ?thesis using less.hyps [OF sh s' ne] sh less.prems(3) n(2) False ne f e by simp
    qed
  qed
qed

lemma fail_step_ok:
  assumes ok: "trie_ok W g" and t: "tables_ok W P D ft out" and P: "P \<subseteq> set W"
    and s: "names W s w" "w \<noteq> []" and D: "shallow W (length w) D"
    and k: "names W k (w @ [c])" "k \<notin> D"
  shows "\<exists>ft' out'. fail_step g s c (q, ft, out) = Some (q @ [k], ft', out') \<and> tables_ok W P (insert k D) ft' out'"
proof -
  let ?A = "set W"
  have len: "length ft = length W" "length out = length W" using t by (auto simp: tables_ok_def)
  obtain r where r: "fail_search g ft s c = Some r" "names W r (lsuf ?A (tl w @ [c]))"
    using fail_search_finds [OF ok t D s order.refl, where c = c] by blast
  have row: "(g ! nat s) c = Some k" using trie_ok_row(1) [OF ok s(1)] k(1) by blast
  note op = tables_open [OF t k(1) _ k(2)]
  define out' where "out' = out[nat k := max (out ! nat r) (own P (w @ [c]))]"
  have v: "in_vector k ft" "in_vector k out" "in_vector r out" using k(1) r(2) len by (auto intro: names_vector)
  have "fail_step g s c (q, ft, out) = Some (q @ [k], ft[nat k := r], out')"
    using row v op r(1) list_update_id [of out "nat k"] by (auto simp: out'_def)
  moreover have "tables_ok W P (insert k D) (ft[nat k := r]) out'"
  proof -
    have kz: "nat k \<noteq> 0" using names_zero [OF ok k(1)] k(1) by (auto simp: names_def in_vector_def)
    have "lsuf ?A (tl w @ [c]) \<noteq> [] \<Longrightarrow> length (lsuf ?A (tl w @ [c])) \<le> length w"
      using suffix_length_le [OF lsuf_suffix [of ?A "tl w @ [c]"]] s(2) by (cases w) auto
    then have "longest P (lsuf ?A (tl w @ [c])) (out ! nat r)"
      using tables_done(2) [OF t r(2)] D r(2) names_zero [OF ok r(2)] t
      by (cases "lsuf ?A (tl w @ [c]) = []") (auto simp: longest_def tables_ok_def shallow_def)
    then have "longest P (tl (w @ [c])) (out ! nat r)" using longest_lsuf [OF P] s(2) by simp
    then have kout: "longest P (w @ [c]) (max (out ! nat r) (own P (w @ [c])))" using longest_own [of "w @ [c]"] by simp
    have "(if u \<in> insert k D then names W (ft[nat k := r] ! nat u) (lsuf ?A (tl v)) \<and> longest P v (out' ! nat u)
           else ft[nat k := r] ! nat u = -1 \<and> out' ! nat u = own P v)" if u: "names W u v" "v \<noteq> []" for u v
    proof (cases "u = k")
      case True
      then have "v = w @ [c]" using names_fun u(1) k(1) by blast
      then show ?thesis using True kout r(2) s(2) v len by (simp add: out'_def in_vector_def)
    next
      case False
      then have "nat u \<noteq> nat k" using u(1) k(1) by (auto simp: names_def in_vector_def)
      then show ?thesis using False t u unfolding tables_ok_def out'_def by simp
    qed
    moreover have "out' ! 0 = 0" "length out' = length W" using t kz by (simp_all add: tables_ok_def out'_def)
    ultimately show ?thesis using len(1) by (intro tables_okI) simp_all
  qed
  ultimately show ?thesis by blast
qed

lemma fail_children_ok:
  assumes ok: "trie_ok W g" and P: "P \<subseteq> set W" and s: "names W s w" "w \<noteq> []"
  shows "tables_ok W P D ft out \<Longrightarrow> shallow W (length w) D \<Longrightarrow>
    distinct cs \<Longrightarrow> (\<And>c. c \<in> set cs \<Longrightarrow> \<exists>k. names W k (w @ [c]) \<and> k \<notin> D) \<Longrightarrow>
    \<exists>ks ft' out'. fail_children g s cs (q, ft, out) = Some (q @ ks, ft', out') \<and> tables_ok W P (D \<union> set ks) ft' out'
      \<and> distinct ks \<and> set ks = {k. \<exists>c \<in> set cs. names W k (w @ [c])}"
proof (induction cs arbitrary: D q ft out)
  case Nil
  then show ?case by (intro exI [of _ "[]"] exI [of _ ft] exI [of _ out]) simp
next
  case (Cons c cs)
  have inj: "distinct W" using ok by (simp add: trie_ok_def)
  obtain k where k: "names W k (w @ [c])" "k \<notin> D" using Cons.prems(4) [of c] by auto
  obtain ft1 out1 where 1: "fail_step g s c (q, ft, out) = Some (q @ [k], ft1, out1)" "tables_ok W P (insert k D) ft1 out1"
    using fail_step_ok [OF ok Cons.prems(1) P s Cons.prems(2) k] by blast
  have other: "\<exists>j. names W j (w @ [b]) \<and> j \<notin> insert k D" if b: "b \<in> set cs" for b
  proof -
    obtain j where j: "names W j (w @ [b])" "j \<notin> D" using Cons.prems(4) [of b] b by auto
    moreover have "j \<noteq> k" using names_fun [OF j(1)] k(1) Cons.prems(3) b by auto
    ultimately show ?thesis by blast
  qed
  obtain ks ft2 out2 where 2: "fail_children g s cs (q @ [k], ft1, out1) = Some (q @ k # ks, ft2, out2)"
      "tables_ok W P (insert k D \<union> set ks) ft2 out2" "distinct ks" "set ks = {k. \<exists>c \<in> set cs. names W k (w @ [c])}"
    using Cons.IH [OF 1(2) _ _ other, of "q @ [k]"] Cons.prems(2,3) by (auto simp: shallow_def)
  have "k \<notin> set ks" using 2(4) names_fun [OF k(1)] Cons.prems(3) by auto
  moreover have "set (k # ks) = {k. \<exists>c \<in> set (c # cs). names W k (w @ [c])}"
  proof (rule set_eqI)
    fix j
    show "j \<in> set (k # ks) \<longleftrightarrow> j \<in> {k. \<exists>c \<in> set (c # cs). names W k (w @ [c])}"
      using k(1) names_inj [OF inj k(1), of j] by (auto simp: 2(4))
  qed
  moreover have "tables_ok W P (D \<union> set (k # ks)) ft2 out2" using 2(2) by (simp add: Un_commute)
  moreover have "fail_children g s (c # cs) (q, ft, out) = Some (q @ k # ks, ft2, out2)"
    using 1(1) 2(1) by (simp del: fail_step.simps)
  ultimately show ?case using 2(3) by (intro exI [of _ "k # ks"] exI [of _ ft2] exI [of _ out2]) simp
qed

text \<open>Iterating over a row visits each of its characters once.\<close>

definition row_order_ok :: "row_order \<Rightarrow> bool" where
  "row_order_ok iter \<longleftrightarrow> (\<forall>s row. distinct (iter s row) \<and> set (iter s row) = dom row)"

lemma row_children:
  assumes "trie_ok W g" "names W s w"
  shows "dom (g ! nat s) = {c. \<exists>k. names W k (w @ [c])}" "{k. \<exists>c \<in> dom (g ! nat s). names W k (w @ [c])} = {k. kid W s k}"
proof -
  show d: "dom (g ! nat s) = {c. \<exists>k. names W k (w @ [c])}" using trie_ok_row(1) [OF assms] by (auto simp: dom_def)
  show "{k. \<exists>c \<in> dom (g ! nat s). names W k (w @ [c])} = {k. kid W s k}"
  proof (rule set_eqI)
    fix k
    show "k \<in> {k. \<exists>c \<in> dom (g ! nat s). names W k (w @ [c])} \<longleftrightarrow> k \<in> {k. kid W s k}"
      unfolding d kid_def using names_fun [OF assms(2)] assms(2) by blast
  qed
qed

lemma fail_loop_ok:
  assumes ok: "trie_ok W g" and P: "P \<subseteq> set W" and it: "row_order_ok iter"
  shows "level W V q \<Longrightarrow> tables_ok W P (V \<union> set q) ft out \<Longrightarrow>
    \<exists>V' ft' out'. fail_loop iter g (q, ft, out) = Some (ft', out') \<and> level W V' [] \<and> tables_ok W P V' ft' out'"
proof (induction "todo W V" arbitrary: V q ft out rule: less_induct)
  case less
  show ?case
  proof (cases q)
    case Nil
    then show ?thesis using less.prems by (subst fail_loop.simps) auto
  next
    case (Cons s q')
    have l: "level W V (s # q')" using less.prems(1) Cons by simp
    obtain w where s: "names W s w" "w \<noteq> []" using level_head(1) [OF ok l] by blast
    have dw: "dep W u \<le> dep W s" if "names W u v" "length v \<le> length w" for u v
      using that s by (simp add: dep_def names_def)
    let ?cs = "iter s (g ! nat s)"
    have cs: "distinct ?cs" "set ?cs = {c. \<exists>k. names W k (w @ [c])}"
      using it unfolding row_order_ok_def row_children(1) [OF ok s(1), symmetric] by blast+
    have fresh: "\<exists>k. names W k (w @ [c]) \<and> k \<notin> V \<union> set q" if c: "c \<in> set ?cs" for c
    proof -
      obtain k where k: "names W k (w @ [c])" using c unfolding cs(2) by blast
      then have "kid W s k" using s by (auto simp: kid_def)
      moreover have "s \<noteq> 0" "s \<notin> V" using names_zero [OF ok s(1)] s(2) level_head(2) [OF ok l] by auto
      moreover have "distinct W" using ok by (simp add: trie_ok_def)
      ultimately have "\<not> (\<exists>u. kid W u k \<and> (u = 0 \<or> u \<in> V))" using kid_parent by blast
      moreover have "k \<in> V \<union> set q \<longleftrightarrow> (\<exists>u. kid W u k \<and> (u = 0 \<or> u \<in> V))"
        using less.prems(1) unfolding level_def by blast
      ultimately show ?thesis using k by blast
    qed
    have D: "shallow W (length w) (V \<union> set q)"
      using level_seen(1) [OF ok l] dw Cons unfolding shallow_def by blast
    obtain ks ft1 out1 where f: "fail_children g s ?cs (q', ft, out) = Some (q' @ ks, ft1, out1)"
        "tables_ok W P (V \<union> set q \<union> set ks) ft1 out1" "distinct ks" "set ks = {k. \<exists>c \<in> set ?cs. names W k (w @ [c])}"
      using fail_children_ok [OF ok P s less.prems(2) D cs(1) fresh, of q'] by auto
    have ks: "set ks = {k. kid W s k}"
      using f(4) row_children [OF ok s(1)] it by (simp add: row_order_ok_def)
    have "tables_ok W P (insert s V \<union> set (q' @ ks)) ft1 out1"
      using f(2) Cons by (simp add: Un_assoc)
    moreover have "in_vector s g" using level_head(3) [OF ok l] ok by (simp add: in_vector_def trie_ok_def)
    then have "fail_loop iter g (q, ft, out) = fail_loop iter g (q' @ ks, ft1, out1)"
      using f(1) Cons by (subst fail_loop.simps) simp
    ultimately show ?thesis
      using less.hyps [OF todo_less [OF level_head(3) [OF ok l] level_head(2) [OF ok l]] level_step [OF ok l f(3) ks]] by simp
  qed
qed

lemma fail_roots_ok:
  assumes ok: "trie_ok W g"
  shows "length ft = length W \<Longrightarrow> distinct cs \<Longrightarrow> (\<And>c. c \<in> set cs \<Longrightarrow> \<exists>k. names W k [c]) \<Longrightarrow>
    \<exists>ks ft'. fail_roots (g ! 0) cs (q, ft) = Some (q @ ks, ft') \<and> distinct ks \<and> set ks = {k. \<exists>c \<in> set cs. names W k [c]}
      \<and> length ft' = length W \<and> (\<forall>t. in_vector t W \<longrightarrow> ft' ! nat t = (if t \<in> set ks then 0 else ft ! nat t))"
proof (induction cs arbitrary: q ft)
  case Nil
  then show ?case by (intro exI [of _ "[]"] exI [of _ ft]) simp
next
  case (Cons c cs)
  have inj: "distinct W" "names W 0 []" using ok by (auto simp: trie_ok_def)
  obtain k where k: "names W k [c]" using Cons.prems(3) [of c] by auto
  have row: "(g ! 0) c = Some k" using trie_ok_row(1) [OF ok inj(2)] k by simp
  have v: "in_vector k ft" "0 \<le> k" using k Cons.prems(1) by (auto simp: names_def in_vector_def)
  have roots: "\<exists>k. names W k [b]" if "b \<in> set cs" for b using Cons.prems(3) [of b] that by simp
  obtain ks ft' where 1: "fail_roots (g ! 0) cs (q @ [k], ft[nat k := 0]) = Some (q @ k # ks, ft')" "distinct ks"
      "set ks = {k. \<exists>c \<in> set cs. names W k [c]}" "length ft' = length W"
      "\<forall>t. in_vector t W \<longrightarrow> ft' ! nat t = (if t \<in> set ks then 0 else ft[nat k := 0] ! nat t)"
    using Cons.IH [of "ft[nat k := 0]" "q @ [k]"] Cons.prems(1,2) roots by auto
  have "k \<notin> set ks" using 1(3) names_fun [OF k] Cons.prems(2) by auto
  moreover have "set (k # ks) = {k. \<exists>c \<in> set (c # cs). names W k [c]}"
  proof (rule set_eqI)
    fix j
    show "j \<in> set (k # ks) \<longleftrightarrow> j \<in> {k. \<exists>c \<in> set (c # cs). names W k [c]}"
      using k names_inj [OF inj(1) k, of j] by (auto simp: 1(3))
  qed
  moreover have "ft' ! nat t = (if t \<in> set (k # ks) then 0 else ft ! nat t)" if "in_vector t W" for t
  proof (cases "t = k")
    case True
    then show ?thesis using 1(5) that v by (simp add: in_vector_def)
  next
    case False
    then have "nat t \<noteq> nat k" using that v(2) by (auto simp: in_vector_def)
    then show ?thesis using 1(5) that False by simp
  qed
  moreover have "fail_roots (g ! 0) (c # cs) (q, ft) = Some (q @ k # ks, ft')" using row v 1(1) by simp
  ultimately show ?case using 1(2,4) by (intro exI [of _ "k # ks"] exI [of _ ft']) simp
qed

lemma build_fail_table_ok:
  assumes d: "dict_ok W P d" and it: "row_order_ok iter"
  shows "\<exists>ft out. build_fail_table iter d ft0 = Some (ft, d\<lparr>output_t := out\<rparr>) \<and> tables_ok W P {t. t \<noteq> 0} ft out"
proof -
  have ok: "trie_ok W (goto_t d)" and P: "P \<subseteq> set W" and len: "length (output_t d) = length W"
    and own: "\<And>s w. names W s w \<Longrightarrow> output_t d ! nat s = own P w"
    using d by (auto simp: dict_ok_def)
  have z: "names W 0 []" "length (goto_t d) = length W" "prefix_closed (set W)" using ok by (auto simp: trie_ok_def)
  then have ne: "goto_t d \<noteq> []" by (auto simp: names_def in_vector_def)
  let ?cs = "iter 0 (goto_t d ! 0)"
  note row = row_children [OF ok z(1), simplified]
  have cs: "distinct ?cs" "set ?cs = dom (goto_t d ! 0)" using it unfolding row_order_ok_def by blast+
  have ex: "\<exists>k. names W k [c]" if "c \<in> set ?cs" for c using that unfolding cs(2) row(1) by blast
  obtain ks ft where r: "fail_roots (goto_t d ! 0) ?cs ([], reset_fail_table (length (goto_t d)) ft0) = Some (ks, ft)"
      "distinct ks" "set ks = {k. \<exists>c \<in> set ?cs. names W k [c]}" "length ft = length W"
      "\<forall>t. in_vector t W \<longrightarrow> ft ! nat t = (if t \<in> set ks then 0 else replicate (length W) (-1) ! nat t)"
    using fail_roots_ok [OF ok, of "reset_fail_table (length (goto_t d)) ft0" ?cs "[]"] cs(1) ex z(2)
    by (auto simp: reset_fail_table_eq)
  have ks: "set ks = {t. kid W 0 t}" using r(3) row(2) unfolding cs(2) by simp
  have lv: "level W {} ks" using level_start [OF ok r(2) ks] .
  have o0: "output_t d ! 0 = 0" using own [OF z(1)] by (simp add: own_def)
  have t: "tables_ok W P ({} \<union> set ks) ft (output_t d)"
  proof (rule tables_okI)
    fix t w assume t: "names W t w" "w \<noteq> []"
    have v: "in_vector t W" using t by (simp add: names_def)
    show "if t \<in> {} \<union> set ks then names W (ft ! nat t) (lsuf (set W) (tl w)) \<and> longest P w (output_t d ! nat t)
      else ft ! nat t = -1 \<and> output_t d ! nat t = own P w"
    proof (cases "t \<in> set ks")
      case True
      then obtain c where "names W t [c]" using r(3) by blast
      then have w: "w = [c]" using names_fun [OF t(1)] by blast
      have "longest P (tl [c]) 0" by (simp add: longest_def)
      then have "longest P w (own P w)" using longest_own [of "[c]" P 0] w by simp
      then show ?thesis using True r(5) v z(1) own [OF t(1)] w by simp
    next
      case False
      then show ?thesis using r(5) v own [OF t(1)] by (simp add: in_vector_def)
    qed
  qed (use r(4) len o0 in auto)
  obtain V ft' out where l: "fail_loop iter (goto_t d) (ks, ft, output_t d) = Some (ft', out)" "level W V []" "tables_ok W P V ft' out"
    using fail_loop_ok [OF ok P it lv t] by blast
  have "tables_ok W P {t. t \<noteq> 0} ft' out"
  proof (rule tables_okI)
    fix t w assume t: "names W t w" "w \<noteq> []"
    show "if t \<in> {t. t \<noteq> 0} then names W (ft' ! nat t) (lsuf (set W) (tl w)) \<and> longest P w (out ! nat t)
      else ft' ! nat t = -1 \<and> out ! nat t = own P w"
      using tables_done [OF l(3) t level_end [OF ok l(2) t]] names_zero [OF ok t(1)] t(2) by simp
  qed (use l(3) in \<open>auto simp: tables_ok_def\<close>)
  then show ?thesis using r(1) l(1) ne by (intro exI [of _ ft'] exI [of _ out]) (simp add: build_fail_table_def)
qed

section \<open>The automaton is right\<close>

text \<open>The automaton's move from the word \<open>w\<close>: to the longest suffix of \<open>w @ [c]\<close> that is a state.\<close>

definition move_ok :: "byte list list \<Rightarrow> byte list \<Rightarrow> byte \<Rightarrow> int option \<Rightarrow> bool" where
  "move_ok W w c r \<longleftrightarrow> (case r of None \<Rightarrow> lsuf (set W) (w @ [c]) = []
     | Some u \<Rightarrow> 0 < u \<and> names W u (lsuf (set W) (w @ [c])))"

lemma move_ok_unique:
  assumes "names W 0 []" "distinct W" "move_ok W w c r" "move_ok W w c r'"
  shows "r = r'"
proof -
  have n: "0 < u \<Longrightarrow> \<not> names W u []" for u using names_inj [OF assms(2,1), of u] by auto
  show ?thesis
    using assms(3,4) n names_inj [OF assms(2), of _ "lsuf (set W) (w @ [c])"]
    by (cases r; cases r') (auto simp: move_ok_def)
qed

lemma next_state_moves:
  assumes "names W s w" "length table = length W" "move_ok W w c ((table ! nat s) c)" "names W 0 []" "distinct W"
  shows "names W (max 0 (next_state table s c)) (lsuf (set W) (w @ [c]))"
    "0 < next_state table s c \<longleftrightarrow> lsuf (set W) (w @ [c]) \<noteq> []"
proof -
  have v: "0 \<le> s" "nat s < length table" using assms(1,2) by (auto simp: names_def in_vector_def)
  show "names W (max 0 (next_state table s c)) (lsuf (set W) (w @ [c]))"
    using assms v by (auto simp: move_ok_def next_state_def split: option.splits)
  have "0 < u \<Longrightarrow> \<not> names W u []" for u using names_inj [OF assms(5,4), of u] by auto
  then show "0 < next_state table s c \<longleftrightarrow> lsuf (set W) (w @ [c]) \<noteq> []"
    using assms v by (auto simp: move_ok_def next_state_def split: option.splits)
qed

definition kids_at :: "node_set \<Rightarrow> byte \<Rightarrow> int list" where
  "kids_at row c = (case row c of None \<Rightarrow> [] | Some k \<Rightarrow> [k])"

lemma trie_move_ok: "trie_ok W g \<Longrightarrow> names W s w \<Longrightarrow> w @ [c] \<in> set W \<or> w = [] \<Longrightarrow> move_ok W w c ((g ! nat s) c)"
proof -
  assume a: "trie_ok W g" "names W s w" "w @ [c] \<in> set W \<or> w = []"
  have n: "[] \<in> set W" using a(1) by (auto simp: trie_ok_def prefix_closed_def)
  show ?thesis
  proof (cases "(g ! nat s) c")
    case None
    then have "w @ [c] \<notin> set W" using trie_ok_row(2) [OF a(1,2)] by blast
    then show ?thesis using None a(3) by (auto simp: move_ok_def)
  next
    case (Some k)
    then have k: "names W k (w @ [c])" using trie_ok_row(1) [OF a(1,2)] by blast
    then have "0 < k" using names_zero [OF a(1) k] by (auto simp: names_def in_vector_def)
    then show ?thesis using Some k lsuf_self [OF n names_mem [OF k]] by (simp add: move_ok_def)
  qed
qed

lemma dfa_step_ok:
  assumes ok: "trie_ok W g" and s: "names W s w" "w \<noteq> []" and len: "length table = length W" "length ft = length W"
    and row: "(table ! nat s) c = (g ! nat s) c"
    and f: "names W (ft ! nat s) (lsuf (set W) (tl w))" "move_ok W (lsuf (set W) (tl w)) c ((table ! nat (ft ! nat s)) c)"
  shows "\<exists>r. dfa_step ft s c (q, table) = Some (q @ kids_at (g ! nat s) c, table[nat s := (table ! nat s)(c := r)])
     \<and> move_ok W w c r"
proof -
  let ?A = "set W" and ?f = "ft ! nat s"
  have pc: "prefix_closed ?A" "names W 0 []" "distinct W" using ok by (auto simp: trie_ok_def)
  have v: "in_vector s table" "in_vector s ft" using s(1) len by (auto intro: names_vector)
  have ns: "next_state table s c = next_state g s c"
    using row ok len by (simp add: next_state_def trie_ok_def)
  note n = next_state_trie [OF ok s(1), of c]
  show ?thesis
  proof (cases "w @ [c] \<in> ?A")
    case True
    then have k: "names W (next_state g s c) (w @ [c])" "0 < next_state g s c" using n(1) by auto
    then have r: "(g ! nat s) c = Some (next_state g s c)" using trie_ok_row(1) [OF ok s(1)] by blast
    have "table[nat s := (table ! nat s)(c := (g ! nat s) c)] = table" using row by (metis fun_upd_triv list_update_id)
    then have "dfa_step ft s c (q, table) = Some (q @ kids_at (g ! nat s) c, table[nat s := (table ! nat s)(c := (g ! nat s) c)])"
      using k r ns by (simp add: kids_at_def)
    then show ?thesis using trie_move_ok [OF ok s(1), of c] True by blast
  next
    case False
    then have none: "(g ! nat s) c = None" "next_state table s c = -1" using trie_ok_row(2) [OF ok s(1)] n(2) ns s(2) by auto
    have e: "lsuf ?A (w @ [c]) = lsuf ?A (lsuf ?A (tl w) @ [c])"
      using lsuf_absent [OF False s(2)] lsuf_snoc [OF pc(1), of "tl w" c] by simp
    note m = next_state_moves [OF f(1) len(1) f(2) pc(2,3)]
    show ?thesis
    proof (cases "0 < next_state table ?f c")
      case True
      then have "dfa_step ft s c (q, table) = Some (q @ kids_at (g ! nat s) c,
          table[nat s := (table ! nat s)(c := Some (next_state table ?f c))])"
        using none v row by (simp add: kids_at_def emplace_node_def)
      moreover have "move_ok W w c (Some (next_state table ?f c))" using True m(1) e by (simp add: move_ok_def)
      ultimately show ?thesis by blast
    next
      case no: False
      then have "dfa_step ft s c (q, table) = Some (q @ kids_at (g ! nat s) c, table[nat s := (table ! nat s)(c := None)])"
        using none v row fun_upd_idem [of "table ! nat s" c None] by (simp add: kids_at_def)
      moreover have "move_ok W w c None" using no m(2) e by (simp add: move_ok_def)
      ultimately show ?thesis by blast
    qed
  qed
qed

lemma dfa_row_ok:
  assumes ok: "trie_ok W g" and s: "names W s w" "w \<noteq> []" and lft: "length ft = length W"
    and f: "names W (ft ! nat s) (lsuf (set W) (tl w))"
  shows "length table = length W \<Longrightarrow> distinct cs \<Longrightarrow> (\<And>c. c \<in> set cs \<Longrightarrow> (table ! nat s) c = (g ! nat s) c) \<Longrightarrow>
    (\<And>c. move_ok W (lsuf (set W) (tl w)) c ((table ! nat (ft ! nat s)) c)) \<Longrightarrow>
    \<exists>row. dfa_row ft s cs (q, table) = Some (q @ concat (map (kids_at (g ! nat s)) cs), table[nat s := row])
      \<and> (\<forall>c. if c \<in> set cs then move_ok W w c (row c) else row c = (table ! nat s) c)"
proof (induction cs arbitrary: q table)
  case Nil
  then show ?case by (intro exI [of _ "table ! nat s"]) simp
next
  case (Cons c cs)
  let ?t = "\<lambda>r. table[nat s := (table ! nat s)(c := r)]"
  have row: "(table ! nat s) c = (g ! nat s) c" using Cons.prems(3) by simp
  obtain r where r: "dfa_step ft s c (q, table) = Some (q @ kids_at (g ! nat s) c, ?t r)" "move_ok W w c r"
    using dfa_step_ok [OF ok s Cons.prems(1) lft row f Cons.prems(4)] by blast
  have sv: "nat s < length table" "0 \<le> s" using s(1) Cons.prems(1) by (auto simp: names_def in_vector_def)
  have "ft ! nat s \<noteq> s" using names_fun [of W s w "lsuf (set W) (tl w)"] f s lsuf_tl_shorter [OF s(2), of "set W"] by auto
  then have "nat (ft ! nat s) \<noteq> nat s"
    using f sv(2) eq_nat_nat_iff [of "ft ! nat s" s] by (simp add: names_def in_vector_def)
  then have f': "?t r ! nat (ft ! nat s) = table ! nat (ft ! nat s)" by simp
  have here: "?t r ! nat s = (table ! nat s)(c := r)" using sv by simp
  have old: "(?t r ! nat s) b = (g ! nat s) b" if "b \<in> set cs" for b
    using Cons.prems(2,3) that unfolding here by auto
  obtain row where 1: "dfa_row ft s cs (q @ kids_at (g ! nat s) c, ?t r) =
        Some ((q @ kids_at (g ! nat s) c) @ concat (map (kids_at (g ! nat s)) cs), (?t r)[nat s := row])"
      "\<forall>b. if b \<in> set cs then move_ok W w b (row b) else row b = (?t r ! nat s) b"
    using Cons.IH [of "?t r" "q @ kids_at (g ! nat s) c"] Cons.prems(1,2,4) old f' by auto
  have "if b \<in> set (c # cs) then move_ok W w b (row b) else row b = (table ! nat s) b" for b
    using 1(2) r(2) Cons.prems(2) unfolding here by (cases "b = c") (auto split: if_splits)
  moreover have "dfa_row ft s (c # cs) (q, table) =
      Some (q @ concat (map (kids_at (g ! nat s)) (c # cs)), table[nat s := row])"
    using r(1) 1(1) by (simp del: dfa_step.simps)
  ultimately show ?case by blast
qed

lemma all_bytes_set: "distinct all_bytes" "set all_bytes = UNIV"
proof -
  have "inj_on (of_nat :: nat \<Rightarrow> byte) (set [0..<256])"
    by (rule inj_on_inverseI [where g = unat]) (simp add: unat_of_nat)
  then show "distinct all_bytes" by (simp add: all_bytes_def distinct_map)
  have "c \<in> set all_bytes" for c :: byte
  proof -
    have "unat c < 256" using unsigned_less [of c] by simp
    then show ?thesis by (auto simp: all_bytes_def image_iff intro!: bexI [of _ "unat c"])
  qed
  then show "set all_bytes = UNIV" by blast
qed

lemma kids_all:
  assumes ok: "trie_ok W g" and s: "names W s w"
  shows "distinct cs \<Longrightarrow> distinct (concat (map (kids_at (g ! nat s)) cs))
      \<and> set (concat (map (kids_at (g ! nat s)) cs)) = {k. \<exists>c \<in> set cs. names W k (w @ [c])}"
proof (induction cs)
  case (Cons c cs)
  have "set (kids_at row c) = {k. row c = Some k}" "distinct (kids_at row c)" for row
    by (auto simp: kids_at_def split: option.splits)
  then have k: "set (kids_at (g ! nat s) c) = {k. names W k (w @ [c])}" "distinct (kids_at (g ! nat s) c)"
    using trie_ok_row(1) [OF ok s] by simp_all
  have "names W k (w @ [c]) \<Longrightarrow> names W k (w @ [b]) \<Longrightarrow> b = c" for k b using names_fun by fastforce
  then have "set (kids_at (g ! nat s) c) \<inter> set (concat (map (kids_at (g ! nat s)) cs)) = {}"
    using Cons k(1) by auto
  then show ?case using Cons k by auto
qed simp

definition rows_ok :: "byte list list \<Rightarrow> node_set list \<Rightarrow> int set \<Rightarrow> node_set list \<Rightarrow> bool" where
  "rows_ok W g V table \<longleftrightarrow> length table = length W
     \<and> (\<forall>t w. names W t w \<longrightarrow> (if t = 0 \<or> t \<in> V then \<forall>c. move_ok W w c ((table ! nat t) c) else table ! nat t = g ! nat t))"

lemma rows_okD:
  assumes "rows_ok W g V table" "names W t w"
  shows "t = 0 \<or> t \<in> V \<Longrightarrow> move_ok W w c ((table ! nat t) c)" "t \<noteq> 0 \<Longrightarrow> t \<notin> V \<Longrightarrow> table ! nat t = g ! nat t"
  using assms unfolding rows_ok_def by metis+

lemma dfa_loop_ok:
  assumes ok: "trie_ok W g" and t: "tables_ok W P {t. t \<noteq> 0} ft out"
  shows "level W V q \<Longrightarrow> rows_ok W g V table \<Longrightarrow>
    \<exists>V' table'. dfa_loop ft (q, table) = Some table' \<and> level W V' [] \<and> rows_ok W g V' table'"
proof (induction "todo W V" arbitrary: V q table rule: less_induct)
  case less
  show ?case
  proof (cases q)
    case Nil
    then show ?thesis using less.prems by (subst dfa_loop.simps) auto
  next
    case (Cons s q')
    have l: "level W V (s # q')" using less.prems(1) Cons by simp
    obtain w where s: "names W s w" "w \<noteq> []" using level_head(1) [OF ok l] by blast
    have s0: "s \<noteq> 0" "s \<notin> V" "in_vector s W"
      using names_zero [OF ok s(1)] s(2) level_head(2,3) [OF ok l] by auto
    have len: "length table = length W" "length ft = length W"
      using less.prems(2) t by (auto simp: rows_ok_def tables_ok_def)
    let ?f = "ft ! nat s" and ?u = "lsuf (set W) (tl w)"
    have f: "names W ?f ?u" using tables_done(1) [OF t s] s0 by simp
    have "dep W ?f < dep W s" using f s lsuf_tl_shorter [OF s(2), of "set W"] by (simp add: dep_def names_def)
    then have fV: "?f = 0 \<or> ?f \<in> V" using level_seen(2) [OF ok l f] names_zero [OF ok f] by blast
    have frow: "move_ok W ?u c ((table ! nat ?f) c)" for c using rows_okD(1) [OF less.prems(2) f fV] .
    have old: "table ! nat s = g ! nat s" using rows_okD(2) [OF less.prems(2) s(1)] s0 by blast
    define ks where "ks = concat (map (kids_at (g ! nat s)) all_bytes)"
    obtain row where r: "dfa_row ft s all_bytes (q', table) = Some (q' @ ks, table[nat s := row])"
        "\<forall>c. if c \<in> set all_bytes then move_ok W w c (row c) else row c = (table ! nat s) c"
      using dfa_row_ok [OF ok s len(2) f len(1) all_bytes_set(1) _ frow, of q'] old unfolding ks_def by auto
    have ks: "distinct ks" "set ks = {t. kid W s t}"
      using kids_all [OF ok s(1) all_bytes_set(1)] names_fun [OF s(1)] s(1)
      unfolding ks_def all_bytes_set(2) kid_def by blast+
    have "rows_ok W g (insert s V) (table[nat s := row])"
    proof -
      have "if t = 0 \<or> t \<in> insert s V then \<forall>c. move_ok W v c ((table[nat s := row] ! nat t) c)
          else table[nat s := row] ! nat t = g ! nat t" if t: "names W t v" for t v
      proof (cases "t = s")
        case True
        then have "v = w" using t s(1) names_fun by blast
        then show ?thesis using True r(2) len s0 by (simp add: all_bytes_set(2) in_vector_def)
      next
        case False
        then have "nat t \<noteq> nat s" using t s0 eq_nat_nat_iff [of t s] by (auto simp: names_def in_vector_def)
        then show ?thesis using False rows_okD [OF less.prems(2) t] by auto
      qed
      then show ?thesis using len unfolding rows_ok_def by simp
    qed
    moreover have "dfa_loop ft (q, table) = dfa_loop ft (q' @ ks, table[nat s := row])"
      using r(1) Cons by (subst dfa_loop.simps) simp
    ultimately show ?thesis
      using less.hyps [OF todo_less [OF s0(3,2)] level_step [OF ok l ks]] by simp
  qed
qed

text \<open>The finished automaton.\<close>

definition dfa_ok :: "byte list list \<Rightarrow> byte list set \<Rightarrow> ac_dfa \<Rightarrow> bool" where
  "dfa_ok W P d \<longleftrightarrow> names W 0 [] \<and> distinct W \<and> prefix_closed (set W) \<and> P \<subseteq> set W
     \<and> length (goto_t d) = length W \<and> length (output_t d) = length W
     \<and> (\<forall>t w. names W t w \<longrightarrow> longest P w (output_t d ! nat t) \<and> (\<forall>c. move_ok W w c ((goto_t d ! nat t) c)))"

lemma final_ok:
  assumes d: "dict_ok W P d" and it: "row_order_ok iter" and r: "ac_reserve t = Some d"
  shows "\<exists>d' ft. ac_final iter busy t = Some (t\<lparr>fail_table := ft, ac_data := Some d', ac_reserve := (if busy then None else ac_data t)\<rparr>)
     \<and> dfa_ok W P d' \<and> ignore_case d' = ignore_case d \<and> goto_t d' ! 0 = goto_t d ! 0"
proof -
  have ok: "trie_ok W (goto_t d)" and P: "P \<subseteq> set W" using d by (auto simp: dict_ok_def)
  have z: "names W 0 []" "length (goto_t d) = length W" "prefix_closed (set W)" "distinct W" using ok by (auto simp: trie_ok_def)
  then have ne: "W \<noteq> []" by (auto simp: names_def in_vector_def)
  obtain ft out where b: "build_fail_table iter d (fail_table t) = Some (ft, d\<lparr>output_t := out\<rparr>)"
      "tables_ok W P {t. t \<noteq> 0} ft out"
    using build_fail_table_ok [OF d it] by blast
  let ?q = "map (\<lambda>ch. the ((goto_t d ! 0) ch)) (iter 0 (goto_t d ! 0))"
  note row = row_children [OF ok z(1), simplified]
  have cs: "distinct (iter 0 (goto_t d ! 0))" "set (iter 0 (goto_t d ! 0)) = dom (goto_t d ! 0)"
    using it unfolding row_order_ok_def by blast+
  have child: "names W (the ((goto_t d ! 0) c)) [c]" if c: "c \<in> dom (goto_t d ! 0)" for c
    using trie_ok_row(1) [OF ok z(1), of c "the ((goto_t d ! 0) c)"] c by auto
  have "inj_on (\<lambda>ch. the ((goto_t d ! 0) ch)) (dom (goto_t d ! 0))"
  proof (rule inj_onI)
    fix b c assume bc: "b \<in> dom (goto_t d ! 0)" "c \<in> dom (goto_t d ! 0)"
      and e: "the ((goto_t d ! 0) b) = the ((goto_t d ! 0) c)"
    have "[b] = [c]" using names_fun [OF child [OF bc(1)]] child [OF bc(2)] unfolding e by blast
    then show "b = c" by simp
  qed
  then have q1: "distinct ?q" using cs by (simp add: distinct_map)
  have q2: "set ?q = {t. kid W 0 t}"
  proof (rule set_eqI)
    fix k
    have "k \<in> set ?q \<longleftrightarrow> (\<exists>c \<in> dom (goto_t d ! 0). names W k [c])"
      using child names_inj [OF z(4)] by (auto simp: cs(2) image_iff) blast
    then show "k \<in> set ?q \<longleftrightarrow> k \<in> {t. kid W 0 t}" using row(2) by blast
  qed
  have rows: "rows_ok W (goto_t d) {} (goto_t d)"
    using trie_move_ok [OF ok] names_zero [OF ok] z(2) unfolding rows_ok_def by auto
  obtain V table where l: "dfa_loop ft (?q, goto_t d) = Some table" "level W V []" "rows_ok W (goto_t d) V table"
    using dfa_loop_ok [OF ok b(2) level_start [OF ok q1 q2] rows] by blast
  define d' where "d' = d\<lparr>output_t := out, goto_t := table\<rparr>"
  have lens: "length ft = length W" "length out = length W" "length table = length W" "out ! 0 = 0"
    using b(2) l(3) by (auto simp: tables_ok_def rows_ok_def)
  have "longest P w (out ! nat t) \<and> (\<forall>c. move_ok W w c ((table ! nat t) c))" if t: "names W t w" for t w
  proof (cases "w = []")
    case True
    then have "t = 0" using names_zero [OF ok t] by blast
    then show ?thesis using True rows_okD(1) [OF l(3) t] lens(4) by (simp add: longest_def)
  next
    case False
    then show ?thesis using rows_okD(1) [OF l(3) t] level_end [OF ok l(2) t] tables_done(2) [OF b(2) t] names_zero [OF ok t] by simp
  qed
  then have "dfa_ok W P d'" using z P lens by (simp add: dfa_ok_def d'_def)
  moreover have "table ! 0 = goto_t d ! 0"
  proof
    fix c
    show "(table ! 0) c = (goto_t d ! 0) c"
      using rows_okD(1) [OF l(3) z(1), of c] trie_move_ok [OF ok z(1), of c] move_ok_unique [OF z(1,4)] by simp
  qed
  moreover have "ac_final iter busy t = Some (t\<lparr>fail_table := ft, ac_data := Some d', ac_reserve := (if busy then None else ac_data t)\<rparr>)"
  proof -
    have "goto_t d \<noteq> []" "ft \<noteq> []" using ne lens z(2) by auto
    then show ?thesis using r b(1) l(1) by (simp add: ac_final_def convert_to_dfa_def d'_def)
  qed
  ultimately show ?thesis by (intro exI [of _ d'] exI [of _ ft]) (simp add: d'_def)
qed

end
