(* ===== verification/Trie_Match.thy ===== *)
theory Trie_Match
  imports Trie_Build
begin

text \<open>
  What \<open>in_trie\<close> and \<open>replace\<close> answer on a finished automaton, and the properties of the class: it finds and censors
  exactly the occurrences of the patterns, and a third build on the same object goes wrong.
\<close>

section \<open>Matching is right\<close>

text \<open>What a matcher looks at: the characters before the first zero, case folded.\<close>

definition norm :: "bool \<Rightarrow> byte list \<Rightarrow> byte list" where
  "norm ic str = map (fold_case ic) (takeWhile (\<lambda>c. c \<noteq> 0) str)"

lemma norm_simps [simp]:
  "norm ic [] = []" "norm ic (0 # str) = []" "c \<noteq> 0 \<Longrightarrow> norm ic (c # str) = fold_case ic c # norm ic str"
  by (simp_all add: norm_def)

lemma dfa_move:
  fixes c :: byte
  assumes d: "dfa_ok W P d" and s: "names W s (lsuf (set W) u)"
  defines "s' \<equiv> next_state (goto_t d) s c"
  shows "names W (if s' < 0 then 0 else s') (lsuf (set W) (u @ [c]))"
    "in_vector (if s' < 0 then 0 else s') (output_t d)" "longest P (u @ [c]) (output_t d ! nat (if s' < 0 then 0 else s'))"
proof -
  have w: "names W 0 []" "distinct W" "prefix_closed (set W)" "P \<subseteq> set W" "length (goto_t d) = length W"
      "length (output_t d) = length W" using d by (auto simp: dfa_ok_def)
  have m: "move_ok W (lsuf (set W) u) c ((goto_t d ! nat s) c)" using d s by (simp add: dfa_ok_def)
  have e: "max 0 s' = (if s' < 0 then 0 else s')" by simp
  show n: "names W (if s' < 0 then 0 else s') (lsuf (set W) (u @ [c]))"
    using next_state_moves(1) [OF s w(5) m w(1,2)] unfolding lsuf_snoc [OF w(3), of u c] s'_def [symmetric] e .
  show "in_vector (if s' < 0 then 0 else s') (output_t d)" using names_vector [OF n w(6)] .
  show "longest P (u @ [c]) (output_t d ! nat (if s' < 0 then 0 else s'))"
    using d n longest_lsuf [OF w(4), of "u @ [c]"] by (simp add: dfa_ok_def)
qed

lemma longest_pos: "longest P w n \<Longrightarrow> 0 < n \<longleftrightarrow> (\<exists>p \<in> P. p \<noteq> [] \<and> suffix p w)"
  by (fastforce simp: longest_def)

lemma longest_le: "longest P w n \<Longrightarrow> n \<le> length w"
  using suffix_length_le by (auto simp: longest_def)

lemma in_trie_loop_ok:
  assumes d: "dfa_ok W P d"
  shows "names W s (lsuf (set W) u) \<Longrightarrow>
    in_trie_loop d s str = Some (\<exists>v. v \<noteq> [] \<and> prefix v (norm (ignore_case d) str) \<and> (\<exists>p \<in> P. p \<noteq> [] \<and> suffix p (u @ v)))"
proof (induction str arbitrary: s u)
  case Nil
  then show ?case by (auto simp: norm_def)
next
  case (Cons ch str)
  show ?case
  proof (cases "ch = 0")
    case True
    then show ?thesis by auto
  next
    case False
    let ?c = "fold_case (ignore_case d) ch" and ?n = "norm (ignore_case d) str"
    define s' where "s' = (if next_state (goto_t d) s ?c < 0 then 0 else next_state (goto_t d) s ?c)"
    note m = dfa_move [OF d Cons.prems, where c = ?c, folded s'_def]
    have split: "(\<exists>v. v \<noteq> [] \<and> prefix v (?c # ?n) \<and> Q v) \<longleftrightarrow> Q [?c] \<or> (\<exists>v. v \<noteq> [] \<and> prefix v ?n \<and> Q (?c # v))" for Q
    proof -
      have "(\<exists>v. v \<noteq> [] \<and> prefix v (?c # ?n) \<and> Q v) \<longleftrightarrow> (\<exists>v. prefix v ?n \<and> Q (?c # v))"
        by (auto simp: prefix_Cons)
      also have "\<dots> \<longleftrightarrow> Q [?c] \<or> (\<exists>v. v \<noteq> [] \<and> prefix v ?n \<and> Q (?c # v))" by (metis Nil_prefix)
      finally show ?thesis .
    qed
    define Q where "Q v \<longleftrightarrow> (\<exists>p \<in> P. p \<noteq> [] \<and> suffix p (u @ v))" for v
    have "in_trie_loop d s (ch # str) = (if 0 < output_t d ! nat s' then Some True else in_trie_loop d s' str)"
      using False m(2) by (simp add: Let_def s'_def)
    moreover have "0 < output_t d ! nat s' \<longleftrightarrow> Q [?c]" using longest_pos [OF m(3)] unfolding Q_def .
    moreover have "in_trie_loop d s' str = Some (\<exists>v. v \<noteq> [] \<and> prefix v ?n \<and> Q (?c # v))"
      using Cons.IH [OF m(1)] by (simp add: Q_def)
    moreover have "norm (ignore_case d) (ch # str) = ?c # ?n" using False by simp
    ultimately have "in_trie_loop d s (ch # str) = Some (\<exists>v. v \<noteq> [] \<and> prefix v (norm (ignore_case d) (ch # str)) \<and> Q v)"
      using split [of Q] by (simp del: in_trie_loop.simps)
    then show ?thesis unfolding Q_def .
  qed
qed

text \<open>The positions that lie in some occurrence of a pattern.\<close>

definition covered :: "byte list set \<Rightarrow> byte list \<Rightarrow> nat set" where
  "covered P u = {j. \<exists>pre p post. u = pre @ p @ post \<and> p \<in> P \<and> length pre \<le> j \<and> j < length pre + length p}"

lemma covered_snoc:
  assumes "longest P (u @ [c]) n"
  shows "covered P (u @ [c]) = covered P u \<union> {Suc (length u) - n..<Suc (length u)}"
proof (rule set_eqI)
  fix j
  have sp: "u @ [c] = pre @ p @ post \<longleftrightarrow> (post = [] \<and> u @ [c] = pre @ p) \<or> (\<exists>post'. post = post' @ [c] \<and> u = pre @ p @ post')"
    for pre p post by (cases post rule: rev_cases) auto
  have "j \<in> covered P (u @ [c]) \<longleftrightarrow> j \<in> covered P u
      \<or> (\<exists>pre p. u @ [c] = pre @ p \<and> p \<in> P \<and> length pre \<le> j \<and> j < length pre + length p)"
    unfolding covered_def by (auto simp: sp)
  moreover have "(\<exists>pre p. u @ [c] = pre @ p \<and> p \<in> P \<and> length pre \<le> j \<and> j < length pre + length p)
      \<longleftrightarrow> j \<in> {Suc (length u) - n..<Suc (length u)}"
  proof
    assume "\<exists>pre p. u @ [c] = pre @ p \<and> p \<in> P \<and> length pre \<le> j \<and> j < length pre + length p"
    then obtain pre p where p: "u @ [c] = pre @ p" "p \<in> P" "length pre \<le> j" "j < length pre + length p" by blast
    have "length p \<le> n" using assms p(1,2) by (auto simp: longest_def suffix_def)
    moreover have "Suc (length u) = length pre + length p" using arg_cong [OF p(1), of length] by simp
    ultimately show "j \<in> {Suc (length u) - n..<Suc (length u)}" using p(3,4) by auto
  next
    assume j: "j \<in> {Suc (length u) - n..<Suc (length u)}"
    then have "n \<noteq> 0" by auto
    then obtain p where p: "p \<in> P" "suffix p (u @ [c])" "length p = n" using assms by (auto simp: longest_def)
    then obtain pre where e: "u @ [c] = pre @ p" by (auto simp: suffix_def)
    have "Suc (length u) = length pre + n" using arg_cong [OF e, of length] p(3) by simp
    then show "\<exists>pre p. u @ [c] = pre @ p \<and> p \<in> P \<and> length pre \<le> j \<and> j < length pre + length p"
      using e p j by (intro exI [of _ pre] exI [of _ p]) auto
  qed
  ultimately show "j \<in> covered P (u @ [c]) \<longleftrightarrow> j \<in> covered P u \<union> {Suc (length u) - n..<Suc (length u)}" by simp
qed

definition flags :: "nat \<Rightarrow> nat set \<Rightarrow> bool list" where
  "flags sz C = map (\<lambda>j. j \<in> C) [0..<sz]"

definition marks_rep :: "nat \<Rightarrow> nat set \<Rightarrow> bool list \<Rightarrow> bool" where
  "marks_rep sz C m \<longleftrightarrow> (if C = {} then m = [] else m = flags sz C)"

lemma add_idx_ok:
  assumes "marks_rep sz C m" "n \<le> pos" "pos \<le> sz"
  shows "\<exists>m'. add_idx sz n pos m = Some m' \<and> marks_rep sz (C \<union> {pos - n..<pos}) m'"
proof (cases "n = 0")
  case True
  then show ?thesis using assms by (auto simp: add_idx_def)
next
  case False
  have b: "(if m = [] then replicate sz False else m) = flags sz C"
    using assms(1) by (cases "C = {}") (auto simp: marks_rep_def flags_def map_replicate_const)
  have "take (pos - n) (flags sz C) @ replicate n True @ drop pos (flags sz C) = flags sz (C \<union> {pos - n..<pos})"
    using assms(2,3) by (intro nth_equalityI) (auto simp: flags_def nth_append)
  then show ?thesis using False assms b by (auto simp: add_idx_def marks_rep_def Let_def)
qed

lemma mark_loop_ok:
  assumes d: "dfa_ok W P d"
  shows "names W s (lsuf (set W) u) \<Longrightarrow> marks_rep sz (covered P u) m \<Longrightarrow> length u + length str \<le> sz \<Longrightarrow>
    \<exists>m'. mark_loop d sz (length u) s m str = Some m' \<and> marks_rep sz (covered P (u @ norm (ignore_case d) str)) m'"
proof (induction str arbitrary: s u m)
  case Nil
  then show ?case by simp
next
  case (Cons ch str)
  show ?case
  proof (cases "ch = 0")
    case True
    then show ?thesis using Cons.prems by simp
  next
    case False
    let ?c = "fold_case (ignore_case d) ch"
    define s' where "s' = (if next_state (goto_t d) s ?c < 0 then 0 else next_state (goto_t d) s ?c)"
    define n where "n = output_t d ! nat s'"
    note mv = dfa_move [OF d Cons.prems(1), where c = ?c, folded s'_def, folded n_def]
    have "n \<le> Suc (length u)" using longest_le [OF mv(3)] by simp
    then obtain m1 where m1: "add_idx sz n (Suc (length u)) m = Some m1" "marks_rep sz (covered P (u @ [?c])) m1"
      using add_idx_ok [OF Cons.prems(2), of n "Suc (length u)"] Cons.prems(3) unfolding covered_snoc [OF mv(3)] by auto
    have "mark_loop d sz (length u) s m (ch # str) = mark_loop d sz (length (u @ [?c])) s' m1 str"
      using False mv(2) m1(1) by (simp add: Let_def s'_def n_def)
    then show ?thesis using Cons.IH [OF mv(1) m1(2)] Cons.prems(3) False by simp
  qed
qed

text \<open>What \<open>replace\<close> makes of a string: every maximal run of marked bytes becomes as many stars as it has
  characters.\<close>

function censor :: "bool list \<Rightarrow> byte list \<Rightarrow> byte list" where
  "censor ms bs = (case (ms, bs) of
       (m # ms', b # bs') \<Rightarrow>
         if m then let k = Suc (length (takeWhile (\<lambda>m. m) ms'))
                   in replicate (cnt_utf8 (take k bs)) 42 @ censor (drop k ms) (drop k bs)
         else b # censor ms' bs'
     | _ \<Rightarrow> [])"
  by pat_completeness auto
termination
  by (relation "measure (\<lambda>(ms, bs). length ms)") auto

declare censor.simps [simp del]

lemma censor_none: "length ms = length bs \<Longrightarrow> \<forall>m \<in> set ms. \<not> m \<Longrightarrow> censor ms bs = bs"
proof (induction ms arbitrary: bs)
  case Nil
  then show ?case by (subst censor.simps) simp
next
  case (Cons m ms)
  then show ?case by (cases bs; subst censor.simps) auto
qed

lemma slice_upto: "i \<le> j \<Longrightarrow> j < length xs \<Longrightarrow> slice i (Suc j - i) xs = slice i (j - i) xs @ [xs ! j]"
  by (simp add: slice_def Suc_diff_le take_Suc_conv_app_nth)

lemma replace_loop_ok:
  assumes "length marks = length str"
  shows "copied \<le> start \<Longrightarrow> start \<le> length str \<Longrightarrow>
    replace_loop str marks start copied temp =
      temp @ slice copied (start - copied) str @ censor (drop start marks) (drop start str)"
proof (induction "length str - start" arbitrary: start copied temp rule: less_induct)
  case less
  show ?case
  proof (cases "start < length str")
    case False
    then have "start = length str" using less.prems by simp
    then show ?thesis using less.prems assms
      by (subst replace_loop.simps, subst censor.simps) (simp add: slice_def)
  next
    case True
    have dm: "drop start marks = marks ! start # drop (Suc start) marks" using True assms by (simp add: Cons_nth_drop_Suc)
    have db: "drop start str = str ! start # drop (Suc start) str" using True by (simp add: Cons_nth_drop_Suc)
    show ?thesis
    proof (cases "marks ! start")
      case m: True
      define k where "k = Suc (length (takeWhile (\<lambda>m. m) (drop (Suc start) marks)))"
      have k: "start + k \<le> length str" using length_takeWhile_le [of "\<lambda>m. m" "drop (Suc start) marks"] True assms by (simp add: k_def)
      have "censor (drop start marks) (drop start str) =
          replicate (cnt_utf8 (take k (drop start str))) 42 @ censor (drop k (drop start marks)) (drop k (drop start str))"
        unfolding dm db using m by (subst censor.simps) (simp add: k_def Let_def)
      moreover have "replace_loop str marks start copied temp =
          replace_loop str marks (start + k) (start + k)
            ((temp @ slice copied (start - copied) str) @ replicate (cnt_utf8 (slice start k str)) 42)"
        using True m by (subst replace_loop.simps) (simp add: Let_def k_def)
      ultimately show ?thesis
        using less.hyps [of "start + k" "start + k"] k True by (simp add: k_def slice_def add.commute)
    next
      case m: False
      have "censor (drop start marks) (drop start str) = str ! start # censor (drop (Suc start) marks) (drop (Suc start) str)"
        unfolding dm db using m by (subst censor.simps) simp
      moreover have "replace_loop str marks start copied temp = replace_loop str marks (Suc start) copied temp"
        using True m by (subst replace_loop.simps) simp
      ultimately show ?thesis
        using less.hyps [of "Suc start" copied temp] less.prems True slice_upto [of copied start str] by simp
    qed
  qed
qed

text \<open>Counting the characters of well-formed UTF-8.\<close>

definition utf8_char :: "byte list \<Rightarrow> bool" where
  "utf8_char bs \<longleftrightarrow> bs \<noteq> [] \<and> length bs = utf8_width (hd bs) \<and> (\<forall>b \<in> set (tl bs). 128 \<le> b \<and> b < 192)"

lemma next_utf8_char: "utf8_char c \<Longrightarrow> next_utf8 (c @ bs) = length c"
proof -
  assume c: "utf8_char c"
  have "\<not> 192 \<le> (c @ bs) ! i \<and> \<not> (c @ bs) ! i < 128" if "1 \<le> i" "i < length c" for i
  proof -
    have "c ! i \<in> set (tl c)" using that by (cases c) (auto simp: nth_Cons')
    then show ?thesis using c that by (auto simp: utf8_char_def nth_append not_le not_less)
  qed
  then show ?thesis using c by (auto simp: next_utf8_def utf8_char_def list_all_iff Let_def)
qed

lemma cnt_utf8_chars: "\<forall>c \<in> set cs. utf8_char c \<Longrightarrow> cnt_utf8 (concat cs) = length cs"
proof (induction cs)
  case Nil
  then show ?case by (subst cnt_utf8.simps) simp
next
  case (Cons c cs)
  then have "c \<noteq> []" "next_utf8 (c @ concat cs) = length c" using next_utf8_char by (auto simp: utf8_char_def)
  then show ?case using Cons by (subst cnt_utf8.simps) simp
qed

section \<open>Properties\<close>

fun ac_updates :: "byte list list \<Rightarrow> trie_ac \<Rightarrow> trie_ac option" where
  "ac_updates [] t = Some t"
| "ac_updates (p # ps) t = Option.bind (ac_update p t) (ac_updates ps)"

text \<open>The protocol the class documents: \<open>init\<close>, \<open>update\<close> for every pattern, \<open>final\<close>.\<close>

definition ac_build :: "row_order \<Rightarrow> bool \<Rightarrow> bool \<Rightarrow> byte list list \<Rightarrow> trie_ac \<Rightarrow> trie_ac option" where
  "ac_build iter busy ic ps t = Option.bind (ac_updates ps (ac_init ic t)) (ac_final iter busy)"

lemma building_updates:
  "building W P ic t \<Longrightarrow> \<exists>W' t'. ac_updates ps t = Some t' \<and> building W' (P \<union> map (fold_case ic) ` set ps) ic t'
     \<and> ac_data t' = ac_data t"
proof (induction ps arbitrary: W P t)
  case Nil
  then show ?case by auto
next
  case (Cons p ps)
  obtain W1 t1 where 1: "ac_update p t = Some t1" "building W1 (insert (map (fold_case ic) p) P) ic t1" "ac_data t1 = ac_data t"
    using building_update [OF Cons.prems] by blast
  show ?case using Cons.IH [OF 1(2)] 1(1,3) by auto
qed

lemma building_init:
  assumes "ac_reserve t = None"
  shows "building [[]] {} ic (ac_init ic t)" "ac_data (ac_init ic t) = ac_data t"
  using assms
  by (auto simp: ac_init_def building_def dict_ok_def trie_ok_def names_def in_vector_def prefix_closed_def own_def)

lemma build_ok:
  assumes "row_order_ok iter" "ac_reserve t = None"
  shows "\<exists>t' W d. ac_build iter busy ic ps t = Some t' \<and> ac_data t' = Some d \<and> dfa_ok W (map (fold_case ic) ` set ps) d
     \<and> ignore_case d = ic \<and> ac_reserve t' = (if busy then None else ac_data t)"
proof -
  obtain W t1 where 1: "ac_updates ps (ac_init ic t) = Some t1" "building W (map (fold_case ic) ` set ps) ic t1" "ac_data t1 = ac_data t"
    using building_updates [OF building_init(1) [OF assms(2), of ic], where ps = ps] building_init(2) [OF assms(2), of ic] by auto
  then obtain d where d: "ac_reserve t1 = Some d" "dict_ok W (map (fold_case ic) ` set ps) d" "ignore_case d = ic"
    by (auto simp: building_def)
  show ?thesis using final_ok [OF d(2) assms(1) d(1), of busy] 1 d(3) by (auto simp: ac_build_def)
qed

lemma dfa_start: "dfa_ok W P d \<Longrightarrow> goto_t d \<noteq> [] \<and> names W 0 (lsuf (set W) [])"
  by (auto simp: dfa_ok_def names_def in_vector_def)

text \<open>C35: The matcher finds exactly the patterns: whatever patterns are entered and in whatever order the rows are
  iterated, building ends, and \<open>in_trie\<close> then answers, for every string, whether some non-empty pattern occurs in
  the characters before the first zero, case folded when asked to.\<close>

theorem trie_finds:
  assumes "row_order_ok iter" "ac_reserve t0 = None"
  shows "\<exists>t. ac_build iter busy ic ps t0 = Some t
     \<and> (\<forall>str. in_trie t str = Some (\<exists>p \<in> set ps. p \<noteq> [] \<and> sublist (map (fold_case ic) p) (norm ic str)))"
proof -
  let ?P = "map (fold_case ic) ` set ps"
  obtain t W d where t: "ac_build iter busy ic ps t0 = Some t" "ac_data t = Some d" "dfa_ok W ?P d" "ignore_case d = ic"
    using build_ok [OF assms, of busy ic ps] by blast
  have "(\<exists>v. v \<noteq> [] \<and> prefix v u \<and> (\<exists>p \<in> ?P. p \<noteq> [] \<and> suffix p v)) \<longleftrightarrow> (\<exists>p \<in> set ps. p \<noteq> [] \<and> sublist (map (fold_case ic) p) u)" for u
  proof
    assume "\<exists>v. v \<noteq> [] \<and> prefix v u \<and> (\<exists>p \<in> ?P. p \<noteq> [] \<and> suffix p v)"
    then obtain v p where p: "prefix v u" "p \<in> set ps" "p \<noteq> []" "suffix (map (fold_case ic) p) v" by auto
    then have "sublist (map (fold_case ic) p) u" by (meson prefix_imp_sublist sublist_order.order.trans suffix_imp_sublist)
    then show "\<exists>p \<in> set ps. p \<noteq> [] \<and> sublist (map (fold_case ic) p) u" using p by blast
  next
    assume "\<exists>p \<in> set ps. p \<noteq> [] \<and> sublist (map (fold_case ic) p) u"
    then obtain p pre post where p: "p \<in> set ps" "p \<noteq> []" "u = pre @ map (fold_case ic) p @ post" by (auto simp: sublist_def)
    then have "prefix (pre @ map (fold_case ic) p) u" "suffix (map (fold_case ic) p) (pre @ map (fold_case ic) p)"
      by (auto simp: prefix_def suffix_def)
    then show "\<exists>v. v \<noteq> [] \<and> prefix v u \<and> (\<exists>p \<in> ?P. p \<noteq> [] \<and> suffix p v)" using p by blast
  qed
  moreover note dfa_start [OF t(3)]
  ultimately show ?thesis using t in_trie_loop_ok [OF t(3), of 0 "[]"] by (simp add: in_trie_def)
qed

definition plain_order :: row_order where
  "plain_order s row = filter (\<lambda>c. row c \<noteq> None) all_bytes"

lemma plain_order_ok: "row_order_ok plain_order"
  using all_bytes_set by (auto simp: row_order_ok_def plain_order_def)

theorem trie_finds_witness:
  "\<exists>t. ac_build plain_order False True [[82, 65]] trie_ac_new = Some t \<and> in_trie t [120, 114, 97] = Some True
     \<and> in_trie t [120, 114, 0, 97] = Some False"
proof -
  have r: "ac_reserve trie_ac_new = None" by (simp add: trie_ac_new_def)
  have f: "map (fold_case True) [82, 65] = [114, 97]" "norm True [120, 114, 97] = [120, 114, 97]" "norm True [120, 114, 0, 97] = [120, 114]"
    by (simp_all add: norm_def fold_case_def tolower_def word_le_nat_alt)
  have "sublist [114, 97] [120, 114, 97 :: byte]" unfolding sublist_def by (intro exI [of _ "[120]"] exI [of _ "[]"]) simp
  moreover have "\<not> sublist [114, 97] [120, 114 :: byte]" by (auto simp: sublist_Cons_right)
  ultimately show ?thesis using trie_finds [OF plain_order_ok r, of False True "[[82, 65]]"] f by auto
qed

text \<open>\<open>replace\<close> censors exactly the occurrences: a byte is masked exactly when it lies in an occurrence of a pattern
  (overlapping and nested occurrences included), everything else is kept, and every maximal masked run becomes one
  star for each of its UTF-8 characters.\<close>

theorem trie_replaces:
  assumes "row_order_ok iter" "ac_reserve t0 = None"
  shows "\<exists>t. ac_build iter busy ic ps t0 = Some t
     \<and> (\<forall>str. ac_replace t str = Some (censor (flags (length str) (covered (map (fold_case ic) ` set ps) (norm ic str))) str))
     \<and> (\<forall>cs. (\<forall>c \<in> set cs. utf8_char c) \<longrightarrow> cnt_utf8 (concat cs) = length cs)"
proof -
  let ?P = "map (fold_case ic) ` set ps"
  obtain t W d where t: "ac_build iter busy ic ps t0 = Some t" "ac_data t = Some d" "dfa_ok W ?P d" "ignore_case d = ic"
    using build_ok [OF assms, of busy ic ps] by blast
  have "ac_replace t str = Some (censor (flags (length str) (covered ?P (norm ic str))) str)" for str
  proof -
    let ?C = "covered ?P (norm ic str)"
    have s: "goto_t d \<noteq> []" "names W 0 (lsuf (set W) [])" using dfa_start [OF t(3)] by auto
    have "marks_rep (length str) (covered ?P []) []" by (simp add: marks_rep_def covered_def)
    then obtain m where m: "mark_loop d (length str) 0 0 [] str = Some m" "marks_rep (length str) ?C m"
      using mark_loop_ok [OF t(3) s(2), of "length str" "[]" str] t(4) by auto
    have len: "length (flags (length str) ?C) = length str" by (simp add: flags_def)
    show ?thesis
    proof (cases "m = []")
      case True
      then have "\<forall>x \<in> set (flags (length str) ?C). \<not> x" using m(2) by (auto simp: marks_rep_def flags_def split: if_splits)
      then show ?thesis using True m(1) t(2) s(1) censor_none [OF len] by (simp add: ac_replace_def)
    next
      case False
      then have "m = flags (length str) ?C" using m(2) by (auto simp: marks_rep_def split: if_splits)
      then show ?thesis using False m(1) t(2) s(1) replace_loop_ok [OF len, of 0 0 "[]"] by (simp add: ac_replace_def slice_def)
    qed
  qed
  then show ?thesis using t(1) cnt_utf8_chars by blast
qed

theorem trie_replaces_witness:
  "\<exists>t. ac_build plain_order False False [[97, 98]] trie_ac_new = Some t
     \<and> ac_replace t [97, 98, 99] = Some (censor (flags 3 (covered {[97, 98]} [97, 98, 99])) [97, 98, 99])"
proof -
  have r: "ac_reserve trie_ac_new = None" by (simp add: trie_ac_new_def)
  have f: "map (fold_case False) ` set [[97, 98]] = {[97, 98]}" "norm False [97, 98, 99] = [97, 98, 99]"
    by (simp_all add: norm_def fold_case_def)
  obtain t where "ac_build plain_order False False [[97, 98]] trie_ac_new = Some t"
      "\<forall>str. ac_replace t str = Some (censor (flags (length str) (covered (map (fold_case False) ` set [[97, 98]]) (norm False str))) str)"
    using trie_replaces [OF plain_order_ok r, of False False "[[97, 98]]"] by blast
  then show ?thesis using f by (intro exI [of _ t]) (metis One_nat_def length_Cons list.size(3) numeral_3_eq_3)
qed

text \<open>Building a third time goes wrong: the table of the first build is reused with its root row still pointing
  into rows that are gone, so that entering a pattern that starts like a pattern of the first build writes
  outside the tables.\<close>

theorem trie_third_build:
  assumes "row_order_ok iter" "c # p \<in> set ps"
  shows "\<exists>t1 t2. ac_build iter False False ps trie_ac_new = Some t1 \<and> ac_build iter False ic qs t1 = Some t2
     \<and> ac_update (c # w) (ac_init False t2) = None"
proof -
  have r0: "ac_reserve trie_ac_new = None" "ac_data trie_ac_new = None" by (simp_all add: trie_ac_new_def)
  obtain t1 W d where 1: "ac_build iter False False ps trie_ac_new = Some t1" "ac_data t1 = Some d"
      "dfa_ok W (map (fold_case False) ` set ps) d" "ac_reserve t1 = None"
    using build_ok [OF assms(1) r0(1), of False False ps] r0(2) by auto
  obtain t2 where 2: "ac_build iter False ic qs t1 = Some t2" "ac_reserve t2 = Some d"
    using build_ok [OF assms(1) 1(4), of False ic qs] 1(2) by auto
  have id: "map (fold_case False) q = q" for q by (induction q) (simp_all add: fold_case_def)
  then have "c # p \<in> set W" using 1(3) assms(2) by (auto simp: dfa_ok_def)
  moreover have pc: "prefix_closed (set W)" "names W 0 []" "length (goto_t d) = length W" "length (output_t d) = length W"
    using 1(3) by (auto simp: dfa_ok_def)
  ultimately have m: "[c] \<in> set W"
  proof (induction p rule: rev_induct)
    case (snoc x xs)
    then have "(c # xs) @ [x] \<in> set W" by simp
    then have "c # xs \<in> set W" using pc(1) unfolding prefix_closed_def by blast
    then show ?case using snoc.IH pc by blast
  qed simp
  have "\<forall>c. move_ok W [] c ((goto_t d ! nat 0) c)" using 1(3) pc(2) unfolding dfa_ok_def by blast
  then have "move_ok W [] c ((goto_t d ! 0) c)" by simp
  then obtain k where k: "(goto_t d ! 0) c = Some k" "0 < k" using m by (auto simp: move_ok_def split: option.splits)
  have ne: "goto_t d \<noteq> []" "output_t d \<noteq> []" using pc by (auto simp: names_def in_vector_def)
  then have h: "take 1 (goto_t d) = [goto_t d ! 0]" "take 1 (output_t d) = [output_t d ! 0]"
    by (cases "goto_t d"; cases "output_t d"; simp)+
  define d' where "d' = d\<lparr>goto_t := [goto_t d ! 0], output_t := [output_t d ! 0], ignore_case := False\<rparr>"
  have i: "ac_init False t2 = t2\<lparr>ac_reserve := Some d', ac_state := 0\<rparr>"
    using 2(2) ne h by (simp add: ac_init_def d'_def)
  have first: "update_step c (0, d', 0) = Some (k, d', 0)"
    using k by (simp add: d'_def next_state_def fold_case_def)
  have "next_state (goto_t d') k b = 0" for b using k(2) by (auto simp: d'_def next_state_def)
  then have "update_step b (k, d', 0) = None" for b using k(2) by (simp add: in_vector_def d'_def Let_def)
  then have "update_loop w (k, d', 0) = (if w = [] then Some (k, d', 0) else None)"
    by (cases w) (simp_all del: update_step.simps)
  then have "ac_update (c # w) (ac_init False t2) = None"
    using first k(2) unfolding i by (simp add: ac_update_def in_vector_def d'_def del: update_step.simps)
  then show ?thesis using 1(1) 2(1) by blast
qed

theorem trie_third_build_witness:
  "\<exists>t1 t2. ac_build plain_order False False [[97]] trie_ac_new = Some t1 \<and> ac_build plain_order False False [[98]] t1 = Some t2
     \<and> ac_update [97] (ac_init False t2) = None"
  using trie_third_build [OF plain_order_ok, of 97 "[]" "[[97]]" False "[[98]]" "[]"] by simp

end
