(* ===== verification/Log_Flags.thy ===== *)
theory Log_Flags
  imports Prelude "HOL-Library.Signed_Division"
begin

text \<open>
  The flags of the log formatter (\<open>runtime/include/simple/log/default_flags.hpp\<close>) with \<open>scoped_padder\<close>, the level
  names of \<open>types.cpp\<close> and the time helpers of \<open>utils/time\<close>.  A flag appends to a \<open>log_buf_t\<close>; \<open>log_out\<close> is that
  buffer and the two colour positions of the message.  \<open>None\<close> is an exception of \<open>resize\<close> or an index outside an
  array.  The template argument of a flag is \<open>scoped_padder\<close> exactly when its padding is enabled, as \<open>set_pattern\<close>
  has it.  A time point is its number of nanoseconds.
\<close>

section \<open>Data\<close>

datatype log_level = Off | Critical | Error | Warn | Info | Debug | Trace

datatype pad_side = Left_side | Right_side | Center_side

record log_padding =
  p_width :: nat
  p_side :: pad_side
  p_truncate :: bool
  p_enabled :: bool

definition no_padding :: log_padding where
  "no_padding = \<lparr>p_width = 0, p_side = Left_side, p_truncate = False, p_enabled = False\<rparr>"

record log_message =
  msg_name :: "byte list option"
  msg_level :: log_level
  msg_point :: int
  msg_tid :: int
  msg_file :: "byte list"
  msg_func :: "byte list"
  msg_line :: nat
  msg_buf :: "byte list"

record tm =
  tm_sec :: int
  tm_min :: int
  tm_hour :: int
  tm_mday :: int
  tm_mon :: int
  tm_year :: int
  tm_wday :: int
  tm_yday :: int

record log_out =
  lo_buf :: "byte list"
  color_start :: nat
  color_stop :: nat

definition put :: "byte list \<Rightarrow> log_out \<Rightarrow> log_out" where
  "put bs o1 = o1\<lparr>lo_buf := lo_buf o1 @ bs\<rparr>"

section \<open>Level names\<close>

fun level_name :: "log_level \<Rightarrow> byte list" where
  "level_name Off = bytes_of ''off''"
| "level_name Critical = bytes_of ''critical''"
| "level_name Error = bytes_of ''error''"
| "level_name Warn = bytes_of ''warn''"
| "level_name Info = bytes_of ''info''"
| "level_name Debug = bytes_of ''debug''"
| "level_name Trace = bytes_of ''trace''"

fun level_name_short :: "log_level \<Rightarrow> byte list" where
  "level_name_short Off = bytes_of ''O''"
| "level_name_short Critical = bytes_of ''C''"
| "level_name_short Error = bytes_of ''E''"
| "level_name_short Warn = bytes_of ''W''"
| "level_name_short Info = bytes_of ''I''"
| "level_name_short Debug = bytes_of ''D''"
| "level_name_short Trace = bytes_of ''T''"

definition log_level_from :: "byte list \<Rightarrow> log_level" where
  "log_level_from strv = (case strv of [] \<Rightarrow> Trace
     | ch # _ \<Rightarrow> if ch = 0x6f \<or> ch = 0x4f then Off
         else if ch = 0x63 \<or> ch = 0x43 then Critical
         else if ch = 0x65 \<or> ch = 0x45 then Error
         else if ch = 0x77 \<or> ch = 0x57 then Warn
         else if ch = 0x69 \<or> ch = 0x49 then Info
         else if ch = 0x64 \<or> ch = 0x44 then Debug
         else Trace)"

datatype log_time_type = Local_time | Utc_time

definition log_time_from :: "byte list \<Rightarrow> log_time_type" where
  "log_time_from strv = (case strv of [] \<Rightarrow> Local_time
     | ch # _ \<Rightarrow> if ch = 0x75 \<or> ch = 0x55 then Utc_time else Local_time)"

section \<open>Padding\<close>

text \<open>\<open>static_cast<int32_t>\<close>\<close>

definition i32 :: "int \<Rightarrow> int" where
  "i32 i = sint (word_of_int i :: 32 word)"

definition spaces :: "int \<Rightarrow> byte list" where
  "spaces n = replicate (min (nat n) 64) 0x20"

text \<open>The constructor of \<open>scoped_padder\<close>: what is left for the destructor, and the buffer.\<close>

definition pad_before :: "log_padding \<Rightarrow> nat \<Rightarrow> log_out \<Rightarrow> int \<times> log_out" where
  "pad_before info wrapped_size o1 =
     (let remaining = i32 (int (p_width info) - int wrapped_size)
      in if remaining \<le> 0 then (remaining, o1)
         else case p_side info of
           Left_side \<Rightarrow> (0, put (spaces remaining) o1)
         | Center_side \<Rightarrow> (remaining div 2 + remaining mod 2, put (spaces (remaining div 2)) o1)
         | Right_side \<Rightarrow> (remaining, o1))"

text \<open>The destructor; \<open>resize\<close> to a negative size throws.\<close>

definition pad_after :: "log_padding \<Rightarrow> int \<Rightarrow> log_out \<Rightarrow> log_out option" where
  "pad_after info remaining o1 =
     (if remaining \<ge> 0 then Some (put (spaces remaining) o1)
      else if p_truncate info
      then let new_size = i32 (int (length (lo_buf o1))) + remaining
           in if new_size < 0 then None else Some (o1\<lparr>lo_buf := take (nat new_size) (lo_buf o1)\<rparr>)
      else Some o1)"

text \<open>A flag's text between the two, or alone under \<open>null_scoped_padder\<close>.\<close>

definition padded :: "log_padding \<Rightarrow> nat \<Rightarrow> byte list \<Rightarrow> log_out \<Rightarrow> log_out option" where
  "padded pad wrapped_size text o1 =
     (if p_enabled pad
      then case pad_before pad wrapped_size o1 of (remaining, o2) \<Rightarrow> pad_after pad remaining (put text o2)
      else Some (put text o1))"

section \<open>Numbers and names\<close>

definition am_or_pm :: "tm \<Rightarrow> byte list" where
  "am_or_pm t = (if tm_hour t \<ge> 12 then bytes_of ''PM'' else bytes_of ''AM'')"

definition to_12_hour :: "tm \<Rightarrow> int" where
  "to_12_hour t = (if tm_hour t > 12 then tm_hour t - 12 else tm_hour t)"

definition short_weekdays :: "byte list list" where
  "short_weekdays = map bytes_of [''Sun'', ''Mon'', ''Tue'', ''Wed'', ''Thu'', ''Fri'', ''Sat'']"

definition weekdays :: "byte list list" where
  "weekdays = map bytes_of [''Sunday'', ''Monday'', ''Tuesday'', ''Wednesday'', ''Thursday'', ''Friday'', ''Saturday'']"

definition short_months :: "byte list list" where
  "short_months = map bytes_of [''Jan'', ''Feb'', ''Mar'', ''Apr'', ''May'', ''Jun'', ''Jul'', ''Aug'', ''Sept'', ''Oct'', ''Nov'', ''Dec'']"

definition months :: "byte list list" where
  "months = map bytes_of [''January'', ''February'', ''March'', ''April'', ''May'', ''June'', ''July'', ''August'', ''September'',
     ''October'', ''November'', ''December'']"

definition array_at :: "'a list \<Rightarrow> int \<Rightarrow> 'a option" where
  "array_at xs i = (if 0 \<le> i \<and> nat i < length xs then Some (xs ! nat i) else None)"

definition digit :: "int \<Rightarrow> byte" where
  "digit n = word_of_int (48 + n)"

text \<open>\<open>{:02}\<close> of \<open>fmt\<close> outside 0 to 99: a negative number already has two characters.\<close>

definition pad2 :: "int \<Rightarrow> byte list" where
  "pad2 n = (if 0 \<le> n \<and> n < 100 then [digit (n sdiv 10), digit (n smod 10)] else decimal_int n)"

definition pad3 :: "int \<Rightarrow> byte list" where
  "pad3 n = (if n < 1000 then [digit (n sdiv 100), digit (n smod 100 sdiv 10), digit (n smod 100 smod 10)] else decimal_int n)"

definition pad_int :: "nat \<Rightarrow> nat \<Rightarrow> byte list" where
  "pad_int n width = replicate (width - length (decimal n)) 48 @ decimal n"

text \<open>\<open>static_cast<size_t>\<close> of a signed count.\<close>

definition to_size_t :: "int \<Rightarrow> nat" where
  "to_size_t i = nat (i mod 2 ^ 64)"

text \<open>\<open>time_fraction<ToDuration>\<close>; \<open>unit\<close> is the number of nanoseconds of the duration, casts truncate to zero.\<close>

definition time_seconds :: "int \<Rightarrow> int" where
  "time_seconds point = point sdiv 1000000000"

definition time_fraction :: "int \<Rightarrow> int \<Rightarrow> int" where
  "time_fraction unit point = point sdiv unit - time_seconds point * (1000000000 div unit)"

text \<open>The offset of local time in minutes; \<open>gm\<close> is the broken-down UTC time that \<open>fmt::gmtime\<close> gives.\<close>

definition utc_minutes_offset :: "tm \<Rightarrow> tm \<Rightarrow> int" where
  "utc_minutes_offset gm lc =
     (let local_year = tm_year lc + 1899; gm_year = tm_year gm + 1899;
          days = tm_yday lc - tm_yday gm;
          days = days + (drop_bit 2 local_year - drop_bit 2 gm_year - (local_year sdiv 100 - gm_year sdiv 100)
            + (drop_bit 2 (local_year sdiv 100) - drop_bit 2 (gm_year sdiv 100)));
          days = days + (local_year - gm_year) * 365;
          hours = 24 * days + (tm_hour lc - tm_hour gm)
      in 60 * hours + (tm_min lc - tm_min gm))"

section \<open>The flags without state\<close>

definition name_flag :: "log_padding \<Rightarrow> log_message \<Rightarrow> tm \<Rightarrow> log_out \<Rightarrow> log_out option" where
  "name_flag pad msg t o1 = (case msg_name msg of None \<Rightarrow> Some o1 | Some n \<Rightarrow> padded pad (length n) n o1)"

definition level_flag :: "log_padding \<Rightarrow> log_message \<Rightarrow> tm \<Rightarrow> log_out \<Rightarrow> log_out option" where
  "level_flag pad msg t = (let strv = level_name (msg_level msg) in padded pad (length strv) strv)"

definition short_level_flag :: "log_padding \<Rightarrow> log_message \<Rightarrow> tm \<Rightarrow> log_out \<Rightarrow> log_out option" where
  "short_level_flag pad msg t = (let strv = level_name_short (msg_level msg) in padded pad (length strv) strv)"

definition short_weekday_flag :: "log_padding \<Rightarrow> log_message \<Rightarrow> tm \<Rightarrow> log_out \<Rightarrow> log_out option" where
  "short_weekday_flag pad msg t o1 =
     Option.bind (array_at short_weekdays (tm_wday t)) (\<lambda>strv. padded pad (length strv) strv o1)"

definition weekday_flag :: "log_padding \<Rightarrow> log_message \<Rightarrow> tm \<Rightarrow> log_out \<Rightarrow> log_out option" where
  "weekday_flag pad msg t o1 = Option.bind (array_at weekdays (tm_wday t)) (\<lambda>strv. padded pad (length strv) strv o1)"

definition short_month_name_flag :: "log_padding \<Rightarrow> log_message \<Rightarrow> tm \<Rightarrow> log_out \<Rightarrow> log_out option" where
  "short_month_name_flag pad msg t o1 =
     Option.bind (array_at short_months (tm_mon t)) (\<lambda>strv. padded pad (length strv) strv o1)"

definition month_name_flag :: "log_padding \<Rightarrow> log_message \<Rightarrow> tm \<Rightarrow> log_out \<Rightarrow> log_out option" where
  "month_name_flag pad msg t o1 = Option.bind (array_at months (tm_mon t)) (\<lambda>strv. padded pad (length strv) strv o1)"

definition date_time_flag :: "log_padding \<Rightarrow> log_message \<Rightarrow> tm \<Rightarrow> log_out \<Rightarrow> log_out option" where
  "date_time_flag pad msg t o1 =
     Option.bind (array_at short_weekdays (tm_wday t)) (\<lambda>wd. Option.bind (array_at short_months (tm_mon t)) (\<lambda>mo.
       padded pad 24 (wd @ [0x20] @ mo @ [0x20] @ decimal_int (tm_mday t) @ [0x20] @ pad2 (tm_hour t) @ [0x3a]
         @ pad2 (tm_min t) @ [0x3a] @ pad2 (tm_sec t) @ [0x20] @ decimal_int (tm_year t + 1900)) o1))"

definition short_year_flag :: "log_padding \<Rightarrow> log_message \<Rightarrow> tm \<Rightarrow> log_out \<Rightarrow> log_out option" where
  "short_year_flag pad msg t = padded pad 2 (pad2 (tm_year t smod 100))"

definition year_flag :: "log_padding \<Rightarrow> log_message \<Rightarrow> tm \<Rightarrow> log_out \<Rightarrow> log_out option" where
  "year_flag pad msg t = padded pad 4 (decimal_int (tm_year t + 1900))"

definition month_flag :: "log_padding \<Rightarrow> log_message \<Rightarrow> tm \<Rightarrow> log_out \<Rightarrow> log_out option" where
  "month_flag pad msg t = padded pad 2 (pad2 (tm_mon t + 1))"

definition day_flag :: "log_padding \<Rightarrow> log_message \<Rightarrow> tm \<Rightarrow> log_out \<Rightarrow> log_out option" where
  "day_flag pad msg t = padded pad 2 (pad2 (tm_mday t))"

definition short_date_flag :: "log_padding \<Rightarrow> log_message \<Rightarrow> tm \<Rightarrow> log_out \<Rightarrow> log_out option" where
  "short_date_flag pad msg t =
     padded pad 10 (pad2 (tm_mon t + 1) @ [0x2f] @ pad2 (tm_mday t) @ [0x2f] @ pad2 (tm_year t smod 100))"

definition hour24_flag :: "log_padding \<Rightarrow> log_message \<Rightarrow> tm \<Rightarrow> log_out \<Rightarrow> log_out option" where
  "hour24_flag pad msg t = padded pad 2 (pad2 (tm_hour t))"

definition hour12_flag :: "log_padding \<Rightarrow> log_message \<Rightarrow> tm \<Rightarrow> log_out \<Rightarrow> log_out option" where
  "hour12_flag pad msg t = padded pad 2 (pad2 (to_12_hour t))"

definition min_flag :: "log_padding \<Rightarrow> log_message \<Rightarrow> tm \<Rightarrow> log_out \<Rightarrow> log_out option" where
  "min_flag pad msg t = padded pad 2 (pad2 (tm_min t))"

definition second_flag :: "log_padding \<Rightarrow> log_message \<Rightarrow> tm \<Rightarrow> log_out \<Rightarrow> log_out option" where
  "second_flag pad msg t = padded pad 2 (pad2 (tm_sec t))"

definition millis_flag :: "log_padding \<Rightarrow> log_message \<Rightarrow> tm \<Rightarrow> log_out \<Rightarrow> log_out option" where
  "millis_flag pad msg t = padded pad 3 (pad3 (i32 (time_fraction 1000000 (msg_point msg))))"

definition micros_flag :: "log_padding \<Rightarrow> log_message \<Rightarrow> tm \<Rightarrow> log_out \<Rightarrow> log_out option" where
  "micros_flag pad msg t = padded pad 6 (pad_int (to_size_t (time_fraction 1000 (msg_point msg))) 6)"

definition nanosecond_flag :: "log_padding \<Rightarrow> log_message \<Rightarrow> tm \<Rightarrow> log_out \<Rightarrow> log_out option" where
  "nanosecond_flag pad msg t = padded pad 9 (pad_int (to_size_t (time_fraction 1 (msg_point msg))) 9)"

definition timestamp_flag :: "log_padding \<Rightarrow> log_message \<Rightarrow> tm \<Rightarrow> log_out \<Rightarrow> log_out option" where
  "timestamp_flag pad msg t = padded pad 10 (decimal_int (time_seconds (msg_point msg)))"

definition noon_flag :: "log_padding \<Rightarrow> log_message \<Rightarrow> tm \<Rightarrow> log_out \<Rightarrow> log_out option" where
  "noon_flag pad msg t = (let strv = am_or_pm t in padded pad (length strv) strv)"

definition clock_hour12_flag :: "log_padding \<Rightarrow> log_message \<Rightarrow> tm \<Rightarrow> log_out \<Rightarrow> log_out option" where
  "clock_hour12_flag pad msg t = padded pad 11 (pad2 (to_12_hour t) @ [0x3a] @ pad2 (tm_min t) @ [0x3a] @ pad2 (tm_sec t)
     @ [0x20] @ am_or_pm t)"

definition short_clock_hour24_flag :: "log_padding \<Rightarrow> log_message \<Rightarrow> tm \<Rightarrow> log_out \<Rightarrow> log_out option" where
  "short_clock_hour24_flag pad msg t = padded pad 5 (pad2 (tm_hour t) @ [0x3a] @ pad2 (tm_min t))"

definition clock_hour24_flag :: "log_padding \<Rightarrow> log_message \<Rightarrow> tm \<Rightarrow> log_out \<Rightarrow> log_out option" where
  "clock_hour24_flag pad msg t = padded pad 8 (pad2 (tm_hour t) @ [0x3a] @ pad2 (tm_min t) @ [0x3a] @ pad2 (tm_sec t))"

definition tid_flag :: "log_padding \<Rightarrow> log_message \<Rightarrow> tm \<Rightarrow> log_out \<Rightarrow> log_out option" where
  "tid_flag pad msg t = padded pad (length (decimal (to_size_t (msg_tid msg)))) (decimal_int (msg_tid msg))"

definition pid_flag :: "int \<Rightarrow> log_padding \<Rightarrow> log_message \<Rightarrow> tm \<Rightarrow> log_out \<Rightarrow> log_out option" where
  "pid_flag pid pad msg t = padded pad (length (decimal (to_size_t pid))) (decimal_int pid)"

definition log_value_flag :: "log_padding \<Rightarrow> log_message \<Rightarrow> tm \<Rightarrow> log_out \<Rightarrow> log_out option" where
  "log_value_flag pad msg t = padded pad (length (msg_buf msg)) (msg_buf msg)"

definition color_start_flag :: "log_message \<Rightarrow> tm \<Rightarrow> log_out \<Rightarrow> log_out option" where
  "color_start_flag msg t o1 = Some (o1\<lparr>color_start := length (lo_buf o1)\<rparr>)"

definition color_stop_flag :: "log_message \<Rightarrow> tm \<Rightarrow> log_out \<Rightarrow> log_out option" where
  "color_stop_flag msg t o1 = Some (o1\<lparr>color_stop := length (lo_buf o1)\<rparr>)"

definition source_location_flag :: "log_padding \<Rightarrow> log_message \<Rightarrow> tm \<Rightarrow> log_out \<Rightarrow> log_out option" where
  "source_location_flag pad msg t =
     (if msg_file msg = [] then padded pad 0 []
      else padded pad (length (msg_file msg) + length (decimal (msg_line msg)) + 1) (msg_file msg @ [0x3a] @ decimal (msg_line msg)))"

definition filename_flag :: "log_padding \<Rightarrow> log_message \<Rightarrow> tm \<Rightarrow> log_out \<Rightarrow> log_out option" where
  "filename_flag pad msg t =
     (if msg_file msg = [] then padded pad 0 [] else padded pad (length (msg_file msg)) (msg_file msg))"

text \<open>The part after the last separator.\<close>

definition base_name :: "byte list \<Rightarrow> byte list" where
  "base_name f = rev (takeWhile (\<lambda>c. c \<noteq> 0x2f \<and> c \<noteq> 0x5c) (rev f))"

definition short_filename_flag :: "log_padding \<Rightarrow> log_message \<Rightarrow> tm \<Rightarrow> log_out \<Rightarrow> log_out option" where
  "short_filename_flag pad msg t =
     (if msg_file msg = [] then padded pad 0 []
      else let file_name = base_name (msg_file msg) in padded pad (length file_name) file_name)"

definition line_flag :: "log_padding \<Rightarrow> log_message \<Rightarrow> tm \<Rightarrow> log_out \<Rightarrow> log_out option" where
  "line_flag pad msg t =
     (if msg_line msg = 0 then padded pad 0 []
      else padded pad (length (decimal (msg_line msg))) (decimal (msg_line msg)))"

definition func_flag :: "log_padding \<Rightarrow> log_message \<Rightarrow> tm \<Rightarrow> log_out \<Rightarrow> log_out option" where
  "func_flag pad msg t =
     (if msg_func msg = [] then padded pad 0 [] else padded pad (length (msg_func msg)) (msg_func msg))"

section \<open>The flags with state\<close>

text \<open>\<open>get_cached_offset\<close>: the new time of the last update and the offset.\<close>

definition get_cached_offset :: "(int \<Rightarrow> tm) \<Rightarrow> log_message \<Rightarrow> tm \<Rightarrow> int \<times> int \<Rightarrow> int \<times> int" where
  "get_cached_offset gmtime msg t st = (case st of (last_update, offset_minutes) \<Rightarrow>
     if msg_point msg - last_update \<ge> 10000000000
     then (msg_point msg, utc_minutes_offset (gmtime (msg_point msg)) t)
     else (last_update, offset_minutes))"

definition timezone_flag :: "(int \<Rightarrow> tm) \<Rightarrow> log_padding \<Rightarrow> int \<times> int \<Rightarrow> log_message \<Rightarrow> tm \<Rightarrow> log_out
     \<Rightarrow> ((int \<times> int) \<times> log_out) option" where
  "timezone_flag gmtime pad st msg t o1 =
     (let st = get_cached_offset gmtime msg t st; total = snd st;
          sign = (if total < 0 then 0x2d else 0x2b); total = (if total < 0 then - total else total)
      in map_option (Pair st) (padded pad 6 (sign # pad2 (total sdiv 60) @ [0x3a] @ pad2 (total smod 60)) o1))"

text \<open>\<open>unit\<close> is the number of nanoseconds of \<open>DurationUnits\<close>; the state is the time of the last message.\<close>

definition elapsed_time_flag :: "int \<Rightarrow> log_padding \<Rightarrow> int \<Rightarrow> log_message \<Rightarrow> tm \<Rightarrow> log_out \<Rightarrow> (int \<times> log_out) option" where
  "elapsed_time_flag unit pad last_time msg t o1 =
     (let delta = max (msg_point msg - last_time) 0; delta_count = to_size_t (delta sdiv unit)
      in map_option (Pair (msg_point msg)) (padded pad (length (decimal delta_count)) (decimal delta_count) o1))"

definition datetime_text :: "tm \<Rightarrow> byte list" where
  "datetime_text t = [0x5b] @ decimal_int (tm_year t + 1900) @ [0x2d] @ pad2 (tm_mon t + 1) @ [0x2d] @ pad2 (tm_mday t) @ [0x20]
     @ pad2 (tm_hour t) @ [0x3a] @ pad2 (tm_min t) @ [0x3a] @ pad2 (tm_sec t) @ [0x2e]"

definition cache_time :: "int \<Rightarrow> tm \<Rightarrow> int \<times> byte list \<Rightarrow> int \<times> byte list" where
  "cache_time secs t st = (case st of (cache_timestamp, cached_datetime) \<Rightarrow>
     if cache_timestamp = secs \<and> length cached_datetime > 0 then st else (secs, datetime_text t))"

definition default_flag :: "int \<times> byte list \<Rightarrow> log_message \<Rightarrow> tm \<Rightarrow> log_out \<Rightarrow> ((int \<times> byte list) \<times> log_out) option" where
  "default_flag st msg t o1 =
     (let st = cache_time (time_seconds (msg_point msg)) t st;
          o1 = put (snd st @ pad3 (i32 (time_fraction 1000000 (msg_point msg))) @ [0x5d, 0x20]) o1;
          o1 = (case msg_name msg of None \<Rightarrow> o1 | Some n \<Rightarrow> if n = [] then o1 else put ([0x5b] @ n @ [0x5d, 0x20]) o1);
          o1 = put [0x5b] o1;
          o1 = o1\<lparr>color_start := length (lo_buf o1)\<rparr>;
          o1 = put (level_name (msg_level msg)) o1;
          o1 = o1\<lparr>color_stop := length (lo_buf o1)\<rparr>;
          o1 = put [0x5d, 0x20] o1;
          o1 = (if msg_file msg = [] then o1
                else put ([0x5b] @ base_name (msg_file msg) @ [0x3a] @ decimal (msg_line msg) @ [0x5d, 0x20]) o1)
      in Some (st, put (msg_buf msg) o1))"

section \<open>Padding is right\<close>

lemma i32_small: "- (2 ^ 31) \<le> i \<Longrightarrow> i < 2 ^ 31 \<Longrightarrow> i32 i = i"
  by (simp add: i32_def sint_sbintrunc' signed_take_bit_int_eq_self)

lemma put_put [simp]: "put bs (put as o1) = put (as @ bs) o1"
  by (simp add: put_def)

lemma put_Nil [simp]: "put [] o1 = o1"
  by (simp add: put_def)

lemma lo_buf_put [simp]: "lo_buf (put bs o1) = lo_buf o1 @ bs"
  by (simp add: put_def)

lemma spaces_small: "0 \<le> n \<Longrightarrow> n \<le> 64 \<Longrightarrow> spaces n = replicate (nat n) 0x20"
  by (simp add: spaces_def min_absorb1)

text \<open>What a padded field looks like.\<close>

definition field :: "log_padding \<Rightarrow> byte list \<Rightarrow> byte list" where
  "field pad text =
     (let k = p_width pad - length text
      in if length text \<le> p_width pad
         then (case p_side pad of
             Left_side \<Rightarrow> replicate k 0x20 @ text
           | Right_side \<Rightarrow> text @ replicate k 0x20
           | Center_side \<Rightarrow> replicate (k div 2) 0x20 @ text @ replicate (k - k div 2) 0x20)
         else if p_truncate pad then take (p_width pad) text else text)"

lemma padded_field:
  assumes "p_enabled pad" "p_width pad \<le> 64" "length (lo_buf o1) + length text < 2 ^ 31"
  shows "padded pad (length text) text o1 = Some (put (field pad text) o1)"
proof -
  define r where "r = int (p_width pad) - int (length text)"
  have r: "i32 r = r" "r \<le> 64" using assms(2,3) by (auto simp: r_def intro!: i32_small)
  show ?thesis
  proof (cases "length text \<le> p_width pad")
    case True
    define m where "m = p_width pad - length text"
    have k: "i32 (int (p_width pad) - int (length text)) = int m" "m \<le> 64" using True r assms(2) by (auto simp: r_def m_def)
    have sp: "spaces (int n) = replicate n 0x20" if "n \<le> m" for n using that k(2) spaces_small [of "int n"] by simp
    have h: "int m div 2 = int (m div 2)" "int m mod 2 = int (m mod 2)" by (simp_all add: zdiv_int zmod_int)
    have "int m div 2 + int m mod 2 = int (m - m div 2)" by presburger
    then have "spaces (int m div 2 + int m mod 2) = replicate (m - m div 2) 0x20" using sp [of "m - m div 2"] by simp
    moreover have "spaces (int m div 2) = replicate (m div 2) 0x20" using sp [of "m div 2"] unfolding h by simp
    moreover have "spaces 0 = []" by (simp add: spaces_def)
    ultimately show ?thesis
      using True assms(1) k(1) sp [of m]
      by (cases "p_side pad"; cases "m = 0") (simp_all add: padded_def pad_before_def pad_after_def field_def Let_def m_def [symmetric])
  next
    case False
    then have neg: "r < 0" by (simp add: r_def)
    have l: "i32 (int (length (lo_buf o1 @ text))) = int (length (lo_buf o1) + length text)"
      using assms(3) by (simp add: i32_small)
    have n: "nat (int (length (lo_buf o1) + length text) + r) = length (lo_buf o1) + p_width pad"
        "\<not> int (length (lo_buf o1) + length text) + r < 0" by (simp_all add: r_def)
    show ?thesis
      using False assms(1) r(1) neg l n
      by (simp add: padded_def pad_before_def pad_after_def field_def Let_def r_def [symmetric] put_def del: length_append)
  qed
qed

lemma decimal_length_le: "0 < k \<Longrightarrow> n < 10 ^ k \<Longrightarrow> length (decimal n) \<le> k"
proof (induction k arbitrary: n)
  case (Suc k)
  show ?case
  proof (cases "n < 10")
    case True
    then show ?thesis by (subst decimal.simps) simp
  next
    case False
    then have k: "0 < k" using Suc.prems by (cases k) auto
    have "n div 10 < 10 ^ k" using Suc.prems by (simp add: less_mult_imp_div_less mult.commute)
    then show ?thesis using Suc.IH [OF k] False by (subst decimal.simps) simp
  qed
qed simp

lemma decimal_length_ge: "10 ^ k \<le> n \<Longrightarrow> k < length (decimal n)"
proof (induction k arbitrary: n)
  case (Suc k)
  have "(1::nat) \<le> 10 ^ k" by simp
  then have "\<not> n < 10" using Suc.prems unfolding power_Suc by linarith
  moreover have "10 ^ k \<le> n div 10" using Suc.prems by (simp add: less_eq_div_iff_mult_less_eq mult.commute)
  ultimately show ?case using Suc.IH by (subst decimal.simps) simp
qed simp

lemma pad2_length: "0 \<le> n \<Longrightarrow> n < 100 \<Longrightarrow> length (pad2 n) = 2"
  by (simp add: pad2_def)

lemma pad3_length: "n < 1000 \<Longrightarrow> length (pad3 n) = 3"
  by (simp add: pad3_def)

lemma pad_int_length: "0 < k \<Longrightarrow> n < 10 ^ k \<Longrightarrow> length (pad_int n k) = k"
  using decimal_length_le by (simp add: pad_int_def)

lemma nonneg_signed: "0 \<le> i \<Longrightarrow> 0 < k \<Longrightarrow> i sdiv k = i div k" "0 \<le> i \<Longrightarrow> 0 < k \<Longrightarrow> i smod k = i mod k" for i k :: int
  by (auto simp: signed_divide_int_def signed_modulo_int_def sgn_if minus_div_mult_eq_mod)

lemma fraction_bounds:
  assumes "0 \<le> point" "unit \<in> {1, 1000, 1000000}"
  shows "0 \<le> time_fraction unit point" "time_fraction unit point < 1000000000 div unit"
proof -
  note n = nonneg_signed(1) [OF assms(1)]
  have "0 \<le> time_fraction unit point \<and> time_fraction unit point < 1000000000 div unit"
    using assms unfolding time_fraction_def time_seconds_def by (auto simp: n)
  then show "0 \<le> time_fraction unit point" "time_fraction unit point < 1000000000 div unit" by auto
qed

definition valid_tm :: "tm \<Rightarrow> bool" where
  "valid_tm t \<longleftrightarrow> 0 \<le> tm_sec t \<and> tm_sec t \<le> 60 \<and> 0 \<le> tm_min t \<and> tm_min t < 60 \<and> 0 \<le> tm_hour t \<and> tm_hour t < 24
     \<and> 1 \<le> tm_mday t \<and> tm_mday t \<le> 31 \<and> 0 \<le> tm_mon t \<and> tm_mon t < 12 \<and> 70 \<le> tm_year t \<and> tm_year t \<le> 8099
     \<and> 0 \<le> tm_wday t \<and> tm_wday t < 7"

text \<open>The text a flag would append without padding has the size the flag announces to the padder.\<close>

definition announces :: "(log_padding \<Rightarrow> log_message \<Rightarrow> tm \<Rightarrow> log_out \<Rightarrow> log_out option) \<Rightarrow> log_message \<Rightarrow> tm \<Rightarrow> bool" where
  "announces fl msg t \<longleftrightarrow> (\<exists>text. \<forall>pad o1. fl pad msg t o1 = padded pad (length text) text o1)"

lemma announcesI: "(\<And>pad o1. fl pad msg t o1 = padded pad (length text) text o1) \<Longrightarrow> announces fl msg t"
  by (auto simp: announces_def)

lemma announces_field:
  assumes "announces fl msg t"
  shows "\<exists>text. fl no_padding msg t o1 = Some (put text o1) \<and>
     (\<forall>pad. p_enabled pad \<and> p_width pad \<le> 64 \<and> length (lo_buf o1) + length text < 2 ^ 31 \<longrightarrow>
        fl pad msg t o1 = Some (put (field pad text) o1))"
proof -
  obtain tx where "\<forall>pad o1. fl pad msg t o1 = padded pad (length tx) tx o1" using assms by (auto simp: announces_def)
  then show ?thesis using padded_field by (intro exI [of _ tx]) (auto simp: padded_def no_padding_def)
qed

lemma announces_text:
  "announces level_flag msg t" "announces short_level_flag msg t" "announces noon_flag msg t" "announces log_value_flag msg t"
  "announces filename_flag msg t" "announces short_filename_flag msg t" "announces line_flag msg t" "announces func_flag msg t"
  "announces source_location_flag msg t" "msg_name msg = Some n \<Longrightarrow> announces name_flag msg t"
proof -
  show "announces level_flag msg t" "announces short_level_flag msg t" "announces noon_flag msg t" "announces log_value_flag msg t"
    unfolding announces_def level_flag_def short_level_flag_def noon_flag_def log_value_flag_def Let_def by blast+
  show "announces filename_flag msg t" by (rule announcesI [of _ _ _ "msg_file msg"]) (simp add: filename_flag_def)
  show "announces short_filename_flag msg t"
    by (rule announcesI [of _ _ _ "base_name (msg_file msg)"]) (simp add: short_filename_flag_def base_name_def Let_def)
  show "announces line_flag msg t"
    by (rule announcesI [of _ _ _ "if msg_line msg = 0 then [] else decimal (msg_line msg)"]) (simp add: line_flag_def)
  show "announces func_flag msg t" by (rule announcesI [of _ _ _ "msg_func msg"]) (simp add: func_flag_def)
  show "announces source_location_flag msg t"
    by (rule announcesI [of _ _ _ "if msg_file msg = [] then [] else msg_file msg @ [0x3a] @ decimal (msg_line msg)"])
      (simp add: source_location_flag_def)
  show "announces name_flag msg t" if "msg_name msg = Some n"
    by (rule announcesI [of _ _ _ n]) (simp add: name_flag_def that)
qed

lemma announces_clock:
  assumes t: "valid_tm t"
  shows "announces month_flag msg t" "announces day_flag msg t" "announces hour24_flag msg t" "announces hour12_flag msg t"
    "announces min_flag msg t" "announces second_flag msg t" "announces short_year_flag msg t"
    "announces clock_hour24_flag msg t" "announces short_clock_hour24_flag msg t" "announces clock_hour12_flag msg t"
    "announces year_flag msg t" "announces short_weekday_flag msg t" "announces weekday_flag msg t"
    "announces short_month_name_flag msg t" "announces month_name_flag msg t"
proof -
  have l: "length (pad2 (tm_mon t + 1)) = 2" "length (pad2 (tm_mday t)) = 2" "length (pad2 (tm_hour t)) = 2"
      "length (pad2 (to_12_hour t)) = 2" "length (pad2 (tm_min t)) = 2" "length (pad2 (tm_sec t)) = 2"
    using t by (auto simp: valid_tm_def to_12_hour_def intro!: pad2_length)
  have "tm_year t smod 100 = tm_year t mod 100" using t nonneg_signed [of "tm_year t" 100] by (simp add: valid_tm_def)
  then have y: "length (pad2 (tm_year t smod 100)) = 2" by (simp add: pad2_length)
  have "length (decimal (nat (tm_year t + 1900))) = 4"
  proof -
    have "nat (tm_year t + 1900) < 10 ^ 4" "10 ^ 3 \<le> nat (tm_year t + 1900)" using t by (auto simp: valid_tm_def)
    then show ?thesis using decimal_length_le [of 4 "nat (tm_year t + 1900)"] decimal_length_ge [of 3 "nat (tm_year t + 1900)"] by simp
  qed
  then have y4: "length (decimal_int (tm_year t + 1900)) = 4" using t by (simp add: decimal_int_def valid_tm_def)
  show "announces month_flag msg t" "announces day_flag msg t" "announces hour24_flag msg t" "announces hour12_flag msg t"
    "announces min_flag msg t" "announces second_flag msg t" "announces short_year_flag msg t" "announces year_flag msg t"
    using l y y4 unfolding announces_def month_flag_def day_flag_def hour24_flag_def hour12_flag_def min_flag_def second_flag_def
      short_year_flag_def year_flag_def by metis+
  show "announces clock_hour24_flag msg t"
    by (rule announcesI [of _ _ _ "pad2 (tm_hour t) @ [0x3a] @ pad2 (tm_min t) @ [0x3a] @ pad2 (tm_sec t)"])
      (simp add: clock_hour24_flag_def l)
  show "announces short_clock_hour24_flag msg t"
    by (rule announcesI [of _ _ _ "pad2 (tm_hour t) @ [0x3a] @ pad2 (tm_min t)"]) (simp add: short_clock_hour24_flag_def l)
  show "announces clock_hour12_flag msg t"
    by (rule announcesI [of _ _ _ "pad2 (to_12_hour t) @ [0x3a] @ pad2 (tm_min t) @ [0x3a] @ pad2 (tm_sec t) @ [0x20] @ am_or_pm t"])
      (simp add: clock_hour12_flag_def l am_or_pm_def bytes_of_def eval_nat_numeral)
  have "\<exists>x. array_at short_weekdays (tm_wday t) = Some x" "\<exists>x. array_at weekdays (tm_wday t) = Some x"
      "\<exists>x. array_at short_months (tm_mon t) = Some x" "\<exists>x. array_at months (tm_mon t) = Some x"
    using t nat_less_iff [of "tm_wday t" 7] nat_less_iff [of "tm_mon t" 12]
    by (simp_all add: array_at_def valid_tm_def short_weekdays_def weekdays_def short_months_def months_def eval_nat_numeral)
  then show "announces short_weekday_flag msg t" "announces weekday_flag msg t"
    "announces short_month_name_flag msg t" "announces month_name_flag msg t"
    unfolding announces_def short_weekday_flag_def weekday_flag_def short_month_name_flag_def month_name_flag_def by auto
qed

lemma announces_fraction:
  assumes "0 \<le> msg_point msg"
  shows "announces millis_flag msg t" "announces micros_flag msg t" "announces nanosecond_flag msg t"
proof -
  have f: "0 \<le> time_fraction u (msg_point msg)" "time_fraction u (msg_point msg) < 1000000000 div u" if "u \<in> {1, 1000, 1000000}" for u
    using fraction_bounds [OF assms that] by auto
  have s: "to_size_t i = nat i" if "0 \<le> i" "i < 1000000000" for i using that by (simp add: to_size_t_def)
  have "i32 (time_fraction 1000000 (msg_point msg)) < 1000" using f [of 1000000] i32_small by simp
  then have "length (pad3 (i32 (time_fraction 1000000 (msg_point msg)))) = 3" by (rule pad3_length)
  moreover have "length (pad_int (to_size_t (time_fraction 1000 (msg_point msg))) 6) = 6"
    using f [of 1000] s by (intro pad_int_length) auto
  moreover have "length (pad_int (to_size_t (time_fraction 1 (msg_point msg))) 9) = 9"
    using f [of 1] s by (intro pad_int_length) auto
  ultimately show "announces millis_flag msg t" "announces micros_flag msg t" "announces nanosecond_flag msg t"
    unfolding announces_def millis_flag_def micros_flag_def nanosecond_flag_def by metis+
qed

lemma announces_tid:
  assumes "0 \<le> msg_tid msg" "msg_tid msg < 2 ^ 31"
  shows "announces tid_flag msg t"
proof (rule announcesI)
  have "to_size_t (msg_tid msg) = nat (msg_tid msg)" using assms by (simp add: to_size_t_def)
  then show "tid_flag pad msg t o1 = padded pad (length (decimal_int (msg_tid msg))) (decimal_int (msg_tid msg)) o1" for pad o1
    using assms by (simp add: tid_flag_def decimal_int_def)
qed

lemma announces_timestamp:
  assumes "10 ^ 18 \<le> msg_point msg" "msg_point msg < 10 ^ 19"
  shows "announces timestamp_flag msg t"
proof -
  let ?s = "nat (time_seconds (msg_point msg))"
  have p: "0 \<le> msg_point msg" using assms(1) order_trans [of 0 "10 ^ 18"] by simp
  have s: "time_seconds (msg_point msg) = msg_point msg div 10 ^ 9" using nonneg_signed(1) [OF p, of "10 ^ 9"] by (simp add: time_seconds_def)
  have b: "10 ^ 9 \<le> msg_point msg div 10 ^ 9" "msg_point msg div 10 ^ 9 < 10 ^ 10" using assms by simp_all
  then have "10 ^ 9 \<le> ?s" "?s < 10 ^ 10" unfolding s by (simp_all add: le_nat_iff nat_less_iff)
  then have "length (decimal ?s) = 10" using decimal_length_le [of 10 ?s] decimal_length_ge [of 9 ?s] by simp
  moreover have "0 \<le> time_seconds (msg_point msg)" unfolding s using b by simp
  ultimately have "length (decimal_int (time_seconds (msg_point msg))) = 10" by (simp add: decimal_int_def)
  then show ?thesis by (intro announcesI [of _ _ _ "decimal_int (time_seconds (msg_point msg))"]) (simp add: timestamp_flag_def)
qed

lemma level_name_roundtrip: "log_level_from (level_name l) = l" "log_level_from (level_name_short l) = l"
  by (cases l; simp add: log_level_from_def bytes_of_def)+

section \<open>The offset of local time\<close>

definition leap_year :: "nat \<Rightarrow> bool" where
  "leap_year y \<longleftrightarrow> 4 dvd y \<and> (\<not> 100 dvd y \<or> 400 dvd y)"

text \<open>Days of the Gregorian calendar before the year \<open>n + 1\<close>.\<close>

fun days_before :: "nat \<Rightarrow> int" where
  "days_before 0 = 0"
| "days_before (Suc n) = days_before n + (if leap_year (Suc n) then 366 else 365)"

definition calendar_minutes :: "tm \<Rightarrow> int" where
  "calendar_minutes t = ((days_before (nat (tm_year t + 1899)) + tm_yday t) * 24 + tm_hour t) * 60 + tm_min t"

lemma days_before_closed: "days_before n + int (n div 100) = 365 * int n + int (n div 4) + int (n div 400)"
proof (induction n)
  case (Suc n)
  have d: "Suc n div k = n div k + (if k dvd Suc n then 1 else 0)" for k by (simp add: div_Suc dvd_eq_mod_eq_0)
  define a b c where abc: "a \<longleftrightarrow> 4 dvd Suc n" "b \<longleftrightarrow> 100 dvd Suc n" "c \<longleftrightarrow> 400 dvd Suc n"
  have "b \<Longrightarrow> a" "c \<Longrightarrow> b" using dvd_trans [of 4 100 "Suc n"] dvd_trans [of 100 400 "Suc n"] by (auto simp: abc)
  then show ?case using Suc.IH unfolding d days_before.simps leap_year_def abc [symmetric] by (cases a; cases b; cases c) auto
qed simp

text \<open>The offset of a time zone is the difference of the two broken-down times in minutes of the Gregorian
  calendar, whatever the years are: the arithmetic with shifts and divisions counts the leap years between them.\<close>

theorem utc_offset_is_difference:
  assumes "-1899 \<le> tm_year gm" "-1899 \<le> tm_year lc"
  shows "utc_minutes_offset gm lc = calendar_minutes lc - calendar_minutes gm"
proof -
  have d: "days_before (nat y) = 365 * y + (drop_bit 2 y - y sdiv 100 + drop_bit 2 (y sdiv 100))" if "0 \<le> y" for y
    using that days_before_closed [of "nat y"] nonneg_signed(1) [OF that, of 100] zdiv_zmult2_eq [of 4 y 100]
    by (simp add: drop_bit_eq_div zdiv_int)
  show ?thesis
    using assms by (simp add: utc_minutes_offset_def calendar_minutes_def d Let_def algebra_simps)
qed

end
