(* ===== verification/Log_Formatter.thy ===== *)
theory Log_Formatter
  imports Log_Flags
begin

text \<open>
  The pattern formatter of \<open>runtime/src/log/formatter.cpp\<close>: \<open>handle_padding\<close>, \<open>handle_flag\<close>, \<open>set_pattern\<close>, \<open>format\<close>,
  \<open>clone\<close> and \<open>add_custom_flag\<close>.  A \<open>log_flag\<close> object is a value of \<open>log_flag\<close>, with its state where its class has one;
  a custom flag is one of them, made by a function of its padding.  The clock, the process id and the conversions
  of \<open>fmt\<close> and the C library from time points to broken-down time are arguments.
\<close>

section \<open>Flag objects\<close>

datatype flag_class = Name_class | Level_class | Short_level_class | Short_weekday_class | Weekday_class
  | Short_month_class | Month_name_class | Date_time_class | Short_year_class | Year_class | Month_class | Day_class
  | Short_date_class | Hour24_class | Hour12_class | Min_class | Second_class | Millis_class | Micros_class
  | Nanosecond_class | Timestamp_class | Noon_class | Clock_hour12_class | Short_clock_class | Clock_hour24_class
  | Tid_class | Value_class | Source_location_class | Filename_class | Short_filename_class | Line_class | Func_class

fun class_format :: "flag_class \<Rightarrow> log_padding \<Rightarrow> log_message \<Rightarrow> tm \<Rightarrow> log_out \<Rightarrow> log_out option" where
  "class_format Name_class = name_flag"
| "class_format Level_class = level_flag"
| "class_format Short_level_class = short_level_flag"
| "class_format Short_weekday_class = short_weekday_flag"
| "class_format Weekday_class = weekday_flag"
| "class_format Short_month_class = short_month_name_flag"
| "class_format Month_name_class = month_name_flag"
| "class_format Date_time_class = date_time_flag"
| "class_format Short_year_class = short_year_flag"
| "class_format Year_class = year_flag"
| "class_format Month_class = month_flag"
| "class_format Day_class = day_flag"
| "class_format Short_date_class = short_date_flag"
| "class_format Hour24_class = hour24_flag"
| "class_format Hour12_class = hour12_flag"
| "class_format Min_class = min_flag"
| "class_format Second_class = second_flag"
| "class_format Millis_class = millis_flag"
| "class_format Micros_class = micros_flag"
| "class_format Nanosecond_class = nanosecond_flag"
| "class_format Timestamp_class = timestamp_flag"
| "class_format Noon_class = noon_flag"
| "class_format Clock_hour12_class = clock_hour12_flag"
| "class_format Short_clock_class = short_clock_hour24_flag"
| "class_format Clock_hour24_class = clock_hour24_flag"
| "class_format Tid_class = tid_flag"
| "class_format Value_class = log_value_flag"
| "class_format Source_location_class = source_location_flag"
| "class_format Filename_class = filename_flag"
| "class_format Short_filename_class = short_filename_flag"
| "class_format Line_class = line_flag"
| "class_format Func_class = func_flag"

datatype log_flag = Class_flag flag_class log_padding | Pid_flag int log_padding | Timezone_flag log_padding "int \<times> int"
  | Elapsed_flag int log_padding int | Default_flag "int \<times> byte list" | Ch_flag byte | Aggregate_flag "byte list"
  | Color_start_flag | Color_stop_flag

fun format_flag :: "(int \<Rightarrow> tm) \<Rightarrow> log_message \<Rightarrow> tm \<Rightarrow> log_flag \<Rightarrow> log_out \<Rightarrow> (log_flag \<times> log_out) option" where
  "format_flag gmtime msg t (Class_flag c pad) o1 = map_option (Pair (Class_flag c pad)) (class_format c pad msg t o1)"
| "format_flag gmtime msg t (Pid_flag pid pad) o1 = map_option (Pair (Pid_flag pid pad)) (pid_flag pid pad msg t o1)"
| "format_flag gmtime msg t (Timezone_flag pad st) o1 =
     map_option (\<lambda>(st, o1). (Timezone_flag pad st, o1)) (timezone_flag gmtime pad st msg t o1)"
| "format_flag gmtime msg t (Elapsed_flag unit pad st) o1 =
     map_option (\<lambda>(st, o1). (Elapsed_flag unit pad st, o1)) (elapsed_time_flag unit pad st msg t o1)"
| "format_flag gmtime msg t (Default_flag st) o1 = map_option (\<lambda>(st, o1). (Default_flag st, o1)) (default_flag st msg t o1)"
| "format_flag gmtime msg t (Ch_flag ch) o1 = Some (Ch_flag ch, put [ch] o1)"
| "format_flag gmtime msg t (Aggregate_flag str) o1 = Some (Aggregate_flag str, put str o1)"
| "format_flag gmtime msg t Color_start_flag o1 = map_option (Pair Color_start_flag) (color_start_flag msg t o1)"
| "format_flag gmtime msg t Color_stop_flag o1 = map_option (Pair Color_stop_flag) (color_stop_flag msg t o1)"

text \<open>\<open>clone\<close> of the flags, at the time \<open>now\<close>: only the time zone keeps its state.\<close>

fun clone_flag :: "int \<Rightarrow> log_flag \<Rightarrow> log_flag" where
  "clone_flag now (Elapsed_flag unit pad st) = Elapsed_flag unit pad now"
| "clone_flag now (Default_flag st) = Default_flag (0, [])"
| "clone_flag now f = f"

section \<open>Patterns\<close>

definition isdigit :: "byte \<Rightarrow> bool" where
  "isdigit ch \<longleftrightarrow> 0x30 \<le> ch \<and> ch \<le> 0x39"

text \<open>The loop over the digits of a width: the width, a \<open>size_t\<close>, and what is left of the pattern.\<close>

fun width_loop :: "nat \<Rightarrow> byte list \<Rightarrow> nat \<times> byte list" where
  "width_loop width [] = (width, [])"
| "width_loop width (ch # str) =
     (if isdigit ch then width_loop ((width * 10 + (unat ch - 48)) mod size_t_modulus) str else (width, ch # str))"

definition padding_side :: "byte list \<Rightarrow> pad_side \<times> byte list" where
  "padding_side str = (case str of [] \<Rightarrow> (Left_side, [])
     | ch # rs \<Rightarrow> if ch = 0x2d then (Right_side, rs) else if ch = 0x3d then (Center_side, rs) else (Left_side, str))"

definition padding_truncate :: "byte list \<Rightarrow> bool \<times> byte list" where
  "padding_truncate str = (case str of [] \<Rightarrow> (False, []) | ch # rs \<Rightarrow> if ch = 0x21 then (True, rs) else (False, str))"

definition handle_padding :: "byte list \<Rightarrow> log_padding \<times> byte list" where
  "handle_padding str =
     (if str = [] then (no_padding, [])
      else case padding_side str of (side, str) \<Rightarrow>
        if str = [] \<or> \<not> isdigit (hd str) then (no_padding, str)
        else case width_loop (unat (hd str) - 48) (tl str) of (width, str) \<Rightarrow>
          case padding_truncate str of (trunc, str) \<Rightarrow>
            (\<lparr>p_width = min width 64, p_side = side, p_truncate = trunc, p_enabled = True\<rparr>, str))"

record log_formatter =
  f_time_type :: log_time_type
  f_need_localtime :: bool
  f_cached_tm :: tm
  f_last_secs :: int
  f_custom :: "byte \<Rightarrow> (log_padding \<Rightarrow> log_flag) option"
  f_flags :: "log_flag list"

text \<open>The classes made for a flag character, and whether they need the local time.\<close>

definition plain_flag :: "byte \<Rightarrow> (flag_class \<times> bool) option" where
  "plain_flag ch =
     (if ch = 0x6e then Some (Name_class, False) else if ch = 0x6c then Some (Level_class, False)
      else if ch = 0x4c then Some (Short_level_class, False) else if ch = 0x74 then Some (Tid_class, False)
      else if ch = 0x76 then Some (Value_class, False) else if ch = 0x61 then Some (Short_weekday_class, True)
      else if ch = 0x41 then Some (Weekday_class, True) else if ch = 0x62 \<or> ch = 0x68 then Some (Short_month_class, True)
      else if ch = 0x42 then Some (Month_name_class, True) else if ch = 0x63 then Some (Date_time_class, True)
      else if ch = 0x43 then Some (Short_year_class, True) else if ch = 0x59 then Some (Year_class, True)
      else if ch = 0x44 \<or> ch = 0x78 then Some (Short_date_class, True) else if ch = 0x6d then Some (Month_class, True)
      else if ch = 0x64 then Some (Day_class, True) else if ch = 0x48 then Some (Hour24_class, True)
      else if ch = 0x49 then Some (Hour12_class, True) else if ch = 0x4d then Some (Min_class, True)
      else if ch = 0x53 then Some (Second_class, True) else if ch = 0x65 then Some (Millis_class, False)
      else if ch = 0x66 then Some (Micros_class, False) else if ch = 0x46 then Some (Nanosecond_class, False)
      else if ch = 0x45 then Some (Timestamp_class, False) else if ch = 0x70 then Some (Noon_class, True)
      else if ch = 0x72 then Some (Clock_hour12_class, True) else if ch = 0x52 then Some (Short_clock_class, True)
      else if ch = 0x54 \<or> ch = 0x58 then Some (Clock_hour24_class, True)
      else if ch = 0x40 then Some (Source_location_class, False) else if ch = 0x73 then Some (Short_filename_class, False)
      else if ch = 0x67 then Some (Filename_class, False) else if ch = 0x23 then Some (Line_class, False)
      else if ch = 0x21 then Some (Func_class, False) else None)"

definition elapsed_unit :: "byte \<Rightarrow> int option" where
  "elapsed_unit ch = (if ch = 0x75 then Some 1 else if ch = 0x69 then Some 1000 else if ch = 0x6f then Some 1000000
     else if ch = 0x4f then Some 1000000000 else None)"

text \<open>\<open>handle_flag\<close>: the flags it appends and whether it asks for the local time.\<close>

definition handle_flag :: "int \<Rightarrow> int \<Rightarrow> (byte \<Rightarrow> (log_padding \<Rightarrow> log_flag) option) \<Rightarrow> byte \<Rightarrow> log_padding \<Rightarrow> log_flag list \<times> bool" where
  "handle_flag now pid custom flag padding = (case custom flag of
       Some create \<Rightarrow> ([create padding], False)
     | None \<Rightarrow> (case plain_flag flag of
           Some (c, need) \<Rightarrow> ([Class_flag c padding], need)
         | None \<Rightarrow>
             if flag = 0x7a then ([Timezone_flag padding (0, 0)], True)
             else if flag = 0x50 then ([Pid_flag pid padding], False)
             else if flag = 0x5e then ([Color_start_flag], False)
             else if flag = 0x24 then ([Color_stop_flag], False)
             else if flag = 0x25 then ([Ch_flag 0x25], False)
             else (case elapsed_unit flag of
                 Some unit \<Rightarrow> ([Elapsed_flag unit padding now], False)
               | None \<Rightarrow>
                   if \<not> p_truncate padding then ([Aggregate_flag [0x25, flag]], False)
                   else ([Class_flag Func_class (padding\<lparr>p_truncate := False\<rparr>), Aggregate_flag [flag]], False))))"

lemma width_loop_shorter: "length (snd (width_loop w str)) \<le> length str"
  by (induction str arbitrary: w) (simp_all add: le_SucI)

lemma handle_padding_shorter: "length (snd (handle_padding str)) \<le> length str"
proof -
  have t: "length (snd (padding_truncate xs)) \<le> length xs" for xs by (simp add: padding_truncate_def split: list.splits)
  have s: "length (snd (padding_side xs)) \<le> length xs" for xs by (simp add: padding_side_def split: list.splits)
  let ?s = "snd (padding_side str)"
  have "length (snd (padding_truncate (snd (width_loop (unat (hd ?s) - 48) (tl ?s))))) \<le> length ?s"
    using t width_loop_shorter [of "unat (hd ?s) - 48" "tl ?s"] le_trans by fastforce
  then show ?thesis using s [of str] by (simp add: handle_padding_def split_beta)
qed

text \<open>The loop of \<open>set_pattern\<close>, with the characters collected since the last flag.\<close>

function pattern_loop :: "int \<Rightarrow> int \<Rightarrow> (byte \<Rightarrow> (log_padding \<Rightarrow> log_flag) option) \<Rightarrow> byte list \<Rightarrow> byte list
     \<Rightarrow> log_flag list \<times> bool \<Rightarrow> log_flag list \<times> bool" where
  "pattern_loop now pid custom user_chars [] acc = acc"
| "pattern_loop now pid custom user_chars (ch # str) (flags, need) =
     (if ch = 0x25
      then let flags = (if user_chars \<noteq> [] then flags @ [Aggregate_flag user_chars] else flags)
           in case handle_padding str of
                (padding, []) \<Rightarrow> (flags, need)
              | (padding, flag # rest) \<Rightarrow>
                  (case handle_flag now pid custom flag padding of
                     (new, need') \<Rightarrow> pattern_loop now pid custom [] rest (flags @ new, need \<or> need'))
      else pattern_loop now pid custom (user_chars @ [ch]) str (flags, need))"
  by pat_completeness auto
termination
proof (relation "measure (\<lambda>(now, pid, custom, user_chars, str, acc). length str)", goal_cases)
  case (2 now pid custom user_chars ch str flags need x xa y x21 x22 xb ya)
  then show ?case using handle_padding_shorter [of str] by (auto dest: sym)
qed auto

definition set_pattern :: "int \<Rightarrow> int \<Rightarrow> byte list \<Rightarrow> log_formatter \<Rightarrow> log_formatter" where
  "set_pattern now pid pattern f =
     (case pattern_loop now pid (f_custom f) [] pattern ([], False) of
        (flags, need) \<Rightarrow> f\<lparr>f_flags := flags, f_need_localtime := need\<rparr>)"

definition tm_zero :: tm where
  "tm_zero = \<lparr>tm_sec = 0, tm_min = 0, tm_hour = 0, tm_mday = 0, tm_mon = 0, tm_year = 0, tm_wday = 0, tm_yday = 0\<rparr>"

definition default_formatter :: "log_time_type \<Rightarrow> log_formatter" where
  "default_formatter tp = \<lparr>f_time_type = tp, f_need_localtime = True, f_cached_tm = tm_zero, f_last_secs = 0,
     f_custom = (\<lambda>_. None), f_flags = [Default_flag (0, [])]\<rparr>"

definition pattern_formatter :: "int \<Rightarrow> int \<Rightarrow> byte list \<Rightarrow> log_time_type \<Rightarrow> log_formatter" where
  "pattern_formatter now pid pattern tp = set_pattern now pid pattern
     \<lparr>f_time_type = tp, f_need_localtime = False, f_cached_tm = tm_zero, f_last_secs = 0, f_custom = (\<lambda>_. None), f_flags = []\<rparr>"

definition add_custom_flag :: "byte \<Rightarrow> (log_padding \<Rightarrow> log_flag) \<Rightarrow> log_formatter \<Rightarrow> log_formatter" where
  "add_custom_flag ch func f = f\<lparr>f_custom := (f_custom f)(ch \<mapsto> func)\<rparr>"

definition clone_formatter :: "int \<Rightarrow> log_formatter \<Rightarrow> log_formatter" where
  "clone_formatter now f = \<lparr>f_time_type = f_time_type f, f_need_localtime = f_need_localtime f, f_cached_tm = tm_zero,
     f_last_secs = 0, f_custom = f_custom f, f_flags = map (clone_flag now) (f_flags f)\<rparr>"

section \<open>Formatting\<close>

fun format_flags :: "(int \<Rightarrow> tm) \<Rightarrow> log_message \<Rightarrow> tm \<Rightarrow> log_flag list \<Rightarrow> log_out \<Rightarrow> (log_flag list \<times> log_out) option" where
  "format_flags gmtime msg t [] o1 = Some ([], o1)"
| "format_flags gmtime msg t (f # fs) o1 =
     Option.bind (format_flag gmtime msg t f o1) (\<lambda>(f, o1). map_option (\<lambda>(fs, o1). (f # fs, o1)) (format_flags gmtime msg t fs o1))"

definition update_time :: "(int \<Rightarrow> tm) \<Rightarrow> (int \<Rightarrow> tm) \<Rightarrow> log_message \<Rightarrow> log_formatter \<Rightarrow> log_formatter" where
  "update_time localtime gmtime msg f =
     (if f_need_localtime f \<and> time_seconds (msg_point msg) \<noteq> f_last_secs f
      then f\<lparr>f_cached_tm := (if f_time_type f = Local_time then localtime (msg_point msg) else gmtime (msg_point msg)),
             f_last_secs := time_seconds (msg_point msg)\<rparr>
      else f)"

definition log_format :: "(int \<Rightarrow> tm) \<Rightarrow> (int \<Rightarrow> tm) \<Rightarrow> log_message \<Rightarrow> log_formatter \<Rightarrow> log_out \<Rightarrow> (log_formatter \<times> log_out) option" where
  "log_format localtime gmtime msg f o1 =
     (let f = update_time localtime gmtime msg f
      in map_option (\<lambda>(fs, o1). (f\<lparr>f_flags := fs\<rparr>, put [0x0a] o1)) (format_flags gmtime msg (f_cached_tm f) (f_flags f) o1))"

section \<open>Every field is padded alike\<close>

text \<open>All flag classes but two announce to the padder the size of the text they write, so a padded flag writes its
  text aligned in, or cut to, the requested width, and leaves what is already in the buffer alone.\<close>

theorem flag_padding_uniform:
  assumes "c \<noteq> Date_time_class" "c \<noteq> Short_date_class" "valid_tm t" "msg_name msg \<noteq> None"
    "10 ^ 18 \<le> msg_point msg" "msg_point msg < 10 ^ 19" "0 \<le> msg_tid msg" "msg_tid msg < 2 ^ 31"
  shows "\<exists>text. class_format c no_padding msg t o1 = Some (put text o1) \<and>
     (\<forall>pad. p_enabled pad \<and> p_width pad \<le> 64 \<and> length (lo_buf o1) + length text < 2 ^ 31 \<longrightarrow>
        class_format c pad msg t o1 = Some (put (field pad text) o1))"
proof -
  have p: "0 \<le> msg_point msg" using assms(5) order_trans [of 0 "10 ^ 18"] by simp
  obtain n where n: "msg_name msg = Some n" using assms(4) by auto
  have "announces (class_format c) msg t"
    using assms(1,2) announces_text [where msg = msg and t = t] n announces_clock [OF assms(3), of msg]
      announces_fraction [OF p, of t] announces_timestamp [OF assms(5,6), of t] announces_tid [OF assms(7,8), of t]
    by (cases c) simp_all
  then show ?thesis by (rule announces_field)
qed

definition sample_tm :: tm where
  "sample_tm = \<lparr>tm_sec = 7, tm_min = 5, tm_hour = 14, tm_mday = 9, tm_mon = 1, tm_year = 124, tm_wday = 5, tm_yday = 39\<rparr>"

definition sample_message :: log_message where
  "sample_message = \<lparr>msg_name = Some (bytes_of ''net''), msg_level = Info, msg_point = 1707487507123456789, msg_tid = 77,
     msg_file = bytes_of ''src/a.cpp'', msg_func = bytes_of ''main'', msg_line = 12, msg_buf = bytes_of ''hi''\<rparr>"

definition empty_out :: log_out where
  "empty_out = \<lparr>lo_buf = [], color_start = 0, color_stop = 0\<rparr>"

theorem flag_padding_uniform_witness:
  "\<exists>text. class_format Clock_hour24_class no_padding sample_message sample_tm empty_out = Some (put text empty_out) \<and>
     (\<forall>pad. p_enabled pad \<and> p_width pad \<le> 64 \<and> length (lo_buf empty_out) + length text < 2 ^ 31 \<longrightarrow>
        class_format Clock_hour24_class pad sample_message sample_tm empty_out = Some (put (field pad text) empty_out))"
  by (rule flag_padding_uniform) (simp_all add: valid_tm_def sample_tm_def sample_message_def)

text \<open>The date flag writes eight characters but announces ten: with truncation to a width below ten it cuts
  \<open>10 - width\<close> characters from the end of the whole buffer, two more than the width asks for, and throws
  when the buffer has fewer.\<close>

theorem short_date_cut_too_short:
  assumes "valid_tm t" "p_enabled pad" "p_truncate pad" "p_width pad < 10" "length (lo_buf o1) + 8 < 2 ^ 31"
  shows "\<exists>text. length text = 8 \<and> class_format Short_date_class no_padding msg t o1 = Some (put text o1) \<and>
     class_format Short_date_class pad msg t o1 =
       (if length (lo_buf o1) + p_width pad < 2 then None
        else Some (o1\<lparr>lo_buf := take (length (lo_buf o1) + p_width pad - 2) (lo_buf o1 @ text)\<rparr>))"
proof -
  define tx where "tx = pad2 (tm_mon t + 1) @ [0x2f] @ pad2 (tm_mday t) @ [0x2f] @ pad2 (tm_year t smod 100)"
  have "tm_year t smod 100 = tm_year t mod 100" using assms(1) nonneg_signed [of "tm_year t" 100] by (simp add: valid_tm_def)
  then have l: "length tx = 8" using assms(1) by (simp add: tx_def pad2_length valid_tm_def)
  define r where "r = int (p_width pad) - 10"
  have r: "i32 r = r" "r < 0" using assms(4) by (simp_all add: r_def i32_small)
  have s: "i32 (int (length (lo_buf o1 @ tx))) = int (length (lo_buf o1)) + 8" using assms(5) l by (simp add: i32_small)
  have n: "nat (int (length (lo_buf o1)) + 8 + r) = length (lo_buf o1) + p_width pad - 2"
      "int (length (lo_buf o1)) + 8 + r < 0 \<longleftrightarrow> length (lo_buf o1) + p_width pad < 2" by (auto simp: r_def)
  have "padded pad 10 tx o1 = (if length (lo_buf o1) + p_width pad < 2 then None
        else Some (o1\<lparr>lo_buf := take (length (lo_buf o1) + p_width pad - 2) (lo_buf o1 @ tx)\<rparr>))"
    using assms(2,3) r s n by (simp add: padded_def pad_before_def pad_after_def Let_def r_def [symmetric] put_def del: length_append)
  moreover have "class_format Short_date_class q msg t o1 = padded q 10 tx o1" for q by (simp add: short_date_flag_def tx_def)
  ultimately show ?thesis using l by (intro exI [of _ tx]) (simp add: padded_def no_padding_def)
qed

definition cut_padding :: "nat \<Rightarrow> log_padding" where
  "cut_padding w = \<lparr>p_width = w, p_side = Left_side, p_truncate = True, p_enabled = True\<rparr>"

theorem short_date_cut_too_short_witness:
  "class_format Short_date_class (cut_padding 1) sample_message sample_tm empty_out = None"
  using short_date_cut_too_short [of sample_tm "cut_padding 1" empty_out sample_message]
  by (auto simp: valid_tm_def sample_tm_def cut_padding_def empty_out_def)

section \<open>What a pattern means\<close>

text \<open>A pattern written out: each item is literal text, an optional padding and a flag character.\<close>

record pattern_item =
  it_text :: "byte list"
  it_padding :: "log_padding option"
  it_flag :: byte

fun show_side :: "pad_side \<Rightarrow> byte list" where
  "show_side Left_side = []"
| "show_side Right_side = [0x2d]"
| "show_side Center_side = [0x3d]"

definition show_padding :: "log_padding option \<Rightarrow> byte list" where
  "show_padding p = (case p of None \<Rightarrow> []
     | Some q \<Rightarrow> show_side (p_side q) @ decimal (p_width q) @ (if p_truncate q then [0x21] else []))"

definition show_item :: "pattern_item \<Rightarrow> byte list" where
  "show_item i = it_text i @ [0x25] @ show_padding (it_padding i) @ [it_flag i]"

text \<open>The padding and the flag character can be told apart.\<close>

definition item_ok :: "pattern_item \<Rightarrow> bool" where
  "item_ok i \<longleftrightarrow> 0x25 \<notin> set (it_text i) \<and> \<not> isdigit (it_flag i) \<and>
     (case it_padding i of None \<Rightarrow> it_flag i \<noteq> 0x2d \<and> it_flag i \<noteq> 0x3d
        | Some q \<Rightarrow> p_enabled q \<and> p_width q \<le> 64 \<and> (p_truncate q \<or> it_flag i \<noteq> 0x21))"

definition item_padding :: "pattern_item \<Rightarrow> log_padding" where
  "item_padding i = (case it_padding i of None \<Rightarrow> no_padding | Some q \<Rightarrow> q)"

definition item_flags :: "int \<Rightarrow> int \<Rightarrow> (byte \<Rightarrow> (log_padding \<Rightarrow> log_flag) option) \<Rightarrow> pattern_item \<Rightarrow> log_flag list" where
  "item_flags now pid custom i =
     (if it_text i = [] then [] else [Aggregate_flag (it_text i)]) @ fst (handle_flag now pid custom (it_flag i) (item_padding i))"

lemma width_loop_append:
  "\<forall>c \<in> set ds. isdigit c \<Longrightarrow> width_loop w (ds @ rest) = width_loop (fst (width_loop w ds)) rest"
  by (induction ds arbitrary: w) auto

lemma decimal_is_digit: "\<forall>c \<in> set (decimal n). isdigit c"
  using decimal_digits by (auto simp: isdigit_def)

lemma width_loop_decimal: "n < size_t_modulus \<Longrightarrow> fst (width_loop 0 (decimal n)) = n"
proof (induction n rule: decimal.induct)
  case (1 n)
  have d: "unat (48 + (of_nat k :: byte)) - 48 = k" "isdigit (48 + of_nat k)" if "k < 10" for k
    using that by (simp_all add: isdigit_def word_le_nat_alt unat_word_ariths unat_of_nat)
  show ?case
  proof (cases "n < 10")
    case True
    then show ?thesis using d [of n] 1(2) by (subst decimal.simps) simp
  next
    case False
    then have "fst (width_loop 0 (decimal (n div 10))) = n div 10" using 1 by simp
    then show ?thesis
      using False d [of "n mod 10"] 1(2) width_loop_append [OF decimal_is_digit, of 0 "n div 10"] by (subst decimal.simps) simp
  qed
qed

lemma width_loop_stop: "str = [] \<or> \<not> isdigit (hd str) \<Longrightarrow> width_loop w str = (w, str)"
  by (cases str) auto

lemma handle_padding_shown:
  assumes "item_ok i"
  shows "handle_padding (show_padding (it_padding i) @ it_flag i # rest) = (item_padding i, it_flag i # rest)"
proof (cases "it_padding i")
  case None
  then show ?thesis using assms by (simp add: handle_padding_def show_padding_def item_ok_def item_padding_def padding_side_def)
next
  case (Some q)
  let ?d = "decimal (p_width q)" and ?e = "(if p_truncate q then [0x21] else []) @ it_flag i # rest"
  have dig: "isdigit (hd ?d)" "?d \<noteq> []" using decimal_is_digit [of "p_width q"] by (simp_all add: hd_in_set)
  then have nd: "hd ?d \<noteq> 0x2d" "hd ?d \<noteq> 0x3d" by (auto simp: isdigit_def)
  have side: "padding_side (show_side (p_side q) @ ?d @ ?e) = (p_side q, ?d @ ?e)"
    using dig nd by (cases "p_side q"; cases "?d") (simp_all add: padding_side_def)
  have "\<not> isdigit (hd ?e)" using assms by (simp add: item_ok_def isdigit_def)
  then have stop: "width_loop w ?e = (w, ?e)" for w by (rule width_loop_stop [OF disjI2])
  have w: "p_width q < size_t_modulus" using assms Some by (simp add: item_ok_def)
  have "width_loop (unat (hd ?d) - 48) (tl ?d @ ?e) = width_loop 0 (?d @ ?e)"
  proof -
    have "(unat (hd ?d) - 48) mod size_t_modulus = unat (hd ?d) - 48" 
    proof -
      have "unat (hd ?d) < 2 ^ LENGTH(8)" by (rule unsigned_less)
      then show ?thesis by simp
    qed
    then show ?thesis using dig by (cases ?d) simp_all
  qed
  also have "\<dots> = (p_width q, ?e)" using width_loop_append [OF decimal_is_digit] width_loop_decimal [OF w] stop by simp
  finally have loop: "width_loop (unat (hd ?d) - 48) (tl ?d @ ?e) = (p_width q, ?e)" .
  have tr: "padding_truncate ?e = (p_truncate q, it_flag i # rest)"
    using assms Some by (auto simp: padding_truncate_def item_ok_def)
  have ne: "show_side (p_side q) @ ?d @ ?e \<noteq> []" "?d @ ?e \<noteq> []" using dig by simp_all
  have hd: "hd (?d @ ?e) = hd ?d" "tl (?d @ ?e) = tl ?d @ ?e" using dig by simp_all
  have "handle_padding (show_side (p_side q) @ ?d @ ?e) =
      (\<lparr>p_width = min (p_width q) 64, p_side = p_side q, p_truncate = p_truncate q, p_enabled = True\<rparr>, it_flag i # rest)"
    unfolding handle_padding_def if_not_P [OF ne(1)] side prod.case hd loop tr using dig by simp
  then show ?thesis using assms Some by (simp add: show_padding_def item_ok_def item_padding_def min_absorb1)
qed

lemma pattern_loop_literal:
  "0x25 \<notin> set l \<Longrightarrow> pattern_loop now pid custom uc (l @ str) acc = pattern_loop now pid custom (uc @ l) str acc"
  by (induction l arbitrary: uc) (cases acc; auto)+

lemma pattern_loop_item:
  assumes "item_ok i"
  shows "pattern_loop now pid custom [] (show_item i @ rest) (flags, need) =
     pattern_loop now pid custom [] rest
       (flags @ item_flags now pid custom i, need \<or> snd (handle_flag now pid custom (it_flag i) (item_padding i)))"
proof -
  have "0x25 \<notin> set (it_text i)" using assms by (simp add: item_ok_def)
  then have "pattern_loop now pid custom [] (show_item i @ rest) (flags, need) =
      pattern_loop now pid custom (it_text i) (0x25 # show_padding (it_padding i) @ it_flag i # rest) (flags, need)"
    by (simp add: show_item_def pattern_loop_literal)
  then show ?thesis using handle_padding_shown [OF assms] by (simp add: item_flags_def split_beta)
qed

lemma pattern_loop_items:
  assumes "\<forall>i \<in> set items. item_ok i" "0x25 \<notin> set rest"
  shows "pattern_loop now pid custom [] (concat (map show_item items) @ rest) (flags, need) =
     (flags @ concat (map (item_flags now pid custom) items),
      need \<or> (\<exists>i \<in> set items. snd (handle_flag now pid custom (it_flag i) (item_padding i))))"
  using assms
proof (induction items arbitrary: flags need)
  case Nil
  then show ?case using pattern_loop_literal [of rest now pid custom "[]" "[]"] by simp
next
  case (Cons i items)
  then show ?case using pattern_loop_item [of i now pid custom "concat (map show_item items) @ rest"] by auto
qed

text \<open>A pattern means what its items say, in their order: each literal text is a flag of its own and each
  flag character makes the flags of \<open>handle_flag\<close> with the padding written before it; the local time is computed when one
  of them needs it.  Text after the last flag is lost: it is collected but never becomes a flag.\<close>

theorem pattern_meaning:
  assumes "\<forall>i \<in> set items. item_ok i" "0x25 \<notin> set rest"
  shows "set_pattern now pid (concat (map show_item items) @ rest) f =
     f\<lparr>f_flags := concat (map (item_flags now pid (f_custom f)) items),
       f_need_localtime := \<exists>i \<in> set items. snd (handle_flag now pid (f_custom f) (it_flag i) (item_padding i))\<rparr>"
  using pattern_loop_items [OF assms, of now pid "f_custom f" "[]" False] by (simp add: set_pattern_def)

definition sample_items :: "pattern_item list" where
  "sample_items = [\<lparr>it_text = [0x5b], it_padding = Some (cut_padding 8), it_flag = 0x6c\<rparr>,
     \<lparr>it_text = [0x5d, 0x20], it_padding = None, it_flag = 0x76\<rparr>]"

theorem pattern_meaning_witness:
  "f_flags (pattern_formatter 0 1 (bytes_of ''[%8!l] %v.'') Utc_time) =
     [Aggregate_flag [0x5b], Class_flag Level_class (cut_padding 8), Aggregate_flag [0x5d, 0x20], Class_flag Value_class no_padding]"
proof -
  have s: "bytes_of ''[%8!l] %v.'' = concat (map show_item sample_items) @ [0x2e]"
    by (simp add: sample_items_def show_item_def show_padding_def cut_padding_def bytes_of_def decimal.simps)
  have ok: "\<forall>i \<in> set sample_items. item_ok i" by (simp add: sample_items_def item_ok_def isdigit_def cut_padding_def)
  show ?thesis
    unfolding pattern_formatter_def s by (subst pattern_meaning [OF ok])
      (simp_all add: sample_items_def item_flags_def handle_flag_def plain_flag_def item_padding_def)
qed

section \<open>The caches are invisible\<close>

text \<open>Flags whose text depends on the message and its broken-down time alone.\<close>

fun timeless :: "log_flag \<Rightarrow> bool" where
  "timeless (Timezone_flag pad st) = False"
| "timeless (Elapsed_flag unit pad st) = False"
| "timeless f = True"

fun forget :: "log_flag \<Rightarrow> log_flag" where
  "forget (Default_flag st) = Default_flag (0, [])"
| "forget f = f"

text \<open>A cached date is the text of the broken-down time of its second.\<close>

fun cache_right :: "(int \<Rightarrow> tm) \<Rightarrow> log_flag \<Rightarrow> bool" where
  "cache_right T (Default_flag (secs, datetime)) \<longleftrightarrow> datetime = [] \<or> datetime = datetime_text (T secs)"
| "cache_right T f \<longleftrightarrow> True"

text \<open>The broken-down time of a second; the conversions depend on the second only.\<close>

definition formatter_time :: "(int \<Rightarrow> tm) \<Rightarrow> (int \<Rightarrow> tm) \<Rightarrow> log_formatter \<Rightarrow> int \<Rightarrow> tm" where
  "formatter_time L G f secs =
     (if f_need_localtime f then (if f_time_type f = Local_time then L secs else G secs) else f_cached_tm f)"

text \<open>A line without any cache.\<close>

definition plain_line :: "(int \<Rightarrow> tm) \<Rightarrow> (int \<Rightarrow> tm) \<Rightarrow> log_formatter \<Rightarrow> log_message \<Rightarrow> log_out \<Rightarrow> log_out option" where
  "plain_line L G f msg o1 =
     map_option (\<lambda>(fs, o1). put [0x0a] o1)
       (format_flags (\<lambda>p. G (time_seconds p)) msg (formatter_time L G f (time_seconds (msg_point msg))) (map forget (f_flags f)) o1)"

definition caches_right :: "(int \<Rightarrow> tm) \<Rightarrow> (int \<Rightarrow> tm) \<Rightarrow> log_formatter \<Rightarrow> bool" where
  "caches_right L G f \<longleftrightarrow> (\<forall>x \<in> set (f_flags f). timeless x \<and> cache_right (formatter_time L G f) x) \<and>
     (f_need_localtime f \<longrightarrow> f_last_secs f = 0 \<or> f_cached_tm f = formatter_time L G f (f_last_secs f))"

lemma format_flag_forget:
  assumes "timeless f" "cache_right T f" "t = T (time_seconds (msg_point msg))"
  shows "map_option snd (format_flag gmtime msg t f o1) = map_option snd (format_flag gmtime msg t (forget f) o1) \<and>
     (\<forall>f' o2. format_flag gmtime msg t f o1 = Some (f', o2) \<longrightarrow> timeless f' \<and> cache_right T f' \<and> forget f' = forget f)"
proof (cases f)
  case (Default_flag st)
  obtain s d where st: "st = (s, d)" by fastforce
  let ?s = "time_seconds (msg_point msg)"
  have c: "snd (cache_time ?s t (s, d)) = datetime_text t" "cache_right T (Default_flag (cache_time ?s t (s, d)))"
      "cache_time ?s t (0, []) = (?s, datetime_text t)"
    using assms(2,3) Default_flag st by (auto simp: cache_time_def)
  show ?thesis unfolding Default_flag st format_flag.simps forget.simps default_flag_def Let_def c(1,3) snd_conv using c(2) by simp
qed (use assms in auto)

lemma format_flags_forget:
  assumes "\<forall>x \<in> set fs. timeless x \<and> cache_right T x" "t = T (time_seconds (msg_point msg))"
  shows "map_option snd (format_flags gmtime msg t fs o1) = map_option snd (format_flags gmtime msg t (map forget fs) o1) \<and>
     (\<forall>fs' o2. format_flags gmtime msg t fs o1 = Some (fs', o2) \<longrightarrow>
        (\<forall>x \<in> set fs'. timeless x \<and> cache_right T x) \<and> map forget fs' = map forget fs)"
  using assms(1)
proof (induction fs arbitrary: o1)
  case (Cons f fs)
  have f: "map_option snd (format_flag gmtime msg t f o1) = map_option snd (format_flag gmtime msg t (forget f) o1)"
      "\<And>f' o2. format_flag gmtime msg t f o1 = Some (f', o2) \<Longrightarrow> timeless f' \<and> cache_right T f' \<and> forget f' = forget f"
    using format_flag_forget [of f T t msg gmtime o1] Cons.prems assms(2) by auto
  have "\<And>x y. map_option snd x = map_option snd y \<Longrightarrow> (x = None \<and> y = None) \<or> (\<exists>a b c. x = Some (a, c) \<and> y = Some (b, c))"
    by (auto simp: map_option_case split: option.splits)
  from this [OF f(1)] show ?case
  proof (elim disjE exE conjE)
    fix a b o2 assume fa: "format_flag gmtime msg t f o1 = Some (a, o2)" and fb: "format_flag gmtime msg t (forget f) o1 = Some (b, o2)"
    have m: "map_option snd (map_option (\<lambda>(fs, o1). (g # fs, o1)) z) = map_option snd z" for g :: log_flag and z :: "(log_flag list \<times> log_out) option"
      by (cases z) auto
    have ih: "map_option snd (format_flags gmtime msg t fs o2) = map_option snd (format_flags gmtime msg t (map forget fs) o2)"
        "\<And>fs' o3. format_flags gmtime msg t fs o2 = Some (fs', o3) \<Longrightarrow>
          (\<forall>x \<in> set fs'. timeless x \<and> cache_right T x) \<and> map forget fs' = map forget fs"
      using Cons.IH [of o2] Cons.prems by auto
    show ?thesis
      using f(2) [OF fa] ih(2) unfolding format_flags.simps list.map fa fb bind.simps prod.case m by (auto simp: ih(1))
  qed simp
qed simp

lemma log_format_uncached:
  assumes "caches_right L G f" "time_seconds (msg_point msg) \<noteq> 0"
  shows "map_option snd (log_format (\<lambda>p. L (time_seconds p)) (\<lambda>p. G (time_seconds p)) msg f o1) = plain_line L G f msg o1 \<and>
     (\<forall>f' o2. log_format (\<lambda>p. L (time_seconds p)) (\<lambda>p. G (time_seconds p)) msg f o1 = Some (f', o2) \<longrightarrow>
        caches_right L G f' \<and> (\<forall>m o3. plain_line L G f' m o3 = plain_line L G f m o3))"
proof -
  let ?g = "\<lambda>p. G (time_seconds p)"
  define u where "u = update_time (\<lambda>p. L (time_seconds p)) ?g msg f"
  have u: "f_flags u = f_flags f" "f_need_localtime u = f_need_localtime f" "f_time_type u = f_time_type f"
    by (simp_all add: u_def update_time_def)
  have T: "formatter_time L G u = formatter_time L G f" "f_cached_tm u = formatter_time L G f (time_seconds (msg_point msg))"
      "f_need_localtime f \<Longrightarrow> f_last_secs u = time_seconds (msg_point msg)"
    using assms by (auto simp: u_def update_time_def formatter_time_def caches_right_def fun_eq_iff)
  have "\<forall>x \<in> set (f_flags u). timeless x \<and> cache_right (formatter_time L G f) x"
    using assms(1) unfolding u caches_right_def by blast
  note k = format_flags_forget [OF this T(2), of ?g o1]
  have swap: "map_option snd (map_option (\<lambda>(fs, o1). (h fs, put [0x0a] o1)) z) = map_option (put [0x0a]) (map_option snd z)"
    "map_option (\<lambda>(fs, o1). put [0x0a] o1) z = map_option (put [0x0a]) (map_option snd z)"
    for h :: "log_flag list \<Rightarrow> log_formatter" and z :: "(log_flag list \<times> log_out) option" by (cases z; auto)+
  have out: "map_option snd (log_format (\<lambda>p. L (time_seconds p)) ?g msg f o1) = plain_line L G f msg o1"
    unfolding log_format_def Let_def u_def [symmetric] plain_line_def swap using k T(2) u by simp
  have "caches_right L G f' \<and> (\<forall>m o3. plain_line L G f' m o3 = plain_line L G f m o3)"
    if r: "log_format (\<lambda>p. L (time_seconds p)) ?g msg f o1 = Some (f', o2)" for f' o2
  proof -
    obtain fs o3 where fs: "format_flags ?g msg (f_cached_tm u) (f_flags u) o1 = Some (fs, o3)" "f' = u\<lparr>f_flags := fs\<rparr>"
      using r unfolding log_format_def Let_def u_def [symmetric] by auto
    have s: "\<forall>x \<in> set fs. timeless x \<and> cache_right (formatter_time L G f) x" "map forget fs = map forget (f_flags f)"
      using k fs(1) u(1) by auto
    have T': "formatter_time L G f' = formatter_time L G f" unfolding fs(2) T(1) [symmetric] by (simp add: formatter_time_def fun_eq_iff)
    show ?thesis using s T T' u unfolding caches_right_def plain_line_def T' by (simp add: fs(2))
  qed
  then show ?thesis using out by blast
qed

text \<open>Formatting messages one after the other, the formatter carrying its caches along.\<close>

fun log_lines :: "(int \<Rightarrow> tm) \<Rightarrow> (int \<Rightarrow> tm) \<Rightarrow> log_formatter \<Rightarrow> log_message list \<Rightarrow> log_out list option" where
  "log_lines localtime gmtime f [] = Some []"
| "log_lines localtime gmtime f (m # ms) =
     Option.bind (log_format localtime gmtime m f \<lparr>lo_buf = [], color_start = 0, color_stop = 0\<rparr>)
       (\<lambda>(f, l). map_option (Cons l) (log_lines localtime gmtime f ms))"

fun plain_lines :: "(int \<Rightarrow> tm) \<Rightarrow> (int \<Rightarrow> tm) \<Rightarrow> log_formatter \<Rightarrow> log_message list \<Rightarrow> log_out list option" where
  "plain_lines L G f [] = Some []"
| "plain_lines L G f (m # ms) =
     Option.bind (plain_line L G f m \<lparr>lo_buf = [], color_start = 0, color_stop = 0\<rparr>)
       (\<lambda>l. map_option (Cons l) (plain_lines L G f ms))"

text \<open>C22: The formatter converts a time point once a second and \<open>default_flag\<close> keeps the printed date of the last second; no
  sequence of messages in any order of time shows it, for every formatter made of flags other than the offset from UTC (\<open>%z\<close>, which keeps a
  cache of its own) and the four elapsed times (which are state by intention), as long as the conversions depend on the second only and no message
  is from the second 0, which the formatter takes for its own initial state.\<close>

theorem log_caches_invisible:
  assumes "caches_right L G f" "\<forall>m \<in> set ms. time_seconds (msg_point m) \<noteq> 0"
  shows "log_lines (\<lambda>p. L (time_seconds p)) (\<lambda>p. G (time_seconds p)) f ms = plain_lines L G f ms"
  using assms
proof (induction ms arbitrary: f)
  case (Cons m ms)
  let ?z = "\<lparr>lo_buf = [], color_start = 0, color_stop = 0\<rparr>"
  have m: "time_seconds (msg_point m) \<noteq> 0" using Cons.prems by simp
  note k = log_format_uncached [OF Cons.prems(1) m, of ?z]
  have same: "plain_lines L G f' ns = plain_lines L G f ns" if "\<forall>m o3. plain_line L G f' m o3 = plain_line L G f m o3" for f' ns
    using that by (induction ns) auto
  show ?case
  proof (cases "log_format (\<lambda>p. L (time_seconds p)) (\<lambda>p. G (time_seconds p)) m f ?z")
    case None
    then show ?thesis using k by simp
  next
    case (Some r)
    then obtain f' l where r: "r = (f', l)" "plain_line L G f m ?z = Some l" using k by (cases r) auto
    have c: "caches_right L G f'" "\<forall>m o3. plain_line L G f' m o3 = plain_line L G f m o3" using k Some r(1) by blast+
    have "plain_lines L G f' ms = plain_lines L G f ms" using c(2) by (rule same)
    then show ?thesis using Cons.IH [OF c(1)] Cons.prems(2) Some r by simp
  qed
qed simp

theorem log_caches_invisible_witness:
  "log_lines (\<lambda>p. sample_tm) (\<lambda>p. sample_tm) (default_formatter Local_time) [sample_message, sample_message] =
     plain_lines (\<lambda>s. sample_tm) (\<lambda>s. sample_tm) (default_formatter Local_time) [sample_message, sample_message]"
proof -
  have "time_seconds 1707487507123456789 \<noteq> 0" using nonneg_signed(1) [of 1707487507123456789 1000000000] by (simp add: time_seconds_def)
  then show ?thesis
    using log_caches_invisible [of "\<lambda>s. sample_tm" "\<lambda>s. sample_tm" "default_formatter Local_time" "[sample_message, sample_message]"]
    by (simp add: caches_right_def default_formatter_def sample_message_def)
qed

end
