(* ===== verification/Proto_Utils.thy ===== *)
theory Proto_Utils
  imports Net_Stream
begin

text \<open>
  The frames that the services of the game server exchange (\<open>gobang/kernel/headers.hpp\<close>, \<open>proto_utils.cpp\<close>).  A protobuf
  message is represented by its serialization: \<open>ByteSizeLong\<close> is the length of the list, and
  \<open>SerializePartialToArray\<close> writes it when the array is large enough and nothing otherwise.  The memory behind the
  part of a buffer written so far is an argument (\<open>spare\<close>), as \<open>reserve\<close> left it.
\<close>

section \<open>Integers in memory\<close>

definition word_bytes :: "nat \<Rightarrow> 'a::len word \<Rightarrow> byte list" where
  "word_bytes n w = map (\<lambda>i. ucast (drop_bit (8 * i) w)) [0..<n]"

fun bytes_word :: "byte list \<Rightarrow> 'a::len word" where
  "bytes_word [] = 0"
| "bytes_word (b # bs) = ucast b OR push_bit 8 (bytes_word bs)"

lemma length_word_bytes [simp]: "length (word_bytes n w) = n"
  by (simp add: word_bytes_def)

lemma bit_bytes_word:
  "bit (bytes_word bs :: 'a::len word) k \<longleftrightarrow> k < LENGTH('a) \<and> k div 8 < length bs \<and> bit (bs ! (k div 8)) (k mod 8)"
proof (induction bs arbitrary: k)
  case (Cons b bs)
  show ?case
  proof (cases "k < 8")
    case False
    then have "k div 8 = Suc ((k - 8) div 8)" "(k - 8) mod 8 = k mod 8" by (simp_all add: div_if mod_if)
    then show ?thesis using False Cons [of "k - 8"] by (auto simp: bit_simps)
  qed (auto simp: bit_simps)
qed simp

lemma bytes_word_bytes [simp]:
  assumes "LENGTH('a::len) \<le> 8 * n"
  shows "bytes_word (word_bytes n (w :: 'a word)) = w"
proof (rule bit_word_eqI)
  fix k assume "k < LENGTH('a)"
  then show "bit (bytes_word (word_bytes n w) :: 'a word) k \<longleftrightarrow> bit w k"
    using assms by (auto simp: bit_bytes_word word_bytes_def bit_simps)
qed

section \<open>Headers\<close>

definition flag_valid :: byte where
  "flag_valid = 0xe4"

record net_header =
  nh_flag :: byte
  nh_len :: "24 word"
  nh_id :: u16
  nh_padding :: u16
  nh_session :: u64

definition header_valid :: "net_header \<Rightarrow> bool" where
  "header_valid h \<longleftrightarrow> nh_flag h = flag_valid"

record ws_header =
  wh_flag :: byte
  wh_id :: u16
  wh_session :: u64

record forward_part =
  fp_from :: u16
  fp_to :: u16
  fp_id :: u16
  fp_padding :: u16
  fp_session :: u64

record client_part =
  cp_id :: u16
  cp_logic :: u16
  cp_socket :: u32
  cp_userid :: u32

text \<open>The object representations, little-endian, and back.\<close>

definition net_header_bytes :: "net_header \<Rightarrow> byte list" where
  "net_header_bytes h = nh_flag h # word_bytes 3 (nh_len h) @ word_bytes 2 (nh_id h) @ word_bytes 2 (nh_padding h)
     @ word_bytes 8 (nh_session h)"

definition net_header_of :: "byte list \<Rightarrow> net_header" where
  "net_header_of bs = \<lparr>nh_flag = hd bs, nh_len = bytes_word (slice 1 3 bs), nh_id = bytes_word (slice 4 2 bs),
     nh_padding = bytes_word (slice 6 2 bs), nh_session = bytes_word (slice 8 8 bs)\<rparr>"

definition ws_header_bytes :: "ws_header \<Rightarrow> byte list" where
  "ws_header_bytes h = wh_flag h # replicate 5 0 @ word_bytes 2 (wh_id h) @ word_bytes 8 (wh_session h)"

definition ws_header_of :: "byte list \<Rightarrow> ws_header" where
  "ws_header_of bs = \<lparr>wh_flag = hd bs, wh_id = bytes_word (slice 6 2 bs), wh_session = bytes_word (slice 8 8 bs)\<rparr>"

definition forward_part_bytes :: "forward_part \<Rightarrow> byte list" where
  "forward_part_bytes p = word_bytes 2 (fp_from p) @ word_bytes 2 (fp_to p) @ word_bytes 2 (fp_id p)
     @ word_bytes 2 (fp_padding p) @ word_bytes 8 (fp_session p)"

definition forward_part_of :: "byte list \<Rightarrow> forward_part" where
  "forward_part_of bs = \<lparr>fp_from = bytes_word (slice 0 2 bs), fp_to = bytes_word (slice 2 2 bs), fp_id = bytes_word (slice 4 2 bs),
     fp_padding = bytes_word (slice 6 2 bs), fp_session = bytes_word (slice 8 8 bs)\<rparr>"

definition client_part_bytes :: "client_part \<Rightarrow> byte list" where
  "client_part_bytes p = word_bytes 2 (cp_id p) @ word_bytes 2 (cp_logic p) @ word_bytes 4 (cp_socket p) @ word_bytes 4 (cp_userid p)"

definition client_part_of :: "byte list \<Rightarrow> client_part" where
  "client_part_of bs = \<lparr>cp_id = bytes_word (slice 0 2 bs), cp_logic = bytes_word (slice 2 2 bs), cp_socket = bytes_word (slice 4 4 bs),
     cp_userid = bytes_word (slice 8 4 bs)\<rparr>"

section \<open>Building frames\<close>

definition serialize_to :: "byte list \<Rightarrow> byte list \<Rightarrow> byte list" where
  "serialize_to msg mem = (if length msg \<le> length mem then overwrite 0 msg mem else mem)"

definition create_net_buffer :: "byte list \<Rightarrow> u16 \<Rightarrow> u64 \<Rightarrow> byte list \<Rightarrow> byte list" where
  "create_net_buffer spare mid session msg =
     (let header = \<lparr>nh_flag = flag_valid, nh_len = ucast (of_nat (length msg) :: u32), nh_id = mid, nh_padding = 0, nh_session = session\<rparr>
      in net_header_bytes header @ take (unat (nh_len header)) (serialize_to msg spare))"

definition init_forward_buffer :: "byte list \<Rightarrow> byte list \<Rightarrow> forward_part \<Rightarrow> byte list \<Rightarrow> byte list" where
  "init_forward_buffer spare buf part msg =
     (let len = (of_nat (length msg) :: u32)
      in buf @ forward_part_bytes part @ take (unat len) (serialize_to msg spare))"

definition id_s_client_forward_brd :: u16 where
  "id_s_client_forward_brd = 0x6007"

definition init_forward_client :: "byte list \<Rightarrow> byte list \<Rightarrow> u16 \<Rightarrow> u16 \<Rightarrow> u64 \<Rightarrow> client_part \<Rightarrow> byte list \<Rightarrow> byte list" where
  "init_forward_client spare buf from dst session client msg =
     (let len = (of_nat (length msg) :: u32);
          forward = \<lparr>fp_from = from, fp_to = dst, fp_id = id_s_client_forward_brd, fp_padding = 0, fp_session = session\<rparr>
      in buf @ forward_part_bytes forward @ client_part_bytes client @ take (unat len) (serialize_to msg spare))"

definition init_client_buffer :: "byte list \<Rightarrow> byte list \<Rightarrow> u16 \<Rightarrow> u64 \<Rightarrow> byte list \<Rightarrow> byte list" where
  "init_client_buffer spare buf mid session msg =
     (let header = \<lparr>wh_flag = flag_valid, wh_id = mid, wh_session = session\<rparr>; len = (of_nat (length msg) :: u32)
      in buf @ ws_header_bytes header @ take (unat len) (serialize_to msg spare))"

section \<open>Receiving a frame\<close>

text \<open>The \<open>logic_error\<close>s that \<open>recv_net_buffer\<close> throws; before the last two it closes the socket.\<close>

datatype recv_error = Recv_eof | Flag_invalid byte | Len_over_limit "24 word"

text \<open>\<open>network::close\<close> called by the coroutine that reads: \<open>hand_stop\<close> takes the socket from the map, and nobody else is waiting at it; the request to the socket
  system shows in no later event, since events reach only sockets in the map.\<close>

definition sock_close :: "sock \<Rightarrow> sock" where
  "sock_close s = (if s_open s then deliver (Stop (Socket_error Initiative_disconnect)) s else s)"

definition msg_len_limit :: nat where
  "msg_len_limit = 1024 * 1024 * 10"

definition recv_net_buffer :: "coro \<Rightarrow> sock \<Rightarrow> (recv_error + net_header \<times> byte list) outcome" where
  "recv_net_buffer h s =
     bind_out (net_read_size h 16 s) (\<lambda>hdr s.
       if length hdr = 0 then Done (Inl Recv_eof) s
       else let header = net_header_of hdr
            in if \<not> header_valid header then Done (Inl (Flag_invalid (nh_flag header))) (sock_close s)
               else if unat (nh_len header) > msg_len_limit then Done (Inl (Len_over_limit (nh_len header))) (sock_close s)
               else if unat (nh_len header) > 0
               then bind_out (net_read_size h (unat (nh_len header)) s) (\<lambda>buf s.
                      if length buf = 0 then Done (Inl Recv_eof) s else Done (Inr (header, buf)) s)
               else Done (Inr (header, [])) s)"

definition connect_interval :: "u64 \<Rightarrow> nat" where
  "connect_interval fail_count =
     (if fail_count < 2 then 0
      else let intervals = [1, 2, 4, 6, 8]; idx = unat (fail_count - 2)
           in if idx \<ge> length intervals then intervals ! (length intervals - 1) else intervals ! idx)"

section \<open>Frames survive the trip\<close>

lemma slice_parts: "slice n k (xs @ ys) = slice n k xs @ slice (n - length xs) (k - (length xs - n)) ys"
  by (simp add: slice_def)

lemma net_header_roundtrip [simp]: "net_header_of (net_header_bytes h) = h"
  by (simp add: net_header_of_def net_header_bytes_def slice_def)

lemma ws_header_roundtrip [simp]: "ws_header_of (ws_header_bytes h @ rest) = h"
  by (simp add: ws_header_of_def ws_header_bytes_def slice_def)

lemma forward_part_roundtrip [simp]: "forward_part_of (forward_part_bytes p @ rest) = p"
  by (simp add: forward_part_of_def forward_part_bytes_def slice_def)

lemma client_part_roundtrip [simp]: "client_part_of (client_part_bytes p @ rest) = p"
  by (simp add: client_part_of_def client_part_bytes_def slice_def)

lemma length_parts [simp]: "length (net_header_bytes h) = 16" "length (ws_header_bytes w) = 16"
    "length (forward_part_bytes p) = 16" "length (client_part_bytes c) = 12"
  by (simp_all add: net_header_bytes_def ws_header_bytes_def forward_part_bytes_def client_part_bytes_def)

lemma net_header_bytes_not_Nil [simp]: "net_header_bytes h \<noteq> []"
  by (simp add: net_header_bytes_def)

lemma take_serialized: "length msg \<le> length spare \<Longrightarrow> take (length msg) (serialize_to msg spare) = msg"
  by (simp add: serialize_to_def overwrite_def)

definition frame_header :: "u16 \<Rightarrow> u64 \<Rightarrow> byte list \<Rightarrow> net_header" where
  "frame_header mid session msg = \<lparr>nh_flag = flag_valid, nh_len = of_nat (length msg), nh_id = mid, nh_padding = 0, nh_session = session\<rparr>"

lemma frame_len: "length msg < 2 ^ 24 \<Longrightarrow> unat (of_nat (length msg) :: 24 word) = length msg"
  by (simp add: unat_of_nat)

lemma create_net_buffer_eq:
  assumes "length msg < 2 ^ 24" "length msg \<le> length spare"
  shows "create_net_buffer spare mid session msg = net_header_bytes (frame_header mid session msg) @ msg"
proof -
  have "(ucast (of_nat (length msg) :: u32) :: 24 word) = of_nat (length msg)"
    using assms(1) by (simp add: unsigned_of_nat take_bit_nat_eq_self)
  then show ?thesis using assms by (simp add: create_net_buffer_def frame_header_def frame_len take_serialized)
qed

lemma recv_frame:
  assumes "fed s (create_net_buffer spare mid session msg @ rest)" "length msg \<le> msg_len_limit" "length msg \<le> length spare"
  shows "\<exists>s'. recv_net_buffer h s = Done (Inr (frame_header mid session msg, msg)) s' \<and> fed s' rest"
proof -
  let ?h = "frame_header mid session msg"
  have l: "length msg < 2 ^ 24" using assms(2) by (simp add: msg_len_limit_def)
  obtain s1 where s1: "net_read_size h 16 s = Done (net_header_bytes ?h) s1" "fed s1 (msg @ rest)"
    using fed_append_read_size [of s "net_header_bytes ?h" "msg @ rest" 16 h] assms(1) create_net_buffer_eq [OF l assms(3)] by auto
  obtain s2 where s2: "net_read_size h (length msg) s1 = Done msg s2" "fed s2 rest"
    using fed_append_read_size [OF s1(2)] by blast
  have v: "header_valid ?h" "unat (nh_len ?h) = length msg" using l by (simp_all add: header_valid_def frame_header_def frame_len)
  show ?thesis
  proof (cases "msg = []")
    case True
    then show ?thesis using s1 v by (simp add: recv_net_buffer_def Let_def)
  next
    case False
    then show ?thesis using s1 s2 v assms(2) by (simp add: recv_net_buffer_def Let_def)
  qed
qed

text \<open>The receiving loops of the services: as many frames as asked for, until one is refused.\<close>

fun recv_frames :: "coro \<Rightarrow> nat \<Rightarrow> sock \<Rightarrow> (net_header \<times> byte list) list outcome" where
  "recv_frames h 0 s = Done [] s"
| "recv_frames h (Suc n) s = bind_out (recv_net_buffer h s) (\<lambda>r s. case r of
       Inl e \<Rightarrow> Throw (Logic_error ''recv'') s
     | Inr f \<Rightarrow> bind_out (recv_frames h n s) (\<lambda>fs s. Done (f # fs) s))"

text \<open>C25: Whatever messages a service sends, and however the network cuts the stream into packets, the
  receiver gets the same messages with their identifiers and sessions, in order, and is left at the end of the last
  one; a message of more than 10 MB, as long as its size fits the 24 bits of the header, is refused by its length and the
  socket is closed.\<close>

theorem frames_roundtrip:
  assumes "\<forall>(mid, session, msg) \<in> set ms. length msg \<le> msg_len_limit \<and> length msg \<le> length spare"
    "fed s (concat (map (\<lambda>(mid, session, msg). create_net_buffer spare mid session msg) ms) @ rest)"
  shows "(\<exists>s'. recv_frames h (length ms) s = Done (map (\<lambda>(mid, session, msg). (frame_header mid session msg, msg)) ms) s' \<and> fed s' rest)
     \<and> (\<forall>t mid session big. fed t (create_net_buffer spare mid session big @ rest) \<and> msg_len_limit < length big
           \<and> length big < 2 ^ 24 \<and> length big \<le> length spare \<longrightarrow>
          (\<exists>t'. recv_net_buffer h t = Done (Inl (Len_over_limit (of_nat (length big)))) t' \<and> \<not> s_open t'))"
proof (intro conjI allI impI)
  show "\<exists>s'. recv_frames h (length ms) s = Done (map (\<lambda>(mid, session, msg). (frame_header mid session msg, msg)) ms) s' \<and> fed s' rest"
    using assms
  proof (induction ms arbitrary: s)
    case (Cons m ms)
    obtain mid session msg where m: "m = (mid, session, msg)" by (metis prod_cases3)
    obtain s1 where s1: "recv_net_buffer h s = Done (Inr (frame_header mid session msg, msg)) s1"
        "fed s1 (concat (map (\<lambda>(mid, session, msg). create_net_buffer spare mid session msg) ms) @ rest)"
      using recv_frame [of s spare mid session msg _ h] Cons.prems m by fastforce
    then show ?case using Cons.IH [OF _ s1(2)] Cons.prems(1) m by auto
  qed simp
next
  fix t mid session big
  assume a: "fed t (create_net_buffer spare mid session big @ rest) \<and> msg_len_limit < length big
           \<and> length big < 2 ^ 24 \<and> length big \<le> length spare"
  let ?h = "frame_header mid session big"
  obtain s1 where s1: "net_read_size h 16 t = Done (net_header_bytes ?h) s1"
    using fed_append_read_size [of t "net_header_bytes ?h" "big @ rest" 16 h] a create_net_buffer_eq [of big spare mid session] by auto
  have v: "header_valid ?h" "unat (nh_len ?h) = length big" using a by (simp_all add: header_valid_def frame_header_def frame_len)
  then show "\<exists>t'. recv_net_buffer h t = Done (Inl (Len_over_limit (of_nat (length big)))) t' \<and> \<not> s_open t'"
    using s1 a by (simp add: recv_net_buffer_def Let_def) (simp add: frame_header_def sock_close_def)
qed

theorem frames_roundtrip_witness:
  "\<exists>s'. recv_frames 7 2 (sample_sock [Data (create_net_buffer [0, 0] 5 9 [1, 2]), Data (create_net_buffer [0, 0] 6 0 [])]) =
     Done [(frame_header 5 9 [1, 2], [1, 2]), (frame_header 6 0 [], [])] s' \<and> fed s' []"
  using frames_roundtrip [of "[(5, 9, [1, 2]), (6, 0, [])]" "[0, 0]"
      "sample_sock [Data (create_net_buffer [0, 0] 5 9 [1, 2]), Data (create_net_buffer [0, 0] 6 0 [])]" "[]" 7]
    sample_feeding [of "[Data (create_net_buffer [0, 0] 5 9 [1, 2]), Data (create_net_buffer [0, 0] 6 0 [])]"]
  by (simp add: fed_def sample_stream msg_len_limit_def numeral_2_eq_2)

text \<open>What the parts in front of a forwarded or a client message say is what was put there.\<close>

theorem parts_roundtrip:
  assumes "length msg < 2 ^ 32" "length msg \<le> length spare"
  shows "forward_part_of (init_forward_buffer spare [] part msg) = part
     \<and> drop 16 (init_forward_buffer spare [] part msg) = msg
     \<and> (let b = init_forward_client spare [] from dst session client msg
        in forward_part_of b = \<lparr>fp_from = from, fp_to = dst, fp_id = id_s_client_forward_brd, fp_padding = 0, fp_session = session\<rparr>
           \<and> client_part_of (drop 16 b) = client \<and> drop 28 b = msg)
     \<and> (let b = init_client_buffer spare [] mid session msg
        in ws_header_of b = \<lparr>wh_flag = flag_valid, wh_id = mid, wh_session = session\<rparr> \<and> drop 16 b = msg)"
proof -
  have l: "take (unat (of_nat (length msg) :: u32)) (serialize_to msg spare) = msg"
    using assms by (simp add: unat_of_nat take_serialized)
  show ?thesis by (simp add: init_forward_buffer_def init_forward_client_def init_client_buffer_def Let_def l)
qed

end
