(* ===== verification/Rpc_System.thy ===== *)
theory Rpc_System
  imports Net_Stream
begin

text \<open>
  The calls between services (\<open>gobang/kernel/proto_rpc\<close>): sessions, the map of waiting coroutines, and the awaiter.
  A coroutine is a number; its awaiter is kept in \<open>rpc_awaiters\<close>, and \<open>wake_up_coroutine\<close> appends it to
  \<open>rpc_woken\<close>.  The clock, the process identifier and the parser of the expected message are arguments.
\<close>

section \<open>Sessions\<close>

record 'm rpc_awaiter =
  aw_session :: u64
  aw_message :: "'m option"
  aw_failed :: bool
  aw_canceled :: bool

record 'm rpc_system =
  rpc_sequence :: u32
  rpc_time :: u64
  rpc_wait :: "u64 \<Rightarrow> coro option"
  rpc_awaiters :: "coro \<Rightarrow> 'm rpc_awaiter"
  rpc_woken :: "coro list"

definition create_session :: "u64 \<Rightarrow> u64 \<Rightarrow> 'm rpc_system \<Rightarrow> u64 \<times> 'm rpc_system" where
  "create_session now pid st =
     (let ti = (if now < rpc_time st then rpc_time st else now);
          st = (if \<not> now < rpc_time st \<and> now > rpc_time st then st\<lparr>rpc_time := now, rpc_sequence := 0\<rparr> else st);
          session = push_bit 32 ti;
          session = session OR push_bit 25 (pid AND 0x7F);
          st = st\<lparr>rpc_sequence := rpc_sequence st + 1\<rparr>
      in (session OR ucast (rpc_sequence st AND 0x1FFFFFF), st))"

section \<open>Waiting and waking\<close>

definition insert_session :: "u64 \<Rightarrow> coro \<Rightarrow> 'm rpc_system \<Rightarrow> 'm rpc_system" where
  "insert_session session h st =
     (case rpc_wait st session of None \<Rightarrow> st\<lparr>rpc_wait := (rpc_wait st)(session \<mapsto> h)\<rparr> | Some _ \<Rightarrow> st)"

text \<open>\<open>co_await\<close> of an awaiter: \<open>False\<close> when the coroutine goes on at once because it is cancelled already.\<close>

definition rpc_suspend :: "coro \<Rightarrow> u64 \<Rightarrow> bool \<Rightarrow> 'm rpc_system \<Rightarrow> bool \<times> 'm rpc_system" where
  "rpc_suspend h session canceled st =
     (let st = st\<lparr>rpc_awaiters := (rpc_awaiters st)(h := \<lparr>aw_session = session, aw_message = None, aw_failed = False, aw_canceled = canceled\<rparr>)\<rparr>
      in if canceled then (False, st) else (True, insert_session session h st))"

definition parse_message :: "(byte list \<Rightarrow> 'm option) \<Rightarrow> byte list \<Rightarrow> 'm rpc_awaiter \<Rightarrow> 'm rpc_awaiter" where
  "parse_message parse data aw =
     (case parse data of Some m \<Rightarrow> aw\<lparr>aw_message := Some m\<rparr> | None \<Rightarrow> aw\<lparr>aw_failed := True\<rparr>)"

definition wake_up_session_cancel :: "u64 \<Rightarrow> 'm rpc_system \<Rightarrow> 'm rpc_system" where
  "wake_up_session_cancel session st =
     (case rpc_wait st session of None \<Rightarrow> st
      | Some h \<Rightarrow> st\<lparr>rpc_wait := (rpc_wait st)(session := None), rpc_woken := rpc_woken st @ [h]\<rparr>)"

definition wake_up_session :: "(byte list \<Rightarrow> 'm option) \<Rightarrow> u64 \<Rightarrow> byte list \<Rightarrow> 'm rpc_system \<Rightarrow> bool \<times> 'm rpc_system" where
  "wake_up_session parse session data st =
     (case rpc_wait st session of None \<Rightarrow> (False, st)
      | Some h \<Rightarrow> (True, st\<lparr>rpc_wait := (rpc_wait st)(session := None),
           rpc_awaiters := (rpc_awaiters st)(h := parse_message parse data (rpc_awaiters st h)), rpc_woken := rpc_woken st @ [h]\<rparr>))"

text \<open>A cancellation request runs the callback that the awaiter registered.\<close>

definition cancel_call :: "coro \<Rightarrow> 'm rpc_system \<Rightarrow> 'm rpc_system" where
  "cancel_call h st =
     (let aw = rpc_awaiters st h
      in wake_up_session_cancel (aw_session aw) (st\<lparr>rpc_awaiters := (rpc_awaiters st)(h := aw\<lparr>aw_canceled := True\<rparr>)\<rparr>))"

datatype 'm rpc_result = Rpc_ok 'm | Rpc_canceled | Rpc_parse_fail

text \<open>\<open>check_resume\<close> and what \<open>await_resume\<close> then returns: the message as the parser left it, \<open>blank\<close> before.\<close>

definition check_resume :: "'m \<Rightarrow> 'm rpc_awaiter \<Rightarrow> 'm rpc_result" where
  "check_resume blank aw =
     (if aw_canceled aw then Rpc_canceled else if aw_failed aw then Rpc_parse_fail
      else Rpc_ok (case aw_message aw of Some m \<Rightarrow> m | None \<Rightarrow> blank))"

section \<open>Sessions do not repeat\<close>

fun create_sessions :: "u64 list \<Rightarrow> u64 \<Rightarrow> 'm rpc_system \<Rightarrow> u64 list \<times> 'm rpc_system" where
  "create_sessions [] pid st = ([], st)"
| "create_sessions (now # nows) pid st =
     (case create_session now pid st of (x, st) \<Rightarrow> (case create_sessions nows pid st of (xs, st) \<Rightarrow> (x # xs, st)))"

definition pack :: "u64 \<Rightarrow> u64 \<Rightarrow> u32 \<Rightarrow> u64" where
  "pack pid ti q = (push_bit 32 ti OR push_bit 25 (pid AND 0x7F)) OR ucast (q AND 0x1FFFFFF)"

lemma create_session_pack: "fst (create_session now pid st) = pack pid (rpc_time (snd (create_session now pid st))) (rpc_sequence (snd (create_session now pid st)))"
  by (auto simp: create_session_def pack_def Let_def)

lemma create_session_state:
  "rpc_time st \<le> rpc_time (snd (create_session now pid st))
   \<and> (rpc_time (snd (create_session now pid st)) = rpc_time st \<longrightarrow> rpc_sequence (snd (create_session now pid st)) = rpc_sequence st + 1)
   \<and> rpc_time (snd (create_session now pid st)) = max (rpc_time st) now"
  by (auto simp: create_session_def Let_def max_def)

lemma mask_7F: "(0x7F :: u64) = mask 7" and mask_25: "(0x1FFFFFF :: u32) = mask 25"
  by (simp_all add: mask_eq_decr_exp)

lemma pack_bits:
  assumes "k < 64"
  shows "bit (pack pid ti q) k \<longleftrightarrow>
     (if k < 25 then bit q k else if k < 32 then bit pid (k - 25) else bit ti (k - 32))"
  using assms by (auto simp: pack_def mask_7F mask_25 bit_simps)

lemma pack_inject:
  assumes "pack pid t q = pack pid t' q'" "t < 2 ^ 32" "t' < 2 ^ 32"
  shows "t = t'" "take_bit 25 q = take_bit 25 q'"
proof -
  have b: "bit (pack pid t q) k \<longleftrightarrow> bit (pack pid t' q') k" for k using assms(1) by simp
  have hi: "bit t k \<longleftrightarrow> bit t' k" if "k < 32" for k using b [of "k + 32"] that by (simp add: pack_bits)
  have "take_bit 32 t = t" "take_bit 32 t' = t'" using assms(2,3) by (simp_all add: word_unat_eq_iff unsigned_take_bit_eq word_less_nat_alt take_bit_nat_eq_self)
  moreover have "take_bit 32 t = take_bit 32 t'" by (rule bit_word_eqI) (auto simp: bit_simps hi)
  ultimately show "t = t'" by metis
  show "take_bit 25 q = take_bit 25 q'"
  proof (rule bit_word_eqI)
    fix k show "bit (take_bit 25 q) k \<longleftrightarrow> bit (take_bit 25 q') k" using b [of k] by (auto simp: bit_simps pack_bits)
  qed
qed

lemma create_sessions_length: "length (fst (create_sessions nows pid st)) = length nows"
  by (induction nows arbitrary: st) (auto simp: split_beta)

text \<open>The state in which the \<open>i\<close>-th of the sessions is made.\<close>

fun session_state :: "nat \<Rightarrow> u64 list \<Rightarrow> u64 \<Rightarrow> 'm rpc_system \<Rightarrow> 'm rpc_system" where
  "session_state i [] pid st = st"
| "session_state 0 (now # nows) pid st = snd (create_session now pid st)"
| "session_state (Suc i) (now # nows) pid st = session_state i nows pid (snd (create_session now pid st))"

lemma create_sessions_nth:
  "i < length nows \<Longrightarrow> fst (create_sessions nows pid st) ! i =
     pack pid (rpc_time (session_state i nows pid st)) (rpc_sequence (session_state i nows pid st))"
proof (induction nows arbitrary: st i)
  case (Cons now nows)
  then show ?case using create_session_pack [of now pid st] by (cases i) (auto simp: split_beta)
qed simp

lemma session_state_progress:
  "d < length nows \<Longrightarrow> rpc_time st \<le> rpc_time (session_state d nows pid st) \<and>
     (rpc_time (session_state d nows pid st) = rpc_time st \<longrightarrow>
        rpc_sequence (session_state d nows pid st) = rpc_sequence st + of_nat (Suc d))"
proof (induction nows arbitrary: st d)
  case (Cons now nows)
  let ?t = "snd (create_session now pid st)"
  note s = create_session_state [of st now pid]
  show ?case
  proof (cases d)
    case (Suc e)
    then have k: "rpc_time ?t \<le> rpc_time (session_state e nows pid ?t)"
        "rpc_time (session_state e nows pid ?t) = rpc_time ?t \<longrightarrow> rpc_sequence (session_state e nows pid ?t) = rpc_sequence ?t + of_nat (Suc e)"
      using Cons by auto
    have "rpc_time ?t = rpc_time st" if "rpc_time (session_state e nows pid ?t) = rpc_time st" using that k(1) s by simp
    then show ?thesis using Suc k s by (auto simp: algebra_simps)
  qed (use s in auto)
qed simp

lemma session_state_add:
  "i < j \<Longrightarrow> j < length nows \<Longrightarrow>
   session_state j nows pid st = session_state (j - Suc i) (drop (Suc i) nows) pid (session_state i nows pid st)"
proof (induction nows arbitrary: st i j)
  case (Cons now nows)
  then obtain k where j: "j = Suc k" by (cases j) auto
  show ?case using Cons j by (cases i) auto
qed simp

lemma session_time_bound:
  "\<forall>t \<in> set nows. t < b \<Longrightarrow> rpc_time st < b \<Longrightarrow> rpc_time (session_state i nows pid st) < b"
proof (induction nows arbitrary: st i)
  case (Cons now nows)
  then show ?case using create_session_state [of st now pid] by (cases i) (auto simp: max_def split: if_splits)
qed simp

lemma take_bit_25_add: "take_bit 25 (q + of_nat d :: u32) = take_bit 25 q \<longleftrightarrow> 2 ^ 25 dvd d"
proof -
  have "take_bit 25 (q + of_nat d) = take_bit 25 q \<longleftrightarrow> unat (take_bit 25 (q + of_nat d)) = unat (take_bit 25 q)"
    by (simp only: word_unat_eq_iff)
  also have "\<dots> \<longleftrightarrow> (unat q + d) mod 2 ^ 25 = unat q mod 2 ^ 25"
    by (simp add: unsigned_take_bit_eq take_bit_eq_mod unat_word_ariths unat_of_nat mod_mod_cancel mod_simps)
  also have "\<dots> \<longleftrightarrow> 2 ^ 25 dvd d" using mod_eq_dvd_iff_nat [of "unat q" "unat q + d" "2 ^ 25"] by simp
  finally show ?thesis .
qed

text \<open>C24: Two sessions of one process are equal exactly when the clock did not go past the second of the first before
  the second was made and a multiple of 2 to the 25 sessions lies between them, as long as the clock's readings and the second kept from the last session are
  below 2 to the 32 (until the year 2106, after which the shift cuts them off), even when the clock is set back: until 33554432 calls in one
  second no two calls share a session.\<close>

theorem sessions_unique:
  fixes st :: "'m rpc_system"
  assumes "i < j" "j < length nows" "\<forall>t \<in> set nows. t < 2 ^ 32" "rpc_time st < 2 ^ 32"
  shows "fst (create_sessions nows pid st) ! i = fst (create_sessions nows pid st) ! j \<longleftrightarrow>
     rpc_time (session_state i nows pid st) = rpc_time (session_state j nows pid st) \<and> 2 ^ 25 dvd j - i"
proof -
  define s t where st: "s = session_state i nows pid st" "t = session_state j nows pid st"
  have n: "fst (create_sessions nows pid st) ! i = pack pid (rpc_time s) (rpc_sequence s)"
      "fst (create_sessions nows pid st) ! j = pack pid (rpc_time t) (rpc_sequence t)"
    using assms(1,2) create_sessions_nth [of _ nows pid st] by (simp_all add: st)
  have b: "rpc_time s < 2 ^ 32" "rpc_time t < 2 ^ 32" using session_time_bound assms(3,4) st by blast+
  have seq: "rpc_sequence t = rpc_sequence s + of_nat (j - i)" if "rpc_time s = rpc_time t"
  proof -
    have "t = session_state (j - Suc i) (drop (Suc i) nows) pid s" using session_state_add [OF assms(1,2)] st by simp
    then show ?thesis
      using session_state_progress [of "j - Suc i" "drop (Suc i) nows" s pid] assms(1,2) that by (simp add: Suc_diff_Suc)
  qed
  have "pack pid (rpc_time s) (rpc_sequence s) = pack pid (rpc_time t) (rpc_sequence t) \<longleftrightarrow>
      rpc_time s = rpc_time t \<and> take_bit 25 (rpc_sequence s) = take_bit 25 (rpc_sequence t)"
    using pack_inject [OF _ b] by (auto simp: pack_def mask_25 take_bit_eq_mask)
  also have "\<dots> \<longleftrightarrow> rpc_time s = rpc_time t \<and> 2 ^ 25 dvd j - i"
    using seq take_bit_25_add [of "rpc_sequence s" "j - i"] by (metis (no_types))
  finally show ?thesis unfolding n using st by simp
qed

definition rpc_start :: "'m rpc_system" where
  "rpc_start = \<lparr>rpc_sequence = 0, rpc_time = 0, rpc_wait = (\<lambda>_. None),
     rpc_awaiters = (\<lambda>_. \<lparr>aw_session = 0, aw_message = None, aw_failed = False, aw_canceled = False\<rparr>), rpc_woken = []\<rparr>"

theorem sessions_unique_witness:
  "fst (create_sessions [9, 9, 7] 3 (rpc_start :: unit rpc_system)) ! 0 \<noteq> fst (create_sessions [9, 9, 7] 3 (rpc_start :: unit rpc_system)) ! 2"
proof -
  have "\<not> (2 ^ 25 :: nat) dvd 2 - 0" by (auto dest: dvd_imp_le)
  then show ?thesis
    using sessions_unique [of 0 2 "[9, 9, 7]" "rpc_start :: unit rpc_system" 3] by (auto simp: rpc_start_def)
qed

section \<open>Replies reach their callers\<close>

text \<open>A suspended coroutine cannot call again, and a new call has a session that no waiting call has.\<close>

inductive rpc_reach :: "(byte list \<Rightarrow> 'm option) \<Rightarrow> 'm rpc_system \<Rightarrow> bool" for parse where
  start: "rpc_reach parse rpc_start"
| call: "rpc_reach parse st \<Longrightarrow> rpc_wait st session = None \<Longrightarrow> h \<notin> ran (rpc_wait st) \<Longrightarrow>
    rpc_reach parse (snd (rpc_suspend h session canceled st))"
| reply: "rpc_reach parse st \<Longrightarrow> rpc_reach parse (snd (wake_up_session parse session data st))"
| cancel: "rpc_reach parse st \<Longrightarrow> h \<in> ran (rpc_wait st) \<Longrightarrow> rpc_reach parse (cancel_call h st)"

definition waiting_right :: "'m rpc_system \<Rightarrow> bool" where
  "waiting_right st \<longleftrightarrow> (\<forall>s h. rpc_wait st s = Some h \<longrightarrow>
     rpc_awaiters st h = \<lparr>aw_session = s, aw_message = None, aw_failed = False, aw_canceled = False\<rparr>)"

lemma ranI_iff: "h \<in> ran m \<longleftrightarrow> (\<exists>s. m s = Some h)"
  by (simp add: ran_def)

lemma waiting_right_reach: "rpc_reach parse st \<Longrightarrow> waiting_right st"
proof (induction rule: rpc_reach.induct)
  case (call st session h canceled)
  then show ?case
    unfolding waiting_right_def rpc_suspend_def insert_session_def Let_def by (auto simp: ranI_iff)
next
  case (reply st session data)
  then show ?case
    unfolding waiting_right_def wake_up_session_def by (auto split: option.splits)
      (metis (no_types, lifting) rpc_awaiter.ext_inject)+
next
  case (cancel st h)
  then obtain s where s: "rpc_wait st s = Some h" "aw_session (rpc_awaiters st h) = s" by (auto simp: ranI_iff waiting_right_def)
  then show ?case
    using cancel.IH unfolding waiting_right_def cancel_call_def wake_up_session_cancel_def Let_def
    by auto (metis (no_types, lifting) rpc_awaiter.ext_inject)+
qed (simp add: waiting_right_def rpc_start_def)

text \<open>C23: A reply wakes exactly the coroutine that waits for its session, which then gets what its parser makes of
  the data; a cancelled call ends with the cancellation.  In both cases the session is forgotten, so a second
  or late reply wakes nobody, and no other call is touched.\<close>

theorem replies_routed:
  assumes "rpc_reach parse st" "rpc_wait st s = Some h"
  shows "(\<exists>st'. wake_up_session parse s data st = (True, st')
       \<and> rpc_woken st' = rpc_woken st @ [h] \<and> rpc_wait st' = (rpc_wait st)(s := None) \<and> h \<notin> ran (rpc_wait st')
       \<and> check_resume blank (rpc_awaiters st' h) = (case parse data of Some m \<Rightarrow> Rpc_ok m | None \<Rightarrow> Rpc_parse_fail)
       \<and> (\<forall>g. g \<noteq> h \<longrightarrow> rpc_awaiters st' g = rpc_awaiters st g)
       \<and> wake_up_session parse s data' st' = (False, st'))
     \<and> (let st' = cancel_call h st
        in rpc_woken st' = rpc_woken st @ [h] \<and> rpc_wait st' = (rpc_wait st)(s := None)
       \<and> h \<notin> ran (rpc_wait st') \<and> check_resume blank (rpc_awaiters st' h) = Rpc_canceled
       \<and> (\<forall>g. g \<noteq> h \<longrightarrow> rpc_awaiters st' g = rpc_awaiters st g) \<and> wake_up_session parse s data' st' = (False, st'))"
proof -
  note w = waiting_right_reach [OF assms(1), unfolded waiting_right_def, rule_format]
  have u: "s' = s" if "rpc_wait st s' = Some h" for s' using w [OF that] w [OF assms(2)] by simp
  then have r: "h \<notin> ran ((rpc_wait st)(s := None))" by (auto simp: ranI_iff split: if_splits)
  have "\<exists>st'. wake_up_session parse s data st = (True, st')
       \<and> rpc_woken st' = rpc_woken st @ [h] \<and> rpc_wait st' = (rpc_wait st)(s := None) \<and> h \<notin> ran (rpc_wait st')
       \<and> check_resume blank (rpc_awaiters st' h) = (case parse data of Some m \<Rightarrow> Rpc_ok m | None \<Rightarrow> Rpc_parse_fail)
       \<and> (\<forall>g. g \<noteq> h \<longrightarrow> rpc_awaiters st' g = rpc_awaiters st g)
       \<and> wake_up_session parse s data' st' = (False, st')"
    using assms(2) w [OF assms(2)] r
    by (auto simp: wake_up_session_def parse_message_def check_resume_def split: option.splits)
  then show ?thesis
    using assms(2) w [OF assms(2)] r
    by (simp add: cancel_call_def wake_up_session_cancel_def wake_up_session_def check_resume_def Let_def)
qed

theorem replies_routed_witness:
  "\<exists>st'. wake_up_session (\<lambda>bs. Some (length bs)) 5 [1, 2] (snd (rpc_suspend 7 5 False rpc_start)) = (True, st')
     \<and> check_resume 0 (rpc_awaiters st' 7) = Rpc_ok 2"
proof -
  have r: "rpc_reach (\<lambda>bs. Some (length bs)) (snd (rpc_suspend 7 5 False rpc_start))"
    by (rule rpc_reach.call [OF rpc_reach.start]) (simp_all add: rpc_start_def)
  show ?thesis
    using replies_routed [OF r, of 5 7 "[1, 2]" 0 "[]"] by (auto simp: rpc_suspend_def insert_session_def rpc_start_def Let_def)
qed

end
