(* ===== verification/Outbox.thy ===== *)
theory Outbox
  imports Main
begin

text \<open>
  The contract of the senders that keep messages back while their transport is not ready: a local service behind a full
  shared-memory ring, a remote gate that is not connected, a service that has no channel yet.  A provider relates its state
  to the list of all messages accepted so far, which are those delivered, those under way and those kept back, in
  this order.  Depositing appends a message to the list; the steps of the transport and of the receiver leave it as it is.
\<close>

datatype ('m, 's) outbox_op = Write 'm | Tick "'s \<Rightarrow> 's"

fun outbox_run :: "('m \<Rightarrow> 's \<Rightarrow> 's) \<Rightarrow> ('m, 's) outbox_op list \<Rightarrow> 's \<Rightarrow> 's" where
  "outbox_run deposit [] s = s"
| "outbox_run deposit (Write m # ops) s = outbox_run deposit ops (deposit m s)"
| "outbox_run deposit (Tick t # ops) s = outbox_run deposit ops (t s)"

fun written_messages :: "('m, 's) outbox_op list \<Rightarrow> 'm list" where
  "written_messages [] = []"
| "written_messages (Write m # ops) = m # written_messages ops"
| "written_messages (Tick t # ops) = written_messages ops"

locale outbox =
  fixes rep :: "'s \<Rightarrow> 'm list \<Rightarrow> bool"
    and valid :: "'m \<Rightarrow> bool"
    and deposit :: "'m \<Rightarrow> 's \<Rightarrow> 's"
    and ticks :: "('s \<Rightarrow> 's) set"
  assumes write_appends: "rep s q \<Longrightarrow> valid m \<Longrightarrow> rep (deposit m s) (q @ [m])"
    and tick_keeps: "t \<in> ticks \<Longrightarrow> rep s q \<Longrightarrow> rep (t s) q"
begin

lemma run_keeps_order:
  assumes "rep s q" "\<forall>m \<in> set (written_messages ops). valid m" "\<forall>t. Tick t \<in> set ops \<longrightarrow> t \<in> ticks"
  shows "rep (outbox_run deposit ops s) (q @ written_messages ops)"
  using assms
proof (induction ops arbitrary: s q)
  case (Cons op ops)
  show ?case
  proof (cases op)
    case (Write m)
    then have "rep (deposit m s) (q @ [m])" using Cons.prems write_appends by simp
    then show ?thesis using Cons.IH [of "deposit m s" "q @ [m]"] Cons.prems Write by simp
  next
    case (Tick t)
    then have "rep (t s) q" using Cons.prems tick_keeps by simp
    then show ?thesis using Cons.IH [of "t s" q] Cons.prems Tick by simp
  qed
qed simp

end

end
