(* ===== verification/Gate_Master.thy ===== *)
theory Gate_Master
  imports Prelude "HOL-Library.AList"
begin

text \<open>
  The registry of gates and services (\<open>gobang/gate_master/gate_master.cpp\<close>).  Pointers to the nodes of \<open>gates_\<close> and
  \<open>services_\<close>, which are never erased, are the keys of the nodes.  \<open>gates_\<close> is an association list, its order standing for
  the unspecified order in which the unordered map is traversed; the other two maps are never traversed.  What the service
  hands to the network is recorded in \<open>gm_written\<close> and \<open>gm_closed\<close>.  Parsing of the protobuf messages is a parameter.
\<close>

section \<open>Messages\<close>

record s_service_info =
  si_id :: u32
  si_tp :: u32
  si_online :: bool

type_synonym s_gate_address = "byte list \<times> byte list"

record s_gate_info =
  gi_id :: u32
  gi_services :: "s_service_info list"
  gi_addresses :: "s_gate_address list"

datatype ack_ec = Ec_success | Ec_system | Ec_timeout

datatype master_msg = Gate_register_ack ack_ec "s_gate_info list" | Gate_register_brd "s_gate_info list"
  | Service_update_ack ack_ec | Ping_ack

record parsers =
  parse_register_req :: "byte list \<Rightarrow> s_gate_info option"
  parse_update_req :: "byte list \<Rightarrow> s_service_info list option"
  parse_empty :: "byte list \<Rightarrow> bool"

definition id_s_ping_req :: u16 where "id_s_ping_req = 0x4001"
definition id_s_gate_register_req :: u16 where "id_s_gate_register_req = 0x4002"
definition id_s_service_update_req :: u16 where "id_s_service_update_req = 0x4004"

section \<open>State\<close>

record service_data =
  sd_id :: u16
  sd_tp :: u16
  sd_gate :: u16
  sd_online :: bool

record gate_data =
  gd_id :: u16
  gd_socket :: u32
  gd_addresses :: "s_gate_address list"
  gd_services :: "u16 list"

record socket_data =
  sk_socket :: u32
  sk_data :: "u16 option"
  sk_last_recv :: int

record gate_master =
  gm_gates :: "(u16 \<times> gate_data) list"
  gm_services :: "u16 \<Rightarrow> service_data option"
  gm_sockets :: "u32 \<Rightarrow> socket_data option"
  gm_written :: "(u32 \<times> u64 \<times> master_msg) list"
  gm_closed :: "u32 list"

definition gate_master_init :: gate_master where
  "gate_master_init = \<lparr>gm_gates = [], gm_services = (\<lambda>_. None), gm_sockets = (\<lambda>_. None), gm_written = [], gm_closed = []\<rparr>"

text \<open>Dereferencing the pointers; the fallback is for keys that no pointer has.\<close>

definition gate_at :: "gate_master \<Rightarrow> u16 \<Rightarrow> gate_data" where
  "gate_at st g = (case map_of (gm_gates st) g of Some gd \<Rightarrow> gd
     | None \<Rightarrow> \<lparr>gd_id = 0, gd_socket = 0, gd_addresses = [], gd_services = []\<rparr>)"

definition service_at :: "gate_master \<Rightarrow> u16 \<Rightarrow> service_data" where
  "service_at st s = (case gm_services st s of Some sd \<Rightarrow> sd
     | None \<Rightarrow> \<lparr>sd_id = 0, sd_tp = 0, sd_gate = 0, sd_online = False\<rparr>)"

definition set_gate :: "u16 \<Rightarrow> gate_data \<Rightarrow> gate_master \<Rightarrow> gate_master" where
  "set_gate g gd st = st\<lparr>gm_gates := AList.update g gd (gm_gates st)\<rparr>"

section \<open>Operations\<close>

definition send :: "u32 \<Rightarrow> u64 \<Rightarrow> master_msg \<Rightarrow> gate_master \<Rightarrow> gate_master" where
  "send socket session msg st = st\<lparr>gm_written := gm_written st @ [(socket, session, msg)]\<rparr>"

definition add_gate_info :: "gate_master \<Rightarrow> gate_data \<Rightarrow> s_gate_info" where
  "add_gate_info st gate = \<lparr>gi_id = ucast (gd_id gate),
     gi_services = map (\<lambda>s. let sd = service_at st s in \<lparr>si_id = ucast (sd_id sd), si_tp = ucast (sd_tp sd), si_online = sd_online sd\<rparr>)
       (gd_services gate),
     gi_addresses = gd_addresses gate\<rparr>"

definition publish :: "u16 \<Rightarrow> gate_master \<Rightarrow> gate_master" where
  "publish gate st =
     (let brd = Gate_register_brd [add_gate_info st (gate_at st gate)]
      in fold (\<lambda>(g, gd) st. if gd_socket gd = 0 \<or> g = gate then st else send (gd_socket gd) 0 brd st) (gm_gates st) st)"

definition gate_disconnect :: "u16 \<Rightarrow> gate_master \<Rightarrow> gate_master" where
  "gate_disconnect gate st =
     (let st = set_gate gate ((gate_at st gate)\<lparr>gd_socket := 0\<rparr>) st;
          st = fold (\<lambda>s st. st\<lparr>gm_services := (gm_services st)(s \<mapsto> (service_at st s)\<lparr>sd_online := False\<rparr>)\<rparr>) (gd_services (gate_at st gate)) st
      in publish gate st)"

definition check_services :: "s_service_info list \<Rightarrow> u16 \<Rightarrow> gate_master \<Rightarrow> bool" where
  "check_services services gate st \<longleftrightarrow> list_all (\<lambda>service. case gm_services st (ucast (si_id service)) of
       Some sd \<Rightarrow> sd_gate sd = gate | None \<Rightarrow> True) services"

definition add_service :: "u16 \<Rightarrow> s_service_info \<Rightarrow> gate_master \<Rightarrow> gate_master" where
  "add_service gate s st =
     (let i = ucast (si_id s)
      in case gm_services st i of
           Some sd \<Rightarrow> st\<lparr>gm_services := (gm_services st)(i \<mapsto> sd\<lparr>sd_online := si_online s\<rparr>)\<rparr>
         | None \<Rightarrow>
             let gd = gate_at st gate;
                 temp = \<lparr>sd_id = i, sd_tp = ucast (si_tp s), sd_gate = gd_id gd, sd_online = si_online s\<rparr>
             in set_gate gate (gd\<lparr>gd_services := gd_services gd @ [i]\<rparr>) (st\<lparr>gm_services := (gm_services st)(i \<mapsto> temp)\<rparr>))"

definition add_services :: "s_service_info list \<Rightarrow> u16 \<Rightarrow> gate_master \<Rightarrow> gate_master" where
  "add_services services gate st = fold (add_service gate) services st"

definition set_socket_data :: "u32 \<Rightarrow> u16 option \<Rightarrow> gate_master \<Rightarrow> gate_master" where
  "set_socket_data socket d st = (case gm_sockets st socket of None \<Rightarrow> st
     | Some sk \<Rightarrow> st\<lparr>gm_sockets := (gm_sockets st)(socket \<mapsto> sk\<lparr>sk_data := d\<rparr>)\<rparr>)"

text \<open>The end of \<open>gate_register\<close>, after the gate of the socket has been found or made.\<close>

definition register_gate :: "u32 \<Rightarrow> u64 \<Rightarrow> s_gate_info \<Rightarrow> u16 \<Rightarrow> gate_master \<Rightarrow> gate_master" where
  "register_gate socket session info gate st =
     (let st = set_gate gate ((gate_at st gate)\<lparr>gd_socket := socket, gd_addresses := gi_addresses info\<rparr>) st;
          st = add_services (gi_services info) gate st;
          gates = map (\<lambda>(g, gd). add_gate_info st gd) (filter (\<lambda>(g, gd). g \<noteq> gate) (gm_gates st))
      in publish gate (send socket session (Gate_register_ack Ec_success gates) st))"

text \<open>The previous connection of a gate is dropped, and a new gate is made.\<close>

definition drop_previous :: "u32 \<Rightarrow> u16 \<Rightarrow> gate_master \<Rightarrow> gate_master" where
  "drop_previous socket g st =
     (let old = gd_socket (gate_at st g)
      in if old \<noteq> socket \<and> gm_sockets st old \<noteq> None then (set_socket_data old None st)\<lparr>gm_closed := gm_closed st @ [old]\<rparr> else st)"

definition emplace_gate :: "u16 \<Rightarrow> gate_master \<Rightarrow> gate_master" where
  "emplace_gate i st =
     (if map_of (gm_gates st) i = None
      then st\<lparr>gm_gates := gm_gates st @ [(i, \<lparr>gd_id = i, gd_socket = 0, gd_addresses = [], gd_services = []\<rparr>)]\<rparr> else st)"

definition gate_register :: "parsers \<Rightarrow> socket_data \<Rightarrow> u64 \<Rightarrow> byte list \<Rightarrow> gate_master \<Rightarrow> gate_master" where
  "gate_register P socket session buffer st =
     (case parse_register_req P buffer of None \<Rightarrow> st
      | Some info \<Rightarrow>
          let i = ucast (gi_id info)
          in if \<not> check_services (gi_services info) i st
             then send (sk_socket socket) session (Gate_register_ack Ec_system []) st
             else (case sk_data socket of
                 Some g \<Rightarrow>
                   if gd_id (gate_at st g) \<noteq> i
                   then send (sk_socket socket) session (Gate_register_ack Ec_system []) st
                   else register_gate (sk_socket socket) session info g (drop_previous (sk_socket socket) g st)
               | None \<Rightarrow>
                   register_gate (sk_socket socket) session info i
                     (set_socket_data (sk_socket socket) (Some i) (emplace_gate i st))))"

definition gate_upload :: "parsers \<Rightarrow> socket_data \<Rightarrow> u64 \<Rightarrow> byte list \<Rightarrow> gate_master \<Rightarrow> gate_master" where
  "gate_upload P socket session buffer st =
     (case parse_update_req P buffer of None \<Rightarrow> st
      | Some services \<Rightarrow>
          (case sk_data socket of
             None \<Rightarrow> send (sk_socket socket) session (Service_update_ack Ec_system) st
           | Some g \<Rightarrow>
               if \<not> check_services services (gd_id (gate_at st g)) st
               then send (sk_socket socket) session (Service_update_ack Ec_system) st
               else publish g (send (sk_socket socket) session (Service_update_ack Ec_success) (add_services services g st))))"

definition proc_ping :: "parsers \<Rightarrow> u32 \<Rightarrow> u64 \<Rightarrow> byte list \<Rightarrow> gate_master \<Rightarrow> gate_master" where
  "proc_ping P socket session buffer st = (if \<not> parse_empty P buffer then st else send socket session Ping_ack st)"

definition forward_message :: "parsers \<Rightarrow> socket_data \<Rightarrow> u16 \<Rightarrow> u64 \<Rightarrow> byte list \<Rightarrow> gate_master \<Rightarrow> gate_master" where
  "forward_message P socket mid session buffer st =
     (if mid = id_s_gate_register_req then gate_register P socket session buffer st
      else if mid = id_s_service_update_req then gate_upload P socket session buffer st
      else if mid = id_s_ping_req then proc_ping P (sk_socket socket) session buffer st
      else st)"

section \<open>The coroutines of a socket\<close>

definition accept_socket :: "u32 \<Rightarrow> int \<Rightarrow> gate_master \<Rightarrow> gate_master" where
  "accept_socket socket now st = (case gm_sockets st socket of Some _ \<Rightarrow> st
     | None \<Rightarrow> st\<lparr>gm_sockets := (gm_sockets st)(socket \<mapsto> \<lparr>sk_socket = socket, sk_data = None, sk_last_recv = now\<rparr>)\<rparr>)"

text \<open>One turn of the loop of \<open>socket_start\<close>, for a received frame.\<close>

definition socket_frame :: "parsers \<Rightarrow> u32 \<Rightarrow> int \<Rightarrow> u16 \<Rightarrow> u64 \<Rightarrow> byte list \<Rightarrow> gate_master \<Rightarrow> gate_master" where
  "socket_frame P socket now mid session buffer st =
     (case gm_sockets st socket of None \<Rightarrow> st
      | Some sk \<Rightarrow> let sk = sk\<lparr>sk_last_recv := now\<rparr>; st = st\<lparr>gm_sockets := (gm_sockets st)(socket \<mapsto> sk)\<rparr>
          in forward_message P sk mid session buffer st)"

text \<open>What follows the loop when receiving throws.\<close>

definition socket_broken :: "u32 \<Rightarrow> gate_master \<Rightarrow> gate_master" where
  "socket_broken socket st =
     (case gm_sockets st socket of None \<Rightarrow> st
      | Some sk \<Rightarrow>
          let st = (case sk_data sk of Some g \<Rightarrow> if gd_socket (gate_at st g) = socket then gate_disconnect g st else st | None \<Rightarrow> st)
          in st\<lparr>gm_sockets := (gm_sockets st)(socket := None)\<rparr>)"

text \<open>One turn of \<open>socket_check\<close>; \<open>False\<close> ends the loop.\<close>

definition socket_check :: "u32 \<Rightarrow> int \<Rightarrow> gate_master \<Rightarrow> bool \<times> gate_master" where
  "socket_check socket now st =
     (case gm_sockets st socket of None \<Rightarrow> (False, st)
      | Some sk \<Rightarrow> if now - sk_last_recv sk > 180 then (False, st\<lparr>gm_closed := gm_closed st @ [socket]\<rparr>) else (True, st))"

datatype master_event = Accepted u32 int | Frame u32 int u16 u64 "byte list" | Broken u32 | Check u32 int

fun master_step :: "parsers \<Rightarrow> master_event \<Rightarrow> gate_master \<Rightarrow> gate_master" where
  "master_step P (Accepted socket now) st = accept_socket socket now st"
| "master_step P (Frame socket now mid session buffer) st = socket_frame P socket now mid session buffer st"
| "master_step P (Broken socket) st = socket_broken socket st"
| "master_step P (Check socket now) st = snd (socket_check socket now st)"

text \<open>The network numbers accepted sockets from 1.\<close>

inductive master_reach :: "parsers \<Rightarrow> gate_master \<Rightarrow> bool" for P where
  start: "master_reach P gate_master_init"
| step: "master_reach P st \<Longrightarrow> (\<forall>now. e \<noteq> Accepted 0 now) \<Longrightarrow> master_reach P (master_step P e st)"

section \<open>The registry stays consistent\<close>

lemma ucast_u16_u32 [simp]: "(ucast (ucast s :: u32) :: u16) = s"
  by (rule bit_word_eqI) (simp add: bit_simps)

lemma send_simps [simp]:
  "gm_gates (send a b m st) = gm_gates st" "gm_services (send a b m st) = gm_services st"
  "gm_sockets (send a b m st) = gm_sockets st" "gm_closed (send a b m st) = gm_closed st"
  "gm_written (send a b m st) = gm_written st @ [(a, b, m)]"
  by (simp_all add: send_def)

lemma publish_eq:
  "publish gate st = st\<lparr>gm_written := gm_written st @ map (\<lambda>(g, gd). (gd_socket gd, 0, Gate_register_brd [add_gate_info st (gate_at st gate)]))
     (filter (\<lambda>(g, gd). gd_socket gd \<noteq> 0 \<and> g \<noteq> gate) (gm_gates st))\<rparr>"
proof -
  have "fold (\<lambda>(g, gd) st. if gd_socket gd = 0 \<or> g = gate then st else send (gd_socket gd) 0 brd st) gs st =
      st\<lparr>gm_written := gm_written st @ map (\<lambda>(g, gd). (gd_socket gd, 0, brd)) (filter (\<lambda>(g, gd). gd_socket gd \<noteq> 0 \<and> g \<noteq> gate) gs)\<rparr>" for brd gs
    by (induction gs arbitrary: st) (auto simp: send_def)
  then show ?thesis by (simp add: publish_def Let_def)
qed

lemma publish_simps [simp]:
  "gm_gates (publish g st) = gm_gates st" "gm_services (publish g st) = gm_services st"
  "gm_sockets (publish g st) = gm_sockets st" "gm_closed (publish g st) = gm_closed st"
  by (simp_all add: publish_eq)

lemma set_gate_simps [simp]:
  "map_of (gm_gates (set_gate g gd st)) = (map_of (gm_gates st))(g \<mapsto> gd)" "gm_services (set_gate g gd st) = gm_services st"
  "gm_sockets (set_gate g gd st) = gm_sockets st" "gm_written (set_gate g gd st) = gm_written st"
  "gm_closed (set_gate g gd st) = gm_closed st"
  "distinct (map fst (gm_gates (set_gate g gd st))) = distinct (map fst (gm_gates st))"
  by (simp_all add: set_gate_def update_conv' update_keys)

text \<open>\<open>gates\<close> and \<open>services\<close> agree on who owns what, and the pointers of the sockets point to gates.\<close>

definition registry_core :: "gate_master \<Rightarrow> bool" where
  "registry_core st \<longleftrightarrow> distinct (map fst (gm_gates st)) \<and> gm_sockets st 0 = None
     \<and> (\<forall>g gd. map_of (gm_gates st) g = Some gd \<longrightarrow> gd_id gd = g \<and> distinct (gd_services gd)
          \<and> (\<forall>s. s \<in> set (gd_services gd) \<longleftrightarrow> (\<exists>sd. gm_services st s = Some sd \<and> sd_gate sd = g)))
     \<and> (\<forall>s sd. gm_services st s = Some sd \<longrightarrow> sd_id sd = s \<and> map_of (gm_gates st) (sd_gate sd) \<noteq> None)
     \<and> (\<forall>s sk. gm_sockets st s = Some sk \<longrightarrow> sk_socket sk = s \<and> (\<forall>g. sk_data sk = Some g \<longrightarrow> map_of (gm_gates st) g \<noteq> None))"

text \<open>The socket of a connected gate is known and points back to it.\<close>

definition gate_bound :: "gate_master \<Rightarrow> u16 \<Rightarrow> bool" where
  "gate_bound st g \<longleftrightarrow> (\<forall>gd. map_of (gm_gates st) g = Some gd \<and> gd_socket gd \<noteq> 0 \<longrightarrow>
     (\<exists>sk. gm_sockets st (gd_socket gd) = Some sk \<and> sk_data sk = Some g))"

definition registry_ok :: "gate_master \<Rightarrow> bool" where
  "registry_ok st \<longleftrightarrow> registry_core st \<and> (\<forall>g. gate_bound st g)"

lemma gate_at_Some [simp]: "map_of (gm_gates st) g = Some gd \<Longrightarrow> gate_at st g = gd"
  by (simp add: gate_at_def)

lemma registry_coreI:
  assumes "distinct (map fst (gm_gates st))" "gm_sockets st 0 = None"
    "\<And>g gd. map_of (gm_gates st) g = Some gd \<Longrightarrow> gd_id gd = g \<and> distinct (gd_services gd)"
    "\<And>g gd s. map_of (gm_gates st) g = Some gd \<Longrightarrow> s \<in> set (gd_services gd) \<longleftrightarrow> (\<exists>sd. gm_services st s = Some sd \<and> sd_gate sd = g)"
    "\<And>s sd. gm_services st s = Some sd \<Longrightarrow> sd_id sd = s \<and> map_of (gm_gates st) (sd_gate sd) \<noteq> None"
    "\<And>s sk. gm_sockets st s = Some sk \<Longrightarrow> sk_socket sk = s \<and> (\<forall>g. sk_data sk = Some g \<longrightarrow> map_of (gm_gates st) g \<noteq> None)"
  shows "registry_core st"
  using assms unfolding registry_core_def by blast

lemma registry_coreD:
  assumes "registry_core st"
  shows "distinct (map fst (gm_gates st))" "gm_sockets st 0 = None"
    "map_of (gm_gates st) g = Some gd \<Longrightarrow> gd_id gd = g \<and> distinct (gd_services gd)"
    "map_of (gm_gates st) g = Some gd \<Longrightarrow> s \<in> set (gd_services gd) \<longleftrightarrow> (\<exists>sd. gm_services st s = Some sd \<and> sd_gate sd = g)"
    "gm_services st s = Some sd \<Longrightarrow> sd_id sd = s \<and> map_of (gm_gates st) (sd_gate sd) \<noteq> None"
    "gm_sockets st sock = Some sk \<Longrightarrow> sk_socket sk = sock \<and> (\<forall>g. sk_data sk = Some g \<longrightarrow> map_of (gm_gates st) g \<noteq> None)"
  using assms unfolding registry_core_def by blast+

lemma add_service_new:
  assumes "registry_core st" "map_of (gm_gates st) gate = Some gd" "gm_services st (ucast (si_id s)) = None"
  shows "registry_core (add_service gate s st)"
proof -
  define i where "i = (ucast (si_id s) :: u16)"
  note c = registry_coreD [OF assms(1)]
  have id: "gd_id gd = gate" using c(3) assms(2) by blast
  have fresh: "i \<notin> set (gd_services gd')" if "map_of (gm_gates st) g = Some gd'" for g gd'
    using c(4) [OF that] assms(3) by (auto simp: i_def)
  let ?u = "add_service gate s st"
  let ?gd = "gd\<lparr>gd_services := gd_services gd @ [i]\<rparr>"
  let ?sd = "\<lparr>sd_id = i, sd_tp = ucast (si_tp s), sd_gate = gate, sd_online = si_online s\<rparr>"
  have u: "map_of (gm_gates ?u) = (map_of (gm_gates st))(gate \<mapsto> ?gd)" "gm_services ?u = (gm_services st)(i \<mapsto> ?sd)"
      "gm_sockets ?u = gm_sockets st" "distinct (map fst (gm_gates ?u)) = distinct (map fst (gm_gates st))"
    using assms(2,3) id by (simp_all add: add_service_def Let_def i_def [symmetric] gate_at_def)
  show ?thesis
  proof (rule registry_coreI)
    show "distinct (map fst (gm_gates ?u))" "gm_sockets ?u 0 = None" using u c(1,2) by simp_all
    show "gd_id gd' = g \<and> distinct (gd_services gd')" if "map_of (gm_gates ?u) g = Some gd'" for g gd'
      using that c(3) [of g] c(3) [OF assms(2)] fresh [OF assms(2)] unfolding u(1) by (auto split: if_splits)
    show "x \<in> set (gd_services gd') \<longleftrightarrow> (\<exists>sd. gm_services ?u x = Some sd \<and> sd_gate sd = g)" if "map_of (gm_gates ?u) g = Some gd'" for g gd' x
    proof (cases "g = gate")
      case True
      then show ?thesis using that c(4) [OF assms(2), of x] unfolding u(1,2) by auto
    next
      case False
      then show ?thesis using that c(4) [of g gd' x] fresh [of g gd'] unfolding u(1,2) by auto
    qed
    show "sd_id sd = x \<and> map_of (gm_gates ?u) (sd_gate sd) \<noteq> None" if "gm_services ?u x = Some sd" for x sd
      using that c(5) [of x] unfolding u(1,2) by (auto split: if_splits)
    show "sk_socket sk = x \<and> (\<forall>g. sk_data sk = Some g \<longrightarrow> map_of (gm_gates ?u) g \<noteq> None)" if "gm_sockets ?u x = Some sk" for x sk
      using that c(6) [of x] unfolding u(1,3) by auto
  qed
qed

lemma add_service_frame [simp]:
  "gm_sockets (add_service gate s st) = gm_sockets st" "gm_written (add_service gate s st) = gm_written st"
  "gm_closed (add_service gate s st) = gm_closed st"
  by (simp_all add: add_service_def Let_def set_gate_def split: option.splits)

lemma add_service_gates:
  assumes "map_of (gm_gates st) gate \<noteq> None"
  shows "map_of (gm_gates (add_service gate s st)) g = None \<longleftrightarrow> map_of (gm_gates st) g = None"
    "gd_socket (gate_at (add_service gate s st) g) = gd_socket (gate_at st g)"
  using assms by (auto simp: add_service_def Let_def gate_at_def split: option.splits)

lemma add_service_core:
  assumes "registry_core st" "map_of (gm_gates st) gate \<noteq> None"
  shows "registry_core (add_service gate s st)"
proof (cases "gm_services st (ucast (si_id s))")
  case None
  then show ?thesis using add_service_new assms by blast
next
  case (Some sd)
  note c = registry_coreD [OF assms(1)]
  define i where "i = (ucast (si_id s) :: u16)"
  have u: "gm_gates (add_service gate s st) = gm_gates st" "gm_services (add_service gate s st) = (gm_services st)(i \<mapsto> sd\<lparr>sd_online := si_online s\<rparr>)"
    using Some by (simp_all add: add_service_def Let_def i_def)
  show ?thesis using c Some by (intro registry_coreI) (auto simp: u i_def [symmetric] split: if_splits)
qed

lemma add_services_core:
  assumes "registry_core st" "map_of (gm_gates st) gate \<noteq> None"
  shows "registry_core (add_services ss gate st) \<and> gm_sockets (add_services ss gate st) = gm_sockets st
    \<and> gm_written (add_services ss gate st) = gm_written st \<and> gm_closed (add_services ss gate st) = gm_closed st
    \<and> (\<forall>g. (map_of (gm_gates (add_services ss gate st)) g = None \<longleftrightarrow> map_of (gm_gates st) g = None)
         \<and> gd_socket (gate_at (add_services ss gate st) g) = gd_socket (gate_at st g))"
  using assms unfolding add_services_def
proof (induction ss arbitrary: st)
  case (Cons s ss)
  then show ?case using Cons.IH [of "add_service gate s st"] add_service_core add_service_gates by auto
qed simp

lemma gate_bound_at: "gate_bound st g \<longleftrightarrow> (gd_socket (gate_at st g) \<noteq> 0 \<longrightarrow> (\<exists>sk. gm_sockets st (gd_socket (gate_at st g)) = Some sk \<and> sk_data sk = Some g))"
  by (auto simp: gate_bound_def gate_at_def split: option.splits)

lemma set_gate_core:
  assumes "registry_core st" "map_of (gm_gates st) g = Some gd"
  shows "registry_core (set_gate g (gd\<lparr>gd_socket := x, gd_addresses := a\<rparr>) st)"
  using registry_coreD [OF assms(1)] assms(2) by (intro registry_coreI) (auto split: if_splits)

lemma set_gate_at [simp]: "gate_at (set_gate g gd st) h = (if h = g then gd else gate_at st h)"
  by (simp add: gate_at_def)

lemma set_socket_data_simps [simp]:
  "gm_gates (set_socket_data s d st) = gm_gates st" "gm_services (set_socket_data s d st) = gm_services st"
  "gm_written (set_socket_data s d st) = gm_written st" "gm_closed (set_socket_data s d st) = gm_closed st"
  "gate_at (set_socket_data s d st) = gate_at st"
  by (simp_all add: set_socket_data_def gate_at_def fun_eq_iff split: option.splits)

lemma set_socket_data_core:
  assumes "registry_core st" "\<forall>g. d = Some g \<longrightarrow> map_of (gm_gates st) g \<noteq> None"
  shows "registry_core (set_socket_data s d st)"
  using registry_coreD [OF assms(1)] assms(2)
  by (intro registry_coreI) (auto simp: set_socket_data_def split: option.splits if_splits)

lemma new_gate_core:
  assumes "registry_core st" "map_of (gm_gates st) i = None"
  shows "registry_core (st\<lparr>gm_gates := gm_gates st @ [(i, \<lparr>gd_id = i, gd_socket = 0, gd_addresses = [], gd_services = []\<rparr>)]\<rparr>)"
proof -
  note c = registry_coreD [OF assms(1)]
  have m: "map_of (gm_gates st @ [(i, x)]) = (map_of (gm_gates st))(i \<mapsto> x)" for x
    using assms(2) by (auto simp: fun_eq_iff map_add_def split: option.splits)
  have "i \<notin> set (map fst (gm_gates st))" using assms(2) by (simp add: map_of_eq_None_iff)
  let ?n = "\<lparr>gd_id = i, gd_socket = 0, gd_addresses = [], gd_services = []\<rparr>"
  let ?u = "st\<lparr>gm_gates := gm_gates st @ [(i, ?n)]\<rparr>"
  have none: "sd_gate sd \<noteq> i" if "gm_services st s = Some sd" for s sd using c(5) [OF that] assms(2) by auto
  have u: "map_of (gm_gates ?u) = (map_of (gm_gates st))(i \<mapsto> ?n)" using m [of ?n] by simp
  show ?thesis
  proof (rule registry_coreI)
    show "distinct (map fst (gm_gates ?u))" "gm_sockets ?u 0 = None" using c(1,2) \<open>i \<notin> _\<close> by simp_all
    show "gd_id gd = g \<and> distinct (gd_services gd)" if "map_of (gm_gates ?u) g = Some gd" for g gd
      using that c(3) [of g] unfolding u by (auto split: if_splits)
    show "s \<in> set (gd_services gd) \<longleftrightarrow> (\<exists>sd. gm_services ?u s = Some sd \<and> sd_gate sd = g)" if "map_of (gm_gates ?u) g = Some gd" for g gd s
    proof (cases "g = i")
      case True
      then show ?thesis using that none unfolding u by auto
    next
      case False
      then show ?thesis using that c(4) [of g gd s] unfolding u by auto
    qed
    show "sd_id sd = s \<and> map_of (gm_gates ?u) (sd_gate sd) \<noteq> None" if "gm_services ?u s = Some sd" for s sd
      using that c(5) [of s] unfolding u by auto
    show "sk_socket sk = s \<and> (\<forall>g. sk_data sk = Some g \<longrightarrow> map_of (gm_gates ?u) g \<noteq> None)" if "gm_sockets ?u s = Some sk" for s sk
      using that c(6) [of s] unfolding u by auto
  qed
qed

text \<open>Registering keeps the registry consistent when the socket already points to the gate.\<close>

lemma registry_ok_core_cong:
  "gm_gates s = gm_gates t \<Longrightarrow> gm_services s = gm_services t \<Longrightarrow> gm_sockets s = gm_sockets t \<Longrightarrow> registry_core s = registry_core t"
  by (simp add: registry_core_def)

lemma registry_ok_cong:
  "gm_gates s = gm_gates t \<Longrightarrow> gm_services s = gm_services t \<Longrightarrow> gm_sockets s = gm_sockets t \<Longrightarrow> registry_ok s = registry_ok t"
  by (simp add: registry_ok_def gate_bound_def registry_core_def)

lemma register_gate_ok:
  assumes c: "registry_core st" and g: "map_of (gm_gates st) gate \<noteq> None"
    and b: "\<forall>h. h \<noteq> gate \<longrightarrow> gate_bound st h"
    and s: "gm_sockets st socket = Some sk" "sk_data sk = Some gate"
  shows "registry_ok (register_gate socket session info gate st)"
proof -
  obtain gd where gd: "map_of (gm_gates st) gate = Some gd" using g by auto
  define t where "t = set_gate gate (gd\<lparr>gd_socket := socket, gd_addresses := gi_addresses info\<rparr>) st"
  have t: "registry_core t" "map_of (gm_gates t) gate \<noteq> None" using set_gate_core [OF c gd] by (simp_all add: t_def)
  define u where "u = add_services (gi_services info) gate t"
  note a = add_services_core [OF t, of "gi_services info", folded u_def]
  have "gate_bound u h" for h
  proof (cases "h = gate")
    case True
    then show ?thesis using a s by (auto simp: gate_bound_at t_def)
  next
    case False
    then show ?thesis using a b by (auto simp: gate_bound_at t_def)
  qed
  then have "registry_ok u" using a by (simp add: registry_ok_def)
  moreover have "gm_gates (register_gate socket session info gate st) = gm_gates u" "gm_services (register_gate socket session info gate st) = gm_services u"
      "gm_sockets (register_gate socket session info gate st) = gm_sockets u"
    using gd by (simp_all add: register_gate_def Let_def u_def t_def gate_at_def)
  ultimately show ?thesis using registry_ok_cong by blast
qed

lemma registry_okD:
  assumes "registry_ok st"
  shows "registry_core st" "gate_bound st g"
  using assms by (simp_all add: registry_ok_def)

lemma drop_previous_ok:
  assumes ok: "registry_ok st" and s: "gm_sockets st (sk_socket sk) = Some sk"
  shows "registry_core (drop_previous (sk_socket sk) g st)" "h \<noteq> g \<Longrightarrow> gate_bound (drop_previous (sk_socket sk) g st) h"
    "gm_sockets (drop_previous (sk_socket sk) g st) (sk_socket sk) = Some sk"
    "gm_gates (drop_previous (sk_socket sk) g st) = gm_gates st" "gm_services (drop_previous (sk_socket sk) g st) = gm_services st"
    "gm_written (drop_previous (sk_socket sk) g st) = gm_written st"
proof -
  let ?t = "drop_previous (sk_socket sk) g st"
  note c = registry_okD(1) [OF ok]
  define old where "old = gd_socket (gate_at st g)"
  have t: "gate_at ?t = gate_at st"
      "gm_sockets ?t = (if old \<noteq> sk_socket sk \<and> gm_sockets st old \<noteq> None then gm_sockets (set_socket_data old None st) else gm_sockets st)"
    by (simp_all add: drop_previous_def Let_def old_def gate_at_def fun_eq_iff)
  show g: "gm_gates ?t = gm_gates st" "gm_services ?t = gm_services st" "gm_written ?t = gm_written st"
    by (simp_all add: drop_previous_def Let_def)
  show "registry_core ?t"
    using registry_ok_core_cong [of ?t "set_socket_data old None st"] registry_ok_core_cong [of ?t st]
      set_socket_data_core [OF c, of None old] c g t(2) by (auto split: if_splits)
  show "gate_bound ?t h" if h: "h \<noteq> g"
  proof -
    have "gd_socket (gate_at st h) \<noteq> old \<or> old = 0"
      using registry_okD(2) [OF ok, of h] registry_okD(2) [OF ok, of g] h by (auto simp: gate_bound_at old_def)
    then show ?thesis
      using registry_okD(2) [OF ok, of h] by (auto simp: gate_bound_at t set_socket_data_def split: option.splits)
  qed
  show "gm_sockets ?t (sk_socket sk) = Some sk" using s by (auto simp: t(2) set_socket_data_def split: option.splits)
qed

lemma emplace_gate_ok:
  assumes ok: "registry_ok st" and s: "gm_sockets st (sk_socket sk) = Some sk" "sk_data sk = None"
  shows "registry_core (set_socket_data (sk_socket sk) (Some i) (emplace_gate i st))"
    "gate_bound (set_socket_data (sk_socket sk) (Some i) (emplace_gate i st)) h"
    "map_of (gm_gates (emplace_gate i st)) i \<noteq> None"
    "gm_sockets (set_socket_data (sk_socket sk) (Some i) (emplace_gate i st)) = (gm_sockets st)(sk_socket sk \<mapsto> sk\<lparr>sk_data := Some i\<rparr>)"
    "gm_services (emplace_gate i st) = gm_services st" "gm_written (emplace_gate i st) = gm_written st"
proof -
  let ?t = "emplace_gate i st" and ?u = "set_socket_data (sk_socket sk) (Some i) (emplace_gate i st)"
  have t: "registry_core ?t" "gm_sockets ?t = gm_sockets st"
    using new_gate_core [OF registry_okD(1) [OF ok], of i] registry_okD(1) [OF ok] by (auto simp: emplace_gate_def)
  show m: "map_of (gm_gates ?t) i \<noteq> None" and "gm_services ?t = gm_services st" "gm_written ?t = gm_written st"
    by (auto simp: emplace_gate_def map_add_def split: option.splits)
  have n: "gd_socket (gate_at ?t h) = gd_socket (gate_at st h)" for h
    by (auto simp: emplace_gate_def gate_at_def map_add_def split: option.splits)
  show "registry_core ?u" using set_socket_data_core [OF t(1), of "Some i"] m by auto
  show u: "gm_sockets ?u = (gm_sockets st)(sk_socket sk \<mapsto> sk\<lparr>sk_data := Some i\<rparr>)" using s t(2) by (auto simp: set_socket_data_def)
  have "gd_socket (gate_at st h) \<noteq> sk_socket sk \<or> gd_socket (gate_at st h) = 0"
    using registry_okD(2) [OF ok, of h] s by (auto simp: gate_bound_at)
  then show "gate_bound ?u h" using registry_okD(2) [OF ok, of h] n by (auto simp: gate_bound_at u)
qed

lemma registry_ok_send [simp]: "registry_ok (send a b m st) = registry_ok st"
  by (rule registry_ok_cong) simp_all

lemma registry_ok_publish [simp]: "registry_ok (publish g st) = registry_ok st"
  by (rule registry_ok_cong) simp_all

lemma gate_register_ok:
  assumes ok: "registry_ok st" and s: "gm_sockets st (sk_socket sk) = Some sk"
  shows "registry_ok (gate_register P sk session buffer st)"
proof (cases "sk_data sk")
  case (Some g)
  have g: "map_of (gm_gates st) g \<noteq> None" using registry_coreD(6) [OF registry_okD(1) [OF ok] s] Some by blast
  have "registry_ok (register_gate (sk_socket sk) session info g (drop_previous (sk_socket sk) g st))" for info
    using register_gate_ok drop_previous_ok [OF ok s] g Some by metis
  then show ?thesis using Some ok by (simp add: gate_register_def Let_def split: option.splits)
next
  case None
  have "registry_ok (register_gate (sk_socket sk) session info i (set_socket_data (sk_socket sk) (Some i) (emplace_gate i st)))" for info i
    using emplace_gate_ok [OF ok s None, of i] by (intro register_gate_ok) auto
  then show ?thesis using None ok by (simp add: gate_register_def Let_def split: option.splits)
qed

lemma gate_upload_ok:
  assumes ok: "registry_ok st" and s: "gm_sockets st (sk_socket sk) = Some sk"
  shows "registry_ok (gate_upload P sk session buffer st)"
proof -
  have "registry_ok (add_services ss g st)" if "sk_data sk = Some g" for ss g
  proof -
    have "map_of (gm_gates st) g \<noteq> None" using registry_coreD(6) [OF registry_okD(1) [OF ok] s] that by blast
    then show ?thesis using add_services_core [OF registry_okD(1) [OF ok], of g ss] registry_okD(2) [OF ok]
      by (auto simp: registry_ok_def gate_bound_at)
  qed
  then show ?thesis using ok by (simp add: gate_upload_def split: option.splits)
qed

lemma offline_fold:
  "fold (\<lambda>s st. st\<lparr>gm_services := (gm_services st)(s \<mapsto> (service_at st s)\<lparr>sd_online := False\<rparr>)\<rparr>) ss st =
     st\<lparr>gm_services := (\<lambda>s. if s \<in> set ss then Some ((service_at st s)\<lparr>sd_online := False\<rparr>) else gm_services st s)\<rparr>"
proof (induction ss arbitrary: st)
  case (Cons s ss)
  show ?case unfolding fold_Cons comp_apply Cons.IH by (auto simp: service_at_def fun_eq_iff intro!: arg_cong [where f = "\<lambda>x. st\<lparr>gm_services := x\<rparr>"])
qed simp

definition offline :: "u16 \<Rightarrow> gate_master \<Rightarrow> gate_master" where
  "offline g st = st\<lparr>gm_gates := AList.update g ((gate_at st g)\<lparr>gd_socket := 0\<rparr>) (gm_gates st),
     gm_services := (\<lambda>s. if s \<in> set (gd_services (gate_at st g)) then Some ((service_at st s)\<lparr>sd_online := False\<rparr>) else gm_services st s)\<rparr>"

lemma gate_disconnect_eq: "gate_disconnect g st = publish g (offline g st)"
proof -
  have s: "service_at (set_gate g gd st) = service_at st" for gd by (simp add: service_at_def fun_eq_iff)
  show ?thesis unfolding gate_disconnect_def Let_def offline_fold s set_gate_simps(2) by (simp add: offline_def) (simp add: set_gate_def)
qed

lemma offline_simps [simp]:
  "gm_sockets (offline g st) = gm_sockets st" "gm_written (offline g st) = gm_written st" "gm_closed (offline g st) = gm_closed st"
  "map_of (gm_gates (offline g st)) = (map_of (gm_gates st))(g \<mapsto> (gate_at st g)\<lparr>gd_socket := 0\<rparr>)"
  "gate_at (offline g st) h = (if h = g then (gate_at st g)\<lparr>gd_socket := 0\<rparr> else gate_at st h)"
  by (simp_all add: offline_def gate_at_def update_conv')

lemma offline_core:
  assumes c: "registry_core st" and g: "map_of (gm_gates st) g = Some gd"
  shows "registry_core (offline g st)"
proof -
  note d = registry_coreD [OF c]
  let ?u = "offline g st"
  have m: "map_of (gm_gates ?u) = (map_of (gm_gates st))(g \<mapsto> gd\<lparr>gd_socket := 0\<rparr>)" using g by simp
  have s: "gm_services ?u x = (if x \<in> set (gd_services gd) then Some ((service_at st x)\<lparr>sd_online := False\<rparr>) else gm_services st x)" for x
    using g by (simp add: offline_def)
  have e: "(\<exists>sd. gm_services ?u x = Some sd \<and> sd_gate sd = h \<and> sd_id sd = i) \<longleftrightarrow> (\<exists>sd. gm_services st x = Some sd \<and> sd_gate sd = h \<and> sd_id sd = i)" for x h i
    using d(4) [OF g, of x] unfolding s by (auto simp: service_at_def)
  show ?thesis
  proof (rule registry_coreI)
    show "distinct (map fst (gm_gates ?u))" "gm_sockets ?u 0 = None" using d(1,2) by (simp_all add: offline_def update_keys)
    show "gd_id gd' = h \<and> distinct (gd_services gd')" if "map_of (gm_gates ?u) h = Some gd'" for h gd'
      using that d(3) [of h] unfolding m by (auto split: if_splits simp: d(3) [OF g])
    show "x \<in> set (gd_services gd') \<longleftrightarrow> (\<exists>sd. gm_services ?u x = Some sd \<and> sd_gate sd = h)" if "map_of (gm_gates ?u) h = Some gd'" for h gd' x
      using that e [of x h] d(4) [OF g, of x] d(4) [of h gd' x] unfolding m by (auto split: if_splits)
    show "sd_id sd = x \<and> map_of (gm_gates ?u) (sd_gate sd) \<noteq> None" if "gm_services ?u x = Some sd" for x sd
      using that e [of x "sd_gate sd" "sd_id sd"] d(5) [of x] unfolding m by (auto split: if_splits)
    show "sk_socket sk = x \<and> (\<forall>h. sk_data sk = Some h \<longrightarrow> map_of (gm_gates ?u) h \<noteq> None)" if "gm_sockets ?u x = Some sk" for x sk
      using that d(6) [of x] unfolding m by auto
  qed
qed

lemma erase_socket_ok:
  assumes "registry_core st" "\<And>g. gate_bound st g" "\<And>g. gd_socket (gate_at st g) \<noteq> s"
  shows "registry_ok (st\<lparr>gm_sockets := (gm_sockets st)(s := None)\<rparr>)"
proof -
  have "registry_core (st\<lparr>gm_sockets := (gm_sockets st)(s := None)\<rparr>)"
    using registry_coreD [OF assms(1)] by (intro registry_coreI) (auto split: if_splits)
  moreover have "gate_bound (st\<lparr>gm_sockets := (gm_sockets st)(s := None)\<rparr>) g" for g
    using assms(2) [of g] assms(3) [of g] by (auto simp: gate_bound_def gate_at_def)
  ultimately show ?thesis by (simp add: registry_ok_def)
qed

lemma socket_broken_ok:
  assumes ok: "registry_ok st"
  shows "registry_ok (socket_broken s st)"
proof (cases "gm_sockets st s")
  case (Some sk)
  note c = registry_okD(1) [OF ok] and b = registry_okD(2) [OF ok]
  have s0: "s \<noteq> 0" using registry_coreD(2) [OF c] Some by auto
  show ?thesis
  proof (cases "\<exists>g. sk_data sk = Some g \<and> gd_socket (gate_at st g) = s")
    case True
    then obtain g where g: "sk_data sk = Some g" "gd_socket (gate_at st g) = s" by blast
    obtain gd where gd: "map_of (gm_gates st) g = Some gd" using registry_coreD(6) [OF c Some] g(1) by blast
    have only: "h = g" if "gd_socket (gate_at st h) = s" for h using b [of h] that s0 Some g(1) by (auto simp: gate_bound_at)
    have p: "registry_core (publish g (offline g st))"
      using offline_core [OF c gd] registry_ok_core_cong [of "publish g (offline g st)" "offline g st"] by simp
    have gp: "gate_at (publish g (offline g st)) = gate_at (offline g st)" by (simp add: gate_at_def fun_eq_iff)
    show ?thesis
    proof -
      have bound: "gate_bound (publish g (offline g st)) h" for h using b [of h] by (simp add: gate_bound_at gp)
      have ne: "gd_socket (gate_at (publish g (offline g st)) h) \<noteq> s" for h
        using only s0 unfolding gp offline_simps(5) by (cases "h = g") auto
      show ?thesis using erase_socket_ok [OF p bound ne] Some g by (simp add: socket_broken_def gate_disconnect_eq)
    qed
  next
    case False
    have "gd_socket (gate_at st h) \<noteq> s" for h
      using b [of h] False s0 Some by (auto simp: gate_bound_at)
    then show ?thesis using erase_socket_ok [OF c b] False Some by (auto simp: socket_broken_def split: option.splits)
  qed
qed (simp add: socket_broken_def ok)

lemma touch_socket_ok:
  assumes ok: "registry_ok st" and s: "gm_sockets st s = Some sk"
  shows "registry_ok (st\<lparr>gm_sockets := (gm_sockets st)(s \<mapsto> sk\<lparr>sk_last_recv := now\<rparr>)\<rparr>)"
proof -
  let ?t = "st\<lparr>gm_sockets := (gm_sockets st)(s \<mapsto> sk\<lparr>sk_last_recv := now\<rparr>)\<rparr>"
  have "registry_core ?t"
    using registry_coreD [OF registry_okD(1) [OF ok]] s by (intro registry_coreI) (auto split: if_splits)
  moreover have "gate_bound ?t g" for g using registry_okD(2) [OF ok, of g] s by (auto simp: gate_bound_def)
  ultimately show ?thesis by (simp add: registry_ok_def)
qed

lemma socket_frame_ok:
  assumes ok: "registry_ok st"
  shows "registry_ok (socket_frame P s now mid session buffer st)"
proof (cases "gm_sockets st s")
  case (Some sk)
  let ?sk = "sk\<lparr>sk_last_recv := now\<rparr>" and ?t = "st\<lparr>gm_sockets := (gm_sockets st)(s \<mapsto> sk\<lparr>sk_last_recv := now\<rparr>)\<rparr>"
  have t: "registry_ok ?t" by (rule touch_socket_ok [OF ok Some])
  have "sk_socket sk = s" using registry_coreD(6) [OF registry_okD(1) [OF ok] Some] by simp
  then have k: "gm_sockets ?t (sk_socket ?sk) = Some ?sk" by simp
  have "registry_ok (forward_message P ?sk mid session buffer ?t)"
    using gate_register_ok [OF t k, of P session buffer] gate_upload_ok [OF t k, of P session buffer] t
    unfolding forward_message_def proc_ping_def registry_ok_send if_distrib [of registry_ok] by simp
  then show ?thesis using Some by (simp add: socket_frame_def Let_def)
qed (simp add: socket_frame_def ok)

lemma accept_socket_ok:
  assumes ok: "registry_ok st" and s: "s \<noteq> 0"
  shows "registry_ok (accept_socket s now st)"
proof (cases "gm_sockets st s")
  case None
  let ?t = "st\<lparr>gm_sockets := (gm_sockets st)(s \<mapsto> \<lparr>sk_socket = s, sk_data = None, sk_last_recv = now\<rparr>)\<rparr>"
  have "registry_core ?t"
    using registry_coreD [OF registry_okD(1) [OF ok]] s by (intro registry_coreI) (auto split: if_splits)
  moreover have "gate_bound ?t g" for g using registry_okD(2) [OF ok, of g] None by (auto simp: gate_bound_def)
  ultimately show ?thesis using None by (simp add: registry_ok_def accept_socket_def)
qed (simp add: accept_socket_def ok)

lemma master_reach_ok: "master_reach P st \<Longrightarrow> registry_ok st"
proof (induction rule: master_reach.induct)
  case start
  show ?case by (auto simp: gate_master_init_def registry_ok_def gate_bound_def registry_core_def)
next
  case (step st e)
  show ?case
  proof (cases e)
    case (Accepted s now)
    then show ?thesis using step accept_socket_ok by auto
  next
    case (Check s now)
    have "registry_ok (snd (socket_check s now st)) = registry_ok st"
      by (rule registry_ok_cong) (simp_all add: socket_check_def split: option.splits)
    then show ?thesis using Check step.IH by simp
  qed (use step.IH socket_frame_ok socket_broken_ok in auto)
qed

section \<open>Properties\<close>

lemma count_list_distinct: "distinct xs \<Longrightarrow> count_list xs x = (if x \<in> set xs then 1 else 0)"
  by (induction xs) auto

text \<open>C4: In every state the registry can reach, each known service is listed by exactly one gate, the one it names as its
  owner, and once; nothing else is listed; and two connected gates never share a socket.\<close>

theorem registry_consistent:
  assumes "master_reach P st"
  shows "(\<forall>s g. map_of (gm_gates st) g \<noteq> None \<longrightarrow> count_list (gd_services (gate_at st g)) s =
           (case gm_services st s of Some sd \<Rightarrow> if sd_gate sd = g then 1 else 0 | None \<Rightarrow> 0))
     \<and> (\<forall>s sd. gm_services st s = Some sd \<longrightarrow> sd_id sd = s \<and> s \<in> set (gd_services (gate_at st (sd_gate sd))))
     \<and> (\<forall>g h. gd_socket (gate_at st g) = gd_socket (gate_at st h) \<and> gd_socket (gate_at st g) \<noteq> 0 \<longrightarrow> g = h)"
proof (intro conjI allI impI)
  note ok = master_reach_ok [OF assms]
  note c = registry_okD(1) [OF ok] and b = registry_okD(2) [OF ok]
  fix s g assume "map_of (gm_gates st) g \<noteq> None"
  then obtain gd where gd: "map_of (gm_gates st) g = Some gd" by auto
  have "count_list (gd_services gd) s = (if s \<in> set (gd_services gd) then 1 else 0)"
    using registry_coreD(3) [OF c gd] by (simp add: count_list_distinct)
  then show "count_list (gd_services (gate_at st g)) s =
      (case gm_services st s of Some sd \<Rightarrow> if sd_gate sd = g then 1 else 0 | None \<Rightarrow> 0)"
    using registry_coreD(4) [OF c gd, of s] gd by (auto split: option.splits)
next
  note ok = master_reach_ok [OF assms]
  note c = registry_okD(1) [OF ok] and b = registry_okD(2) [OF ok]
  fix s sd assume s: "gm_services st s = Some sd"
  then show "sd_id sd = s" using registry_coreD(5) [OF c] by blast
  obtain gd where "map_of (gm_gates st) (sd_gate sd) = Some gd" using registry_coreD(5) [OF c s] by auto
  then show "s \<in> set (gd_services (gate_at st (sd_gate sd)))" using registry_coreD(4) [OF c, of "sd_gate sd" gd s] s by auto
next
  note ok = master_reach_ok [OF assms]
  fix g h assume "gd_socket (gate_at st g) = gd_socket (gate_at st h) \<and> gd_socket (gate_at st g) \<noteq> 0"
  then show "g = h" using registry_okD(2) [OF ok, of g] registry_okD(2) [OF ok, of h] by (auto simp: gate_bound_at)
qed

text \<open>Two gates have registered and the first has uploaded a service of its own.\<close>

definition sample_parsers :: parsers where
  "sample_parsers = \<lparr>parse_register_req = (\<lambda>bs. case bs of [b] \<Rightarrow> Some \<lparr>gi_id = ucast b, gi_services = [], gi_addresses = []\<rparr> | _ \<Rightarrow> None),
     parse_update_req = (\<lambda>bs. Some (map (\<lambda>b. \<lparr>si_id = ucast b, si_tp = 3, si_online = True\<rparr>) bs)), parse_empty = (\<lambda>bs. bs = [])\<rparr>"

definition sample_events :: "master_event list" where
  "sample_events = [Accepted 5 0, Accepted 6 0, Frame 5 1 id_s_gate_register_req 1 [1], Frame 6 1 id_s_gate_register_req 2 [2],
     Frame 5 2 id_s_service_update_req 3 [9]]"

lemma master_run_reach: "master_reach P st \<Longrightarrow> (\<forall>now. Accepted 0 now \<notin> set es) \<Longrightarrow> master_reach P (fold (master_step P) es st)"
proof (induction es arbitrary: st)
  case (Cons e es)
  then have "master_reach P (master_step P e st)" by (intro master_reach.step) auto
  then show ?case using Cons by simp
qed simp

definition sample_master :: gate_master where
  "sample_master = fold (master_step sample_parsers) sample_events gate_master_init"

lemma sample_reach: "master_reach sample_parsers sample_master"
  unfolding sample_master_def by (rule master_run_reach [OF master_reach.start]) (simp add: sample_events_def)

lemmas master_code = gate_master_init_def sample_parsers_def sample_events_def accept_socket_def socket_frame_def forward_message_def
  id_s_gate_register_req_def id_s_service_update_req_def id_s_ping_req_def gate_register_def gate_upload_def check_services_def
  register_gate_def emplace_gate_def set_socket_data_def set_gate_def gate_at_def add_services_def add_service_def send_def
  publish_def add_gate_info_def service_at_def Let_def

lemma sample_master_eq: "sample_master = \<lparr>gm_gates = [(1, \<lparr>gd_id = 1, gd_socket = 5, gd_addresses = [], gd_services = [9]\<rparr>),
     (2, \<lparr>gd_id = 2, gd_socket = 6, gd_addresses = [], gd_services = []\<rparr>)],
   gm_services = [9 \<mapsto> \<lparr>sd_id = 9, sd_tp = 3, sd_gate = 1, sd_online = True\<rparr>],
   gm_sockets = [5 \<mapsto> \<lparr>sk_socket = 5, sk_data = Some 1, sk_last_recv = 2\<rparr>, 6 \<mapsto> \<lparr>sk_socket = 6, sk_data = Some 2, sk_last_recv = 1\<rparr>],
   gm_written = [(5, 1, Gate_register_ack Ec_success []),
     (6, 2, Gate_register_ack Ec_success [\<lparr>gi_id = 1, gi_services = [], gi_addresses = []\<rparr>]),
     (5, 0, Gate_register_brd [\<lparr>gi_id = 2, gi_services = [], gi_addresses = []\<rparr>]),
     (5, 3, Service_update_ack Ec_success),
     (6, 0, Gate_register_brd [\<lparr>gi_id = 1, gi_services = [\<lparr>si_id = 9, si_tp = 3, si_online = True\<rparr>], gi_addresses = []\<rparr>])],
   gm_closed = []\<rparr>"
  unfolding sample_master_def by (simp add: master_code) (auto simp: fun_eq_iff)

theorem registry_consistent_witness: "count_list (gd_services (gate_at sample_master 1)) 9 = 1"
  using conjunct1 [OF registry_consistent [OF sample_reach], rule_format, of 1 9] by (simp add: sample_master_eq)

text \<open>A service keeps its gate and its type.\<close>

definition owners_kept :: "gate_master \<Rightarrow> gate_master \<Rightarrow> bool" where
  "owners_kept st st' \<longleftrightarrow> (\<forall>s sd. gm_services st s = Some sd \<longrightarrow>
     (\<exists>sd'. gm_services st' s = Some sd' \<and> sd_gate sd' = sd_gate sd \<and> sd_tp sd' = sd_tp sd))"

lemma owners_kept_refl: "gm_services st' = gm_services st \<Longrightarrow> owners_kept st st'"
  by (simp add: owners_kept_def)

lemma owners_kept_trans: "owners_kept a b \<Longrightarrow> owners_kept b c \<Longrightarrow> owners_kept a c"
  unfolding owners_kept_def by fastforce

lemma owners_kept_add: "owners_kept st (add_services ss g st)"
  unfolding add_services_def
proof (induction ss arbitrary: st)
  case (Cons s ss)
  have "owners_kept st (add_service g s st)" by (auto simp: owners_kept_def add_service_def Let_def split: option.splits)
  then show ?case using Cons owners_kept_trans by fastforce
qed (simp add: owners_kept_refl)

lemma owners_kept_register: "gm_services t = gm_services st \<Longrightarrow> owners_kept st (register_gate socket session info g t)"
  using owners_kept_add [of "set_gate g ((gate_at t g)\<lparr>gd_socket := socket, gd_addresses := gi_addresses info\<rparr>) t" "gi_services info" g]
  by (simp add: owners_kept_def register_gate_def Let_def)

lemma owners_kept_frame: "owners_kept st (forward_message P sk mid session buffer st)"
proof -
  have d: "gm_services (drop_previous a b st) = gm_services st" "gm_services (emplace_gate i st) = gm_services st" for a b i
    by (simp_all add: drop_previous_def emplace_gate_def Let_def)
  have "owners_kept st (gate_register P sk session buffer st)"
    unfolding gate_register_def Let_def
    by (auto split: option.splits intro!: owners_kept_register simp: d) (auto intro: owners_kept_refl)
  moreover have "owners_kept st (gate_upload P sk session buffer st)"
    unfolding gate_upload_def by (auto split: option.splits intro!: owners_kept_refl simp: owners_kept_add [unfolded owners_kept_def] owners_kept_def)
  ultimately show ?thesis by (simp add: forward_message_def proc_ping_def owners_kept_refl)
qed

lemma owners_kept_offline:
  assumes "registry_core st" "map_of (gm_gates st) g = Some gd"
  shows "owners_kept st (offline g st)"
  using registry_coreD(4) [OF assms] assms(2) by (auto simp: owners_kept_def offline_def service_at_def)

text \<open>Whatever happens, a service that the registry knows stays with the gate and the type it was registered with; a request
  that names a service of another gate, or comes over a socket bound to another gate, changes nothing and is answered by an
  error.\<close>

theorem ownership_fixed:
  assumes "master_reach P st"
  shows "owners_kept st (master_step P e st)
     \<and> (\<forall>socket session buffer info s sd. parse_register_req P buffer = Some info \<and> s \<in> set (gi_services info)
            \<and> gm_services st (ucast (si_id s)) = Some sd \<and> sd_gate sd \<noteq> ucast (gi_id info) \<longrightarrow>
          gate_register P socket session buffer st = send (sk_socket socket) session (Gate_register_ack Ec_system []) st)
     \<and> (\<forall>socket session buffer info g. parse_register_req P buffer = Some info \<and> sk_data socket = Some g
            \<and> map_of (gm_gates st) g \<noteq> None \<and> g \<noteq> ucast (gi_id info) \<longrightarrow>
          gate_register P socket session buffer st = send (sk_socket socket) session (Gate_register_ack Ec_system []) st)
     \<and> (\<forall>socket session buffer ss s sd. parse_update_req P buffer = Some ss \<and> s \<in> set ss
            \<and> gm_services st (ucast (si_id s)) = Some sd \<and> (\<forall>g. sk_data socket = Some g \<longrightarrow> map_of (gm_gates st) g \<noteq> None \<and> sd_gate sd \<noteq> g) \<longrightarrow>
          gate_upload P socket session buffer st = send (sk_socket socket) session (Service_update_ack Ec_system) st)"
proof (intro conjI allI impI)
  note ok = master_reach_ok [OF assms]
  note c = registry_okD(1) [OF ok]
  show "owners_kept st (master_step P e st)"
  proof (cases e)
    case (Frame socket now mid session buffer)
    show ?thesis
    proof (cases "gm_sockets st socket")
      case (Some sk)
      let ?t = "st\<lparr>gm_sockets := (gm_sockets st)(socket \<mapsto> sk\<lparr>sk_last_recv := now\<rparr>)\<rparr>"
      have "owners_kept st ?t" by (rule owners_kept_refl) simp
      then show ?thesis
        using Frame Some owners_kept_trans [OF _ owners_kept_frame [of ?t P "sk\<lparr>sk_last_recv := now\<rparr>" mid session buffer]]
        by (simp add: socket_frame_def Let_def)
    qed (simp add: Frame socket_frame_def owners_kept_refl)
  next
    case (Broken socket)
    have "owners_kept st (publish g (offline g st))" if "gm_sockets st socket = Some sk" "sk_data sk = Some g" for g sk
      using registry_coreD(6) [OF c that(1)] that(2) owners_kept_offline [OF c] by (auto simp: owners_kept_def)
    then show ?thesis using Broken
      by (auto simp: socket_broken_def gate_disconnect_eq Let_def owners_kept_def split: option.splits)
  qed (auto intro!: owners_kept_refl simp: accept_socket_def socket_check_def split: option.splits)
next
  fix socket :: socket_data and session buffer info s sd
  assume "parse_register_req P buffer = Some info \<and> s \<in> set (gi_services info)
            \<and> gm_services st (ucast (si_id s)) = Some sd \<and> sd_gate sd \<noteq> ucast (gi_id info)"
  moreover from this have "\<not> check_services (gi_services info) (ucast (gi_id info)) st"
    by (auto simp: check_services_def list_all_iff intro!: bexI [of _ s])
  ultimately show "gate_register P socket session buffer st = send (sk_socket socket) session (Gate_register_ack Ec_system []) st"
    by (simp add: gate_register_def)
next
  fix socket :: socket_data and session buffer info g
  assume a: "parse_register_req P buffer = Some info \<and> sk_data socket = Some g
            \<and> map_of (gm_gates st) g \<noteq> None \<and> g \<noteq> ucast (gi_id info)"
  then obtain gd where gd: "map_of (gm_gates st) g = Some gd" by auto
  have "gd_id gd = g" using registry_coreD(3) [OF registry_okD(1) [OF master_reach_ok [OF assms]] gd] by simp
  then show "gate_register P socket session buffer st = send (sk_socket socket) session (Gate_register_ack Ec_system []) st"
    using a gd by (simp add: gate_register_def Let_def)
next
  fix socket :: socket_data and session buffer ss s sd
  assume a: "parse_update_req P buffer = Some ss \<and> s \<in> set ss
            \<and> gm_services st (ucast (si_id s)) = Some sd \<and> (\<forall>g. sk_data socket = Some g \<longrightarrow> map_of (gm_gates st) g \<noteq> None \<and> sd_gate sd \<noteq> g)"
  show "gate_upload P socket session buffer st = send (sk_socket socket) session (Service_update_ack Ec_system) st"
  proof (cases "sk_data socket")
    case (Some g)
    obtain gd where gd: "map_of (gm_gates st) g = Some gd" using a Some by auto
    have "gd_id gd = g" using registry_coreD(3) [OF registry_okD(1) [OF master_reach_ok [OF assms]] gd] by simp
    then have "\<not> check_services ss (gd_id (gate_at st g)) st"
      using a Some gd by (auto simp: check_services_def list_all_iff intro!: bexI [of _ s])
    then show ?thesis using a Some by (simp add: gate_upload_def)
  qed (use a in \<open>simp add: gate_upload_def\<close>)
qed

theorem ownership_fixed_witness:
  "gate_upload sample_parsers \<lparr>sk_socket = 6, sk_data = Some 2, sk_last_recv = 1\<rparr> 7 [9] sample_master =
     send 6 7 (Service_update_ack Ec_system) sample_master"
proof -
  have "parse_update_req sample_parsers [9] = Some [\<lparr>si_id = 9, si_tp = 3, si_online = True\<rparr>]" by (simp add: sample_parsers_def)
  moreover have "gm_services sample_master 9 = Some \<lparr>sd_id = 9, sd_tp = 3, sd_gate = 1, sd_online = True\<rparr>"
    "map_of (gm_gates sample_master) 2 \<noteq> None" by (simp_all add: sample_master_eq)
  ultimately show ?thesis
    using ownership_fixed [OF sample_reach, THEN conjunct2, THEN conjunct2, THEN conjunct2, rule_format, of "[9]"
        "[\<lparr>si_id = 9, si_tp = 3, si_online = True\<rparr>]" "\<lparr>si_id = 9, si_tp = 3, si_online = True\<rparr>"
        "\<lparr>sd_id = 9, sd_tp = 3, sd_gate = 1, sd_online = True\<rparr>" "\<lparr>sk_socket = 6, sk_data = Some 2, sk_last_recv = 1\<rparr>" 7] by simp
qed

text \<open>When a gate registers over a second connection while the first is still open, the first is neither closed nor unbound,
  although a comment announces that the previous connection is dropped: both sockets stay bound to the gate.\<close>

theorem second_connection_keeps_first:
  assumes "master_reach P st" "gm_sockets st s1 = Some k1" "sk_data k1 = Some g" "gd_socket (gate_at st g) = s1"
    "gm_sockets st s2 = Some k2" "sk_data k2 = None" "parse_register_req P buffer = Some info" "ucast (gi_id info) = g"
    "check_services (gi_services info) g st"
  shows "let st' = master_step P (Frame s2 now id_s_gate_register_req session buffer) st
     in gd_socket (gate_at st' g) = s2 \<and> gm_sockets st' s1 = Some k1 \<and> map_option sk_data (gm_sockets st' s2) = Some (Some g)
        \<and> gm_closed st' = gm_closed st"
proof -
  note ok = master_reach_ok [OF assms(1)]
  have s2: "sk_socket k2 = s2" "s1 \<noteq> s2" using registry_coreD(6) [OF registry_okD(1) [OF ok] assms(5)] assms(2,3,5,6) by auto
  have g: "map_of (gm_gates st) g \<noteq> None" using registry_coreD(6) [OF registry_okD(1) [OF ok] assms(2)] assms(3) by blast
  define k where "k = k2\<lparr>sk_last_recv := now\<rparr>"
  define t where "t = st\<lparr>gm_sockets := (gm_sockets st)(s2 \<mapsto> k)\<rparr>"
  have t: "registry_ok t" using touch_socket_ok [OF ok assms(5), of now] by (simp add: t_def k_def)
  have k: "gm_sockets t (sk_socket k) = Some k" "sk_data k = None" "sk_socket k = s2" using s2 assms(6) by (simp_all add: t_def k_def)
  define u where "u = set_socket_data s2 (Some g) (emplace_gate g t)"
  note e = emplace_gate_ok [OF t k(1,2), of g, unfolded k(3), folded u_def]
  have gs: "gm_gates (emplace_gate g t) = gm_gates st" "gm_closed (emplace_gate g t) = gm_closed st"
    using g by (simp_all add: emplace_gate_def t_def)
  have v: "registry_core (set_gate g ((gate_at u g)\<lparr>gd_socket := s2, gd_addresses := gi_addresses info\<rparr>) u)"
    using set_gate_core [OF e(1)] e(3) by (auto simp: u_def gate_at_def)
  note a = add_services_core [OF v, of g "gi_services info"]
  have "master_step P (Frame s2 now id_s_gate_register_req session buffer) st = register_gate s2 session info g u"
    using assms(5,7,8,9) k by (simp add: socket_frame_def Let_def k_def [symmetric] t_def [symmetric] forward_message_def gate_register_def u_def)
      (simp add: check_services_def t_def)
  moreover have "gd_socket (gate_at (register_gate s2 session info g u) g) = s2"
      "gm_sockets (register_gate s2 session info g u) = (gm_sockets t)(s2 \<mapsto> k\<lparr>sk_data := Some g\<rparr>)"
      "gm_closed (register_gate s2 session info g u) = gm_closed st"
  proof -
    define w where "w = add_services (gi_services info) g (set_gate g ((gate_at u g)\<lparr>gd_socket := s2, gd_addresses := gi_addresses info\<rparr>) u)"
    have w: "gm_sockets w = gm_sockets u" "gm_closed w = gm_closed u" "gd_socket (gate_at w g) = s2"
      using a unfolding w_def by simp_all
    have r: "gm_gates (register_gate s2 session info g u) = gm_gates w" "gm_sockets (register_gate s2 session info g u) = gm_sockets w"
        "gm_closed (register_gate s2 session info g u) = gm_closed w"
      by (simp_all add: register_gate_def Let_def w_def)
    show "gd_socket (gate_at (register_gate s2 session info g u) g) = s2" using r(1) w(3) by (simp add: gate_at_def)
    show "gm_sockets (register_gate s2 session info g u) = (gm_sockets t)(s2 \<mapsto> k\<lparr>sk_data := Some g\<rparr>)" using r(2) w(1) e(4) by simp
    show "gm_closed (register_gate s2 session info g u) = gm_closed st" using r(3) w(2) gs(2) by (simp add: u_def)
  qed
  ultimately show ?thesis using s2(2) assms(2) by (simp add: Let_def t_def)
qed

theorem second_connection_keeps_first_witness:
  "\<exists>st. master_reach sample_parsers st \<and> gm_sockets st 7 \<noteq> None \<and>
    (let st' = master_step sample_parsers (Frame 7 3 id_s_gate_register_req 8 [1]) st
     in gd_socket (gate_at st' 1) = 7 \<and> map_option sk_data (gm_sockets st' 7) = Some (Some 1) \<and> gm_closed st' = gm_closed st)"
proof -
  let ?st = "master_step sample_parsers (Accepted 7 3) sample_master"
  have r: "master_reach sample_parsers ?st" by (rule master_reach.step [OF sample_reach]) simp
  have "?st = sample_master\<lparr>gm_sockets := (gm_sockets sample_master)(7 \<mapsto> \<lparr>sk_socket = 7, sk_data = None, sk_last_recv = 3\<rparr>)\<rparr>"
    by (simp add: accept_socket_def sample_master_eq)
  then show ?thesis
    using second_connection_keeps_first [OF r, of 5 "\<lparr>sk_socket = 5, sk_data = Some 1, sk_last_recv = 2\<rparr>" 1 7
        "\<lparr>sk_socket = 7, sk_data = None, sk_last_recv = 3\<rparr>" "[1]" "\<lparr>gi_id = 1, gi_services = [], gi_addresses = []\<rparr>" 3 8] r
    by (intro exI [of _ ?st]) (simp add: sample_master_eq gate_at_def sample_parsers_def check_services_def Let_def)
qed

end
