(* ===== verification/Gate.thy ===== *)
theory Gate
  imports Shm_Channel Proto_Utils Gate_Master Outbox
begin

text \<open>
  A gate (\<open>gobang/gate\<close>): the table of services and the forwarding of messages (\<open>gate.cpp\<close>), the services of the same machine behind
  shared-memory channels (\<open>local_service.cpp\<close>, \<open>local_listener.cpp\<close>), those behind other gates (\<open>remote_gate.cpp\<close>), and what the
  gate learns from and tells the master (\<open>master_connector.cpp\<close>).  A \<open>service_info*\<close> is an index into the list of
  all service objects, a \<open>socket_ptr\<close> an index into the list of connections; neither is ever freed while it is used.  What is handed to the
  network is recorded; the channel that \<open>add_local_service\<close> opens is an argument.
\<close>

section \<open>State\<close>

datatype service_kind = Local_service u32 shm_channel "byte list list" | Remote_service u16

record service_info =
  sv_id :: u16
  sv_tp :: u16
  sv_gate :: u16
  sv_online :: bool
  sv_kind :: service_kind

record remote_gate =
  rg_addresses :: "byte list list"
  rg_socket :: u32
  rg_queue :: "byte list list"

record local_socket =
  lk_socket :: u32
  lk_last_recv :: int
  lk_service :: "nat option"
  lk_subscribe :: "u16 list"

datatype gate_msg = Subscribe_ack ack_ec "s_service_info list" | Subscribe_brd "s_service_info list"
  | Service_register_ack ack_ec u16 | Local_ping_ack

record gate =
  ga_id :: u16
  ga_objs :: "service_info list"
  ga_services :: "u16 \<Rightarrow> nat option"
  ga_types :: "u16 \<Rightarrow> nat list option"
  ga_queues :: "u16 \<Rightarrow> byte list list option"
  ga_remotes :: "u16 \<Rightarrow> remote_gate option"
  ga_master :: u32
  ga_socks :: "local_socket list"
  ga_subs :: "u16 \<Rightarrow> nat list option"
  ga_shm :: "byte list \<Rightarrow> u32 option"
  ga_locals :: "nat list"
  ga_frames :: "(u32 \<times> byte list) list"
  ga_msgs :: "(u32 \<times> u64 \<times> gate_msg) list"
  ga_uploads :: "s_service_info list"
  ga_closed :: "u32 list"

definition map_obj :: "nat \<Rightarrow> (service_info \<Rightarrow> service_info) \<Rightarrow> gate \<Rightarrow> gate" where
  "map_obj i f st = st\<lparr>ga_objs := (ga_objs st)[i := f (ga_objs st ! i)]\<rparr>"

definition map_sock :: "nat \<Rightarrow> (local_socket \<Rightarrow> local_socket) \<Rightarrow> gate \<Rightarrow> gate" where
  "map_sock p f st = st\<lparr>ga_socks := (ga_socks st)[p := f (ga_socks st ! p)]\<rparr>"

section \<open>Writing to a service\<close>

text \<open>\<open>local_service::write\<close>: the queue and the channel.\<close>

definition local_write :: "byte list \<Rightarrow> shm_channel \<times> byte list list \<Rightarrow> shm_channel \<times> byte list list" where
  "local_write message st = (case st of (channel, send_queue) \<Rightarrow>
     if send_queue \<noteq> [] then (channel, send_queue @ [message])
     else (case try_write message channel of (ok, channel) \<Rightarrow>
       if ok then (channel, send_queue) else (channel, send_queue @ [message])))"

text \<open>One attempt of \<open>auto_write\<close> to put the front of the queue into the channel.\<close>

definition auto_write :: "shm_channel \<times> byte list list \<Rightarrow> shm_channel \<times> byte list list" where
  "auto_write st = (case st of (channel, []) \<Rightarrow> (channel, [])
     | (channel, message # rest) \<Rightarrow>
         (case try_write message channel of (ok, channel) \<Rightarrow> if ok then (channel, rest) else (channel, message # rest)))"

definition id_s_gate_forward_brd :: u16 where "id_s_gate_forward_brd = 0x6005"

text \<open>\<open>remote_gate::send\<close> and \<open>remote_service::write\<close>.\<close>

definition remote_send :: "u16 \<Rightarrow> byte list \<Rightarrow> gate \<Rightarrow> gate" where
  "remote_send g buf st = (case ga_remotes st g of None \<Rightarrow> st
     | Some rg \<Rightarrow> if rg_socket rg > 0 then st\<lparr>ga_frames := ga_frames st @ [(rg_socket rg, buf)]\<rparr>
         else st\<lparr>ga_remotes := (ga_remotes st)(g \<mapsto> rg\<lparr>rg_queue := rg_queue rg @ [buf]\<rparr>)\<rparr>)"

definition remote_frame :: "byte list \<Rightarrow> byte list" where
  "remote_frame message = net_header_bytes \<lparr>nh_flag = flag_valid, nh_len = ucast (of_nat (length message) :: u32),
     nh_id = id_s_gate_forward_brd, nh_padding = 0, nh_session = 0\<rparr> @ message"

definition service_write :: "nat \<Rightarrow> byte list \<Rightarrow> gate \<Rightarrow> gate" where
  "service_write i message st = (case sv_kind (ga_objs st ! i) of
     Local_service socket channel queue \<Rightarrow>
       (case local_write message (channel, queue) of (channel, queue) \<Rightarrow>
          map_obj i (\<lambda>s. s\<lparr>sv_kind := Local_service socket channel queue\<rparr>) st)
   | Remote_service g \<Rightarrow> remote_send g (remote_frame message) st)"

text \<open>When the connection to a remote gate is made, what was queued goes out; when it breaks, \<open>socket_\<close> is 0 again.\<close>

definition remote_connected :: "u16 \<Rightarrow> u32 \<Rightarrow> gate \<Rightarrow> gate" where
  "remote_connected g socket st = (case ga_remotes st g of None \<Rightarrow> st
     | Some rg \<Rightarrow> st\<lparr>ga_remotes := (ga_remotes st)(g \<mapsto> rg\<lparr>rg_socket := socket, rg_queue := []\<rparr>),
         ga_frames := ga_frames st @ map (Pair socket) (rg_queue rg)\<rparr>)"

definition remote_broken :: "u16 \<Rightarrow> gate \<Rightarrow> gate" where
  "remote_broken g st = (case ga_remotes st g of None \<Rightarrow> st
     | Some rg \<Rightarrow> st\<lparr>ga_remotes := (ga_remotes st)(g \<mapsto> rg\<lparr>rg_socket := 0\<rparr>), ga_closed := ga_closed st @ [rg_socket rg]\<rparr>)"

section \<open>The table of services\<close>

definition find_service :: "u16 \<Rightarrow> gate \<Rightarrow> nat option" where
  "find_service i st = ga_services st i"

definition find_service_type :: "u16 \<Rightarrow> gate \<Rightarrow> nat list option" where
  "find_service_type tp st = ga_types st tp"

definition emplace_service :: "nat \<Rightarrow> gate \<Rightarrow> gate" where
  "emplace_service i st =
     (let info = ga_objs st ! i;
          st = (if ga_services st (sv_id info) = None then st\<lparr>ga_services := (ga_services st)(sv_id info \<mapsto> i)\<rparr> else st);
          st = st\<lparr>ga_types := (ga_types st)(sv_tp info \<mapsto> (case ga_types st (sv_tp info) of None \<Rightarrow> [] | Some v \<Rightarrow> v) @ [i])\<rparr>
      in case ga_queues st (sv_id info) of None \<Rightarrow> st
         | Some queue \<Rightarrow> (fold (service_write i) queue st)\<lparr>ga_queues := (ga_queues st)(sv_id info := None)\<rparr>)"

definition forward :: "byte list \<Rightarrow> gate \<Rightarrow> gate" where
  "forward strv st =
     (if length strv < 16 then st
      else let dest = fp_to (forward_part_of strv)
           in case find_service dest st of
                None \<Rightarrow> st\<lparr>ga_queues := (ga_queues st)(dest \<mapsto> (case ga_queues st dest of None \<Rightarrow> [] | Some q \<Rightarrow> q) @ [strv])\<rparr>
              | Some i \<Rightarrow> service_write i strv st)"

section \<open>Changes of a service\<close>

definition to_proto :: "service_info \<Rightarrow> s_service_info" where
  "to_proto s = \<lparr>si_id = ucast (sv_id s), si_tp = ucast (sv_tp s), si_online = sv_online s\<rparr>"

text \<open>\<open>master_connector::update_service\<close> with \<open>upload\<close>, and \<open>local_listener::update_service\<close>; both handle the event
  that \<open>service_info::update\<close> fires.\<close>

definition upload_service :: "nat \<Rightarrow> gate \<Rightarrow> gate" where
  "upload_service i st =
     (let info = ga_objs st ! i
      in if sv_gate info \<noteq> ga_id st then st
         else if ga_master st = 0 then st
         else st\<lparr>ga_uploads := ga_uploads st @ [to_proto info]\<rparr>)"

definition notify_subscribers :: "nat \<Rightarrow> gate \<Rightarrow> gate" where
  "notify_subscribers i st =
     (let info = ga_objs st ! i
      in case ga_subs st (sv_tp info) of None \<Rightarrow> st
         | Some ps \<Rightarrow> st\<lparr>ga_msgs := ga_msgs st @ map (\<lambda>p. (lk_socket (ga_socks st ! p), 0, Subscribe_brd [to_proto info])) ps\<rparr>)"

definition service_update :: "nat \<Rightarrow> gate \<Rightarrow> gate" where
  "service_update i st = notify_subscribers i (upload_service i st)"

text \<open>\<open>remote_gate::add_remote_service\<close> and \<open>master_connector::add_remote_gate\<close>.\<close>

definition add_remote_service :: "u16 \<Rightarrow> s_service_info \<Rightarrow> gate \<Rightarrow> gate" where
  "add_remote_service g info st =
     (let i = ucast (si_id info);
          (k, st) = (case find_service i st of
              Some k \<Rightarrow> (k, st)
            | None \<Rightarrow>
                let k = length (ga_objs st);
                    new = \<lparr>sv_id = i, sv_tp = ucast (si_tp info), sv_gate = g, sv_online = False, sv_kind = Remote_service g\<rparr>
                in (k, emplace_service k (st\<lparr>ga_objs := ga_objs st @ [new]\<rparr>)))
      in service_update k (map_obj k (\<lambda>s. s\<lparr>sv_online := si_online info\<rparr>) st))"

definition gate_address :: "s_gate_address \<Rightarrow> byte list" where
  "gate_address a = fst a @ [0x2c] @ snd a"

definition add_remote_gate :: "s_gate_info \<Rightarrow> gate \<Rightarrow> gate" where
  "add_remote_gate info st =
     (let g = ucast (gi_id info);
          rg = (case ga_remotes st g of Some rg \<Rightarrow> rg | None \<Rightarrow> \<lparr>rg_addresses = [], rg_socket = 0, rg_queue = []\<rparr>);
          st = st\<lparr>ga_remotes := (ga_remotes st)(g \<mapsto> rg\<lparr>rg_addresses := map gate_address (gi_addresses info)\<rparr>)\<rparr>
      in fold (add_remote_service g) (gi_services info) st)"

text \<open>What the master sends: the answer to the registration and its broadcasts.\<close>

fun master_message :: "master_msg \<Rightarrow> gate \<Rightarrow> gate" where
  "master_message (Gate_register_ack Ec_success gates) st = fold add_remote_gate gates st"
| "master_message (Gate_register_brd gates) st = fold add_remote_gate gates st"
| "master_message _ st = st"

section \<open>Connections of local services\<close>

record s_service_register_req =
  rr_info :: s_service_info
  rr_channel_size :: u32
  rr_shm :: "(byte list \<times> u32) list"

definition send_local :: "u32 \<Rightarrow> u64 \<Rightarrow> gate_msg \<Rightarrow> gate \<Rightarrow> gate" where
  "send_local socket session msg st = st\<lparr>ga_msgs := ga_msgs st @ [(socket, session, msg)]\<rparr>"

definition accept_local :: "u32 \<Rightarrow> int \<Rightarrow> gate \<Rightarrow> gate" where
  "accept_local socket now st =
     st\<lparr>ga_socks := ga_socks st @ [\<lparr>lk_socket = socket, lk_last_recv = now, lk_service = None, lk_subscribe = []\<rparr>]\<rparr>"

text \<open>The socket that a service object was last registered over; remote objects have none.\<close>

definition service_socket :: "nat \<Rightarrow> gate \<Rightarrow> u32" where
  "service_socket i st = (case sv_kind (ga_objs st ! i) of Local_service socket channel queue \<Rightarrow> socket | Remote_service g \<Rightarrow> 0)"

definition set_service_socket :: "u32 \<Rightarrow> service_info \<Rightarrow> service_info" where
  "set_service_socket socket s = (case sv_kind s of Local_service _ channel queue \<Rightarrow> s\<lparr>sv_kind := Local_service socket channel queue\<rparr>
     | Remote_service g \<Rightarrow> s)"

definition service_subscribe :: "(byte list \<Rightarrow> u32 option) \<Rightarrow> nat \<Rightarrow> u64 \<Rightarrow> byte list \<Rightarrow> gate \<Rightarrow> gate" where
  "service_subscribe parse p session buffer st =
     (let sk = ga_socks st ! p
      in case parse buffer of
           None \<Rightarrow> st\<lparr>ga_closed := ga_closed st @ [lk_socket sk]\<rparr>
         | Some tp32 \<Rightarrow>
             if (case lk_service sk of None \<Rightarrow> True | Some i \<Rightarrow> service_socket i st \<noteq> lk_socket sk)
             then send_local (lk_socket sk) session (Subscribe_ack Ec_system []) st
             else let tp = ucast tp32;
                      info = (case ga_subs st tp of None \<Rightarrow> [] | Some v \<Rightarrow> v);
                      st = st\<lparr>ga_subs := (ga_subs st)(tp \<mapsto> if p \<in> set info then info else info @ [p])\<rparr>;
                      st = map_sock p (\<lambda>sk. if tp \<in> set (lk_subscribe sk) then sk else sk\<lparr>lk_subscribe := lk_subscribe sk @ [tp]\<rparr>) st;
                      services = (case find_service_type tp st of None \<Rightarrow> [] | Some v \<Rightarrow> map (\<lambda>i. to_proto (ga_objs st ! i)) v)
                  in send_local (lk_socket sk) session (Subscribe_ack Ec_success services) st)"

text \<open>The shared memory segments a service asks for, opened once each.\<close>

definition add_shm :: "byte list \<times> u32 \<Rightarrow> gate \<Rightarrow> gate" where
  "add_shm info st = (case info of (name, sz) \<Rightarrow> if ga_shm st name \<noteq> None then st else st\<lparr>ga_shm := (ga_shm st)(name \<mapsto> sz)\<rparr>)"

definition add_local_service :: "shm_channel \<Rightarrow> s_service_register_req \<Rightarrow> gate \<Rightarrow> nat \<times> gate" where
  "add_local_service channel req st =
     (let k = length (ga_objs st);
          new = \<lparr>sv_id = ucast (si_id (rr_info req)), sv_tp = ucast (si_tp (rr_info req)), sv_gate = ga_id st, sv_online = False,
            sv_kind = Local_service 0 channel []\<rparr>;
          st = st\<lparr>ga_objs := ga_objs st @ [new], ga_locals := ga_locals st @ [k]\<rparr>;
          st = fold add_shm (rr_shm req) st
      in (k, emplace_service k st))"

text \<open>The end of a successful registration.\<close>

definition bind_service :: "nat \<Rightarrow> nat \<Rightarrow> u64 \<Rightarrow> gate \<Rightarrow> gate" where
  "bind_service p i session st =
     (let st = map_sock p (\<lambda>sk. sk\<lparr>lk_service := Some i\<rparr>) st;
          st = map_obj i (\<lambda>s. (set_service_socket (lk_socket (ga_socks st ! p)) s)\<lparr>sv_online := True\<rparr>) st;
          st = service_update i st
      in send_local (lk_socket (ga_socks st ! p)) session (Service_register_ack Ec_success (ga_id st)) st)"

definition is_local :: "nat \<Rightarrow> gate \<Rightarrow> bool" where
  "is_local i st \<longleftrightarrow> (case sv_kind (ga_objs st ! i) of Local_service socket channel queue \<Rightarrow> True | Remote_service g \<Rightarrow> False)"

text \<open>\<open>service_register\<close> up to the question to the master; the second component is \<open>True\<close> when the coroutine goes on to ask it.\<close>

definition service_register :: "nat \<Rightarrow> u64 \<Rightarrow> s_service_register_req \<Rightarrow> gate \<Rightarrow> gate \<times> bool" where
  "service_register p session req st =
     (let sk = ga_socks st ! p; i = ucast (si_id (rr_info req)); refuse = (\<lambda>ec. send_local (lk_socket sk) session (Service_register_ack ec (ga_id st)) st)
      in if lk_socket sk = 0 then (st, False)
         else if i = 0 then (refuse Ec_system, False)
         else (case lk_service sk of
             Some k \<Rightarrow> (refuse (if sv_id (ga_objs st ! k) = i then Ec_success else Ec_system), False)
           | None \<Rightarrow>
               (case find_service i st of
                  Some k \<Rightarrow> if is_local k st then (bind_service p k session st, False) else (refuse Ec_system, False)
                | None \<Rightarrow> (st, True))))"

text \<open>What follows when the master has answered, or \<open>None\<close> after five seconds without an answer.\<close>

definition service_register_resumed :: "nat \<Rightarrow> u64 \<Rightarrow> s_service_register_req \<Rightarrow> shm_channel \<Rightarrow> ack_ec option \<Rightarrow> gate \<Rightarrow> gate" where
  "service_register_resumed p session req channel answer st =
     (let refuse = (\<lambda>ec. send_local (lk_socket (ga_socks st ! p)) session (Service_register_ack ec (ga_id st)) st)
      in case answer of
           None \<Rightarrow> refuse Ec_timeout
         | Some ec \<Rightarrow> if ec \<noteq> Ec_success then refuse ec
             else (case add_local_service channel req st of (i, st) \<Rightarrow> bind_service p i session st))"

text \<open>\<open>std::vector\<close>: the last element takes the place of the first occurrence.\<close>

fun swap_remove :: "'a \<Rightarrow> 'a list \<Rightarrow> 'a list" where
  "swap_remove x [] = []"
| "swap_remove x (y # ys) = (if y = x then (if ys = [] then [] else last ys # butlast ys) else y # swap_remove x ys)"

text \<open>The end of \<open>socket_start\<close>, after the connection broke.\<close>

definition local_broken :: "nat \<Rightarrow> gate \<Rightarrow> gate" where
  "local_broken p st =
     (let sk = ga_socks st ! p;
          st = (case lk_service sk of None \<Rightarrow> st
                | Some i \<Rightarrow> if service_socket i st = lk_socket sk
                    then service_update i (map_obj i (\<lambda>s. (set_service_socket 0 s)\<lparr>sv_online := False\<rparr>) st) else st);
          st = fold (\<lambda>tp st. case ga_subs st tp of None \<Rightarrow> st
                | Some ps \<Rightarrow> st\<lparr>ga_subs := (ga_subs st)(tp \<mapsto> swap_remove p ps)\<rparr>) (lk_subscribe sk) st
      in map_sock p (\<lambda>sk. sk\<lparr>lk_service := None, lk_socket := 0\<rparr>) st)"

text \<open>The dispatch of the two listeners, and one turn of \<open>socket_check\<close>, which is the same for both: \<open>False\<close> ends its loop.\<close>

record local_parsers =
  parse_service_register :: "byte list \<Rightarrow> s_service_register_req option"
  parse_service_subscribe :: "byte list \<Rightarrow> u32 option"
  parse_ping :: "byte list \<Rightarrow> bool"

definition local_message :: "local_parsers \<Rightarrow> nat \<Rightarrow> u16 \<Rightarrow> u64 \<Rightarrow> byte list \<Rightarrow> gate \<Rightarrow> gate \<times> bool" where
  "local_message P p mid session buffer st =
     (if mid = 0x4003
      then (case parse_service_register P buffer of
              None \<Rightarrow> (st\<lparr>ga_closed := ga_closed st @ [lk_socket (ga_socks st ! p)]\<rparr>, False)
            | Some req \<Rightarrow> service_register p session req st)
      else if mid = 0x4006 then (service_subscribe (parse_service_subscribe P) p session buffer st, False)
      else if mid = id_s_ping_req
      then (if parse_ping P buffer then send_local (lk_socket (ga_socks st ! p)) session Local_ping_ack st else st, False)
      else (st, False))"

definition remote_message :: "local_parsers \<Rightarrow> u32 \<Rightarrow> u16 \<Rightarrow> u64 \<Rightarrow> byte list \<Rightarrow> gate \<Rightarrow> gate" where
  "remote_message P socket mid session buffer st =
     (if mid = id_s_gate_forward_brd then forward buffer st
      else if mid = id_s_ping_req then (if parse_ping P buffer then send_local socket session Local_ping_ack st else st)
      else st)"

definition idle_check :: "int \<Rightarrow> u32 \<Rightarrow> local_socket \<Rightarrow> gate \<Rightarrow> bool \<times> gate" where
  "idle_check now socket sk st =
     (if \<not> lk_socket sk > 0 then (False, st)
      else if now - lk_last_recv sk > 180 then (False, st\<lparr>ga_closed := ga_closed st @ [socket]\<rparr>) else (True, st))"

definition local_services :: "gate \<Rightarrow> nat list" where
  "local_services st = ga_locals st"

text \<open>\<open>register_to_master\<close>: the request a gate registers with.\<close>

definition register_request :: "byte list list \<Rightarrow> u16 \<Rightarrow> gate \<Rightarrow> s_gate_info" where
  "register_request hosts port st = \<lparr>gi_id = ucast (ga_id st), gi_services = map (\<lambda>i. to_proto (ga_objs st ! i)) (local_services st),
     gi_addresses = map (\<lambda>h. (h, decimal (unat port))) hosts\<rparr>"

section \<open>Messages for services that are not there yet\<close>

lemma remote_send_simps [simp]:
  "ga_services (remote_send g b st) = ga_services st" "ga_types (remote_send g b st) = ga_types st" "ga_queues (remote_send g b st) = ga_queues st"
  "ga_objs (remote_send g b st) = ga_objs st" "ga_socks (remote_send g b st) = ga_socks st" "ga_subs (remote_send g b st) = ga_subs st"
  "ga_id (remote_send g b st) = ga_id st" "ga_master (remote_send g b st) = ga_master st" "ga_msgs (remote_send g b st) = ga_msgs st"
  by (simp_all add: remote_send_def split: option.splits)

lemma map_obj_simps [simp]:
  "ga_services (map_obj i f st) = ga_services st" "ga_types (map_obj i f st) = ga_types st" "ga_queues (map_obj i f st) = ga_queues st"
  "ga_socks (map_obj i f st) = ga_socks st" "ga_subs (map_obj i f st) = ga_subs st" "ga_id (map_obj i f st) = ga_id st"
  "length (ga_objs (map_obj i f st)) = length (ga_objs st)" "ga_remotes (map_obj i f st) = ga_remotes st" "ga_master (map_obj i f st) = ga_master st"
  "ga_msgs (map_obj i f st) = ga_msgs st"
  by (simp_all add: map_obj_def)

lemma service_write_simps [simp]:
  "ga_services (service_write i m st) = ga_services st" "ga_types (service_write i m st) = ga_types st" "ga_queues (service_write i m st) = ga_queues st"
  "ga_socks (service_write i m st) = ga_socks st" "ga_subs (service_write i m st) = ga_subs st" "ga_id (service_write i m st) = ga_id st"
  "length (ga_objs (service_write i m st)) = length (ga_objs st)" "ga_master (service_write i m st) = ga_master st"
  "ga_msgs (service_write i m st) = ga_msgs st"
  by (simp_all add: service_write_def split: service_kind.splits prod.splits)

lemma service_write_frame: "service_write i m (st\<lparr>ga_queues := q\<rparr>) = (service_write i m st)\<lparr>ga_queues := q\<rparr>"
  by (simp add: service_write_def map_obj_def remote_send_def split: service_kind.splits prod.splits option.splits)

lemma service_writes_frame: "fold (service_write i) ms (st\<lparr>ga_queues := q\<rparr>) = (fold (service_write i) ms st)\<lparr>ga_queues := q\<rparr>"
  by (induction ms arbitrary: st) (simp_all add: service_write_frame)

lemma service_writes_simps [simp]:
  "ga_services (fold (service_write i) ms st) = ga_services st" "ga_types (fold (service_write i) ms st) = ga_types st"
  "ga_queues (fold (service_write i) ms st) = ga_queues st" "ga_socks (fold (service_write i) ms st) = ga_socks st"
  "ga_subs (fold (service_write i) ms st) = ga_subs st" "ga_id (fold (service_write i) ms st) = ga_id st"
  "length (ga_objs (fold (service_write i) ms st)) = length (ga_objs st)" "ga_master (fold (service_write i) ms st) = ga_master st"
  "ga_msgs (fold (service_write i) ms st) = ga_msgs st"
  by (induction ms arbitrary: st) simp_all

lemma gate_update_order:
  "st\<lparr>ga_queues := q, ga_services := s, ga_types := t\<rparr> = st\<lparr>ga_services := s, ga_types := t, ga_queues := q\<rparr>" for st :: gate
  by (cases st) simp

lemma forward_unknown:
  assumes "\<forall>m \<in> set ms. 16 \<le> length m \<and> fp_to (forward_part_of m) = d" "ga_services st d = None"
  shows "fold forward ms st = (if ms = [] then st
     else st\<lparr>ga_queues := (ga_queues st)(d \<mapsto> (case ga_queues st d of None \<Rightarrow> [] | Some q \<Rightarrow> q) @ ms)\<rparr>)"
  using assms
proof (induction ms arbitrary: st)
  case (Cons m ms)
  let ?t = "st\<lparr>ga_queues := (ga_queues st)(d \<mapsto> (case ga_queues st d of None \<Rightarrow> [] | Some q \<Rightarrow> q) @ [m])\<rparr>"
  have "forward m st = ?t" using Cons.prems by (simp add: forward_def find_service_def Let_def)
  then show ?case using Cons.IH [of ?t] Cons.prems by auto
qed simp

lemma forward_known:
  assumes "\<forall>m \<in> set ms. 16 \<le> length m \<and> fp_to (forward_part_of m) = d" "ga_services st d = Some i"
  shows "fold forward ms st = fold (service_write i) ms st"
  using assms
proof (induction ms arbitrary: st)
  case (Cons m ms)
  have "forward m st = service_write i m st" using Cons.prems by (simp add: forward_def find_service_def Let_def)
  then show ?case using Cons by simp
qed simp

text \<open>The queue of messages for a service that has not registered yet has no bound, although the comment at its declaration says so: they are kept and reach it when it registers, in
  their order: forwarding before the registration has the same effect as forwarding after it.\<close>

theorem early_messages_delivered:
  assumes "\<forall>m \<in> set ms. 16 \<le> length m \<and> fp_to (forward_part_of m) = sv_id (ga_objs st ! i)"
    "ga_services st (sv_id (ga_objs st ! i)) = None" "ga_queues st (sv_id (ga_objs st ! i)) = None"
  shows "emplace_service i (fold forward ms st) = fold forward ms (emplace_service i st)
     \<and> (ms \<noteq> [] \<longrightarrow> ga_queues (fold forward ms st) (sv_id (ga_objs st ! i)) = Some ms)"
proof -
  let ?d = "sv_id (ga_objs st ! i)"
  have f: "fold forward ms st = (if ms = [] then st else st\<lparr>ga_queues := (ga_queues st)(?d \<mapsto> ms)\<rparr>)"
    using forward_unknown [OF assms(1,2)] assms(3) by simp
  define t where "t = st\<lparr>ga_services := (ga_services st)(?d \<mapsto> i),
    ga_types := (ga_types st)(sv_tp (ga_objs st ! i) \<mapsto> (case ga_types st (sv_tp (ga_objs st ! i)) of None \<Rightarrow> [] | Some v \<Rightarrow> v) @ [i])\<rparr>"
  have e: "emplace_service i st = t" using assms(2,3) by (simp add: emplace_service_def Let_def t_def)
  have k: "fold forward ms t = fold (service_write i) ms t" by (rule forward_known [OF assms(1)]) (simp add: t_def)
  show ?thesis
  proof (cases "ms = []")
    case False
    have "emplace_service i (st\<lparr>ga_queues := (ga_queues st)(?d \<mapsto> ms)\<rparr>) =
        (fold (service_write i) ms (t\<lparr>ga_queues := (ga_queues st)(?d \<mapsto> ms)\<rparr>))\<lparr>ga_queues := (ga_queues st)(?d := None)\<rparr>"
      using assms(2) by (simp add: emplace_service_def Let_def t_def gate_update_order)
    also have "\<dots> = (fold (service_write i) ms t)\<lparr>ga_queues := ga_queues st\<rparr>"
      using assms(3) by (simp add: service_writes_frame fun_upd_idem)
    also have "\<dots> = fold (service_write i) ms t"
      using service_writes_frame [of i ms "ga_queues t" t] by (simp add: t_def)
    finally show ?thesis using False f e k by simp
  qed (simp add: e)
qed

definition empty_gate :: "u16 \<Rightarrow> gate" where
  "empty_gate g = \<lparr>ga_id = g, ga_objs = [], ga_services = (\<lambda>_. None), ga_types = (\<lambda>_. None), ga_queues = (\<lambda>_. None), ga_remotes = (\<lambda>_. None),
     ga_master = 0, ga_socks = [], ga_subs = (\<lambda>_. None), ga_shm = (\<lambda>_. None), ga_locals = [], ga_frames = [], ga_msgs = [], ga_uploads = [],
     ga_closed = []\<rparr>"

definition sample_message_to :: "u16 \<Rightarrow> byte list \<Rightarrow> byte list" where
  "sample_message_to d bs = forward_part_bytes \<lparr>fp_from = 1, fp_to = d, fp_id = 2, fp_padding = 0, fp_session = 0\<rparr> @ bs"

definition sample_gate :: gate where
  "sample_gate = (empty_gate 1)\<lparr>ga_objs := [\<lparr>sv_id = 9, sv_tp = 3, sv_gate = 2, sv_online = False, sv_kind = Remote_service 2\<rparr>],
     ga_remotes := [2 \<mapsto> \<lparr>rg_addresses = [], rg_socket = 4, rg_queue = []\<rparr>]\<rparr>"

theorem early_messages_delivered_witness:
  "ga_frames (emplace_service 0 (fold forward [sample_message_to 9 [1], sample_message_to 9 [2]] sample_gate)) =
     [(4, remote_frame (sample_message_to 9 [1])), (4, remote_frame (sample_message_to 9 [2]))]"
proof -
  have e: "emplace_service 0 (fold forward [sample_message_to 9 [1], sample_message_to 9 [2]] sample_gate) =
      fold forward [sample_message_to 9 [1], sample_message_to 9 [2]] (emplace_service 0 sample_gate)"
    using early_messages_delivered [of "[sample_message_to 9 [1], sample_message_to 9 [2]]" sample_gate 0]
    by (simp add: sample_gate_def empty_gate_def sample_message_to_def)
  show ?thesis
    unfolding e by (simp add: sample_gate_def empty_gate_def emplace_service_def Let_def forward_def find_service_def sample_message_to_def
      service_write_def remote_send_def)
qed

section \<open>Messages stay in order\<close>

text \<open>A local service seen from both ends: the two rings, the queue of the gate, and what the service has received.\<close>

type_synonym local_link = "(shm_buffer \<times> shm_buffer) \<times> byte list list \<times> byte list list"

definition link_write :: "byte list \<Rightarrow> local_link \<Rightarrow> local_link" where
  "link_write m s = (case s of (d, queue, received) \<Rightarrow>
     (case local_write m (endpoint_a d, queue) of (ch, queue) \<Rightarrow> ((ch_write ch, ch_read ch), queue, received)))"

definition link_pump :: "local_link \<Rightarrow> local_link" where
  "link_pump s = (case s of (d, queue, received) \<Rightarrow>
     (case auto_write (endpoint_a d, queue) of (ch, queue) \<Rightarrow> ((ch_write ch, ch_read ch), queue, received)))"

definition link_receive :: "local_link \<Rightarrow> local_link" where
  "link_receive s = (case s of (d, queue, received) \<Rightarrow>
     (case link_recv d of (None, d) \<Rightarrow> (d, queue, received) | (Some m, d) \<Rightarrow> (d, queue, received @ [m])))"

definition local_rep :: "local_link \<Rightarrow> byte list list \<Rightarrow> bool" where
  "local_rep s q \<longleftrightarrow> (case s of (d, queue, received) \<Rightarrow>
     (\<forall>m \<in> set queue. link_valid m) \<and> (\<exists>ring. link_rep d ring \<and> q = received @ ring @ queue))"

lemma link_send_try: "link_send m d = (ok, d') \<longleftrightarrow> (\<exists>ch. try_write m (endpoint_a d) = (ok, ch) \<and> d' = (ch_write ch, ch_read ch))"
  by (auto simp: link_send_def split: prod.splits)

lemma endpoint_rings [simp]: "ch_write (endpoint_a d) = fst d" "ch_read (endpoint_a d) = snd d"
  by (simp_all add: endpoint_a_def)

interpretation local_outbox: outbox local_rep link_valid link_write "{link_pump, link_receive}"
proof unfold_locales
  fix s q m assume r: "local_rep s q" and v: "link_valid m"
  obtain d queue received where s: "s = (d, queue, received)" by (cases s) auto
  obtain ring where ring: "link_rep d ring" "q = received @ ring @ queue" "\<forall>m \<in> set queue. link_valid m"
    using r by (auto simp: local_rep_def s)
  show "local_rep (link_write m s) (q @ [m])"
  proof (cases "queue = []")
    case False
    then show ?thesis using ring v by (auto simp: link_write_def local_write_def s local_rep_def)
  next
    case True
    obtain ok ch where t: "try_write m (endpoint_a d) = (ok, ch)" by fastforce
    then have l: "link_send m d = (ok, (ch_write ch, ch_read ch))" by (simp add: link_send_try)
    show ?thesis
    proof (cases ok)
      case True
      then have "link_rep (ch_write ch, ch_read ch) (ring @ [m])" using link.send_accepted [OF ring(1) v] l by simp
      then show ?thesis using t True \<open>queue = []\<close> ring(2) by (auto simp: link_write_def local_write_def s local_rep_def)
    next
      case False
      then have "link_rep (ch_write ch, ch_read ch) ring" using link.send_refused [OF ring(1) v] l by simp
      then show ?thesis using t False \<open>queue = []\<close> ring(2) v by (auto simp: link_write_def local_write_def s local_rep_def)
    qed
  qed
next
  fix t s q assume t: "t \<in> {link_pump, link_receive}" and r: "local_rep s q"
  obtain d queue received where s: "s = (d, queue, received)" by (cases s) auto
  obtain ring where ring: "link_rep d ring" "q = received @ ring @ queue" "\<forall>m \<in> set queue. link_valid m"
    using r by (auto simp: local_rep_def s)
  show "local_rep (t s) q"
  proof (cases "t = link_receive")
    case True
    show ?thesis
    proof (cases ring)
      case Nil
      then obtain d' where "link_recv d = (None, d')" "link_rep d' []" using link.recv_empty ring(1) by blast
      then show ?thesis using True Nil ring by (auto simp: link_receive_def s local_rep_def)
    next
      case (Cons m rest)
      then obtain d' where "link_recv d = (Some m, d')" "link_rep d' rest" using link.recv_item ring(1) by blast
      then show ?thesis using True Cons ring by (auto simp: link_receive_def s local_rep_def)
    qed
  next
    case False
    then have tp: "t = link_pump" using t by simp
    show ?thesis
    proof (cases queue)
      case Nil
      then show ?thesis using tp ring by (auto simp: link_pump_def auto_write_def s local_rep_def)
    next
      case (Cons m rest)
      obtain ok ch where w: "try_write m (endpoint_a d) = (ok, ch)" by fastforce
      then have l: "link_send m d = (ok, (ch_write ch, ch_read ch))" by (simp add: link_send_try)
      have v: "link_valid m" using ring(3) Cons by simp
      show ?thesis
      proof (cases ok)
        case True
        then have "link_rep (ch_write ch, ch_read ch) (ring @ [m])" using link.send_accepted [OF ring(1) v] l by simp
        then show ?thesis using w True Cons ring(2,3) tp by (auto simp: link_pump_def auto_write_def s local_rep_def)
      next
        case False
        then have "link_rep (ch_write ch, ch_read ch) ring" using link.send_refused [OF ring(1) v] l by simp
        then show ?thesis using w False Cons ring(2,3) tp by (auto simp: link_pump_def auto_write_def s local_rep_def)
      qed
    qed
  qed
qed

text \<open>Whatever a gate writes to a local service, and however its writes interleave with the pump of the queue and with the reads of the
  service, what the service has received, what is in the ring and what is queued are together all the messages written, each
  once and in order.\<close>

theorem local_service_in_order:
  assumes "local_rep s q" "\<forall>m \<in> set (written_messages ops). link_valid m"
    "\<forall>t. Tick t \<in> set ops \<longrightarrow> t \<in> {link_pump, link_receive}"
    "outbox_run link_write ops s = (d, queue, received)"
  shows "\<exists>ring. link_rep d ring \<and> received @ ring @ queue = q @ written_messages ops"
  using local_outbox.run_keeps_order [OF assms(1-3)] assms(4) by (auto simp: local_rep_def)

definition sample_ops :: "(byte list, local_link) outbox_op list" where
  "sample_ops = [Write [1, 2, 3], Write [4, 5], Write [6], Tick link_receive, Tick link_pump, Tick link_receive]"

theorem local_service_in_order_witness:
  "\<exists>d queue received ring. outbox_run link_write sample_ops ((shm_buffer_open 8 None, shm_buffer_open 8 None), [], []) = (d, queue, received)
     \<and> link_rep d ring \<and> received @ ring @ queue = [[1, 2, 3], [4, 5], [6]]"
proof -
  let ?s = "((shm_buffer_open 8 None, shm_buffer_open 8 None), [], []) :: local_link"
  have "link_rep (shm_buffer_open 8 None, shm_buffer_open 8 None) []" by (rule link_rep_open) (simp_all add: word_less_nat_alt)
  then have r: "local_rep ?s []" by (simp add: local_rep_def)
  obtain d queue received where run: "outbox_run link_write sample_ops ?s = (d, queue, received)" by (metis prod_cases3)
  have "\<forall>m \<in> set (written_messages sample_ops). link_valid m" by (simp add: sample_ops_def link_valid_def valid_message_def)
  moreover have "\<forall>t. Tick t \<in> set sample_ops \<longrightarrow> t \<in> {link_pump, link_receive}" by (auto simp: sample_ops_def)
  ultimately show ?thesis using local_service_in_order [OF r _ _ run] run by (auto simp: sample_ops_def)
qed

text \<open>The same contract for a remote gate, over the frames handed to the network and those kept while there is no connection.\<close>

definition remote_rep :: "u16 \<Rightarrow> gate \<Rightarrow> byte list list \<Rightarrow> bool" where
  "remote_rep g st q \<longleftrightarrow> (\<exists>rg. ga_remotes st g = Some rg \<and> (rg_socket rg \<noteq> 0 \<longrightarrow> rg_queue rg = []) \<and> q = map snd (ga_frames st) @ rg_queue rg)"

interpretation remote_outbox: outbox "remote_rep g" "\<lambda>_. True" "remote_send g" "insert (remote_broken g) (remote_connected g ` {s. s \<noteq> 0})" for g
proof unfold_locales
  fix st q m assume "remote_rep g st q"
  then show "remote_rep g (remote_send g m st) (q @ [m])"
    by (auto simp: remote_rep_def remote_send_def word_gt_0)
next
  fix t st q assume t: "t \<in> insert (remote_broken g) (remote_connected g ` {s. s \<noteq> 0})" and r: "remote_rep g st q"
  then consider "t = remote_broken g" | s where "t = remote_connected g s" "s \<noteq> 0" by auto
  then show "remote_rep g (t st) q"
  proof cases
    case 1
    then show ?thesis using r by (auto simp: remote_rep_def remote_broken_def)
  next
    case 2
    then show ?thesis using r by (auto simp: remote_rep_def remote_connected_def comp_def)
  qed
qed

text \<open>What is sent to a remote gate goes out in order, through whatever connections come and go: the frames handed to the network and
  then those kept back are all the frames sent.\<close>

theorem remote_gate_in_order:
  assumes "remote_rep g st q" "\<forall>t. Tick t \<in> set ops \<longrightarrow> t \<in> insert (remote_broken g) (remote_connected g ` {s. s \<noteq> 0})"
  shows "\<exists>rg. ga_remotes (outbox_run (remote_send g) ops st) g = Some rg
     \<and> map snd (ga_frames (outbox_run (remote_send g) ops st)) @ rg_queue rg = q @ written_messages ops"
  using remote_outbox.run_keeps_order [OF assms(1) _ assms(2)] by (auto simp: remote_rep_def)

section \<open>Subscriptions\<close>

text \<open>The connections that are open and subscribed to a type.\<close>

definition subscribers :: "u16 \<Rightarrow> gate \<Rightarrow> nat set" where
  "subscribers tp st = {p. p < length (ga_socks st) \<and> lk_socket (ga_socks st ! p) \<noteq> 0 \<and> tp \<in> set (lk_subscribe (ga_socks st ! p))}"

definition sub_list :: "u16 \<Rightarrow> gate \<Rightarrow> nat list" where
  "sub_list tp st = (case ga_subs st tp of None \<Rightarrow> [] | Some ps \<Rightarrow> ps)"

definition subs_ok :: "gate \<Rightarrow> bool" where
  "subs_ok st \<longleftrightarrow> (\<forall>tp. distinct (sub_list tp st) \<and> set (sub_list tp st) = subscribers tp st)
     \<and> (\<forall>p < length (ga_socks st). distinct (lk_subscribe (ga_socks st ! p)))"

lemma service_update_simps [simp]:
  "ga_socks (service_update i st) = ga_socks st" "ga_subs (service_update i st) = ga_subs st" "ga_objs (service_update i st) = ga_objs st"
  "ga_services (service_update i st) = ga_services st" "ga_remotes (service_update i st) = ga_remotes st" "ga_types (service_update i st) = ga_types st"
  "ga_queues (service_update i st) = ga_queues st" "ga_id (service_update i st) = ga_id st" "ga_master (service_update i st) = ga_master st"
  by (simp_all add: service_update_def notify_subscribers_def upload_service_def Let_def split: option.splits)

lemma emplace_service_simps [simp]:
  "ga_socks (emplace_service i st) = ga_socks st" "ga_subs (emplace_service i st) = ga_subs st" "ga_id (emplace_service i st) = ga_id st"
  "length (ga_objs (emplace_service i st)) = length (ga_objs st)" "ga_master (emplace_service i st) = ga_master st"
  by (simp_all add: emplace_service_def Let_def split: option.splits)

lemma subs_ok_cong:
  "ga_subs s = ga_subs t \<Longrightarrow> map (\<lambda>k. (lk_socket k, lk_subscribe k)) (ga_socks s) = map (\<lambda>k. (lk_socket k, lk_subscribe k)) (ga_socks t) \<Longrightarrow> subs_ok s = subs_ok t"
proof -
  assume s: "ga_subs s = ga_subs t" and m: "map (\<lambda>k. (lk_socket k, lk_subscribe k)) (ga_socks s) = map (\<lambda>k. (lk_socket k, lk_subscribe k)) (ga_socks t)"
  have l: "length (ga_socks s) = length (ga_socks t)" using m map_eq_imp_length_eq by blast
  have n: "lk_socket (ga_socks s ! p) = lk_socket (ga_socks t ! p) \<and> lk_subscribe (ga_socks s ! p) = lk_subscribe (ga_socks t ! p)" if "p < length (ga_socks t)" for p
    using arg_cong [OF m, of "\<lambda>xs. xs ! p"] that l by simp
  have "subscribers tp s = subscribers tp t" for tp using n l by (auto simp: subscribers_def)
  then show ?thesis using n l s by (simp add: subs_ok_def sub_list_def)
qed

lemma swap_remove_distinct:
  "distinct xs \<Longrightarrow> distinct (swap_remove x xs) \<and> set (swap_remove x xs) = set xs - {x}"
proof (induction xs)
  case (Cons y ys)
  then show ?case by (cases ys rule: rev_cases) auto
qed simp

text \<open>Every step of the local side keeps the subscriptions right.\<close>

lemma service_subscribe_subs:
  assumes ok: "subs_ok st" and p: "p < length (ga_socks st)" "lk_socket (ga_socks st ! p) \<noteq> 0"
  shows "subs_ok (service_subscribe parse p session buffer st)"
proof -
  let ?sk = "ga_socks st ! p"
  have refused: "subs_ok (st\<lparr>ga_closed := c\<rparr>)" "subs_ok (send_local a b m st)" for c a b m
    using ok subs_ok_cong [of "st\<lparr>ga_closed := c\<rparr>" st] subs_ok_cong [of "send_local a b m st" st] by (simp_all add: send_local_def)
  have accepted: "subs_ok (send_local a b m (map_sock p (\<lambda>sk. if tp \<in> set (lk_subscribe sk) then sk else sk\<lparr>lk_subscribe := lk_subscribe sk @ [tp]\<rparr>)
      (st\<lparr>ga_subs := (ga_subs st)(tp \<mapsto> if p \<in> set info then info else info @ [p])\<rparr>)))" (is "subs_ok ?u")
    if info: "info = sub_list tp st" for a b m tp info
  proof -
    have k: "ga_socks ?u = (ga_socks st)[p := if tp \<in> set (lk_subscribe ?sk) then ?sk else ?sk\<lparr>lk_subscribe := lk_subscribe ?sk @ [tp]\<rparr>]"
        "ga_subs ?u = (ga_subs st)(tp \<mapsto> if p \<in> set info then info else info @ [p])"
      by (simp_all add: send_local_def map_sock_def)
    have i: "distinct info" "set info = subscribers tp st" using ok by (simp_all add: subs_ok_def info)
    have s: "subscribers tq ?u = (if tq = tp then insert p (subscribers tq st) else subscribers tq st)" for tq
      using p by (auto simp: subscribers_def k(1) nth_list_update)
    have "distinct (lk_subscribe (ga_socks ?u ! r))" if "r < length (ga_socks ?u)" for r
      using ok p that by (auto simp: k(1) subs_ok_def nth_list_update)
    moreover have "sub_list tq ?u = (if tq \<noteq> tp then sub_list tq st else if p \<in> set info then info else info @ [p])" for tq
      by (simp add: sub_list_def k(2))
    ultimately show ?thesis using ok i unfolding subs_ok_def s by auto
  qed
  show ?thesis
    unfolding service_subscribe_def Let_def sub_list_def [symmetric] using refused accepted [OF refl] by (auto split: option.splits)
qed

lemma unsubscribe_fold:
  assumes "distinct tps"
  shows "fold (\<lambda>tp st. case ga_subs st tp of None \<Rightarrow> st | Some ps \<Rightarrow> st\<lparr>ga_subs := (ga_subs st)(tp \<mapsto> swap_remove p ps)\<rparr>) tps st =
     st\<lparr>ga_subs := (\<lambda>tp. if tp \<in> set tps then map_option (swap_remove p) (ga_subs st tp) else ga_subs st tp)\<rparr>"
  using assms
proof (induction tps arbitrary: st)
  case (Cons tp tps)
  let ?t = "case ga_subs st tp of None \<Rightarrow> st | Some ps \<Rightarrow> st\<lparr>ga_subs := (ga_subs st)(tp \<mapsto> swap_remove p ps)\<rparr>"
  have "?t = st\<lparr>ga_subs := (ga_subs st)(tp := map_option (swap_remove p) (ga_subs st tp))\<rparr>" by (simp add: fun_upd_idem split: option.splits)
  then show ?case using Cons by (auto simp: fun_eq_iff intro!: arg_cong [where f = "\<lambda>x. st\<lparr>ga_subs := x\<rparr>"])
qed simp

lemma local_broken_subs:
  assumes ok: "subs_ok st" and p: "p < length (ga_socks st)"
  shows "subs_ok (local_broken p st)"
proof -
  let ?sk = "ga_socks st ! p"
  define t where "t = (case lk_service ?sk of None \<Rightarrow> st
      | Some i \<Rightarrow> if service_socket i st = lk_socket ?sk
          then service_update i (map_obj i (\<lambda>s. (set_service_socket 0 s)\<lparr>sv_online := False\<rparr>) st) else st)"
  have t: "ga_socks t = ga_socks st" "ga_subs t = ga_subs st" by (simp_all add: t_def split: option.splits)
  have d: "distinct (lk_subscribe ?sk)" using ok p by (simp add: subs_ok_def)
  have b: "local_broken p st = map_sock p (\<lambda>sk. sk\<lparr>lk_service := None, lk_socket := 0\<rparr>)
      (t\<lparr>ga_subs := (\<lambda>tp. if tp \<in> set (lk_subscribe ?sk) then map_option (swap_remove p) (ga_subs t tp) else ga_subs t tp)\<rparr>)"
    unfolding local_broken_def Let_def t_def [symmetric] unsubscribe_fold [OF d] by simp
  have s: "subscribers tp (local_broken p st) = subscribers tp st - {p}" for tp
    using p unfolding b by (auto simp: subscribers_def map_sock_def t nth_list_update)
  have "p \<notin> subscribers tp st" if "tp \<notin> set (lk_subscribe ?sk)" for tp using that by (simp add: subscribers_def)
  moreover have "distinct (lk_subscribe (ga_socks (local_broken p st) ! r))" if "r < length (ga_socks (local_broken p st))" for r
    using ok that p unfolding b by (auto simp: map_sock_def t subs_ok_def nth_list_update)
  moreover have "sub_list tp (local_broken p st) = (if tp \<in> set (lk_subscribe ?sk) then swap_remove p (sub_list tp st) else sub_list tp st)" for tp
    unfolding b by (simp add: map_sock_def t sub_list_def split: option.splits)
  moreover have "distinct (swap_remove p (sub_list tp st))" "set (swap_remove p (sub_list tp st)) = subscribers tp st - {p}" for tp
    using ok swap_remove_distinct [of "sub_list tp st" p] by (simp_all add: subs_ok_def)
  ultimately show ?thesis using ok unfolding subs_ok_def s by auto
qed

text \<open>The steps of a gate: connections, requests of local services, answers and broadcasts of the master, messages to forward.\<close>

datatype gate_event = Local_accepted u32 int | Subscribe nat u64 "byte list" | Register nat u64 s_service_register_req
  | Registered nat u64 s_service_register_req shm_channel "ack_ec option" | Local_closed nat | From_master master_msg | Forwarded "byte list"
  | Remote_up u16 u32 | Remote_down u16

fun gate_step :: "(byte list \<Rightarrow> u32 option) \<Rightarrow> gate_event \<Rightarrow> gate \<Rightarrow> gate" where
  "gate_step parse (Local_accepted socket now) st = accept_local socket now st"
| "gate_step parse (Subscribe p session buffer) st = service_subscribe parse p session buffer st"
| "gate_step parse (Register p session req) st = fst (service_register p session req st)"
| "gate_step parse (Registered p session req channel answer) st = service_register_resumed p session req channel answer st"
| "gate_step parse (Local_closed p) st = local_broken p st"
| "gate_step parse (From_master msg) st = master_message msg st"
| "gate_step parse (Forwarded strv) st = forward strv st"
| "gate_step parse (Remote_up g socket) st = remote_connected g socket st"
| "gate_step parse (Remote_down g) st = remote_broken g st"

text \<open>Frames and the end of a connection come from an open connection; the network numbers sockets from 1.\<close>

fun gate_enabled :: "gate_event \<Rightarrow> gate \<Rightarrow> bool" where
  "gate_enabled (Local_accepted socket now) st \<longleftrightarrow> socket \<noteq> 0"
| "gate_enabled (Subscribe p session buffer) st \<longleftrightarrow> p < length (ga_socks st) \<and> lk_socket (ga_socks st ! p) \<noteq> 0"
| "gate_enabled (Register p session req) st \<longleftrightarrow> p < length (ga_socks st)"
| "gate_enabled (Registered p session req channel answer) st \<longleftrightarrow> p < length (ga_socks st)"
| "gate_enabled (Local_closed p) st \<longleftrightarrow> p < length (ga_socks st) \<and> lk_socket (ga_socks st ! p) \<noteq> 0"
| "gate_enabled (Remote_up g socket) st \<longleftrightarrow> socket \<noteq> 0"
| "gate_enabled _ st \<longleftrightarrow> True"

inductive gate_reach :: "(byte list \<Rightarrow> u32 option) \<Rightarrow> u16 \<Rightarrow> gate \<Rightarrow> bool" for parse g where
  start: "gate_reach parse g (empty_gate g)"
| step: "gate_reach parse g st \<Longrightarrow> gate_enabled e st \<Longrightarrow> gate_reach parse g (gate_step parse e st)"

definition socks_view :: "gate \<Rightarrow> (u32 \<times> u16 list) list" where
  "socks_view st = map (\<lambda>k. (lk_socket k, lk_subscribe k)) (ga_socks st)"

text \<open>Most steps leave connections and subscriptions alone.\<close>

lemma bind_service_view:
  assumes "p < length (ga_socks st)"
  shows "ga_subs (bind_service p i session st) = ga_subs st" "socks_view (bind_service p i session st) = socks_view st"
proof -
  have "map f (xs[p := x]) = map f xs" if "f x = f (xs ! p)" "p < length xs" for f :: "local_socket \<Rightarrow> u32 \<times> u16 list" and xs x
    using that by (simp add: map_update list_update_same_conv)
  then show "ga_subs (bind_service p i session st) = ga_subs st" "socks_view (bind_service p i session st) = socks_view st"
    using assms by (simp_all add: bind_service_def Let_def send_local_def map_sock_def socks_view_def)
qed

lemma add_local_service_view:
  "ga_subs (snd (add_local_service channel req st)) = ga_subs st" "ga_socks (snd (add_local_service channel req st)) = ga_socks st"
proof -
  have "ga_subs (fold add_shm xs st) = ga_subs st \<and> ga_socks (fold add_shm xs st) = ga_socks st" for xs st
    by (induction xs arbitrary: st) (auto simp: add_shm_def)
  then show "ga_subs (snd (add_local_service channel req st)) = ga_subs st" "ga_socks (snd (add_local_service channel req st)) = ga_socks st"
    by (simp_all add: add_local_service_def Let_def)
qed

lemma add_remote_view:
  "ga_subs (add_remote_service g info st) = ga_subs st" "ga_socks (add_remote_service g info st) = ga_socks st"
  by (simp_all add: add_remote_service_def Let_def split: option.splits)

lemma add_remote_gate_view: "ga_subs (add_remote_gate info st) = ga_subs st \<and> ga_socks (add_remote_gate info st) = ga_socks st"
proof -
  have "ga_subs (fold (add_remote_service g) ss st) = ga_subs st \<and> ga_socks (fold (add_remote_service g) ss st) = ga_socks st" for g ss st
    by (induction ss arbitrary: st) (simp_all add: add_remote_view)
  then show ?thesis by (simp add: add_remote_gate_def Let_def)
qed

lemma master_message_view: "ga_subs (master_message m st) = ga_subs st \<and> ga_socks (master_message m st) = ga_socks st"
proof -
  have "ga_subs (fold add_remote_gate gs st) = ga_subs st \<and> ga_socks (fold add_remote_gate gs st) = ga_socks st" for gs st
    by (induction gs arbitrary: st) (simp_all add: add_remote_gate_view)
  then show ?thesis by (cases "(m, st)" rule: master_message.cases) auto
qed

lemma subs_ok_view: "ga_subs s = ga_subs t \<Longrightarrow> socks_view s = socks_view t \<Longrightarrow> subs_ok s = subs_ok t"
  unfolding socks_view_def by (rule subs_ok_cong)

lemma register_view:
  assumes "p < length (ga_socks st)"
  shows "subs_ok (fst (service_register p session req st)) = subs_ok st" "subs_ok (service_register_resumed p session req channel answer st) = subs_ok st"
proof -
  have s: "subs_ok (send_local a b m st) = subs_ok st" for a b m by (rule subs_ok_view) (simp_all add: send_local_def socks_view_def)
  have b: "subs_ok (bind_service p k session st) = subs_ok st" for k by (rule subs_ok_view) (simp_all add: bind_service_view [OF assms])
  show "subs_ok (fst (service_register p session req st)) = subs_ok st"
    by (simp add: service_register_def Let_def s b split: option.splits)
  obtain k t where t: "add_local_service channel req st = (k, t)" by fastforce
  have v: "ga_subs t = ga_subs st" "ga_socks t = ga_socks st" using add_local_service_view [of channel req st] t by simp_all
  have "subs_ok (bind_service p k session t) = subs_ok st"
    using bind_service_view [of p t k session] assms v by (intro subs_ok_view) (simp_all add: socks_view_def)
  then show "subs_ok (service_register_resumed p session req channel answer st) = subs_ok st"
    by (simp add: service_register_resumed_def Let_def s t split: option.splits)
qed

lemma gate_step_subs:
  assumes ok: "subs_ok st" and e: "gate_enabled e st"
  shows "subs_ok (gate_step parse e st)"
proof (cases e)
  case (Local_accepted socket now)
  let ?t = "accept_local socket now st"
  have "subscribers tp ?t = subscribers tp st" for tp
    by (auto simp: subscribers_def accept_local_def nth_append less_Suc_eq split: if_splits)
  moreover have "sub_list tp ?t = sub_list tp st" for tp by (simp add: sub_list_def accept_local_def)
  moreover have "distinct (lk_subscribe (ga_socks ?t ! p))" if "p < length (ga_socks ?t)" for p
    using ok that by (auto simp: subs_ok_def accept_local_def nth_append less_Suc_eq split: if_splits)
  ultimately show ?thesis using ok Local_accepted by (simp add: subs_ok_def)
next
  case (From_master m)
  then show ?thesis using ok master_message_view [of m st] subs_ok_view [of "master_message m st" st] by (simp add: socks_view_def)
next
  case (Forwarded strv)
  have "ga_subs (forward strv st) = ga_subs st" "ga_socks (forward strv st) = ga_socks st"
    by (simp_all add: forward_def Let_def split: option.splits)
  then show ?thesis using ok Forwarded subs_ok_view [of "forward strv st" st] by (simp add: socks_view_def)
next
  case (Remote_up g socket)
  then show ?thesis using ok subs_ok_view [of "remote_connected g socket st" st] by (simp add: remote_connected_def socks_view_def split: option.splits)
next
  case (Remote_down g)
  then show ?thesis using ok subs_ok_view [of "remote_broken g st" st] by (simp add: remote_broken_def socks_view_def split: option.splits)
next
  case (Subscribe p session buffer)
  then show ?thesis using ok e service_subscribe_subs by simp
next
  case (Register p session req)
  then show ?thesis using ok e register_view(1) by simp
next
  case (Registered p session req channel answer)
  then show ?thesis using ok e register_view(2) by simp
next
  case (Local_closed p)
  then show ?thesis using ok e local_broken_subs by simp
qed

lemma gate_reach_subs: "gate_reach parse g st \<Longrightarrow> subs_ok st"
proof (induction rule: gate_reach.induct)
  case start
  show ?case by (simp add: empty_gate_def subs_ok_def subscribers_def sub_list_def)
qed (rule gate_step_subs)

definition sample_subscribe :: "byte list \<Rightarrow> u32 option" where
  "sample_subscribe bs = (case bs of [b] \<Rightarrow> Some (ucast b) | _ \<Rightarrow> None)"

section \<open>Registering a local service\<close>

lemma map_obj_nth: "i < length (ga_objs st) \<Longrightarrow> ga_objs (map_obj i f st) ! j = (if j = i then f (ga_objs st ! i) else ga_objs st ! j)"
  by (simp add: map_obj_def nth_list_update)

definition obj_frame :: "service_info \<Rightarrow> u16 \<times> u16 \<times> u16 \<times> bool \<times> u32 option" where
  "obj_frame s = (sv_id s, sv_tp s, sv_gate s, sv_online s,
     case sv_kind s of Local_service socket channel queue \<Rightarrow> Some socket | Remote_service g \<Rightarrow> None)"

lemma service_write_obj: "j < length (ga_objs st) \<Longrightarrow> obj_frame (ga_objs (service_write i m st) ! j) = obj_frame (ga_objs st ! j)"
  by (cases "i = j"; cases "sv_kind (ga_objs st ! i)") (simp_all add: service_write_def map_obj_def obj_frame_def split: prod.splits)

lemma service_writes_obj: "j < length (ga_objs st) \<Longrightarrow> obj_frame (ga_objs (fold (service_write i) ms st) ! j) = obj_frame (ga_objs st ! j)"
  by (induction ms arbitrary: st) (simp_all add: service_write_obj)

lemma emplace_service_obj: "j < length (ga_objs st) \<Longrightarrow> obj_frame (ga_objs (emplace_service i st) ! j) = obj_frame (ga_objs st ! j)"
  by (auto simp: emplace_service_def Let_def service_writes_obj split: option.splits)

lemma emplace_service_services:
  "ga_services (emplace_service i st) = (if ga_services st (sv_id (ga_objs st ! i)) = None
     then (ga_services st)(sv_id (ga_objs st ! i) \<mapsto> i) else ga_services st)"
  by (auto simp: emplace_service_def Let_def split: option.splits)

lemma add_shm_simps [simp]:
  "ga_objs (fold add_shm xs st) = ga_objs st" "ga_services (fold add_shm xs st) = ga_services st" "ga_socks (fold add_shm xs st) = ga_socks st"
  "ga_id (fold add_shm xs st) = ga_id st"
  by (induction xs arbitrary: st) (auto simp: add_shm_def)

text \<open>What a finished registration leaves behind: a new object, bound to the connection whatever became of it.\<close>

lemma registered_state:
  fixes req :: s_service_register_req and channel :: shm_channel and session :: u64
  assumes "p < length (ga_socks st)"
  defines "i \<equiv> ucast (si_id (rr_info req)) :: u16" and "k \<equiv> length (ga_objs st)"
    and "t \<equiv> service_register_resumed p session req channel (Some Ec_success) st"
  shows "length (ga_objs t) = Suc k" "obj_frame (ga_objs t ! k) = (i, ucast (si_tp (rr_info req)), ga_id st, True, Some (lk_socket (ga_socks st ! p)))"
    "j < k \<Longrightarrow> obj_frame (ga_objs t ! j) = obj_frame (ga_objs st ! j)"
    "ga_services t = (if ga_services st i = None then (ga_services st)(i \<mapsto> k) else ga_services st)"
    "ga_socks t = (ga_socks st)[p := (ga_socks st ! p)\<lparr>lk_service := Some k\<rparr>]" "ga_id t = ga_id st"
proof -
  let ?new = "\<lparr>sv_id = i, sv_tp = ucast (si_tp (rr_info req)), sv_gate = ga_id st, sv_online = False, sv_kind = Local_service 0 channel []\<rparr>"
  define u where "u = fold add_shm (rr_shm req) (st\<lparr>ga_objs := ga_objs st @ [?new], ga_locals := ga_locals st @ [k]\<rparr>)"
  have u: "ga_objs u = ga_objs st @ [?new]" "ga_services u = ga_services st" "ga_socks u = ga_socks st" "ga_id u = ga_id st"
    by (simp_all add: u_def)
  define v where "v = emplace_service k u"
  have v: "length (ga_objs v) = Suc k" "ga_socks v = ga_socks st" "ga_id v = ga_id st"
      "ga_services v = (if ga_services st i = None then (ga_services st)(i \<mapsto> k) else ga_services st)"
    by (simp_all add: v_def u k_def emplace_service_services nth_append)
  have vk: "obj_frame (ga_objs v ! j) = (if j = k then obj_frame ?new else obj_frame (ga_objs st ! j))" if "j < Suc k" for j
    using emplace_service_obj [of j u k] that by (auto simp: v_def u k_def nth_append)
  have t: "t = bind_service p k session v"
    by (simp add: t_def service_register_resumed_def add_local_service_def Let_def u_def [symmetric] v_def k_def [symmetric] i_def [symmetric])
  define w where "w = map_obj k (\<lambda>s. (set_service_socket (lk_socket (ga_socks st ! p)) s)\<lparr>sv_online := True\<rparr>)
     (map_sock p (\<lambda>sk. sk\<lparr>lk_service := Some k\<rparr>) v)"
  have w: "ga_objs t = ga_objs w" "ga_services t = ga_services v" "ga_socks t = ga_socks w" "ga_id t = ga_id st"
    using assms(1) by (simp_all add: t bind_service_def Let_def send_local_def w_def map_sock_def v)
  have o: "ga_objs w = (ga_objs v)[k := (set_service_socket (lk_socket (ga_socks st ! p)) (ga_objs v ! k))\<lparr>sv_online := True\<rparr>]"
    by (simp add: w_def map_obj_def map_sock_def)
  show "length (ga_objs t) = Suc k" using w o v by simp
  show "ga_services t = (if ga_services st i = None then (ga_services st)(i \<mapsto> k) else ga_services st)" using w v by simp
  show "ga_socks t = (ga_socks st)[p := (ga_socks st ! p)\<lparr>lk_service := Some k\<rparr>]" using w v by (simp add: w_def map_sock_def)
  show "ga_id t = ga_id st" using w by simp
  show "obj_frame (ga_objs t ! j) = obj_frame (ga_objs st ! j)" if "j < k" using w(1) o vk [of j] that by simp
  have "obj_frame (ga_objs v ! k) = obj_frame ?new" using vk [of k] by simp
  then show "obj_frame (ga_objs t ! k) = (i, ucast (si_tp (rr_info req)), ga_id st, True, Some (lk_socket (ga_socks st ! p)))"
    using w(1) o v(1) by (auto simp: obj_frame_def set_service_socket_def split: service_kind.splits)
qed

lemma local_broken_new:
  assumes "p < length (ga_socks st)" "lk_service (ga_socks st ! p) = None"
  shows "ga_objs (local_broken p st) = ga_objs st" "ga_services (local_broken p st) = ga_services st"
    "ga_socks (local_broken p st) = (ga_socks st)[p := (ga_socks st ! p)\<lparr>lk_service := None, lk_socket := 0\<rparr>]" "ga_id (local_broken p st) = ga_id st"
proof -
  have "ga_objs (fold f tps st) = ga_objs st \<and> ga_services (fold f tps st) = ga_services st \<and> ga_socks (fold f tps st) = ga_socks st \<and> ga_id (fold f tps st) = ga_id st"
    if "f = (\<lambda>tp st. case ga_subs st tp of None \<Rightarrow> st | Some ps \<Rightarrow> st\<lparr>ga_subs := (ga_subs st)(tp \<mapsto> swap_remove p ps)\<rparr>)" for f :: "u16 \<Rightarrow> gate \<Rightarrow> gate" and tps st
    using that by (induction tps arbitrary: st) (auto split: option.splits)
  then show "ga_objs (local_broken p st) = ga_objs st" "ga_services (local_broken p st) = ga_services st"
    "ga_socks (local_broken p st) = (ga_socks st)[p := (ga_socks st ! p)\<lparr>lk_service := None, lk_socket := 0\<rparr>]" "ga_id (local_broken p st) = ga_id st"
    using assms by (simp_all add: local_broken_def Let_def map_sock_def)
qed

text \<open>A service that loses its connection while the gate is still asking the master about it ends up registered and marked online although it
  has no connection: only before the question is the connection looked at, and nothing will ever mark the service
  offline, since its connection has ended already.\<close>

theorem registered_after_disconnect:
  assumes "p < length (ga_socks st)" "lk_socket (ga_socks st ! p) \<noteq> 0" "lk_service (ga_socks st ! p) = None"
    "ucast (si_id (rr_info req)) = i" "i \<noteq> (0 :: u16)" "ga_services st i = None"
  shows "service_register p session req st = (st, True) \<and>
     (let st' = service_register_resumed p session req channel (Some Ec_success) (local_broken p st)
      in \<exists>k. ga_services st' i = Some k \<and> sv_id (ga_objs st' ! k) = i \<and> sv_online (ga_objs st' ! k) \<and> service_socket k st' = 0
         \<and> is_local k st' \<and> lk_service (ga_socks st' ! p) = Some k \<and> lk_socket (ga_socks st' ! p) = 0)"
proof -
  note b = local_broken_new [OF assms(1,3)]
  let ?t = "local_broken p st"
  have p: "p < length (ga_socks ?t)" "lk_socket (ga_socks ?t ! p) = 0" using b(3) assms(1) by simp_all
  note r = registered_state [OF p(1), where req = req and session = session and channel = channel]
  let ?u = "service_register_resumed p session req channel (Some Ec_success) ?t"
  have f: "obj_frame (ga_objs ?u ! length (ga_objs st)) = (i, ucast (si_tp (rr_info req)), ga_id st, True, Some 0)"
    using r(2) b p(2) assms(4) by simp
  have s: "ga_services ?u i = Some (length (ga_objs st))" using r(4) b assms(4,6) by simp
  have k: "ga_socks ?u ! p = (ga_socks ?t ! p)\<lparr>lk_service := Some (length (ga_objs st))\<rparr>" using r(5) b p(1) by simp
  have "service_register p session req st = (st, True)"
    using assms by (simp add: service_register_def Let_def find_service_def)
  moreover have "sv_id (ga_objs ?u ! length (ga_objs st)) = i \<and> sv_online (ga_objs ?u ! length (ga_objs st))
      \<and> service_socket (length (ga_objs st)) ?u = 0 \<and> is_local (length (ga_objs st)) ?u"
    using f by (auto simp: obj_frame_def service_socket_def is_local_def split: service_kind.splits)
  ultimately show ?thesis using s k p(2) by (auto simp: Let_def)
qed

definition sample_request :: s_service_register_req where
  "sample_request = \<lparr>rr_info = \<lparr>si_id = 9, si_tp = 3, si_online = False\<rparr>, rr_channel_size = 64, rr_shm = []\<rparr>"

theorem registered_after_disconnect_witness:
  "\<exists>k. ga_services (service_register_resumed 0 5 sample_request (endpoint_a (shm_buffer_open 8 None, shm_buffer_open 8 None)) (Some Ec_success)
       (local_broken 0 (accept_local 7 0 (empty_gate 1)))) 9 = Some k"
  using registered_after_disconnect [of 0 "accept_local 7 0 (empty_gate 1)" sample_request 9 5
      "endpoint_a (shm_buffer_open 8 None, shm_buffer_open 8 None)"]
  by (auto simp: accept_local_def empty_gate_def sample_request_def Let_def)

text \<open>Two connections that register the same service while the master is being asked both succeed, with an object and a
  channel each: there is no second look at the table after the wait.  Messages for the service reach the first one only.\<close>

theorem registered_twice:
  assumes "p < length (ga_socks st)" "q < length (ga_socks st)" "p \<noteq> q" "lk_socket (ga_socks st ! p) \<noteq> 0" "lk_socket (ga_socks st ! q) \<noteq> 0"
    "lk_service (ga_socks st ! p) = None" "lk_service (ga_socks st ! q) = None"
    "ucast (si_id (rr_info req)) = i" "i \<noteq> (0 :: u16)" "ga_services st i = None"
  shows "service_register p s1 req st = (st, True) \<and> service_register q s2 req st = (st, True) \<and>
     (let st' = service_register_resumed q s2 req c2 (Some Ec_success) (service_register_resumed p s1 req c1 (Some Ec_success) st)
      in \<exists>k l. k \<noteq> l \<and> lk_service (ga_socks st' ! p) = Some k \<and> lk_service (ga_socks st' ! q) = Some l
         \<and> sv_id (ga_objs st' ! k) = i \<and> sv_id (ga_objs st' ! l) = i \<and> sv_online (ga_objs st' ! k) \<and> sv_online (ga_objs st' ! l)
         \<and> ga_services st' i = Some k)"
proof -
  let ?t = "service_register_resumed p s1 req c1 (Some Ec_success) st" and ?k = "length (ga_objs st)"
  let ?u = "service_register_resumed q s2 req c2 (Some Ec_success) ?t"
  note r = registered_state [OF assms(1), where req = req and session = s1 and channel = c1]
  have q: "q < length (ga_socks ?t)" using r(5) assms(2) by simp
  note s = registered_state [OF q, where req = req and session = s2 and channel = c2]
  have "obj_frame (ga_objs ?u ! ?k) = obj_frame (ga_objs ?t ! ?k)" using s(3) [of ?k] r(1) by simp
  then have a: "sv_id (ga_objs ?u ! ?k) = i \<and> sv_online (ga_objs ?u ! ?k)" using r(2) assms(8) by (simp add: obj_frame_def)
  have b: "sv_id (ga_objs ?u ! Suc ?k) = i \<and> sv_online (ga_objs ?u ! Suc ?k)" using s(2) r(1) assms(8) by (simp add: obj_frame_def)
  have c: "ga_services ?u i = Some ?k" using s(4) r(4) assms(8,10) by simp
  have d: "lk_service (ga_socks ?u ! p) = Some ?k" "lk_service (ga_socks ?u ! q) = Some (Suc ?k)"
    using s(5) r(1,5) q assms(1,3) by simp_all
  show ?thesis
    using assms a b c d by (auto simp: service_register_def Let_def find_service_def intro!: exI [of _ ?k] exI [of _ "Suc ?k"])
qed

section \<open>Changes of services are told\<close>

fun is_brd :: "u32 \<times> u64 \<times> gate_msg \<Rightarrow> bool" where
  "is_brd (socket, session, Subscribe_brd infos) = True"
| "is_brd _ = False"

text \<open>One round: the state of a service, told to the subscribers of its type.\<close>

definition told_round :: "(u16 \<Rightarrow> nat list) \<Rightarrow> gate \<Rightarrow> s_service_info \<Rightarrow> (u32 \<times> u64 \<times> gate_msg) list" where
  "told_round subs st info = map (\<lambda>p. (lk_socket (ga_socks st ! p), 0, Subscribe_brd [info])) (subs (ucast (si_tp info)))"

text \<open>From \<open>st\<close> to \<open>st'\<close> the rounds \<open>infos\<close> were sent and no other broadcast, and every service that is new or whose state has changed is among them.\<close>

definition told :: "gate \<Rightarrow> s_service_info list \<Rightarrow> gate \<Rightarrow> bool" where
  "told st infos st' \<longleftrightarrow> (\<exists>ms. ga_msgs st' = ga_msgs st @ ms \<and> filter is_brd ms = concat (map (told_round (\<lambda>tp. sub_list tp st) st) infos))
     \<and> length (ga_objs st) \<le> length (ga_objs st')
     \<and> (\<forall>j < length (ga_objs st'). j < length (ga_objs st) \<and> to_proto (ga_objs st' ! j) = to_proto (ga_objs st ! j) \<or> to_proto (ga_objs st' ! j) \<in> set infos)"

definition same_subs :: "gate \<Rightarrow> gate \<Rightarrow> bool" where
  "same_subs st st' \<longleftrightarrow> ga_subs st' = ga_subs st \<and> length (ga_socks st') = length (ga_socks st) \<and> map lk_socket (ga_socks st') = map lk_socket (ga_socks st)"

lemma told_round_cong:
  assumes "same_subs st st'" "subs_ok st"
  shows "told_round (\<lambda>tp. sub_list tp st') st' = told_round (\<lambda>tp. sub_list tp st) st"
proof -
  have "lk_socket (ga_socks st' ! p) = lk_socket (ga_socks st ! p)" if "p < length (ga_socks st)" for p
    using arg_cong [of _ _ "\<lambda>xs. xs ! p"] assms(1) that by (metis nth_map same_subs_def)
  moreover have "p < length (ga_socks st)" if "p \<in> set (sub_list tp st)" for p tp using assms(2) that by (auto simp: subs_ok_def subscribers_def)
  moreover have "sub_list tp st' = sub_list tp st" for tp using assms(1) by (simp add: same_subs_def sub_list_def)
  ultimately show ?thesis by (simp add: told_round_def fun_eq_iff)
qed

lemma told_trans:
  assumes "told s a t" "same_subs s t" "subs_ok s" "told t b u"
  shows "told s (a @ b) u"
proof -
  obtain m1 m2 where "ga_msgs t = ga_msgs s @ m1" "filter is_brd m1 = concat (map (told_round (\<lambda>tp. sub_list tp s) s) a)"
    "ga_msgs u = ga_msgs t @ m2" "filter is_brd m2 = concat (map (told_round (\<lambda>tp. sub_list tp t) t) b)"
    using assms(1,4) by (auto simp: told_def)
  then have "\<exists>ms. ga_msgs u = ga_msgs s @ ms \<and> filter is_brd ms = concat (map (told_round (\<lambda>tp. sub_list tp s) s) (a @ b))"
    using told_round_cong [OF assms(2,3)] by (intro exI [of _ "m1 @ m2"]) simp
  moreover have "j < length (ga_objs s) \<and> to_proto (ga_objs u ! j) = to_proto (ga_objs s ! j) \<or> to_proto (ga_objs u ! j) \<in> set (a @ b)"
    if "j < length (ga_objs u)" for j
    using assms(1,4) that unfolding told_def by (metis Un_iff set_append)
  ultimately show ?thesis using assms(1,4) by (auto simp: told_def)
qed

text \<open>A step without a broadcast that leaves the services as they were.\<close>

lemma told_nothing:
  assumes "\<exists>ms. ga_msgs st' = ga_msgs st @ ms \<and> filter is_brd ms = []" "length (ga_objs st') = length (ga_objs st)"
    "\<And>j. j < length (ga_objs st) \<Longrightarrow> to_proto (ga_objs st' ! j) = to_proto (ga_objs st ! j)"
  shows "told st [] st'"
  using assms by (auto simp: told_def)

lemma service_update_msgs: "ga_msgs (service_update i st) = ga_msgs st @ told_round (\<lambda>tp. sub_list tp st) st (to_proto (ga_objs st ! i))"
  by (simp add: service_update_def notify_subscribers_def upload_service_def Let_def sub_list_def told_round_def to_proto_def split: option.splits)

lemma told_round_brd: "filter is_brd (told_round subs st info) = told_round subs st info"
  by (simp add: told_round_def filter_map o_def)

text \<open>A service is changed, or added and changed, and the change is told.\<close>

lemma told_update:
  assumes t: "ga_msgs t = ga_msgs st" "same_subs st t" "subs_ok st" "length (ga_objs st) \<le> length (ga_objs t)"
    and objs: "\<And>j. j < length (ga_objs t) \<Longrightarrow> j \<noteq> i \<Longrightarrow> j < length (ga_objs st) \<and> to_proto (ga_objs t ! j) = to_proto (ga_objs st ! j)"
  shows "told st [to_proto (ga_objs (map_obj i f t) ! i)] (service_update i (map_obj i f t))"
proof -
  let ?u = "map_obj i f t"
  have "same_subs st ?u" using t(2) by (simp add: same_subs_def)
  then have "ga_msgs (service_update i ?u) = ga_msgs st @ told_round (\<lambda>tp. sub_list tp st) st (to_proto (ga_objs ?u ! i))"
    using service_update_msgs [of i ?u] told_round_cong [of st ?u] t(1,3) by simp
  moreover have "to_proto (ga_objs ?u ! j) = to_proto (ga_objs t ! j)" if "j \<noteq> i" for j using that by (simp add: map_obj_def)
  then have "j < length (ga_objs st) \<and> to_proto (ga_objs ?u ! j) = to_proto (ga_objs st ! j) \<or> to_proto (ga_objs ?u ! j) \<in> {to_proto (ga_objs ?u ! i)}"
    if "j < length (ga_objs t)" for j using objs [OF that] by (cases "j = i") auto
  ultimately show ?thesis using t(4) unfolding told_def by (simp add: told_round_brd)
qed

lemma obj_frame_proto: "obj_frame s = obj_frame s' \<Longrightarrow> to_proto s = to_proto s'"
  by (simp add: obj_frame_def to_proto_def)

lemma emplace_service_msgs [simp]: "ga_msgs (emplace_service i st) = ga_msgs st"
  by (simp add: emplace_service_def Let_def split: option.splits)

lemma same_subs_socks: "ga_subs t = ga_subs st \<Longrightarrow> ga_socks t = ga_socks st \<Longrightarrow> same_subs st t"
  by (simp add: same_subs_def)

text \<open>A new service object, as the two ways of adding one leave it.\<close>

lemma emplaced_objs:
  assumes "ga_objs u = ga_objs st @ [new]" "k = length (ga_objs st)" "j < length (ga_objs (emplace_service k u))" "j \<noteq> k"
  shows "j < length (ga_objs st) \<and> to_proto (ga_objs (emplace_service k u) ! j) = to_proto (ga_objs st ! j)"
proof -
  have "j < length (ga_objs st)" using assms by simp
  then show ?thesis using obj_frame_proto [OF emplace_service_obj [of j u k]] assms(1) by (simp add: nth_append)
qed

lemma told_add_remote_service:
  assumes "subs_ok st"
  shows "\<exists>info'. told st [info'] (add_remote_service g info st)"
proof (cases "find_service (ucast (si_id info)) st")
  case (Some k)
  then show ?thesis using told_update [of st st k] assms by (auto simp: add_remote_service_def Let_def same_subs_def)
next
  case None
  define k where "k = length (ga_objs st)"
  define u where "u = st\<lparr>ga_objs := ga_objs st @ [\<lparr>sv_id = ucast (si_id info), sv_tp = ucast (si_tp info), sv_gate = g, sv_online = False, sv_kind = Remote_service g\<rparr>]\<rparr>"
  have "told st [to_proto (ga_objs (map_obj k (\<lambda>s. s\<lparr>sv_online := si_online info\<rparr>) (emplace_service k u)) ! k)]
      (service_update k (map_obj k (\<lambda>s. s\<lparr>sv_online := si_online info\<rparr>) (emplace_service k u)))"
  proof (rule told_update)
    show "same_subs st (emplace_service k u)" by (rule same_subs_socks) (simp_all add: u_def)
  qed (use assms emplaced_objs [of u st _ k] in \<open>auto simp: u_def k_def\<close>)
  moreover have "add_remote_service g info st = service_update k (map_obj k (\<lambda>s. s\<lparr>sv_online := si_online info\<rparr>) (emplace_service k u))"
    using None by (simp add: add_remote_service_def Let_def k_def u_def)
  ultimately show ?thesis by metis
qed

lemma told_fold:
  assumes step: "\<And>x s. subs_ok s \<Longrightarrow> \<exists>a. told s a (f x s)" and same: "\<And>x s. same_subs s (f x s)" and ok: "\<And>x s. subs_ok s \<Longrightarrow> subs_ok (f x s)"
  shows "subs_ok st \<Longrightarrow> \<exists>a. told st a (fold f xs st)"
proof (induction xs arbitrary: st)
  case Nil
  have "told st [] st" by (rule told_nothing) simp_all
  then show ?case by auto
next
  case (Cons x xs)
  obtain a where a: "told st a (f x st)" using step [OF Cons.prems] by blast
  obtain b where "told (f x st) b (fold f xs (f x st))" using Cons.IH [OF ok [OF Cons.prems]] by blast
  then show ?case using told_trans [OF a same Cons.prems] by auto
qed

lemma subs_ok_socks: "ga_subs s = ga_subs t \<Longrightarrow> ga_socks s = ga_socks t \<Longrightarrow> subs_ok s = subs_ok t"
  by (rule subs_ok_view) (simp_all add: socks_view_def)

lemma told_add_remote_gate:
  assumes "subs_ok st"
  shows "\<exists>a. told st a (add_remote_gate info st)"
proof -
  obtain g v where e: "add_remote_gate info st = fold (add_remote_service g) (gi_services info) (st\<lparr>ga_remotes := v\<rparr>)"
    by (auto simp: add_remote_gate_def Let_def)
  have ok: "subs_ok (st\<lparr>ga_remotes := v\<rparr>)" using assms subs_ok_socks [of "st\<lparr>ga_remotes := v\<rparr>" st] by simp
  have "\<exists>a. told (st\<lparr>ga_remotes := v\<rparr>) a (fold (add_remote_service g) (gi_services info) (st\<lparr>ga_remotes := v\<rparr>))"
  proof (rule told_fold [OF _ _ _ ok])
    show "\<exists>a. told s a (add_remote_service g x s)" if "subs_ok s" for x s using told_add_remote_service [OF that] by blast
    show "same_subs s (add_remote_service g x s)" for x s by (rule same_subs_socks) (simp_all add: add_remote_view)
    show "subs_ok (add_remote_service g x s)" if "subs_ok s" for x s
      using that subs_ok_socks [of "add_remote_service g x s" s] by (simp add: add_remote_view)
  qed
  moreover have "told (st\<lparr>ga_remotes := v\<rparr>) a t \<Longrightarrow> told st a t" for a t
    using told_round_cong [OF same_subs_socks assms, of "st\<lparr>ga_remotes := v\<rparr>"] by (simp add: told_def)
  ultimately show ?thesis unfolding e by blast
qed

lemma told_master_message:
  assumes "subs_ok st"
  shows "\<exists>a. told st a (master_message msg st)"
proof -
  have "\<exists>a. told st a (fold add_remote_gate gates st)" for gates
  proof (rule told_fold [OF _ _ _ assms])
    show "\<exists>a. told s a (add_remote_gate x s)" if "subs_ok s" for x s using told_add_remote_gate [OF that] .
    show "same_subs s (add_remote_gate x s)" for x s by (rule same_subs_socks) (simp_all add: add_remote_gate_view)
    show "subs_ok (add_remote_gate x s)" if "subs_ok s" for x s
      using that subs_ok_socks [of "add_remote_gate x s" s] by (simp add: add_remote_gate_view)
  qed
  moreover have "told st [] st" by (rule told_nothing) simp_all
  ultimately show ?thesis by (cases "(msg, st)" rule: master_message.cases) auto
qed

lemma told_send_local: "told st a t \<Longrightarrow> \<not> is_brd (socket, session, msg) \<Longrightarrow> told st a (send_local socket session msg t)"
  by (auto simp: told_def send_local_def)

lemma told_bind_service:
  assumes t: "ga_msgs t = ga_msgs st" "ga_subs t = ga_subs st" "ga_socks t = ga_socks st" "subs_ok st" "length (ga_objs st) \<le> length (ga_objs t)"
    and objs: "\<And>j. j < length (ga_objs t) \<Longrightarrow> j \<noteq> i \<Longrightarrow> j < length (ga_objs st) \<and> to_proto (ga_objs t ! j) = to_proto (ga_objs st ! j)"
  shows "\<exists>info. told st [info] (bind_service p i session t)"
proof -
  let ?u = "map_sock p (\<lambda>sk. sk\<lparr>lk_service := Some i\<rparr>) t"
  let ?f = "\<lambda>s. (set_service_socket (lk_socket (ga_socks ?u ! p)) s)\<lparr>sv_online := True\<rparr>"
  have "told st [to_proto (ga_objs (map_obj i ?f ?u) ! i)] (service_update i (map_obj i ?f ?u))"
  proof (rule told_update)
    have "map lk_socket ((ga_socks st)[p := (ga_socks st ! p)\<lparr>lk_service := Some i\<rparr>]) = map lk_socket (ga_socks st)"
      by (cases "p < length (ga_socks st)") (simp_all add: map_update list_update_same_conv list_update_beyond)
    then show "same_subs st ?u" using t by (simp add: same_subs_def map_sock_def)
  qed (use t objs in \<open>auto simp: map_sock_def\<close>)
  moreover obtain socket g where "bind_service p i session t = send_local socket session (Service_register_ack Ec_success g) (service_update i (map_obj i ?f ?u))"
    by (simp add: bind_service_def Let_def)
  ultimately show ?thesis using told_send_local [of st _ _ _ session "Service_register_ack Ec_success g"] by force
qed

lemma told_register:
  assumes "subs_ok st"
  shows "\<exists>a. length a \<le> 1 \<and> told st a (fst (service_register p session req st))"
    "\<exists>a. length a \<le> 1 \<and> told st a (service_register_resumed p session req channel answer st)"
proof -
  have n: "told st [] st" by (rule told_nothing) simp_all
  have r: "told st [] (send_local a b (Service_register_ack ec g) st)" for a b ec g by (rule told_send_local [OF n]) simp
  have b: "\<exists>info. told st [info] (bind_service p k session st)" for k by (rule told_bind_service) (simp_all add: assms)
  have "(\<exists>info. told st [info] t) \<or> told st [] t \<Longrightarrow> \<exists>a. length a \<le> 1 \<and> told st a t" for t by force
  moreover have "(\<exists>info. told st [info] (fst (service_register p session req st))) \<or> told st [] (fst (service_register p session req st))"
    using n r b by (simp add: service_register_def Let_def split: option.splits)
  moreover have "(\<exists>info. told st [info] (service_register_resumed p session req channel answer st)) \<or> told st [] (service_register_resumed p session req channel answer st)"
  proof (cases "answer = Some Ec_success")
    case False
    then show ?thesis using r by (auto simp: service_register_resumed_def Let_def split: option.splits)
  next
    case True
    define k where "k = length (ga_objs st)"
    define u where "u = fold add_shm (rr_shm req) (st\<lparr>ga_objs := ga_objs st @ [\<lparr>sv_id = ucast (si_id (rr_info req)), sv_tp = ucast (si_tp (rr_info req)),
      sv_gate = ga_id st, sv_online = False, sv_kind = Local_service 0 channel []\<rparr>], ga_locals := ga_locals st @ [k]\<rparr>)"
    have shm: "ga_msgs (fold add_shm xs s) = ga_msgs s \<and> ga_subs (fold add_shm xs s) = ga_subs s" for xs s
      by (induction xs arbitrary: s) (auto simp: add_shm_def)
    have "\<exists>info. told st [info] (bind_service p k session (emplace_service k u))"
      by (rule told_bind_service) (use assms emplaced_objs [of u st _ k] in \<open>auto simp: u_def k_def shm\<close>)
    moreover have "service_register_resumed p session req channel answer st = bind_service p k session (emplace_service k u)"
      using True by (simp add: service_register_resumed_def add_local_service_def Let_def u_def k_def)
    ultimately show ?thesis by simp
  qed
  ultimately show "\<exists>a. length a \<le> 1 \<and> told st a (fst (service_register p session req st))"
    "\<exists>a. length a \<le> 1 \<and> told st a (service_register_resumed p session req channel answer st)" by blast+
qed

lemma told_frame: "told st a t \<Longrightarrow> ga_msgs u = ga_msgs t \<Longrightarrow> ga_objs u = ga_objs t \<Longrightarrow> told st a u"
  by (simp add: told_def)

lemma told_local_broken:
  assumes "subs_ok st"
  shows "\<exists>a. length a \<le> 1 \<and> told st a (local_broken p st)"
proof -
  have f: "ga_msgs (fold g tps s) = ga_msgs s \<and> ga_objs (fold g tps s) = ga_objs s"
    if "g = (\<lambda>tp st. case ga_subs st tp of None \<Rightarrow> st | Some ps \<Rightarrow> st\<lparr>ga_subs := (ga_subs st)(tp \<mapsto> swap_remove p ps)\<rparr>)" for g :: "u16 \<Rightarrow> gate \<Rightarrow> gate" and tps s
    using that by (induction tps arbitrary: s) (auto split: option.splits)
  define t where "t = (case lk_service (ga_socks st ! p) of None \<Rightarrow> st
     | Some i \<Rightarrow> if service_socket i st = lk_socket (ga_socks st ! p)
         then service_update i (map_obj i (\<lambda>s. (set_service_socket 0 s)\<lparr>sv_online := False\<rparr>) st) else st)"
  have n: "told st [] st" by (rule told_nothing) simp_all
  have "\<exists>info. told st [info] (service_update i (map_obj i h st))" for i h
    using told_update [of st st i h] assms by (auto simp: same_subs_def)
  then have "\<exists>a. length a \<le> 1 \<and> told st a t" using n unfolding t_def by (auto split: option.splits) (force)+
  moreover have "ga_msgs (local_broken p st) = ga_msgs t" "ga_objs (local_broken p st) = ga_objs t"
    unfolding local_broken_def Let_def t_def [symmetric] by (simp_all add: map_sock_def f)
  ultimately show ?thesis using told_frame by blast
qed

lemma told_subscribe: "told st [] (service_subscribe parse p session buffer st)"
  by (rule told_nothing) (auto simp: service_subscribe_def Let_def send_local_def map_sock_def split: option.splits)

lemma told_forward: "told st [] (forward strv st)"
  by (rule told_nothing) (auto simp: forward_def Let_def obj_frame_proto [OF service_write_obj] split: option.splits)

lemma gate_step_told:
  assumes "subs_ok st"
  shows "\<exists>infos. told st infos (gate_step parse e st) \<and> ((\<forall>msg. e \<noteq> From_master msg) \<longrightarrow> length infos \<le> 1)"
proof (cases e)
  case (From_master msg)
  then show ?thesis using told_master_message [OF assms] by auto
next
  case (Local_accepted socket now)
  have "told st [] (accept_local socket now st)" by (rule told_nothing) (simp_all add: accept_local_def)
  then show ?thesis using Local_accepted by force
next
  case (Remote_up g socket)
  have "told st [] (remote_connected g socket st)" by (rule told_nothing) (auto simp: remote_connected_def split: option.splits)
  then show ?thesis using Remote_up by force
next
  case (Remote_down g)
  have "told st [] (remote_broken g st)" by (rule told_nothing) (auto simp: remote_broken_def split: option.splits)
  then show ?thesis using Remote_down by force
next
  case (Subscribe p session buffer)
  then show ?thesis using told_subscribe by force
next
  case (Forwarded strv)
  then show ?thesis using told_forward by force
next
  case (Register p session req)
  then show ?thesis using told_register(1) [OF assms, of p session req] by auto
next
  case (Registered p session req channel answer)
  then show ?thesis using told_register(2) [OF assms, of p session req channel answer] by auto
next
  case (Local_closed p)
  then show ?thesis using told_local_broken [OF assms, of p] by auto
qed

text \<open>C27: Changes of services are told.  Whatever connections, subscriptions, registrations, disconnections, messages of the master and messages to forward came before, consider any next
  step.  The broadcasts it sends are a sequence of rounds; a round tells the state of one service to every open connection that has subscribed to its type, once, and to no other.
  Every service that the step adds, or whose state as told to others (number, type, online) it changes, has a round with its new state; and unless the step is a message of the
  master, which may report many services, there is at most one round.\<close>

theorem subscribers_notified:
  assumes "gate_reach parse g st" "gate_enabled e st" "st' = gate_step parse e st"
  shows "\<exists>ms infos subs. ga_msgs st' = ga_msgs st @ ms \<and> filter is_brd ms = concat (map (told_round subs st) infos)
     \<and> (\<forall>tp. distinct (subs tp) \<and> set (subs tp) = subscribers tp st)
     \<and> (\<forall>j < length (ga_objs st'). j < length (ga_objs st) \<and> to_proto (ga_objs st' ! j) = to_proto (ga_objs st ! j) \<or> to_proto (ga_objs st' ! j) \<in> set infos)
     \<and> ((\<forall>msg. e \<noteq> From_master msg) \<longrightarrow> length infos \<le> 1)"
proof -
  have ok: "subs_ok st" using gate_reach_subs [OF assms(1)] .
  then obtain infos where "told st infos st'" "(\<forall>msg. e \<noteq> From_master msg) \<longrightarrow> length infos \<le> 1" using gate_step_told assms(3) by blast
  moreover have "\<forall>tp. distinct (sub_list tp st) \<and> set (sub_list tp st) = subscribers tp st" using ok by (simp add: subs_ok_def)
  ultimately show ?thesis unfolding told_def by blast
qed

text \<open>A gate with one local service of type 3 that has subscribed to type 3 itself, and a second service of this type that registers.\<close>

definition sample_channel :: shm_channel where
  "sample_channel = endpoint_a (shm_buffer_open 8 None, shm_buffer_open 8 None)"

definition second_request :: s_service_register_req where
  "second_request = \<lparr>rr_info = \<lparr>si_id = 10, si_tp = 3, si_online = False\<rparr>, rr_channel_size = 64, rr_shm = []\<rparr>"

definition subscribed_events :: "gate_event list" where
  "subscribed_events = [Local_accepted 7 0, Registered 0 1 sample_request sample_channel (Some Ec_success), Subscribe 0 2 [3], Local_accepted 8 0]"

definition subscribed_gate :: gate where
  "subscribed_gate = fold (gate_step sample_subscribe) subscribed_events (empty_gate 1)"

fun all_enabled :: "gate_event list \<Rightarrow> gate \<Rightarrow> bool" where
  "all_enabled [] st = True"
| "all_enabled (e # es) st = (gate_enabled e st \<and> all_enabled es (gate_step sample_subscribe e st))"

lemma all_enabled_reach: "gate_reach sample_subscribe g st \<Longrightarrow> all_enabled es st \<Longrightarrow> gate_reach sample_subscribe g (fold (gate_step sample_subscribe) es st)"
  by (induction es arbitrary: st) (auto intro: gate_reach.step)

theorem subscribers_notified_witness:
  "gate_reach sample_subscribe 1 subscribed_gate \<and> subscribers 3 subscribed_gate = {0}
   \<and> (let st' = gate_step sample_subscribe (Registered 1 5 second_request sample_channel (Some Ec_success)) subscribed_gate
      in (7, 0, Subscribe_brd [\<lparr>si_id = 10, si_tp = 3, si_online = True\<rparr>]) \<in> set (ga_msgs st'))"
proof -
  have reach: "gate_reach sample_subscribe 1 subscribed_gate"
    unfolding subscribed_gate_def by (rule all_enabled_reach [OF gate_reach.start]) code_simp
  define st' where "st' = gate_step sample_subscribe (Registered 1 5 second_request sample_channel (Some Ec_success)) subscribed_gate"
  have en: "gate_enabled (Registered 1 5 second_request sample_channel (Some Ec_success)) subscribed_gate" by code_simp
  have facts: "length (ga_objs st') = 2" "length (ga_objs subscribed_gate) = 1" "to_proto (ga_objs st' ! 1) = \<lparr>si_id = 10, si_tp = 3, si_online = True\<rparr>"
    "map lk_socket (ga_socks subscribed_gate) = [7, 8]" "map lk_subscribe (ga_socks subscribed_gate) = [[3], []]"
    unfolding st'_def by code_simp+
  have len: "length (ga_socks subscribed_gate) = 2" using facts(4) by (metis length_map length_Cons list.size(3) numeral_2_eq_2)
  have nth: "lk_socket (ga_socks subscribed_gate ! 0) = 7" "lk_socket (ga_socks subscribed_gate ! 1) = 8"
    "lk_subscribe (ga_socks subscribed_gate ! 0) = [3]" "lk_subscribe (ga_socks subscribed_gate ! 1) = []"
    using arg_cong [OF facts(4), of "\<lambda>xs. xs ! 0"] arg_cong [OF facts(4), of "\<lambda>xs. xs ! 1"]
      arg_cong [OF facts(5), of "\<lambda>xs. xs ! 0"] arg_cong [OF facts(5), of "\<lambda>xs. xs ! 1"] len by simp_all
  have "q \<in> subscribers 3 subscribed_gate \<longleftrightarrow> q = 0" for q
  proof (cases "q < 2")
    case True
    then consider "q = 0" | "q = 1" by linarith
    then show ?thesis by cases (simp_all add: subscribers_def len nth nth(4) [simplified])
  qed (simp add: subscribers_def len)
  then have subs: "subscribers 3 subscribed_gate = {0}" by blast
  from subscribers_notified [OF reach en st'_def] obtain ms infos subs where
    n: "ga_msgs st' = ga_msgs subscribed_gate @ ms" "filter is_brd ms = concat (map (told_round subs subscribed_gate) infos)"
      "set (subs 3) = subscribers 3 subscribed_gate" "to_proto (ga_objs st' ! 1) \<in> set infos"
    using facts(1,2) by (metis less_numeral_extra(4) one_less_numeral_iff semiring_norm(76))
  have "(7, 0, Subscribe_brd [\<lparr>si_id = 10, si_tp = 3, si_online = True\<rparr>]) \<in> set (filter is_brd ms)"
    unfolding n(2) using n(3,4) subs facts(3) nth(1) by (force simp: told_round_def)
  then show ?thesis using reach subs n(1) unfolding Let_def st'_def [symmetric] by auto
qed

end
