(* ===== verification/Gate_Views.thy ===== *)
theory Gate_Views
  imports Gate
begin

text \<open>
  The gates' copies of the registry.  The master answers a registration with what it knows of all other gates and broadcasts every change; a
  gate applies these messages to its table of services with \<open>master_message\<close>.  The theory proves that the messages written to the socket of a
  connected gate, applied in order, make the gate's table agree with the master.
\<close>

section \<open>What a message says\<close>

definition info_map :: "s_service_info \<Rightarrow> (u16 \<Rightarrow> bool option) \<Rightarrow> u16 \<Rightarrow> bool option" where
  "info_map i m = m(ucast (si_id i) \<mapsto> si_online i)"

fun msg_infos :: "master_msg \<Rightarrow> s_service_info list" where
  "msg_infos (Gate_register_ack Ec_success gates) = concat (map gi_services gates)"
| "msg_infos (Gate_register_brd gates) = concat (map gi_services gates)"
| "msg_infos _ = []"

definition told :: "master_msg list \<Rightarrow> (u16 \<Rightarrow> bool option) \<Rightarrow> u16 \<Rightarrow> bool option" where
  "told ms = fold info_map (concat (map msg_infos ms))"

lemma told_simps [simp]: "told [] m = m" "told (ms @ ns) m = told ns (told ms m)" "told [x] m = fold info_map (msg_infos x) m"
  by (simp_all add: told_def)

section \<open>The table of a gate\<close>

definition table_ok :: "gate \<Rightarrow> bool" where
  "table_ok v \<longleftrightarrow> (\<forall>i k. ga_services v i = Some k \<longrightarrow> k < length (ga_objs v) \<and> sv_id (ga_objs v ! k) = i)"

definition online_of :: "gate \<Rightarrow> u16 \<Rightarrow> bool option" where
  "online_of v i = map_option (\<lambda>k. sv_online (ga_objs v ! k)) (ga_services v i)"

lemma add_remote_service_known:
  assumes ok: "table_ok v" and k: "ga_services v (ucast (si_id info)) = Some k"
  shows "table_ok (service_update k (map_obj k (\<lambda>s. s\<lparr>sv_online := si_online info\<rparr>) v))
    \<and> online_of (service_update k (map_obj k (\<lambda>s. s\<lparr>sv_online := si_online info\<rparr>) v)) = info_map info (online_of v)"
proof -
  have kl: "k < length (ga_objs v)" "sv_id (ga_objs v ! k) = ucast (si_id info)" using ok k by (auto simp: table_ok_def)
  have ob: "ga_objs (map_obj k (\<lambda>s. s\<lparr>sv_online := si_online info\<rparr>) v) ! j = (if j = k then (ga_objs v ! k)\<lparr>sv_online := si_online info\<rparr> else ga_objs v ! j)" for j
    by (rule map_obj_nth [OF kl(1)])
  have "j \<noteq> k" if "ga_services v i = Some j" "i \<noteq> ucast (si_id info)" for i j
    using ok that kl(2) by (auto simp: table_ok_def)
  then show ?thesis using ok k kl by (auto simp: table_ok_def online_of_def info_map_def ob fun_eq_iff intro!: map_option_cong)
qed

lemma emplace_new_table:
  assumes ok: "table_ok v" and n: "ga_services v (sv_id new) = None"
  shows "table_ok (emplace_service (length (ga_objs v)) (v\<lparr>ga_objs := ga_objs v @ [new]\<rparr>))"
    "ga_services (emplace_service (length (ga_objs v)) (v\<lparr>ga_objs := ga_objs v @ [new]\<rparr>)) = (ga_services v)(sv_id new \<mapsto> length (ga_objs v))"
    "i \<noteq> sv_id new \<Longrightarrow> online_of (emplace_service (length (ga_objs v)) (v\<lparr>ga_objs := ga_objs v @ [new]\<rparr>)) i = online_of v i"
proof -
  let ?k = "length (ga_objs v)"
  let ?u = "v\<lparr>ga_objs := ga_objs v @ [new]\<rparr>"
  let ?e = "emplace_service ?k ?u"
  show s: "ga_services ?e = (ga_services v)(sv_id new \<mapsto> ?k)" using n by (simp add: emplace_service_services nth_append)
  have f: "obj_frame (ga_objs ?e ! j) = obj_frame (ga_objs ?u ! j)" if "j < Suc ?k" for j using emplace_service_obj [of j ?u ?k] that by simp
  have g: "sv_id (ga_objs ?e ! j) = sv_id (ga_objs ?u ! j)" "sv_online (ga_objs ?e ! j) = sv_online (ga_objs ?u ! j)" if "j < Suc ?k" for j
    using f [OF that] by (simp_all add: obj_frame_def)
  have l: "length (ga_objs ?e) = Suc ?k" by simp
  show "table_ok ?e"
    unfolding table_ok_def
  proof (intro allI impI)
    fix i k assume a: "ga_services ?e i = Some k"
    show "k < length (ga_objs ?e) \<and> sv_id (ga_objs ?e ! k) = i"
    proof (cases "i = sv_id new")
      case True
      then show ?thesis using a g(1) [of ?k] unfolding s l by auto
    next
      case False
      then have "k < ?k \<and> sv_id (ga_objs v ! k) = i" using a ok unfolding s by (simp add: table_ok_def)
      then show ?thesis using g(1) [of k] unfolding l by (simp add: nth_append)
    qed
  qed
  show "online_of ?e i = online_of v i" if "i \<noteq> sv_id new"
  proof (cases "ga_services v i")
    case (Some k)
    then have "k < ?k" using ok by (simp add: table_ok_def)
    then show ?thesis using Some that g(2) [of k] by (simp add: online_of_def s nth_append)
  qed (simp add: online_of_def s that)
qed

lemma add_remote_service_table:
  assumes ok: "table_ok v"
  shows "table_ok (add_remote_service g info v) \<and> online_of (add_remote_service g info v) = info_map info (online_of v)"
proof (cases "ga_services v (ucast (si_id info))")
  case (Some k)
  then show ?thesis using add_remote_service_known [OF ok Some] by (simp add: add_remote_service_def find_service_def Let_def)
next
  case None
  let ?i = "ucast (si_id info) :: u16"
  let ?new = "\<lparr>sv_id = ?i, sv_tp = ucast (si_tp info), sv_gate = g, sv_online = False, sv_kind = Remote_service g\<rparr>"
  let ?e = "emplace_service (length (ga_objs v)) (v\<lparr>ga_objs := ga_objs v @ [?new]\<rparr>)"
  have n: "ga_services v (sv_id ?new) = None" using None by simp
  note e = emplace_new_table [OF ok n]
  have k: "ga_services ?e (ucast (si_id info)) = Some (length (ga_objs v))" using e(2) by simp
  have "info_map info (online_of ?e) = info_map info (online_of v)" using e(3) by (auto simp: info_map_def fun_eq_iff)
  then show ?thesis using add_remote_service_known [OF e(1) k] None by (simp add: add_remote_service_def find_service_def Let_def)
qed

lemma master_message_table:
  assumes "table_ok v"
  shows "table_ok (master_message m v) \<and> online_of (master_message m v) = told [m] (online_of v)"
proof -
  have ss: "table_ok (fold (add_remote_service g) ss v) \<and> online_of (fold (add_remote_service g) ss v) = fold info_map ss (online_of v)" if "table_ok v" for g ss v
    using that by (induction ss arbitrary: v) (simp_all add: add_remote_service_table)
  have g: "table_ok (add_remote_gate info v) \<and> online_of (add_remote_gate info v) = fold info_map (gi_services info) (online_of v)" if t: "table_ok v" for info v
  proof -
    define u where "u = v\<lparr>ga_remotes := (ga_remotes v)(ucast (gi_id info) \<mapsto> (case ga_remotes v (ucast (gi_id info)) of Some rg \<Rightarrow> rg
        | None \<Rightarrow> \<lparr>rg_addresses = [], rg_socket = 0, rg_queue = []\<rparr>)\<lparr>rg_addresses := map gate_address (gi_addresses info)\<rparr>)\<rparr>"
    have "table_ok u" "online_of u = online_of v" using t by (simp_all add: u_def table_ok_def online_of_def fun_eq_iff)
    then show ?thesis using ss [of u "ucast (gi_id info)" "gi_services info"] by (simp add: add_remote_gate_def Let_def u_def)
  qed
  have gs: "table_ok (fold add_remote_gate gs v) \<and> online_of (fold add_remote_gate gs v) = fold info_map (concat (map gi_services gs)) (online_of v)"
    if "table_ok v" for gs v
    using that by (induction gs arbitrary: v) (simp_all add: g)
  show ?thesis using gs [OF assms] assms by (cases "(m, v)" rule: master_message.cases) auto
qed

lemma master_messages_table:
  "table_ok v \<Longrightarrow> table_ok (fold master_message ms v) \<and> online_of (fold master_message ms v) = told ms (online_of v)"
proof (induction ms arbitrary: v)
  case (Cons m ms)
  then show ?case using master_message_table [of v m] told_simps(2) [of "[m]" ms] by auto
qed simp

section \<open>What the master has told a gate\<close>

definition written_to :: "u32 \<Rightarrow> gate_master \<Rightarrow> master_msg list" where
  "written_to s st = map (\<lambda>(a, b, m). m) (filter (\<lambda>(a, b, m). a = s) (gm_written st))"

text \<open>The socket of a connected gate has been told the present state of every service of the other gates, but possibly those of one.\<close>

definition views_right_but :: "u16 option \<Rightarrow> gate_master \<Rightarrow> bool" where
  "views_right_but x st \<longleftrightarrow> (\<forall>g sid sd m. gd_socket (gate_at st g) \<noteq> 0 \<and> gm_services st sid = Some sd \<and> sd_gate sd \<noteq> g \<and> Some (sd_gate sd) \<noteq> x \<longrightarrow>
     told (written_to (gd_socket (gate_at st g)) st) m sid = Some (sd_online sd))"

lemma views_rightD:
  "views_right_but x st \<Longrightarrow> gd_socket (gate_at st g) \<noteq> 0 \<Longrightarrow> gm_services st sid = Some sd \<Longrightarrow> sd_gate sd \<noteq> g \<Longrightarrow> Some (sd_gate sd) \<noteq> x \<Longrightarrow>
   told (written_to (gd_socket (gate_at st g)) st) m sid = Some (sd_online sd)"
  unfolding views_right_but_def by blast

lemma views_right_cong:
  "(\<And>g. gd_socket (gate_at s g) = gd_socket (gate_at t g)) \<Longrightarrow> gm_services s = gm_services t \<Longrightarrow> gm_written s = gm_written t \<Longrightarrow>
   views_right_but x s = views_right_but x t"
  by (simp add: views_right_but_def written_to_def)

text \<open>The service list of a gate, as the master sends it.\<close>

definition svc_info :: "gate_master \<Rightarrow> u16 \<Rightarrow> s_service_info" where
  "svc_info st s = (let sd = service_at st s in \<lparr>si_id = ucast (sd_id sd), si_tp = ucast (sd_tp sd), si_online = sd_online sd\<rparr>)"

lemma gate_info_services: "gi_services (add_gate_info st gd) = map (svc_info st) (gd_services gd)"
  by (simp add: add_gate_info_def svc_info_def)

lemma told_services:
  assumes c: "registry_core st" and xs: "\<forall>s \<in> set xs. gm_services st s \<noteq> None"
  shows "fold info_map (map (svc_info st) xs) m sid = (if sid \<in> set xs then Some (sd_online (service_at st sid)) else m sid)"
  using xs
proof (induction xs arbitrary: m)
  case (Cons s xs)
  then obtain sd where sd: "gm_services st s = Some sd" by auto
  have "sd_id sd = s" using registry_coreD(5) [OF c sd] by simp
  then have "info_map (svc_info st s) m = m(s \<mapsto> sd_online (service_at st s))"
    using sd by (simp add: info_map_def svc_info_def service_at_def Let_def)
  then show ?case using Cons by simp
qed simp

lemma told_gate:
  assumes c: "registry_core st" and g: "map_of (gm_gates st) x = Some gd"
  shows "fold info_map (gi_services (add_gate_info st gd)) m sid =
     (case gm_services st sid of Some sd \<Rightarrow> if sd_gate sd = x then Some (sd_online sd) else m sid | None \<Rightarrow> m sid)"
proof -
  have "\<forall>s \<in> set (gd_services gd). gm_services st s \<noteq> None" using registry_coreD(4) [OF c g] by auto
  then show ?thesis
    using told_services [OF c, of "gd_services gd" m sid] registry_coreD(4) [OF c g, of sid]
    by (auto simp: gate_info_services service_at_def split: option.splits)
qed

lemma told_gates:
  assumes c: "registry_core st" and gs: "\<forall>(h, hd) \<in> set gs. map_of (gm_gates st) h = Some hd"
    and s: "gm_services st sid = Some sd" and o: "sd_gate sd \<in> fst ` set gs \<or> m sid = Some (sd_online sd)"
  shows "fold info_map (concat (map (\<lambda>(h, hd). gi_services (add_gate_info st hd)) gs)) m sid = Some (sd_online sd)"
  using gs o
proof (induction gs arbitrary: m)
  case (Cons p gs)
  obtain h hd where p: "p = (h, hd)" by fastforce
  have "map_of (gm_gates st) h = Some hd" using Cons.prems p by simp
  then have "fold info_map (gi_services (add_gate_info st hd)) m sid = (if sd_gate sd = h then Some (sd_online sd) else m sid)"
    using told_gate [OF c, of h hd m sid] s by simp
  then have "sd_gate sd \<in> fst ` set gs \<or> fold info_map (gi_services (add_gate_info st hd)) m sid = Some (sd_online sd)"
    using Cons.prems(2) p by auto
  then show ?case using Cons.IH [of "fold info_map (gi_services (add_gate_info st hd)) m"] Cons.prems(1) p by simp
qed simp

lemma publish_tells:
  assumes c: "registry_core st" and x: "map_of (gm_gates st) x \<noteq> None" and v: "views_right_but (Some x) st"
  shows "views_right_but None (publish x st)"
  unfolding views_right_but_def
proof (intro allI impI)
  fix g sid sd m
  assume a: "gd_socket (gate_at (publish x st) g) \<noteq> 0 \<and> gm_services (publish x st) sid = Some sd \<and> sd_gate sd \<noteq> g \<and> Some (sd_gate sd) \<noteq> None"
  obtain gx where gx: "map_of (gm_gates st) x = Some gx" using x by auto
  have at: "gate_at (publish x st) g = gate_at st g" by (simp add: gate_at_def)
  define s where "s = gd_socket (gate_at st g)"
  define brd where "brd = Gate_register_brd [add_gate_info st gx]"
  define n where "n = length (filter (\<lambda>(h, hd). gd_socket hd = s \<and> h \<noteq> x) (gm_gates st))"
  have s0: "s \<noteq> 0" "gm_services st sid = Some sd" "sd_gate sd \<noteq> g" using a at by (simp_all add: s_def)
  have "filter (\<lambda>(a, b, m). a = s) (map (\<lambda>(h, hd). (gd_socket hd, 0, brd)) (filter (\<lambda>(h, hd). gd_socket hd \<noteq> 0 \<and> h \<noteq> x) gs)) =
      replicate (length (filter (\<lambda>(h, hd). gd_socket hd = s \<and> h \<noteq> x) gs)) (s, 0 :: u64, brd)" for gs :: "(u16 \<times> gate_data) list"
    using s0(1) by (induction gs) auto
  then have w: "written_to s (publish x st) = written_to s st @ replicate n brd"
    using gx by (simp add: written_to_def publish_eq brd_def n_def)
  have rep: "told (replicate k brd) m' sid = (if k = 0 \<or> sd_gate sd \<noteq> x then m' sid else Some (sd_online sd))" for k m'
  proof (induction k arbitrary: m')
    case (Suc k)
    have "told (replicate (Suc k) brd) m' = told (replicate k brd) (told [brd] m')" using told_simps(2) [of "[brd]" "replicate k brd"] by simp
    moreover have "told [brd] m' sid = (if sd_gate sd = x then Some (sd_online sd) else m' sid)"
      using told_gate [OF c gx, of m' sid] s0(2) by (simp add: brd_def)
    ultimately show ?case using Suc by simp
  qed simp
  have "told (written_to s (publish x st)) m sid = Some (sd_online sd)"
  proof (cases "sd_gate sd = x")
    case True
    then have "g \<noteq> x" using s0(3) by simp
    obtain gd where "map_of (gm_gates st) g = Some gd" using s0(1) by (auto simp: s_def gate_at_def split: option.splits)
    then have "(g, gd) \<in> set (filter (\<lambda>(h, hd). gd_socket hd = s \<and> h \<noteq> x) (gm_gates st))"
      using \<open>g \<noteq> x\<close> map_of_SomeD by (fastforce simp: s_def)
    then have "filter (\<lambda>(h, hd). gd_socket hd = s \<and> h \<noteq> x) (gm_gates st) \<noteq> []" by force
    then have "n \<noteq> 0" unfolding n_def length_0_conv .
    then show ?thesis using True rep by (simp add: w)
  next
    case False
    then show ?thesis using views_rightD [OF v, of g sid sd m, folded s_def] s0 rep by (simp add: w)
  qed
  then show "told (written_to (gd_socket (gate_at (publish x st) g)) (publish x st)) m sid = Some (sd_online sd)" by (simp add: at s_def)
qed

lemma written_to_send: "written_to s (send a b m st) = written_to s st @ (if a = s then [m] else [])"
  by (simp add: written_to_def)

lemma send_plain: "msg_infos m = [] \<Longrightarrow> views_right_but x (send a b m st) = views_right_but x st"
  by (auto simp: views_right_but_def written_to_send gate_at_def)

lemma views_weaken: "views_right_but None st \<Longrightarrow> views_right_but x st"
  unfolding views_right_but_def by blast

text \<open>Only services of the gate itself change.\<close>

definition changes_only :: "u16 \<Rightarrow> gate_master \<Rightarrow> gate_master \<Rightarrow> bool" where
  "changes_only x st st' \<longleftrightarrow> (\<forall>sid sd. gm_services st' sid = Some sd \<and> sd_gate sd \<noteq> x \<longrightarrow> gm_services st sid = Some sd)"

lemma changes_only_views:
  assumes v: "views_right_but (Some x) st" and c: "changes_only x st st'" and w: "gm_written st' = gm_written st"
    and s: "\<And>g. gd_socket (gate_at st' g) \<noteq> 0 \<Longrightarrow> gd_socket (gate_at st' g) = gd_socket (gate_at st g)"
  shows "views_right_but (Some x) st'"
  unfolding views_right_but_def
proof (intro allI impI)
  fix g sid sd m
  assume a: "gd_socket (gate_at st' g) \<noteq> 0 \<and> gm_services st' sid = Some sd \<and> sd_gate sd \<noteq> g \<and> Some (sd_gate sd) \<noteq> Some x"
  then have "gm_services st sid = Some sd" using c by (simp add: changes_only_def)
  moreover have "gd_socket (gate_at st' g) = gd_socket (gate_at st g)" using s a by simp
  moreover have "written_to t st' = written_to t st" for t by (simp add: written_to_def w)
  ultimately show "told (written_to (gd_socket (gate_at st' g)) st') m sid = Some (sd_online sd)"
    using views_rightD [OF v, of g sid sd m] a by simp
qed

lemma changes_only_trans: "changes_only x a b \<Longrightarrow> changes_only x b c \<Longrightarrow> changes_only x a c"
  unfolding changes_only_def by blast

lemma add_service_changes:
  assumes c: "registry_core st" and g: "map_of (gm_gates st) g \<noteq> None" and k: "check_services (s # ss) g st"
  shows "changes_only g st (add_service g s st)" "check_services ss g (add_service g s st)"
proof -
  obtain gd where gd: "map_of (gm_gates st) g = Some gd" using g by auto
  have i: "gd_id gd = g" using registry_coreD(3) [OF c gd] by simp
  have "gm_services (add_service g s st) sid = gm_services st sid \<or> (\<exists>sd. gm_services (add_service g s st) sid = Some sd \<and> sd_gate sd = g)" for sid
    using k gd i by (auto simp: add_service_def Let_def check_services_def split: option.splits)
  note o = this
  show "changes_only g st (add_service g s st)"
    unfolding changes_only_def
  proof (intro allI impI)
    fix sid sd assume "gm_services (add_service g s st) sid = Some sd \<and> sd_gate sd \<noteq> g"
    then show "gm_services st sid = Some sd" using o [of sid] by auto
  qed
  show "check_services ss g (add_service g s st)"
    unfolding check_services_def list_all_iff
  proof
    fix y assume "y \<in> set ss"
    then show "case gm_services (add_service g s st) (ucast (si_id y)) of None \<Rightarrow> True | Some sd \<Rightarrow> sd_gate sd = g"
      using k o [of "ucast (si_id y)"] by (auto simp: check_services_def list_all_iff split: option.splits)
  qed
qed

lemma add_services_changes:
  assumes "registry_core st" "map_of (gm_gates st) g \<noteq> None" "check_services ss g st"
  shows "changes_only g st (add_services ss g st)"
  using assms unfolding add_services_def
proof (induction ss arbitrary: st)
  case (Cons s ss)
  have "registry_core (add_service g s st)" "map_of (gm_gates (add_service g s st)) g \<noteq> None"
    using add_service_core [OF Cons.prems(1,2)] add_service_gates(1) [OF Cons.prems(2)] Cons.prems(2) by auto
  then show ?case using Cons.IH [of "add_service g s st"] add_service_changes [OF Cons.prems] changes_only_trans by auto
qed (simp add: changes_only_def)

lemma offline_changes:
  assumes "registry_core st" "map_of (gm_gates st) x = Some gd"
  shows "changes_only x st (offline x st)"
  using registry_coreD(4) [OF assms] assms(2) by (auto simp: changes_only_def offline_def service_at_def split: if_splits option.splits)

lemma register_gate_views:
  assumes v: "views_right_but None st" and c: "registry_core st" and x: "map_of (gm_gates st) x \<noteq> None" and k: "check_services (gi_services info) x st"
  shows "views_right_but None (register_gate socket session info x st)"
proof -
  obtain gx where gx: "map_of (gm_gates st) x = Some gx" using x by auto
  define t where "t = set_gate x (gx\<lparr>gd_socket := socket, gd_addresses := gi_addresses info\<rparr>) st"
  have t: "registry_core t" "map_of (gm_gates t) x \<noteq> None" "check_services (gi_services info) x t"
    using set_gate_core [OF c gx] k by (simp_all add: t_def check_services_def)
  define u where "u = add_services (gi_services info) x t"
  note a = add_services_core [OF t(1,2), of "gi_services info", folded u_def]
  have ch: "changes_only x t u" unfolding u_def by (rule add_services_changes [OF t])
  have sock: "gd_socket (gate_at u g) = (if g = x then socket else gd_socket (gate_at st g))" for g using a by (simp add: t_def)
  define gs where "gs = filter (\<lambda>(g, gd). g \<noteq> x) (gm_gates u)"
  define w where "w = send socket session (Gate_register_ack Ec_success (map (\<lambda>(g, gd). add_gate_info u gd) gs)) u"
  have gs: "\<forall>(h, hd) \<in> set gs. map_of (gm_gates u) h = Some hd"
    using registry_coreD(1) [of u] a by (auto simp: gs_def)
  have "views_right_but (Some x) w"
    unfolding views_right_but_def
  proof (intro allI impI)
    fix g sid sd m
    assume b: "gd_socket (gate_at w g) \<noteq> 0 \<and> gm_services w sid = Some sd \<and> sd_gate sd \<noteq> g \<and> Some (sd_gate sd) \<noteq> Some x"
    have wu: "gate_at w g = gate_at u g" "gm_services w = gm_services u" by (simp_all add: w_def gate_at_def)
    have sd: "gm_services u sid = Some sd" "sd_gate sd \<noteq> x" using b wu by simp_all
    then have st: "gm_services st sid = Some sd" using ch by (simp add: changes_only_def t_def)
    have "map_of (gm_gates u) (sd_gate sd) \<noteq> None" using registry_coreD(5) [of u sid sd] a sd(1) by blast
    then obtain hd where "map_of (gm_gates u) (sd_gate sd) = Some hd" by blast
    then have "(sd_gate sd, hd) \<in> set gs" using sd(2) map_of_SomeD [of "gm_gates u"] by (simp add: gs_def)
    then have own: "sd_gate sd \<in> fst ` set gs" by force
    define s where "s = gd_socket (gate_at u g)"
    have "told (written_to s w) m sid = Some (sd_online sd)"
    proof (cases "socket = s")
      case True
      have ug: "registry_core u" using a by simp
      have "told (written_to s w) m = fold info_map (concat (map (\<lambda>(h, hd). gi_services (add_gate_info u hd)) gs)) (told (written_to s u) m)"
        using True by (simp add: w_def written_to_send comp_def case_prod_beta')
      then show ?thesis using told_gates [OF ug gs sd(1), of "told (written_to s u) m"] own by simp
    next
      case False
      then have g: "g \<noteq> x" "s = gd_socket (gate_at st g)" using sock [of g] by (auto simp: s_def split: if_splits)
      have "written_to s w = written_to s st" using False a by (simp add: w_def written_to_send) (simp add: written_to_def t_def)
      then show ?thesis using views_rightD [OF v, of g sid sd m] g b st wu sock by (simp add: s_def)
    qed
    then show "told (written_to (gd_socket (gate_at w g)) w) m sid = Some (sd_online sd)" by (simp add: wu s_def)
  qed
  moreover have "registry_core w" "map_of (gm_gates w) x \<noteq> None"
    using a t(2) registry_ok_core_cong [of w u] by (simp_all add: w_def)
  ultimately have "views_right_but None (publish x w)" by (intro publish_tells)
  then show ?thesis using gx by (simp add: register_gate_def Let_def t_def u_def w_def gs_def)
qed

lemma frame_views:
  assumes ok: "registry_ok st" and v: "views_right_but None st" and sk: "gm_sockets st (sk_socket sk) = Some sk"
  shows "views_right_but None (forward_message P sk mid session buffer st)"
proof -
  note c = registry_okD(1) [OF ok]
  have g: "map_of (gm_gates st) g \<noteq> None" if "sk_data sk = Some g" for g using registry_coreD(6) [OF c sk] that by blast
  have gid: "gd_id (gate_at st g) = g" if "sk_data sk = Some g" for g using g [OF that] registry_coreD(3) [OF c, of g] by auto
  have prev: "views_right_but None (drop_previous (sk_socket sk) g st)" for g
    using v views_right_cong [of "drop_previous (sk_socket sk) g st" st] drop_previous_ok(4-6) [OF ok sk, of g] by (simp add: gate_at_def)
  have made: "views_right_but None (set_socket_data (sk_socket sk) (Some i) (emplace_gate i st))" if "sk_data sk = None" for i
  proof -
    have "gd_socket (gate_at (emplace_gate i st) h) = gd_socket (gate_at st h)" for h
      by (auto simp: emplace_gate_def gate_at_def map_add_def split: option.splits)
    then show ?thesis
      using v views_right_cong [of "set_socket_data (sk_socket sk) (Some i) (emplace_gate i st)" st] emplace_gate_ok(5,6) [OF ok sk that, of i] by simp
  qed
  have register: "views_right_but None (gate_register P sk session buffer st)"
  proof (cases "parse_register_req P buffer")
    case (Some info)
    let ?i = "ucast (gi_id info) :: u16"
    show ?thesis
    proof (cases "sk_data sk")
      case (Some g)
      have "views_right_but None (register_gate (sk_socket sk) session info g (drop_previous (sk_socket sk) g st))"
        if "check_services (gi_services info) g st"
        using drop_previous_ok [OF ok sk, of g] g [OF Some] that
        by (intro register_gate_views [OF prev]) (simp_all add: check_services_def)
      then show ?thesis using \<open>parse_register_req P buffer = _\<close> Some v gid [OF Some] by (auto simp: gate_register_def Let_def send_plain)
    next
      case None
      have "views_right_but None (register_gate (sk_socket sk) session info ?i (set_socket_data (sk_socket sk) (Some ?i) (emplace_gate ?i st)))"
        if "check_services (gi_services info) ?i st"
        using emplace_gate_ok [OF ok sk None, of ?i] that
        by (intro register_gate_views [OF made [OF None]]) (simp_all add: check_services_def)
      then show ?thesis using \<open>parse_register_req P buffer = _\<close> None v by (simp add: gate_register_def Let_def send_plain)
    qed
  qed (simp add: gate_register_def v)
  have upload: "views_right_but None (gate_upload P sk session buffer st)"
  proof -
    have "views_right_but None (publish g (send a b (Service_update_ack ec) (add_services ss g st)))"
      if d: "sk_data sk = Some g" and k: "check_services ss g st" for g ss a b ec
    proof -
      let ?u = "add_services ss g st"
      note a = add_services_core [OF c g [OF d], of ss]
      have "views_right_but (Some g) ?u"
        using changes_only_views [OF views_weaken [OF v] add_services_changes [OF c g [OF d] k]] a by simp
      moreover have "registry_core (send a b (Service_update_ack ec) ?u)" using a registry_ok_core_cong [of "send a b (Service_update_ack ec) ?u" ?u] by simp
      ultimately show ?thesis using a g [OF d] by (intro publish_tells) (simp_all add: send_plain)
    qed
    then show ?thesis using v gid by (simp add: gate_upload_def send_plain split: option.splits)
  qed
  show ?thesis using register upload v by (simp add: forward_message_def proc_ping_def send_plain)
qed

lemma step_views:
  assumes ok: "registry_ok st" and v: "views_right_but None st"
  shows "views_right_but None (master_step P e st)"
proof (cases e)
  case (Frame s now mid session buffer)
  show ?thesis
  proof (cases "gm_sockets st s")
    case (Some sk)
    let ?sk = "sk\<lparr>sk_last_recv := now\<rparr>" and ?t = "st\<lparr>gm_sockets := (gm_sockets st)(s \<mapsto> sk\<lparr>sk_last_recv := now\<rparr>)\<rparr>"
    have t: "registry_ok ?t" by (rule touch_socket_ok [OF ok Some])
    have "views_right_but None ?t" using v views_right_cong [of ?t st] by (simp add: gate_at_def)
    moreover have "gm_sockets ?t (sk_socket ?sk) = Some ?sk" using registry_coreD(6) [OF registry_okD(1) [OF ok] Some] by simp
    ultimately have "views_right_but None (forward_message P ?sk mid session buffer ?t)" by (rule frame_views [OF t])
    then show ?thesis using Frame Some by (simp add: socket_frame_def Let_def)
  qed (simp add: Frame socket_frame_def v)
next
  case (Broken s)
  have erase: "views_right_but None (x\<lparr>gm_sockets := k\<rparr>)" if "views_right_but None x" for x k
    using that views_right_cong [of "x\<lparr>gm_sockets := k\<rparr>" x] by (simp add: gate_at_def)
  have "views_right_but None (publish g (offline g st))" if sk: "gm_sockets st s = Some sk" "sk_data sk = Some g" for sk g
  proof -
    note c = registry_okD(1) [OF ok]
    obtain gd where gd: "map_of (gm_gates st) g = Some gd" using registry_coreD(6) [OF c sk(1)] sk(2) by blast
    have "views_right_but (Some g) (offline g st)"
      by (rule changes_only_views [OF views_weaken [OF v] offline_changes [OF c gd]]) (auto split: if_splits)
    then show ?thesis using publish_tells [OF offline_core [OF c gd]] by simp
  qed
  then show ?thesis using Broken v erase by (simp add: socket_broken_def gate_disconnect_eq Let_def split: option.splits)
next
  case (Accepted s now)
  then show ?thesis using v views_right_cong [of "accept_socket s now st" st] by (simp add: accept_socket_def gate_at_def split: option.splits)
next
  case (Check s now)
  then show ?thesis using v views_right_cong [of "snd (socket_check s now st)" st] by (simp add: socket_check_def gate_at_def split: option.splits)
qed

lemma reach_views: "master_reach P st \<Longrightarrow> views_right_but None st"
proof (induction rule: master_reach.induct)
  case start
  show ?case by (simp add: gate_master_init_def views_right_but_def)
next
  case (step st e)
  then show ?case using step_views master_reach_ok by blast
qed

text \<open>C1: Whatever gates connect, register, upload and disconnect in whatever order: a connected gate that has applied the messages the master has
  written to its connection, starting from any table of its own, knows every service of the other gates with the state
  the master has for it.\<close>

theorem gate_tables_agree:
  assumes "master_reach P st" "gd_socket (gate_at st g) \<noteq> 0" "gm_services st sid = Some sd" "sd_gate sd \<noteq> g" "table_ok v"
  shows "online_of (fold master_message (written_to (gd_socket (gate_at st g)) st) v) sid = Some (sd_online sd)
     \<and> table_ok (fold master_message (written_to (gd_socket (gate_at st g)) st) v)"
  using views_rightD [OF reach_views [OF assms(1)] assms(2-4)] master_messages_table [OF assms(5)] by simp

theorem gate_tables_agree_witness:
  "online_of (fold master_message (written_to 6 sample_master) (empty_gate 2)) 9 = Some True"
proof -
  have "gd_socket (gate_at sample_master 2) = 6" "gm_services sample_master 9 = Some \<lparr>sd_id = 9, sd_tp = 3, sd_gate = 1, sd_online = True\<rparr>"
    by (simp_all add: sample_master_eq gate_at_def)
  moreover have "table_ok (empty_gate 2)" by (simp add: table_ok_def empty_gate_def)
  ultimately show ?thesis
    using gate_tables_agree [OF sample_reach, of 2 9 "\<lparr>sd_id = 9, sd_tp = 3, sd_gate = 1, sd_online = True\<rparr>" "empty_gate 2"] by simp
qed

end
