(* ===== verification/Gate_Connector.thy ===== *)
theory Gate_Connector
  imports Gate
begin

text \<open>
  The side of a service (\<open>gobang/kernel/gate_connector.cpp\<close>): what it writes to its gate through the shared-memory channel, kept back while
  there is no channel or the ring is full; the dispatch of what it reads; and its table of subscribed services.  The random index of
  \<open>rand_subscribe\<close> is an argument.
\<close>

section \<open>State and operations\<close>

record gate_connector =
  gc_id :: u16
  gc_channel :: "shm_channel option"
  gc_queue :: "byte list list"
  gc_subscribes :: "u16 \<Rightarrow> (u16 \<times> bool) list option"

text \<open>\<open>write\<close>, with the message already built by its argument.\<close>

definition connector_write :: "byte list \<Rightarrow> gate_connector \<Rightarrow> gate_connector" where
  "connector_write buf st = (case gc_channel st of
     None \<Rightarrow> st\<lparr>gc_queue := gc_queue st @ [buf]\<rparr>
   | Some channel \<Rightarrow>
       if gc_queue st \<noteq> [] then st\<lparr>gc_queue := gc_queue st @ [buf]\<rparr>
       else (case try_write buf channel of (ok, channel) \<Rightarrow>
         if ok then st\<lparr>gc_channel := Some channel\<rparr> else st\<lparr>gc_channel := Some channel, gc_queue := gc_queue st @ [buf]\<rparr>))"

definition write_message :: "byte list \<Rightarrow> u16 \<Rightarrow> u64 \<Rightarrow> u16 \<Rightarrow> byte list \<Rightarrow> gate_connector \<Rightarrow> gate_connector" where
  "write_message spare dst session mid msg st =
     connector_write (init_forward_buffer spare [] \<lparr>fp_from = gc_id st, fp_to = dst, fp_id = mid, fp_padding = 0, fp_session = session\<rparr> msg) st"

definition write_client :: "byte list \<Rightarrow> u16 \<Rightarrow> u64 \<Rightarrow> client_part \<Rightarrow> byte list \<Rightarrow> gate_connector \<Rightarrow> gate_connector" where
  "write_client spare dst session client msg st = connector_write (init_forward_client spare [] (gc_id st) dst session client msg) st"

text \<open>The end of \<open>register_to_gate\<close>: the channel is opened once.\<close>

definition open_channel :: "shm_channel \<Rightarrow> gate_connector \<Rightarrow> gate_connector" where
  "open_channel channel st = (case gc_channel st of None \<Rightarrow> st\<lparr>gc_channel := Some channel\<rparr> | Some _ \<Rightarrow> st)"

text \<open>One attempt of \<open>channel_write\<close>.\<close>

definition connector_pump :: "gate_connector \<Rightarrow> gate_connector" where
  "connector_pump st = (case (gc_channel st, gc_queue st) of
     (Some channel, ptr # rest) \<Rightarrow>
       (case try_write ptr channel of (ok, channel) \<Rightarrow>
          if ok then st\<lparr>gc_channel := Some channel, gc_queue := rest\<rparr> else st\<lparr>gc_channel := Some channel\<rparr>)
   | _ \<Rightarrow> st)"

text \<open>The dispatch of \<open>channel_read\<close>: \<open>wake\<close> is \<open>wake_up_session\<close> of the connector's calls, whose answer says whether somebody waited.\<close>

datatype dispatch = Rpc_reply u64 "byte list" | Forward_to u16 u64 u16 "byte list"

definition dispatch_message :: "(u64 \<Rightarrow> bool) \<Rightarrow> byte list \<Rightarrow> dispatch" where
  "dispatch_message wake buf =
     (let part = forward_part_of buf; rest = drop 16 buf
      in if fp_id part AND 0xf000 \<noteq> 0x5000 \<or> fp_session part = 0 \<or> \<not> wake (fp_session part)
         then Forward_to (fp_from part) (fp_session part) (fp_id part) rest
         else Rpc_reply (fp_session part) rest)"

section \<open>Subscriptions\<close>

definition find_subscribe :: "u16 \<Rightarrow> gate_connector \<Rightarrow> (u16 \<times> bool) list option" where
  "find_subscribe tp st = gc_subscribes st tp"

fun update_entry :: "u16 \<Rightarrow> bool \<Rightarrow> (u16 \<times> bool) list \<Rightarrow> (u16 \<times> bool) list" where
  "update_entry i online [] = [(i, online)]"
| "update_entry i online ((j, b) # rest) = (if j = i then (j, online) # rest else (j, b) # update_entry i online rest)"

definition update_subscribe :: "s_service_info \<Rightarrow> gate_connector \<Rightarrow> gate_connector" where
  "update_subscribe service st =
     (let tp = ucast (si_tp service); subscribe = (case gc_subscribes st tp of None \<Rightarrow> [] | Some v \<Rightarrow> v)
      in st\<lparr>gc_subscribes := (gc_subscribes st)(tp \<mapsto> update_entry (ucast (si_id service)) (si_online service) subscribe)\<rparr>)"

text \<open>\<open>subscribe\<close>: the type the request asks for is \<open>st_login\<close>, whatever the argument; a successful answer is applied.\<close>

definition st_login :: u32 where "st_login = 3"

definition subscribe_request :: "u16 \<Rightarrow> u32" where
  "subscribe_request tp = st_login"

fun subscribe_answer :: "gate_msg \<Rightarrow> gate_connector \<Rightarrow> gate_connector" where
  "subscribe_answer (Subscribe_ack Ec_success services) st = fold update_subscribe services st"
| "subscribe_answer _ st = st"

definition forward_gate :: "(byte list \<Rightarrow> s_service_info list option) \<Rightarrow> u16 \<Rightarrow> byte list \<Rightarrow> gate_connector \<Rightarrow> gate_connector" where
  "forward_gate parse mid buffer st =
     (if mid \<noteq> 0x6006 then st
      else case parse buffer of None \<Rightarrow> st | Some services \<Rightarrow> fold update_subscribe services st)"

definition rand_subscribe :: "(nat \<Rightarrow> nat) \<Rightarrow> u16 \<Rightarrow> gate_connector \<Rightarrow> u16" where
  "rand_subscribe dis tp st = (case find_subscribe tp st of None \<Rightarrow> 0
     | Some infos \<Rightarrow>
         if infos = [] then 0
         else let online = map fst (filter snd infos); n = length online
              in if n = 0 then 0 else if n = 1 then online ! 0 else online ! dis (n - 1))"

section \<open>Messages stay in order\<close>

text \<open>The connector, the other ring of its channel, and what the gate has received.\<close>

type_synonym connector_link = "gate_connector \<times> byte list list"

definition connector_receive :: "connector_link \<Rightarrow> connector_link" where
  "connector_receive s = (case s of (st, received) \<Rightarrow> (case gc_channel st of None \<Rightarrow> s
     | Some ch \<Rightarrow> (case link_recv (ch_write ch, ch_read ch) of
           (None, d) \<Rightarrow> (st\<lparr>gc_channel := Some (endpoint_a d)\<rparr>, received)
         | (Some m, d) \<Rightarrow> (st\<lparr>gc_channel := Some (endpoint_a d)\<rparr>, received @ [m]))))"

definition connector_rep :: "connector_link \<Rightarrow> byte list list \<Rightarrow> bool" where
  "connector_rep s q \<longleftrightarrow> (case s of (st, received) \<Rightarrow> (\<forall>m \<in> set (gc_queue st). link_valid m) \<and>
     (case gc_channel st of None \<Rightarrow> q = received @ gc_queue st
      | Some ch \<Rightarrow> \<exists>ring. link_rep (ch_write ch, ch_read ch) ring \<and> q = received @ ring @ gc_queue st))"

definition fresh_channels :: "shm_channel set" where
  "fresh_channels = {ch. link_rep (ch_write ch, ch_read ch) []}"

lemma endpoint_eta [simp]: "endpoint_a (ch_write ch, ch_read ch) = ch"
  by (simp add: endpoint_a_def)

interpretation connector_outbox: outbox connector_rep link_valid "\<lambda>m (st, received). (connector_write m st, received)"
  "insert connector_receive (insert (\<lambda>(st, received). (connector_pump st, received))
     ((\<lambda>ch (st, received). (open_channel ch st, received)) ` fresh_channels))"
proof unfold_locales
  fix s q m assume r: "connector_rep s q" and v: "link_valid m"
  obtain st received where s: "s = (st, received)" by fastforce
  show "connector_rep (case s of (st, received) \<Rightarrow> (connector_write m st, received)) (q @ [m])"
  proof (cases "gc_channel st")
    case None
    then show ?thesis using r v by (auto simp: s connector_rep_def connector_write_def)
  next
    case (Some ch)
    then obtain ring where ring: "link_rep (ch_write ch, ch_read ch) ring" "q = received @ ring @ gc_queue st"
      using r by (auto simp: s connector_rep_def)
    obtain ok ch' where t: "try_write m ch = (ok, ch')" by fastforce
    then have l: "link_send m (ch_write ch, ch_read ch) = (ok, (ch_write ch', ch_read ch'))" by (simp add: link_send_try)
    have "link_rep (ch_write ch', ch_read ch') (if ok then ring @ [m] else ring)"
      using link.send_accepted [OF ring(1) v] link.send_refused [OF ring(1) v] l by (cases ok) auto
    then show ?thesis using Some ring t r v by (auto simp: s connector_rep_def connector_write_def split: if_splits)
  qed
next
  fix t s q
  assume t: "t \<in> insert connector_receive (insert (\<lambda>(st, received). (connector_pump st, received))
     ((\<lambda>ch (st, received). (open_channel ch st, received)) ` fresh_channels))" and r: "connector_rep s q"
  obtain st received where s: "s = (st, received)" by fastforce
  from t consider "t = connector_receive" | "t = (\<lambda>(st, received). (connector_pump st, received))"
    | ch where "t = (\<lambda>(st, received). (open_channel ch st, received))" "link_rep (ch_write ch, ch_read ch) []"
    by (auto simp: fresh_channels_def)
  then show "connector_rep (t s) q"
  proof cases
    case 1
    show ?thesis
    proof (cases "gc_channel st")
      case (Some ch)
      then obtain ring where ring: "link_rep (ch_write ch, ch_read ch) ring" "q = received @ ring @ gc_queue st"
        using r by (auto simp: s connector_rep_def)
      show ?thesis
      proof (cases ring)
        case Nil
        then obtain d' where "link_recv (ch_write ch, ch_read ch) = (None, d')" "link_rep d' []" using link.recv_empty ring(1) by blast
        then show ?thesis using 1 Nil ring Some r by (auto simp: s connector_rep_def connector_receive_def)
      next
        case (Cons m rest)
        then obtain d' where "link_recv (ch_write ch, ch_read ch) = (Some m, d')" "link_rep d' rest" using link.recv_item ring(1) by blast
        then show ?thesis using 1 Cons ring Some r by (auto simp: s connector_rep_def connector_receive_def)
      qed
    qed (use 1 r in \<open>simp add: s connector_receive_def\<close>)
  next
    case 2
    show ?thesis
    proof (cases "gc_channel st = None \<or> gc_queue st = []")
      case True
      then show ?thesis using 2 r by (auto simp: s connector_pump_def split: option.splits list.splits)
    next
      case False
      then obtain ch m rest where c: "gc_channel st = Some ch" "gc_queue st = m # rest" by (cases "gc_queue st") auto
      then obtain ring where ring: "link_rep (ch_write ch, ch_read ch) ring" "q = received @ ring @ m # rest" "link_valid m"
        using r by (auto simp: s connector_rep_def)
      obtain ok ch' where w: "try_write m ch = (ok, ch')" by fastforce
      then have l: "link_send m (ch_write ch, ch_read ch) = (ok, (ch_write ch', ch_read ch'))" by (simp add: link_send_try)
      have "link_rep (ch_write ch', ch_read ch') (if ok then ring @ [m] else ring)"
        using link.send_accepted [OF ring(1,3)] link.send_refused [OF ring(1,3)] l by (cases ok) auto
      then show ?thesis using 2 c ring(2) w r by (auto simp: s connector_rep_def connector_pump_def split: if_splits)
    qed
  next
    case 3
    then show ?thesis using r by (cases "gc_channel st") (auto simp: s connector_rep_def open_channel_def)
  qed
qed

text \<open>Whatever a service writes, before or after its channel to the gate exists and however full the ring is, reaches the gate in the order written, and
  nothing is lost or repeated.\<close>

theorem connector_in_order:
  assumes "gc_channel st = None" "gc_queue st = []" "\<forall>m \<in> set (written_messages ops). link_valid m"
    "\<forall>t. Tick t \<in> set ops \<longrightarrow> t \<in> insert connector_receive (insert (\<lambda>(st, received). (connector_pump st, received))
        ((\<lambda>ch (st, received). (open_channel ch st, received)) ` fresh_channels))"
    "outbox_run (\<lambda>m (st, received). (connector_write m st, received)) ops (st, []) = (st', received)"
  shows "\<exists>ring. received @ ring @ gc_queue st' = written_messages ops
     \<and> (case gc_channel st' of None \<Rightarrow> ring = [] | Some ch \<Rightarrow> link_rep (ch_write ch, ch_read ch) ring)"
proof -
  have "connector_rep (st, []) []" using assms(1,2) by (simp add: connector_rep_def)
  from connector_outbox.run_keeps_order [OF this assms(3,4)] have "connector_rep (st', received) (written_messages ops)" using assms(5) by simp
  then show ?thesis by (cases "gc_channel st'") (auto simp: connector_rep_def)
qed

section \<open>The table of subscribed services\<close>

definition sub_lookup :: "gate_connector \<Rightarrow> u16 \<Rightarrow> u16 \<Rightarrow> bool option" where
  "sub_lookup st tp i = (case gc_subscribes st tp of None \<Rightarrow> None | Some v \<Rightarrow> map_of v i)"

definition subs_distinct :: "gate_connector \<Rightarrow> bool" where
  "subs_distinct st \<longleftrightarrow> (\<forall>tp v. gc_subscribes st tp = Some v \<longrightarrow> distinct (map fst v))"

lemma update_entry_map_of: "map_of (update_entry i b v) = (map_of v)(i \<mapsto> b)"
  by (induction i b v rule: update_entry.induct) (auto simp: fun_eq_iff)

lemma update_entry_keys: "set (map fst (update_entry i b v)) = insert i (set (map fst v))"
  by (induction i b v rule: update_entry.induct) auto

lemma update_entry_distinct: "distinct (map fst v) \<Longrightarrow> distinct (map fst (update_entry i b v))"
proof (induction i b v rule: update_entry.induct)
  case (2 i online j b rest)
  then show ?case using update_entry_keys [of i online rest] by (auto simp del: set_map)
qed simp

lemma update_subscribe_lookup:
  "sub_lookup (update_subscribe s st) tp i = (if tp = ucast (si_tp s) \<and> i = ucast (si_id s) then Some (si_online s) else sub_lookup st tp i)"
  by (auto simp: sub_lookup_def update_subscribe_def Let_def update_entry_map_of split: option.splits)

lemma update_subscribe_distinct: "subs_distinct st \<Longrightarrow> subs_distinct (update_subscribe s st)"
  using update_entry_distinct by (auto simp: subs_distinct_def update_subscribe_def Let_def split: option.splits)

lemma updates_distinct: "subs_distinct st \<Longrightarrow> subs_distinct (fold update_subscribe ss st)"
  by (induction ss arbitrary: st) (simp_all add: update_subscribe_distinct)

text \<open>After any sequence of answers and broadcasts the table says of every service what was said of it last, and a service is picked at random
  exactly among those of the type that are online; with none online the answer is 0.\<close>

theorem subscription_table:
  assumes "subs_distinct st" "\<And>n. dis n \<le> n" "st' = fold update_subscribe ss st"
  shows "sub_lookup st' tp i = (case find (\<lambda>s. ucast (si_tp s) = tp \<and> ucast (si_id s) = i) (rev ss) of Some s \<Rightarrow> Some (si_online s) | None \<Rightarrow> sub_lookup st tp i)
     \<and> (if \<exists>i. sub_lookup st' tp i = Some True then sub_lookup st' tp (rand_subscribe dis tp st') = Some True else rand_subscribe dis tp st' = 0)"
proof (intro conjI)
  show "sub_lookup st' tp i = (case find (\<lambda>s. ucast (si_tp s) = tp \<and> ucast (si_id s) = i) (rev ss) of Some s \<Rightarrow> Some (si_online s) | None \<Rightarrow> sub_lookup st tp i)"
    unfolding assms(3)
  proof (induction ss rule: rev_induct)
    case (snoc s ss)
    then show ?case by (auto simp: update_subscribe_lookup)
  qed simp
next
  have d: "subs_distinct st'" unfolding assms(3) by (rule updates_distinct [OF assms(1)])
  show "if \<exists>i. sub_lookup st' tp i = Some True then sub_lookup st' tp (rand_subscribe dis tp st') = Some True else rand_subscribe dis tp st' = 0"
  proof (cases "gc_subscribes st' tp")
    case None
    then show ?thesis by (simp add: sub_lookup_def rand_subscribe_def find_subscribe_def)
  next
    case (Some v)
    let ?on = "map fst (filter snd v)"
    have dv: "distinct (map fst v)" using d Some by (simp add: subs_distinct_def)
    have m: "sub_lookup st' tp j = Some True \<longleftrightarrow> j \<in> set ?on" for j
    proof -
      have "map_of v j = Some True \<longleftrightarrow> (j, True) \<in> set v" using dv by (simp add: map_of_eq_Some_iff)
      then show ?thesis using Some by (auto simp: sub_lookup_def image_iff)
    qed
    have n: "rand_subscribe dis tp st' = (if ?on = [] then 0 else if length ?on = 1 then ?on ! 0 else ?on ! dis (length ?on - 1))"
      using Some by (auto simp: rand_subscribe_def find_subscribe_def Let_def)
    have k: "dis (length ?on - 1) < length ?on" if "?on \<noteq> []"
    proof -
      have "0 < length ?on" using that by (rule length_greater_0_conv [THEN iffD2])
      then show ?thesis using assms(2) [of "length ?on - 1"] by linarith
    qed
    show ?thesis
    proof (cases "?on = []")
      case True
      then show ?thesis using m n by simp
    next
      case False
      then have "rand_subscribe dis tp st' \<in> set ?on"
        unfolding n if_not_P [OF False] using nth_mem [OF k [OF False]] nth_mem [of 0 ?on] by (cases "length ?on = 1") simp_all
      then have "sub_lookup st' tp (rand_subscribe dis tp st') = Some True" using m by blast
      then show ?thesis by (simp only: if_P [OF exI])
    qed
  qed
qed

definition empty_connector :: gate_connector where
  "empty_connector = \<lparr>gc_id = 4, gc_channel = None, gc_queue = [], gc_subscribes = (\<lambda>_. None)\<rparr>"

theorem subscription_table_witness:
  "sub_lookup (fold update_subscribe [\<lparr>si_id = 9, si_tp = 3, si_online = True\<rparr>, \<lparr>si_id = 9, si_tp = 3, si_online = False\<rparr>] empty_connector) 3 9 = Some False"
  using subscription_table [of empty_connector "\<lambda>n. n" _ "[\<lparr>si_id = 9, si_tp = 3, si_online = True\<rparr>, \<lparr>si_id = 9, si_tp = 3, si_online = False\<rparr>]" 3 9]
  by (simp add: subs_distinct_def empty_connector_def)

theorem connector_in_order_witness:
  "\<exists>st' received ring. outbox_run (\<lambda>m (st, received). (connector_write m st, received))
       [Write [1], Tick (\<lambda>(st, received). (open_channel (endpoint_a (shm_buffer_open 8 None, shm_buffer_open 8 None)) st, received)), Write [2],
        Tick (\<lambda>(st, received). (connector_pump st, received)), Tick connector_receive] (empty_connector, []) = (st', received)
     \<and> received @ ring @ gc_queue st' = [[1], [2]]"
proof -
  let ?ch = "endpoint_a (shm_buffer_open 8 None, shm_buffer_open 8 None)"
  let ?ops = "[Write [1], Tick (\<lambda>(st, received). (open_channel ?ch st, received)), Write [2], Tick (\<lambda>(st, received). (connector_pump st, received)),
     Tick connector_receive] :: (byte list, connector_link) outbox_op list"
  have "link_rep (shm_buffer_open 8 None, shm_buffer_open 8 None) []" by (rule link_rep_open) (simp_all add: word_less_nat_alt)
  then have f: "?ch \<in> fresh_channels" by (simp add: fresh_channels_def)
  obtain st' received where run: "outbox_run (\<lambda>m (st, received). (connector_write m st, received)) ?ops (empty_connector, []) = (st', received)" by fastforce
  have "\<exists>ring. received @ ring @ gc_queue st' = written_messages ?ops
     \<and> (case gc_channel st' of None \<Rightarrow> ring = [] | Some ch \<Rightarrow> link_rep (ch_write ch, ch_read ch) ring)"
    by (rule connector_in_order [OF _ _ _ _ run]) (use f in \<open>auto simp: empty_connector_def link_valid_def valid_message_def\<close>)
  then show ?thesis using run by auto
qed

text \<open>Subscribing asks the gate for the login services whatever type was meant: with any gate whose lists by type are right, the entries of
  another type are the same after the answer as before, so the services of that type never become known.\<close>

definition types_right :: "gate \<Rightarrow> bool" where
  "types_right v \<longleftrightarrow> (\<forall>tp ks. ga_types v tp = Some ks \<longrightarrow> (\<forall>k \<in> set ks. sv_tp (ga_objs v ! k) = tp))"

theorem subscribe_asks_login:
  assumes "types_right v" "tp \<noteq> ucast st_login" "service_subscribe parse p session buffer v = v'" "parse buffer = Some (subscribe_request tp)"
    "ga_msgs v' = ga_msgs v @ [(lk_socket (ga_socks v ! p), session, answer)]"
  shows "find_subscribe tp (subscribe_answer answer st) = find_subscribe tp st"
proof -
  define services where "services = (case find_service_type (ucast st_login) v of None \<Rightarrow> [] | Some ks \<Rightarrow> map (\<lambda>i. to_proto (ga_objs v ! i)) ks)"
  have other: "ucast (si_tp s) \<noteq> tp" if s: "s \<in> set services" for s
  proof -
    obtain ks k where "ga_types v (ucast st_login) = Some ks" "k \<in> set ks" and k: "s = to_proto (ga_objs v ! k)"
      using s by (cases "ga_types v (ucast st_login)") (auto simp: services_def find_service_type_def)
    then have "sv_tp (ga_objs v ! k) = ucast st_login" using assms(1) unfolding types_right_def by blast
    then show ?thesis using assms(2) k by (simp add: to_proto_def)
  qed
  have keep: "find_subscribe tp (fold update_subscribe ss st) = find_subscribe tp st" if "\<forall>s \<in> set ss. ucast (si_tp s) \<noteq> tp" for ss
    using that by (induction ss arbitrary: st) (auto simp: find_subscribe_def update_subscribe_def Let_def)
  have "answer = Subscribe_ack Ec_system [] \<or> answer = Subscribe_ack Ec_success services"
    using assms(3-5) by (auto simp: service_subscribe_def subscribe_request_def Let_def send_local_def map_sock_def services_def find_service_type_def
      split: option.splits if_splits)
  then show ?thesis using keep [of services] other by auto
qed

theorem subscribe_asks_login_witness:
  "find_subscribe 4 (subscribe_answer (Subscribe_ack Ec_system []) empty_connector) = find_subscribe 4 empty_connector"
proof (rule subscribe_asks_login)
  let ?v = "accept_local 7 0 (empty_gate 1)"
  show "types_right ?v" by (simp add: types_right_def accept_local_def empty_gate_def)
  show "(4 :: u16) \<noteq> ucast st_login" by (simp add: st_login_def)
  show "service_subscribe sample_subscribe 0 5 [3] ?v = service_subscribe sample_subscribe 0 5 [3] ?v" by simp
  show "sample_subscribe [3] = Some (subscribe_request 4)" by (simp add: sample_subscribe_def subscribe_request_def st_login_def)
  show "ga_msgs (service_subscribe sample_subscribe 0 5 [3] ?v) = ga_msgs ?v @ [(lk_socket (ga_socks ?v ! 0), 5, Subscribe_ack Ec_system [])]"
    by (simp add: service_subscribe_def sample_subscribe_def accept_local_def empty_gate_def send_local_def Let_def)
qed

end
