(* ===== verification/Remote_Connect.thy ===== *)
theory Remote_Connect
  imports Proto_Utils
begin

text \<open>
  How a gate chooses the address of another gate to connect to (\<open>remote_gate::run\<close> of \<open>gobang/gate/remote_gate.cpp\<close>): the addresses are tried in turn,
  and those without a port are passed over.  The part of the loop between two suspensions is a partial function: \<open>None\<close> means that it
  never reaches one.
\<close>

section \<open>The loop\<close>

record connect_state =
  cs_address_cnt :: u64
  cs_cnt_fail :: u64

definition inc_address_cnt :: "u64 \<Rightarrow> connect_state \<Rightarrow> connect_state" where
  "inc_address_cnt address_size st =
     (let st = st\<lparr>cs_address_cnt := cs_address_cnt st + 1\<rparr>
      in if cs_address_cnt st mod address_size = 0 then st\<lparr>cs_cnt_fail := cs_cnt_fail st + 1\<rparr> else st)"

text \<open>The first comma splits an address; there must be a port behind it.\<close>

definition split_address :: "byte list \<Rightarrow> (byte list \<times> byte list) option" where
  "split_address address =
     (case find_sub [0x2c] address of None \<Rightarrow> None
      | Some pos \<Rightarrow> if pos + 1 = length address then None else Some (take pos address, drop (pos + 1) address))"

text \<open>Where the loop suspends: two seconds without addresses, or before a connection attempt, with the milliseconds to wait.\<close>

datatype connect_wait = Sleep_no_address | Try_connect "byte list" "byte list" nat connect_state

partial_function (option) next_attempt :: "byte list list \<Rightarrow> connect_state \<Rightarrow> connect_wait option" where
  "next_attempt addresses st =
     (if addresses = [] then Some Sleep_no_address
      else let address_size = of_nat (length addresses) :: u64;
               address = addresses ! unat (cs_address_cnt st mod address_size)
           in case split_address address of
                None \<Rightarrow> next_attempt addresses (inc_address_cnt address_size st)
              | Some (host, port) \<Rightarrow> Some (Try_connect host port (connect_interval (cs_cnt_fail st)) st))"

text \<open>What the outcome of an attempt does to the counters: no connection, a connection, an exception later on.\<close>

definition attempt_failed :: "byte list list \<Rightarrow> connect_state \<Rightarrow> connect_state" where
  "attempt_failed addresses st = inc_address_cnt (of_nat (length addresses)) st"

definition attempt_succeeded :: "connect_state \<Rightarrow> connect_state" where
  "attempt_succeeded st = st\<lparr>cs_cnt_fail := 0\<rparr>"

section \<open>Which address is tried\<close>

lemma inc_cnt [simp]: "cs_address_cnt (inc_address_cnt n st) = cs_address_cnt st + 1"
  by (simp add: inc_address_cnt_def Let_def)

definition address_at :: "byte list list \<Rightarrow> connect_state \<Rightarrow> nat \<Rightarrow> byte list" where
  "address_at addresses st k = addresses ! ((unat (cs_address_cnt st) + k) mod length addresses)"

lemma address_index:
  assumes "0 < n" "n < 2 ^ 64"
  shows "unat (c mod of_nat n :: u64) = unat c mod n"
  using assms by (simp add: unat_mod unat_of_nat)

lemma next_attempt_finds:
  assumes "addresses \<noteq> []" "length addresses < 2 ^ 64" "unat (cs_address_cnt st) + k < 2 ^ 64"
    "split_address (address_at addresses st k) = Some (host, port)" "\<forall>j < k. split_address (address_at addresses st j) = None"
  shows "\<exists>ms st'. next_attempt addresses st = Some (Try_connect host port ms st') \<and> unat (cs_address_cnt st') = unat (cs_address_cnt st) + k"
  using assms(3-5)
proof (induction k arbitrary: st)
  case 0
  then show ?case
    using assms(1,2) by (subst next_attempt.simps) (simp add: Let_def address_index address_at_def)
next
  case (Suc k)
  let ?t = "inc_address_cnt (of_nat (length addresses)) st"
  have c: "unat (cs_address_cnt ?t) = Suc (unat (cs_address_cnt st))" using Suc.prems(1) by (simp add: unat_word_ariths)
  have a: "address_at addresses ?t j = address_at addresses st (Suc j)" for j unfolding address_at_def c by simp
  have "split_address (address_at addresses st 0) = None" using Suc.prems(3) by blast
  then have "next_attempt addresses st = next_attempt addresses ?t"
    using assms(1,2) by (subst next_attempt.simps) (simp add: Let_def address_index address_at_def)
  moreover have "\<exists>ms st'. next_attempt addresses ?t = Some (Try_connect host port ms st') \<and> unat (cs_address_cnt st') = unat (cs_address_cnt ?t) + k"
  proof (rule Suc.IH)
    show "unat (cs_address_cnt ?t) + k < 2 ^ 64" using Suc.prems(1) unfolding c by simp
    show "split_address (address_at addresses ?t k) = Some (host, port)" using Suc.prems(2) unfolding a .
    show "\<forall>j < k. split_address (address_at addresses ?t j) = None" using Suc.prems(3) unfolding a by simp
  qed
  ultimately show ?case using c by auto
qed

lemma next_attempt_returns:
  assumes "next_attempt addresses st = Some r"
  shows "addresses \<noteq> [] \<longrightarrow> length addresses < 2 ^ 64 \<longrightarrow> (\<exists>a \<in> set addresses. split_address a \<noteq> None)"
proof (rule next_attempt.raw_induct [where P = "\<lambda>as s r. as \<noteq> [] \<longrightarrow> length as < 2 ^ 64 \<longrightarrow> (\<exists>a \<in> set as. split_address a \<noteq> None)", OF _ assms], intro impI)
  fix f as s r
  assume ih: "\<And>as s r. f as s = Some r \<Longrightarrow> as \<noteq> [] \<longrightarrow> length as < 2 ^ 64 \<longrightarrow> (\<exists>a \<in> set as. split_address a \<noteq> None)"
    and r: "(if as = [] then Some Sleep_no_address
      else let address_size = of_nat (length as) :: u64; address = as ! unat (cs_address_cnt s mod address_size)
           in case split_address address of None \<Rightarrow> f as (inc_address_cnt address_size s)
              | Some (host, port) \<Rightarrow> Some (Try_connect host port (connect_interval (cs_cnt_fail s)) s)) = Some r"
    and ne: "as \<noteq> []" and l: "length as < 2 ^ 64"
  let ?a = "as ! unat (cs_address_cnt s mod of_nat (length as))"
  have "?a \<in> set as" using ne l by (intro nth_mem) (simp add: address_index)
  then show "\<exists>a \<in> set as. split_address a \<noteq> None"
    using r ne l ih by (cases "split_address ?a") (auto simp: Let_def)
qed

text \<open>C36: The addresses of a gate are tried in turn, from where the counter stands, and the first one with a port is the one the loop connects to.  When no
  address has a port, the loop goes round forever without suspending once, and the thread of the scheduler is lost.\<close>

theorem connect_in_turn:
  assumes "addresses \<noteq> []" "length addresses < 2 ^ 64" "unat (cs_address_cnt st) + length addresses < 2 ^ 64"
  shows "if \<exists>a \<in> set addresses. split_address a \<noteq> None
     then \<exists>k host port ms st'. k < length addresses \<and> (\<forall>j < k. split_address (address_at addresses st j) = None)
        \<and> split_address (address_at addresses st k) = Some (host, port)
        \<and> next_attempt addresses st = Some (Try_connect host port ms st') \<and> unat (cs_address_cnt st') = unat (cs_address_cnt st) + k
     else next_attempt addresses st = None"
proof (cases "\<exists>a \<in> set addresses. split_address a \<noteq> None")
  case True
  let ?n = "length addresses" and ?c = "unat (cs_address_cnt st)"
  obtain i where i: "i < ?n" "split_address (addresses ! i) \<noteq> None" using True by (metis in_set_conv_nth)
  define d where "d = (i + ?n - ?c mod ?n) mod ?n"
  have r: "?c mod ?n \<le> i + ?n" using mod_less_divisor [of ?n ?c] i(1) by linarith
  have "(?c + d) mod ?n = (?c mod ?n + (i + ?n - ?c mod ?n)) mod ?n" by (simp add: d_def mod_simps)
  also have "\<dots> = i" using i(1) r by simp
  finally have "(?c + d) mod ?n = i" .
  then have "split_address (address_at addresses st d) \<noteq> None" using i(2) by (simp add: address_at_def)
  define k where "k = (LEAST k. split_address (address_at addresses st k) \<noteq> None)"
  have k: "split_address (address_at addresses st k) \<noteq> None" "k \<le> d" "\<forall>j < k. split_address (address_at addresses st j) = None"
    using \<open>split_address (address_at addresses st d) \<noteq> None\<close> LeastI [of "\<lambda>k. split_address (address_at addresses st k) \<noteq> None" d]
      Least_le [of "\<lambda>k. split_address (address_at addresses st k) \<noteq> None" d] not_less_Least unfolding k_def by blast+
  have "d < ?n" unfolding d_def using i(1) by (intro mod_less_divisor) linarith
  then have kn: "k < ?n" "?c + k < 2 ^ 64" using k(2) assms(3) by simp_all
  obtain host port where hp: "split_address (address_at addresses st k) = Some (host, port)" using k(1) by auto
  then show ?thesis using next_attempt_finds [OF assms(1,2) kn(2) hp k(3)] kn(1) k(3) True by auto
next
  case False
  then show ?thesis using next_attempt_returns [of addresses st] assms(1,2) by (cases "next_attempt addresses st") auto
qed

definition sample_connect :: connect_state where
  "sample_connect = \<lparr>cs_address_cnt = 1, cs_cnt_fail = 0\<rparr>"

theorem connect_in_turn_witness: "next_attempt [[65], [66, 0x2c]] sample_connect = None"
proof -
  have "\<not> (\<exists>a \<in> set [[65], [66, 0x2c]]. split_address a \<noteq> None)" by (simp add: split_address_def find_sub.simps)
  then show ?thesis using connect_in_turn [of "[[65], [66, 0x2c]]" sample_connect] by (simp add: sample_connect_def)
qed

end
