(* ===== verification/Mpsc_Queue.thy ===== *)
theory Mpsc_Queue
  imports Prelude Item_Fifo
begin

text \<open>
  The lock-free queue with many producers and one consumer, \<open>runtime/src/containers/queue.cpp\<close>.  First the operations as functions, then the same code
  as atomic steps, one per access to shared memory, of producers and the consumer that interleave freely.  The nodes are the
  stub of the queue and numbered nodes of the callers.  \<open>mpmc_queue\<close> serialises the consumers with a lock.
\<close>

section \<open>The operations\<close>

datatype qnode = Stub | Node nat

record mpsc_queue =
  q_head :: qnode
  q_tail :: qnode
  q_next :: "qnode \<Rightarrow> qnode option"
  q_size :: u64

definition mpsc_init :: mpsc_queue where
  "mpsc_init = \<lparr>q_head = Stub, q_tail = Stub, q_next = (\<lambda>_. None), q_size = 0\<rparr>"

definition set_next :: "qnode \<Rightarrow> qnode option \<Rightarrow> mpsc_queue \<Rightarrow> mpsc_queue" where
  "set_next n v q = q\<lparr>q_next := (q_next q)(n := v)\<rparr>"

definition push_base :: "qnode \<Rightarrow> mpsc_queue \<Rightarrow> bool \<times> mpsc_queue" where
  "push_base n q =
     (let q = set_next n None q; prev = q_head q; q = q\<lparr>q_head := n\<rparr>; q = set_next prev (Some n) q
      in (prev = Stub, q))"

definition mpsc_push :: "nat \<Rightarrow> mpsc_queue \<Rightarrow> bool \<times> mpsc_queue" where
  "mpsc_push n q = push_base (Node n) (q\<lparr>q_size := q_size q + 1\<rparr>)"

text \<open>What follows the test for the stub, with \<open>tail\<close> and \<open>next\<close>.\<close>

definition pop_tail :: "qnode \<Rightarrow> qnode option \<Rightarrow> mpsc_queue \<Rightarrow> (qnode option \<times> bool) \<times> mpsc_queue" where
  "pop_tail tail next q = (case next of
     Some n \<Rightarrow> ((Some tail, False), q\<lparr>q_tail := n\<rparr>)
   | None \<Rightarrow>
       if tail \<noteq> q_head q then ((None, False), q)
       else let q = snd (push_base Stub q)
            in case q_next q tail of Some n \<Rightarrow> ((Some tail, False), q\<lparr>q_tail := n\<rparr>) | None \<Rightarrow> ((None, False), q))"

definition pop_and_check_end_base :: "mpsc_queue \<Rightarrow> (qnode option \<times> bool) \<times> mpsc_queue" where
  "pop_and_check_end_base q =
     (let tail = q_tail q; next = q_next q tail
      in if tail = Stub
         then (case next of None \<Rightarrow> ((None, True), q)
               | Some n \<Rightarrow> let q = q\<lparr>q_tail := n\<rparr> in pop_tail n (q_next q n) q)
         else pop_tail tail next q)"

definition count_pop :: "qnode option \<Rightarrow> mpsc_queue \<Rightarrow> mpsc_queue" where
  "count_pop n q = (case n of None \<Rightarrow> q | Some _ \<Rightarrow> q\<lparr>q_size := q_size q - 1\<rparr>)"

definition pop_and_check_end :: "mpsc_queue \<Rightarrow> (qnode option \<times> bool) \<times> mpsc_queue" where
  "pop_and_check_end q = (case pop_and_check_end_base q of ((n, is_end), q) \<Rightarrow> ((n, is_end), count_pop n q))"

partial_function (option) mpsc_pop :: "mpsc_queue \<Rightarrow> (qnode option \<times> mpsc_queue) option" where
  "mpsc_pop q = (case pop_and_check_end_base q of ((n, is_end), q) \<Rightarrow>
     if n = None \<and> \<not> is_end then mpsc_pop q else Some (n, count_pop n q))"

text \<open>\<open>mpmc_queue\<close>: \<open>pop\<close> waits for the lock of the consumers, \<open>try_pop\<close> gives up when it is taken.\<close>

definition mpmc_push :: "nat \<Rightarrow> mpsc_queue \<Rightarrow> bool \<times> mpsc_queue" where
  "mpmc_push n q = mpsc_push n q"

definition mpmc_pop :: "mpsc_queue \<Rightarrow> (qnode option \<times> mpsc_queue) option" where
  "mpmc_pop q = mpsc_pop q"

definition mpmc_try_pop :: "bool \<Rightarrow> mpsc_queue \<Rightarrow> (qnode option \<times> mpsc_queue) option" where
  "mpmc_try_pop locked q = (if \<not> locked then mpsc_pop q else Some (None, q))"

section \<open>Atomic steps\<close>

text \<open>Where a producer stands in \<open>push\<close>: before it, after the count, after clearing the link of its node, and between the exchange of
  the head and the store of the link.\<close>

datatype producer = P_idle | P_start nat | P_sized nat | P_cleared nat | P_linking nat qnode

text \<open>Where the consumer stands in \<open>pop_and_check_end_base\<close>; \<open>C_got\<close> has taken a node and not yet counted it, \<open>C_end\<close> has
  found the queue empty.\<close>

datatype consumer = C_idle | C_reload qnode | C_loaded qnode "qnode option" | C_head qnode | C_clear qnode | C_exchange qnode
  | C_linking qnode qnode | C_last qnode | C_got qnode | C_end

text \<open>\<open>sys_pushed\<close> logs the nodes in the order of the exchanges of the head and \<open>sys_popped\<close> those the consumer has taken.\<close>

record mpsc_sys =
  sys_queue :: mpsc_queue
  sys_producers :: "nat \<Rightarrow> producer"
  sys_consumer :: consumer
  sys_pushed :: "nat list"
  sys_popped :: "nat list"

definition mpsc_start :: mpsc_sys where
  "mpsc_start = \<lparr>sys_queue = mpsc_init, sys_producers = (\<lambda>_. P_idle), sys_consumer = C_idle, sys_pushed = [], sys_popped = []\<rparr>"

definition producer_step :: "nat \<Rightarrow> mpsc_sys \<Rightarrow> mpsc_sys" where
  "producer_step t s =
     (let q = sys_queue s; go = (\<lambda>p q. s\<lparr>sys_producers := (sys_producers s)(t := p), sys_queue := q\<rparr>)
      in case sys_producers s t of
           P_idle \<Rightarrow> s
         | P_start n \<Rightarrow> go (P_sized n) (q\<lparr>q_size := q_size q + 1\<rparr>)
         | P_sized n \<Rightarrow> go (P_cleared n) (set_next (Node n) None q)
         | P_cleared n \<Rightarrow> (go (P_linking n (q_head q)) (q\<lparr>q_head := Node n\<rparr>))\<lparr>sys_pushed := sys_pushed s @ [n]\<rparr>
         | P_linking n prev \<Rightarrow> go P_idle (set_next prev (Some (Node n)) q))"

definition node_id :: "qnode \<Rightarrow> nat list" where
  "node_id n = (case n of Stub \<Rightarrow> [] | Node i \<Rightarrow> [i])"

definition take_tail :: "qnode \<Rightarrow> qnode \<Rightarrow> mpsc_sys \<Rightarrow> mpsc_sys" where
  "take_tail tail n s = s\<lparr>sys_consumer := C_got tail, sys_queue := (sys_queue s)\<lparr>q_tail := n\<rparr>, sys_popped := sys_popped s @ node_id tail\<rparr>"

definition consumer_step :: "mpsc_sys \<Rightarrow> mpsc_sys" where
  "consumer_step s =
     (let q = sys_queue s; go = (\<lambda>c q. s\<lparr>sys_consumer := c, sys_queue := q\<rparr>)
      in case sys_consumer s of
           C_idle \<Rightarrow>
             (let tail = q_tail q; next = q_next q tail
              in if tail = Stub
                 then (case next of None \<Rightarrow> go C_end q | Some n \<Rightarrow> go (C_reload n) (q\<lparr>q_tail := n\<rparr>))
                 else go (C_loaded tail next) q)
         | C_reload tail \<Rightarrow> go (C_loaded tail (q_next q tail)) q
         | C_loaded tail next \<Rightarrow> (case next of Some n \<Rightarrow> take_tail tail n s | None \<Rightarrow> go (C_head tail) q)
         | C_head tail \<Rightarrow> go (if tail \<noteq> q_head q then C_idle else C_clear tail) q
         | C_clear tail \<Rightarrow> go (C_exchange tail) (set_next Stub None q)
         | C_exchange tail \<Rightarrow> go (C_linking tail (q_head q)) (q\<lparr>q_head := Stub\<rparr>)
         | C_linking tail prev \<Rightarrow> go (C_last tail) (set_next prev (Some Stub) q)
         | C_last tail \<Rightarrow> (case q_next q tail of Some n \<Rightarrow> take_tail tail n s | None \<Rightarrow> go C_idle q)
         | C_got n \<Rightarrow> go C_idle (q\<lparr>q_size := q_size q - 1\<rparr>)
         | C_end \<Rightarrow> go C_idle q)"

fun holds :: "producer \<Rightarrow> nat option" where
  "holds P_idle = None"
| "holds (P_start n) = Some n"
| "holds (P_sized n) = Some n"
| "holds (P_cleared n) = Some n"
| "holds (P_linking n prev) = Some n"

text \<open>A caller pushes a node that is neither in the queue nor being pushed; a node that has been popped may be pushed again.\<close>

definition node_free :: "nat \<Rightarrow> mpsc_sys \<Rightarrow> bool" where
  "node_free n s \<longleftrightarrow> n \<notin> set (drop (length (sys_popped s)) (sys_pushed s)) \<and> (\<forall>t. holds (sys_producers s t) \<noteq> Some n)"

inductive mpsc_reach :: "mpsc_sys \<Rightarrow> bool" where
  initial: "mpsc_reach mpsc_start"
| begin_push: "mpsc_reach s \<Longrightarrow> sys_producers s t = P_idle \<Longrightarrow> node_free n s
    \<Longrightarrow> mpsc_reach (s\<lparr>sys_producers := (sys_producers s)(t := P_start n)\<rparr>)"
| produce: "mpsc_reach s \<Longrightarrow> mpsc_reach (producer_step t s)"
| consume: "mpsc_reach s \<Longrightarrow> mpsc_reach (consumer_step s)"

section \<open>The chain of nodes\<close>

text \<open>Neighbours in a list.\<close>

fun adj :: "'a \<Rightarrow> 'a \<Rightarrow> 'a list \<Rightarrow> bool" where
  "adj a b (x # y # zs) = (a = x \<and> b = y \<or> adj a b (y # zs))"
| "adj a b _ = False"

lemma adj_set: "adj a b L \<Longrightarrow> a \<in> set L \<and> b \<in> set (tl L)"
  by (induction a b L rule: adj.induct) auto

lemma adj_snoc: "L \<noteq> [] \<Longrightarrow> adj a b (L @ [n]) \<longleftrightarrow> adj a b L \<or> a = last L \<and> b = n"
  by (induction a b L rule: adj.induct) auto

lemma adj_Cons: "distinct (x # L) \<Longrightarrow> adj a b L \<longleftrightarrow> adj a b (x # L) \<and> a \<noteq> x"
  by (cases L) (auto dest: adj_set)

lemma adj_hd: "distinct (x # L) \<Longrightarrow> adj x b (x # L) \<Longrightarrow> L \<noteq> [] \<and> hd L = b"
  by (cases L) (auto dest: adj_set)

lemma adj_last: "distinct L \<Longrightarrow> \<not> adj (last L) b L"
proof (induction L)
  case (Cons x L)
  then show ?case using adj_Cons [OF Cons.prems, of "last L" b] last_in_set [of L] by (cases "L = []") auto
qed simp

lemma adj_right: "distinct L \<Longrightarrow> adj a b L \<Longrightarrow> adj a c L \<Longrightarrow> b = c"
  by (induction a b L rule: adj.induct) (auto dest: adj_set)

text \<open>The nodes from the tail to the head: every link is there, or its store is still to come and the link is null.\<close>

definition chain :: "qnode list \<Rightarrow> qnode \<Rightarrow> qnode \<Rightarrow> (qnode \<Rightarrow> qnode option) \<Rightarrow> (qnode \<Rightarrow> qnode \<Rightarrow> bool) \<Rightarrow> bool" where
  "chain L h t nx pend \<longleftrightarrow> L \<noteq> [] \<and> distinct L \<and> hd L = t \<and> last L = h \<and> nx h = None
     \<and> (\<forall>a b. adj a b L \<longrightarrow> nx a = Some b \<or> nx a = None \<and> pend a b) \<and> (\<forall>a b. pend a b \<longrightarrow> adj a b L \<and> nx a = None)"

lemma chain_push:
  assumes c: "chain L h t nx pend" and n: "n \<notin> set L" "nx n = None" and p: "\<And>a b. pend' a b \<longleftrightarrow> pend a b \<or> a = h \<and> b = n"
  shows "chain (L @ [n]) n t nx pend'"
proof -
  have "L \<noteq> []" "last L = h" "nx h = None" using c by (simp_all add: chain_def)
  then show ?thesis using c n unfolding chain_def p by (auto simp: adj_snoc hd_append)
qed

lemma chain_link:
  assumes c: "chain L h t nx pend" and ab: "pend a b" and p: "\<And>x y. pend' x y \<longleftrightarrow> pend x y \<and> x \<noteq> a"
  shows "chain L h t (nx(a := Some b)) pend'"
proof -
  have d: "distinct L" "adj a b L" "last L = h" using c ab by (auto simp: chain_def)
  then have "a \<noteq> h" using adj_last [of L b] by auto
  moreover have "adj a y L \<Longrightarrow> y = b" for y using adj_right [OF d(1,2)] by blast
  ultimately show ?thesis using c unfolding chain_def p by auto
qed

lemma chain_clear:
  assumes c: "chain L h t nx pend" and n: "n \<notin> set L"
  shows "chain L h t (nx(n := None)) pend"
proof -
  have "adj a b L \<Longrightarrow> a \<noteq> n" for a b using n adj_set by fastforce
  then show ?thesis using c n unfolding chain_def by (auto simp: fun_upd_def)
qed

lemma chain_pop:
  assumes c: "chain L h t nx pend" and n: "nx t = Some n"
  shows "chain (tl L) h n nx pend" "L = t # tl L" "hd (tl L) = n"
proof -
  obtain L' where L: "L = t # L'" using c by (cases L) (auto simp: chain_def)
  have L': "L' \<noteq> []" using c n by (auto simp: chain_def L)
  have d: "distinct (t # L')" using c by (simp add: chain_def L)
  have "adj t (hd L') L" using L' by (cases L') (simp_all add: L)
  then have h: "hd L' = n" using c n unfolding chain_def by fastforce
  have "pend a b \<Longrightarrow> a \<noteq> t" for a b using c n by (auto simp: chain_def)
  then show "chain (tl L) h n nx pend" using c L' h adj_Cons [OF d] unfolding chain_def L by auto
  show "L = t # tl L" "hd (tl L) = n" using L h by simp_all
qed

section \<open>What every interleaving keeps\<close>

definition pending :: "mpsc_sys \<Rightarrow> qnode \<Rightarrow> qnode \<Rightarrow> bool" where
  "pending s a b \<longleftrightarrow> (\<exists>t n. sys_producers s t = P_linking n a \<and> b = Node n) \<or> (\<exists>tail. sys_consumer s = C_linking tail a \<and> b = Stub)"

fun consumer_ok :: "qnode list \<Rightarrow> (qnode \<Rightarrow> qnode option) \<Rightarrow> consumer \<Rightarrow> bool" where
  "consumer_ok L nx (C_reload t) = (hd L = t \<and> t \<noteq> Stub)"
| "consumer_ok L nx (C_loaded t next) = (hd L = t \<and> t \<noteq> Stub \<and> (next = None \<or> nx t = next))"
| "consumer_ok L nx (C_head t) = (hd L = t \<and> t \<noteq> Stub)"
| "consumer_ok L nx (C_clear t) = (hd L = t \<and> t \<noteq> Stub \<and> Stub \<notin> set L)"
| "consumer_ok L nx (C_exchange t) = (hd L = t \<and> t \<noteq> Stub \<and> Stub \<notin> set L \<and> nx Stub = None)"
| "consumer_ok L nx (C_linking t prev) = (hd L = t \<and> t \<noteq> Stub)"
| "consumer_ok L nx (C_last t) = (hd L = t \<and> t \<noteq> Stub)"
| "consumer_ok L nx (C_got t) = (t \<noteq> Stub)"
| "consumer_ok L nx c = True"

definition outside :: "producer \<Rightarrow> nat \<Rightarrow> bool" where
  "outside p n \<longleftrightarrow> p = P_start n \<or> p = P_sized n \<or> p = P_cleared n"

lemma outside_simps [simp]: "outside (P_start m) n = (n = m)" "outside (P_sized m) n = (n = m)" "outside (P_cleared m) n = (n = m)"
  "\<not> outside (P_linking m a) n" "\<not> outside P_idle n"
  by (auto simp: outside_def)

lemma outside_holds: "outside p n \<Longrightarrow> holds p = Some n"
  by (cases p) auto

definition producers_ok :: "qnode list \<Rightarrow> (qnode \<Rightarrow> qnode option) \<Rightarrow> (nat \<Rightarrow> producer) \<Rightarrow> bool" where
  "producers_ok L nx p \<longleftrightarrow> (\<forall>t t' n. holds (p t) = Some n \<longrightarrow> holds (p t') = Some n \<longrightarrow> t = t')
     \<and> (\<forall>t n. outside (p t) n \<longrightarrow> Node n \<notin> set L) \<and> (\<forall>t n. p t = P_cleared n \<longrightarrow> nx (Node n) = None)"

definition queued :: "qnode list \<Rightarrow> nat list" where
  "queued L = concat (map node_id L)"

definition mpsc_inv :: "qnode list \<Rightarrow> mpsc_sys \<Rightarrow> bool" where
  "mpsc_inv L s \<longleftrightarrow> chain L (q_head (sys_queue s)) (q_tail (sys_queue s)) (q_next (sys_queue s)) (pending s)
     \<and> producers_ok L (q_next (sys_queue s)) (sys_producers s) \<and> consumer_ok L (q_next (sys_queue s)) (sys_consumer s)
     \<and> sys_pushed s = sys_popped s @ queued L"

lemma queued_simps [simp]: "queued [] = []" "queued (x # L) = node_id x @ queued L" "queued (L @ L') = queued L @ queued L'"
  "node_id Stub = []" "node_id (Node n) = [n]"
  by (simp_all add: queued_def node_id_def)

lemma set_queued [simp]: "n \<in> set (queued L) \<longleftrightarrow> Node n \<in> set L"
  by (induction L) (auto simp: node_id_def split: qnode.splits)

lemma set_next_simps [simp]: "q_head (set_next n v q) = q_head q" "q_tail (set_next n v q) = q_tail q"
  "q_next (set_next n v q) = (q_next q)(n := v)" "q_size (set_next n v q) = q_size q"
  by (simp_all add: set_next_def)

lemma mpsc_invD:
  assumes "mpsc_inv L s"
  shows "chain L (q_head (sys_queue s)) (q_tail (sys_queue s)) (q_next (sys_queue s)) (pending s)"
    "producers_ok L (q_next (sys_queue s)) (sys_producers s)" "consumer_ok L (q_next (sys_queue s)) (sys_consumer s)"
    "sys_pushed s = sys_popped s @ queued L" "L \<noteq> []" "distinct L" "hd L = q_tail (sys_queue s)" "last L = q_head (sys_queue s)"
    "pending s a b \<Longrightarrow> adj a b L \<and> q_next (sys_queue s) a = None"
  using assms by (simp_all add: mpsc_inv_def chain_def)

lemma holder_unique: "producers_ok L nx p \<Longrightarrow> holds (p t) = Some n \<Longrightarrow> holds (p t') = Some n \<Longrightarrow> t' = t"
  by (auto simp: producers_ok_def)

lemma inv_initial: "mpsc_inv [Stub] mpsc_start"
  by (simp add: mpsc_inv_def mpsc_start_def mpsc_init_def chain_def producers_ok_def pending_def outside_def)

lemma pending_move:
  assumes "\<And>m c. sys_producers s t \<noteq> P_linking m c"
  shows "pending (s\<lparr>sys_producers := (sys_producers s)(t := p)\<rparr>) a b \<longleftrightarrow> pending s a b \<or> (\<exists>n. p = P_linking n a \<and> b = Node n)"
  using assms by (simp add: pending_def) metis

lemma pending_frame [simp]:
  "pending (s\<lparr>sys_queue := q\<rparr>) = pending s" "pending (s\<lparr>sys_pushed := l\<rparr>) = pending s" "pending (s\<lparr>sys_popped := l\<rparr>) = pending s"
  by (simp_all add: pending_def fun_eq_iff)

lemma inv_begin:
  assumes i: "mpsc_inv L s" and t: "sys_producers s t = P_idle" and n: "node_free n s"
  shows "mpsc_inv L (s\<lparr>sys_producers := (sys_producers s)(t := P_start n)\<rparr>)"
proof -
  let ?s = "s\<lparr>sys_producers := (sys_producers s)(t := P_start n)\<rparr>"
  have "pending ?s = pending s" using t by (simp add: pending_move fun_eq_iff)
  moreover have "Node n \<notin> set L" using n mpsc_invD(4) [OF i] by (simp add: node_free_def)
  ultimately show ?thesis
    using mpsc_invD(1-4) [OF i] n by (auto simp: mpsc_inv_def producers_ok_def node_free_def outside_def)
qed

lemma inv_sized:
  assumes i: "mpsc_inv L s" and t: "sys_producers s t = P_start n"
  shows "mpsc_inv L (producer_step t s)"
proof -
  have "producer_step t s = s\<lparr>sys_producers := (sys_producers s)(t := P_sized n), sys_queue := (sys_queue s)\<lparr>q_size := q_size (sys_queue s) + 1\<rparr>\<rparr>"
    by (simp add: producer_step_def t Let_def)
  moreover have "pending (s\<lparr>sys_producers := (sys_producers s)(t := P_sized n)\<rparr>) = pending s" using t by (simp add: pending_move fun_eq_iff)
  moreover have "Node n \<notin> set L" using mpsc_invD(2) [OF i] t by (auto simp: producers_ok_def outside_def)
  ultimately show ?thesis using mpsc_invD(1-4) [OF i] t by (auto simp: mpsc_inv_def producers_ok_def)
qed

lemma inv_cleared:
  assumes i: "mpsc_inv L s" and t: "sys_producers s t = P_sized n"
  shows "mpsc_inv L (producer_step t s)"
proof -
  have st: "producer_step t s = s\<lparr>sys_producers := (sys_producers s)(t := P_cleared n), sys_queue := set_next (Node n) None (sys_queue s)\<rparr>"
    by (simp add: producer_step_def t Let_def)
  have p: "pending (s\<lparr>sys_producers := (sys_producers s)(t := P_cleared n)\<rparr>) = pending s" using t by (simp add: pending_move fun_eq_iff)
  have n: "Node n \<notin> set L" using mpsc_invD(2) [OF i] t by (auto simp: producers_ok_def outside_def)
  have "hd L \<noteq> Node n" using n mpsc_invD(5) [OF i] by (metis hd_in_set)
  then have "consumer_ok L ((q_next (sys_queue s))(Node n := None)) (sys_consumer s)"
    using mpsc_invD(3) [OF i] by (cases "sys_consumer s") auto
  then show ?thesis
    using mpsc_invD(1,2,4) [OF i] t p n chain_clear [OF mpsc_invD(1) [OF i] n] by (auto simp: st mpsc_inv_def producers_ok_def)
qed

lemma consumer_ok_snoc: "consumer_ok L nx c \<Longrightarrow> L \<noteq> [] \<Longrightarrow> consumer_ok (L @ [Node n]) nx c"
  by (cases c) auto

lemma inv_exchanged:
  assumes i: "mpsc_inv L s" and t: "sys_producers s t = P_cleared n"
  shows "mpsc_inv (L @ [Node n]) (producer_step t s)"
proof -
  let ?h = "q_head (sys_queue s)"
  let ?p = "(sys_producers s)(t := P_linking n ?h)"
  have st: "producer_step t s = s\<lparr>sys_producers := ?p, sys_queue := (sys_queue s)\<lparr>q_head := Node n\<rparr>, sys_pushed := sys_pushed s @ [n]\<rparr>"
    by (simp add: producer_step_def t Let_def)
  have p: "pending (s\<lparr>sys_producers := ?p\<rparr>) a b \<longleftrightarrow> pending s a b \<or> a = ?h \<and> b = Node n" for a b
    using t by (auto simp: pending_move)
  have n: "Node n \<notin> set L" "q_next (sys_queue s) (Node n) = None" using mpsc_invD(2) [OF i] t by (auto simp: producers_ok_def outside_def)
  have "t' \<noteq> t \<Longrightarrow> \<not> outside (sys_producers s t') n" for t'
    using holder_unique [OF mpsc_invD(2) [OF i], of t n t'] t outside_holds [of _ n] by fastforce
  then have "producers_ok (L @ [Node n]) (q_next (sys_queue s)) ?p" using mpsc_invD(2) [OF i] t by (auto simp: producers_ok_def)
  then show ?thesis
    using mpsc_invD(4) [OF i] chain_push [OF mpsc_invD(1) [OF i] n p] consumer_ok_snoc [OF mpsc_invD(3,5) [OF i]] by (simp add: st mpsc_inv_def)
qed

lemma consumer_ok_link:
  assumes "consumer_ok L nx c" "nx a = None" "a \<in> set L"
  shows "consumer_ok L (nx(a := Some b)) c"
  using assms by (cases c) auto

lemma producers_ok_link:
  assumes "producers_ok L nx p" "a \<in> set L" "\<And>t n. p t = P_cleared n \<Longrightarrow> Node n \<noteq> a"
  shows "producers_ok L (nx(a := Some b)) p"
  using assms by (auto simp: producers_ok_def)

lemma inv_linked:
  assumes i: "mpsc_inv L s" and t: "sys_producers s t = P_linking n prev"
  shows "mpsc_inv L (producer_step t s)"
proof -
  let ?p = "(sys_producers s)(t := P_idle)"
  have st: "producer_step t s = s\<lparr>sys_producers := ?p, sys_queue := set_next prev (Some (Node n)) (sys_queue s)\<rparr>"
    by (simp add: producer_step_def t Let_def)
  have pn: "pending s prev (Node n)" using t by (auto simp: pending_def)
  have a: "adj prev (Node n) L" "q_next (sys_queue s) prev = None" "prev \<in> set L" using mpsc_invD(9) [OF i pn] adj_set [of prev "Node n" L] by auto
  have "pending (s\<lparr>sys_producers := ?p\<rparr>) x y \<longleftrightarrow> pending s x y \<and> x \<noteq> prev" for x y
  proof -
    have u: "sys_producers s t' = P_linking m prev \<longleftrightarrow> t' = t \<and> m = n" for t' m
    proof
      assume tm: "sys_producers s t' = P_linking m prev"
      then have "pending s prev (Node m)" by (auto simp: pending_def)
      then have "m = n" using mpsc_invD(9) [OF i] adj_right [OF mpsc_invD(6) [OF i] a(1)] by blast
      then show "t' = t \<and> m = n" using holder_unique [OF mpsc_invD(2) [OF i], of t n t'] t tm by simp
    qed (simp add: t)
    have k: "sys_consumer s \<noteq> C_linking tail prev" for tail
      using adj_right [OF mpsc_invD(6) [OF i] a(1), of Stub] mpsc_invD(9) [OF i, of prev Stub] by (auto simp: pending_def)
    have "x \<noteq> prev \<Longrightarrow> sys_producers s t' = P_linking m x \<Longrightarrow> t' \<noteq> t" for t' m using t by auto
    then show ?thesis using u k by (simp add: pending_def) blast
  qed
  note c = chain_link [OF mpsc_invD(1) [OF i] pn this]
  have "outside (?p t') m \<Longrightarrow> outside (sys_producers s t') m" for t' m by (auto simp: outside_def split: if_splits)
  then have "producers_ok L (q_next (sys_queue s)) ?p" using mpsc_invD(2) [OF i] by (auto simp: producers_ok_def)
  moreover have "?p t' = P_cleared m \<Longrightarrow> Node m \<noteq> prev" for t' m
    using mpsc_invD(2) [OF i] a(3) by (auto simp: producers_ok_def outside_def split: if_splits)
  ultimately have "producers_ok L ((q_next (sys_queue s))(prev := Some (Node n))) ?p" using producers_ok_link a(3) by blast
  then show ?thesis using c consumer_ok_link [OF mpsc_invD(3) [OF i] a(2,3)] mpsc_invD(4) [OF i] by (simp add: st mpsc_inv_def)
qed

lemma inv_producer:
  assumes "mpsc_inv L s"
  shows "\<exists>L. mpsc_inv L (producer_step t s)"
proof (cases "sys_producers s t")
  case P_idle
  then show ?thesis using assms by (auto simp: producer_step_def)
qed (use inv_sized inv_cleared inv_exchanged inv_linked assms in blast)+

fun is_linking :: "consumer \<Rightarrow> bool" where
  "is_linking (C_linking tail prev) = True"
| "is_linking c = False"

lemma pending_consumer:
  "\<not> is_linking (sys_consumer s) \<Longrightarrow> pending (s\<lparr>sys_consumer := c\<rparr>) a b \<longleftrightarrow> pending s a b \<or> (\<exists>tail. c = C_linking tail a \<and> b = Stub)"
  by (auto simp: pending_def)

lemma pending_quiet: "\<not> is_linking (sys_consumer s) \<Longrightarrow> \<not> is_linking c \<Longrightarrow> pending (s\<lparr>sys_consumer := c\<rparr>) = pending s"
  by (auto simp: fun_eq_iff pending_consumer)

lemma producers_ok_tl: "producers_ok L nx p \<Longrightarrow> producers_ok (tl L) nx p"
  by (cases L) (auto simp: producers_ok_def)

lemma inv_quiet:
  assumes "mpsc_inv L s" "\<not> is_linking (sys_consumer s)" "\<not> is_linking c" "consumer_ok L (q_next (sys_queue s)) c"
    "q_head q = q_head (sys_queue s)" "q_tail q = q_tail (sys_queue s)" "q_next q = q_next (sys_queue s)"
  shows "mpsc_inv L (s\<lparr>sys_consumer := c, sys_queue := q\<rparr>)"
  using assms by (simp add: mpsc_inv_def pending_quiet)

lemma inv_moved:
  assumes "mpsc_inv L s" "\<not> is_linking (sys_consumer s)" "\<not> is_linking c" "consumer_ok L (q_next (sys_queue s)) c"
  shows "mpsc_inv L (s\<lparr>sys_consumer := c\<rparr>)"
  using inv_quiet [OF assms, of "sys_queue s"] by simp

lemma inv_advance:
  assumes i: "mpsc_inv L s" and c: "\<not> is_linking (sys_consumer s)" "\<not> is_linking c"
    and n: "q_next (sys_queue s) (q_tail (sys_queue s)) = Some n" and ok: "consumer_ok (tl L) (q_next (sys_queue s)) c"
  shows "mpsc_inv (tl L) (s\<lparr>sys_consumer := c, sys_queue := (sys_queue s)\<lparr>q_tail := n\<rparr>, sys_popped := sys_popped s @ node_id (q_tail (sys_queue s))\<rparr>)"
proof -
  note p = chain_pop [OF mpsc_invD(1) [OF i] n]
  have "sys_pushed s = (sys_popped s @ node_id (q_tail (sys_queue s))) @ queued (tl L)"
    using mpsc_invD(4) [OF i] by (subst (asm) p(2)) simp
  then show ?thesis using p(1) c ok producers_ok_tl [OF mpsc_invD(2) [OF i]] by (simp add: mpsc_inv_def pending_quiet)
qed

lemma inv_stub_passed:
  assumes i: "mpsc_inv L s" and c: "sys_consumer s = C_idle" and t: "q_tail (sys_queue s) = Stub" "q_next (sys_queue s) Stub = Some n"
  shows "mpsc_inv (tl L) (s\<lparr>sys_consumer := C_reload n, sys_queue := (sys_queue s)\<lparr>q_tail := n\<rparr>\<rparr>)"
proof -
  have n: "q_next (sys_queue s) (q_tail (sys_queue s)) = Some n" using t by simp
  note p = chain_pop [OF mpsc_invD(1) [OF i] n]
  have "Stub \<notin> set (tl L)" "tl L \<noteq> []" using mpsc_invD(6) [OF i] p(1,2) t(1) by (auto simp: chain_def) (metis distinct.simps(2))
  then have "n \<noteq> Stub" using p(3) by (metis hd_in_set)
  then have "mpsc_inv (tl L) (s\<lparr>sys_consumer := C_reload n, sys_queue := (sys_queue s)\<lparr>q_tail := n\<rparr>, sys_popped := sys_popped s @ node_id (q_tail (sys_queue s))\<rparr>)"
    using inv_advance [OF i _ _ n, of "C_reload n"] c p(3) by simp
  then show ?thesis by (simp add: t mpsc_inv_def pending_def)
qed

lemma inv_stub_exchanged:
  assumes i: "mpsc_inv L s" and c: "sys_consumer s = C_exchange tail"
  shows "mpsc_inv (L @ [Stub]) (s\<lparr>sys_consumer := C_linking tail (q_head (sys_queue s)), sys_queue := (sys_queue s)\<lparr>q_head := Stub\<rparr>\<rparr>)"
proof -
  let ?h = "q_head (sys_queue s)"
  have o: "hd L = tail" "tail \<noteq> Stub" "Stub \<notin> set L" "q_next (sys_queue s) Stub = None" using mpsc_invD(3) [OF i] c by auto
  have "pending (s\<lparr>sys_consumer := C_linking tail ?h\<rparr>) a b \<longleftrightarrow> pending s a b \<or> a = ?h \<and> b = Stub" for a b
    using c by (auto simp: pending_consumer)
  from chain_push [OF mpsc_invD(1) [OF i] o(3,4) this]
  show ?thesis using mpsc_invD(2,4,5) [OF i] o by (auto simp: mpsc_inv_def producers_ok_def)
qed

lemma inv_stub_linked:
  assumes i: "mpsc_inv L s" and c: "sys_consumer s = C_linking tail prev"
  shows "mpsc_inv L (s\<lparr>sys_consumer := C_last tail, sys_queue := set_next prev (Some Stub) (sys_queue s)\<rparr>)"
proof -
  have ps: "pending s prev Stub" using c by (auto simp: pending_def)
  have a: "adj prev Stub L" "prev \<in> set L" "q_next (sys_queue s) prev = None" using mpsc_invD(9) [OF i ps] adj_set [of prev Stub L] by auto
  have k: "sys_producers s t \<noteq> P_linking n prev" for t n
    using adj_right [OF mpsc_invD(6) [OF i] a(1), of "Node n"] mpsc_invD(9) [OF i, of prev "Node n"] by (auto simp: pending_def)
  have "pending (s\<lparr>sys_consumer := C_last tail\<rparr>) x y \<longleftrightarrow> pending s x y \<and> x \<noteq> prev" for x y
    using c k by (auto simp: pending_def)
  note ch = chain_link [OF mpsc_invD(1) [OF i] ps this]
  have "sys_producers s t = P_cleared m \<Longrightarrow> Node m \<noteq> prev" for t m
    using mpsc_invD(2) [OF i] a(2) by (auto simp: producers_ok_def outside_def)
  then have "producers_ok L ((q_next (sys_queue s))(prev := Some Stub)) (sys_producers s)"
    using producers_ok_link mpsc_invD(2) [OF i] a(2) by blast
  then show ?thesis using ch mpsc_invD(3,4) [OF i] c by (simp add: mpsc_inv_def)
qed

lemma inv_taken:
  assumes i: "mpsc_inv L s" and c: "\<not> is_linking (sys_consumer s)" and t: "hd L = tail" "tail \<noteq> Stub" "q_next (sys_queue s) tail = Some n"
  shows "mpsc_inv (tl L) (take_tail tail n s)"
proof -
  have "q_tail (sys_queue s) = tail" using mpsc_invD(7) [OF i] t(1) by simp
  then show ?thesis using inv_advance [OF i c, of "C_got tail" n] t by (simp add: take_tail_def)
qed

lemma inv_stub_cleared:
  assumes i: "mpsc_inv L s" and c: "sys_consumer s = C_clear tail"
  shows "mpsc_inv L (s\<lparr>sys_consumer := C_exchange tail, sys_queue := set_next Stub None (sys_queue s)\<rparr>)"
proof -
  have o: "hd L = tail" "tail \<noteq> Stub" "Stub \<notin> set L" using mpsc_invD(3) [OF i] c by auto
  then show ?thesis
    using chain_clear [OF mpsc_invD(1) [OF i] o(3)] mpsc_invD(2,4) [OF i] c by (auto simp: mpsc_inv_def producers_ok_def pending_quiet)
qed

lemma inv_consumer:
  assumes i: "mpsc_inv L s"
  shows "\<exists>L. mpsc_inv L (consumer_step s)"
proof (cases "sys_consumer s")
  case C_idle
  show ?thesis
  proof (cases "\<exists>n. q_tail (sys_queue s) = Stub \<and> q_next (sys_queue s) Stub = Some n")
    case True
    then show ?thesis using C_idle inv_stub_passed [OF i] by (auto simp: consumer_step_def Let_def)
  next
    case False
    then show ?thesis
      using C_idle mpsc_invD(7) [OF i] inv_moved [OF i] by (intro exI [of _ L]) (auto simp: consumer_step_def Let_def split: option.splits)
  qed
next
  case (C_reload tail)
  then show ?thesis using inv_moved [OF i] mpsc_invD(3) [OF i] by (intro exI [of _ L]) (auto simp: consumer_step_def Let_def)
next
  case (C_loaded tail nx)
  then show ?thesis
    using inv_moved [OF i] inv_taken [OF i] mpsc_invD(3) [OF i]
    by (cases nx; intro exI [of _ "if nx = None then L else tl L"]) (auto simp: consumer_step_def Let_def)
next
  case (C_head tail)
  have "tail = q_head (sys_queue s) \<Longrightarrow> L = [tail]" using mpsc_invD(5-8) [OF i] mpsc_invD(3) [OF i] C_head by (cases L) (auto split: if_splits, metis last_in_set)
  then show ?thesis using C_head inv_moved [OF i] mpsc_invD(3) [OF i] by (intro exI [of _ L]) (auto simp: consumer_step_def Let_def)
next
  case (C_clear tail)
  then show ?thesis using inv_stub_cleared [OF i] by (auto simp: consumer_step_def Let_def)
next
  case (C_exchange tail)
  then show ?thesis using inv_stub_exchanged [OF i] by (auto simp: consumer_step_def Let_def)
next
  case (C_linking tail prev)
  then show ?thesis using inv_stub_linked [OF i] by (auto simp: consumer_step_def Let_def)
next
  case (C_last tail)
  then show ?thesis
    using inv_moved [OF i] inv_taken [OF i] mpsc_invD(3) [OF i]
    by (cases "q_next (sys_queue s) tail"; intro exI [of _ "if q_next (sys_queue s) tail = None then L else tl L"]) (auto simp: consumer_step_def Let_def)
next
  case (C_got n)
  then show ?thesis using inv_quiet [OF i, where c = C_idle] by (intro exI [of _ L]) (auto simp: consumer_step_def Let_def)
next
  case C_end
  then show ?thesis using inv_moved [OF i] by (intro exI [of _ L]) (auto simp: consumer_step_def Let_def)
qed

lemma reach_inv: "mpsc_reach s \<Longrightarrow> \<exists>L. mpsc_inv L s"
  by (induction rule: mpsc_reach.induct) (use inv_initial inv_begin inv_producer inv_consumer in blast)+

section \<open>The count\<close>

definition counted :: "mpsc_sys \<Rightarrow> nat set" where
  "counted s = {t. \<exists>n. sys_producers s t = P_sized n \<or> sys_producers s t = P_cleared n}"

fun uncounted_pop :: "consumer \<Rightarrow> nat" where
  "uncounted_pop (C_got n) = 1"
| "uncounted_pop c = 0"

definition size_ok :: "mpsc_sys \<Rightarrow> bool" where
  "size_ok s \<longleftrightarrow> finite (counted s)
     \<and> q_size (sys_queue s) + of_nat (length (sys_popped s)) = of_nat (length (sys_pushed s) + card (counted s) + uncounted_pop (sys_consumer s))"

lemma counted_upd:
  "counted (s\<lparr>sys_producers := (sys_producers s)(t := p)\<rparr>) = (if \<exists>n. p = P_sized n \<or> p = P_cleared n then insert t (counted s) else counted s - {t})"
  by (auto simp: counted_def)

lemma counted_frame [simp]: "counted (s\<lparr>sys_queue := q\<rparr>) = counted s" "counted (s\<lparr>sys_pushed := l\<rparr>) = counted s"
  "counted (s\<lparr>sys_popped := l\<rparr>) = counted s" "counted (s\<lparr>sys_consumer := c\<rparr>) = counted s"
  by (simp_all add: counted_def)

lemma size_producer:
  assumes "size_ok s"
  shows "size_ok (producer_step t s)"
proof -
  have f: "finite (counted s)" using assms by (simp add: size_ok_def)
  show ?thesis
  proof (cases "sys_producers s t")
    case (P_cleared n)
    then have "t \<in> counted s" by (simp add: counted_def)
    then obtain k where "card (counted s) = Suc k" "card (counted s - {t}) = k" using f card.remove [of "counted s" t] by blast
    then show ?thesis using assms P_cleared by (simp add: producer_step_def Let_def size_ok_def counted_upd algebra_simps)
  next
    case (P_sized n)
    then have "insert t (counted s) = counted s" by (auto simp: counted_def)
    then show ?thesis using assms P_sized by (simp add: producer_step_def Let_def size_ok_def counted_upd)
  next
    case (P_start n)
    then have "t \<notin> counted s" by (simp add: counted_def)
    then show ?thesis using assms P_start by (simp add: producer_step_def Let_def size_ok_def counted_upd algebra_simps)
  next
    case (P_linking n prev)
    then have "counted s - {t} = counted s" by (auto simp: counted_def)
    then show ?thesis using assms P_linking by (simp add: producer_step_def Let_def size_ok_def counted_upd)
  qed (use assms in \<open>simp add: producer_step_def\<close>)
qed

lemma size_consumer:
  assumes s: "size_ok s" and i: "mpsc_inv L s"
  shows "size_ok (consumer_step s)"
proof -
  have "length (node_id tail) = 1" if "tail \<noteq> Stub" for tail using that by (simp add: node_id_def split: qnode.splits)
  then show ?thesis
    using s mpsc_invD(3) [OF i] by (cases "sys_consumer s") (auto simp: consumer_step_def Let_def take_tail_def size_ok_def algebra_simps split: option.splits)
qed

lemma reach_size: "mpsc_reach s \<Longrightarrow> size_ok s"
proof (induction rule: mpsc_reach.induct)
  case initial
  then show ?case by (simp add: size_ok_def mpsc_start_def mpsc_init_def counted_def)
next
  case (begin_push s t n)
  then have "t \<notin> counted s" by (simp add: counted_def)
  with begin_push show ?case by (simp add: size_ok_def counted_upd)
next
  case (produce s t)
  then show ?case using size_producer by blast
next
  case (consume s)
  then show ?case using size_consumer reach_inv by blast
qed

section \<open>When nobody interferes\<close>

text \<open>The functions are the steps, taken in a row.\<close>

lemma push_is_steps:
  assumes "sys_producers s t = P_start n"
  shows "sys_queue ((producer_step t ^^ 4) s) = snd (mpsc_push n (sys_queue s)) \<and> sys_producers ((producer_step t ^^ 4) s) t = P_idle"
  using assms by (simp add: eval_nat_numeral producer_step_def Let_def mpsc_push_def push_base_def set_next_def)

lemma pop_tail_is_steps:
  assumes "sys_consumer s = C_loaded tail next" "pop_tail tail next (sys_queue s) = ((n, e), q)"
  shows "\<exists>k. sys_queue ((consumer_step ^^ k) s) = count_pop n q \<and> sys_consumer ((consumer_step ^^ k) s) = C_idle \<and> \<not> e"
proof -
  note defs = consumer_step_def Let_def take_tail_def count_pop_def pop_tail_def push_base_def set_next_def
  consider (there) m where "next = Some m" | (adding) "next = None" "tail \<noteq> q_head (sys_queue s)" | (alone) "next = None" "tail = q_head (sys_queue s)"
    by (cases "next") auto
  then show ?thesis
  proof cases
    case there
    then show ?thesis using assms by (intro exI [of _ 2]) (auto simp: eval_nat_numeral defs)
  next
    case adding
    then show ?thesis using assms by (intro exI [of _ 2]) (auto simp: eval_nat_numeral defs)
  next
    case alone
    then show ?thesis using assms by (intro exI [of _ 7]) (auto simp: eval_nat_numeral defs)
  qed
qed

lemma pop_is_steps:
  assumes c: "sys_consumer s = C_idle" and r: "pop_and_check_end (sys_queue s) = ((n, e), q)"
  shows "\<exists>k. sys_queue ((consumer_step ^^ k) s) = q \<and> sys_consumer ((consumer_step ^^ k) s) = (if e then C_end else C_idle)"
proof -
  let ?q = "sys_queue s" and ?t = "q_tail (sys_queue s)"
  have run: ?thesis if l: "sys_consumer s1 = C_loaded tail next" and s1: "s1 = (consumer_step ^^ j) s"
      and b: "pop_and_check_end_base ?q = pop_tail tail next (sys_queue s1)" for s1 j tail "next"
  proof -
    obtain q1 where q1: "pop_tail tail next (sys_queue s1) = ((n, e), q1)" "q = count_pop n q1"
      using r b by (auto simp: pop_and_check_end_def split: prod.splits)
    obtain k where "sys_queue ((consumer_step ^^ k) s1) = count_pop n q1" "sys_consumer ((consumer_step ^^ k) s1) = C_idle" "\<not> e"
      using pop_tail_is_steps [OF l q1(1)] by blast
    then show ?thesis using q1(2) by (intro exI [of _ "k + j"]) (simp add: funpow_add s1)
  qed
  consider (stub_end) "?t = Stub" "q_next ?q Stub = None" | (stub) m where "?t = Stub" "q_next ?q Stub = Some m" | (node) "?t \<noteq> Stub"
    by (cases "q_next ?q Stub") auto
  then show ?thesis
  proof cases
    case stub_end
    then show ?thesis using c r by (intro exI [of _ 1]) (auto simp: consumer_step_def Let_def pop_and_check_end_def pop_and_check_end_base_def count_pop_def)
  next
    case stub
    then show ?thesis
      using c by (intro run [where j = 2, OF _ refl]) (auto simp: eval_nat_numeral consumer_step_def Let_def pop_and_check_end_base_def)
  next
    case node
    then show ?thesis
      using c by (intro run [where j = 1, OF _ refl]) (auto simp: consumer_step_def Let_def pop_and_check_end_base_def)
  qed
qed

definition at_rest :: "qnode list \<Rightarrow> mpsc_queue \<Rightarrow> bool" where
  "at_rest L q \<longleftrightarrow> chain L (q_head q) (q_tail q) (q_next q) (\<lambda>_ _. False)"

lemma at_rest_push:
  assumes "at_rest L q" "Node n \<notin> set L"
  shows "at_rest (L @ [Node n]) (snd (mpsc_push n q))"
proof -
  let ?nx = "(q_next q)(Node n := None)"
  have "chain L (q_head q) (q_tail q) ?nx (\<lambda>_ _. False)" using chain_clear assms by (simp add: at_rest_def)
  from chain_push [OF this assms(2), of "\<lambda>a b. a = q_head q \<and> b = Node n"]
  have "chain (L @ [Node n]) (Node n) (q_tail q) ?nx (\<lambda>a b. a = q_head q \<and> b = Node n)" by simp
  from chain_link [OF this, of "q_head q" "Node n" "\<lambda>_ _. False"]
  show ?thesis by (simp add: at_rest_def mpsc_push_def push_base_def Let_def)
qed

lemma pop_tail_at_rest:
  assumes r: "at_rest (b # L) q" and b: "b \<noteq> Stub"
  shows "\<exists>q' L'. pop_tail b (q_next q b) q = ((Some b, False), q') \<and> at_rest L' q' \<and> queued L' = queued L"
proof (cases L)
  case Nil
  then have q: "q_head q = b" "q_next q b = None" using r by (auto simp: at_rest_def chain_def)
  let ?q = "(snd (push_base Stub q))\<lparr>q_tail := Stub\<rparr>"
  have "pop_tail b (q_next q b) q = ((Some b, False), ?q)" using q b by (simp add: pop_tail_def push_base_def Let_def)
  moreover have "at_rest [Stub] ?q" using q b by (simp add: at_rest_def chain_def push_base_def Let_def)
  ultimately show ?thesis using Nil by (intro exI [of _ ?q] exI [of _ "[Stub]"]) simp
next
  case (Cons c L')
  then have n: "q_next q (q_tail q) = Some c" "q_tail q = b" using r by (auto simp: at_rest_def chain_def)
  have "at_rest L (q\<lparr>q_tail := c\<rparr>)" using chain_pop(1) [OF r [unfolded at_rest_def] n(1)] by (simp add: at_rest_def)
  then show ?thesis using n by (intro exI [of _ "q\<lparr>q_tail := c\<rparr>"] exI [of _ L]) (simp add: pop_tail_def)
qed

lemma pop_at_rest:
  assumes r: "at_rest L q"
  shows "\<exists>q' L'. mpsc_pop q = Some (case queued L of [] \<Rightarrow> None | n # _ \<Rightarrow> Some (Node n), q') \<and> at_rest L' q' \<and> queued L' = tl (queued L)"
proof -
  obtain t L1 where L: "L = t # L1" using r by (cases L) (auto simp: at_rest_def chain_def)
  have t: "q_tail q = t" using r by (simp add: at_rest_def chain_def L)
  have taken: "\<exists>q' L'. mpsc_pop q = Some (Some (Node n), q') \<and> at_rest L' q' \<and> queued L' = queued L2"
    if b: "pop_and_check_end_base q = pop_tail (Node n) (q_next q1 (Node n)) q1" and r1: "at_rest (Node n # L2) q1" for n q1 L2
  proof -
    obtain q' L' where "pop_tail (Node n) (q_next q1 (Node n)) q1 = ((Some (Node n), False), q')" "at_rest L' q'" "queued L' = queued L2"
      using pop_tail_at_rest [OF r1] by auto
    then show ?thesis using b by (subst mpsc_pop.simps) (auto simp: at_rest_def count_pop_def)
  qed
  show ?thesis
  proof (cases t)
    case (Node n)
    then show ?thesis using taken [of n q L1] r L t by (auto simp: pop_and_check_end_base_def Let_def)
  next
    case Stub
    show ?thesis
    proof (cases L1)
      case Nil
      then have "q_next q Stub = None" using r Stub by (auto simp: at_rest_def chain_def L)
      then have "mpsc_pop q = Some (None, q)" using t Stub by (subst mpsc_pop.simps) (simp add: pop_and_check_end_base_def count_pop_def)
      then show ?thesis using r L Stub Nil by auto
    next
      case (Cons c L2)
      then have n: "q_next q (q_tail q) = Some c" "q_next q Stub = Some c" and "c \<noteq> Stub" using r Stub L t by (auto simp: at_rest_def chain_def)
      then obtain k where k: "c = Node k" by (cases c) auto
      have "at_rest (c # L2) (q\<lparr>q_tail := c\<rparr>)" using chain_pop(1) [OF r [unfolded at_rest_def] n(1)] by (simp add: at_rest_def L Cons)
      then show ?thesis using taken [of k "q\<lparr>q_tail := c\<rparr>" L2] n t L Stub Cons k by (auto simp: pop_and_check_end_base_def Let_def)
    qed
  qed
qed

section \<open>Properties\<close>

text \<open>C5: Whatever the interleaving of producers and consumer at the level of single memory accesses, the nodes come out in the order in which the producers exchanged the
  head, none is lost or given out twice, and no producer has a store to a node that has been given out (which its owner may
  have freed).  When nobody is inside an operation, the size is the number of nodes, and \<open>pop\<close> returns the oldest one, or null when
  there is none, without spinning.\<close>

theorem mpsc_queue_fifo:
  assumes "mpsc_reach s"
  shows "\<exists>rest. sys_pushed s = sys_popped s @ rest \<and> distinct rest
     \<and> (\<forall>t n prev. sys_producers s t = P_linking n prev \<longrightarrow> prev = Stub \<or> (\<exists>m. prev = Node m \<and> m \<in> set rest))
     \<and> ((\<forall>t. sys_producers s t = P_idle) \<and> sys_consumer s = C_idle \<longrightarrow> q_size (sys_queue s) = of_nat (length rest)
         \<and> (\<exists>q'. mpsc_pop (sys_queue s) = Some (case rest of [] \<Rightarrow> None | n # _ \<Rightarrow> Some (Node n), q')))"
proof -
  obtain L where i: "mpsc_inv L s" using reach_inv [OF assms] by blast
  have "distinct L \<Longrightarrow> distinct (queued L)" for L by (induction L) (auto simp: node_id_def split: qnode.splits)
  then have d: "distinct (queued L)" using mpsc_invD(6) [OF i] .
  have w: "prev = Stub \<or> (\<exists>m. prev = Node m \<and> m \<in> set (queued L))" if "sys_producers s t = P_linking n prev" for t n prev
  proof -
    have "pending s prev (Node n)" using that by (auto simp: pending_def)
    then have "prev \<in> set L" using mpsc_invD(9) [OF i] adj_set by fast
    then show ?thesis by (metis qnode.exhaust set_queued)
  qed
  have "q_size (sys_queue s) = of_nat (length (queued L)) \<and> (\<exists>q'. mpsc_pop (sys_queue s) = Some (case queued L of [] \<Rightarrow> None | n # _ \<Rightarrow> Some (Node n), q'))"
    if q: "(\<forall>t. sys_producers s t = P_idle) \<and> sys_consumer s = C_idle"
  proof -
    have "pending s = (\<lambda>_ _. False)" "counted s = {}" using q by (auto simp: pending_def counted_def fun_eq_iff)
    then have "at_rest L (sys_queue s)" "q_size (sys_queue s) = of_nat (length (queued L))"
      using mpsc_invD(1,4) [OF i] reach_size [OF assms] q by (simp_all add: at_rest_def size_ok_def algebra_simps)
    then show ?thesis using pop_at_rest [of L "sys_queue s"] by auto
  qed
  then show ?thesis using d w mpsc_invD(4) [OF i] by (intro exI [of _ "queued L"]) blast
qed

text \<open>One thread has pushed node 7.\<close>

definition sample_sys :: mpsc_sys where
  "sample_sys = (producer_step 1 ^^ 4) (mpsc_start\<lparr>sys_producers := (\<lambda>_. P_idle)(1 := P_start 7)\<rparr>)"

lemma reach_steps: "mpsc_reach s \<Longrightarrow> mpsc_reach ((producer_step t ^^ k) s)"
  by (induction k) (simp_all add: mpsc_reach.produce)

lemma reach_begin_first: "mpsc_reach (mpsc_start\<lparr>sys_producers := (\<lambda>_. P_idle)(t := P_start n)\<rparr>)"
  using mpsc_reach.begin_push [OF mpsc_reach.initial, of t n] by (simp add: mpsc_start_def node_free_def)

theorem mpsc_queue_fifo_witness: "\<exists>q'. mpsc_pop (sys_queue sample_sys) = Some (Some (Node 7), q')"
proof -
  have r: "mpsc_reach sample_sys" unfolding sample_sys_def by (intro reach_steps reach_begin_first)
  have s: "sys_pushed sample_sys = [7]" "sys_popped sample_sys = []" "\<forall>t. sys_producers sample_sys t = P_idle" "sys_consumer sample_sys = C_idle"
    by (simp_all add: sample_sys_def eval_nat_numeral producer_step_def Let_def mpsc_start_def)
  show ?thesis using mpsc_queue_fifo [OF r] s by simp
qed

text \<open>The comment on \<open>pop\<close> says that it returns null only if the queue was empty at some point during the call.  A producer that has
  exchanged the head and not yet stored its link hides the nodes of all later producers: \<open>pop\<close> returns null although
  the push of another node is complete.\<close>

theorem mpsc_end_reported_early:
  "\<exists>s. mpsc_reach s \<and> sys_pushed s = [7, 8] \<and> sys_popped s = [] \<and> sys_producers s 2 = P_idle \<and> sys_consumer s = C_idle
     \<and> sys_consumer (consumer_step s) = C_end"
proof -
  let ?a = "(producer_step 1 ^^ 3) (mpsc_start\<lparr>sys_producers := (\<lambda>_. P_idle)(1 := P_start 7)\<rparr>)"
  let ?b = "?a\<lparr>sys_producers := (sys_producers ?a)(2 := P_start 8)\<rparr>"
  let ?s = "(producer_step 2 ^^ 4) ?b"
  note defs = eval_nat_numeral producer_step_def Let_def mpsc_start_def mpsc_init_def
  have a: "mpsc_reach ?a" by (intro reach_steps reach_begin_first)
  have "sys_producers ?a 2 = P_idle" "node_free 8 ?a" by (simp_all add: node_free_def defs)
  then have "mpsc_reach ?s" using mpsc_reach.begin_push [OF a] by (intro reach_steps) blast
  moreover have "sys_pushed ?s = [7, 8]" "sys_popped ?s = []" "sys_producers ?s 2 = P_idle" "sys_consumer ?s = C_idle"
    "sys_consumer (consumer_step ?s) = C_end"
    by (simp_all add: defs consumer_step_def)
  ultimately show ?thesis by blast
qed

end
