(* ===== verification/Db_Proxy.thy ===== *)
theory Db_Proxy
  imports Prelude
begin

text \<open>
  The database service (\<open>gobang/db_proxy/db_proxy.cpp\<close>).  MongoDB is a parameter, the record \<open>mongo\<close> of the operations the code calls, over a
  database of any type; a flag \<open>False\<close> or the value \<open>None\<close> is an exception of the driver.  The updates run on threads of the pool while the
  scheduler goes on, so they are a state machine: the part before the post, one step per entry that the pool thread reads under its
  lock, the bulk write, and the part after.  Users and accounts are updated by the same code; \<open>'v\<close> is the pair that is stored.
  The iterators into \<open>user_infos_\<close> that the code keeps while it waits are keys here: the model assumes that no insertion rehashes the table meanwhile (which would
  invalidate them; entries are erased only by the update that inserted them).
\<close>

section \<open>The database\<close>

record user_doc =
  ud_userid :: int
  ud_win_count :: int
  ud_lose_count :: int
  ud_is_ai :: bool

record account_doc =
  ad_userid :: int
  ad_account :: "byte list"
  ad_password :: "byte list"

record 'd mongo =
  insert_user :: "user_doc \<Rightarrow> 'd \<Rightarrow> bool \<times> 'd"
  insert_account :: "account_doc \<Rightarrow> 'd \<Rightarrow> bool \<times> 'd"
  insert_ai :: "int \<Rightarrow> 'd \<Rightarrow> bool \<times> 'd"
  find_user :: "int \<Rightarrow> 'd \<Rightarrow> user_doc option option"
  find_account_userid :: "int \<Rightarrow> 'd \<Rightarrow> account_doc option option"
  find_account_name :: "byte list \<Rightarrow> 'd \<Rightarrow> account_doc option option"
  find_max_account :: "'d \<Rightarrow> account_doc option option"
  find_ais :: "'d \<Rightarrow> bool \<times> int list"

datatype db_ec = Db_success | Db_system | Db_no_data

section \<open>Requests\<close>

record s_db_create_user_req =
  cu_userid :: int
  cu_account :: "byte list"
  cu_password :: "byte list"
  cu_win_count :: int
  cu_lose_count :: int
  cu_is_ai :: bool

text \<open>What the thread of the pool does for \<open>create_user\<close>; it stops at the first insertion that throws.\<close>

definition create_user_task :: "'d mongo \<Rightarrow> s_db_create_user_req \<Rightarrow> 'd \<Rightarrow> bool \<times> 'd" where
  "create_user_task M req d =
     (case insert_user M \<lparr>ud_userid = cu_userid req, ud_win_count = cu_win_count req, ud_lose_count = cu_lose_count req, ud_is_ai = cu_is_ai req\<rparr> d of
        (False, d) \<Rightarrow> (False, d)
      | (True, d) \<Rightarrow>
          (case insert_account M \<lparr>ad_userid = cu_userid req, ad_account = cu_account req, ad_password = cu_password req\<rparr> d of
             (False, d) \<Rightarrow> (False, d)
           | (True, d) \<Rightarrow> if cu_is_ai req then insert_ai M (cu_userid req) d else (True, d)))"

definition create_user :: "'d mongo \<Rightarrow> (byte list \<Rightarrow> s_db_create_user_req option) \<Rightarrow> byte list \<Rightarrow> 'd \<Rightarrow> db_ec \<times> 'd" where
  "create_user M parse buffer d =
     (case parse buffer of None \<Rightarrow> (Db_system, d)
      | Some req \<Rightarrow> (case create_user_task M req d of (ok, d) \<Rightarrow> (if ok then Db_success else Db_system, d)))"

record s_db_query_user_ack =
  qu_ec :: db_ec
  qu_userid :: int
  qu_win_count :: int
  qu_lose_count :: int
  qu_is_ai :: bool

definition query_user_ack :: s_db_query_user_ack where
  "query_user_ack = \<lparr>qu_ec = Db_success, qu_userid = 0, qu_win_count = 0, qu_lose_count = 0, qu_is_ai = False\<rparr>"

text \<open>The thread fills the answer or throws; afterwards the coroutine sets the result.\<close>

definition query_user_task :: "'d mongo \<Rightarrow> int \<Rightarrow> 'd \<Rightarrow> s_db_query_user_ack \<Rightarrow> bool \<times> s_db_query_user_ack" where
  "query_user_task M userid d ack = (case find_user M userid d of
     None \<Rightarrow> (False, ack)
   | Some None \<Rightarrow> (True, ack\<lparr>qu_ec := Db_no_data\<rparr>)
   | Some (Some doc) \<Rightarrow> (True, ack\<lparr>qu_userid := userid, qu_is_ai := (ud_userid doc \<noteq> 0), qu_win_count := ud_win_count doc,
       qu_lose_count := ud_lose_count doc\<rparr>))"

definition query_user :: "'d mongo \<Rightarrow> (byte list \<Rightarrow> int option) \<Rightarrow> byte list \<Rightarrow> 'd \<Rightarrow> s_db_query_user_ack" where
  "query_user M parse buffer d =
     (case parse buffer of None \<Rightarrow> query_user_ack\<lparr>qu_ec := Db_system\<rparr>
      | Some userid \<Rightarrow> (case query_user_task M userid d query_user_ack of (ok, ack) \<Rightarrow> ack\<lparr>qu_ec := if ok then Db_success else Db_system\<rparr>))"

record s_db_query_account_ack =
  qa_ec :: db_ec
  qa_account :: "byte list"
  qa_userid :: int
  qa_password :: "byte list"

definition query_account_ack :: s_db_query_account_ack where
  "query_account_ack = \<lparr>qa_ec = Db_success, qa_account = [], qa_userid = 0, qa_password = []\<rparr>"

definition query_account_task :: "'d mongo \<Rightarrow> int \<Rightarrow> byte list \<Rightarrow> 'd \<Rightarrow> s_db_query_account_ack \<Rightarrow> bool \<times> s_db_query_account_ack" where
  "query_account_task M userid account d ack =
     (case (if account = [] then find_account_userid M userid d else find_account_name M account d) of
        None \<Rightarrow> (False, ack)
      | Some None \<Rightarrow> (True, ack\<lparr>qa_ec := Db_no_data\<rparr>)
      | Some (Some doc) \<Rightarrow> (True, ack\<lparr>qa_userid := ad_userid doc, qa_account := ad_account doc, qa_password := ad_password doc\<rparr>))"

definition query_account :: "'d mongo \<Rightarrow> (byte list \<Rightarrow> (int \<times> byte list) option) \<Rightarrow> byte list \<Rightarrow> 'd \<Rightarrow> s_db_query_account_ack" where
  "query_account M parse buffer d =
     (case parse buffer of None \<Rightarrow> query_account_ack\<lparr>qa_ec := Db_system\<rparr>
      | Some (userid, account) \<Rightarrow>
          (case query_account_task M userid account d query_account_ack of (ok, ack) \<Rightarrow> ack\<lparr>qa_ec := if ok then Db_success else Db_system\<rparr>))"

definition query_max_userid :: "'d mongo \<Rightarrow> 'd \<Rightarrow> db_ec \<times> int" where
  "query_max_userid M d = (case find_max_account M d of
     None \<Rightarrow> (Db_system, 0) | Some None \<Rightarrow> (Db_success, 0) | Some (Some doc) \<Rightarrow> (Db_success, ad_userid doc))"

text \<open>An exception while the cursor is read leaves the entries read before it in the answer.\<close>

definition query_ai :: "'d mongo \<Rightarrow> 'd \<Rightarrow> db_ec \<times> int list" where
  "query_ai M d = (case find_ais M d of (ok, ais) \<Rightarrow> (if ok then Db_success else Db_system, ais))"

section \<open>Updates\<close>

record 'v info_msg =
  im_userid :: int
  im_version :: u32
  im_value :: 'v

record 'v cache_info =
  ci_version :: u16
  ci_value :: 'v

text \<open>A running update: who asked, the entries it owns, those the thread has still to read and what it has read; then what it will report.\<close>

datatype 'v update_job = Reading u16 "int list" "int list" "(int \<times> u16 \<times> 'v) list" | Written u16 "int list" "(int \<times> u16) list"

text \<open>\<open>db_received\<close> logs all updates that have arrived.\<close>

record ('d, 'v) db_sys =
  db_data :: 'd
  db_infos :: "int \<Rightarrow> 'v cache_info option"
  db_jobs :: "nat \<Rightarrow> 'v update_job option"
  db_acks :: "(u16 \<times> (int \<times> u16) list) list"
  db_received :: "(int \<times> u16 \<times> 'v) set"

text \<open>The loop over the message: entries being written are changed in place, the others are made and collected.\<close>

fun collect :: "'v info_msg list \<Rightarrow> (int \<Rightarrow> 'v cache_info option) \<Rightarrow> int list \<times> (int \<Rightarrow> 'v cache_info option)" where
  "collect [] infos = ([], infos)"
| "collect (u # us) infos =
     (case collect us (infos(im_userid u \<mapsto> \<lparr>ci_version = ucast (im_version u), ci_value = im_value u\<rparr>)) of
        (new, infos') \<Rightarrow> (if infos (im_userid u) = None then im_userid u # new else new, infos'))"

definition received_of :: "'v info_msg \<Rightarrow> int \<times> u16 \<times> 'v" where
  "received_of u = (im_userid u, ucast (im_version u), im_value u)"

definition update_begin :: "nat \<Rightarrow> u16 \<Rightarrow> 'v info_msg list \<Rightarrow> ('d, 'v) db_sys \<Rightarrow> ('d, 'v) db_sys" where
  "update_begin j from input st =
     (case collect input (db_infos st) of (new, infos) \<Rightarrow>
        let st = st\<lparr>db_infos := infos, db_received := db_received st \<union> received_of ` set input\<rparr>
        in if new = [] then st else st\<lparr>db_jobs := (db_jobs st)(j \<mapsto> Reading from new new [])\<rparr>)"

definition update_read :: "nat \<Rightarrow> ('d, 'v) db_sys \<Rightarrow> ('d, 'v) db_sys" where
  "update_read j st = (case db_jobs st j of
     Some (Reading from all (u # todo) ops) \<Rightarrow>
       (case db_infos st u of None \<Rightarrow> st
        | Some ci \<Rightarrow> st\<lparr>db_jobs := (db_jobs st)(j \<mapsto> Reading from all todo (ops @ [(u, ci_version ci, ci_value ci)]))\<rparr>)
   | _ \<Rightarrow> st)"

text \<open>\<open>bulk.execute()\<close>; the operations set the value of a user.  An exception clears what would be reported.\<close>

definition update_execute :: "((int \<times> 'v) list \<Rightarrow> 'd \<Rightarrow> bool \<times> 'd) \<Rightarrow> nat \<Rightarrow> ('d, 'v) db_sys \<Rightarrow> ('d, 'v) db_sys" where
  "update_execute bulk j st = (case db_jobs st j of
     Some (Reading from all [] ops) \<Rightarrow>
       (case bulk (map (\<lambda>(u, v, x). (u, x)) ops) (db_data st) of (ok, d) \<Rightarrow>
          st\<lparr>db_data := d, db_jobs := (db_jobs st)(j \<mapsto> Written from all (if ok then map (\<lambda>(u, v, x). (u, v)) ops else []))\<rparr>)
   | _ \<Rightarrow> st)"

text \<open>An exception before the bulk write, such as no connection in the pool.\<close>

definition update_throw :: "nat \<Rightarrow> ('d, 'v) db_sys \<Rightarrow> ('d, 'v) db_sys" where
  "update_throw j st = (case db_jobs st j of
     Some (Reading from all todo ops) \<Rightarrow> st\<lparr>db_jobs := (db_jobs st)(j \<mapsto> Written from all [])\<rparr>
   | _ \<Rightarrow> st)"

definition update_finish :: "nat \<Rightarrow> ('d, 'v) db_sys \<Rightarrow> ('d, 'v) db_sys" where
  "update_finish j st = (case db_jobs st j of
     Some (Written from all out) \<Rightarrow>
       st\<lparr>db_infos := (\<lambda>u. if u \<in> set all then None else db_infos st u), db_jobs := (db_jobs st)(j := None),
          db_acks := (if out = [] then db_acks st else db_acks st @ [(from, out)])\<rparr>
   | _ \<Rightarrow> st)"

text \<open>The two messages that start an update, and the dispatch on the message identifier.\<close>

definition update_user :: "(byte list \<Rightarrow> (int \<times> int) info_msg list option) \<Rightarrow> nat \<Rightarrow> u16 \<Rightarrow> byte list \<Rightarrow> ('d, int \<times> int) db_sys \<Rightarrow> ('d, int \<times> int) db_sys" where
  "update_user parse j from buffer st = (case parse buffer of None \<Rightarrow> st | Some input \<Rightarrow> update_begin j from input st)"

definition update_account :: "(byte list \<Rightarrow> (byte list \<times> byte list) info_msg list option) \<Rightarrow> nat \<Rightarrow> u16 \<Rightarrow> byte list
    \<Rightarrow> ('d, byte list \<times> byte list) db_sys \<Rightarrow> ('d, byte list \<times> byte list) db_sys" where
  "update_account parse j from buffer st = (case parse buffer of None \<Rightarrow> st | Some input \<Rightarrow> update_begin j from input st)"

datatype db_handler = Create_user | Query_user | Update_user | Query_account | Update_account | Query_max_userid | Query_ai

definition db_forward :: "u16 \<Rightarrow> db_handler option" where
  "db_forward mid = map_of [(0x400d, Create_user), (0x400e, Query_user), (0x600f, Update_user), (0x4010, Query_account),
     (0x6011, Update_account), (0x4012, Query_max_userid), (0x4013, Query_ai)] mid"

inductive db_reach :: "((int \<times> 'v) list \<Rightarrow> 'd \<Rightarrow> bool \<times> 'd) \<Rightarrow> 'd \<Rightarrow> ('d, 'v) db_sys \<Rightarrow> bool" for bulk d0 where
  start: "db_reach bulk d0 \<lparr>db_data = d0, db_infos = (\<lambda>_. None), db_jobs = (\<lambda>_. None), db_acks = [], db_received = {}\<rparr>"
| arrive: "db_reach bulk d0 st \<Longrightarrow> db_jobs st j = None \<Longrightarrow> db_reach bulk d0 (update_begin j from input st)"
| read: "db_reach bulk d0 st \<Longrightarrow> db_reach bulk d0 (update_read j st)"
| execute: "db_reach bulk d0 st \<Longrightarrow> db_reach bulk d0 (update_execute bulk j st)"
| throw: "db_reach bulk d0 st \<Longrightarrow> db_reach bulk d0 (update_throw j st)"
| finish: "db_reach bulk d0 st \<Longrightarrow> db_reach bulk d0 (update_finish j st)"

section \<open>Running updates do not meet\<close>

fun owned :: "'v update_job \<Rightarrow> int list" where
  "owned (Reading from all todo ops) = all"
| "owned (Written from all out) = all"

definition own :: "(nat \<Rightarrow> 'v update_job option) \<Rightarrow> nat \<Rightarrow> int list" where
  "own jobs j = (case jobs j of None \<Rightarrow> [] | Some job \<Rightarrow> owned job)"

definition jobs_apart :: "(nat \<Rightarrow> int list) \<Rightarrow> int set \<Rightarrow> bool" where
  "jobs_apart ow U \<longleftrightarrow> (\<forall>j. distinct (ow j)) \<and> (\<forall>i j. i \<noteq> j \<longrightarrow> set (ow i) \<inter> set (ow j) = {}) \<and> U = (\<Union>j. set (ow j))"

lemma own_upd: "own (jobs(j := x)) = (own jobs)(j := case x of None \<Rightarrow> [] | Some job \<Rightarrow> owned job)"
  by (simp add: own_def fun_eq_iff)

lemma own_same: "own jobs j = owned job \<Longrightarrow> own (jobs(j \<mapsto> job)) = own jobs"
  by (simp add: own_upd fun_upd_idem)

lemma apart_add:
  assumes a: "jobs_apart ow U" and j: "ow j = []" and n: "distinct new" "set new \<inter> U = {}"
  shows "jobs_apart (ow(j := new)) (U \<union> set new)"
proof -
  have "set (ow i) \<inter> set new = {}" for i using a n(2) unfolding jobs_apart_def by blast
  moreover have "(\<Union>i. set ((ow(j := new)) i)) = (\<Union>i. set (ow i)) \<union> set new" using j by (auto split: if_splits) force
  ultimately show ?thesis using a n(1) unfolding jobs_apart_def by simp blast
qed

lemma apart_drop:
  assumes a: "jobs_apart ow U"
  shows "jobs_apart (ow(j := [])) (U - set (ow j))"
proof -
  have "i \<noteq> j \<Longrightarrow> u \<in> set (ow i) \<Longrightarrow> u \<notin> set (ow j)" for i u using a unfolding jobs_apart_def by blast
  then have "(\<Union>i. set ((ow(j := [])) i)) = (\<Union>i. set (ow i)) - set (ow j)" by (auto split: if_splits)
  then show ?thesis using a unfolding jobs_apart_def by simp
qed

text \<open>What a job has read, or will report, came from a message; what it will report is in the database.\<close>

fun job_right :: "('d \<Rightarrow> int \<Rightarrow> 'v option) \<Rightarrow> 'd \<Rightarrow> (int \<times> u16 \<times> 'v) set \<Rightarrow> 'v update_job \<Rightarrow> bool" where
  "job_right look d R (Reading from all todo ops) = (all = map fst ops @ todo \<and> set ops \<subseteq> R)"
| "job_right look d R (Written from all out) =
     (\<forall>u v. (u, v) \<in> set out \<longrightarrow> u \<in> set all \<and> (look d u \<noteq> None \<longrightarrow> (\<exists>x. (u, v, x) \<in> R \<and> look d u = Some x)))"

definition db_inv :: "('d \<Rightarrow> int \<Rightarrow> 'v option) \<Rightarrow> ('d, 'v) db_sys \<Rightarrow> bool" where
  "db_inv look st \<longleftrightarrow> jobs_apart (own (db_jobs st)) (dom (db_infos st))
     \<and> (\<forall>u ci. db_infos st u = Some ci \<longrightarrow> (u, ci_version ci, ci_value ci) \<in> db_received st)
     \<and> (\<forall>j job. db_jobs st j = Some job \<longrightarrow> job_right look (db_data st) (db_received st) job)"

lemma collect_keys:
  assumes "collect input infos = (new, infos')"
  shows "distinct new \<and> set new \<inter> dom infos = {} \<and> dom infos' = dom infos \<union> set new"
  using assms
proof (induction input infos arbitrary: new infos' rule: collect.induct)
  case (2 m us infos)
  obtain new1 where c: "collect us (infos(im_userid m \<mapsto> \<lparr>ci_version = ucast (im_version m), ci_value = im_value m\<rparr>)) = (new1, infos')"
    "new = (if infos (im_userid m) = None then im_userid m # new1 else new1)"
    using 2(2) by (auto split: prod.splits)
  show ?case using 2(1) [OF c(1)] c(2) by (auto split: if_splits)
qed auto

lemma collect_received:
  assumes "collect input infos = (new, infos')" "infos' u = Some ci"
  shows "infos u = Some ci \<or> (u, ci_version ci, ci_value ci) \<in> received_of ` set input"
  using assms
proof (induction input infos arbitrary: new infos' rule: collect.induct)
  case (2 m us infos)
  let ?infos = "infos(im_userid m \<mapsto> \<lparr>ci_version = ucast (im_version m), ci_value = im_value m\<rparr>)"
  obtain new1 where c: "collect us ?infos = (new1, infos')" using 2(2) by (auto split: prod.splits)
  consider "?infos u = Some ci" | "(u, ci_version ci, ci_value ci) \<in> received_of ` set us" using 2(1) [OF c 2(3)] by blast
  then show ?case
  proof cases
    case 1
    then show ?thesis by (cases "u = im_userid m") (auto simp: received_of_def)
  next
    case 2
    then show ?thesis by simp
  qed
qed auto

lemma job_right_mono:
  assumes "job_right look d R job" "R \<subseteq> R'"
  shows "job_right look d R' job"
proof (cases job)
  case (Reading f all todo ops)
  then show ?thesis using assms by auto
next
  case (Written f all out)
  then show ?thesis using assms by simp blast
qed

lemma inv_arrive:
  assumes i: "db_inv look st" and j: "db_jobs st j = None"
  shows "db_inv look (update_begin j from input st)"
proof -
  obtain new infos where c: "collect input (db_infos st) = (new, infos)" by fastforce
  have k: "distinct new" "set new \<inter> dom (db_infos st) = {}" "dom infos = dom (db_infos st) \<union> set new" using collect_keys [OF c] by blast+
  let ?R = "db_received st \<union> received_of ` set input"
  have a: "jobs_apart (own (db_jobs st)) (dom (db_infos st))" using i by (simp add: db_inv_def)
  have r: "\<forall>u ci. infos u = Some ci \<longrightarrow> (u, ci_version ci, ci_value ci) \<in> ?R" using collect_received [OF c] i unfolding db_inv_def by blast
  have o: "\<forall>k job. db_jobs st k = Some job \<longrightarrow> job_right look (db_data st) ?R job" using i by (auto simp: db_inv_def intro: job_right_mono [OF _ Un_upper1])
  have "own (db_jobs st) j = []" using j by (simp add: own_def)
  then have "jobs_apart ((own (db_jobs st))(j := new)) (dom infos)" using apart_add [OF a _ k(1,2)] k(3) by simp
  then show ?thesis
    using r o c a k(3) by (cases "new = []") (simp_all add: update_begin_def db_inv_def own_upd Let_def)
qed

text \<open>Steps that leave the entries and the owners alone.\<close>

lemma inv_job:
  assumes i: "db_inv look st" and j: "db_jobs st j = Some old" "owned job = owned old"
    and r: "job_right look d (db_received st) job"
    and o: "\<And>k other. k \<noteq> j \<Longrightarrow> db_jobs st k = Some other \<Longrightarrow> job_right look d (db_received st) other"
  shows "db_inv look (st\<lparr>db_data := d, db_jobs := (db_jobs st)(j \<mapsto> job)\<rparr>)"
proof -
  have "own ((db_jobs st)(j \<mapsto> job)) = own (db_jobs st)" using j by (intro own_same) (simp add: own_def)
  then show ?thesis using i r o by (simp add: db_inv_def)
qed

lemma inv_read:
  assumes i: "db_inv look st"
  shows "db_inv look (update_read j st)"
proof (cases "\<exists>f all u todo ops ci. db_jobs st j = Some (Reading f all (u # todo) ops) \<and> db_infos st u = Some ci")
  case True
  then obtain f all u todo ops ci where t: "db_jobs st j = Some (Reading f all (u # todo) ops)" "db_infos st u = Some ci" by blast
  let ?job = "Reading f all todo (ops @ [(u, ci_version ci, ci_value ci)])"
  have "job_right look (db_data st) (db_received st) ?job" using i t unfolding db_inv_def by fastforce
  then have "db_inv look (st\<lparr>db_data := db_data st, db_jobs := (db_jobs st)(j \<mapsto> ?job)\<rparr>)"
    using i by (intro inv_job [OF i t(1)]) (auto simp: db_inv_def)
  then show ?thesis using t by (simp add: update_read_def)
next
  case False
  then have "update_read j st = st" by (auto simp: update_read_def split: option.splits update_job.splits list.splits)
  then show ?thesis using i by simp
qed

lemma inv_throw:
  assumes i: "db_inv look st"
  shows "db_inv look (update_throw j st)"
proof (cases "\<exists>f all todo ops. db_jobs st j = Some (Reading f all todo ops)")
  case True
  then obtain f all todo ops where t: "db_jobs st j = Some (Reading f all todo ops)" by blast
  have "db_inv look (st\<lparr>db_data := db_data st, db_jobs := (db_jobs st)(j \<mapsto> Written f all [])\<rparr>)"
    using i by (intro inv_job [OF i t(1)]) (auto simp: db_inv_def)
  then show ?thesis using t by (simp add: update_throw_def)
next
  case False
  then have "update_throw j st = st" by (auto simp: update_throw_def split: option.splits update_job.splits)
  then show ?thesis using i by simp
qed

lemma inv_finish:
  assumes i: "db_inv look st"
  shows "db_inv look (update_finish j st)"
proof (cases "\<exists>f all out. db_jobs st j = Some (Written f all out)")
  case True
  then obtain f all out where t: "db_jobs st j = Some (Written f all out)" by blast
  have "own (db_jobs st) j = all" using t by (simp add: own_def)
  then have "jobs_apart (own ((db_jobs st)(j := None))) (dom (db_infos st) - set all)"
    using apart_drop [of "own (db_jobs st)" "dom (db_infos st)" j] i by (simp add: db_inv_def own_upd)
  moreover have "dom (\<lambda>u. if u \<in> set all then None else db_infos st u) = dom (db_infos st) - set all" by (auto split: if_splits)
  ultimately show ?thesis using i t by (auto simp: update_finish_def db_inv_def)
next
  case False
  then have "update_finish j st = st" by (auto simp: update_finish_def split: option.splits update_job.splits)
  then show ?thesis using i by simp
qed

text \<open>What the code relies on: \<open>bulk\<close> changes the documents of its own users only, and when it does not throw, those that exist have the given value.\<close>

definition bulk_keeps :: "((int \<times> 'v) list \<Rightarrow> 'd \<Rightarrow> bool \<times> 'd) \<Rightarrow> ('d \<Rightarrow> int \<Rightarrow> 'v option) \<Rightarrow> bool" where
  "bulk_keeps bulk look \<longleftrightarrow> (\<forall>ops d u. u \<notin> fst ` set ops \<longrightarrow> look (snd (bulk ops d)) u = look d u)"

definition bulk_sets :: "((int \<times> 'v) list \<Rightarrow> 'd \<Rightarrow> bool \<times> 'd) \<Rightarrow> ('d \<Rightarrow> int \<Rightarrow> 'v option) \<Rightarrow> bool" where
  "bulk_sets bulk look \<longleftrightarrow> (\<forall>ops d u x. fst (bulk ops d) \<longrightarrow> distinct (map fst ops) \<longrightarrow> (u, x) \<in> set ops
     \<longrightarrow> look (snd (bulk ops d)) u = (if look d u = None then None else Some x))"

lemma job_right_frame:
  assumes "job_right look d R job" "\<And>u. u \<in> set (owned job) \<Longrightarrow> look d' u = look d u"
  shows "job_right look d' R job"
proof (cases job)
  case (Reading f all todo ops)
  then show ?thesis using assms by simp
next
  case (Written f all out)
  then show ?thesis using assms by fastforce
qed

lemma inv_execute:
  assumes i: "db_inv look st" and b: "bulk_keeps bulk look" "bulk_sets bulk look"
  shows "db_inv look (update_execute bulk j st)"
proof (cases "\<exists>f all ops. db_jobs st j = Some (Reading f all [] ops)")
  case True
  then obtain f all ops where t: "db_jobs st j = Some (Reading f all [] ops)" by blast
  let ?ops = "map (\<lambda>(u, v, x). (u, x)) ops"
  obtain ok d where d: "bulk ?ops (db_data st) = (ok, d)" by fastforce
  have a: "all = map fst ops" "set ops \<subseteq> db_received st" using i t by (force simp: db_inv_def)+
  have keys: "map fst ?ops = all" "fst ` set ?ops = set all" using a(1) by (auto simp: comp_def split_beta image_iff) force+
  have "distinct (own (db_jobs st) j)" using i unfolding db_inv_def jobs_apart_def by blast
  then have dist: "distinct all" using t by (simp add: own_def)
  have w: "job_right look d (db_received st) (Written f all (if ok then map (\<lambda>(u, v, x). (u, v)) ops else []))"
  proof -
    have "u \<in> set all \<and> (look d u \<noteq> None \<longrightarrow> (\<exists>x. (u, v, x) \<in> db_received st \<and> look d u = Some x))"
      if ok: ok and uv: "(u, v) \<in> set (map (\<lambda>(u, v, x). (u, v)) ops)" for u v
    proof -
      obtain x where x: "(u, v, x) \<in> set ops" using uv by auto
      then have "(u, x) \<in> set ?ops" by force
      then have "look d u = (if look (db_data st) u = None then None else Some x)"
        using b(2) d ok dist keys(1) unfolding bulk_sets_def by (metis fst_conv snd_conv)
      then show ?thesis using x a by (auto split: if_splits intro: rev_image_eqI)
    qed
    then show ?thesis by (cases ok) auto
  qed
  have oth: "job_right look d (db_received st) other" if k: "k \<noteq> j" "db_jobs st k = Some other" for k other
  proof (rule job_right_frame)
    show "job_right look (db_data st) (db_received st) other" using i k by (auto simp: db_inv_def)
    fix u assume "u \<in> set (owned other)"
    moreover have "set (own (db_jobs st) k) \<inter> set (own (db_jobs st) j) = {}" using i k(1) unfolding db_inv_def jobs_apart_def by blast
    ultimately have "u \<notin> fst ` set ?ops" using k(2) t keys(2) by (auto simp: own_def)
    then show "look d u = look (db_data st) u" using b(1) d unfolding bulk_keeps_def by (metis snd_conv)
  qed
  have "db_inv look (st\<lparr>db_data := d, db_jobs := (db_jobs st)(j \<mapsto> Written f all (if ok then map (\<lambda>(u, v, x). (u, v)) ops else []))\<rparr>)"
    using w oth by (intro inv_job [OF i t]) (simp only: owned.simps)
  then show ?thesis using t d by (simp add: update_execute_def)
next
  case False
  then have "update_execute bulk j st = st" by (auto simp: update_execute_def split: option.splits update_job.splits list.splits)
  then show ?thesis using i by simp
qed

lemma reach_db_inv:
  assumes "db_reach bulk d0 st" "bulk_keeps bulk look" "bulk_sets bulk look"
  shows "db_inv look st"
  using assms(1)
proof (induction rule: db_reach.induct)
  case start
  then show ?case by (simp add: db_inv_def jobs_apart_def own_def)
qed (use assms inv_arrive inv_read inv_execute inv_throw inv_finish in blast)+

section \<open>Properties\<close>

text \<open>C9: Updates that overlap, on threads of the pool and with new messages arriving between any two steps: when the service reports that it has stored a version of a
  user, the database holds for this user exactly the value that came with this version, unless it has no such user.\<close>

theorem acknowledged_is_stored:
  assumes "db_reach bulk d0 st" "bulk_keeps bulk look" "bulk_sets bulk look"
    and "db_acks (update_finish j st) = db_acks st @ [(dest, out)]" "(u, v) \<in> set out" "look (db_data st) u \<noteq> None"
  shows "\<exists>x. (u, v, x) \<in> db_received st \<and> look (db_data (update_finish j st)) u = Some x"
proof -
  have i: "db_inv look st" using reach_db_inv [OF assms(1-3)] .
  obtain all where t: "db_jobs st j = Some (Written dest all out)"
    using assms(4) by (auto simp: update_finish_def split: option.splits update_job.splits if_splits)
  then have "job_right look (db_data st) (db_received st) (Written dest all out)" using i unfolding db_inv_def by blast
  moreover have "db_data (update_finish j st) = db_data st" using t by (simp add: update_finish_def)
  ultimately show ?thesis using assms(5,6) by auto
qed

text \<open>A store of one value per user.\<close>

definition sample_bulk :: "(int \<times> nat) list \<Rightarrow> (int \<Rightarrow> nat option) \<Rightarrow> bool \<times> (int \<Rightarrow> nat option)" where
  "sample_bulk ops d = (True, \<lambda>u. if d u = None then None else case map_of ops u of None \<Rightarrow> d u | Some x \<Rightarrow> Some x)"

definition sample_db :: "(int \<Rightarrow> nat option, nat) db_sys" where
  "sample_db = update_execute sample_bulk 0 (update_read 0 (update_begin 0 7 [\<lparr>im_userid = 5, im_version = 2, im_value = 30\<rparr>]
     \<lparr>db_data = [5 \<mapsto> 10], db_infos = (\<lambda>_. None), db_jobs = (\<lambda>_. None), db_acks = [], db_received = {}\<rparr>))"

theorem acknowledged_is_stored_witness: "db_data (update_finish 0 sample_db) 5 = Some 30"
proof -
  have r: "db_reach sample_bulk [5 \<mapsto> 10] sample_db"
    unfolding sample_db_def by (intro db_reach.execute db_reach.read db_reach.arrive db_reach.start) simp
  have k: "bulk_keeps sample_bulk (\<lambda>d. d)"
    unfolding bulk_keeps_def sample_bulk_def by (auto split: option.splits dest: map_of_SomeD intro: rev_image_eqI)
  have s: "bulk_sets sample_bulk (\<lambda>d. d)" unfolding bulk_sets_def sample_bulk_def by (auto split: option.splits dest: map_of_is_SomeI)
  note defs = sample_db_def update_begin_def update_read_def update_execute_def update_finish_def sample_bulk_def received_of_def
  have a: "db_acks (update_finish 0 sample_db) = db_acks sample_db @ [(7, [(5, 2)])]" by (simp add: defs)
  have "db_data sample_db 5 \<noteq> None" "db_received sample_db = {(5, 2, 30)}" by (simp_all add: defs)
  then show ?thesis using acknowledged_is_stored [OF r k s a, of 5 2] by simp
qed

text \<open>A user that was created can be found again, by name and by number, with the password given: for a database whose insertion of
  an account makes the account findable.\<close>

theorem created_user_found:
  assumes "create_user M parse buffer d = (Db_success, d')" "parse buffer = Some req" "cu_account req \<noteq> []"
    and "\<And>doc d d'. insert_account M doc d = (True, d') \<Longrightarrow> find_account_name M (ad_account doc) d' = Some (Some doc)
          \<and> find_account_userid M (ad_userid doc) d' = Some (Some doc)"
    and "\<And>u d d' a. insert_ai M u d = (True, d') \<Longrightarrow> find_account_name M a d' = find_account_name M a d \<and> find_account_userid M u d' = find_account_userid M u d"
  shows "query_account M (\<lambda>_. Some (cu_userid req, [])) b d' = query_account M (\<lambda>_. Some (0, cu_account req)) b d'
     \<and> query_account M (\<lambda>_. Some (0, cu_account req)) b d' =
         \<lparr>qa_ec = Db_success, qa_account = cu_account req, qa_userid = cu_userid req, qa_password = cu_password req\<rparr>"
proof -
  let ?doc = "\<lparr>ad_userid = cu_userid req, ad_account = cu_account req, ad_password = cu_password req\<rparr>"
  have "create_user_task M req d = (True, d')" using assms(1,2) by (auto simp: create_user_def split: prod.splits if_splits)
  then obtain d1 d2 where d2: "insert_account M ?doc d1 = (True, d2)" "d' = d2 \<or> insert_ai M (cu_userid req) d2 = (True, d')"
    by (auto simp: create_user_task_def split: prod.splits bool.splits if_splits)
  have "find_account_name M (cu_account req) d' = Some (Some ?doc)" "find_account_userid M (cu_userid req) d' = Some (Some ?doc)"
    using assms(4) [OF d2(1)] assms(5) [of "cu_userid req" d2 d'] d2(2) by auto
  then show ?thesis using assms(3) by (simp add: query_account_def query_account_task_def query_account_ack_def)
qed

text \<open>\<open>query_user\<close> sets the error for a user that does not exist and then overwrites it: the answer is success, with user 0.  Every user that
  does exist and has a number other than 0 is reported as an AI, because the flag is read from the number.\<close>

theorem query_user_answers:
  assumes "parse buffer = Some userid"
  shows "find_user M userid d = Some None \<Longrightarrow> query_user M parse buffer d = query_user_ack"
    and "find_user M userid d = Some (Some doc) \<Longrightarrow> qu_is_ai (query_user M parse buffer d) = (ud_userid doc \<noteq> 0)"
  using assms by (simp_all add: query_user_def query_user_task_def query_user_ack_def)

text \<open>A user whose account name is taken: the insertion of the account throws and the request is answered with an error, but the
  document inserted before stays.\<close>

theorem create_user_not_atomic:
  assumes "parse buffer = Some req"
    and "insert_user M \<lparr>ud_userid = cu_userid req, ud_win_count = cu_win_count req, ud_lose_count = cu_lose_count req, ud_is_ai = cu_is_ai req\<rparr> d = (True, d1)"
    and "insert_account M \<lparr>ad_userid = cu_userid req, ad_account = cu_account req, ad_password = cu_password req\<rparr> d1 = (False, d1)"
  shows "create_user M parse buffer d = (Db_system, d1)"
  using assms by (simp add: create_user_def create_user_task_def)

end
