(* ===== verification/Login.thy ===== *)
theory Login
  imports Proto_Utils
begin

text \<open>
  The login service (\<open>gobang/login/login.cpp\<close>): one coroutine per request that asks the center for the account, the logic master for a
  logic server and the logic server for the player.  What a call comes back with is an argument, a function of the request:
  the answer, a time-out, or an exception.
\<close>

section \<open>The coroutine\<close>

text \<open>Error codes are \<open>int32\<close> values of the protocol.\<close>

definition ec_success :: int where "ec_success = 0"
definition ec_system :: int where "ec_system = 2"
definition ec_timeout :: int where "ec_timeout = 3"

datatype 'a answer = Answer 'a | Timeout | Thrown

record login_req =
  lr_account :: "byte list"
  lr_password :: "byte list"

record login_ack =
  la_ec :: int
  la_userid :: int
  la_room :: int
  la_win_count :: int
  la_lose_count :: int

record logic_ack =
  lo_ec :: int
  lo_room :: int
  lo_win_count :: int
  lo_lose_count :: int

record s_login_logic_req =
  sl_gate :: u16
  sl_socket :: u32
  sl_userid :: int
  sl_account :: "byte list"

text \<open>The three services: account and password to a result and a user, a user to a result and a server, and the login at a server.\<close>

record services =
  ask_center :: "byte list \<times> byte list \<Rightarrow> (int \<times> int) answer"
  ask_logic_master :: "int \<Rightarrow> (int \<times> u32) answer"
  ask_logic :: "u16 \<Rightarrow> s_login_logic_req \<Rightarrow> logic_ack answer"

text \<open>\<open>set_password\<close> is given the password of the request being built, which is empty.  The result is the error code and the user;
  \<open>None\<close> is an exception.\<close>

definition internal_login :: "services \<Rightarrow> byte list \<Rightarrow> byte list \<Rightarrow> (int \<times> int) option" where
  "internal_login S account password =
     (let req_password = []
      in case ask_center S (account, req_password) of
           Thrown \<Rightarrow> None
         | Timeout \<Rightarrow> Some (ec_timeout, 0)
         | Answer (ec, userid) \<Rightarrow> if ec \<noteq> ec_success then Some (ec, 0) else Some (ec_success, userid))"

definition internal_get_logic :: "services \<Rightarrow> int \<Rightarrow> (int \<times> u16) option" where
  "internal_get_logic S userid = (case ask_logic_master S userid of
     Thrown \<Rightarrow> None
   | Timeout \<Rightarrow> Some (ec_timeout, 0)
   | Answer (ec, logic) \<Rightarrow> if ec \<noteq> ec_success then Some (ec, 0) else Some (ec_success, ucast logic))"

definition internal_login_logic :: "services \<Rightarrow> byte list \<Rightarrow> int \<Rightarrow> u16 \<Rightarrow> u16 \<Rightarrow> u32 \<Rightarrow> login_ack \<Rightarrow> login_ack option" where
  "internal_login_logic S account userid logic gate socket ack =
     (case ask_logic S logic \<lparr>sl_gate = gate, sl_socket = socket, sl_userid = userid, sl_account = account\<rparr> of
        Thrown \<Rightarrow> None
      | Timeout \<Rightarrow> Some (ack\<lparr>la_ec := ec_timeout\<rparr>)
      | Answer r \<Rightarrow> if lo_ec r \<noteq> ec_success then Some (ack\<lparr>la_ec := lo_ec r\<rparr>)
          else Some (ack\<lparr>la_ec := ec_success, la_room := lo_room r, la_win_count := lo_win_count r, la_lose_count := lo_lose_count r\<rparr>))"

definition empty_ack :: login_ack where
  "empty_ack = \<lparr>la_ec = 0, la_userid = 0, la_room = 0, la_win_count = 0, la_lose_count = 0\<rparr>"

text \<open>The acknowledgement and the logic server put into the client part.  An exception keeps what has been filled in so far.\<close>

definition client_login :: "services \<Rightarrow> u16 \<Rightarrow> u32 \<Rightarrow> login_req \<Rightarrow> login_ack \<times> u16" where
  "client_login S gate socket req =
     (let ack = empty_ack
      in case internal_login S (lr_account req) (lr_password req) of
           None \<Rightarrow> (ack\<lparr>la_ec := ec_system\<rparr>, 0)
         | Some (ec, userid) \<Rightarrow>
             let ack = ack\<lparr>la_ec := ec\<rparr>
             in if la_ec ack \<noteq> ec_success then (ack, 0)
                else let ack = ack\<lparr>la_userid := userid\<rparr>
                     in case internal_get_logic S userid of
                          None \<Rightarrow> (ack\<lparr>la_ec := ec_system\<rparr>, 0)
                        | Some (ec, logic) \<Rightarrow>
                            let ack = ack\<lparr>la_ec := ec\<rparr>
                            in if la_ec ack \<noteq> ec_success then (ack, logic)
                               else case internal_login_logic S (lr_account req) userid logic gate socket ack of
                                      None \<Rightarrow> (ack\<lparr>la_ec := ec_system\<rparr>, logic)
                                    | Some ack \<Rightarrow> (ack, logic))"

text \<open>\<open>forward_shm\<close>: what the shared-memory channel brings; \<open>serialize\<close> prints the acknowledgement.  The result is the message written back,
  the destination, the session and the client part.\<close>

definition login_forward :: "services \<Rightarrow> (byte list \<Rightarrow> login_req option) \<Rightarrow> u16 \<Rightarrow> u64 \<Rightarrow> u16 \<Rightarrow> byte list
    \<Rightarrow> (u16 \<times> u64 \<times> client_part \<times> login_ack) option" where
  "login_forward S parse from session mid buffer =
     (if mid \<noteq> id_s_client_forward_brd then None
      else if length buffer < 12 then None
      else let part = client_part_of buffer
           in if cp_id part \<noteq> 0x0002 then None
              else case parse (drop 12 buffer) of None \<Rightarrow> None
                   | Some req \<Rightarrow> (case client_login S from (cp_socket part) req of (ack, logic) \<Rightarrow>
                       Some (from, session, \<lparr>cp_id = 0x1002, cp_logic = logic, cp_socket = cp_socket part, cp_userid = 0\<rparr>, ack)))"

section \<open>What a login comes to\<close>

lemmas login_steps = client_login_def internal_login_def internal_get_logic_def internal_login_logic_def empty_ack_def Let_def

text \<open>A login succeeds exactly when the center, the logic master and the chosen logic server all answer with success; the acknowledgement then
  carries the user of the center and the room and the counts of the logic server, and the client part names that server.\<close>

theorem login_success:
  "la_ec (fst (client_login S gate socket req)) = ec_success \<longleftrightarrow>
     (\<exists>userid logic r. ask_center S (lr_account req, []) = Answer (ec_success, userid) \<and> ask_logic_master S userid = Answer (ec_success, logic)
        \<and> ask_logic S (ucast logic) \<lparr>sl_gate = gate, sl_socket = socket, sl_userid = userid, sl_account = lr_account req\<rparr> = Answer r
        \<and> lo_ec r = ec_success
        \<and> client_login S gate socket req
          = (\<lparr>la_ec = ec_success, la_userid = userid, la_room = lo_room r, la_win_count = lo_win_count r, la_lose_count = lo_lose_count r\<rparr>, ucast logic))"
  by (auto simp: login_steps ec_system_def ec_timeout_def ec_success_def split: answer.splits prod.splits)

text \<open>The password a client sends makes no difference: \<open>internal_login\<close> does not pass it on.\<close>

theorem login_ignores_password:
  "client_login S gate socket (req\<lparr>lr_password := p\<rparr>) = client_login S gate socket req"
proof -
  have "internal_login S account p = internal_login S account (lr_password req)" for account by (simp add: internal_login_def)
  moreover have "lr_account (req\<lparr>lr_password := p\<rparr>) = lr_account req" "lr_password (req\<lparr>lr_password := p\<rparr>) = p" by simp_all
  ultimately show ?thesis unfolding client_login_def by (simp only:)
qed

end
