(* ===== verification/Proxy.thy ===== *)
theory Proxy
  imports Login Outbox Websocket
begin

text \<open>
  The proxy between clients and services (\<open>gobang/proxy/proxy.cpp\<close>): one entry per websocket connection, with the player it is logged in as, the logic server and
  the room, and the messages kept back while the login is under way.  \<open>px_sent\<close> lists what is handed to \<open>gate_connector::write\<close>, \<open>px_written\<close> what
  is written to clients as binary websocket messages.  The parsers and printers of protobuf, the clock and the randomly chosen login server
  are arguments.  \<open>None\<close> is undefined behaviour: a message shorter than its header.
\<close>

section \<open>State\<close>

type_synonym cached_message = "u16 \<times> u64 \<times> byte list"

record client =
  cl_socket :: u32
  cl_userid :: u32
  cl_logic :: u16
  cl_room :: u16
  cl_wait_login :: bool
  cl_last_recv :: int
  cl_cache :: "cached_message list"

record proxy =
  px_id :: u16
  px_clients :: "u32 \<Rightarrow> client option"
  px_sent :: "byte list list"
  px_written :: "(u32 \<times> byte list) list"
  px_pongs :: "(u32 \<times> byte list) list"
  px_closed :: "u32 list"

record proxy_proto =
  parse_ping_req :: "byte list \<Rightarrow> u64 option"
  parse_login_ack :: "byte list \<Rightarrow> (int \<times> u32 \<times> u32) option"
  parse_match_ack :: "byte list \<Rightarrow> (int \<times> u32) option"
  parse_move_ack :: "byte list \<Rightarrow> (int \<times> bool) option"
  parse_move_brd :: "byte list \<Rightarrow> bool option"
  parse_kick_req :: "byte list \<Rightarrow> (u32 \<times> u32) option"
  print_common_ack :: "int \<Rightarrow> byte list"
  print_ping_ack :: "u64 \<Rightarrow> u64 \<Rightarrow> byte list"
  print_offline :: "u32 \<Rightarrow> u16 \<Rightarrow> u32 \<Rightarrow> byte list"

definition id_ping_req :: u16 where "id_ping_req = 0x0001"
definition id_login_req :: u16 where "id_login_req = 0x0002"
definition id_enter_room_req :: u16 where "id_enter_room_req = 0x0004"
definition id_move_req :: u16 where "id_move_req = 0x0005"
definition ec_no_match :: int where "ec_no_match = 5"

definition set_client :: "client \<Rightarrow> proxy \<Rightarrow> proxy" where
  "set_client c st = st\<lparr>px_clients := (px_clients st)(cl_socket c \<mapsto> c)\<rparr>"

definition px_close :: "u32 \<Rightarrow> proxy \<Rightarrow> proxy" where
  "px_close socket st = st\<lparr>px_closed := px_closed st @ [socket]\<rparr>"

text \<open>\<open>socket.userid > 0\<close> of an \<open>int32_t\<close>.\<close>

definition logged_in :: "client \<Rightarrow> bool" where
  "logged_in c \<longleftrightarrow> sint (cl_userid c) > 0"

section \<open>Sending\<close>

definition send_to_service :: "u16 \<Rightarrow> client \<Rightarrow> u16 \<Rightarrow> u64 \<Rightarrow> byte list \<Rightarrow> proxy \<Rightarrow> proxy" where
  "send_to_service dest c mid session buffer st = st\<lparr>px_sent := px_sent st @
     [forward_part_bytes \<lparr>fp_from = px_id st, fp_to = dest, fp_id = id_s_client_forward_brd, fp_padding = 0, fp_session = session\<rparr>
      @ client_part_bytes \<lparr>cp_id = mid, cp_logic = 0, cp_socket = cl_socket c, cp_userid = cl_userid c\<rparr> @ buffer]\<rparr>"

text \<open>\<open>reserve\<close> makes room for the message; what the memory held before does not matter.\<close>

definition send_to_client :: "u32 \<Rightarrow> u16 \<Rightarrow> u64 \<Rightarrow> byte list \<Rightarrow> proxy \<Rightarrow> proxy" where
  "send_to_client socket mid session msg st =
     st\<lparr>px_written := px_written st @ [(socket, init_client_buffer (replicate (length msg) 0) [] mid session msg)]\<rparr>"

definition connector_message :: "u16 \<Rightarrow> u64 \<Rightarrow> u16 \<Rightarrow> byte list \<Rightarrow> proxy \<Rightarrow> proxy" where
  "connector_message dest session mid msg st = st\<lparr>px_sent := px_sent st @
     [init_forward_buffer (replicate (length msg) 0) [] \<lparr>fp_from = px_id st, fp_to = dest, fp_id = mid, fp_padding = 0, fp_session = session\<rparr> msg]\<rparr>"

section \<open>Messages of a client\<close>

definition client_register_msg :: "u16 \<Rightarrow> client \<Rightarrow> u64 \<Rightarrow> byte list \<Rightarrow> proxy \<Rightarrow> proxy" where
  "client_register_msg dest c session buffer st =
     (if logged_in c \<or> cl_wait_login c then px_close (cl_socket c) st
      else let c = c\<lparr>cl_wait_login := True\<rparr> in send_to_service dest c id_login_req session buffer (set_client c st))"

definition client_room_msg :: "proxy_proto \<Rightarrow> client \<Rightarrow> u16 \<Rightarrow> u64 \<Rightarrow> byte list \<Rightarrow> proxy \<Rightarrow> proxy" where
  "client_room_msg P c mid session buffer st =
     (if \<not> cl_room c > 0 then send_to_client (cl_socket c) ((mid AND 0xfff) OR 0x1000) session (print_common_ack P ec_no_match) st
      else send_to_service (cl_room c) c mid session buffer st)"

definition client_other_msg :: "proxy_proto \<Rightarrow> u64 \<Rightarrow> client \<Rightarrow> u16 \<Rightarrow> u64 \<Rightarrow> byte list \<Rightarrow> proxy \<Rightarrow> proxy" where
  "client_other_msg P now c mid session buffer st =
     (if mid = id_ping_req \<and> (cl_wait_login c \<or> \<not> logged_in c)
      then (case parse_ping_req P buffer of None \<Rightarrow> st
            | Some t1 \<Rightarrow> send_to_client (cl_socket c) 0x1001 session (print_ping_ack P t1 now) st)
      else if cl_wait_login c then set_client (c\<lparr>cl_cache := cl_cache c @ [(mid, session, buffer)]\<rparr>) st
      else if \<not> logged_in c then st
      else send_to_service (cl_logic c) c mid session buffer st)"

definition forward_client :: "proxy_proto \<Rightarrow> u64 \<Rightarrow> u16 \<Rightarrow> client \<Rightarrow> u16 \<Rightarrow> u64 \<Rightarrow> byte list \<Rightarrow> proxy \<Rightarrow> proxy" where
  "forward_client P now dest c mid session buffer st =
     (if mid = id_login_req then client_register_msg dest c session buffer st
      else if mid = id_enter_room_req then client_room_msg P c id_enter_room_req session buffer st
      else if mid = id_move_req then client_room_msg P c id_move_req session buffer st
      else client_other_msg P now c mid session buffer st)"

section \<open>The coroutines of a connection\<close>

definition proxy_accept :: "u32 \<Rightarrow> int \<Rightarrow> proxy \<Rightarrow> proxy" where
  "proxy_accept socket now st = (case px_clients st socket of Some _ \<Rightarrow> st
     | None \<Rightarrow> set_client \<lparr>cl_socket = socket, cl_userid = 0, cl_logic = 0, cl_room = 0, cl_wait_login = False, cl_last_recv = now, cl_cache = []\<rparr> st)"

text \<open>One turn of the loop of \<open>socket_start\<close>, with what the websocket read; \<open>now\<close> and \<open>millis\<close> are the two clocks.  The flag says whether
  the loop goes on.\<close>

definition proxy_read :: "proxy_proto \<Rightarrow> int \<Rightarrow> u64 \<Rightarrow> u16 \<Rightarrow> u32 \<Rightarrow> websocket_opcode \<Rightarrow> byte list \<Rightarrow> proxy \<Rightarrow> (bool \<times> proxy) option" where
  "proxy_read P now millis dest socket opcode buffer st =
     (case px_clients st socket of None \<Rightarrow> Some (False, st)
      | Some c \<Rightarrow>
          let c = c\<lparr>cl_last_recv := now\<rparr>; st = set_client c st
          in if opcode = 0x8 then Some (False, px_close socket st)
             else if opcode = 0x9 then Some (True, st\<lparr>px_pongs := px_pongs st @ [(socket, buffer)]\<rparr>)
             else if is_websocket_control opcode then Some (True, st)
             else if length buffer < 16 then None
             else let header = ws_header_of buffer
                  in Some (True, forward_client P millis dest c (wh_id header) (wh_session header) (drop 16 buffer) st))"

definition report_client_offline :: "proxy_proto \<Rightarrow> client \<Rightarrow> proxy \<Rightarrow> proxy" where
  "report_client_offline P c st =
     connector_message (cl_logic c) 0 0x6009 (print_offline P (cl_socket c) (px_id st) (cl_userid c)) st"

definition proxy_broken :: "proxy_proto \<Rightarrow> u32 \<Rightarrow> proxy \<Rightarrow> proxy" where
  "proxy_broken P socket st = (case px_clients st socket of None \<Rightarrow> st
     | Some c \<Rightarrow> let st = (if cl_logic c > 0 then report_client_offline P c st else st)
         in st\<lparr>px_clients := (px_clients st)(socket := None)\<rparr>)"

definition proxy_check :: "u32 \<Rightarrow> int \<Rightarrow> proxy \<Rightarrow> bool \<times> proxy" where
  "proxy_check socket now st = (case px_clients st socket of None \<Rightarrow> (False, st)
     | Some c \<Rightarrow> if now - cl_last_recv c > 180 then (False, px_close socket st) else (True, st))"

section \<open>Messages of the services\<close>

fun send_cached :: "client \<Rightarrow> cached_message list \<Rightarrow> proxy \<Rightarrow> proxy" where
  "send_cached c [] st = st"
| "send_cached c ((mid, session, buf) # rest) st = send_cached c rest (send_to_service (cl_logic c) c mid session buf st)"

definition client_login_ack :: "proxy_proto \<Rightarrow> client \<Rightarrow> u16 \<Rightarrow> byte list \<Rightarrow> proxy \<Rightarrow> proxy" where
  "client_login_ack P c logic brd st = (case parse_login_ack P brd of
     None \<Rightarrow> px_close (cl_socket c) st
   | Some (ec, userid, room) \<Rightarrow>
       if ec \<noteq> ec_success then st
       else let c = c\<lparr>cl_logic := logic, cl_wait_login := False, cl_room := ucast room, cl_userid := userid\<rparr>;
                st = send_cached c (cl_cache c) st
            in set_client (c\<lparr>cl_cache := []\<rparr>) st)"

definition client_match_ack :: "proxy_proto \<Rightarrow> client \<Rightarrow> byte list \<Rightarrow> proxy \<Rightarrow> proxy" where
  "client_match_ack P c brd st = (case parse_match_ack P brd of None \<Rightarrow> st
     | Some (ec, room) \<Rightarrow> if ec \<noteq> ec_success then st else set_client (c\<lparr>cl_room := ucast room\<rparr>) st)"

definition client_move_brd :: "proxy_proto \<Rightarrow> client \<Rightarrow> byte list \<Rightarrow> proxy \<Rightarrow> proxy" where
  "client_move_brd P c brd st = (case parse_move_brd P brd of None \<Rightarrow> st
     | Some over \<Rightarrow> if over then set_client (c\<lparr>cl_room := 0\<rparr>) st else st)"

definition client_move_ack :: "proxy_proto \<Rightarrow> client \<Rightarrow> byte list \<Rightarrow> proxy \<Rightarrow> proxy" where
  "client_move_ack P c brd st = (case parse_move_ack P brd of None \<Rightarrow> st
     | Some (ec, over) \<Rightarrow> if ec \<noteq> ec_success then st else if over then set_client (c\<lparr>cl_room := 0\<rparr>) st else st)"

definition on_forward :: "proxy_proto \<Rightarrow> client \<Rightarrow> client_part \<Rightarrow> byte list \<Rightarrow> proxy \<Rightarrow> proxy" where
  "on_forward P c part strv st =
     (if cp_id part = 0x1002 then client_login_ack P c (cp_logic part) strv st
      else if cp_id part = 0x1003 then client_match_ack P c strv st
      else if cp_id part = 0x1005 then client_move_ack P c strv st
      else if cp_id part = 0x3005 then client_move_brd P c strv st
      else st)"

definition client_forward_brd :: "proxy_proto \<Rightarrow> u64 \<Rightarrow> byte list \<Rightarrow> proxy \<Rightarrow> proxy" where
  "client_forward_brd P session buffer st =
     (if length buffer < 12 then st
      else let part = client_part_of buffer; strv = drop 12 buffer
           in case px_clients st (cp_socket part) of None \<Rightarrow> st
              | Some c \<Rightarrow>
                  if cl_userid c \<noteq> cp_userid part then st
                  else let st = on_forward P c part strv st
                       in st\<lparr>px_written := px_written st @
                            [(cp_socket part, ws_header_bytes \<lparr>wh_flag = flag_valid, wh_id = cp_id part, wh_session = session\<rparr> @ strv)]\<rparr>)"

definition kick_client :: "proxy_proto \<Rightarrow> u16 \<Rightarrow> u64 \<Rightarrow> byte list \<Rightarrow> proxy \<Rightarrow> proxy" where
  "kick_client P from session buffer st = (case parse_kick_req P buffer of
     None \<Rightarrow> connector_message from session 0x5008 (print_common_ack P ec_system) st
   | Some (socket, userid) \<Rightarrow>
       let st = (case px_clients st socket of None \<Rightarrow> st | Some c \<Rightarrow> if cl_userid c = userid then px_close socket st else st)
       in connector_message from session 0x5008 (print_common_ack P ec_success) st)"

definition proxy_forward_shm :: "proxy_proto \<Rightarrow> u16 \<Rightarrow> u64 \<Rightarrow> u16 \<Rightarrow> byte list \<Rightarrow> proxy \<Rightarrow> proxy" where
  "proxy_forward_shm P from session mid buffer st =
     (if mid = 0x4008 then kick_client P from session buffer st
      else if mid = id_s_client_forward_brd then client_forward_brd P session buffer st
      else st)"

datatype proxy_event = Px_accept u32 int | Px_read int u64 u16 u32 websocket_opcode "byte list" | Px_broken u32 | Px_check u32 int
  | Px_shm u16 u64 u16 "byte list"

fun proxy_step :: "proxy_proto \<Rightarrow> proxy_event \<Rightarrow> proxy \<Rightarrow> proxy option" where
  "proxy_step P (Px_accept socket now) st = Some (proxy_accept socket now st)"
| "proxy_step P (Px_read now millis dest socket opcode buffer) st = map_option snd (proxy_read P now millis dest socket opcode buffer st)"
| "proxy_step P (Px_broken socket) st = Some (proxy_broken P socket st)"
| "proxy_step P (Px_check socket now) st = Some (snd (proxy_check socket now st))"
| "proxy_step P (Px_shm from session mid buffer) st = Some (proxy_forward_shm P from session mid buffer st)"

definition proxy_start :: "u16 \<Rightarrow> proxy" where
  "proxy_start i = \<lparr>px_id = i, px_clients = (\<lambda>_. None), px_sent = [], px_written = [], px_pongs = [], px_closed = []\<rparr>"

section \<open>What was sent for a client\<close>

definition special :: "u16 \<Rightarrow> bool" where
  "special mid \<longleftrightarrow> mid = id_ping_req \<or> mid = id_login_req \<or> mid = id_enter_room_req \<or> mid = id_move_req"

text \<open>The messages of one connection among those handed to the connector, apart from pings, logins, moves and requests to enter a room.\<close>

definition for_client :: "u32 \<Rightarrow> byte list \<Rightarrow> cached_message list" where
  "for_client s b = (let fp = forward_part_of b; cp = client_part_of (drop 16 b)
     in if fp_id fp = id_s_client_forward_brd \<and> cp_socket cp = s \<and> \<not> special (cp_id cp) then [(cp_id cp, fp_session fp, drop 28 b)] else [])"

definition client_msgs :: "u32 \<Rightarrow> proxy \<Rightarrow> cached_message list" where
  "client_msgs s st = concat (map (for_client s) (px_sent st))"

lemma for_client_sent [simp]:
  "for_client s (forward_part_bytes fp @ client_part_bytes cp @ buf)
     = (if fp_id fp = id_s_client_forward_brd \<and> cp_socket cp = s \<and> \<not> special (cp_id cp) then [(cp_id cp, fp_session fp, buf)] else [])"
  by (simp add: for_client_def Let_def)

lemma for_client_other [simp]: "fp_id fp \<noteq> id_s_client_forward_brd \<Longrightarrow> for_client s (forward_part_bytes fp @ buf) = []"
  by (simp add: for_client_def Let_def)

lemma client_msgs_simps [simp]:
  "client_msgs s (send_to_service dest c mid session buf st)
     = client_msgs s st @ (if cl_socket c = s \<and> \<not> special mid then [(mid, session, buf)] else [])"
  "mid \<noteq> id_s_client_forward_brd \<Longrightarrow> client_msgs s (connector_message dest session mid msg st) = client_msgs s st"
  "client_msgs s (set_client c st) = client_msgs s st" "client_msgs s (px_close socket st) = client_msgs s st"
  "client_msgs s (send_to_client socket mid session msg st) = client_msgs s st"
  "client_msgs s (st\<lparr>px_clients := m\<rparr>) = client_msgs s st" "client_msgs s (st\<lparr>px_written := w\<rparr>) = client_msgs s st"
  "client_msgs s (st\<lparr>px_pongs := w\<rparr>) = client_msgs s st"
  by (simp_all add: client_msgs_def send_to_service_def connector_message_def set_client_def px_close_def send_to_client_def
      init_forward_buffer_def Let_def)

lemma px_clients_simps [simp]:
  "px_clients (send_to_service dest c mid session buf st) = px_clients st" "px_clients (connector_message dest session mid msg st) = px_clients st"
  "px_clients (set_client c st) = (px_clients st)(cl_socket c \<mapsto> c)" "px_clients (px_close socket st) = px_clients st"
  "px_clients (send_to_client socket mid session msg st) = px_clients st"
  by (simp_all add: send_to_service_def connector_message_def set_client_def px_close_def send_to_client_def)

lemma send_cached_clients [simp]: "px_clients (send_cached c cache st) = px_clients st"
  by (induction c cache st rule: send_cached.induct) simp_all

lemma send_cached_msgs:
  assumes "\<forall>(mid, session, buf) \<in> set cache. \<not> special mid"
  shows "client_msgs s (send_cached c cache st) = client_msgs s st @ (if cl_socket c = s then cache else [])"
  using assms by (induction c cache st rule: send_cached.induct) auto

section \<open>The messages of a client stay in order\<close>

lemmas client_handlers = forward_client_def client_register_msg_def client_room_msg_def client_other_msg_def

lemmas service_handlers = on_forward_def client_login_ack_def client_match_ack_def client_move_ack_def client_move_brd_def

definition keys_ok :: "proxy \<Rightarrow> bool" where
  "keys_ok st \<longleftrightarrow> (\<forall>s c. px_clients st s = Some c \<longrightarrow> cl_socket c = s)"

lemma keys_okD: "keys_ok st \<Longrightarrow> px_clients st s = Some c \<Longrightarrow> cl_socket c = s"
  by (simp add: keys_ok_def)

lemma keys_ok_frame: "px_clients st' = px_clients st \<Longrightarrow> keys_ok st' = keys_ok st"
  by (simp add: keys_ok_def)

lemma keys_ok_simps [simp]:
  "keys_ok (send_to_service dest c mid session buf st) = keys_ok st" "keys_ok (connector_message dest session mid msg st) = keys_ok st"
  "keys_ok (px_close socket st) = keys_ok st" "keys_ok (send_to_client socket mid session msg st) = keys_ok st"
  "keys_ok (send_cached c cache st) = keys_ok st" "keys_ok (st\<lparr>px_written := w\<rparr>) = keys_ok st" "keys_ok (st\<lparr>px_pongs := w\<rparr>) = keys_ok st"
  by (simp_all add: keys_ok_def)

lemma keys_ok_set [simp]: "keys_ok st \<Longrightarrow> keys_ok (set_client c st)"
  by (simp add: keys_ok_def)

lemma keys_forward_client [simp]: "keys_ok st \<Longrightarrow> keys_ok (forward_client P now dest c mid session buf st)"
  by (simp add: client_handlers Let_def split: option.splits)

lemma keys_on_forward [simp]: "keys_ok st \<Longrightarrow> keys_ok (on_forward P c part strv st)"
  by (simp add: service_handlers Let_def split: option.splits)

lemma send_cached_other: "cl_socket c \<noteq> s \<Longrightarrow> client_msgs s (send_cached c cache st) = client_msgs s st"
  by (induction c cache st rule: send_cached.induct) simp_all

lemma forward_client_other:
  assumes "cl_socket c \<noteq> s"
  shows "px_clients (forward_client P now dest c mid session buf st) s = px_clients st s"
    "client_msgs s (forward_client P now dest c mid session buf st) = client_msgs s st"
  using assms by (simp_all add: client_handlers Let_def split: option.splits)

lemma on_forward_other:
  assumes "cl_socket c \<noteq> s"
  shows "px_clients (on_forward P c part strv st) s = px_clients st s" "client_msgs s (on_forward P c part strv st) = client_msgs s st"
  using assms by (simp_all add: service_handlers Let_def send_cached_other split: option.splits)

text \<open>A connection over which a login has been asked for or has succeeded.\<close>

definition in_session :: "client \<Rightarrow> bool" where
  "in_session c \<longleftrightarrow> (cl_wait_login c \<or> logged_in c) \<and> (cl_cache c \<noteq> [] \<longrightarrow> cl_wait_login c) \<and> (\<forall>(mid, session, buf) \<in> set (cl_cache c). \<not> special mid)"

text \<open>\<open>so_far s st q\<close>: the messages \<open>q\<close> of the connection are those sent on followed by those kept back.\<close>

definition so_far :: "u32 \<Rightarrow> proxy \<Rightarrow> cached_message list \<Rightarrow> bool" where
  "so_far s st q \<longleftrightarrow> keys_ok st \<and> (\<exists>c. px_clients st s = Some c \<and> in_session c \<and> q = client_msgs s st @ cl_cache c)"

lemma so_farI: "keys_ok st \<Longrightarrow> px_clients st s = Some c \<Longrightarrow> in_session c \<Longrightarrow> q = client_msgs s st @ cl_cache c \<Longrightarrow> so_far s st q"
  by (auto simp: so_far_def)

lemma so_far_frame:
  assumes "so_far s st q" "keys_ok st'" "px_clients st' s = px_clients st s" "client_msgs s st' = client_msgs s st"
  shows "so_far s st' q"
  using assms by (auto simp: so_far_def)

lemma special_ids [simp]: "special id_ping_req" "special id_login_req" "special id_enter_room_req" "special id_move_req"
  by (simp_all add: special_def)

text \<open>Pings, logins, moves and requests to enter a room of the client itself change neither list.\<close>

lemma own_special:
  assumes "keys_ok st" "px_clients st s = Some c" "in_session c" "special mid"
  shows "px_clients (forward_client P now dest c mid session buf st) s = Some c"
    "client_msgs s (forward_client P now dest c mid session buf st) = client_msgs s st"
proof -
  have "mid = id_ping_req \<or> mid = id_login_req \<or> mid = id_enter_room_req \<or> mid = id_move_req" using assms(4) by (simp add: special_def)
  moreover have "id_ping_req \<noteq> id_login_req" "id_ping_req \<noteq> id_enter_room_req" "id_ping_req \<noteq> id_move_req"
    by (simp_all add: id_ping_req_def id_login_req_def id_enter_room_req_def id_move_req_def)
  ultimately show "px_clients (forward_client P now dest c mid session buf st) s = Some c"
    "client_msgs s (forward_client P now dest c mid session buf st) = client_msgs s st"
    using assms(2,3) keys_okD [OF assms(1,2)] by (auto simp: client_handlers Let_def in_session_def split: option.splits)
qed

lemma own_message:
  assumes k: "keys_ok st" and c: "px_clients st s = Some c" "in_session c" and m: "\<not> special mid" and q: "q = client_msgs s st @ cl_cache c"
  shows "so_far s (forward_client P now dest c mid session buf st) (q @ [(mid, session, buf)])"
proof -
  let ?st = "forward_client P now dest c mid session buf st"
  let ?c = "c\<lparr>cl_cache := cl_cache c @ [(mid, session, buf)]\<rparr>"
  have s: "cl_socket c = s" using keys_okD [OF k c(1)] .
  have f: "?st = client_other_msg P now c mid session buf st" "mid \<noteq> id_ping_req" using m by (simp_all add: forward_client_def special_def)
  show ?thesis
  proof (cases "cl_wait_login c")
    case True
    then have "?st = set_client ?c st" using f by (simp add: client_other_msg_def)
    then show ?thesis using k c m q s True by (intro so_farI [where c = ?c]) (auto simp: in_session_def)
  next
    case False
    then have "?st = send_to_service (cl_logic c) c mid session buf st" "cl_cache c = []"
      using f c(2) by (auto simp: client_other_msg_def in_session_def)
    then show ?thesis using k c m q s by (intro so_farI [where c = c]) simp_all
  qed
qed

text \<open>The login service reports success with the number of the user.\<close>

definition trusted_brd :: "proxy_proto \<Rightarrow> byte list \<Rightarrow> bool" where
  "trusted_brd P buffer \<longleftrightarrow> (cp_id (client_part_of buffer) = 0x1002 \<longrightarrow>
     (case parse_login_ack P (drop 12 buffer) of Some (ec, userid, room) \<Rightarrow> ec = ec_success \<longrightarrow> sint userid > 0 | None \<Rightarrow> True))"

lemma so_far_room: "so_far s st q \<Longrightarrow> px_clients st s = Some c \<Longrightarrow> so_far s (set_client (c\<lparr>cl_room := r\<rparr>) st) q"
  by (auto simp: so_far_def in_session_def logged_in_def dest: keys_okD)

lemma so_far_login:
  assumes f: "so_far s st q" and c: "px_clients st s = Some c" and u: "sint userid > 0"
    and c1_def: "c1 = c\<lparr>cl_logic := logic, cl_wait_login := False, cl_room := room, cl_userid := userid\<rparr>"
  shows "so_far s (set_client (c1\<lparr>cl_cache := []\<rparr>) (send_cached c1 (cl_cache c1) st)) q"
proof -
  have k: "keys_ok st" "in_session c" "q = client_msgs s st @ cl_cache c" using f c by (auto simp: so_far_def)
  have s: "cl_socket c = s" using keys_okD [OF k(1) c] .
  have "\<forall>(mid, session, buf) \<in> set (cl_cache c1). \<not> special mid" using k(2) by (simp add: in_session_def c1_def)
  from send_cached_msgs [OF this, of s c1 st] show ?thesis
    using k s u by (intro so_farI [where c = "c1\<lparr>cl_cache := []\<rparr>"]) (simp_all add: c1_def in_session_def logged_in_def)
qed

lemma so_far_on_forward:
  assumes f: "so_far s st q" and c: "px_clients st s = Some c" and t: "trusted_brd P buffer"
  shows "so_far s (on_forward P c (client_part_of buffer) (drop 12 buffer) st) q"
proof (cases "cp_id (client_part_of buffer) = 0x1002")
  case True
  have "so_far s (px_close socket st) q" for socket using so_far_frame [OF f] f by (auto simp: so_far_def)
  then show ?thesis
    using True f t so_far_login [OF f c _ refl] by (auto simp: on_forward_def client_login_ack_def trusted_brd_def Let_def split: option.splits)
next
  case False
  then show ?thesis
    using f so_far_room [OF f c] by (auto simp: service_handlers split: option.splits)
qed

definition px_tick :: "proxy_proto \<Rightarrow> proxy_event \<Rightarrow> proxy \<Rightarrow> proxy" where
  "px_tick P ev st = (case proxy_step P ev st of None \<Rightarrow> st | Some st \<Rightarrow> st)"

fun benign :: "proxy_proto \<Rightarrow> u32 \<Rightarrow> proxy_event \<Rightarrow> bool" where
  "benign P s (Px_read now millis dest socket opcode buffer) = (socket \<noteq> s \<or> is_websocket_control opcode \<or> special (wh_id (ws_header_of buffer)))"
| "benign P s (Px_broken socket) = (socket \<noteq> s)"
| "benign P s (Px_shm from session mid buffer) = (mid = id_s_client_forward_brd \<longrightarrow> trusted_brd P buffer)"
| "benign P s _ = True"

text \<open>A message of the client as it comes out of the websocket, with the clocks and the login server drawn at that moment.\<close>

type_synonym client_frame = "int \<times> u64 \<times> u16 \<times> websocket_opcode \<times> byte list"

fun frame_event :: "u32 \<Rightarrow> client_frame \<Rightarrow> proxy_event" where
  "frame_event s (now, millis, dest, opcode, buffer) = Px_read now millis dest s opcode buffer"

fun frame_message :: "client_frame \<Rightarrow> cached_message" where
  "frame_message (now, millis, dest, opcode, buffer) = (wh_id (ws_header_of buffer), wh_session (ws_header_of buffer), drop 16 buffer)"

fun frame_valid :: "client_frame \<Rightarrow> bool" where
  "frame_valid (now, millis, dest, opcode, buffer)
     = (\<not> is_websocket_control opcode \<and> 16 \<le> length buffer \<and> \<not> special (wh_id (ws_header_of buffer)))"

lemma so_far_recv:
  assumes f: "so_far s st q" and c: "px_clients st s' = Some c"
  shows "so_far s (set_client (c\<lparr>cl_last_recv := now\<rparr>) st) q"
proof -
  have "keys_ok st" using f by (simp add: so_far_def)
  then have "cl_socket c = s'" using keys_okD c by blast
  then show ?thesis using f c by (cases "s' = s") (auto simp: so_far_def in_session_def logged_in_def)
qed

lemma is_control_data: "\<not> is_websocket_control opcode \<Longrightarrow> opcode \<noteq> 8 \<and> opcode \<noteq> 9"
  by (auto simp: is_websocket_control_def)

lemma so_far_message:
  assumes f: "so_far s st q" and v: "frame_valid m"
  shows "so_far s (px_tick P (frame_event s m) st) (q @ [frame_message m])"
proof -
  obtain now millis dest opcode buffer where m: "m = (now, millis, dest, opcode, buffer)" by (cases m)
  obtain c where c: "px_clients st s = Some c" using f by (auto simp: so_far_def)
  let ?c = "c\<lparr>cl_last_recv := now\<rparr>"
  let ?h = "ws_header_of buffer"
  have r: "so_far s (set_client ?c st) q" using so_far_recv [OF f c] .
  have s: "cl_socket c = s" using f c keys_okD by (auto simp: so_far_def)
  have "px_tick P (frame_event s m) st = forward_client P millis dest ?c (wh_id ?h) (wh_session ?h) (drop 16 buffer) (set_client ?c st)"
    using v c is_control_data [of opcode] by (simp add: m px_tick_def proxy_read_def Let_def)
  moreover have "keys_ok (set_client ?c st)" "px_clients (set_client ?c st) s = Some ?c" "in_session ?c" "q = client_msgs s (set_client ?c st) @ cl_cache ?c"
    using r s by (auto simp: so_far_def)
  ultimately show ?thesis using own_message [of "set_client ?c st" s ?c "wh_id ?h"] v by (simp add: m)
qed

lemma so_far_read:
  assumes f: "so_far s st q" and b: "benign P s (Px_read now millis dest socket opcode buffer)"
  shows "so_far s (px_tick P (Px_read now millis dest socket opcode buffer) st) q"
proof (cases "px_clients st socket")
  case None
  then show ?thesis using f by (simp add: px_tick_def proxy_read_def)
next
  case (Some c)
  let ?c = "c\<lparr>cl_last_recv := now\<rparr>"
  let ?st = "set_client ?c st"
  let ?h = "ws_header_of buffer"
  have r: "so_far s ?st q" using so_far_recv [OF f Some] .
  then have k: "keys_ok ?st" by (simp add: so_far_def)
  have s: "cl_socket c = socket" using f Some keys_okD by (auto simp: so_far_def)
  have "so_far s (forward_client P millis dest ?c (wh_id ?h) (wh_session ?h) (drop 16 buffer) ?st) q" if "socket \<noteq> s \<or> special (wh_id ?h)"
  proof (rule so_far_frame [OF r])
    show "px_clients (forward_client P millis dest ?c (wh_id ?h) (wh_session ?h) (drop 16 buffer) ?st) s = px_clients ?st s"
      "client_msgs s (forward_client P millis dest ?c (wh_id ?h) (wh_session ?h) (drop 16 buffer) ?st) = client_msgs s ?st"
      using that s k r forward_client_other [of ?c s P millis dest] own_special [OF k, of s ?c "wh_id ?h" P millis dest]
      by (cases "socket = s"; auto simp: so_far_def)+
  qed (use k in simp)
  moreover have "so_far s (px_close socket ?st) q" "so_far s (?st\<lparr>px_pongs := w\<rparr>) q" for w using so_far_frame [OF r] k by simp_all
  ultimately show ?thesis using b f r Some by (auto simp: px_tick_def proxy_read_def Let_def)
qed

lemma so_far_shm:
  assumes f: "so_far s st q" and b: "benign P s (Px_shm from session mid buffer)"
  shows "so_far s (proxy_forward_shm P from session mid buffer st) q"
proof -
  have k: "keys_ok st" using f by (simp add: so_far_def)
  have "so_far s (kick_client P from session buffer st) q"
    using so_far_frame [OF f] k by (auto simp: kick_client_def Let_def id_s_client_forward_brd_def split: option.splits)
  moreover have "so_far s (client_forward_brd P session buffer st) q" if t: "trusted_brd P buffer"
  proof (cases "px_clients st (cp_socket (client_part_of buffer))")
    case (Some c)
    have h: "so_far s (on_forward P c (client_part_of buffer) (drop 12 buffer) st) q"
    proof (cases "cp_socket (client_part_of buffer) = s")
      case True
      then show ?thesis using so_far_on_forward [OF f _ t] Some by simp
    next
      case False
      then have "cl_socket c \<noteq> s" using keys_okD [OF k Some] by simp
      then show ?thesis using so_far_frame [OF f] on_forward_other [of c s] k by simp
    qed
    then have "keys_ok (on_forward P c (client_part_of buffer) (drop 12 buffer) st)" by (simp add: so_far_def)
    then show ?thesis using so_far_frame [OF h] f Some by (simp add: client_forward_brd_def Let_def)
  qed (use f in \<open>simp add: client_forward_brd_def Let_def\<close>)
  ultimately show ?thesis using b f by (simp add: proxy_forward_shm_def)
qed

lemma so_far_tick:
  assumes f: "so_far s st q" and b: "benign P s ev"
  shows "so_far s (px_tick P ev st) q"
proof -
  have k: "keys_ok st" and p: "px_clients st s \<noteq> None" using f by (auto simp: so_far_def)
  show ?thesis
  proof (cases ev)
    case (Px_accept socket now)
    then show ?thesis using f p so_far_frame [OF f] k
      by (cases "socket = s"; auto simp: px_tick_def proxy_accept_def split: option.splits)
  next
    case (Px_read now millis dest socket opcode buffer)
    then show ?thesis using so_far_read [OF f] b by simp
  next
    case (Px_broken socket)
    have "keys_ok (st'\<lparr>px_clients := (px_clients st')(socket := None)\<rparr>)" if "px_clients st' = px_clients st" for st'
      using k that by (auto simp: keys_ok_def)
    then show ?thesis using f so_far_frame [OF f] b Px_broken
      by (auto simp: px_tick_def proxy_broken_def report_client_offline_def id_s_client_forward_brd_def Let_def split: option.splits)
  next
    case (Px_check socket now)
    then show ?thesis using f so_far_frame [OF f] k by (auto simp: px_tick_def proxy_check_def split: option.splits)
  next
    case (Px_shm "from" session mid buffer)
    then show ?thesis using so_far_shm [OF f] b by (simp add: px_tick_def)
  qed
qed

interpretation proxy_outbox: outbox "\<lambda>st fs. so_far s st (map frame_message fs)" frame_valid "\<lambda>f. px_tick P (frame_event s f)"
  "px_tick P ` {ev. benign P s ev}" for P s
  by unfold_locales (auto simp: so_far_message so_far_tick)

section \<open>A session of a client\<close>

fun proxy_run :: "proxy_proto \<Rightarrow> proxy_event list \<Rightarrow> proxy \<Rightarrow> proxy option" where
  "proxy_run P [] st = Some st"
| "proxy_run P (ev # evs) st = (case proxy_step P ev st of None \<Rightarrow> None | Some st \<Rightarrow> proxy_run P evs st)"

text \<open>Messages are at least as long as their header, the connection lives, the login service is trusted.\<close>

fun calm :: "proxy_proto \<Rightarrow> u32 \<Rightarrow> proxy_event \<Rightarrow> bool" where
  "calm P s (Px_read now millis dest socket opcode buffer) = (is_websocket_control opcode \<or> 16 \<le> length buffer)"
| "calm P s (Px_broken socket) = (socket \<noteq> s)"
| "calm P s (Px_shm from session mid buffer) = (mid = id_s_client_forward_brd \<longrightarrow> trusted_brd P buffer)"
| "calm P s _ = True"

fun sent_by :: "u32 \<Rightarrow> proxy_event \<Rightarrow> client_frame option" where
  "sent_by s (Px_read now millis dest socket opcode buffer) =
     (if socket = s \<and> \<not> is_websocket_control opcode \<and> \<not> special (wh_id (ws_header_of buffer)) then Some (now, millis, dest, opcode, buffer) else None)"
| "sent_by s _ = None"

definition session_op :: "proxy_proto \<Rightarrow> u32 \<Rightarrow> proxy_event \<Rightarrow> (client_frame, proxy) outbox_op" where
  "session_op P s ev = (case sent_by s ev of None \<Rightarrow> Tick (px_tick P ev) | Some f \<Rightarrow> Write f)"

lemma calm_step: "calm P s ev \<Longrightarrow> proxy_step P ev st = Some (px_tick P ev st)"
  by (cases ev) (auto simp: px_tick_def proxy_read_def is_websocket_control_def Let_def split: option.splits)

lemma sent_by_event: "sent_by s ev = Some f \<Longrightarrow> ev = frame_event s f"
  by (cases ev) (auto split: if_splits)

lemma calm_valid: "calm P s ev \<Longrightarrow> sent_by s ev = Some f \<Longrightarrow> frame_valid f"
  by (cases ev) (auto split: if_splits)

lemma calm_benign: "calm P s ev \<Longrightarrow> sent_by s ev = None \<Longrightarrow> benign P s ev"
  by (cases ev) (auto split: if_splits)

lemma calm_run:
  assumes "\<forall>ev \<in> set evs. calm P s ev"
  shows "proxy_run P evs st = Some (outbox_run (\<lambda>f. px_tick P (frame_event s f)) (map (session_op P s) evs) st)"
  using assms
proof (induction evs arbitrary: st)
  case (Cons ev evs)
  then show ?case using calm_step [of P s ev st]
    by (auto simp: session_op_def split: option.splits dest: sent_by_event)
qed simp

lemma session_written: "written_messages (map (session_op P s) evs) = List.map_filter (sent_by s) evs"
  by (induction evs) (auto simp: session_op_def map_filter_def split: option.splits)

lemma session_in_order:
  assumes f: "so_far s st []" and calm: "\<forall>ev \<in> set evs. calm P s ev"
  shows "\<exists>st'. proxy_run P evs st = Some st' \<and> so_far s st' (map frame_message (List.map_filter (sent_by s) evs))"
proof -
  have "so_far s (outbox_run (\<lambda>f. px_tick P (frame_event s f)) (map (session_op P s) evs) st)
     (map frame_message ([] @ written_messages (map (session_op P s) evs)))"
  proof (rule proxy_outbox.run_keeps_order)
    show "\<forall>m \<in> set (written_messages (map (session_op P s) evs)). frame_valid m"
      using calm calm_valid by (fastforce simp: session_written map_filter_def)
    show "\<forall>t. Tick t \<in> set (map (session_op P s) evs) \<longrightarrow> t \<in> px_tick P ` {ev. benign P s ev}"
      using calm calm_benign by (fastforce simp: session_op_def split: option.splits)
  qed (use f in simp)
  then show ?thesis using calm_run [OF calm] by (simp add: session_written)
qed

definition login_read :: "int \<Rightarrow> u64 \<Rightarrow> u16 \<Rightarrow> u32 \<Rightarrow> byte list \<Rightarrow> proxy_event" where
  "login_read now millis dest s buffer = Px_read now millis dest s 0x2 buffer"

definition connected :: "u32 \<Rightarrow> proxy \<Rightarrow> bool" where
  "connected s st \<longleftrightarrow> (case px_clients st s of None \<Rightarrow> False | Some c \<Rightarrow> cl_socket c = s \<and> \<not> logged_in c \<and> \<not> cl_wait_login c \<and> cl_cache c = [])"

lemma login_starts_session:
  assumes "keys_ok st" "connected s st" "client_msgs s st = []" "16 \<le> length buffer" "wh_id (ws_header_of buffer) = id_login_req"
  shows "\<exists>st'. proxy_step P (login_read now millis dest s buffer) st = Some st' \<and> so_far s st' []"
proof -
  obtain c where c: "px_clients st s = Some c" "cl_socket c = s" "\<not> logged_in c" "\<not> cl_wait_login c" "cl_cache c = []"
    using assms(2) by (auto simp: connected_def split: option.splits)
  let ?c = "c\<lparr>cl_last_recv := now, cl_wait_login := True\<rparr>"
  let ?st = "send_to_service dest ?c id_login_req (wh_session (ws_header_of buffer)) (drop 16 buffer) (set_client ?c (set_client (c\<lparr>cl_last_recv := now\<rparr>) st))"
  have "proxy_step P (login_read now millis dest s buffer) st = Some ?st"
    using c assms(4,5) by (simp add: login_read_def proxy_read_def is_websocket_control_def Let_def forward_client_def client_register_msg_def logged_in_def)
  moreover have "so_far s ?st []" using assms(1,3) c by (intro so_farI [where c = ?c]) (simp_all add: in_session_def)
  ultimately show ?thesis by blast
qed

text \<open>C3: Every message a client sends after its login request, other than pings, logins, moves and requests to enter a room, is handed to a service or kept back until the
  login is through, each once and in the order sent, whatever other clients and the services do meanwhile; once the login is through nothing is kept back.  The conditions: the
  connection is not broken in the meantime, every data message on the proxy's connections is at least as long as its header, and a service that reports a login as successful
  gives the player a positive number.\<close>

theorem client_messages_in_order:
  assumes "keys_ok st" "connected s st" "client_msgs s st = []"
    and "16 \<le> length buffer" "wh_id (ws_header_of buffer) = id_login_req"
    and "\<forall>ev \<in> set evs. calm P s ev"
  shows "\<exists>st' c. proxy_run P (login_read now millis dest s buffer # evs) st = Some st' \<and> px_clients st' s = Some c
    \<and> client_msgs s st' @ cl_cache c = map frame_message (List.map_filter (sent_by s) evs)
    \<and> (\<not> cl_wait_login c \<longrightarrow> logged_in c \<and> cl_cache c = [])"
proof -
  obtain st1 where o: "proxy_step P (login_read now millis dest s buffer) st = Some st1" "so_far s st1 []"
    using login_starts_session [OF assms(1-5)] by blast
  obtain st2 where r: "proxy_run P evs st1 = Some st2" "so_far s st2 (map frame_message (List.map_filter (sent_by s) evs))"
    using session_in_order [OF o(2) assms(6)] by blast
  then show ?thesis using o(1) by (auto simp: so_far_def in_session_def)
qed

definition sample_proto :: proxy_proto where
  "sample_proto = \<lparr>parse_ping_req = (\<lambda>b. Some 0), parse_login_ack = (\<lambda>b. Some (0, 1001, 0)), parse_match_ack = (\<lambda>b. Some (0, 5)),
     parse_move_ack = (\<lambda>b. Some (0, False)), parse_move_brd = (\<lambda>b. Some False), parse_kick_req = (\<lambda>b. None),
     print_common_ack = (\<lambda>ec. []), print_ping_ack = (\<lambda>t1 t2. []), print_offline = (\<lambda>s g u. [])\<rparr>"

definition sample_ws_message :: "u16 \<Rightarrow> u64 \<Rightarrow> byte list" where
  "sample_ws_message mid session = ws_header_bytes \<lparr>wh_flag = flag_valid, wh_id = mid, wh_session = session\<rparr>"

lemma sample_ws_message_simps [simp]: "length (sample_ws_message mid session) = 16" "wh_id (ws_header_of (sample_ws_message mid session @ b)) = mid"
  "wh_session (ws_header_of (sample_ws_message mid session @ b)) = session" "drop 16 (sample_ws_message mid session @ b) = b"
  by (simp_all add: sample_ws_message_def)

definition sample_session :: "proxy_event list" where
  "sample_session = [Px_read 1 0 0 7 2 (sample_ws_message 3 4 @ [5]),
     Px_shm 2 1 id_s_client_forward_brd (client_part_bytes \<lparr>cp_id = 0x1002, cp_logic = 12, cp_socket = 7, cp_userid = 0\<rparr> @ [1]),
     Px_read 2 0 0 7 2 (sample_ws_message 6 9 @ [8])]"

definition sample_proxy :: proxy where
  "sample_proxy = proxy_accept 7 0 (proxy_start 3)"

lemma sample_proxy_facts: "keys_ok sample_proxy" "connected 7 sample_proxy" "client_msgs 7 sample_proxy = []"
  by (simp_all add: sample_proxy_def keys_ok_def connected_def proxy_accept_def proxy_start_def set_client_def logged_in_def client_msgs_def)

lemma sample_session_facts: "\<forall>ev \<in> set sample_session. calm sample_proto 7 ev"
  "map frame_message (List.map_filter (sent_by 7) sample_session) = [(3, 4, [5]), (6, 9, [8])]"
  by (simp_all add: sample_session_def trusted_brd_def sample_proto_def map_filter_def is_websocket_control_def special_def id_ping_req_def
      id_login_req_def id_enter_room_req_def id_move_req_def)

theorem client_messages_in_order_witness:
  "\<exists>st' c. proxy_run sample_proto (login_read 0 0 2 7 (sample_ws_message 2 1 @ [9]) # sample_session) sample_proxy = Some st' \<and> px_clients st' 7 = Some c
    \<and> client_msgs 7 st' @ cl_cache c = [(3, 4, [5]), (6, 9, [8])] \<and> (\<not> cl_wait_login c \<longrightarrow> logged_in c \<and> cl_cache c = [])"
proof -
  have "16 \<le> length (sample_ws_message 2 1 @ [9])" "wh_id (ws_header_of (sample_ws_message 2 1 @ [9])) = id_login_req"
    by (simp_all add: id_login_req_def)
  from client_messages_in_order [OF sample_proxy_facts this sample_session_facts(1)]
  show ?thesis unfolding sample_session_facts(2) .
qed

section \<open>Only players reach the services\<close>

text \<open>The connection and the number of the player that a message of a service reports as logged in.\<close>

fun logins_of :: "proxy_proto \<Rightarrow> proxy_event \<Rightarrow> (u32 \<times> u32) set" where
  "logins_of P (Px_shm from session mid buffer) =
     (if mid = id_s_client_forward_brd \<and> 12 \<le> length buffer \<and> cp_id (client_part_of buffer) = 0x1002
      then (case parse_login_ack P (drop 12 buffer) of
              None \<Rightarrow> {}
            | Some (ec, userid, room) \<Rightarrow> if ec = ec_success then {(cp_socket (client_part_of buffer), userid)} else {})
      else {})"
| "logins_of P _ = {}"

definition logins :: "proxy_proto \<Rightarrow> proxy_event list \<Rightarrow> (u32 \<times> u32) set" where
  "logins P evs = \<Union> (logins_of P ` set evs)"

text \<open>A message of a client for a service is a login request or carries the number with which this connection was reported as logged in.\<close>

definition of_player :: "(u32 \<times> u32) set \<Rightarrow> byte list \<Rightarrow> bool" where
  "of_player L b \<longleftrightarrow> (fp_id (forward_part_of b) = id_s_client_forward_brd \<longrightarrow>
     cp_id (client_part_of (drop 16 b)) = id_login_req \<or> (cp_socket (client_part_of (drop 16 b)), cp_userid (client_part_of (drop 16 b))) \<in> L)"

definition known_player :: "(u32 \<times> u32) set \<Rightarrow> client \<Rightarrow> bool" where
  "known_player L c \<longleftrightarrow> (cl_socket c, cl_userid c) \<in> L"

definition client_ok :: "(u32 \<times> u32) set \<Rightarrow> client \<Rightarrow> bool" where
  "client_ok L c \<longleftrightarrow> (cl_userid c \<noteq> 0 \<or> cl_room c > 0 \<longrightarrow> known_player L c)"

definition guarded :: "(u32 \<times> u32) set \<Rightarrow> proxy \<Rightarrow> bool" where
  "guarded L st \<longleftrightarrow> keys_ok st \<and> (\<forall>s c. px_clients st s = Some c \<longrightarrow> client_ok L c) \<and> (\<forall>b \<in> set (px_sent st). of_player L b)"

lemma guardedD: "guarded L st \<Longrightarrow> px_clients st s = Some c \<Longrightarrow> client_ok L c \<and> cl_socket c = s"
  by (auto simp: guarded_def dest: keys_okD)

lemma client_ok_player: "client_ok L c \<Longrightarrow> logged_in c \<or> cl_room c > 0 \<Longrightarrow> known_player L c"
  by (auto simp: client_ok_def logged_in_def)

lemma guarded_mono: "guarded L st \<Longrightarrow> guarded (L \<union> M) st"
  by (auto simp: guarded_def client_ok_def known_player_def of_player_def)

lemma guarded_simps [simp]:
  "guarded L st \<Longrightarrow> mid = id_login_req \<or> known_player L c \<Longrightarrow> guarded L (send_to_service dest c mid session buf st)"
  "guarded L st \<Longrightarrow> mid \<noteq> id_s_client_forward_brd \<Longrightarrow> guarded L (connector_message dest session mid msg st)"
  "guarded L st \<Longrightarrow> guarded L (px_close socket st)" "guarded L st \<Longrightarrow> guarded L (send_to_client socket mid session msg st)"
  "guarded L st \<Longrightarrow> guarded L (st\<lparr>px_written := w\<rparr>)" "guarded L st \<Longrightarrow> guarded L (st\<lparr>px_pongs := w\<rparr>)"
  by (auto simp: guarded_def keys_ok_def of_player_def known_player_def send_to_service_def connector_message_def px_close_def send_to_client_def
      init_forward_buffer_def Let_def)

lemma guarded_set [simp]: "guarded L st \<Longrightarrow> client_ok L c \<Longrightarrow> guarded L (set_client c st)"
  by (auto simp: guarded_def keys_ok_def set_client_def)

lemma guarded_cached [simp]: "guarded L st \<Longrightarrow> known_player L c \<Longrightarrow> guarded L (send_cached c cache st)"
  by (induction c cache st rule: send_cached.induct) simp_all

lemma client_ok_fields [simp]:
  "client_ok L (c\<lparr>cl_wait_login := b\<rparr>) = client_ok L c" "client_ok L (c\<lparr>cl_cache := q\<rparr>) = client_ok L c" "client_ok L (c\<lparr>cl_last_recv := t\<rparr>) = client_ok L c"
  "client_ok L c \<Longrightarrow> client_ok L (c\<lparr>cl_room := 0\<rparr>)" "known_player L c \<Longrightarrow> client_ok L (c\<lparr>cl_room := r\<rparr>)"
  by (auto simp: client_ok_def known_player_def)

lemma guarded_forward_client:
  assumes "guarded L st" "client_ok L c"
  shows "guarded L (forward_client P now dest c mid session buf st)"
  using assms client_ok_player [OF assms(2)] by (auto simp: client_handlers Let_def split: option.splits)

text \<open>What the services are trusted with: a match is reported as granted only for a player, whose number is not 0.\<close>

fun trusted_event :: "proxy_proto \<Rightarrow> proxy_event \<Rightarrow> bool" where
  "trusted_event P (Px_shm from session mid buffer) = (mid = id_s_client_forward_brd \<and> cp_id (client_part_of buffer) = 0x1003 \<longrightarrow>
     (case parse_match_ack P (drop 12 buffer) of Some (ec, room) \<Rightarrow> ec = ec_success \<longrightarrow> cp_userid (client_part_of buffer) \<noteq> 0 | None \<Rightarrow> True))"
| "trusted_event P _ = True"

lemma guarded_login_ack:
  assumes g: "guarded L st" and c: "cl_socket c = socket"
    and L: "\<And>userid room. parse_login_ack P brd = Some (ec_success, userid, room) \<Longrightarrow> (socket, userid) \<in> L"
  shows "guarded L (client_login_ack P c logic brd st)"
proof (cases "parse_login_ack P brd")
  case None
  then show ?thesis using g by (simp add: client_login_ack_def)
next
  case (Some a)
  obtain ec userid room where a: "a = (ec, userid, room)" by (metis prod_cases3)
  let ?c = "c\<lparr>cl_logic := logic, cl_wait_login := False, cl_room := ucast room, cl_userid := userid\<rparr>"
  have "known_player L ?c" if "ec = ec_success" using that L Some a c by (simp add: known_player_def)
  moreover have "client_ok L (?c\<lparr>cl_cache := []\<rparr>)" if "known_player L ?c" using that by (simp add: client_ok_def known_player_def)
  ultimately show ?thesis using g Some a by (simp add: client_login_ack_def Let_def)
qed

lemma guarded_client_forward_brd:
  assumes g: "guarded L st" and t: "trusted_event P (Px_shm sender session id_s_client_forward_brd buffer)"
    and L: "logins_of P (Px_shm sender session id_s_client_forward_brd buffer) \<subseteq> L"
  shows "guarded L (client_forward_brd P session buffer st)"
proof (cases "length buffer < 12 \<or> px_clients st (cp_socket (client_part_of buffer)) = None")
  case True
  then show ?thesis using g by (auto simp: client_forward_brd_def Let_def)
next
  case False
  then obtain c where c: "px_clients st (cp_socket (client_part_of buffer)) = Some c" and len: "12 \<le> length buffer" by auto
  note ok = guardedD [OF g c]
  have "guarded L (on_forward P c (client_part_of buffer) (drop 12 buffer) st)" if u: "cl_userid c = cp_userid (client_part_of buffer)"
  proof (cases "cp_id (client_part_of buffer) = 0x1002")
    case True
    then show ?thesis using g ok L len by (auto simp: on_forward_def intro!: guarded_login_ack)
  next
    case other: False
    have "known_player L c" if "cp_userid (client_part_of buffer) \<noteq> 0" using that u ok by (simp add: client_ok_def)
    then show ?thesis using g ok t other by (auto simp: service_handlers split: option.splits)
  qed
  then show ?thesis using g c len by (simp add: client_forward_brd_def Let_def)
qed

lemma guarded_step:
  assumes g0: "guarded L0 st" and t: "trusted_event P ev" and s: "proxy_step P ev st = Some st'" and L: "L = L0 \<union> logins_of P ev"
  shows "guarded L st'"
proof -
  have g: "guarded L st" unfolding L by (rule guarded_mono [OF g0])
  show ?thesis
  proof (cases ev)
    case (Px_accept socket now)
    then show ?thesis using g s by (auto simp: proxy_accept_def client_ok_def split: option.splits)
  next
    case (Px_read now millis dest socket opcode buffer)
    show ?thesis
    proof (cases "px_clients st socket")
      case None
      then show ?thesis using g s Px_read by (simp add: proxy_read_def)
    next
      case (Some c)
      let ?c = "c\<lparr>cl_last_recv := now\<rparr>"
      have h: "guarded L (set_client ?c st)" "client_ok L ?c" using g guardedD [OF g Some] by simp_all
      then show ?thesis using guarded_forward_client [OF h] s Px_read Some
        by (simp add: proxy_read_def Let_def split: if_splits) (metis guarded_simps(3,6))+
    qed
  next
    case (Px_broken socket)
    have "guarded L (st\<lparr>px_clients := (px_clients st)(socket := None)\<rparr>)" if "guarded L st" for st using that by (auto simp: guarded_def keys_ok_def)
    then show ?thesis using g s Px_broken
      by (auto simp: proxy_broken_def report_client_offline_def id_s_client_forward_brd_def Let_def split: option.splits)
  next
    case (Px_check socket now)
    then show ?thesis using g s by (auto simp: proxy_check_def split: option.splits)
  next
    case (Px_shm "from" session mid buffer)
    have "guarded L (kick_client P from session buffer st)"
      using g by (auto simp: kick_client_def Let_def id_s_client_forward_brd_def split: option.splits)
    moreover have "guarded L (client_forward_brd P session buffer st)" if "mid = id_s_client_forward_brd"
      using g t L that Px_shm by (intro guarded_client_forward_brd [where sender = "from"]) auto
    ultimately show ?thesis using g s Px_shm by (auto simp: proxy_forward_shm_def)
  qed
qed

lemma guarded_run: "proxy_run P evs st = Some st' \<Longrightarrow> guarded L st \<Longrightarrow> \<forall>ev \<in> set evs. trusted_event P ev \<Longrightarrow> guarded (L \<union> logins P evs) st'"
proof (induction evs arbitrary: st L)
  case (Cons ev evs)
  then obtain st1 where st1: "proxy_step P ev st = Some st1" "proxy_run P evs st1 = Some st'" by (auto split: option.splits)
  have "guarded (L \<union> logins_of P ev) st1" using guarded_step [OF Cons.prems(2) _ st1(1) refl] Cons.prems(3) by simp
  then have "guarded (L \<union> logins_of P ev \<union> logins P evs) st'" using Cons.IH [OF st1(2)] Cons.prems(3) by simp
  then show ?case by (simp add: logins_def Un_assoc)
qed (simp add: logins_def)

text \<open>C26: Whatever the clients send, and in whatever order with the messages of the services: a message of a client that reaches a service, other than a login request, carries
  the number of a player with which a service reported, for this very connection, that the login succeeded.  The services are trusted with one thing, to report a match as
  granted only for a player, whose number is not 0.\<close>

theorem only_players_reach_services:
  assumes "proxy_run P evs (proxy_start i) = Some st" "\<forall>ev \<in> set evs. trusted_event P ev"
    and "b \<in> set (px_sent st)" "fp_id (forward_part_of b) = id_s_client_forward_brd" "cp = client_part_of (drop 16 b)" "cp_id cp \<noteq> id_login_req"
  shows "(cp_socket cp, cp_userid cp) \<in> logins P evs"
proof -
  have "guarded {} (proxy_start i)" by (simp add: guarded_def proxy_start_def keys_ok_def)
  then have "guarded (logins P evs) st" using guarded_run [OF assms(1) _ assms(2)] by fastforce
  then show ?thesis using assms(3-6) by (auto simp: guarded_def of_player_def)
qed

definition player_frame :: "byte list" where
  "player_frame = forward_part_bytes \<lparr>fp_from = 3, fp_to = 12, fp_id = id_s_client_forward_brd, fp_padding = 0, fp_session = 4\<rparr>
     @ client_part_bytes \<lparr>cp_id = 3, cp_logic = 0, cp_socket = 7, cp_userid = 1001\<rparr> @ [5]"

theorem only_players_reach_services_witness:
  "\<exists>st. proxy_run sample_proto (Px_accept 7 0 # login_read 0 0 2 7 (sample_ws_message 2 1 @ [9]) # sample_session) (proxy_start 3) = Some st
     \<and> player_frame \<in> set (px_sent st) \<and> (7, 1001) \<in> logins sample_proto (Px_accept 7 0 # login_read 0 0 2 7 (sample_ws_message 2 1 @ [9]) # sample_session)"
proof -
  let ?evs = "Px_accept 7 0 # login_read 0 0 2 7 (sample_ws_message 2 1 @ [9]) # sample_session"
  have "map_option (\<lambda>st. player_frame \<in> set (px_sent st)) (proxy_run sample_proto ?evs (proxy_start 3)) = Some True" by code_simp
  then obtain st where st: "proxy_run sample_proto ?evs (proxy_start 3) = Some st" "player_frame \<in> set (px_sent st)" by auto
  have t: "\<forall>ev \<in> set ?evs. trusted_event sample_proto ev" by (simp add: sample_session_def login_read_def)
  show ?thesis
    using only_players_reach_services [OF st(1) t st(2) _ refl] st by (auto simp: player_frame_def id_login_req_def)
qed

end
