(* ===== verification/Cancellation_State.thy ===== *)
theory Cancellation_State
  imports Waiter_List "HOL-Library.Monad_Syntax"
begin

text \<open>
  Cancellation (\<open>runtime/src/coro/cancellation_state.cpp\<close>, \<open>cancellation_registration.cpp\<close>): the state a source and its tokens share
  keeps the registered callbacks in an intrusive doubly linked list.  Registrations are named by their address; \<open>live\<close>
  holds those constructed and not yet destroyed, and reading or writing the links of any other is \<open>None\<close>.  \<open>env\<close> is what the callbacks work on.
  \<open>Coro_Mutex\<close> and \<open>Coro_Condition\<close> use the list of registrations and its order; here it is the list of pointers.
\<close>

section \<open>The list of registrations\<close>

record 'e cancellation =
  cancelled :: bool
  registrations :: "addr option"
  reg_next :: "addr \<Rightarrow> addr option"
  reg_prev :: "addr \<Rightarrow> addr option"
  reg_state :: "addr \<Rightarrow> bool"
  live :: "addr set"
  env :: 'e

definition cancellation_start :: "'e \<Rightarrow> 'e cancellation" where
  "cancellation_start e = \<lparr>cancelled = False, registrations = None, reg_next = (\<lambda>_. None), reg_prev = (\<lambda>_. None), reg_state = (\<lambda>_. False),
     live = {}, env = e\<rparr>"

definition can_be_cancelled :: "'e cancellation \<Rightarrow> bool" where
  "can_be_cancelled st \<longleftrightarrow> \<not> cancelled st"

definition is_cancellation_requested :: "'e cancellation \<Rightarrow> bool" where
  "is_cancellation_requested st \<longleftrightarrow> cancelled st"

definition reg_set_next :: "addr \<Rightarrow> addr option \<Rightarrow> 'e cancellation \<Rightarrow> 'e cancellation option" where
  "reg_set_next r p st = (if r \<in> live st then Some (st\<lparr>reg_next := (reg_next st)(r := p)\<rparr>) else None)"

definition reg_set_prev :: "addr \<Rightarrow> addr option \<Rightarrow> 'e cancellation \<Rightarrow> 'e cancellation option" where
  "reg_set_prev r p st = (if r \<in> live st then Some (st\<lparr>reg_prev := (reg_prev st)(r := p)\<rparr>) else None)"

definition on_pointer :: "addr option \<Rightarrow> (addr \<Rightarrow> 'e cancellation \<Rightarrow> 'e cancellation option) \<Rightarrow> 'e cancellation \<Rightarrow> 'e cancellation option" where
  "on_pointer p f st = (case p of None \<Rightarrow> Some st | Some q \<Rightarrow> f q st)"

definition register_callback :: "addr \<Rightarrow> 'e cancellation \<Rightarrow> 'e cancellation option" where
  "register_callback r st =
     (if \<not> can_be_cancelled st then Some st
      else if reg_prev st r \<noteq> None \<or> registrations st = Some r then Some st
      else do {
        st \<leftarrow> reg_set_next r (registrations st) st;
        st \<leftarrow> reg_set_prev r None st;
        st \<leftarrow> on_pointer (registrations st) (\<lambda>f. reg_set_prev f (Some r)) st;
        Some (st\<lparr>registrations := Some r\<rparr>)
      })"

definition deregister_callback :: "addr \<Rightarrow> 'e cancellation \<Rightarrow> 'e cancellation option" where
  "deregister_callback r st = do {
     st \<leftarrow> Some (if registrations st = Some r then st\<lparr>registrations := reg_next st r\<rparr> else st);
     st \<leftarrow> on_pointer (reg_prev st r) (\<lambda>p. reg_set_next p (reg_next st r)) st;
     st \<leftarrow> on_pointer (reg_next st r) (\<lambda>n. reg_set_prev n (reg_prev st r)) st;
     st \<leftarrow> reg_set_next r None st;
     reg_set_prev r None st
   }"

text \<open>The constructor, with a token that has a state, and the destructor of \<open>cancellation_registration\<close>.\<close>

definition reg_construct :: "addr \<Rightarrow> 'e cancellation \<Rightarrow> 'e cancellation option" where
  "reg_construct r st =
     (let st = st\<lparr>live := insert r (live st), reg_next := (reg_next st)(r := None), reg_prev := (reg_prev st)(r := None),
            reg_state := (reg_state st)(r := False)\<rparr>
      in if can_be_cancelled st then register_callback r (st\<lparr>reg_state := (reg_state st)(r := True)\<rparr>) else Some st)"

definition reg_destroy :: "addr \<Rightarrow> 'e cancellation \<Rightarrow> 'e cancellation option" where
  "reg_destroy r st =
     (if r \<notin> live st then None
      else map_option (\<lambda>st. st\<lparr>live := live st - {r}\<rparr>) (if reg_state st r then deregister_callback r st else Some st))"

text \<open>\<open>request_cancellation\<close>: \<open>cb\<close> is what the callback of a registration does.  The links of the new head are not touched.\<close>

definition unlink_head :: "addr \<Rightarrow> 'e cancellation \<Rightarrow> 'e cancellation option" where
  "unlink_head r st = (if r \<notin> live st then None
     else Some (st\<lparr>registrations := reg_next st r, reg_next := (reg_next st)(r := None), reg_prev := (reg_prev st)(r := None),
            reg_state := (reg_state st)(r := False)\<rparr>))"

partial_function (option) cancel_loop :: "(addr \<Rightarrow> 'e cancellation \<Rightarrow> 'e cancellation option) \<Rightarrow> 'e cancellation \<Rightarrow> 'e cancellation option" where
  "cancel_loop cb st = (case registrations st of
     None \<Rightarrow> Some st
   | Some r \<Rightarrow> Option.bind (unlink_head r st) (\<lambda>st. Option.bind (cb r st) (\<lambda>st. cancel_loop cb st)))"

definition request_cancellation :: "(addr \<Rightarrow> 'e cancellation \<Rightarrow> 'e cancellation option) \<Rightarrow> 'e cancellation \<Rightarrow> 'e cancellation option" where
  "request_cancellation cb st = (if is_cancellation_requested st then Some st else cancel_loop cb (st\<lparr>cancelled := True\<rparr>))"

text \<open>The callbacks of the awaiters put a coroutine on a queue and touch no registration.\<close>

definition quiet :: "(addr \<Rightarrow> 'e \<Rightarrow> 'e) \<Rightarrow> addr \<Rightarrow> 'e cancellation \<Rightarrow> 'e cancellation option" where
  "quiet f r st = Some (st\<lparr>env := f r (env st)\<rparr>)"

section \<open>What the links hold\<close>

definition reg_linked :: "'e cancellation \<Rightarrow> addr list \<Rightarrow> bool" where
  "reg_linked st xs \<longleftrightarrow> distinct xs \<and> set xs \<subseteq> live st \<and> registrations st = first_of xs \<and> (cancelled st \<longrightarrow> xs = [])
     \<and> (\<forall>r \<in> live st. reg_next st r = next_of xs r \<and> reg_prev st r = prev_from None xs r \<and> (reg_state st r \<longleftrightarrow> r \<in> set xs))"

lemma first_of_mem: "first_of xs = Some a \<Longrightarrow> a \<in> set xs"
  by (cases xs) auto

lemma next_of_mem: "next_of xs a = Some b \<Longrightarrow> b \<in> set xs"
  by (induction xs) (auto split: if_splits dest: first_of_mem)

lemma prev_from_mem: "prev_from p xs a = Some b \<Longrightarrow> b \<in> set xs \<or> p = Some b"
  by (induction xs arbitrary: p) (auto split: if_splits)

lemma reg_linked_start: "reg_linked (cancellation_start e) []"
  by (simp add: reg_linked_def cancellation_start_def)

lemma reg_linked_construct:
  assumes l: "reg_linked st xs" and r: "r \<notin> live st"
  shows "\<exists>st'. reg_construct r st = Some st' \<and> reg_linked st' (if cancelled st then [] else r # xs) \<and> live st' = insert r (live st)
    \<and> cancelled st' = cancelled st \<and> env st' = env st"
proof (cases "cancelled st")
  case True
  then show ?thesis using l r by (auto simp: reg_construct_def can_be_cancelled_def reg_linked_def)
next
  case False
  have n: "r \<notin> set xs" "registrations st \<noteq> Some r" using l r by (auto simp: reg_linked_def dest: first_of_mem)
  show ?thesis
  proof (cases xs)
    case Nil
    then show ?thesis using l r False by (auto simp: reg_construct_def register_callback_def can_be_cancelled_def reg_set_next_def reg_set_prev_def
        on_pointer_def reg_linked_def)
  next
    case (Cons x ys)
    then have "registrations st = Some x" "x \<noteq> r" "x \<in> live st" using l n by (auto simp: reg_linked_def)
    then show ?thesis using l r n False Cons by (auto simp: reg_construct_def register_callback_def can_be_cancelled_def reg_set_next_def reg_set_prev_def
        on_pointer_def reg_linked_def)
  qed
qed

lemma deregister_links:
  assumes l: "reg_linked st xs" and xs: "xs = ys @ r # zs"
  shows "deregister_callback r st = Some (st\<lparr>registrations := first_of (ys @ zs),
     reg_next := (\<lambda>a. if a = r then None else if last_of ys = Some a then first_of zs else reg_next st a),
     reg_prev := (\<lambda>a. if a = r then None else if first_of zs = Some a then last_of ys else reg_prev st a)\<rparr>)"
proof -
  have m: "distinct xs" "set xs \<subseteq> live st" "registrations st = first_of xs" "r \<in> live st" "r \<notin> set ys" "r \<notin> set zs"
    using l xs by (auto simp: reg_linked_def)
  have nx: "reg_next st r = first_of zs" and pv: "reg_prev st r = last_of ys"
    using l m xs next_of_middle [OF m(5)] prev_from_middle [OF m(5), of None] by (auto simp: reg_linked_def)
  have p: "p \<in> live st \<and> p \<noteq> r" if "last_of ys = Some p" for p using last_of_mem [OF that] m xs by auto
  have n: "n \<in> live st \<and> n \<noteq> r" if "first_of zs = Some n" for n using first_of_mem [OF that] m xs by auto
  have f: "(if registrations st = Some r then first_of zs else registrations st) = first_of (ys @ zs)"
    using m xs by (cases ys) auto
  have f': "registrations st = Some r \<longleftrightarrow> ys = []" using m xs by (cases ys) auto
  show ?thesis
    using nx pv p n m f f'
    by (cases "last_of ys"; cases "first_of zs"; cases ys)
      (auto simp: deregister_callback_def on_pointer_def reg_set_next_def reg_set_prev_def fun_upd_def fun_eq_iff intro!: cancellation.equality)
qed

lemma reg_linked_destroy:
  assumes l: "reg_linked st xs" and r: "r \<in> live st"
  shows "\<exists>st'. reg_destroy r st = Some st' \<and> reg_linked st' (filter (\<lambda>a. a \<noteq> r) xs) \<and> live st' = live st - {r}
    \<and> cancelled st' = cancelled st \<and> env st' = env st"
proof (cases "r \<in> set xs")
  case False
  then have "filter (\<lambda>a. a \<noteq> r) xs = xs" "\<not> reg_state st r" using l r by (auto simp: reg_linked_def filter_id_conv)
  then show ?thesis using l r False by (auto simp: reg_destroy_def reg_linked_def)
next
  case True
  then obtain ys zs where xs: "xs = ys @ r # zs" by (metis split_list)
  have d: "distinct (ys @ r # zs)" using l xs by (simp add: reg_linked_def)
  then have "filter (\<lambda>a. a \<noteq> r) ys = ys" "filter (\<lambda>a. a \<noteq> r) zs = zs" by (auto simp: filter_id_conv)
  then have fl: "filter (\<lambda>a. a \<noteq> r) xs = ys @ zs" using xs by simp
  have "reg_state st r" using l True r by (simp add: reg_linked_def)
  moreover have "\<forall>a \<in> live st. a \<noteq> r \<longrightarrow> (if last_of ys = Some a then first_of zs else reg_next st a) = next_of (ys @ zs) a
      \<and> (if first_of zs = Some a then last_of ys else reg_prev st a) = prev_from None (ys @ zs) a"
    using l d xs next_of_drop [OF d] prev_from_drop [OF d, of None] by (auto simp: reg_linked_def)
  ultimately show ?thesis unfolding fl using l r d xs by (auto simp: reg_destroy_def deregister_links [OF l xs] reg_linked_def)
qed

section \<open>The order of the callbacks\<close>

definition loop_links :: "'e cancellation \<Rightarrow> addr list \<Rightarrow> bool" where
  "loop_links st xs \<longleftrightarrow> distinct xs \<and> set xs \<subseteq> live st \<and> cancelled st \<and> registrations st = first_of xs
     \<and> (\<forall>r \<in> live st. reg_next st r = next_of xs r \<and> (r \<notin> set xs \<longrightarrow> reg_prev st r = None) \<and> (reg_state st r \<longleftrightarrow> r \<in> set xs))"

lemma cancel_loop_quiet:
  assumes "loop_links st xs"
  shows "\<exists>st'. cancel_loop (quiet f) st = Some st' \<and> loop_links st' [] \<and> env st' = fold f xs (env st) \<and> live st' = live st"
  using assms
proof (induction xs arbitrary: st)
  case Nil
  then show ?case by (subst cancel_loop.simps) (simp add: loop_links_def)
next
  case (Cons r xs)
  let ?st = "st\<lparr>registrations := reg_next st r, reg_next := (reg_next st)(r := None), reg_prev := (reg_prev st)(r := None),
     reg_state := (reg_state st)(r := False), env := f r (env st)\<rparr>"
  have r: "registrations st = Some r" "r \<in> live st" using Cons.prems by (auto simp: loop_links_def)
  have "cancel_loop (quiet f) st = cancel_loop (quiet f) ?st"
    by (subst cancel_loop.simps) (simp add: r unlink_head_def quiet_def)
  moreover have "loop_links ?st xs" using Cons.prems by (auto simp: loop_links_def next_of_absent)
  ultimately show ?case using Cons.IH [of ?st] by auto
qed

lemma request_cancellation_quiet:
  assumes "reg_linked st xs"
  shows "\<exists>st'. request_cancellation (quiet f) st = Some st' \<and> reg_linked st' [] \<and> is_cancellation_requested st'
    \<and> env st' = fold f xs (env st) \<and> live st' = live st"
proof (cases "cancelled st")
  case True
  then show ?thesis using assms by (auto simp: request_cancellation_def is_cancellation_requested_def reg_linked_def)
next
  case False
  have "loop_links (st\<lparr>cancelled := True\<rparr>) xs" using assms by (auto simp: loop_links_def reg_linked_def prev_from_absent)
  from cancel_loop_quiet [OF this, of f] False show ?thesis
    by (auto simp: request_cancellation_def is_cancellation_requested_def reg_linked_def loop_links_def)
qed

section \<open>The contract\<close>

text \<open>A registry of callbacks: the newest comes first, any can leave, and a cancellation runs those present in order.\<close>

datatype 'a registry_op = Construct 'a | Destroy 'a

fun registry_run :: "('a \<Rightarrow> 's \<Rightarrow> 's option) \<Rightarrow> ('a \<Rightarrow> 's \<Rightarrow> 's option) \<Rightarrow> 'a registry_op list \<Rightarrow> 's \<Rightarrow> 's option" where
  "registry_run construct destroy [] s = Some s"
| "registry_run construct destroy (Construct a # ops) s = Option.bind (construct a s) (registry_run construct destroy ops)"
| "registry_run construct destroy (Destroy a # ops) s = Option.bind (destroy a s) (registry_run construct destroy ops)"

text \<open>What is registered after the operations, newest first, and that nothing is constructed twice or destroyed without being there.\<close>

fun present :: "'a registry_op list \<Rightarrow> 'a list \<Rightarrow> 'a list" where
  "present [] xs = xs"
| "present (Construct a # ops) xs = present ops (a # xs)"
| "present (Destroy a # ops) xs = present ops (filter (\<lambda>b. b \<noteq> a) xs)"

fun proper :: "'a registry_op list \<Rightarrow> 'a set \<Rightarrow> bool" where
  "proper [] known \<longleftrightarrow> True"
| "proper (Construct a # ops) known \<longleftrightarrow> a \<notin> known \<and> proper ops (insert a known)"
| "proper (Destroy a # ops) known \<longleftrightarrow> a \<in> known \<and> proper ops (known - {a})"

locale callback_registry =
  fixes rep :: "'s \<Rightarrow> 'a list \<Rightarrow> bool" and known :: "'s \<Rightarrow> 'a set"
    and construct :: "'a \<Rightarrow> 's \<Rightarrow> 's option" and destroy :: "'a \<Rightarrow> 's \<Rightarrow> 's option"
  assumes construct_adds: "rep s xs \<Longrightarrow> a \<notin> known s \<Longrightarrow> \<exists>s'. construct a s = Some s' \<and> rep s' (a # xs) \<and> known s' = insert a (known s)"
    and destroy_removes: "rep s xs \<Longrightarrow> a \<in> known s \<Longrightarrow>
      \<exists>s'. destroy a s = Some s' \<and> rep s' (filter (\<lambda>b. b \<noteq> a) xs) \<and> known s' = known s - {a}"
begin

lemma run_present:
  assumes "rep s xs" "proper ops (known s)"
  shows "\<exists>s'. registry_run construct destroy ops s = Some s' \<and> rep s' (present ops xs)"
  using assms
proof (induction ops arbitrary: s xs)
  case (Cons op ops)
  show ?case
  proof (cases op)
    case (Construct a)
    then obtain s' where "construct a s = Some s'" "rep s' (a # xs)" "known s' = insert a (known s)"
      using construct_adds [OF Cons.prems(1), of a] Cons.prems(2) by auto
    then show ?thesis using Cons.IH [of s' "a # xs"] Cons.prems(2) Construct by simp
  next
    case (Destroy a)
    then obtain s' where "destroy a s = Some s'" "rep s' (filter (\<lambda>b. b \<noteq> a) xs)" "known s' = known s - {a}"
      using destroy_removes [OF Cons.prems(1), of a] Cons.prems(2) by auto
    then show ?thesis using Cons.IH [of s' "filter (\<lambda>b. b \<noteq> a) xs"] Cons.prems(2) Destroy by simp
  qed
qed simp

end

definition armed :: "'e \<Rightarrow> 'e cancellation \<Rightarrow> addr list \<Rightarrow> bool" where
  "armed e st xs \<longleftrightarrow> reg_linked st xs \<and> \<not> cancelled st \<and> env st = e"

interpretation registrations: callback_registry "armed e" live reg_construct reg_destroy for e
proof
  fix st :: "'a cancellation" and xs r
  assume a: "armed e st xs"
  show "\<exists>st'. reg_construct r st = Some st' \<and> armed e st' (r # xs) \<and> live st' = insert r (live st)" if "r \<notin> live st"
    using reg_linked_construct [OF _ that, of xs] a by (auto simp: armed_def)
  show "\<exists>st'. reg_destroy r st = Some st' \<and> armed e st' (filter (\<lambda>b. b \<noteq> r) xs) \<and> live st' = live st - {r}" if "r \<in> live st"
    using reg_linked_destroy [OF _ that, of xs] a by (auto simp: armed_def)
qed

text \<open>C20: After any proper sequence of constructions and destructions of registrations, and for callbacks that themselves construct and destroy no registration of this
  state, a cancellation ends, runs the callback of every registration that is left, each once, the newest first, and leaves none registered; a second one runs nothing.
  Callbacks that destroy registrations are excluded: the links then left behind are stale.\<close>

theorem cancellation_calls_each_once:
  assumes "proper ops {}"
  shows "\<exists>st st'. registry_run reg_construct reg_destroy ops (cancellation_start e) = Some st
    \<and> request_cancellation (quiet f) st = Some st' \<and> env st' = fold f (present ops []) e
    \<and> registrations st' = None \<and> is_cancellation_requested st' \<and> request_cancellation (quiet f) st' = Some st'"
proof -
  have "armed e (cancellation_start e) []" by (simp add: armed_def reg_linked_start) (simp add: cancellation_start_def)
  moreover have "proper ops (live (cancellation_start e))" using assms by (simp add: cancellation_start_def)
  ultimately obtain st where st: "registry_run reg_construct reg_destroy ops (cancellation_start e) = Some st" "armed e st (present ops [])"
    using registrations.run_present [of e "cancellation_start e" "[]" ops] by auto
  then obtain st' where "request_cancellation (quiet f) st = Some st'" "reg_linked st' []" "is_cancellation_requested st'"
    "env st' = fold f (present ops []) e"
    using request_cancellation_quiet [of st "present ops []" f] by (auto simp: armed_def)
  then show ?thesis using st(1)
    by (intro exI [of _ st] exI [of _ st']) (simp add: reg_linked_def request_cancellation_def [of _ st'])
qed

theorem cancellation_calls_each_once_witness:
  "\<exists>st st'. registry_run reg_construct reg_destroy [Construct 1, Construct 2, Construct 3, Destroy 2] (cancellation_start []) = Some st
    \<and> request_cancellation (quiet (\<lambda>r e. e @ [r])) st = Some st' \<and> env st' = [3, 1 :: addr]
    \<and> registrations st' = None \<and> is_cancellation_requested st' \<and> request_cancellation (quiet (\<lambda>r e. e @ [r])) st' = Some st'"
  using cancellation_calls_each_once [of "[Construct 1, Construct 2, Construct 3, Destroy 2]" "[] :: addr list" "\<lambda>r e. e @ [r]"] by simp

text \<open>The head leaves the list without the link back to it being cleared in the next registration: a callback that destroys its own registration and
  then the next one writes into the one already destroyed.\<close>

theorem stale_link_after_unlink:
  "(do { st \<leftarrow> registry_run reg_construct reg_destroy [Construct 1, Construct 2] (cancellation_start ());
         request_cancellation (\<lambda>r st. if r = 2 then reg_destroy 2 st \<bind> reg_destroy 1 else Some st) st }) = None"
proof -
  let ?st = "\<lparr>cancelled = True, registrations = Some 2, reg_next = (\<lambda>_. None)(2 := Some 1), reg_prev = (\<lambda>_. None)(1 := Some 2),
    reg_state = (\<lambda>_. False)(1 := True, 2 := True), live = {1, 2}, env = ()\<rparr>"
  have "registry_run reg_construct reg_destroy [Construct 1, Construct 2] (cancellation_start ()) = Some (?st\<lparr>cancelled := False\<rparr>)"
    by (auto simp: reg_construct_def register_callback_def can_be_cancelled_def cancellation_start_def reg_set_next_def reg_set_prev_def on_pointer_def fun_eq_iff)
  moreover have "cancel_loop (\<lambda>r st. if r = 2 then reg_destroy 2 st \<bind> reg_destroy 1 else Some st) ?st = None"
    by (subst cancel_loop.simps) (simp add: unlink_head_def reg_destroy_def deregister_callback_def on_pointer_def reg_set_next_def)
  ultimately show ?thesis by (simp add: request_cancellation_def is_cancellation_requested_def)
qed

end
