(* ===== verification/Parallel_Task.thy ===== *)
theory Parallel_Task
  imports Prelude "HOL-Library.Transitive_Closure_Table"
begin

text \<open>
  Waiting for several tasks (\<open>runtime/include/simple/coro/parallel_task.hpp\<close>) and the operators \<open>&&\<close> and \<open>||\<close> on tasks
  (\<open>task_operators.hpp\<close>).  A task is what the environment makes of it: once started and not cancelled it ends at some time with a value or an
  exception.  \<open>final_suspend\<close> is two steps, because the cancellation it requests may run other tasks to their end
  before the counter is decremented.  \<open>pc_goes\<close> counts how often the waiting coroutine goes on; \<open>pc_order\<close> records the order in which tasks ended.
\<close>

section \<open>The counter\<close>

datatype wait_type = Wait_all | Wait_one | Wait_one_fail | Wait_one_succ

datatype 'e coro_exn = Canceled | Logic_error | User 'e

datatype ('e, 'v) par_outcome = Value 'v | Exc "'e coro_exn"

fun is_exc :: "('e, 'v) par_outcome \<Rightarrow> bool" where
  "is_exc (Exc e) = True"
| "is_exc (Value v) = False"

datatype phase = Unstarted | Running | Notifying | Done

record ('e, 'v) ptask =
  pt_phase :: phase
  pt_outcome :: "('e, 'v) par_outcome option"
  pt_index :: u64

datatype stage = Init | Starting | Awaited | Skipped

record ('e, 'v) parallel =
  pc_count :: u64
  pc_type :: wait_type
  pc_cancelled :: bool
  pc_next_index :: u64
  pc_tasks :: "('e, 'v) ptask list"
  pc_stage :: stage
  pc_registered :: bool
  pc_parent :: bool
  pc_goes :: nat
  pc_order :: "nat list"

text \<open>\<open>when_ready\<close>: the counter is one more than the number of tasks; the index of a task that has not ended is the greatest \<open>size_t\<close>.\<close>

definition when_ready :: "wait_type \<Rightarrow> nat \<Rightarrow> ('e, 'v) parallel" where
  "when_ready tp n = \<lparr>pc_count = of_nat n + 1, pc_type = tp, pc_cancelled = False, pc_next_index = 0,
     pc_tasks = replicate n \<lparr>pt_phase = Unstarted, pt_outcome = None, pt_index = - 1\<rparr>,
     pc_stage = Init, pc_registered = False, pc_parent = False, pc_goes = 0, pc_order = []\<rparr>"

definition request_cancel :: "('e, 'v) parallel \<Rightarrow> ('e, 'v) parallel" where
  "request_cancel st = st\<lparr>pc_cancelled := True\<rparr>"

definition notify_cancel :: "bool \<Rightarrow> ('e, 'v) parallel \<Rightarrow> ('e, 'v) parallel" where
  "notify_cancel has_exception st = (case pc_type st of
     Wait_one \<Rightarrow> if \<not> pc_cancelled st then request_cancel st else st
   | Wait_one_fail \<Rightarrow> if has_exception \<and> \<not> pc_cancelled st then request_cancel st else st
   | Wait_one_succ \<Rightarrow> if \<not> has_exception \<and> \<not> pc_cancelled st then request_cancel st else st
   | Wait_all \<Rightarrow> st)"

definition notify_count :: "('e, 'v) parallel \<Rightarrow> ('e, 'v) parallel" where
  "notify_count st =
     (let count = pc_count st; st = st\<lparr>pc_count := count - 1\<rparr>
      in if count = 1 then st\<lparr>pc_goes := pc_goes st + 1\<rparr> else st)"

definition increment_index :: "('e, 'v) parallel \<Rightarrow> u64 \<times> ('e, 'v) parallel" where
  "increment_index st = (pc_next_index st, st\<lparr>pc_next_index := pc_next_index st + 1\<rparr>)"

definition set_task :: "nat \<Rightarrow> ('e, 'v) ptask \<Rightarrow> ('e, 'v) parallel \<Rightarrow> ('e, 'v) parallel" where
  "set_task i t st = st\<lparr>pc_tasks := (pc_tasks st)[i := t]\<rparr>"

text \<open>The end of a task up to the cancellation, and the rest of \<open>notify\<close>.\<close>

definition task_ends :: "nat \<Rightarrow> ('e, 'v) par_outcome \<Rightarrow> ('e, 'v) parallel \<Rightarrow> ('e, 'v) parallel" where
  "task_ends i out st =
     (let (index, st) = increment_index st;
          st = set_task i \<lparr>pt_phase = Notifying, pt_outcome = Some out, pt_index = index\<rparr> st
      in notify_cancel (is_exc out) (st\<lparr>pc_order := pc_order st @ [i]\<rparr>))"

definition task_settles :: "nat \<Rightarrow> ('e, 'v) parallel \<Rightarrow> ('e, 'v) parallel" where
  "task_settles i st = notify_count (set_task i ((pc_tasks st ! i)\<lparr>pt_phase := Done\<rparr>) st)"

text \<open>\<open>start\<close> resumes the coroutine of \<open>make_parallel_task\<close>, which looks at the token first.\<close>

definition task_start :: "nat \<Rightarrow> ('e, 'v) parallel \<Rightarrow> ('e, 'v) parallel" where
  "task_start i st = (if pc_cancelled st then task_ends i (Exc Canceled) st
     else set_task i ((pc_tasks st ! i)\<lparr>pt_phase := Running\<rparr>) st)"

definition try_await :: "('e, 'v) parallel \<Rightarrow> bool \<times> ('e, 'v) parallel" where
  "try_await st = (pc_count st > 1, st\<lparr>pc_stage := Awaited, pc_count := pc_count st - 1\<rparr>)"

text \<open>\<open>await_suspend\<close> before and after the tasks are started.  When it returns false the coroutine goes on at once.\<close>

definition await_begin :: "('e, 'v) parallel \<Rightarrow> ('e, 'v) parallel" where
  "await_begin st = (if pc_parent st then st\<lparr>pc_stage := Skipped, pc_goes := pc_goes st + 1\<rparr> else st\<lparr>pc_stage := Starting\<rparr>)"

definition await_finish :: "('e, 'v) parallel \<Rightarrow> ('e, 'v) parallel" where
  "await_finish st = (case try_await st of (ret, st) \<Rightarrow>
     if ret then (if \<not> pc_parent st then st\<lparr>pc_registered := True\<rparr> else st) else st\<lparr>pc_goes := pc_goes st + 1\<rparr>)"

definition cancel_parent :: "('e, 'v) parallel \<Rightarrow> ('e, 'v) parallel" where
  "cancel_parent st = (if pc_parent st then st
     else let st = st\<lparr>pc_parent := True\<rparr> in if pc_registered st then request_cancel (st\<lparr>pc_registered := False\<rparr>) else st)"

definition par_await_resume :: "('e, 'v) parallel \<Rightarrow> 'e coro_exn + ('e, 'v) ptask list" where
  "par_await_resume st = (if pc_parent st then Inl Canceled else Inr (pc_tasks st))"

definition started :: "('e, 'v) parallel \<Rightarrow> nat" where
  "started st = length (takeWhile (\<lambda>t. pt_phase t \<noteq> Unstarted) (pc_tasks st))"

inductive par_step :: "('e, 'v) parallel \<Rightarrow> ('e, 'v) parallel \<Rightarrow> bool" where
  begins: "pc_stage st = Init \<Longrightarrow> par_step st (await_begin st)"
| starts: "pc_stage st = Starting \<Longrightarrow> started st < length (pc_tasks st) \<Longrightarrow> par_step st (task_start (started st) st)"
| awaits: "pc_stage st = Starting \<Longrightarrow> started st = length (pc_tasks st) \<Longrightarrow> par_step st (await_finish st)"
| ends: "i < length (pc_tasks st) \<Longrightarrow> pt_phase (pc_tasks st ! i) = Running \<Longrightarrow> par_step st (task_ends i out st)"
| settles: "i < length (pc_tasks st) \<Longrightarrow> pt_phase (pc_tasks st ! i) = Notifying \<Longrightarrow> par_step st (task_settles i st)"
| parent: "par_step st (cancel_parent st)"

definition par_reach :: "wait_type \<Rightarrow> nat \<Rightarrow> ('e, 'v) parallel \<Rightarrow> bool" where
  "par_reach tp n st \<longleftrightarrow> par_step\<^sup>*\<^sup>* (when_ready tp n) st"

section \<open>The operators\<close>

datatype ('e, 'r) op_result = Returns 'r | Throws "'e coro_exn" | Multiple "'e coro_exn"

text \<open>The body the overloads of \<open>&&\<close> share: \<open>k\<close> is what is returned of the two results.\<close>

definition task_exception :: "('e, 'v) ptask \<Rightarrow> 'e coro_exn option" where
  "task_exception t = (case pt_outcome t of Some (Exc e) \<Rightarrow> Some e | _ \<Rightarrow> None)"

definition task_result :: "('e, 'v) ptask \<Rightarrow> 'v option" where
  "task_result t = (case pt_outcome t of Some (Value v) \<Rightarrow> Some v | _ \<Rightarrow> None)"

definition and_tasks :: "('v \<Rightarrow> 'v \<Rightarrow> 'r) \<Rightarrow> ('e, 'v) ptask \<Rightarrow> ('e, 'v) ptask \<Rightarrow> ('e, 'r) op_result option" where
  "and_tasks k l r = (case (task_exception l, task_exception r) of
     (Some le, Some re) \<Rightarrow> Some (Multiple le)
   | (Some le, None) \<Rightarrow> Some (Throws le)
   | (None, Some re) \<Rightarrow> Some (Throws re)
   | (None, None) \<Rightarrow> (case (task_result l, task_result r) of (Some a, Some b) \<Rightarrow> Some (Returns (k a b)) | _ \<Rightarrow> None))"

definition or_tasks :: "('v \<Rightarrow> ('e, 'r) op_result) \<Rightarrow> ('v \<Rightarrow> ('e, 'r) op_result) \<Rightarrow> ('e, 'v) ptask \<Rightarrow> ('e, 'v) ptask \<Rightarrow> ('e, 'r) op_result option" where
  "or_tasks f g l r =
     (let left = map_option f (task_result l); right = map_option g (task_result r)
      in if pt_index l = 0
         then (case task_exception l of None \<Rightarrow> left
               | Some le \<Rightarrow> if task_exception r = None then right else Some (Multiple le))
         else (case task_exception r of None \<Rightarrow> right
               | Some re \<Rightarrow> if task_exception l = None then left else Some (Multiple re)))"

definition on_pair :: "(('e, 'v) ptask \<Rightarrow> ('e, 'v) ptask \<Rightarrow> ('e, 'r) op_result option) \<Rightarrow> ('e, 'v) parallel \<Rightarrow> ('e, 'r) op_result option" where
  "on_pair f st = (case par_await_resume st of Inl e \<Rightarrow> Some (Throws e) | Inr [l, r] \<Rightarrow> f l r | Inr _ \<Rightarrow> None)"

text \<open>The overloads, with \<open>monostate\<close> as the unit and a variant as the number of the alternative with its value.  \<open>widen_variant\<close> looks for the alternative
  from the first on; \<open>k\<close> is the number of alternatives on the left.  Next to a tuple the other operand is the tuple of its one value.\<close>

definition and_void_void :: "('e, 'v) parallel \<Rightarrow> ('e, unit) op_result option" where
  "and_void_void = on_pair (and_tasks (\<lambda>a b. ()))"

definition and_left :: "('e, 'v) parallel \<Rightarrow> ('e, 'v) op_result option" where
  "and_left = on_pair (and_tasks (\<lambda>a b. a))"

definition and_right :: "('e, 'v) parallel \<Rightarrow> ('e, 'v) op_result option" where
  "and_right = on_pair (and_tasks (\<lambda>a b. b))"

definition and_both :: "('e, 'v) parallel \<Rightarrow> ('e, 'v list) op_result option" where
  "and_both = on_pair (and_tasks (\<lambda>a b. [a, b]))"

definition and_tuple_void :: "('e, 'v list) parallel \<Rightarrow> ('e, 'v list) op_result option" where
  "and_tuple_void = on_pair (and_tasks (\<lambda>a b. a))"

definition and_tuple :: "('e, 'v list) parallel \<Rightarrow> ('e, 'v list) op_result option" where
  "and_tuple = on_pair (and_tasks (\<lambda>a b. a @ b))"

definition or_void_void :: "('e, 'v) parallel \<Rightarrow> ('e, unit + unit) op_result option" where
  "or_void_void = on_pair (or_tasks (\<lambda>_. Returns (Inl ())) (\<lambda>_. Returns (Inr ())))"

definition or_left :: "('e, 'v) parallel \<Rightarrow> ('e, 'v + unit) op_result option" where
  "or_left = on_pair (or_tasks (\<lambda>a. Returns (Inl a)) (\<lambda>_. Returns (Inr ())))"

definition or_right :: "('e, 'v) parallel \<Rightarrow> ('e, unit + 'v) op_result option" where
  "or_right = on_pair (or_tasks (\<lambda>_. Returns (Inl ())) (\<lambda>b. Returns (Inr b)))"

definition or_both :: "('e, 'v) parallel \<Rightarrow> ('e, 'v + 'v) op_result option" where
  "or_both = on_pair (or_tasks (\<lambda>a. Returns (Inl a)) (\<lambda>b. Returns (Inr b)))"

function widen_variant :: "nat \<Rightarrow> nat \<Rightarrow> nat \<times> 'v \<Rightarrow> ('e, nat \<times> 'v) op_result" where
  "widen_variant k i source =
     (if fst source = i then Returns source else if i + 1 < k then widen_variant k (i + 1) source else Throws Logic_error)"
  by pat_completeness auto

termination by (relation "measure (\<lambda>(k, i, source). k - i)") auto

declare widen_variant.simps [simp del]

definition or_variant :: "nat \<Rightarrow> ('e, nat \<times> 'v) parallel \<Rightarrow> ('e, nat \<times> 'v) op_result option" where
  "or_variant k = on_pair (or_tasks (widen_variant k 0) (\<lambda>(_, b). Returns (k, b)))"

definition or_variant_void :: "nat \<Rightarrow> ('e, nat \<times> unit) parallel \<Rightarrow> ('e, nat \<times> unit) op_result option" where
  "or_variant_void k = on_pair (or_tasks (widen_variant k 0) (\<lambda>_. Returns (k, ())))"

lemma widen_variant_found: "fst source < k \<Longrightarrow> i \<le> fst source \<Longrightarrow> widen_variant k i source = Returns source"
  by (induction k i source rule: widen_variant.induct) (subst widen_variant.simps, auto)

section \<open>The count of tasks under way\<close>

abbreviation ph :: "('e, 'v) parallel \<Rightarrow> nat \<Rightarrow> phase" where
  "ph st i \<equiv> pt_phase (pc_tasks st ! i)"

definition dones :: "('e, 'v) parallel \<Rightarrow> nat set" where
  "dones st = {i. i < length (pc_tasks st) \<and> ph st i = Done}"

definition awaited :: "('e, 'v) parallel \<Rightarrow> nat" where
  "awaited st = (if pc_stage st = Awaited then 1 else 0)"

text \<open>The numbers and the phases agree with the stage and with the order in which the tasks ended.\<close>

definition count_inv :: "nat \<Rightarrow> ('e, 'v) parallel \<Rightarrow> bool" where
  "count_inv n st \<longleftrightarrow> length (pc_tasks st) = n \<and> pc_count st = of_nat (n + 1 - card (dones st) - awaited st)
     \<and> pc_goes st = (if pc_stage st = Skipped \<or> pc_stage st = Awaited \<and> card (dones st) = n then 1 else 0)
     \<and> (pc_stage st \<in> {Init, Skipped} \<longrightarrow> (\<forall>i < n. ph st i = Unstarted)) \<and> (pc_stage st = Awaited \<longrightarrow> (\<forall>i < n. ph st i \<noteq> Unstarted))"

definition order_inv :: "wait_type \<Rightarrow> nat \<Rightarrow> ('e, 'v) parallel \<Rightarrow> bool" where
  "order_inv tp n st \<longleftrightarrow> length (pc_tasks st) = n \<and> pc_type st = tp \<and> distinct (pc_order st) \<and> set (pc_order st) = {i. i < n \<and> ph st i \<in> {Notifying, Done}}
     \<and> pc_next_index st = of_nat (length (pc_order st))
     \<and> (\<forall>p < length (pc_order st). pt_index (pc_tasks st ! (pc_order st ! p)) = of_nat p)
     \<and> (\<forall>i < n. pt_outcome (pc_tasks st ! i) = None \<longleftrightarrow> ph st i \<in> {Unstarted, Running})"

lemma dones_finite [simp]: "finite (dones st)"
  by (simp add: dones_def)

lemma card_dones: "card (dones st) \<le> length (pc_tasks st)"
proof -
  have "dones st \<subseteq> {..<length (pc_tasks st)}" by (auto simp: dones_def)
  then show ?thesis using card_mono [of "{..<length (pc_tasks st)}" "dones st"] by simp
qed

lemma dones_settle: "i < length (pc_tasks st) \<Longrightarrow> dones (task_settles i st) = insert i (dones st)"
  by (auto simp: dones_def task_settles_def set_task_def notify_count_def Let_def nth_list_update)

lemma notify_cancel_simps [simp]: "pc_count (notify_cancel b st) = pc_count st" "pc_tasks (notify_cancel b st) = pc_tasks st"
  "pc_stage (notify_cancel b st) = pc_stage st" "pc_goes (notify_cancel b st) = pc_goes st" "pc_order (notify_cancel b st) = pc_order st"
  "pc_next_index (notify_cancel b st) = pc_next_index st" "pc_type (notify_cancel b st) = pc_type st" "pc_parent (notify_cancel b st) = pc_parent st"
  by (simp_all add: notify_cancel_def request_cancel_def split: wait_type.splits)

lemma dones_change:
  "i < length (pc_tasks st) \<Longrightarrow> ph st i \<noteq> Done \<Longrightarrow> pt_phase t \<noteq> Done \<Longrightarrow> pc_tasks st' = (pc_tasks st)[i := t] \<Longrightarrow> dones st' = dones st"
  by (auto simp: dones_def nth_list_update)

lemma task_ends_simps [simp]: "pc_count (task_ends i out st) = pc_count st" "pc_stage (task_ends i out st) = pc_stage st"
  "pc_tasks (task_ends i out st) = (pc_tasks st)[i := \<lparr>pt_phase = Notifying, pt_outcome = Some out, pt_index = pc_next_index st\<rparr>]"
  "pc_goes (task_ends i out st) = pc_goes st" "pc_order (task_ends i out st) = pc_order st @ [i]"
  "pc_next_index (task_ends i out st) = pc_next_index st + 1" "pc_type (task_ends i out st) = pc_type st" "pc_parent (task_ends i out st) = pc_parent st"
  by (simp_all add: task_ends_def increment_index_def set_task_def)

lemma task_settles_simps [simp]: "pc_count (task_settles i st) = pc_count st - 1" "pc_stage (task_settles i st) = pc_stage st"
  "pc_tasks (task_settles i st) = (pc_tasks st)[i := (pc_tasks st ! i)\<lparr>pt_phase := Done\<rparr>]"
  "pc_goes (task_settles i st) = (if pc_count st = 1 then pc_goes st + 1 else pc_goes st)" "pc_order (task_settles i st) = pc_order st"
  "pc_next_index (task_settles i st) = pc_next_index st" "pc_type (task_settles i st) = pc_type st" "pc_parent (task_settles i st) = pc_parent st"
  "pc_cancelled (task_settles i st) = pc_cancelled st"
  by (simp_all add: task_settles_def set_task_def notify_count_def Let_def)

lemma count_inv_ends:
  assumes "count_inv n st" "i < n" "ph st i \<in> {Unstarted, Running}" "pc_stage st \<notin> {Init, Skipped}"
  shows "count_inv n (task_ends i out st)"
proof -
  have "dones (task_ends i out st) = dones st" using assms by (intro dones_change [of i]) (auto simp: count_inv_def)
  then show ?thesis using assms by (auto simp: count_inv_def awaited_def nth_list_update)
qed

lemma count_inv_start:
  assumes "count_inv n st" "i < n" "ph st i = Unstarted" "pc_stage st = Starting"
  shows "count_inv n (task_start i st)"
proof (cases "pc_cancelled st")
  case True
  then show ?thesis using count_inv_ends [OF assms(1,2)] assms(3,4) by (simp add: task_start_def)
next
  case False
  then have "dones (task_start i st) = dones st" using assms
    by (intro dones_change [of i _ "(pc_tasks st ! i)\<lparr>pt_phase := Running\<rparr>"]) (auto simp: count_inv_def task_start_def set_task_def)
  then show ?thesis using assms False by (auto simp: count_inv_def awaited_def task_start_def set_task_def nth_list_update)
qed

lemma of_nat_is_one: "k < size_t_modulus \<Longrightarrow> (of_nat k :: u64) = 1 \<longleftrightarrow> k = 1"
proof -
  assume "k < size_t_modulus"
  then have "unat (of_nat k :: u64) = k" by (rule unat_u64_of_nat)
  then show ?thesis by (auto simp: word_unat_eq_iff)
qed

lemma of_nat_gt_one: "k < size_t_modulus \<Longrightarrow> (of_nat k :: u64) > 1 \<longleftrightarrow> k > 1"
proof -
  assume "k < size_t_modulus"
  then have "unat (of_nat k :: u64) = k" by (rule unat_u64_of_nat)
  then show ?thesis by (simp add: word_less_nat_alt)
qed

lemma of_nat_pred: "0 < k \<Longrightarrow> (of_nat k :: u64) - 1 = of_nat (k - 1)"
  by (simp add: of_nat_diff)

lemma count_inv_settles:
  assumes c: "count_inv n st" and i: "i < n" "ph st i = Notifying" and n: "n + 1 < size_t_modulus"
  shows "count_inv n (task_settles i st)"
proof -
  let ?k = "n + 1 - card (dones st) - awaited st"
  have l: "length (pc_tasks st) = n" and s: "pc_stage st \<notin> {Init, Skipped}" using c i by (auto simp: count_inv_def)
  have "i \<notin> dones st" using i by (simp add: dones_def)
  then have d: "card (dones (task_settles i st)) = card (dones st) + 1" using dones_settle [of i st] l i by simp
  moreover have "card (dones (task_settles i st)) \<le> n" using card_dones [of "task_settles i st"] l by simp
  ultimately have k: "0 < ?k" "card (dones st) < n" by (auto simp: awaited_def)
  have one: "pc_count st = 1 \<longleftrightarrow> pc_stage st = Awaited \<and> card (dones st) + 1 = n"
    using c of_nat_is_one [of ?k] n k by (auto simp: count_inv_def awaited_def)
  have "pc_count st - 1 = of_nat (n + 1 - (card (dones st) + 1) - awaited st)" using c of_nat_pred [OF k(1)] by (simp add: count_inv_def)
  then show ?thesis using c s i l one d k
    by (auto simp: count_inv_def awaited_def nth_list_update)
qed

lemma started_unstarted: "started st < length (pc_tasks st) \<Longrightarrow> ph st (started st) = Unstarted"
  using nth_length_takeWhile [of "\<lambda>t. pt_phase t \<noteq> Unstarted" "pc_tasks st"] by (simp add: started_def)

lemma started_all: "started st = length (pc_tasks st) \<Longrightarrow> i < length (pc_tasks st) \<Longrightarrow> ph st i \<noteq> Unstarted"
proof -
  assume "started st = length (pc_tasks st)" and i: "i < length (pc_tasks st)"
  then have "takeWhile (\<lambda>t. pt_phase t \<noteq> Unstarted) (pc_tasks st) = pc_tasks st"
    by (metis started_def takeWhile_eq_take take_all order_refl)
  then show ?thesis using i nth_mem [of i "pc_tasks st"] by (simp add: takeWhile_eq_all_conv)
qed

lemma count_inv_awaits:
  assumes c: "count_inv n st" and s: "pc_stage st = Starting" "started st = length (pc_tasks st)" and n: "n + 1 < size_t_modulus"
  shows "count_inv n (await_finish st)"
proof -
  let ?k = "n + 1 - card (dones st)"
  have l: "length (pc_tasks st) = n" using c by (simp add: count_inv_def)
  have k: "0 < ?k" "card (dones st) \<le> n" using card_dones [of st] l by simp_all
  have m: "pc_count st = of_nat ?k" using c s by (simp add: count_inv_def awaited_def)
  have "pc_count st > 1 \<longleftrightarrow> card (dones st) < n" using of_nat_gt_one [of ?k] n k m by auto
  moreover have "pc_count st - 1 = of_nat (n + 1 - card (dones st) - 1)" using of_nat_pred [OF k(1)] m by simp
  moreover have "dones (await_finish st) = dones st" by (simp add: dones_def await_finish_def try_await_def)
  ultimately show ?thesis using c s l k started_all [OF s(2)]
    by (auto simp: count_inv_def await_finish_def try_await_def awaited_def)
qed

lemma count_inv_step:
  assumes "par_step st st'" "count_inv n st" "n + 1 < size_t_modulus"
  shows "count_inv n st'"
  using assms
proof (induction rule: par_step.induct)
  case (begins st)
  then show ?case by (auto simp: count_inv_def await_begin_def awaited_def dones_def)
next
  case (starts st)
  then have "started st < n" by (simp add: count_inv_def)
  then show ?case using count_inv_start [of n st "started st"] starts started_unstarted by blast
next
  case (awaits st)
  then show ?case using count_inv_awaits by blast
next
  case (ends i st out)
  then have "i < n" "pc_stage st \<notin> {Init, Skipped}" by (auto simp: count_inv_def)
  then show ?case using ends count_inv_ends [of n st i] by simp
next
  case (settles i st)
  then have "i < n" by (simp add: count_inv_def)
  then show ?case using count_inv_settles [of n st i] settles by blast
next
  case (parent st)
  then show ?case by (auto simp: count_inv_def cancel_parent_def request_cancel_def awaited_def dones_def Let_def)
qed

section \<open>The order in which tasks end\<close>

lemma order_inv_ends:
  assumes v: "order_inv tp n st" and i: "i < n" "ph st i \<in> {Unstarted, Running}"
  shows "order_inv tp n (task_ends i out st)"
proof -
  have m: "i \<notin> set (pc_order st)" "length (pc_tasks st) = n" using v i by (auto simp: order_inv_def)
  have ix: "pt_index (pc_tasks (task_ends i out st) ! (pc_order (task_ends i out st) ! p)) = of_nat p" if p: "p < length (pc_order (task_ends i out st))" for p
  proof (cases "p < length (pc_order st)")
    case True
    then have "pc_order st ! p \<noteq> i" using m(1) nth_mem by fastforce
    then show ?thesis using v True by (simp add: order_inv_def nth_append)
  next
    case False
    then have "p = length (pc_order st)" using p by simp
    then show ?thesis using v i m by (simp add: order_inv_def)
  qed
  have se: "set (pc_order (task_ends i out st)) = {j. j < n \<and> ph (task_ends i out st) j \<in> {Notifying, Done}}"
    using v i m(2) by (auto simp: order_inv_def nth_list_update)
  have ou: "\<forall>j < n. pt_outcome (pc_tasks (task_ends i out st) ! j) = None \<longleftrightarrow> ph (task_ends i out st) j \<in> {Unstarted, Running}"
    using v i m(2) by (simp add: order_inv_def nth_list_update)
  show ?thesis unfolding order_inv_def using v m by (intro conjI allI impI ix se ou) (auto simp: order_inv_def)
qed

lemma order_inv_phase:
  assumes v: "order_inv tp n st" and i: "i < n" and p: "ph st i \<in> {Notifying, Done} \<longleftrightarrow> p \<in> {Notifying, Done}"
    and st': "pc_tasks st' = (pc_tasks st)[i := (pc_tasks st ! i)\<lparr>pt_phase := p\<rparr>]" "pc_order st' = pc_order st"
      "pc_next_index st' = pc_next_index st" "pc_type st' = pc_type st"
  shows "order_inv tp n st'"
proof -
  have l: "length (pc_tasks st) = n" using v by (simp add: order_inv_def)
  have ix: "pt_index (pc_tasks st' ! j) = pt_index (pc_tasks st ! j)" "pt_outcome (pc_tasks st' ! j) = pt_outcome (pc_tasks st ! j)"
    "ph st' j = (if j = i then p else ph st j)" for j
    using st'(1) i l by (cases "j = i"; simp)+
  have "p \<in> {Unstarted, Running} \<longleftrightarrow> ph st i \<in> {Unstarted, Running}" using p by (cases p; cases "ph st i") auto
  then show ?thesis using v st' ix p i by (auto simp: order_inv_def)
qed

lemma order_inv_step:
  assumes "par_step st st'" "order_inv tp n st"
  shows "order_inv tp n st'"
  using assms
proof (induction rule: par_step.induct)
  case (begins st)
  then show ?case by (auto simp: order_inv_def await_begin_def)
next
  case (starts st)
  then have s: "started st < n" "ph st (started st) = Unstarted" using started_unstarted by (auto simp: order_inv_def)
  show ?case
  proof (cases "pc_cancelled st")
    case True
    then show ?thesis using order_inv_ends [OF starts.prems s(1)] s(2) by (simp add: task_start_def)
  next
    case False
    then show ?thesis using s by (intro order_inv_phase [OF starts.prems s(1), of Running]) (auto simp: task_start_def set_task_def)
  qed
next
  case (awaits st)
  then show ?case by (auto simp: order_inv_def await_finish_def try_await_def)
next
  case (ends i st out)
  then have "i < n" by (simp add: order_inv_def)
  then show ?case using order_inv_ends ends by blast
next
  case (settles i st)
  then have "i < n" by (simp add: order_inv_def)
  then show ?case using settles by (intro order_inv_phase [OF settles.prems, of i Done]) simp_all
next
  case (parent st)
  then show ?case by (auto simp: order_inv_def cancel_parent_def request_cancel_def Let_def)
qed

lemma dones_when_ready [simp]: "dones (when_ready tp n) = {}"
  by (auto simp: dones_def when_ready_def)

lemma inv_start: "count_inv n (when_ready tp n)" "order_inv tp n (when_ready tp n)"
  by (auto simp: count_inv_def order_inv_def) (auto simp: when_ready_def awaited_def)

lemma par_reach_inv:
  assumes "par_reach tp n st"
  shows "order_inv tp n st" "n + 1 < size_t_modulus \<Longrightarrow> count_inv n st"
  using assms unfolding par_reach_def
  by (induction rule: rtranclp_induct) (auto intro: inv_start order_inv_step count_inv_step)

lemma goes_on_once:
  assumes "par_reach tp n st" "n + 1 < size_t_modulus"
  shows "pc_goes st \<le> 1 \<and> (pc_goes st = 1 \<longleftrightarrow> pc_stage st = Skipped \<or> pc_stage st = Awaited \<and> (\<forall>t \<in> set (pc_tasks st). pt_phase t = Done))"
proof -
  have c: "count_inv n st" using par_reach_inv [OF assms(1)] assms(2) by blast
  then have l: "length (pc_tasks st) = n" by (simp add: count_inv_def)
  have "card (dones st) = n \<longleftrightarrow> (\<forall>t \<in> set (pc_tasks st). pt_phase t = Done)"
  proof
    assume "card (dones st) = n"
    moreover have "dones st \<subseteq> {..<n}" using l by (auto simp: dones_def)
    ultimately have "dones st = {..<n}" using card_subset_eq [of "{..<n}" "dones st"] by simp
    then have "\<forall>i < length (pc_tasks st). ph st i = Done" using l unfolding dones_def by auto
    then show "\<forall>t \<in> set (pc_tasks st). pt_phase t = Done" by (metis in_set_conv_nth)
  next
    assume "\<forall>t \<in> set (pc_tasks st). pt_phase t = Done"
    then have "dones st = {..<n}" using l unfolding dones_def by auto
    then show "card (dones st) = n" by simp
  qed
  then show ?thesis using c by (auto simp: count_inv_def)
qed

text \<open>C7: Whatever the tasks do, in every order, the coroutine that waits for them goes on at most once: when every task has ended and been counted,
  or at once when it was cancelled before any task was started.\<close>

theorem parallel_goes_on_once:
  assumes "par_reach tp n st" "n + 1 < size_t_modulus"
  shows "pc_goes st \<le> 1 \<and> (pc_goes st = 1 \<longleftrightarrow> pc_stage st = Skipped \<or> pc_stage st = Awaited \<and> list_all (\<lambda>t. pt_phase t = Done) (pc_tasks st))"
  using goes_on_once [OF assms] by (simp add: list_all_iff)

text \<open>The operands of an operator: both have ended and one of them first.\<close>

lemma pair_ended:
  assumes r: "par_reach tp 2 st" and g: "pc_stage st = Awaited" "\<forall>t \<in> set (pc_tasks st). pt_phase t = Done"
  shows "\<exists>l r lo ro. pc_tasks st = [l, r] \<and> pt_outcome l = Some lo \<and> pt_outcome r = Some ro
    \<and> (pc_order st = [0, 1] \<and> pt_index l = 0 \<and> pt_index r = 1 \<or> pc_order st = [1, 0] \<and> pt_index l = 1 \<and> pt_index r = 0)"
proof -
  have v: "order_inv tp 2 st" using par_reach_inv(1) [OF r] .
  then obtain l r where t: "pc_tasks st = [l, r]" by (auto simp: order_inv_def length_Suc_conv numeral_2_eq_2)
  have d: "pt_phase l = Done" "pt_phase r = Done" using g t by simp_all
  have "ph st i = Done" if "i < 2" for i using d t that by (cases i) (auto simp: less_Suc_eq)
  then have s: "set (pc_order st) = {0, 1}" "distinct (pc_order st)" using v by (auto simp: order_inv_def)
  then have "length (pc_order st) = 2" using distinct_card [of "pc_order st"] by simp
  then obtain a b where ab: "pc_order st = [a, b]" by (metis (no_types) length_0_conv length_Suc_conv numeral_2_eq_2)
  then have "{a, b} = {0, 1}" using s by simp
  then have o: "pc_order st = [0, 1] \<or> pc_order st = [1, 0]" using ab by (simp add: doubleton_eq_iff)
  have ix: "pt_index (pc_tasks st ! (pc_order st ! p)) = of_nat p" if "p < length (pc_order st)" for p using v that by (simp add: order_inv_def)
  have "pt_outcome l \<noteq> None" "pt_outcome r \<noteq> None" using v t d by (auto simp: order_inv_def dest: spec [of _ 0] spec [of _ 1])
  then show ?thesis using o t ix [of 0] ix [of 1] by auto
qed

text \<open>What \<open>||\<close> means: the value of the task that succeeded first, and when none did the exception of the one that failed first.\<close>

definition first_success :: "('e, 'v) parallel \<Rightarrow> ('e, 'v + 'v) op_result option" where
  "first_success st = (case map (\<lambda>i. (i, pt_outcome (pc_tasks st ! i))) (pc_order st) of
     (i, Some (Value v)) # _ \<Rightarrow> Some (Returns (if i = 0 then Inl v else Inr v))
   | (_, Some (Exc e)) # (i, Some (Value v)) # _ \<Rightarrow> Some (Returns (if i = 0 then Inl v else Inr v))
   | (_, Some (Exc e)) # _ \<Rightarrow> Some (Multiple e)
   | _ \<Rightarrow> None)"

text \<open>When the coroutine goes on and was not cancelled itself, \<open>||\<close> returns the value of the task that succeeded first, whichever ended first.\<close>

theorem or_first_success:
  assumes "par_reach Wait_one_succ 2 st" "pc_goes st = 1" "\<not> pc_parent st" "pc_stage st \<noteq> Skipped"
  shows "or_both st = first_success st \<and> first_success st \<noteq> None"
proof -
  have "pc_stage st = Awaited" "\<forall>t \<in> set (pc_tasks st). pt_phase t = Done"
    using goes_on_once [OF assms(1)] assms(2,4) by simp_all
  from pair_ended [OF assms(1) this] obtain l r lo ro where
    "pc_tasks st = [l, r]" "pt_outcome l = Some lo" "pt_outcome r = Some ro"
    "pc_order st = [0, 1] \<and> pt_index l = 0 \<and> pt_index r = 1 \<or> pc_order st = [1, 0] \<and> pt_index l = 1 \<and> pt_index r = 0" by blast
  then show ?thesis using assms(3)
    by (cases lo; cases ro; auto simp: or_both_def on_pair_def par_await_resume_def or_tasks_def first_success_def task_exception_def task_result_def Let_def)
qed

section \<open>Runs\<close>

definition running_task :: "('e, 'v) ptask" where
  "running_task = \<lparr>pt_phase = Running, pt_outcome = None, pt_index = - 1\<rparr>"

definition pair_running :: "wait_type \<Rightarrow> ('e, 'v) parallel" where
  "pair_running tp = \<lparr>pc_count = 2, pc_type = tp, pc_cancelled = False, pc_next_index = 0, pc_tasks = [running_task, running_task],
     pc_stage = Awaited, pc_registered = True, pc_parent = False, pc_goes = 0, pc_order = []\<rparr>"

lemma reach_step: "par_reach tp n st \<Longrightarrow> par_step st st' \<Longrightarrow> par_reach tp n st'"
  unfolding par_reach_def by (rule rtranclp.rtrancl_into_rtrancl)

lemma reach_ends: "par_reach tp n st \<Longrightarrow> i < length (pc_tasks st) \<Longrightarrow> ph st i = Running \<Longrightarrow> par_reach tp n (task_ends i out st)"
  by (blast intro: reach_step par_step.ends)

lemma reach_settles: "par_reach tp n st \<Longrightarrow> i < length (pc_tasks st) \<Longrightarrow> ph st i = Notifying \<Longrightarrow> par_reach tp n (task_settles i st)"
  by (blast intro: reach_step par_step.settles)

lemma reach_pair_running: "par_reach tp 2 (pair_running tp)"
proof -
  let ?a = "await_begin (when_ready tp 2) :: ('a, 'b) parallel"
  let ?b = "task_start 0 ?a"
  let ?c = "task_start 1 ?b"
  have s: "started ?a = 0" "started ?b = 1" "started ?c = 2"
    by (simp_all add: started_def await_begin_def when_ready_def task_start_def set_task_def numeral_2_eq_2)
  have p: "pc_stage (when_ready tp 2) = Init" "pc_stage ?a = Starting" "pc_stage ?b = Starting" "pc_stage ?c = Starting"
    "length (pc_tasks ?a) = 2" "length (pc_tasks ?b) = 2" "length (pc_tasks ?c) = 2"
    by (simp_all add: await_begin_def when_ready_def task_start_def set_task_def)
  have replicate_two: "replicate 2 x = [x, x]" for x :: "('a, 'b) ptask" by (simp add: numeral_2_eq_2)
  have three: "(1 :: u64) < 3" using of_nat_gt_one [of 3] by simp
  have "par_reach tp 2 (when_ready tp 2)" by (simp add: par_reach_def)
  then have "par_reach tp 2 ?a" using reach_step par_step.begins p(1) by blast
  then have "par_reach tp 2 ?b" using reach_step par_step.starts [of ?a] p s by simp
  then have "par_reach tp 2 ?c" using reach_step par_step.starts [of ?b] p s by simp
  then have "par_reach tp 2 (await_finish ?c)" using reach_step par_step.awaits [of ?c] p s by simp
  moreover have "await_finish ?c = pair_running tp"
    by (simp add: await_begin_def when_ready_def task_start_def set_task_def await_finish_def try_await_def pair_running_def running_task_def
        replicate_two three)
  ultimately show ?thesis by simp
qed

text \<open>Both tasks end, the right one first.\<close>

definition right_then_left :: "wait_type \<Rightarrow> ('e, 'v) par_outcome \<Rightarrow> ('e, 'v) par_outcome \<Rightarrow> ('e, 'v) parallel" where
  "right_then_left tp r l = task_settles 1 (task_settles 0 (task_ends 0 l (task_ends 1 r (pair_running tp))))"

lemma reach_right_then_left: "par_reach tp 2 (right_then_left tp r l)"
  unfolding right_then_left_def
  by (intro reach_settles reach_ends reach_pair_running) (simp_all add: pair_running_def running_task_def)

lemma right_then_left_simps: "pc_goes (right_then_left tp r l) = 1" "pc_order (right_then_left tp r l) = [1, 0]"
  "\<not> pc_parent (right_then_left tp r l)" "pc_stage (right_then_left tp r l) = Awaited"
  "pc_tasks (right_then_left tp r l) = [\<lparr>pt_phase = Done, pt_outcome = Some l, pt_index = 1\<rparr>, \<lparr>pt_phase = Done, pt_outcome = Some r, pt_index = 0\<rparr>]"
  by (simp_all add: right_then_left_def pair_running_def running_task_def)

theorem parallel_goes_on_once_witness:
  "pc_goes (right_then_left Wait_one (Value 1) (Exc Canceled) :: (nat, nat) parallel) \<le> 1
    \<and> (pc_goes (right_then_left Wait_one (Value 1) (Exc Canceled) :: (nat, nat) parallel) = 1
       \<longleftrightarrow> pc_stage (right_then_left Wait_one (Value 1) (Exc Canceled) :: (nat, nat) parallel) = Skipped
         \<or> pc_stage (right_then_left Wait_one (Value 1) (Exc Canceled) :: (nat, nat) parallel) = Awaited
           \<and> list_all (\<lambda>t. pt_phase t = Done) (pc_tasks (right_then_left Wait_one (Value 1) (Exc Canceled) :: (nat, nat) parallel)))"
  by (rule parallel_goes_on_once [OF reach_right_then_left]) simp

theorem or_first_success_witness:
  "or_both (right_then_left Wait_one_succ (Exc (User 3)) (Value 5) :: (nat, nat) parallel) = Some (Returns (Inl 5))"
proof -
  let ?st = "right_then_left Wait_one_succ (Exc (User 3)) (Value 5) :: (nat, nat) parallel"
  have "or_both ?st = first_success ?st"
    using or_first_success [where st = ?st, OF reach_right_then_left] by (simp add: right_then_left_simps)
  then show ?thesis by (simp add: first_success_def right_then_left_simps)
qed

text \<open>\<open>&&\<close> always takes the exception of its left operand for the first: when the right task fails and the left one is cancelled for it, the exception reported as the first is that of the
  cancellation, not the failure.\<close>

theorem and_hides_first_failure:
  "\<exists>st. par_reach Wait_one_fail 2 st \<and> pc_goes st = 1 \<and> pc_order st = [1, 0] \<and> pt_outcome (pc_tasks st ! 1) = Some (Exc (User e))
     \<and> and_both st = Some (Multiple Canceled)"
  by (intro exI [of _ "right_then_left Wait_one_fail (Exc (User e)) (Exc Canceled)"])
    (simp add: reach_right_then_left right_then_left_simps and_both_def on_pair_def par_await_resume_def and_tasks_def task_exception_def)

section \<open>The wait can always come to its end\<close>

fun phase_left :: "phase \<Rightarrow> nat" where
  "phase_left Unstarted = 3"
| "phase_left Running = 2"
| "phase_left Notifying = 1"
| "phase_left Done = 0"

fun stage_left :: "stage \<Rightarrow> nat" where
  "stage_left Init = 2"
| "stage_left Starting = 1"
| "stage_left Awaited = 0"
| "stage_left Skipped = 0"

definition steps_left :: "('e, 'v) parallel \<Rightarrow> nat" where
  "steps_left st = sum_list (map (\<lambda>t. phase_left (pt_phase t)) (pc_tasks st)) + stage_left (pc_stage st)"

lemma steps_left_task:
  assumes "i < length (pc_tasks st)" "phase_left (pt_phase t) < phase_left (ph st i)" "pc_tasks st' = (pc_tasks st)[i := t]" "pc_stage st' = pc_stage st"
  shows "steps_left st' < steps_left st"
proof -
  have "sum_list (map (\<lambda>t. phase_left (pt_phase t)) (pc_tasks st))
      = phase_left (ph st i) + sum_list (map (\<lambda>t. phase_left (pt_phase t)) (take i (pc_tasks st) @ drop (Suc i) (pc_tasks st)))"
    using assms(1) by (subst id_take_nth_drop [OF assms(1)]) simp
  then show ?thesis using assms by (simp add: steps_left_def upd_conv_take_nth_drop)
qed

lemma progress:
  assumes c: "count_inv n st" and g: "pc_goes st = 0"
  shows "\<exists>st'. par_step st st' \<and> steps_left st' < steps_left st"
proof (cases "pc_stage st")
  case Init
  then show ?thesis using par_step.begins [of st] by (intro exI [of _ "await_begin st"]) (simp add: steps_left_def await_begin_def)
next
  case Starting
  show ?thesis
  proof (cases "started st < length (pc_tasks st)")
    case True
    let ?i = "started st"
    have "steps_left (task_start ?i st) < steps_left st"
    proof (cases "pc_cancelled st")
      case True
      then show ?thesis using started_unstarted [OF \<open>?i < _\<close>] \<open>?i < _\<close>
        by (intro steps_left_task [of ?i _ "\<lparr>pt_phase = Notifying, pt_outcome = Some (Exc Canceled), pt_index = pc_next_index st\<rparr>"]) (simp_all add: task_start_def)
    next
      case False
      then show ?thesis using started_unstarted [OF \<open>?i < _\<close>] \<open>?i < _\<close>
        by (intro steps_left_task [of ?i _ "(pc_tasks st ! ?i)\<lparr>pt_phase := Running\<rparr>"]) (simp_all add: task_start_def set_task_def)
    qed
    then show ?thesis using par_step.starts [OF Starting True] by blast
  next
    case False
    then have "started st = length (pc_tasks st)" by (metis started_def length_takeWhile_le le_neq_implies_less)
    from par_step.awaits [OF Starting this] show ?thesis using Starting
      by (intro exI [of _ "await_finish st"]) (simp add: steps_left_def await_finish_def try_await_def)
  qed
next
  case Awaited
  have "\<not> (\<forall>i < n. ph st i = Done)"
  proof
    assume "\<forall>i < n. ph st i = Done"
    then have "dones st = {..<n}" using c by (auto simp: count_inv_def dones_def)
    then show False using c g Awaited by (simp add: count_inv_def)
  qed
  then obtain i where i: "i < length (pc_tasks st)" "ph st i \<noteq> Done" "ph st i \<noteq> Unstarted" using c Awaited by (auto simp: count_inv_def)
  show ?thesis
  proof (cases "ph st i = Running")
    case True
    have "steps_left (task_ends i (Exc Canceled) st) < steps_left st"
      using i True by (intro steps_left_task [of i _ "\<lparr>pt_phase = Notifying, pt_outcome = Some (Exc Canceled), pt_index = pc_next_index st\<rparr>"]) simp_all
    then show ?thesis using par_step.ends [OF i(1) True] by blast
  next
    case False
    then have "ph st i = Notifying" using i by (cases "ph st i") auto
    moreover from this have "steps_left (task_settles i st) < steps_left st"
      using i by (intro steps_left_task [of i _ "(pc_tasks st ! i)\<lparr>pt_phase := Done\<rparr>"]) simp_all
    ultimately show ?thesis using par_step.settles [OF i(1)] by blast
  qed
next
  case Skipped
  then show ?thesis using c g by (simp add: count_inv_def)
qed

text \<open>C28: No wake-up is lost: from every state that can be reached there are steps of the tasks after which the waiting coroutine goes on.\<close>

theorem parallel_never_stuck:
  assumes "par_reach tp n st" "n + 1 < size_t_modulus"
  shows "\<exists>st'. par_step\<^sup>*\<^sup>* st st' \<and> pc_goes st' = 1"
  using assms(1)
proof (induction "steps_left st" arbitrary: st rule: less_induct)
  case less
  have c: "count_inv n st" using par_reach_inv(2) [OF less.prems assms(2)] .
  show ?case
  proof (cases "pc_goes st = 0")
    case True
    then obtain st1 where s: "par_step st st1" "steps_left st1 < steps_left st" using progress [OF c] by blast
    from less.hyps [OF s(2) reach_step [OF less.prems s(1)]] obtain st' where "par_step\<^sup>*\<^sup>* st1 st'" "pc_goes st' = 1" by blast
    then show ?thesis using converse_rtranclp_into_rtranclp [of par_step, OF s(1)] by blast
  next
    case False
    then show ?thesis using c by (auto simp: count_inv_def split: if_splits)
  qed
qed

theorem parallel_never_stuck_witness:
  "\<exists>st' :: (nat, nat) parallel. par_step\<^sup>*\<^sup>* (pair_running Wait_one) st' \<and> pc_goes st' = 1"
  by (rule parallel_never_stuck [OF reach_pair_running]) simp

end
