(* ===== verification/Scheduler.thy ===== *)
theory Scheduler
  imports Prelude "HOL-Library.Transitive_Closure_Table" "HOL-Library.Multiset"
begin

text \<open>
  The scheduler and the thread pool (\<open>runtime/src/coro/scheduler.cpp\<close>, \<open>thread_pool.cpp\<close>).  What a function or a coroutine does when it runs is
  an argument: given the environment it posts functions and wakes coroutines.  The coroutines of the timers that are due (\<open>Timer_Queue\<close>) are
  an argument of a turn.  \<open>s_posted\<close> and \<open>s_woken\<close> list all that was ever put on the two queues, \<open>s_done\<close> and \<open>s_resumed\<close>
  what was taken from them and run.
\<close>

section \<open>The scheduler\<close>

datatype ('f, 'h) work = Func 'f | Resume 'h

datatype ('f, 'h) effect = Post "('f, 'h) work" | Wake 'h

record ('f, 'h, 'e) scheduler =
  s_queue :: "('f, 'h) work list"
  s_wake :: "'h list"
  s_env :: 'e
  s_posted :: "('f, 'h) work list"
  s_done :: "('f, 'h) work list"
  s_woken :: "'h list"
  s_resumed :: "'h list"

type_synonym ('f, 'h, 'e) behaviour = "('f, 'h) work \<Rightarrow> 'e \<Rightarrow> ('f, 'h) effect list \<times> 'e"

definition scheduler_start :: "'e \<Rightarrow> ('f, 'h, 'e) scheduler" where
  "scheduler_start e = \<lparr>s_queue = [], s_wake = [], s_env = e, s_posted = [], s_done = [], s_woken = [], s_resumed = []\<rparr>"

definition sched_post :: "('f, 'h) work \<Rightarrow> ('f, 'h, 'e) scheduler \<Rightarrow> ('f, 'h, 'e) scheduler" where
  "sched_post w st = st\<lparr>s_queue := s_queue st @ [w], s_posted := s_posted st @ [w]\<rparr>"

text \<open>\<open>wake_up_coroutine\<close> on the thread of the scheduler and on another one.\<close>

definition sched_wake_up :: "bool \<Rightarrow> 'h \<Rightarrow> ('f, 'h, 'e) scheduler \<Rightarrow> ('f, 'h, 'e) scheduler" where
  "sched_wake_up on_scheduler h st =
     (if on_scheduler then st\<lparr>s_wake := s_wake st @ [h], s_woken := s_woken st @ [h]\<rparr> else sched_post (Resume h) st)"

fun apply_effect :: "('f, 'h) effect \<Rightarrow> ('f, 'h, 'e) scheduler \<Rightarrow> ('f, 'h, 'e) scheduler" where
  "apply_effect (Post w) st = sched_post w st"
| "apply_effect (Wake h) st = sched_wake_up True h st"

definition run_work :: "('f, 'h, 'e) behaviour \<Rightarrow> ('f, 'h) work \<Rightarrow> ('f, 'h, 'e) scheduler \<Rightarrow> ('f, 'h, 'e) scheduler" where
  "run_work act w st = (case act w (s_env st) of (effs, e) \<Rightarrow> fold apply_effect effs (st\<lparr>s_env := e\<rparr>))"

definition post_immediate :: "('f, 'h, 'e) behaviour \<Rightarrow> bool \<Rightarrow> 'f \<Rightarrow> ('f, 'h, 'e) scheduler \<Rightarrow> ('f, 'h, 'e) scheduler" where
  "post_immediate act on_scheduler f st = (if on_scheduler then run_work act (Func f) st else sched_post (Func f) st)"

text \<open>The messages: the queue is moved away before its functions run.\<close>

definition run_functions :: "('f, 'h, 'e) behaviour \<Rightarrow> ('f, 'h, 'e) scheduler \<Rightarrow> ('f, 'h, 'e) scheduler" where
  "run_functions act st = fold (\<lambda>w st. run_work act w (st\<lparr>s_done := s_done st @ [w]\<rparr>)) (s_queue st) (st\<lparr>s_queue := []\<rparr>)"

definition run_timers :: "('f, 'h, 'e) behaviour \<Rightarrow> 'h list \<Rightarrow> ('f, 'h, 'e) scheduler \<Rightarrow> ('f, 'h, 'e) scheduler" where
  "run_timers act nodes st = fold (\<lambda>h. run_work act (Resume h)) nodes st"

partial_function (option) run_wakes :: "('f, 'h, 'e) behaviour \<Rightarrow> ('f, 'h, 'e) scheduler \<Rightarrow> ('f, 'h, 'e) scheduler option" where
  "run_wakes act st = (case s_wake st of
     [] \<Rightarrow> Some st
   | h # hs \<Rightarrow> run_wakes act (run_work act (Resume h) (st\<lparr>s_wake := hs, s_resumed := s_resumed st @ [h]\<rparr>)))"

text \<open>One turn of \<open>run\<close>; \<open>None\<close> is a turn that does not end.\<close>

definition scheduler_turn :: "('f, 'h, 'e) behaviour \<Rightarrow> 'h list \<Rightarrow> ('f, 'h, 'e) scheduler \<Rightarrow> ('f, 'h, 'e) scheduler option" where
  "scheduler_turn act nodes st = run_wakes act (run_timers act nodes (run_functions act st))"

section \<open>Order\<close>

definition sched_inv :: "('f, 'h, 'e) scheduler \<Rightarrow> bool" where
  "sched_inv st \<longleftrightarrow> s_posted st = s_done st @ s_queue st \<and> s_woken st = s_resumed st @ s_wake st"

lemma sched_inv_start: "sched_inv (scheduler_start e)"
  by (simp add: sched_inv_def scheduler_start_def)

lemma sched_inv_post [simp]: "sched_inv st \<Longrightarrow> sched_inv (sched_post w st)"
  by (simp add: sched_inv_def sched_post_def)

lemma sched_inv_wake [simp]: "sched_inv st \<Longrightarrow> sched_inv (sched_wake_up b h st)"
  by (simp add: sched_inv_def sched_wake_up_def sched_post_def)

text \<open>What running a function or a coroutine adds to the lists.\<close>

definition extends :: "('f, 'h, 'e) scheduler \<Rightarrow> ('f, 'h, 'e) scheduler \<Rightarrow> bool" where
  "extends st st' \<longleftrightarrow> s_done st' = s_done st \<and> s_resumed st' = s_resumed st
     \<and> (\<exists>ws. s_queue st' = s_queue st @ ws \<and> s_posted st' = s_posted st @ ws) \<and> (\<exists>hs. s_wake st' = s_wake st @ hs \<and> s_woken st' = s_woken st @ hs)"

lemma extends_refl: "extends st st"
  by (simp add: extends_def)

lemma extends_trans [trans]: "extends st st' \<Longrightarrow> extends st' st'' \<Longrightarrow> extends st st''"
  unfolding extends_def by (metis append.assoc)

lemma extends_effect: "extends st (apply_effect eff st)"
  by (cases eff) (auto simp: extends_def sched_post_def sched_wake_up_def)

lemma extends_effects: "extends st (fold apply_effect effs st)"
proof (induction effs arbitrary: st)
  case (Cons eff effs)
  then show ?case using extends_trans [OF extends_effect Cons.IH] by simp
qed (simp add: extends_refl)

lemma extends_env: "extends (st\<lparr>s_env := e\<rparr>) st' \<Longrightarrow> extends st st'"
  by (simp add: extends_def)

lemma extends_work: "extends st (run_work act w st)"
  by (auto simp: run_work_def split: prod.splits intro: extends_env extends_effects)

lemma extends_timers: "extends st (run_timers act nodes st)"
  unfolding run_timers_def
proof (induction nodes arbitrary: st)
  case (Cons h nodes)
  then show ?case using extends_trans [OF extends_work Cons.IH] by simp
qed (simp add: extends_refl)

lemma extends_inv: "extends st st' \<Longrightarrow> sched_inv st \<Longrightarrow> sched_inv st'"
  by (auto simp: extends_def sched_inv_def)

lemma run_functions_spec:
  "\<exists>ws hs. s_done (run_functions act st) = s_done st @ s_queue st \<and> s_queue (run_functions act st) = ws
     \<and> s_posted (run_functions act st) = s_posted st @ ws \<and> s_wake (run_functions act st) = s_wake st @ hs
     \<and> s_woken (run_functions act st) = s_woken st @ hs \<and> s_resumed (run_functions act st) = s_resumed st"
proof -
  let ?f = "\<lambda>w st. run_work act w (st\<lparr>s_done := s_done st @ [w]\<rparr>)"
  have "extends (st\<lparr>s_done := s_done st @ q\<rparr>) (fold ?f q st)" for q st
  proof (induction q arbitrary: st)
    case (Cons w q)
    let ?st = "?f w st"
    have "extends (st\<lparr>s_done := s_done st @ [w]\<rparr>) ?st" using extends_work .
    then have "extends (st\<lparr>s_done := s_done st @ w # q\<rparr>) (?st\<lparr>s_done := s_done ?st @ q\<rparr>)" by (simp add: extends_def)
    also have "extends (?st\<lparr>s_done := s_done ?st @ q\<rparr>) (fold ?f q ?st)" using Cons.IH .
    finally show ?case by simp
  qed (simp add: extends_refl)
  from this [of "st\<lparr>s_queue := []\<rparr>" "s_queue st"] show ?thesis by (auto simp: run_functions_def extends_def)
qed

lemma run_wakes_spec:
  assumes "run_wakes act st = Some st'"
  shows "s_wake st' = [] \<and> s_done st' = s_done st \<and> (sched_inv st \<longrightarrow> sched_inv st') \<and> (\<exists>hs. s_resumed st' = s_resumed st @ s_wake st @ hs)
    \<and> (\<exists>ws. s_posted st' = s_posted st @ ws)"
proof (rule run_wakes.raw_induct [where P = "\<lambda>act st st'. s_wake st' = [] \<and> s_done st' = s_done st \<and> (sched_inv st \<longrightarrow> sched_inv st')
    \<and> (\<exists>hs. s_resumed st' = s_resumed st @ s_wake st @ hs) \<and> (\<exists>ws. s_posted st' = s_posted st @ ws)", OF _ assms])
  fix rec :: "('a, 'b, 'c) behaviour \<Rightarrow> ('a, 'b, 'c) scheduler \<Rightarrow> ('a, 'b, 'c) scheduler option" and act st st'
  assume IH: "\<And>act st st'. rec act st = Some st' \<Longrightarrow> s_wake st' = [] \<and> s_done st' = s_done st \<and> (sched_inv st \<longrightarrow> sched_inv st')
      \<and> (\<exists>hs. s_resumed st' = s_resumed st @ s_wake st @ hs) \<and> (\<exists>ws. s_posted st' = s_posted st @ ws)"
    and r: "(case s_wake st of [] \<Rightarrow> Some st
      | h # hs \<Rightarrow> rec act (run_work act (Resume h) (st\<lparr>s_wake := hs, s_resumed := s_resumed st @ [h]\<rparr>))) = Some st'"
  show "s_wake st' = [] \<and> s_done st' = s_done st \<and> (sched_inv st \<longrightarrow> sched_inv st')
      \<and> (\<exists>hs. s_resumed st' = s_resumed st @ s_wake st @ hs) \<and> (\<exists>ws. s_posted st' = s_posted st @ ws)"
  proof (cases "s_wake st")
    case Nil
    then show ?thesis using r by auto
  next
    case (Cons h hs)
    let ?a = "st\<lparr>s_wake := hs, s_resumed := s_resumed st @ [h]\<rparr>"
    let ?b = "run_work act (Resume h) ?a"
    have "sched_inv st \<Longrightarrow> sched_inv ?a" using Cons by (simp add: sched_inv_def)
    then have "sched_inv st \<Longrightarrow> sched_inv ?b" using extends_inv extends_work by blast
    moreover have "extends ?a ?b" using extends_work .
    ultimately show ?thesis using IH [of act ?b st'] r Cons by (auto simp: extends_def)
  qed
qed

text \<open>C21: A turn that ends has run every function posted before it, in the order posted, and resumed every coroutine woken up to its end, in the
  order woken; what the functions posted meanwhile waits for the next turn.\<close>

theorem scheduler_turn_order:
  assumes "sched_inv st" "scheduler_turn act nodes st = Some st'"
  shows "sched_inv st' \<and> s_done st' = s_posted st \<and> s_posted st' = s_posted st @ s_queue st' \<and> s_resumed st' = s_woken st'"
proof -
  let ?a = "run_functions act st"
  let ?b = "run_timers act nodes ?a"
  obtain ws hs where a: "s_done ?a = s_done st @ s_queue st" "s_queue ?a = ws" "s_posted ?a = s_posted st @ ws" "s_wake ?a = s_wake st @ hs"
    "s_woken ?a = s_woken st @ hs" "s_resumed ?a = s_resumed st"
    using run_functions_spec [of act st] by blast
  then have "sched_inv ?a" using assms(1) by (simp add: sched_inv_def)
  then have b: "sched_inv ?b" using extends_inv extends_timers by blast
  have "s_done ?b = s_posted st" using a assms(1) extends_timers [of ?a act nodes] by (simp add: extends_def sched_inv_def)
  then show ?thesis using run_wakes_spec [of act ?b st'] b assms(2) by (auto simp: scheduler_turn_def sched_inv_def)
qed

section \<open>When a turn ends\<close>

definition wakes :: "('f, 'h) effect list \<Rightarrow> nat" where
  "wakes effs = length (filter (\<lambda>e. case e of Wake h \<Rightarrow> True | Post w \<Rightarrow> False) effs)"

text \<open>A supply of wake-ups: every wake-up uses some of it up.\<close>

definition bounded_wakes :: "('f, 'h, 'e) behaviour \<Rightarrow> ('e \<Rightarrow> nat) \<Rightarrow> bool" where
  "bounded_wakes act supply \<longleftrightarrow> (\<forall>w e. wakes (fst (act w e)) + supply (snd (act w e)) \<le> supply e)"

lemma effects_wakes: "length (s_wake (fold apply_effect effs st)) = length (s_wake st) + wakes effs" "s_env (fold apply_effect effs st) = s_env st"
proof (induction effs arbitrary: st)
  case (Cons eff effs)
  { case 1
    show ?case using Cons.IH(1) [of "apply_effect eff st"] by (cases eff) (simp_all add: wakes_def sched_post_def sched_wake_up_def)
  next
    case 2
    show ?case using Cons.IH(2) [of "apply_effect eff st"] by (cases eff) (simp_all add: sched_post_def sched_wake_up_def) }
qed (simp_all add: wakes_def)

lemma run_work_supply:
  assumes "bounded_wakes act supply"
  shows "length (s_wake (run_work act w st)) + supply (s_env (run_work act w st)) \<le> length (s_wake st) + supply (s_env st)"
proof -
  obtain effs e where a: "act w (s_env st) = (effs, e)" by (cases "act w (s_env st)")
  have "wakes effs + supply e \<le> supply (s_env st)" using assms a unfolding bounded_wakes_def by (metis fst_conv snd_conv)
  then show ?thesis by (simp add: run_work_def a effects_wakes)
qed

lemma run_wakes_returns:
  assumes b: "bounded_wakes act supply"
  shows "\<exists>st'. run_wakes act st = Some st'"
proof (induction "length (s_wake st) + supply (s_env st)" arbitrary: st rule: less_induct)
  case less
  show ?case
  proof (cases "s_wake st")
    case Nil
    then show ?thesis by (subst run_wakes.simps) simp
  next
    case (Cons h hs)
    let ?b = "run_work act (Resume h) (st\<lparr>s_wake := hs, s_resumed := s_resumed st @ [h]\<rparr>)"
    have "length (s_wake ?b) + supply (s_env ?b) < length (s_wake st) + supply (s_env st)"
      using run_work_supply [OF b, of "Resume h" "st\<lparr>s_wake := hs, s_resumed := s_resumed st @ [h]\<rparr>"] Cons by simp
    from less [OF this] show ?thesis by (subst run_wakes.simps) (simp add: Cons)
  qed
qed

text \<open>A turn ends when the coroutines wake each other only finitely often.\<close>

theorem scheduler_turn_returns:
  assumes "bounded_wakes act supply"
  shows "\<exists>st'. scheduler_turn act nodes st = Some st'"
  unfolding scheduler_turn_def using run_wakes_returns [OF assms] .

lemma always_waking_diverges:
  assumes "run_wakes act st = Some st'"
  shows "(\<forall>h st. s_wake (run_work act (Resume h) st) \<noteq> []) \<longrightarrow> s_wake st = []"
proof (rule run_wakes.raw_induct [where P = "\<lambda>act st st'. (\<forall>h st. s_wake (run_work act (Resume h) st) \<noteq> []) \<longrightarrow> s_wake st = []", OF _ assms])
  fix rec :: "('a, 'b, 'c) behaviour \<Rightarrow> ('a, 'b, 'c) scheduler \<Rightarrow> ('a, 'b, 'c) scheduler option" and act st st'
  assume IH: "\<And>act st st'. rec act st = Some st' \<Longrightarrow> (\<forall>h st. s_wake (run_work act (Resume h) st) \<noteq> []) \<longrightarrow> s_wake st = []"
    and r: "(case s_wake st of [] \<Rightarrow> Some st
      | h # hs \<Rightarrow> rec act (run_work act (Resume h) (st\<lparr>s_wake := hs, s_resumed := s_resumed st @ [h]\<rparr>))) = Some st'"
  show "(\<forall>h st. s_wake (run_work act (Resume h) st) \<noteq> []) \<longrightarrow> s_wake st = []"
    using IH r by (cases "s_wake st") fastforce+
qed

definition wakes_itself :: "('f, 'h, 'e) behaviour" where
  "wakes_itself w e = (case w of Resume h \<Rightarrow> ([Wake h], e) | Func f \<Rightarrow> ([], e))"

text \<open>A coroutine that is woken whenever it runs keeps the scheduler in the turn for ever: the loop takes what is added while it runs.\<close>

theorem self_waking_starves: "scheduler_turn wakes_itself [h] (scheduler_start e :: ('f, 'h, 'e) scheduler) = None"
proof (cases "run_wakes wakes_itself (run_timers wakes_itself [h] (run_functions wakes_itself (scheduler_start e :: ('f, 'h, 'e) scheduler)))")
  case (Some st')
  have w: "s_wake (run_work wakes_itself (Resume k) st) \<noteq> []" for k and st :: "('f, 'h, 'e) scheduler" by (simp add: run_work_def sched_wake_up_def wakes_itself_def)
  then have "s_wake (run_timers wakes_itself [h] (run_functions wakes_itself (scheduler_start e :: ('f, 'h, 'e) scheduler))) \<noteq> []" by (simp add: run_timers_def)
  with always_waking_diverges [OF Some] w show ?thesis by blast
qed (simp add: scheduler_turn_def)

section \<open>The thread pool\<close>

text \<open>Workers take from one queue under its lock; \<open>tp_busy\<close> is the function a worker has taken and not finished.  A worker told to stop takes nothing more.\<close>

record 'f pool =
  tp_queue :: "'f list"
  tp_busy :: "nat \<Rightarrow> 'f option"
  tp_stop :: "nat \<Rightarrow> bool"
  tp_threads :: nat
  tp_posted :: "'f list"
  tp_taken :: "'f list"
  tp_finished :: "'f list"

definition pool_start :: "nat \<Rightarrow> nat \<Rightarrow> 'f pool \<Rightarrow> 'f pool" where
  "pool_start hardware num p =
     (if tp_threads p \<noteq> 0 then p
      else let real = (if num = 0 then (if hardware > 1 then hardware - 1 else hardware) else num)
           in p\<lparr>tp_threads := real, tp_busy := (\<lambda>_. None), tp_stop := (\<lambda>_. False)\<rparr>)"

definition pool_post :: "'f \<Rightarrow> 'f pool \<Rightarrow> 'f pool" where
  "pool_post f p = p\<lparr>tp_queue := tp_queue p @ [f], tp_posted := tp_posted p @ [f]\<rparr>"

definition pool_stop :: "'f pool \<Rightarrow> 'f pool" where
  "pool_stop p = p\<lparr>tp_stop := (\<lambda>_. True)\<rparr>"

definition pool_take :: "nat \<Rightarrow> 'f pool \<Rightarrow> 'f pool option" where
  "pool_take i p =
     (if \<not> i < tp_threads p \<or> tp_busy p i \<noteq> None \<or> tp_stop p i then None
      else case tp_queue p of [] \<Rightarrow> None
           | f # fs \<Rightarrow> Some (p\<lparr>tp_queue := fs, tp_busy := (tp_busy p)(i \<mapsto> f), tp_taken := tp_taken p @ [f]\<rparr>))"

definition pool_finish :: "nat \<Rightarrow> 'f pool \<Rightarrow> 'f pool option" where
  "pool_finish i p = (case tp_busy p i of None \<Rightarrow> None
     | Some f \<Rightarrow> Some (p\<lparr>tp_busy := (tp_busy p)(i := None), tp_finished := tp_finished p @ [f]\<rparr>))"

definition pool_new :: "'f pool" where
  "pool_new = \<lparr>tp_queue = [], tp_busy = (\<lambda>_. None), tp_stop = (\<lambda>_. False), tp_threads = 0, tp_posted = [], tp_taken = [], tp_finished = []\<rparr>"

inductive pool_step :: "'f pool \<Rightarrow> 'f pool \<Rightarrow> bool" where
  post: "pool_step p (pool_post f p)"
| take: "pool_take i p = Some p' \<Longrightarrow> pool_step p p'"
| finish: "pool_finish i p = Some p' \<Longrightarrow> pool_step p p'"
| stop: "pool_step p (pool_stop p)"

definition busy_work :: "'f pool \<Rightarrow> 'f multiset" where
  "busy_work p = (\<Sum>i < tp_threads p. case tp_busy p i of None \<Rightarrow> {#} | Some f \<Rightarrow> {#f#})"

definition pool_inv :: "'f pool \<Rightarrow> bool" where
  "pool_inv p \<longleftrightarrow> tp_posted p = tp_taken p @ tp_queue p \<and> mset (tp_taken p) = mset (tp_finished p) + busy_work p
     \<and> (\<forall>i. tp_threads p \<le> i \<longrightarrow> tp_busy p i = None)"

lemma busy_update:
  assumes "i < tp_threads p"
  shows "busy_work (p\<lparr>tp_busy := (tp_busy p)(i := v)\<rparr>) + (case tp_busy p i of None \<Rightarrow> {#} | Some f \<Rightarrow> {#f#})
    = busy_work p + (case v of None \<Rightarrow> {#} | Some f \<Rightarrow> {#f#})"
proof -
  let ?g = "\<lambda>w. case w of None \<Rightarrow> {#} | Some f \<Rightarrow> {#f#}"
  have "(\<Sum>j \<in> {..<tp_threads p} - {i}. ?g (((tp_busy p)(i := v)) j)) = (\<Sum>j \<in> {..<tp_threads p} - {i}. ?g (tp_busy p j))"
    by (rule sum.cong) auto
  then show ?thesis using assms by (simp add: busy_work_def sum.remove [of "{..<tp_threads p}" i])
qed

lemma busy_frame: "tp_busy p' = tp_busy p \<Longrightarrow> tp_threads p' = tp_threads p \<Longrightarrow> busy_work p' = busy_work p"
  by (simp add: busy_work_def)

lemma pool_inv_take:
  assumes v: "pool_inv p" and t: "pool_take i p = Some p'"
  shows "pool_inv p'"
proof -
  obtain f fs where q: "tp_queue p = f # fs" "i < tp_threads p" "tp_busy p i = None"
    and p': "p' = p\<lparr>tp_queue := fs, tp_busy := (tp_busy p)(i \<mapsto> f), tp_taken := tp_taken p @ [f]\<rparr>"
    using t by (auto simp: pool_take_def split: if_splits list.splits)
  have "busy_work p' = busy_work p + {#f#}"
    using busy_update [OF q(2), of "Some f"] q(3) busy_frame [of p' "p\<lparr>tp_busy := (tp_busy p)(i := Some f)\<rparr>"] by (simp add: p')
  then show ?thesis using v q by (simp add: pool_inv_def p')
qed

lemma pool_inv_finish:
  assumes v: "pool_inv p" and t: "pool_finish i p = Some p'"
  shows "pool_inv p'"
proof -
  obtain f where f: "tp_busy p i = Some f" and p': "p' = p\<lparr>tp_busy := (tp_busy p)(i := None), tp_finished := tp_finished p @ [f]\<rparr>"
    using t by (auto simp: pool_finish_def split: option.splits)
  have "i < tp_threads p" using v f by (metis pool_inv_def not_less option.distinct(1))
  then have "busy_work p' + {#f#} = busy_work p"
    using busy_update [of i p None] f busy_frame [of p' "p\<lparr>tp_busy := (tp_busy p)(i := None)\<rparr>"] by (simp add: p')
  then show ?thesis using v by (auto simp: pool_inv_def p')
qed

lemma pool_inv_step: "pool_step p p' \<Longrightarrow> pool_inv p \<Longrightarrow> pool_inv p'"
proof (induction rule: pool_step.induct)
  case (post p f)
  then show ?case using busy_frame [of "pool_post f p" p] by (simp add: pool_inv_def pool_post_def)
next
  case (stop p)
  then show ?case using busy_frame [of "pool_stop p" p] by (simp add: pool_inv_def pool_stop_def)
qed (auto intro: pool_inv_take pool_inv_finish)

text \<open>The workers of the pool take every function once, in the order posted: what was posted is what was taken followed by what is queued, and every
  function taken has finished or is being run by one worker.\<close>

theorem pool_takes_in_order:
  assumes "pool_step\<^sup>*\<^sup>* (pool_start hardware num pool_new) p"
  shows "tp_posted p = tp_taken p @ tp_queue p \<and> mset (tp_taken p) = mset (tp_finished p) + busy_work p"
proof -
  have "pool_inv (pool_start hardware num pool_new)" by (simp add: pool_inv_def pool_start_def pool_new_def busy_work_def Let_def)
  with assms have "pool_inv p" by (induction rule: rtranclp_induct) (auto intro: pool_inv_step)
  then show ?thesis by (simp add: pool_inv_def)
qed

definition greeting :: "(nat, nat, nat) behaviour" where
  "greeting w e = (case w of Func f \<Rightarrow> (if 0 < e then ([Post (Func (f + 1)), Wake f], e - 1) else ([], e)) | Resume h \<Rightarrow> ([], e))"

lemma greeting_bounded: "bounded_wakes greeting (\<lambda>e. e)"
  by (auto simp: bounded_wakes_def greeting_def wakes_def split: work.splits)

theorem scheduler_turn_returns_witness: "\<exists>st'. scheduler_turn greeting [4] (sched_post (Func 7) (scheduler_start 3)) = Some st'"
  by (rule scheduler_turn_returns [OF greeting_bounded])

theorem scheduler_turn_order_witness:
  "\<exists>st'. scheduler_turn greeting [4] (sched_post (Func 7) (scheduler_start 3)) = Some st' \<and> s_done st' = [Func 7]
     \<and> s_posted st' = Func 7 # s_queue st' \<and> s_resumed st' = s_woken st'"
proof -
  obtain st' where st': "scheduler_turn greeting [4] (sched_post (Func 7) (scheduler_start 3)) = Some st'"
    using run_wakes_returns [OF greeting_bounded] unfolding scheduler_turn_def by blast
  have "sched_inv (sched_post (Func 7) (scheduler_start 3) :: (nat, nat, nat) scheduler)" by (simp add: sched_inv_start)
  from scheduler_turn_order [OF this st'] st' show ?thesis by (simp add: sched_post_def scheduler_start_def)
qed

theorem pool_takes_in_order_witness:
  "tp_posted (pool_post 5 (pool_post 4 (pool_start 8 2 pool_new))) = [4, 5 :: nat]
    \<and> tp_posted (pool_post 5 (pool_post 4 (pool_start 8 2 pool_new))) = tp_taken (pool_post 5 (pool_post 4 (pool_start 8 2 pool_new))) @ [4, 5 :: nat]"
proof -
  have "pool_step\<^sup>*\<^sup>* (pool_start 8 2 pool_new) (pool_post 5 (pool_post 4 (pool_start 8 2 pool_new)) :: nat pool)"
    by (meson pool_step.post rtranclp.rtrancl_into_rtrancl rtranclp.rtrancl_refl)
  from pool_takes_in_order [OF this] show ?thesis by (simp add: pool_post_def pool_start_def pool_new_def)
qed

end
