(* ===== verification/Application.thy ===== *)
theory Application
  imports Parallel_Task "HOL-Library.Multiset"
begin

text \<open>
  The application that hosts the services (\<open>runtime/src/application/application.cpp\<close>, \<open>service_loader.cpp\<close>, \<open>frame_awaiter\<close>,
  \<open>service.hpp\<close>, \<open>event_system.hpp\<close>, \<open>call_router.hpp\<close>): loading and waking the services, frames and the coroutines waiting for them,
  message callbacks, events and calls.  The dynamic linker, the order \<open>std::ranges::sort\<close> leaves equal elements in and what a callback does are arguments;
  a configuration entry is what the lookups in its table find.
\<close>

section \<open>Finding the library of a service\<close>

record loader =
  ld_paths :: "string list"
  ld_dlls :: "string \<Rightarrow> string option"

datatype load_error = Not_loaded | Needs string

definition add_path :: "string \<Rightarrow> loader \<Rightarrow> loader" where
  "add_path p ld = ld\<lparr>ld_paths := ld_paths ld @ [p]\<rparr>"

definition candidate :: "string \<Rightarrow> string \<Rightarrow> string option" where
  "candidate name p = (if CHR ''?'' \<in> set p
     then Some (takeWhile (\<lambda>c. c \<noteq> CHR ''?'') p @ name @ tl (dropWhile (\<lambda>c. c \<noteq> CHR ''?'') p)) else None)"

fun find_library :: "(string \<Rightarrow> bool) \<Rightarrow> string \<Rightarrow> string list \<Rightarrow> string option" where
  "find_library service_load name [] = None"
| "find_library service_load name (p # ps) = (case candidate name p of
     None \<Rightarrow> find_library service_load name ps
   | Some temp \<Rightarrow> if service_load temp then Some temp else find_library service_load name ps)"

definition loader_query :: "(string \<Rightarrow> bool) \<Rightarrow> (string \<Rightarrow> string \<Rightarrow> bool) \<Rightarrow> string \<Rightarrow> loader \<Rightarrow> load_error + (string \<times> loader)" where
  "loader_query service_load service_api name ld = (case ld_dlls ld name of
     Some dll \<Rightarrow> Inr (dll, ld)
   | None \<Rightarrow>
       let ld = (if ld_paths ld = [] then add_path ''./?.so'' ld else ld)
       in case find_library service_load name (ld_paths ld) of
            None \<Rightarrow> Inl Not_loaded
          | Some temp \<Rightarrow>
              if \<not> service_api temp (name @ ''_create'') then Inl (Needs (name @ ''_create''))
              else if \<not> service_api temp (name @ ''_release'') then Inl (Needs (name @ ''_release''))
              else Inr (temp, ld\<lparr>ld_dlls := (ld_dlls ld)(name \<mapsto> temp)\<rparr>))"

section \<open>Services\<close>

record service =
  sv_name :: string
  sv_type :: string
  sv_order :: u32
  sv_id :: u16
  sv_current :: u64
  sv_interval :: u64

definition need_update :: "service \<Rightarrow> bool \<times> service" where
  "need_update s =
     (if sv_interval s = 0 then (False, s)
      else let s = s\<lparr>sv_current := sv_current s + 1\<rparr>
           in if sv_current s < sv_interval s then (False, s) else (True, s\<lparr>sv_current := 0\<rparr>))"

record service_config =
  sc_table :: bool
  sc_name :: "string option"
  sc_id :: "int option"
  sc_type :: "string option"
  sc_order :: "int option"
  sc_interval :: "int option"

datatype app_error = Repeated u16 | Load_failed load_error

record services_state =
  service_map :: "u16 \<Rightarrow> service option"
  service_sort :: "service list"

definition contains_service :: "u16 \<Rightarrow> services_state \<Rightarrow> bool" where
  "contains_service i ap \<longleftrightarrow> service_map ap i \<noteq> None"

type_synonym query = "string \<Rightarrow> loader \<Rightarrow> load_error + (string \<times> loader)"

definition load_service :: "query \<Rightarrow> service_config \<Rightarrow> loader \<times> services_state \<Rightarrow> app_error + (loader \<times> services_state)" where
  "load_service query cfg st = (case st of (ld, ap) \<Rightarrow>
     if \<not> sc_table cfg then Inr st
     else case sc_name cfg of None \<Rightarrow> Inr st
     | Some name \<Rightarrow> (case sc_id cfg of None \<Rightarrow> Inr st
     | Some raw \<Rightarrow>
         let i = word_of_int raw :: u16
         in if contains_service i ap then Inl (Repeated i)
            else case sc_type cfg of None \<Rightarrow> Inr st
            | Some type \<Rightarrow> (case query type ld of
                Inl e \<Rightarrow> Inl (Load_failed e)
              | Inr (dll, ld) \<Rightarrow>
                  let s = \<lparr>sv_name = name, sv_type = type, sv_order = (case sc_order cfg of None \<Rightarrow> 0 | Some v \<Rightarrow> word_of_int v),
                         sv_id = i, sv_current = 0, sv_interval = (case sc_interval cfg of None \<Rightarrow> 0 | Some v \<Rightarrow> word_of_int v)\<rparr>
                  in Inr (ld, ap\<lparr>service_map := (service_map ap)(i \<mapsto> s), service_sort := service_sort ap @ [s]\<rparr>))))"

fun load_all :: "query \<Rightarrow> service_config list \<Rightarrow> loader \<times> services_state \<Rightarrow> app_error + (loader \<times> services_state)" where
  "load_all query [] st = Inr st"
| "load_all query (cfg # cfgs) st = (case load_service query cfg st of Inl e \<Rightarrow> Inl e | Inr st \<Rightarrow> load_all query cfgs st)"

definition load_services :: "query \<Rightarrow> (service list \<Rightarrow> service list) \<Rightarrow> service_config list \<Rightarrow> loader \<times> services_state \<Rightarrow> app_error + (loader \<times> services_state)" where
  "load_services query ranges_sort cfgs st = (case load_all query cfgs st of
     Inl e \<Rightarrow> Inl e
   | Inr (ld, ap) \<Rightarrow> Inr (ld, ap\<lparr>service_sort := ranges_sort (service_sort ap)\<rparr>))"

definition no_services :: services_state where
  "no_services = \<lparr>service_map = (\<lambda>_. None), service_sort = []\<rparr>"

definition release_services :: "services_state \<Rightarrow> service list \<times> services_state" where
  "release_services ap = (service_sort ap, no_services)"

text \<open>\<open>awake_services\<close> once the tasks have ended: the first of them with an exception is reported, by the name of its service.\<close>

fun awake_report :: "service list \<Rightarrow> ('e, 'v) ptask list \<Rightarrow> (string \<times> 'e coro_exn) option" where
  "awake_report (s # ss) (t # ts) = (case task_exception t of Some e \<Rightarrow> Some (sv_name s, e) | None \<Rightarrow> awake_report ss ts)"
| "awake_report _ _ = None"

definition awake_services :: "services_state \<Rightarrow> ('e, 'v) parallel \<Rightarrow> (string \<times> 'e coro_exn) option" where
  "awake_services ap st = (case par_await_resume st of Inl e \<Rightarrow> Some ('''', e) | Inr tasks \<Rightarrow> awake_report (service_sort ap) tasks)"

section \<open>The services that were loaded\<close>

definition sorts_by_order :: "(service list \<Rightarrow> service list) \<Rightarrow> bool" where
  "sorts_by_order f \<longleftrightarrow> (\<forall>xs. mset (f xs) = mset xs \<and> sorted (map sv_order (f xs)))"

definition map_agrees :: "services_state \<Rightarrow> bool" where
  "map_agrees ap \<longleftrightarrow> distinct (map sv_id (service_sort ap)) \<and> (\<forall>i s. service_map ap i = Some s \<longleftrightarrow> s \<in> set (service_sort ap) \<and> sv_id s = i)"

lemma load_service_agrees:
  assumes "load_service query cfg (ld, ap) = Inr (ld', ap')" "map_agrees ap"
  shows "map_agrees ap'"
proof (cases "ap' = ap")
  case False
  define s where "s = List.last (service_sort ap')"
  have s: "service_map ap (sv_id s) = None" "ap' = ap\<lparr>service_map := (service_map ap)(sv_id s \<mapsto> s), service_sort := service_sort ap @ [s]\<rparr>"
    unfolding s_def using assms(1) False by (auto simp: load_service_def contains_service_def Let_def split: if_splits option.splits sum.splits)
  then have "sv_id s \<notin> sv_id ` set (service_sort ap)" using assms(2) unfolding map_agrees_def by (metis imageE option.distinct(1))
  moreover have "t \<in> set (service_sort ap) \<Longrightarrow> sv_id t \<noteq> sv_id s" for t using calculation by (metis image_eqI)
  ultimately show ?thesis using s assms(2) by (auto simp: map_agrees_def)
qed (use assms in simp)

lemma load_all_agrees: "load_all query cfgs (ld, ap) = Inr (ld', ap') \<Longrightarrow> map_agrees ap \<Longrightarrow> map_agrees ap'"
proof (induction cfgs arbitrary: ld ap)
  case (Cons cfg cfgs)
  then obtain ld1 ap1 where "load_service query cfg (ld, ap) = Inr (ld1, ap1)" "load_all query cfgs (ld1, ap1) = Inr (ld', ap')"
    by (auto split: sum.splits)
  then show ?case using Cons load_service_agrees by blast
qed simp

text \<open>When loading succeeds the services have different numbers, the map finds each by its number and nothing else, and they stand in the order they are to be woken.\<close>

theorem load_services_sorted:
  assumes "load_services query ranges_sort cfgs (ld, no_services) = Inr (ld', ap)" "sorts_by_order ranges_sort"
  shows "distinct (map sv_id (service_sort ap)) \<and> sorted (map sv_order (service_sort ap))
    \<and> (service_map ap i = Some s \<longleftrightarrow> s \<in> set (service_sort ap) \<and> sv_id s = i)"
proof -
  obtain ap1 where a: "load_all query cfgs (ld, no_services) = Inr (ld', ap1)" "ap = ap1\<lparr>service_sort := ranges_sort (service_sort ap1)\<rparr>"
    using assms(1) by (auto simp: load_services_def split: sum.splits)
  have "map_agrees ap1" using load_all_agrees [OF a(1)] by (simp add: map_agrees_def no_services_def)
  moreover have m: "mset (ranges_sort (service_sort ap1)) = mset (service_sort ap1)" "sorted (map sv_order (ranges_sort (service_sort ap1)))"
    using assms(2) by (simp_all add: sorts_by_order_def)
  moreover have "set (ranges_sort (service_sort ap1)) = set (service_sort ap1)" using m(1) by (rule mset_eq_setD)
  moreover have "mset (map sv_id (ranges_sort (service_sort ap1))) = mset (map sv_id (service_sort ap1))" using m(1) by simp
  then have "distinct (map sv_id (ranges_sort (service_sort ap1))) = distinct (map sv_id (service_sort ap1))" using mset_eq_imp_distinct_iff by blast
  ultimately show ?thesis using a(2) by (simp add: map_agrees_def)
qed

definition sample_config :: "string \<Rightarrow> int \<Rightarrow> int \<Rightarrow> service_config" where
  "sample_config name i order = \<lparr>sc_table = True, sc_name = Some name, sc_id = Some i, sc_type = Some ''gate'', sc_order = Some order, sc_interval = None\<rparr>"

lemma sort_key_sorts: "sorts_by_order (sort_key sv_order)"
  by (simp add: sorts_by_order_def)

definition sample_services :: services_state where
  "sample_services = snd (projr (load_services (\<lambda>type ld. Inr (type, ld)) (sort_key sv_order) [sample_config ''b'' 2 5, sample_config ''a'' 1 3]
     (\<lparr>ld_paths = [], ld_dlls = (\<lambda>_. None)\<rparr>, no_services)))"

lemma sample_load:
  "load_services (\<lambda>type ld. Inr (type, ld)) (sort_key sv_order) [sample_config ''b'' 2 5, sample_config ''a'' 1 3]
     (\<lparr>ld_paths = [], ld_dlls = (\<lambda>_. None)\<rparr>, no_services) = Inr (\<lparr>ld_paths = [], ld_dlls = (\<lambda>_. None)\<rparr>, sample_services)"
  by (simp add: sample_services_def load_services_def load_service_def sample_config_def contains_service_def no_services_def Let_def)

theorem load_services_sorted_witness:
  "distinct (map sv_id (service_sort sample_services)) \<and> sorted (map sv_order (service_sort sample_services))
    \<and> (service_map sample_services 2 = Some \<lparr>sv_name = ''b'', sv_type = ''gate'', sv_order = 5, sv_id = 2, sv_current = 0, sv_interval = 0\<rparr>
       \<longleftrightarrow> \<lparr>sv_name = ''b'', sv_type = ''gate'', sv_order = 5, sv_id = 2, sv_current = 0, sv_interval = 0\<rparr> \<in> set (service_sort sample_services)
         \<and> sv_id \<lparr>sv_name = ''b'', sv_type = ''gate'', sv_order = 5, sv_id = 2, sv_current = 0, sv_interval = 0\<rparr> = 2)"
  by (rule load_services_sorted [OF sample_load sort_key_sorts])

section \<open>When a service is updated\<close>

fun updates :: "nat \<Rightarrow> service \<Rightarrow> nat \<times> service" where
  "updates 0 s = (0, s)"
| "updates (Suc m) s = (case updates m s of (k, s) \<Rightarrow> case need_update s of (b, s) \<Rightarrow> (if b then k + 1 else k, s))"

lemma u64_succ: "c < n \<Longrightarrow> unat (c + 1 :: u64) = unat c + 1"
proof -
  assume "c < n"
  then have "unat c + 1 < size_t_modulus" using unat_u64_less [of n] by (simp add: word_less_nat_alt)
  then show ?thesis by (simp add: unat_word_ariths)
qed

lemma need_update_spec:
  assumes "sv_interval s \<noteq> 0" "sv_current s < sv_interval s"
  shows "need_update s = (unat (sv_current s) + 1 = unat (sv_interval s), s\<lparr>sv_current := (if unat (sv_current s) + 1 = unat (sv_interval s) then 0 else sv_current s + 1)\<rparr>)"
proof -
  have l: "unat (sv_current s) < unat (sv_interval s)" using assms(2) by (simp add: word_less_nat_alt)
  have "unat (sv_current s + 1) = unat (sv_current s) + 1" using u64_succ [OF assms(2)] .
  then show ?thesis using assms l by (auto simp: need_update_def Let_def word_less_nat_alt)
qed

text \<open>A service with an update interval is updated once in every that many frames, whatever the number of frames.\<close>

theorem updates_per_interval:
  assumes "sv_interval s \<noteq> 0" "sv_current s = 0"
  shows "fst (updates m s) = m div unat (sv_interval s)"
proof -
  let ?n = "unat (sv_interval s)"
  have n: "0 < ?n" using assms(1) by (simp add: unat_gt_0)
  have "fst (updates m s) = m div ?n \<and> sv_interval (snd (updates m s)) = sv_interval s \<and> unat (sv_current (snd (updates m s))) = m mod ?n"
  proof (induction m)
    case (Suc m)
    obtain k t where t: "updates m s = (k, t)" by (cases "updates m s")
    have i: "sv_interval t \<noteq> 0" "sv_current t < sv_interval t" using Suc t assms(1) n by (simp_all add: word_less_nat_alt)
    have "unat (sv_current t + 1) = Suc (m mod ?n)" using u64_succ [OF i(2)] Suc t by simp
    then show ?case using Suc t need_update_spec [OF i] by (auto simp: div_Suc mod_Suc)
  qed (use assms in simp)
  then show ?thesis by simp
qed

theorem updates_per_interval_witness:
  "fst (updates 10 \<lparr>sv_name = ''a'', sv_type = ''gate'', sv_order = 0, sv_id = 1, sv_current = 0, sv_interval = 3\<rparr>) = 3"
  using updates_per_interval [of "\<lparr>sv_name = ''a'', sv_type = ''gate'', sv_order = 0, sv_id = 1, sv_current = 0, sv_interval = 3\<rparr>" 10] by simp

section \<open>Frames\<close>

record 'h frames =
  fr_frame :: u64
  fr_waits :: "u64 \<Rightarrow> 'h set option"

definition wait_frame :: "u64 \<Rightarrow> 'h \<Rightarrow> 'h frames \<Rightarrow> 'h frames" where
  "wait_frame frame h fr = fr\<lparr>fr_waits := (fr_waits fr)(frame \<mapsto> insert h (case fr_waits fr frame of None \<Rightarrow> {} | Some hs \<Rightarrow> hs))\<rparr>"

definition remove_frame_coroutine :: "u64 \<Rightarrow> 'h \<Rightarrow> 'h frames \<Rightarrow> bool \<times> 'h frames" where
  "remove_frame_coroutine frame h fr = (case fr_waits fr frame of None \<Rightarrow> (False, fr)
     | Some hs \<Rightarrow> (h \<in> hs, fr\<lparr>fr_waits := (fr_waits fr)(frame \<mapsto> hs - {h})\<rparr>))"

text \<open>\<open>wake_up_frame\<close> gives the coroutines handed to the scheduler; a frame of \<open>update_frame\<close> counts and wakes.\<close>

definition wake_up_frame :: "'h frames \<Rightarrow> 'h set \<times> 'h frames" where
  "wake_up_frame fr = (case fr_waits fr (fr_frame fr) of None \<Rightarrow> ({}, fr)
     | Some hs \<Rightarrow> (hs, fr\<lparr>fr_waits := (fr_waits fr)(fr_frame fr := None)\<rparr>))"

definition next_frame :: "'h frames \<Rightarrow> 'h set \<times> 'h frames" where
  "next_frame fr = wake_up_frame (fr\<lparr>fr_frame := fr_frame fr + 1\<rparr>)"

definition skip_frame :: "u64 \<Rightarrow> 'h frames \<Rightarrow> u64" where
  "skip_frame skip fr = fr_frame fr + (if skip = 0 then 1 else skip)"

text \<open>\<open>frame_awaiter\<close>: suspended or not, and the frames.\<close>

definition frame_await_suspend :: "bool \<Rightarrow> u64 \<Rightarrow> 'h \<Rightarrow> 'h frames \<Rightarrow> bool \<times> 'h frames" where
  "frame_await_suspend cancelled frame h fr = (if cancelled \<or> fr_frame fr = frame then (False, fr) else (True, wait_frame frame h fr))"

definition frame_callback :: "u64 \<Rightarrow> 'h \<Rightarrow> 'h frames \<Rightarrow> 'h set \<times> 'h frames" where
  "frame_callback frame h fr = (case remove_frame_coroutine frame h fr of (b, fr) \<Rightarrow> (if b then {h} else {}, fr))"

fun frames_after :: "nat \<Rightarrow> 'h frames \<Rightarrow> 'h set \<times> 'h frames" where
  "frames_after 0 fr = ({}, fr)"
| "frames_after (Suc j) fr = next_frame (snd (frames_after j fr))"

definition waits_for :: "'h frames \<Rightarrow> 'h \<Rightarrow> u64 \<Rightarrow> bool" where
  "waits_for fr h frame \<longleftrightarrow> (\<forall>g. (case fr_waits fr g of None \<Rightarrow> False | Some hs \<Rightarrow> h \<in> hs) \<longleftrightarrow> g = frame)"

definition waits_nowhere :: "'h frames \<Rightarrow> 'h \<Rightarrow> bool" where
  "waits_nowhere fr h \<longleftrightarrow> (\<forall>g. case fr_waits fr g of None \<Rightarrow> True | Some hs \<Rightarrow> h \<notin> hs)"

lemma case_option_mem: "(case w of None \<Rightarrow> False | Some hs \<Rightarrow> h \<in> hs) \<longleftrightarrow> (\<exists>hs. w = Some hs \<and> h \<in> hs)"
  by (cases w) auto

lemma waits_forD: "waits_for fr h frame \<Longrightarrow> (\<exists>hs. fr_waits fr g = Some hs \<and> h \<in> hs) \<longleftrightarrow> g = frame"
  by (simp add: waits_for_def case_option_mem)

lemma waits_forI: "(\<And>g. (\<exists>hs. fr_waits fr g = Some hs \<and> h \<in> hs) \<longleftrightarrow> g = frame) \<Longrightarrow> waits_for fr h frame"
  by (simp add: waits_for_def case_option_mem)

lemma next_frame_waits:
  assumes "waits_for fr h frame"
  shows "h \<in> fst (next_frame fr) \<longleftrightarrow> fr_frame fr + 1 = frame"
    "fr_frame fr + 1 \<noteq> frame \<Longrightarrow> waits_for (snd (next_frame fr)) h frame"
    "fr_frame fr + 1 = frame \<Longrightarrow> waits_nowhere (snd (next_frame fr)) h"
    "fr_frame (snd (next_frame fr)) = fr_frame fr + 1"
proof -
  note w = waits_forD [OF assms]
  show "h \<in> fst (next_frame fr) \<longleftrightarrow> fr_frame fr + 1 = frame"
    using w [of "fr_frame fr + 1"] by (auto simp: next_frame_def wake_up_frame_def split: option.splits)
  show "waits_for (snd (next_frame fr)) h frame" if "fr_frame fr + 1 \<noteq> frame"
    using w that by (intro waits_forI) (auto simp: next_frame_def wake_up_frame_def split: option.splits)
  show "waits_nowhere (snd (next_frame fr)) h" if f: "fr_frame fr + 1 = frame"
  proof -
    have "\<exists>hs. fr_waits fr frame = Some hs" using w by blast
    moreover have "h \<notin> hs" if "fr_waits fr g = Some hs" "g \<noteq> frame" for g hs using w that by blast
    ultimately show ?thesis using f by (auto simp: waits_nowhere_def next_frame_def wake_up_frame_def split: option.splits)
  qed
  show "fr_frame (snd (next_frame fr)) = fr_frame fr + 1" by (simp add: next_frame_def wake_up_frame_def split: option.splits)
qed

lemma frames_after_waits:
  assumes w: "waits_for fr h (fr_frame fr + k)" and j: "j < unat k"
  shows "waits_for (snd (frames_after j fr)) h (fr_frame fr + k) \<and> fr_frame (snd (frames_after j fr)) = fr_frame fr + of_nat j \<and> h \<notin> fst (frames_after j fr)"
  using j
proof (induction j)
  case (Suc j)
  have "of_nat (Suc j) \<noteq> k"
  proof
    assume "of_nat (Suc j) = k"
    then have "unat (of_nat (Suc j) :: u64) = unat k" by simp
    moreover have "unat (of_nat (Suc j) :: u64) = Suc j" using Suc.prems unat_u64_less [of k] by (intro unat_u64_of_nat) simp
    ultimately show False using Suc.prems by simp
  qed
  then have "fr_frame (snd (frames_after j fr)) + 1 \<noteq> fr_frame fr + k" using Suc by (simp add: add.assoc add.commute)
  then show ?case using Suc next_frame_waits [of "snd (frames_after j fr)" h "fr_frame fr + k"] by (simp add: add.assoc add.commute)
qed (use w in simp)

text \<open>A coroutine that skips frames is not handed to the scheduler before, is handed to it in exactly that frame, and then no longer waits:
  also when the counter wraps around.\<close>

theorem skip_frame_on_time:
  assumes "waits_nowhere fr h" "k = (if skip = 0 then 1 else skip)"
    and "frame_await_suspend False (skip_frame skip fr) h fr = (b, fr')"
  shows "b \<and> (\<forall>j < unat k. h \<notin> fst (frames_after j fr')) \<and> h \<in> fst (frames_after (unat k) fr') \<and> waits_nowhere (snd (frames_after (unat k) fr')) h"
proof -
  have k: "skip_frame skip fr = fr_frame fr + k" "k \<noteq> 0" "fr_frame fr + k \<noteq> fr_frame fr" using assms(2) by (auto simp: skip_frame_def)
  then have b: b "fr' = wait_frame (fr_frame fr + k) h fr" using assms(3) by (auto simp: frame_await_suspend_def)
  then have f: "fr_frame fr' = fr_frame fr" by (simp add: wait_frame_def)
  have "h \<notin> hs" if "fr_waits fr g = Some hs" for g hs using assms(1) that unfolding waits_nowhere_def by (metis option.simps(5))
  then have w: "waits_for fr' h (fr_frame fr' + k)" unfolding f b(2) by (intro waits_forI) (auto simp: wait_frame_def split: option.splits)
  obtain m where m: "unat k = Suc m" using k(2) by (metis not0_implies_Suc unat_eq_zero)
  have a: "waits_for (snd (frames_after m fr')) h (fr_frame fr' + k)" "fr_frame (snd (frames_after m fr')) = fr_frame fr' + of_nat m"
    using frames_after_waits [OF w, of m] m by simp_all
  have "of_nat (unat k) = k" by simp
  then have "of_nat (Suc m) = k" unfolding m .
  then have "fr_frame (snd (frames_after m fr')) + 1 = fr_frame fr' + k" using a(2) by (simp add: add.assoc add.commute)
  then show ?thesis using b(1) next_frame_waits(1,3) [OF a(1)] frames_after_waits [OF w] m by simp
qed

theorem skip_frame_on_time_witness:
  "(7 :: nat) \<notin> fst (frames_after 1 (wait_frame 1 7 \<lparr>fr_frame = - 1, fr_waits = (\<lambda>_. None)\<rparr>))
   \<and> (7 :: nat) \<in> fst (frames_after 2 (wait_frame 1 7 \<lparr>fr_frame = - 1, fr_waits = (\<lambda>_. None)\<rparr>))"
proof -
  let ?fr = "\<lparr>fr_frame = - 1, fr_waits = (\<lambda>_. None)\<rparr> :: nat frames"
  have "waits_nowhere ?fr 7" "frame_await_suspend False (skip_frame 2 ?fr) 7 ?fr = (True, wait_frame 1 7 ?fr)"
    by (simp_all add: waits_nowhere_def frame_await_suspend_def skip_frame_def)
  from skip_frame_on_time [OF this(1) _ this(2), of 2] show ?thesis by (auto dest: spec [of _ 1])
qed

text \<open>A frame already gone by: the awaiter suspends the coroutine although the frame will not come before the counter has wrapped around.\<close>

lemma past_frame_waits:
  "frame_await_suspend False (fr_frame fr - 1) h fr = (True, wait_frame (fr_frame fr - 1) h fr)"
  by (simp add: frame_await_suspend_def)

section \<open>Who is blamed for a failed start\<close>

text \<open>When a service fails while an earlier one is still waking, the earlier one is cancelled and reported in its place.\<close>

theorem awake_blames_canceled:
  assumes "service_sort ap = [a, b]"
  shows "\<exists>st. par_reach Wait_one_fail 2 st \<and> pc_goes st = 1 \<and> pc_order st = [1, 0] \<and> pt_outcome (pc_tasks st ! 1) = Some (Exc (User e))
     \<and> awake_services ap st = Some (sv_name a, Canceled)"
  by (intro exI [of _ "right_then_left Wait_one_fail (Exc (User e)) (Exc Canceled)"])
    (simp add: reach_right_then_left right_then_left_simps awake_services_def par_await_resume_def task_exception_def assms)

section \<open>Message callbacks\<close>

type_synonym ('s, 'c) callbacks = "u32 \<Rightarrow> ('s \<Rightarrow> 'c option) option"

definition register_message_callback :: "u32 \<Rightarrow> 's \<Rightarrow> 'c \<Rightarrow> ('s, 'c) callbacks \<Rightarrow> ('s, 'c) callbacks" where
  "register_message_callback i s c m =
     (let cs = (case m i of None \<Rightarrow> (\<lambda>_. None) | Some cs \<Rightarrow> cs)
      in m(i \<mapsto> (if cs s = None then cs(s \<mapsto> c) else cs)))"

definition deregister_message_callback :: "u32 \<Rightarrow> 's \<Rightarrow> ('s, 'c) callbacks \<Rightarrow> ('s, 'c) callbacks" where
  "deregister_message_callback i s m = (case m i of None \<Rightarrow> m
     | Some cs \<Rightarrow> if cs s = None then m
         else let cs = cs(s := None) in if (\<forall>t. cs t = None) then m(i := None) else m(i \<mapsto> cs))"

text \<open>\<open>forward_message\<close>: the callbacks whose tasks are awaited, and the exception thrown when they have ended.\<close>

definition message_callbacks :: "u32 \<Rightarrow> ('s, 'c) callbacks \<Rightarrow> 's \<Rightarrow> 'c option" where
  "message_callbacks i m = (case m i of None \<Rightarrow> (\<lambda>_. None) | Some cs \<Rightarrow> cs)"

fun first_exception :: "('e, 'v) ptask list \<Rightarrow> 'e coro_exn option" where
  "first_exception [] = None"
| "first_exception (t # ts) = (case task_exception t of Some e \<Rightarrow> Some e | None \<Rightarrow> first_exception ts)"

text \<open>No empty entry is left behind, a callback registered is the one called until it is deregistered, and others are not touched; a second one for the same
  service is ignored.\<close>

theorem message_callback_lookup:
  "message_callbacks j (register_message_callback i s c m) t
     = (if j = i \<and> t = s \<and> message_callbacks i m s = None then Some c else message_callbacks j m t)"
  "message_callbacks j (deregister_message_callback i s m) t = (if j = i \<and> t = s then None else message_callbacks j m t)"
  by (auto simp: message_callbacks_def register_message_callback_def deregister_message_callback_def Let_def split: option.splits)

section \<open>Events and calls\<close>

record ('t, 'f) event_system =
  es_handlers :: "('t \<times> addr \<times> 'f) list"
  es_fresh :: addr

text \<open>A registration: whether it has its system, the handler it stands for, and the type of its events.\<close>

record 't event_registration =
  er_system :: bool
  er_handle :: "addr option"
  er_type :: "'t option"

definition register_handler :: "'t \<Rightarrow> 'f \<Rightarrow> ('t, 'f) event_system \<Rightarrow> 't event_registration \<times> ('t, 'f) event_system" where
  "register_handler ty f es = (\<lparr>er_system = True, er_handle = Some (es_fresh es), er_type = Some ty\<rparr>,
     es\<lparr>es_handlers := es_handlers es @ [(ty, es_fresh es, f)], es_fresh := es_fresh es + 1\<rparr>)"

fun remove_handler :: "'t \<Rightarrow> addr \<Rightarrow> ('t \<times> addr \<times> 'f) list \<Rightarrow> bool \<times> ('t \<times> addr \<times> 'f) list" where
  "remove_handler ty a [] = (False, [])"
| "remove_handler ty a ((u, b, f) # hs) = (if u = ty \<and> b = a then (True, hs) else case remove_handler ty a hs of (r, hs) \<Rightarrow> (r, (u, b, f) # hs))"

definition deregister_handler :: "'t event_registration \<Rightarrow> ('t, 'f) event_system \<Rightarrow> bool \<times> ('t, 'f) event_system" where
  "deregister_handler r es = (case (er_type r, er_handle r) of
     (Some ty, Some a) \<Rightarrow> (case remove_handler ty a (es_handlers es) of (b, hs) \<Rightarrow> (b, es\<lparr>es_handlers := hs\<rparr>))
   | _ \<Rightarrow> (False, es))"

definition er_deregister :: "'t event_registration \<Rightarrow> ('t, 'f) event_system \<Rightarrow> 't event_registration \<times> ('t, 'f) event_system" where
  "er_deregister r es = (if er_system r \<and> er_handle r \<noteq> None then (r\<lparr>er_handle := None\<rparr>, snd (deregister_handler r es)) else (r, es))"

text \<open>Move assignment to another registration: its own handler is forgotten.\<close>

definition er_move_assign :: "'t event_registration \<Rightarrow> 't event_registration \<Rightarrow> 't event_registration \<times> 't event_registration" where
  "er_move_assign r other = (other, \<lparr>er_system = False, er_handle = None, er_type = None\<rparr>)"

definition fire_event :: "'t \<Rightarrow> ('t, 'f) event_system \<Rightarrow> 'f list" where
  "fire_event ty es = map (\<lambda>(u, a, f). f) (filter (\<lambda>(u, a, f). u = ty) (es_handlers es))"

definition event_system_new :: "('t, 'f) event_system" where
  "event_system_new = \<lparr>es_handlers = [], es_fresh = 0\<rparr>"

definition es_ok :: "('t, 'f) event_system \<Rightarrow> bool" where
  "es_ok es \<longleftrightarrow> list_all (\<lambda>(u, a, f). a < es_fresh es) (es_handlers es)"

lemma remove_handler_append:
  "list_all (\<lambda>(u, a, f). a < n) hs \<Longrightarrow> n \<le> a \<Longrightarrow> remove_handler ty a (hs @ hs') = (case remove_handler ty a hs' of (r, hs') \<Rightarrow> (r, hs @ hs'))"
  by (induction hs) (auto split: prod.splits)

text \<open>Registering a handler makes it one of those called, after the others; deregistering takes exactly it away.\<close>

theorem event_register_deregister:
  assumes "es_ok es" "register_handler ty f es = (r, es')"
  shows "fire_event ty es' = fire_event ty es @ [f] \<and> es_ok es' \<and> er_deregister r es' = (r\<lparr>er_handle := None\<rparr>, es'\<lparr>es_handlers := es_handlers es\<rparr>)"
proof -
  have "r = \<lparr>er_system = True, er_handle = Some (es_fresh es), er_type = Some ty\<rparr>"
    "es' = es\<lparr>es_handlers := es_handlers es @ [(ty, es_fresh es, f)], es_fresh := es_fresh es + 1\<rparr>"
    using assms(2) by (simp_all add: register_handler_def)
  moreover have "list_all (\<lambda>(u, a, f). a < es_fresh es + 1) (es_handlers es)" using assms(1) by (auto simp: es_ok_def list_all_iff)
  ultimately show ?thesis using assms(1)
    by (auto simp: fire_event_def er_deregister_def deregister_handler_def es_ok_def remove_handler_append [of "es_fresh es" "es_handlers es" "es_fresh es" ty])
qed

theorem event_register_deregister_witness:
  "fire_event 1 (snd (register_handler 1 ''f'' (event_system_new :: (nat, string) event_system))) = [''f'']"
proof -
  have "es_ok (event_system_new :: (nat, string) event_system)" by (simp add: es_ok_def event_system_new_def)
  from event_register_deregister [OF this, of 1 "''f''"] show ?thesis
    by (cases "register_handler 1 ''f'' (event_system_new :: (nat, string) event_system)") (simp add: fire_event_def event_system_new_def)
qed

text \<open>Assigning one registration to another loses the handler the latter stood for: when both are gone it is still called, and nothing can take it away.\<close>

theorem event_move_assignment_leaks:
  assumes "es_ok es" "register_handler ty f es = (r, es')" "register_handler ty g es' = (s, es'')" "er_move_assign r s = (r', s')"
  shows "snd (er_deregister s' (snd (er_deregister r' es''))) = es''\<lparr>es_handlers := es_handlers es @ [(ty, es_fresh es, f)]\<rparr>"
proof -
  have "r' = \<lparr>er_system = True, er_handle = Some (es_fresh es + 1), er_type = Some ty\<rparr>" "s' = \<lparr>er_system = False, er_handle = None, er_type = None\<rparr>"
    "es'' = es\<lparr>es_handlers := es_handlers es @ [(ty, es_fresh es, f), (ty, es_fresh es + 1, g)], es_fresh := es_fresh es + 2\<rparr>"
    using assms(2-4) by (auto simp: register_handler_def er_move_assign_def)
  then show ?thesis using assms(1)
    by (auto simp: er_deregister_def deregister_handler_def es_ok_def remove_handler_append [of "es_fresh es" "es_handlers es" "Suc (es_fresh es)" ty])
qed

theorem event_move_assignment_leaks_witness:
  "\<exists>r es' s es'' r' s'. register_handler 1 ''f'' (event_system_new :: (nat, string) event_system) = (r, es') \<and> register_handler 1 ''g'' es' = (s, es'')
     \<and> er_move_assign r s = (r', s') \<and> fire_event 1 (snd (er_deregister s' (snd (er_deregister r' es'')))) = [''f'']"
proof -
  let ?es = "event_system_new :: (nat, string) event_system"
  obtain r es' where r: "register_handler 1 ''f'' ?es = (r, es')" by (cases "register_handler 1 ''f'' ?es")
  obtain s es'' where s: "register_handler 1 ''g'' es' = (s, es'')" by (cases "register_handler 1 ''g'' es'")
  obtain r' s' where m: "er_move_assign r s = (r', s')" by (cases "er_move_assign r s")
  have "es_ok ?es" by (simp add: es_ok_def event_system_new_def)
  from event_move_assignment_leaks [OF this r s m] r s m show ?thesis
    by (intro exI [of _ r] exI [of _ es'] exI [of _ s] exI [of _ es''] exI [of _ r'] exI [of _ s']) (simp add: fire_event_def event_system_new_def)
qed

text \<open>The calls of a service by name: \<open>None\<close> is the exception that there is no such function.\<close>

type_synonym ('p, 'e) call_router = "string \<Rightarrow> ('p list \<Rightarrow> 'e \<Rightarrow> 'p \<times> 'e) option"

definition register_call :: "string \<Rightarrow> ('p list \<Rightarrow> 'e \<Rightarrow> 'p \<times> 'e) \<Rightarrow> ('p, 'e) call_router \<Rightarrow> ('p, 'e) call_router" where
  "register_call name func m = m(name \<mapsto> func)"

definition router_call :: "string \<Rightarrow> 'p list \<Rightarrow> ('p, 'e) call_router \<Rightarrow> 'e \<Rightarrow> ('p \<times> 'e) option" where
  "router_call name args m e = (case m name of None \<Rightarrow> None | Some func \<Rightarrow> Some (func args e))"

definition deregister_call :: "string \<Rightarrow> ('p, 'e) call_router \<Rightarrow> bool \<times> ('p, 'e) call_router" where
  "deregister_call name m = (m name \<noteq> None, m(name := None))"

lemma router_call_simps:
  "router_call name args (register_call name' func m) e = (if name = name' then Some (func args e) else router_call name args m e)"
  "router_call name args (snd (deregister_call name' m)) e = (if name = name' then None else router_call name args m e)"
  by (simp_all add: router_call_def register_call_def deregister_call_def)

end
