(* ===== verification/Center.thy ===== *)
theory Center
  imports Prelude
begin

text \<open>
  The accounts of the center (\<open>gobang/center/center.cpp\<close>): an array of account records in shared memory that survives a restart of the process, two maps
  that find a record by user and by account, and the queue of free records.  The memory, a clock sample per 256 records and the
  moment of each sweep are arguments.
\<close>

section \<open>State\<close>

record account_info =
  ai_last_time :: int
  ai_version :: u16
  ai_version_db :: u16
  ai_userid :: u32
  ai_account :: "byte list"
  ai_password :: "byte list"

definition shm_account_size :: nat where
  "shm_account_size = 1024"

record center =
  ct_data :: "account_info list"
  ct_userid :: "u32 \<Rightarrow> nat option"
  ct_account :: "byte list \<Rightarrow> nat option"
  ct_empty :: "nat list"
  ct_userid_not_found :: "u32 set"
  ct_account_not_found :: "byte list set"

text \<open>The account of a record as the \<open>string_view\<close> made of the array: up to its first zero.\<close>

definition account_name :: "account_info \<Rightarrow> byte list" where
  "account_name a = takeWhile (\<lambda>b. b \<noteq> 0) (ai_account a)"

definition zero_account :: account_info where
  "zero_account = \<lparr>ai_last_time = 0, ai_version = 0, ai_version_db = 0, ai_userid = 0, ai_account = replicate 64 0, ai_password = replicate 64 0\<rparr>"

definition center_new :: "account_info list \<Rightarrow> center" where
  "center_new data = \<lparr>ct_data = data, ct_userid = (\<lambda>_. None), ct_account = (\<lambda>_. None), ct_empty = [], ct_userid_not_found = {}, ct_account_not_found = {}\<rparr>"

definition restore_slot :: "nat \<Rightarrow> center \<Rightarrow> center" where
  "restore_slot i st =
     (let temp = ct_data st ! i
      in if ai_userid temp = 0 then st\<lparr>ct_empty := ct_empty st @ [i]\<rparr>
         else st\<lparr>ct_userid := (ct_userid st)(ai_userid temp \<mapsto> i), ct_account := (ct_account st)(account_name temp \<mapsto> i)\<rparr>)"

definition restore_shm :: "bool \<Rightarrow> account_info list \<Rightarrow> center" where
  "restore_shm is_create data =
     (if is_create then (center_new (replicate shm_account_size zero_account))\<lparr>ct_empty := [0..<shm_account_size]\<rparr>
      else fold restore_slot [0..<shm_account_size] (center_new data))"

section \<open>The sweep\<close>

definition check_slot :: "int \<Rightarrow> nat \<Rightarrow> center \<Rightarrow> center" where
  "check_slot now i st =
     (let temp = ct_data st ! i
      in if ai_userid temp = 0 then st
         else if ai_version temp \<noteq> ai_version_db temp then st
         else if now - ai_last_time temp < 3600 then st
         else st\<lparr>ct_userid := (ct_userid st)(ai_userid temp := None), ct_account := (ct_account st)(account_name temp := None),
                 ct_data := (ct_data st)[i := zero_account], ct_empty := ct_empty st @ [i]\<rparr>)"

text \<open>The clock is read again, a frame later, at every record whose number ends in \<open>0xff\<close>.\<close>

definition check_account_info :: "(nat \<Rightarrow> int) \<Rightarrow> center \<Rightarrow> center" where
  "check_account_info clock st = fold (\<lambda>i. check_slot (clock ((i + 1) div 256)) i) [0..<shm_account_size] st"

definition clear_not_found :: "center \<Rightarrow> center" where
  "clear_not_found st = st\<lparr>ct_userid_not_found := {}, ct_account_not_found := {}\<rparr>"

section \<open>The records and the maps\<close>

abbreviation user_of :: "center \<Rightarrow> nat \<Rightarrow> u32" where
  "user_of st i \<equiv> ai_userid (ct_data st ! i)"

abbreviation name_of :: "center \<Rightarrow> nat \<Rightarrow> byte list" where
  "name_of st i \<equiv> account_name (ct_data st ! i)"

text \<open>The maps hold exactly the used records among the first \<open>k\<close>, the queue exactly the free ones.\<close>

definition maps_ok :: "nat \<Rightarrow> center \<Rightarrow> bool" where
  "maps_ok k st \<longleftrightarrow> length (ct_data st) = shm_account_size \<and> distinct (ct_empty st) \<and> set (ct_empty st) = {i. i < k \<and> user_of st i = 0}
     \<and> (\<forall>u i. ct_userid st u = Some i \<longleftrightarrow> i < k \<and> u \<noteq> 0 \<and> user_of st i = u)
     \<and> (\<forall>a i. ct_account st a = Some i \<longleftrightarrow> i < k \<and> user_of st i \<noteq> 0 \<and> name_of st i = a)"

abbreviation center_inv :: "center \<Rightarrow> bool" where
  "center_inv \<equiv> maps_ok shm_account_size"

text \<open>No user and no account has two records.\<close>

definition no_doubles :: "account_info list \<Rightarrow> bool" where
  "no_doubles data \<longleftrightarrow> (\<forall>i j. i < length data \<longrightarrow> j < length data \<longrightarrow> i \<noteq> j \<longrightarrow> ai_userid (data ! i) \<noteq> 0 \<longrightarrow> ai_userid (data ! j) \<noteq> 0 \<longrightarrow>
     ai_userid (data ! i) \<noteq> ai_userid (data ! j) \<and> account_name (data ! i) \<noteq> account_name (data ! j))"

lemma restore_slot_data [simp]: "ct_data (restore_slot i st) = ct_data st"
  by (simp add: restore_slot_def Let_def)

lemma restore_slot_ok:
  assumes ok: "maps_ok k st" and k: "k < shm_account_size" and d: "no_doubles (ct_data st)"
  shows "maps_ok (Suc k) (restore_slot k st)"
proof (cases "user_of st k = 0")
  case True
  have s: "restore_slot k st = st\<lparr>ct_empty := ct_empty st @ [k]\<rparr>" using True by (simp add: restore_slot_def)
  have "i < Suc k \<and> P i \<longleftrightarrow> i < k \<and> P i \<or> i = k \<and> P k" for i P by (auto simp: less_Suc_eq)
  then show ?thesis using ok True unfolding s maps_ok_def by (auto simp: less_Suc_eq)
next
  case False
  have l: "length (ct_data st) = shm_account_size" using ok by (simp add: maps_ok_def)
  have n: "user_of st i \<noteq> user_of st k \<and> name_of st i \<noteq> name_of st k" if "i < k" "user_of st i \<noteq> 0" for i
    using d that k l False by (simp add: no_doubles_def)
  have s: "restore_slot k st = st\<lparr>ct_userid := (ct_userid st)(user_of st k \<mapsto> k), ct_account := (ct_account st)(name_of st k \<mapsto> k)\<rparr>"
    using False by (simp add: restore_slot_def Let_def)
  have "set (ct_empty st) = {i. i < Suc k \<and> user_of st i = 0}" using ok False by (auto simp: maps_ok_def less_Suc_eq)
  moreover have "((ct_userid st)(user_of st k \<mapsto> k)) u = Some i \<longleftrightarrow> i < Suc k \<and> u \<noteq> 0 \<and> user_of st i = u" for u i
    using ok n [of i] False by (auto simp: maps_ok_def less_Suc_eq)
  moreover have "((ct_account st)(name_of st k \<mapsto> k)) a = Some i \<longleftrightarrow> i < Suc k \<and> user_of st i \<noteq> 0 \<and> name_of st i = a" for a i
    using ok n [of i] False by (auto simp: maps_ok_def less_Suc_eq)
  ultimately show ?thesis using ok unfolding s maps_ok_def by simp
qed

lemma restore_slots_ok:
  assumes "length data = shm_account_size" "no_doubles data" "k \<le> shm_account_size"
  shows "maps_ok k (fold restore_slot [0..<k] (center_new data)) \<and> ct_data (fold restore_slot [0..<k] (center_new data)) = data"
  using assms(3)
proof (induction k)
  case 0
  then show ?case using assms by (simp add: maps_ok_def center_new_def)
next
  case (Suc k)
  then show ?case using restore_slot_ok [of k "fold restore_slot [0..<k] (center_new data)"] assms by simp
qed

lemma check_slot_ok:
  assumes ok: "center_inv st" and i: "i < shm_account_size"
  shows "center_inv (check_slot now i st)"
proof (cases "check_slot now i st = st")
  case False
  then have u: "user_of st i \<noteq> 0" and s: "check_slot now i st = st\<lparr>ct_userid := (ct_userid st)(user_of st i := None), ct_account := (ct_account st)(name_of st i := None),
      ct_data := (ct_data st)[i := zero_account], ct_empty := ct_empty st @ [i]\<rparr>"
    by (auto simp: check_slot_def Let_def split: if_splits)
  have l: "length (ct_data st) = shm_account_size" and e: "set (ct_empty st) = {j. j < shm_account_size \<and> user_of st j = 0}"
    and us: "ct_userid st v = Some j \<longleftrightarrow> j < shm_account_size \<and> v \<noteq> 0 \<and> user_of st j = v"
    and ac: "ct_account st a = Some j \<longleftrightarrow> j < shm_account_size \<and> user_of st j \<noteq> 0 \<and> name_of st j = a" for v j a
    using ok by (simp_all add: maps_ok_def)
  let ?d = "(ct_data st)[i := zero_account]"
  have z: "ai_userid (?d ! j) = (if j = i then 0 else user_of st j)" "j \<noteq> i \<Longrightarrow> account_name (?d ! j) = name_of st j" for j
    using l i by (cases "j = i"; simp add: zero_account_def)+
  have "((ct_userid st)(user_of st i := None)) v = Some j \<longleftrightarrow> j < shm_account_size \<and> v \<noteq> 0 \<and> ai_userid (?d ! j) = v" for v j
    using us [of v j] us [of v i] z u i by (cases "j = i"; cases "v = user_of st i"; auto)
  moreover have "((ct_account st)(name_of st i := None)) a = Some j \<longleftrightarrow> j < shm_account_size \<and> ai_userid (?d ! j) \<noteq> 0 \<and> account_name (?d ! j) = a" for a j
    using ac [of a j] ac [of a i] z u i by (cases "j = i"; cases "a = name_of st i"; auto)
  moreover have "set (ct_empty st @ [i]) = {j. j < shm_account_size \<and> ai_userid (?d ! j) = 0}" "distinct (ct_empty st @ [i])"
    using e z u i ok by (auto simp: maps_ok_def)
  ultimately show ?thesis using l unfolding s maps_ok_def by simp
qed (use ok in simp)

lemma maps_ok_no_doubles: "center_inv st \<Longrightarrow> no_doubles (ct_data st)"
proof -
  assume ok: "center_inv st"
  then have l: "length (ct_data st) = shm_account_size" by (simp add: maps_ok_def)
  have u: "ct_userid st (user_of st i) = Some i" "ct_account st (name_of st i) = Some i" if "i < shm_account_size" "user_of st i \<noteq> 0" for i
    using ok that by (simp_all add: maps_ok_def)
  show ?thesis unfolding no_doubles_def l using u by (metis option.inject)
qed

lemma check_slots:
  assumes "center_inv st" "k \<le> shm_account_size"
  shows "center_inv (fold (\<lambda>i. check_slot (now i) i) [0..<k] st)
    \<and> (\<forall>j < shm_account_size. ct_data (fold (\<lambda>i. check_slot (now i) i) [0..<k] st) ! j = (if j < k then ct_data (check_slot (now j) j st) ! j else ct_data st ! j))"
  using assms(2)
proof (induction k)
  case 0
  then show ?case using assms(1) by simp
next
  case (Suc k)
  let ?s = "fold (\<lambda>i. check_slot (now i) i) [0..<k] st"
  have ok: "center_inv ?s" using Suc by simp
  have d: "ct_data ?s ! j = (if j < k then ct_data (check_slot (now j) j st) ! j else ct_data st ! j)" if "j < shm_account_size" for j
    using Suc that by simp
  have len: "length (ct_data ?s) = shm_account_size" "length (ct_data st) = shm_account_size" using ok assms(1) by (simp_all add: maps_ok_def)
  have kk: "ct_data ?s ! k = ct_data st ! k" using d [of k] Suc.prems by simp
  have "ct_data (check_slot (now k) k ?s) ! j = (if j = k then ct_data (check_slot (now k) k st) ! k else ct_data ?s ! j)" if "j < shm_account_size" for j
    using len kk Suc.prems that by (cases "j = k") (simp_all add: check_slot_def Let_def)
  then show ?case using check_slot_ok [OF ok, of k "now k"] Suc.prems d by (auto simp: less_Suc_eq)
qed

text \<open>A sweep keeps the maps and the queue of free records in step with the memory; it clears exactly the records that are written to the database and
  have not been used for an hour, and leaves every other one as it is.\<close>

theorem center_sweep:
  assumes "center_inv st" "j < shm_account_size"
  shows "center_inv (check_account_info clock st)
    \<and> ct_data (check_account_info clock st) ! j = (if user_of st j \<noteq> 0 \<and> ai_version (ct_data st ! j) = ai_version_db (ct_data st ! j)
        \<and> clock ((j + 1) div 256) - ai_last_time (ct_data st ! j) \<ge> 3600 then zero_account else ct_data st ! j)"
proof -
  have "length (ct_data st) = shm_account_size" using assms(1) by (simp add: maps_ok_def)
  then show ?thesis using check_slots [OF assms(1) order_refl, of "\<lambda>i. clock ((i + 1) div 256)"] assms(2)
    unfolding check_account_info_def by (auto simp: check_slot_def Let_def)
qed

text \<open>After a restart the maps rebuilt from the shared memory are those the process had before.\<close>

theorem center_restart:
  assumes "center_inv st"
  shows "center_inv (restore_shm False (ct_data st)) \<and> ct_userid (restore_shm False (ct_data st)) = ct_userid st
    \<and> ct_account (restore_shm False (ct_data st)) = ct_account st \<and> set (ct_empty (restore_shm False (ct_data st))) = set (ct_empty st)"
proof -
  have l: "length (ct_data st) = shm_account_size" using assms by (simp add: maps_ok_def)
  let ?r = "restore_shm False (ct_data st)"
  have r: "center_inv ?r" "ct_data ?r = ct_data st"
    using restore_slots_ok [OF l maps_ok_no_doubles [OF assms] order_refl] by (simp_all add: restore_shm_def)
  have "ct_userid ?r u = Some i \<longleftrightarrow> ct_userid st u = Some i" "ct_account ?r a = Some i \<longleftrightarrow> ct_account st a = Some i" for u i a
    using r assms by (simp_all add: maps_ok_def)
  then have "ct_userid ?r = ct_userid st" "ct_account ?r = ct_account st" by (metis ext option.exhaust option.distinct(1))+
  then show ?thesis using r assms by (simp add: maps_ok_def)
qed

lemma center_created: "center_inv (restore_shm True data)"
  by (auto simp: maps_ok_def restore_shm_def center_new_def zero_account_def)

definition sample_accounts :: "account_info list" where
  "sample_accounts = (replicate shm_account_size zero_account)[3 := zero_account\<lparr>ai_userid := 77, ai_account := [65, 0], ai_last_time := 1000\<rparr>]"

lemma sample_accounts_nth: "j < shm_account_size \<Longrightarrow> j \<noteq> 3 \<Longrightarrow> sample_accounts ! j = zero_account"
  "sample_accounts ! 3 = zero_account\<lparr>ai_userid := 77, ai_account := [65, 0], ai_last_time := 1000\<rparr>"
  by (simp_all add: sample_accounts_def shm_account_size_def)

lemma sample_center: "center_inv (restore_shm False sample_accounts)" "ct_data (restore_shm False sample_accounts) = sample_accounts"
proof -
  have l: "length sample_accounts = shm_account_size" by (simp add: sample_accounts_def)
  have "no_doubles sample_accounts"
    unfolding no_doubles_def l using sample_accounts_nth(1) by (metis (no_types) account_info.select_convs(4) zero_account_def)
  from restore_slots_ok [OF l this order_refl]
  show "center_inv (restore_shm False sample_accounts)" "ct_data (restore_shm False sample_accounts) = sample_accounts" by (simp_all add: restore_shm_def)
qed

theorem center_sweep_witness:
  "center_inv (check_account_info (\<lambda>_. 5000) (restore_shm False sample_accounts))
    \<and> ct_data (check_account_info (\<lambda>_. 5000) (restore_shm False sample_accounts)) ! 3 = zero_account"
  using center_sweep [OF sample_center(1), of 3 "\<lambda>_. 5000"] sample_accounts_nth(2)
  by (simp add: sample_center(2) shm_account_size_def zero_account_def)

theorem center_restart_witness: "ct_userid (restore_shm False (ct_data (restore_shm False sample_accounts))) 77 = Some 3"
proof -
  have "ct_userid (restore_shm False sample_accounts) 77 = Some 3"
    using sample_center sample_accounts_nth(2) unfolding maps_ok_def by (simp add: shm_account_size_def)
  then show ?thesis using center_restart [OF sample_center(1)] by simp
qed

end
