(* ===== verification/File_Appender.thy ===== *)
theory File_Appender
  imports Log_Formatter
begin

text \<open>
  The file appender (\<open>runtime/src/log/file_appender.cpp\<close>): log files named by the time of the first message in them, a new one when the day changes or the file
  has reached its size, the old one posted for compression.  The calendar, the printing of a time by \<open>fmt\<close>, the process number and whether a file can
  be opened are arguments.  \<open>fa_disk\<close> is the content of the files, \<open>fa_names\<close> lists the files opened so far.
\<close>

section \<open>The code\<close>

record file_config =
  fc_name :: "byte list"
  fc_log_directory :: "byte list"
  fc_lz4_directory :: "byte list"
  fc_max_size :: nat
  fc_file_time :: log_time_type
  fc_daily_roll :: bool

record file_env =
  fe_localtime :: "int \<Rightarrow> tm"
  fe_gmtime :: "int \<Rightarrow> tm"
  fe_print :: "tm \<Rightarrow> byte list"
  fe_pid :: int
  fe_open :: "byte list \<Rightarrow> bool"

record file_appender =
  fa_full_name :: "byte list"
  fa_secs :: int
  fa_id :: nat
  fa_size :: nat
  fa_point :: int
  fa_tm :: tm
  fa_is_open :: bool
  fa_disk :: "byte list \<Rightarrow> byte list option"
  fa_names :: "byte list list"
  fa_lz4 :: "(byte list \<times> byte list) list"

definition file_tm :: "file_env \<Rightarrow> file_config \<Rightarrow> int \<Rightarrow> tm" where
  "file_tm E cfg point = (if fc_file_time cfg = Local_time then fe_localtime E point else fe_gmtime E point)"

definition file_appender_new :: "file_env \<Rightarrow> file_config \<Rightarrow> int \<Rightarrow> file_appender" where
  "file_appender_new E cfg now = \<lparr>fa_full_name = [], fa_secs = 0, fa_id = 0, fa_size = 0, fa_point = now, fa_tm = file_tm E cfg now,
     fa_is_open = False, fa_disk = (\<lambda>_. None), fa_names = [], fa_lz4 = []\<rparr>"

text \<open>\<open>/=\<close> on paths, for a name that is not absolute; the file name of a path; another extension for a name that ends in \<open>.log\<close>.\<close>

definition path_append :: "byte list \<Rightarrow> byte list \<Rightarrow> byte list" where
  "path_append dir n = (if dir = [] \<or> List.last dir = 0x2f then dir @ n else dir @ 0x2f # n)"

definition path_filename :: "byte list \<Rightarrow> byte list" where
  "path_filename p = rev (takeWhile (\<lambda>b. b \<noteq> 0x2f) (rev p))"

definition lz4_name :: "byte list \<Rightarrow> byte list" where
  "lz4_name n = take (length n - 4) n @ bytes_of ''.log.lz4''"

definition file_name :: "file_env \<Rightarrow> file_config \<Rightarrow> tm \<Rightarrow> nat \<Rightarrow> byte list" where
  "file_name E cfg t i = fc_name cfg @ [0x5f] @ fe_print E t @ [0x5f] @ decimal_int (fe_pid E) @ (if i = 0 then [] else 0x5f # decimal i) @ bytes_of ''.log''"

definition make_full_name :: "file_env \<Rightarrow> file_config \<Rightarrow> file_appender \<Rightarrow> file_appender" where
  "make_full_name E cfg st =
     (let current = time_seconds (fa_point st);
          st = (if fa_secs st < current then st\<lparr>fa_secs := current, fa_id := 0\<rparr> else st)
      in st\<lparr>fa_full_name := path_append (fc_log_directory cfg) (file_name E cfg (fa_tm st) (fa_id st)), fa_id := fa_id st + 1\<rparr>)"

definition roll_file :: "file_config \<Rightarrow> file_appender \<Rightarrow> file_appender" where
  "roll_file cfg st =
     (if \<not> fa_is_open st then st
      else st\<lparr>fa_is_open := False, fa_size := 0,
             fa_lz4 := fa_lz4 st @ [(fa_full_name st, path_append (fc_lz4_directory cfg) (lz4_name (path_filename (fa_full_name st))))]\<rparr>)"

definition file_new_second :: "file_env \<Rightarrow> file_config \<Rightarrow> int \<Rightarrow> file_appender \<Rightarrow> file_appender" where
  "file_new_second E cfg point st =
     (if time_seconds point > time_seconds (fa_point st)
      then let current = file_tm E cfg point;
               st = (if fc_daily_roll cfg \<and> (tm_year current \<noteq> tm_year (fa_tm st) \<or> tm_yday current \<noteq> tm_yday (fa_tm st)) then roll_file cfg st else st)
           in st\<lparr>fa_tm := current, fa_point := point\<rparr>
      else st)"

definition file_open :: "file_env \<Rightarrow> file_config \<Rightarrow> file_appender \<Rightarrow> file_appender" where
  "file_open E cfg st =
     (if fa_is_open st then st
      else let st = make_full_name E cfg st
           in if fe_open E (fa_full_name st)
              then st\<lparr>fa_is_open := True, fa_disk := (fa_disk st)(fa_full_name st \<mapsto> []), fa_names := fa_names st @ [fa_full_name st]\<rparr> else st)"

definition file_append :: "file_config \<Rightarrow> byte list \<Rightarrow> file_appender \<Rightarrow> file_appender" where
  "file_append cfg buf st =
     (let st = st\<lparr>fa_disk := (fa_disk st)(fa_full_name st \<mapsto> (case fa_disk st (fa_full_name st) of None \<Rightarrow> [] | Some b \<Rightarrow> b) @ buf),
            fa_size := fa_size st + length buf\<rparr>
      in if fc_max_size cfg > 0 \<and> fa_size st \<ge> fc_max_size cfg then roll_file cfg st else st)"

definition file_write :: "file_env \<Rightarrow> file_config \<Rightarrow> int \<Rightarrow> byte list \<Rightarrow> file_appender \<Rightarrow> file_appender" where
  "file_write E cfg point buf st =
     (let st = file_open E cfg (file_new_second E cfg point st)
      in if fa_is_open st then file_append cfg buf st else st)"

fun file_writes :: "file_env \<Rightarrow> file_config \<Rightarrow> (int \<times> byte list) list \<Rightarrow> file_appender \<Rightarrow> file_appender" where
  "file_writes E cfg [] st = st"
| "file_writes E cfg ((point, buf) # ms) st = file_writes E cfg ms (file_write E cfg point buf st)"

section \<open>Names are not used twice\<close>

lemma decimal_inj: "decimal k = decimal m \<longleftrightarrow> k = m"
proof
  show "decimal k = decimal m \<Longrightarrow> k = m"
  proof (induction k arbitrary: m rule: decimal.induct)
    case (1 k)
    have d: "a = b" if "48 + of_nat a = (48 + of_nat b :: byte)" "a < 10" "b < 10" for a b
    proof -
      have "(of_nat a :: byte) = of_nat b" using that(1) by simp
      then have "unat (of_nat a :: byte) = unat (of_nat b :: byte)" by simp
      then show ?thesis using that by (simp add: unat_of_nat)
    qed
    show ?case
    proof (cases "k < 10"; cases "m < 10")
      assume "k < 10" "m < 10"
      then show ?thesis using 1(2) d by (simp add: decimal.simps)
    next
      assume "k < 10" "\<not> m < 10"
      then show ?thesis using 1(2) decimal.simps [of k] decimal.simps [of m] decimal_not_Nil [of "m div 10", symmetric] by simp
    next
      assume "\<not> k < 10" "m < 10"
      then show ?thesis using 1(2) decimal.simps [of k] decimal.simps [of m] decimal_not_Nil [of "k div 10", symmetric] by simp
    next
      assume km: "\<not> k < 10" "\<not> m < 10"
      then have "decimal (k div 10) = decimal (m div 10)" "48 + of_nat (k mod 10) = (48 + of_nat (m mod 10) :: byte)"
        using 1(2) decimal.simps [of k] decimal.simps [of m] by simp_all
      then have "k div 10 = m div 10" "k mod 10 = m mod 10" using 1(1) km d by simp_all
      then show ?thesis by (metis div_mult_mod_eq)
    qed
  qed
qed simp

text \<open>The calendar at the times \<open>P\<close>: different seconds are printed differently and with equal length (UTC from year 1000 to 9999 without leap seconds; the local
  time outside the hour that is repeated when clocks are set back).\<close>

definition good_calendar :: "file_env \<Rightarrow> file_config \<Rightarrow> int set \<Rightarrow> bool" where
  "good_calendar E cfg P \<longleftrightarrow> (\<forall>p \<in> P. \<forall>q \<in> P. fe_print E (file_tm E cfg p) = fe_print E (file_tm E cfg q) \<longrightarrow> time_seconds p = time_seconds q)
     \<and> (\<forall>p \<in> P. length (fe_print E (file_tm E cfg p)) = 19)"

lemma path_append_inj [simp]: "path_append dir n = path_append dir m \<longleftrightarrow> n = m"
  by (simp add: path_append_def)

lemma file_name_inj:
  assumes "good_calendar E cfg P" "file_name E cfg (file_tm E cfg p) i = file_name E cfg (file_tm E cfg q) j" "p \<in> P" "q \<in> P"
  shows "time_seconds p = time_seconds q \<and> i = j"
proof -
  let ?s = "\<lambda>i. if i = 0 then [] else 0x5f # decimal i"
  have l: "length (fe_print E (file_tm E cfg p)) = length (fe_print E (file_tm E cfg q))" using assms(1,3,4) unfolding good_calendar_def by metis
  have "fe_print E (file_tm E cfg p) @ ([0x5f] @ decimal_int (fe_pid E) @ ?s i @ bytes_of ''.log'')
     = fe_print E (file_tm E cfg q) @ ([0x5f] @ decimal_int (fe_pid E) @ ?s j @ bytes_of ''.log'')"
    using assms(2) unfolding file_name_def by (simp only: same_append_eq)
  then have "fe_print E (file_tm E cfg p) = fe_print E (file_tm E cfg q) \<and> [0x5f] @ decimal_int (fe_pid E) @ ?s i @ bytes_of ''.log''
     = [0x5f] @ decimal_int (fe_pid E) @ ?s j @ bytes_of ''.log''"
    by (rule append_eq_append_conv [OF disjI1 [OF l], THEN iffD1])
  then have e: "fe_print E (file_tm E cfg p) = fe_print E (file_tm E cfg q)" and "?s i @ bytes_of ''.log'' = ?s j @ bytes_of ''.log''"
    by (simp_all only: same_append_eq)
  then have "?s i = ?s j" by (simp only: append_same_eq)
  then have "i = j" by (auto simp: decimal_inj split: if_splits)
  moreover have "time_seconds p = time_seconds q" using assms(1,3,4) e unfolding good_calendar_def by metis
  ultimately show ?thesis by simp
qed

definition file_content :: "(byte list \<Rightarrow> byte list option) \<Rightarrow> byte list \<Rightarrow> byte list" where
  "file_content d n = (case d n of None \<Rightarrow> [] | Some b \<Rightarrow> b)"

lemma file_content_upd [simp]: "file_content (d(n \<mapsto> v)) = (file_content d)(n := v)"
  by (simp add: file_content_def fun_eq_iff)

definition used_before :: "file_env \<Rightarrow> file_config \<Rightarrow> int set \<Rightarrow> int \<Rightarrow> nat \<Rightarrow> byte list \<Rightarrow> bool" where
  "used_before E cfg P secs i n \<longleftrightarrow> (\<exists>p \<in> P. \<exists>j. n = path_append (fc_log_directory cfg) (file_name E cfg (file_tm E cfg p) j)
     \<and> (time_seconds p < secs \<or> time_seconds p = secs \<and> j < i))"

text \<open>The files hold the messages \<open>gs\<close>, a list of messages for each file in the order they were opened, each file below the limit before its last message.\<close>

definition fa_inv :: "file_env \<Rightarrow> file_config \<Rightarrow> int set \<Rightarrow> byte list list list \<Rightarrow> file_appender \<Rightarrow> bool" where
  "fa_inv E cfg P gs st \<longleftrightarrow> fa_tm st = file_tm E cfg (fa_point st) \<and> fa_point st \<in> P \<and> fa_secs st \<le> time_seconds (fa_point st)
     \<and> distinct (fa_names st) \<and> (\<forall>n \<in> set (fa_names st). used_before E cfg P (fa_secs st) (fa_id st) n)
     \<and> map (file_content (fa_disk st)) (fa_names st) = map concat gs
     \<and> (fa_is_open st \<longrightarrow> fa_names st \<noteq> [] \<and> List.last (fa_names st) = fa_full_name st \<and> length (concat (List.last gs)) = fa_size st
         \<and> (0 < fc_max_size cfg \<longrightarrow> fa_size st < fc_max_size cfg))
     \<and> (\<not> fa_is_open st \<longrightarrow> fa_size st = 0)
     \<and> (0 < fc_max_size cfg \<longrightarrow> (\<forall>g \<in> set gs. length (concat (butlast g)) < fc_max_size cfg))"

lemma fa_inv_new: "0 \<le> now \<Longrightarrow> now \<in> P \<Longrightarrow> fa_inv E cfg P [] (file_appender_new E cfg now)"
  by (simp add: fa_inv_def file_appender_new_def time_seconds_def signed_divide_int_def sgn_if)

lemma fa_inv_roll: "fa_inv E cfg P gs st \<Longrightarrow> fa_inv E cfg P gs (roll_file cfg st)"
  by (simp add: fa_inv_def roll_file_def)

lemma fa_inv_second: "fa_inv E cfg P gs st \<Longrightarrow> point \<in> P \<Longrightarrow> fa_inv E cfg P gs (file_new_second E cfg point st)"
proof -
  assume v: "fa_inv E cfg P gs st" and p: "point \<in> P"
  have "fa_inv E cfg P gs (st\<lparr>fa_tm := file_tm E cfg point, fa_point := point\<rparr>)"
    if "fa_inv E cfg P gs st" "time_seconds point > time_seconds (fa_point st)" for st
    using that p by (simp add: fa_inv_def)
  moreover have "fa_point (roll_file cfg st) = fa_point st" by (simp add: roll_file_def)
  ultimately show ?thesis using v fa_inv_roll [OF v] by (simp add: file_new_second_def Let_def)
qed

lemma used_before_fresh:
  assumes "good_calendar E cfg P" "\<forall>n \<in> set ns. used_before E cfg P secs i n" "time_seconds p = secs" "p \<in> P"
  shows "path_append (fc_log_directory cfg) (file_name E cfg (file_tm E cfg p) i) \<notin> set ns"
proof
  assume "path_append (fc_log_directory cfg) (file_name E cfg (file_tm E cfg p) i) \<in> set ns"
  then have "used_before E cfg P secs i (path_append (fc_log_directory cfg) (file_name E cfg (file_tm E cfg p) i))" using assms(2) by blast
  then obtain q j where "q \<in> P" "file_name E cfg (file_tm E cfg p) i = file_name E cfg (file_tm E cfg q) j" "time_seconds q < secs \<or> time_seconds q = secs \<and> j < i"
    unfolding used_before_def path_append_inj by blast
  with file_name_inj [OF assms(1) this(2) assms(4)] assms(3) show False by simp
qed

lemma used_before_mono: "used_before E cfg P secs i n \<Longrightarrow> secs < secs' \<or> secs = secs' \<and> i \<le> i' \<Longrightarrow> used_before E cfg P secs' i' n"
proof -
  assume "used_before E cfg P secs i n" and s: "secs < secs' \<or> secs = secs' \<and> i \<le> i'"
  then obtain p j where "p \<in> P" and n: "n = path_append (fc_log_directory cfg) (file_name E cfg (file_tm E cfg p) j)" "time_seconds p < secs \<or> time_seconds p = secs \<and> j < i"
    by (auto simp: used_before_def)
  have "time_seconds p < secs' \<or> time_seconds p = secs' \<and> j < i'" using n(2) s by auto
  then show ?thesis unfolding used_before_def using n(1) \<open>p \<in> P\<close> by blast
qed

lemma make_full_name_spec:
  assumes v: "fa_inv E cfg P gs st" and g: "good_calendar E cfg P" and c: "\<not> fa_is_open st" and st': "st' = make_full_name E cfg st"
  shows "fa_inv E cfg P gs st' \<and> fa_full_name st' \<notin> set (fa_names st) \<and> used_before E cfg P (fa_secs st') (fa_id st') (fa_full_name st')
    \<and> fa_names st' = fa_names st \<and> fa_disk st' = fa_disk st \<and> \<not> fa_is_open st'"
proof -
  let ?cur = "time_seconds (fa_point st)"
  let ?i = "if fa_secs st < ?cur then 0 else fa_id st"
  have s: "st' = st\<lparr>fa_secs := ?cur, fa_full_name := path_append (fc_log_directory cfg) (file_name E cfg (file_tm E cfg (fa_point st)) ?i), fa_id := ?i + 1\<rparr>"
    using v by (auto simp: st' make_full_name_def fa_inv_def Let_def)
  have u: "\<forall>n \<in> set (fa_names st). used_before E cfg P ?cur ?i n" using v by (auto simp: fa_inv_def intro: used_before_mono)
  have "fa_full_name st' \<notin> set (fa_names st)" using used_before_fresh [OF g u refl] v by (simp add: s fa_inv_def)
  moreover have "used_before E cfg P (fa_secs st') (fa_id st') (fa_full_name st')" using v unfolding used_before_def s by (auto simp: fa_inv_def)
  moreover have "\<forall>n \<in> set (fa_names st). used_before E cfg P ?cur (?i + 1) n" using u by (auto intro: used_before_mono)
  ultimately show ?thesis using v c by (simp add: s fa_inv_def)
qed

lemma fa_inv_open:
  assumes v: "fa_inv E cfg P gs st" and g: "good_calendar E cfg P" and ok: "\<forall>n. fe_open E n"
  shows "\<exists>gs'. fa_inv E cfg P gs' (file_open E cfg st) \<and> concat gs' = concat gs \<and> fa_is_open (file_open E cfg st)"
proof (cases "fa_is_open st")
  case True
  then show ?thesis using v by (auto simp: file_open_def)
next
  case False
  let ?m = "make_full_name E cfg st"
  note m = make_full_name_spec [OF v g False refl]
  have s: "file_open E cfg st = ?m\<lparr>fa_is_open := True, fa_disk := (fa_disk ?m)(fa_full_name ?m \<mapsto> []), fa_names := fa_names ?m @ [fa_full_name ?m]\<rparr>"
    using False ok by (simp add: file_open_def Let_def)
  have "fa_inv E cfg P (gs @ [[]]) (file_open E cfg st)" using m by (auto simp: s fa_inv_def)
  then show ?thesis by (intro exI [of _ "gs @ [[]]"]) (simp add: s)
qed

lemma fa_inv_append:
  assumes v: "fa_inv E cfg P gs st" and o: "fa_is_open st"
  shows "\<exists>gs'. fa_inv E cfg P gs' (file_append cfg buf st) \<and> concat gs' = concat gs @ [buf]"
proof -
  let ?n = "fa_full_name st"
  let ?st = "st\<lparr>fa_disk := (fa_disk st)(?n \<mapsto> file_content (fa_disk st) ?n @ buf), fa_size := fa_size st + length buf\<rparr>"
  let ?gs = "butlast gs @ [List.last gs @ [buf]]"
  have m: "map (file_content (fa_disk st)) (fa_names st) = map concat gs" using v by (simp add: fa_inv_def)
  have ne: "fa_names st \<noteq> []" "List.last (fa_names st) = ?n" "distinct (fa_names st)" using v o by (simp_all add: fa_inv_def)
  then have g: "gs \<noteq> []" using m by auto
  then have gs: "gs = butlast gs @ [List.last gs]" by simp
  have ns: "fa_names st = butlast (fa_names st) @ [?n]" using append_butlast_last_id [OF ne(1)] ne(2) by simp
  then have nn: "?n \<notin> set (butlast (fa_names st))" using ne(3) by (metis distinct_append not_distinct_conv_prefix append_Nil2 distinct.simps(2))
  have m2: "map (file_content (fa_disk st)) (butlast (fa_names st)) = map concat (butlast gs)"
    using arg_cong [OF m, of butlast] by (simp only: map_butlast)
  have m3: "file_content (fa_disk st) ?n = concat (List.last gs)"
    using arg_cong [OF m, of List.last] by (simp only: last_map [OF ne(1)] last_map [OF g] ne(2))
  have m': "map (file_content (fa_disk ?st)) (fa_names st) = map concat ?gs"
    by (subst ns) (use nn m2 m3 in simp)
  have lim: "\<forall>g \<in> set ?gs. length (concat (butlast g)) < fc_max_size cfg" if "0 < fc_max_size cfg"
    using v o that by (auto simp: fa_inv_def dest: in_set_butlastD)
  have "fa_inv E cfg P ?gs (?st\<lparr>fa_is_open := False, fa_size := 0, fa_lz4 := z\<rparr>)" for z
    using v m' lim by (simp add: fa_inv_def)
  moreover have "fa_inv E cfg P ?gs ?st" if "\<not> (fc_max_size cfg > 0 \<and> fa_size ?st \<ge> fc_max_size cfg)"
  proof -
    have "0 < fc_max_size cfg \<longrightarrow> fa_size st + length buf < fc_max_size cfg" using that by auto
    then show ?thesis using v m' lim o by (simp add: fa_inv_def)
  qed
  moreover have "file_append cfg buf st = (if fc_max_size cfg > 0 \<and> fa_size ?st \<ge> fc_max_size cfg then roll_file cfg ?st else ?st)"
    by (simp add: file_append_def file_content_def Let_def)
  ultimately have "fa_inv E cfg P ?gs (file_append cfg buf st)" using o by (auto simp: roll_file_def)
  moreover have "concat ?gs = concat gs @ [buf]" by (subst (3) gs) simp
  ultimately show ?thesis by blast
qed

lemma fa_inv_write:
  assumes "fa_inv E cfg P gs st" "good_calendar E cfg P" "\<forall>n. fe_open E n" "point \<in> P"
  shows "\<exists>gs'. fa_inv E cfg P gs' (file_write E cfg point buf st) \<and> concat gs' = concat gs @ [buf]"
proof -
  let ?o = "file_open E cfg (file_new_second E cfg point st)"
  obtain gs1 where "fa_inv E cfg P gs1 ?o" "concat gs1 = concat gs" "fa_is_open ?o" using fa_inv_open [OF fa_inv_second [OF assms(1,4)] assms(2,3)] by blast
  then show ?thesis using fa_inv_append [of E cfg P gs1 ?o buf] by (simp add: file_write_def Let_def)
qed

lemma fa_inv_writes:
  assumes "good_calendar E cfg P" "\<forall>n. fe_open E n"
  shows "fa_inv E cfg P gs st \<Longrightarrow> list_all (\<lambda>(point, buf). point \<in> P) ms
    \<Longrightarrow> \<exists>gs'. fa_inv E cfg P gs' (file_writes E cfg ms st) \<and> concat gs' = concat gs @ map snd ms"
proof (induction ms arbitrary: gs st)
  case (Cons m ms)
  obtain point buf where m: "m = (point, buf)" by (cases m)
  then obtain gs1 where "fa_inv E cfg P gs1 (file_write E cfg point buf st)" "concat gs1 = concat gs @ [buf]"
    using fa_inv_write [OF Cons.prems(1) assms] Cons.prems(2) by auto
  from Cons.IH [OF this(1)] this(2) show ?case using Cons.prems(2) m by simp
qed auto

text \<open>C29: As long as every file can be opened, and for messages at times for which the calendar prints different seconds differently and in 19 characters (UTC, or
  local times other than an hour that comes twice because the clocks are set back), in whatever order the times are and however often the file is rolled: no file name
  is used twice; the messages, in the order written, are divided among the files in the order they were opened, and each file holds its messages byte for
  byte; and with a size limit each file was below it before its own last message.\<close>

theorem file_appender_keeps_all:
  assumes "good_calendar E cfg P" "\<forall>n. fe_open E n" "0 \<le> now" "now \<in> P" "list_all (\<lambda>(point, buf). point \<in> P) ms"
    and "st = file_writes E cfg ms (file_appender_new E cfg now)"
  shows "distinct (fa_names st) \<and> (\<exists>gs. concat gs = map snd ms \<and> map (file_content (fa_disk st)) (fa_names st) = map concat gs
    \<and> (0 < fc_max_size cfg \<longrightarrow> list_all (\<lambda>g. length (concat (butlast g)) < fc_max_size cfg) gs))"
proof -
  obtain gs where "fa_inv E cfg P gs st" "concat gs = map snd ms"
    unfolding assms(6) using fa_inv_writes [OF assms(1,2) fa_inv_new [OF assms(3,4)] assms(5)] by auto
  then show ?thesis by (auto simp: fa_inv_def list_all_iff)
qed

definition two_seconds :: file_env where
  "two_seconds = \<lparr>fe_localtime = (\<lambda>p. tm_zero), fe_gmtime = (\<lambda>p. tm_zero\<lparr>tm_sec := time_seconds p\<rparr>),
     fe_print = (\<lambda>t. replicate 19 (if tm_sec t = 0 then 48 else 49)), fe_pid = 7, fe_open = (\<lambda>_. True)\<rparr>"

definition small_files :: file_config where
  "small_files = \<lparr>fc_name = [97], fc_log_directory = [46], fc_lz4_directory = [46], fc_max_size = 3, fc_file_time = Utc_time, fc_daily_roll = True\<rparr>"

definition sample_writes :: "(int \<times> byte list) list" where
  "sample_writes = [(0, [1, 2]), (0, [3, 4]), (0, [5]), (1000000000, [6, 7, 8])]"

theorem file_appender_keeps_all_witness:
  "\<exists>st gs. st = file_writes two_seconds small_files sample_writes (file_appender_new two_seconds small_files 0) \<and> distinct (fa_names st)
     \<and> concat gs = [[1, 2], [3, 4], [5], [6, 7, 8]] \<and> map (file_content (fa_disk st)) (fa_names st) = map concat gs \<and> list_all (\<lambda>g. length (concat (butlast g)) < 3) gs"
proof -
  have "time_seconds 0 = 0" "time_seconds 1000000000 = 1" by (simp_all add: time_seconds_def)
  then have "good_calendar two_seconds small_files {0, 1000000000}" "\<forall>n. fe_open two_seconds n"
    by (auto simp: good_calendar_def two_seconds_def small_files_def file_tm_def replicate_eq_replicate)
  from file_appender_keeps_all [OF this, of 0 sample_writes, OF _ _ _ refl] show ?thesis by (simp add: sample_writes_def small_files_def)
qed

text \<open>An hour that comes twice: two times that are printed alike, such as the same local time before and after the clocks were set back, give the same name when
  the second file is opened, and opening it empties the first one.\<close>

theorem repeated_time_loses_log:
  assumes "0 < time_seconds p" "time_seconds p < time_seconds q" "fe_print E (file_tm E cfg p) = fe_print E (file_tm E cfg q)" "\<forall>n. fe_open E n"
    and "0 < fc_max_size cfg" "fc_max_size cfg \<le> length a" "length b < fc_max_size cfg"
    and "st = file_writes E cfg [(p, a), (q, b)] (file_appender_new E cfg p)"
  shows "\<exists>n. fa_names st = [n, n] \<and> fa_disk st = [n \<mapsto> b]"
proof -
  let ?n = "path_append (fc_log_directory cfg) (file_name E cfg (file_tm E cfg p) 0)"
  have n: "path_append (fc_log_directory cfg) (file_name E cfg (file_tm E cfg q) 0) = ?n" using assms(3) by (simp add: file_name_def)
  define s1 where "s1 = file_write E cfg p a (file_appender_new E cfg p)"
  have s1: "fa_is_open s1 = False" "fa_names s1 = [?n]" "fa_disk s1 = [?n \<mapsto> a]" "fa_secs s1 = time_seconds p" "fa_point s1 = p" "fa_size s1 = 0"
    using assms(1,4,5,6) by (simp_all add: s1_def file_write_def file_new_second_def file_open_def make_full_name_def file_append_def roll_file_def file_appender_new_def Let_def)
  have "file_new_second E cfg q s1 = s1\<lparr>fa_tm := file_tm E cfg q, fa_point := q\<rparr>" using s1 assms(2) by (simp add: file_new_second_def roll_file_def Let_def)
  then have "fa_names (file_write E cfg q b s1) = [?n, ?n] \<and> fa_disk (file_write E cfg q b s1) = [?n \<mapsto> b]"
    using s1 assms(2,4,5,7) n by (simp add: file_write_def file_open_def make_full_name_def file_append_def Let_def)
  then show ?thesis using assms(8) by (auto simp: s1_def)
qed

end
