(* ===== verification/Log_Config.thy ===== *)
theory Log_Config
  imports File_Appender "HOL-Library.AList"
begin

text \<open>
  The log configuration (\<open>runtime/src/log/log.cpp\<close>) and the registry of loggers (\<open>log_system.cpp\<close>, \<open>logger.cpp\<close>, \<open>appender.cpp\<close>).
  A configuration is the value the TOML parser made of the file, its tables with their entries in the order the map gives them.  Loggers are shared:
  the registry holds addresses, the store what they point to.  The store also keeps
  loggers that nothing points to any more (their reference counts are not modelled).  The clock, the process and the name of the program are arguments; \<open>None\<close> is the use of a null pointer.
\<close>

section \<open>Values of the configuration\<close>

datatype toml = T_string "byte list" | T_bool bool | T_int int | T_array "toml list" | T_table "(byte list \<times> toml) list"

type_synonym toml_table = "(byte list \<times> toml) list"

record log_config_simple =
  lc_pattern :: "byte list"
  lc_time_type :: log_time_type
  lc_level :: log_level

definition read_pattern_and_time_type :: "toml_table \<Rightarrow> log_config_simple \<Rightarrow> bool \<times> log_config_simple" where
  "read_pattern_and_time_type table c = (case map_of table (bytes_of ''pattern'') of
     Some (T_array arr) \<Rightarrow> (case arr of
         T_string pattern # rest \<Rightarrow>
           if pattern = [] then (False, c\<lparr>lc_pattern := []\<rparr>)
           else (case rest of
               T_string tp # _ \<Rightarrow> (True, c\<lparr>lc_pattern := pattern, lc_time_type := log_time_from tp\<rparr>)
             | _ \<Rightarrow> (True, c\<lparr>lc_pattern := pattern\<rparr>))
       | _ \<Rightarrow> (False, c))
   | _ \<Rightarrow> (False, c))"

definition read_string :: "byte list \<Rightarrow> toml_table \<Rightarrow> byte list \<Rightarrow> bool \<times> byte list" where
  "read_string key table value = (case map_of table key of Some (T_string s) \<Rightarrow> (True, s) | _ \<Rightarrow> (False, value))"

definition read_bool :: "byte list \<Rightarrow> toml_table \<Rightarrow> bool \<Rightarrow> bool \<times> bool" where
  "read_bool key table value = (case map_of table key of Some (T_bool b) \<Rightarrow> (True, b) | _ \<Rightarrow> (False, value))"

definition read_int :: "byte list \<Rightarrow> toml_table \<Rightarrow> int \<Rightarrow> bool \<times> int" where
  "read_int key table value = (case map_of table key of Some (T_int i) \<Rightarrow> (True, i) | _ \<Rightarrow> (False, value))"

section \<open>Appenders and loggers\<close>

datatype appender_kind = Stdout_appender | Stderr_appender | File_kind file_config

record appender =
  ap_kind :: appender_kind
  ap_level :: log_level
  ap_formatter :: log_formatter

record logger =
  lg_name :: "byte list"
  lg_async :: bool
  lg_level :: log_level
  lg_appenders :: "appender list"

fun level_number :: "log_level \<Rightarrow> nat" where
  "level_number Off = 0"
| "level_number Critical = 1"
| "level_number Error = 2"
| "level_number Warn = 3"
| "level_number Info = 4"
| "level_number Debug = 5"
| "level_number Trace = 6"

definition should_log :: "log_level \<Rightarrow> log_level \<Rightarrow> bool" where
  "should_log own level \<longleftrightarrow> level_number level \<le> level_number own"

definition new_appender :: "appender_kind \<Rightarrow> appender" where
  "new_appender k = \<lparr>ap_kind = k, ap_level = Trace, ap_formatter = default_formatter Local_time\<rparr>"

definition new_logger :: "byte list \<Rightarrow> appender list \<Rightarrow> bool \<Rightarrow> logger" where
  "new_logger name aps async = \<lparr>lg_name = name, lg_async = async, lg_level = Trace, lg_appenders = aps\<rparr>"

text \<open>\<open>logger::set_formatter\<close>: every appender gets a copy, the last one the formatter itself.\<close>

fun set_formatters :: "int \<Rightarrow> log_formatter \<Rightarrow> appender list \<Rightarrow> appender list" where
  "set_formatters now f [] = []"
| "set_formatters now f [a] = [a\<lparr>ap_formatter := f\<rparr>]"
| "set_formatters now f (a # b # aps) = a\<lparr>ap_formatter := clone_formatter now f\<rparr> # set_formatters now f (b # aps)"

definition logger_set_formatter :: "int \<Rightarrow> log_formatter \<Rightarrow> logger \<Rightarrow> logger" where
  "logger_set_formatter now f lg = lg\<lparr>lg_appenders := set_formatters now f (lg_appenders lg)\<rparr>"

definition appender_set_pattern :: "int \<Rightarrow> int \<Rightarrow> byte list \<Rightarrow> log_time_type \<Rightarrow> appender \<Rightarrow> appender" where
  "appender_set_pattern now pid pattern tp a = a\<lparr>ap_formatter := pattern_formatter now pid pattern tp\<rparr>"

definition logger_set_pattern :: "int \<Rightarrow> int \<Rightarrow> byte list \<Rightarrow> log_time_type \<Rightarrow> logger \<Rightarrow> logger" where
  "logger_set_pattern now pid pattern tp lg = logger_set_formatter now (pattern_formatter now pid pattern tp) lg"

text \<open>What an appender writes of a message: nothing, when its level is too low or formatting throws.\<close>

definition appender_log :: "(int \<Rightarrow> tm) \<Rightarrow> (int \<Rightarrow> tm) \<Rightarrow> log_message \<Rightarrow> appender \<Rightarrow> byte list option \<times> appender" where
  "appender_log localtime gmtime msg a =
     (if \<not> should_log (ap_level a) (msg_level msg) then (None, a)
      else case log_format localtime gmtime msg (ap_formatter a) empty_out of
        None \<Rightarrow> (None, a)
      | Some (f, o1) \<Rightarrow> (Some (lo_buf o1), a\<lparr>ap_formatter := f\<rparr>))"

fun backend_log :: "(int \<Rightarrow> tm) \<Rightarrow> (int \<Rightarrow> tm) \<Rightarrow> log_message \<Rightarrow> appender list \<Rightarrow> byte list option list \<times> appender list" where
  "backend_log localtime gmtime msg [] = ([], [])"
| "backend_log localtime gmtime msg (a # aps) =
     (case appender_log localtime gmtime msg a of (w, a) \<Rightarrow> case backend_log localtime gmtime msg aps of (ws, aps) \<Rightarrow> (w # ws, a # aps))"

section \<open>Reading a configuration\<close>

definition default_file_config :: file_config where
  "default_file_config = \<lparr>fc_name = [], fc_log_directory = [], fc_lz4_directory = [], fc_max_size = 0, fc_file_time = Local_time, fc_daily_roll = False\<rparr>"

text \<open>\<open>atomic_id\<close> numbers the files that got no name of their own.\<close>

definition read_file_appender_config :: "byte list \<Rightarrow> byte list \<Rightarrow> toml_table \<Rightarrow> u16 \<Rightarrow> file_config \<times> u16" where
  "read_file_appender_config program logger_name table atomic_id =
     (let name = snd (read_string (bytes_of ''name'') table []);
          (name, next_id) = (if name \<noteq> [] then (name, atomic_id)
             else ((if program = [] then [] else program @ [0x5f]) @ logger_name
                     @ (if atomic_id = 0 then [] else 0x5f # decimal (unat atomic_id)), atomic_id + 1));
          log_directory = snd (read_string (bytes_of ''log_directory'') table []);
          lz4_directory = snd (read_string (bytes_of ''lz4_directory'') table []);
          max_size = snd (read_int (bytes_of ''max_size'') table 0);
          file_time = snd (read_string (bytes_of ''file_time'') table [])
      in (\<lparr>fc_name = name,
           fc_log_directory = (if log_directory = [] then bytes_of ''./'' else log_directory),
           fc_lz4_directory = (if lz4_directory = [] then bytes_of ''./'' else lz4_directory),
           fc_max_size = (if max_size > 0 then nat max_size else 0),
           fc_file_time = (if file_time = [] then Local_time else log_time_from file_time),
           fc_daily_roll = snd (read_bool (bytes_of ''daily_roll'') table False)\<rparr>, next_id))"

definition read_level :: "toml_table \<Rightarrow> log_config_simple \<Rightarrow> log_config_simple" where
  "read_level table c = (case snd (read_string (bytes_of ''level'') table []) of [] \<Rightarrow> c | s \<Rightarrow> c\<lparr>lc_level := log_level_from s\<rparr>)"

definition create_appender_custom :: "int \<Rightarrow> int \<Rightarrow> byte list \<Rightarrow> log_config_simple \<Rightarrow> byte list \<Rightarrow> toml_table \<Rightarrow> u16 \<Rightarrow> appender option \<times> u16" where
  "create_appender_custom now pid program c logger_name table k =
     (let c = read_level table (snd (read_pattern_and_time_type table c));
          finish = (\<lambda>kind. Some ((appender_set_pattern now pid (lc_pattern c) (lc_time_type c) (new_appender kind))\<lparr>ap_level := lc_level c\<rparr>))
      in case read_string (bytes_of ''type'') table [] of
           (False, _) \<Rightarrow> (None, k)
         | (True, tp) \<Rightarrow>
             if tp = bytes_of ''stdout'' then (finish Stdout_appender, k)
             else if tp = bytes_of ''stderr'' then (finish Stderr_appender, k)
             else if tp = bytes_of ''file'' then (case read_file_appender_config program logger_name table k of (fc, k) \<Rightarrow> (finish (File_kind fc), k))
             else (None, k))"

fun create_each :: "int \<Rightarrow> int \<Rightarrow> byte list \<Rightarrow> log_config_simple \<Rightarrow> byte list \<Rightarrow> toml list \<Rightarrow> u16 \<Rightarrow> appender list \<times> u16" where
  "create_each now pid program c name [] k = ([], k)"
| "create_each now pid program c name (T_table t # vals) k =
     (case create_appender_custom now pid program c name t k of (a, k) \<Rightarrow>
        case create_each now pid program c name vals k of (aps, k) \<Rightarrow> ((case a of None \<Rightarrow> aps | Some a \<Rightarrow> a # aps), k))"
| "create_each now pid program c name (_ # vals) k = create_each now pid program c name vals k"

definition create_appenders_custom :: "int \<Rightarrow> int \<Rightarrow> byte list \<Rightarrow> log_config_simple \<Rightarrow> byte list \<Rightarrow> toml_table \<Rightarrow> u16 \<Rightarrow> appender list \<times> u16" where
  "create_appenders_custom now pid program c name table k = (case map_of table (bytes_of ''appenders'') of
     Some (T_array arr) \<Rightarrow> create_each now pid program c name arr k
   | _ \<Rightarrow> ([], k))"

definition create_logger_custom :: "int \<Rightarrow> int \<Rightarrow> byte list \<Rightarrow> log_config_simple \<Rightarrow> byte list \<Rightarrow> toml_table \<Rightarrow> u16 \<Rightarrow> logger option \<times> u16" where
  "create_logger_custom now pid program global name table k =
     (let c = read_level table (snd (read_pattern_and_time_type table global));
          async = snd (read_bool (bytes_of ''async'') table False)
      in case create_appenders_custom now pid program c name table k of (aps, k) \<Rightarrow>
           if aps = [] then (None, k) else (Some ((new_logger name aps async)\<lparr>lg_level := lc_level c\<rparr>), k))"

section \<open>The registry\<close>

record log_system =
  ls_loggers :: "(byte list \<times> addr) list"
  ls_store :: "addr \<Rightarrow> logger option"
  ls_fresh :: addr
  ls_default :: "addr option"
  ls_levels :: "byte list \<Rightarrow> log_level option"
  ls_global :: log_level
  ls_formatter :: "log_formatter option"

definition alloc_logger :: "logger \<Rightarrow> log_system \<Rightarrow> addr \<times> log_system" where
  "alloc_logger lg ls = (ls_fresh ls, ls\<lparr>ls_store := (ls_store ls)(ls_fresh ls \<mapsto> lg), ls_fresh := ls_fresh ls + 1\<rparr>)"

definition with_logger :: "addr \<Rightarrow> (logger \<Rightarrow> logger) \<Rightarrow> log_system \<Rightarrow> log_system" where
  "with_logger a f ls = ls\<lparr>ls_store := (ls_store ls)(a := map_option f (ls_store ls a))\<rparr>"

text \<open>The constructor: the default logger writes to the standard output; \<open>formatter_\<close> is null.\<close>

definition log_system_new :: log_system where
  "log_system_new = \<lparr>ls_loggers = [([], 0)], ls_store = [0 \<mapsto> new_logger [] [new_appender Stdout_appender] False], ls_fresh = 1, ls_default = Some 0,
     ls_levels = (\<lambda>_. None), ls_global = Trace, ls_formatter = None\<rparr>"

definition logger_name :: "addr \<Rightarrow> log_system \<Rightarrow> byte list" where
  "logger_name a ls = (case ls_store ls a of None \<Rightarrow> [] | Some lg \<Rightarrow> lg_name lg)"

definition insert_loggers :: "addr \<Rightarrow> log_system \<Rightarrow> log_system" where
  "insert_loggers a ls = ls\<lparr>ls_loggers := AList.update (logger_name a ls) a (ls_loggers ls)\<rparr>"

definition register_logger :: "addr \<Rightarrow> log_system \<Rightarrow> log_system" where
  "register_logger a ls = insert_loggers a ls"

definition initialize_logger :: "int \<Rightarrow> addr \<Rightarrow> log_system \<Rightarrow> log_system option" where
  "initialize_logger now a ls = (case ls_formatter ls of
     None \<Rightarrow> None
   | Some f \<Rightarrow>
       let ls = with_logger a (logger_set_formatter now (clone_formatter now f)) ls;
           ls = with_logger a (\<lambda>lg. lg\<lparr>lg_level := (case ls_levels ls (lg_name lg) of Some l \<Rightarrow> l | None \<Rightarrow> ls_global ls)\<rparr>) ls
       in Some (insert_loggers a ls))"

definition find_logger :: "byte list \<Rightarrow> log_system \<Rightarrow> addr option" where
  "find_logger name ls = map_of (ls_loggers ls) name"

definition drop_logger :: "byte list \<Rightarrow> log_system \<Rightarrow> log_system" where
  "drop_logger name ls =
     (let ls = ls\<lparr>ls_loggers := AList.delete name (ls_loggers ls)\<rparr>
      in case ls_default ls of None \<Rightarrow> ls | Some a \<Rightarrow> if logger_name a ls = name then ls\<lparr>ls_default := None\<rparr> else ls)"

definition drop_all :: "log_system \<Rightarrow> log_system" where
  "drop_all ls = ls\<lparr>ls_loggers := [], ls_default := None\<rparr>"

definition set_default :: "addr option \<Rightarrow> log_system \<Rightarrow> log_system" where
  "set_default new ls =
     (let ls = (case ls_default ls of None \<Rightarrow> ls | Some old \<Rightarrow> ls\<lparr>ls_loggers := AList.delete (logger_name old ls) (ls_loggers ls)\<rparr>);
          ls = (case new of None \<Rightarrow> ls | Some a \<Rightarrow> insert_loggers a ls)
      in ls\<lparr>ls_default := new\<rparr>)"

definition set_log_level :: "log_level \<Rightarrow> log_system \<Rightarrow> log_system" where
  "set_log_level level ls = fold (\<lambda>(name, a). with_logger a (\<lambda>lg. lg\<lparr>lg_level := level\<rparr>)) (ls_loggers ls) (ls\<lparr>ls_global := level\<rparr>)"

definition set_levels :: "(byte list \<Rightarrow> log_level option) \<Rightarrow> log_level option \<Rightarrow> log_system \<Rightarrow> log_system" where
  "set_levels levels global_level ls =
     (let ls = ls\<lparr>ls_levels := levels, ls_global := (case global_level of None \<Rightarrow> ls_global ls | Some g \<Rightarrow> g)\<rparr>
      in fold (\<lambda>(name, a). case levels name of
             Some l \<Rightarrow> with_logger a (\<lambda>lg. lg\<lparr>lg_level := l\<rparr>)
           | None \<Rightarrow> (case global_level of None \<Rightarrow> (\<lambda>ls. ls) | Some g \<Rightarrow> with_logger a (\<lambda>lg. lg\<lparr>lg_level := g\<rparr>))) (ls_loggers ls) ls)"

definition set_log_formatter :: "int \<Rightarrow> log_formatter \<Rightarrow> log_system \<Rightarrow> log_system" where
  "set_log_formatter now f ls =
     fold (\<lambda>(name, a). with_logger a (logger_set_formatter now (clone_formatter now f))) (ls_loggers ls) (ls\<lparr>ls_formatter := Some f\<rparr>)"

definition set_log_pattern :: "int \<Rightarrow> int \<Rightarrow> byte list \<Rightarrow> log_time_type \<Rightarrow> log_system \<Rightarrow> log_system" where
  "set_log_pattern now pid pattern tp ls = set_log_formatter now (pattern_formatter now pid pattern tp) ls"

text \<open>\<open>load_log_config\<close> after the file has been parsed.\<close>

fun load_loggers :: "int \<Rightarrow> int \<Rightarrow> byte list \<Rightarrow> log_config_simple \<Rightarrow> byte list \<Rightarrow> toml_table \<Rightarrow> u16 \<times> log_system \<Rightarrow> u16 \<times> log_system" where
  "load_loggers now pid program global default_log [] st = st"
| "load_loggers now pid program global default_log ((key, T_table t) # root) (k, ls) =
     (case create_logger_custom now pid program global key t k of
        (None, k) \<Rightarrow> load_loggers now pid program global default_log root (k, ls)
      | (Some lg, k) \<Rightarrow> (case alloc_logger lg ls of (a, ls) \<Rightarrow>
          load_loggers now pid program global default_log root (k, if key = default_log then set_default (Some a) ls else register_logger a ls)))"
| "load_loggers now pid program global default_log (_ # root) st = load_loggers now pid program global default_log root st"

definition load_log_config :: "int \<Rightarrow> int \<Rightarrow> byte list \<Rightarrow> toml_table \<Rightarrow> u16 \<times> log_system \<Rightarrow> u16 \<times> log_system" where
  "load_log_config now pid program root st = (case st of (k, ls) \<Rightarrow>
     let ls = drop_all ls;
         global = snd (read_pattern_and_time_type root \<lparr>lc_pattern = [], lc_time_type = Local_time, lc_level = Trace\<rparr>);
         ls = (if lc_pattern global \<noteq> [] then set_log_pattern now pid (lc_pattern global) (lc_time_type global) ls else ls);
         global = global\<lparr>lc_level := log_level_from (snd (read_string (bytes_of ''level'') root []))\<rparr>;
         ls = set_levels (\<lambda>_. None) (Some (lc_level global)) ls;
         default_log = snd (read_string (bytes_of ''default'') root [])
     in case load_loggers now pid program global default_log root (k, ls) of (k, ls) \<Rightarrow>
          if ls_default ls = None
          then let lg = new_logger [] [new_appender Stdout_appender] False;
                   lg = (if lc_pattern global \<noteq> [] then logger_set_pattern now pid (lc_pattern global) (lc_time_type global) lg else lg)
               in case alloc_logger (lg\<lparr>lg_level := lc_level global\<rparr>) ls of (a, ls) \<Rightarrow> (k, set_default (Some a) ls)
          else (k, ls))"

section \<open>The registry is well formed\<close>

definition loggers_ok :: "log_system \<Rightarrow> bool" where
  "loggers_ok ls \<longleftrightarrow> distinct (map fst (ls_loggers ls))
     \<and> (\<forall>(n, a) \<in> set (ls_loggers ls). \<exists>lg. ls_store ls a = Some lg \<and> lg_name lg = n)
     \<and> (\<forall>a. ls_default ls = Some a \<longrightarrow> (\<exists>lg. ls_store ls a = Some lg \<and> lg_name lg \<in> fst ` set (ls_loggers ls))) \<and> (\<forall>a. ls_fresh ls \<le> a \<longrightarrow> ls_store ls a = None)"

lemma loggers_okI:
  assumes "distinct (map fst (ls_loggers ls))" "\<And>n a. (n, a) \<in> set (ls_loggers ls) \<Longrightarrow> \<exists>lg. ls_store ls a = Some lg \<and> lg_name lg = n"
    "\<And>a. ls_default ls = Some a \<Longrightarrow> \<exists>lg. ls_store ls a = Some lg \<and> lg_name lg \<in> fst ` set (ls_loggers ls)" "\<And>a. ls_fresh ls \<le> a \<Longrightarrow> ls_store ls a = None"
  shows "loggers_ok ls"
  unfolding loggers_ok_def using assms by blast

lemma loggers_okD:
  assumes "loggers_ok ls"
  shows "distinct (map fst (ls_loggers ls))" "(n, a) \<in> set (ls_loggers ls) \<Longrightarrow> \<exists>lg. ls_store ls a = Some lg \<and> lg_name lg = n"
    "ls_default ls = Some a \<Longrightarrow> \<exists>lg. ls_store ls a = Some lg \<and> lg_name lg \<in> fst ` set (ls_loggers ls)" "ls_fresh ls \<le> a \<Longrightarrow> ls_store ls a = None"
  using assms unfolding loggers_ok_def by blast+

lemma registry_alloc:
  assumes ok: "loggers_ok ls" and a: "alloc_logger lg ls = (a, ls')"
  shows "loggers_ok ls' \<and> ls_store ls' a = Some lg"
proof -
  have s: "a = ls_fresh ls" "ls' = ls\<lparr>ls_store := (ls_store ls)(ls_fresh ls \<mapsto> lg), ls_fresh := ls_fresh ls + 1\<rparr>" using a by (auto simp: alloc_logger_def)
  have "ls_store ls (ls_fresh ls) = None" using loggers_okD(4) [OF ok] by simp
  then have "b \<noteq> ls_fresh ls" if "ls_store ls b \<noteq> None" for b using that by auto
  then show ?thesis using loggers_okD [OF ok] unfolding s
    by (intro conjI loggers_okI) (auto, (metis option.distinct(1))+)
qed

lemma registry_with:
  assumes "loggers_ok ls" "\<And>lg. lg_name (f lg) = lg_name lg"
  shows "loggers_ok (with_logger a f ls)"
proof (rule loggers_okI)
  have *: "\<exists>lg. ls_store (with_logger a f ls) b = Some lg \<and> lg_name lg \<in> N" if "\<exists>lg. ls_store ls b = Some lg \<and> lg_name lg \<in> N" for b N
    using that assms(2) by (auto simp: with_logger_def)
  show "\<exists>lg. ls_store (with_logger a f ls) b = Some lg \<and> lg_name lg = n" if "(n, b) \<in> set (ls_loggers (with_logger a f ls))" for n b
    using * [of b "{n}"] loggers_okD(2) [OF assms(1)] that by (simp add: with_logger_def)
  show "\<exists>lg. ls_store (with_logger a f ls) b = Some lg \<and> lg_name lg \<in> fst ` set (ls_loggers (with_logger a f ls))" if "ls_default (with_logger a f ls) = Some b" for b
    using * [of b "fst ` set (ls_loggers ls)"] loggers_okD(3) [OF assms(1)] that by (simp add: with_logger_def)
qed (use loggers_okD(1,4) [OF assms(1)] in \<open>simp_all add: with_logger_def\<close>)

lemma registry_frame:
  assumes "loggers_ok ls" "ls_loggers ls' = ls_loggers ls" "ls_store ls' = ls_store ls" "ls_default ls' = ls_default ls" "ls_fresh ls' = ls_fresh ls"
  shows "loggers_ok ls'"
  using assms by (simp add: loggers_ok_def)

lemma registry_insert:
  assumes ok: "loggers_ok ls" and a: "ls_store ls a \<noteq> None"
  shows "loggers_ok (insert_loggers a ls)"
proof (rule loggers_okI)
  let ?n = "logger_name a ls"
  show "distinct (map fst (ls_loggers (insert_loggers a ls)))"
    using loggers_okD(1) [OF ok] by (simp add: insert_loggers_def distinct_update)
  show "\<exists>lg. ls_store (insert_loggers a ls) b = Some lg \<and> lg_name lg = n" if "(n, b) \<in> set (ls_loggers (insert_loggers a ls))" for n b
  proof -
    have "map_of (AList.update ?n a (ls_loggers ls)) n = Some b"
      using that loggers_okD(1) [OF ok] by (simp add: insert_loggers_def distinct_update)
    then have "n = ?n \<and> b = a \<or> (n, b) \<in> set (ls_loggers ls)" by (auto simp: update_conv' split: if_splits dest: map_of_SomeD)
    then show ?thesis using loggers_okD(2) [OF ok] a by (auto simp: insert_loggers_def logger_name_def)
  qed
  show "\<exists>lg. ls_store (insert_loggers a ls) b = Some lg \<and> lg_name lg \<in> fst ` set (ls_loggers (insert_loggers a ls))"
    if "ls_default (insert_loggers a ls) = Some b" for b
    using loggers_okD(3) [OF ok, of b] that by (auto simp: insert_loggers_def dom_update)
qed (use loggers_okD(4) [OF ok] in \<open>simp add: insert_loggers_def\<close>)

lemma keys_delete: "fst ` set (AList.delete n xs) = fst ` set xs - {n}"
  using arg_cong [OF delete_keys [of n xs], of set] by simp

lemma delete_member: "x \<in> set (AList.delete n xs) \<Longrightarrow> x \<in> set xs"
  by (simp add: AList.delete_eq)

lemma registry_delete:
  assumes ok: "loggers_ok ls" and d: "d = None \<or> d = ls_default ls \<and> (\<forall>a. d = Some a \<longrightarrow> logger_name a ls \<noteq> n)"
  shows "loggers_ok (ls\<lparr>ls_loggers := AList.delete n (ls_loggers ls), ls_default := d\<rparr>)"
proof (rule loggers_okI)
  show "\<exists>lg. ls_store (ls\<lparr>ls_loggers := AList.delete n (ls_loggers ls), ls_default := d\<rparr>) a = Some lg
      \<and> lg_name lg \<in> fst ` set (ls_loggers (ls\<lparr>ls_loggers := AList.delete n (ls_loggers ls), ls_default := d\<rparr>))"
    if "ls_default (ls\<lparr>ls_loggers := AList.delete n (ls_loggers ls), ls_default := d\<rparr>) = Some a" for a
  proof -
    have da: "d = Some a" "ls_default ls = Some a" using that d by auto
    with loggers_okD(3) [OF ok] obtain lg where "ls_store ls a = Some lg" "lg_name lg \<in> fst ` set (ls_loggers ls)" by blast
    moreover have "logger_name a ls \<noteq> n" using d da by auto
    ultimately show ?thesis by (simp add: logger_name_def keys_delete)
  qed
qed (use loggers_okD(1,2,4) [OF ok] distinct_delete [of "ls_loggers ls" n] in \<open>auto dest!: delete_member\<close>)

lemma registry_folds:
  assumes "loggers_ok ls" "\<And>x ls. loggers_ok ls \<Longrightarrow> loggers_ok (g x ls)"
  shows "loggers_ok (fold g xs ls)"
  using assms(1) by (induction xs arbitrary: ls) (simp_all add: assms(2))

lemma set_formatter_name [simp]: "lg_name (logger_set_formatter now f lg) = lg_name lg"
  by (simp add: logger_set_formatter_def)

text \<open>The name of the default logger.\<close>

definition default_name :: "log_system \<Rightarrow> byte list option" where
  "default_name ls = map_option (\<lambda>a. logger_name a ls) (ls_default ls)"

definition without_default :: "log_system \<Rightarrow> log_system" where
  "without_default ls = ls\<lparr>ls_loggers := (case default_name ls of None \<Rightarrow> ls_loggers ls | Some n \<Rightarrow> AList.delete n (ls_loggers ls)), ls_default := None\<rparr>"

lemma set_default_eq:
  "set_default new ls = (case new of None \<Rightarrow> without_default ls | Some a \<Rightarrow> (insert_loggers a (without_default ls))\<lparr>ls_default := new\<rparr>)"
  by (simp add: set_default_def without_default_def default_name_def insert_loggers_def logger_name_def Let_def split: option.splits)

lemma registry_without_default: "loggers_ok ls \<Longrightarrow> loggers_ok (without_default ls)"
proof (cases "default_name ls")
  case None
  assume "loggers_ok ls"
  then show ?thesis using None registry_frame [of ls "without_default ls"] by (simp add: without_default_def default_name_def)
next
  case (Some n)
  assume "loggers_ok ls"
  then show ?thesis using registry_delete [of ls None n] Some by (simp add: without_default_def)
qed

lemma registry_default:
  assumes ok: "loggers_ok ls" and n: "\<forall>a. new = Some a \<longrightarrow> ls_store ls a \<noteq> None"
  shows "loggers_ok (set_default new ls)"
proof (cases new)
  case None
  then show ?thesis using registry_without_default [OF ok] by (simp add: set_default_eq)
next
  case (Some a)
  let ?l = "insert_loggers a (without_default ls)"
  have s: "ls_store ?l = ls_store ls" by (simp add: insert_loggers_def without_default_def)
  have ok2: "loggers_ok ?l" using registry_insert [OF registry_without_default [OF ok], of a] n Some by (simp add: without_default_def)
  moreover obtain lg where "ls_store ls a = Some lg" using n Some by auto
  moreover have "logger_name a (without_default ls) \<in> fst ` set (ls_loggers ?l)" by (simp add: insert_loggers_def dom_update)
  ultimately have "loggers_ok (?l\<lparr>ls_default := Some a\<rparr>)" using loggers_okD(1,2,4) [OF ok2] s
    by (intro loggers_okI) (auto simp: logger_name_def without_default_def)
  then show ?thesis using Some by (simp add: set_default_eq)
qed

lemma registry_with_level: "loggers_ok ls \<Longrightarrow> loggers_ok (with_logger a (lg_level_update u) ls)"
  by (rule registry_with) simp_all

lemma registry_formatter: "loggers_ok ls \<Longrightarrow> loggers_ok (set_log_formatter now f ls)"
  unfolding set_log_formatter_def by (rule registry_folds) (auto intro: registry_with registry_frame [of ls])

lemma registry_level: "loggers_ok ls \<Longrightarrow> loggers_ok (set_log_level l ls)"
  unfolding set_log_level_def by (rule registry_folds) (auto intro: registry_with_level registry_frame [of ls])

lemma registry_levels: "loggers_ok ls \<Longrightarrow> loggers_ok (set_levels levels g ls)"
  unfolding set_levels_def Let_def by (rule registry_folds) (auto intro: registry_with_level registry_frame [of ls] split: option.splits)

lemma drop_logger_eq: "drop_logger n ls = ls\<lparr>ls_loggers := AList.delete n (ls_loggers ls), ls_default := (if default_name ls = Some n then None else ls_default ls)\<rparr>"
  by (simp add: drop_logger_def default_name_def logger_name_def Let_def split: option.splits)

lemma registry_drop: "loggers_ok ls \<Longrightarrow> loggers_ok (drop_logger n ls)"
  unfolding drop_logger_eq by (rule registry_delete) (auto simp: default_name_def)

lemma registry_drop_all: "loggers_ok ls \<Longrightarrow> loggers_ok (drop_all ls)"
  using loggers_okD(4) [of ls] by (intro loggers_okI) (simp_all add: drop_all_def)

lemma registry_initialize:
  assumes ok: "loggers_ok ls" and a: "ls_store ls a \<noteq> None" and i: "initialize_logger now a ls = Some ls'"
  shows "loggers_ok ls'"
proof -
  obtain f where f: "ls_formatter ls = Some f" using i by (auto simp: initialize_logger_def split: option.splits)
  let ?l1 = "with_logger a (logger_set_formatter now (clone_formatter now f)) ls"
  let ?l2 = "with_logger a (\<lambda>lg. lg\<lparr>lg_level := (case ls_levels ?l1 (lg_name lg) of Some l \<Rightarrow> l | None \<Rightarrow> ls_global ?l1)\<rparr>) ?l1"
  have "loggers_ok ?l2" using ok by (intro registry_with) simp_all
  moreover have "ls_store ?l2 a \<noteq> None" using a by (simp add: with_logger_def)
  moreover have "ls' = insert_loggers a ?l2" using i f by (simp add: initialize_logger_def Let_def)
  ultimately show ?thesis using registry_insert by simp
qed

lemma registry_load_loggers:
  assumes "loggers_ok ls" "load_loggers now pid program global default_log root (k, ls) = (k', ls')"
  shows "loggers_ok ls'"
  using assms
proof (induction now pid program global default_log root "(k, ls)" arbitrary: k ls rule: load_loggers.induct)
  case (2 now pid program global default_log key t root k ls)
  obtain lgo k1 where c: "create_logger_custom now pid program global key t k = (lgo, k1)" by (cases "create_logger_custom now pid program global key t k")
  show ?case
  proof (cases lgo)
    case None
    then show ?thesis using 2 c by simp
  next
    case (Some lg)
    obtain a ls1 where al: "alloc_logger lg ls = (a, ls1)" by (cases "alloc_logger lg ls")
    have "loggers_ok ls1" "ls_store ls1 a \<noteq> None" using registry_alloc [OF "2.prems"(1) al] by simp_all
    then have "loggers_ok (if key = default_log then set_default (Some a) ls1 else register_logger a ls1)"
      using registry_default [of ls1 "Some a"] registry_insert by (simp add: register_logger_def)
    then show ?thesis using 2 c Some al by simp
  qed
qed simp_all

lemma registry_load:
  assumes ok: "loggers_ok ls" and l: "load_log_config now pid program root (k, ls) = (k', ls')"
  shows "loggers_ok ls' \<and> ls_default ls' \<noteq> None"
proof -
  let ?g = "snd (read_pattern_and_time_type root \<lparr>lc_pattern = [], lc_time_type = Local_time, lc_level = Trace\<rparr>)"
  let ?l1 = "if lc_pattern ?g \<noteq> [] then set_log_pattern now pid (lc_pattern ?g) (lc_time_type ?g) (drop_all ls) else drop_all ls"
  let ?g2 = "?g\<lparr>lc_level := log_level_from (snd (read_string (bytes_of ''level'') root []))\<rparr>"
  let ?l2 = "set_levels (\<lambda>_. None) (Some (lc_level ?g2)) ?l1"
  obtain k3 l3 where l3: "load_loggers now pid program ?g2 (snd (read_string (bytes_of ''default'') root [])) root (k, ?l2) = (k3, l3)"
    by (cases "load_loggers now pid program ?g2 (snd (read_string (bytes_of ''default'') root [])) root (k, ?l2)")
  have "loggers_ok ?l1" using registry_drop_all [OF ok] registry_formatter by (simp add: set_log_pattern_def)
  then have ok3: "loggers_ok l3" using registry_load_loggers [OF registry_levels l3] by blast
  show ?thesis
  proof (cases "ls_default l3")
    case None
    define lg where "lg = (let lg = new_logger [] [new_appender Stdout_appender] False;
      lg = (if lc_pattern ?g2 \<noteq> [] then logger_set_pattern now pid (lc_pattern ?g2) (lc_time_type ?g2) lg else lg) in lg\<lparr>lg_level := lc_level ?g2\<rparr>)"
    obtain a l4 where a: "alloc_logger lg l3 = (a, l4)" by (cases "alloc_logger lg l3")
    have "ls' = set_default (Some a) l4" using l l3 None a by (simp add: load_log_config_def Let_def lg_def split: prod.splits)
    moreover have "loggers_ok l4" "ls_store l4 a = Some lg" using registry_alloc [OF ok3 a] by simp_all
    ultimately show ?thesis using registry_default [of l4 "Some a"] by (simp add: set_default_def Let_def)
  next
    case (Some a)
    then have "ls' = l3" using l l3 by (simp add: load_log_config_def Let_def)
    then show ?thesis using ok3 Some by simp
  qed
qed

section \<open>Use of the registry\<close>

datatype log_op = New_logger logger | Register addr | Initialize int addr | Drop "byte list" | Drop_all | Default "addr option" | Level log_level
  | Levels "byte list \<Rightarrow> log_level option" "log_level option" | Formatter int log_formatter | Load int int "byte list" toml_table

text \<open>The calls of the interface; a logger handed in is one that exists.\<close>

fun log_op_run :: "log_op \<Rightarrow> u16 \<times> log_system \<Rightarrow> (u16 \<times> log_system) option" where
  "log_op_run (New_logger lg) (k, ls) = Some (k, snd (alloc_logger lg ls))"
| "log_op_run (Register a) (k, ls) = (if ls_store ls a = None then None else Some (k, register_logger a ls))"
| "log_op_run (Initialize now a) (k, ls) = (if ls_store ls a = None then None else map_option (Pair k) (initialize_logger now a ls))"
| "log_op_run (Drop n) (k, ls) = Some (k, drop_logger n ls)"
| "log_op_run Drop_all (k, ls) = Some (k, drop_all ls)"
| "log_op_run (Default new) (k, ls) = (case new of None \<Rightarrow> Some (k, set_default None ls)
     | Some a \<Rightarrow> if ls_store ls a = None then None else Some (k, set_default (Some a) ls))"
| "log_op_run (Level l) (k, ls) = Some (k, set_log_level l ls)"
| "log_op_run (Levels levels g) (k, ls) = Some (k, set_levels levels g ls)"
| "log_op_run (Formatter now f) (k, ls) = Some (k, set_log_formatter now f ls)"
| "log_op_run (Load now pid program root) (k, ls) = Some (load_log_config now pid program root (k, ls))"

fun log_ops_run :: "log_op list \<Rightarrow> u16 \<times> log_system \<Rightarrow> (u16 \<times> log_system) option" where
  "log_ops_run [] st = Some st"
| "log_ops_run (op # ops) st = (case log_op_run op st of None \<Rightarrow> None | Some st \<Rightarrow> log_ops_run ops st)"

lemma registry_op:
  assumes ok: "loggers_ok ls" and r: "log_op_run op (k, ls) = Some (k', ls')"
  shows "loggers_ok ls'"
proof (cases op)
  case (New_logger lg)
  then show ?thesis using r registry_alloc [OF ok, of lg] by (cases "alloc_logger lg ls") auto
next
  case (Register a)
  then show ?thesis using r registry_insert [OF ok] by (auto simp: register_logger_def split: if_splits)
next
  case (Initialize now a)
  then show ?thesis using r registry_initialize [OF ok] by (auto split: if_splits)
next
  case (Default new)
  then show ?thesis using r registry_default [OF ok] by (auto split: if_splits option.splits)
next
  case (Load now pid program root)
  then show ?thesis using r registry_load [OF ok] by auto
qed (use r ok registry_drop registry_drop_all registry_level registry_levels registry_formatter in auto)

lemma registry_ops: "log_ops_run ops (k, ls) = Some (k', ls') \<Longrightarrow> loggers_ok ls \<Longrightarrow> loggers_ok ls'"
proof (induction ops arbitrary: k ls)
  case (Cons op ops)
  then obtain k1 ls1 where "log_op_run op (k, ls) = Some (k1, ls1)" "log_ops_run ops (k1, ls1) = Some (k', ls')" by (auto split: option.splits)
  then show ?case using Cons registry_op by blast
qed simp

lemma registry_new: "loggers_ok log_system_new"
  by (rule loggers_okI) (auto simp: log_system_new_def new_logger_def)

text \<open>Two names of the registry never lead to one logger, so that a pass over the registry sets every logger once.\<close>

lemma registry_addresses: "loggers_ok ls \<Longrightarrow> distinct (map snd (ls_loggers ls))"
proof -
  assume ok: "loggers_ok ls"
  have "n = m" if "(n, a) \<in> set (ls_loggers ls)" "(m, a) \<in> set (ls_loggers ls)" for n m a
    using loggers_okD(2) [OF ok that(1)] loggers_okD(2) [OF ok that(2)] by auto
  then have "inj_on snd (set (ls_loggers ls))" by (auto simp: inj_on_def)
  then show ?thesis using loggers_okD(1) [OF ok] by (simp add: distinct_map)
qed

definition level_to_set :: "(byte list \<Rightarrow> log_level option) \<Rightarrow> log_level option \<Rightarrow> byte list \<Rightarrow> log_level \<Rightarrow> log_level" where
  "level_to_set levels g n l = (case levels n of Some l' \<Rightarrow> l' | None \<Rightarrow> (case g of Some l' \<Rightarrow> l' | None \<Rightarrow> l))"

lemma set_levels_store:
  assumes "loggers_ok ls" "(n, a) \<in> set (ls_loggers ls)"
  shows "ls_store (set_levels levels g ls) a = map_option (lg_level_update (level_to_set levels g n)) (ls_store ls a)"
proof -
  let ?F = "\<lambda>(name, a). case levels name of Some l \<Rightarrow> with_logger a (\<lambda>lg. lg\<lparr>lg_level := l\<rparr>)
    | None \<Rightarrow> (case g of None \<Rightarrow> (\<lambda>ls. ls) | Some g \<Rightarrow> with_logger a (\<lambda>lg. lg\<lparr>lg_level := g\<rparr>))"
  have F: "ls_store (?F (m, b) ls) = (ls_store ls)(b := map_option (lg_level_update (level_to_set levels g m)) (ls_store ls b))" for m b ls
    by (cases "ls_store ls b") (auto simp: with_logger_def level_to_set_def fun_eq_iff split: option.splits)
  note F = F [unfolded case_prod_conv]
  have other: "ls_store (fold ?F xs ls) a = ls_store ls a" if "a \<notin> snd ` set xs" for xs ls
    using that by (induction xs arbitrary: ls) (auto simp: F)
  have "ls_store (fold ?F xs ls) a = map_option (lg_level_update (level_to_set levels g n)) (ls_store ls a)"
    if "distinct (map snd xs)" "(n, a) \<in> set xs" for xs ls
    using that
  proof (induction xs arbitrary: ls)
    case (Cons x xs)
    obtain m b where x: "x = (m, b)" by (cases x)
    show ?case
    proof (cases "(n, a) = x")
      case True
      then show ?thesis using Cons.prems x other [of xs] by (auto simp: F)
    next
      case False
      then have "(n, a) \<in> set xs" "a \<noteq> b" using Cons.prems x by force+
      then show ?thesis using Cons x by (auto simp: F)
    qed
  qed simp
  from this [OF registry_addresses [OF assms(1)] assms(2)] show ?thesis by (simp add: set_levels_def Let_def)
qed

text \<open>C40: After any calls of the interface, configurations loaded among them, every name of the registry leads to a logger of this name, and the name of the default
  logger is registered.  \<open>drop\<close> then takes exactly the given name from the registry and resets the default logger exactly when it has this name; \<open>set_default\<close> makes the
  given logger the default one and registers it, takes the name of the former default logger away and leaves all other names; \<open>set_levels\<close> gives every
  registered logger the level listed for its name, or else the global one when there is one; and loading a configuration always leaves a default logger.\<close>

theorem registry_well_formed:
  assumes "log_ops_run ops (k, log_system_new) = Some (k', ls)"
  shows "(find_logger n ls = Some a \<longrightarrow> logger_name a ls = n
      \<and> (\<exists>lg. ls_store ls a = Some lg \<and> ls_store (set_levels levels g ls) a = Some (lg\<lparr>lg_level := level_to_set levels g n (lg_level lg)\<rparr>)))
    \<and> (default_name ls = Some m \<longrightarrow> find_logger m ls \<noteq> None)
    \<and> find_logger m (drop_logger n ls) = (if m = n then None else find_logger m ls)
    \<and> ls_default (drop_logger n ls) = (if default_name ls = Some n then None else ls_default ls)
    \<and> ls_default (set_default (Some b) ls) = Some b
    \<and> find_logger m (set_default (Some b) ls) = (if m = logger_name b ls then Some b else if default_name ls = Some m then None else find_logger m ls)
    \<and> ls_default (snd (load_log_config now pid program root (k', ls))) \<noteq> None"
proof -
  have ok: "loggers_ok ls" using registry_ops [OF assms registry_new] .
  have "logger_name a ls = n \<and> (\<exists>lg. ls_store ls a = Some lg \<and> ls_store (set_levels levels g ls) a = Some (lg\<lparr>lg_level := level_to_set levels g n (lg_level lg)\<rparr>))"
    if f: "find_logger n ls = Some a"
  proof -
    have i: "(n, a) \<in> set (ls_loggers ls)" using f by (simp add: find_logger_def map_of_SomeD)
    then obtain lg where "ls_store ls a = Some lg" "lg_name lg = n" using loggers_okD(2) [OF ok] by blast
    then show ?thesis using set_levels_store [OF ok i, of levels g] by (auto simp: logger_name_def)
  qed
  moreover have "find_logger m ls \<noteq> None" if d: "default_name ls = Some m"
  proof -
    obtain b where b: "ls_default ls = Some b" "logger_name b ls = m" using d by (auto simp: default_name_def)
    from loggers_okD(3) [OF ok b(1)] obtain lg where "ls_store ls b = Some lg" "lg_name lg \<in> fst ` set (ls_loggers ls)" by blast
    with b(2) have "m \<in> fst ` set (ls_loggers ls)" by (simp add: logger_name_def)
    then show ?thesis unfolding find_logger_def map_of_eq_None_iff by simp
  qed
  moreover have "find_logger m (set_default (Some b) ls) = (if m = logger_name b ls then Some b else if default_name ls = Some m then None else find_logger m ls)"
    by (auto simp: set_default_eq insert_loggers_def without_default_def find_logger_def logger_name_def update_conv' delete_conv' split: option.splits)
  moreover have "ls_default (snd (load_log_config now pid program root (k', ls))) \<noteq> None"
    using registry_load [OF ok, of now pid program root k'] by (cases "load_log_config now pid program root (k', ls)") auto
  ultimately show ?thesis by (simp add: drop_logger_eq find_logger_def delete_conv' set_default_eq)
qed

definition net_logger :: logger where
  "net_logger = new_logger [110] [] False"

theorem registry_well_formed_witness:
  "\<exists>ls. log_ops_run [New_logger net_logger, Register 1] (0, log_system_new) = Some (0, ls) \<and> find_logger [110] ls = Some 1
     \<and> ls_store (set_levels [[110] \<mapsto> Warn] None ls) 1 = Some (net_logger\<lparr>lg_level := Warn\<rparr>)
     \<and> default_name ls = Some [] \<and> find_logger [] (set_default (Some 1) ls) = None \<and> find_logger [110] (set_default (Some 1) ls) = Some 1
     \<and> ls_default (drop_logger [] ls) = None \<and> find_logger [110] (drop_logger [] ls) = Some 1"
proof -
  define ls where "ls = register_logger 1 (snd (alloc_logger net_logger log_system_new))"
  have r: "log_ops_run [New_logger net_logger, Register 1] (0, log_system_new) = Some (0, ls)"
    by (simp add: alloc_logger_def log_system_new_def ls_def)
  have f: "find_logger [110] ls = Some 1" "find_logger [] ls = Some 0" "default_name ls = Some []" "logger_name 1 ls = [110]" "ls_store ls 1 = Some net_logger"
    by (simp_all add: ls_def register_logger_def insert_loggers_def find_logger_def default_name_def logger_name_def alloc_logger_def log_system_new_def net_logger_def new_logger_def)
  from registry_well_formed [OF r, of "[110]" 1 "[[110] \<mapsto> Warn]" None "[]" 1] registry_well_formed [OF r, of "[]" 0 "[[110] \<mapsto> Warn]" None "[110]" 1]
  show ?thesis using r f by (simp add: level_to_set_def)
qed

text \<open>An appender configured with no pattern in force writes an empty line for every message: the empty pattern replaces the default format.\<close>

theorem appender_without_pattern_blank:
  assumes "lc_pattern c = []" "map_of table (bytes_of ''pattern'') = None"
    and "create_appender_custom now pid program c name table k = (Some a, k')" "should_log (ap_level a) (msg_level msg)"
  shows "fst (appender_log localtime gmtime msg a) = Some [0x0a]"
proof -
  have "snd (read_pattern_and_time_type table c) = c" using assms(2) by (simp add: read_pattern_and_time_type_def)
  moreover have "lc_pattern (read_level table c) = []" using assms(1) by (simp add: read_level_def split: list.splits)
  ultimately have "f_flags (ap_formatter a) = [] \<and> f_need_localtime (ap_formatter a) = False"
    using assms(3) by (auto simp: create_appender_custom_def Let_def appender_set_pattern_def pattern_formatter_def set_pattern_def split: prod.splits if_splits bool.splits)
  then show ?thesis using assms(4) by (simp add: appender_log_def log_format_def update_time_def put_def empty_out_def)
qed

theorem appender_without_pattern_blank_witness:
  "\<exists>a. create_appender_custom 0 1 [] \<lparr>lc_pattern = [], lc_time_type = Local_time, lc_level = Info\<rparr> (bytes_of ''net'')
      [(bytes_of ''type'', T_string (bytes_of ''stdout''))] 0 = (Some a, 0) \<and> fst (appender_log (\<lambda>_. tm_zero) (\<lambda>_. tm_zero) sample_message a) = Some [0x0a]"
proof -
  let ?c = "\<lparr>lc_pattern = [], lc_time_type = Local_time, lc_level = Info\<rparr>"
  let ?t = "[(bytes_of ''type'', T_string (bytes_of ''stdout''))]"
  let ?a = "(appender_set_pattern 0 1 [] Local_time (new_appender Stdout_appender))\<lparr>ap_level := Info\<rparr>"
  have "create_appender_custom 0 1 [] ?c (bytes_of ''net'') ?t 0 = (Some ?a, 0)"
    by (simp add: create_appender_custom_def read_pattern_and_time_type_def read_level_def read_string_def bytes_of_def of_char_def Let_def)
  from appender_without_pattern_blank [OF _ _ this, of sample_message] this show ?thesis
    by (auto simp: sample_message_def should_log_def bytes_of_def of_char_def)
qed

text \<open>Until a pattern has been set there is no formatter to copy: \<open>initialize_logger\<close> uses a null pointer.\<close>

theorem initialize_without_formatter: "initialize_logger now a log_system_new = None"
  by (simp add: initialize_logger_def log_system_new_def)

end
