(* ===== verification/Log_Writer.thy ===== *)
theory Log_Writer
  imports Log_Config Outbox "HOL-Library.Transitive_Closure_Table"
begin

text \<open>
  The thread that writes the messages of asynchronous loggers (\<open>log_system::send\<close>, \<open>recv\<close>, \<open>writer_run\<close> and the destructor in
  \<open>runtime/src/log/log_system.cpp\<close>, \<open>logger::log\<close> and \<open>flush\<close> in \<open>logger.cpp\<close>).  The queue is that of \<open>Mpsc_Queue\<close>, here the list of its messages.
  \<open>lw_handled\<close> lists the messages given to their logger, \<open>lw_dropped\<close> those released without; \<open>lw_flushed\<close> the times of the periodic flushes.
\<close>

section \<open>The code\<close>

datatype log_item = Log_item addr log_message | Flush_item addr

record log_writer =
  lw_queue :: "log_item list"
  lw_handled :: "log_item list"
  lw_dropped :: "log_item list"
  lw_interval :: int
  lw_last_flush :: int
  lw_last_interval :: int
  lw_dur :: int
  lw_flushed :: "int list"

definition writer_start :: "int \<Rightarrow> log_writer" where
  "writer_start now = \<lparr>lw_queue = [], lw_handled = [], lw_dropped = [], lw_interval = 5, lw_last_flush = now, lw_last_interval = 5, lw_dur = 5, lw_flushed = []\<rparr>"

definition log_send :: "log_item \<Rightarrow> log_writer \<Rightarrow> log_writer" where
  "log_send m w = w\<lparr>lw_queue := lw_queue w @ [m]\<rparr>"

definition set_flush_interval :: "int \<Rightarrow> log_writer \<Rightarrow> log_writer" where
  "set_flush_interval seconds w = (if seconds \<ge> 0 then w\<lparr>lw_interval := seconds\<rparr> else w)"

text \<open>\<open>logger::log\<close>: a message is handled at once by a synchronous logger, put on the queue by an asynchronous one.\<close>

definition logger_log :: "addr \<Rightarrow> logger \<Rightarrow> log_message \<Rightarrow> log_writer \<Rightarrow> log_writer" where
  "logger_log a lg msg w =
     (if \<not> should_log (lg_level lg) (msg_level msg) then w
      else if \<not> lg_async lg then w\<lparr>lw_handled := lw_handled w @ [Log_item a msg]\<rparr>
      else log_send (Log_item a msg) w)"

definition logger_flush :: "addr \<Rightarrow> logger \<Rightarrow> log_writer \<Rightarrow> log_writer" where
  "logger_flush a lg w = (if \<not> lg_async lg then w\<lparr>lw_handled := lw_handled w @ [Flush_item a]\<rparr> else log_send (Flush_item a) w)"

definition recv_message :: "log_writer \<Rightarrow> log_writer" where
  "recv_message w = (case lw_queue w of [] \<Rightarrow> w | m # q \<Rightarrow> w\<lparr>lw_queue := q, lw_handled := lw_handled w @ [m]\<rparr>)"

definition flush_on_time :: "int \<Rightarrow> log_writer \<Rightarrow> log_writer" where
  "flush_on_time current w =
     (let interval = lw_interval w
      in if interval > 0
         then (if current - lw_last_flush w \<ge> interval
               then w\<lparr>lw_last_flush := current, lw_dur := interval, lw_flushed := lw_flushed w @ [current], lw_last_interval := interval\<rparr>
               else w\<lparr>lw_dur := interval - current + lw_last_flush w, lw_last_interval := interval\<rparr>)
         else if lw_last_interval w > 0 then w\<lparr>lw_last_interval := 0, lw_dur := 0\<rparr> else w)"

definition writer_turn :: "int \<Rightarrow> log_writer \<Rightarrow> log_writer" where
  "writer_turn current w = flush_on_time current (recv_message w)"

text \<open>The destructor, once the threads have ended.\<close>

definition writer_shutdown :: "int \<Rightarrow> log_writer \<Rightarrow> log_writer" where
  "writer_shutdown current w = w\<lparr>lw_flushed := lw_flushed w @ [current], lw_queue := [], lw_dropped := lw_dropped w @ lw_queue w\<rparr>"

section \<open>Order\<close>

lemma flush_on_time_simps [simp]: "lw_queue (flush_on_time current w) = lw_queue w" "lw_handled (flush_on_time current w) = lw_handled w"
  "lw_dropped (flush_on_time current w) = lw_dropped w"
  by (simp_all add: flush_on_time_def Let_def)

definition all_sent :: "log_writer \<Rightarrow> log_item list \<Rightarrow> bool" where
  "all_sent w q \<longleftrightarrow> q = lw_handled w @ lw_queue w"

lemma turn_keeps: "lw_handled (writer_turn current w) @ lw_queue (writer_turn current w) = lw_handled w @ lw_queue w"
  by (simp add: writer_turn_def recv_message_def split: list.splits)

interpretation writer: outbox all_sent "\<lambda>_. True" log_send "range writer_turn \<union> range set_flush_interval"
  by unfold_locales (auto simp: turn_keeps all_sent_def log_send_def set_flush_interval_def)

text \<open>While the writer runs the messages of asynchronous loggers are handled in the order sent, each once: those sent are those handled followed by those queued.\<close>

theorem log_messages_in_order:
  assumes "\<forall>t. Tick t \<in> set ops \<longrightarrow> t \<in> range writer_turn \<union> range set_flush_interval"
  shows "written_messages ops = lw_handled (outbox_run log_send ops (writer_start now)) @ lw_queue (outbox_run log_send ops (writer_start now))"
proof -
  have "all_sent (outbox_run log_send ops (writer_start now)) ([] @ written_messages ops)"
    by (rule writer.run_keeps_order) (use assms in \<open>simp_all add: all_sent_def writer_start_def\<close>)
  then show ?thesis by (simp add: all_sent_def)
qed

theorem log_messages_in_order_witness:
  "written_messages [Write (Flush_item 1), Tick (writer_turn 9), Write (Flush_item 2)] =
     lw_handled (outbox_run log_send [Write (Flush_item 1), Tick (writer_turn 9), Write (Flush_item 2)] (writer_start 0))
     @ lw_queue (outbox_run log_send [Write (Flush_item 1), Tick (writer_turn 9), Write (Flush_item 2)] (writer_start 0))"
  by (rule log_messages_in_order) auto

text \<open>With a flush interval the writer never waits longer than the interval and never without a limit, and flushes exactly when the interval has gone by.\<close>

theorem flush_wait_bounds:
  assumes "0 < lw_interval w" "lw_last_flush w \<le> current"
  shows "0 < lw_dur (writer_turn current w) \<and> lw_dur (writer_turn current w) \<le> lw_interval w
    \<and> lw_flushed (writer_turn current w) = lw_flushed w @ (if current - lw_last_flush w \<ge> lw_interval w then [current] else [])
    \<and> lw_last_flush (writer_turn current w) \<le> current"
  using assms by (auto simp: writer_turn_def recv_message_def flush_on_time_def Let_def split: list.splits)

theorem flush_wait_bounds_witness: "0 < lw_dur (writer_turn 3 (writer_start 0)) \<and> lw_dur (writer_turn 3 (writer_start 0)) \<le> 5"
  using flush_wait_bounds [of "writer_start 0" 3] by (simp add: writer_start_def)

text \<open>What is still queued when the system goes down is released without having been written: also a message sent before the shutdown began.\<close>

theorem shutdown_drops_messages:
  assumes "all_sent w q" "lw_queue w \<noteq> []" "distinct q"
  shows "\<exists>m \<in> set q. m \<notin> set (lw_handled (writer_shutdown current w)) \<and> m \<in> set (lw_dropped (writer_shutdown current w))"
proof -
  obtain m ms where "lw_queue w = m # ms" using assms(2) by (cases "lw_queue w") auto
  then show ?thesis using assms(1,3) by (intro bexI [of _ m]) (auto simp: all_sent_def writer_shutdown_def)
qed

theorem shutdown_drops_messages_witness:
  "\<exists>m \<in> set [Flush_item 1]. m \<notin> set (lw_handled (writer_shutdown 1 (log_send (Flush_item 1) (writer_start 0))))
     \<and> m \<in> set (lw_dropped (writer_shutdown 1 (log_send (Flush_item 1) (writer_start 0))))"
  by (rule shutdown_drops_messages) (simp_all add: all_sent_def log_send_def writer_start_def)

section \<open>Waking the writer\<close>

text \<open>\<open>recv\<close> looks at the queue, takes the lock and waits; \<open>send\<close> pushes and notifies without the lock.  \<open>timed\<close> says whether the wait has a limit.\<close>

datatype writer_pc = At_pop | Before_wait | Waiting

record wakeup =
  wk_pending :: nat
  wk_pc :: writer_pc

definition wk_send :: "wakeup \<Rightarrow> wakeup" where
  "wk_send s = \<lparr>wk_pending = wk_pending s + 1, wk_pc = (if wk_pc s = Waiting then At_pop else wk_pc s)\<rparr>"

inductive writer_step :: "bool \<Rightarrow> wakeup \<Rightarrow> wakeup \<Rightarrow> bool" for timed where
  pop: "wk_pc s = At_pop \<Longrightarrow> 0 < wk_pending s \<Longrightarrow> writer_step timed s (s\<lparr>wk_pending := wk_pending s - 1\<rparr>)"
| none: "wk_pc s = At_pop \<Longrightarrow> wk_pending s = 0 \<Longrightarrow> writer_step timed s (s\<lparr>wk_pc := Before_wait\<rparr>)"
| wait: "wk_pc s = Before_wait \<Longrightarrow> writer_step timed s (s\<lparr>wk_pc := Waiting\<rparr>)"
| limit: "timed \<Longrightarrow> wk_pc s = Waiting \<Longrightarrow> writer_step timed s (s\<lparr>wk_pc := At_pop\<rparr>)"

inductive_cases waiting_stepE: "writer_step timed s t"

inductive wakeup_step :: "bool \<Rightarrow> wakeup \<Rightarrow> wakeup \<Rightarrow> bool" for timed where
  send: "wakeup_step timed s (wk_send s)"
| writer: "writer_step timed s t \<Longrightarrow> wakeup_step timed s t"

definition wakeup_start :: wakeup where
  "wakeup_start = \<lparr>wk_pending = 0, wk_pc = At_pop\<rparr>"

text \<open>With a flush interval the writer can always go on; without one a message sent between its look at the queue and its wait is left lying and the
  writer can do nothing until another message comes.\<close>

theorem log_wakeup_lost:
  "(\<exists>t. writer_step True s t) \<and> (\<exists>s. (wakeup_step False)\<^sup>*\<^sup>* wakeup_start s \<and> 0 < wk_pending s \<and> (\<nexists>t. writer_step False s t))"
proof
  show "\<exists>t. writer_step True s t"
  proof (cases "wk_pc s")
    case At_pop
    then show ?thesis using writer_step.pop [of s True] writer_step.none [of s True] by blast
  next
    case Before_wait
    then show ?thesis using writer_step.wait [of s True] by blast
  next
    case Waiting
    then show ?thesis using writer_step.limit [of True s] by blast
  qed
  let ?a = "wakeup_start\<lparr>wk_pc := Before_wait\<rparr>"
  let ?c = "(wk_send ?a)\<lparr>wk_pc := Waiting\<rparr>"
  have "wakeup_step False wakeup_start ?a" by (intro wakeup_step.writer writer_step.none) (simp_all add: wakeup_start_def)
  moreover have "wakeup_step False ?a (wk_send ?a)" by (rule wakeup_step.send)
  moreover have "wakeup_step False (wk_send ?a) ?c" by (intro wakeup_step.writer writer_step.wait) (simp add: wakeup_start_def wk_send_def)
  ultimately have "(wakeup_step False)\<^sup>*\<^sup>* wakeup_start ?c" by (meson rtranclp.rtrancl_into_rtrancl rtranclp.rtrancl_refl)
  moreover have "\<nexists>t. writer_step False ?c t" by (auto elim!: waiting_stepE)
  moreover have "0 < wk_pending ?c" by (simp add: wk_send_def)
  ultimately show "\<exists>s. (wakeup_step False)\<^sup>*\<^sup>* wakeup_start s \<and> 0 < wk_pending s \<and> (\<nexists>t. writer_step False s t)" by blast
qed

end
