(* ===== verification/Kcp_Socket.thy ===== *)
theory Kcp_Socket
  imports Websocket "HOL-Library.Sublist" "HOL-Library.Monad_Syntax"
begin

text \<open>
  Sockets over KCP (\<open>runtime/src/net/impl/kcp_config.h\<close>, \<open>kcp_client_impl.cpp\<close>, \<open>kcp_session_impl.cpp\<close>, \<open>kcp_server_impl.cpp\<close>): datagrams, the handshake,
  heartbeats, dispatch to the sessions and closing.  The KCP library and the UDP socket are arguments; time is in nanoseconds.  A coroutine is one step per datagram,
  timer or operation that ends.  What is sent and what the socket system is told are logs of the state; traffic counters are left out.
\<close>

section \<open>Datagrams\<close>

datatype kcp_code = Kcp_connect | Kcp_connect_ack | Kcp_disconnect | Kcp_heartbeat | Kcp_heartbeat_ack | Kcp_data

fun kcp_op :: "kcp_code \<Rightarrow> byte" where
  "kcp_op Kcp_connect = 1"
| "kcp_op Kcp_connect_ack = 2"
| "kcp_op Kcp_disconnect = 3"
| "kcp_op Kcp_heartbeat = 4"
| "kcp_op Kcp_heartbeat_ack = 5"
| "kcp_op Kcp_data = 6"

definition kcp_head :: "kcp_code \<Rightarrow> byte list" where
  "kcp_head code = [0x62, 0xf9, 0x8e, kcp_op code]"

definition kcp_head_size :: nat where "kcp_head_size = 4"
definition udp_mtu :: nat where "udp_mtu = 470"
definition kcp_recv_capacity :: nat where "kcp_recv_capacity = 1024"
definition kcp_alive_timeout :: int where "kcp_alive_timeout = 20 * 10 ^ 9"
definition kcp_heartbeat_timeout :: int where "kcp_heartbeat_timeout = 10 * 10 ^ 9"

definition make_kcp_ctrl :: "kcp_code \<Rightarrow> u32 \<Rightarrow> byte list" where
  "make_kcp_ctrl code conv = kcp_head code @ u32_bytes (htonl conv)"

definition make_kcp_data :: "byte list \<Rightarrow> byte list" where
  "make_kcp_data data = kcp_head Kcp_data @ data"

text \<open>A datagram is received into the array \<open>data\<close>, of which only the first \<open>len\<close> bytes are its own.\<close>

definition kcp_magic_ok :: "byte list \<Rightarrow> bool" where
  "kcp_magic_ok data \<longleftrightarrow> take 3 data = [0x62, 0xf9, 0x8e]"

definition has_code :: "byte list \<Rightarrow> kcp_code \<Rightarrow> bool" where
  "has_code data code \<longleftrightarrow> data ! 3 = kcp_op code"

definition ctrl_conv :: "byte list \<Rightarrow> u32" where
  "ctrl_conv data = htonl (bytes_u32 (slice kcp_head_size 4 data))"

section \<open>The KCP library\<close>

text \<open>\<open>ik_send\<close> and \<open>ik_input\<close> say whether they succeeded; \<open>ik_recv\<close> gives nothing when the result is not positive.  \<open>ik_update\<close> returns what it hands to the
  output callback.\<close>

record 'k ikcp =
  ik_create :: "u32 \<Rightarrow> 'k"
  ik_getconv :: "byte list \<Rightarrow> u32"
  ik_send :: "byte list \<Rightarrow> 'k \<Rightarrow> bool \<times> 'k"
  ik_input :: "byte list \<Rightarrow> 'k \<Rightarrow> bool \<times> 'k"
  ik_recv :: "nat \<Rightarrow> 'k \<Rightarrow> byte list option \<times> 'k"
  ik_update :: "u32 \<Rightarrow> 'k \<Rightarrow> byte list list \<times> 'k"
  ik_check :: "'k \<Rightarrow> u32 \<Rightarrow> u32"

text \<open>The loop \<open>write_base\<close> and \<open>kcp_session_impl::write\<close> share; the length is an \<open>int\<close>.\<close>

function kcp_send_all :: "'k ikcp \<Rightarrow> byte list \<Rightarrow> 'k \<Rightarrow> bool \<times> 'k" where
  "kcp_send_all I data k =
     (if length data > kcp_recv_capacity
      then (case ik_send I (take kcp_recv_capacity data) k of
              (False, k) \<Rightarrow> (False, k) | (True, k) \<Rightarrow> kcp_send_all I (drop kcp_recv_capacity data) k)
      else if data = [] then (True, k) else ik_send I data k)"
  by pat_completeness auto

termination by (relation "measure (\<lambda>(I, data, k). length data)") (auto simp: kcp_recv_capacity_def)

declare kcp_send_all.simps [simp del]

definition as_int :: "byte list \<Rightarrow> byte list" where
  "as_int ptr = take (nat (sint (of_nat (length ptr) :: 32 word))) ptr"

text \<open>\<open>ikcp_recv\<close> returns the length of the message, or a negative number when there is none (\<open>None\<close>); the loop ends at both this and a message of length 0.\<close>

partial_function (option) kcp_recv_all :: "'k ikcp \<Rightarrow> 'k \<Rightarrow> (byte list list \<times> 'k) option" where
  "kcp_recv_all I k = (case ik_recv I kcp_recv_capacity k of
     (None, k) \<Rightarrow> Some ([], k)
   | (Some m, k) \<Rightarrow> if m = [] then Some ([], k) else do { (ms, k) \<leftarrow> kcp_recv_all I k; Some (m # ms, k) })"

text \<open>\<open>hand_read_data\<close>: the error, if any, and what is handed to the socket system.\<close>

definition kcp_input :: "'k ikcp \<Rightarrow> u32 \<Rightarrow> byte list \<Rightarrow> nat \<Rightarrow> 'k \<Rightarrow> (socket_errors option \<times> byte list list \<times> 'k) option" where
  "kcp_input I conv data len k =
     (if ik_getconv I data \<noteq> conv then Some (Some Kcp_check_failed, [], k)
      else case ik_input I (take len data) k of
        (False, k) \<Rightarrow> Some (Some Kcp_protocol_error, [], k)
      | (True, k) \<Rightarrow> do { (ms, k) \<leftarrow> kcp_recv_all I k; Some (None, ms, k) })"

definition kcp_millis :: "int \<Rightarrow> u32" where
  "kcp_millis now = word_of_int (now div 10 ^ 6)"

definition kcp_next_update :: "'k ikcp \<Rightarrow> int \<Rightarrow> 'k \<Rightarrow> int" where
  "kcp_next_update I now k = now + uint (ik_check I k (kcp_millis now) - kcp_millis now) * 10 ^ 6"

section \<open>The client\<close>

datatype kcp_state = Kcp_normal | Kcp_connected | Kcp_close_wait | Kcp_closed

datatype kcp_report = Kcp_started | Kcp_read "byte list" | Kcp_stopped error_code

text \<open>\<open>kc_connecting\<close>: the coroutine of \<open>start\<close> has not ended.  \<open>kc_leaving\<close>: the coroutine of \<open>disconnect\<close>, with its error.\<close>

record 'k kcp_client =
  kc_state :: kcp_state
  kc_kcp :: "'k option"
  kc_conv :: u32
  kc_force :: bool
  kc_last_read :: int
  kc_last_write :: int
  kc_next_update :: int
  kc_queue :: "byte list list"
  kc_connecting :: bool
  kc_leaving :: "error_code option"
  kc_out :: "byte list list"
  kc_reports :: "kcp_report list"

definition kcp_client_start :: "'k kcp_client" where
  "kcp_client_start = \<lparr>kc_state = Kcp_normal, kc_kcp = None, kc_conv = 0, kc_force = False, kc_last_read = 0, kc_last_write = 0, kc_next_update = 0,
     kc_queue = [], kc_connecting = True, kc_leaving = None, kc_out = [], kc_reports = []\<rparr>"

definition kc_stop :: "error_code \<Rightarrow> 'k kcp_client \<Rightarrow> 'k kcp_client" where
  "kc_stop ec st = (if kc_state st = Kcp_closed then st
     else st\<lparr>kc_state := Kcp_closed, kc_reports := kc_reports st @ [Kcp_stopped ec]\<rparr>)"

definition kc_disconnect :: "error_code \<Rightarrow> 'k kcp_client \<Rightarrow> 'k kcp_client" where
  "kc_disconnect ec st = (if kc_state st \<noteq> Kcp_connected then st else st\<lparr>kc_state := Kcp_close_wait, kc_leaving := Some ec\<rparr>)"

definition kc_disconnect_sent :: "'k kcp_client \<Rightarrow> 'k kcp_client" where
  "kc_disconnect_sent st = (case kc_leaving st of
     None \<Rightarrow> st
   | Some ec \<Rightarrow> kc_stop ec (st\<lparr>kc_leaving := None, kc_out := kc_out st @ [make_kcp_ctrl Kcp_disconnect (kc_conv st)]\<rparr>))"

definition kc_write_to :: "byte list \<Rightarrow> 'k kcp_client \<Rightarrow> 'k kcp_client" where
  "kc_write_to data st = st\<lparr>kc_out := kc_out st @ [data]\<rparr>"

definition kc_write_base :: "'k ikcp \<Rightarrow> byte list \<Rightarrow> 'k kcp_client \<Rightarrow> bool \<times> 'k kcp_client" where
  "kc_write_base I ptr st = (case kc_kcp st of
     None \<Rightarrow> (False, st)
   | Some k \<Rightarrow> (case kcp_send_all I (as_int ptr) k of
       (ok, k) \<Rightarrow> let st = st\<lparr>kc_kcp := Some k\<rparr> in (ok, if ok then st else kc_disconnect (Socket_error Kcp_protocol_error) st)))"

definition kc_write :: "'k ikcp \<Rightarrow> byte list \<Rightarrow> 'k kcp_client \<Rightarrow> 'k kcp_client" where
  "kc_write I ptr st =
     (if kc_state st \<noteq> Kcp_connected then st\<lparr>kc_queue := kc_queue st @ [ptr]\<rparr>
      else case kc_write_base I ptr st of (ok, st) \<Rightarrow> if ok then st\<lparr>kc_force := True\<rparr> else st)"

fun kc_write_all :: "'k ikcp \<Rightarrow> byte list list \<Rightarrow> 'k kcp_client \<Rightarrow> bool \<times> 'k kcp_client" where
  "kc_write_all I [] st = (True, st)"
| "kc_write_all I (ptr # ptrs) st = (case kc_write_base I ptr st of (False, st) \<Rightarrow> (False, st) | (True, st) \<Rightarrow> kc_write_all I ptrs st)"

text \<open>\<open>co_connect\<close>: an operation before the answer fails; the request has been sent; the answer, at the time \<open>now\<close>.\<close>

definition kc_connect_error :: "error_code \<Rightarrow> 'k kcp_client \<Rightarrow> 'k kcp_client" where
  "kc_connect_error ec st = (if kc_connecting st then kc_stop ec (st\<lparr>kc_connecting := False\<rparr>) else st)"

definition kc_connect_send :: "'k kcp_client \<Rightarrow> 'k kcp_client" where
  "kc_connect_send st = (if kc_connecting st then kc_write_to (make_kcp_ctrl Kcp_connect 0) st else st)"

definition kc_connect_ack :: "'k ikcp \<Rightarrow> int \<Rightarrow> byte list \<Rightarrow> nat \<Rightarrow> 'k kcp_client \<Rightarrow> 'k kcp_client" where
  "kc_connect_ack I now data len st =
     (if \<not> kc_connecting st then st
      else let st = st\<lparr>kc_connecting := False\<rparr>
           in if \<not> kcp_magic_ok data \<or> \<not> has_code data Kcp_connect_ack then kc_disconnect (Socket_error Kcp_check_failed) st
              else if len < kcp_head_size + 4 then kc_stop (Socket_error Kcp_check_failed) st
              else let conv = ctrl_conv data; k = ik_create I conv;
                       st = st\<lparr>kc_kcp := Some k, kc_conv := conv, kc_state := Kcp_connected, kc_reports := kc_reports st @ [Kcp_started]\<rparr>
                   in case kc_write_all I (kc_queue st) st of
                        (False, st) \<Rightarrow> st
                      | (True, st) \<Rightarrow> st\<lparr>kc_force := kc_force st \<or> kc_queue st \<noteq> [], kc_queue := [], kc_last_read := now, kc_last_write := now,
                          kc_next_update := (case kc_kcp st of None \<Rightarrow> now | Some k \<Rightarrow> kcp_next_update I now k)\<rparr>)"

text \<open>\<open>co_timeout\<close>; the end of \<open>co_connect\<close> cancels it.\<close>

definition kc_timeout :: "error_code \<Rightarrow> 'k kcp_client \<Rightarrow> 'k kcp_client" where
  "kc_timeout timed_out st = (if kc_connecting st then kc_stop timed_out (st\<lparr>kc_connecting := False\<rparr>) else st)"

text \<open>\<open>co_read\<close>, one datagram.\<close>

definition kc_receive :: "'k ikcp \<Rightarrow> int \<Rightarrow> error_code \<Rightarrow> byte list \<Rightarrow> nat \<Rightarrow> 'k kcp_client \<Rightarrow> 'k kcp_client option" where
  "kc_receive I now ec data len st =
     (if kc_state st \<noteq> Kcp_connected then Some st
      else if ec_true ec \<or> len < kcp_head_size then Some (kc_disconnect ec st)
      else if \<not> kcp_magic_ok data then Some (kc_disconnect (Socket_error Kcp_check_failed) st)
      else if has_code data Kcp_disconnect
        then Some (if len < kcp_head_size + 4 \<or> ctrl_conv data \<noteq> kc_conv st then st else kc_disconnect Asio_eof st)
      else if has_code data Kcp_heartbeat
        then Some ((kc_write_to (make_kcp_ctrl Kcp_heartbeat_ack (kc_conv st)) st)\<lparr>kc_last_write := now, kc_last_read := now\<rparr>)
      else if has_code data Kcp_heartbeat_ack then Some (st\<lparr>kc_last_read := now\<rparr>)
      else if has_code data Kcp_data
        then (case kc_kcp st of None \<Rightarrow> Some st | Some k \<Rightarrow> do {
          (err, ms, k) \<leftarrow> kcp_input I (kc_conv st) (drop kcp_head_size data) (len - kcp_head_size) k;
          let st = st\<lparr>kc_kcp := Some k, kc_reports := kc_reports st @ map Kcp_read ms\<rparr>;
          Some (case err of Some e \<Rightarrow> kc_disconnect (Socket_error e) st | None \<Rightarrow> st\<lparr>kc_force := True, kc_last_read := now\<rparr>)
        })
      else Some st)"

text \<open>\<open>co_watchdog\<close>: whether a heartbeat is due, and when the timer is set for next, unless the other side has been silent for too long.\<close>

definition kcp_watch :: "int \<Rightarrow> int \<Rightarrow> int \<Rightarrow> bool \<times> int option" where
  "kcp_watch now last_read last_write =
     (let beat = now \<ge> last_write + kcp_heartbeat_timeout;
          heartbeat_point = (if beat then now else last_write) + kcp_heartbeat_timeout; deadline_point = last_read + kcp_alive_timeout
      in (beat, if now < deadline_point then Some (min heartbeat_point deadline_point) else None))"

definition kc_watch :: "int \<Rightarrow> 'k kcp_client \<Rightarrow> int option \<times> 'k kcp_client" where
  "kc_watch now st =
     (if kc_state st \<noteq> Kcp_connected then (None, st)
      else case kcp_watch now (kc_last_read st) (kc_last_write st) of (beat, expires) \<Rightarrow>
        let st = (if beat then (kc_write_to (make_kcp_ctrl Kcp_heartbeat (kc_conv st)) st)\<lparr>kc_last_write := now\<rparr> else st)
        in (expires, if expires = None then kc_disconnect (Socket_error Kcp_heartbeat_timeout) st else st))"

text \<open>\<open>co_kcp_update\<close>, after a wait; the clock is read again after the update.\<close>

definition kc_update :: "'k ikcp \<Rightarrow> int \<Rightarrow> int \<Rightarrow> 'k kcp_client \<Rightarrow> 'k kcp_client" where
  "kc_update I now later st = (case kc_kcp st of
     None \<Rightarrow> st
   | Some k \<Rightarrow>
       if kc_state st = Kcp_connected \<and> (now \<ge> kc_next_update st \<or> kc_force st)
       then (case ik_update I (kcp_millis now) k of (bufs, k) \<Rightarrow>
               st\<lparr>kc_force := False, kc_kcp := Some k, kc_last_write := (if bufs = [] then kc_last_write st else now),
                  kc_out := kc_out st @ map make_kcp_data bufs, kc_next_update := kcp_next_update I later k\<rparr>)
       else st)"

section \<open>The server and its sessions\<close>

record ('r, 'k) kcp_session =
  ks_remote :: 'r
  ks_kcp :: 'k
  ks_force :: bool
  ks_last_read :: int
  ks_last_write :: int
  ks_next_update :: int

datatype kcp_news = Session_news kcp_report | Accepted u32

record ('r, 'k) kcp_server =
  kv_id :: u32
  kv_open :: bool
  kv_sessions :: "u32 \<Rightarrow> ('r, 'k) kcp_session option"
  kv_out :: "('r \<times> byte list) list"
  kv_reports :: "(u32 \<times> kcp_news) list"

definition kcp_server_start :: "u32 \<Rightarrow> ('r, 'k) kcp_server" where
  "kcp_server_start i = \<lparr>kv_id = i, kv_open = True, kv_sessions = (\<lambda>_. None), kv_out = [], kv_reports = [(i, Session_news Kcp_started)]\<rparr>"

definition kv_write_to :: "'r \<Rightarrow> byte list \<Rightarrow> ('r, 'k) kcp_server \<Rightarrow> ('r, 'k) kcp_server" where
  "kv_write_to dest data sv = sv\<lparr>kv_out := kv_out sv @ [(dest, data)]\<rparr>"

definition kv_news :: "u32 \<Rightarrow> kcp_news \<Rightarrow> ('r, 'k) kcp_server \<Rightarrow> ('r, 'k) kcp_server" where
  "kv_news i n sv = sv\<lparr>kv_reports := kv_reports sv @ [(i, n)]\<rparr>"

definition ks_set :: "u32 \<Rightarrow> ('r, 'k) kcp_session \<Rightarrow> ('r, 'k) kcp_server \<Rightarrow> ('r, 'k) kcp_server" where
  "ks_set i s sv = sv\<lparr>kv_sessions := (kv_sessions sv)(i \<mapsto> s)\<rparr>"

definition ks_stop :: "u32 \<Rightarrow> error_code \<Rightarrow> ('r, 'k) kcp_server \<Rightarrow> ('r, 'k) kcp_server" where
  "ks_stop i ec sv = (case kv_sessions sv i of
     None \<Rightarrow> sv
   | Some s \<Rightarrow>
       let sv = kv_write_to (ks_remote s) (make_kcp_ctrl Kcp_disconnect i) sv;
           sv = sv\<lparr>kv_sessions := (kv_sessions sv)(i := None)\<rparr>
       in kv_news i (Session_news (Kcp_stopped ec)) sv)"

definition ks_write :: "'k ikcp \<Rightarrow> u32 \<Rightarrow> byte list \<Rightarrow> ('r, 'k) kcp_server \<Rightarrow> ('r, 'k) kcp_server" where
  "ks_write I i ptr sv = (case kv_sessions sv i of
     None \<Rightarrow> sv
   | Some s \<Rightarrow> (case kcp_send_all I (as_int ptr) (ks_kcp s) of
       (True, k) \<Rightarrow> ks_set i (s\<lparr>ks_kcp := k, ks_force := True\<rparr>) sv
     | (False, k) \<Rightarrow> ks_stop i (Socket_error Kcp_protocol_error) (ks_set i (s\<lparr>ks_kcp := k\<rparr>) sv)))"

definition ks_start :: "'k ikcp \<Rightarrow> int \<Rightarrow> u32 \<Rightarrow> 'r \<Rightarrow> ('r, 'k) kcp_server \<Rightarrow> ('r, 'k) kcp_server" where
  "ks_start I now i remote sv =
     (let sv = kv_news (kv_id sv) (Accepted i) sv; k = ik_create I i;
          sv = ks_set i \<lparr>ks_remote = remote, ks_kcp = k, ks_force = False, ks_last_read = now, ks_last_write = now, ks_next_update = kcp_next_update I now k\<rparr> sv
      in kv_write_to remote (make_kcp_ctrl Kcp_connect_ack i) sv)"

text \<open>\<open>kcp_session_impl::read\<close>, \<open>co_watchdog\<close> and \<open>co_kcp_update\<close>.\<close>

definition ks_read :: "'k ikcp \<Rightarrow> int \<Rightarrow> u32 \<Rightarrow> byte list \<Rightarrow> nat \<Rightarrow> ('r, 'k) kcp_server \<Rightarrow> ('r, 'k) kcp_server option" where
  "ks_read I now i data len sv = (case kv_sessions sv i of
     None \<Rightarrow> Some sv
   | Some s \<Rightarrow>
       if has_code data Kcp_disconnect then Some (ks_stop i Asio_eof sv)
       else if has_code data Kcp_heartbeat
         then Some (kv_write_to (ks_remote s) (make_kcp_ctrl Kcp_heartbeat_ack i) (ks_set i (s\<lparr>ks_last_write := now, ks_last_read := now\<rparr>) sv))
       else if has_code data Kcp_heartbeat_ack then Some (ks_set i (s\<lparr>ks_last_read := now\<rparr>) sv)
       else if has_code data Kcp_data then do {
         (err, ms, k) \<leftarrow> kcp_input I i (drop kcp_head_size data) (len - kcp_head_size) (ks_kcp s);
         let sv = fold (\<lambda>m. kv_news i (Session_news (Kcp_read m))) ms (ks_set i (s\<lparr>ks_kcp := k\<rparr>) sv);
         Some (case err of Some e \<Rightarrow> ks_stop i (Socket_error e) sv
               | None \<Rightarrow> ks_set i (s\<lparr>ks_kcp := k, ks_force := True, ks_last_read := now\<rparr>) sv)
       }
       else Some sv)"

definition ks_watch :: "int \<Rightarrow> u32 \<Rightarrow> ('r, 'k) kcp_server \<Rightarrow> int option \<times> ('r, 'k) kcp_server" where
  "ks_watch now i sv = (case kv_sessions sv i of
     None \<Rightarrow> (None, sv)
   | Some s \<Rightarrow> (case kcp_watch now (ks_last_read s) (ks_last_write s) of (beat, expires) \<Rightarrow>
       let sv = (if beat then kv_write_to (ks_remote s) (make_kcp_ctrl Kcp_heartbeat i) (ks_set i (s\<lparr>ks_last_write := now\<rparr>) sv) else sv)
       in (expires, if expires = None then ks_stop i (Socket_error Kcp_heartbeat_timeout) sv else sv)))"

definition ks_update :: "'k ikcp \<Rightarrow> int \<Rightarrow> int \<Rightarrow> u32 \<Rightarrow> ('r, 'k) kcp_server \<Rightarrow> ('r, 'k) kcp_server" where
  "ks_update I now later i sv = (case kv_sessions sv i of
     None \<Rightarrow> sv
   | Some s \<Rightarrow>
       if now \<ge> ks_next_update s \<or> ks_force s
       then (case ik_update I (kcp_millis now) (ks_kcp s) of (bufs, k) \<Rightarrow>
               fold (\<lambda>buf. kv_write_to (ks_remote s) (make_kcp_data buf)) bufs
                 (ks_set i (s\<lparr>ks_force := False, ks_kcp := k, ks_last_write := (if bufs = [] then ks_last_write s else now),
                    ks_next_update := kcp_next_update I later k\<rparr>) sv))
       else sv)"

text \<open>\<open>hand_accept\<close> with the identifier \<open>new_socket_id\<close> gives, \<open>co_read\<close> with one datagram, and \<open>stop\<close> with the sessions in the order of the map.\<close>

definition kv_accept :: "'k ikcp \<Rightarrow> int \<Rightarrow> u32 \<Rightarrow> 'r \<Rightarrow> ('r, 'k) kcp_server \<Rightarrow> ('r, 'k) kcp_server" where
  "kv_accept I now new_id remote sv =
     (if new_id = 0 then kv_write_to remote (make_kcp_ctrl Kcp_disconnect 0) sv else ks_start I now new_id remote sv)"

definition kv_stop :: "error_code \<Rightarrow> u32 list \<Rightarrow> ('r, 'k) kcp_server \<Rightarrow> ('r, 'k) kcp_server" where
  "kv_stop ec sessions sv = (if \<not> kv_open sv then sv
     else kv_news (kv_id sv) (Session_news (Kcp_stopped ec)) ((fold (\<lambda>i. ks_stop i ec) sessions sv)\<lparr>kv_open := False\<rparr>))"

definition kv_receive :: "'k ikcp \<Rightarrow> int \<Rightarrow> u32 \<Rightarrow> 'r \<Rightarrow> byte list \<Rightarrow> nat \<Rightarrow> ('r, 'k) kcp_server \<Rightarrow> ('r, 'k) kcp_server option" where
  "kv_receive I now new_id remote data len sv =
     (if len < kcp_head_size \<or> \<not> kcp_magic_ok data then Some sv
      else if has_code data Kcp_connect then Some (kv_accept I now new_id remote sv)
      else if has_code data Kcp_data then ks_read I now (ik_getconv I (drop kcp_head_size data)) data len sv
      else if len < kcp_head_size + 4 then Some sv
      else ks_read I now (ctrl_conv data) data len sv)"

section \<open>Datagrams and the handshake\<close>

lemma kcp_op_inj [simp]: "kcp_op c = kcp_op d \<longleftrightarrow> c = d"
  by (cases c; cases d) simp_all

lemma kcp_head_simps [simp]: "length (kcp_head c) = 4" "kcp_magic_ok (kcp_head c @ rest)" "has_code (kcp_head c @ rest) d \<longleftrightarrow> c = d"
  by (auto simp: kcp_head_def kcp_magic_ok_def has_code_def)

lemma make_kcp_simps [simp]: "length (make_kcp_ctrl c conv) = 8" "kcp_magic_ok (make_kcp_ctrl c conv @ rest)"
  "has_code (make_kcp_ctrl c conv @ rest) d \<longleftrightarrow> c = d" "ctrl_conv (make_kcp_ctrl c conv @ rest) = conv"
  by (simp_all add: make_kcp_ctrl_def ctrl_conv_def slice_def kcp_head_size_def)

lemma make_kcp_data_simps [simp]: "kcp_magic_ok (make_kcp_data data)" "has_code (make_kcp_data data) d \<longleftrightarrow> d = Kcp_data"
  "drop kcp_head_size (make_kcp_data data) = data"
  by (auto simp: make_kcp_data_def kcp_head_size_def)

text \<open>The request of a client makes a session of a server that has an identifier for it, and the answer connects the client to this session: both run KCP with
  the same conversation, whatever else is in their receive buffers.\<close>

theorem kcp_handshake:
  assumes "new_id \<noteq> 0" "kc_connecting cl" "kc_queue cl = []"
  shows "\<exists>sv' s. kv_receive I now new_id remote (make_kcp_ctrl Kcp_connect 0 @ junk) 8 sv = Some sv' \<and> kv_sessions sv' = (kv_sessions sv)(new_id \<mapsto> s)
    \<and> ks_remote s = remote \<and> ks_kcp s = ik_create I new_id \<and> kv_out sv' = kv_out sv @ [(remote, make_kcp_ctrl Kcp_connect_ack new_id)]
    \<and> (let cl' = kc_connect_ack I later (make_kcp_ctrl Kcp_connect_ack new_id @ junk') 8 cl
       in kc_state cl' = Kcp_connected \<and> kc_conv cl' = new_id \<and> kc_kcp cl' = Some (ik_create I new_id) \<and> kc_reports cl' = kc_reports cl @ [Kcp_started])"
  using assms by (simp add: kv_receive_def kcp_head_size_def kv_accept_def ks_start_def kv_news_def ks_set_def kv_write_to_def kc_connect_ack_def Let_def)
    (intro exI conjI, rule refl, simp_all)

theorem kcp_handshake_witness:
  "kc_conv (kc_connect_ack (I :: unit ikcp) 3 (make_kcp_ctrl Kcp_connect_ack 9 @ []) 8 kcp_client_start) = 9"
  using kcp_handshake [of 9 "kcp_client_start :: unit kcp_client" I 1 "()" "[]" "kcp_server_start 2" 3 "[]"] by (auto simp: kcp_client_start_def Let_def)

section \<open>Runs of the client\<close>

datatype kc_event = Kc_connect_error error_code | Kc_connect_send | Kc_ack int "byte list" nat | Kc_timeout error_code
  | Kc_recv int error_code "byte list" nat | Kc_watch int | Kc_update int int | Kc_write "byte list" | Kc_disconnect_sent | Kc_stop error_code

fun kc_step :: "'k ikcp \<Rightarrow> kc_event \<Rightarrow> 'k kcp_client \<Rightarrow> 'k kcp_client option" where
  "kc_step I (Kc_connect_error ec) st = Some (kc_connect_error ec st)"
| "kc_step I Kc_connect_send st = Some (kc_connect_send st)"
| "kc_step I (Kc_ack now data len) st = Some (kc_connect_ack I now data len st)"
| "kc_step I (Kc_timeout ec) st = Some (kc_timeout ec st)"
| "kc_step I (Kc_recv now ec data len) st = kc_receive I now ec data len st"
| "kc_step I (Kc_watch now) st = Some (snd (kc_watch now st))"
| "kc_step I (Kc_update now later) st = Some (kc_update I now later st)"
| "kc_step I (Kc_write ptr) st = Some (kc_write I ptr st)"
| "kc_step I Kc_disconnect_sent st = Some (kc_disconnect_sent st)"
| "kc_step I (Kc_stop ec) st = Some (kc_stop ec st)"

fun kc_run :: "'k ikcp \<Rightarrow> kc_event list \<Rightarrow> 'k kcp_client \<Rightarrow> 'k kcp_client option" where
  "kc_run I [] st = Some st"
| "kc_run I (ev # evs) st = Option.bind (kc_step I ev st) (kc_run I evs)"

lemma kc_disconnect_simps [simp]: "kc_reports (kc_disconnect ec st) = kc_reports st" "kc_kcp (kc_disconnect ec st) = kc_kcp st"
  "kc_connecting (kc_disconnect ec st) = kc_connecting st"
  by (simp_all add: kc_disconnect_def)

lemma kc_stop_simps [simp]: "kc_kcp (kc_stop ec st) = kc_kcp st" "kc_connecting (kc_stop ec st) = kc_connecting st" "kc_state (kc_stop ec st) = Kcp_closed"
  by (simp_all add: kc_stop_def)

lemma kc_write_to_simps [simp]: "kc_reports (kc_write_to d st) = kc_reports st" "kc_kcp (kc_write_to d st) = kc_kcp st"
  "kc_connecting (kc_write_to d st) = kc_connecting st" "kc_state (kc_write_to d st) = kc_state st" "kc_leaving (kc_write_to d st) = kc_leaving st"
  by (simp_all add: kc_write_to_def)

text \<open>An answer that is no acknowledgement, such as the refusal \<open>hand_accept\<close> sends when it has no identifier, ends \<open>co_connect\<close> and with it the
  timeout, and \<open>disconnect\<close> does nothing before the connection stands: nothing is ever reported of this socket, unless somebody stops it.\<close>

lemma normal_for_ever:
  assumes "kc_state st = Kcp_normal" "\<not> kc_connecting st" "kc_leaving st = None" "\<forall>ev \<in> set evs. \<forall>ec. ev \<noteq> Kc_stop ec"
  shows "\<exists>st'. kc_run I evs st = Some st' \<and> kc_state st' = Kcp_normal \<and> kc_reports st' = kc_reports st"
  using assms
proof (induction evs arbitrary: st)
  case (Cons ev evs)
  have "\<exists>st1. kc_step I ev st = Some st1 \<and> kc_state st1 = Kcp_normal \<and> \<not> kc_connecting st1 \<and> kc_leaving st1 = None \<and> kc_reports st1 = kc_reports st"
    using Cons.prems by (cases ev) (auto simp: kc_connect_error_def kc_connect_send_def kc_connect_ack_def kc_timeout_def kc_receive_def kc_watch_def
        kc_update_def kc_write_def kc_disconnect_sent_def split: option.splits)
  then obtain st1 where "kc_step I ev st = Some st1" "kc_state st1 = Kcp_normal" "\<not> kc_connecting st1" "kc_leaving st1 = None" "kc_reports st1 = kc_reports st" by blast
  then show ?case using Cons.IH [of st1] Cons.prems(4) by auto
qed simp

theorem refused_connection_hangs:
  assumes "kc_state st = Kcp_normal" "kc_connecting st" "kc_leaving st = None" "\<not> kcp_magic_ok data \<or> \<not> has_code data Kcp_connect_ack"
    and "\<forall>ev \<in> set evs. \<forall>ec. ev \<noteq> Kc_stop ec"
  shows "\<exists>st'. kc_run I (Kc_ack now data len # evs) st = Some st' \<and> kc_state st' = Kcp_normal \<and> kc_reports st' = kc_reports st"
proof -
  have a: "kc_connect_ack I now data len st = st\<lparr>kc_connecting := False\<rparr>" using assms(1,2,4) by (simp add: kc_connect_ack_def kc_disconnect_def)
  show ?thesis using normal_for_ever [of "st\<lparr>kc_connecting := False\<rparr>" evs I] assms(1,3,5) by (simp add: a)
qed

theorem refused_connection_hangs_witness:
  "\<exists>st'. kc_run (I :: unit ikcp) [Kc_ack 0 (make_kcp_ctrl Kcp_disconnect 0 @ []) 8, Kc_timeout (Other_error 110)] kcp_client_start = Some st' \<and> kc_reports st' = []"
  using refused_connection_hangs [of "kcp_client_start :: unit kcp_client" "make_kcp_ctrl Kcp_disconnect 0 @ []" "[Kc_timeout (Other_error 110)]" I 0 8]
    make_kcp_simps(3) [of Kcp_disconnect 0 "[]" Kcp_connect_ack] by (auto simp: kcp_client_start_def)

section \<open>What the socket system is told\<close>

definition kc_lifecycle :: "kcp_report list \<Rightarrow> bool" where
  "kc_lifecycle rs \<longleftrightarrow> (\<exists>ms ec. rs = [] \<or> rs = [Kcp_stopped ec] \<or> rs = Kcp_started # map Kcp_read ms \<or> rs = Kcp_started # map Kcp_read ms @ [Kcp_stopped ec])"

text \<open>The reports in each state; a client on its way out has a coroutine that will stop it.\<close>

definition kc_inv :: "'k kcp_client \<Rightarrow> bool" where
  "kc_inv st \<longleftrightarrow> (case kc_state st of
       Kcp_normal \<Rightarrow> kc_reports st = [] \<and> kc_leaving st = None
     | Kcp_connected \<Rightarrow> (\<exists>ms. kc_reports st = Kcp_started # map Kcp_read ms) \<and> kc_leaving st = None \<and> \<not> kc_connecting st
     | Kcp_close_wait \<Rightarrow> (\<exists>ms. kc_reports st = Kcp_started # map Kcp_read ms) \<and> kc_leaving st \<noteq> None \<and> \<not> kc_connecting st
     | Kcp_closed \<Rightarrow> (\<exists>ms ec. kc_reports st = [Kcp_stopped ec] \<or> kc_reports st = Kcp_started # map Kcp_read ms @ [Kcp_stopped ec]))"

lemma kc_inv_disconnect [simp]: "kc_inv st \<Longrightarrow> kc_inv (kc_disconnect ec st)"
  by (auto simp: kc_inv_def kc_disconnect_def split: kcp_state.splits)

lemma kc_inv_stop [simp]: "kc_inv st \<Longrightarrow> kc_inv (kc_stop ec st)"
  by (auto simp: kc_inv_def kc_stop_def split: kcp_state.splits)

lemma kc_inv_irrelevant [simp]: "kc_inv (st\<lparr>kc_last_read := a\<rparr>) = kc_inv st" "kc_inv (st\<lparr>kc_last_write := a\<rparr>) = kc_inv st" "kc_inv (st\<lparr>kc_out := o1\<rparr>) = kc_inv st"
  "kc_inv (st\<lparr>kc_force := f\<rparr>) = kc_inv st" "kc_inv (st\<lparr>kc_queue := q\<rparr>) = kc_inv st" "kc_inv (st\<lparr>kc_next_update := a\<rparr>) = kc_inv st"
  "kc_inv (st\<lparr>kc_kcp := k\<rparr>) = kc_inv st" "kc_inv (kc_write_to d st) = kc_inv st"
  by (simp_all add: kc_inv_def kc_write_to_def split: kcp_state.split)

lemma kc_inv_not_connecting [simp]: "kc_inv st \<Longrightarrow> kc_inv (st\<lparr>kc_connecting := False\<rparr>)"
  by (auto simp: kc_inv_def split: kcp_state.splits)

lemma kc_inv_write_base: "kc_inv st \<Longrightarrow> kc_inv (snd (kc_write_base I ptr st))"
  by (auto simp: kc_write_base_def Let_def split: option.splits prod.splits)

lemma kc_inv_write_all: "kc_inv st \<Longrightarrow> kc_inv (snd (kc_write_all I ptrs st))"
proof (induction ptrs arbitrary: st)
  case (Cons ptr ptrs)
  obtain ok st1 where e: "kc_write_base I ptr st = (ok, st1)" by fastforce
  then have "kc_inv st1" using kc_inv_write_base [of st I ptr] Cons.prems by simp
  then show ?case using Cons.IH e by (cases ok) auto
qed simp

lemma kc_inv_ack:
  assumes "kc_inv st" "kc_state st \<noteq> Kcp_closed"
  shows "kc_inv (kc_connect_ack I now data len st)"
proof (cases "kc_connecting st")
  case True
  then have n: "kc_state st = Kcp_normal" "kc_reports st = []" "kc_leaving st = None" using assms by (auto simp: kc_inv_def split: kcp_state.splits)
  let ?st = "st\<lparr>kc_connecting := False, kc_kcp := Some (ik_create I (ctrl_conv data)), kc_conv := ctrl_conv data, kc_state := Kcp_connected, kc_reports := [Kcp_started]\<rparr>"
  have "kc_inv ?st" using n by (simp add: kc_inv_def)
  then have "kc_inv (snd (kc_write_all I (kc_queue st) ?st))" by (rule kc_inv_write_all)
  then show ?thesis using True n assms(1) by (auto simp: kc_connect_ack_def Let_def split: prod.splits bool.splits)
qed (use assms in \<open>simp add: kc_connect_ack_def\<close>)

lemma kc_inv_receive:
  assumes "kc_inv st" "kc_receive I now ec data len st = Some st'"
  shows "kc_inv st'"
proof -
  have r: "kc_inv (st\<lparr>kc_kcp := k, kc_reports := kc_reports st @ map Kcp_read ms\<rparr>)" if c: "kc_state st = Kcp_connected" for k ms
  proof -
    obtain ms0 where "kc_reports st = Kcp_started # map Kcp_read ms0" using assms(1) c by (auto simp: kc_inv_def)
    then have "kc_reports st @ map Kcp_read ms = Kcp_started # map Kcp_read (ms0 @ ms)" by simp
    then show ?thesis using assms(1) c unfolding kc_inv_def by (simp del: map_append) blast
  qed
  then show ?thesis using assms
    by (auto simp: kc_receive_def Let_def bind_eq_Some_conv split: if_splits option.splits)
qed

lemma kc_inv_step:
  assumes "kc_inv st" "kc_step I ev st = Some st'" "\<forall>now data len. ev = Kc_ack now data len \<longrightarrow> kc_state st \<noteq> Kcp_closed"
  shows "kc_inv st'"
proof (cases ev)
  case (Kc_ack now data len)
  then show ?thesis using assms kc_inv_ack by auto
next
  case (Kc_recv now ec data len)
  then show ?thesis using assms(1,2) kc_inv_receive by auto
next
  case Kc_disconnect_sent
  have "kc_inv (kc_stop ec (st\<lparr>kc_leaving := None, kc_out := out\<rparr>))" if "kc_leaving st = Some ec" for ec out
    using assms(1) that by (auto simp: kc_inv_def kc_stop_def split: kcp_state.splits)
  then show ?thesis using assms(1,2) Kc_disconnect_sent by (auto simp: kc_disconnect_sent_def split: option.splits)
next
  case (Kc_write ptr)
  then show ?thesis using assms(1,2) kc_inv_write_base [of st I ptr] by (auto simp: kc_write_def split: if_splits prod.splits)
qed (use assms(1,2) in \<open>auto simp: kc_connect_error_def kc_connect_send_def kc_timeout_def kc_watch_def kc_update_def Let_def split: if_splits option.splits prod.splits\<close>)

text \<open>No answer to a connection request is handled by a client that was stopped meanwhile.\<close>

fun no_late_ack :: "'k ikcp \<Rightarrow> kc_event list \<Rightarrow> 'k kcp_client \<Rightarrow> bool" where
  "no_late_ack I [] st = True"
| "no_late_ack I (ev # evs) st = ((case ev of Kc_ack now data len \<Rightarrow> kc_state st \<noteq> Kcp_closed | _ \<Rightarrow> True)
     \<and> (case kc_step I ev st of None \<Rightarrow> True | Some st \<Rightarrow> no_late_ack I evs st))"

lemma kc_inv_run: "kc_run I evs st = Some st' \<Longrightarrow> no_late_ack I evs st \<Longrightarrow> kc_inv st \<Longrightarrow> kc_inv st'"
proof (induction evs arbitrary: st)
  case (Cons ev evs)
  then obtain st1 where s: "kc_step I ev st = Some st1" "kc_run I evs st1 = Some st'" by (auto simp: bind_eq_Some_conv)
  have "kc_inv st1" using kc_inv_step [OF Cons.prems(3) s(1)] Cons.prems(2) by (auto split: kc_event.splits)
  then show ?case using Cons.IH [OF s(2)] Cons.prems(2) s(1) by simp
qed simp

text \<open>C11: In every run in which the server's answer to the handshake is not handled after the client was stopped, a client tells the socket system that it has started
  at most once, hands over what it reads only after that, and stops at most once, with nothing after it; and when it has begun to close it has a coroutine that will stop it.
  Without the condition this is false: a client that is stopped while it waits for the answer reports that it has stopped and then that it has started.\<close>

theorem kcp_client_lifecycle:
  assumes "kc_run I evs kcp_client_start = Some st" "no_late_ack I evs kcp_client_start"
  shows "kc_lifecycle (kc_reports st) \<and> (kc_state st = Kcp_close_wait \<longrightarrow> (\<exists>ec. kc_reports (kc_disconnect_sent st) = kc_reports st @ [Kcp_stopped ec]))"
proof -
  have "kc_inv kcp_client_start" by (simp add: kc_inv_def kcp_client_start_def)
  then have i: "kc_inv st" using kc_inv_run [OF assms] by blast
  then have "kc_lifecycle (kc_reports st)" unfolding kc_inv_def kc_lifecycle_def by (auto split: kcp_state.splits)
  then show ?thesis using i by (auto simp: kc_inv_def kc_disconnect_sent_def kc_stop_def)
qed

theorem kcp_client_lifecycle_witness:
  "\<forall>I. \<exists>st. kc_run I [Kc_connect_send, Kc_timeout (Other_error 110), Kc_write [1]] kcp_client_start = Some st \<and> kc_lifecycle (kc_reports (st :: unit kcp_client))"
proof
  fix I :: "unit ikcp"
  obtain st where st: "kc_run I [Kc_connect_send, Kc_timeout (Other_error 110), Kc_write [1]] (kcp_client_start :: unit kcp_client) = Some st" by simp
  then show "\<exists>st. kc_run I [Kc_connect_send, Kc_timeout (Other_error 110), Kc_write [1]] kcp_client_start = Some st \<and> kc_lifecycle (kc_reports (st :: unit kcp_client))" using kcp_client_lifecycle [OF st] by simp
qed

text \<open>The answer that arrives together with a stop: a stopped client connects after all.\<close>

theorem stopped_client_connects:
  "\<exists>st. kc_run I [Kc_connect_send, Kc_stop ec, Kc_ack now (make_kcp_ctrl Kcp_connect_ack i @ []) 8] kcp_client_start = Some st
     \<and> kc_reports st = [Kcp_stopped ec, Kcp_started] \<and> kc_state st = Kcp_connected"
  using make_kcp_simps(2-4) [of Kcp_connect_ack i "[]"]
  by (simp add: kc_connect_send_def kc_stop_def kc_connect_ack_def kcp_head_size_def kc_write_to_def Let_def kcp_client_start_def)

section \<open>Heartbeats\<close>

text \<open>After every turn of the watchdog of a connection, of a client or of a session: it gives up exactly when nothing was read for 20 seconds; otherwise its timer goes off
  later than now, in time to see that, and no later than 10 seconds after the last datagram that was sent.\<close>

theorem kcp_watchdog_bounds:
  assumes "kc_state st = Kcp_connected" "kc_watch now st = (expires, st')"
  shows "(expires = None \<longleftrightarrow> kc_last_read st + kcp_alive_timeout \<le> now)
    \<and> (expires = None \<longrightarrow> kc_leaving st' = Some (Socket_error Kcp_heartbeat_timeout))
    \<and> (\<forall>t. expires = Some t \<longrightarrow> st' = (if kc_last_write st + kcp_heartbeat_timeout \<le> now
             then (kc_write_to (make_kcp_ctrl Kcp_heartbeat (kc_conv st)) st)\<lparr>kc_last_write := now\<rparr> else st)
         \<and> now < t \<and> t \<le> kc_last_read st + kcp_alive_timeout \<and> t \<le> kc_last_write st' + kcp_heartbeat_timeout)"
  using assms by (auto simp: kc_watch_def kcp_watch_def Let_def kc_disconnect_def kcp_heartbeat_timeout_def split: if_splits)

theorem kcp_watchdog_bounds_witness:
  "\<exists>t st'. kc_watch 1 ((kcp_client_start :: unit kcp_client)\<lparr>kc_state := Kcp_connected\<rparr>) = (Some t, st') \<and> 1 < t \<and> t \<le> 10 * 10 ^ 9"
proof -
  let ?st = "(kcp_client_start :: unit kcp_client)\<lparr>kc_state := Kcp_connected\<rparr>"
  obtain e st' where e: "kc_watch 1 ?st = (e, st')" by fastforce
  have "kc_state ?st = Kcp_connected" by simp
  from kcp_watchdog_bounds [OF this e] e show ?thesis by (cases e) (auto simp: kcp_client_start_def kcp_alive_timeout_def kcp_heartbeat_timeout_def)
qed

section \<open>Sessions do not disturb each other\<close>

lemma ks_set_sessions [simp]: "kv_sessions (ks_set i s sv) = (kv_sessions sv)(i \<mapsto> s)" "kv_reports (ks_set i s sv) = kv_reports sv" "kv_id (ks_set i s sv) = kv_id sv"
  by (simp_all add: ks_set_def)

lemma kv_write_to_simps [simp]: "kv_sessions (kv_write_to r d sv) = kv_sessions sv" "kv_reports (kv_write_to r d sv) = kv_reports sv"
  by (simp_all add: kv_write_to_def)

lemma kv_news_simps [simp]: "kv_sessions (kv_news i n sv) = kv_sessions sv" "kv_reports (kv_news i n sv) = kv_reports sv @ [(i, n)]"
  by (simp_all add: kv_news_def)

lemma fold_news [simp]: "kv_sessions (fold (\<lambda>m. kv_news i (f m)) ms sv) = kv_sessions sv"
  "kv_reports (fold (\<lambda>m. kv_news i (f m)) ms sv) = kv_reports sv @ map (\<lambda>m. (i, f m)) ms"
  by (induction ms arbitrary: sv) simp_all

definition same_session :: "u32 \<Rightarrow> ('r, 'k) kcp_server \<Rightarrow> ('r, 'k) kcp_server \<Rightarrow> bool" where
  "same_session j sv sv' \<longleftrightarrow> kv_sessions sv' j = kv_sessions sv j \<and> filter (\<lambda>r. fst r = j) (kv_reports sv') = filter (\<lambda>r. fst r = j) (kv_reports sv)"

lemma ks_stop_other: "j \<noteq> i \<Longrightarrow> same_session j sv sv' \<Longrightarrow> same_session j sv (ks_stop i ec sv')"
  by (simp add: same_session_def ks_stop_def Let_def split: option.splits)

lemma ks_read_other:
  assumes "ks_read I now i data len sv = Some sv'" "j \<noteq> i"
  shows "same_session j sv sv'"
proof -
  have s: "same_session j sv (ks_stop i ec (fold (\<lambda>m. kv_news i (f m)) ms (ks_set i s sv)))" for ec ms s and f :: "byte list \<Rightarrow> kcp_news"
    using assms(2) by (intro ks_stop_other) (auto simp: same_session_def filter_empty_conv)
  have t: "same_session j sv (ks_stop i ec sv)" for ec using assms(2) by (intro ks_stop_other) (auto simp: same_session_def)
  have u: "same_session j sv (ks_set i s (fold (\<lambda>m. kv_news i (f m)) ms (ks_set i s' sv)))" for ms s s' and f :: "byte list \<Rightarrow> kcp_news"
    using assms(2) by (auto simp: same_session_def filter_empty_conv)
  have v: "same_session j sv (kv_write_to r d (ks_set i s sv))" "same_session j sv (ks_set i s sv)" "same_session j sv sv" for r d s
    using assms(2) by (simp_all add: same_session_def)
  show ?thesis using assms(1) s t u v by (auto simp: ks_read_def bind_eq_Some_conv Let_def split: option.splits if_splits)
qed

text \<open>A datagram, well formed or not, changes at most the session whose identifier it carries, or adds a session under the new identifier; every other one keeps its state, and
  nothing is reported of it.\<close>

theorem kcp_sessions_apart:
  assumes "kv_receive I now new_id remote data len sv = Some sv'" "j \<noteq> new_id" "j \<noteq> kv_id sv"
    and "j \<noteq> (if has_code data Kcp_data then ik_getconv I (drop kcp_head_size data) else ctrl_conv data)"
  shows "same_session j sv sv'"
  using assms ks_read_other [of I now _ data len sv sv' j]
  by (auto simp: kv_receive_def kv_accept_def ks_start_def Let_def same_session_def split: if_splits)

theorem kcp_sessions_apart_witness:
  "\<exists>sv'. kv_receive (I :: unit ikcp) 0 5 () (make_kcp_ctrl Kcp_connect 0 @ []) 8 (kcp_server_start 2) = Some sv' \<and> same_session 7 (kcp_server_start 2) sv'"
proof -
  let ?d = "make_kcp_ctrl Kcp_connect 0 @ []"
  have c: "\<not> has_code ?d Kcp_data" "has_code ?d Kcp_connect" "kcp_magic_ok ?d" "ctrl_conv ?d = 0" by (simp_all only: make_kcp_simps) simp
  then obtain sv' where sv: "kv_receive I 0 5 () ?d 8 (kcp_server_start 2) = Some sv'" unfolding kv_receive_def by (simp add: kcp_head_size_def)
  from kcp_sessions_apart [OF sv, of 7] c(1,4) have "same_session 7 (kcp_server_start 2) sv'" by (simp only: if_False) (simp add: kcp_server_start_def)
  then show ?thesis using sv by blast
qed

text \<open>The sender's address is not looked at: anybody who knows or guesses the identifier of a session can end it.\<close>

theorem anybody_ends_session:
  assumes "kv_sessions sv i = Some s" "remote \<noteq> ks_remote s"
  shows "\<exists>sv'. kv_receive I now new_id remote (make_kcp_ctrl Kcp_disconnect i @ []) 8 sv = Some sv' \<and> kv_sessions sv' i = None
    \<and> kv_reports sv' = kv_reports sv @ [(i, Session_news (Kcp_stopped Asio_eof))]"
proof -
  have "kv_receive I now new_id remote (make_kcp_ctrl Kcp_disconnect i @ []) 8 sv = ks_read I now i (make_kcp_ctrl Kcp_disconnect i @ []) 8 sv"
    unfolding kv_receive_def by (simp only: make_kcp_simps) (simp add: kcp_head_size_def)
  also have "\<dots> = Some (ks_stop i Asio_eof sv)" unfolding ks_read_def using assms(1) by (simp only: make_kcp_simps) simp
  finally show ?thesis using assms(1) by (simp add: ks_stop_def Let_def)
qed

end
