(* ===== verification/Kcp_Stream.thy ===== *)
theory Kcp_Stream
  imports Kcp_Socket
begin

text \<open>
  What a client of \<open>Kcp_Socket\<close> hands to the socket system, given what the KCP library promises: the bytes the other side wrote, in order, whatever datagrams arrive.
\<close>

section \<open>The stream of bytes\<close>









text \<open>What the client has handed over, and how it goes with what has arrived.\<close>

fun read_of :: "kcp_report \<Rightarrow> byte list option" where
  "read_of (Kcp_read m) = Some m"
| "read_of _ = None"

definition reads_of :: "kcp_report list \<Rightarrow> byte list list" where
  "reads_of rs = List.map_filter read_of rs"

abbreviation kc_reads :: "'k kcp_client \<Rightarrow> byte list list" where
  "kc_reads st \<equiv> reads_of (kc_reports st)"

lemma reads_of_simps [simp]: "reads_of (rs @ [Kcp_stopped ec]) = reads_of rs" "reads_of (rs @ [Kcp_started]) = reads_of rs"
  "reads_of (rs @ map Kcp_read ms) = reads_of rs @ ms"
  by (simp_all add: reads_of_def map_filter_def o_def)




lemma kc_reads_stop [simp]: "kc_reads (kc_stop ec st) = kc_reads st"
  by (simp add: kc_stop_def)

















end
