(* ===== verification/Tcp_Socket.thy ===== *)
theory Tcp_Socket
  imports Net_Stream Outbox
begin

text \<open>
  Sockets over TCP and TLS (\<open>tcp_client_impl.cpp\<close>, \<open>tcp_session_impl.cpp\<close>, \<open>tcp_server_impl.cpp\<close> of \<open>runtime/src/net/impl\<close>, and the \<open>ssl_\<close> files, which differ from them
  by the handshake and the certificates).  What asio and OpenSSL do is in the arguments of the steps: one step for every operation that ends.  What goes onto the wire and what the socket
  system is told are logs of the state.
\<close>

section \<open>State\<close>

text \<open>The coroutine of \<open>start\<close> (\<open>co_connect || co_timeout\<close>), and the coroutine \<open>co_write\<close>: not started, waiting for the timer \<open>write_blocker_\<close>, woken, with
  buffers handed to \<open>async_write\<close>, ended.\<close>

datatype connect_phase = Ph_resolving | Ph_connecting | Ph_handshaking | Ph_done

datatype stream_writer = W_idle | W_blocked | W_woken | W_flight "byte list list" | W_ended

datatype stream_report = St_started | St_accepted u32 | St_read "byte list" | St_stopped error_code

record stream_socket =
  tc_ssl :: bool
  tc_open :: bool
  tc_phase :: connect_phase
  tc_reading :: bool
  tc_writer :: stream_writer
  tc_queue :: "byte list list"
  tc_wire :: "byte list"
  tc_trace_queue :: int
  tc_trace_write :: int
  tc_reports :: "stream_report list"

definition stream_client :: "bool \<Rightarrow> stream_socket" where
  "stream_client ssl = \<lparr>tc_ssl = ssl, tc_open = False, tc_phase = Ph_resolving, tc_reading = False, tc_writer = W_idle, tc_queue = [], tc_wire = [],
     tc_trace_queue = 0, tc_trace_write = 0, tc_reports = []\<rparr>"

section \<open>Stopping and writing\<close>

definition tc_stop :: "error_code \<Rightarrow> stream_socket \<Rightarrow> stream_socket" where
  "tc_stop ec st = (if \<not> tc_open st then st
     else st\<lparr>tc_open := False, tc_writer := (if tc_writer st = W_blocked then W_woken else tc_writer st), tc_reports := tc_reports st @ [St_stopped ec]\<rparr>)"

definition tc_write :: "byte list \<Rightarrow> stream_socket \<Rightarrow> stream_socket" where
  "tc_write ptr st = st\<lparr>tc_trace_queue := tc_trace_queue st + int (length ptr), tc_queue := tc_queue st @ [ptr],
     tc_writer := (if tc_writer st = W_blocked then W_woken else tc_writer st)\<rparr>"

text \<open>\<open>co_write\<close>: collecting at most \<open>max_buffers\<close> buffers, the head of the loop, and what follows the wait and the write.  The error of the write is not looked at.\<close>

definition co_write_send :: "nat \<Rightarrow> stream_socket \<Rightarrow> stream_socket" where
  "co_write_send max_buffers st = st\<lparr>tc_writer := W_flight (take max_buffers (tc_queue st)), tc_queue := drop max_buffers (tc_queue st)\<rparr>"

definition co_write_loop :: "nat \<Rightarrow> stream_socket \<Rightarrow> stream_socket" where
  "co_write_loop max_buffers st =
     (if \<not> tc_open st then st\<lparr>tc_writer := W_ended\<rparr>
      else if tc_queue st = [] then st\<lparr>tc_writer := W_blocked\<rparr> else co_write_send max_buffers st)"

definition co_write_woken :: "nat \<Rightarrow> stream_socket \<Rightarrow> stream_socket" where
  "co_write_woken max_buffers st = (if tc_writer st \<noteq> W_woken then st
     else if \<not> tc_open st then st\<lparr>tc_writer := W_ended\<rparr> else co_write_send max_buffers st)"

definition co_write_done :: "nat \<Rightarrow> nat \<Rightarrow> stream_socket \<Rightarrow> stream_socket" where
  "co_write_done max_buffers len st = (case tc_writer st of
     W_flight bufs \<Rightarrow> co_write_loop max_buffers (st\<lparr>tc_wire := tc_wire st @ take len (concat bufs),
       tc_trace_queue := tc_trace_queue st - int len, tc_trace_write := tc_trace_write st + int len\<rparr>)
   | _ \<Rightarrow> st)"

section \<open>Reading and connecting\<close>

definition co_read_some :: "error_code \<Rightarrow> byte list \<Rightarrow> stream_socket \<Rightarrow> stream_socket" where
  "co_read_some ec data st = (if \<not> tc_reading st then st
     else if ec_true ec \<or> data = [] then tc_stop ec (st\<lparr>tc_reading := False\<rparr>)
     else st\<lparr>tc_reports := tc_reports st @ [St_read data]\<rparr>)"

text \<open>\<open>async_connect\<close> opens the socket; before that there is none.\<close>

definition co_resolved :: "error_code \<Rightarrow> stream_socket \<Rightarrow> stream_socket" where
  "co_resolved ec st = (if tc_phase st \<noteq> Ph_resolving then st
     else if ec_true ec then tc_stop ec (st\<lparr>tc_phase := Ph_done\<rparr>) else st\<lparr>tc_phase := Ph_connecting, tc_open := True\<rparr>)"

definition co_started :: "nat \<Rightarrow> stream_socket \<Rightarrow> stream_socket" where
  "co_started max_buffers st = co_write_loop max_buffers (st\<lparr>tc_phase := Ph_done, tc_reports := tc_reports st @ [St_started], tc_reading := True\<rparr>)"

definition co_connected :: "nat \<Rightarrow> error_code \<Rightarrow> stream_socket \<Rightarrow> stream_socket" where
  "co_connected max_buffers ec st = (if tc_phase st \<noteq> Ph_connecting then st
     else if ec_true ec then tc_stop ec (st\<lparr>tc_phase := Ph_done\<rparr>)
     else if tc_ssl st then st\<lparr>tc_phase := Ph_handshaking\<rparr> else co_started max_buffers st)"

definition co_client_handshake :: "nat \<Rightarrow> error_code \<Rightarrow> stream_socket \<Rightarrow> stream_socket" where
  "co_client_handshake max_buffers ec st = (if tc_phase st \<noteq> Ph_handshaking then st
     else if ec_true ec then tc_stop ec (st\<lparr>tc_phase := Ph_done\<rparr>) else co_started max_buffers st)"

definition co_timeout :: "error_code \<Rightarrow> stream_socket \<Rightarrow> stream_socket" where
  "co_timeout timed_out st = (if tc_phase st = Ph_done then st else tc_stop timed_out (st\<lparr>tc_phase := Ph_done\<rparr>))"

text \<open>\<open>ssl_client_impl::start\<close> with the results of \<open>set_verify_mode\<close>, of loading the certificates and of \<open>set_verify_callback\<close>: \<open>co_connect\<close> does not begin when one of them fails.\<close>

definition ssl_client_begin :: "error_code \<Rightarrow> error_code \<Rightarrow> error_code \<Rightarrow> stream_socket" where
  "ssl_client_begin mode verify callback =
     (let st = (stream_client True)\<lparr>tc_phase := Ph_done\<rparr>
      in if ec_true mode then tc_stop mode st
         else if ec_true verify then tc_stop verify st
         else if ec_true callback then tc_stop callback st
         else stream_client True)"

section \<open>Sessions and servers\<close>

text \<open>A session begins with an open socket; one over TLS is announced after its handshake.  \<open>accept\<close> starts its coroutines.\<close>

definition session_start :: "u32 \<Rightarrow> stream_socket" where
  "session_start acceptor_id = (stream_client False)\<lparr>tc_open := True, tc_phase := Ph_done, tc_reports := [St_accepted acceptor_id]\<rparr>"

definition ssl_session_start :: stream_socket where
  "ssl_session_start = (stream_client True)\<lparr>tc_open := True, tc_phase := Ph_handshaking\<rparr>"

definition co_handshake :: "u32 \<Rightarrow> error_code \<Rightarrow> stream_socket \<Rightarrow> stream_socket" where
  "co_handshake acceptor_id ec st = (if tc_phase st \<noteq> Ph_handshaking then st
     else if ec_true ec then tc_stop ec (st\<lparr>tc_phase := Ph_done\<rparr>)
     else st\<lparr>tc_phase := Ph_done, tc_reports := tc_reports st @ [St_accepted acceptor_id]\<rparr>)"

definition session_accept :: "nat \<Rightarrow> stream_socket \<Rightarrow> stream_socket" where
  "session_accept max_buffers st = co_write_loop max_buffers (st\<lparr>tc_reading := True\<rparr>)"

text \<open>The servers: whether the acceptor is open, the sessions that were started, and the reports.\<close>

record stream_server =
  sv_open :: bool
  sv_sessions :: "u32 list"
  sv_reports :: "stream_report list"

definition server_new :: stream_server where
  "server_new = \<lparr>sv_open = False, sv_sessions = [], sv_reports = []\<rparr>"

definition server_stop :: "error_code \<Rightarrow> stream_server \<Rightarrow> stream_server" where
  "server_stop ec sv = (if \<not> sv_open sv then sv else sv\<lparr>sv_open := False, sv_reports := sv_reports sv @ [St_stopped ec]\<rparr>)"

definition tcp_server_start :: "error_code \<Rightarrow> error_code \<Rightarrow> error_code \<Rightarrow> error_code \<Rightarrow> stream_server" where
  "tcp_server_start opened option bound listening =
     (if ec_true opened then server_stop opened server_new
      else let sv = server_new\<lparr>sv_open := True\<rparr>
           in if ec_true option then server_stop option sv
              else if ec_true bound then server_stop bound sv
              else if ec_true listening then server_stop listening sv
              else sv\<lparr>sv_reports := [St_started]\<rparr>)"

text \<open>The five results of preparing the TLS context come first.\<close>

definition ssl_server_start :: "error_code list \<Rightarrow> error_code \<Rightarrow> error_code \<Rightarrow> error_code \<Rightarrow> error_code \<Rightarrow> stream_server" where
  "ssl_server_start context opened option bound listening = (case filter ec_true context of
     ec # _ \<Rightarrow> server_stop ec server_new
   | [] \<Rightarrow> tcp_server_start opened option bound listening)"

text \<open>\<open>co_accept\<close>: whether a socket came out, and the identifier \<open>new_socket_id\<close> gives.\<close>

definition server_accept :: "bool \<Rightarrow> u32 \<Rightarrow> stream_server \<Rightarrow> stream_server" where
  "server_accept is_open new_id sv = (if sv_open sv \<and> is_open \<and> new_id \<noteq> 0 then sv\<lparr>sv_sessions := sv_sessions sv @ [new_id]\<rparr> else sv)"

section \<open>Writing\<close>

fun in_flight :: "stream_writer \<Rightarrow> byte list list" where
  "in_flight (W_flight bufs) = bufs"
| "in_flight _ = []"

text \<open>\<open>q\<close>: all that was written.  The writer never sleeps while something is queued.\<close>

definition tc_sent :: "stream_socket \<Rightarrow> byte list list \<Rightarrow> bool" where
  "tc_sent st q \<longleftrightarrow> concat q = tc_wire st @ concat (in_flight (tc_writer st)) @ concat (tc_queue st)
     \<and> tc_trace_queue st = int (length (concat (in_flight (tc_writer st)))) + int (length (concat (tc_queue st)))
     \<and> (tc_writer st = W_blocked \<longrightarrow> tc_queue st = [])"

text \<open>A write that succeeds writes all of its buffers.\<close>

definition co_write_ok :: "nat \<Rightarrow> stream_socket \<Rightarrow> stream_socket" where
  "co_write_ok max_buffers st = co_write_done max_buffers (length (concat (in_flight (tc_writer st)))) st"

lemma take_drop_concat: "concat (take n xs) @ concat (drop n xs) = concat xs"
  by (metis append_take_drop_id concat_append)

lemma length_take_drop_concat: "length (concat (take n xs)) + length (concat (drop n xs)) = length (concat xs)"
  by (metis take_drop_concat length_append)

lemma tc_sent_write: "tc_sent st q \<Longrightarrow> tc_sent (tc_write m st) (q @ [m])"
  by (cases "tc_writer st") (auto simp: tc_sent_def tc_write_def)

lemma tc_sent_send: "tc_sent st q \<Longrightarrow> in_flight (tc_writer st) = [] \<Longrightarrow> tc_sent (co_write_send n st) q"
  using length_take_drop_concat [of n "tc_queue st"] by (auto simp: tc_sent_def co_write_send_def take_drop_concat simp flip: of_nat_add)

lemma tc_sent_loop: "tc_sent st q \<Longrightarrow> in_flight (tc_writer st) = [] \<Longrightarrow> tc_sent (co_write_loop n st) q"
  using tc_sent_send [of st q n] by (auto simp: co_write_loop_def) (auto simp: tc_sent_def)

lemma tc_sent_woken: "tc_sent st q \<Longrightarrow> tc_sent (co_write_woken n st) q"
  using tc_sent_send [of st q n] by (auto simp: co_write_woken_def) (auto simp: tc_sent_def)

lemma tc_sent_done: "tc_sent st q \<Longrightarrow> tc_sent (co_write_ok n st) q"
proof (cases "tc_writer st")
  case (W_flight bufs)
  assume s: "tc_sent st q"
  let ?l = "length (concat bufs)"
  let ?st = "st\<lparr>tc_wire := tc_wire st @ concat bufs, tc_trace_queue := tc_trace_queue st - int ?l, tc_trace_write := tc_trace_write st + int ?l\<rparr>"
  have "tc_sent (?st\<lparr>tc_writer := W_idle\<rparr>) q" using s W_flight by (simp add: tc_sent_def)
  then have "tc_sent (co_write_loop n (?st\<lparr>tc_writer := W_idle\<rparr>)) q" by (rule tc_sent_loop) simp
  moreover have "co_write_loop n (?st\<lparr>tc_writer := W_idle\<rparr>) = co_write_loop n ?st" by (simp add: co_write_loop_def co_write_send_def)
  ultimately show ?thesis using W_flight by (simp add: co_write_ok_def co_write_done_def)
qed (simp_all add: co_write_ok_def co_write_done_def)

lemma tc_sent_stop: "tc_sent st q \<Longrightarrow> tc_sent (tc_stop ec st) q"
  by (cases "tc_writer st") (auto simp: tc_stop_def tc_sent_def)

lemma tc_sent_read: "tc_sent st q \<Longrightarrow> tc_sent (co_read_some ec data st) q"
proof -
  assume s: "tc_sent st q"
  then have "tc_sent (st\<lparr>tc_reading := False\<rparr>) q" by (simp add: tc_sent_def)
  then show ?thesis using s tc_sent_stop by (auto simp: co_read_some_def) (simp add: tc_sent_def)
qed

interpretation tcp_writer: outbox tc_sent "\<lambda>_. True" tc_write
  "range co_write_woken \<union> range co_write_ok \<union> range tc_stop \<union> range (\<lambda>(ec, data). co_read_some ec data)"
  by unfold_locales (auto simp: tc_sent_write tc_sent_woken tc_sent_done tc_sent_stop tc_sent_read)

text \<open>A session that was accepted, or a client that is connected, under any calls of \<open>write\<close>, writes to the network that succeed, reads and stops: the bytes on the wire, those handed to
  the network and those queued are together what was written, in order, and the traffic counter is the number of those not on the wire.\<close>

theorem tcp_bytes_in_order:
  assumes "\<forall>t. Tick t \<in> set ops \<longrightarrow> t \<in> range co_write_woken \<union> range co_write_ok \<union> range tc_stop \<union> range (\<lambda>(ec, data). co_read_some ec data)"
    and "st = outbox_run tc_write ops (session_accept n (session_start i))"
  shows "concat (written_messages ops) = tc_wire st @ concat (in_flight (tc_writer st)) @ concat (tc_queue st)
    \<and> tc_trace_queue st = int (length (concat (written_messages ops))) - int (length (tc_wire st))"
proof -
  have "tc_sent (session_accept n (session_start i)) []"
    by (simp add: tc_sent_def session_accept_def session_start_def stream_client_def co_write_loop_def)
  then have "tc_sent st ([] @ written_messages ops)" unfolding assms(2) using assms(1) by (intro tcp_writer.run_keeps_order) auto
  then show ?thesis by (simp add: tc_sent_def)
qed

theorem tcp_bytes_in_order_witness:
  "let st = outbox_run tc_write [Write [1, 2], Tick (co_write_woken 4), Write [3], Tick (co_write_ok 4)] (session_accept 4 (session_start 7))
   in [1, 2, 3] = tc_wire st @ concat (in_flight (tc_writer st)) @ concat (tc_queue st)"
proof -
  let ?ops = "[Write [1, 2], Tick (co_write_woken 4), Write [3], Tick (co_write_ok 4)]"
  have "\<forall>t. Tick t \<in> set ?ops \<longrightarrow> t \<in> range co_write_woken \<union> range co_write_ok \<union> range tc_stop \<union> range (\<lambda>(ec, data). co_read_some ec data)" by auto
  from tcp_bytes_in_order [OF this refl, of 4 7] show ?thesis by (simp add: Let_def del: outbox_run.simps)
qed

text \<open>One round of the writer: it wakes if it was woken, and the write under way, if any, succeeds.\<close>

definition co_write_round :: "nat \<Rightarrow> stream_socket \<Rightarrow> stream_socket" where
  "co_write_round n st = co_write_ok n (co_write_woken n st)"

lemma round_flight:
  assumes "tc_writer st = W_flight bufs" "tc_open st" "0 < n"
  shows "co_write_round n st = (let st' = st\<lparr>tc_wire := tc_wire st @ concat bufs, tc_trace_queue := tc_trace_queue st - int (length (concat bufs)),
     tc_trace_write := tc_trace_write st + int (length (concat bufs))\<rparr> in co_write_loop n st')"
  using assms by (simp add: co_write_round_def co_write_woken_def co_write_ok_def co_write_done_def Let_def)

lemma rounds_flight:
  assumes "tc_writer st = W_flight bufs" "tc_open st" "0 < n"
  shows "\<exists>k. tc_wire ((co_write_round n ^^ k) st) = tc_wire st @ concat bufs @ concat (tc_queue st) \<and> tc_writer ((co_write_round n ^^ k) st) = W_blocked
     \<and> tc_queue ((co_write_round n ^^ k) st) = []"
  using assms
proof (induction "length (tc_queue st)" arbitrary: st bufs rule: less_induct)
  case less
  note r = round_flight [OF less.prems(1,2) less.prems(3)]
  show ?case
  proof (cases "tc_queue st")
    case Nil
    then show ?thesis using r less.prems by (intro exI [of _ 1]) (simp add: co_write_loop_def Let_def)
  next
    case (Cons m ms)
    then have s: "tc_writer (co_write_round n st) = W_flight (take n (tc_queue st))" "tc_open (co_write_round n st)"
      "tc_queue (co_write_round n st) = drop n (tc_queue st)" "tc_wire (co_write_round n st) = tc_wire st @ concat bufs"
      using r less.prems by (simp_all add: co_write_loop_def co_write_send_def Let_def)
    then have "length (tc_queue (co_write_round n st)) < length (tc_queue st)" using Cons less.prems(3) by simp
    from less.hyps [OF this s(1,2) less.prems(3)] obtain k where
      "tc_wire ((co_write_round n ^^ k) (co_write_round n st)) = (tc_wire st @ concat bufs) @ concat (take n (tc_queue st)) @ concat (drop n (tc_queue st))"
      "tc_writer ((co_write_round n ^^ k) (co_write_round n st)) = W_blocked" "tc_queue ((co_write_round n ^^ k) (co_write_round n st)) = []" using s by auto
    then show ?thesis by (intro exI [of _ "Suc k"]) (simp add: funpow_swap1 take_drop_concat)
  qed
qed

lemma writer_drains:
  assumes "tc_sent st q" "tc_open st" "tc_writer st \<notin> {W_idle, W_ended}" "0 < n"
  shows "\<exists>k. tc_wire ((co_write_round n ^^ k) st) = concat q \<and> tc_writer ((co_write_round n ^^ k) st) = W_blocked \<and> tc_queue ((co_write_round n ^^ k) st) = []"
proof -
  consider (blocked) "tc_writer st = W_blocked" | (woken) "tc_writer st = W_woken" | (flight) bufs where "tc_writer st = W_flight bufs"
    using assms(3) by (cases "tc_writer st") auto
  then show ?thesis
  proof cases
    case blocked
    then show ?thesis using assms(1) by (intro exI [of _ 0]) (simp add: tc_sent_def)
  next
    case woken
    let ?st = "co_write_woken n st"
    have s: "tc_writer ?st = W_flight (take n (tc_queue st))" "tc_open ?st" "tc_queue ?st = drop n (tc_queue st)" "tc_wire ?st = tc_wire st"
      using woken assms(2) by (simp_all add: co_write_woken_def co_write_send_def)
    from rounds_flight [OF s(1,2) assms(4)] obtain k where k: "tc_wire ((co_write_round n ^^ k) ?st) = concat q"
      "tc_writer ((co_write_round n ^^ k) ?st) = W_blocked" "tc_queue ((co_write_round n ^^ k) ?st) = []"
      using s assms(1) woken by (auto simp: tc_sent_def take_drop_concat)
    have "co_write_round n ?st = co_write_round n st" using s(1) by (simp add: co_write_round_def co_write_woken_def [of n "co_write_woken n st"])
    moreover have "k \<noteq> 0" using k(2) s(1) by (cases k) auto
    ultimately have "(co_write_round n ^^ k) ?st = (co_write_round n ^^ k) st" by (cases k) (simp_all only: funpow_Suc_right o_apply)
    then show ?thesis using k by auto
  next
    case flight
    then show ?thesis using rounds_flight [OF flight assms(2,4)] assms(1) by (auto simp: tc_sent_def)
  qed
qed

text \<open>The writer of an open socket has neither not begun nor ended.\<close>

definition tc_alive :: "stream_socket \<Rightarrow> bool" where
  "tc_alive st \<longleftrightarrow> (tc_open st \<longrightarrow> tc_writer st \<notin> {W_idle, W_ended})"

lemma tc_alive_steps:
  assumes "tc_alive st"
  shows "tc_alive (tc_write m st)" "tc_alive (co_write_woken n st)" "tc_alive (co_write_ok n st)" "tc_alive (tc_stop ec st)" "tc_alive (co_read_some ec data st)"
  using assms
  by (auto simp: tc_alive_def tc_write_def co_write_woken_def co_write_ok_def co_write_done_def co_write_loop_def co_write_send_def tc_stop_def co_read_some_def
      split: stream_writer.splits)

interpretation tcp_alive: outbox "\<lambda>st q. tc_sent st q \<and> tc_alive st" "\<lambda>_. True" tc_write
  "range co_write_woken \<union> range co_write_ok \<union> range tc_stop \<union> range (\<lambda>(ec, data). co_read_some ec data)"
  by unfold_locales (auto simp: tc_sent_write tc_sent_woken tc_sent_done tc_sent_stop tc_sent_read tc_alive_steps)

text \<open>A session that has been accepted, and a client whose name has been resolved and that is connected.\<close>

definition accepted_session :: "nat \<Rightarrow> u32 \<Rightarrow> stream_socket" where
  "accepted_session n acceptor_id = session_accept n (session_start acceptor_id)"

definition connected_client :: "nat \<Rightarrow> stream_socket" where
  "connected_client n = co_connected n No_error (co_resolved No_error (stream_client False))"

lemma begun_sockets: "tc_sent st [] \<and> tc_alive st" if "st \<in> {accepted_session n i, connected_client n}"
  using that
  by (auto simp: accepted_session_def connected_client_def session_accept_def session_start_def stream_client_def co_write_loop_def co_connected_def co_resolved_def
      co_started_def tc_sent_def tc_alive_def)

text \<open>C12: Nothing that was written stays behind.  Take an accepted session or a connected client over TCP, and any interleaving of calls of \<open>write\<close>, wake-ups of the writer, writes to the
  network that succeed, reads and stops.  If the socket is then still open, and the writes go on to succeed, all that was written in the run is on the wire, in order, after finitely
  many rounds of the writer, and the writer sleeps with nothing queued.\<close>

theorem tcp_writer_drains:
  assumes "st0 \<in> {accepted_session m i, connected_client m}"
    and "\<forall>t. Tick t \<in> set ops \<longrightarrow> t \<in> range co_write_woken \<union> range co_write_ok \<union> range tc_stop \<union> range (\<lambda>(ec, data). co_read_some ec data)"
    and "st = outbox_run tc_write ops st0" "tc_open st" "0 < n"
  shows "\<exists>k. tc_wire ((co_write_round n ^^ k) st) = concat (written_messages ops) \<and> tc_writer ((co_write_round n ^^ k) st) = W_blocked
     \<and> tc_queue ((co_write_round n ^^ k) st) = []"
proof -
  have "tc_sent st ([] @ written_messages ops) \<and> tc_alive st"
    unfolding assms(3) using begun_sockets [OF assms(1)] assms(2) by (intro tcp_alive.run_keeps_order) auto
  then show ?thesis using writer_drains [of st "written_messages ops" n] assms(4,5) by (simp add: tc_alive_def)
qed

theorem tcp_writer_drains_witness:
  "\<exists>k. tc_wire ((co_write_round 4 ^^ k) (outbox_run tc_write [Write [1, 2], Tick (co_write_woken 1), Write [3]] (accepted_session 1 7))) = [1, 2, 3]"
proof -
  let ?ops = "[Write [1, 2], Tick (co_write_woken 1), Write [3]]"
  have "tc_open (outbox_run tc_write ?ops (accepted_session 1 7))"
    by (simp add: accepted_session_def session_accept_def session_start_def stream_client_def co_write_loop_def tc_write_def co_write_woken_def co_write_send_def)
  then show ?thesis using tcp_writer_drains [of "accepted_session 1 7" 1 7 ?ops _ 4] by auto
qed

section \<open>Failures before the socket is open\<close>

datatype tc_event = Tc_resolved error_code | Tc_connected error_code | Tc_handshake error_code | Tc_timeout error_code | Tc_read error_code "byte list"
  | Tc_woken | Tc_write_done nat | Tc_write "byte list" | Tc_stop error_code

fun tc_step :: "nat \<Rightarrow> tc_event \<Rightarrow> stream_socket \<Rightarrow> stream_socket" where
  "tc_step n (Tc_resolved ec) st = co_resolved ec st"
| "tc_step n (Tc_connected ec) st = co_connected n ec st"
| "tc_step n (Tc_handshake ec) st = co_client_handshake n ec st"
| "tc_step n (Tc_timeout ec) st = co_timeout ec st"
| "tc_step n (Tc_read ec data) st = co_read_some ec data st"
| "tc_step n Tc_woken st = co_write_woken n st"
| "tc_step n (Tc_write_done len) st = co_write_done n len st"
| "tc_step n (Tc_write ptr) st = tc_write ptr st"
| "tc_step n (Tc_stop ec) st = tc_stop ec st"

lemma silent_for_ever:
  assumes "\<not> tc_open st" "tc_phase st = Ph_done" "\<not> tc_reading st" "tc_writer st = W_idle"
  shows "tc_reports (fold (tc_step n) evs st) = tc_reports st"
  using assms
proof (induction evs arbitrary: st)
  case (Cons ev evs)
  let ?st = "tc_step n ev st"
  have "\<not> tc_open ?st" "tc_phase ?st = Ph_done" "\<not> tc_reading ?st" "tc_writer ?st = W_idle" "tc_reports ?st = tc_reports st" using Cons.prems
    by (cases ev; simp add: co_resolved_def co_connected_def co_client_handshake_def co_timeout_def co_read_some_def co_write_woken_def co_write_done_def tc_write_def tc_stop_def)+
  then show ?case using Cons.IH [of ?st] by simp
qed simp

text \<open>When the name of the host cannot be resolved, or the time runs out while it is being resolved, \<open>stop\<close> finds no open socket and returns: nothing is ever reported of
  the client, whatever happens and even if it is stopped, and the coroutine that asked for the connection waits for ever.\<close>

theorem unresolved_host_hangs:
  assumes "ec_true ec" "ev = Tc_resolved ec \<or> ev = Tc_timeout ec"
  shows "tc_reports (fold (tc_step n) (ev # evs) (stream_client ssl)) = []"
proof -
  have "tc_step n ev (stream_client ssl) = (stream_client ssl)\<lparr>tc_phase := Ph_done\<rparr>"
    using assms by (auto simp: co_resolved_def co_timeout_def tc_stop_def stream_client_def)
  then show ?thesis using silent_for_ever [of "(stream_client ssl)\<lparr>tc_phase := Ph_done\<rparr>" n evs] by (simp add: stream_client_def)
qed

theorem unresolved_host_hangs_witness:
  "tc_reports (fold (tc_step 4) [Tc_resolved (Other_error 1), Tc_timeout (Other_error 110), Tc_stop Asio_eof] (stream_client False)) = []"
  using unresolved_host_hangs [of "Other_error 1" "Tc_resolved (Other_error 1)" 4 "[Tc_timeout (Other_error 110), Tc_stop Asio_eof]" False] by simp

text \<open>The same with a certificate that cannot be loaded: a server over TLS then reports neither that it has started nor that it has stopped, where one whose port is taken does.\<close>

theorem bad_certificate_hangs:
  assumes "ec_true ec" "ec \<in> set context"
  shows "sv_reports (ssl_server_start context opened option bound listening) = [] \<and> \<not> sv_open (ssl_server_start context opened option bound listening)
    \<and> tc_reports (fold (tc_step n) evs (ssl_client_begin mode ec callback)) = []
    \<and> sv_reports (tcp_server_start No_error No_error ec listening) = [St_stopped ec]"
proof -
  have "filter ec_true context \<noteq> []" using assms by (auto simp: filter_empty_conv)
  moreover have "ssl_client_begin mode ec callback = (stream_client True)\<lparr>tc_phase := Ph_done\<rparr>"
    using assms(1) by (simp add: ssl_client_begin_def tc_stop_def stream_client_def Let_def)
  ultimately show ?thesis using silent_for_ever [of "(stream_client True)\<lparr>tc_phase := Ph_done\<rparr>" n evs] assms(1)
    by (auto simp: ssl_server_start_def server_stop_def server_new_def tcp_server_start_def Let_def stream_client_def split: list.splits)
qed

theorem bad_certificate_hangs_witness:
  "sv_reports (ssl_server_start [No_error, No_error, Other_error 2, No_error, No_error] No_error No_error No_error No_error) = []"
  using bad_certificate_hangs [of "Other_error 2" "[No_error, No_error, Other_error 2, No_error, No_error]" No_error No_error No_error No_error 4 "[]" No_error No_error] by simp

text \<open>What a client reports otherwise: a connection that is refused is reported.\<close>

lemma refused_is_reported:
  assumes "ec_true ec"
  shows "tc_reports (fold (tc_step n) [Tc_resolved No_error, Tc_connected ec] (stream_client ssl)) = [St_stopped ec]"
  using assms by (simp add: co_resolved_def co_connected_def tc_stop_def stream_client_def)

end
