(* ===== verification/Game_Client.thy ===== *)
theory Game_Client
  imports Proxy
begin

text \<open>
  The console client of the game (\<open>gobang/client/client.cpp\<close>, \<open>client.h\<close>): the connection, the coroutine \<open>logic\<close> with what it waits for as a
  program counter, the ping coroutine, the broadcasts, and the board that the player sees.  A step is one resumption of a coroutine, so that what the
  server sends can arrive in any order between them.  The parsers and printers of protobuf and the session that \<open>create_session\<close> hands out are
  arguments.  \<open>None\<close> is undefined behaviour: a square outside of the array, a coordinate that was never set, a message shorter than its header, and a
  signed overflow.
\<close>

section \<open>State\<close>

datatype pos_state = Pos_none | Pos_black | Pos_white

text \<open>What \<open>logic\<close> does once \<open>enter_room\<close> has returned: go to the head of its loop, or on to the question for a move.\<close>

datatype after_enter = To_loop | To_ask

datatype after_sleep = After_login | After_match after_enter | After_enter after_enter | After_refusal

datatype logic_pc =
    Lp_off
  | Lp_login | Lp_match after_enter | Lp_enter after_enter | Lp_move u32 u32
  | Lp_sleep after_sleep
  | Lp_turn | Lp_notified
  | Lp_input
  | Lp_again after_enter

datatype run_pc = Rn_connect | Rn_read | Rn_ask | Rn_end

datatype ping_pc = Pg_off | Pg_sleep | Pg_call u64

datatype console_text =
    Con_game "byte list" | Con_invalid | Con_ask_pos | Con_ask_again | Con_win | Con_lose | Con_draw | Con_ok | Con_reconnect

text \<open>\<open>gc_call\<close> is the session of the call that \<open>logic\<close> waits for, as long as it is in the map of waiting coroutines, and \<open>gc_answer\<close> what
  woke it.  \<open>gc_x\<close> and \<open>gc_y\<close> are the local variables of \<open>logic\<close>, \<open>None\<close> before they are set.\<close>

record game_client =
  gc_account :: "byte list"
  gc_password :: "byte list"
  gc_opponent :: "byte list"
  gc_win_count :: int
  gc_lose_count :: int
  gc_userid :: int
  gc_room :: int
  gc_my_turn :: bool
  gc_black :: bool
  gc_board :: "pos_state list"
  gc_socket :: u32
  gc_cnt_fail :: u64
  gc_run :: run_pc
  gc_logic :: logic_pc
  gc_call :: "u64 option"
  gc_answer :: "byte list option"
  gc_x :: "u32 option"
  gc_y :: "u32 option"
  gc_ping :: ping_pc
  gc_written :: "(websocket_opcode \<times> byte list) list"
  gc_closed :: "u32 list"
  gc_stopped :: bool
  gc_console :: "console_text list"

definition checkerboard_size :: u32 where
  "checkerboard_size = 15"

definition new_client :: "byte list \<Rightarrow> byte list \<Rightarrow> game_client" where
  "new_client account password = \<lparr>gc_account = account, gc_password = password, gc_opponent = [], gc_win_count = 0, gc_lose_count = 0,
     gc_userid = 0, gc_room = 0, gc_my_turn = False, gc_black = False, gc_board = replicate 225 Pos_none, gc_socket = 0, gc_cnt_fail = 0, gc_run = Rn_connect,
     gc_logic = Lp_off, gc_call = None, gc_answer = None, gc_x = None, gc_y = None, gc_ping = Pg_off, gc_written = [], gc_closed = [],
     gc_stopped = False, gc_console = []\<rparr>"

record enter_room_ack =
  er_ec :: int
  er_is_black :: bool
  er_is_my_turn :: bool
  er_opponent :: "byte list"
  er_white :: "u32 list"
  er_black :: "u32 list"

record game_proto =
  gp_login_ack :: "byte list \<Rightarrow> login_ack option"
  gp_match_ack :: "byte list \<Rightarrow> (int \<times> int) option"
  gp_enter_ack :: "byte list \<Rightarrow> enter_room_ack option"
  gp_move_ack :: "byte list \<Rightarrow> (int \<times> int) option"
  gp_move_brd :: "byte list \<Rightarrow> (u32 \<times> u32 \<times> int) option"
  gp_ping_ack :: "byte list \<Rightarrow> unit option"
  gp_login_req :: "byte list \<Rightarrow> byte list \<Rightarrow> byte list"
  gp_msg_empty :: "byte list"
  gp_move_req :: "u32 \<Rightarrow> u32 \<Rightarrow> byte list"
  gp_ping_req :: "u64 \<Rightarrow> byte list"

definition id_match_req :: u16 where "id_match_req = 0x0003"
definition id_move_brd :: u16 where "id_move_brd = 0x3005"
definition msg_s2c_ack :: u16 where "msg_s2c_ack = 0x1000"
definition msg_mask :: u16 where "msg_mask = 0xf000"
definition ec_invalid_pos :: int where "ec_invalid_pos = 4"

section \<open>The board on the console\<close>

definition say :: "console_text \<Rightarrow> game_client \<Rightarrow> game_client" where
  "say t c = c\<lparr>gc_console := gc_console c @ [t]\<rparr>"

definition strv_vertex :: "byte list" where "strv_vertex = [0x20, 0xE3, 0x8A, 0xA3]"
definition strv_empty :: "byte list" where "strv_empty = [0x20, 0x2E, 0x20]"
definition strv_white :: "byte list" where "strv_white = [0x20, 0xE2, 0x97, 0x8B, 0x20]"
definition strv_black :: "byte list" where "strv_black = [0x20, 0xE2, 0x97, 0x8F, 0x20]"

definition strv_pos :: "byte list" where
  "strv_pos = bytes_of '' 0  1  2  3  4  5  6  7  8  9  a  b  c  d  e '' @ [10]"

fun cell_text :: "pos_state \<Rightarrow> byte list" where
  "cell_text Pos_none = strv_empty"
| "cell_text Pos_white = strv_white"
| "cell_text Pos_black = strv_black"

definition square_text :: "nat \<Rightarrow> pos_state \<Rightarrow> byte list" where
  "square_text i s =
     (if i mod 15 = 0 then (if i > 0 then [10] else []) @ slice ((i div 15) * 3) 3 strv_pos else []) @ cell_text s"

definition board_text :: "pos_state list \<Rightarrow> byte list" where
  "board_text b = concat (map (\<lambda>(i, s). square_text i s) (enumerate 0 b)) @ [10]"

text \<open>The share of games won: \<open>int32\<close> arithmetic, converted to \<open>uint32\<close>.\<close>

definition int32_ok :: "int \<Rightarrow> bool" where
  "int32_ok n \<longleftrightarrow> - (2 ^ 31) \<le> n \<and> n < 2 ^ 31"

definition win_rate :: "int \<Rightarrow> int \<Rightarrow> u32 option" where
  "win_rate w l =
     (if \<not> int32_ok (w + l) then None
      else if w + l > 0 then (if int32_ok (w * 100) then Some (word_of_int (sgn (w * 100) * (\<bar>w * 100\<bar> div (w + l)))) else None)
      else Some 0)"

definition game_header :: "game_client \<Rightarrow> u32 \<Rightarrow> byte list" where
  "game_header c rate =
     bytes_of ''      ------------ '' @ gc_account c @ bytes_of '' vs '' @ gc_opponent c @ bytes_of '' ------------'' @ [10]
     @ bytes_of ''      '' @ [0xE8, 0x83, 0x9C, 0xE7, 0x8E, 0x87] @ bytes_of '':'' @ to_string (unat rate) @ bytes_of ''% ''
     @ [0xE6, 0x88, 0x91, 0xE6, 0x96, 0xB9, 0xE6, 0x89, 0xA7] @ bytes_of '':''
     @ (if gc_black c then strv_black else strv_white) @ [10] @ strv_vertex @ strv_pos"

definition show_game :: "game_client \<Rightarrow> game_client option" where
  "show_game c = map_option (\<lambda>rate. say (Con_game (game_header c rate @ board_text (gc_board c))) c)
     (win_rate (gc_win_count c) (gc_lose_count c))"

section \<open>Squares\<close>

text \<open>\<open>x * checkerboard_size + y\<close> in \<open>uint32\<close>.\<close>

definition square_index :: "u32 \<Rightarrow> u32 \<Rightarrow> nat" where
  "square_index x y = unat (x * checkerboard_size + y)"

definition set_square :: "nat \<Rightarrow> pos_state \<Rightarrow> game_client \<Rightarrow> game_client option" where
  "set_square i s c = (if i < length (gc_board c) then Some (c\<lparr>gc_board := (gc_board c)[i := s]\<rparr>) else None)"

definition draw_move :: "bool \<Rightarrow> u32 \<Rightarrow> u32 \<Rightarrow> game_client \<Rightarrow> game_client option" where
  "draw_move is_black x y c =
     Option.bind (set_square (square_index x y) (if is_black then Pos_black else Pos_white) c) show_game"

definition take_back :: "u32 \<Rightarrow> u32 \<Rightarrow> game_client \<Rightarrow> game_client option" where
  "take_back x y c = Option.bind (set_square (square_index x y) Pos_none c) show_game"

definition check_pos :: "u32 \<Rightarrow> u32 \<Rightarrow> game_client \<Rightarrow> bool" where
  "check_pos x y c \<longleftrightarrow>
     (if x \<ge> checkerboard_size \<or> y \<ge> checkerboard_size then False else gc_board c ! square_index x y = Pos_none)"

fun set_squares :: "pos_state \<Rightarrow> u32 list \<Rightarrow> game_client \<Rightarrow> game_client option" where
  "set_squares s [] c = Some c"
| "set_squares s (i # is) c = Option.bind (set_square (unat i) s c) (set_squares s is)"

section \<open>The end of a game and broadcasts\<close>

text \<open>\<open>cv_turn_.notify_all\<close> moves \<open>logic\<close> to the scheduler's queue when it waits there.\<close>

definition notify_turn :: "game_client \<Rightarrow> game_client" where
  "notify_turn c = (if gc_logic c = Lp_turn then c\<lparr>gc_logic := Lp_notified\<rparr> else c)"

definition show_game_over :: "int \<Rightarrow> game_client \<Rightarrow> game_client" where
  "show_game_over result c =
     notify_turn (if result = 1 then (say Con_win c)\<lparr>gc_room := 0\<rparr>
       else if result = 2 then (say Con_lose c)\<lparr>gc_room := 0\<rparr>
       else if result = 3 then (say Con_draw c)\<lparr>gc_room := 0\<rparr> else c)"

definition forward_broadcast :: "game_proto \<Rightarrow> u16 \<Rightarrow> byte list \<Rightarrow> game_client \<Rightarrow> game_client option" where
  "forward_broadcast P mid buffer c =
     (if mid \<noteq> id_move_brd then Some c
      else case gp_move_brd P buffer of None \<Rightarrow> Some c
        | Some (x, y, over) \<Rightarrow>
            map_option (\<lambda>c. (show_game_over over c)\<lparr>gc_my_turn := True\<rparr>) (draw_move (\<not> gc_black c) x y c))"

section \<open>The coroutine \<open>logic\<close>\<close>

definition send_request :: "u16 \<Rightarrow> u64 \<Rightarrow> byte list \<Rightarrow> game_client \<Rightarrow> game_client" where
  "send_request mid session msg c =
     c\<lparr>gc_written := gc_written c @ [(0x2, init_client_buffer (replicate (length msg) 0) [] mid session msg)]\<rparr>"

definition call_server :: "u16 \<Rightarrow> u64 \<Rightarrow> byte list \<Rightarrow> logic_pc \<Rightarrow> game_client \<Rightarrow> game_client" where
  "call_server mid session msg pc c = (send_request mid session msg c)\<lparr>gc_call := Some session, gc_answer := None, gc_logic := pc\<rparr>"

definition start_login :: "game_proto \<Rightarrow> u64 \<Rightarrow> game_client \<Rightarrow> game_client" where
  "start_login P session c = call_server id_login_req session (gp_login_req P (gc_account c) (gc_password c)) Lp_login c"

definition start_match :: "game_proto \<Rightarrow> u64 \<Rightarrow> after_enter \<Rightarrow> game_client \<Rightarrow> game_client" where
  "start_match P session k c = call_server id_match_req session (gp_msg_empty P) (Lp_match k) c"

definition start_enter :: "game_proto \<Rightarrow> u64 \<Rightarrow> after_enter \<Rightarrow> game_client \<Rightarrow> game_client" where
  "start_enter P session k c = call_server id_enter_room_req session (gp_msg_empty P) (Lp_enter k) c"

text \<open>The handler of \<open>logic\<close>: an exception closes the socket and ends the coroutine.\<close>

definition logic_thrown :: "game_client \<Rightarrow> game_client" where
  "logic_thrown c = c\<lparr>gc_logic := Lp_off, gc_closed := gc_closed c @ [gc_socket c]\<rparr>"

definition ask_pos :: "game_client \<Rightarrow> game_client" where
  "ask_pos c = (say Con_ask_pos c)\<lparr>gc_logic := Lp_input\<rparr>"

definition loop_head :: "game_client \<Rightarrow> game_client" where
  "loop_head c = (if \<not> gc_my_turn c then c\<lparr>gc_logic := Lp_turn\<rparr> else ask_pos c)"

definition go_on :: "after_enter \<Rightarrow> game_client \<Rightarrow> game_client" where
  "go_on k c = (case k of To_loop \<Rightarrow> loop_head c | To_ask \<Rightarrow> ask_pos c)"

definition next_game :: "after_enter \<Rightarrow> game_client \<Rightarrow> game_client" where
  "next_game k c = (say Con_ask_again c)\<lparr>gc_logic := Lp_again k\<rparr>"

definition next_game_answer :: "game_proto \<Rightarrow> u64 \<Rightarrow> after_enter \<Rightarrow> byte list \<Rightarrow> game_client \<Rightarrow> game_client" where
  "next_game_answer P session k line c =
     (if line \<noteq> [] \<and> hd line = of_char (CHR ''y'') then start_match P session k c
      else go_on k (c\<lparr>gc_stopped := True\<rparr>))"

definition login_answered :: "login_ack \<Rightarrow> game_client \<Rightarrow> game_client" where
  "login_answered ack c =
     (if la_ec ack \<noteq> ec_success then logic_thrown (c\<lparr>gc_stopped := True\<rparr>)
      else (say Con_ok c)\<lparr>gc_userid := la_userid ack, gc_room := la_room ack, gc_win_count := la_win_count ack,
             gc_lose_count := la_lose_count ack, gc_logic := Lp_sleep After_login\<rparr>)"

definition match_answered :: "after_enter \<Rightarrow> int \<times> int \<Rightarrow> game_client \<Rightarrow> game_client" where
  "match_answered k ack c =
     (if fst ack \<noteq> ec_success then logic_thrown (c\<lparr>gc_stopped := True\<rparr>)
      else (say Con_ok c)\<lparr>gc_room := snd ack, gc_logic := Lp_sleep (After_match k)\<rparr>)"

definition enter_answered :: "after_enter \<Rightarrow> enter_room_ack \<Rightarrow> game_client \<Rightarrow> game_client option" where
  "enter_answered k ack c =
     (if er_ec ack \<noteq> ec_success then Some (logic_thrown (c\<lparr>gc_stopped := True\<rparr>))
      else let c = c\<lparr>gc_my_turn := er_is_my_turn ack, gc_black := er_is_black ack, gc_opponent := er_opponent ack\<rparr>
           in map_option (\<lambda>c. (say Con_ok c)\<lparr>gc_logic := Lp_sleep (After_enter k)\<rparr>)
                (Option.bind (set_squares Pos_white (er_white ack) c) (set_squares Pos_black (er_black ack))))"

text \<open>The answer to a move, and what \<open>logic\<close> does after it.\<close>

definition after_move :: "game_client \<Rightarrow> game_client" where
  "after_move c = (if gc_room c \<le> 0 then next_game To_loop c else loop_head c)"

definition move_answered :: "u32 \<Rightarrow> u32 \<Rightarrow> int \<times> int \<Rightarrow> game_client \<Rightarrow> game_client option" where
  "move_answered x y ack c =
     map_option after_move
       (if fst ack = ec_invalid_pos then take_back x y c
        else if fst ack \<noteq> ec_success then Some (c\<lparr>gc_stopped := True\<rparr>)
        else Some ((show_game_over (snd ack) c)\<lparr>gc_my_turn := False\<rparr>))"

section \<open>A line of input\<close>

text \<open>\<open>std::from_chars\<close> into an \<open>int32_t\<close>: a minus sign and the longest run of digits; anything else, and a number that does not fit, leaves the
  variable as it is.\<close>

definition from_chars_i32 :: "byte list \<Rightarrow> u32 option \<Rightarrow> u32 option" where
  "from_chars_i32 t value =
     (let neg = (t \<noteq> [] \<and> hd t = of_char (CHR ''-''));
          ds = takeWhile is_digit (if neg then tl t else t);
          n = (if neg then - int (digits_value ds) else int (digits_value ds))
      in if ds = [] \<or> \<not> int32_ok n then value else Some (word_of_int n))"

definition invalid_input :: "game_client \<Rightarrow> game_client" where
  "invalid_input c = (say Con_invalid c)\<lparr>gc_logic := Lp_sleep After_refusal\<rparr>"

definition play :: "game_proto \<Rightarrow> u64 \<Rightarrow> u32 \<Rightarrow> u32 \<Rightarrow> game_client \<Rightarrow> game_client option" where
  "play P session x y c =
     (if check_pos x y c then Some (invalid_input c)
      else map_option (call_server id_move_req session (gp_move_req P x y) (Lp_move x y)) (draw_move (gc_black c) x y c))"

definition move_input :: "game_proto \<Rightarrow> u64 \<Rightarrow> byte list \<Rightarrow> game_client \<Rightarrow> game_client option" where
  "move_input P session line c =
     (let first = takeWhile (\<lambda>b. b \<noteq> of_char (CHR '','')) line
      in if length first = length line \<or> length first + 1 = length line then Some (invalid_input c)
         else let c = c\<lparr>gc_x := from_chars_i32 first (gc_x c)\<rparr>;
                  c = c\<lparr>gc_y := from_chars_i32 (drop (length first + 1) line) (gc_y c)\<rparr>
              in case (gc_x c, gc_y c) of (Some x, Some y) \<Rightarrow> play P session x y c | _ \<Rightarrow> None)"

section \<open>Resuming \<open>logic\<close>\<close>

text \<open>Resumption by the call's answer.  The calls that run beside \<open>show_wait\<close> are composed with an operator that waits for the first success: an answer
  that cannot be parsed leaves them waiting for ever.\<close>

definition resume_call :: "game_proto \<Rightarrow> game_client \<Rightarrow> game_client option" where
  "resume_call P c =
     (case gc_answer c of None \<Rightarrow> Some c
      | Some data \<Rightarrow>
          let c = c\<lparr>gc_answer := None\<rparr>
          in case gc_logic c of
               Lp_login \<Rightarrow> Some (case gp_login_ack P data of None \<Rightarrow> c | Some ack \<Rightarrow> login_answered ack c)
             | Lp_match k \<Rightarrow> Some (case gp_match_ack P data of None \<Rightarrow> c | Some ack \<Rightarrow> match_answered k ack c)
             | Lp_enter k \<Rightarrow> (case gp_enter_ack P data of None \<Rightarrow> Some c | Some ack \<Rightarrow> enter_answered k ack c)
             | Lp_move x y \<Rightarrow> (case gp_move_ack P data of None \<Rightarrow> Some (logic_thrown c) | Some ack \<Rightarrow> move_answered x y ack c)
             | _ \<Rightarrow> Some c)"

definition resume_turn :: "game_client \<Rightarrow> game_client" where
  "resume_turn c = (if gc_room c \<le> 0 then next_game To_ask c else ask_pos c)"

definition resume_sleep :: "game_proto \<Rightarrow> u64 \<Rightarrow> after_sleep \<Rightarrow> game_client \<Rightarrow> game_client option" where
  "resume_sleep P session k c =
     (case k of After_login \<Rightarrow> Some (if gc_room c \<le> 0 then start_match P session To_loop c else start_enter P session To_loop c)
      | After_match k \<Rightarrow> Some (start_enter P session k c)
      | After_enter k \<Rightarrow> map_option (go_on k) (show_game c)
      | After_refusal \<Rightarrow> Some (loop_head c))"

section \<open>The connection\<close>

text \<open>The milliseconds \<open>run\<close> sleeps before it connects, and what it does with the outcome.\<close>

definition connect_pause :: "game_client \<Rightarrow> nat" where
  "connect_pause c = connect_interval (gc_cnt_fail c)"

definition connect_failed :: "game_client \<Rightarrow> game_client" where
  "connect_failed c = c\<lparr>gc_cnt_fail := gc_cnt_fail c + 1\<rparr>"

definition connect_succeeded :: "game_proto \<Rightarrow> u64 \<Rightarrow> u32 \<Rightarrow> game_client \<Rightarrow> game_client" where
  "connect_succeeded P session socket c =
     (start_login P session (c\<lparr>gc_socket := socket, gc_cnt_fail := 0, gc_run := Rn_read, gc_x := None, gc_y := None\<rparr>))\<lparr>gc_ping := Pg_sleep\<rparr>"

text \<open>The handler of \<open>run\<close>, which cancels \<open>logic\<close> and \<open>auto_ping\<close>, and the question whether to connect again.\<close>

definition connection_lost :: "game_client \<Rightarrow> game_client" where
  "connection_lost c =
     (let c = c\<lparr>gc_closed := gc_closed c @ [gc_socket c], gc_socket := 0, gc_cnt_fail := gc_cnt_fail c + 1, gc_logic := Lp_off, gc_call := None,
                gc_answer := None, gc_ping := Pg_off\<rparr>
      in if gc_stopped c then c\<lparr>gc_run := Rn_end\<rparr> else (say Con_reconnect c)\<lparr>gc_run := Rn_ask\<rparr>)"

definition reconnect_answer :: "byte list \<Rightarrow> game_client \<Rightarrow> game_client" where
  "reconnect_answer line c =
     (if line = [] \<or> hd line \<noteq> of_char (CHR ''y'') then c\<lparr>gc_stopped := True, gc_run := Rn_end\<rparr>
      else c\<lparr>gc_run := Rn_connect\<rparr>)"

text \<open>A message that \<open>ws_.read\<close> returned.\<close>

definition wake_call :: "u64 \<Rightarrow> byte list \<Rightarrow> game_proto \<Rightarrow> game_client \<Rightarrow> game_client option" where
  "wake_call session data P c =
     (if gc_call c = Some session then Some (c\<lparr>gc_call := None, gc_answer := Some data\<rparr>)
      else if gc_ping c = Pg_call session then Some (case gp_ping_ack P data of None \<Rightarrow> c | Some _ \<Rightarrow> c\<lparr>gc_ping := Pg_sleep\<rparr>)
      else None)"

definition client_frame :: "game_proto \<Rightarrow> websocket_opcode \<Rightarrow> byte list \<Rightarrow> game_client \<Rightarrow> game_client option" where
  "client_frame P op buffer c =
     (if op = 0x8 then Some (connection_lost (c\<lparr>gc_closed := gc_closed c @ [gc_socket c]\<rparr>))
      else if op = 0x9 then Some (c\<lparr>gc_written := gc_written c @ [(0xA, buffer)]\<rparr>)
      else if is_websocket_control op then Some c
      else if length buffer < 16 then None
      else let header = ws_header_of buffer; data = drop 16 buffer
           in if wh_id header AND msg_mask \<noteq> msg_s2c_ack \<or> wh_session header = 0 then forward_broadcast P (wh_id header) data c
              else case wake_call (wh_session header) data P c of
                     None \<Rightarrow> forward_broadcast P (wh_id header) data c
                   | Some c \<Rightarrow> Some c)"

section \<open>The ping coroutine\<close>

definition ping_due :: "game_proto \<Rightarrow> u64 \<Rightarrow> u64 \<Rightarrow> game_client \<Rightarrow> game_client" where
  "ping_due P session millis c =
     (if gc_ping c = Pg_sleep then (send_request id_ping_req session (gp_ping_req P millis) c)\<lparr>gc_ping := Pg_call session\<rparr> else c)"

definition ping_timeout :: "game_client \<Rightarrow> game_client" where
  "ping_timeout c = (case gc_ping c of Pg_call _ \<Rightarrow> c\<lparr>gc_ping := Pg_off, gc_closed := gc_closed c @ [gc_socket c]\<rparr> | _ \<Rightarrow> c)"

section \<open>Runs\<close>

text \<open>One resumption of a coroutine.  The session handed out and the clock come with the event; an event that does not concern the coroutine's state
  changes nothing.\<close>

datatype client_event =
    Ev_connect_failed | Ev_connected u64 u32 | Ev_lost | Ev_reconnect "byte list"
  | Ev_frame websocket_opcode "byte list" | Ev_call | Ev_turn | Ev_slept u64 | Ev_line u64 "byte list"
  | Ev_ping u64 u64 | Ev_ping_timeout

fun client_step :: "game_proto \<Rightarrow> client_event \<Rightarrow> game_client \<Rightarrow> game_client option" where
  "client_step P Ev_connect_failed c = Some (if gc_run c = Rn_connect then connect_failed c else c)"
| "client_step P (Ev_connected session socket) c = Some (if gc_run c = Rn_connect then connect_succeeded P session socket c else c)"
| "client_step P Ev_lost c = Some (if gc_run c = Rn_read then connection_lost c else c)"
| "client_step P (Ev_reconnect line) c = Some (if gc_run c = Rn_ask then reconnect_answer line c else c)"
| "client_step P (Ev_frame op buffer) c = (if gc_run c = Rn_read then client_frame P op buffer c else Some c)"
| "client_step P Ev_call c = resume_call P c"
| "client_step P Ev_turn c = Some (if gc_logic c = Lp_notified then resume_turn c else c)"
| "client_step P (Ev_slept session) c = (case gc_logic c of Lp_sleep k \<Rightarrow> resume_sleep P session k c | _ \<Rightarrow> Some c)"
| "client_step P (Ev_line session line) c =
     (case gc_logic c of Lp_input \<Rightarrow> move_input P session line c
      | Lp_again k \<Rightarrow> Some (next_game_answer P session k line c)
      | _ \<Rightarrow> Some c)"
| "client_step P (Ev_ping session millis) c = Some (ping_due P session millis c)"
| "client_step P Ev_ping_timeout c = Some (ping_timeout c)"

fun client_run :: "game_proto \<Rightarrow> client_event list \<Rightarrow> game_client \<Rightarrow> game_client option" where
  "client_run P [] c = Some c"
| "client_run P (e # es) c = Option.bind (client_step P e c) (client_run P es)"

lemma client_run_end [simp]: "Option.bind r (client_run P []) = r"
  by (cases r) simp_all

section \<open>The board\<close>

lemma set_square_board: "set_square i s c = Some c' \<Longrightarrow> i < length (gc_board c) \<and> c' = c\<lparr>gc_board := (gc_board c)[i := s]\<rparr>"
  by (auto simp: set_square_def split: if_splits)

lemma show_game_keeps: "show_game c = Some c' \<Longrightarrow> \<exists>t. c' = say (Con_game t) c"
  by (auto simp: show_game_def)

lemma draw_move_board:
  "draw_move b x y c = Some c' \<Longrightarrow> square_index x y < length (gc_board c)
     \<and> (\<exists>t. c' = say (Con_game t) (c\<lparr>gc_board := (gc_board c)[square_index x y := (if b then Pos_black else Pos_white)]\<rparr>))"
  by (auto simp: draw_move_def bind_eq_Some_conv dest!: set_square_board show_game_keeps)

lemma take_back_board:
  "take_back x y c = Some c' \<Longrightarrow> square_index x y < length (gc_board c)
     \<and> (\<exists>t. c' = say (Con_game t) (c\<lparr>gc_board := (gc_board c)[square_index x y := Pos_none]\<rparr>))"
  by (auto simp: take_back_def bind_eq_Some_conv dest!: set_square_board show_game_keeps)

lemma square_index_valid:
  assumes "x < checkerboard_size" "y < checkerboard_size"
  shows "square_index x y = unat x * 15 + unat y" "square_index x y < 225"
proof -
  have b: "unat x < 15" "unat y < 15" using assms by (simp_all add: checkerboard_size_def word_less_nat_alt)
  have m: "unat (x * 15) = unat x * 15" using b(1) by (simp add: unat_word_ariths unat_of_nat)
  show i: "square_index x y = unat x * 15 + unat y"
    using b by (simp add: square_index_def checkerboard_size_def unat_word_ariths m)
  show "square_index x y < 225" unfolding i using b by simp
qed

lemma set_squares_board:
  "set_squares s is c = Some c' \<Longrightarrow> length (gc_board c') = length (gc_board c)
     \<and> (\<forall>i. i \<notin> unat ` set is \<longrightarrow> gc_board c' ! i = gc_board c ! i)"
proof (induction "is" arbitrary: c)
  case (Cons i "is")
  then obtain d where "set_square (unat i) s c = Some d" "set_squares s is d = Some c'" by (auto simp: bind_eq_Some_conv)
  then show ?case using Cons.IH [of d] set_square_board by force
qed simp

text \<open>Entering a room sets the squares of the server's lists and leaves every other square as the last game left it.\<close>

lemma enter_answered_stale:
  assumes "enter_answered k ack c = Some c'" "i \<notin> unat ` set (er_white ack)" "i \<notin> unat ` set (er_black ack)"
  shows "gc_board c' ! i = gc_board c ! i"
  using assms by (auto simp: enter_answered_def Let_def bind_eq_Some_conv logic_thrown_def say_def split: if_splits dest!: set_squares_board)

lemma enter_answered_length: "enter_answered k ack c = Some c' \<Longrightarrow> length (gc_board c') = length (gc_board c)"
  by (auto simp: enter_answered_def Let_def bind_eq_Some_conv logic_thrown_def say_def split: if_splits dest!: set_squares_board)

lemmas client_state_defs = say_def notify_turn_def show_game_over_def send_request_def call_server_def start_login_def start_match_def start_enter_def
  logic_thrown_def ask_pos_def loop_head_def go_on_def next_game_def next_game_answer_def login_answered_def match_answered_def after_move_def
  invalid_input_def resume_turn_def connect_failed_def connect_succeeded_def connection_lost_def reconnect_answer_def ping_due_def ping_timeout_def

lemma board_kept [simp]:
  "gc_board (say t c) = gc_board c" "gc_board (notify_turn c) = gc_board c" "gc_board (show_game_over r c) = gc_board c"
  "gc_board (call_server mid session msg pc c) = gc_board c" "gc_board (start_match P session k c) = gc_board c"
  "gc_board (start_enter P session k c) = gc_board c" "gc_board (logic_thrown c) = gc_board c" "gc_board (ask_pos c) = gc_board c"
  "gc_board (loop_head c) = gc_board c" "gc_board (go_on k c) = gc_board c" "gc_board (next_game k c) = gc_board c"
  "gc_board (next_game_answer P session k line c) = gc_board c" "gc_board (login_answered la c) = gc_board c"
  "gc_board (match_answered k ma c) = gc_board c" "gc_board (after_move c) = gc_board c" "gc_board (invalid_input c) = gc_board c"
  "gc_board (resume_turn c) = gc_board c" "gc_board (connect_failed c) = gc_board c" "gc_board (connect_succeeded P session socket c) = gc_board c"
  "gc_board (connection_lost c) = gc_board c" "gc_board (reconnect_answer line c) = gc_board c"
  "gc_board (ping_due P session millis c) = gc_board c" "gc_board (ping_timeout c) = gc_board c"
  by (simp_all add: client_state_defs Let_def split: after_enter.splits ping_pc.splits)

lemma forward_broadcast_length: "forward_broadcast P mid buffer c = Some c' \<Longrightarrow> length (gc_board c') = length (gc_board c)"
  by (auto simp: forward_broadcast_def split: if_splits option.splits dest!: draw_move_board)

lemma wake_call_board: "wake_call session data P c = Some c' \<Longrightarrow> gc_board c' = gc_board c"
  by (auto simp: wake_call_def split: if_splits option.splits)

lemma client_frame_length: "client_frame P op buffer c = Some c' \<Longrightarrow> length (gc_board c') = length (gc_board c)"
  by (auto simp: client_frame_def Let_def split: if_splits option.splits dest: forward_broadcast_length wake_call_board)

lemma play_length: "play P session x y c = Some c' \<Longrightarrow> length (gc_board c') = length (gc_board c)"
  by (auto simp: play_def split: if_splits dest!: draw_move_board)

lemma move_input_length: "move_input P session line c = Some c' \<Longrightarrow> length (gc_board c') = length (gc_board c)"
  by (auto simp: move_input_def Let_def split: if_splits option.splits dest!: play_length)

lemma resume_call_length: "resume_call P c = Some c' \<Longrightarrow> length (gc_board c') = length (gc_board c)"
  by (auto simp: resume_call_def Let_def move_answered_def split: option.splits logic_pc.splits if_splits
      dest!: enter_answered_length take_back_board)

lemma resume_sleep_length: "resume_sleep P session k c = Some c' \<Longrightarrow> length (gc_board c') = length (gc_board c)"
  by (auto simp: resume_sleep_def split: after_sleep.splits if_splits dest!: show_game_keeps)

lemma client_step_length: "client_step P e c = Some c' \<Longrightarrow> length (gc_board c') = length (gc_board c)"
  by (cases e) (auto split: if_splits logic_pc.splits dest: client_frame_length resume_call_length resume_sleep_length move_input_length)

lemma client_run_length: "client_run P es c = Some c' \<Longrightarrow> length (gc_board c') = length (gc_board c)"
proof (induction es arbitrary: c)
  case (Cons e es)
  then show ?case using client_step_length by (force simp: bind_eq_Some_conv)
qed simp

section \<open>What the console shows determines the board\<close>

lemma cell_text_prefix: "cell_text s @ xs = cell_text t @ ys \<Longrightarrow> s = t \<and> xs = ys"
  by (cases s; cases t) (auto simp: strv_empty_def strv_white_def strv_black_def)

lemma square_text_prefix: "square_text i s @ xs = square_text i t @ ys \<Longrightarrow> s = t \<and> xs = ys"
  by (auto simp: square_text_def dest: cell_text_prefix split: if_splits)

lemma squares_text_inject:
  assumes "length b = length b'"
    "concat (map (\<lambda>(i, s). square_text i s) (enumerate n b)) = concat (map (\<lambda>(i, s). square_text i s) (enumerate n b'))"
  shows "b = b'"
  using assms
proof (induction b b' arbitrary: n rule: list_induct2)
  case (Cons s b t b')
  then show ?case using square_text_prefix [of n s _ t] by auto
qed simp

text \<open>Two boards that the console shows with the same text, under the same heading, are the same board.\<close>

theorem shown_board_determined:
  assumes "show_game c = Some c1" "show_game (c\<lparr>gc_board := b\<rparr>) = Some c2" "length b = length (gc_board c)"
    "last (gc_console c1) = last (gc_console c2)"
  shows "gc_board c = b"
proof -
  have "board_text (gc_board c) = board_text b"
    using assms by (auto simp: show_game_def say_def game_header_def)
  then show ?thesis using squares_text_inject [of "gc_board c" b 0] assms(3) by (simp add: board_text_def)
qed

section \<open>Moves of the player\<close>

definition move_line :: "u32 \<Rightarrow> u32 \<Rightarrow> byte list" where
  "move_line x y = to_string (unat x) @ [of_char (CHR '','')] @ to_string (unat y)"

lemma from_chars_i32_to_string:
  assumes "n < 2 ^ 31"
  shows "from_chars_i32 (to_string n) v = Some (of_nat n)"
proof -
  note d = to_string_digits [of n]
  have tw: "takeWhile is_digit (to_string n) = to_string n" using d by (simp add: list_all_iff takeWhile_eq_all_conv)
  have "is_digit (hd (to_string n))" using d by (auto simp: list_all_iff)
  then have "hd (to_string n) \<noteq> of_char (CHR ''-'')" by (auto simp: is_digit_def of_char_def)
  moreover have "int32_ok (int n)" using assms by (simp add: int32_ok_def)
  ultimately show ?thesis using d by (simp add: from_chars_i32_def Let_def tw)
qed

lemma move_line_split:
  "takeWhile (\<lambda>b. b \<noteq> of_char (CHR '','')) (move_line x y) = to_string (unat x)"
proof -
  have "\<forall>b\<in>set (to_string n). b \<noteq> (of_char (CHR '','') :: byte)" for n
    using to_string_digits [of n] by (auto simp: list_all_iff is_digit_def of_char_def)
  then show ?thesis unfolding move_line_def by (subst takeWhile_append2) auto
qed

lemma move_input_line:
  assumes "x < checkerboard_size" "y < checkerboard_size"
  shows "move_input P session (move_line x y) c = play P session x y (c\<lparr>gc_x := Some x, gc_y := Some y\<rparr>)"
proof -
  have "unat x < 2 ^ 31" "unat y < 2 ^ 31" using assms by (simp_all add: checkerboard_size_def word_less_nat_alt)
  note f = from_chars_i32_to_string [OF this(1)] from_chars_i32_to_string [OF this(2)]
  show ?thesis unfolding move_input_def Let_def move_line_split
    using to_string_digits [of "unat y"] by (simp add: move_line_def f)
qed

abbreviation server_frame :: "u16 \<Rightarrow> u64 \<Rightarrow> byte list \<Rightarrow> byte list" where
  "server_frame mid session data \<equiv> ws_header_bytes \<lparr>wh_flag = flag_valid, wh_id = mid, wh_session = session\<rparr> @ data"

definition id_move_ack :: u16 where "id_move_ack = 0x1005"

lemma binary_not_control [simp]: "\<not> is_websocket_control 0x2"
  by (simp add: is_websocket_control_def)

lemma client_frame_answer:
  assumes "gc_call c = Some session" "session \<noteq> 0"
  shows "client_frame P 0x2 (server_frame id_move_ack session data) c = Some (c\<lparr>gc_call := None, gc_answer := Some data\<rparr>)"
  using assms by (simp add: client_frame_def wake_call_def id_move_ack_def msg_mask_def msg_s2c_ack_def)

lemma client_frame_broadcast:
  "client_frame P 0x2 (server_frame id_move_brd session data) c = forward_broadcast P id_move_brd data c"
  by (simp add: client_frame_def id_move_brd_def msg_mask_def msg_s2c_ack_def)

lemma show_game_defined: "win_rate (gc_win_count c) (gc_lose_count c) = Some r \<Longrightarrow> show_game c = Some (say (Con_game (game_header c r @ board_text (gc_board c))) c)"
  by (simp add: show_game_def)

lemma draw_move_defined:
  assumes "win_rate (gc_win_count c) (gc_lose_count c) = Some r" "square_index x y < length (gc_board c)"
  shows "\<exists>t. draw_move b x y c = Some (say (Con_game t) (c\<lparr>gc_board := (gc_board c)[square_index x y := (if b then Pos_black else Pos_white)]\<rparr>))"
  using assms by (auto simp: draw_move_def set_square_def show_game_def)

lemma take_back_defined:
  assumes "win_rate (gc_win_count c) (gc_lose_count c) = Some r" "square_index x y < length (gc_board c)"
  shows "\<exists>t. take_back x y c = Some (say (Con_game t) (c\<lparr>gc_board := (gc_board c)[square_index x y := Pos_none]\<rparr>))"
  using assms by (auto simp: take_back_def set_square_def show_game_def)

text \<open>C18: The check of the player's input is the wrong way round.  While the client waits in a room for the player's move, it being the player's turn (and the counts of won and
  lost games being such that the header of the board can be shown): a move to a free square is refused with the message that the coordinates are invalid,
  the board stays and nothing is sent; a move to an occupied square is drawn over the stone there, in the player's own colour, and sent; when the
  server refuses it the square is cleared, and the stone that was there has gone from the player's board.\<close>

theorem occupied_squares_only:
  assumes "gc_run c = Rn_read" "gc_logic c = Lp_input" "length (gc_board c) = 225" "gc_room c > 0" "gc_my_turn c"
    "win_rate (gc_win_count c) (gc_lose_count c) = Some r" "x < checkerboard_size" "y < checkerboard_size" "session \<noteq> 0"
    "gp_move_ack P data = Some (ec_invalid_pos, over)"
  shows "if gc_board c ! (unat x * 15 + unat y) = Pos_none
     then \<exists>c'. client_step P (Ev_line session (move_line x y)) c = Some c' \<and> gc_board c' = gc_board c \<and> gc_written c' = gc_written c
            \<and> last (gc_console c') = Con_invalid \<and> gc_logic c' = Lp_sleep After_refusal
     else \<exists>c1 c'. client_step P (Ev_line session (move_line x y)) c = Some c1
            \<and> gc_board c1 = (gc_board c)[unat x * 15 + unat y := (if gc_black c then Pos_black else Pos_white)]
            \<and> client_run P [Ev_frame 0x2 (server_frame id_move_ack session data), Ev_call] c1 = Some c'
            \<and> gc_board c' = (gc_board c)[unat x * 15 + unat y := Pos_none] \<and> gc_logic c' = Lp_input
            \<and> gc_written c' = gc_written c @ [(0x2, init_client_buffer (replicate (length (gp_move_req P x y)) 0) [] id_move_req session (gp_move_req P x y))]"
proof -
  note i = square_index_valid [OF assms(7,8)]
  have ck: "check_pos x y d \<longleftrightarrow> gc_board c ! (unat x * 15 + unat y) = Pos_none" if "gc_board d = gc_board c" for d
    using assms(7,8) that by (auto simp: check_pos_def i(1) not_le [symmetric])
  define d where "d = c\<lparr>gc_x := Some x, gc_y := Some y\<rparr>"
  have line: "move_input P session (move_line x y) c = play P session x y d"
    by (simp add: d_def move_input_line [OF assms(7,8)])
  show ?thesis
  proof (cases "gc_board c ! (unat x * 15 + unat y) = Pos_none")
    case True
    then show ?thesis using ck [of d] assms(2) by (simp add: line play_def) (simp add: d_def invalid_input_def say_def)
  next
    case False
    obtain t where t: "draw_move (gc_black d) x y d = Some (say (Con_game t) (d\<lparr>gc_board := (gc_board d)[square_index x y := (if gc_black d then Pos_black else Pos_white)]\<rparr>))"
      using draw_move_defined [of d r x y] assms(3,6) i(2) by (auto simp: d_def)
    define e where "e = call_server id_move_req session (gp_move_req P x y) (Lp_move x y) (say (Con_game t) (d\<lparr>gc_board := (gc_board d)[square_index x y := (if gc_black d then Pos_black else Pos_white)]\<rparr>))"
    have e: "move_input P session (move_line x y) c = Some e"
      using False ck [of d] t by (simp add: line play_def e_def) (simp add: d_def)
    define f where "f = e\<lparr>gc_call := None, gc_answer := None\<rparr>"
    obtain t' where t': "take_back x y f = Some (say (Con_game t') (f\<lparr>gc_board := (gc_board f)[square_index x y := Pos_none]\<rparr>))"
      using take_back_defined [of f r x y] assms(3,6) i(2) by (auto simp: f_def e_def d_def call_server_def send_request_def say_def)
    have "gc_run e = Rn_read" "gc_call e = Some session" "gc_logic e = Lp_move x y"
      using assms(1) by (simp_all add: e_def d_def call_server_def send_request_def say_def)
    then have run: "client_run P [Ev_frame 0x2 (server_frame id_move_ack session data), Ev_call] e = map_option after_move (take_back x y f)"
      using assms(9,10) by (simp add: client_frame_answer resume_call_def move_answered_def f_def)
    have step: "client_step P (Ev_line session (move_line x y)) c = Some e" using assms(2) by (simp add: e)
    have drawn: "gc_board e = (gc_board c)[unat x * 15 + unat y := (if gc_black c then Pos_black else Pos_white)]"
      by (simp add: e_def d_def call_server_def send_request_def say_def i(1))
    define g where "g = after_move (say (Con_game t') (f\<lparr>gc_board := (gc_board f)[square_index x y := Pos_none]\<rparr>))"
    have "gc_board g = (gc_board c)[unat x * 15 + unat y := Pos_none]" "gc_logic g = Lp_input"
      "gc_written g = gc_written c @ [(0x2, init_client_buffer (replicate (length (gp_move_req P x y)) 0) [] id_move_req session (gp_move_req P x y))]"
      using assms(4,5) by (simp_all add: g_def after_move_def loop_head_def ask_pos_def say_def f_def e_def d_def call_server_def send_request_def i(1))
    then show ?thesis using False step drawn run t' by (auto simp: g_def)
  qed
qed

definition plain_proto :: game_proto where
  "plain_proto = \<lparr>gp_login_ack = (\<lambda>_. None), gp_match_ack = (\<lambda>_. None), gp_enter_ack = (\<lambda>_. None),
     gp_move_ack = (\<lambda>b. case b of [e, v] \<Rightarrow> Some (uint e, uint v) | _ \<Rightarrow> None),
     gp_move_brd = (\<lambda>b. case b of [x, y, v] \<Rightarrow> Some (ucast x, ucast y, uint v) | _ \<Rightarrow> None), gp_ping_ack = (\<lambda>_. Some ()),
     gp_login_req = (\<lambda>a p. a @ p), gp_msg_empty = [], gp_move_req = (\<lambda>x y. [ucast x, ucast y]), gp_ping_req = (\<lambda>_. [])\<rparr>"

definition sample_game :: "logic_pc \<Rightarrow> game_client" where
  "sample_game pc = (new_client [] [])\<lparr>gc_run := Rn_read, gc_logic := pc, gc_room := 7, gc_my_turn := True, gc_call := Some 9,
     gc_board := (replicate 225 Pos_none)[17 := Pos_white]\<rparr>"

theorem occupied_squares_only_witness:
  "\<exists>c1 c'. client_step plain_proto (Ev_line 9 (move_line 1 2)) (sample_game Lp_input) = Some c1 \<and> gc_board c1 = (gc_board (sample_game Lp_input))[17 := (if gc_black (sample_game Lp_input) then Pos_black else Pos_white)]
      \<and> client_run plain_proto [Ev_frame 0x2 (server_frame id_move_ack 9 [4, 0]), Ev_call] c1 = Some c' \<and> gc_board c' = replicate 225 Pos_none"
proof -
  have "gc_board (sample_game Lp_input) ! (unat (1 :: u32) * 15 + unat (2 :: u32)) = Pos_white" by (simp add: sample_game_def)
  moreover have "(gc_board (sample_game Lp_input))[unat (1 :: u32) * 15 + unat (2 :: u32) := Pos_none] = replicate 225 Pos_none"
    by (simp add: sample_game_def list_update_same_conv)
  ultimately show ?thesis
    using occupied_squares_only [of "sample_game Lp_input" 0 1 2 9 plain_proto "[4, 0]" 0]
    by (auto simp: sample_game_def new_client_def win_rate_def int32_ok_def checkerboard_size_def plain_proto_def ec_invalid_pos_def)
qed

theorem shown_board_determined_witness:
  "\<exists>c1. show_game (sample_game Lp_input) = Some c1 \<and> gc_board (sample_game Lp_input) = (replicate 225 Pos_none)[17 := Pos_white]"
proof -
  have "win_rate (gc_win_count (sample_game Lp_input)) (gc_lose_count (sample_game Lp_input)) = Some 0"
    by (simp add: sample_game_def new_client_def win_rate_def int32_ok_def)
  note g = show_game_defined [OF this]
  have "(sample_game Lp_input)\<lparr>gc_board := (replicate 225 Pos_none)[17 := Pos_white]\<rparr> = sample_game Lp_input" by (simp add: sample_game_def)
  then show ?thesis using g shown_board_determined [OF g, of "(replicate 225 Pos_none)[17 := Pos_white]"] by (simp add: sample_game_def)
qed

section \<open>Whose turn it is\<close>

text \<open>Events that neither end the connection nor bring a move of the opponent.\<close>

definition no_move :: "client_event \<Rightarrow> bool" where
  "no_move e = (case e of Ev_lost \<Rightarrow> False
     | Ev_frame op buffer \<Rightarrow> op \<noteq> 0x8 \<and> (is_websocket_control op \<or> wh_id (ws_header_of buffer) \<noteq> id_move_brd)
     | _ \<Rightarrow> True)"

definition waiting_for_turn :: "game_client \<Rightarrow> bool" where
  "waiting_for_turn c \<longleftrightarrow> gc_run c = Rn_read \<and> gc_logic c = Lp_turn \<and> gc_call c = None \<and> gc_answer c = None"

lemma client_frame_waiting:
  assumes "waiting_for_turn c" "no_move (Ev_frame op buffer)" "client_frame P op buffer c = Some c'"
  shows "waiting_for_turn c'"
  using assms by (auto simp: client_frame_def Let_def wake_call_def forward_broadcast_def waiting_for_turn_def no_move_def split: if_splits option.splits)

lemma client_step_waiting:
  assumes "waiting_for_turn c" "no_move e" "client_step P e c = Some c'"
  shows "waiting_for_turn c'"
  using assms client_frame_waiting [OF assms(1)]
  by (cases e) (auto simp: waiting_for_turn_def resume_call_def ping_due_def ping_timeout_def send_request_def no_move_def split: ping_pc.splits if_splits)

lemma client_run_waiting:
  "waiting_for_turn c \<Longrightarrow> list_all no_move es \<Longrightarrow> client_run P es c = Some c' \<Longrightarrow> waiting_for_turn c'"
proof (induction es arbitrary: c)
  case (Cons e es)
  then obtain d where d: "client_step P e c = Some d" "client_run P es d = Some c'" by (auto simp: bind_eq_Some_conv)
  have "waiting_for_turn d" using client_step_waiting [OF Cons.prems(1) _ d(1)] Cons.prems(2) by simp
  then show ?case using Cons.IH Cons.prems(2) d(2) by simp
qed simp

lemma forward_broadcast_move:
  assumes "win_rate (gc_win_count c) (gc_lose_count c) = Some r" "length (gc_board c) = 225"
    "gp_move_brd P data = Some (x, y, 0)" "x < checkerboard_size" "y < checkerboard_size"
  shows "\<exists>t. forward_broadcast P id_move_brd data c =
     Some ((notify_turn (say (Con_game t) (c\<lparr>gc_board := (gc_board c)[unat x * 15 + unat y := (if gc_black c then Pos_white else Pos_black)]\<rparr>)))\<lparr>gc_my_turn := True\<rparr>)"
  using draw_move_defined [of c r x y "\<not> gc_black c"] square_index_valid [OF assms(4,5)] assms(1-3)
  by (auto simp: forward_broadcast_def show_game_over_def)

text \<open>After a game that ended with the opponent's move the player is asked for a move in the next game whether or not it is his turn.\<close>

lemma asked_out_of_turn:
  assumes "gc_logic c = Lp_sleep (After_enter To_ask)" "win_rate (gc_win_count c) (gc_lose_count c) = Some r" "\<not> gc_my_turn c"
  shows "\<exists>c'. client_step P (Ev_slept session) c = Some c' \<and> gc_logic c' = Lp_input \<and> \<not> gc_my_turn c'"
  using assms by (simp add: resume_sleep_def show_game_def go_on_def ask_pos_def say_def)

text \<open>C17: The answer to the player's move and the opponent's move that follows it.  When \<open>logic\<close> runs between the two the player is asked for the next move.
  When both messages are there at once, the broadcast is handled before \<open>logic\<close> is resumed, which then records that it is not the player's turn:
  he waits for a move of the opponent, who waits for his, and nothing but such a move or the end of the connection changes that.\<close>

theorem turn_lost_in_burst:
  assumes "gc_run c = Rn_read" "gc_logic c = Lp_move x y" "gc_call c = Some session" "session \<noteq> 0" "gc_room c > 0" "length (gc_board c) = 225"
    "win_rate (gc_win_count c) (gc_lose_count c) = Some r" "gp_move_ack P ack = Some (ec_success, 0)"
    "gp_move_brd P brd = Some (ox, oy, 0)" "ox < checkerboard_size" "oy < checkerboard_size"
  shows "\<exists>c1 c2. client_run P [Ev_frame 0x2 (server_frame id_move_ack session ack), Ev_call, Ev_frame 0x2 (server_frame id_move_brd 0 brd), Ev_turn] c = Some c1
     \<and> gc_logic c1 = Lp_input \<and> gc_my_turn c1
     \<and> client_run P [Ev_frame 0x2 (server_frame id_move_ack session ack), Ev_frame 0x2 (server_frame id_move_brd 0 brd), Ev_call] c = Some c2
     \<and> gc_board c2 = gc_board c1 \<and> gc_logic c2 = Lp_turn \<and> \<not> gc_my_turn c2
     \<and> (\<forall>es c'. list_all no_move es \<and> client_run P es c2 = Some c' \<longrightarrow> gc_logic c' = Lp_turn)"
proof -
  define a where "a = c\<lparr>gc_call := None, gc_answer := Some ack\<rparr>"
  have a: "client_frame P 0x2 (server_frame id_move_ack session ack) c = Some a"
    using client_frame_answer [OF assms(3,4)] by (simp add: a_def)
  have call: "resume_call P d = Some (d\<lparr>gc_answer := None, gc_my_turn := False, gc_logic := Lp_turn\<rparr>)"
    if "gc_answer d = Some ack" "gc_logic d = Lp_move x y" "gc_room d > 0" for d
    using that assms(8) by (simp add: resume_call_def move_answered_def ec_success_def ec_invalid_pos_def show_game_over_def notify_turn_def
        after_move_def loop_head_def)
  define e where "e = a\<lparr>gc_answer := None, gc_my_turn := False, gc_logic := Lp_turn\<rparr>"
  obtain t where t: "forward_broadcast P id_move_brd brd e =
     Some ((notify_turn (say (Con_game t) (e\<lparr>gc_board := (gc_board e)[unat ox * 15 + unat oy := (if gc_black e then Pos_white else Pos_black)]\<rparr>)))\<lparr>gc_my_turn := True\<rparr>)"
    using forward_broadcast_move [of e r P brd ox oy] assms(6,7,9-11) by (auto simp: e_def a_def)
  obtain u where u: "forward_broadcast P id_move_brd brd a =
     Some ((notify_turn (say (Con_game u) (a\<lparr>gc_board := (gc_board a)[unat ox * 15 + unat oy := (if gc_black a then Pos_white else Pos_black)]\<rparr>)))\<lparr>gc_my_turn := True\<rparr>)"
    using forward_broadcast_move [of a r P brd ox oy] assms(6,7,9-11) by (auto simp: a_def)
  define b where "b = c\<lparr>gc_call := None, gc_answer := None, gc_my_turn := False, gc_logic := Lp_turn,
     gc_board := (gc_board c)[unat ox * 15 + unat oy := (if gc_black c then Pos_white else Pos_black)], gc_console := gc_console c @ [Con_game u]\<rparr>"
  have ea: "resume_call P a = Some e" using assms(2,5) call [of a] by (simp add: a_def e_def)
  define m where "m = (say (Con_game t) (e\<lparr>gc_board := (gc_board e)[unat ox * 15 + unat oy := (if gc_black e then Pos_white else Pos_black)]\<rparr>))
     \<lparr>gc_logic := Lp_notified, gc_my_turn := True\<rparr>"
  have m: "forward_broadcast P id_move_brd brd e = Some m"
    unfolding t m_def by (simp add: notify_turn_def say_def e_def)
  have f: "gc_run a = Rn_read" "gc_run e = Rn_read" "gc_logic m = Lp_notified" "gc_room m > 0"
    using assms(1,5) by (simp_all add: m_def e_def a_def say_def)
  have one: "client_run P [Ev_frame 0x2 (server_frame id_move_ack session ack), Ev_call, Ev_frame 0x2 (server_frame id_move_brd 0 brd), Ev_turn] c =
     Some (ask_pos m)"
    using f assms(1) by (simp add: a ea m client_frame_broadcast resume_turn_def)
  have two: "client_run P [Ev_frame 0x2 (server_frame id_move_ack session ack), Ev_frame 0x2 (server_frame id_move_brd 0 brd), Ev_call] c = Some b"
    using assms(1,2,5) by (simp add: a client_frame_broadcast u) (simp add: a_def notify_turn_def say_def call b_def)
  have "waiting_for_turn b" using assms(1) by (simp add: waiting_for_turn_def b_def)
  then have stuck: "\<forall>es c'. list_all no_move es \<and> client_run P es b = Some c' \<longrightarrow> gc_logic c' = Lp_turn"
    using client_run_waiting unfolding waiting_for_turn_def by blast
  have "gc_logic (ask_pos m) = Lp_input" "gc_my_turn (ask_pos m)" "gc_board b = gc_board (ask_pos m)" "gc_logic b = Lp_turn" "\<not> gc_my_turn b"
    by (simp_all add: ask_pos_def m_def say_def e_def a_def b_def)
  then show ?thesis using one two stuck by blast
qed

theorem turn_lost_in_burst_witness:
  "\<exists>c2. client_run plain_proto [Ev_frame 0x2 (server_frame id_move_ack 9 [0, 0]), Ev_frame 0x2 (server_frame id_move_brd 0 [3, 4, 0]), Ev_call]
      (sample_game (Lp_move 1 1)) = Some c2 \<and> gc_logic c2 = Lp_turn \<and> \<not> gc_my_turn c2"
proof -
  let ?c = "sample_game (Lp_move 1 1)"
  have "gc_run ?c = Rn_read" "gc_logic ?c = Lp_move 1 1" "gc_call ?c = Some 9" "(9 :: u64) \<noteq> 0" "gc_room ?c > 0" "length (gc_board ?c) = 225"
    "win_rate (gc_win_count ?c) (gc_lose_count ?c) = Some 0" "gp_move_ack plain_proto [0, 0] = Some (ec_success, 0)"
    "gp_move_brd plain_proto [3, 4, 0] = Some (3, 4, 0)" "3 < checkerboard_size" "4 < checkerboard_size"
    by (simp_all add: sample_game_def new_client_def win_rate_def int32_ok_def checkerboard_size_def plain_proto_def ec_success_def)
  then show ?thesis by (rule turn_lost_in_burst [THEN exE]) blast
qed

end
