(* ===== verification/Async_Session.thy ===== *)
theory Async_Session
  imports Prelude "HOL-Library.Multiset"
begin

text \<open>
  Results that another thread hands to a waiting coroutine (\<open>runtime/include/simple/coro/async_session.h\<close>, \<open>runtime/src/coro/async_session.cpp\<close>):
  the numbering of sessions, the map of waiting coroutines, the shared result and the awaiter with its cancellation callback.  A coroutine is a
  number, an awaiter is named by its session, and a token by a number.  \<open>as_posted\<close> are the wake-ups posted to the scheduler by other threads, \<open>as_wake\<close>
  is its queue of coroutines to resume.  \<open>as_awaited\<close> and \<open>as_out\<close> record the awaits and what each of them came back with.
\<close>

section \<open>State\<close>

datatype 'v async_value = Monostate | Value 'v | Exception_ptr nat

datatype 'v async_outcome = Got 'v | Threw nat | Canceled | Invalid_action | No_value

record 'v async_state =
  as_session :: u64
  as_wait :: "u64 \<Rightarrow> nat option"
  as_values :: "u64 \<Rightarrow> 'v async_value option"
  as_awaits :: "nat \<Rightarrow> u64"
  as_token :: "nat \<Rightarrow> nat option"
  as_canceled :: "nat set"
  as_registered :: "(nat \<times> u64) list"
  as_posted :: "u64 list"
  as_wake :: "nat list"
  as_awaited :: "nat list"
  as_out :: "(nat \<times> 'v async_outcome) list"

definition async_start :: "(nat \<Rightarrow> nat option) \<Rightarrow> 'v async_state" where
  "async_start tok = \<lparr>as_session = 0, as_wait = Map.empty, as_values = Map.empty, as_awaits = (\<lambda>_. 0), as_token = tok, as_canceled = {},
     as_registered = [], as_posted = [], as_wake = [], as_awaited = [], as_out = []\<rparr>"

section \<open>Sessions\<close>

definition async_create_session :: "'v async_state \<Rightarrow> u64 \<times> 'v async_state" where
  "async_create_session st =
     (let session = as_session st + 1; session = (if session = 0 then session + 1 else session)
      in (session, st\<lparr>as_session := session\<rparr>))"

definition async_insert_session :: "u64 \<Rightarrow> nat \<Rightarrow> 'v async_state \<Rightarrow> 'v async_state" where
  "async_insert_session session h st =
     (case as_wait st session of None \<Rightarrow> st\<lparr>as_wait := (as_wait st)(session \<mapsto> h)\<rparr> | Some _ \<Rightarrow> st)"

text \<open>\<open>wake_up_session\<close>, on the thread of the scheduler or on another one.\<close>

definition async_wake_up :: "bool \<Rightarrow> u64 \<Rightarrow> 'v async_state \<Rightarrow> 'v async_state" where
  "async_wake_up on_scheduler session st =
     (if on_scheduler
      then (case as_wait st session of None \<Rightarrow> st
            | Some h \<Rightarrow> st\<lparr>as_wait := (as_wait st)(session := None), as_wake := as_wake st @ [h]\<rparr>)
      else st\<lparr>as_posted := as_posted st @ [session]\<rparr>)"

section \<open>Results\<close>

text \<open>\<open>set_result\<close> and \<open>set_exception\<close>: nothing when the awaiter has gone.\<close>

definition async_set :: "bool \<Rightarrow> u64 \<Rightarrow> 'v async_value \<Rightarrow> 'v async_state \<Rightarrow> 'v async_state" where
  "async_set on_scheduler session v st =
     (case as_values st session of None \<Rightarrow> st
      | Some _ \<Rightarrow> async_wake_up on_scheduler session (st\<lparr>as_values := (as_values st)(session \<mapsto> v)\<rparr>))"

fun async_result :: "'v async_value \<Rightarrow> 'v async_outcome" where
  "async_result (Exception_ptr e) = Threw e"
| "async_result (Value v) = Got v"
| "async_result Monostate = No_value"

section \<open>The awaiter\<close>

definition new_awaiter :: "'v async_state \<Rightarrow> u64 \<times> 'v async_state" where
  "new_awaiter st = (case async_create_session st of (session, st) \<Rightarrow> (session, st\<lparr>as_values := (as_values st)(session \<mapsto> Monostate)\<rparr>))"

definition token_canceled :: "nat \<Rightarrow> 'v async_state \<Rightarrow> bool" where
  "token_canceled h st \<longleftrightarrow> as_token st h \<in> Some ` as_canceled st"

text \<open>\<open>check_resume\<close> and \<open>await_resume\<close>.  An awaiter without a result was moved away: it is ready at once and has no token.\<close>

definition async_await_resume :: "nat \<Rightarrow> 'v async_state \<Rightarrow> 'v async_state" where
  "async_await_resume h st =
     (let session = as_awaits st h; st = st\<lparr>as_registered := filter (\<lambda>r. snd r \<noteq> session) (as_registered st)\<rparr>
      in st\<lparr>as_out := as_out st @ [(h, case as_values st session of
              None \<Rightarrow> Invalid_action | Some v \<Rightarrow> if token_canceled h st then Canceled else async_result v)]\<rparr>)"

definition async_await :: "nat \<Rightarrow> u64 \<Rightarrow> 'v async_state \<Rightarrow> 'v async_state" where
  "async_await h session st =
     (let st = st\<lparr>as_awaits := (as_awaits st)(h := session), as_awaited := as_awaited st @ [h]\<rparr>
      in if as_values st session = None then async_await_resume h st
         else if token_canceled h st then async_await_resume h st
         else let st = (case as_token st h of None \<Rightarrow> st | Some t \<Rightarrow> st\<lparr>as_registered := (t, session) # as_registered st\<rparr>)
              in async_insert_session session h st)"

text \<open>A cancellation request runs the callbacks registered with the token.\<close>

definition async_cancel :: "nat \<Rightarrow> 'v async_state \<Rightarrow> 'v async_state" where
  "async_cancel t st =
     (if t \<in> as_canceled st then st
      else fold (\<lambda>r. async_wake_up True (snd r)) (filter (\<lambda>r. fst r = t) (as_registered st)) (st\<lparr>as_canceled := insert t (as_canceled st)\<rparr>))"

section \<open>The scheduler's turns\<close>

text \<open>The function that another thread posted, which resumes the coroutine itself, and the queue of woken coroutines.\<close>

definition async_run_posted :: "'v async_state \<Rightarrow> 'v async_state" where
  "async_run_posted st = (case as_posted st of [] \<Rightarrow> st
     | session # rest \<Rightarrow>
         let st = st\<lparr>as_posted := rest\<rparr>
         in case as_wait st session of None \<Rightarrow> st
            | Some h \<Rightarrow> async_await_resume h (st\<lparr>as_wait := (as_wait st)(session := None)\<rparr>))"

definition async_run_wake :: "'v async_state \<Rightarrow> 'v async_state" where
  "async_run_wake st = (case as_wake st of [] \<Rightarrow> st | h # hs \<Rightarrow> async_await_resume h (st\<lparr>as_wake := hs\<rparr>))"

text \<open>A coroutine awaits one thing at a time and a session is awaited by one coroutine.\<close>

datatype 'v async_event = Ae_create | Ae_await nat u64 | Ae_set bool u64 "'v async_value" | Ae_cancel nat | Ae_posted | Ae_wake

definition async_idle :: "nat \<Rightarrow> 'v async_state \<Rightarrow> bool" where
  "async_idle h st \<longleftrightarrow> count_list (as_awaited st) h = count_list (map fst (as_out st)) h"

fun async_step :: "'v async_event \<Rightarrow> 'v async_state \<Rightarrow> 'v async_state" where
  "async_step Ae_create st = snd (new_awaiter st)"
| "async_step (Ae_await h session) st = (if async_idle h st \<and> as_wait st session = None then async_await h session st else st)"
| "async_step (Ae_set on_scheduler session v) st = async_set on_scheduler session v st"
| "async_step (Ae_cancel t) st = async_cancel t st"
| "async_step Ae_posted st = async_run_posted st"
| "async_step Ae_wake st = async_run_wake st"

definition async_run :: "'v async_event list \<Rightarrow> 'v async_state \<Rightarrow> 'v async_state" where
  "async_run es st = fold async_step es st"

lemma async_run_simps [simp]: "async_run [] st = st" "async_run (e # es) st = async_run es (async_step e st)"
    "async_run (es @ es') st = async_run es' (async_run es st)"
  by (simp_all add: async_run_def)

section \<open>Every await comes back at most once\<close>

text \<open>The coroutines that wait.\<close>

definition waiting_coros :: "'v async_state \<Rightarrow> nat multiset" where
  "waiting_coros st = image_mset (\<lambda>s. the (as_wait st s)) (mset_set (dom (as_wait st)))"

text \<open>\<open>E\<close> are coroutines taken from the queues that are about to come back.\<close>

definition async_inv :: "nat multiset \<Rightarrow> 'v async_state \<Rightarrow> bool" where
  "async_inv E st \<longleftrightarrow> finite (dom (as_wait st))
     \<and> mset (as_awaited st) = mset (map fst (as_out st)) + mset (as_wake st) + waiting_coros st + E
     \<and> (\<forall>s h. as_wait st s = Some h \<longrightarrow> as_awaits st h = s \<and> as_values st s \<noteq> None)
     \<and> (\<forall>h. count_list (as_awaited st) h \<le> Suc (count_list (map fst (as_out st)) h))"

lemma waiting_insert:
  assumes "finite (dom (as_wait st))" "as_wait st s = None"
  shows "waiting_coros (st\<lparr>as_wait := (as_wait st)(s \<mapsto> h)\<rparr>) = add_mset h (waiting_coros st)"
proof -
  have "s \<notin> dom (as_wait st)" using assms(2) by auto
  then show ?thesis unfolding waiting_coros_def using assms
    by (auto intro!: image_mset_cong split: if_splits)
qed

lemma waiting_remove:
  assumes "finite (dom (as_wait st))" "as_wait st s = Some h"
  shows "waiting_coros st = add_mset h (waiting_coros (st\<lparr>as_wait := (as_wait st)(s := None)\<rparr>))"
proof -
  let ?st = "st\<lparr>as_wait := (as_wait st)(s := None)\<rparr>"
  have "st = ?st\<lparr>as_wait := (as_wait ?st)(s \<mapsto> h)\<rparr>" using assms(2) by (simp add: fun_upd_idem)
  then show ?thesis using waiting_insert [of ?st s h] assms(1) by simp
qed

lemma waiting_cong: "as_wait st = as_wait st' \<Longrightarrow> waiting_coros st = waiting_coros st'"
  by (simp add: waiting_coros_def)

lemma async_inv_wake_up: "async_inv E st \<Longrightarrow> async_inv E (async_wake_up b session st)"
  using waiting_remove [of st session] waiting_cong [of st "st\<lparr>as_posted := as_posted st @ [session]\<rparr>"]
    waiting_cong [of "st\<lparr>as_wait := (as_wait st)(session := None), as_wake := w\<rparr>" "st\<lparr>as_wait := (as_wait st)(session := None)\<rparr>" for w]
  by (auto simp: async_inv_def async_wake_up_def split: option.splits if_splits)

lemma async_inv_take:
  assumes "async_inv E st" "as_wait st s = Some h"
  shows "async_inv (add_mset h E) (st\<lparr>as_wait := (as_wait st)(s := None)\<rparr>)"
  using assms waiting_remove [of st s h] by (auto simp: async_inv_def split: if_splits)

lemma async_inv_resume: "async_inv (add_mset h E) st \<Longrightarrow> async_inv E (async_await_resume h st)"
  using waiting_cong [of "async_await_resume h st" st] by (auto simp: async_inv_def async_await_resume_def Let_def intro: le_SucI)

lemma async_inv_cong:
  assumes "async_inv E st" "as_wait st' = as_wait st" "as_awaited st' = as_awaited st" "as_out st' = as_out st" "as_wake st' = as_wake st"
    "as_awaits st' = as_awaits st" "\<And>s. as_values st s \<noteq> None \<Longrightarrow> as_values st' s \<noteq> None"
  shows "async_inv E st'"
  using assms waiting_cong [of st' st] unfolding async_inv_def by simp

lemma async_inv_set:
  assumes "async_inv E st"
  shows "async_inv E (async_set b session v st)"
proof -
  have "async_inv E (st\<lparr>as_values := (as_values st)(session \<mapsto> v)\<rparr>)" by (rule async_inv_cong [OF assms]) auto
  then show ?thesis using assms async_inv_wake_up by (auto simp: async_set_def split: option.splits)
qed

lemma async_inv_wake_ups: "async_inv E st \<Longrightarrow> async_inv E (fold (\<lambda>r. async_wake_up True (snd r)) rs st)"
  by (induction rs arbitrary: st) (auto intro: async_inv_wake_up)

lemma async_inv_cancel:
  assumes "async_inv E st"
  shows "async_inv E (async_cancel t st)"
proof -
  have "async_inv E (st\<lparr>as_canceled := insert t (as_canceled st)\<rparr>)" by (rule async_inv_cong [OF assms]) auto
  then show ?thesis using assms async_inv_wake_ups by (auto simp: async_cancel_def)
qed

lemma async_inv_posted:
  assumes "async_inv E st"
  shows "async_inv E (async_run_posted st)"
proof -
  have "async_inv E (st\<lparr>as_posted := p\<rparr>)" for p by (rule async_inv_cong [OF assms]) auto
  then show ?thesis using assms async_inv_take [of E "st\<lparr>as_posted := p\<rparr>" for p]
    by (auto simp: async_run_posted_def Let_def split: list.splits option.splits intro!: async_inv_resume)
qed

lemma async_inv_run_wake: "async_inv E st \<Longrightarrow> async_inv E (async_run_wake st)"
  using waiting_cong [of "st\<lparr>as_wake := tl (as_wake st)\<rparr>" st]
  by (auto simp: async_run_wake_def split: list.splits intro!: async_inv_resume) (auto simp: async_inv_def)

lemma async_inv_create:
  assumes "async_inv E st"
  shows "async_inv E (snd (new_awaiter st))"
  by (rule async_inv_cong [OF assms]) (auto simp: new_awaiter_def async_create_session_def Let_def)

lemma idle_not_waiting:
  assumes "async_inv E st" "async_idle h st"
  shows "as_wait st s \<noteq> Some h"
proof
  assume w: "as_wait st s = Some h"
  have "h \<in># waiting_coros st" using waiting_remove [OF _ w] assms(1) by (simp add: async_inv_def)
  moreover have "mset (as_awaited st) = mset (map fst (as_out st)) + mset (as_wake st) + waiting_coros st + E" using assms(1) by (simp only: async_inv_def)
  then have "count_list (as_awaited st) h = count_list (map fst (as_out st)) h + count (mset (as_wake st)) h + count (waiting_coros st) h + count E h"
    by (metis count_mset count_union)
  ultimately show False using assms(2) by (simp add: async_idle_def flip: count_greater_zero_iff)
qed

lemma async_inv_await:
  assumes "async_inv E st" "async_idle h st" "as_wait st session = None"
  shows "async_inv E (async_await h session st)"
proof -
  define a where "a = st\<lparr>as_awaits := (as_awaits st)(h := session), as_awaited := as_awaited st @ [h]\<rparr>"
  note idle = idle_not_waiting [OF assms(1,2)]
  have a: "async_inv (add_mset h E) a"
    using assms idle waiting_cong [of a st] by (auto simp: async_inv_def a_def async_idle_def)
  have ins: "async_inv E (async_insert_session session h b)"
    if "as_wait b = as_wait a" "as_awaited b = as_awaited a" "as_out b = as_out a" "as_wake b = as_wake a" "as_awaits b = as_awaits a"
      "as_values b = as_values a" "as_values a session \<noteq> None" for b
  proof -
    have b: "async_inv (add_mset h E) b" by (rule async_inv_cong [OF a]) (use that in auto)
    have "as_wait b session = None" "as_awaits b h = session" using that assms(3) by (simp_all add: a_def)
    then show ?thesis using b waiting_insert [of b session h] that(6,7) by (auto simp: async_inv_def async_insert_session_def)
  qed
  show ?thesis
    using a ins async_inv_resume [of h E a] unfolding async_await_def Let_def a_def [symmetric]
    by (auto split: option.splits)
qed

lemma async_inv_step: "async_inv {#} st \<Longrightarrow> async_inv {#} (async_step e st)"
  by (cases e) (auto intro: async_inv_set async_inv_cancel async_inv_posted async_inv_run_wake async_inv_create async_inv_await)

lemma async_inv_run: "async_inv {#} st \<Longrightarrow> async_inv {#} (async_run es st)"
  by (induction es arbitrary: st) (auto intro: async_inv_step)

lemma async_inv_start: "async_inv {#} (async_start tok)"
  by (simp add: async_inv_def async_start_def waiting_coros_def)

text \<open>C13: Whatever the order of awaits, results from either side, cancellations and turns of the scheduler: a coroutine comes back from its awaits as
  often as it awaited, less one when it still waits in the map or in the queue of woken coroutines, where it then stands exactly once.\<close>

theorem async_await_once:
  "count_list (as_awaited (async_run es (async_start tok))) h
     = count_list (map fst (as_out (async_run es (async_start tok)))) h
       + (count_list (as_wake (async_run es (async_start tok))) h + card {s. as_wait (async_run es (async_start tok)) s = Some h})
   \<and> count_list (as_wake (async_run es (async_start tok))) h + card {s. as_wait (async_run es (async_start tok)) s = Some h} \<le> 1"
proof -
  define st where "st = async_run es (async_start tok)"
  have i: "async_inv {#} st" unfolding st_def by (rule async_inv_run [OF async_inv_start])
  then have m: "mset (as_awaited st) = mset (map fst (as_out st)) + mset (as_wake st) + waiting_coros st" by (simp add: async_inv_def)
  have fin: "finite (dom (as_wait st))" using i by (simp add: async_inv_def)
  have "count (waiting_coros st) h = card {s \<in> dom (as_wait st). the (as_wait st s) = h}"
    unfolding waiting_coros_def using fin
    by (simp add: count_image_mset' card_eq_sum eq_commute [of h] del: sum_constant cong: conj_cong)
  also have "{s \<in> dom (as_wait st). the (as_wait st s) = h} = {s. as_wait st s = Some h}" by auto
  finally have w: "count (waiting_coros st) h = card {s. as_wait st s = Some h}" .
  have c: "count_list (as_awaited st) h = count_list (map fst (as_out st)) h + (count_list (as_wake st) h + card {s. as_wait st s = Some h})"
    using arg_cong [OF m, of "\<lambda>M. count M h"] by (simp add: w flip: count_mset)
  moreover have "count_list (as_awaited st) h \<le> Suc (count_list (map fst (as_out st)) h)" using i by (simp add: async_inv_def)
  ultimately show ?thesis unfolding st_def [symmetric] by linarith
qed

section \<open>Sessions do not repeat\<close>

fun create_all :: "nat \<Rightarrow> 'v async_state \<Rightarrow> u64 list" where
  "create_all 0 st = []"
| "create_all (Suc n) st = (case new_awaiter st of (s, st) \<Rightarrow> s # create_all n st)"

lemma new_awaiter_session:
  "fst (new_awaiter st) = as_session (snd (new_awaiter st))"
  "as_session (snd (new_awaiter st)) = (if as_session st = - 1 then 1 else as_session st + 1)"
  by (auto simp: new_awaiter_def async_create_session_def Let_def add_eq_0_iff2)

lemma create_all_bound:
  "unat (as_session st) + n < 2 ^ 64 \<Longrightarrow> create_all n st = map (\<lambda>i. as_session st + 1 + of_nat i) [0..<n]"
proof (induction n arbitrary: st)
  case (Suc n)
  let ?st = "snd (new_awaiter st)"
  have "as_session st \<noteq> - 1"
  proof
    assume "as_session st = - 1"
    then show False using Suc.prems by (simp add: unsigned_minus_1_eq_mask mask_eq_exp_minus_1)
  qed
  then have a: "as_session ?st = as_session st + 1" by (simp add: new_awaiter_session(2))
  have "unat (as_session st + 1) = unat (as_session st) + 1" using Suc.prems by (simp add: unat_word_ariths)
  then have "create_all n ?st = map (\<lambda>i. as_session ?st + 1 + of_nat i) [0..<n]" using Suc.IH [of ?st] Suc.prems a by simp
  moreover have "create_all (Suc n) st = as_session ?st # create_all n ?st"
    by (simp add: split_beta new_awaiter_session(1))
  ultimately show ?case unfolding upt_rec [of 0 "Suc n"] a by (simp add: map_Suc_upt [symmetric] algebra_simps del: upt_Suc map_Suc_upt)
qed simp

lemma async_sessions_fresh:
  assumes "unat (as_session st) + n < 2 ^ 64"
  shows "distinct (create_all n st) \<and> 0 \<notin> set (create_all n st) \<and> as_session st \<notin> set (create_all n st)"
proof -
  have u: "unat (as_session st + 1 + of_nat i) = unat (as_session st) + 1 + i" if "i < n" for i
  proof -
    have "unat (of_nat i :: u64) = i" using that assms by (simp add: unat_of_nat)
    then show ?thesis using that assms by (simp add: unat_word_ariths)
  qed
  have "inj_on (\<lambda>i. as_session st + 1 + of_nat i) {0..<n}" by (rule inj_onI) (metis atLeastLessThan_iff u add_left_cancel)
  moreover have "as_session st + 1 + of_nat i \<noteq> 0 \<and> as_session st + 1 + of_nat i \<noteq> as_session st" if "i < n" for i
  proof
    show "as_session st + 1 + of_nat i \<noteq> 0" using u [OF that] by (metis add_is_0 one_neq_zero unat_0)
    have "unat (as_session st + 1 + of_nat i) \<noteq> unat (as_session st)" unfolding u [OF that] by simp
    then show "as_session st + 1 + of_nat i \<noteq> as_session st" by metis
  qed
  ultimately show ?thesis unfolding create_all_bound [OF assms] by (force simp: distinct_map)
qed

section \<open>Delivery\<close>

lemma resume_out: "as_values st (as_awaits st h) = Some v \<Longrightarrow> \<not> token_canceled h st \<Longrightarrow> as_out (async_await_resume h st) = as_out st @ [(h, async_result v)]"
  by (simp add: async_await_resume_def Let_def token_canceled_def)

text \<open>What a resumption leaves alone.\<close>

lemma resume_keeps [simp]:
  "as_wait (async_await_resume h st) = as_wait st" "as_values (async_await_resume h st) = as_values st" "as_awaits (async_await_resume h st) = as_awaits st"
  "as_posted (async_await_resume h st) = as_posted st" "as_wake (async_await_resume h st) = as_wake st"
  "token_canceled k (async_await_resume h st) = token_canceled k st" "as_canceled (async_await_resume h st) = as_canceled st"
  "as_token (async_await_resume h st) = as_token st" "set (as_out st) \<subseteq> set (as_out (async_await_resume h st))"
  "as_session (async_await_resume h st) = as_session st"
  by (auto simp: async_await_resume_def Let_def token_canceled_def)

lemma posted_keeps [simp]:
  "as_values (async_run_posted st) = as_values st" "as_awaits (async_run_posted st) = as_awaits st"
  "token_canceled k (async_run_posted st) = token_canceled k st" "as_posted (async_run_posted st) = tl (as_posted st)"
  "set (as_out st) \<subseteq> set (as_out (async_run_posted st))"
  using resume_keeps(9) [of "st\<lparr>as_posted := p, as_wait := w\<rparr>" for p w]
  by (auto simp: async_run_posted_def Let_def token_canceled_def split: list.splits option.splits)

lemma posted_delivers:
  assumes "as_wait st session = Some h" "as_awaits st h = session" "as_values st session = Some (Value v)" "\<not> token_canceled h st"
  shows "as_wait (async_run_posted st) session = Some h \<and> (as_posted st = [] \<or> hd (as_posted st) \<noteq> session)
     \<or> (h, Got v) \<in> set (as_out (async_run_posted st))"
proof (cases "as_posted st")
  case (Cons s rest)
  show ?thesis
  proof (cases "s = session")
    case True
    have "as_out (async_run_posted st) = as_out st @ [(h, Got v)]"
      using Cons True assms resume_out [of "st\<lparr>as_posted := rest, as_wait := (as_wait st)(session := None)\<rparr>" h "Value v"]
      by (simp add: async_run_posted_def token_canceled_def)
    then show ?thesis by simp
  next
    case False
    then show ?thesis using Cons assms by (auto simp: async_run_posted_def Let_def split: option.splits)
  qed
qed (use assms in \<open>simp add: async_run_posted_def\<close>)

lemma posted_drain:
  assumes "as_awaits st h = session" "as_values st session = Some (Value v)" "\<not> token_canceled h st"
    "as_wait st session = Some h \<and> session \<in> set (as_posted st) \<or> (h, Got v) \<in> set (as_out st)"
  shows "(h, Got v) \<in> set (as_out (async_run (replicate (length (as_posted st)) Ae_posted) st))"
  using assms
proof (induction "length (as_posted st)" arbitrary: st)
  case (Suc n)
  let ?st = "async_run_posted st"
  have l: "n = length (as_posted ?st)" using Suc.hyps(2) by simp
  have "as_wait ?st session = Some h \<and> session \<in> set (as_posted ?st) \<or> (h, Got v) \<in> set (as_out ?st)"
    using Suc.prems(4)
  proof
    assume w: "as_wait st session = Some h \<and> session \<in> set (as_posted st)"
    then show ?thesis using posted_delivers [of st session h v] Suc.prems(1-3) by (cases "as_posted st") auto
  next
    assume "(h, Got v) \<in> set (as_out st)"
    then show ?thesis using posted_keeps(5) [of st] by blast
  qed
  then have "(h, Got v) \<in> set (as_out (async_run (replicate (length (as_posted ?st)) Ae_posted) ?st))"
    using Suc.hyps(1) [OF l] Suc.prems(1-3) by simp
  moreover have "async_run (replicate (length (as_posted st)) Ae_posted) st = async_run (replicate (length (as_posted ?st)) Ae_posted) ?st"
    unfolding Suc.hyps(2) [symmetric] l [symmetric] by simp
  ultimately show ?case by simp
qed auto

lemma wake_drain:
  assumes "as_awaits st h = session" "as_values st session = Some (Value v)" "\<not> token_canceled h st" "h \<in> set (as_wake st) \<or> (h, Got v) \<in> set (as_out st)"
  shows "(h, Got v) \<in> set (as_out (async_run (replicate (length (as_wake st)) Ae_wake) st))"
  using assms
proof (induction "length (as_wake st)" arbitrary: st)
  case (Suc n)
  then obtain k ks where k: "as_wake st = k # ks" by (cases "as_wake st") auto
  let ?st = "async_run_wake st"
  have s: "?st = async_await_resume k (st\<lparr>as_wake := ks\<rparr>)" using k by (simp add: async_run_wake_def)
  have l: "n = length (as_wake ?st)" using Suc.hyps(2) k by (simp add: s)
  have keep: "as_awaits ?st h = session" "as_values ?st session = Some (Value v)" "\<not> token_canceled h ?st"
    using Suc.prems(1-3) by (simp_all add: s token_canceled_def)
  have sub: "set (as_out st) \<subseteq> set (as_out ?st)" using resume_keeps(9) [of "st\<lparr>as_wake := ks\<rparr>" k] by (simp add: s)
  have "h \<in> set (as_wake ?st) \<or> (h, Got v) \<in> set (as_out ?st)"
  proof (cases "k = h")
    case True
    have "as_out ?st = as_out st @ [(h, Got v)]"
      using resume_out [of "st\<lparr>as_wake := ks\<rparr>" h "Value v"] Suc.prems(1-3) by (simp add: s True token_canceled_def)
    then show ?thesis by simp
  next
    case False
    then show ?thesis using Suc.prems(4) sub k by (auto simp: s)
  qed
  then have "(h, Got v) \<in> set (as_out (async_run (replicate (length (as_wake ?st)) Ae_wake) ?st))"
    using Suc.hyps(1) [OF l] keep by simp
  moreover have "async_run (replicate (length (as_wake st)) Ae_wake) st = async_run (replicate (length (as_wake ?st)) Ae_wake) ?st"
    unfolding Suc.hyps(2) [symmetric] l [symmetric] by simp
  ultimately show ?case by simp
qed auto

text \<open>C14: A coroutine that waits for a session and is not cancelled comes back with the value it is given: after the turns that run the functions posted
  so far when the value comes from another thread, and after those that empty the queue of woken coroutines when it comes from the scheduler's own.\<close>

theorem async_delivered:
  assumes "st = async_run es (async_start tok)" "as_wait st session = Some h" "\<not> token_canceled h st"
  shows "(h, Got v) \<in> set (as_out (async_run
     (if on_scheduler then Ae_set True session (Value v) # replicate (Suc (length (as_wake st))) Ae_wake
      else Ae_set False session (Value v) # replicate (Suc (length (as_posted st))) Ae_posted) st))"
proof -
  have "async_inv {#} st" unfolding assms(1) by (rule async_inv_run [OF async_inv_start])
  then have i: "as_awaits st h = session" "as_values st session \<noteq> None" using assms(2) by (auto simp: async_inv_def)
  then obtain w where w: "as_values st session = Some w" by auto
  define d where "d = async_set on_scheduler session (Value v) st"
  have d: "as_awaits d h = session" "as_values d session = Some (Value v)" "\<not> token_canceled h d"
    using i(1) w assms(2,3) by (simp_all add: d_def async_set_def async_wake_up_def token_canceled_def)
  show ?thesis
  proof (cases on_scheduler)
    case True
    then have "as_wake d = as_wake st @ [h]" using w assms(2) by (simp add: d_def async_set_def async_wake_up_def)
    then show ?thesis using wake_drain [OF d] True by (simp add: d_def del: replicate_Suc)
  next
    case False
    then have "as_wait d session = Some h" "as_posted d = as_posted st @ [session]"
      using w assms(2) by (simp_all add: d_def async_set_def async_wake_up_def)
    then show ?thesis using posted_drain [OF d] False by (simp add: d_def del: replicate_Suc)
  qed
qed

theorem async_delivered_witness:
  "(5, Got (42 :: nat)) \<in> set (as_out (async_run (Ae_set False 1 (Value 42) # replicate 2 Ae_posted)
     (async_run [Ae_create, Ae_create, Ae_set False 2 (Value 7), Ae_await 5 1] (async_start (\<lambda>_. None)))))"
proof -
  define st :: "nat async_state" where "st = async_run [Ae_create, Ae_create, Ae_set False 2 (Value 7), Ae_await 5 1] (async_start (\<lambda>_. None))"
  have "as_wait st 1 = Some 5 \<and> as_posted st = [2] \<and> \<not> token_canceled 5 st"
    by (simp add: st_def async_start_def new_awaiter_def async_create_session_def Let_def async_set_def async_wake_up_def async_idle_def async_await_def
        async_insert_session_def token_canceled_def)
  then show ?thesis using async_delivered [OF st_def, of 1 5 42 False] unfolding st_def [symmetric]
    by (simp add: numeral_2_eq_2 del: async_run_simps(2))
qed

section \<open>Results that come too early\<close>

text \<open>Events that wake nobody who waits for \<open>session\<close> with the token \<open>t\<close>.\<close>

fun leaves_waiting :: "u64 \<Rightarrow> nat option \<Rightarrow> 'v async_event \<Rightarrow> bool" where
  "leaves_waiting session t (Ae_set b s v) = (s \<noteq> session)"
| "leaves_waiting session t (Ae_cancel u) = (t \<noteq> Some u)"
| "leaves_waiting session t _ = True"

definition stays_waiting :: "u64 \<Rightarrow> nat \<Rightarrow> 'v async_state \<Rightarrow> bool" where
  "stays_waiting session h st \<longleftrightarrow> as_wait st session = Some h \<and> session \<notin> set (as_posted st)
     \<and> (\<forall>r\<in>set (as_registered st). snd r = session \<longrightarrow> as_token st h = Some (fst r))"

lemma stays_wake_up: "stays_waiting session h st \<Longrightarrow> s \<noteq> session \<Longrightarrow> stays_waiting session h (async_wake_up b s st)"
  by (auto simp: stays_waiting_def async_wake_up_def split: option.splits)

lemma wake_up_token [simp]: "as_token (async_wake_up b s st) = as_token st"
  by (simp add: async_wake_up_def split: option.splits)

lemma stays_resume: "stays_waiting session h st \<Longrightarrow> stays_waiting session h (async_await_resume k st)"
  by (auto simp: stays_waiting_def async_await_resume_def Let_def)

lemma stays_wake_ups:
  "stays_waiting session h st \<Longrightarrow> (\<forall>r\<in>set rs. snd r \<noteq> session) \<Longrightarrow> stays_waiting session h (fold (\<lambda>r. async_wake_up True (snd r)) rs st)"
  by (induction rs arbitrary: st) (auto intro: stays_wake_up)

lemma stays_await:
  assumes "stays_waiting session h st" "s \<noteq> session"
  shows "stays_waiting session h (async_await k s st)"
proof -
  let ?a = "st\<lparr>as_awaits := (as_awaits st)(k := s), as_awaited := as_awaited st @ [k]\<rparr>"
  have a: "stays_waiting session h ?a" using assms(1) by (simp add: stays_waiting_def)
  have ins: "stays_waiting session h (async_insert_session s k b)" if "stays_waiting session h b" for b
    using that assms(2) by (auto simp: stays_waiting_def async_insert_session_def split: option.splits)
  have reg: "stays_waiting session h (?a\<lparr>as_registered := (t, s) # as_registered ?a\<rparr>)" for t
    using a assms(2) by (simp add: stays_waiting_def)
  show ?thesis unfolding async_await_def Let_def
    using stays_resume [OF a] ins [OF a] ins [OF reg] by (simp split: option.splits)
qed

lemma stays_step:
  assumes "stays_waiting session h st" "leaves_waiting session (as_token st h) e"
  shows "stays_waiting session h (async_step e st)"
proof (cases e)
  case Ae_create
  then show ?thesis using assms(1) by (auto simp: stays_waiting_def new_awaiter_def async_create_session_def Let_def)
next
  case (Ae_await k s)
  have "as_wait st session = Some h" using assms(1) by (simp add: stays_waiting_def)
  then show ?thesis using Ae_await assms(1) stays_await [OF assms(1), of s k] by (cases "s = session") auto
next
  case (Ae_set b s v)
  have "stays_waiting session h (st\<lparr>as_values := f\<rparr>)" for f using assms(1) by (simp add: stays_waiting_def)
  then show ?thesis using Ae_set assms by (auto simp: async_set_def split: option.splits intro: stays_wake_up)
next
  case (Ae_cancel t)
  have "stays_waiting session h (st\<lparr>as_canceled := f\<rparr>)" for f using assms(1) by (simp add: stays_waiting_def)
  moreover have "\<forall>r\<in>set (filter (\<lambda>r. fst r = t) (as_registered st)). snd r \<noteq> session"
    using assms Ae_cancel by (auto simp: stays_waiting_def)
  ultimately have "stays_waiting session h (fold (\<lambda>r. async_wake_up True (snd r)) (filter (\<lambda>r. fst r = t) (as_registered st)) (st\<lparr>as_canceled := insert t (as_canceled st)\<rparr>))"
    by (rule stays_wake_ups)
  then show ?thesis using assms(1) Ae_cancel by (simp add: async_cancel_def)
next
  case Ae_posted
  show ?thesis
  proof (cases "as_posted st")
    case (Cons s rest)
    then have p: "stays_waiting session h (st\<lparr>as_posted := rest\<rparr>)" "s \<noteq> session" using assms(1) by (auto simp: stays_waiting_def)
    then have "stays_waiting session h (st\<lparr>as_posted := rest, as_wait := (as_wait st)(s := None)\<rparr>)" by (simp add: stays_waiting_def)
    then show ?thesis using Ae_posted Cons p(1) stays_resume by (auto simp: async_run_posted_def Let_def split: option.splits)
  qed (use assms(1) Ae_posted in \<open>simp add: async_run_posted_def\<close>)
next
  case Ae_wake
  have "stays_waiting session h (st\<lparr>as_wake := f\<rparr>)" for f using assms(1) by (simp add: stays_waiting_def)
  then show ?thesis using Ae_wake assms(1) by (auto simp: async_run_wake_def split: list.splits intro: stays_resume)
qed

lemma wake_ups_token [simp]: "as_token (fold (\<lambda>r. async_wake_up True (snd r)) rs st) = as_token st"
  by (induction rs arbitrary: st) auto

lemma step_token [simp]: "as_token (async_step e st) = as_token st"
  by (cases e) (auto simp: new_awaiter_def async_create_session_def Let_def async_await_def async_insert_session_def async_set_def async_cancel_def
      async_run_posted_def async_run_wake_def split: option.splits list.splits)

lemma stays_run:
  "stays_waiting session h st \<Longrightarrow> list_all (leaves_waiting session (as_token st h)) es \<Longrightarrow> stays_waiting session h (async_run es st)"
proof (induction es arbitrary: st)
  case (Cons e es)
  then have "stays_waiting session h (async_step e st)" by (intro stays_step) simp_all
  then show ?case using Cons by (simp del: async_step.simps)
qed simp

text \<open>A result that the scheduler's own thread sets before the coroutine awaits it wakes nobody and is not looked at by the await: the coroutine
  suspends, and unless another result is set for the same session or its token is cancelled it stays in the map for ever, although the value is there.\<close>

theorem early_result_lost:
  assumes "as_values st session = Some w" "as_wait st session = None" "async_idle h st" "\<not> token_canceled h st" "session \<notin> set (as_posted st)"
    "session \<notin> snd ` set (as_registered st)" "list_all (leaves_waiting session (as_token st h)) es"
  shows "as_wait (async_run (Ae_set True session v # Ae_await h session # es) st) session = Some h
     \<and> as_values (async_run [Ae_set True session v, Ae_await h session] st) session = Some v"
proof -
  define d where "d = async_run [Ae_set True session v, Ae_await h session] st"
  have "stays_waiting session h d" "as_values d session = Some v" "as_token d h = as_token st h"
    using assms(1-6)
    by (auto simp: d_def async_set_def async_wake_up_def async_idle_def async_await_def token_canceled_def Let_def async_insert_session_def
        stays_waiting_def split: option.splits)
  then show ?thesis using stays_run [of session h d es] assms(7) by (simp add: d_def stays_waiting_def del: async_step.simps)
qed

theorem early_result_lost_witness:
  "as_wait (async_run (Ae_set True 1 (Value True) # Ae_await 5 1 # [Ae_wake, Ae_posted, Ae_create, Ae_cancel 3])
     (snd (new_awaiter (async_start (\<lambda>_. None))))) 1 = Some 5"
proof -
  let ?st = "snd (new_awaiter (async_start (\<lambda>_. None))) :: bool async_state"
  have "as_values ?st 1 = Some Monostate" "as_wait ?st 1 = None" "async_idle 5 ?st" "\<not> token_canceled 5 ?st" "1 \<notin> set (as_posted ?st)"
    "1 \<notin> snd ` set (as_registered ?st)" "list_all (leaves_waiting 1 (as_token ?st 5)) [Ae_wake, Ae_posted, Ae_create, Ae_cancel 3]"
    by (simp_all add: async_start_def new_awaiter_def async_create_session_def async_idle_def token_canceled_def)
  from early_result_lost [OF this, of "Value True"] show ?thesis by simp
qed

end
