(* ===== verification/Timed_Awaiter.thy ===== *)
theory Timed_Awaiter
  imports Timer_Queue
begin

text \<open>
  Coroutines that sleep (\<open>runtime/include/simple/coro/timed_awaiter.h\<close>, \<open>timed_awaiter.cpp\<close>, and the part of \<open>scheduler::run\<close> that resumes them):
  an awaiter is a node of the timer heap, with the callback it registers with its cancellation token.  A coroutine and its awaiter have the same address.
  \<open>sl_ready\<close> are the nodes that \<open>get_ready_timers\<close> took out and that the loop of the scheduler has still to resume, \<open>sl_wake\<close> its queue of woken
  coroutines; what runs in between may cancel any of them.  \<open>sl_slept\<close> and \<open>sl_out\<close> record the awaits and how each of them came back: the time it asked
  for, the time of the return and whether it threw \<open>canceled\<close>.
\<close>

section \<open>The code\<close>

record sleep_state =
  sl_queue :: timer_queue
  sl_now :: int
  sl_point :: "addr \<Rightarrow> int"
  sl_token :: "addr \<Rightarrow> nat option"
  sl_canceled :: "nat set"
  sl_registered :: "(nat \<times> addr) list"
  sl_ready :: "addr list"
  sl_wake :: "addr list"
  sl_slept :: "addr list"
  sl_out :: "(addr \<times> int \<times> int \<times> bool) list"

definition sleep_start :: "(addr \<Rightarrow> nat option) \<Rightarrow> sleep_state" where
  "sleep_start tok = \<lparr>sl_queue = empty_timer_queue, sl_now = 0, sl_point = (\<lambda>_. 0), sl_token = tok, sl_canceled = {}, sl_registered = [],
     sl_ready = [], sl_wake = [], sl_slept = [], sl_out = []\<rparr>"

definition sleep_canceled :: "addr \<Rightarrow> sleep_state \<Rightarrow> bool" where
  "sleep_canceled h st \<longleftrightarrow> sl_token st h \<in> Some ` sl_canceled st"

definition sleep_await_resume :: "addr \<Rightarrow> sleep_state \<Rightarrow> sleep_state" where
  "sleep_await_resume h st =
     (let st = st\<lparr>sl_registered := filter (\<lambda>r. snd r \<noteq> h) (sl_registered st)\<rparr>
      in st\<lparr>sl_out := sl_out st @ [(h, sl_point st h, sl_now st, sleep_canceled h st)]\<rparr>)"

text \<open>\<open>co_await sleep_until(point)\<close>.\<close>

definition sleep_await :: "addr \<Rightarrow> int \<Rightarrow> sleep_state \<Rightarrow> sleep_state" where
  "sleep_await h point st =
     (let st = st\<lparr>sl_queue := new_timed_awaiter h point (sl_queue st), sl_point := (sl_point st)(h := point), sl_slept := sl_slept st @ [h]\<rparr>
      in if sleep_canceled h st \<or> sl_now st \<ge> point then sleep_await_resume h st
         else let st = (case sl_token st h of None \<Rightarrow> st | Some t \<Rightarrow> st\<lparr>sl_registered := (t, h) # sl_registered st\<rparr>)
              in st\<lparr>sl_queue := timer_enqueue h (sl_queue st)\<rparr>)"

definition sleep_for :: "addr \<Rightarrow> int \<Rightarrow> sleep_state \<Rightarrow> sleep_state" where
  "sleep_for h dur st = sleep_await h (sl_now st + dur) st"

definition sleep_callback :: "addr \<Rightarrow> sleep_state \<Rightarrow> sleep_state" where
  "sleep_callback h st =
     (case timer_remove h (sl_queue st) of (found, q) \<Rightarrow>
        let st = st\<lparr>sl_queue := q\<rparr> in if found then st\<lparr>sl_wake := sl_wake st @ [h]\<rparr> else st)"

definition sleep_cancel :: "nat \<Rightarrow> sleep_state \<Rightarrow> sleep_state" where
  "sleep_cancel t st =
     (if t \<in> sl_canceled st then st
      else fold (\<lambda>r. sleep_callback (snd r)) (filter (\<lambda>r. fst r = t) (sl_registered st)) (st\<lparr>sl_canceled := insert t (sl_canceled st)\<rparr>))"

text \<open>The scheduler takes the timers that are due, resumes them one after the other, and then the woken coroutines.  \<open>None\<close> is a loop that does not end.\<close>

definition sleep_tick :: "int \<Rightarrow> sleep_state \<Rightarrow> sleep_state option" where
  "sleep_tick now st = map_option (\<lambda>(nodes, q). st\<lparr>sl_now := now, sl_queue := q, sl_ready := sl_ready st @ nodes\<rparr>)
     (get_ready_timers now (sl_queue st) [])"

definition sleep_run_ready :: "sleep_state \<Rightarrow> sleep_state" where
  "sleep_run_ready st = (case sl_ready st of [] \<Rightarrow> st | h # hs \<Rightarrow> sleep_await_resume h (st\<lparr>sl_ready := hs\<rparr>))"

definition sleep_run_wake :: "sleep_state \<Rightarrow> sleep_state" where
  "sleep_run_wake st = (case sl_wake st of [] \<Rightarrow> st | h # hs \<Rightarrow> sleep_await_resume h (st\<lparr>sl_wake := hs\<rparr>))"

section \<open>Runs\<close>

text \<open>The clock does not go back, a coroutine sleeps once at a time, and the heap is smaller than the largest index.\<close>

datatype sleep_event = Sl_until addr int | Sl_for addr int | Sl_cancel nat | Sl_tick int | Sl_ready | Sl_wake

definition sleep_idle :: "addr \<Rightarrow> sleep_state \<Rightarrow> bool" where
  "sleep_idle h st \<longleftrightarrow> count_list (sl_slept st) h = count_list (map fst (sl_out st)) h \<and> length (tq_heap (sl_queue st)) + 1 < npos"

fun sleep_step :: "sleep_event \<Rightarrow> sleep_state \<Rightarrow> sleep_state option" where
  "sleep_step (Sl_until h point) st = Some (if sleep_idle h st then sleep_await h point st else st)"
| "sleep_step (Sl_for h dur) st = Some (if sleep_idle h st then sleep_for h dur st else st)"
| "sleep_step (Sl_cancel t) st = Some (sleep_cancel t st)"
| "sleep_step (Sl_tick now) st = (if now < sl_now st then Some st else sleep_tick now st)"
| "sleep_step Sl_ready st = Some (sleep_run_ready st)"
| "sleep_step Sl_wake st = Some (sleep_run_wake st)"

fun sleep_run :: "sleep_event list \<Rightarrow> sleep_state \<Rightarrow> sleep_state option" where
  "sleep_run [] st = Some st"
| "sleep_run (e # es) st = Option.bind (sleep_step e st) (sleep_run es)"

section \<open>The invariant\<close>

text \<open>\<open>E\<close> are coroutines taken from a queue that are about to come back.\<close>

definition sleep_inv :: "addr multiset \<Rightarrow> sleep_state \<Rightarrow> bool" where
  "sleep_inv E st \<longleftrightarrow> tq_wf (sl_queue st)
     \<and> mset (sl_slept st) = mset (map fst (sl_out st)) + mset (sl_ready st) + mset (sl_wake st) + mset_set (dom (pending (sl_queue st))) + E
     \<and> (\<forall>h t. pending (sl_queue st) h = Some t \<longrightarrow> t = max 0 (sl_point st h))
     \<and> (\<forall>h\<in>set (sl_ready st). sl_point st h \<le> sl_now st)
     \<and> (\<forall>h\<in>set (sl_wake st). sleep_canceled h st)
     \<and> (\<forall>h\<in>#E. sl_point st h \<le> sl_now st \<or> sleep_canceled h st)
     \<and> (\<forall>(h, p, t, c)\<in>set (sl_out st). c \<or> p \<le> t)
     \<and> (\<forall>r\<in>set (sl_registered st). sl_token st (snd r) = Some (fst r))
     \<and> (\<forall>h. count_list (sl_slept st) h \<le> Suc (count_list (map fst (sl_out st)) h))"

lemma finite_pending [simp]: "finite (dom (pending q))"
  by (simp add: pending_set [symmetric])

lemma sleep_inv_resume: "sleep_inv (add_mset h E) st \<Longrightarrow> sleep_inv E (sleep_await_resume h st)"
  by (auto simp: sleep_inv_def sleep_await_resume_def sleep_canceled_def Let_def intro: le_SucI)

lemma sleep_inv_ready: "sleep_inv {#} st \<Longrightarrow> sleep_inv {#} (sleep_run_ready st)"
  by (auto simp: sleep_run_ready_def split: list.splits intro!: sleep_inv_resume) (auto simp: sleep_inv_def sleep_canceled_def)

lemma sleep_inv_wake: "sleep_inv {#} st \<Longrightarrow> sleep_inv {#} (sleep_run_wake st)"
  by (auto simp: sleep_run_wake_def split: list.splits intro!: sleep_inv_resume) (auto simp: sleep_inv_def sleep_canceled_def)

lemma mset_set_pending_remove:
  assumes "pending q h = Some t"
  shows "mset_set (dom (pending q)) = add_mset h (mset_set (dom ((pending q)(h := None))))"
  using assms mset_set.remove [OF finite_pending, of h q] by auto

lemma sleep_inv_callback:
  assumes "sleep_inv {#} st" "sleep_canceled h st"
  shows "sleep_inv {#} (sleep_callback h st)"
proof -
  let ?q = "sl_queue st"
  have w: "tq_wf ?q" using assms(1) by (simp add: sleep_inv_def)
  show ?thesis
  proof (cases "h \<in> set (tq_heap ?q)")
    case True
    obtain t where t: "pending ?q h = Some t" using True by (simp add: pending_def)
    note rm = timer_remove_present [OF w True]
    have s: "sleep_callback h st = st\<lparr>sl_queue := snd (timer_remove h ?q), sl_wake := sl_wake st @ [h]\<rparr>"
      using rm(1) by (simp add: sleep_callback_def split_beta Let_def)
    show ?thesis using assms rm(2) mset_set_pending_remove [OF t] unfolding s by (auto simp: sleep_inv_def rm(3) sleep_canceled_def)
  next
    case False
    then have "timer_remove h ?q = (False, ?q)" using timer_remove_absent w by (simp add: tq_wf_def)
    then show ?thesis using assms(1) by (simp add: sleep_callback_def)
  qed
qed

lemma callback_keeps [simp]:
  "sl_token (sleep_callback h st) = sl_token st" "sl_canceled (sleep_callback h st) = sl_canceled st"
  by (simp_all add: sleep_callback_def split_beta Let_def)

lemma sleep_inv_callbacks:
  "sleep_inv {#} st \<Longrightarrow> (\<forall>r\<in>set rs. sleep_canceled (snd r) st) \<Longrightarrow> sleep_inv {#} (fold (\<lambda>r. sleep_callback (snd r)) rs st)"
proof (induction rs arbitrary: st)
  case (Cons r rs)
  then show ?case using sleep_inv_callback [of st "snd r"] by (simp add: sleep_canceled_def)
qed simp

lemma sleep_inv_cancel:
  assumes "sleep_inv {#} st"
  shows "sleep_inv {#} (sleep_cancel t st)"
proof -
  let ?st = "st\<lparr>sl_canceled := insert t (sl_canceled st)\<rparr>"
  have "sleep_inv {#} ?st" using assms by (auto simp: sleep_inv_def sleep_canceled_def)
  moreover have "\<forall>r\<in>set (filter (\<lambda>r. fst r = t) (sl_registered st)). sleep_canceled (snd r) ?st"
    using assms by (auto simp: sleep_inv_def sleep_canceled_def)
  ultimately have "sleep_inv {#} (fold (\<lambda>r. sleep_callback (snd r)) (filter (\<lambda>r. fst r = t) (sl_registered st)) ?st)"
    by (rule sleep_inv_callbacks)
  then show ?thesis using assms by (simp add: sleep_cancel_def)
qed

lemma sleep_idle_gone:
  assumes "sleep_inv {#} st" "sleep_idle h st"
  shows "pending (sl_queue st) h = None" "h \<notin> set (sl_ready st)" "h \<notin> set (sl_wake st)"
proof -
  have "mset (sl_slept st) = mset (map fst (sl_out st)) + mset (sl_ready st) + mset (sl_wake st) + mset_set (dom (pending (sl_queue st)))"
    using assms(1) by (simp add: sleep_inv_def)
  from arg_cong [OF this, of "\<lambda>M. count M h"]
  have c: "count (mset (sl_ready st)) h = 0" "count (mset (sl_wake st)) h = 0" "count (mset_set (dom (pending (sl_queue st)))) h = 0"
    using assms(2) by (simp_all add: sleep_idle_def flip: count_mset)
  show "h \<notin> set (sl_ready st)" "h \<notin> set (sl_wake st)" using c(1,2) by (simp_all add: count_eq_zero_iff)
  show "pending (sl_queue st) h = None" using c(3) by (auto simp: count_mset_set' split: if_splits)
qed

lemma sleep_inv_await:
  assumes "sleep_inv {#} st" "sleep_idle h st"
  shows "sleep_inv {#} (sleep_await h point st)"
proof -
  note g = sleep_idle_gone [OF assms]
  let ?q = "new_timed_awaiter h point (sl_queue st)"
  have w: "tq_wf (sl_queue st)" using assms(1) by (simp add: sleep_inv_def)
  note n = new_timed_awaiter_wf [OF w g(1) [unfolded pending_None], of point]
  define a where "a = st\<lparr>sl_queue := ?q, sl_point := (sl_point st)(h := point), sl_slept := sl_slept st @ [h]\<rparr>"
  have cnt: "count_list (sl_slept st) k \<le> Suc (count_list (map fst (sl_out st)) k)" for k using assms(1) by (simp add: sleep_inv_def)
  have cnt': "count_list (sl_slept a) k \<le> Suc (count_list (map fst (sl_out a)) k)" for k
    using cnt [of k] assms(2) by (auto simp: a_def sleep_idle_def)
  show ?thesis
  proof (cases "sleep_canceled h a \<or> sl_now a \<ge> point")
    case True
    have "sleep_inv {#h#} a"
      using assms(1) g n True cnt' unfolding sleep_inv_def by (auto simp: a_def sleep_canceled_def)
    then have "sleep_inv {#} (sleep_await_resume h a)" by (rule sleep_inv_resume)
    then show ?thesis using True by (simp add: sleep_await_def Let_def a_def [symmetric])
  next
    case False
    have "length (tq_heap ?q) + 1 < npos" using assms(2) n(3) by (simp add: sleep_idle_def)
    note e = timer_enqueue_new [OF n(1) _ this, of h, unfolded n(2-4), OF g(1) [unfolded pending_None]]
    have d: "dom ((pending (sl_queue st))(h \<mapsto> max 0 point)) = insert h (dom (pending (sl_queue st)))" "h \<notin> dom (pending (sl_queue st))"
      using g(1) by auto
    define b where "b = a\<lparr>sl_queue := timer_enqueue h ?q\<rparr>"
    have q: "tq_wf (sl_queue b)" "pending (sl_queue b) = (pending (sl_queue st))(h \<mapsto> max 0 point)" using e by (simp_all add: b_def)
    have f: "sl_slept b = sl_slept st @ [h]" "sl_out b = sl_out st" "sl_ready b = sl_ready st" "sl_wake b = sl_wake st" "sl_now b = sl_now st"
      "sl_registered b = sl_registered st" "sl_token b = sl_token st" "sl_canceled b = sl_canceled st" "sl_point b = (sl_point st)(h := point)"
      by (simp_all add: b_def a_def)
    have b: "sleep_inv {#} b"
    proof -
      have "mset (sl_slept b) = mset (map fst (sl_out b)) + mset (sl_ready b) + mset (sl_wake b) + mset_set (dom (pending (sl_queue b))) + {#}"
        using assms(1) d unfolding sleep_inv_def q(2) f by (simp del: dom_fun_upd)
      moreover have "\<forall>k t. pending (sl_queue b) k = Some t \<longrightarrow> t = max 0 (sl_point b k)" using assms(1) unfolding sleep_inv_def q(2) f by simp
      moreover have "\<forall>k\<in>set (sl_ready b). sl_point b k \<le> sl_now b" using assms(1) g(2) unfolding sleep_inv_def f by auto
      moreover have "\<forall>k. count_list (sl_slept b) k \<le> Suc (count_list (map fst (sl_out b)) k)" using cnt' by (simp add: b_def)
      ultimately show ?thesis using assms(1) q(1) unfolding sleep_inv_def by (simp add: f sleep_canceled_def)
    qed
    have "sleep_inv {#} (a\<lparr>sl_registered := (t, h) # sl_registered a, sl_queue := timer_enqueue h ?q\<rparr>)" if "sl_token a h = Some t" for t
      using b that by (simp add: sleep_inv_def sleep_canceled_def b_def)
    moreover have "sl_queue a = ?q" by (simp add: a_def)
    ultimately show ?thesis using False b by (simp add: sleep_await_def Let_def a_def [symmetric] b_def split: option.splits)
  qed
qed

lemma sleep_tick_due:
  assumes "sleep_inv {#} st" "sl_now st \<le> now"
  shows "\<exists>ns q'. sleep_tick now st = Some (st\<lparr>sl_now := now, sl_queue := q', sl_ready := sl_ready st @ ns\<rparr>)
     \<and> sleep_inv {#} (st\<lparr>sl_now := now, sl_queue := q', sl_ready := sl_ready st @ ns\<rparr>) \<and> set ns = due now (sl_queue st) \<and> pending q' = pending (sl_queue st) |` (- due now (sl_queue st))"
proof -
  let ?q = "sl_queue st"
  have w: "tq_wf ?q" using assms(1) by (simp add: sleep_inv_def)
  obtain ns q' where r: "get_ready_timers now ?q [] = Some (ns, q')" "tq_wf q'" "distinct ns" "set ns = due now ?q" "pending q' = pending ?q |` (- due now ?q)"
    using get_ready_timers_correct [OF w, of now "[]"] by auto
  have d: "dom (pending ?q) = dom (pending q') \<union> set ns" "dom (pending q') \<inter> set ns = {}" using r(4,5) by (auto simp: due_def)
  have "mset_set (dom (pending ?q)) = mset_set (dom (pending q')) + mset ns"
    unfolding d(1) using d(2) r(3) by (simp add: mset_set_Union mset_set_set)
  moreover have "\<forall>h\<in>set ns. sl_point st h \<le> now" using r(4) assms(1) by (fastforce simp: due_def sleep_inv_def)
  moreover have "pending ?q h = Some t" if "pending q' h = Some t" for h t using that r(5) by (auto simp: restrict_map_def split: if_splits)
  ultimately have "sleep_inv {#} (st\<lparr>sl_now := now, sl_queue := q', sl_ready := sl_ready st @ ns\<rparr>)"
    using assms r(2) unfolding sleep_inv_def by (fastforce simp: sleep_canceled_def)
  then show ?thesis using r(1,4,5) by (auto simp: sleep_tick_def)
qed

lemma sleep_inv_step: "sleep_inv {#} st \<Longrightarrow> \<exists>st'. sleep_step e st = Some st' \<and> sleep_inv {#} st'"
proof (cases e)
  case (Sl_tick now)
  assume "sleep_inv {#} st"
  then show ?thesis using sleep_tick_due [of st now] Sl_tick by (cases "now < sl_now st") auto
qed (auto simp: sleep_for_def intro: sleep_inv_await sleep_inv_cancel sleep_inv_ready sleep_inv_wake)

lemma sleep_inv_run: "sleep_inv {#} st \<Longrightarrow> \<exists>st'. sleep_run es st = Some st' \<and> sleep_inv {#} st'"
proof (induction es arbitrary: st)
  case (Cons e es)
  then show ?case using sleep_inv_step [OF Cons.prems, of e] by auto
qed simp

lemma sleep_inv_start: "sleep_inv {#} (sleep_start tok)"
proof -
  have "tq_wf empty_timer_queue" using empty_timer_queue_room [of 1] by (simp add: tq_room_def)
  then show ?thesis by (simp add: sleep_inv_def sleep_start_def pending_empty)
qed

section \<open>Properties\<close>

text \<open>C15: Sleeping, whatever the order of sleeps, cancellations, clock ticks and turns of the scheduler: the scheduler's loop over the timers ends, a
  coroutine comes back from each sleep at most once, also when a timer that is due and a cancellation meet, and it comes back before its time only
  with the exception \<open>canceled\<close>.\<close>

theorem sleep_contract:
  "\<exists>st. sleep_run es (sleep_start tok) = Some st
     \<and> (\<forall>h. count_list (map fst (sl_out st)) h \<le> count_list (sl_slept st) h \<and> count_list (sl_slept st) h \<le> Suc (count_list (map fst (sl_out st)) h))
     \<and> list_all (\<lambda>(h, point, returned, canceled). canceled \<or> point \<le> returned) (sl_out st)"
proof -
  obtain st where st: "sleep_run es (sleep_start tok) = Some st" "sleep_inv {#} st" using sleep_inv_run [OF sleep_inv_start] by blast
  have "mset (sl_slept st) = mset (map fst (sl_out st)) + mset (sl_ready st) + mset (sl_wake st) + mset_set (dom (pending (sl_queue st)))"
    using st(2) by (simp add: sleep_inv_def)
  from arg_cong [OF this, of "\<lambda>M. count M h" for h]
  have "count_list (map fst (sl_out st)) h \<le> count_list (sl_slept st) h" for h by (simp flip: count_mset)
  then show ?thesis using st by (auto simp: sleep_inv_def list_all_iff)
qed

lemma ready_drain:
  "sl_ready st = hs \<Longrightarrow> \<exists>st'. sleep_run (replicate (length hs) Sl_ready) st = Some st' \<and> sl_ready st' = []
     \<and> map fst (sl_out st') = map fst (sl_out st) @ hs \<and> sl_queue st' = sl_queue st"
proof (induction hs arbitrary: st)
  case (Cons h hs)
  have "sl_ready (sleep_run_ready st) = hs" "map fst (sl_out (sleep_run_ready st)) = map fst (sl_out st) @ [h]" "sl_queue (sleep_run_ready st) = sl_queue st"
    using Cons.prems by (simp_all add: sleep_run_ready_def sleep_await_resume_def Let_def)
  then show ?case using Cons.IH [of "sleep_run_ready st"] by simp
qed simp

text \<open>A sleeping coroutine that is not cancelled comes back: once the clock has reached its time, the scheduler takes it from the heap and resumes it after the timers
  before it.\<close>

theorem sleep_returns:
  assumes "sleep_run es (sleep_start tok) = Some st" "pending (sl_queue st) h = Some t" "t \<le> now" "sl_now st \<le> now"
  shows "\<exists>n st'. sleep_run (Sl_tick now # replicate n Sl_ready) st = Some st' \<and> h \<in> set (map fst (drop (length (sl_out st)) (sl_out st')))
     \<and> pending (sl_queue st') h = None"
proof -
  have i: "sleep_inv {#} st" using sleep_inv_run [OF sleep_inv_start, of es tok] assms(1) by auto
  obtain ns q' where tick: "sleep_tick now st = Some (st\<lparr>sl_now := now, sl_queue := q', sl_ready := sl_ready st @ ns\<rparr>)"
      "sleep_inv {#} (st\<lparr>sl_now := now, sl_queue := q', sl_ready := sl_ready st @ ns\<rparr>)" "set ns = due now (sl_queue st)"
      "pending q' = pending (sl_queue st) |` (- due now (sl_queue st))"
    using sleep_tick_due [OF i assms(4)] by blast
  define d where "d = st\<lparr>sl_now := now, sl_queue := q', sl_ready := sl_ready st @ ns\<rparr>"
  have h: "h \<in> set ns" using assms(2,3) tick(3) by (auto simp: due_def)
  obtain st' where st': "sleep_run (replicate (length (sl_ready d)) Sl_ready) d = Some st'" "sl_ready st' = []"
      "map fst (sl_out st') = map fst (sl_out d) @ sl_ready d" "sl_queue st' = sl_queue d"
    using ready_drain [of d] by blast
  have run: "sleep_run (Sl_tick now # replicate (length (sl_ready d)) Sl_ready) st = Some st'"
    using assms(4) tick(1) st'(1) by (simp add: d_def)
  have out: "map fst (sl_out st') = map fst (sl_out st) @ sl_ready st @ ns" using st'(3) by (simp add: d_def)
  have "map fst (drop (length (sl_out st)) (sl_out st')) = sl_ready st @ ns"
    unfolding drop_map [symmetric] out by simp
  moreover have "pending (sl_queue st') h = None"
    using h tick(3,4) by (simp add: st'(4) d_def)
  ultimately show ?thesis using run h by (intro exI [of _ "length (sl_ready d)"] exI [of _ st']) auto
qed

theorem sleep_returns_witness:
  "\<exists>st n st'. sleep_run [Sl_until 4 9] (sleep_start (\<lambda>_. None)) = Some st \<and> sleep_run (Sl_tick 9 # replicate n Sl_ready) st = Some st'
     \<and> 4 \<in> set (map fst (drop (length (sl_out st)) (sl_out st')))"
proof -
  define st where "st = sleep_await 4 9 (sleep_start (\<lambda>_. None))"
  have run: "sleep_run [Sl_until 4 9] (sleep_start (\<lambda>_. None)) = Some st"
    by (simp add: st_def sleep_idle_def sleep_start_def empty_timer_queue_def)
  have "sl_queue st = timer_arm 4 9 empty_timer_queue \<and> sl_now st = 0"
    by (simp add: st_def sleep_await_def sleep_start_def sleep_canceled_def Let_def timer_arm_def)
  then have "pending (sl_queue st) 4 = Some 9 \<and> sl_now st \<le> 9"
    using timer_arm_law [OF empty_timer_queue_room [of 2], of 4 9] by (simp add: pending_empty)
  then show ?thesis using sleep_returns [OF run, of 4 9 9] run by auto
qed

end
