(* ===== verification/Log_Compress.thy ===== *)
theory Log_Compress
  imports Prelude
begin

text \<open>
  The thread that compresses finished log files (\<open>log_system::lz4_run\<close>, \<open>lz4_data::compress\<close> and \<open>compress_file\<close> in \<open>runtime/src/log/log_system.cpp\<close>).
  The frame functions of the LZ4 library are an argument: each takes the context and returns an error or the bytes it put into the output buffer.
  The file system is a map from names to contents, with the files that cannot be opened or removed, the number of bytes of a file that can be read before
  the device fails, and the room left for the output: a write that does not fit stores what fits and puts the stream into its failed state, in which
  further writes do nothing.
\<close>

section \<open>The library and the file system\<close>

record 'c lz4f =
  lz_begin :: "'c \<Rightarrow> (nat + byte list) \<times> 'c"
  lz_update :: "byte list \<Rightarrow> 'c \<Rightarrow> (nat + byte list) \<times> 'c"
  lz_end :: "'c \<Rightarrow> (nat + byte list) \<times> 'c"

record disk =
  dk_files :: "string \<Rightarrow> byte list option"
  dk_readable :: "string \<Rightarrow> nat"
  dk_writable :: "string \<Rightarrow> bool"
  dk_removable :: "string \<Rightarrow> bool"
  dk_room :: nat

record ofstream =
  os_data :: "byte list"
  os_room :: nat
  os_failed :: bool

definition os_write :: "byte list \<Rightarrow> ofstream \<Rightarrow> ofstream" where
  "os_write bs out =
     (if os_failed out then out
      else if length bs \<le> os_room out then out\<lparr>os_data := os_data out @ bs, os_room := os_room out - length bs\<rparr>
      else out\<lparr>os_data := os_data out @ take (os_room out) bs, os_room := 0, os_failed := True\<rparr>)"

section \<open>Compressing a file\<close>

definition lz4_input_chunk_size :: nat where
  "lz4_input_chunk_size = 16 * 1024"

record 'c compression =
  cz_ctx :: 'c
  cz_output :: ofstream
  cz_count_out :: u64
  cz_count_in :: u64

text \<open>Handing the bytes of the library to the stream: the flag says whether to go on.\<close>

definition put_output :: "(nat + byte list) \<times> 'c \<Rightarrow> 'c compression \<Rightarrow> bool \<times> 'c compression" where
  "put_output r z = (case r of (Inl e, c) \<Rightarrow> (False, z\<lparr>cz_ctx := c\<rparr>)
     | (Inr bs, c) \<Rightarrow> (True, z\<lparr>cz_ctx := c, cz_output := os_write bs (cz_output z), cz_count_out := cz_count_out z + of_nat (length bs)\<rparr>))"

function compress_chunks :: "'c lz4f \<Rightarrow> byte list \<Rightarrow> 'c compression \<Rightarrow> bool \<times> 'c compression" where
  "compress_chunks L input z =
     (let chunk = take lz4_input_chunk_size input
      in if length chunk = 0 then (True, z)
         else let z = z\<lparr>cz_count_in := cz_count_in z + of_nat (length chunk)\<rparr>
              in case put_output (lz_update L chunk (cz_ctx z)) z of
                   (False, z) \<Rightarrow> (False, z)
                 | (True, z) \<Rightarrow> if length chunk < lz4_input_chunk_size then (True, z) else compress_chunks L (drop lz4_input_chunk_size input) z)"
  by pat_completeness auto
termination
  by (relation "measure (\<lambda>(L, input, z). length input)") (auto simp: lz4_input_chunk_size_def)

declare compress_chunks.simps [simp del]

definition compress_file :: "'c lz4f \<Rightarrow> byte list \<Rightarrow> 'c compression \<Rightarrow> bool \<times> 'c compression" where
  "compress_file L input z =
     (case put_output (lz_begin L (cz_ctx z)) (z\<lparr>cz_count_out := 0\<rparr>) of
        (False, z) \<Rightarrow> (False, z)
      | (True, z) \<Rightarrow>
          (case compress_chunks L input z of
             (False, z) \<Rightarrow> (False, z)
           | (True, z) \<Rightarrow> put_output (lz_end L (cz_ctx z)) z))"

text \<open>A file that fails before its end looks like one that ends there: \<open>gcount\<close> is zero.\<close>

definition compress :: "'c lz4f \<Rightarrow> string \<Rightarrow> string \<Rightarrow> 'c \<Rightarrow> disk \<Rightarrow> 'c \<times> disk" where
  "compress L src dest c d =
     (case dk_files d src of
        None \<Rightarrow> (c, d)
      | Some content \<Rightarrow>
          if \<not> dk_writable d dest then (c, d)
          else case compress_file L (take (dk_readable d src) content)
                  \<lparr>cz_ctx = c, cz_output = \<lparr>os_data = [], os_room = dk_room d, os_failed = False\<rparr>, cz_count_out = 0, cz_count_in = 0\<rparr> of
            (succ, z) \<Rightarrow>
              let d = d\<lparr>dk_files := (dk_files d)(dest \<mapsto> os_data (cz_output z)), dk_room := os_room (cz_output z)\<rparr>
              in (cz_ctx z, if succ \<and> dk_removable d src then d\<lparr>dk_files := (dk_files d)(src := None)\<rparr> else d))"

text \<open>One turn of the thread's loop over its queue.\<close>

definition lz4_turn :: "'c lz4f \<Rightarrow> (string \<times> string) list \<times> 'c \<times> disk \<Rightarrow> (string \<times> string) list \<times> 'c \<times> disk" where
  "lz4_turn L s = (case s of ([], c, d) \<Rightarrow> ([], c, d) | ((src, dest) # queue, c, d) \<Rightarrow> (queue, compress L src dest c d))"

section \<open>What the library makes of a file\<close>

text \<open>All that the library returns for a file in chunks, or \<open>None\<close> when one of its calls fails.\<close>

fun lz4_updates :: "'c lz4f \<Rightarrow> byte list list \<Rightarrow> 'c \<Rightarrow> (byte list \<times> 'c) option" where
  "lz4_updates L [] c = Some ([], c)"
| "lz4_updates L (b # bs) c = (case lz_update L b c of (Inl e, _) \<Rightarrow> None
     | (Inr x, c) \<Rightarrow> map_option (\<lambda>(xs, c). (x @ xs, c)) (lz4_updates L bs c))"

definition lz4_frame :: "'c lz4f \<Rightarrow> byte list list \<Rightarrow> 'c \<Rightarrow> byte list option" where
  "lz4_frame L bs c = (case lz_begin L c of (Inl e, _) \<Rightarrow> None
     | (Inr x, c) \<Rightarrow> (case lz4_updates L bs c of None \<Rightarrow> None
        | Some (y, c) \<Rightarrow> (case lz_end L c of (Inl e, _) \<Rightarrow> None | (Inr z, _) \<Rightarrow> Some (x @ y @ z))))"

function chunks_of :: "byte list \<Rightarrow> byte list list" where
  "chunks_of input = (if input = [] then [] else take lz4_input_chunk_size input # chunks_of (drop lz4_input_chunk_size input))"
  by pat_completeness auto
termination
  by (relation "measure length") (auto simp: lz4_input_chunk_size_def)

declare chunks_of.simps [simp del]

lemma concat_chunks_of [simp]: "concat (chunks_of input) = input"
proof (induction input rule: chunks_of.induct)
  case (1 input)
  then show ?case by (subst chunks_of.simps) simp
qed

lemma chunks_of_Nil [simp]: "chunks_of [] = []"
  by (simp add: chunks_of.simps)

text \<open>What the stream has stored: the first bytes of what was written to it.\<close>

definition stored :: "nat \<Rightarrow> byte list \<Rightarrow> ofstream \<Rightarrow> bool" where
  "stored room written out \<longleftrightarrow> os_data out = take room written \<and> os_room out = room - length written \<and> os_failed out = (room < length written)"

lemma stored_write: "stored room written out \<Longrightarrow> stored room (written @ bs) (os_write bs out)"
  by (auto simp: stored_def os_write_def)

lemma compress_chunks_updates:
  assumes "stored room written (cz_output z)"
  shows "case lz4_updates L (chunks_of input) (cz_ctx z) of
       None \<Rightarrow> \<not> fst (compress_chunks L input z)
     | Some (bs, c) \<Rightarrow> fst (compress_chunks L input z) \<and> cz_ctx (snd (compress_chunks L input z)) = c
         \<and> stored room (written @ bs) (cz_output (snd (compress_chunks L input z)))"
  using assms
proof (induction L input z arbitrary: written rule: compress_chunks.induct)
  case (1 L input z)
  show ?case
  proof (cases "input = []")
    case True
    then show ?thesis using 1(2) by (simp add: compress_chunks.simps)
  next
    case False
    let ?chunk = "take lz4_input_chunk_size input"
    define y where "y = z\<lparr>cz_count_in := cz_count_in z + of_nat (length ?chunk)\<rparr>"
    have ne: "length ?chunk \<noteq> 0" using False by (simp add: lz4_input_chunk_size_def)
    have y: "cz_ctx y = cz_ctx z" "cz_output y = cz_output z" by (simp_all add: y_def)
    have cs: "compress_chunks L input z = (case put_output (lz_update L ?chunk (cz_ctx z)) y of (False, z) \<Rightarrow> (False, z)
        | (True, z) \<Rightarrow> if length ?chunk < lz4_input_chunk_size then (True, z) else compress_chunks L (drop lz4_input_chunk_size input) z)"
      using ne by (subst compress_chunks.simps) (simp add: y_def Let_def)
    have ck: "chunks_of input = ?chunk # chunks_of (drop lz4_input_chunk_size input)" using False by (subst chunks_of.simps) simp
    obtain r c where u: "lz_update L ?chunk (cz_ctx z) = (r, c)" by fastforce
    show ?thesis
    proof (cases r)
      case (Inl e)
      then show ?thesis unfolding cs ck by (simp add: u put_output_def)
    next
      case (Inr bs)
      define x where "x = snd (put_output (Inr bs, c) y)"
      have x: "put_output (Inr bs, c) y = (True, x)" "cz_ctx x = c" "stored room (written @ bs) (cz_output x)"
        using Inr 1(2) stored_write by (simp_all add: x_def put_output_def y)
      define R where "R = (if length ?chunk < lz4_input_chunk_size then (True, x) else compress_chunks L (drop lz4_input_chunk_size input) x)"
      have cR: "compress_chunks L input z = R" unfolding cs u Inr x(1) R_def by simp
      have "case lz4_updates L (chunks_of (drop lz4_input_chunk_size input)) c of None \<Rightarrow> \<not> fst R
         | Some (bs', c') \<Rightarrow> fst R \<and> cz_ctx (snd R) = c' \<and> stored room ((written @ bs) @ bs') (cz_output (snd R))"
      proof (cases "length ?chunk < lz4_input_chunk_size")
        case True
        then show ?thesis using x(2,3) by (simp add: R_def min_def split: if_splits)
      next
        case False
        have "(True, x) = put_output (lz_update L ?chunk (cz_ctx y)) y" by (simp add: u Inr y x)
        from 1(1) [OF refl ne y_def this refl False x(3)] show ?thesis unfolding x(2) using False by (auto simp: R_def split: option.splits)
      qed
      then show ?thesis unfolding cR ck lz4_updates.simps u Inr by (simp split: option.splits prod.splits)
    qed
  qed
qed

lemma compress_file_frame:
  assumes "cz_output z = \<lparr>os_data = [], os_room = room, os_failed = False\<rparr>"
  shows "case lz4_frame L (chunks_of input) (cz_ctx z) of
       None \<Rightarrow> \<not> fst (compress_file L input z)
     | Some bs \<Rightarrow> fst (compress_file L input z) \<and> stored room bs (cz_output (snd (compress_file L input z)))"
proof -
  obtain r c where b: "lz_begin L (cz_ctx z) = (r, c)" by fastforce
  show ?thesis
  proof (cases r)
    case (Inl e)
    then show ?thesis by (simp add: compress_file_def lz4_frame_def b put_output_def)
  next
    case (Inr bs)
    define y where "y = snd (put_output (Inr bs, c) (z\<lparr>cz_count_out := 0\<rparr>))"
    have "stored room [] (cz_output z)" by (simp add: assms stored_def)
    then have y: "put_output (Inr bs, c) (z\<lparr>cz_count_out := 0\<rparr>) = (True, y)" "cz_ctx y = c" "stored room ([] @ bs) (cz_output y)"
      using Inr stored_write by (simp_all add: y_def put_output_def del: append_Nil)
    note m = compress_chunks_updates [OF y(3), of L input]
    obtain f x where x: "compress_chunks L input y = (f, x)" by fastforce
    show ?thesis
    proof (cases "lz4_updates L (chunks_of input) c")
      case None
      then show ?thesis using m Inr by (simp add: compress_file_def lz4_frame_def b y x)
    next
      case (Some p)
      obtain bs' c' where p: "p = (bs', c')" by fastforce
      have mid: "f" "cz_ctx x = c'" "stored room (bs @ bs') (cz_output x)" using m Some by (simp_all add: y x p)
      obtain r' c'' where e: "lz_end L c' = (r', c'')" by fastforce
      have "compress_file L input z = put_output (r', c'') x" using mid(1,2) Inr by (simp add: compress_file_def b y x e)
      then show ?thesis using stored_write [OF mid(3)] Inr Some by (cases r') (simp_all add: lz4_frame_def b p e put_output_def)
    qed
  qed
qed

text \<open>What becomes of a log file and of its compressed file.  When a call of the library fails the log file stays.  Otherwise it is removed, if it can be,
  and the compressed file holds the frame of those bytes that could be read, as far as there was room for it: neither a read that failed nor a write
  that did not fit is noticed.\<close>

lemma compress_files:
  assumes "dk_files d src = Some content" "dk_writable d dest" "src \<noteq> dest"
  shows "case lz4_frame L (chunks_of (take (dk_readable d src) content)) c of
       None \<Rightarrow> dk_files (snd (compress L src dest c d)) src = Some content
     | Some z \<Rightarrow> dk_files (snd (compress L src dest c d))
         = (dk_files d)(dest \<mapsto> take (dk_room d) z, src := if dk_removable d src then None else Some content)"
  using assms compress_file_frame [of "\<lparr>cz_ctx = c, cz_output = \<lparr>os_data = [], os_room = dk_room d, os_failed = False\<rparr>, cz_count_out = 0, cz_count_in = 0\<rparr>"
      "dk_room d" L "take (dk_readable d src) content"]
  by (auto simp: compress_def Let_def stored_def fun_upd_twist [OF assms(3)] fun_upd_idem split: option.splits prod.splits)

definition plain_lz4 :: "nat lz4f" where
  "plain_lz4 = \<lparr>lz_begin = (\<lambda>c. (Inr [4, 34], c)), lz_update = (\<lambda>b c. (Inr b, c + length b)), lz_end = (\<lambda>c. (Inr [0], 0))\<rparr>"

definition full_disk :: disk where
  "full_disk = \<lparr>dk_files = [''a.log'' \<mapsto> [7, 8, 9]], dk_readable = (\<lambda>_. 100), dk_writable = (\<lambda>_. True), dk_removable = (\<lambda>_. True), dk_room = 4\<rparr>"

lemma plain_frame: "lz4_frame plain_lz4 bs c = Some ([4, 34] @ concat bs @ [0])"
proof -
  have "\<exists>c'. lz4_updates plain_lz4 bs c = Some (concat bs, c')" for c
    by (induction bs arbitrary: c) (auto simp: plain_lz4_def)
  then obtain c' where "lz4_updates plain_lz4 bs c = Some (concat bs, c')" by blast
  then show ?thesis by (simp add: lz4_frame_def) (simp add: plain_lz4_def)
qed

lemma full_disk_loses_log:
  "dk_files (snd (compress plain_lz4 ''a.log'' ''a.lz4'' 0 full_disk)) = [''a.lz4'' \<mapsto> [4, 34, 7, 8]]"
  using compress_files [of full_disk "''a.log''" "[7, 8, 9]" "''a.lz4''" plain_lz4 0]
  by (simp add: plain_frame) (simp add: full_disk_def fun_eq_iff)

text \<open>C16: Compression loses nothing when the file can be read, the disk has room and the library works: a decoder of the frame format, one that
  returns the concatenation of the chunks that went into a frame, gets the log file back from the compressed file.\<close>

theorem compressed_log_recoverable:
  assumes "\<And>bs c z. lz4_frame L bs c = Some z \<Longrightarrow> decode z = Some (concat bs)"
    "dk_files d src = Some content" "dk_writable d dest" "src \<noteq> dest" "length content \<le> dk_readable d src"
    "lz4_frame L (chunks_of content) c = Some z" "length z \<le> dk_room d"
  shows "\<exists>y. dk_files (snd (compress L src dest c d)) dest = Some y \<and> decode y = Some content"
  using compress_files [OF assms(2-4), of L c] assms(1) [OF assms(6)] assms(4-7) by simp

theorem compressed_log_recoverable_witness:
  "\<exists>y. dk_files (snd (compress plain_lz4 ''a.log'' ''a.lz4'' 0 (full_disk\<lparr>dk_room := 50\<rparr>))) ''a.lz4'' = Some y \<and> drop 2 (butlast y) = [7, 8, 9]"
proof -
  have f: "lz4_frame plain_lz4 (chunks_of [7, 8, 9]) 0 = Some ([4, 34] @ [7, 8, 9] @ [0])" by (simp add: plain_frame)
  have "\<exists>y. dk_files (snd (compress plain_lz4 ''a.log'' ''a.lz4'' 0 (full_disk\<lparr>dk_room := 50\<rparr>))) ''a.lz4'' = Some y
      \<and> Some (drop 2 (butlast y)) = Some [7, 8, 9]"
    by (rule compressed_log_recoverable [OF _ _ _ _ _ f, where decode = "\<lambda>y. Some (drop 2 (butlast y))"])
      (auto simp: plain_frame full_disk_def butlast_append)
  then show ?thesis by simp
qed

end
