(* ===== verification/Linked_Heap.thy ===== *)
theory Linked_Heap
  imports Timer_Queue
begin

text \<open>
  The intrusive heap of \<open>runtime/include/simple/containers/heap.hpp\<close>: a binary tree of nodes that hold pointers to their children, to their parent and to
  the heap they are in.  The fields of the nodes are functions of their address.  A pointer to a pointer is a slot: the heap's own \<open>min_\<close> or the left or
  right field of a node.  The comparison is an argument.  \<open>None\<close> is undefined behaviour, the use of a null pointer, or a loop that does not end.
\<close>

section \<open>Priority queues\<close>

text \<open>Taking the front element again and again.\<close>

fun drain :: "('q \<Rightarrow> 'a option) \<Rightarrow> ('q \<Rightarrow> (bool \<times> 'q) option) \<Rightarrow> nat \<Rightarrow> 'q \<Rightarrow> ('a list \<times> 'q) option" where
  "drain front pop 0 q = Some ([], q)"
| "drain front pop (Suc n) q = (case front q of None \<Rightarrow> None
     | Some m \<Rightarrow> Option.bind (pop q) (\<lambda>(_, q). map_option (\<lambda>(ms, q). (m # ms, q)) (drain front pop n q)))"

locale priority_queue =
  fixes queue_inv :: "'q \<Rightarrow> bool" and elems :: "'q \<Rightarrow> 'a set" and key :: "'a \<Rightarrow> int" and front :: "'q \<Rightarrow> 'a option" and pop :: "'q \<Rightarrow> (bool \<times> 'q) option"
  assumes finite_elems: "queue_inv q \<Longrightarrow> finite (elems q)"
    and front_None: "queue_inv q \<Longrightarrow> front q = None \<Longrightarrow> elems q = {}"
    and front_least: "queue_inv q \<Longrightarrow> front q = Some m \<Longrightarrow> m \<in> elems q \<and> (\<forall>a\<in>elems q. key m \<le> key a)"
    and pop_removes: "queue_inv q \<Longrightarrow> front q = Some m \<Longrightarrow> \<exists>q'. pop q = Some (True, q') \<and> queue_inv q' \<and> elems q' = elems q - {m}"
begin

lemma drain_sorted:
  "queue_inv q \<Longrightarrow> card (elems q) = n \<Longrightarrow>
     \<exists>ms q'. drain front pop n q = Some (ms, q') \<and> sorted (map key ms) \<and> distinct ms \<and> set ms = elems q \<and> queue_inv q' \<and> elems q' = {}"
proof (induction n arbitrary: q)
  case 0
  then show ?case using finite_elems by simp
next
  case (Suc n)
  then have "elems q \<noteq> {}" by auto
  then obtain m where m: "front q = Some m" using front_None Suc.prems(1) by fastforce
  note least = front_least [OF Suc.prems(1) m]
  obtain q1 where q1: "pop q = Some (True, q1)" "queue_inv q1" "elems q1 = elems q - {m}" using pop_removes [OF Suc.prems(1) m] by auto
  have "card (elems q1) = n" using q1(3) least Suc.prems(2) finite_elems [OF Suc.prems(1)] by simp
  then obtain ms q' where r: "drain front pop n q1 = Some (ms, q')" "sorted (map key ms)" "distinct ms" "set ms = elems q1" "queue_inv q'" "elems q' = {}"
    using Suc.IH [OF q1(2)] by auto
  have "drain front pop (Suc n) q = Some (m # ms, q')" using m q1(1) r(1) by simp
  moreover have "sorted (map key (m # ms))" "distinct (m # ms)" "set (m # ms) = elems q" using r(2-4) q1(3) least by auto
  ultimately show ?case using r(5,6) by blast
qed

end

section \<open>Nodes and the heap\<close>

record heap_raw =
  hp_left :: "addr \<Rightarrow> addr option"
  hp_right :: "addr \<Rightarrow> addr option"
  hp_parent :: "addr \<Rightarrow> addr option"
  hp_owner :: "addr \<Rightarrow> addr option"
  hp_this :: addr
  hp_min :: "addr option"
  hp_size :: nat

datatype slot = Min_slot | Left_slot addr | Right_slot addr

fun read_slot :: "slot \<Rightarrow> heap_raw \<Rightarrow> addr option" where
  "read_slot Min_slot h = hp_min h"
| "read_slot (Left_slot a) h = hp_left h a"
| "read_slot (Right_slot a) h = hp_right h a"

fun write_slot :: "slot \<Rightarrow> addr option \<Rightarrow> heap_raw \<Rightarrow> heap_raw" where
  "write_slot Min_slot v h = h\<lparr>hp_min := v\<rparr>"
| "write_slot (Left_slot a) v h = h\<lparr>hp_left := (hp_left h)(a := v)\<rparr>"
| "write_slot (Right_slot a) v h = h\<lparr>hp_right := (hp_right h)(a := v)\<rparr>"

definition set_parent :: "addr option \<Rightarrow> addr \<Rightarrow> heap_raw \<Rightarrow> heap_raw" where
  "set_parent a b h = (case a of None \<Rightarrow> h | Some a \<Rightarrow> h\<lparr>hp_parent := (hp_parent h)(a \<mapsto> b)\<rparr>)"

text \<open>The parts of \<open>swap_node\<close>: the two nodes are exchanged as a whole, then the child's link to itself, the links of the sibling and of the children back, and the link
  from above.\<close>

definition exchange_nodes :: "addr \<Rightarrow> addr \<Rightarrow> heap_raw \<Rightarrow> heap_raw" where
  "exchange_nodes p c h =
     h\<lparr>hp_left := (hp_left h)(p := hp_left h c, c := hp_left h p), hp_right := (hp_right h)(p := hp_right h c, c := hp_right h p),
       hp_parent := (hp_parent h)(p := hp_parent h c, c := hp_parent h p), hp_owner := (hp_owner h)(p := hp_owner h c, c := hp_owner h p)\<rparr>"

definition link_above :: "addr \<Rightarrow> addr \<Rightarrow> heap_raw \<Rightarrow> heap_raw" where
  "link_above old new h = (case hp_parent h new of
       None \<Rightarrow> h\<lparr>hp_min := Some new\<rparr>
     | Some g \<Rightarrow> if hp_left h g = Some old then write_slot (Left_slot g) (Some new) h else write_slot (Right_slot g) (Some new) h)"

definition swap_node :: "addr \<Rightarrow> addr \<Rightarrow> heap_raw \<Rightarrow> heap_raw" where
  "swap_node p c h =
     (let h = exchange_nodes p c h;
          h = set_parent (Some p) c h;
          (h, sibling) = (if hp_left h c = Some c then (let h = write_slot (Left_slot c) (Some p) h in (h, hp_right h c))
                          else (let h = write_slot (Right_slot c) (Some p) h in (h, hp_left h c)));
          h = set_parent sibling c h;
          h = set_parent (hp_left h p) p h;
          h = set_parent (hp_right h p) p h
      in link_above p c h)"

section \<open>Paths\<close>

text \<open>The path to the \<open>n\<close>-th node, and the walk along it; the walk also returns the slot before the last one.\<close>

function heap_path :: "nat \<Rightarrow> nat \<Rightarrow> nat \<Rightarrow> nat \<times> nat" where
  "heap_path n k path = (if n \<ge> 2 then heap_path (n div 2) (k + 1) (path * 2 + n mod 2) else (k, path))"
  by pat_completeness auto
termination
  by (relation "measure (\<lambda>(n, k, path). n)") auto

declare heap_path.simps [simp del]

fun heap_walk :: "nat \<Rightarrow> nat \<Rightarrow> slot \<Rightarrow> slot \<Rightarrow> heap_raw \<Rightarrow> (slot \<times> slot) option" where
  "heap_walk 0 path parent child h = Some (parent, child)"
| "heap_walk (Suc k) path parent child h = (case read_slot child h of None \<Rightarrow> None
     | Some a \<Rightarrow> heap_walk k (path div 2) child (if path mod 2 = 1 then Right_slot a else Left_slot a) h)"

definition walk_to :: "nat \<Rightarrow> heap_raw \<Rightarrow> (slot \<times> slot) option" where
  "walk_to n h = (case heap_path n 0 0 of (k, path) \<Rightarrow> heap_walk k path Min_slot Min_slot h)"

section \<open>Operations\<close>

partial_function (option) walk_up :: "(addr \<Rightarrow> addr \<Rightarrow> bool) \<Rightarrow> addr \<Rightarrow> heap_raw \<Rightarrow> heap_raw option" where
  "walk_up compare node h = (case hp_parent h node of None \<Rightarrow> Some h
     | Some p \<Rightarrow> if compare node p then walk_up compare node (swap_node p node h) else Some h)"

definition smaller_of :: "(addr \<Rightarrow> addr \<Rightarrow> bool) \<Rightarrow> addr option \<Rightarrow> addr \<Rightarrow> addr" where
  "smaller_of compare a smallest = (case a of None \<Rightarrow> smallest | Some a \<Rightarrow> if compare a smallest then a else smallest)"

partial_function (option) walk_down :: "(addr \<Rightarrow> addr \<Rightarrow> bool) \<Rightarrow> addr \<Rightarrow> heap_raw \<Rightarrow> heap_raw option" where
  "walk_down compare child h =
     (let smallest = smaller_of compare (hp_right h child) (smaller_of compare (hp_left h child) child)
      in if smallest = child then Some h else walk_down compare child (swap_node child smallest h))"

definition heap_insert :: "(addr \<Rightarrow> addr \<Rightarrow> bool) \<Rightarrow> addr \<Rightarrow> heap_raw \<Rightarrow> (bool \<times> heap_raw) option" where
  "heap_insert compare node h =
     (if hp_owner h node \<noteq> None then Some (False, h)
      else let h = h\<lparr>hp_left := (hp_left h)(node := None), hp_right := (hp_right h)(node := None), hp_parent := (hp_parent h)(node := None)\<rparr>
           in case walk_to (1 + hp_size h) h of None \<Rightarrow> None
              | Some (parent, child) \<Rightarrow>
                  let h = h\<lparr>hp_parent := (hp_parent h)(node := read_slot parent h)\<rparr>;
                      h = write_slot child (Some node) h;
                      h = h\<lparr>hp_owner := (hp_owner h)(node \<mapsto> hp_this h), hp_size := hp_size h + 1\<rparr>
                  in map_option (Pair True) (walk_up compare node h))"

definition replace_node :: "addr \<Rightarrow> addr \<Rightarrow> heap_raw \<Rightarrow> heap_raw" where
  "replace_node node child h =
     (let h = h\<lparr>hp_left := (hp_left h)(child := hp_left h node), hp_right := (hp_right h)(child := hp_right h node),
                hp_parent := (hp_parent h)(child := hp_parent h node)\<rparr>;
          h = set_parent (hp_left h child) child h;
          h = set_parent (hp_right h child) child h;
          h = (case hp_parent h node of None \<Rightarrow> h\<lparr>hp_min := Some child\<rparr>
               | Some g \<Rightarrow> if hp_left h g = Some node then write_slot (Left_slot g) (Some child) h else write_slot (Right_slot g) (Some child) h)
      in h\<lparr>hp_owner := (hp_owner h)(node := None)\<rparr>)"

definition heap_remove :: "(addr \<Rightarrow> addr \<Rightarrow> bool) \<Rightarrow> addr \<Rightarrow> heap_raw \<Rightarrow> (bool \<times> heap_raw) option" where
  "heap_remove compare node h =
     (if hp_owner h node \<noteq> Some (hp_this h) then Some (False, h)
      else if hp_size h = 0 then Some (False, h)
      else case walk_to (hp_size h) h of None \<Rightarrow> None
        | Some (_, max_slot) \<Rightarrow>
            let h = h\<lparr>hp_size := hp_size h - 1\<rparr>
            in case read_slot max_slot h of
                 None \<Rightarrow> None
               | Some child \<Rightarrow>
                   let h = write_slot max_slot None h
                   in if child = node
                      then (let h = (if hp_min h = Some child then h\<lparr>hp_min := None\<rparr> else h)
                            in Some (True, h\<lparr>hp_owner := (hp_owner h)(node := None)\<rparr>))
                      else map_option (Pair True) (Option.bind (walk_down compare child (replace_node node child h)) (walk_up compare child)))"

definition heap_pop :: "(addr \<Rightarrow> addr \<Rightarrow> bool) \<Rightarrow> heap_raw \<Rightarrow> (bool \<times> heap_raw) option" where
  "heap_pop compare h = (case hp_min h of None \<Rightarrow> None | Some m \<Rightarrow> heap_remove compare m h)"

definition empty_heap :: "addr \<Rightarrow> heap_raw" where
  "empty_heap this = \<lparr>hp_left = Map.empty, hp_right = Map.empty, hp_parent = Map.empty, hp_owner = Map.empty, hp_this = this, hp_min = None, hp_size = 0\<rparr>"

section \<open>The tree as a list of levels\<close>

text \<open>The nodes from the root down, level by level: the children of the node at \<open>j\<close> are at \<open>2 * j + 1\<close> and \<open>2 * j + 2\<close>.\<close>

definition nth_opt :: "addr list \<Rightarrow> nat \<Rightarrow> addr option" where
  "nth_opt ns i = (if i < length ns then Some (ns ! i) else None)"

definition tree_links :: "heap_raw \<Rightarrow> addr list \<Rightarrow> bool" where
  "tree_links h ns \<longleftrightarrow> distinct ns \<and> hp_min h = nth_opt ns 0
     \<and> (\<forall>j<length ns. hp_left h (ns ! j) = nth_opt ns (2 * j + 1) \<and> hp_right h (ns ! j) = nth_opt ns (2 * j + 2)
          \<and> hp_parent h (ns ! j) = (if j = 0 then None else Some (ns ! par j)))"

lemma nth_opt_map: "map_option g (nth_opt ns i) = nth_opt (map g ns) i"
  by (simp add: nth_opt_def)

lemma tree_linksD:
  assumes "tree_links h ns" "j < length ns"
  shows "hp_left h (ns ! j) = nth_opt ns (2 * j + 1)" "hp_right h (ns ! j) = nth_opt ns (2 * j + 2)"
    "hp_parent h (ns ! j) = (if j = 0 then None else Some (ns ! par j))"
  using assms by (simp_all add: tree_links_def)

lemma nth_opt_eq: "distinct ns \<Longrightarrow> j < length ns \<Longrightarrow> nth_opt ns k = Some (ns ! j) \<longleftrightarrow> k = j"
  by (auto simp: nth_opt_def nth_eq_iff_index_eq)

text \<open>A renaming of the nodes that the links follow.\<close>

lemma tree_links_rename:
  assumes "tree_links h ns" "inj_on g (set ns)" "hp_min h' = map_option g (hp_min h)"
    "\<And>a. a \<in> set ns \<Longrightarrow> hp_left h' (g a) = map_option g (hp_left h a)"
    "\<And>a. a \<in> set ns \<Longrightarrow> hp_right h' (g a) = map_option g (hp_right h a)"
    "\<And>a. a \<in> set ns \<Longrightarrow> hp_parent h' (g a) = map_option g (hp_parent h a)"
  shows "tree_links h' (map g ns)"
proof -
  have "hp_left h' (map g ns ! j) = nth_opt (map g ns) (2 * j + 1) \<and> hp_right h' (map g ns ! j) = nth_opt (map g ns) (2 * j + 2)
      \<and> hp_parent h' (map g ns ! j) = (if j = 0 then None else Some (map g ns ! par j))" if j: "j < length ns" for j
    using assms(4-6) [of "ns ! j"] tree_linksD [OF assms(1) j] j by (auto simp: nth_opt_map)
  then show ?thesis using assms(1-3) by (simp add: tree_links_def nth_opt_map distinct_map)
qed

text \<open>The links as a relation between addresses.\<close>

lemma tree_child:
  assumes "tree_links h ns" "a \<in> set ns" "b \<in> set ns"
  shows "hp_parent h b = Some a \<longleftrightarrow> hp_left h a = Some b \<or> hp_right h a = Some b"
proof -
  obtain i j where i: "i < length ns" "a = ns ! i" and j: "j < length ns" "b = ns ! j" using assms(2,3) by (metis in_set_conv_nth)
  have d: "distinct ns" using assms(1) by (simp add: tree_links_def)
  have "hp_left h a = Some b \<longleftrightarrow> 2 * i + 1 = j" "hp_right h a = Some b \<longleftrightarrow> 2 * i + 2 = j"
    unfolding i(2) j(2) using tree_linksD [OF assms(1) i(1)] nth_opt_eq [OF d j(1)] by simp_all
  moreover have "hp_parent h b = Some a \<longleftrightarrow> j \<noteq> 0 \<and> par j = i"
    unfolding i(2) j(2) using tree_linksD(3) [OF assms(1) j(1)] i(1) j(1) d by (auto simp: nth_eq_iff_index_eq)
  moreover have "par j = i \<and> j \<noteq> 0 \<longleftrightarrow> 2 * i + 1 = j \<or> 2 * i + 2 = j" by linarith
  ultimately show ?thesis by metis
qed

lemma tree_closed:
  assumes "tree_links h ns" "a \<in> set ns"
  shows "hp_left h a = Some b \<Longrightarrow> b \<in> set ns" "hp_right h a = Some b \<Longrightarrow> b \<in> set ns" "hp_parent h a = Some b \<Longrightarrow> b \<in> set ns"
    "hp_left h a = Some b \<Longrightarrow> hp_right h a \<noteq> Some b" "hp_parent h a = None \<longleftrightarrow> hp_min h = Some a"
proof -
  obtain i where i: "i < length ns" "a = ns ! i" using assms(2) by (metis in_set_conv_nth)
  have d: "distinct ns" "hp_min h = nth_opt ns 0" using assms(1) by (simp_all add: tree_links_def)
  note t = tree_linksD [OF assms(1) i(1), folded i(2)]
  show "hp_left h a = Some b \<Longrightarrow> b \<in> set ns" "hp_right h a = Some b \<Longrightarrow> b \<in> set ns" "hp_parent h a = Some b \<Longrightarrow> b \<in> set ns"
    using t i(1) par_less [of i] by (auto simp: nth_opt_def split: if_splits)
  show "hp_left h a = Some b \<Longrightarrow> hp_right h a \<noteq> Some b" using t d by (auto simp: nth_opt_def nth_eq_iff_index_eq split: if_splits)
  show "hp_parent h a = None \<longleftrightarrow> hp_min h = Some a" using t d i by (auto simp: nth_opt_def nth_eq_iff_index_eq)
qed

lemma tree_acyclic:
  assumes "tree_links h ns" "a \<in> set ns" "hp_parent h a = Some b"
  shows "a \<noteq> b" "hp_parent h b \<noteq> Some a"
proof -
  obtain i where i: "i < length ns" "a = ns ! i" using assms(2) by (metis in_set_conv_nth)
  have d: "distinct ns" using assms(1) by (simp add: tree_links_def)
  have p: "0 < i" "b = ns ! par i" using tree_linksD(3) [OF assms(1) i(1)] assms(3) i(2) by (auto split: if_splits)
  note less = par_less [OF p(1)]
  show "a \<noteq> b" using d i p less by (simp add: nth_eq_iff_index_eq)
  have "ns ! par (par i) \<noteq> ns ! i" if "0 < par i" using d i(1) less par_less [OF that] by (simp add: nth_eq_iff_index_eq)
  then show "hp_parent h b \<noteq> Some a" using tree_linksD(3) [OF assms(1), of "par i"] i less p(2) by auto
qed

section \<open>Exchanging a node with its parent\<close>

definition exchange :: "addr \<Rightarrow> addr \<Rightarrow> addr \<Rightarrow> addr" where
  "exchange p c a = (if a = p then c else if a = c then p else a)"

lemma exchange_simps [simp]: "exchange p c p = c" "exchange p c c = p" "a \<noteq> p \<Longrightarrow> a \<noteq> c \<Longrightarrow> exchange p c a = a"
  by (simp_all add: exchange_def)

lemma exchange_inj: "inj_on (exchange p c) A"
  by (auto simp: inj_on_def exchange_def split: if_splits)

lemma map_exchange_id: "v \<noteq> Some p \<Longrightarrow> v \<noteq> Some c \<Longrightarrow> map_option (exchange p c) v = v"
  by (cases v) auto

lemma set_parent_fields [simp]:
  "hp_left (set_parent v b h) = hp_left h" "hp_right (set_parent v b h) = hp_right h" "hp_owner (set_parent v b h) = hp_owner h"
  "hp_min (set_parent v b h) = hp_min h" "hp_size (set_parent v b h) = hp_size h" "hp_this (set_parent v b h) = hp_this h"
  "hp_parent (set_parent v b h) = (\<lambda>a. if v = Some a then Some b else hp_parent h a)"
  by (auto simp: set_parent_def fun_eq_iff split: option.splits)

lemma link_above_fields [simp]:
  "hp_left (link_above old new h) = (\<lambda>a. if hp_parent h new = Some a \<and> hp_left h a = Some old then Some new else hp_left h a)"
  "hp_right (link_above old new h) = (\<lambda>a. if hp_parent h new = Some a \<and> hp_left h a \<noteq> Some old then Some new else hp_right h a)"
  "hp_parent (link_above old new h) = hp_parent h" "hp_owner (link_above old new h) = hp_owner h"
  "hp_min (link_above old new h) = (if hp_parent h new = None then Some new else hp_min h)"
  "hp_size (link_above old new h) = hp_size h" "hp_this (link_above old new h) = hp_this h"
  by (auto simp: link_above_def fun_eq_iff split: option.splits)

lemma exchange_nodes_fields [simp]:
  "hp_left (exchange_nodes p c h) = (hp_left h)(p := hp_left h c, c := hp_left h p)"
  "hp_right (exchange_nodes p c h) = (hp_right h)(p := hp_right h c, c := hp_right h p)"
  "hp_parent (exchange_nodes p c h) = (hp_parent h)(p := hp_parent h c, c := hp_parent h p)"
  "hp_owner (exchange_nodes p c h) = (hp_owner h)(p := hp_owner h c, c := hp_owner h p)"
  "hp_min (exchange_nodes p c h) = hp_min h" "hp_size (exchange_nodes p c h) = hp_size h" "hp_this (exchange_nodes p c h) = hp_this h"
  by (simp_all add: exchange_nodes_def)

text \<open>The fields after \<open>swap_node\<close>, given that a node is not its own child or parent.\<close>

lemma swap_node_fields:
  assumes "p \<noteq> c" "hp_left h c \<noteq> Some c" "hp_right h c \<noteq> Some c" "hp_left h c \<noteq> Some p" "hp_right h c \<noteq> Some p"
    "hp_left h p \<noteq> Some p" "hp_right h p \<noteq> Some p" "hp_parent h p \<noteq> Some p" "hp_parent h p \<noteq> Some c"
    "hp_left h p = Some c \<longleftrightarrow> hp_right h p \<noteq> Some c"
  defines "sib \<equiv> if hp_left h p = Some c then hp_right h p else hp_left h p"
  shows "hp_left (swap_node p c h) = (\<lambda>a. if a = p then hp_left h c else if a = c then (if hp_left h p = Some c then Some p else hp_left h p)
           else if hp_parent h p = Some a \<and> hp_left h a = Some p then Some c else hp_left h a)"
    "hp_right (swap_node p c h) = (\<lambda>a. if a = p then hp_right h c else if a = c then (if hp_left h p = Some c then hp_right h p else Some p)
           else if hp_parent h p = Some a \<and> hp_left h a \<noteq> Some p then Some c else hp_right h a)"
    "hp_parent (swap_node p c h) = (\<lambda>a. if a = p then Some c else if a = c then hp_parent h p
           else if hp_left h c = Some a \<or> hp_right h c = Some a then Some p else if sib = Some a then Some c else hp_parent h a)"
    "hp_min (swap_node p c h) = (if hp_parent h p = None then Some c else hp_min h)"
    "hp_owner (swap_node p c h) = (hp_owner h)(p := hp_owner h c, c := hp_owner h p)"
    "hp_size (swap_node p c h) = hp_size h" "hp_this (swap_node p c h) = hp_this h"
proof -
  define h2 where "h2 = set_parent (Some p) c (exchange_nodes p c h)"
  define h3 where "h3 = (if hp_left h p = Some c then write_slot (Left_slot c) (Some p) h2 else write_slot (Right_slot c) (Some p) h2)"
  define h6 where "h6 = set_parent (hp_right h3 p) p (set_parent (hp_left h3 p) p (set_parent sib c h3))"
  have l3: "hp_left h3 = (\<lambda>a. if a = p then hp_left h c else if a = c then (if hp_left h p = Some c then Some p else hp_left h p) else hp_left h a)"
    and r3: "hp_right h3 = (\<lambda>a. if a = p then hp_right h c else if a = c then (if hp_left h p = Some c then hp_right h p else Some p) else hp_right h a)"
    and p3: "hp_parent h3 = (\<lambda>a. if a = p then Some c else if a = c then hp_parent h p else hp_parent h a)"
    using assms(1) by (auto simp: h3_def h2_def fun_eq_iff)
  have o3: "hp_owner h3 = (hp_owner h)(p := hp_owner h c, c := hp_owner h p)" "hp_min h3 = hp_min h" "hp_size h3 = hp_size h" "hp_this h3 = hp_this h"
    by (simp_all add: h3_def h2_def)
  have f6: "hp_left h6 = hp_left h3" "hp_right h6 = hp_right h3" "hp_owner h6 = hp_owner h3" "hp_min h6 = hp_min h3" "hp_size h6 = hp_size h3" "hp_this h6 = hp_this h3"
    by (simp_all add: h6_def)
  have p6: "hp_parent h6 = (\<lambda>a. if a = p then Some c else if a = c then hp_parent h p
      else if hp_left h c = Some a \<or> hp_right h c = Some a then Some p else if sib = Some a then Some c else hp_parent h a)"
    using assms(1-10) by (auto simp: h6_def l3 r3 p3 fun_eq_iff sib_def)
  have s: "swap_node p c h = link_above p c h6"
    using assms(1) by (simp add: swap_node_def Let_def h6_def h3_def h2_def sib_def)
  show "hp_left (swap_node p c h) = (\<lambda>a. if a = p then hp_left h c else if a = c then (if hp_left h p = Some c then Some p else hp_left h p)
           else if hp_parent h p = Some a \<and> hp_left h a = Some p then Some c else hp_left h a)"
    unfolding s using assms(1,8,9) by (auto simp: f6 p6 l3 fun_eq_iff)
  show "hp_right (swap_node p c h) = (\<lambda>a. if a = p then hp_right h c else if a = c then (if hp_left h p = Some c then hp_right h p else Some p)
           else if hp_parent h p = Some a \<and> hp_left h a \<noteq> Some p then Some c else hp_right h a)"
    unfolding s using assms(1,8,9) by (auto simp: f6 p6 l3 r3 fun_eq_iff)
  show "hp_parent (swap_node p c h) = (\<lambda>a. if a = p then Some c else if a = c then hp_parent h p
           else if hp_left h c = Some a \<or> hp_right h c = Some a then Some p else if sib = Some a then Some c else hp_parent h a)"
    unfolding s by (simp add: p6)
  show "hp_min (swap_node p c h) = (if hp_parent h p = None then Some c else hp_min h)" unfolding s using assms(1) by (simp add: f6 p6 o3)
  show "hp_owner (swap_node p c h) = (hp_owner h)(p := hp_owner h c, c := hp_owner h p)" "hp_size (swap_node p c h) = hp_size h"
    "hp_this (swap_node p c h) = hp_this h" unfolding s by (simp_all add: f6 o3)
qed

lemma swap_node_links:
  assumes t: "tree_links h ns" and c: "c \<in> set ns" "hp_parent h c = Some p"
  shows "tree_links (swap_node p c h) (map (exchange p c) ns)"
    "hp_owner (swap_node p c h) = (hp_owner h)(p := hp_owner h c, c := hp_owner h p)" "hp_size (swap_node p c h) = hp_size h"
    "hp_this (swap_node p c h) = hp_this h"
proof -
  have p: "p \<in> set ns" using tree_closed(3) [OF t c] .
  note child = tree_child [OF t] and closed = tree_closed [OF t] and acyclic = tree_acyclic [OF t]
  have pc: "hp_left h p = Some c \<or> hp_right h p = Some c" "p \<noteq> c" "hp_parent h p \<noteq> Some c"
    using child [OF p c(1)] c acyclic [OF c] by auto
  have lr: "hp_left h p = Some c \<longleftrightarrow> hp_right h p \<noteq> Some c" using pc(1) closed(4) [OF p, of c] by blast
  have self: "hp_left h a \<noteq> Some a" "hp_right h a \<noteq> Some a" "hp_parent h a \<noteq> Some a" if "a \<in> set ns" for a
    using child [OF that that] acyclic(1) [OF that, of a] by auto
  have up: "hp_left h c \<noteq> Some p" "hp_right h c \<noteq> Some p" using child [OF c(1) p] pc(3) by auto
  note f = swap_node_fields [OF pc(2) self(1,2) [OF c(1)] up self(1,2,3) [OF p] pc(3) lr]
  show "hp_owner (swap_node p c h) = (hp_owner h)(p := hp_owner h c, c := hp_owner h p)" "hp_size (swap_node p c h) = hp_size h"
    "hp_this (swap_node p c h) = hp_this h" by (rule f(5-7))+
  have onlyc: "a = p" if "a \<in> set ns" "hp_left h a = Some c \<or> hp_right h a = Some c" for a using child [OF that(1) c(1)] that(2) c(2) by simp
  have onlyp: "hp_parent h p = Some a \<longleftrightarrow> hp_left h a = Some p \<or> hp_right h a = Some p" if "a \<in> set ns" for a using child [OF that p] .
  show "tree_links (swap_node p c h) (map (exchange p c) ns)"
  proof (rule tree_links_rename [OF t exchange_inj])
    show "hp_min (swap_node p c h) = map_option (exchange p c) (hp_min h)"
      unfolding f(4) using closed(5) [OF p] closed(5) [OF c(1)] c(2) by (auto simp: map_exchange_id)
  next
    fix a assume a: "a \<in> set ns"
    show "hp_left (swap_node p c h) (exchange p c a) = map_option (exchange p c) (hp_left h a)"
    proof (cases "a = p \<or> a = c")
      case True
      then show ?thesis unfolding f(1) using pc(2) up self p c(1) by (auto simp: map_exchange_id)
    next
      case False
      have "hp_left h a \<noteq> Some c" using False onlyc [OF a] by auto
      then show ?thesis unfolding f(1) using False onlyp [OF a] by (cases "hp_left h a = Some p") (auto simp: map_exchange_id)
    qed
    show "hp_right (swap_node p c h) (exchange p c a) = map_option (exchange p c) (hp_right h a)"
    proof (cases "a = p \<or> a = c")
      case True
      then show ?thesis unfolding f(2) using pc(2) up self p c(1) lr by (auto simp: map_exchange_id)
    next
      case False
      have "hp_right h a \<noteq> Some c" using False onlyc [OF a] by auto
      then show ?thesis unfolding f(2) using False onlyp [OF a] closed(4) [OF a, of p]
        by (cases "hp_right h a = Some p") (auto simp: map_exchange_id)
    qed
    show "hp_parent (swap_node p c h) (exchange p c a) = map_option (exchange p c) (hp_parent h a)"
    proof (cases "a = p \<or> a = c")
      case True
      then show ?thesis unfolding f(3) using pc c self(3) [OF p] by (auto simp: map_exchange_id)
    next
      case False
      then show ?thesis unfolding f(3) using child [OF p a] child [OF c(1) a] lr
        by (cases "hp_parent h a = Some p"; cases "hp_parent h a = Some c") (auto simp: map_exchange_id)
    qed
  qed
qed

text \<open>On the list the exchange is a swap of two positions.\<close>

lemma map_exchange_swap:
  assumes "distinct ns" "i < length ns" "j < length ns"
  shows "map (exchange (ns ! i) (ns ! j)) ns = ns[i := ns ! j, j := ns ! i]"
proof (rule nth_equalityI)
  fix k assume k: "k < length (map (exchange (ns ! i) (ns ! j)) ns)"
  then show "map (exchange (ns ! i) (ns ! j)) ns ! k = ns[i := ns ! j, j := ns ! i] ! k"
    using assms by (auto simp: exchange_def nth_list_update nth_eq_iff_index_eq)
qed simp

lemma swap_position:
  assumes "tree_links h ns" "0 < i" "i < length ns"
  shows "tree_links (swap_node (ns ! par i) (ns ! i) h) (ns[par i := ns ! i, i := ns ! par i])"
    "hp_owner (swap_node (ns ! par i) (ns ! i) h) = (hp_owner h)(ns ! par i := hp_owner h (ns ! i), ns ! i := hp_owner h (ns ! par i))"
    "hp_size (swap_node (ns ! par i) (ns ! i) h) = hp_size h" "hp_this (swap_node (ns ! par i) (ns ! i) h) = hp_this h"
proof -
  have c: "ns ! i \<in> set ns" "hp_parent h (ns ! i) = Some (ns ! par i)" using assms tree_linksD(3) [OF assms(1,3)] by auto
  have "distinct ns" "par i < length ns" using assms par_less [OF assms(2)] by (auto simp: tree_links_def)
  then have "map (exchange (ns ! par i) (ns ! i)) ns = ns[par i := ns ! i, i := ns ! par i]" using map_exchange_swap assms(3) by simp
  then show "tree_links (swap_node (ns ! par i) (ns ! i) h) (ns[par i := ns ! i, i := ns ! par i])"
    using swap_node_links(1) [OF assms(1) c] by simp
qed (use swap_node_links(2-4) [OF assms(1), of "ns ! i" "ns ! par i"] assms tree_linksD(3) [OF assms(1,3)] in auto)

section \<open>Keys and order\<close>

definition by_key :: "(addr \<Rightarrow> int) \<Rightarrow> addr \<Rightarrow> addr \<Rightarrow> bool" where
  "by_key key a b \<longleftrightarrow> key a < key b"

lemma key_swap: "i < length ns \<Longrightarrow> j < length ns \<Longrightarrow> (\<lambda>k. key (ns[i := ns ! j, j := ns ! i] ! k)) = sw (\<lambda>k. key (ns ! k)) i j"
  by (rule ext) (auto simp: sw_def nth_list_update)

text \<open>\<open>tree_of h ns\<close>: the tree, with every node of it owned by the heap.\<close>

definition tree_of :: "heap_raw \<Rightarrow> addr list \<Rightarrow> bool" where
  "tree_of h ns \<longleftrightarrow> tree_links h ns \<and> (\<forall>a. hp_owner h a = Some (hp_this h) \<longleftrightarrow> a \<in> set ns)"

lemma tree_of_swap:
  assumes "tree_of h ns" "0 < i" "i < length ns"
  shows "tree_of (swap_node (ns ! par i) (ns ! i) h) (ns[par i := ns ! i, i := ns ! par i])"
proof -
  have t: "tree_links h ns" and o: "\<And>a. hp_owner h a = Some (hp_this h) \<longleftrightarrow> a \<in> set ns" using assms(1) by (auto simp: tree_of_def)
  note s = swap_position [OF t assms(2,3)]
  have l: "par i < length ns" using par_less [OF assms(2)] assms(3) by simp
  then have "set (ns[par i := ns ! i, i := ns ! par i]) = set ns" using assms(3) by (metis mset_swap mset_eq_setD)
  moreover have "hp_owner h (ns ! i) = Some (hp_this h)" "hp_owner h (ns ! par i) = Some (hp_this h)" using o l assms(3) by simp_all
  ultimately show ?thesis using s o unfolding tree_of_def by auto
qed

lemma walk_up_correct:
  assumes "tree_of h ns" "i < length ns" "order_except (\<lambda>k. key (ns ! k)) (length ns) i" "below_ok (\<lambda>k. key (ns ! k)) (length ns) i"
  shows "\<exists>h' ns'. walk_up (by_key key) (ns ! i) h = Some h' \<and> tree_of h' ns' \<and> mset ns' = mset ns \<and> heap_order (\<lambda>k. key (ns' ! k)) (length ns')
     \<and> hp_size h' = hp_size h \<and> hp_this h' = hp_this h"
  using assms
proof (induction i arbitrary: h ns rule: less_induct)
  case (less i)
  have t: "tree_links h ns" using less.prems(1) by (simp add: tree_of_def)
  note p = tree_linksD(3) [OF t less.prems(2)]
  show ?case
  proof (cases "0 < i \<and> key (ns ! i) < key (ns ! par i)")
    case True
    let ?h = "swap_node (ns ! par i) (ns ! i) h" and ?ns = "ns[par i := ns ! i, i := ns ! par i]"
    have l: "par i < i" "par i < length ns" using par_less [of i] True less.prems(2) by auto
    have k: "(\<lambda>k. key (?ns ! k)) = sw (\<lambda>k. key (ns ! k)) i (par i)"
      using key_swap [OF l(2) less.prems(2), of key] by (auto simp: sw_def)
    note st = up_step [OF less.prems(3,4) _ less.prems(2)]
    have "order_except (\<lambda>k. key (?ns ! k)) (length ?ns) (par i)" "below_ok (\<lambda>k. key (?ns ! k)) (length ?ns) (par i)"
      unfolding k using st True by simp_all
    moreover have "tree_of ?h ?ns" using tree_of_swap [OF less.prems(1)] True less.prems(2) by simp
    moreover have at: "?ns ! par i = ns ! i" using l less.prems(2) by (simp add: nth_list_update)
    ultimately obtain h' ns' where r: "walk_up (by_key key) (ns ! i) ?h = Some h'" "tree_of h' ns'" "mset ns' = mset ?ns"
        "heap_order (\<lambda>k. key (ns' ! k)) (length ns')" "hp_size h' = hp_size ?h" "hp_this h' = hp_this ?h"
      using less.IH [OF l(1), of ?h ?ns] l(2) by auto
    have "walk_up (by_key key) (ns ! i) h = walk_up (by_key key) (ns ! i) ?h"
      using p True by (subst walk_up.simps) (simp add: by_key_def)
    moreover have "mset ?ns = mset ns" using l(2) less.prems(2) by (simp add: mset_swap)
    moreover have "hp_size ?h = hp_size h" "hp_this ?h = hp_this h" using swap_position(3,4) [OF t _ less.prems(2)] True by simp_all
    ultimately show ?thesis using r by auto
  next
    case False
    then have "walk_up (by_key key) (ns ! i) h = Some h" using p by (subst walk_up.simps) (auto simp: by_key_def)
    moreover have "above_ok (\<lambda>k. key (ns ! k)) i" using False by (auto simp: above_ok_def)
    ultimately show ?thesis using less.prems heap_order_split by blast
  qed
qed

lemma children: "0 < j \<and> par j = i \<longleftrightarrow> j = 2 * i + 1 \<or> j = 2 * i + 2"
  by linarith

lemma smallest_child:
  fixes key :: "addr \<Rightarrow> int"
  assumes "tree_links h ns" "i < length ns"
  defines "f \<equiv> \<lambda>k. key (ns ! k)" and "s \<equiv> smaller_of (by_key key) (hp_right h (ns ! i)) (smaller_of (by_key key) (hp_left h (ns ! i)) (ns ! i))"
  shows "s = ns ! i \<and> below_ok f (length ns) i
     \<or> (\<exists>m. 0 < m \<and> m < length ns \<and> par m = i \<and> s = ns ! m \<and> (\<forall>j. 0 < j \<and> j < length ns \<and> par j = i \<longrightarrow> f m \<le> f j) \<and> f m < f i \<and> \<not> below_ok f (length ns) i)"
proof -
  note t = tree_linksD [OF assms(1,2)]
  have kids: "(0 < j \<and> j < length ns \<and> par j = i) \<longleftrightarrow> (j = 2 * i + 1 \<or> j = 2 * i + 2) \<and> j < length ns" for j using children [of j i] by auto
  have b: "below_ok f (length ns) i \<longleftrightarrow> (2 * i + 1 < length ns \<longrightarrow> f i \<le> f (2 * i + 1)) \<and> (2 * i + 2 < length ns \<longrightarrow> f i \<le> f (2 * i + 2))"
    unfolding below_ok_def kids by auto
  let ?l = "2 * i + 1" and ?r = "2 * i + 2"
  consider (both) "?r < length ns" | (one) "?l < length ns" "\<not> ?r < length ns" | (leaf) "\<not> ?l < length ns" by linarith
  then show ?thesis
  proof cases
    case leaf
    then show ?thesis unfolding b by (simp add: s_def t nth_opt_def smaller_of_def)
  next
    case one
    show ?thesis
    proof (cases "f ?l < f i")
      case True
      then have "s = ns ! ?l" using one by (simp add: s_def t nth_opt_def smaller_of_def by_key_def f_def)
      then show ?thesis unfolding b kids using one True by (intro disjI2 exI [of _ ?l]) (auto simp: kids)
    next
      case False
      then show ?thesis unfolding b using one by (auto simp: s_def t nth_opt_def smaller_of_def by_key_def f_def)
    qed
  next
    case both
    then have l: "?l < length ns" by simp
    have s: "s = (let w = (if f ?l < f i then ?l else i) in if f ?r < f w then ns ! ?r else ns ! w)"
      using both l by (simp add: s_def t nth_opt_def smaller_of_def by_key_def f_def Let_def)
    consider "f i \<le> f ?l" "f i \<le> f ?r" | "f ?l < f i" "f ?l \<le> f ?r" | "f ?r < f i" "f ?r < f ?l" by linarith
    then show ?thesis
    proof cases
      case 1 then show ?thesis unfolding b by (simp add: s)
    next
      case 2 then show ?thesis unfolding b kids using l by (intro disjI2 exI [of _ ?l]) (auto simp: s kids)
    next
      case 3 then show ?thesis unfolding b kids using both by (intro disjI2 exI [of _ ?r]) (auto simp: s kids)
    qed
  qed
qed

lemma walk_down_correct:
  assumes "tree_of h ns" "i < length ns" "order_except (\<lambda>k. key (ns ! k)) (length ns) i"
    "above_ok (\<lambda>k. key (ns ! k)) i \<or> below_ok (\<lambda>k. key (ns ! k)) (length ns) i"
  shows "\<exists>h' ns' i'. walk_down (by_key key) (ns ! i) h = Some h' \<and> tree_of h' ns' \<and> mset ns' = mset ns \<and> i' < length ns' \<and> ns' ! i' = ns ! i
     \<and> order_except (\<lambda>k. key (ns' ! k)) (length ns') i' \<and> below_ok (\<lambda>k. key (ns' ! k)) (length ns') i' \<and> hp_size h' = hp_size h \<and> hp_this h' = hp_this h"
  using assms
proof (induction "length ns - i" arbitrary: h ns i rule: less_induct)
  case less
  have t: "tree_links h ns" using less.prems(1) by (simp add: tree_of_def)
  let ?s = "smaller_of (by_key key) (hp_right h (ns ! i)) (smaller_of (by_key key) (hp_left h (ns ! i)) (ns ! i))"
  from smallest_child [OF t less.prems(2), of key] show ?case
  proof (elim disjE exE conjE)
    assume s: "?s = ns ! i" and b: "below_ok (\<lambda>k. key (ns ! k)) (length ns) i"
    have "walk_down (by_key key) (ns ! i) h = Some h" using s by (subst walk_down.simps) (simp add: Let_def)
    then show ?thesis using less.prems b by blast
  next
    fix m assume m: "0 < m" "m < length ns" "par m = i" "?s = ns ! m" "\<forall>j. 0 < j \<and> j < length ns \<and> par j = i \<longrightarrow> key (ns ! m) \<le> key (ns ! j)"
      "key (ns ! m) < key (ns ! i)" "\<not> below_ok (\<lambda>k. key (ns ! k)) (length ns) i"
    let ?h = "swap_node (ns ! i) (ns ! m) h" and ?ns = "ns[i := ns ! m, m := ns ! i]"
    have k: "(\<lambda>k. key (?ns ! k)) = sw (\<lambda>k. key (ns ! k)) i m" using key_swap [OF less.prems(2) m(2), of key] .
    have "above_ok (\<lambda>k. key (ns ! k)) i" using less.prems(4) m(7) by blast
    note st = down_step [OF less.prems(3) this m(1-3)]
    have o: "order_except (\<lambda>k. key (?ns ! k)) (length ?ns) m" "above_ok (\<lambda>k. key (?ns ! k)) m"
      unfolding k using st m(5,6) by simp_all
    have tr: "tree_of ?h ?ns" using tree_of_swap [OF less.prems(1) m(1,2)] unfolding m(3) .
    have im: "i < m" using par_less [OF m(1)] m(3) by simp
    have "length ?ns - m < length ns - i" "m < length ?ns" using im m(2) by simp_all
    from less.hyps [OF this(1) tr this(2) o(1)] o(2) obtain h' ns' i' where r: "walk_down (by_key key) (?ns ! m) ?h = Some h'" "tree_of h' ns'"
        "mset ns' = mset ?ns" "i' < length ns'" "ns' ! i' = ?ns ! m" "order_except (\<lambda>k. key (ns' ! k)) (length ns') i'"
        "below_ok (\<lambda>k. key (ns' ! k)) (length ns') i'" "hp_size h' = hp_size ?h" "hp_this h' = hp_this ?h" by blast
    have at: "?ns ! m = ns ! i" using m(2) by simp
    have "ns ! m \<noteq> ns ! i" using t m(2) less.prems(2) im by (auto simp: tree_links_def nth_eq_iff_index_eq)
    then have "walk_down (by_key key) (ns ! i) h = walk_down (by_key key) (ns ! i) ?h"
      using m(4) by (subst walk_down.simps) (simp add: Let_def)
    moreover have "mset ?ns = mset ns" using m(2) less.prems(2) by (simp add: mset_swap)
    moreover have "hp_size ?h = hp_size h" "hp_this ?h = hp_this h" using swap_position(3,4) [OF t m(1,2)] unfolding m(3) .
    ultimately show ?thesis using r unfolding at by (intro exI [of _ h'] exI [of _ ns'] exI [of _ i']) simp
  qed
qed

section \<open>The path to a position\<close>

fun descend :: "nat \<Rightarrow> nat \<Rightarrow> nat \<Rightarrow> nat" where
  "descend m 0 path = m"
| "descend m (Suc k) path = descend (2 * m + path mod 2) k (path div 2)"

lemma heap_path_descend: "0 < n \<Longrightarrow> descend 1 (fst (heap_path n k path)) (snd (heap_path n k path)) = descend n k path"
proof (induction n k path rule: heap_path.induct)
  case (1 n k path)
  show ?case
  proof (cases "n \<ge> 2")
    case True
    have "descend 1 (fst (heap_path n k path)) (snd (heap_path n k path)) = descend (n div 2) (k + 1) (path * 2 + n mod 2)"
      using 1 True by (subst (1 2) heap_path.simps) simp
    also have "\<dots> = descend (2 * (n div 2) + n mod 2) k path" by simp
    finally show ?thesis by simp
  next
    case False
    then have "n = 1" using 1(2) by simp
    then show ?thesis by (simp add: heap_path.simps)
  qed
qed

lemma descend_ge: "m \<le> descend m k path"
proof (induction k arbitrary: m path)
  case (Suc k)
  have "m \<le> 2 * m + path mod 2" by simp
  also have "\<dots> \<le> descend (2 * m + path mod 2) k (path div 2)" by (rule Suc)
  finally show ?case by simp
qed simp

text \<open>The slot that points to the \<open>m\<close>-th node, counted from one.\<close>

definition slot_at :: "addr list \<Rightarrow> nat \<Rightarrow> slot" where
  "slot_at ns m = (if m = 1 then Min_slot else if m mod 2 = 1 then Right_slot (ns ! (m div 2 - 1)) else Left_slot (ns ! (m div 2 - 1)))"

lemma read_slot_at:
  assumes "tree_links h ns" "0 < m" "m \<le> length ns + 1"
  shows "read_slot (slot_at ns m) h = nth_opt ns (m - 1)"
proof (cases "m = 1")
  case True
  then show ?thesis using assms(1) by (simp add: slot_at_def tree_links_def)
next
  case False
  let ?j = "m div 2 - 1"
  have j: "?j < length ns" using False assms(2,3) by linarith
  show ?thesis
  proof (cases "m mod 2 = 1")
    case True
    then have "2 * ?j + 2 = m - 1" using False assms(2) by presburger
    then show ?thesis using tree_linksD(2) [OF assms(1) j] True False by (simp add: slot_at_def)
  next
    case even: False
    then have "2 * ?j + 1 = m - 1" using False assms(2) by presburger
    then show ?thesis using tree_linksD(1) [OF assms(1) j] even False by (simp add: slot_at_def)
  qed
qed

lemma heap_walk_slots:
  assumes "tree_links h ns" "0 < m" "descend m k path = t" "t \<le> length ns + 1"
  shows "heap_walk k path parent (slot_at ns m) h = Some (if k = 0 then parent else slot_at ns (t div 2), slot_at ns t)"
  using assms(2,3)
proof (induction k arbitrary: m path parent)
  case (Suc k)
  let ?m = "2 * m + path mod 2"
  have "?m \<le> t" using descend_ge [of ?m k "path div 2"] Suc.prems(2) by simp
  then have m: "m \<le> length ns" using assms(4) Suc.prems(1) by linarith
  have "read_slot (slot_at ns m) h = Some (ns ! (m - 1))" using read_slot_at [OF assms(1) Suc.prems(1)] m Suc.prems(1) by (simp add: nth_opt_def)
  moreover have "(if path mod 2 = 1 then Right_slot (ns ! (m - 1)) else Left_slot (ns ! (m - 1))) = slot_at ns ?m"
    using Suc.prems(1) by (auto simp: slot_at_def mod_2_eq_odd)
  ultimately have "heap_walk (Suc k) path parent (slot_at ns m) h = heap_walk k (path div 2) (slot_at ns m) (slot_at ns ?m) h"
    by (simp only: heap_walk.simps option.simps)
  also have "\<dots> = Some (if k = 0 then slot_at ns m else slot_at ns (t div 2), slot_at ns t)" using Suc.IH [of ?m "path div 2"] Suc.prems by simp
  also have "(if k = 0 then slot_at ns m else slot_at ns (t div 2)) = slot_at ns (t div 2)" using Suc.prems(2) by auto
  finally show ?case by simp
qed simp

lemma walk_to_slots:
  assumes "tree_links h ns" "0 < t" "t \<le> length ns + 1"
  shows "walk_to t h = Some (if t = 1 then Min_slot else slot_at ns (t div 2), slot_at ns t)"
proof -
  obtain k path where k: "heap_path t 0 0 = (k, path)" by fastforce
  have d: "descend 1 k path = t" using heap_path_descend [OF assms(2), of 0 0] k by simp
  have "k = 0 \<longleftrightarrow> t = 1"
  proof
    assume "t = 1" then show "k = 0" using k by (simp add: heap_path.simps)
  qed (use d in simp)
  moreover have "heap_walk k path Min_slot (slot_at ns 1) h = Some (if k = 0 then Min_slot else slot_at ns (t div 2), slot_at ns t)"
    using heap_walk_slots [OF assms(1) _ d assms(3)] by simp
  ultimately show ?thesis using k by (simp add: walk_to_def slot_at_def)
qed

section \<open>Adding, cutting off and replacing a node\<close>

lemma tree_append:
  assumes "tree_links h ns" "node \<notin> set ns" "hp_left h node = None" "hp_right h node = None"
    "hp_parent h node = (if ns = [] then None else Some (ns ! par (length ns)))"
  shows "tree_links (write_slot (slot_at ns (length ns + 1)) (Some node) h) (ns @ [node])"
proof -
  let ?n = "length ns" and ?h = "write_slot (slot_at ns (length ns + 1)) (Some node) h"
  have d: "distinct ns" "hp_min h = nth_opt ns 0" using assms(1) by (simp_all add: tree_links_def)
  have idx: "ns ! i = ns ! j \<longleftrightarrow> i = j" if "i < ?n" "j < ?n" for i j using d that by (simp add: nth_eq_iff_index_eq)
  have old: "ns ! j \<noteq> node" if "j < ?n" for j using assms(2) that nth_mem by metis
  consider (empty) "?n = 0" | (left) q where "?n = 2 * q + 1" | (right) q where "?n = 2 * q + 2"
    by (metis Suc_eq_plus1 add_2_eq_Suc' evenE oddE mult_2 not0_implies_Suc even_Suc nat_mult_1_right One_nat_def add_Suc_right)
  then have all: "hp_left ?h ((ns @ [node]) ! j) = nth_opt (ns @ [node]) (2 * j + 1) \<and> hp_right ?h ((ns @ [node]) ! j) = nth_opt (ns @ [node]) (2 * j + 2)
      \<and> hp_parent ?h ((ns @ [node]) ! j) = (if j = 0 then None else Some ((ns @ [node]) ! par j))
      \<and> hp_min ?h = nth_opt (ns @ [node]) 0" if j: "j < ?n + 1" for j
  proof cases
    case empty
    then show ?thesis using assms j by (simp add: slot_at_def nth_opt_def)
  next
    case left
    then have s: "slot_at ns (?n + 1) = Left_slot (ns ! q)" by (simp add: slot_at_def)
    have ne: "ns \<noteq> []" using left by auto
    show ?thesis
    proof (cases "j = ?n")
      case True
      then show ?thesis using assms(3-5) d ne left old [of q] unfolding s by (auto simp: nth_opt_def nth_append)
    next
      case False
      then have jn: "j < ?n" using j by simp
      show ?thesis using tree_linksD [OF assms(1) jn] idx [OF jn, of q] jn left d par_less [of j] unfolding s
        by (auto simp: nth_opt_def nth_append)
    qed
  next
    case right
    then have s: "slot_at ns (?n + 1) = Right_slot (ns ! q)" by (simp add: slot_at_def)
    have ne: "ns \<noteq> []" using right by auto
    show ?thesis
    proof (cases "j = ?n")
      case True
      then show ?thesis using assms(3-5) d ne right old [of q] unfolding s by (auto simp: nth_opt_def nth_append)
    next
      case False
      then have jn: "j < ?n" using j by simp
      show ?thesis using tree_linksD [OF assms(1) jn] idx [OF jn, of q] jn right d par_less [of j] unfolding s
        by (auto simp: nth_opt_def nth_append)
    qed
  qed
  show ?thesis using d(1) assms(2) all all [of 0] by (simp add: tree_links_def)
qed

lemma tree_cut:
  assumes "tree_links h (ns @ [node])"
  shows "tree_links (write_slot (slot_at (ns @ [node]) (length ns + 1)) None h) ns"
proof -
  let ?n = "length ns" and ?h = "write_slot (slot_at (ns @ [node]) (length ns + 1)) None h"
  have d: "distinct (ns @ [node])" "hp_min h = nth_opt (ns @ [node]) 0" using assms by (simp_all add: tree_links_def)
  have idx: "ns ! i = ns ! j \<longleftrightarrow> i = j" if "i < ?n" "j < ?n" for i j using d(1) that by (simp add: nth_eq_iff_index_eq)
  consider (empty) "?n = 0" | (left) q where "?n = 2 * q + 1" | (right) q where "?n = 2 * q + 2"
    by (metis Suc_eq_plus1 add_2_eq_Suc' evenE oddE mult_2 not0_implies_Suc even_Suc nat_mult_1_right One_nat_def add_Suc_right)
  then have "(j < ?n \<longrightarrow> hp_left ?h (ns ! j) = nth_opt ns (2 * j + 1) \<and> hp_right ?h (ns ! j) = nth_opt ns (2 * j + 2)
      \<and> hp_parent ?h (ns ! j) = (if j = 0 then None else Some (ns ! par j))) \<and> hp_min ?h = nth_opt ns 0" for j
  proof cases
    case empty
    then show ?thesis by (simp add: slot_at_def nth_opt_def)
  next
    case left
    then have s: "slot_at (ns @ [node]) (?n + 1) = Left_slot (ns ! q)" by (simp add: slot_at_def nth_append)
    show ?thesis using tree_linksD [OF assms, of j] idx [of j q] left d par_less [of j] unfolding s
      by (auto simp: nth_opt_def nth_append)
  next
    case right
    then have s: "slot_at (ns @ [node]) (?n + 1) = Right_slot (ns ! q)" by (simp add: slot_at_def nth_append)
    have "2 * j + 1 \<noteq> ?n" using right by presburger
    then show ?thesis using tree_linksD [OF assms, of j] idx [of j q] right d par_less [of j] unfolding s
      by (auto simp: nth_opt_def nth_append)
  qed
  then show ?thesis using d(1) by (simp add: tree_links_def)
qed

lemma tree_replace:
  assumes "tree_links h ns" "i < length ns" "child \<notin> set ns"
  shows "tree_links (replace_node (ns ! i) child h) (ns[i := child])"
    "hp_owner (replace_node (ns ! i) child h) = (hp_owner h)(ns ! i := None)" "hp_size (replace_node (ns ! i) child h) = hp_size h"
    "hp_this (replace_node (ns ! i) child h) = hp_this h"
proof -
  let ?node = "ns ! i" and ?h = "replace_node (ns ! i) child h"
  define g where "g a = (if a = ?node then child else a)" for a
  have node: "?node \<in> set ns" using assms(2) by simp
  note closed = tree_closed [OF assms(1)] and kids = tree_child [OF assms(1)]
  have self: "hp_left h ?node \<noteq> Some ?node" "hp_right h ?node \<noteq> Some ?node" "hp_parent h ?node \<noteq> Some ?node"
    using kids [OF node node] tree_acyclic(1) [OF assms(1) node] by auto
  have out: "hp_left h ?node \<noteq> Some child" "hp_right h ?node \<noteq> Some child" "hp_parent h ?node \<noteq> Some child" "?node \<noteq> child"
    using closed(1-3) [OF node, of child] assms(3) node by auto
  define h1 where "h1 = h\<lparr>hp_left := (hp_left h)(child := hp_left h ?node), hp_right := (hp_right h)(child := hp_right h ?node),
     hp_parent := (hp_parent h)(child := hp_parent h ?node)\<rparr>"
  define h3 where "h3 = set_parent (hp_right h ?node) child (set_parent (hp_left h ?node) child h1)"
  have h1: "hp_left h1 child = hp_left h ?node" "hp_right (set_parent (hp_left h ?node) child h1) child = hp_right h ?node" by (simp_all add: h1_def)
  have l3: "hp_left h3 = (hp_left h)(child := hp_left h ?node)" "hp_right h3 = (hp_right h)(child := hp_right h ?node)" "hp_min h3 = hp_min h"
      "hp_owner h3 = hp_owner h" "hp_size h3 = hp_size h" "hp_this h3 = hp_this h"
      "hp_parent h3 = (\<lambda>a. if hp_left h ?node = Some a \<or> hp_right h ?node = Some a then Some child else if a = child then hp_parent h ?node else hp_parent h a)"
    by (auto simp: h3_def h1_def fun_eq_iff)
  have p3: "hp_parent h3 ?node = hp_parent h ?node" using self out by (simp add: l3)
  have rep: "?h = (let h = (case hp_parent h ?node of None \<Rightarrow> h3\<lparr>hp_min := Some child\<rparr>
       | Some g \<Rightarrow> if hp_left h3 g = Some ?node then write_slot (Left_slot g) (Some child) h3 else write_slot (Right_slot g) (Some child) h3)
     in h\<lparr>hp_owner := (hp_owner h)(?node := None)\<rparr>)"
    unfolding replace_node_def Let_def h1_def [symmetric] h1 h3_def [symmetric] p3 ..
  have f: "hp_parent ?h = hp_parent h3" "hp_min ?h = (if hp_parent h ?node = None then Some child else hp_min h)"
      "hp_left ?h = (\<lambda>a. if hp_parent h ?node = Some a \<and> hp_left h3 a = Some ?node then Some child else hp_left h3 a)"
      "hp_right ?h = (\<lambda>a. if hp_parent h ?node = Some a \<and> hp_left h3 a \<noteq> Some ?node then Some child else hp_right h3 a)"
    unfolding rep Let_def by (auto simp: l3(3) fun_eq_iff split: option.splits)
  show "hp_owner ?h = (hp_owner h)(?node := None)" "hp_size ?h = hp_size h" "hp_this ?h = hp_this h"
    unfolding rep Let_def by (auto simp: l3(4-6) split: option.splits)
  have idg: "map_option g v = v" if "v \<noteq> Some ?node" for v using that by (cases v) (auto simp: g_def)
  have "tree_links ?h (map g ns)"
  proof (rule tree_links_rename [OF assms(1)])
    show "inj_on g (set ns)" using assms(3) by (auto simp: inj_on_def g_def)
    show "hp_min ?h = map_option g (hp_min h)" unfolding f(2) using closed(5) [OF node] by (auto simp: g_def idg)
  next
    fix a assume a: "a \<in> set ns"
    then have ac: "a \<noteq> child" using assms(3) by auto
    have onlyp: "hp_parent h ?node = Some a \<longleftrightarrow> hp_left h a = Some ?node \<or> hp_right h a = Some ?node" using kids [OF a node] .
    show "hp_left ?h (g a) = map_option g (hp_left h a)"
      using ac onlyp self out unfolding f(3) l3 by (cases "a = ?node"; cases "hp_left h a = Some ?node") (auto simp: g_def idg)
    show "hp_right ?h (g a) = map_option g (hp_right h a)"
      using ac onlyp self out closed(4) [OF a, of ?node] unfolding f(4) l3 by (cases "a = ?node"; cases "hp_right h a = Some ?node") (auto simp: g_def idg)
    show "hp_parent ?h (g a) = map_option g (hp_parent h a)"
      using ac kids [OF node a] self out unfolding f(1) l3 by (cases "a = ?node"; cases "hp_parent h a = Some ?node") (auto simp: g_def idg)
  qed
  moreover have "map g ns = ns[i := child]"
    using assms(1,2) by (intro nth_equalityI) (auto simp: g_def nth_list_update nth_eq_iff_index_eq tree_links_def)
  ultimately show "tree_links ?h (ns[i := child])" by simp
qed

section \<open>The operations keep the heap\<close>

definition heap_elems :: "heap_raw \<Rightarrow> addr set" where
  "heap_elems h = {a. hp_owner h a = Some (hp_this h)}"

definition heap_inv :: "(addr \<Rightarrow> int) \<Rightarrow> heap_raw \<Rightarrow> bool" where
  "heap_inv key h \<longleftrightarrow> (\<exists>ns. tree_of h ns \<and> hp_size h = length ns \<and> heap_order (\<lambda>k. key (ns ! k)) (length ns))"

lemma tree_of_elems: "tree_of h ns \<Longrightarrow> heap_elems h = set ns"
  by (auto simp: tree_of_def heap_elems_def)

lemma heap_insert_new:
  assumes "heap_inv key h" "hp_owner h node = None"
  shows "\<exists>h'. heap_insert (by_key key) node h = Some (True, h') \<and> heap_inv key h' \<and> heap_elems h' = insert node (heap_elems h) \<and> hp_this h' = hp_this h"
proof -
  obtain ns where ns: "tree_of h ns" "hp_size h = length ns" "heap_order (\<lambda>k. key (ns ! k)) (length ns)" using assms(1) by (auto simp: heap_inv_def)
  have t: "tree_links h ns" and own: "\<And>a. hp_owner h a = Some (hp_this h) \<longleftrightarrow> a \<in> set ns" using ns(1) by (auto simp: tree_of_def)
  have node: "node \<notin> set ns" using own [of node] assms(2) by auto
  let ?n = "length ns"
  define h0 where "h0 = h\<lparr>hp_left := (hp_left h)(node := None), hp_right := (hp_right h)(node := None), hp_parent := (hp_parent h)(node := None)\<rparr>"
  have "ns ! j \<noteq> node" if "j < ?n" for j using node that nth_mem by metis
  then have t0: "tree_links h0 ns" using t unfolding tree_links_def h0_def by simp
  define parent where "parent = (if ?n + 1 = 1 then Min_slot else slot_at ns ((?n + 1) div 2))"
  have "1 + hp_size h0 = ?n + 1" using ns(2) by (simp add: h0_def)
  then have w: "walk_to (1 + hp_size h0) h0 = Some (parent, slot_at ns (?n + 1))"
    using walk_to_slots [OF t0, of "?n + 1"] unfolding parent_def by simp
  have rp: "read_slot parent h0 = (if ns = [] then None else Some (ns ! par ?n))"
  proof (cases "ns = []")
    case True
    then show ?thesis using t0 by (simp add: parent_def tree_links_def nth_opt_def)
  next
    case False
    then have "0 < (?n + 1) div 2" "(?n + 1) div 2 \<le> ?n + 1" "(?n + 1) div 2 - 1 = par ?n" "par ?n < ?n" by (cases ns; simp)+
    then show ?thesis using read_slot_at [OF t0, of "(?n + 1) div 2"] False by (simp add: parent_def nth_opt_def)
  qed
  define h1 where "h1 = h0\<lparr>hp_parent := (hp_parent h0)(node := read_slot parent h0)\<rparr>"
  define h2 where "h2 = write_slot (slot_at ns (?n + 1)) (Some node) h1"
  define h3 where "h3 = h2\<lparr>hp_owner := (hp_owner h2)(node \<mapsto> hp_this h2), hp_size := hp_size h2 + 1\<rparr>"
  have keep: "hp_owner (write_slot s v x) = hp_owner x" "hp_this (write_slot s v x) = hp_this x" "hp_size (write_slot s v x) = hp_size x" for s v x
    by (cases s; simp)+
  have "tree_links h1 ns" using t0 \<open>\<And>j. j < ?n \<Longrightarrow> ns ! j \<noteq> node\<close> unfolding tree_links_def h1_def by simp
  then have "tree_links h2 (ns @ [node])" unfolding h2_def by (rule tree_append [OF _ node]) (simp_all add: h1_def h0_def rp [unfolded h0_def])
  then have t3: "tree_of h3 (ns @ [node])" using own unfolding tree_of_def tree_links_def h3_def h2_def by (auto simp: keep h1_def h0_def)
  have "order_except (\<lambda>k. key ((ns @ [node]) ! k)) (length (ns @ [node])) ?n" "below_ok (\<lambda>k. key ((ns @ [node]) ! k)) (length (ns @ [node])) ?n"
    using ns(3) par_less unfolding order_except_def below_ok_def heap_order_def by (force simp: nth_append)+
  from walk_up_correct [OF t3 _ this] obtain h' ns' where r: "walk_up (by_key key) node h3 = Some h'" "tree_of h' ns'" "mset ns' = mset (ns @ [node])"
      "heap_order (\<lambda>k. key (ns' ! k)) (length ns')" "hp_size h' = hp_size h3" "hp_this h' = hp_this h3" by (auto simp: nth_append)
  have "heap_insert (by_key key) node h = Some (True, h')"
    unfolding heap_insert_def Let_def h0_def [symmetric] w h1_def [symmetric] h2_def [symmetric] h3_def [symmetric] option.case prod.case
    using assms(2) r(1) by simp
  moreover have "heap_inv key h'" using r(2-5) ns(2) mset_eq_length [OF r(3)] by (auto simp: heap_inv_def h3_def h2_def keep h1_def h0_def)
  moreover have "heap_elems h' = insert node (heap_elems h)" using tree_of_elems [OF r(2)] tree_of_elems [OF ns(1)] mset_eq_setD [OF r(3)] by simp
  moreover have "hp_this h' = hp_this h" using r(6) by (simp add: h3_def h2_def keep h1_def h0_def)
  ultimately show ?thesis by blast
qed

lemma replaced_order:
  fixes f :: "nat \<Rightarrow> int"
  assumes "heap_order f (Suc n)" "i < n"
  shows "order_except (f(i := f n)) n i" "above_ok (f(i := f n)) i \<or> below_ok (f(i := f n)) n i"
proof -
  have o: "f (par j) \<le> f j" if "0 < j" "j < n" for j using assms(1) that by (simp add: heap_order_def)
  have kid: "j \<noteq> i \<and> f i \<le> f j" if "0 < j" "j < n" "par j = i" for j using o [OF that(1,2)] that(3) par_less [OF that(1)] by simp
  have up: "par i \<noteq> i \<and> f (par i) \<le> f i" if "0 < i" using par_less [OF that] o [OF that assms(2)] by simp
  show "order_except (f(i := f n)) n i"
  proof (rule order_exceptI)
    fix j assume j: "0 < j" "j < n" "j \<noteq> i" "par j \<noteq> i"
    then show "(f(i := f n)) (par j) \<le> (f(i := f n)) j" using o [OF j(1,2)] by simp
  next
    fix j assume j: "0 < j" "j < n" "par j = i" "0 < i"
    then show "(f(i := f n)) (par i) \<le> (f(i := f n)) j" using kid [OF j(1-3)] up [OF j(4)] by simp
  qed
  show "above_ok (f(i := f n)) i \<or> below_ok (f(i := f n)) n i"
  proof (cases "0 < i \<and> f n < f (par i)")
    case True
    have "f n \<le> f j" if "0 < j" "j < n" "par j = i" for j using kid [OF that] up True by linarith
    then show ?thesis unfolding below_ok_def using kid by auto
  next
    case False
    then show ?thesis unfolding above_ok_def using up by auto
  qed
qed

lemma order_cong:
  assumes "\<And>k. k < n \<Longrightarrow> g k = f k" "i < n"
  shows "order_except f n i \<Longrightarrow> order_except g n i" "above_ok f i \<or> below_ok f n i \<Longrightarrow> above_ok g i \<or> below_ok g n i"
proof -
  have p: "g (par j) = f (par j)" if "j < n" for j by (rule assms(1)) (use that in linarith)
  show "order_except g n i" if "order_except f n i"
  proof (rule order_exceptI)
    fix j assume j: "0 < j" "j < n" "j \<noteq> i" "par j \<noteq> i"
    then show "g (par j) \<le> g j" using order_exceptD(1) [OF that j] p [OF j(2)] assms(1) [OF j(2)] by simp
  next
    fix j assume j: "0 < j" "j < n" "par j = i" "0 < i"
    then show "g (par i) \<le> g j" using order_exceptD(2) [OF that j] p [OF assms(2)] assms(1) [OF j(2)] by simp
  qed
  show "above_ok f i \<or> below_ok f n i \<Longrightarrow> above_ok g i \<or> below_ok g n i"
    using assms p [OF assms(2)] unfolding above_ok_def below_ok_def by auto
qed

lemma heap_remove_present:
  assumes "heap_inv key h" "node \<in> heap_elems h"
  shows "\<exists>h'. heap_remove (by_key key) node h = Some (True, h') \<and> heap_inv key h' \<and> heap_elems h' = heap_elems h - {node} \<and> hp_this h' = hp_this h"
proof -
  obtain ns where ns: "tree_of h ns" "hp_size h = length ns" "heap_order (\<lambda>k. key (ns ! k)) (length ns)" using assms(1) by (auto simp: heap_inv_def)
  have "ns \<noteq> []" using assms(2) tree_of_elems [OF ns(1)] by auto
  then obtain ms c where mc: "ns = ms @ [c]" by (metis append_butlast_last_id)
  let ?n = "length ms"
  have t: "tree_links h (ms @ [c])" and own: "\<And>a. hp_owner h a = Some (hp_this h) \<longleftrightarrow> a \<in> insert c (set ms)" and d: "distinct ms" "c \<notin> set ms"
    using ns(1) by (auto simp: tree_of_def mc tree_links_def)
  have keep: "hp_owner (write_slot s v x) = hp_owner x" "hp_this (write_slot s v x) = hp_this x" "hp_size (write_slot s v x) = hp_size x"
      "write_slot s v (x\<lparr>hp_size := k\<rparr>) = (write_slot s v x)\<lparr>hp_size := k\<rparr>" "read_slot s (x\<lparr>hp_size := k\<rparr>) = read_slot s x" for s v x k
    by (cases s; simp)+
  define sl where "sl = slot_at (ms @ [c]) (?n + 1)"
  have w: "\<exists>p. walk_to (hp_size h) h = Some (p, sl)" using walk_to_slots [OF t, of "?n + 1"] ns(2) mc by (auto simp: sl_def)
  have rd: "read_slot sl h = Some c" using read_slot_at [OF t, of "?n + 1"] by (simp add: sl_def nth_opt_def)
  define h2 where "h2 = (write_slot sl None h)\<lparr>hp_size := ?n\<rparr>"
  have "tree_links (write_slot sl None h) ms" using tree_cut [OF t] by (simp add: sl_def)
  then have t2: "tree_links h2 ms" by (simp add: h2_def tree_links_def)
  have o2: "hp_owner h2 = hp_owner h" "hp_this h2 = hp_this h" "hp_size h2 = ?n" by (simp_all add: h2_def keep)
  have "hp_owner h node = Some (hp_this h)" using assms(2) by (simp add: heap_elems_def)
  then have rm: "heap_remove (by_key key) node h = (if c = node
      then (let h = (if hp_min h2 = Some c then h2\<lparr>hp_min := None\<rparr> else h2) in Some (True, h\<lparr>hp_owner := (hp_owner h)(node := None)\<rparr>))
      else map_option (Pair True) (Option.bind (walk_down (by_key key) c (replace_node node c h2)) (walk_up (by_key key) c)))"
    using w rd ns(2) by (auto simp: heap_remove_def Let_def mc keep h2_def)
  have ord: "heap_order (\<lambda>k. key ((ms @ [c]) ! k)) (Suc ?n)" using ns(3) by (simp add: mc)
  have elems: "heap_elems h = insert c (set ms)" using tree_of_elems [OF ns(1)] by (simp add: mc)
  show ?thesis
  proof (cases "c = node")
    case True
    have "hp_min h2 \<noteq> Some c" using t2 d(2) by (auto simp: tree_links_def nth_opt_def)
    then have r: "heap_remove (by_key key) node h = Some (True, h2\<lparr>hp_owner := (hp_owner h2)(node := None)\<rparr>)" using rm True by simp
    let ?h = "h2\<lparr>hp_owner := (hp_owner h2)(node := None)\<rparr>"
    have "tree_of ?h ms" using t2 own d(2) True o2 by (auto simp: tree_of_def tree_links_def)
    moreover have "heap_order (\<lambda>k. key (ms ! k)) ?n" by (rule heap_order_cut [OF ord]) (simp_all add: nth_append)
    ultimately show ?thesis using r o2 tree_of_elems [of ?h ms] elems d(2) True
      by (intro exI [of _ ?h]) (auto simp: heap_inv_def)
  next
    case False
    then obtain i where i: "i < ?n" "node = ms ! i" using assms(2) elems by (auto simp: in_set_conv_nth)
    let ?h = "replace_node node c h2" and ?ms = "ms[i := c]"
    note rp = tree_replace [OF t2 i(1) d(2), folded i(2)]
    have sm: "set ?ms = insert c (set ms) - {node}" using d i False by (auto simp: set_update_distinct)
    have tr: "tree_of ?h ?ms" unfolding tree_of_def using rp own sm by (auto simp: o2)
    have f: "key (?ms ! k) = ((\<lambda>k. key ((ms @ [c]) ! k))(i := key ((ms @ [c]) ! ?n))) k" if "k < ?n" for k
      using that i(1) by (simp add: nth_append nth_list_update)
    have lo: "order_except (\<lambda>k. key (?ms ! k)) (length ?ms) i" "above_ok (\<lambda>k. key (?ms ! k)) i \<or> below_ok (\<lambda>k. key (?ms ! k)) (length ?ms) i"
    proof -
      note ro = replaced_order [OF ord i(1)]
      show "order_except (\<lambda>k. key (?ms ! k)) (length ?ms) i" using order_cong(1) [where g = "\<lambda>k. key (?ms ! k)", OF f i(1) ro(1)] by simp
      show "above_ok (\<lambda>k. key (?ms ! k)) i \<or> below_ok (\<lambda>k. key (?ms ! k)) (length ?ms) i"
        using order_cong(2) [where g = "\<lambda>k. key (?ms ! k)", OF f i(1) ro(2)] by simp
    qed
    have at: "?ms ! i = c" "i < length ?ms" using i(1) by simp_all
    from walk_down_correct [OF tr at(2) lo, unfolded at(1)] obtain h3 ns3 i3 where r3: "walk_down (by_key key) c ?h = Some h3" "tree_of h3 ns3" "mset ns3 = mset ?ms"
        "i3 < length ns3" "ns3 ! i3 = c" "order_except (\<lambda>k. key (ns3 ! k)) (length ns3) i3" "below_ok (\<lambda>k. key (ns3 ! k)) (length ns3) i3"
        "hp_size h3 = hp_size ?h" "hp_this h3 = hp_this ?h" by blast
    from walk_up_correct [OF r3(2,4,6,7), unfolded r3(5)] obtain h4 ns4 where r4: "walk_up (by_key key) c h3 = Some h4" "tree_of h4 ns4" "mset ns4 = mset ns3"
        "heap_order (\<lambda>k. key (ns4 ! k)) (length ns4)" "hp_size h4 = hp_size h3" "hp_this h4 = hp_this h3" by blast
    have "heap_remove (by_key key) node h = Some (True, h4)" using rm False r3(1) r4(1) by simp
    moreover have "heap_inv key h4" using r4 r3(3,8) rp(3) o2 mset_eq_length [OF r4(3)] mset_eq_length [OF r3(3)] by (auto simp: heap_inv_def)
    moreover have "heap_elems h4 = heap_elems h - {node}" using tree_of_elems [OF r4(2)] mset_eq_setD [OF r4(3)] mset_eq_setD [OF r3(3)] sm elems by simp
    moreover have "hp_this h4 = hp_this h" using r4(6) r3(9) rp(4) o2 by simp
    ultimately show ?thesis by blast
  qed
qed

lemma heap_min_least:
  assumes "heap_inv key h"
  shows "case hp_min h of None \<Rightarrow> heap_elems h = {} | Some m \<Rightarrow> m \<in> heap_elems h \<and> (\<forall>a\<in>heap_elems h. key m \<le> key a)"
proof -
  obtain ns where ns: "tree_of h ns" "heap_order (\<lambda>k. key (ns ! k)) (length ns)" using assms by (auto simp: heap_inv_def)
  have "hp_min h = nth_opt ns 0" using ns(1) by (simp add: tree_of_def tree_links_def)
  then show ?thesis using tree_of_elems [OF ns(1)] heap_order_root [OF ns(2)] by (auto simp: nth_opt_def in_set_conv_nth)
qed

lemma heap_size_card: "heap_inv key h \<Longrightarrow> hp_size h = card (heap_elems h) \<and> finite (heap_elems h)"
proof -
  assume "heap_inv key h"
  then obtain ns where ns: "tree_of h ns" "hp_size h = length ns" by (auto simp: heap_inv_def)
  then show ?thesis using tree_of_elems [OF ns(1)] distinct_card [of ns] by (simp add: tree_of_def tree_links_def)
qed

lemma heap_pop_min:
  assumes "heap_inv key h" "hp_min h = Some m"
  shows "\<exists>h'. heap_pop (by_key key) h = Some (True, h') \<and> heap_inv key h' \<and> heap_elems h' = heap_elems h - {m}"
  using heap_remove_present [OF assms(1), of m] heap_min_least [OF assms(1)] assms(2) by (auto simp: heap_pop_def)

interpretation linked: priority_queue "heap_inv key" heap_elems key hp_min "heap_pop (by_key key)" for key
proof
  fix q :: heap_raw and m assume q: "heap_inv key q"
  show "finite (heap_elems q)" using heap_size_card [OF q] by simp
  show "hp_min q = None \<Longrightarrow> heap_elems q = {}" "hp_min q = Some m \<Longrightarrow> m \<in> heap_elems q \<and> (\<forall>a\<in>heap_elems q. key m \<le> key a)"
    using heap_min_least [OF q] by simp_all
  show "hp_min q = Some m \<Longrightarrow> \<exists>q'. heap_pop (by_key key) q = Some (True, q') \<and> heap_inv key q' \<and> heap_elems q' = heap_elems q - {m}"
    using heap_pop_min [OF q] .
qed

section \<open>Properties\<close>

text \<open>C33: The linked heap keeps its tree of pointers and the order of its keys: inserting a node that is in no heap adds it and one that is in a heap is refused,
  removing takes out exactly the node given and refuses a node of no or another heap, no operation uses a null pointer or runs for ever, and the smallest
  node is always at hand.\<close>

theorem linked_heap_operations:
  assumes "heap_inv key h"
  shows "(\<exists>h'. heap_insert (by_key key) node h = Some (hp_owner h node = None, h') \<and> heap_inv key h'
      \<and> heap_elems h' = (if hp_owner h node = None then insert node (heap_elems h) else heap_elems h))
    \<and> (\<exists>h'. heap_remove (by_key key) node h = Some (node \<in> heap_elems h, h') \<and> heap_inv key h' \<and> heap_elems h' = heap_elems h - {node})
    \<and> (case hp_min h of None \<Rightarrow> heap_elems h = {} | Some m \<Rightarrow> m \<in> heap_elems h \<and> (\<forall>a\<in>heap_elems h. key m \<le> key a))
    \<and> hp_size h = card (heap_elems h)"
proof (intro conjI)
  show "\<exists>h'. heap_insert (by_key key) node h = Some (hp_owner h node = None, h') \<and> heap_inv key h'
      \<and> heap_elems h' = (if hp_owner h node = None then insert node (heap_elems h) else heap_elems h)"
  proof (cases "hp_owner h node = None")
    case True
    then show ?thesis using heap_insert_new [OF assms True] by auto
  next
    case False
    then show ?thesis using assms by (intro exI [of _ h]) (auto simp: heap_insert_def)
  qed
  show "\<exists>h'. heap_remove (by_key key) node h = Some (node \<in> heap_elems h, h') \<and> heap_inv key h' \<and> heap_elems h' = heap_elems h - {node}"
  proof (cases "node \<in> heap_elems h")
    case True
    then show ?thesis using heap_remove_present [OF assms True] by auto
  next
    case False
    then have "hp_owner h node \<noteq> Some (hp_this h)" by (simp add: heap_elems_def)
    then show ?thesis using assms False by (intro exI [of _ h]) (simp add: heap_remove_def)
  qed
qed (use heap_min_least [OF assms] heap_size_card [OF assms] in auto)

lemma empty_heap_inv: "heap_inv key (empty_heap this)"
  by (auto simp: heap_inv_def empty_heap_def tree_of_def tree_links_def nth_opt_def heap_order_def intro!: exI [of _ "[]"])

theorem linked_heap_operations_witness:
  "\<exists>h'. heap_insert (by_key int) 5 (empty_heap 1) = Some (True, h') \<and> heap_elems h' = {5}"
  using linked_heap_operations [OF empty_heap_inv [of int 1], of 5] by (auto simp: empty_heap_def heap_elems_def)

text \<open>Popping until the heap is empty returns all its nodes, each once, in the order of their keys.\<close>

theorem linked_heap_sorts:
  assumes "heap_inv key h"
  shows "\<exists>ms h'. drain hp_min (heap_pop (by_key key)) (hp_size h) h = Some (ms, h') \<and> sorted (map key ms) \<and> distinct ms \<and> set ms = heap_elems h
     \<and> heap_elems h' = {}"
  using linked.drain_sorted [OF assms, of "hp_size h"] heap_size_card [OF assms] by auto

theorem linked_heap_sorts_witness:
  "\<exists>h ms h'. heap_insert (by_key int) 5 (empty_heap 1) = Some (True, h) \<and> drain hp_min (heap_pop (by_key int)) (hp_size h) h = Some (ms, h') \<and> set ms = {5}"
proof -
  obtain h where h: "heap_insert (by_key int) 5 (empty_heap 1) = Some (True, h)" "heap_inv int h" "heap_elems h = {5}"
    using heap_insert_new [OF empty_heap_inv [of int 1], of 5] by (auto simp: empty_heap_def heap_elems_def)
  then show ?thesis using linked_heap_sorts [OF h(2)] by auto
qed

text \<open>\<open>pop\<close> of an empty heap uses a null pointer.\<close>

lemma pop_empty_undefined: "heap_inv key h \<Longrightarrow> heap_elems h = {} \<Longrightarrow> heap_pop compare h = None"
  using heap_min_least [of key h] by (auto simp: heap_pop_def split: option.splits)

end
