(* ===== verification/Link_Loop.thy ===== *)
theory Link_Loop
  imports Proto_Utils
begin

text \<open>
  The connection loops of the game server: \<open>run\<close>, \<open>recv_one_message\<close> and \<open>auto_ping\<close> of \<open>gobang/gate/master_connector.cpp\<close> and \<open>gobang/kernel/gate_connector.cpp\<close>,
  which have the same shape.  A step is what a coroutine does up to its next suspension.  Every connection that has registered starts a ping coroutine of its own; those
  of earlier connections go on until they notice.  The sessions handed out by \<open>create_session\<close> come with the events, and so does whether the answer to a call parses and
  reports success.  What is done with the content of that answer is in the theories Gate and Gate_Connector.
\<close>

section \<open>State\<close>

text \<open>\<open>Lk_pause\<close>: before the next attempt to connect.  \<open>Lk_register\<close>: waiting for the answer to the registration, with its session; \<open>lk_first\<close> says whether the coroutine
  that reads one message is still there.\<close>

datatype link_pc = Lk_pause | Lk_register u64 | Lk_read

datatype ping_phase = Pn_sleep | Pn_call u64

record link =
  lk_socket :: u32
  lk_fail :: u64
  lk_pc :: link_pc
  lk_first :: bool
  lk_pings :: "(u32 \<times> ping_phase) list"
  lk_calls :: "u64 list"
  lk_requests :: "(u32 \<times> u64) list"
  lk_closed :: "u32 list"
  lk_forwarded :: "(u16 \<times> byte list) list"

definition link_start :: link where
  "link_start = \<lparr>lk_socket = 0, lk_fail = 0, lk_pc = Lk_pause, lk_first = False, lk_pings = [], lk_calls = [], lk_requests = [], lk_closed = [], lk_forwarded = []\<rparr>"

section \<open>The loop of the connection\<close>

definition link_pause :: "link \<Rightarrow> nat" where
  "link_pause st = connect_interval (lk_fail st)"

definition link_connected :: "u32 \<Rightarrow> u64 \<Rightarrow> link \<Rightarrow> link" where
  "link_connected socket session st =
     (if socket = 0 then st\<lparr>lk_socket := 0, lk_fail := lk_fail st + 1\<rparr>
      else st\<lparr>lk_socket := socket, lk_pc := Lk_register session, lk_first := True, lk_calls := session # lk_calls st,
              lk_requests := lk_requests st @ [(socket, session)]\<rparr>)"

text \<open>The handler, which is also what a failed registration does.\<close>

definition link_lost :: "link \<Rightarrow> link" where
  "link_lost st = st\<lparr>lk_closed := lk_closed st @ [lk_socket st], lk_socket := 0, lk_fail := lk_fail st + 1, lk_pc := Lk_pause\<rparr>"

definition link_registered :: "bool \<Rightarrow> link \<Rightarrow> link" where
  "link_registered succ st =
     (if succ then st\<lparr>lk_fail := 0, lk_pc := Lk_read, lk_pings := lk_pings st @ [(lk_socket st, Pn_sleep)]\<rparr> else link_lost st)"

definition link_msg_mask :: u16 where "link_msg_mask = 0xf000"

definition msg_s2s_ack :: u16 where "msg_s2s_ack = 0x5000"

text \<open>An answer that does not parse leaves the ping, which waits for its call or for five seconds, to the latter.  A ping coroutine whose ping was answered ends
  when its socket is no longer the current one.\<close>

definition call_answered :: "bool \<Rightarrow> u64 \<Rightarrow> link \<Rightarrow> link" where
  "call_answered parses session st =
     (if \<not> parses then st\<lparr>lk_calls := removeAll session (lk_calls st)\<rparr> else
      st\<lparr>lk_calls := removeAll session (lk_calls st),
        lk_pings := map (\<lambda>(s, p). (s, if p = Pn_call session then Pn_sleep else p)) (filter (\<lambda>(s, p). p \<noteq> Pn_call session \<or> s = lk_socket st) (lk_pings st))\<rparr>)"

text \<open>The coroutine that reads one message while the registration is under way.  \<open>parsed\<close>: whether the answer to the call parses, and then its result.  An answer to the
  registration that does not parse leaves it to its timeout.\<close>

definition link_recv_one :: "u64 \<Rightarrow> net_header \<Rightarrow> bool option \<Rightarrow> link \<Rightarrow> link" where
  "link_recv_one session header parsed st =
     (let st = st\<lparr>lk_first := False\<rparr>
      in if nh_session header \<noteq> session then call_answered (parsed \<noteq> None) (nh_session header) st
         else let st = st\<lparr>lk_calls := removeAll session (lk_calls st)\<rparr>
              in case parsed of None \<Rightarrow> st | Some succ \<Rightarrow> link_registered succ st)"

text \<open>A message of the loop: one that is not the answer to a call that waits is given to \<open>forward_message\<close> or \<open>forward_gate\<close>.\<close>

definition link_message :: "net_header \<Rightarrow> byte list \<Rightarrow> bool option \<Rightarrow> link \<Rightarrow> link" where
  "link_message header buffer parsed st =
     (if nh_id header AND link_msg_mask \<noteq> msg_s2s_ack \<or> nh_session header = 0 \<or> nh_session header \<notin> set (lk_calls st)
      then st\<lparr>lk_forwarded := lk_forwarded st @ [(nh_id header, buffer)]\<rparr>
      else call_answered (parsed \<noteq> None) (nh_session header) st)"

text \<open>Who reads what arrives.\<close>

definition link_frame :: "net_header \<Rightarrow> byte list \<Rightarrow> bool option \<Rightarrow> link \<Rightarrow> link" where
  "link_frame header buffer parsed st =
     (case lk_pc st of
        Lk_pause \<Rightarrow> st
      | Lk_register session \<Rightarrow> if lk_first st then link_recv_one session header parsed st else st
      | Lk_read \<Rightarrow> link_message header buffer parsed st)"

section \<open>The ping coroutines\<close>

text \<open>The \<open>i\<close>-th ping coroutine wakes from its sleep, or its call has not been answered in time.\<close>

definition ping_slept :: "nat \<Rightarrow> u64 \<Rightarrow> link \<Rightarrow> link" where
  "ping_slept i session st =
     (if i < length (lk_pings st) \<and> snd (lk_pings st ! i) = Pn_sleep
      then st\<lparr>lk_pings := (lk_pings st)[i := (fst (lk_pings st ! i), Pn_call session)], lk_calls := session # lk_calls st,
              lk_requests := lk_requests st @ [(fst (lk_pings st ! i), session)]\<rparr>
      else st)"

definition ping_late :: "nat \<Rightarrow> link \<Rightarrow> link" where
  "ping_late i st =
     (if i < length (lk_pings st)
      then case lk_pings st ! i of
             (socket, Pn_call session) \<Rightarrow>
               let st = st\<lparr>lk_pings := take i (lk_pings st) @ drop (Suc i) (lk_pings st), lk_calls := removeAll session (lk_calls st)\<rparr>
               in if socket = lk_socket st then st\<lparr>lk_closed := lk_closed st @ [socket]\<rparr> else st
           | _ \<Rightarrow> st
      else st)"

section \<open>Runs\<close>

text \<open>Other coroutines call the other side as well, by \<open>call_gate\<close> on the current socket, and give up when their timeout passes.\<close>

definition link_call :: "u64 \<Rightarrow> link \<Rightarrow> link" where
  "link_call session st = st\<lparr>lk_calls := session # lk_calls st, lk_requests := lk_requests st @ [(lk_socket st, session)]\<rparr>"

text \<open>\<open>Lk_connect\<close>: \<open>tcp_connect\<close> returns, 0 or a socket, and the session of the registration is given out.  \<open>Lk_connect_failed\<close>: it throws, because the connection was refused
  or timed out, which leads to the handler while \<open>socket_\<close> is still 0.  \<open>Lk_broken\<close>: reading throws; the coroutine that reads one message then just ends.\<close>

datatype link_event =
    Lk_connect u32 u64 | Lk_connect_failed | Lk_register_timeout | Lk_frame net_header "byte list" "bool option" | Lk_broken | Lk_ping nat u64 | Lk_ping_late nat
  | Lk_call u64 | Lk_call_over u64

fun link_step :: "link_event \<Rightarrow> link \<Rightarrow> link" where
  "link_step (Lk_connect socket session) st = (if lk_pc st = Lk_pause then link_connected socket session st else st)"
| "link_step Lk_connect_failed st = (if lk_pc st = Lk_pause then link_lost st else st)"
| "link_step Lk_register_timeout st =
     (case lk_pc st of Lk_register session \<Rightarrow> link_lost (st\<lparr>lk_calls := removeAll session (lk_calls st), lk_first := False\<rparr>) | _ \<Rightarrow> st)"
| "link_step (Lk_frame header buffer parsed) st = link_frame header buffer parsed st"
| "link_step Lk_broken st = (case lk_pc st of Lk_pause \<Rightarrow> st | Lk_register _ \<Rightarrow> st\<lparr>lk_first := False\<rparr> | Lk_read \<Rightarrow> link_lost st)"
| "link_step (Lk_ping i session) st = ping_slept i session st"
| "link_step (Lk_ping_late i) st = ping_late i st"
| "link_step (Lk_call session) st = link_call session st"
| "link_step (Lk_call_over session) st = st\<lparr>lk_calls := removeAll session (lk_calls st)\<rparr>"

section \<open>Every registered connection is watched\<close>

definition used_sockets :: "link \<Rightarrow> u32 set" where
  "used_sockets st = fst ` set (lk_requests st)"

text \<open>The socket system does not hand out a socket twice.\<close>

fun fresh_sockets :: "link_event list \<Rightarrow> link \<Rightarrow> bool" where
  "fresh_sockets [] st = True"
| "fresh_sockets (Lk_connect socket session # es) st = ((socket = 0 \<or> socket \<notin> used_sockets st) \<and> fresh_sockets es (link_step (Lk_connect socket session) st))"
| "fresh_sockets (e # es) st = fresh_sockets es (link_step e st)"

definition link_run :: "link_event list \<Rightarrow> link \<Rightarrow> link" where
  "link_run es st = fold link_step es st"

definition watchers :: "link \<Rightarrow> u32 \<Rightarrow> nat" where
  "watchers st s = length (filter (\<lambda>p. fst p = s) (lk_pings st))"

definition link_inv :: "link \<Rightarrow> bool" where
  "link_inv st \<longleftrightarrow> fst ` set (lk_pings st) \<subseteq> used_sockets st - {0} \<and> set (lk_closed st) \<subseteq> insert 0 (used_sockets st)
     \<and> (case lk_pc st of
          Lk_pause \<Rightarrow> lk_socket st = 0
        | Lk_register _ \<Rightarrow> lk_socket st \<in> used_sockets st - {0} \<and> watchers st (lk_socket st) = 0
        | Lk_read \<Rightarrow> lk_socket st \<in> used_sockets st - {0}
            \<and> (if lk_socket st \<in> set (lk_closed st) then watchers st (lk_socket st) \<le> 1 else watchers st (lk_socket st) = 1))"

text \<open>A step that leaves the connection alone, and the pings of its socket, keeps the invariant.\<close>

lemma link_inv_cong:
  assumes "link_inv st" and pc: "lk_pc st' = lk_pc st" and socket: "lk_socket st' = lk_socket st" and closed: "lk_closed st' = lk_closed st"
    and used: "used_sockets st \<subseteq> used_sockets st'" and pings: "fst ` set (lk_pings st') \<subseteq> fst ` set (lk_pings st)"
    and same: "watchers st' (lk_socket st) = watchers st (lk_socket st)"
  shows "link_inv st'"
proof -
  have "fst ` set (lk_pings st') \<subseteq> used_sockets st' - {0}" "set (lk_closed st') \<subseteq> insert 0 (used_sockets st')"
    using assms(1) used pings closed unfolding link_inv_def by auto
  then show ?thesis using assms(1) used unfolding link_inv_def pc socket closed same by (auto split: link_pc.splits if_splits)
qed

lemma link_inv_start: "link_inv link_start"
  by (simp add: link_inv_def link_start_def)

lemma link_inv_connected:
  assumes "link_inv st" "lk_pc st = Lk_pause" "socket = 0 \<or> socket \<notin> used_sockets st"
  shows "link_inv (link_connected socket session st)"
proof (cases "socket = 0")
  case True
  then show ?thesis using assms(1,2) by (simp add: link_connected_def link_inv_def used_sockets_def)
next
  case False
  then have "socket \<notin> fst ` set (lk_pings st)" using assms unfolding link_inv_def by auto
  then have "watchers st socket = 0" unfolding watchers_def by (auto simp: filter_empty_conv)
  then show ?thesis using assms False unfolding link_inv_def by (auto simp: link_connected_def used_sockets_def watchers_def)
qed

lemma link_inv_lost:
  assumes "link_inv st"
  shows "link_inv (link_lost st)"
  using assms unfolding link_inv_def link_lost_def by (auto simp: used_sockets_def split: link_pc.splits)

lemma link_inv_registered:
  assumes "link_inv st" "lk_pc st = Lk_register session"
  shows "link_inv (link_registered succ st)"
proof (cases succ)
  case True
  then show ?thesis using assms unfolding link_inv_def link_registered_def by (auto simp: used_sockets_def watchers_def)
qed (use assms link_inv_lost in \<open>simp add: link_registered_def\<close>)

lemma watchers_call_answered:
  "length (filter (\<lambda>p. fst p = s) (map (\<lambda>(s, p). (s, if p = c then Pn_sleep else p)) (filter (\<lambda>(s', p). p \<noteq> c \<or> s' = s) ps)))
     = length (filter (\<lambda>p. fst p = s) ps)"
  by (induction ps) (auto split: prod.splits)

lemma link_inv_call_answered:
  assumes "link_inv st"
  shows "link_inv (call_answered parses session st)"
  using assms
proof (rule link_inv_cong)
  show "watchers (call_answered parses session st) (lk_socket st) = watchers st (lk_socket st)"
  proof (cases parses)
    case True
    then have "lk_pings (call_answered parses session st) =
        map (\<lambda>(s, p). (s, if p = Pn_call session then Pn_sleep else p)) (filter (\<lambda>(s, p). p \<noteq> Pn_call session \<or> s = lk_socket st) (lk_pings st))"
      by (simp only: call_answered_def) simp
    then show ?thesis unfolding watchers_def by (simp only: watchers_call_answered)
  qed (simp add: call_answered_def watchers_def)
qed (auto simp: call_answered_def used_sockets_def intro: rev_image_eqI)

lemma link_inv_fields:
  assumes "link_inv st"
  shows "link_inv (st\<lparr>lk_calls := cs\<rparr>)" "link_inv (st\<lparr>lk_first := b\<rparr>)" "link_inv (st\<lparr>lk_forwarded := fs\<rparr>)"
  by (auto intro!: link_inv_cong [OF assms] simp: used_sockets_def watchers_def)

lemma link_inv_frame:
  assumes "link_inv st"
  shows "link_inv (link_frame header buffer parsed st)"
  using assms
  by (auto simp: link_frame_def link_recv_one_def link_message_def Let_def intro!: link_inv_fields link_inv_call_answered link_inv_registered split: link_pc.splits option.splits)

lemma filter_remove_nth:
  assumes "i < length ps"
  shows "length (filter P (take i ps @ drop (Suc i) ps)) = length (filter P ps) - (if P (ps ! i) then 1 else 0)"
    and "P (ps ! i) \<Longrightarrow> 0 < length (filter P ps)"
proof -
  have "filter P ps = filter P (take i ps) @ filter P (ps ! i # drop (Suc i) ps)"
    using assms by (metis filter_append id_take_nth_drop)
  then show "length (filter P (take i ps @ drop (Suc i) ps)) = length (filter P ps) - (if P (ps ! i) then 1 else 0)"
    "P (ps ! i) \<Longrightarrow> 0 < length (filter P ps)" by simp_all
qed

lemma set_remove_nth: "set (take i ps @ drop (Suc i) ps) \<subseteq> set ps"
  by (auto dest: in_set_takeD in_set_dropD)

lemma filter_update_fst: "length (filter (\<lambda>p. fst p = s) (ps[i := (fst (ps ! i), c)])) = length (filter (\<lambda>p. fst p = s) ps)"
  by (induction ps arbitrary: i) (auto split: nat.splits)

lemma set_update_fst: "i < length ps \<Longrightarrow> fst ` set (ps[i := (fst (ps ! i), c)]) \<subseteq> fst ` set ps"
  using set_update_subset_insert [of ps i "(fst (ps ! i), c)"] nth_mem [of i ps] by (fastforce intro: rev_image_eqI)

lemma link_inv_ping_slept:
  assumes "link_inv st"
  shows "link_inv (ping_slept i session st)"
  using assms
proof (rule link_inv_cong)
  show "fst ` set (lk_pings (ping_slept i session st)) \<subseteq> fst ` set (lk_pings st)"
    using set_update_fst [of i "lk_pings st"] by (simp add: ping_slept_def)
  show "watchers (ping_slept i session st) (lk_socket st) = watchers st (lk_socket st)"
    by (simp add: ping_slept_def watchers_def filter_update_fst)
qed (auto simp: ping_slept_def used_sockets_def)

lemma link_inv_ping_late:
  assumes "link_inv st"
  shows "link_inv (ping_late i st)"
proof (cases "\<exists>session. i < length (lk_pings st) \<and> lk_pings st ! i = (lk_socket st, Pn_call session)")
  case True
  then obtain session where i: "i < length (lk_pings st)" "lk_pings st ! i = (lk_socket st, Pn_call session)" by blast
  then have mem: "lk_socket st \<in> fst ` set (lk_pings st)" by (metis fst_conv nth_mem image_eqI)
  have less: "watchers (ping_late i st) (lk_socket st) = watchers st (lk_socket st) - 1" "0 < watchers st (lk_socket st)"
    using i filter_remove_nth [OF i(1), of "\<lambda>p. fst p = lk_socket st"] by (simp_all add: ping_late_def watchers_def Let_def del: filter_append)
  have fields: "lk_pc (ping_late i st) = lk_pc st" "lk_socket (ping_late i st) = lk_socket st" "lk_closed (ping_late i st) = lk_closed st @ [lk_socket st]"
    "used_sockets (ping_late i st) = used_sockets st" "fst ` set (lk_pings (ping_late i st)) \<subseteq> fst ` set (lk_pings st)"
    using i image_mono [OF set_remove_nth [of i "lk_pings st"], of fst] by (simp_all add: ping_late_def used_sockets_def Let_def)
  then show ?thesis using assms mem less unfolding link_inv_def by (auto split: link_pc.splits if_splits)
next
  case False
  show ?thesis using assms
  proof (rule link_inv_cong)
    show "watchers (ping_late i st) (lk_socket st) = watchers st (lk_socket st)"
      using False filter_remove_nth(1) [of i "lk_pings st" "\<lambda>p. fst p = lk_socket st"]
      by (auto simp: ping_late_def watchers_def Let_def simp del: filter_append split: prod.splits ping_phase.splits)
    show "fst ` set (lk_pings (ping_late i st)) \<subseteq> fst ` set (lk_pings st)"
      using image_mono [OF set_remove_nth [of i "lk_pings st"], of fst] by (auto simp: ping_late_def Let_def split: prod.splits ping_phase.splits)
  qed (use False in \<open>auto simp: ping_late_def used_sockets_def Let_def split: prod.splits ping_phase.splits\<close>)
qed

lemma link_inv_step:
  assumes "link_inv st" "case e of Lk_connect socket _ \<Rightarrow> socket = 0 \<or> socket \<notin> used_sockets st | _ \<Rightarrow> True"
  shows "link_inv (link_step e st)"
proof (cases e)
  case Lk_register_timeout
  then show ?thesis using assms by (auto intro!: link_inv_lost link_inv_cong [OF assms(1)] simp: used_sockets_def watchers_def split: link_pc.splits)
next
  case (Lk_call session)
  then show ?thesis by (auto intro!: link_inv_cong [OF assms(1)] simp: link_call_def used_sockets_def watchers_def)
qed (use assms in \<open>auto intro: link_inv_connected link_inv_lost link_inv_frame link_inv_ping_slept link_inv_ping_late link_inv_fields split: link_pc.splits\<close>)

lemma link_inv_run:
  assumes "link_inv st" "fresh_sockets es st"
  shows "link_inv (link_run es st)"
  using assms
proof (induction es arbitrary: st)
  case (Cons e es)
  have "case e of Lk_connect socket _ \<Rightarrow> socket = 0 \<or> socket \<notin> used_sockets st | _ \<Rightarrow> True" "fresh_sockets es (link_step e st)"
    using Cons.prems(2) by (cases e; simp)+
  then show ?case using Cons.IH [OF link_inv_step [OF Cons.prems(1)]] by (simp add: link_run_def)
qed (simp add: link_run_def)

text \<open>C31: However connects, refused connects, frames, answers, timeouts, pings and calls interleave, as long as the socket system does not hand out a socket twice: a connection
  that has registered is watched, that is, as long as its socket is not closed it has one ping coroutine, neither none nor two.  Nothing is closed but sockets that were
  connected and, when connecting failed with an exception, 0, which is no socket; and while there is no connection the socket is 0.\<close>

theorem registered_links_watched:
  assumes "fresh_sockets es link_start"
  shows "(let st = link_run es link_start
          in (lk_pc st = Lk_read \<and> lk_socket st \<notin> set (lk_closed st) \<longrightarrow> lk_socket st \<noteq> 0 \<and> (\<exists>!i. i < length (lk_pings st) \<and> fst (lk_pings st ! i) = lk_socket st))
           \<and> set (lk_closed st) \<subseteq> insert 0 (used_sockets st) \<and> (lk_pc st = Lk_pause \<longrightarrow> lk_socket st = 0))"
proof -
  define st where "st = link_run es link_start"
  have inv: "link_inv st" unfolding st_def by (rule link_inv_run [OF link_inv_start assms])
  have "\<exists>!i. i < length (lk_pings st) \<and> fst (lk_pings st ! i) = lk_socket st" if "watchers st (lk_socket st) = 1"
  proof -
    have "card {i. i < length (lk_pings st) \<and> fst (lk_pings st ! i) = lk_socket st} = 1"
      using that unfolding watchers_def length_filter_conv_card by simp
    then obtain i where "{i. i < length (lk_pings st) \<and> fst (lk_pings st ! i) = lk_socket st} = {i}" by (rule card_1_singletonE)
    then show ?thesis by (intro ex1I [of _ i]) blast+
  qed
  then show ?thesis using inv unfolding Let_def st_def [symmetric] link_inv_def by (auto split: if_splits)
qed

definition watched_run :: "link_event list" where
  "watched_run =
     [Lk_connect 0 1, Lk_connect_failed, Lk_connect 5 2, Lk_frame \<lparr>nh_flag = flag_valid, nh_len = 0, nh_id = 0x5001, nh_padding = 0, nh_session = 2\<rparr> [] (Some True), Lk_ping 0 3, Lk_broken,
      Lk_connect 6 4, Lk_frame \<lparr>nh_flag = flag_valid, nh_len = 0, nh_id = 0x5001, nh_padding = 0, nh_session = 4\<rparr> [] (Some True), Lk_ping_late 0]"

theorem registered_links_watched_witness:
  "fresh_sockets watched_run link_start \<and> lk_pc (link_run watched_run link_start) = Lk_read \<and> lk_socket (link_run watched_run link_start) = 6
   \<and> (\<exists>!i. i < length (lk_pings (link_run watched_run link_start)) \<and> fst (lk_pings (link_run watched_run link_start) ! i) = 6)"
proof -
  have run: "fresh_sockets watched_run link_start" "lk_pc (link_run watched_run link_start) = Lk_read" "lk_socket (link_run watched_run link_start) = 6"
    "lk_closed (link_run watched_run link_start) = [0, 5]"
    by code_simp+
  show ?thesis using registered_links_watched [OF run(1)] run by (simp add: Let_def)
qed

text \<open>A peer that does not answer a ping within five seconds is dropped: the ping coroutine closes its socket, ends, and forgets its call.\<close>

theorem silent_peer_dropped:
  assumes "i < length (lk_pings st)" "lk_pings st ! i = (lk_socket st, Pn_sleep)" "session \<notin> set (lk_calls st)"
  shows "(let st' = link_run [Lk_ping i session, Lk_ping_late i] st
          in lk_closed st' = lk_closed st @ [lk_socket st] \<and> lk_pings st' = take i (lk_pings st) @ drop (Suc i) (lk_pings st) \<and> lk_calls st' = lk_calls st
           \<and> lk_requests st' = lk_requests st @ [(lk_socket st, session)])"
proof -
  define st1 where "st1 = ping_slept i session st"
  have st1: "lk_pings st1 = (lk_pings st)[i := (lk_socket st, Pn_call session)]" "lk_calls st1 = session # lk_calls st" "lk_closed st1 = lk_closed st"
    "lk_socket st1 = lk_socket st" "lk_requests st1 = lk_requests st @ [(lk_socket st, session)]"
    using assms(1,2) by (simp_all add: st1_def ping_slept_def)
  have "take i (lk_pings st1) @ drop (Suc i) (lk_pings st1) = take i (lk_pings st) @ drop (Suc i) (lk_pings st)"
    "lk_pings st1 ! i = (lk_socket st, Pn_call session)" "i < length (lk_pings st1)" "removeAll session (lk_calls st1) = lk_calls st"
    using assms(1,3) by (simp_all add: st1)
  then show ?thesis using st1 by (simp add: link_run_def ping_late_def Let_def st1_def [symmetric])
qed

text \<open>Only one message is read during a registration.  When it is not the answer to it, whatever comes later is not read until the registration times out, which closes the
  socket.\<close>

theorem first_message_swallowed:
  assumes "lk_pc st = Lk_register session" "lk_first st" "nh_session header \<noteq> session"
    "\<forall>e \<in> set es. \<exists>h b p. e = Lk_frame h b p"
  shows "(let st' = link_run (Lk_frame header buffer parsed # es) st
          in lk_pc st' = Lk_register session \<and> lk_forwarded st' = lk_forwarded st
           \<and> (let lost = link_step Lk_register_timeout st' in lk_pc lost = Lk_pause \<and> lk_socket lost = 0 \<and> lk_closed lost = lk_closed st @ [lk_socket st] \<and> lk_fail lost = lk_fail st + 1))"
proof -
  define st1 where "st1 = link_frame header buffer parsed st"
  have st1: "lk_pc st1 = Lk_register session" "\<not> lk_first st1" "lk_forwarded st1 = lk_forwarded st" "lk_closed st1 = lk_closed st"
    "lk_socket st1 = lk_socket st" "lk_fail st1 = lk_fail st"
    using assms(1-3) by (simp_all add: st1_def link_frame_def link_recv_one_def call_answered_def Let_def)
  have "link_run es st1 = st1" using assms(4)
  proof (induction es)
    case (Cons e es)
    then have "link_step e st1 = st1" using st1(1,2) by (auto simp: link_frame_def)
    then show ?case using Cons by (simp add: link_run_def)
  qed (simp add: link_run_def)
  moreover have "link_run (Lk_frame header buffer parsed # es) st = link_run es st1" by (simp add: link_run_def st1_def)
  ultimately show ?thesis using st1 by (simp add: link_lost_def Let_def)
qed

end
