(* ===== verification/Spec2Isabelle.thy ===== *)
theory Spec2Isabelle
  imports Prelude Buffer Shm_Buffer Item_Fifo Shm_Channel Shm_Steps Timer_Queue Base64 Md5 Sha1 Net_Stream Http Websocket
    Waiter_List Coro_Mutex Coro_Condition Socket_System Network Trie_Match Log_Flags Log_Formatter
    Proto_Utils Rpc_System Outbox Gate_Master Gate Gate_Views Gate_Connector Remote_Connect
    Mpsc_Queue Db_Proxy Login Proxy Cancellation_State Parallel_Task Scheduler Application Center
    File_Appender Log_Config Log_Writer Kcp_Stream Tcp_Socket Game_Client Async_Session Timed_Awaiter Log_Compress Linked_Heap Link_Loop
begin

text \<open>
  Verification of \<open>simple\<close>, a C++20 coroutine framework (\<open>runtime\<close>), and of the game server built on it (\<open>gobang\<close>).

  \<^bold>\<open>The program.\<close>  The runtime schedules coroutines on one thread.  They wait on timers (\<open>containers/time_queue\<close>), locks (\<open>coro/mutex\<close>,
  \<open>coro/condition_variable\<close>), sockets (\<open>net/socket_system\<close> on the socket thread, \<open>coro/network\<close> on the scheduler's) and shared-memory
  channels (\<open>shm\<close>).  On top are byte buffers, hashes and base64, a word filter, HTTP and websocket endpoints and the log formatter.  The game
  server is a set of services.  Every machine runs a \<open>gate\<close>; services talk to their gate over a local socket (control) and a shared-memory channel
  (messages); gates are connected to each other and register with the \<open>gate_master\<close>, which keeps the table of all services and broadcasts changes.
  Players come in over websockets at a \<open>proxy\<close>; \<open>login\<close>, \<open>center\<close> and \<open>db_proxy\<close> hold the accounts.  All services are loaded and driven by \<open>application\<close>.

  \<^bold>\<open>Which theory models what.\<close>
  \<^item> \<^bold>\<open>Prelude\<close>: machine types, \<open>memcpy\<close> as \<open>slice\<close> and \<open>overwrite\<close>, decimal printing, generic lemmas.
  \<^item> \<^bold>\<open>Interfaces.\<close>  \<open>Byte_Fifo\<close> (byte queues), \<open>Item_Fifo\<close> (queues of messages), \<open>Deadline_Queue\<close> (timers), \<open>Waiter_List\<close> (waiting
    coroutines; also the model of the intrusive list), \<open>Block_Hash\<close> (incremental hashes) and \<open>Outbox\<close> (senders that keep messages back) are
    locales.  They are interpreted on the models: \<open>byte_fifo\<close> in \<open>Buffer\<close> and \<open>Shm_Buffer\<close>, \<open>item_fifo\<close> in \<open>Shm_Channel\<close>, \<open>deadline_queue\<close>
    in \<open>Timer_Queue\<close>, \<open>waiter_queue\<close> in \<open>Waiter_List\<close>, \<open>incremental_hash\<close> in \<open>Md5\<close> and \<open>Sha1\<close>, \<open>outbox\<close> in \<open>Gate\<close> (twice),
    \<open>Gate_Connector\<close>, \<open>Proxy\<close>, \<open>Log_Writer\<close> and \<open>Tcp_Socket\<close>; \<open>callback_registry\<close> in \<open>Cancellation_State\<close> and \<open>priority_queue\<close> in \<open>Linked_Heap\<close>,
    which also state them.
  \<^item> \<^bold>\<open>Buffer\<close>: \<open>containers/buffer.hpp\<close>.  A buffer is a memory with two indices; the allocator is a parameter.  Shown: the contents are a queue of bytes
    under any sequence of operations, growing keeps them, and refused operations change nothing.
  \<^item> \<^bold>\<open>Shm_Buffer\<close>, \<^bold>\<open>Shm_Channel\<close>: \<open>shm/shm_buffer.cpp\<close>, \<open>shm_channel.cpp\<close>, \<open>shm_channel_select.cpp\<close>.  The ring has 64-bit totals that wrap.  Shown: the ring is a
    queue of bytes, the channel a queue of messages; writing completes when the other side reads; messages longer than the ring block forever.
  \<^item> \<^bold>\<open>Shm_Steps\<close>: \<open>try_write\<close> and \<open>try_read\<close> of \<open>shm_channel.cpp\<close> cut at their accesses to the shared ring, with the two processes interleaved in any way.  Shown: messages arrive
    whole and in order, and when nobody runs in between the steps are the calls of \<open>Shm_Channel\<close>.
  \<^item> \<^bold>\<open>Timer_Queue\<close>: \<open>containers/time_queue.cpp\<close>, a heap of nodes over a store.  Shown: it refines a map from timers to deadlines.
  \<^item> \<^bold>\<open>Linked_Heap\<close>: \<open>containers/heap.hpp\<close>, the tree of nodes with pointers to children and parent over a store of fields.  Shown: inserting and removing keep tree and order,
    use no null pointer and end, and popping sorts.
  \<^item> \<^bold>\<open>Waiter_List\<close>, \<^bold>\<open>Coro_Mutex\<close>, \<^bold>\<open>Coro_Condition\<close>: \<open>coro/mutex\<close> and \<open>coro/condition_variable\<close>, with cancellation.  Shown: exclusion, order
    of arrival, that every notification wakes the right coroutines, and where cancellation loses the lock or a notification.
  \<^item> \<^bold>\<open>Socket_System\<close>, \<^bold>\<open>Net_Stream\<close>, \<^bold>\<open>Network\<close>: \<open>net/socket_system.cpp\<close>, \<open>coro/network.cpp\<close>.  \<open>Net_Stream\<close> is one socket as a reader sees it, \<open>Network\<close> the map
    of all of them with an explicit store of the shared \<open>network_data\<close>; \<open>Network\<close> is shown to refine \<open>Net_Stream\<close> event by event.
  \<^item> \<^bold>\<open>Tcp_Socket\<close>: \<open>net/impl/tcp_*\<close> and \<open>ssl_*\<close>, the coroutines that connect, read and write, stopping and accepting, with the completions of asio and OpenSSL as
    events.  Shown: bytes go out in order and all of them, and which failures are never reported.
  \<^item> \<^bold>\<open>Kcp_Socket\<close>, \<^bold>\<open>Kcp_Stream\<close>: \<open>net/impl/kcp_*\<close>, client, sessions and server over an abstract KCP library.  Shown: the handshake, the order of a client's
    reports, the bounds of the watchdog, that sessions do not mix, and, given the library's promises, that the client hands over what the other side wrote.
  \<^item> \<^bold>\<open>Async_Session\<close>: \<open>coro/async_session\<close>.  Shown: sessions do not repeat, an await comes back at most once, results are delivered, and which are lost.
  \<^item> \<^bold>\<open>Timed_Awaiter\<close>: \<open>coro/timed_awaiter\<close> on \<open>Timer_Queue\<close>.  Shown: a sleep ends once, not before its time unless it is cancelled, and when its time has come.
  \<^item> \<^bold>\<open>Base64\<close>, \<^bold>\<open>Md5\<close>, \<^bold>\<open>Sha1\<close>: \<open>utils/crypt.cpp\<close>, against reference definitions of the standards.
  \<^item> \<^bold>\<open>Trie_AC\<close>, \<^bold>\<open>Trie_Build\<close>, \<^bold>\<open>Trie_Match\<close>: \<open>utils/trie_ac.cpp\<close>.  Shown: the automaton finds exactly the words, and \<open>replace\<close> censors them.
  \<^item> \<^bold>\<open>Http\<close>, \<^bold>\<open>Websocket\<close>: \<open>web\<close>, reading from \<open>Net_Stream\<close>.  Shown: round trips of replies and messages, the handshake, refusals.
  \<^item> \<^bold>\<open>Log_Flags\<close>, \<^bold>\<open>Log_Formatter\<close>: \<open>log/default_flags.hpp\<close>, \<open>log/formatter.cpp\<close>.  Shown: what a pattern means, padding, and that the caches of the formatter
    (broken-down time, printed time) cannot be seen in the output of flags other than the time zone and the elapsed times.
  \<^item> \<^bold>\<open>Proto_Utils\<close>, \<^bold>\<open>Rpc_System\<close>: \<open>gobang/kernel/headers.hpp\<close>, \<open>proto_utils.cpp\<close>, \<open>proto_rpc\<close>.  Shown: frames survive the socket however it cuts them,
    sessions do not repeat, a reply reaches the coroutine that asked.
  \<^item> \<^bold>\<open>Gate_Master\<close>: \<open>gate_master.cpp\<close>, a step function over accepted connections, frames, broken connections and checks, with reachable states.  Shown: the
    registry stays consistent and the owner of a service never changes.
  \<^item> \<^bold>\<open>Gate\<close>, \<^bold>\<open>Remote_Connect\<close>, \<^bold>\<open>Gate_Connector\<close>: \<open>gobang/gate\<close> and \<open>kernel/gate_connector.cpp\<close>.  Shown: messages reach local services, remote gates and the gate
    in order through queue and channel, early messages are delivered, subscribers are told every change, addresses are tried in turn.
  \<^item> \<^bold>\<open>Mpsc_Queue\<close>: \<open>containers/queue.cpp\<close>, as whole calls and one memory access at a time (sequentially consistent).  Shown: order, nothing lost, no store to a
    node that was given out, and that \<open>pop\<close> does not spin when nobody else is at work.
  \<^item> \<^bold>\<open>Cancellation_State\<close>: \<open>coro/cancellation_state.cpp\<close>, \<open>cancellation_registration.cpp\<close>, the intrusive list over a store.  Shown: it refines a stack of callbacks.
  \<^item> \<^bold>\<open>Parallel_Task\<close>: \<open>coro/parallel_task.hpp\<close>, \<open>task_operators.hpp\<close>, a step relation over the phases of the tasks.  Shown: the waiting coroutine goes on once and can
    always come to it; \<open>||\<close> returns the first success; \<open>&&\<close> may hide the first failure.
  \<^item> \<^bold>\<open>Scheduler\<close>: \<open>coro/scheduler.cpp\<close>, \<open>thread_pool.cpp\<close>.  Shown: the order of a turn, that it returns when coroutines do not wake each other without end, the
    order in which the pool takes functions.
  \<^item> \<^bold>\<open>Application\<close>: \<open>application.cpp\<close>, \<open>service_loader.cpp\<close>, \<open>service.hpp\<close>, \<open>frame_awaiter\<close>, \<open>event_system.hpp\<close>, \<open>call_router.hpp\<close>.  Shown: the services loaded and their
    order, updates per interval, skipping frames, registration of callbacks and events.
  \<^item> \<^bold>\<open>File_Appender\<close>, \<^bold>\<open>Log_Config\<close>, \<^bold>\<open>Log_Writer\<close>: \<open>log/file_appender.cpp\<close>, \<open>log.cpp\<close>, \<open>log_system.cpp\<close>, \<open>logger.cpp\<close>, \<open>appender.cpp\<close>.  Shown: files hold all
    that was written within their limits (and lose it when an hour of local time comes twice), the registry of loggers stays well formed and what its operations do to it, messages are handled in order, when they are flushed and when they are lost.
  \<^item> \<^bold>\<open>Log_Compress\<close>: the compression of finished log files in \<open>log_system.cpp\<close> over an abstract LZ4 library and a disk that may be full.  Shown: the log file can
    be got back from the compressed file, and when it is lost.
  \<^item> \<^bold>\<open>Proxy\<close>, \<^bold>\<open>Login\<close>, \<^bold>\<open>Center\<close>, \<^bold>\<open>Db_Proxy\<close>: the services of the game.  Shown: messages of a client reach the services in order and only with the number of a player
    who has logged in, when a login succeeds, that the tables of accounts agree with the shared memory, that what is acknowledged is stored.
  \<^item> \<^bold>\<open>Game_Client\<close>: \<open>gobang/client\<close>, the console client as a state machine over frames, lines of input and resumptions.  Shown: the shown text determines the
    board, that only occupied squares can be played, and the order of messages that loses the turn.
  \<^item> \<^bold>\<open>Link_Loop\<close>: the connection and ping loops of \<open>gate/master_connector.cpp\<close> and \<open>kernel/gate_connector.cpp\<close>, as steps over connects, frames, timeouts and
    pings.  Shown: a registered connection that is not closed has one ping coroutine, a silent peer is dropped, and a first message other than the answer to the
    registration costs the connection.
  \<^item> \<^bold>\<open>Gate_Views\<close>: the composition.  The messages the master has written to a gate, applied with the gate's own handler, give the gate a table
    that agrees with the master's.

  \<^bold>\<open>Conventions.\<close>  A struct is a record, an enumeration a datatype, an integer a word of its width unless its range cannot matter.  Pointers to objects with a
  life of their own are indices into a list or addresses of a store.  A coroutine is modelled between two suspensions; what other threads or processes do meanwhile
  is an argument or an event.  Exceptions and undefined behaviour are values (\<open>None\<close>, \<open>Inl\<close>).  Loops that may run forever are partial functions in the option monad,
  where \<open>None\<close> is not returning, and that they return is proved; bounded waits take the list of wake-ups, and enough of them are shown to suffice.

  \<^bold>\<open>Parameters.\<close>  The allocator, the named shared-memory segment, the clock and process identifier, \<open>localtime\<close> and \<open>gmtime\<close>, random numbers, the parsers that protobuf
  generates, the completions of asio and OpenSSL, the KCP and LZ4 libraries, MongoDB, the dynamic linker, the file system's answers, the order in which a sort leaves equal elements, and what tasks
  and callbacks do.

  \<^bold>\<open>Not modelled.\<close>  System calls (\<open>utils/os\<close>, \<open>shm/shm.cpp\<close>), whose effects are arguments of their callers; promise types, symmetric transfer and the starting of
  coroutines (\<open>coro/task.hpp\<close>, \<open>co_start.hpp\<close>), which are the language's suspension and resumption and not a state of the program; traffic counters, socket options and the
  Windows certificate store of the sockets; the console's colours and waiting animation; the start of the process; the configuration of the gates and the ping loop of \<open>gate/remote_gate.cpp\<close>;
  the indices of the database; and generated code.
\<close>

end
